(* ===== verification/Prelude.thy ===== *)
theory Prelude
  imports Main "HOL-Library.Word"
begin

text \<open>
  Shared vocabulary of the development: machine integers, byte sequences, the error
  record and the \<open>Result\<close> type of \<^verbatim>\<open>include/vita/core\<close>, checked arithmetic
  on \<^verbatim>\<open>std::size_t\<close>, and the big-endian 32-bit accessors every codec uses. The
  lemmas at the end are the generic facts on results, words and byte lists that the
  component theories share.

  A \<^verbatim>\<open>std::size_t\<close> is a \<open>nat\<close>; where the code's arithmetic could leave 64 bits
  the bound \<open>size_max\<close> is written out. A \<^verbatim>\<open>std::span\<close> of bytes is the list of
  the bytes it covers.
\<close>

unbundle bit_operations_syntax

named_theorems codec_simps \<open>unfolding rules of the codec definitions\<close>

section \<open>Machine types\<close>

type_synonym u8 = "8 word"
type_synonym u16 = "16 word"
type_synonym u32 = "32 word"
type_synonym u64 = "64 word"
type_synonym bytes = "u8 list"

definition size_max :: nat where
  "size_max = 18446744073709551615"

section \<open>Errors and results\<close>

datatype error_code = Invalid_argument | Unsupported_layout | Unsupported_capability
  | Overflow | Short_input | Short_output | Capacity_exhausted | Stale_generation
  | Invalid_state | Would_deadlock | Callback_failure | No_cpu_access | Resource_limit
  | Identity_conflict

datatype effect_state = Effect_none | Effect_known | Effect_unknown

datatype error_stage = Stage_none | Stage_validation | Stage_encoding | Stage_decoding
  | Stage_admission | Stage_execution | Stage_transport | Stage_lifecycle

record error =
  err_code :: error_code
  err_offset :: nat
  err_required_capacity :: nat
  err_consumed :: nat
  err_field_id :: u16
  err_retryable :: bool
  err_effect :: effect_state
  err_stage :: error_stage
  err_native :: "32 word"

text \<open>\<open>Error{code, offset, required}\<close> with the remaining members at their defaults.\<close>

definition err_need :: "error_code \<Rightarrow> nat \<Rightarrow> nat \<Rightarrow> error" where
  "err_need c off req = \<lparr>err_code = c, err_offset = off, err_required_capacity = req,
     err_consumed = 0, err_field_id = 0, err_retryable = False, err_effect = Effect_none,
     err_stage = Stage_none, err_native = 0\<rparr>"

definition err_at :: "error_code \<Rightarrow> nat \<Rightarrow> error" where
  "err_at c off = err_need c off 0"

definition err :: "error_code \<Rightarrow> error" where
  "err c = err_need c 0 0"

type_synonym 'a result = "error + 'a"

definition and_then :: "'a result \<Rightarrow> ('a \<Rightarrow> 'b result) \<Rightarrow> 'b result" where
  "and_then m f = (case m of Inl e \<Rightarrow> Inl e | Inr v \<Rightarrow> f v)"

section \<open>Checked size arithmetic\<close>

definition checked_add :: "nat \<Rightarrow> nat \<Rightarrow> nat result" where
  "checked_add a b = (if b > size_max - a then Inl (err_at Overflow a) else Inr (a + b))"

definition checked_multiply :: "nat \<Rightarrow> nat \<Rightarrow> nat result" where
  "checked_multiply a b =
     (if a \<noteq> 0 \<and> b > size_max div a then Inl (err Overflow) else Inr (a * b))"

text \<open>Unguarded \<^verbatim>\<open>std::size_t\<close> arithmetic wraps.\<close>

definition size_add :: "nat \<Rightarrow> nat \<Rightarrow> nat" where
  "size_add a b = (a + b) mod (size_max + 1)"

definition size_sub :: "nat \<Rightarrow> nat \<Rightarrow> nat" where
  "size_sub a b = (if b \<le> a then a - b else a + (size_max + 1) - b)"

section \<open>Byte-order accessors\<close>

definition word_of_be :: "u8 \<Rightarrow> u8 \<Rightarrow> u8 \<Rightarrow> u8 \<Rightarrow> u32" where
  "word_of_be a b c d =
     push_bit 24 (ucast a) OR push_bit 16 (ucast b) OR push_bit 8 (ucast c) OR ucast d"

definition be_of_word :: "u32 \<Rightarrow> bytes" where
  "be_of_word w =
     [ucast (drop_bit 24 w), ucast (drop_bit 16 w), ucast (drop_bit 8 w), ucast w]"

text \<open>The caller proves the four-byte extent, as the source demands of its callers.\<close>

definition load32 :: "bytes \<Rightarrow> nat \<Rightarrow> u32" where
  "load32 data off =
     word_of_be (data ! off) (data ! (off + 1)) (data ! (off + 2)) (data ! (off + 3))"

text \<open>\<open>memcpy\<close>/\<open>memmove\<close> of a whole value into a buffer.\<close>

definition write_bytes :: "bytes \<Rightarrow> nat \<Rightarrow> bytes \<Rightarrow> bytes" where
  "write_bytes out off bs = take off out @ bs @ drop (off + length bs) out"

definition store32 :: "bytes \<Rightarrow> nat \<Rightarrow> u32 \<Rightarrow> bytes" where
  "store32 out off w = write_bytes out off (be_of_word w)"

definition subspan :: "'a list \<Rightarrow> nat \<Rightarrow> nat \<Rightarrow> 'a list" where
  "subspan xs off n = take n (drop off xs)"

definition test_bit32 :: "u32 \<Rightarrow> nat \<Rightarrow> bool" where
  "test_bit32 w n = (w AND push_bit n 1 \<noteq> 0)"

section \<open>Lemmas on results\<close>

lemma and_then_simps [simp]:
  "and_then (Inl e) f = Inl e"
  "and_then (Inr v) f = f v"
  by (simp_all add: and_then_def)

lemma and_then_eq_Inr: "and_then m f = Inr y \<longleftrightarrow> (\<exists>v. m = Inr v \<and> f v = Inr y)"
  by (cases m) auto

lemma and_then_eq_Inl:
  "and_then m f = Inl e \<longleftrightarrow> m = Inl e \<or> (\<exists>v. m = Inr v \<and> f v = Inl e)"
  by (cases m) auto

lemma if_Inl_eq_Inr [simp]:
  "(if c then Inl e else m) = Inr y \<longleftrightarrow> \<not> c \<and> m = Inr y"
  "(if c then m else Inl e) = Inr y \<longleftrightarrow> c \<and> m = Inr y"
  by auto

lemma checked_add_Inr [simp]:
  "checked_add a b = Inr c \<longleftrightarrow> c = a + b \<and> b \<le> size_max - a"
  by (auto simp: checked_add_def)

lemma checked_multiply_Inr [simp]:
  "checked_multiply a b = Inr c \<longleftrightarrow> c = a * b \<and> a * b \<le> size_max"
proof (cases "a = 0")
  case False
  then have "(b \<le> size_max div a) = (a * b \<le> size_max)"
    by (simp add: less_eq_div_iff_mult_less_eq mult.commute)
  with False show ?thesis by (auto simp: checked_multiply_def)
qed (auto simp: checked_multiply_def)

lemma size_add_id [simp]: "a + b \<le> size_max \<Longrightarrow> size_add a b = a + b"
  by (simp add: size_add_def)

lemma size_sub_id [simp]: "b \<le> a \<Longrightarrow> size_sub a b = a - b"
  by (simp add: size_sub_def)

section \<open>Lemmas on words and bytes\<close>

lemma length_be_of_word [simp]: "length (be_of_word w) = 4"
  by (simp add: be_of_word_def)

lemma word_less_bitD: "(w :: 'a::len word) < 2 ^ k \<Longrightarrow> bit w n \<Longrightarrow> n < k"
  by (metis bit_and_iff bit_mask_iff less_mask_eq)

lemma bit_bounds [dest]:
  "bit (a :: u8) n \<Longrightarrow> n < 8"
  "bit (b :: u16) n \<Longrightarrow> n < 16"
  "bit (c :: u32) n \<Longrightarrow> n < 32"
  by (drule bit_imp_le_length; simp)+

lemma word_of_be_of_word [simp]:
  "word_of_be (ucast (drop_bit 24 w)) (ucast (drop_bit 16 w)) (ucast (drop_bit 8 w)) (ucast w) = w"
proof (rule bit_word_eqI)
  fix n assume "n < LENGTH(32)"
  then consider "n < 8" | "8 \<le> n" "n < 16" | "16 \<le> n" "n < 24" | "24 \<le> n" "n < 32"
    by fastforce
  then show "bit (word_of_be (ucast (drop_bit 24 w)) (ucast (drop_bit 16 w))
      (ucast (drop_bit 8 w)) (ucast w)) n = bit w n"
    by cases (auto simp: word_of_be_def bit_simps)
qed

lemma be_of_word_of_be [simp]: "be_of_word (word_of_be a b c d) = [a, b, c, d]"
  unfolding be_of_word_def word_of_be_def list.inject
  by (intro conjI refl; rule bit_word_eqI; auto simp: bit_simps)

lemma load32_append [simp]:
  "load32 (be_of_word w @ rest) 0 = w"
  by (simp add: load32_def be_of_word_def)

lemma load32_drop: "off + 4 \<le> length data \<Longrightarrow> load32 data off = load32 (drop off data) 0"
  by (simp add: load32_def)

lemma four_elements: "4 \<le> length xs \<Longrightarrow> xs = [xs ! 0, xs ! 1, xs ! 2, xs ! 3] @ drop 4 xs"
  by (cases xs rule: list.exhaust; cases "tl xs"; cases "tl (tl xs)"; cases "tl (tl (tl xs))")
     (auto simp: eval_nat_numeral)

lemma be_of_load32: "4 \<le> length xs \<Longrightarrow> be_of_word (load32 xs 0) @ drop 4 xs = xs"
  using four_elements [of xs] by (simp add: load32_def numeral_2_eq_2)

lemma bit_flag32:
  "k < 32 \<Longrightarrow> bit (if c then push_bit k 1 else (0 :: u32)) n \<longleftrightarrow> c \<and> n = k"
  by (cases c) (auto simp: bit_push_bit_iff bit_exp_iff)

lemma length_write_bytes [simp]:
  "off + length bs \<le> length out \<Longrightarrow> length (write_bytes out off bs) = length out"
  by (simp add: write_bytes_def)

lemma take_write_bytes:
  "off + length bs \<le> length out \<Longrightarrow>
   take (off + length bs) (write_bytes out off bs) = take off out @ bs"
  by (simp add: write_bytes_def)

lemma drop_write_bytes:
  "off + length bs \<le> length out \<Longrightarrow> off + length bs \<le> n \<Longrightarrow>
   drop n (write_bytes out off bs) = drop n out"
  by (simp add: write_bytes_def)

lemma drop_write_bytes_at:
  "off + length bs \<le> length out \<Longrightarrow>
   drop off (write_bytes out off bs) = bs @ drop (off + length bs) out"
  by (simp add: write_bytes_def)

lemma write_bytes_Nil [simp]: "write_bytes out off [] = out"
  by (simp add: write_bytes_def)

lemma write_bytes_append:
  "off + length a + length b \<le> length out \<Longrightarrow>
   write_bytes (write_bytes out off a) (off + length a) b = write_bytes out off (a @ b)"
  by (simp add: write_bytes_def add_ac)

lemma write_bytes_prepend:
  "off + length a + length b \<le> length out \<Longrightarrow>
   write_bytes (write_bytes out (off + length a) b) off a = write_bytes out off (a @ b)"
  by (simp add: write_bytes_def add_ac)

lemma take_write_bytes_0:
  "length bs \<le> length out \<Longrightarrow> take (length bs) (write_bytes out 0 bs) = bs"
  by (simp add: write_bytes_def)

lemma test_bit32_iff [simp]: "test_bit32 w n \<longleftrightarrow> bit w n"
  by (metis (no_types, lifting) test_bit32_def bit_iff_and_push_bit_not_eq_0)

end
