(* ===== verification/Wire.thy ===== *)
theory Wire
  imports Prelude
begin

text \<open>
  The packet envelope codec of \<^verbatim>\<open>include/vita/codec/wire.hpp\<close> and
  \<^verbatim>\<open>include/vita/codec/prologue.hpp\<close>: the envelope data model, its validation and
  measurement, the encoder and the decoder. An output span is passed in and the written
  span is returned; the payload is read before anything is written, as the source's leading
  \<^verbatim>\<open>memmove\<close> does. Enumerations are datatypes whose \<open>_code\<close> functions are the
  underlying values, so the source's range guards on enumerations are kept and are decided
  by those functions.
\<close>

section \<open>Data model\<close>

datatype packet_type = Signal_without_sid | Signal | Extension_without_sid | Extension_data
  | Context | Extension_context | Command_packet | Extension_command

datatype tsi = Tsi_none | Tsi_utc | Tsi_gps | Tsi_other

datatype tsf = Tsf_none | Tsf_sample_count | Tsf_picoseconds | Tsf_free_running

record timestamp =
  ts_tsi :: tsi
  ts_tsf :: tsf
  ts_integer :: u32
  ts_fractional :: u64

record class_ident =
  cls_oui :: u32
  cls_information_class :: u16
  cls_packet_class :: u16
  cls_pad_bits :: u8

datatype identifier_kind = Id_absent | Id_short | Id_uuid

type_synonym u32x4 = "u32 \<times> u32 \<times> u32 \<times> u32"

record ident =
  id_kind :: identifier_kind
  id_words :: u32x4

record command =
  cmd_cam :: u32
  cmd_message_id :: u32
  cmd_controllee :: ident
  cmd_controller :: ident

record envelope =
  env_type :: packet_type
  env_packet_count :: u8
  env_stream_id :: "u32 option"
  env_class_id :: "class_ident option"
  env_timestamp :: timestamp
  env_trailer :: bool
  env_nd0 :: bool
  env_spectrum :: bool
  env_tsm :: bool
  env_ack :: bool
  env_cancel :: bool
  env_command :: "command option"

record envelope_view =
  view_envelope :: envelope
  view_payload :: bytes
  view_trailer :: "u32 option"
  view_payload_offset :: nat
  view_wire :: bytes

fun packet_type_code :: "packet_type \<Rightarrow> u32" where
  "packet_type_code Signal_without_sid = 0"
| "packet_type_code Signal = 1"
| "packet_type_code Extension_without_sid = 2"
| "packet_type_code Extension_data = 3"
| "packet_type_code Context = 4"
| "packet_type_code Extension_context = 5"
| "packet_type_code Command_packet = 6"
| "packet_type_code Extension_command = 7"

text \<open>\<open>static_cast<PacketType>\<close>, applied by the decoders to a code of at most 7 only.\<close>

definition packet_type_of :: "u32 \<Rightarrow> packet_type" where
  "packet_type_of c =
     (if c = 0 then Signal_without_sid else if c = 1 then Signal
      else if c = 2 then Extension_without_sid else if c = 3 then Extension_data
      else if c = 4 then Context else if c = 5 then Extension_context
      else if c = 6 then Command_packet else Extension_command)"

fun tsi_code :: "tsi \<Rightarrow> u32" where
  "tsi_code Tsi_none = 0"
| "tsi_code Tsi_utc = 1"
| "tsi_code Tsi_gps = 2"
| "tsi_code Tsi_other = 3"

definition tsi_of :: "u32 \<Rightarrow> tsi" where
  "tsi_of c = (if c = 0 then Tsi_none else if c = 1 then Tsi_utc
     else if c = 2 then Tsi_gps else Tsi_other)"

fun tsf_code :: "tsf \<Rightarrow> u32" where
  "tsf_code Tsf_none = 0"
| "tsf_code Tsf_sample_count = 1"
| "tsf_code Tsf_picoseconds = 2"
| "tsf_code Tsf_free_running = 3"

definition tsf_of :: "u32 \<Rightarrow> tsf" where
  "tsf_of c = (if c = 0 then Tsf_none else if c = 1 then Tsf_sample_count
     else if c = 2 then Tsf_picoseconds else Tsf_free_running)"

fun identifier_kind_code :: "identifier_kind \<Rightarrow> u32" where
  "identifier_kind_code Id_absent = 0"
| "identifier_kind_code Id_short = 1"
| "identifier_kind_code Id_uuid = 2"

definition absent_id :: ident where
  "absent_id = \<lparr>id_kind = Id_absent, id_words = (0, 0, 0, 0)\<rparr>"

definition short_id :: "u32 \<Rightarrow> ident" where
  "short_id v = \<lparr>id_kind = Id_short, id_words = (v, 0, 0, 0)\<rparr>"

definition uuid_id :: "u32x4 \<Rightarrow> ident" where
  "uuid_id ws = \<lparr>id_kind = Id_uuid, id_words = ws\<rparr>"

definition size_words :: "ident \<Rightarrow> nat" where
  "size_words i = (if id_kind i = Id_absent then 0 else if id_kind i = Id_short then 1 else 4)"

definition empty_timestamp :: timestamp where
  "empty_timestamp = \<lparr>ts_tsi = Tsi_none, ts_tsf = Tsf_none, ts_integer = 0, ts_fractional = 0\<rparr>"

definition empty_envelope :: envelope where
  "empty_envelope = \<lparr>env_type = Signal, env_packet_count = 0, env_stream_id = None,
     env_class_id = None, env_timestamp = empty_timestamp, env_trailer = False,
     env_nd0 = False, env_spectrum = False, env_tsm = False, env_ack = False,
     env_cancel = False, env_command = None\<rparr>"

definition is_data :: "packet_type \<Rightarrow> bool" where
  "is_data t = (packet_type_code t \<le> 3)"

definition is_command :: "packet_type \<Rightarrow> bool" where
  "is_command t = (packet_type_code t \<ge> 6)"

definition is_extension :: "packet_type \<Rightarrow> bool" where
  "is_extension t = (t = Extension_without_sid \<or> t = Extension_data \<or> t = Extension_context
     \<or> t = Extension_command)"

section \<open>Validation and measurement\<close>

definition popcount32 :: "u32 \<Rightarrow> nat" where
  "popcount32 w = length (filter (bit w) [0..<32])"

definition cam_action :: "u32 \<Rightarrow> u32" where
  "cam_action cam = drop_bit 23 cam AND 3"

definition cam_timing :: "u32 \<Rightarrow> u32" where
  "cam_timing cam = drop_bit 12 cam AND 7"

text \<open>\<open>cam\<close> is \<open>e.command->cam\<close>; every caller has checked that the command is there.\<close>

definition validate_cam :: "envelope \<Rightarrow> u32 \<Rightarrow> unit result" where
  "validate_cam e cam =
     (let reserved = push_bit 21 1 OR push_bit 15 1
            OR (if env_ack e then 0x300 else 0xf00)
            OR (if env_type e = Extension_command then 1 else 0xff);
          timing = cam_timing cam
      in if cam AND reserved \<noteq> 0 then Inl (err Invalid_argument)
         else if cam_action cam = 3 then Inl (err Invalid_argument)
         else if timing > 4 \<and> \<not> (env_ack e \<and> timing = 7) then Inl (err Invalid_argument)
         else if timing \<noteq> 0 \<and> \<not> env_ack e \<and> ts_tsi (env_timestamp e) = Tsi_none
                \<and> ts_tsf (env_timestamp e) = Tsf_none then Inl (err Invalid_argument)
         else if env_ack e \<and> popcount32 (drop_bit 18 cam AND 7) \<noteq> 1
              then Inl (err Invalid_argument)
         else if env_ack e \<and> test_bit32 cam 18 \<and> cam AND (push_bit 17 1 OR push_bit 16 1) \<noteq> 0
              then Inl (err Invalid_argument)
         else if env_cancel e \<and> \<not> env_ack e
                \<and> (cam_action cam \<noteq> 2 \<or> \<not> test_bit32 cam 27 \<or> test_bit32 cam 20
                   \<or> (test_bit32 cam 18 \<and> \<not> test_bit32 cam 19))
              then Inl (err Invalid_argument)
         else Inr ())"

definition check_id :: "u32 \<Rightarrow> ident \<Rightarrow> nat \<Rightarrow> nat \<Rightarrow> bool" where
  "check_id cam i enable uuid =
     (if identifier_kind_code (id_kind i) > 2 then False
      else if test_bit32 cam enable \<noteq> (id_kind i \<noteq> Id_absent) then False
      else if id_kind i \<noteq> Id_absent \<and> test_bit32 cam uuid \<noteq> (id_kind i = Id_uuid) then False
      else id_kind i \<noteq> Id_uuid
           \<or> (case id_words i of (a, b, c, d) \<Rightarrow> a OR b OR c OR d \<noteq> 0))"

definition carries_sid :: "packet_type \<Rightarrow> bool" where
  "carries_sid t = (packet_type_code t \<noteq> 0 \<and> packet_type_code t \<noteq> 2)"

definition indicators_ok :: "envelope \<Rightarrow> bool" where
  "indicators_ok e =
     (if is_data (env_type e)
      then \<not> (env_ack e \<or> env_cancel e \<or> env_tsm e \<or> env_command e \<noteq> None)
      else if is_command (env_type e)
      then \<not> (env_trailer e \<or> env_nd0 e \<or> env_spectrum e \<or> env_tsm e \<or> env_command e = None)
      else \<not> (env_trailer e \<or> env_ack e \<or> env_cancel e \<or> env_spectrum e
               \<or> env_command e \<noteq> None))"

definition command_words :: "envelope \<Rightarrow> nat result" where
  "command_words e =
     (case env_command e of None \<Rightarrow> Inr 0
      | Some c \<Rightarrow> and_then (validate_cam e (cmd_cam c)) (\<lambda>_.
          if \<not> check_id (cmd_cam c) (cmd_controllee c) 31 30
             \<or> \<not> check_id (cmd_cam c) (cmd_controller c) 29 28
          then Inl (err Invalid_argument)
          else Inr (2 + size_words (cmd_controllee c) + size_words (cmd_controller c))))"

definition base_words :: "envelope \<Rightarrow> nat" where
  "base_words e = 1 + (if carries_sid (env_type e) then 1 else 0)
     + (if env_class_id e \<noteq> None then 2 else 0)
     + (if ts_tsi (env_timestamp e) \<noteq> Tsi_none then 1 else 0)
     + (if ts_tsf (env_timestamp e) \<noteq> Tsf_none then 2 else 0)
     + (if env_trailer e then 1 else 0)"

definition measure_envelope :: "envelope \<Rightarrow> nat \<Rightarrow> nat result" where
  "measure_envelope e payload_bytes =
     (if packet_type_code (env_type e) > 7 \<or> env_packet_count e > 15
         \<or> tsi_code (ts_tsi (env_timestamp e)) > 3 \<or> tsf_code (ts_tsf (env_timestamp e)) > 3
      then Inl (err Invalid_argument)
      else if carries_sid (env_type e) \<noteq> (env_stream_id e \<noteq> None)
      then Inl (err Invalid_argument)
      else if (case env_class_id e of None \<Rightarrow> False
               | Some k \<Rightarrow> cls_oui k > 0xffffff \<or> cls_pad_bits k > 31)
      then Inl (err Invalid_argument)
      else if \<not> indicators_ok e then Inl (err Invalid_argument)
      else if payload_bytes mod 4 \<noteq> 0 then Inl (err Invalid_argument)
      else if is_data (env_type e) \<and> payload_bytes = 0 then Inl (err Invalid_argument)
      else and_then (command_words e) (\<lambda>extra.
           and_then (checked_add (base_words e + extra) (payload_bytes div 4)) (\<lambda>total.
             if total > 65535 then Inl (err Overflow) else Inr (total * 4))))"

section \<open>Encoding\<close>

definition header_flags :: "envelope \<Rightarrow> u32" where
  "header_flags e =
     (if is_data (env_type e)
      then (if env_trailer e then push_bit 26 1 else 0)
           OR (if env_nd0 e then push_bit 25 1 else 0)
           OR (if env_spectrum e then push_bit 24 1 else 0)
      else if is_command (env_type e)
      then (if env_ack e then push_bit 26 1 else 0)
           OR (if env_cancel e then push_bit 24 1 else 0)
      else (if env_nd0 e then push_bit 25 1 else 0)
           OR (if env_tsm e then push_bit 24 1 else 0))"

definition header_word :: "envelope \<Rightarrow> nat \<Rightarrow> u32" where
  "header_word e sz =
     push_bit 28 (packet_type_code (env_type e))
     OR (if env_class_id e \<noteq> None then push_bit 27 1 else 0)
     OR push_bit 22 (tsi_code (ts_tsi (env_timestamp e)))
     OR push_bit 20 (tsf_code (ts_tsf (env_timestamp e)))
     OR push_bit 16 (ucast (env_packet_count e)) OR of_nat (sz div 4) OR header_flags e"

definition id_word_list :: "ident \<Rightarrow> u32 list" where
  "id_word_list i = (case id_words i of (a, b, c, d) \<Rightarrow> take (size_words i) [a, b, c, d])"

definition class_words :: "class_ident \<Rightarrow> u32 list" where
  "class_words k = [push_bit 27 (ucast (cls_pad_bits k)) OR cls_oui k,
     push_bit 16 (ucast (cls_information_class k)) OR ucast (cls_packet_class k)]"

definition timestamp_words :: "timestamp \<Rightarrow> u32 list" where
  "timestamp_words t =
     (if ts_tsi t \<noteq> Tsi_none then [ts_integer t] else [])
     @ (if ts_tsf t \<noteq> Tsf_none
        then [ucast (drop_bit 32 (ts_fractional t)), ucast (ts_fractional t)] else [])"

definition command_word_list :: "command \<Rightarrow> u32 list" where
  "command_word_list c = [cmd_cam c, cmd_message_id c] @ id_word_list (cmd_controllee c)
     @ id_word_list (cmd_controller c)"

text \<open>The words the source's \<open>put\<close> calls store, in their order.\<close>

definition prologue_words :: "envelope \<Rightarrow> nat \<Rightarrow> u32 list" where
  "prologue_words e sz =
     header_word e sz
     # (case env_stream_id e of None \<Rightarrow> [] | Some s \<Rightarrow> [s])
     @ (case env_class_id e of None \<Rightarrow> [] | Some k \<Rightarrow> class_words k)
     @ timestamp_words (env_timestamp e)
     @ (case env_command e of None \<Rightarrow> [] | Some c \<Rightarrow> command_word_list c)"

fun put_words :: "bytes \<Rightarrow> nat \<Rightarrow> u32 list \<Rightarrow> bytes \<times> nat" where
  "put_words out off [] = (out, off)"
| "put_words out off (w # ws) = put_words (store32 out off w) (off + 4) ws"

definition encode_envelope ::
  "envelope \<Rightarrow> bytes \<Rightarrow> u32 option \<Rightarrow> bytes \<Rightarrow> (bytes \<times> nat) result" where
  "encode_envelope e payload trailer output =
     (if env_trailer e \<noteq> (trailer \<noteq> None) then Inl (err Invalid_argument)
      else and_then (measure_envelope e (length payload)) (\<lambda>sz.
        if length output < sz then Inl (err_need Short_output 0 sz)
        else
          let payload_offset = sz - length payload - (if env_trailer e then 4 else 0);
              out1 = (if payload = [] then output
                      else write_bytes output payload_offset payload);
              (out2, off) = put_words out1 0 (prologue_words e sz);
              off2 = off + length payload
          in case trailer of None \<Rightarrow> Inr (out2, off2)
             | Some t \<Rightarrow> Inr (put_words out2 off2 [t])))"

section \<open>Decoding\<close>

definition take32 :: "bytes \<Rightarrow> nat \<Rightarrow> nat \<Rightarrow> (u32 \<times> nat) result" where
  "take32 wire sz off =
     (if off > sz \<or> sz - off < 4 then Inl (err_need Short_input off (off + 4))
      else Inr (load32 wire off, off + 4))"

text \<open>\<open>auto a = take(), b = take();\<close> with the error of \<open>a\<close> reported first.\<close>

definition take_pair :: "bytes \<Rightarrow> nat \<Rightarrow> nat \<Rightarrow> (u32 \<times> u32 \<times> nat) result" where
  "take_pair wire sz off =
     and_then (take32 wire sz off) (\<lambda>(a, off1).
     and_then (take32 wire sz off1) (\<lambda>(b, off2). Inr (a, b, off2)))"

definition decode_header :: "u32 \<Rightarrow> envelope result" where
  "decode_header h =
     (let e = empty_envelope\<lparr>env_type := packet_type_of (drop_bit 28 h),
                env_packet_count := ucast (drop_bit 16 h AND 15),
                env_timestamp := empty_timestamp\<lparr>ts_tsi := tsi_of (drop_bit 22 h AND 3),
                                                 ts_tsf := tsf_of (drop_bit 20 h AND 3)\<rparr>\<rparr>
      in if is_data (env_type e)
         then Inr (e\<lparr>env_trailer := test_bit32 h 26, env_nd0 := test_bit32 h 25,
                     env_spectrum := test_bit32 h 24\<rparr>)
         else if is_command (env_type e)
         then (if test_bit32 h 25 then Inl (err Invalid_argument)
               else Inr (e\<lparr>env_ack := test_bit32 h 26, env_cancel := test_bit32 h 24\<rparr>))
         else (if test_bit32 h 26 then Inl (err Invalid_argument)
               else Inr (e\<lparr>env_nd0 := test_bit32 h 25, env_tsm := test_bit32 h 24\<rparr>)))"

definition take_stream_id :: "bytes \<Rightarrow> nat \<Rightarrow> u32 \<Rightarrow> nat \<Rightarrow> (u32 option \<times> nat) result" where
  "take_stream_id wire sz type off =
     (if type \<noteq> 0 \<and> type \<noteq> 2
      then and_then (take32 wire sz off) (\<lambda>(v, off'). Inr (Some v, off'))
      else Inr (None, off))"

definition class_of_words :: "u32 \<Rightarrow> u32 \<Rightarrow> class_ident" where
  "class_of_words a b = \<lparr>cls_oui = a AND 0xffffff,
     cls_information_class = ucast (drop_bit 16 b), cls_packet_class = ucast b,
     cls_pad_bits = ucast (drop_bit 27 a)\<rparr>"

definition take_class_id ::
  "bytes \<Rightarrow> nat \<Rightarrow> u32 \<Rightarrow> nat \<Rightarrow> (class_ident option \<times> nat) result" where
  "take_class_id wire sz h off =
     (if test_bit32 h 27
      then and_then (take_pair wire sz off) (\<lambda>(a, b, off').
             if a AND 0x07000000 \<noteq> 0 then Inl (err_at Invalid_argument (off' - 8))
             else Inr (Some (class_of_words a b), off'))
      else Inr (None, off))"

definition take_ts_integer :: "bytes \<Rightarrow> nat \<Rightarrow> timestamp \<Rightarrow> nat \<Rightarrow> (timestamp \<times> nat) result" where
  "take_ts_integer wire sz t off =
     (if ts_tsi t \<noteq> Tsi_none
      then and_then (take32 wire sz off) (\<lambda>(v, off'). Inr (t\<lparr>ts_integer := v\<rparr>, off'))
      else Inr (t, off))"

definition take_ts_fractional ::
  "bytes \<Rightarrow> nat \<Rightarrow> timestamp \<Rightarrow> nat \<Rightarrow> (timestamp \<times> nat) result" where
  "take_ts_fractional wire sz t off =
     (if ts_tsf t \<noteq> Tsf_none
      then and_then (take_pair wire sz off) (\<lambda>(a, b, off').
             Inr (t\<lparr>ts_fractional := push_bit 32 (ucast a) OR ucast b\<rparr>, off'))
      else Inr (t, off))"

definition take_identifier ::
  "bytes \<Rightarrow> nat \<Rightarrow> u32 \<Rightarrow> nat \<Rightarrow> nat \<Rightarrow> nat \<Rightarrow> (ident \<times> nat) result" where
  "take_identifier wire sz cam enable uuid off =
     (if test_bit32 cam enable
      then if test_bit32 cam uuid
           then and_then (take_pair wire sz off) (\<lambda>(a, b, off1).
                and_then (take_pair wire sz off1) (\<lambda>(c, d, off2).
                  Inr (uuid_id (a, b, c, d), off2)))
           else and_then (take32 wire sz off) (\<lambda>(v, off1). Inr (short_id v, off1))
      else Inr (absent_id, off))"

definition take_command ::
  "bytes \<Rightarrow> nat \<Rightarrow> packet_type \<Rightarrow> nat \<Rightarrow> (command option \<times> nat) result" where
  "take_command wire sz type off =
     (if is_command type
      then and_then (take_pair wire sz off) (\<lambda>(cam, mid, off1).
           and_then (take_identifier wire sz cam 31 30 off1) (\<lambda>(controllee, off2).
           and_then (take_identifier wire sz cam 29 28 off2) (\<lambda>(controller, off3).
             Inr (Some \<lparr>cmd_cam = cam, cmd_message_id = mid, cmd_controllee = controllee,
                        cmd_controller = controller\<rparr>, off3))))
      else Inr (None, off))"

definition take_envelope :: "bytes \<Rightarrow> nat \<Rightarrow> u32 \<Rightarrow> envelope \<Rightarrow> (envelope \<times> nat) result" where
  "take_envelope wire sz h e =
     and_then (take_stream_id wire sz (drop_bit 28 h) 4) (\<lambda>(sid, off1).
     and_then (take_class_id wire sz h off1) (\<lambda>(cls, off2).
     and_then (take_ts_integer wire sz (env_timestamp e) off2) (\<lambda>(ts, off3).
     and_then (take_ts_fractional wire sz ts off3) (\<lambda>(ts', off4).
     and_then (take_command wire sz (env_type e) off4) (\<lambda>(cmd, off5).
       Inr (e\<lparr>env_stream_id := sid, env_class_id := cls, env_timestamp := ts',
              env_command := cmd\<rparr>, off5))))))"

definition decode_envelope :: "bytes \<Rightarrow> envelope_view result" where
  "decode_envelope wire =
     (if length wire < 4 then Inl (err_need Short_input 0 4)
      else let h = load32 wire 0; type = drop_bit 28 h; sz = unat (h AND 0xffff) * 4
      in if type > 7 \<or> sz = 0 then Inl (err Invalid_argument)
         else if sz > length wire then Inl (err_need Short_input (length wire) sz)
         else if sz \<noteq> length wire then Inl (err_at Invalid_argument sz)
         else and_then (decode_header h) (\<lambda>e0.
              and_then (take_envelope wire sz h e0) (\<lambda>(e, off).
                let trailer_size = (if env_trailer e then 4 else 0)
                in if off > sz \<or> trailer_size > sz - off
                   then Inl (err_need Short_input off (off + trailer_size))
                   else let payload = subspan wire off (sz - off - trailer_size)
                   in and_then (measure_envelope e (length payload)) (\<lambda>_.
                        Inr \<lparr>view_envelope = e, view_payload = payload,
                             view_trailer = (if env_trailer e then Some (load32 wire (sz - 4))
                                             else None),
                             view_payload_offset = off, view_wire = wire\<rparr>))))"

section \<open>The split prologue and trailer writers\<close>

record envelope_layout =
  lay_packet_bytes :: nat
  lay_prologue_bytes :: nat
  lay_payload_offset :: nat
  lay_payload_bytes :: nat
  lay_trailer_offset :: "nat option"

definition measure_prologue :: "envelope \<Rightarrow> nat \<Rightarrow> envelope_layout result" where
  "measure_prologue e payload_bytes =
     and_then (measure_envelope e payload_bytes) (\<lambda>total.
       let prefix = total - payload_bytes - (if env_trailer e then 4 else 0)
       in Inr \<lparr>lay_packet_bytes = total, lay_prologue_bytes = prefix,
               lay_payload_offset = prefix, lay_payload_bytes = payload_bytes,
               lay_trailer_offset = (if env_trailer e then Some (total - 4) else None)\<rparr>)"

definition write_prologue :: "envelope \<Rightarrow> nat \<Rightarrow> bytes \<Rightarrow> bytes \<times> nat" where
  "write_prologue e packet_bytes output = put_words output 0 (prologue_words e packet_bytes)"

definition encode_prologue :: "envelope \<Rightarrow> nat \<Rightarrow> bytes \<Rightarrow> (bytes \<times> nat) result" where
  "encode_prologue e payload_bytes output =
     and_then (measure_prologue e payload_bytes) (\<lambda>layout.
       if length output < lay_prologue_bytes layout
       then Inl (err_need Short_output 0 (lay_prologue_bytes layout))
       else Inr (write_prologue e (lay_packet_bytes layout) output))"

definition encode_trailer :: "u32 \<Rightarrow> bytes \<Rightarrow> (bytes \<times> nat) result" where
  "encode_trailer trailer output =
     (if length output < 4 then Inl (err_need Short_output 0 4)
      else Inr (store32 output 0 trailer, 4))"

lemma packet_kind_simps [simp]:
  "is_data Signal_without_sid" "is_data Signal" "is_data Extension_without_sid"
  "is_data Extension_data" "\<not> is_data Context" "\<not> is_data Extension_context"
  "\<not> is_data Command_packet" "\<not> is_data Extension_command"
  "\<not> is_command Signal_without_sid" "\<not> is_command Signal" "\<not> is_command Extension_without_sid"
  "\<not> is_command Extension_data" "\<not> is_command Context" "\<not> is_command Extension_context"
  "is_command Command_packet" "is_command Extension_command"
  by (simp_all add: is_data_def is_command_def not_le)

end
