(* ===== verification/Wire_Roundtrip.thy ===== *)
theory Wire_Roundtrip
  imports Wire
begin

text \<open>
  The round trips of the envelope codec. A word list \<open>ws\<close> lies between two offsets of a
  wire image (\<open>spans\<close>) exactly when the decoder's \<open>take\<close> steps return it; every
  stage of the decoder has one equivalence of that form, and the two round trips are read
  off the composition of the stages.
\<close>

unbundle bit_operations_syntax

section \<open>Word lists in a byte image\<close>

definition be_words :: "u32 list \<Rightarrow> bytes" where
  "be_words ws = concat (map be_of_word ws)"

definition spans :: "bytes \<Rightarrow> nat \<Rightarrow> u32 list \<Rightarrow> nat \<Rightarrow> bool" where
  "spans wire off ws off' \<longleftrightarrow> off' = off + 4 * length ws \<and> off' \<le> length wire
     \<and> drop off wire = be_words ws @ drop off' wire"

text \<open>What the wire carries of an envelope: parts that are not sent are cleared.\<close>

definition canonical_id :: "ident \<Rightarrow> ident" where
  "canonical_id i = (case id_kind i of Id_absent \<Rightarrow> absent_id
     | Id_short \<Rightarrow> short_id (fst (id_words i)) | Id_uuid \<Rightarrow> i)"

definition canonical_ts :: "timestamp \<Rightarrow> timestamp" where
  "canonical_ts t = t\<lparr>ts_integer := (if ts_tsi t = Tsi_none then 0 else ts_integer t),
     ts_fractional := (if ts_tsf t = Tsf_none then 0 else ts_fractional t)\<rparr>"

definition canonical_command :: "command \<Rightarrow> command" where
  "canonical_command c = c\<lparr>cmd_controllee := canonical_id (cmd_controllee c),
     cmd_controller := canonical_id (cmd_controller c)\<rparr>"

definition canonical_envelope :: "envelope \<Rightarrow> envelope" where
  "canonical_envelope e = e\<lparr>env_timestamp := canonical_ts (env_timestamp e),
     env_command := map_option canonical_command (env_command e)\<rparr>"

definition class_ok :: "class_ident option \<Rightarrow> bool" where
  "class_ok k = (case k of None \<Rightarrow> True | Some c \<Rightarrow> cls_oui c \<le> 0xffffff \<and> cls_pad_bits c \<le> 31)"

definition tail_words :: "envelope \<Rightarrow> u32 list" where
  "tail_words e = (case env_stream_id e of None \<Rightarrow> [] | Some s \<Rightarrow> [s])
     @ (case env_class_id e of None \<Rightarrow> [] | Some k \<Rightarrow> class_words k)
     @ timestamp_words (env_timestamp e)
     @ (case env_command e of None \<Rightarrow> [] | Some c \<Rightarrow> command_word_list c)"

lemma be_words_simps [simp]:
  "be_words [] = []"
  "be_words (w # ws) = be_of_word w @ be_words ws"
  "be_words (xs @ ys) = be_words xs @ be_words ys"
  by (simp_all add: be_words_def)

lemma length_be_words [simp]: "length (be_words ws) = 4 * length ws"
  by (induction ws) auto

lemma prologue_words_tail: "prologue_words e sz = header_word e sz # tail_words e"
  by (simp add: prologue_words_def tail_words_def)

lemma spans_Nil [simp]: "spans wire off [] off' \<longleftrightarrow> off' = off \<and> off \<le> length wire"
  by (auto simp: spans_def)

lemma drop_eq_append: "drop n xs = ys @ zs \<Longrightarrow> drop (n + length ys) xs = zs"
  by (metis add.commute append_eq_conv_conj drop_drop)

lemma spans_append:
  "spans wire off (xs @ ys) off' \<longleftrightarrow> (\<exists>m. spans wire off xs m \<and> spans wire m ys off')"
proof
  assume s: "spans wire off (xs @ ys) off'"
  have "drop (off + 4 * length xs) wire = be_words ys @ drop off' wire"
    using s drop_eq_append [of off wire "be_words xs" "be_words ys @ drop off' wire"]
    by (simp add: spans_def)
  with s show "\<exists>m. spans wire off xs m \<and> spans wire m ys off'"
    by (intro exI [of _ "off + 4 * length xs"]) (auto simp: spans_def)
next
  assume "\<exists>m. spans wire off xs m \<and> spans wire m ys off'"
  then show "spans wire off (xs @ ys) off'" by (auto simp: spans_def)
qed

lemma spans_trans:
  "spans wire a xs b \<Longrightarrow> spans wire b ys c \<Longrightarrow> spans wire a (xs @ ys) c"
  using spans_append by blast

lemma spans_Cons:
  "spans wire off (x # xs) off' \<longleftrightarrow> (\<exists>m. spans wire off [x] m \<and> spans wire m xs off')"
  using spans_append [of wire off "[x]" xs off'] by simp

lemma take32_iff: "take32 wire (length wire) off = Inr (w, off') \<longleftrightarrow> spans wire off [w] off'"
proof (cases "off + 4 \<le> length wire")
  case True
  then have ld: "load32 wire off = load32 (drop off wire) 0" by (rule load32_drop)
  have "be_of_word (load32 (drop off wire) 0) @ drop 4 (drop off wire) = drop off wire"
    using True by (intro be_of_load32) simp
  with True ld show ?thesis
    by (auto simp: take32_def spans_def add.commute)
next
  case False
  then show ?thesis by (auto simp: take32_def spans_def)
qed

lemma take_pair_iff:
  "take_pair wire (length wire) off = Inr (a, b, off') \<longleftrightarrow> spans wire off [a, b] off'"
  unfolding take_pair_def
  by (auto simp: and_then_eq_Inr take32_iff spans_Cons [of wire off a "[b]"])

section \<open>The prologue stages\<close>

lemma take_stream_id_iff:
  "off \<le> length wire \<Longrightarrow>
   take_stream_id wire (length wire) type off = Inr (s, off') \<longleftrightarrow>
     (s \<noteq> None \<longleftrightarrow> type \<noteq> 0 \<and> type \<noteq> 2)
     \<and> spans wire off (case s of None \<Rightarrow> [] | Some v \<Rightarrow> [v]) off'"
  by (cases s) (auto simp: take_stream_id_def and_then_eq_Inr take32_iff)

lemma word_le_bitD: "(w :: 'a::len word) \<le> v \<Longrightarrow> v < 2 ^ k \<Longrightarrow> bit w n \<Longrightarrow> n < k"
  using word_less_bitD by (metis le_less_trans)

lemma class_words_of_words:
  "a AND 0x07000000 = 0 \<Longrightarrow> class_words (class_of_words a b) = [a, b]"
proof -
  assume a: "a AND 0x07000000 = 0"
  have "\<not> bit a 24 \<and> \<not> bit a 25 \<and> \<not> bit a 26"
    using arg_cong [OF a, of "\<lambda>w. bit w 24"] arg_cong [OF a, of "\<lambda>w. bit w 25"]
      arg_cong [OF a, of "\<lambda>w. bit w 26"] by (simp add: bit_simps)
  then have gap: "bit a n \<Longrightarrow> \<not> 27 \<le> n \<Longrightarrow> n < 24" for n
    by (cases "n = 24"; cases "n = 25"; cases "n = 26") auto
  have m: "(0xffffff :: u32) = mask 24" by (simp add: mask_eq_exp_minus_1)
  have "push_bit 27 (ucast (ucast (drop_bit 27 a) :: u8)) OR (a AND 0xffffff) = a"
    unfolding m
    by (rule bit_word_eqI) (use gap in \<open>auto simp: bit_simps\<close>, metis gap le_add_diff_inverse)
  moreover have "push_bit 16 (ucast (ucast (drop_bit 16 b) :: u16)) OR ucast (ucast b :: u16) = b"
    by (rule bit_word_eqI) (auto simp: bit_simps)
  ultimately show ?thesis by (simp add: class_words_def class_of_words_def)
qed


lemma class_of_words_words:
  assumes "cls_oui k \<le> 0xffffff" and "cls_pad_bits k \<le> 31"
  defines "a \<equiv> push_bit 27 (ucast (cls_pad_bits k)) OR cls_oui k"
  defines "b \<equiv> push_bit 16 (ucast (cls_information_class k)) OR ucast (cls_packet_class k)"
  shows "class_of_words a b = k" and "a AND 0x07000000 = 0"
proof -
  have oui: "bit (cls_oui k) n \<Longrightarrow> n < 24" for n
    using assms(1) by (rule word_le_bitD) simp
  have pad: "bit (cls_pad_bits k) n \<Longrightarrow> n < 5" for n
    using assms(2) by (rule word_le_bitD) simp
  have m: "(0xffffff :: u32) = mask 24" "(0x07000000 :: u32) = push_bit 24 (mask 3)"
    by (simp_all add: mask_eq_exp_minus_1)
  have "a AND 0xffffff = cls_oui k"
    unfolding m a_def by (rule bit_word_eqI) (auto simp: bit_simps dest: oui)
  moreover have "ucast (drop_bit 27 a) = cls_pad_bits k"
    unfolding a_def by (rule bit_word_eqI) (auto simp: bit_simps dest: oui pad)
  moreover have "ucast (drop_bit 16 b) = cls_information_class k" "ucast b = cls_packet_class k"
    unfolding b_def by (rule bit_word_eqI; auto simp: bit_simps)+
  ultimately show "class_of_words a b = k" by (simp add: class_of_words_def)
  show "a AND 0x07000000 = 0"
    unfolding m a_def by (rule bit_word_eqI) (auto simp: bit_simps dest: oui)
qed

lemma class_of_words_ok: "class_ok (Some (class_of_words a b))"
proof -
  have "a AND 0xffffff \<le> 0xffffff" by (rule word_and_le1)
  moreover have "(ucast (drop_bit 27 a) :: u8) = ucast (drop_bit 27 a) AND mask 5"
    by (rule bit_word_eqI) (auto simp: bit_simps)
  then have "(ucast (drop_bit 27 a) :: u8) \<le> mask 5" by (metis word_and_le1)
  ultimately show ?thesis
    by (simp add: class_ok_def class_of_words_def mask_eq_exp_minus_1)
qed

lemma take_class_id_iff:
  "off \<le> length wire \<Longrightarrow>
   take_class_id wire (length wire) h off = Inr (k, off') \<longleftrightarrow>
     (k \<noteq> None \<longleftrightarrow> bit h 27) \<and> class_ok k
     \<and> spans wire off (case k of None \<Rightarrow> [] | Some c \<Rightarrow> class_words c) off'"
proof (cases k)
  case None
  moreover assume "off \<le> length wire"
  ultimately show ?thesis
    by (auto simp: take_class_id_def and_then_eq_Inr class_ok_def)
next
  case (Some c)
  have "take_class_id wire (length wire) h off = Inr (Some c, off') \<longleftrightarrow>
      bit h 27 \<and> (\<exists>a b. spans wire off [a, b] off' \<and> a AND 0x07000000 = 0
                   \<and> c = class_of_words a b)"
    by (auto simp: take_class_id_def and_then_eq_Inr take_pair_iff split: if_splits)
  also have "\<dots> \<longleftrightarrow> bit h 27 \<and> class_ok (Some c) \<and> spans wire off (class_words c) off'"
    using class_words_of_words class_of_words_ok class_of_words_words [of c]
    by (auto simp: class_ok_def class_words_def) metis
  finally show ?thesis using Some by simp
qed

lemma fractional_words:
  "push_bit 32 (ucast (ucast (drop_bit 32 f) :: u32)) OR ucast (ucast f :: u32) = (f :: u64)"
  by (rule bit_word_eqI) (auto simp: bit_simps)

lemma words_fractional:
  "ucast (drop_bit 32 (push_bit 32 (ucast (a :: u32)) OR ucast (b :: u32) :: u64)) = a"
  "ucast (push_bit 32 (ucast (a :: u32)) OR ucast (b :: u32) :: u64) = b"
  by (rule bit_word_eqI; auto simp: bit_simps)+

lemma take_ts_integer_iff:
  assumes "off \<le> length wire"
  shows "take_ts_integer wire (length wire) t off = Inr (t', off') \<longleftrightarrow>
    (\<exists>i. t' = t\<lparr>ts_integer := i\<rparr> \<and> (ts_tsi t = Tsi_none \<longrightarrow> i = ts_integer t)
         \<and> spans wire off (if ts_tsi t \<noteq> Tsi_none then [i] else []) off')"
proof (cases "ts_tsi t = Tsi_none")
  case True
  with assms show ?thesis by (auto simp: take_ts_integer_def)
next
  case False
  then show ?thesis by (auto simp: take_ts_integer_def and_then_eq_Inr take32_iff)
qed

lemma take_ts_fractional_iff:
  assumes "off \<le> length wire"
  shows "take_ts_fractional wire (length wire) t off = Inr (t', off') \<longleftrightarrow>
    (\<exists>f. t' = t\<lparr>ts_fractional := f\<rparr> \<and> (ts_tsf t = Tsf_none \<longrightarrow> f = ts_fractional t)
         \<and> spans wire off (if ts_tsf t \<noteq> Tsf_none
              then [ucast (drop_bit 32 f), ucast f] else []) off')"
proof (cases "ts_tsf t = Tsf_none")
  case True
  with assms show ?thesis by (auto simp: take_ts_fractional_def)
next
  case False
  have "take_ts_fractional wire (length wire) t off = Inr (t', off') \<longleftrightarrow>
      (\<exists>a b. t' = t\<lparr>ts_fractional := push_bit 32 (ucast a) OR ucast b\<rparr>
             \<and> spans wire off [a, b] off')"
    using False by (auto simp: take_ts_fractional_def and_then_eq_Inr take_pair_iff)
  also have "\<dots> \<longleftrightarrow> (\<exists>f. t' = t\<lparr>ts_fractional := f\<rparr>
             \<and> spans wire off [ucast (drop_bit 32 f), ucast f] off')"
    by (metis fractional_words words_fractional)
  finally show ?thesis using False by simp
qed

lemma take_identifier_iff:
  assumes "off \<le> length wire"
  shows "take_identifier wire (length wire) cam en uu off = Inr (i, off') \<longleftrightarrow>
     (bit cam en \<longleftrightarrow> id_kind i \<noteq> Id_absent)
     \<and> (id_kind i \<noteq> Id_absent \<longrightarrow> (bit cam uu \<longleftrightarrow> id_kind i = Id_uuid))
     \<and> canonical_id i = i \<and> spans wire off (id_word_list i) off'"
proof (cases "id_kind i")
  case Id_absent
  with assms show ?thesis
    by (cases i) (auto simp: take_identifier_def and_then_eq_Inr take32_iff take_pair_iff
       canonical_id_def id_word_list_def absent_id_def short_id_def uuid_id_def size_words_def)
next
  case Id_short
  then show ?thesis
    by (cases i) (auto simp: take_identifier_def and_then_eq_Inr take32_iff take_pair_iff
       canonical_id_def id_word_list_def absent_id_def short_id_def uuid_id_def size_words_def)
next
  case Id_uuid
  obtain a b c d where w: "id_words i = (a, b, c, d)" by (cases "id_words i") auto
  have "spans wire off [a, b, c, d] off' \<longleftrightarrow>
      (\<exists>m. spans wire off [a, b] m \<and> spans wire m [c, d] off')"
    using spans_append [of wire off "[a, b]" "[c, d]" off'] by simp
  with Id_uuid w show ?thesis
    by (cases i) (auto simp: take_identifier_def and_then_eq_Inr take32_iff take_pair_iff
       canonical_id_def id_word_list_def absent_id_def short_id_def uuid_id_def size_words_def)
qed

definition id_matches :: "u32 \<Rightarrow> ident \<Rightarrow> nat \<Rightarrow> nat \<Rightarrow> bool" where
  "id_matches cam i en uu \<longleftrightarrow> (bit cam en \<longleftrightarrow> id_kind i \<noteq> Id_absent)
     \<and> (id_kind i \<noteq> Id_absent \<longrightarrow> (bit cam uu \<longleftrightarrow> id_kind i = Id_uuid))"

definition command_matches :: "command option \<Rightarrow> bool" where
  "command_matches c = (case c of None \<Rightarrow> True
     | Some k \<Rightarrow> id_matches (cmd_cam k) (cmd_controllee k) 31 30
               \<and> id_matches (cmd_cam k) (cmd_controller k) 29 28)"

definition header_part :: "envelope \<Rightarrow> envelope" where
  "header_part e = e\<lparr>env_stream_id := None, env_class_id := None,
     env_timestamp := (env_timestamp e)\<lparr>ts_integer := 0, ts_fractional := 0\<rparr>,
     env_command := None\<rparr>"

lemma spans_le: "spans wire off ws off' \<Longrightarrow> off' \<le> length wire"
  by (simp add: spans_def)

lemma take_command_iff:
  assumes "off \<le> length wire"
  shows "take_command wire (length wire) ty off = Inr (c, off') \<longleftrightarrow>
     (c \<noteq> None \<longleftrightarrow> is_command ty) \<and> command_matches c
     \<and> map_option canonical_command c = c
     \<and> spans wire off (case c of None \<Rightarrow> [] | Some k \<Rightarrow> command_word_list k) off'"
proof (cases "is_command ty")
  case False
  with assms show ?thesis by (cases c) (auto simp: take_command_def command_matches_def)
next
  case True
  have canon: "canonical_command k = k \<longleftrightarrow> canonical_id (cmd_controllee k) = cmd_controllee k
      \<and> canonical_id (cmd_controller k) = cmd_controller k" for k
    by (cases k) (simp add: canonical_command_def)
  have words: "spans wire off (command_word_list k) off' \<longleftrightarrow>
      (\<exists>m1 m2. spans wire off [cmd_cam k, cmd_message_id k] m1
         \<and> spans wire m1 (id_word_list (cmd_controllee k)) m2
         \<and> spans wire m2 (id_word_list (cmd_controller k)) off')" for k
    unfolding command_word_list_def spans_append by blast
  show ?thesis
  proof
    assume "take_command wire (length wire) ty off = Inr (c, off')"
    then obtain cam mid m1 i1 m2 i2 where
      s1: "spans wire off [cam, mid] m1" and
      t1: "take_identifier wire (length wire) cam 31 30 m1 = Inr (i1, m2)" and
      t2: "take_identifier wire (length wire) cam 29 28 m2 = Inr (i2, off')" and
      c: "c = Some \<lparr>cmd_cam = cam, cmd_message_id = mid, cmd_controllee = i1,
                  cmd_controller = i2\<rparr>"
      using True by (auto simp: take_command_def and_then_eq_Inr take_pair_iff)
    from t1 s1 have r1: "id_matches cam i1 31 30" "canonical_id i1 = i1"
        "spans wire m1 (id_word_list i1) m2"
      by (simp_all add: take_identifier_iff spans_le id_matches_def)
    from t2 r1(3) have r2: "id_matches cam i2 29 28" "canonical_id i2 = i2"
        "spans wire m2 (id_word_list i2) off'"
      by (simp_all add: take_identifier_iff spans_le id_matches_def)
    show "(c \<noteq> None \<longleftrightarrow> is_command ty) \<and> command_matches c
       \<and> map_option canonical_command c = c
       \<and> spans wire off (case c of None \<Rightarrow> [] | Some k \<Rightarrow> command_word_list k) off'"
      using True c s1 r1 r2 by (auto simp: command_matches_def canon words)
  next
    assume r: "(c \<noteq> None \<longleftrightarrow> is_command ty) \<and> command_matches c
       \<and> map_option canonical_command c = c
       \<and> spans wire off (case c of None \<Rightarrow> [] | Some k \<Rightarrow> command_word_list k) off'"
    then obtain k where k: "c = Some k" using True by auto
    with r obtain m1 m2 where
      s: "spans wire off [cmd_cam k, cmd_message_id k] m1"
      "spans wire m1 (id_word_list (cmd_controllee k)) m2"
      "spans wire m2 (id_word_list (cmd_controller k)) off'"
      using words by auto
    then have "take_identifier wire (length wire) (cmd_cam k) 31 30 m1 = Inr (cmd_controllee k, m2)"
      and "take_identifier wire (length wire) (cmd_cam k) 29 28 m2 = Inr (cmd_controller k, off')"
      using r k by (simp_all add: take_identifier_iff spans_le command_matches_def id_matches_def canon)
    with s(1) k True show "take_command wire (length wire) ty off = Inr (c, off')"
      using take_pair_iff [of wire off "cmd_cam k" "cmd_message_id k" m1]
      by (simp add: take_command_def)
  qed
qed

lemma take_envelope_iff:
  assumes e0: "header_part e0 = e0" and len: "4 \<le> length wire"
  shows "take_envelope wire (length wire) h e0 = Inr (e, off') \<longleftrightarrow>
     header_part e = e0 \<and> canonical_envelope e = e
     \<and> (env_stream_id e \<noteq> None \<longleftrightarrow> drop_bit 28 h \<noteq> 0 \<and> drop_bit 28 h \<noteq> 2)
     \<and> (env_class_id e \<noteq> None \<longleftrightarrow> bit h 27) \<and> class_ok (env_class_id e)
     \<and> (env_command e \<noteq> None \<longleftrightarrow> is_command (env_type e)) \<and> command_matches (env_command e)
     \<and> spans wire 4 (tail_words e) off'" (is "?take \<longleftrightarrow> ?spec")
proof
  assume ?take
  then obtain sid o1 cls o2 t1 o3 t2 o4 cmd where
    s: "take_stream_id wire (length wire) (drop_bit 28 h) 4 = Inr (sid, o1)"
      "take_class_id wire (length wire) h o1 = Inr (cls, o2)"
      "take_ts_integer wire (length wire) (env_timestamp e0) o2 = Inr (t1, o3)"
      "take_ts_fractional wire (length wire) t1 o3 = Inr (t2, o4)"
      "take_command wire (length wire) (env_type e0) o4 = Inr (cmd, off')" and
    e: "e = e0\<lparr>env_stream_id := sid, env_class_id := cls, env_timestamp := t2, env_command := cmd\<rparr>"
    by (auto simp: take_envelope_def and_then_eq_Inr)
  note r1 = s(1) [unfolded take_stream_id_iff [OF len]]
  then have o1: "o1 \<le> length wire" using spans_le by blast
  note r2 = s(2) [unfolded take_class_id_iff [OF o1]]
  then have o2: "o2 \<le> length wire" using spans_le by blast
  obtain i where r3: "t1 = (env_timestamp e0)\<lparr>ts_integer := i\<rparr>"
      "ts_tsi t1 = Tsi_none \<longrightarrow> i = ts_integer (env_timestamp e0)"
      "spans wire o2 (if ts_tsi t1 \<noteq> Tsi_none then [i] else []) o3"
    using s(3) [unfolded take_ts_integer_iff [OF o2]] by auto
  then have o3: "o3 \<le> length wire" using spans_le by blast
  obtain f where r4: "t2 = t1\<lparr>ts_fractional := f\<rparr>"
      "ts_tsf t1 = Tsf_none \<longrightarrow> f = ts_fractional t1"
      "spans wire o3 (if ts_tsf t1 \<noteq> Tsf_none then [ucast (drop_bit 32 f), ucast f] else []) o4"
    using s(4) [unfolded take_ts_fractional_iff [OF o3]] by auto
  then have o4: "o4 \<le> length wire" using spans_le by blast
  note r5 = s(5) [unfolded take_command_iff [OF o4]]
  have z: "ts_integer (env_timestamp e0) = 0" "ts_fractional (env_timestamp e0) = 0"
    by (subst e0 [symmetric], simp add: header_part_def)+
  have f: "env_stream_id e = sid" "env_class_id e = cls" "env_timestamp e = t2"
    "env_command e = cmd" "env_type e = env_type e0" by (simp_all add: e)
  have "header_part e = header_part e0" by (simp add: header_part_def e r3(1) r4(1))
  then have "header_part e = e0" by (simp only: e0)
  moreover have "canonical_envelope e = e"
    using r3(1,2) r4(1,2) r5 z by (simp add: canonical_envelope_def canonical_ts_def e)
  moreover have "spans wire 4 (tail_words e) off'"
    unfolding tail_words_def timestamp_words_def f append_assoc
  proof (intro spans_trans)
    show "spans wire 4 (case sid of None \<Rightarrow> [] | Some s \<Rightarrow> [s]) o1" using r1 by blast
    show "spans wire o1 (case cls of None \<Rightarrow> [] | Some k \<Rightarrow> class_words k) o2" using r2 by blast
    show "spans wire o2 (if ts_tsi t2 \<noteq> Tsi_none then [ts_integer t2] else []) o3"
      using r3(1,3) r4(1) by (simp split: if_splits)
    show "spans wire o3 (if ts_tsf t2 \<noteq> Tsf_none
        then [ucast (drop_bit 32 (ts_fractional t2)), ucast (ts_fractional t2)] else []) o4"
      using r4(1,3) by (simp split: if_splits)
    show "spans wire o4 (case cmd of None \<Rightarrow> [] | Some c \<Rightarrow> command_word_list c) off'"
      using r5 by blast
  qed
  ultimately show ?spec using r1 r2 r5 e0 unfolding f by blast
next
  assume sp: ?spec
  define t1 where "t1 = (env_timestamp e0)\<lparr>ts_integer := ts_integer (env_timestamp e)\<rparr>"
  have hp: "header_part e = e0" and canon: "canonical_envelope e = e" using sp by auto
  have ts: "ts_tsi (env_timestamp e) = ts_tsi (env_timestamp e0)"
    "ts_tsf (env_timestamp e) = ts_tsf (env_timestamp e0)"
    "ts_integer (env_timestamp e0) = 0" "ts_fractional (env_timestamp e0) = 0"
    "env_type e = env_type e0"
    by (simp_all add: hp [symmetric] header_part_def)
  have ct: "canonical_ts (env_timestamp e) = env_timestamp e"
    and cc: "map_option canonical_command (env_command e) = env_command e"
    by (subst (2) canon [symmetric], simp add: canonical_envelope_def)+
  have e: "e = e0\<lparr>env_stream_id := env_stream_id e, env_class_id := env_class_id e,
      env_timestamp := t1\<lparr>ts_fractional := ts_fractional (env_timestamp e)\<rparr>,
      env_command := env_command e\<rparr>"
    by (simp add: hp [symmetric] header_part_def t1_def)
  obtain o1 o2 o3 o4 where
    s: "spans wire 4 (case env_stream_id e of None \<Rightarrow> [] | Some s \<Rightarrow> [s]) o1"
      "spans wire o1 (case env_class_id e of None \<Rightarrow> [] | Some k \<Rightarrow> class_words k) o2"
      "spans wire o2 (if ts_tsi (env_timestamp e) \<noteq> Tsi_none
          then [ts_integer (env_timestamp e)] else []) o3"
      "spans wire o3 (if ts_tsf (env_timestamp e) \<noteq> Tsf_none
          then [ucast (drop_bit 32 (ts_fractional (env_timestamp e))),
                ucast (ts_fractional (env_timestamp e))] else []) o4"
      "spans wire o4 (case env_command e of None \<Rightarrow> [] | Some c \<Rightarrow> command_word_list c) off'"
    using sp unfolding tail_words_def timestamp_words_def spans_append by blast
  note le = s(1-4) [THEN spans_le]
  have "take_stream_id wire (length wire) (drop_bit 28 h) 4 = Inr (env_stream_id e, o1)"
    using sp s(1) by (simp add: take_stream_id_iff len)
  moreover have "take_class_id wire (length wire) h o1 = Inr (env_class_id e, o2)"
    using sp s(2) by (simp add: take_class_id_iff le)
  moreover have "take_ts_integer wire (length wire) (env_timestamp e0) o2 = Inr (t1, o3)"
    unfolding take_ts_integer_iff [OF le(2)] t1_def
    using s(3) ts arg_cong [OF ct, of ts_integer]
    by (intro exI [of _ "ts_integer (env_timestamp e)"])
       (simp add: canonical_ts_def split: if_splits)
  moreover have "take_ts_fractional wire (length wire) t1 o3
      = Inr (t1\<lparr>ts_fractional := ts_fractional (env_timestamp e)\<rparr>, o4)"
    unfolding take_ts_fractional_iff [OF le(3)]
    using s(4) ts arg_cong [OF ct, of ts_fractional]
    by (intro exI [of _ "ts_fractional (env_timestamp e)"])
       (simp add: canonical_ts_def t1_def split: if_splits)
  moreover have "take_command wire (length wire) (env_type e0) o4 = Inr (env_command e, off')"
    using sp s(5) cc ts by (simp add: take_command_iff le)
  ultimately show ?take using e by (simp add: take_envelope_def)
qed

section \<open>The header word\<close>

lemma code_bits:
  "bit (packet_type_code t) n \<Longrightarrow> n < 3"
  "bit (tsi_code i) n \<Longrightarrow> n < 2"
  "bit (tsf_code f) n \<Longrightarrow> n < 2"
  subgoal by (rule word_less_bitD [of "packet_type_code t"]) (cases t; simp)
  subgoal by (rule word_less_bitD [of "tsi_code i"]) (cases i; simp)
  subgoal by (rule word_less_bitD [of "tsf_code f"]) (cases f; simp)
  done

lemma of_code [simp]:
  "packet_type_of (packet_type_code t) = t"
  "tsi_of (tsi_code i) = i"
  "tsf_of (tsf_code f) = f"
  subgoal by (cases t) (simp_all add: packet_type_of_def)
  subgoal by (cases i) (simp_all add: tsi_of_def)
  subgoal by (cases f) (simp_all add: tsf_of_def)
  done

definition header_flag :: "envelope \<Rightarrow> nat \<Rightarrow> bool" where
  "header_flag e n =
     (if n = 24 then (if is_data (env_type e) then env_spectrum e
        else if is_command (env_type e) then env_cancel e else env_tsm e)
      else if n = 25 then (if is_data (env_type e) then env_nd0 e
        else if is_command (env_type e) then False else env_nd0 e)
      else if is_data (env_type e) then env_trailer e
        else if is_command (env_type e) then env_ack e else False)"

lemma bit_header_flags:
  "bit (header_flags e) n \<longleftrightarrow> (n = 24 \<or> n = 25 \<or> n = 26) \<and> header_flag e n"
proof (cases "is_data (env_type e)")
  case True
  show ?thesis
    unfolding header_flags_def header_flag_def if_P [OF True] bit_or_iff
    by (subst bit_flag32, simp)+ auto
next
  case False
  show ?thesis
    unfolding header_flags_def header_flag_def if_not_P [OF False]
  proof (cases "is_command (env_type e)", goal_cases)
    case 1
    then show ?case
      unfolding if_P [OF 1] bit_or_iff by (subst bit_flag32, simp)+ auto
  next
    case 2
    then show ?case
      unfolding if_not_P [OF 2] bit_or_iff by (subst bit_flag32, simp)+ auto
  qed
qed

lemma bit_header_word:
  assumes "env_packet_count e \<le> 15" and "sz div 4 \<le> 65535"
  shows "bit (header_word e sz) n \<longleftrightarrow>
     (if n < 16 then bit (sz div 4) n
      else if n < 20 then bit (env_packet_count e) (n - 16)
      else if n < 22 then bit (tsf_code (ts_tsf (env_timestamp e))) (n - 20)
      else if n < 24 then bit (tsi_code (ts_tsi (env_timestamp e))) (n - 22)
      else if n < 27 then header_flag e n
      else if n = 27 then env_class_id e \<noteq> None
      else bit (packet_type_code (env_type e)) (n - 28))"
proof -
  have cnt: "bit (env_packet_count e) k \<Longrightarrow> k < 4" for k
    using assms(1) by (rule word_le_bitD) simp
  have len: "bit (sz div 4) k \<Longrightarrow> k < 16" for k
  proof -
    assume "bit (sz div 4) k"
    moreover have "take_bit 16 (sz div 4) = sz div 4"
      using assms(2) by (intro take_bit_nat_eq_self) simp
    ultimately show "k < 16" by (metis bit_take_bit_iff)
  qed
  consider "n < 16" | "16 \<le> n" "n < 20" | "20 \<le> n" "n < 22" | "22 \<le> n" "n < 24"
    | "n = 24" | "n = 25" | "n = 26" | "n = 27" | "28 \<le> n"
    by linarith
  then show ?thesis
    unfolding header_word_def bit_or_iff bit_header_flags bit_flag32 [of 27, simplified]
    by cases (auto simp: bit_push_bit_iff bit_ucast_iff bit_of_nat_iff
        dest: cnt len code_bits bit_bounds)
qed

lemma bit_nat_less: "(x :: nat) < 2 ^ k \<Longrightarrow> bit x n \<Longrightarrow> n < k"
  by (metis bit_take_bit_iff take_bit_nat_eq_self)

lemma mask32_numerals:
  "(3 :: u32) = mask 2" "(15 :: u32) = mask 4" "(0xffff :: u32) = mask 16"
  by (simp_all add: mask_eq_exp_minus_1)

text \<open>Reading the fields back from a written header.\<close>

lemma header_word_fields:
  assumes "env_packet_count e \<le> 15" and "sz div 4 \<le> 65535"
  defines "h \<equiv> header_word e sz"
  shows "drop_bit 28 h = packet_type_code (env_type e)"
    and "ucast (drop_bit 16 h AND 15) = env_packet_count e"
    and "drop_bit 22 h AND 3 = tsi_code (ts_tsi (env_timestamp e))"
    and "drop_bit 20 h AND 3 = tsf_code (ts_tsf (env_timestamp e))"
    and "unat (h AND 0xffff) = sz div 4"
    and "bit h 27 \<longleftrightarrow> env_class_id e \<noteq> None"
    and "k = 24 \<or> k = 25 \<or> k = 26 \<Longrightarrow> bit h k = header_flag e k"
proof -
  note hb = bit_header_word [OF assms(1,2), folded h_def]
  have cnt: "bit (env_packet_count e) k \<Longrightarrow> k < 4" for k
    using assms(1) by (rule word_le_bitD) simp
  have len: "bit (sz div 4) k \<Longrightarrow> k < 16" for k
    using bit_nat_less [of "sz div 4" 16] assms(2) by simp
  show "drop_bit 28 h = packet_type_code (env_type e)"
    by (rule bit_word_eqI) (auto simp: bit_drop_bit_eq hb dest: code_bits)
  show "ucast (drop_bit 16 h AND 15) = env_packet_count e"
    unfolding mask32_numerals
    by (rule bit_word_eqI) (auto simp: bit_simps hb dest: cnt)
  show "drop_bit 22 h AND 3 = tsi_code (ts_tsi (env_timestamp e))"
    unfolding mask32_numerals
    by (rule bit_word_eqI) (auto simp: bit_simps hb dest: code_bits)
  show "drop_bit 20 h AND 3 = tsf_code (ts_tsf (env_timestamp e))"
    unfolding mask32_numerals
    by (rule bit_word_eqI) (auto simp: bit_simps hb dest: code_bits)
  show "unat (h AND 0xffff) = sz div 4"
    unfolding mask32_numerals
    by (rule bit_eqI) (auto simp: bit_simps hb dest: len)
  show "bit h 27 \<longleftrightarrow> env_class_id e \<noteq> None" by (simp add: hb)
  show "k = 24 \<or> k = 25 \<or> k = 26 \<Longrightarrow> bit h k = header_flag e k" by (auto simp: hb)
qed

text \<open>Writing back the fields read from a header.\<close>

lemma header_word_rebuild:
  assumes ty: "drop_bit 28 h = packet_type_code (env_type e)"
    and cnt: "env_packet_count e = ucast (drop_bit 16 h AND 15)"
    and tsi: "tsi_code (ts_tsi (env_timestamp e)) = drop_bit 22 h AND 3"
    and tsf: "tsf_code (ts_tsf (env_timestamp e)) = drop_bit 20 h AND 3"
    and cls: "env_class_id e \<noteq> None \<longleftrightarrow> bit h 27"
    and fl: "header_flag e 24 = bit h 24" "header_flag e 25 = bit h 25" "header_flag e 26 = bit h 26"
  shows "header_word e (unat (h AND 0xffff) * 4) = h"
proof (rule bit_word_eqI)
  fix n assume n: "n < LENGTH(32)"
  have "(ucast (drop_bit 16 h AND 15) :: u8) = ucast (drop_bit 16 h) AND mask 4"
    unfolding mask32_numerals by (rule bit_word_eqI) (auto simp: bit_simps)
  then have "env_packet_count e \<le> mask 4" unfolding cnt by (metis word_and_le1)
  then have c15: "env_packet_count e \<le> 15" by (simp add: mask_eq_exp_minus_1)
  have l16: "unat (h AND 0xffff) * 4 div 4 \<le> 65535"
    using word_and_le1 [of h "0xffff"] by (simp add: word_le_nat_alt)
  consider "n < 16" | "16 \<le> n" "n < 20" | "20 \<le> n" "n < 22" | "22 \<le> n" "n < 24"
    | "n = 24" | "n = 25" | "n = 26" | "n = 27" | "28 \<le> n" "n < 32"
    using n by fastforce
  then show "bit (header_word e (unat (h AND 0xffff) * 4)) n = bit h n"
    unfolding bit_header_word [OF c15 l16]
    by cases (use cls in \<open>auto simp: cnt tsi tsf fl ty [symmetric] mask32_numerals bit_simps\<close>)
qed

section \<open>Measurement and the encoder\<close>

definition trailer_bytes :: "u32 option \<Rightarrow> bytes" where
  "trailer_bytes t = (case t of None \<Rightarrow> [] | Some w \<Rightarrow> be_of_word w)"

definition envelope_image :: "envelope \<Rightarrow> nat \<Rightarrow> bytes \<Rightarrow> u32 option \<Rightarrow> bytes" where
  "envelope_image e n payload t = be_words (prologue_words e n) @ payload @ trailer_bytes t"

lemma put_words_eq:
  "off + 4 * length ws \<le> length out \<Longrightarrow>
   put_words out off ws = (write_bytes out off (be_words ws), off + 4 * length ws)"
proof (induction ws arbitrary: out off)
  case (Cons w ws)
  then have "put_words (store32 out off w) (off + 4) ws
      = (write_bytes (write_bytes out off (be_of_word w)) (off + 4) (be_words ws),
         off + 4 + 4 * length ws)"
    by (simp add: store32_def)
  also have "write_bytes (write_bytes out off (be_of_word w)) (off + 4) (be_words ws)
      = write_bytes out off (be_of_word w @ be_words ws)"
    using Cons.prems write_bytes_append [of off "be_of_word w" "be_words ws" out] by simp
  finally show ?case by simp
qed simp

lemma measure_envelope_Inr:
  "measure_envelope e n = Inr s \<longleftrightarrow>
     env_packet_count e \<le> 15 \<and> (carries_sid (env_type e) \<longleftrightarrow> env_stream_id e \<noteq> None)
     \<and> class_ok (env_class_id e) \<and> indicators_ok e \<and> n mod 4 = 0
     \<and> (is_data (env_type e) \<longrightarrow> n \<noteq> 0)
     \<and> (\<exists>extra. command_words e = Inr extra \<and> base_words e + extra + n div 4 \<le> 65535
          \<and> s = (base_words e + extra + n div 4) * 4)"
proof -
  have codes: "\<not> packet_type_code t > 7" "\<not> tsi_code i > 3" "\<not> tsf_code f > 3" for t i f
    subgoal by (cases t) simp_all
    subgoal by (cases i) simp_all
    subgoal by (cases f) simp_all
    done
  have cls: "(case env_class_id e of None \<Rightarrow> False
      | Some k \<Rightarrow> cls_oui k > 0xffffff \<or> cls_pad_bits k > 31) \<longleftrightarrow> \<not> class_ok (env_class_id e)"
    by (auto simp: class_ok_def not_less split: option.splits)
  have add: "w \<le> 65535 - x \<or> x + w \<le> 65535 \<Longrightarrow> w \<le> size_max - x" for w x
    by (auto simp: size_max_def)
  show ?thesis
    unfolding measure_envelope_def cls
    by (auto simp: codes and_then_eq_Inr not_less intro!: add)
qed

lemma length_tail_words:
  assumes "measure_envelope e n = Inr s"
  shows "s = 4 + 4 * length (tail_words e) + n + (if env_trailer e then 4 else 0)"
proof -
  obtain extra where m: "command_words e = Inr extra"
      "s = (base_words e + extra + n div 4) * 4" "n mod 4 = 0"
      "carries_sid (env_type e) \<longleftrightarrow> env_stream_id e \<noteq> None"
    using assms by (auto simp: measure_envelope_Inr)
  have ids: "length (id_word_list i) = size_words i" for i
    by (cases "id_words i") (simp add: id_word_list_def size_words_def)
  have "extra = length (case env_command e of None \<Rightarrow> [] | Some c \<Rightarrow> command_word_list c)"
    using m(1) by (auto simp: command_words_def and_then_eq_Inr command_word_list_def ids
        split: option.splits if_splits)
  moreover have "n div 4 * 4 = n" using m(3) by auto
  ultimately show ?thesis
    using m(2,4) by (auto simp: base_words_def tail_words_def timestamp_words_def
        class_words_def add_mult_distrib split: option.splits)
qed

lemma length_envelope_image:
  assumes "measure_envelope e (length payload) = Inr n" and "env_trailer e \<longleftrightarrow> t \<noteq> None"
  shows "length (envelope_image e n payload t) = n"
  using length_tail_words [OF assms(1)] assms(2)
  by (auto simp: envelope_image_def trailer_bytes_def prologue_words_tail split: option.splits)

lemma encode_envelope_Inr:
  "encode_envelope e payload t out = Inr (out', n) \<longleftrightarrow>
     (env_trailer e \<longleftrightarrow> t \<noteq> None) \<and> measure_envelope e (length payload) = Inr n
     \<and> n \<le> length out \<and> out' = write_bytes out 0 (envelope_image e n payload t)"
proof (cases "measure_envelope e (length payload)")
  case (Inr s)
  show ?thesis
  proof (cases "(env_trailer e \<longleftrightarrow> t \<noteq> None) \<and> s \<le> length out")
    case True
    let ?ws = "prologue_words e s"
    have s: "s = 4 * length ?ws + length payload + length (trailer_bytes t)"
      using length_tail_words [OF Inr] True
      by (auto simp: prologue_words_tail trailer_bytes_def split: option.splits)
    have po: "s - length payload - (if env_trailer e then 4 else 0) = 4 * length ?ws"
      using s True by (auto simp: trailer_bytes_def split: option.splits)
    have out1: "(if payload = [] then out
        else write_bytes out (s - length payload - (if env_trailer e then 4 else 0)) payload)
        = write_bytes out (0 + length (be_words ?ws)) payload"
      unfolding po by simp
    have "put_words (write_bytes out (0 + length (be_words ?ws)) payload) 0 ?ws
        = (write_bytes out 0 (be_words ?ws @ payload), 4 * length ?ws)"
      using s True write_bytes_prepend [of 0 "be_words ?ws" payload out]
      by (subst put_words_eq) simp_all
    moreover have "put_words (write_bytes out 0 (be_words ?ws @ payload))
          (4 * length ?ws + length payload) [w]
        = (write_bytes out 0 (be_words ?ws @ payload @ be_of_word w), s)" if "t = Some w" for w
      using s True that write_bytes_append [of 0 "be_words ?ws @ payload" "be_of_word w" out]
      by (subst put_words_eq) (simp_all add: trailer_bytes_def)
    moreover have "encode_envelope e payload t out =
        (case put_words (write_bytes out (0 + length (be_words ?ws)) payload) 0 ?ws of
           (out2, off) \<Rightarrow> case t of None \<Rightarrow> Inr (out2, off + length payload)
             | Some w \<Rightarrow> Inr (put_words out2 (off + length payload) [w]))"
      unfolding encode_envelope_def Inr and_then_simps Let_def out1 using True by auto
    ultimately have "encode_envelope e payload t out
        = Inr (write_bytes out 0 (envelope_image e s payload t), s)"
      using s by (cases t) (simp_all add: envelope_image_def trailer_bytes_def)
    then show ?thesis using True Inr by auto
  next
    case False
    with Inr show ?thesis by (auto simp: encode_envelope_def)
  qed
qed (auto simp: encode_envelope_def)

section \<open>The decoder\<close>

lemma header_part_canonical [simp]: "header_part (canonical_envelope e) = header_part e"
  by (simp add: header_part_def canonical_envelope_def canonical_ts_def)

lemma data_not_command: "is_data t \<Longrightarrow> \<not> is_command t"
  by (cases t) simp_all

lemma decode_header_of_word:
  assumes "env_packet_count e \<le> 15" and "sz div 4 \<le> 65535" and ok: "indicators_ok e"
  shows "decode_header (header_word e sz) = Inr (header_part e)"
proof -
  note hf = header_word_fields [OF assms(1,2)]
  note fl = hf(7) [of 24] hf(7) [of 25] hf(7) [of 26]
  show ?thesis
    using ok data_not_command [of "env_type e"]
    by (cases "is_data (env_type e)"; cases "is_command (env_type e)")
       (auto simp: decode_header_def Let_def hf(1-4) fl header_flag_def indicators_ok_def
          header_part_def empty_envelope_def empty_timestamp_def
          intro!: envelope.equality timestamp.equality)
qed

lemma decode_header_Inr:
  assumes d: "decode_header h = Inr e0" and ty: "drop_bit 28 h \<le> 7"
  shows "header_part e0 = e0"
    and "header_part e = e0 \<Longrightarrow> (env_class_id e \<noteq> None \<longleftrightarrow> bit h 27) \<Longrightarrow>
         header_word e (unat (h AND 0xffff) * 4) = h"
    and "packet_type_code (env_type e0) = drop_bit 28 h"
proof -
  have ptc: "packet_type_code (packet_type_of c) = c" if "c \<le> 7" for c
  proof -
    have "unat c \<le> 7" using that by (simp add: word_le_nat_alt)
    then have "c \<in> {0, 1, 2, 3, 4, 5, 6, 7}"
      by (auto simp: word_unat_eq_iff)
    then show ?thesis by (auto simp: packet_type_of_def)
  qed
  have tsic: "tsi_code (tsi_of (c AND 3)) = c AND 3" "tsf_code (tsf_of (c AND 3)) = c AND 3" for c
  proof -
    have "unat (c AND 3) \<le> 3"
      using word_and_le1 [of c 3] by (simp add: word_le_nat_alt)
    then have "c AND 3 \<in> {0, 1, 2, 3}" by (auto simp: word_unat_eq_iff)
    then show "tsi_code (tsi_of (c AND 3)) = c AND 3" "tsf_code (tsf_of (c AND 3)) = c AND 3"
      by (auto simp: tsi_of_def tsf_of_def)
  qed
  let ?t = "packet_type_of (drop_bit 28 h)"
  have f: "env_type e0 = ?t" "env_packet_count e0 = ucast (drop_bit 16 h AND 15)"
    "ts_tsi (env_timestamp e0) = tsi_of (drop_bit 22 h AND 3)"
    "ts_tsf (env_timestamp e0) = tsf_of (drop_bit 20 h AND 3)"
    "header_flag e0 24 = bit h 24" "header_flag e0 25 = bit h 25" "header_flag e0 26 = bit h 26"
    using d data_not_command [of ?t]
    by (auto simp: decode_header_def Let_def header_flag_def empty_envelope_def split: if_splits)
  show "header_part e0 = e0"
    using d by (auto simp: decode_header_def Let_def header_part_def empty_envelope_def
        empty_timestamp_def split: if_splits)
  show "packet_type_code (env_type e0) = drop_bit 28 h"
    using f(1) ptc [OF ty] by simp
  show "header_word e (unat (h AND 0xffff) * 4) = h"
    if e: "header_part e = e0" and cls: "env_class_id e \<noteq> None \<longleftrightarrow> bit h 27"
  proof (rule header_word_rebuild)
    have g: "env_type e = env_type e0" "env_packet_count e = env_packet_count e0"
      "ts_tsi (env_timestamp e) = ts_tsi (env_timestamp e0)"
      "ts_tsf (env_timestamp e) = ts_tsf (env_timestamp e0)" "header_flag e n = header_flag e0 n" for n
      by (simp_all add: e [symmetric] header_part_def header_flag_def)
    show "drop_bit 28 h = packet_type_code (env_type e)" using g f(1) ptc [OF ty] by simp
    show "env_packet_count e = ucast (drop_bit 16 h AND 15)" using g f(2) by simp
    show "tsi_code (ts_tsi (env_timestamp e)) = drop_bit 22 h AND 3" using g f(3) tsic by simp
    show "tsf_code (ts_tsf (env_timestamp e)) = drop_bit 20 h AND 3" using g f(4) tsic by simp
    show "env_class_id e \<noteq> None \<longleftrightarrow> bit h 27" by (rule cls)
    show "header_flag e 24 = bit h 24" "header_flag e 25 = bit h 25" "header_flag e 26 = bit h 26"
      using g f by simp_all
  qed
qed

lemma check_id_matches: "check_id cam i en uu \<Longrightarrow> id_matches cam i en uu"
  by (auto simp: check_id_def id_matches_def split: if_splits)

lemma command_words_matches: "command_words e = Inr n \<Longrightarrow> command_matches (env_command e)"
  by (auto simp: command_words_def command_matches_def and_then_eq_Inr
      dest: check_id_matches split: option.splits if_splits)

lemma indicators_command: "indicators_ok e \<Longrightarrow> env_command e \<noteq> None \<longleftrightarrow> is_command (env_type e)"
  using data_not_command [of "env_type e"] by (auto simp: indicators_ok_def split: if_splits)

lemma indicators_trailer: "indicators_ok e \<Longrightarrow> env_trailer e \<Longrightarrow> is_data (env_type e)"
  by (auto simp: indicators_ok_def split: if_splits)

definition decodes_to :: "bytes \<Rightarrow> envelope \<Rightarrow> bytes \<Rightarrow> u32 option \<Rightarrow> bool" where
  "decodes_to wire e payload t \<longleftrightarrow> decode_envelope wire =
     Inr \<lparr>view_envelope = e, view_payload = payload, view_trailer = t,
          view_payload_offset = 4 + 4 * length (tail_words e), view_wire = wire\<rparr>"

lemma load32_image:
  "load32 (envelope_image e n payload t) 0 = header_word e n"
  by (simp add: envelope_image_def prologue_words_tail load32_def be_of_word_def)

text \<open>Every image of a valid canonical envelope decodes, to exactly what it is an image of.\<close>

lemma decode_image:
  assumes m: "measure_envelope e (length payload) = Inr n" and t: "env_trailer e \<longleftrightarrow> t \<noteq> None"
    and canon: "canonical_envelope e = e"
  shows "decodes_to (envelope_image e n payload t) e payload t"
proof -
  define wire where "wire = envelope_image e n payload t"
  define off where "off = 4 + 4 * length (tail_words e)"
  note ms = m [unfolded measure_envelope_Inr]
  have len: "length wire = n" unfolding wire_def by (rule length_envelope_image [OF m t])
  have n: "n = off + length payload + (if env_trailer e then 4 else 0)"
    using length_tail_words [OF m] by (simp add: off_def)
  have cnt: "env_packet_count e \<le> 15" and n4: "n div 4 \<le> 65535" "n div 4 * 4 = n"
    and ok: "indicators_ok e"
    using ms by auto
  note hf = header_word_fields [OF cnt n4(1)]
  have h: "load32 wire 0 = header_word e n" unfolding wire_def by (rule load32_image)
  have ty: "\<not> packet_type_code (env_type e) > 7" by (cases "env_type e") simp_all
  have rest: "drop 4 wire = be_words (tail_words e) @ payload @ trailer_bytes t"
    by (simp add: wire_def envelope_image_def prologue_words_tail)
  then have rest': "drop off wire = payload @ trailer_bytes t"
    using drop_eq_append [of 4 wire "be_words (tail_words e)"] by (simp add: off_def)
  have sp: "spans wire 4 (tail_words e) off"
    using rest rest' len n by (simp add: spans_def off_def)
  obtain extra where extra: "command_words e = Inr extra" using ms by blast
  have te: "take_envelope wire (length wire) (header_word e n) (header_part e) = Inr (e, off)"
  proof (subst take_envelope_iff)
    show "header_part (header_part e) = header_part e" by (simp add: header_part_def)
    show "4 \<le> length wire" using len n by (simp add: off_def)
    show "header_part e = header_part e \<and> canonical_envelope e = e
       \<and> (env_stream_id e \<noteq> None \<longleftrightarrow> drop_bit 28 (header_word e n) \<noteq> 0 \<and> drop_bit 28 (header_word e n) \<noteq> 2)
       \<and> (env_class_id e \<noteq> None \<longleftrightarrow> bit (header_word e n) 27) \<and> class_ok (env_class_id e)
       \<and> (env_command e \<noteq> None \<longleftrightarrow> is_command (env_type e)) \<and> command_matches (env_command e)
       \<and> spans wire 4 (tail_words e) off"
      using ms hf(1,6) canon sp indicators_command [OF ok] command_words_matches [OF extra]
      by (auto simp: carries_sid_def)
  qed
  have pl: "subspan wire off (length payload) = payload"
    by (simp add: subspan_def rest')
  have tl: "load32 wire (n - 4) = w" if "t = Some w" for w
  proof -
    have n4': "n - 4 = off + length payload" using n t that by simp
    have "drop (n - 4) wire = be_of_word w"
      using drop_eq_append [OF rest'] by (simp add: n4' that trailer_bytes_def)
    moreover have "load32 wire (n - 4) = load32 (drop (n - 4) wire) 0"
      using len n4' n t that by (intro load32_drop) simp
    ultimately show ?thesis using load32_append [of w "[]"] by simp
  qed
  have dh: "decode_header (header_word e n) = Inr (header_part e)"
    by (rule decode_header_of_word [OF cnt n4(1) ok])
  have n0: "n \<noteq> 0" "4 \<le> n" using n by (simp_all add: off_def)
  show ?thesis
  proof (cases "env_trailer e")
    case True
    then obtain w where w: "t = Some w" using t by auto
    have "n - off - 4 = length payload" "off \<le> n" "4 \<le> n - off" using n True by auto
    then show ?thesis
      unfolding decodes_to_def wire_def [symmetric] decode_envelope_def Let_def h hf(1) hf(5)
        n4(2) len off_def [symmetric]
      using ty n0 by (simp add: True dh te [unfolded len] pl m tl [OF w] w not_less)
  next
    case False
    then have w: "t = None" using t by auto
    have "n - off = length payload" "off \<le> n" using n False by auto
    then show ?thesis
      unfolding decodes_to_def wire_def [symmetric] decode_envelope_def Let_def h hf(1) hf(5)
        n4(2) len off_def [symmetric]
      using ty n0 by (simp add: False dh te [unfolded len] pl m w not_less)
  qed
qed

text \<open>Conversely, whatever decodes is such an image.\<close>

lemma decode_envelope_Inr:
  assumes d: "decode_envelope wire = Inr v"
  shows "measure_envelope (view_envelope v) (length (view_payload v)) = Inr (length wire)"
    and "env_trailer (view_envelope v) \<longleftrightarrow> view_trailer v \<noteq> None"
    and "canonical_envelope (view_envelope v) = view_envelope v"
    and "wire = envelope_image (view_envelope v) (length wire) (view_payload v) (view_trailer v)"
proof -
  define h where "h = load32 wire 0"
  define e where "e = view_envelope v"
  define p where "p = view_payload v"
  define t where "t = view_trailer v"
  let ?n = "length wire" and ?ts = "if env_trailer e then 4 else (0 :: nat)"
  have base: "4 \<le> ?n" "drop_bit 28 h \<le> 7" "unat (h AND 0xffff) * 4 = ?n"
    using d by (auto simp: decode_envelope_def Let_def h_def not_less split: if_splits)
  obtain e0 off s where dh: "decode_header h = Inr e0"
    and te: "take_envelope wire ?n h e0 = Inr (e, off)"
    and off: "off \<le> ?n" "?ts \<le> ?n - off"
    and p: "p = subspan wire off (?n - off - ?ts)"
    and s: "measure_envelope e (length p) = Inr s"
    and t: "t = (if env_trailer e then Some (load32 wire (?n - 4)) else None)"
    using d base unfolding decode_envelope_def Let_def h_def [symmetric] base(3) e_def p_def t_def
    by (auto simp: and_then_eq_Inr not_less simp del: subspan_def)
  note hd = decode_header_Inr [OF dh base(2)]
  note spec = te [unfolded take_envelope_iff [OF hd(1) base(1)]]
  have hw: "header_word e ?n = h" using hd(2) [of e] spec base(3) by simp
  have sp: "off = 4 + 4 * length (tail_words e)" "drop 4 wire = be_words (tail_words e) @ drop off wire"
    using spec by (auto simp: spans_def)
  have tr: "drop off wire = p @ trailer_bytes t"
  proof (cases "env_trailer e")
    case True
    have "load32 wire (?n - 4) = load32 (drop (?n - 4) wire) 0"
      using base(1) by (intro load32_drop) simp
    moreover have "be_of_word (load32 (drop (?n - 4) wire) 0) @ drop 4 (drop (?n - 4) wire)
        = drop (?n - 4) wire"
      using base(1) by (intro be_of_load32) simp
    ultimately have "trailer_bytes t = drop (?n - 4) wire"
      using t True base(1) by (simp add: trailer_bytes_def)
    moreover have "p = take (?n - 4 - off) (drop off wire)"
      using p True off by (simp add: subspan_def add.commute)
    moreover have "drop (?n - 4) wire = drop (?n - 4 - off) (drop off wire)"
      using off True by simp
    ultimately show ?thesis by (metis append_take_drop_id)
  next
    case False
    then show ?thesis using p t by (simp add: subspan_def trailer_bytes_def)
  qed
  have "wire = be_of_word h @ drop 4 wire"
    using be_of_load32 [OF base(1)] by (simp add: h_def)
  then have img: "wire = envelope_image e ?n p t"
    using sp(2) tr hw by (simp add: envelope_image_def prologue_words_tail)
  have lp: "length p = ?n - off - ?ts" using p off by (simp add: subspan_def)
  have "s = off + length p + ?ts" using length_tail_words [OF s] sp(1) by simp
  then have "s = ?n" using lp off by simp
  then show "measure_envelope (view_envelope v) (length (view_payload v)) = Inr ?n"
    and "env_trailer (view_envelope v) \<longleftrightarrow> view_trailer v \<noteq> None"
    and "canonical_envelope (view_envelope v) = view_envelope v"
    and "wire = envelope_image (view_envelope v) ?n (view_payload v) (view_trailer v)"
    using s t spec img unfolding e_def p_def t_def by auto
qed

lemma canonical_fields [simp]:
  "env_type (canonical_envelope e) = env_type e"
  "env_packet_count (canonical_envelope e) = env_packet_count e"
  "env_stream_id (canonical_envelope e) = env_stream_id e"
  "env_class_id (canonical_envelope e) = env_class_id e"
  "ts_tsi (env_timestamp (canonical_envelope e)) = ts_tsi (env_timestamp e)"
  "ts_tsf (env_timestamp (canonical_envelope e)) = ts_tsf (env_timestamp e)"
  "env_trailer (canonical_envelope e) = env_trailer e"
  "env_nd0 (canonical_envelope e) = env_nd0 e"
  "env_spectrum (canonical_envelope e) = env_spectrum e"
  "env_tsm (canonical_envelope e) = env_tsm e"
  "env_ack (canonical_envelope e) = env_ack e"
  "env_cancel (canonical_envelope e) = env_cancel e"
  "env_command (canonical_envelope e) = map_option canonical_command (env_command e)"
  by (simp_all add: canonical_envelope_def canonical_ts_def)

lemma tail_words_canonical [simp]: "tail_words (canonical_envelope e) = tail_words e"
proof -
  have "id_word_list (canonical_id i) = id_word_list i" for i
    by (cases "id_kind i"; cases "id_words i")
       (simp_all add: canonical_id_def id_word_list_def size_words_def absent_id_def short_id_def)
  then show ?thesis
    by (simp add: tail_words_def canonical_envelope_def canonical_ts_def timestamp_words_def
        canonical_command_def command_word_list_def split: option.split)
qed

lemma envelope_image_canonical [simp]:
  "envelope_image (canonical_envelope e) n payload t = envelope_image e n payload t"
proof -
  have "header_word (canonical_envelope e) n = header_word e n"
    by (simp add: header_word_def header_flags_def)
  then show ?thesis by (simp add: envelope_image_def prologue_words_tail)
qed

lemma canonical_envelope_idem [simp]:
  "canonical_envelope (canonical_envelope e) = canonical_envelope e"
proof -
  have "canonical_id (canonical_id i) = canonical_id i" for i
    by (cases "id_kind i") (simp_all add: canonical_id_def absent_id_def short_id_def)
  then have "canonical_command (canonical_command c) = canonical_command c" for c
    by (simp add: canonical_command_def)
  then show ?thesis
    by (simp add: canonical_envelope_def canonical_ts_def option.map_comp comp_def)
qed

lemma measure_envelope_canonical [simp]:
  "measure_envelope (canonical_envelope e) n = measure_envelope e n"
proof -
  have ids: "check_id cam (canonical_id i) en uu = check_id cam i en uu"
    "size_words (canonical_id i) = size_words i" for cam i en uu
    by (cases "id_kind i"; simp add: canonical_id_def check_id_def size_words_def absent_id_def
        short_id_def)+
  have "validate_cam (canonical_envelope e) cam = validate_cam e cam" for cam
    by (simp only: validate_cam_def canonical_fields)
  then have "command_words (canonical_envelope e) = command_words e"
    by (simp add: command_words_def canonical_command_def ids split: option.split)
  moreover have "indicators_ok (canonical_envelope e) = indicators_ok e"
    "base_words (canonical_envelope e) = base_words e"
    by (simp_all add: indicators_ok_def base_words_def)
  ultimately show ?thesis
    by (simp only: measure_envelope_def canonical_fields)
qed

section \<open>Properties\<close>

text \<open>A signal packet with a stream identifier and one payload word, for the witnesses.\<close>

definition sample_signal :: envelope where
  "sample_signal = empty_envelope\<lparr>env_stream_id := Some 5\<rparr>"

definition sample_wire :: bytes where
  "sample_wire = [0x10, 0, 0, 3, 0, 0, 0, 5, 1, 2, 3, 4]"

lemmas wire_eval = encode_envelope_def measure_envelope_def carries_sid_def indicators_ok_def
  base_words_def command_words_def checked_add_def size_max_def
  empty_envelope_def empty_timestamp_def prologue_words_def header_word_def header_flags_def
  timestamp_words_def store32_def write_bytes_def be_of_word_def sample_signal_def
  sample_wire_def decode_envelope_def load32_def word_of_be_def decode_header_def
  packet_type_of_def tsi_of_def tsf_of_def take_envelope_def take_stream_id_def take32_def
  take_class_id_def take_ts_integer_def take_ts_fractional_def take_command_def subspan_def
  measure_prologue_def encode_prologue_def write_prologue_def encode_trailer_def

lemma sample_encodes:
  "encode_envelope sample_signal [1, 2, 3, 4] None [0, 0, 0, 0, 0, 0, 0, 0, 0, 0, 0, 0, 0, 0, 0, 0]
    = Inr (sample_wire @ [0, 0, 0, 0], 12)"
  by (simp add: wire_eval)

lemma sample_decodes:
  "decode_envelope sample_wire = Inr \<lparr>view_envelope = sample_signal, view_payload = [1, 2, 3, 4],
     view_trailer = None, view_payload_offset = 8, view_wire = sample_wire\<rparr>"
  by (simp add: wire_eval Let_def)

text \<open>C1: what the encoder writes decodes back, to the same payload and trailer and to the
  envelope the wire can carry (unsent parts cleared), with the payload where the encoder put it.\<close>

theorem encode_then_decode:
  assumes "encode_envelope e payload t out = Inr (out', n)"
  shows "decode_envelope (take n out') =
    Inr \<lparr>view_envelope = canonical_envelope e, view_payload = payload, view_trailer = t,
         view_payload_offset = n - length payload - (if env_trailer e then 4 else 0),
         view_wire = take n out'\<rparr>"
proof -
  note enc = assms [unfolded encode_envelope_Inr]
  let ?c = "canonical_envelope e" and ?img = "envelope_image e n payload t"
  have "length ?img = n" using enc by (intro length_envelope_image) auto
  then have out: "take n out' = ?img"
    using enc take_write_bytes_0 [of ?img out] by simp
  have "n - length payload - (if env_trailer e then 4 else 0) = 4 + 4 * length (tail_words ?c)"
    using length_tail_words [of e "length payload" n] enc by auto
  moreover have "decodes_to (envelope_image ?c n payload t) ?c payload t"
    using enc by (intro decode_image) auto
  ultimately show ?thesis by (simp add: out decodes_to_def)
qed

theorem encode_then_decode_witness:
  "decode_envelope (take 12 (sample_wire @ [0, 0, 0, 0])) =
    Inr \<lparr>view_envelope = canonical_envelope sample_signal, view_payload = [1, 2, 3, 4],
         view_trailer = None, view_payload_offset = 8,
         view_wire = take 12 (sample_wire @ [0, 0, 0, 0])\<rparr>"
  using encode_then_decode [OF sample_encodes]
  by (simp add: sample_signal_def empty_envelope_def)

text \<open>C2: decoding loses nothing: re-encoding what was decoded reproduces the wire bytes
  exactly, whatever the output buffer held, and leaves the bytes after them alone.\<close>

theorem decode_then_encode:
  assumes "decode_envelope wire = Inr v" and "length wire \<le> length out"
  shows "encode_envelope (view_envelope v) (view_payload v) (view_trailer v) out
    = Inr (wire @ drop (length wire) out, length wire)"
proof -
  note d = decode_envelope_Inr [OF assms(1)]
  have "wire @ drop (length wire) out
      = write_bytes out 0 (envelope_image (view_envelope v) (length wire) (view_payload v) (view_trailer v))"
    by (subst d(4) [symmetric]) (simp add: write_bytes_def)
  then show ?thesis using d assms(2) by (simp add: encode_envelope_Inr)
qed

theorem decode_then_encode_witness:
  "encode_envelope sample_signal [1, 2, 3, 4] None [7, 7, 7, 7, 7, 7, 7, 7, 7, 7, 7, 7, 7, 7]
    = Inr (sample_wire @ [7, 7], 12)"
  using decode_then_encode [OF sample_decodes, of "[7, 7, 7, 7, 7, 7, 7, 7, 7, 7, 7, 7, 7, 7]"]
  by (simp add: sample_wire_def)

text \<open>the prologue and trailer writers used around an unstaged payload produce the same
  bytes as the whole-packet encoder: prologue, payload and trailer laid end to end are the
  encoded packet.\<close>

theorem split_encoding_agrees:
  assumes "measure_prologue e (length payload) = Inr lay"
    and "encode_prologue e (length payload) pro = Inr (pro', k)"
    and "encode_trailer w tbuf = Inr (tbuf', 4)"
    and "encode_envelope e payload (if env_trailer e then Some w else None) out = Inr (out', n)"
  shows "n = lay_packet_bytes lay \<and> k = lay_payload_offset lay
    \<and> take n out' = take k pro' @ payload @ (if env_trailer e then take 4 tbuf' else [])"
proof -
  let ?t = "if env_trailer e then Some w else None"
  note enc = assms(4) [unfolded encode_envelope_Inr]
  have m: "measure_envelope e (length payload) = Inr n" using enc by simp
  let ?img = "envelope_image e n payload ?t" and ?ws = "prologue_words e n"
  have li: "length ?img = n" using m by (rule length_envelope_image) simp
  have out: "take n out' = ?img" using enc take_write_bytes_0 [of ?img out] li by simp
  have pre: "n - length payload - (if env_trailer e then 4 else 0) = 4 * length ?ws"
    using length_tail_words [OF m] by (simp add: prologue_words_tail)
  have lay: "lay_packet_bytes lay = n" "lay_prologue_bytes lay = 4 * length ?ws"
    "lay_payload_offset lay = 4 * length ?ws"
    using assms(1) m pre by (auto simp: measure_prologue_def Let_def)
  then have fit: "4 * length ?ws \<le> length pro" and wp: "write_prologue e n pro = (pro', k)"
    using assms(1,2) by (auto simp: encode_prologue_def)
  then have pro: "pro' = write_bytes pro 0 (be_words ?ws)" "k = 4 * length ?ws"
    using put_words_eq [of 0 ?ws pro] by (auto simp: write_prologue_def)
  then have "take k pro' = be_words ?ws"
    using fit take_write_bytes_0 [of "be_words ?ws" pro] by simp
  moreover have "take 4 tbuf' = be_of_word w"
    using assms(3) take_write_bytes_0 [of "be_of_word w" tbuf]
    by (auto simp: encode_trailer_def store32_def)
  ultimately show ?thesis
    using out lay pro(2) by (simp add: envelope_image_def trailer_bytes_def)
qed

theorem split_encoding_agrees_witness:
  "take 12 (sample_wire @ [0, 0, 0, 0])
    = take 8 [0x10, 0, 0, 3, 0, 0, 0, 5] @ [1, 2, 3, 4]"
proof -
  have p: "encode_prologue sample_signal (length [1, 2, 3, 4 :: u8]) [0, 0, 0, 0, 0, 0, 0, 0]
      = Inr ([0x10, 0, 0, 3, 0, 0, 0, 5], 8)" by (simp add: wire_eval)
  have m: "measure_prologue sample_signal (length [1, 2, 3, 4 :: u8])
      = Inr \<lparr>lay_packet_bytes = 12, lay_prologue_bytes = 8, lay_payload_offset = 8,
             lay_payload_bytes = 4, lay_trailer_offset = None\<rparr>" by (simp add: wire_eval)
  have t: "encode_trailer 9 [0, 0, 0, 0] = Inr ([0, 0, 0, 9], 4)" by (simp add: wire_eval)
  have tr: "env_trailer sample_signal = False"
    by (simp add: sample_signal_def empty_envelope_def)
  show ?thesis
    using split_encoding_agrees [OF m p t, unfolded tr if_False, OF sample_encodes] by simp
qed

text \<open>No two packets share a wire image, and a packet is never the proper prefix of another:
  a wire image that decodes fixes its envelope, payload and trailer, and no extension of it
  decodes.\<close>

theorem decode_prefix_free:
  assumes "decode_envelope wire = Inr v" and "decode_envelope (wire @ rest) = Inr v'"
  shows "rest = [] \<and> v' = v"
proof -
  have size: "unat (load32 x 0 AND 0xffff) * 4 = length x" if "decode_envelope x = Inr y" for x y
    using that by (auto simp: decode_envelope_def Let_def split: if_splits)
  have four: "4 \<le> length wire"
    using assms(1) by (auto simp: decode_envelope_def not_less split: if_splits)
  then have "load32 (wire @ rest) 0 = load32 wire 0"
    by (auto simp: load32_def nth_append simp flip: length_greater_0_conv)
  with size [OF assms(1)] size [OF assms(2)] have "rest = []" by simp
  with assms show ?thesis by simp
qed

theorem decode_prefix_free_witness:
  "([] :: bytes) = [] \<and> view_payload_offset
     \<lparr>view_envelope = sample_signal, view_payload = [1, 2, 3, 4], view_trailer = None,
      view_payload_offset = 8, view_wire = sample_wire\<rparr> = 8"
  using decode_prefix_free [OF sample_decodes, of "[]"] sample_decodes by simp

end
