(* ===== verification/Stream_Framer.thy ===== *)
theory Stream_Framer
  imports Wire_Roundtrip
begin

text \<open>
  The byte-stream framer of \<^verbatim>\<open>include/vita/runtime/transport/stream_framer.hpp\<close>:
  it reassembles packets from arbitrary chunks of a byte stream and hands each to a sink.
  \<open>stream_spec\<close> is the specification, a parser over the whole stream that knows no
  chunks; the framer refines it. The packet sink is a parameter: a function of its context
  and the packet bytes. The feed loop runs on fuel; one unit per input byte is enough because
  every iteration consumes a byte (\<open>feed_loop_refines\<close>).
\<close>

section \<open>The framer\<close>

record framer =
  fr_storage :: bytes
  fr_maximum_packet_bytes :: nat
  fr_buffered :: nat
  fr_expected :: nat
  fr_closed :: bool

type_synonym 'c packet_sink = "'c \<Rightarrow> bytes \<Rightarrow> 'c \<times> unit result"

definition fr_capacity :: "framer \<Rightarrow> nat" where
  "fr_capacity f = length (fr_storage f)"

definition make_framer :: "nat \<Rightarrow> nat \<Rightarrow> framer" where
  "make_framer capacity maximum_packet_bytes =
     \<lparr>fr_storage = replicate capacity 0, fr_maximum_packet_bytes = maximum_packet_bytes,
      fr_buffered = 0, fr_expected = 0, fr_closed = False\<rparr>"

definition inspect_header :: "framer \<Rightarrow> framer result" where
  "inspect_header f =
     (if fr_buffered f < 4 \<or> fr_expected f \<noteq> 0 then Inr f
      else let header = load32 (take 4 (fr_storage f)) 0;
               packet_bytes = unat (header AND 0xffff) * 4
      in if drop_bit 28 header > 7 \<or> packet_bytes < 4
            \<or> packet_bytes > fr_maximum_packet_bytes f \<or> packet_bytes > fr_capacity f
         then Inl (err Invalid_argument)
         else Inr (f\<lparr>fr_expected := packet_bytes\<rparr>))"

definition reset_framer :: "framer \<Rightarrow> framer" where
  "reset_framer f = f\<lparr>fr_buffered := 0, fr_expected := 0\<rparr>"

definition shutdown_framer :: "framer \<Rightarrow> framer" where
  "shutdown_framer f = reset_framer (f\<lparr>fr_closed := True\<rparr>)"

definition reconnect_framer :: "framer \<Rightarrow> framer" where
  "reconnect_framer f = reset_framer (f\<lparr>fr_closed := False\<rparr>)"

definition disconnect_framer :: "framer \<Rightarrow> framer \<times> unit result" where
  "disconnect_framer f =
     (let f' = f\<lparr>fr_closed := True\<rparr>
      in if fr_buffered f' \<noteq> 0
         then let expected = (if fr_expected f' \<noteq> 0 then fr_expected f' else 4);
                  received = fr_buffered f'
              in (reset_framer f', Inl (err_need Short_input received expected))
         else (f', Inr ()))"

definition buffered_bytes :: "framer \<Rightarrow> nat" where
  "buffered_bytes f = fr_buffered f"

definition awaiting_bytes :: "framer \<Rightarrow> nat" where
  "awaiting_bytes f = (if fr_expected f \<noteq> 0 then fr_expected f else 4) - fr_buffered f"

definition stalled :: "framer \<Rightarrow> bool" where
  "stalled f = (fr_buffered f \<noteq> 0)"

text \<open>One pass of the loop up to the header check: copy what is still missing of the header
  or of the packet.\<close>

definition absorb :: "framer \<Rightarrow> bytes \<Rightarrow> framer \<times> bytes" where
  "absorb f input =
     (let target = (if fr_expected f \<noteq> 0 then fr_expected f else 4);
          count = min (length input) (target - fr_buffered f)
      in (f\<lparr>fr_storage := write_bytes (fr_storage f) (fr_buffered f) (take count input),
            fr_buffered := fr_buffered f + count\<rparr>, drop count input))"

fun feed_loop :: "nat \<Rightarrow> 'c packet_sink \<Rightarrow> 'c \<Rightarrow> framer \<Rightarrow> bytes \<Rightarrow> nat
    \<Rightarrow> (framer \<times> 'c \<times> nat result) option" where
  "feed_loop fuel sink ctx f [] delivered = Some (f, ctx, Inr delivered)"
| "feed_loop 0 sink ctx f (b # bs) delivered = None"
| "feed_loop (Suc fuel) sink ctx f (b # bs) delivered =
     (let (f1, input) = absorb f (b # bs)
      in case inspect_header f1 of
           Inl e \<Rightarrow> Some (shutdown_framer f1, ctx, Inl e)
         | Inr f2 \<Rightarrow>
             if fr_expected f2 = 0 \<or> fr_buffered f2 \<noteq> fr_expected f2
             then feed_loop fuel sink ctx f2 input delivered
             else (case decode_envelope (take (fr_expected f2) (fr_storage f2)) of
                     Inl e \<Rightarrow> Some (shutdown_framer f2, ctx, Inl e)
                   | Inr v \<Rightarrow>
                       let packet_bytes = fr_expected f2;
                           f3 = f2\<lparr>fr_buffered := 0, fr_expected := 0\<rparr>
                       in (case sink ctx (take packet_bytes (fr_storage f3)) of
                             (ctx', Inl e) \<Rightarrow> Some (shutdown_framer f3, ctx', Inl e)
                           | (ctx', Inr u) \<Rightarrow>
                               feed_loop fuel sink ctx' f3 input (delivered + 1))))"

definition feed :: "'c packet_sink option \<Rightarrow> 'c \<Rightarrow> framer \<Rightarrow> bytes
    \<Rightarrow> (framer \<times> 'c \<times> nat result) option" where
  "feed sink ctx f input =
     (if fr_closed f \<or> sink = None \<or> fr_maximum_packet_bytes f < 4
         \<or> fr_maximum_packet_bytes f > fr_capacity f \<or> fr_maximum_packet_bytes f mod 4 \<noteq> 0
      then Some (f, ctx, Inl (err Invalid_state))
      else feed_loop (length input) (the sink) ctx f input 0)"

section \<open>The specification\<close>

text \<open>\<open>declared s\<close> is the packet length a stream announces in its first word, if it is
  acceptable; \<open>accepts p\<close> checks a whole packet.\<close>

function stream_spec :: "(bytes \<Rightarrow> nat option) \<Rightarrow> (bytes \<Rightarrow> unit result) \<Rightarrow> 'c packet_sink
    \<Rightarrow> 'c \<Rightarrow> nat \<Rightarrow> bytes \<Rightarrow> 'c \<times> nat \<times> bytes result" where
  "stream_spec declared accepts sink ctx n s =
     (if length s < 4 then (ctx, n, Inr s)
      else case declared s of
        None \<Rightarrow> (ctx, n, Inl (err Invalid_argument))
      | Some k \<Rightarrow>
          if k = 0 then (ctx, n, Inl (err Invalid_argument))
          else if length s < k then (ctx, n, Inr s)
          else (case accepts (take k s) of
                  Inl e \<Rightarrow> (ctx, n, Inl e)
                | Inr u \<Rightarrow>
                    (case sink ctx (take k s) of
                       (ctx', Inl e) \<Rightarrow> (ctx', n, Inl e)
                     | (ctx', Inr u') \<Rightarrow>
                         stream_spec declared accepts sink ctx' (n + 1) (drop k s))))"
  by pat_completeness auto
termination
  by (relation "measure (\<lambda>(d, a, k, c, n, s). length s)") auto

declare stream_spec.simps [simp del]

definition declared_length :: "nat \<Rightarrow> nat \<Rightarrow> bytes \<Rightarrow> nat option" where
  "declared_length capacity maximum s =
     (let h = load32 s 0; k = unat (h AND 0xffff) * 4
      in if drop_bit 28 h > 7 \<or> k < 4 \<or> k > maximum \<or> k > capacity then None else Some k)"

definition accepts_packet :: "bytes \<Rightarrow> unit result" where
  "accepts_packet p = and_then (decode_envelope p) (\<lambda>v. Inr ())"

definition framer_spec :: "framer \<Rightarrow> 'c packet_sink \<Rightarrow> 'c \<Rightarrow> nat \<Rightarrow> bytes
    \<Rightarrow> 'c \<times> nat \<times> bytes result" where
  "framer_spec f = stream_spec (declared_length (fr_capacity f) (fr_maximum_packet_bytes f))
     accepts_packet"

definition pending :: "framer \<Rightarrow> bytes" where
  "pending f = take (fr_buffered f) (fr_storage f)"

definition framer_inv :: "framer \<Rightarrow> bool" where
  "framer_inv f \<longleftrightarrow> 4 \<le> fr_maximum_packet_bytes f \<and> fr_maximum_packet_bytes f \<le> fr_capacity f
     \<and> (if fr_expected f = 0 then fr_buffered f < 4
        else 4 \<le> fr_buffered f \<and> fr_buffered f < fr_expected f
             \<and> declared_length (fr_capacity f) (fr_maximum_packet_bytes f) (pending f)
               = Some (fr_expected f))"

text \<open>How a run of the framer matches a run of the specification on the same stream.\<close>

definition matches :: "framer \<Rightarrow> framer \<times> 'c \<times> nat result \<Rightarrow> 'c \<times> nat \<times> bytes result \<Rightarrow> bool" where
  "matches f r spec \<longleftrightarrow> (case (r, spec) of ((f', c, res), (c', n, out)) \<Rightarrow>
     c' = c \<and> fr_capacity f' = fr_capacity f
     \<and> fr_maximum_packet_bytes f' = fr_maximum_packet_bytes f
     \<and> (case out of
          Inl e \<Rightarrow> res = Inl e \<and> fr_closed f' \<and> fr_buffered f' = 0 \<and> fr_expected f' = 0
        | Inr rest \<Rightarrow> res = Inr n \<and> framer_inv f' \<and> pending f' = rest
            \<and> fr_closed f' = fr_closed f))"

section \<open>Refinement\<close>

lemma declared_append:
  "4 \<le> length s \<Longrightarrow> declared_length c m (s @ r) = declared_length c m s"
  by (auto simp: declared_length_def load32_def nth_append simp flip: length_greater_0_conv)

lemma declared_bounds:
  "declared_length c m s = Some k \<Longrightarrow> 4 \<le> k \<and> k \<le> m \<and> k \<le> c"
  by (auto simp: declared_length_def Let_def split: if_splits)

lemma absorb_spec:
  assumes inv: "framer_inv f" and ne: "input \<noteq> []" and a: "absorb f input = (f1, rest)"
  defines "target \<equiv> (if fr_expected f \<noteq> 0 then fr_expected f else 4)"
  shows "pending f1 @ rest = pending f @ input" and "length rest < length input"
    and "fr_buffered f1 \<le> target" and "fr_buffered f < fr_buffered f1"
    and "rest = [] \<or> fr_buffered f1 = target"
    and "fr_expected f1 = fr_expected f" and "fr_capacity f1 = fr_capacity f"
    and "fr_maximum_packet_bytes f1 = fr_maximum_packet_bytes f"
    and "fr_closed f1 = fr_closed f" and "length (pending f1) = fr_buffered f1"
    and "fr_buffered f1 \<le> fr_capacity f"
proof -
  let ?c = "min (length input) (target - fr_buffered f)"
  have f1: "f1 = f\<lparr>fr_storage := write_bytes (fr_storage f) (fr_buffered f) (take ?c input),
      fr_buffered := fr_buffered f + ?c\<rparr>" and rest: "rest = drop ?c input"
    using a unfolding absorb_def Let_def target_def [symmetric] by simp_all
  have t: "fr_buffered f < target" "target \<le> fr_capacity f"
    using inv declared_bounds unfolding framer_inv_def target_def
    by (auto split: if_splits)
  then have c: "0 < ?c" "?c \<le> length input" "fr_buffered f + ?c \<le> target"
    using ne by auto
  then have fit: "fr_buffered f + length (take ?c input) \<le> length (fr_storage f)"
    using t by (simp add: fr_capacity_def)
  have "take (fr_buffered f + ?c) (write_bytes (fr_storage f) (fr_buffered f) (take ?c input))
      = take (fr_buffered f) (fr_storage f) @ take ?c input"
    using take_write_bytes [OF fit] c by simp
  then show "pending f1 @ rest = pending f @ input" "length (pending f1) = fr_buffered f1"
    using fit c by (simp_all add: pending_def f1 rest)
  show "length rest < length input" using c ne by (simp add: rest)
  show "fr_buffered f1 \<le> target" "fr_buffered f < fr_buffered f1" "fr_buffered f1 \<le> fr_capacity f"
    using c t by (simp_all add: f1)
  show "rest = [] \<or> fr_buffered f1 = target" using t by (auto simp: f1 rest)
  show "fr_expected f1 = fr_expected f" "fr_maximum_packet_bytes f1 = fr_maximum_packet_bytes f"
    "fr_closed f1 = fr_closed f" "fr_capacity f1 = fr_capacity f"
    using fit by (simp_all add: f1 fr_capacity_def)
qed

lemma shutdown_simps [simp]:
  "fr_closed (shutdown_framer f)" "fr_buffered (shutdown_framer f) = 0"
  "fr_expected (shutdown_framer f) = 0" "fr_capacity (shutdown_framer f) = fr_capacity f"
  "fr_maximum_packet_bytes (shutdown_framer f) = fr_maximum_packet_bytes f"
  by (simp_all add: shutdown_framer_def reset_framer_def fr_capacity_def)

text \<open>The header check on a framer that has just absorbed bytes.\<close>

lemma inspect_header_spec:
  assumes "length (pending f) = fr_buffered f"
    and "fr_expected f = 0 \<Longrightarrow> fr_buffered f \<le> 4"
  shows "inspect_header f =
    (if fr_expected f = 0 \<and> fr_buffered f = 4
     then (case declared_length (fr_capacity f) (fr_maximum_packet_bytes f) (pending f) of
             None \<Rightarrow> Inl (err Invalid_argument) | Some k \<Rightarrow> Inr (f\<lparr>fr_expected := k\<rparr>))
     else Inr f)"
proof (cases "fr_expected f = 0 \<and> fr_buffered f = 4")
  case True
  then have "take 4 (fr_storage f) = pending f" by (simp add: pending_def)
  with True show ?thesis
    by (simp add: inspect_header_def declared_length_def Let_def)
next
  case False
  with assms(2) show ?thesis by (auto simp: inspect_header_def)
qed

lemma stream_spec_short: "length s < 4 \<Longrightarrow> stream_spec d a sink c n s = (c, n, Inr s)"
  by (simp add: stream_spec.simps [of d a sink c n s])

lemma framer_spec_wait:
  assumes "framer_inv f" and "length (pending f) = fr_buffered f"
  shows "framer_spec f sink c n (pending f) = (c, n, Inr (pending f))"
  using assms declared_bounds
  by (auto simp: framer_spec_def framer_inv_def stream_spec.simps [of _ _ sink c n "pending f"]
      split: if_splits)

definition deliver :: "nat \<Rightarrow> 'c packet_sink \<Rightarrow> 'c \<Rightarrow> framer \<Rightarrow> bytes \<Rightarrow> nat
    \<Rightarrow> (framer \<times> 'c \<times> nat result) option" where
  "deliver fuel sink c g rest n =
     (case decode_envelope (take (fr_expected g) (fr_storage g)) of
        Inl e \<Rightarrow> Some (shutdown_framer g, c, Inl e)
      | Inr v \<Rightarrow> let g' = g\<lparr>fr_buffered := 0, fr_expected := 0\<rparr>
          in (case sink c (take (fr_expected g) (fr_storage g)) of
                (c', Inl e) \<Rightarrow> Some (shutdown_framer g', c', Inl e)
              | (c', Inr u) \<Rightarrow> feed_loop fuel sink c' g' rest (n + 1)))"

lemma feed_loop_step:
  assumes "input \<noteq> []" and "absorb f input = (f1, rest)"
  shows "feed_loop (Suc fuel) sink c f input n =
    (case inspect_header f1 of Inl e \<Rightarrow> Some (shutdown_framer f1, c, Inl e)
     | Inr f2 \<Rightarrow> if fr_expected f2 = 0 \<or> fr_buffered f2 \<noteq> fr_expected f2
               then feed_loop fuel sink c f2 rest n else deliver fuel sink c f2 rest n)"
  using assms by (cases input; cases "inspect_header f1") (auto simp: deliver_def Let_def split: sum.split)

lemma framer_spec_cong:
  "fr_capacity g = fr_capacity f \<Longrightarrow> fr_maximum_packet_bytes g = fr_maximum_packet_bytes f \<Longrightarrow>
   framer_spec g = framer_spec f"
  by (simp add: framer_spec_def)

lemma matches_cong:
  "fr_capacity g = fr_capacity f \<Longrightarrow> fr_maximum_packet_bytes g = fr_maximum_packet_bytes f \<Longrightarrow>
   fr_closed g = fr_closed f \<Longrightarrow> matches g = matches f"
  by (intro ext) (simp add: matches_def)

lemma deliver_refines:
  assumes IH: "\<And>c'. \<exists>r. feed_loop fuel sink c' (g\<lparr>fr_buffered := 0, fr_expected := 0\<rparr>) rest (n + 1) = Some r
      \<and> matches g r (framer_spec g sink c' (n + 1) rest)"
    and full: "fr_buffered g = fr_expected g" "length (pending g) = fr_buffered g"
    and decl: "declared_length (fr_capacity g) (fr_maximum_packet_bytes g) (pending g)
      = Some (fr_expected g)"
  shows "\<exists>r. deliver fuel sink c g rest n = Some r
    \<and> matches g r (framer_spec g sink c n (pending g @ rest))"
proof -
  let ?k = "fr_expected g" and ?s = "pending g @ rest"
  have k: "4 \<le> ?k" using declared_bounds [OF decl] by simp
  have pk: "take ?k (fr_storage g) = pending g" using full by (simp add: pending_def)
  have d: "declared_length (fr_capacity g) (fr_maximum_packet_bytes g) ?s = Some ?k"
    using declared_append decl full k by simp
  have sp: "framer_spec g sink c n ?s =
      (case accepts_packet (pending g) of Inl e \<Rightarrow> (c, n, Inl e)
       | Inr u \<Rightarrow> (case sink c (pending g) of (c', Inl e) \<Rightarrow> (c', n, Inl e)
           | (c', Inr u') \<Rightarrow> framer_spec g sink c' (n + 1) rest))"
    unfolding framer_spec_def
    by (subst stream_spec.simps)
       (use d full k in \<open>simp cong: sum.case_cong prod.case_cong\<close>)
  show ?thesis
  proof (cases "decode_envelope (pending g)")
    case (Inl e)
    then show ?thesis
      by (simp add: deliver_def pk sp accepts_packet_def matches_def)
  next
    case (Inr v)
    obtain c' res where sk: "sink c (pending g) = (c', res)" by fastforce
    show ?thesis
    proof (cases res)
      case (Inl e)
      then show ?thesis
        using Inr sk 
        by (simp add: deliver_def pk sp accepts_packet_def matches_def fr_capacity_def
            shutdown_framer_def reset_framer_def)
    next
      case (Inr u)
      then show ?thesis
        using \<open>decode_envelope (pending g) = Inr v\<close> sk IH [of c']
        by (simp add: deliver_def pk sp accepts_packet_def)
    qed
  qed
qed

lemma feed_loop_refines:
  assumes "framer_inv f" and "length (pending f) = fr_buffered f" and "length input \<le> fuel"
  shows "\<exists>r. feed_loop fuel sink c f input n = Some r
    \<and> matches f r (framer_spec f sink c n (pending f @ input))"
  using assms
proof (induction fuel arbitrary: f input c n)
  case 0
  then show ?case by (simp add: framer_spec_wait matches_def)
next
  case (Suc fuel)
  show ?case
  proof (cases "input = []")
    case True
    with Suc.prems show ?thesis by (simp add: framer_spec_wait matches_def)
  next
    case False
    obtain f1 rest where a: "absorb f input = (f1, rest)" by fastforce
    note ab = absorb_spec [OF Suc.prems(1) False a]
    let ?D = "declared_length (fr_capacity f) (fr_maximum_packet_bytes f)"
    have len: "length rest \<le> fuel" using ab(2) Suc.prems(3) by simp
    have mx: "4 \<le> fr_maximum_packet_bytes f" "fr_maximum_packet_bytes f \<le> fr_capacity f"
      using Suc.prems(1) by (simp_all add: framer_inv_def)
    have again: "\<exists>r. feed_loop fuel sink c' g rest n' = Some r
        \<and> matches f r (framer_spec f sink c' n' (pending g @ rest))"
      if "framer_inv g" "length (pending g) = fr_buffered g" "fr_capacity g = fr_capacity f"
        "fr_maximum_packet_bytes g = fr_maximum_packet_bytes f" "fr_closed g = fr_closed f"
      for g c' n'
      using Suc.IH [OF that(1,2) len, of c' n']
      by (simp add: framer_spec_cong [OF that(3,4)] matches_cong [OF that(3,4,5)])
    have finish: "\<exists>r. deliver fuel sink c g rest n = Some r
        \<and> matches f r (framer_spec f sink c n (pending f @ input))"
      if g: "g = f1\<lparr>fr_expected := k\<rparr>" "fr_buffered f1 = k" "?D (pending f1) = Some k" for g k
    proof -
      have eqs: "fr_capacity g = fr_capacity f" "fr_maximum_packet_bytes g = fr_maximum_packet_bytes f"
        "fr_closed g = fr_closed f" "pending g = pending f1"
        using g(1) ab by (simp_all add: fr_capacity_def pending_def)
      let ?g = "g\<lparr>fr_buffered := 0, fr_expected := 0\<rparr>"
      have "framer_inv ?g" "pending ?g = []" "fr_capacity ?g = fr_capacity f"
        using mx eqs by (simp_all add: framer_inv_def pending_def fr_capacity_def)
      then have "\<exists>r. feed_loop fuel sink c' ?g rest (n + 1) = Some r
          \<and> matches g r (framer_spec g sink c' (n + 1) rest)" for c'
        using again [of ?g c' "n + 1"] eqs(1-3)
        by (simp add: framer_spec_cong [OF eqs(1,2)] matches_cong [OF eqs(1,2,3)])
      then have "\<exists>r. deliver fuel sink c g rest n = Some r
          \<and> matches g r (framer_spec g sink c n (pending g @ rest))"
        using g eqs ab by (intro deliver_refines) simp_all
      then show ?thesis
        using ab(1)
        by (simp add: eqs(4) framer_spec_cong [OF eqs(1,2)] matches_cong [OF eqs(1,2,3)])
    qed
    have ih: "inspect_header f1 = (if fr_expected f = 0 \<and> fr_buffered f1 = 4
        then (case ?D (pending f1) of None \<Rightarrow> Inl (err Invalid_argument)
              | Some k \<Rightarrow> Inr (f1\<lparr>fr_expected := k\<rparr>)) else Inr f1)"
      using inspect_header_spec [of f1] ab by (simp split: if_splits)
    note step = feed_loop_step [OF False a, of fuel sink c n]
    show ?thesis
    proof (cases "fr_expected f = 0")
      case True
      show ?thesis
      proof (cases "fr_buffered f1 = 4")
        case hdr: True
        have d: "?D (pending f @ input) = ?D (pending f1)"
          using declared_append [of "pending f1"] ab(1,10) hdr by (metis order_refl)
        have s4: "4 \<le> length (pending f @ input)"
          using ab(1,10) hdr by (metis le_add1 length_append)
        show ?thesis
        proof (cases "?D (pending f1)")
          case None
          then have "framer_spec f sink c n (pending f @ input) = (c, n, Inl (err Invalid_argument))"
            unfolding framer_spec_def using s4 d by (subst stream_spec.simps) simp
          then show ?thesis using None True hdr ab by (simp add: step ih matches_def)
        next
          case (Some k)
          have "framer_inv (f1\<lparr>fr_expected := k\<rparr>)" if "k \<noteq> 4"
            using that hdr Some declared_bounds [OF Some] mx ab
            by (simp add: framer_inv_def fr_capacity_def pending_def)
          then show ?thesis
            using Some True hdr ab again [of "f1\<lparr>fr_expected := k\<rparr>" c n] finish [OF refl _ Some]
              declared_bounds [OF Some]
            by (cases "k = 4") (simp_all add: step ih fr_capacity_def pending_def)
        qed
      next
        case False
        then have "framer_inv f1" using True ab mx by (simp add: framer_inv_def)
        with False True ab again [of f1 c n] show ?thesis by (simp add: step ih)
      qed
    next
      case False
      let ?k = "fr_expected f"
      have pre: "4 \<le> length (pending f)" "?D (pending f) = Some ?k"
        using Suc.prems(1,2) False by (simp_all add: framer_inv_def)
      then have d: "?D (pending f1) = Some ?k"
        using declared_append [of "pending f" "fr_capacity f" _ input]
          declared_append [of "pending f1" "fr_capacity f" _ rest] ab(1,4,10) Suc.prems(2)
        by simp
      show ?thesis
      proof (cases "fr_buffered f1 = ?k")
        case True
        then show ?thesis
          using finish [OF _ _ d, of f1] False ab(6) by (simp add: step ih)
      next
        case neq: False
        then have "framer_inv f1"
          using False ab mx d pre Suc.prems(2) by (simp add: framer_inv_def)
        then show ?thesis using neq False ab again [of f1 c n] by (simp add: step ih)
      qed
    qed
  qed
qed

section \<open>Splitting a stream\<close>

text \<open>The specification processes a stream the same way whatever chunks it arrives in.\<close>

lemma stream_spec_append:
  assumes stable: "\<And>s t. 4 \<le> length s \<Longrightarrow> d (s @ t) = d s"
  shows "stream_spec d a sink c n (s @ t) =
    (case stream_spec d a sink c n s of
       (c', n', Inl e) \<Rightarrow> (c', n', Inl e)
     | (c', n', Inr rest) \<Rightarrow> stream_spec d a sink c' n' (rest @ t))"
proof (induction s arbitrary: c n rule: measure_induct_rule [of length])
  case (less s)
  note unfold = stream_spec.simps [of d a sink c n s] stream_spec.simps [of d a sink c n "s @ t"]
  show ?case
  proof (cases "length s < 4 \<or> (\<exists>k. d s = Some k \<and> k \<noteq> 0 \<and> length s < k)")
    case True
    then have "stream_spec d a sink c n s = (c, n, Inr s)" by (auto simp: unfold(1))
    then show ?thesis by simp
  next
    case False
    then have four: "4 \<le> length s" and ds: "d (s @ t) = d s" using stable by auto
    show ?thesis
    proof (cases "d s")
      case None
      then show ?thesis using four ds by (simp add: unfold)
    next
      case (Some k)
      with False four show ?thesis
        using less.IH [of "drop k s"] ds
        by (auto simp: unfold split: sum.split prod.split)
    qed
  qed
qed

lemma stream_spec_count:
  "stream_spec d a sink c (n + m) s =
    (case stream_spec d a sink c n s of (c', n', r) \<Rightarrow> (c', n' + m, r))"
proof (induction s arbitrary: c n rule: measure_induct_rule [of length])
  case (less s)
  have IH: "k \<noteq> 0 \<Longrightarrow> \<not> length s < 4 \<Longrightarrow> stream_spec d a sink c' (Suc (n + m)) (drop k s)
      = (case stream_spec d a sink c' (Suc n) (drop k s) of (c', n', r) \<Rightarrow> (c', n' + m, r))" for k c'
    using less.IH [of "drop k s" c' "Suc n"] by fastforce
  show ?case
    by (auto simp: stream_spec.simps [of d a sink c _ s] IH
        split: option.split sum.split prod.split)
qed

text \<open>What a framer needs of a packet format, and what it then delivers.\<close>

locale framed_codec =
  fixes image :: "'p \<Rightarrow> bytes" and good :: "'p \<Rightarrow> bool"
    and declared :: "bytes \<Rightarrow> nat option" and accepts :: "bytes \<Rightarrow> unit result"
  assumes declared_image: "good p \<Longrightarrow> declared (image p @ rest) = Some (length (image p))"
    and accepts_image: "good p \<Longrightarrow> accepts (image p) = Inr ()"
    and image_header: "good p \<Longrightarrow> 4 \<le> length (image p)"
begin

lemma delivers_packet:
  assumes "good p" and "sink c (image p) = (c', Inr ())"
  shows "stream_spec declared accepts sink c n (image p @ rest)
    = stream_spec declared accepts sink c' (n + 1) rest"
  using assms image_header [OF assms(1)]
  by (subst stream_spec.simps) (auto simp: declared_image accepts_image)

lemma delivers_all:
  assumes "\<forall>p \<in> set ps. good p" and "\<And>c p. sink c (image p) = (c @ [image p], Inr ())"
  shows "stream_spec declared accepts sink c n (concat (map image ps) @ rest)
    = stream_spec declared accepts sink (c @ map image ps) (n + length ps) rest"
  using assms(1)
proof (induction ps arbitrary: c n)
  case (Cons p ps)
  then show ?case
    using delivers_packet [of p sink c "c @ [image p]" n "concat (map image ps) @ rest"] assms(2)
    by simp
qed simp

end

text \<open>The envelope codec is such a format: an encodable packet whose size the framer admits.\<close>

type_synonym packet = "envelope \<times> bytes \<times> u32 option"

fun packet_image :: "packet \<Rightarrow> bytes" where
  "packet_image (e, payload, t) =
     (case measure_envelope e (length payload) of
        Inl x \<Rightarrow> [] | Inr n \<Rightarrow> envelope_image e n payload t)"

fun good_packet :: "nat \<Rightarrow> packet \<Rightarrow> bool" where
  "good_packet bound (e, payload, t) \<longleftrightarrow> (env_trailer e \<longleftrightarrow> t \<noteq> None)
     \<and> (case measure_envelope e (length payload) of Inl x \<Rightarrow> False | Inr n \<Rightarrow> n \<le> bound)"

lemma decode_packet_image:
  assumes "good_packet b (e, payload, t)"
  shows "decodes_to (packet_image (e, payload, t)) (canonical_envelope e) payload t"
proof -
  obtain n where m: "measure_envelope e (length payload) = Inr n" and t: "env_trailer e \<longleftrightarrow> t \<noteq> None"
    using assms by (auto split: sum.splits)
  have "decodes_to (envelope_image (canonical_envelope e) n payload t) (canonical_envelope e) payload t"
    using m t by (intro decode_image) auto
  then show ?thesis using m by simp
qed

lemma good_packet_framing:
  assumes "good_packet (min cap mx) p"
  shows "declared_length cap mx (packet_image p @ rest) = Some (length (packet_image p))"
    and "4 \<le> length (packet_image p)"
proof -
  obtain e payload t where p: "p = (e, payload, t)" by (cases p)
  let ?w = "packet_image p"
  obtain v where d: "decode_envelope ?w = Inr v"
    using decode_packet_image [of "min cap mx" e payload t] assms p by (auto simp: decodes_to_def)
  obtain n where m: "measure_envelope e (length payload) = Inr n" and n: "n \<le> cap" "n \<le> mx"
    and t: "env_trailer e \<longleftrightarrow> t \<noteq> None"
    using assms p by (auto split: sum.splits)
  have len: "length ?w = n" using length_envelope_image [OF m t] m p by simp
  show four: "4 \<le> length ?w"
    using d by (auto simp: decode_envelope_def not_less split: if_splits)
  have "\<not> drop_bit 28 (load32 ?w 0) > 7" "unat (load32 ?w 0 AND 0xffff) * 4 = length ?w"
    using d by (auto simp: decode_envelope_def Let_def split: if_splits)
  then have "declared_length cap mx ?w = Some (length ?w)"
    using four len n by (simp add: declared_length_def Let_def)
  then show "declared_length cap mx (?w @ rest) = Some (length ?w)"
    using declared_append [OF four] by simp
qed

interpretation envelope_stream: framed_codec packet_image "good_packet (min cap mx)"
  "declared_length cap mx" accepts_packet for cap mx
proof
  fix p rest assume g: "good_packet (min cap mx) p"
  show "declared_length cap mx (packet_image p @ rest) = Some (length (packet_image p))"
    and "4 \<le> length (packet_image p)"
    using good_packet_framing [OF g] by auto
  show "accepts_packet (packet_image p) = Inr ()"
    using g decode_packet_image by (cases p) (auto simp: accepts_packet_def decodes_to_def)
qed

section \<open>Properties\<close>

text \<open>A framer between two calls, open and correctly configured.\<close>

definition framer_ready :: "framer \<Rightarrow> bool" where
  "framer_ready f \<longleftrightarrow> framer_inv f \<and> \<not> fr_closed f \<and> fr_maximum_packet_bytes f mod 4 = 0"

text \<open>Successive calls of \<open>feed\<close> on the chunks of a stream, stopping at the first error.\<close>

fun feed_chunks :: "'c packet_sink \<Rightarrow> 'c \<Rightarrow> framer \<Rightarrow> bytes list \<Rightarrow> nat
    \<Rightarrow> (framer \<times> 'c \<times> nat result) option" where
  "feed_chunks sink c f [] n = Some (f, c, Inr n)"
| "feed_chunks sink c f (x # xs) n =
     (case feed (Some sink) c f x of
        None \<Rightarrow> None
      | Some (f', c', Inl e) \<Rightarrow> Some (f', c', Inl e)
      | Some (f', c', Inr k) \<Rightarrow> feed_chunks sink c' f' xs (n + k))"

definition log_sink :: "bytes list packet_sink" where
  "log_sink seen p = (seen @ [p], Inr ())"

lemma framer_inv_pending: "framer_inv f \<Longrightarrow> length (pending f) = fr_buffered f"
  using declared_bounds by (fastforce simp: framer_inv_def pending_def fr_capacity_def split: if_splits)

lemma feed_ready:
  assumes "framer_ready f"
  shows "\<exists>r. feed (Some sink) c f input = Some r
    \<and> matches f r (framer_spec f sink c 0 (pending f @ input))"
proof -
  have "feed (Some sink) c f input = feed_loop (length input) sink c f input 0"
    using assms by (simp add: feed_def framer_ready_def framer_inv_def not_less)
  then show ?thesis
    using feed_loop_refines [of f input "length input" sink c 0] assms framer_inv_pending
    by (simp add: framer_ready_def)
qed

lemma feed_chunks_refines:
  assumes "framer_ready f"
  shows "\<exists>r. feed_chunks sink c f xs n = Some r
    \<and> matches f r (framer_spec f sink c n (pending f @ concat xs))"
  using assms
proof (induction xs arbitrary: f c n)
  case Nil
  then show ?case
    by (simp add: framer_spec_wait framer_inv_pending matches_def framer_ready_def)
next
  case (Cons x xs)
  obtain f' c' res where f: "feed (Some sink) c f x = Some (f', c', res)"
    and m: "matches f (f', c', res) (framer_spec f sink c 0 (pending f @ x))"
    using feed_ready [OF Cons.prems] by (metis prod_cases3)
  obtain n' out where sp: "framer_spec f sink c 0 (pending f @ x) = (c', n', out)"
    using m by (auto simp: matches_def split: prod.splits)
  have cnt: "framer_spec f sink c n (pending f @ x) = (c', n' + n, out)"
    using stream_spec_count [of _ _ sink c 0 n] sp by (simp add: framer_spec_def)
  have all: "framer_spec f sink c n (pending f @ concat (x # xs)) =
      (case out of Inl e \<Rightarrow> (c', n' + n, Inl e)
       | Inr rest \<Rightarrow> framer_spec f sink c' (n' + n) (rest @ concat xs))"
    using stream_spec_append [of "declared_length (fr_capacity f) (fr_maximum_packet_bytes f)"
        accepts_packet sink c n "pending f @ x" "concat xs"] declared_append cnt
    by (auto simp: framer_spec_def split: sum.splits)
  show ?case
  proof (cases out)
    case (Inl e)
    then show ?thesis using f m sp all by (auto simp: matches_def)
  next
    case (Inr rest)
    then have g: "res = Inr n'" "framer_inv f'" "pending f' = rest" "fr_closed f' = fr_closed f"
      "fr_capacity f' = fr_capacity f" "fr_maximum_packet_bytes f' = fr_maximum_packet_bytes f"
      using m sp by (auto simp: matches_def)
    then have "framer_ready f'" using Cons.prems by (simp add: framer_ready_def)
    from Cons.IH [OF this, of c' "n + n'"] show ?thesis
      using f g all Inr
      by (simp add: framer_spec_cong [OF g(5,6)] matches_cong [OF g(5,6,4)] add.commute)
  qed
qed

lemma sample_framer_ready: "framer_ready (make_framer 16 16)"
  by (simp add: framer_ready_def framer_inv_def make_framer_def fr_capacity_def)

lemma sample_packet_image: "packet_image (sample_signal, [1, 2, 3, 4], None) = sample_wire"
  by (simp add: envelope_image_def be_words_def trailer_bytes_def wire_eval)

lemma sample_good: "good_packet 16 (sample_signal, [1, 2, 3, 4], None)"
  by (simp add: wire_eval)

lemma sample_short_stream:
  assumes "length (concat xs) < 4"
  shows "\<exists>f'. feed_chunks log_sink [] (make_framer 16 16) xs 0 = Some (f', [], Inr 0)"
  using feed_chunks_refines [OF sample_framer_ready, of log_sink "[]" xs 0] assms
  by (auto simp: matches_def framer_spec_def stream_spec_short pending_def make_framer_def)

text \<open>C4: one call of \<open>feed\<close> always returns, and does to the unread stream (what was
  buffered followed by the input) what the chunk-free parser does: the same packets reach the
  sink in the same order, the same error is returned and closes the framer, and otherwise the
  unparsed rest stays buffered.\<close>

theorem feed_refines_spec:
  assumes "framer_ready f"
  shows "\<exists>f' c' res. feed (Some sink) c f input = Some (f', c', res)
    \<and> (case framer_spec f sink c 0 (pending f @ input) of
         (c'', n, Inl e) \<Rightarrow> c' = c'' \<and> res = Inl e \<and> fr_closed f' \<and> pending f' = []
       | (c'', n, Inr rest) \<Rightarrow> c' = c'' \<and> res = Inr n \<and> framer_ready f' \<and> pending f' = rest)"
proof -
  obtain f' c' res where r: "feed (Some sink) c f input = Some (f', c', res)"
      "matches f (f', c', res) (framer_spec f sink c 0 (pending f @ input))"
    using feed_ready [OF assms] by (metis prod_cases3)
  then show ?thesis
    using assms
    by (intro exI [of _ f'] exI [of _ c'] exI [of _ res])
       (auto simp: matches_def framer_ready_def pending_def split: sum.splits prod.splits)
qed

theorem feed_refines_spec_witness:
  "\<exists>f' c' res. feed (Some log_sink) [] (make_framer 16 16) [1, 2] = Some (f', c', res)
    \<and> c' = [] \<and> res = Inr 0 \<and> framer_ready f' \<and> pending f' = [1, 2]"
  using feed_refines_spec [OF sample_framer_ready, of log_sink "[]" "[1, 2]"]
  by (simp add: framer_spec_def stream_spec_short pending_def make_framer_def)

text \<open>C6: chunk boundaries do not matter: two chunkings of the same bytes lead to the same sink
  context, the same delivered count or error, and the same buffered remainder.\<close>

theorem feed_chunking_irrelevant:
  assumes "framer_ready f" and "concat xs = concat ys"
    and "feed_chunks sink c f xs n = Some (f1, c1, r1)"
    and "feed_chunks sink c f ys n = Some (f2, c2, r2)"
  shows "c1 = c2 \<and> r1 = r2 \<and> pending f1 = pending f2 \<and> fr_closed f1 = fr_closed f2
    \<and> fr_expected f1 = fr_expected f2"
proof -
  let ?spec = "framer_spec f sink c n (pending f @ concat ys)"
  have m: "matches f (f1, c1, r1) ?spec" "matches f (f2, c2, r2) ?spec"
    using feed_chunks_refines [OF assms(1), of sink c xs n]
      feed_chunks_refines [OF assms(1), of sink c ys n] assms(2-4) by auto
  have ex: "fr_expected g = (if length (pending g) < 4 then 0
      else the (declared_length (fr_capacity g) (fr_maximum_packet_bytes g) (pending g)))"
    if "framer_inv g" for g
    using that framer_inv_pending [OF that] by (auto simp: framer_inv_def split: if_splits)
  obtain c' k out where "?spec = (c', k, out)" by (cases ?spec) auto
  then show ?thesis
  proof (cases out)
    case (Inl e)
    with m \<open>?spec = (c', k, out)\<close> show ?thesis by (auto simp: matches_def pending_def)
  next
    case (Inr rest)
    with m ex [of f1] ex [of f2] \<open>?spec = (c', k, out)\<close> show ?thesis by (auto simp: matches_def)
  qed
qed

theorem feed_chunking_irrelevant_witness:
  "\<exists>f1 f2. feed_chunks log_sink [] (make_framer 16 16) [[1], [2]] 0 = Some (f1, [], Inr 0)
    \<and> feed_chunks log_sink [] (make_framer 16 16) [[1, 2]] 0 = Some (f2, [], Inr 0)
    \<and> pending f1 = pending f2 \<and> fr_expected f1 = fr_expected f2"
proof -
  obtain f1 where f1: "feed_chunks log_sink [] (make_framer 16 16) [[1], [2]] 0 = Some (f1, [], Inr 0)"
    using sample_short_stream [of "[[1], [2]]"] by auto
  obtain f2 where f2: "feed_chunks log_sink [] (make_framer 16 16) [[1, 2]] 0 = Some (f2, [], Inr 0)"
    using sample_short_stream [of "[[1, 2]]"] by auto
  show ?thesis
    using feed_chunking_irrelevant [OF sample_framer_ready _ f1 f2] f1 f2 by auto
qed

text \<open>C8: a stream of encoded packets, cut into chunks anywhere, is delivered packet by packet,
  complete, in order and unchanged, and leaves nothing buffered.\<close>

theorem feed_delivers_packets:
  assumes "4 \<le> mx" and "mx \<le> cap" and "mx mod 4 = 0"
    and "\<forall>p \<in> set ps. good_packet mx p"
    and "concat chunks = concat (map packet_image ps)"
  shows "\<exists>f'. feed_chunks log_sink [] (make_framer cap mx) chunks 0
      = Some (f', map packet_image ps, Inr (length ps)) \<and> pending f' = [] \<and> framer_ready f'"
proof -
  let ?f = "make_framer cap mx"
  have f: "framer_ready ?f" "pending ?f = []" "fr_capacity ?f = cap" "fr_maximum_packet_bytes ?f = mx"
    using assms(1-3)
    by (simp_all add: framer_ready_def framer_inv_def make_framer_def fr_capacity_def pending_def)
  have good: "\<forall>p \<in> set ps. good_packet (min cap mx) p"
    using assms(2,4) by (simp add: min_absorb2)
  have "framer_spec ?f log_sink [] 0 (pending ?f @ concat chunks)
      = (map packet_image ps, length ps, Inr [])"
    using envelope_stream.delivers_all [OF good, of log_sink "[]" 0 "[]"] f(2-4) assms(5)
    by (simp add: framer_spec_def log_sink_def stream_spec_short)
  with feed_chunks_refines [OF f(1), of log_sink "[]" chunks 0] f(4) assms(3) f(1)
  show ?thesis by (auto simp: matches_def framer_ready_def)
qed

theorem feed_delivers_packets_witness:
  "\<exists>f'. feed_chunks log_sink [] (make_framer 16 16) [take 5 sample_wire, drop 5 sample_wire] 0
      = Some (f', [sample_wire], Inr 1) \<and> pending f' = []"
  using feed_delivers_packets [of 16 16 "[(sample_signal, [1, 2, 3, 4], None)]"
      "[take 5 sample_wire, drop 5 sample_wire]"] sample_good
  by (auto simp: sample_packet_image simp del: packet_image.simps good_packet.simps)

text \<open>C38: a disconnect in the middle of a packet is reported as a short input that names the
  bytes received and the bytes expected, discards them and leaves the framer closed; between
  packets it succeeds. A reconnect then makes the framer ready again.\<close>

theorem disconnect_reports_partial:
  assumes "framer_ready f"
  shows "(case disconnect_framer f of
      (f', Inl e) \<Rightarrow> pending f \<noteq> [] \<and> e = err_need Short_input (length (pending f))
          (length (pending f) + awaiting_bytes f) \<and> 0 < awaiting_bytes f
          \<and> fr_closed f' \<and> pending f' = []
    | (f', Inr u) \<Rightarrow> pending f = [] \<and> fr_closed f' \<and> pending f' = [])
    \<and> framer_ready (reconnect_framer (fst (disconnect_framer f)))"
  using assms framer_inv_pending [of f]
  by (auto simp: disconnect_framer_def Let_def framer_ready_def framer_inv_def awaiting_bytes_def
      reset_framer_def reconnect_framer_def pending_def fr_capacity_def split: if_splits)

theorem disconnect_reports_partial_witness:
  "framer_ready (reconnect_framer (fst (disconnect_framer (make_framer 16 16))))"
  using disconnect_reports_partial [OF sample_framer_ready] by simp

end
