(* ===== verification/Slots.thy ===== *)
theory Slots
  imports Prelude
begin

text \<open>
  Fixed arrays of optional entries (\<^verbatim>\<open>std::array<std::optional<T>, N>\<close>), the storage of
  every registry and table of the framework, with the loops the source runs over them: find
  the first live entry that satisfies a condition, fill the first free slot, update the first
  match. The locale \<open>keyed_slots\<close> states what a table gives its clients when entries
  carry keys that are compared by an equivalence: lookup after insertion, uniqueness, and
  the number of free slots. \<open>live_keys\<close> is the set of entries the table holds.
\<close>

type_synonym 'a slots = "'a option list"

fun find_slot :: "('a \<Rightarrow> bool) \<Rightarrow> 'a slots \<Rightarrow> 'a option" where
  "find_slot P [] = None"
| "find_slot P (None # ss) = find_slot P ss"
| "find_slot P (Some x # ss) = (if P x then Some x else find_slot P ss)"

fun fill_first :: "'a \<Rightarrow> 'a slots \<Rightarrow> 'a slots option" where
  "fill_first x [] = None"
| "fill_first x (None # ss) = Some (Some x # ss)"
| "fill_first x (Some y # ss) = map_option ((#) (Some y)) (fill_first x ss)"

fun update_slot :: "('a \<Rightarrow> bool) \<Rightarrow> ('a \<Rightarrow> 'a) \<Rightarrow> 'a slots \<Rightarrow> 'a slots" where
  "update_slot P f [] = []"
| "update_slot P f (None # ss) = None # update_slot P f ss"
| "update_slot P f (Some x # ss) = (if P x then Some (f x) # ss else Some x # update_slot P f ss)"

fun free_slots :: "'a slots \<Rightarrow> nat" where
  "free_slots [] = 0"
| "free_slots (None # ss) = free_slots ss + 1"
| "free_slots (Some x # ss) = free_slots ss"

definition holds :: "'a slots \<Rightarrow> 'a \<Rightarrow> bool" where
  "holds ss x \<longleftrightarrow> Some x \<in> set ss"

definition unique_slots :: "('a \<Rightarrow> 'a \<Rightarrow> bool) \<Rightarrow> 'a slots \<Rightarrow> bool" where
  "unique_slots same ss \<longleftrightarrow> (\<forall>i < length ss. \<forall>j < length ss. \<forall>x y.
     ss ! i = Some x \<longrightarrow> ss ! j = Some y \<longrightarrow> same x y \<longrightarrow> i = j)"

section \<open>The loops\<close>

lemma find_slot_None: "find_slot P ss = None \<longleftrightarrow> (\<forall>x. holds ss x \<longrightarrow> \<not> P x)"
  by (induction P ss rule: find_slot.induct) (auto simp: holds_def)

lemma find_slot_SomeD: "find_slot P ss = Some x \<Longrightarrow> holds ss x \<and> P x"
  by (induction P ss rule: find_slot.induct) (auto simp: holds_def split: if_splits)

lemma fill_first_index:
  "fill_first x ss = Some ss' \<longleftrightarrow>
     (\<exists>i < length ss. ss ! i = None \<and> (\<forall>j < i. ss ! j \<noteq> None) \<and> ss' = ss[i := Some x])"
proof (induction x ss arbitrary: ss' rule: fill_first.induct)
  case (2 x ss)
  have "i = 0" if "\<forall>j < i. (None # ss) ! j \<noteq> None" for i using that by (cases i) force+
  then show ?case by (auto 0 3 dest: sym intro: exI [of _ 0])
next
  case (3 x y ss)
  show ?case
  proof
    assume "fill_first x (Some y # ss) = Some ss'"
    then obtain t where t: "fill_first x ss = Some t" "ss' = Some y # t" by auto
    then obtain i where i: "i < length ss" "ss ! i = None" "\<forall>j < i. ss ! j \<noteq> None"
      "t = ss[i := Some x]" using 3 by auto
    then show "\<exists>i < length (Some y # ss). (Some y # ss) ! i = None
        \<and> (\<forall>j < i. (Some y # ss) ! j \<noteq> None) \<and> ss' = (Some y # ss)[i := Some x]"
      using t by (intro exI [of _ "Suc i"]) (auto simp: nth_Cons split: nat.split)
  next
    assume "\<exists>i < length (Some y # ss). (Some y # ss) ! i = None
        \<and> (\<forall>j < i. (Some y # ss) ! j \<noteq> None) \<and> ss' = (Some y # ss)[i := Some x]"
    then obtain i where i: "i < Suc (length ss)" "(Some y # ss) ! i = None"
      "\<forall>j < i. (Some y # ss) ! j \<noteq> None" "ss' = (Some y # ss)[i := Some x]" by auto
    then obtain k where k: "i = Suc k" by (cases i) auto
    have "\<forall>j < k. ss ! j \<noteq> None" using i(3) k by force
    then have "fill_first x ss = Some (ss[k := Some x])"
      using 3 [of "ss[k := Some x]"] i k by auto
    then show "fill_first x (Some y # ss) = Some ss'" using i k by simp
  qed
qed simp

lemma fill_first_None: "fill_first x ss = None \<longleftrightarrow> free_slots ss = 0"
  by (induction x ss rule: fill_first.induct) auto

lemma fill_first_free: "fill_first x ss = Some ss' \<Longrightarrow> free_slots ss = free_slots ss' + 1"
  by (induction x ss arbitrary: ss' rule: fill_first.induct) auto

lemma fill_first_length: "fill_first x ss = Some ss' \<Longrightarrow> length ss' = length ss"
  by (auto simp: fill_first_index)

lemma fill_first_holds:
  "fill_first x ss = Some ss' \<Longrightarrow> holds ss' y \<longleftrightarrow> y = x \<or> holds ss y"
  by (induction x ss arbitrary: ss' rule: fill_first.induct) (auto simp: holds_def)

lemma free_slots_le: "free_slots ss \<le> length ss"
  by (induction ss rule: free_slots.induct) auto

lemma free_slots_replicate [simp]: "free_slots (replicate n None) = n"
  by (induction n) auto

lemma two_slots: "replicate 2 None = [None, None]"
  by (simp add: numeral_2_eq_2)

lemma holds_replicate [simp]: "\<not> holds (replicate n None) x"
  by (simp add: holds_def)

lemma find_slot_replicate [simp]: "find_slot P (replicate n None) = None"
  by (simp add: find_slot_None)

lemma length_update_slot [simp]: "length (update_slot P f ss) = length ss"
  by (induction P f ss rule: update_slot.induct) auto

lemma free_update_slot [simp]: "free_slots (update_slot P f ss) = free_slots ss"
  by (induction P f ss rule: update_slot.induct) auto

lemma update_slot_nth_cases:
  "i < length ss \<Longrightarrow> update_slot P f ss ! i = ss ! i \<or> (\<exists>x. ss ! i = Some x \<and> P x
     \<and> update_slot P f ss ! i = Some (f x))"
  by (induction P f ss arbitrary: i rule: update_slot.induct) (auto simp: nth_Cons split: nat.splits)

lemma update_slot_holdsD:
  assumes "holds (update_slot P f ss) y"
  shows "holds ss y \<or> (\<exists>x. holds ss x \<and> P x \<and> y = f x)"
proof -
  obtain i where i: "i < length ss" "update_slot P f ss ! i = Some y"
    using assms by (auto simp: holds_def in_set_conv_nth)
  with update_slot_nth_cases [OF i(1), of P f] show ?thesis
    by (metis holds_def nth_mem option.inject)
qed

section \<open>Keyed tables\<close>

locale keyed_slots =
  fixes same :: "'a \<Rightarrow> 'a \<Rightarrow> bool"
  assumes same_refl: "same x x"
    and same_sym: "same x y \<Longrightarrow> same y x"
    and same_trans: "same x y \<Longrightarrow> same y z \<Longrightarrow> same x z"
begin

lemma unique_empty: "unique_slots same (replicate n None)"
  by (simp add: unique_slots_def)

lemma unique_fill:
  assumes "unique_slots same ss" and "find_slot (same x) ss = None" and "fill_first x ss = Some ss'"
  shows "unique_slots same ss'"
proof -
  obtain k where k: "k < length ss" "ss ! k = None" "ss' = ss[k := Some x]"
    using assms(3) by (auto simp: fill_first_index)
  have new: "\<not> same x y" if "i < length ss" "ss ! i = Some y" for i y
    using assms(2) that by (auto simp: find_slot_None holds_def) (metis nth_mem)
  show ?thesis unfolding unique_slots_def
  proof (intro allI impI)
    fix i j y z
    assume h: "i < length ss'" "j < length ss'" "ss' ! i = Some y" "ss' ! j = Some z" "same y z"
    then consider "i = k" "j = k" | "i = k" "j \<noteq> k" "same x z" "ss ! j = Some z"
      | "i \<noteq> k" "j = k" "same x y" "ss ! i = Some y"
      | "i \<noteq> k" "j \<noteq> k" "ss ! i = Some y" "ss ! j = Some z"
      using k same_sym by (cases "i = k"; cases "j = k") auto
    then show "i = j"
      using new h k assms(1) by cases (auto simp: unique_slots_def)
  qed
qed

lemma unique_Cons_None: "unique_slots same (None # ss) \<Longrightarrow> unique_slots same ss"
  unfolding unique_slots_def by (metis Suc_less_eq length_Cons nat.inject nth_Cons_Suc)

lemma unique_Cons_Some:
  assumes "unique_slots same (Some x # ss)"
  shows "unique_slots same ss" and "holds ss y \<Longrightarrow> \<not> same x y"
proof -
  show "unique_slots same ss" using assms
    unfolding unique_slots_def by (metis Suc_less_eq length_Cons nat.inject nth_Cons_Suc)
  assume "holds ss y"
  then obtain j where "j < length ss" "ss ! j = Some y" by (auto simp: holds_def in_set_conv_nth)
  then show "\<not> same x y" using assms unfolding unique_slots_def
    by (metis Suc_less_eq Zero_not_Suc length_Cons nth_Cons_0 nth_Cons_Suc zero_less_Suc)
qed

lemma find_unique:
  assumes "unique_slots same ss" and "holds ss x" and "same x y"
  shows "find_slot (same y) ss = Some x"
proof -
  have "find_slot (same y) ss \<noteq> None"
    using assms(2,3) same_sym by (auto simp: find_slot_None)
  then obtain z where z: "find_slot (same y) ss = Some z" by auto
  then have h: "holds ss z" "same y z" using find_slot_SomeD by fast+
  obtain i j where ij: "i < length ss" "ss ! i = Some x" "j < length ss" "ss ! j = Some z"
    using assms(2) h(1) by (auto simp: holds_def in_set_conv_nth)
  have "i = j" using assms(1,3) h(2) ij same_trans unfolding unique_slots_def by blast
  with ij z show ?thesis by simp
qed

text \<open>Lookup after an insertion of a key that was not there.\<close>

lemma find_fill:
  assumes "unique_slots same ss" and "find_slot (same x) ss = None" and "fill_first x ss = Some ss'"
  shows "find_slot (same y) ss' = (if same x y then Some x else find_slot (same y) ss)"
proof (cases "find_slot (same y) ss'")
  case None
  then have "\<not> same x y" using fill_first_holds [OF assms(3)] same_sym by (auto simp: find_slot_None)
  moreover have "find_slot (same y) ss = None"
    using None fill_first_holds [OF assms(3)] by (simp add: find_slot_None)
  ultimately show ?thesis using None by simp
next
  case (Some z)
  then have z: "holds ss' z" "same y z" using find_slot_SomeD by fast+
  consider "z = x" | "holds ss z" "\<not> same x z"
    using z(1) fill_first_holds [OF assms(3)] assms(2) by (auto simp: find_slot_None)
  then show ?thesis
  proof cases
    case 1
    then show ?thesis using Some z(2) same_sym by auto
  next
    case 2
    then have "\<not> same x y" using z(2) same_trans by blast
    then show ?thesis using find_unique [OF assms(1) 2(1)] z(2) same_sym Some by simp
  qed
qed

text \<open>An update that keeps the key keeps the table unique and changes one entry only.\<close>

lemma unique_update:
  assumes "unique_slots same ss" and "\<And>x. same (f x) x"
  shows "unique_slots same (update_slot P f ss)"
  unfolding unique_slots_def
proof (intro allI impI)
  fix i j y z
  let ?s = "update_slot P f ss"
  assume h: "i < length ?s" "j < length ?s" "?s ! i = Some y" "?s ! j = Some z" "same y z"
  have old: "\<exists>x. ss ! k = Some x \<and> same w x" if "k < length ss" "?s ! k = Some w" for k w
    using that update_slot_nth_cases [of k ss P f] assms(2) same_refl by force
  obtain u v where uv: "ss ! i = Some u" "same y u" "ss ! j = Some v" "same z v"
    using old [OF _ h(3)] old [OF _ h(4)] h(1,2) by auto
  have "same u v" using uv h(5) same_sym same_trans by blast
  then show "i = j" using assms(1) h(1,2) uv by (simp add: unique_slots_def)
qed

lemma find_update:
  assumes "\<And>x. same (f x) x" and "find_slot (same x) ss = Some y"
  shows "find_slot (same z) (update_slot (same x) f ss) =
    (if same x z then Some (f y) else find_slot (same z) ss)"
  using assms(2)
proof (induction ss rule: free_slots.induct)
  case (3 w ss)
  have eq [simp]: "same z (f v) \<longleftrightarrow> same z v" for v
    using assms(1) same_sym same_trans by blast
  show ?case
  proof (cases "same x w")
    case True
    then have "same z w \<longleftrightarrow> same x z" using same_sym same_trans by blast
    with eq show ?thesis using 3 True by (auto split: if_splits)
  next
    case False
    then have "same z w \<Longrightarrow> \<not> same x z" using same_sym same_trans by blast
    then show ?thesis using 3 False by auto
  qed
qed auto

end

end
