(* ===== verification/Counters.thy ===== *)
theory Counters
  imports Wire Slots
begin

text \<open>
  The modulo-16 packet counters of \<^verbatim>\<open>include/vita/runtime/stream/counters.hpp\<close>. The
  registry's mutex serialises every operation, so each operation is one atomic step; a
  reachable registry is one built by a sequence of them. The specification is a partial map
  from keys to the next count (\<open>counter_map\<close>), and the registry refines it.
\<close>

record counter_key =
  ck_sender :: u64
  ck_stream_id :: "u32 option"
  ck_type :: packet_type

record counter_entry =
  ce_key :: counter_key
  ce_next :: u8

record counter_registry =
  cr_entries :: "counter_entry slots"
  cr_frozen :: bool

definition make_counters :: "nat \<Rightarrow> counter_registry" where
  "make_counters n = \<lparr>cr_entries = replicate n None, cr_frozen = False\<rparr>"

definition counter_key_valid :: "counter_key \<Rightarrow> bool" where
  "counter_key_valid k \<longleftrightarrow> \<not> (packet_type_code (ck_type k) > 7
     \<or> ((ck_type k = Signal_without_sid \<or> ck_type k = Extension_without_sid)
        \<longleftrightarrow> ck_stream_id k \<noteq> None))"

definition has_key :: "counter_key \<Rightarrow> counter_entry \<Rightarrow> bool" where
  "has_key k e \<longleftrightarrow> ce_key e = k"

definition fresh_entry :: "counter_key \<Rightarrow> counter_entry" where
  "fresh_entry k = \<lparr>ce_key = k, ce_next = 0\<rparr>"

definition counters_add :: "counter_registry \<Rightarrow> counter_key \<Rightarrow> counter_registry \<times> unit result" where
  "counters_add r k =
     (if cr_frozen r then (r, Inl (err Invalid_state))
      else if \<not> counter_key_valid k then (r, Inl (err Invalid_argument))
      else if find_slot (has_key k) (cr_entries r) \<noteq> None then (r, Inl (err Invalid_argument))
      else case fill_first (fresh_entry k) (cr_entries r) of
        None \<Rightarrow> (r, Inl (err Capacity_exhausted))
      | Some es \<Rightarrow> (r\<lparr>cr_entries := es\<rparr>, Inr ()))"

fun install_keys :: "counter_entry slots \<Rightarrow> counter_key list \<Rightarrow> counter_entry slots result" where
  "install_keys candidate [] = Inr candidate"
| "install_keys candidate (k # batch) =
     (if \<not> counter_key_valid k then Inl (err Invalid_argument)
      else if find_slot (has_key k) candidate \<noteq> None then Inl (err Identity_conflict)
      else case fill_first (fresh_entry k) candidate of
        None \<Rightarrow> Inl (err Capacity_exhausted)
      | Some es \<Rightarrow> install_keys es batch)"

definition counters_install ::
  "counter_registry \<Rightarrow> counter_key list \<Rightarrow> counter_registry \<times> unit result" where
  "counters_install r batch =
     (case install_keys (cr_entries r) batch of
        Inl e \<Rightarrow> (r, Inl e)
      | Inr es \<Rightarrow> (r\<lparr>cr_entries := es\<rparr>, Inr ()))"

definition counters_available :: "counter_registry \<Rightarrow> nat" where
  "counters_available r = free_slots (cr_entries r)"

definition counters_freeze :: "counter_registry \<Rightarrow> counter_registry" where
  "counters_freeze r = r\<lparr>cr_frozen := True\<rparr>"

definition counters_next :: "counter_registry \<Rightarrow> counter_key \<Rightarrow> u8 result" where
  "counters_next r k =
     (if \<not> cr_frozen r then Inl (err Invalid_state)
      else case find_slot (has_key k) (cr_entries r) of
        Some e \<Rightarrow> Inr (ce_next e)
      | None \<Rightarrow> Inl (err Invalid_argument))"

definition bump :: "counter_entry \<Rightarrow> counter_entry" where
  "bump e = e\<lparr>ce_next := (ce_next e + 1) AND 15\<rparr>"

definition counters_accept ::
  "counter_registry \<Rightarrow> counter_key \<Rightarrow> u8 \<Rightarrow> counter_registry \<times> unit result" where
  "counters_accept r k encoded_count =
     (if \<not> cr_frozen r then (r, Inl (err Invalid_state))
      else case find_slot (has_key k) (cr_entries r) of
        Some e \<Rightarrow>
          if ce_next e \<noteq> encoded_count then (r, Inl (err Stale_generation))
          else (r\<lparr>cr_entries := update_slot (has_key k) bump (cr_entries r)\<rparr>, Inr ())
      | None \<Rightarrow> (r, Inl (err Invalid_argument)))"

section \<open>Specification and refinement\<close>

definition same_counter :: "counter_entry \<Rightarrow> counter_entry \<Rightarrow> bool" where
  "same_counter a b \<longleftrightarrow> ce_key a = ce_key b"

interpretation counter_table: keyed_slots same_counter
  by unfold_locales (auto simp: same_counter_def)

lemma has_key_same: "has_key k = same_counter (fresh_entry k)"
  by (auto simp: has_key_def same_counter_def fresh_entry_def)

definition counter_map :: "counter_registry \<Rightarrow> counter_key \<Rightarrow> nat option" where
  "counter_map r k = map_option (\<lambda>e. unat (ce_next e)) (find_slot (has_key k) (cr_entries r))"

definition counters_inv :: "counter_registry \<Rightarrow> bool" where
  "counters_inv r \<longleftrightarrow> unique_slots same_counter (cr_entries r)
     \<and> (\<forall>e. holds (cr_entries r) e \<longrightarrow> ce_next e < 16 \<and> counter_key_valid (ce_key e))"

text \<open>One atomic operation on a registry.\<close>

inductive counters_step :: "counter_registry \<Rightarrow> counter_registry \<Rightarrow> bool" where
  add_step: "counters_add r k = (r', res) \<Longrightarrow> counters_step r r'"
| install_step: "counters_install r batch = (r', res) \<Longrightarrow> counters_step r r'"
| freeze_step: "counters_step r (counters_freeze r)"
| accept_step: "counters_accept r k c = (r', res) \<Longrightarrow> counters_step r r'"

inductive_cases counters_stepE: "counters_step r r'"

inductive counters_reachable :: "nat \<Rightarrow> counter_registry \<Rightarrow> bool" for n where
  initial: "counters_reachable n (make_counters n)"
| step: "counters_reachable n r \<Longrightarrow> counters_step r r' \<Longrightarrow> counters_reachable n r'"

lemma find_fresh:
  assumes "unique_slots same_counter es" and "find_slot (has_key k) es = None"
    and "fill_first (fresh_entry k) es = Some es'"
  shows "find_slot (has_key j) es' = (if j = k then Some (fresh_entry k) else find_slot (has_key j) es)"
  using counter_table.find_fill [of es "fresh_entry k" es' "fresh_entry j"] assms
  by (simp add: has_key_same same_counter_def fresh_entry_def eq_commute)

lemma fresh_inv:
  assumes "counters_inv r" and "find_slot (has_key k) (cr_entries r) = None"
    and "fill_first (fresh_entry k) (cr_entries r) = Some es" and "counter_key_valid k"
  shows "counters_inv (r\<lparr>cr_entries := es\<rparr>)"
  using assms counter_table.unique_fill [of "cr_entries r" "fresh_entry k" es]
    fill_first_holds [OF assms(3)]
  by (auto simp: counters_inv_def has_key_same fresh_entry_def)

lemma word8_and_15: "unat ((w :: u8) AND 15) = unat w mod 16"
proof -
  have "w AND 15 = take_bit 4 w" by (simp add: take_bit_eq_mask mask_eq_exp_minus_1)
  then show ?thesis by (simp add: take_bit_eq_mod unat_mod)
qed

lemma unat_bump: "unat (ce_next (bump e)) = (unat (ce_next e) + 1) mod 16"
proof -
  have "unat (ce_next e + 1) mod 16 = (unat (ce_next e) + 1) mod 16"
    by (simp add: unat_word_ariths mod_mod_cancel)
  then show ?thesis by (simp add: bump_def word8_and_15)
qed

lemma bump_key [simp]: "ce_key (bump e) = ce_key e"
  by (simp add: bump_def)

lemma install_keys_inv:
  assumes "counters_inv r" and "install_keys (cr_entries r) batch = Inr es"
  shows "counters_inv (r\<lparr>cr_entries := es\<rparr>)"
  using assms
proof (induction batch arbitrary: r)
  case (Cons k batch)
  then obtain es' where f: "counter_key_valid k" "find_slot (has_key k) (cr_entries r) = None"
    "fill_first (fresh_entry k) (cr_entries r) = Some es'" "install_keys es' batch = Inr es"
    by (auto split: if_splits option.splits)
  then show ?case using Cons.IH [of "r\<lparr>cr_entries := es'\<rparr>"] fresh_inv [OF Cons.prems(1) f(2,3,1)] by simp
qed (auto simp: counters_inv_def)

lemma bump_small: "ce_next (bump e) < 16"
  using unat_bump [of e] by (simp add: word_less_nat_alt)

lemma accept_inv: "counters_inv r \<Longrightarrow> counters_inv (fst (counters_accept r k c))"
  using counter_table.unique_update [of "cr_entries r" bump "has_key k"] bump_small
  by (auto simp: counters_accept_def counters_inv_def same_counter_def split: option.split
      dest!: update_slot_holdsD)

lemma counters_step_inv: "counters_step r r' \<Longrightarrow> counters_inv r \<Longrightarrow> counters_inv r'"
proof (induction rule: counters_step.induct)
  case (add_step r k r' res)
  then show ?case using fresh_inv
    by (auto simp: counters_add_def split: if_splits option.splits)
next
  case (install_step r batch r' res)
  then show ?case using install_keys_inv
    by (auto simp: counters_install_def split: sum.splits)
next
  case (freeze_step r)
  then show ?case by (simp add: counters_freeze_def counters_inv_def)
next
  case (accept_step r k c r' res)
  then show ?case using accept_inv [of r k c] by simp
qed

lemma counters_reachable_inv: "counters_reachable n r \<Longrightarrow> counters_inv r"
proof (induction rule: counters_reachable.induct)
  case initial
  then show ?case
    by (simp add: counters_inv_def make_counters_def counter_table.unique_empty)
qed (rule counters_step_inv)

lemma counter_map_fresh:
  assumes "counters_inv r" and "find_slot (has_key k) (cr_entries r) = None"
    and "fill_first (fresh_entry k) (cr_entries r) = Some es"
  shows "counter_map (r\<lparr>cr_entries := es\<rparr>) = (counter_map r)(k \<mapsto> 0)"
  using find_fresh [of "cr_entries r" k es] assms
  by (auto simp: counter_map_def counters_inv_def fresh_entry_def fun_eq_iff)

lemma counter_map_None: "counter_map r k = None \<longleftrightarrow> find_slot (has_key k) (cr_entries r) = None"
  by (simp add: counter_map_def)

lemma counters_add_spec:
  assumes "counters_inv r" and "counters_add r k = (r', res)"
  shows "res = Inr () \<longleftrightarrow> \<not> cr_frozen r \<and> counter_key_valid k \<and> counter_map r k = None
      \<and> 0 < counters_available r"
    and "res = Inr () \<Longrightarrow> counter_map r' = (counter_map r)(k \<mapsto> 0)
      \<and> counters_available r' + 1 = counters_available r"
    and "res \<noteq> Inr () \<Longrightarrow> r' = r"
  using assms counter_map_fresh [OF assms(1)] fill_first_None [of "fresh_entry k" "cr_entries r"]
    fill_first_free [of "fresh_entry k" "cr_entries r"]
  by (auto simp: counters_add_def counter_map_None counters_available_def split: if_splits option.splits)

lemma counters_next_spec:
  "counters_next r k = (if \<not> cr_frozen r then Inl (err Invalid_state)
     else case counter_map r k of None \<Rightarrow> Inl (err Invalid_argument) | Some c \<Rightarrow> Inr (of_nat c))"
  by (auto simp: counters_next_def counter_map_def split: option.split)

lemma counters_accept_spec:
  assumes "counters_accept r k c = (r', res)"
  shows "res = Inr () \<longleftrightarrow> cr_frozen r \<and> counter_map r k = Some (unat c)"
    and "res = Inr () \<Longrightarrow> counter_map r' = (counter_map r)(k \<mapsto> (unat c + 1) mod 16)
      \<and> cr_frozen r'"
    and "res \<noteq> Inr () \<Longrightarrow> r' = r"
proof -
  show "res = Inr () \<longleftrightarrow> cr_frozen r \<and> counter_map r k = Some (unat c)" "res \<noteq> Inr () \<Longrightarrow> r' = r"
    using assms
    by (auto simp: counters_accept_def counter_map_def word_unat_eq_iff split: if_splits option.splits)
  assume "res = Inr ()"
  then obtain e where e: "find_slot (has_key k) (cr_entries r) = Some e" "ce_next e = c" "cr_frozen r"
      "r' = r\<lparr>cr_entries := update_slot (has_key k) bump (cr_entries r)\<rparr>"
    using assms by (auto simp: counters_accept_def split: if_splits option.splits)
  have "find_slot (has_key j) (cr_entries r') =
      (if k = j then Some (bump e) else find_slot (has_key j) (cr_entries r))" for j
    using counter_table.find_update [of bump "fresh_entry k" "cr_entries r" e "fresh_entry j"] e(1,4)
    by (simp add: has_key_same same_counter_def fresh_entry_def)
  then show "counter_map r' = (counter_map r)(k \<mapsto> (unat c + 1) mod 16) \<and> cr_frozen r'"
    using e(2,3,4) by (auto simp: counter_map_def unat_bump fun_eq_iff)
qed

lemma install_keys_spec:
  assumes "counters_inv r"
  shows "(\<exists>es. install_keys (cr_entries r) batch = Inr es) \<longleftrightarrow>
      (\<forall>k \<in> set batch. counter_key_valid k \<and> counter_map r k = None) \<and> distinct batch
      \<and> length batch \<le> counters_available r"
    and "install_keys (cr_entries r) batch = Inr es \<Longrightarrow>
      counter_map (r\<lparr>cr_entries := es\<rparr>) = (counter_map r) ++ (\<lambda>k. if k \<in> set batch then Some 0 else None)"
  using assms
proof (induction batch arbitrary: r es)
  case (Cons k batch)
  {
    case 1
    show ?case
    proof (cases "counter_key_valid k \<and> counter_map r k = None \<and> counters_available r \<noteq> 0")
      case True
      then obtain es' where f: "find_slot (has_key k) (cr_entries r) = None"
        "fill_first (fresh_entry k) (cr_entries r) = Some es'"
        using fill_first_None [of "fresh_entry k" "cr_entries r"]
        by (auto simp: counter_map_None counters_available_def)
      show ?thesis
        using Cons.IH(1) [of "r\<lparr>cr_entries := es'\<rparr>"] fresh_inv [OF 1 f] True f
          counter_map_fresh [OF 1 f] fill_first_free [OF f(2)]
        by (auto simp: counters_available_def)
    qed (use fill_first_None [of "fresh_entry k" "cr_entries r"] in
        \<open>auto simp: counter_map_None counters_available_def split: if_splits option.splits\<close>)
  next
    case 2
    then obtain es' where f: "counter_key_valid k" "find_slot (has_key k) (cr_entries r) = None"
      "fill_first (fresh_entry k) (cr_entries r) = Some es'" "install_keys es' batch = Inr es"
      by (auto split: if_splits option.splits)
    then show ?case
      using Cons.IH(2) [of "r\<lparr>cr_entries := es'\<rparr>" es] fresh_inv [OF 2(2) f(2,3,1)]
        counter_map_fresh [OF 2(2) f(2,3)]
      by (auto simp: map_add_def fun_eq_iff split: option.splits if_splits)
  }
qed (auto simp: map_add_def)

section \<open>Properties\<close>

text \<open>A sender takes the next count, encodes it and has it accepted; the packets of several
  streams are interleaved in any order.\<close>

fun send_all :: "counter_registry \<Rightarrow> counter_key list \<Rightarrow> (counter_registry \<times> u8 list) result" where
  "send_all r [] = Inr (r, [])"
| "send_all r (k # ks) =
     and_then (counters_next r k) (\<lambda>c.
       case counters_accept r k c of
         (r', Inl e) \<Rightarrow> Inl e
       | (r', Inr u) \<Rightarrow> and_then (send_all r' ks) (\<lambda>(r'', cs). Inr (r'', c # cs)))"

definition sample_key :: counter_key where
  "sample_key = \<lparr>ck_sender = 1, ck_stream_id = Some 7, ck_type = Signal\<rparr>"

definition sample_counters :: counter_registry where
  "sample_counters = counters_freeze (fst (counters_add (make_counters 2) sample_key))"

lemma sample_counters_reachable: "counters_reachable 2 sample_counters"
  unfolding sample_counters_def
  by (rule counters_reachable.step [OF counters_reachable.step [OF counters_reachable.initial
        counters_step.add_step [OF prod.collapse [symmetric]]] counters_step.freeze_step])

lemma sample_counters_eval:
  "cr_frozen sample_counters" "counter_map sample_counters sample_key = Some 0"
  "counters_available sample_counters = 1"
  by (simp_all add: sample_counters_def counters_freeze_def counters_add_def make_counters_def
      counter_key_valid_def sample_key_def counter_map_def has_key_def fresh_entry_def
      counters_available_def two_slots)


text \<open>The two state-changing operations, outcome by outcome.\<close>

definition add_outcome :: "counter_registry \<Rightarrow> counter_key \<Rightarrow> counter_registry \<times> unit result \<Rightarrow> bool" where
  "add_outcome r k out = (case out of
      (r', Inr u) \<Rightarrow> \<not> cr_frozen r \<and> counter_key_valid k \<and> counter_map r k = None
        \<and> counter_map r' = (counter_map r)(k \<mapsto> 0) \<and> counters_available r' + 1 = counters_available r
    | (r', Inl e) \<Rightarrow> r' = r \<and> (cr_frozen r \<or> \<not> counter_key_valid k \<or> counter_map r k \<noteq> None
        \<or> counters_available r = 0))"

definition accept_outcome :: "counter_registry \<Rightarrow> counter_key \<Rightarrow> u8 \<Rightarrow> counter_registry \<times> unit result \<Rightarrow> bool" where
  "accept_outcome r k c out = (case out of
      (r', Inr u) \<Rightarrow> cr_frozen r \<and> counter_map r k = Some (unat c)
        \<and> counter_map r' = (counter_map r)(k \<mapsto> (unat c + 1) mod 16)
    | (r', Inl e) \<Rightarrow> r' = r \<and> (\<not> cr_frozen r \<or> counter_map r k \<noteq> Some (unat c)))"

lemma add_outcome_holds:
  assumes "counters_inv r"
  shows "add_outcome r k (counters_add r k)"
proof -
  obtain r' res where a: "counters_add r k = (r', res)" by fastforce
  show ?thesis
    using counters_add_spec [OF assms a] by (cases res) (auto simp: add_outcome_def a)
qed

lemma accept_outcome_holds: "accept_outcome r k c (counters_accept r k c)"
proof -
  obtain r' res where a: "counters_accept r k c = (r', res)" by fastforce
  show ?thesis
    using counters_accept_spec [OF a] by (cases res) (auto simp: accept_outcome_def a)
qed

lemma counter_map_bound: "counters_inv r \<Longrightarrow> counter_map r k = Some c \<Longrightarrow> c < 16 \<and> counter_key_valid k"
  by (fastforce simp: counter_map_def counters_inv_def has_key_def word_less_nat_alt
      dest: find_slot_SomeD)

text \<open>a counter registry is a finite map from valid keys to a count below 16. On every
  registry the operations can build, \<open>add\<close> inserts an absent key with count 0 and uses up
  one slot, \<open>next\<close> reads the map, \<open>accept\<close> advances exactly the named
  counter, modulo 16, and only for the count it is at; a refused operation changes nothing.\<close>

theorem counters_refine_map:
  assumes "counters_reachable n r"
  shows "(\<forall>c. counter_map r k = Some c \<longrightarrow> c < 16 \<and> counter_key_valid k)
    \<and> add_outcome r k (counters_add r k)
    \<and> accept_outcome r k c (counters_accept r k c)
    \<and> counters_next r k = (if \<not> cr_frozen r then Inl (err Invalid_state)
        else case counter_map r k of None \<Rightarrow> Inl (err Invalid_argument) | Some c \<Rightarrow> Inr (of_nat c))"
  using counters_reachable_inv [OF assms] add_outcome_holds accept_outcome_holds counter_map_bound
  by (simp add: counters_next_spec)

theorem counters_refine_map_witness:
  "accept_outcome sample_counters sample_key 0 (counters_accept sample_counters sample_key 0)
   \<and> counters_next sample_counters sample_key = Inr 0"
  using counters_refine_map [OF sample_counters_reachable, of sample_key 0] sample_counters_eval
  by simp

text \<open>the packets of any interleaving of registered streams carry, per stream, consecutive
  counts modulo 16 starting at the stream's current count, whatever the other streams send;
  sending always succeeds and moves no other counter.\<close>

theorem send_all_counts:
  assumes "cr_frozen r" and "\<forall>k \<in> set ks. counter_map r k \<noteq> None"
    and "\<forall>k c. counter_map r k = Some c \<longrightarrow> c < 16"
  shows "\<exists>r' cs. send_all r ks = Inr (r', cs) \<and> length cs = length ks
    \<and> (\<forall>j < length ks. unat (cs ! j)
         = (the (counter_map r (ks ! j)) + count_list (take j ks) (ks ! j)) mod 16)
    \<and> (\<forall>k. counter_map r' k = map_option (\<lambda>c. (c + count_list ks k) mod 16) (counter_map r k))"
  using assms
proof (induction ks arbitrary: r)
  case Nil
  then have "map_option (\<lambda>c. c mod 16) (counter_map r k) = counter_map r k" for k
    by (cases "counter_map r k") auto
  then show ?case by simp
next
  case (Cons k ks)
  then obtain c where c: "counter_map r k = Some c" "c < 16" by fastforce
  then have cw: "unat (of_nat c :: u8) = c" by (simp add: unsigned_of_nat take_bit_nat_eq_self)
  obtain r1 res where a: "counters_accept r k (of_nat c) = (r1, res)" by fastforce
  have r1: "res = Inr ()" "counter_map r1 = (counter_map r)(k \<mapsto> (c + 1) mod 16)" "cr_frozen r1"
    using counters_accept_spec [OF a] c Cons.prems(1) cw by auto
  have p: "\<forall>x \<in> set ks. counter_map r1 x \<noteq> None" "\<forall>x d. counter_map r1 x = Some d \<longrightarrow> d < 16"
    using Cons.prems(2,3) r1(2) by auto
  obtain r' cs where ih: "send_all r1 ks = Inr (r', cs)" "length cs = length ks"
    "\<forall>j < length ks. unat (cs ! j)
         = (the (counter_map r1 (ks ! j)) + count_list (take j ks) (ks ! j)) mod 16"
    "\<forall>x. counter_map r' x = map_option (\<lambda>c. (c + count_list ks x) mod 16) (counter_map r1 x)"
    using Cons.IH [OF r1(3) p] by blast
  have run: "send_all r (k # ks) = Inr (r', of_nat c # cs)"
    using Cons.prems(1) c a r1(1) ih(1) by (simp add: counters_next_spec)
  have counts: "unat ((of_nat c # cs) ! j)
      = (the (counter_map r ((k # ks) ! j)) + count_list (take j (k # ks)) ((k # ks) ! j)) mod 16"
    if "j < length (k # ks)" for j
  proof (cases j)
    case 0
    then show ?thesis using c cw by simp
  next
    case (Suc i)
    then show ?thesis using that ih(3) r1(2) c
      by (auto simp: mod_simps add_ac)
  qed
  have "counter_map r' x = map_option (\<lambda>c. (c + count_list (k # ks) x) mod 16) (counter_map r x)" for x
    using ih(4) r1(2) c by (auto simp: mod_simps add_ac)
  with run counts ih(2) show ?case by force
qed

theorem send_all_counts_witness:
  "\<exists>r' cs. send_all sample_counters [sample_key, sample_key] = Inr (r', cs)
     \<and> map unat cs = [0, 1] \<and> counter_map r' sample_key = Some 2"
proof -
  have "\<forall>k c. counter_map sample_counters k = Some c \<longrightarrow> c < 16"
    using counter_map_bound [OF counters_reachable_inv [OF sample_counters_reachable]] by blast
  then obtain r' cs where *: "send_all sample_counters [sample_key, sample_key] = Inr (r', cs)"
    "length cs = Suc (Suc 0)" "unat (cs ! 0) = 0" "unat (cs ! Suc 0) = 1"
    "counter_map r' sample_key = Some 2"
    using send_all_counts [of sample_counters "[sample_key, sample_key]"] sample_counters_eval
    by auto
  then obtain a b where "cs = [a, b]" by (auto simp: length_Suc_conv)
  with * show ?thesis by auto
qed

text \<open>\<open>install\<close> is atomic: it installs the whole batch with count 0 exactly when every
  key is valid, new and named once and there are enough free slots; otherwise the registry is
  unchanged.\<close>

theorem counters_install_atomic:
  assumes "counters_reachable n r"
  shows "case counters_install r batch of
      (r', Inr u) \<Rightarrow> (\<forall>k \<in> set batch. counter_key_valid k \<and> counter_map r k = None)
        \<and> distinct batch \<and> length batch \<le> counters_available r
        \<and> counter_map r' = (counter_map r) ++ (\<lambda>k. if k \<in> set batch then Some 0 else None)
    | (r', Inl e) \<Rightarrow> r' = r \<and> \<not> ((\<forall>k \<in> set batch. counter_key_valid k \<and> counter_map r k = None)
        \<and> distinct batch \<and> length batch \<le> counters_available r)"
  using install_keys_spec [OF counters_reachable_inv [OF assms], of batch]
  by (auto simp: counters_install_def split: sum.split)

theorem counters_install_atomic_witness:
  "fst (counters_install sample_counters [sample_key]) = sample_counters"
  using counters_install_atomic [OF sample_counters_reachable, of "[sample_key]"] sample_counters_eval
  by (auto split: prod.splits sum.splits)

end
