(* ===== verification/Routing.thy ===== *)
theory Routing
  imports Wire Slots
begin

text \<open>
  The route registry of \<^verbatim>\<open>include/vita/runtime/stream/routing.hpp\<close>: which receiver a
  packet of a peer session goes to. Object and function pointers are opaque references
  (\<open>None\<close> is the null pointer); \<open>Noop_receiver\<close> is the empty lambda that
  \<open>detach\<close> installs. A lookup hands out the route that matches the packet; the
  specification is the partial map from route keys, up to \<open>same_route\<close>, to routes.
\<close>

type_synonym object_ref = nat
type_synonym code_ref = nat

datatype receiver = Receiver code_ref | Noop_receiver

record peer_session =
  ps_peer :: u64
  ps_generation :: u64

definition words_of_id :: "ident \<Rightarrow> u32 list" where
  "words_of_id i = (case id_words i of (a, b, c, d) \<Rightarrow> [a, b, c, d])"

definition same_identifier :: "ident \<Rightarrow> ident \<Rightarrow> bool" where
  "same_identifier a b =
     (if id_kind a \<noteq> id_kind b then False
      else \<forall>i \<in> set [0..<size_words a]. words_of_id a ! i = words_of_id b ! i)"

definition same_class :: "class_ident option \<Rightarrow> class_ident option \<Rightarrow> bool" where
  "same_class a b = (case (a, b) of
      (None, None) \<Rightarrow> True
    | (Some x, Some y) \<Rightarrow> cls_oui x = cls_oui y \<and> cls_information_class x = cls_information_class y
        \<and> cls_packet_class x = cls_packet_class y
    | _ \<Rightarrow> False)"

record route_key =
  rk_source :: peer_session
  rk_stream_id :: "u32 option"
  rk_type :: packet_type
  rk_packet_class :: "class_ident option"
  rk_controllee :: ident
  rk_controller :: ident

definition same_route :: "route_key \<Rightarrow> route_key \<Rightarrow> bool" where
  "same_route a b \<longleftrightarrow> rk_source a = rk_source b \<and> rk_stream_id a = rk_stream_id b
     \<and> rk_type a = rk_type b \<and> same_class (rk_packet_class a) (rk_packet_class b)
     \<and> same_identifier (rk_controllee a) (rk_controllee b)
     \<and> same_identifier (rk_controller a) (rk_controller b)"

record route =
  rt_key :: route_key
  rt_context :: "object_ref option"
  rt_receive :: "receiver option"
  rt_request_context :: "code_ref option"
  rt_validate_extension :: "code_ref option"
  rt_minimum_payload_bytes :: nat
  rt_maximum_payload_bytes :: nat
  rt_before_decode :: "code_ref option"

record route_registry =
  rr_routes :: "route slots"
  rr_frozen :: bool

definition make_routes :: "nat \<Rightarrow> route_registry" where
  "make_routes n = \<lparr>rr_routes = replicate n None, rr_frozen = False\<rparr>"

definition route_id_ok :: "ident \<Rightarrow> bool" where
  "route_id_ok i \<longleftrightarrow> \<not> (identifier_kind_code (id_kind i) > 2
     \<or> (id_kind i = Id_uuid \<and> (case id_words i of (a, b, c, d) \<Rightarrow> a OR b OR c OR d = 0)))"

definition validate_route :: "route \<Rightarrow> unit result" where
  "validate_route r =
     (let k = rt_key r;
          sidless = (rk_type k = Signal_without_sid \<or> rk_type k = Extension_without_sid)
      in if rt_receive r = None \<or> ps_generation (rk_source k) = 0
            \<or> packet_type_code (rk_type k) > 7
            \<or> rt_minimum_payload_bytes r > rt_maximum_payload_bytes r
         then Inl (err Invalid_argument)
         else if (case rk_packet_class k of None \<Rightarrow> False | Some c \<Rightarrow> cls_oui c > 0xffffff)
         then Inl (err Invalid_argument)
         else if \<not> (\<forall>i \<in> set [rk_controllee k, rk_controller k]. route_id_ok i)
         then Inl (err Invalid_argument)
         else if is_extension (rk_type k)
            \<and> (rk_packet_class k = None \<or> rt_validate_extension r = None)
         then Inl (err Unsupported_capability)
         else if sidless = (rk_stream_id k \<noteq> None) then Inl (err Invalid_argument)
         else if \<not> is_command (rk_type k)
            \<and> (id_kind (rk_controllee k) \<noteq> Id_absent \<or> id_kind (rk_controller k) \<noteq> Id_absent)
         then Inl (err Invalid_argument)
         else Inr ())"

definition routed_as :: "route_key \<Rightarrow> route \<Rightarrow> bool" where
  "routed_as k r \<longleftrightarrow> same_route (rt_key r) k"

definition routes_add :: "route_registry \<Rightarrow> route \<Rightarrow> route_registry \<times> unit result" where
  "routes_add rr r =
     (if rr_frozen rr then (rr, Inl (err Invalid_state))
      else case validate_route r of
        Inl e \<Rightarrow> (rr, Inl e)
      | Inr u \<Rightarrow>
          if find_slot (routed_as (rt_key r)) (rr_routes rr) \<noteq> None
          then (rr, Inl (err Invalid_argument))
          else case fill_first r (rr_routes rr) of
            None \<Rightarrow> (rr, Inl (err Capacity_exhausted))
          | Some rs \<Rightarrow> (rr\<lparr>rr_routes := rs\<rparr>, Inr ()))"

fun add_routes :: "route_registry \<Rightarrow> route list \<Rightarrow> route_registry result" where
  "add_routes candidate [] = Inr candidate"
| "add_routes candidate (r # batch) =
     (case routes_add candidate r of
        (_, Inl e) \<Rightarrow> Inl e
      | (candidate', Inr u) \<Rightarrow> add_routes candidate' batch)"

definition routes_install :: "route_registry \<Rightarrow> route list \<Rightarrow> route_registry \<times> unit result" where
  "routes_install rr batch =
     (case add_routes (rr\<lparr>rr_frozen := False\<rparr>) batch of
        Inl e \<Rightarrow> (rr, Inl e)
      | Inr candidate \<Rightarrow> (candidate\<lparr>rr_frozen := rr_frozen rr\<rparr>, Inr ()))"

definition routes_available :: "route_registry \<Rightarrow> nat" where
  "routes_available rr = free_slots (rr_routes rr)"

definition detach_route :: "object_ref option \<Rightarrow> route \<Rightarrow> route" where
  "detach_route ctx r =
     (if rt_context r = ctx
      then r\<lparr>rt_context := None, rt_request_context := None, rt_before_decode := None,
             rt_receive := Some Noop_receiver\<rparr>
      else r)"

definition routes_detach :: "route_registry \<Rightarrow> object_ref option \<Rightarrow> route_registry" where
  "routes_detach rr ctx = rr\<lparr>rr_routes := map (map_option (detach_route ctx)) (rr_routes rr)\<rparr>"

definition routes_freeze :: "route_registry \<Rightarrow> route_registry" where
  "routes_freeze rr = rr\<lparr>rr_frozen := True\<rparr>"

definition wanted_route :: "peer_session \<Rightarrow> envelope \<Rightarrow> route_key" where
  "wanted_route peer e =
     \<lparr>rk_source = peer, rk_stream_id = env_stream_id e, rk_type = env_type e,
      rk_packet_class = env_class_id e,
      rk_controllee = (case env_command e of None \<Rightarrow> absent_id | Some c \<Rightarrow> cmd_controllee c),
      rk_controller = (case env_command e of None \<Rightarrow> absent_id | Some c \<Rightarrow> cmd_controller c)\<rparr>"

fun lookup_loop :: "route_key \<Rightarrow> route option \<Rightarrow> route slots \<Rightarrow> route result" where
  "lookup_loop wanted found [] =
     (case found of None \<Rightarrow> Inl (err Unsupported_capability) | Some r \<Rightarrow> Inr r)"
| "lookup_loop wanted found (None # rs) = lookup_loop wanted found rs"
| "lookup_loop wanted found (Some r # rs) =
     (if same_route (rt_key r) wanted
      then if found \<noteq> None then Inl (err Invalid_state) else lookup_loop wanted (Some r) rs
      else lookup_loop wanted found rs)"

definition routes_lookup :: "route_registry \<Rightarrow> peer_session \<Rightarrow> envelope \<Rightarrow> route result" where
  "routes_lookup rr peer e =
     (if \<not> rr_frozen rr then Inl (err Invalid_state)
      else lookup_loop (wanted_route peer e) None (rr_routes rr))"

section \<open>Route identity\<close>

lemma same_identifier_words:
  "same_identifier a b \<longleftrightarrow> id_kind a = id_kind b
     \<and> take (size_words a) (words_of_id a) = take (size_words b) (words_of_id b)"
proof -
  have "length (words_of_id i) = 4" "size_words i \<le> 4" for i
    by (auto simp: words_of_id_def size_words_def split: prod.split)
  moreover have "id_kind a = id_kind b \<Longrightarrow> size_words a = size_words b"
    by (simp add: size_words_def)
  ultimately show ?thesis
    by (auto simp: same_identifier_def list_eq_iff_nth_eq)
qed

definition class_identity :: "class_ident option \<Rightarrow> (u32 \<times> u16 \<times> u16) option" where
  "class_identity c =
     map_option (\<lambda>x. (cls_oui x, cls_information_class x, cls_packet_class x)) c"

lemma same_class_identity: "same_class a b \<longleftrightarrow> class_identity a = class_identity b"
  by (auto simp: same_class_def class_identity_def split: option.splits)

text \<open>Two keys name the same route when these parts agree: the class's pad bits and the unused
  identifier words are not part of a route's identity.\<close>

definition id_identity :: "ident \<Rightarrow> identifier_kind \<times> u32 list" where
  "id_identity i = (id_kind i, take (size_words i) (words_of_id i))"

definition route_identity where
  "route_identity k = (rk_source k, rk_stream_id k, rk_type k, class_identity (rk_packet_class k),
     id_identity (rk_controllee k), id_identity (rk_controller k))"

lemma same_route_identity: "same_route a b \<longleftrightarrow> route_identity a = route_identity b"
  by (simp add: same_route_def same_class_identity same_identifier_words route_identity_def
      id_identity_def)

definition same_routed :: "route \<Rightarrow> route \<Rightarrow> bool" where
  "same_routed a b \<longleftrightarrow> same_route (rt_key a) (rt_key b)"

interpretation route_table: keyed_slots same_routed
  by unfold_locales (auto simp: same_routed_def same_route_identity)


section \<open>Specification and refinement\<close>

definition route_map :: "route_registry \<Rightarrow> route_key \<Rightarrow> route option" where
  "route_map rr k = find_slot (routed_as k) (rr_routes rr)"

definition routes_inv :: "route_registry \<Rightarrow> bool" where
  "routes_inv rr \<longleftrightarrow> unique_slots same_routed (rr_routes rr)
     \<and> (\<forall>r. holds (rr_routes rr) r \<longrightarrow> validate_route r = Inr ())"

inductive routes_step :: "route_registry \<Rightarrow> route_registry \<Rightarrow> bool" where
  add_route: "routes_add rr r = (rr', res) \<Longrightarrow> routes_step rr rr'"
| install_routes: "routes_install rr batch = (rr', res) \<Longrightarrow> routes_step rr rr'"
| detach_context: "routes_step rr (routes_detach rr ctx)"
| freeze_routes: "routes_step rr (routes_freeze rr)"

inductive routes_reachable :: "nat \<Rightarrow> route_registry \<Rightarrow> bool" for n where
  empty_routes: "routes_reachable n (make_routes n)"
| next_routes: "routes_reachable n rr \<Longrightarrow> routes_step rr rr' \<Longrightarrow> routes_reachable n rr'"

definition probe_route :: "route_key \<Rightarrow> route" where
  "probe_route k = \<lparr>rt_key = k, rt_context = None, rt_receive = None, rt_request_context = None,
     rt_validate_extension = None, rt_minimum_payload_bytes = 0, rt_maximum_payload_bytes = 0,
     rt_before_decode = None\<rparr>"

lemma routed_as_probe: "routed_as k = same_routed (probe_route k)"
  by (auto simp: routed_as_def same_routed_def same_route_identity probe_route_def)

lemma routed_as_key: "routed_as (rt_key r) = same_routed r"
  by (auto simp: routed_as_def same_routed_def same_route_identity)

lemma routes_inv_empty: "routes_inv (make_routes n)"
  by (simp add: routes_inv_def make_routes_def route_table.unique_empty)

lemma routes_add_Inr:
  assumes "routes_inv rr" and "routes_add rr r = (rr', Inr u)"
  shows "routes_inv rr'" and "route_map rr (rt_key r) = None" and "validate_route r = Inr ()"
    and "route_map rr' k = (if same_route (rt_key r) k then Some r else route_map rr k)"
    and "routes_available rr = routes_available rr' + 1" and "rr_frozen rr' = rr_frozen rr"
proof -
  obtain rs where h: "validate_route r = Inr ()" "find_slot (same_routed r) (rr_routes rr) = None"
    "fill_first r (rr_routes rr) = Some rs" "rr' = rr\<lparr>rr_routes := rs\<rparr>"
    using assms(2) by (auto simp: routes_add_def routed_as_key split: if_splits sum.splits option.splits)
  show "routes_inv rr'"
    using assms(1) h route_table.unique_fill [OF _ h(2,3)] fill_first_holds [OF h(3)]
    by (auto simp: routes_inv_def)
  show "route_map rr (rt_key r) = None" "validate_route r = Inr ()" "rr_frozen rr' = rr_frozen rr"
    using h by (simp_all add: route_map_def routed_as_key)
  show "route_map rr' k = (if same_route (rt_key r) k then Some r else route_map rr k)"
    using assms(1) h route_table.find_fill [OF _ h(2,3), of "probe_route k"]
    by (simp add: routes_inv_def route_map_def routed_as_probe same_routed_def probe_route_def)
  show "routes_available rr = routes_available rr' + 1"
    using fill_first_free [OF h(3)] h(4) by (simp add: routes_available_def)
qed

lemma routes_add_Inl:
  assumes "routes_add rr r = (rr', Inl e)"
  shows "rr' = rr" and "rr_frozen rr \<or> validate_route r = Inl e \<or> route_map rr (rt_key r) \<noteq> None
    \<or> routes_available rr = 0"
  using assms fill_first_None [of r "rr_routes rr"]
  by (auto simp: routes_add_def route_map_def routes_available_def split: if_splits sum.splits option.splits)

definition batch_ok :: "route_registry \<Rightarrow> route list \<Rightarrow> bool" where
  "batch_ok rr batch \<longleftrightarrow> (\<forall>r \<in> set batch. validate_route r = Inr () \<and> route_map rr (rt_key r) = None)
     \<and> distinct (map (route_identity \<circ> rt_key) batch) \<and> length batch \<le> routes_available rr"

lemma add_routes_spec:
  assumes "routes_inv rr" and "\<not> rr_frozen rr"
  shows "case add_routes rr batch of
      Inl e \<Rightarrow> \<not> batch_ok rr batch
    | Inr rr' \<Rightarrow> batch_ok rr batch \<and> routes_inv rr'
        \<and> (\<forall>k. route_map rr' k = (case find (\<lambda>r. same_route (rt_key r) k) batch of
              Some r \<Rightarrow> Some r | None \<Rightarrow> route_map rr k))"
  using assms
proof (induction batch arbitrary: rr)
  case (Cons r batch)
  obtain rr1 res where a: "routes_add rr r = (rr1, res)" by fastforce
  show ?case
  proof (cases res)
    case (Inl e)
    then have "\<not> batch_ok rr (r # batch)"
      using routes_add_Inl [of rr r rr1 e] a Cons.prems by (auto simp: batch_ok_def)
    with a Inl show ?thesis by simp
  next
    case (Inr u)
    note add = routes_add_Inr [OF Cons.prems(1) a [unfolded Inr]]
    have new: "route_map rr1 (rt_key x) = None \<longleftrightarrow> route_identity (rt_key r) \<noteq> route_identity (rt_key x)
        \<and> route_map rr (rt_key x) = None" for x
      using add(4) [of "rt_key x"] by (simp add: same_route_identity)
    have ok: "batch_ok rr (r # batch) \<longleftrightarrow> batch_ok rr1 batch"
      using add(2,3,5) new by (auto simp: batch_ok_def)
    have once: "find (\<lambda>r. same_route (rt_key r) k) batch = None"
      if "batch_ok rr (r # batch)" "same_route (rt_key r) k" for k
      using that by (force simp: batch_ok_def find_None_iff same_route_identity)
    show ?thesis
      using Cons.IH [OF add(1)] Cons.prems(2) add(6) a Inr ok once add(4)
      by (auto split: sum.splits option.splits)
  qed
qed (simp add: batch_ok_def)

lemma routes_inv_frozen [simp]: "routes_inv (rr\<lparr>rr_frozen := b\<rparr>) = routes_inv rr"
  by (simp add: routes_inv_def)

lemma route_map_frozen [simp]: "route_map (rr\<lparr>rr_frozen := b\<rparr>) = route_map rr"
  by (auto simp: route_map_def)

lemma batch_ok_frozen [simp]: "batch_ok (rr\<lparr>rr_frozen := b\<rparr>) = batch_ok rr"
  by (auto simp: batch_ok_def routes_available_def fun_eq_iff)

lemma routes_install_spec:
  assumes "routes_inv rr"
  shows "case routes_install rr batch of
      (rr', Inl e) \<Rightarrow> rr' = rr \<and> \<not> batch_ok rr batch
    | (rr', Inr u) \<Rightarrow> batch_ok rr batch \<and> routes_inv rr' \<and> rr_frozen rr' = rr_frozen rr
        \<and> (\<forall>k. route_map rr' k = (case find (\<lambda>r. same_route (rt_key r) k) batch of
              Some r \<Rightarrow> Some r | None \<Rightarrow> route_map rr k))"
  using add_routes_spec [of "rr\<lparr>rr_frozen := False\<rparr>" batch] assms
  by (auto simp: routes_install_def split: sum.splits cong: option.case_cong)

lemma detach_key [simp]: "rt_key (detach_route ctx r) = rt_key r"
  by (simp add: detach_route_def)

lemma detach_context: "ctx \<noteq> None \<Longrightarrow> rt_context (detach_route ctx r) \<noteq> ctx"
  by (auto simp: detach_route_def)

lemma detach_valid: "validate_route r = Inr () \<Longrightarrow> validate_route (detach_route ctx r) = Inr ()"
  by (auto simp: detach_route_def validate_route_def Let_def split: if_splits)

lemma holds_map_option: "holds (map (map_option f) ss) y \<longleftrightarrow> (\<exists>x. holds ss x \<and> y = f x)"
  by (induction ss rule: free_slots.induct) (auto simp: holds_def)

lemma find_slot_map:
  "(\<And>x. P (f x) = P x) \<Longrightarrow> find_slot P (map (map_option f) ss) = map_option f (find_slot P ss)"
  by (induction P ss rule: find_slot.induct) auto

lemma route_map_detach:
  "route_map (routes_detach rr ctx) k = map_option (detach_route ctx) (route_map rr k)"
  by (simp add: route_map_def routes_detach_def find_slot_map routed_as_def)

lemma routes_inv_detach:
  assumes "routes_inv rr"
  shows "routes_inv (routes_detach rr ctx)"
proof -
  let ?rs = "map (map_option (detach_route ctx)) (rr_routes rr)"
  have old: "\<exists>x. rr_routes rr ! i = Some x \<and> y = detach_route ctx x"
    if "i < length (rr_routes rr)" "?rs ! i = Some y" for i y
    using that by (cases "rr_routes rr ! i") auto
  have "unique_slots same_routed ?rs"
    unfolding unique_slots_def
  proof (intro allI impI)
    fix i j x y
    assume h: "i < length ?rs" "j < length ?rs" "?rs ! i = Some x" "?rs ! j = Some y" "same_routed x y"
    obtain x' y' where "rr_routes rr ! i = Some x'" "x = detach_route ctx x'"
      "rr_routes rr ! j = Some y'" "y = detach_route ctx y'"
      using old [OF _ h(3)] old [OF _ h(4)] h(1,2) by auto
    then show "i = j"
      using assms h by (simp add: routes_inv_def unique_slots_def same_routed_def)
  qed
  moreover have "validate_route r = Inr ()" if "holds ?rs r" for r
    using that assms detach_valid by (auto simp: holds_map_option routes_inv_def)
  ultimately show ?thesis by (simp add: routes_inv_def routes_detach_def)
qed

lemma routes_step_inv: "routes_step rr rr' \<Longrightarrow> routes_inv rr \<Longrightarrow> routes_inv rr'"
proof (induction rule: routes_step.induct)
  case (add_route rr r rr' res)
  then show ?case by (cases res) (auto dest: routes_add_Inl routes_add_Inr)
next
  case (install_routes rr batch rr' res)
  then show ?case using routes_install_spec [of rr batch] by (cases res) auto
qed (auto simp: routes_inv_detach routes_freeze_def)

lemma routes_reachable_inv: "routes_reachable n rr \<Longrightarrow> routes_inv rr"
  by (induction rule: routes_reachable.induct) (auto intro: routes_inv_empty routes_step_inv)

lemma lookup_loop_found:
  "(\<forall>x. holds rs x \<longrightarrow> \<not> same_route (rt_key x) w) \<Longrightarrow> lookup_loop w (Some r) rs = Inr r"
  by (induction w "Some r" rs arbitrary: r rule: lookup_loop.induct) (auto simp: holds_def)

lemma lookup_loop_find:
  assumes "unique_slots same_routed rs"
  shows "lookup_loop w None rs = (case find_slot (routed_as w) rs of
      None \<Rightarrow> Inl (err Unsupported_capability) | Some r \<Rightarrow> Inr r)"
  using assms
proof (induction rs rule: free_slots.induct)
  case (3 x ss)
  then have IH: "lookup_loop w None ss = (case find_slot (routed_as w) ss of
      None \<Rightarrow> Inl (err Unsupported_capability) | Some r \<Rightarrow> Inr r)"
    using route_table.unique_Cons_Some(1) by blast
  show ?case
  proof (cases "same_route (rt_key x) w")
    case True
    have "\<not> same_route (rt_key y) w" if "holds ss y" for y
      using route_table.unique_Cons_Some(2) [OF 3(2) that] True
      by (simp add: same_routed_def same_route_identity)
    then show ?thesis using True lookup_loop_found [of ss w x] by (simp add: routed_as_def)
  qed (simp add: IH, simp add: routed_as_def)
qed (auto dest: route_table.unique_Cons_None)


section \<open>Properties\<close>

definition sample_route :: route where
  "sample_route = \<lparr>rt_key = \<lparr>rk_source = \<lparr>ps_peer = 1, ps_generation = 1\<rparr>, rk_stream_id = Some 7,
       rk_type = Signal, rk_packet_class = None, rk_controllee = absent_id, rk_controller = absent_id\<rparr>,
     rt_context = Some 9, rt_receive = Some (Receiver 4), rt_request_context = None,
     rt_validate_extension = None, rt_minimum_payload_bytes = 0, rt_maximum_payload_bytes = 64,
     rt_before_decode = None\<rparr>"

definition sample_routes :: route_registry where
  "sample_routes = routes_freeze (fst (routes_add (make_routes 2) sample_route))"

lemma sample_routes_reachable: "routes_reachable 2 sample_routes"
  unfolding sample_routes_def
  by (rule next_routes [OF next_routes [OF empty_routes add_route [OF prod.collapse [symmetric]]]
        freeze_routes])

lemma sample_routes_eval: "sample_routes = \<lparr>rr_routes = [Some sample_route, None], rr_frozen = True\<rparr>"
  by (simp add: sample_routes_def routes_freeze_def routes_add_def make_routes_def two_slots
      validate_route_def sample_route_def route_id_ok_def absent_id_def is_extension_def)

lemma sample_routes_refuse: "\<not> batch_ok sample_routes [sample_route]"
  by (simp add: batch_ok_def sample_routes_eval route_map_def routed_as_def same_route_identity)

lemma sample_routes_wanted:
  "same_route (rt_key sample_route) (wanted_route \<lparr>ps_peer = 1, ps_generation = 1\<rparr>
     (empty_envelope\<lparr>env_type := Signal, env_stream_id := Some 7\<rparr>))"
  by (simp add: same_route_identity route_identity_def sample_route_def wanted_route_def empty_envelope_def)

text \<open>C23: route lookup is exact on every registry the operations can build: it is never
  ambiguous, it returns a route only if that route is installed, valid and names the packet's
  source session, stream, type, class and controllee/controller, and it finds every installed
  route that does.\<close>

theorem routes_lookup_exact:
  assumes "routes_reachable n rr" and "rr_frozen rr"
  shows "case routes_lookup rr peer e of
      Inr r \<Rightarrow> holds (rr_routes rr) r \<and> same_route (rt_key r) (wanted_route peer e)
        \<and> validate_route r = Inr ()
        \<and> (\<forall>r'. holds (rr_routes rr) r' \<longrightarrow> same_route (rt_key r') (wanted_route peer e) \<longrightarrow> r' = r)
    | Inl x \<Rightarrow> x = err Unsupported_capability
        \<and> (\<forall>r'. holds (rr_routes rr) r' \<longrightarrow> \<not> same_route (rt_key r') (wanted_route peer e))"
proof -
  let ?w = "wanted_route peer e"
  have inv: "unique_slots same_routed (rr_routes rr)" "\<forall>r. holds (rr_routes rr) r \<longrightarrow> validate_route r = Inr ()"
    using routes_reachable_inv [OF assms(1)] by (simp_all add: routes_inv_def)
  have l: "routes_lookup rr peer e = (case find_slot (routed_as ?w) (rr_routes rr) of
      None \<Rightarrow> Inl (err Unsupported_capability) | Some r \<Rightarrow> Inr r)"
    using assms(2) lookup_loop_find [OF inv(1)] by (simp add: routes_lookup_def)
  show ?thesis
  proof (cases "find_slot (routed_as ?w) (rr_routes rr)")
    case None
    then have "\<forall>r'. holds (rr_routes rr) r' \<longrightarrow> \<not> same_route (rt_key r') ?w"
      by (simp add: find_slot_None routed_as_def)
    with None l show ?thesis by simp
  next
    case (Some r)
    have "r' = r" if "holds (rr_routes rr) r'" "same_route (rt_key r') ?w" for r'
      using route_table.find_unique [OF inv(1) that(1), of "probe_route ?w"] that(2) Some
      by (simp add: routed_as_probe same_routed_def probe_route_def)
    then show ?thesis using l Some inv(2) find_slot_SomeD [OF Some] by (auto simp: routed_as_def)
  qed
qed

theorem routes_lookup_exact_witness:
  "case routes_lookup sample_routes \<lparr>ps_peer = 1, ps_generation = 1\<rparr>
      (empty_envelope\<lparr>env_type := Signal, env_stream_id := Some 7\<rparr>) of
     Inr r \<Rightarrow> r = sample_route | Inl x \<Rightarrow> False"
proof -
  have "rr_frozen sample_routes" "holds (rr_routes sample_routes) sample_route"
    by (simp_all add: sample_routes_eval holds_def)
  then show ?thesis
    using routes_lookup_exact [OF sample_routes_reachable, of "\<lparr>ps_peer = 1, ps_generation = 1\<rparr>"
        "empty_envelope\<lparr>env_type := Signal, env_stream_id := Some 7\<rparr>"] sample_routes_wanted
    by (cases "routes_lookup sample_routes \<lparr>ps_peer = 1, ps_generation = 1\<rparr>
        (empty_envelope\<lparr>env_type := Signal, env_stream_id := Some 7\<rparr>)") auto
qed

text \<open>Installing a batch of routes is atomic: it succeeds exactly when every route is valid,
  none collides with an installed or another new route and there are enough free slots; then
  each new key leads to its route, every other key to what it led to before, and the frozen
  state is kept. A refused batch changes nothing.\<close>

theorem routes_install_atomic:
  assumes "routes_reachable n rr"
  shows "case routes_install rr batch of
      (rr', Inl e) \<Rightarrow> rr' = rr \<and> \<not> batch_ok rr batch
    | (rr', Inr u) \<Rightarrow> batch_ok rr batch \<and> rr_frozen rr' = rr_frozen rr
        \<and> (\<forall>k. route_map rr' k = (case find (\<lambda>r. same_route (rt_key r) k) batch of
              Some r \<Rightarrow> Some r | None \<Rightarrow> route_map rr k))"
  using routes_install_spec [OF routes_reachable_inv [OF assms], of batch]
  by (auto split: sum.splits)

theorem routes_install_atomic_witness:
  "fst (routes_install sample_routes [sample_route]) = sample_routes"
  using routes_install_atomic [OF sample_routes_reachable, of "[sample_route]"]
    sample_routes_refuse
  by (cases "routes_install sample_routes [sample_route]"; cases "snd (routes_install sample_routes [sample_route])") auto

text \<open>after \<open>detach\<close> no route refers to the detached object any more and the routes of
  other objects are as before; every key that led to a route still does, so a late packet is
  swallowed by the empty receiver rather than rejected.\<close>

theorem routes_detach_forgets:
  assumes "ctx \<noteq> None"
  shows "(\<forall>r. holds (rr_routes (routes_detach rr ctx)) r \<longrightarrow> rt_context r \<noteq> ctx)
    \<and> (\<forall>k. case route_map rr k of
          None \<Rightarrow> route_map (routes_detach rr ctx) k = None
        | Some r \<Rightarrow> (if rt_context r = ctx
            then \<exists>r'. route_map (routes_detach rr ctx) k = Some r' \<and> rt_receive r' = Some Noop_receiver
                 \<and> rt_key r' = rt_key r
            else route_map (routes_detach rr ctx) k = Some r))"
proof -
  have "rt_context r \<noteq> ctx" if "holds (rr_routes (routes_detach rr ctx)) r" for r
    using that detach_context [OF assms] by (auto simp: routes_detach_def holds_map_option)
  then show ?thesis by (auto simp: route_map_detach detach_route_def split: option.split)
qed

theorem routes_detach_forgets_witness:
  "\<exists>r. route_map (routes_detach sample_routes (Some 9)) (rt_key sample_route) = Some r
     \<and> rt_receive r = Some Noop_receiver \<and> rt_key r = rt_key sample_route"
proof -
  have "route_map sample_routes (rt_key sample_route) = Some sample_route" "rt_context sample_route = Some 9"
    by (simp_all add: sample_routes_eval route_map_def routed_as_def same_route_identity sample_route_def)
  then show ?thesis
    using routes_detach_forgets [of "Some 9" sample_routes]
    by (auto dest: spec [of _ "rt_key sample_route"])
qed

end
