(* ===== verification/Timing.thy ===== *)
theory Timing
  imports Prelude
begin

text \<open>
  Protocol time and durations (\<^verbatim>\<open>include/vita/runtime/timing/time.hpp\<close>). An unsigned
  64-bit field is a \<open>nat\<close>; every sum and product the source forms without a guard is
  written with its wrap-around (\<open>wrap64\<close>), and the lemmas show that it never wraps on
  values that fit. The specification is the exact number of picoseconds,
  \<open>total_ps\<close>. Times are ordered lexicographically, which for valid times is the order of
  their totals.
\<close>

definition u64_max :: nat where
  "u64_max = 18446744073709551615"

definition wrap64 :: "nat \<Rightarrow> nat" where
  "wrap64 n = n mod 18446744073709551616"

definition picoseconds_per_second :: nat where
  "picoseconds_per_second = 1000000000000"

datatype protocol_time = Protocol_time (pt_seconds: nat) (pt_picoseconds: nat)

datatype duration = Duration (d_seconds: nat) (d_picoseconds: nat)

datatype mono_time = Mono_time (mono_ns: nat)

instantiation protocol_time :: linorder
begin

definition less_eq_protocol_time :: "protocol_time \<Rightarrow> protocol_time \<Rightarrow> bool" where
  "less_eq_protocol_time a b \<longleftrightarrow> pt_seconds a < pt_seconds b
     \<or> pt_seconds a = pt_seconds b \<and> pt_picoseconds a \<le> pt_picoseconds b"

definition less_protocol_time :: "protocol_time \<Rightarrow> protocol_time \<Rightarrow> bool" where
  "less_protocol_time a b \<longleftrightarrow> pt_seconds a < pt_seconds b
     \<or> pt_seconds a = pt_seconds b \<and> pt_picoseconds a < pt_picoseconds b"

instance
  by standard (auto simp: less_eq_protocol_time_def less_protocol_time_def intro: protocol_time.expand)

end

instantiation duration :: linorder
begin

definition less_eq_duration :: "duration \<Rightarrow> duration \<Rightarrow> bool" where
  "less_eq_duration a b \<longleftrightarrow> d_seconds a < d_seconds b
     \<or> d_seconds a = d_seconds b \<and> d_picoseconds a \<le> d_picoseconds b"

definition less_duration :: "duration \<Rightarrow> duration \<Rightarrow> bool" where
  "less_duration a b \<longleftrightarrow> d_seconds a < d_seconds b
     \<or> d_seconds a = d_seconds b \<and> d_picoseconds a < d_picoseconds b"

instance
  by standard (auto simp: less_eq_duration_def less_duration_def intro: duration.expand)

end

instantiation mono_time :: linorder
begin

definition less_eq_mono_time :: "mono_time \<Rightarrow> mono_time \<Rightarrow> bool" where
  "less_eq_mono_time a b \<longleftrightarrow> mono_ns a \<le> mono_ns b"

definition less_mono_time :: "mono_time \<Rightarrow> mono_time \<Rightarrow> bool" where
  "less_mono_time a b \<longleftrightarrow> mono_ns a < mono_ns b"

instance
  by standard (auto simp: less_eq_mono_time_def less_mono_time_def intro: mono_time.expand)

end

definition valid_time :: "protocol_time \<Rightarrow> bool" where
  "valid_time t \<longleftrightarrow> pt_picoseconds t < picoseconds_per_second"

definition valid_duration :: "duration \<Rightarrow> bool" where
  "valid_duration d \<longleftrightarrow> d_picoseconds d < picoseconds_per_second"

definition from_picoseconds :: "nat \<Rightarrow> duration" where
  "from_picoseconds ps = Duration (ps div picoseconds_per_second) (ps mod picoseconds_per_second)"

definition from_nanoseconds :: "nat \<Rightarrow> duration" where
  "from_nanoseconds ns = Duration (ns div 1000000000) (wrap64 (ns mod 1000000000 * 1000))"

definition add_time :: "protocol_time \<Rightarrow> duration \<Rightarrow> protocol_time result" where
  "add_time t d =
     (if \<not> valid_time t \<or> \<not> valid_duration d then Inl (err Invalid_argument)
      else let fraction = wrap64 (pt_picoseconds t + d_picoseconds d);
               carry = fraction div picoseconds_per_second
      in if d_seconds d > u64_max - pt_seconds t \<or> carry > u64_max - pt_seconds t - d_seconds d
         then Inl (err Overflow)
         else Inr (Protocol_time (wrap64 (pt_seconds t + d_seconds d + carry))
                                 (fraction mod picoseconds_per_second)))"

definition subtract_time :: "protocol_time \<Rightarrow> duration \<Rightarrow> protocol_time result" where
  "subtract_time t d =
     (if \<not> valid_time t \<or> \<not> valid_duration d then Inl (err Invalid_argument)
      else if Protocol_time (d_seconds d) (d_picoseconds d) > t then Inl (err Overflow)
      else if pt_picoseconds t < d_picoseconds d
      then Inr (Protocol_time (pt_seconds t - d_seconds d - 1)
                  (wrap64 (picoseconds_per_second + pt_picoseconds t) - d_picoseconds d))
      else Inr (Protocol_time (pt_seconds t - d_seconds d) (pt_picoseconds t - d_picoseconds d)))"

definition difference :: "protocol_time \<Rightarrow> protocol_time \<Rightarrow> duration result" where
  "difference later earlier =
     and_then (subtract_time later (Duration (pt_seconds earlier) (pt_picoseconds earlier))) (\<lambda>t.
       Inr (Duration (pt_seconds t) (pt_picoseconds t)))"

definition as_picoseconds :: "duration \<Rightarrow> nat result" where
  "as_picoseconds d =
     (if \<not> valid_duration d then Inl (err Invalid_argument)
      else if d_seconds d > (u64_max - d_picoseconds d) div picoseconds_per_second
      then Inl (err Overflow)
      else Inr (wrap64 (wrap64 (d_seconds d * picoseconds_per_second) + d_picoseconds d)))"

definition deadline :: "mono_time \<Rightarrow> nat \<Rightarrow> mono_time result" where
  "deadline now delay_ns =
     (if delay_ns > u64_max - mono_ns now then Inl (err Overflow)
      else Inr (Mono_time (wrap64 (mono_ns now + delay_ns))))"

text \<open>The host's monotonic clock is a callback; \<open>None\<close> when it is not set.\<close>

definition monotonic_now :: "mono_time option \<Rightarrow> mono_time result" where
  "monotonic_now reading = (case reading of None \<Rightarrow> Inl (err Invalid_state) | Some t \<Rightarrow> Inr t)"

section \<open>Exact values\<close>

definition total_ps :: "protocol_time \<Rightarrow> nat" where
  "total_ps t = pt_seconds t * picoseconds_per_second + pt_picoseconds t"

definition duration_ps :: "duration \<Rightarrow> nat" where
  "duration_ps d = d_seconds d * picoseconds_per_second + d_picoseconds d"

definition time_ok :: "protocol_time \<Rightarrow> bool" where
  "time_ok t \<longleftrightarrow> valid_time t \<and> pt_seconds t \<le> u64_max"

definition duration_ok :: "duration \<Rightarrow> bool" where
  "duration_ok d \<longleftrightarrow> valid_duration d \<and> d_seconds d \<le> u64_max"

lemmas time_consts = u64_max_def wrap64_def picoseconds_per_second_def

lemma wrap64_id: "n \<le> u64_max \<Longrightarrow> wrap64 n = n"
  by (simp add: time_consts)

lemma split_total:
  assumes "b < picoseconds_per_second" and "d < picoseconds_per_second"
  shows "a * picoseconds_per_second + b < c * picoseconds_per_second + d \<longleftrightarrow> a < c \<or> a = c \<and> b < d"
    and "a * picoseconds_per_second + b \<le> c * picoseconds_per_second + d \<longleftrightarrow> a < c \<or> a = c \<and> b \<le> d"
    and "a * picoseconds_per_second + b = c * picoseconds_per_second + d \<longleftrightarrow> a = c \<and> b = d"
proof -
  have *: "a * p + b < c * p + d" if "a < c" "b < p" for a b c d p :: nat
  proof -
    have "a * p + p \<le> c * p" using that(1) by (metis Suc_leI add.commute mult_Suc mult_le_mono1)
    then show ?thesis using that(2) by simp
  qed
  show "a * picoseconds_per_second + b < c * picoseconds_per_second + d \<longleftrightarrow> a < c \<or> a = c \<and> b < d"
    "a * picoseconds_per_second + b \<le> c * picoseconds_per_second + d \<longleftrightarrow> a < c \<or> a = c \<and> b \<le> d"
    "a * picoseconds_per_second + b = c * picoseconds_per_second + d \<longleftrightarrow> a = c \<and> b = d"
    using * [OF _ assms(1), of a c d] * [OF _ assms(2), of c a b]
    by (cases a c rule: linorder_cases; force)+
qed

lemma time_le_total: "valid_time a \<Longrightarrow> valid_time b \<Longrightarrow> a \<le> b \<longleftrightarrow> total_ps a \<le> total_ps b"
  by (simp add: valid_time_def total_ps_def less_eq_protocol_time_def split_total)

lemma time_less_total: "valid_time a \<Longrightarrow> valid_time b \<Longrightarrow> a < b \<longleftrightarrow> total_ps a < total_ps b"
  by (simp add: valid_time_def total_ps_def less_protocol_time_def split_total)

lemma total_inject: "valid_time a \<Longrightarrow> valid_time b \<Longrightarrow> total_ps a = total_ps b \<Longrightarrow> a = b"
  by (auto simp: valid_time_def total_ps_def split_total intro: protocol_time.expand)

lemma duration_less_total:
  "valid_duration a \<Longrightarrow> valid_duration b \<Longrightarrow> a < b \<longleftrightarrow> duration_ps a < duration_ps b"
  by (simp add: valid_duration_def duration_ps_def less_duration_def split_total)

lemma duration_inject:
  "valid_duration a \<Longrightarrow> valid_duration b \<Longrightarrow> duration_ps a = duration_ps b \<Longrightarrow> a = b"
  by (auto simp: valid_duration_def duration_ps_def split_total intro: duration.expand)

lemma add_time_Inr:
  assumes "time_ok t" and "duration_ok d"
  shows "add_time t d = Inr r \<longleftrightarrow> time_ok r \<and> total_ps r = total_ps t + duration_ps d"
proof -
  let ?f = "pt_picoseconds t + d_picoseconds d" and ?p = "picoseconds_per_second"
  let ?c = "?f div ?p"
  have f: "wrap64 ?f = ?f" "?c \<le> 1"
    using assms by (auto simp: time_ok_def duration_ok_def valid_time_def valid_duration_def time_consts)
  let ?r = "Protocol_time (pt_seconds t + d_seconds d + ?c) (?f mod ?p)"
  have v: "valid_time ?r" by (simp add: valid_time_def time_consts)
  have tot: "total_ps ?r = total_ps t + duration_ps d"
    using div_mult_mod_eq [of ?f ?p] by (simp add: total_ps_def duration_ps_def algebra_simps)
  have eq: "add_time t d = (if pt_seconds ?r \<le> u64_max then Inr ?r else Inl (err Overflow))"
    using assms f by (auto simp: add_time_def Let_def time_ok_def duration_ok_def wrap64_id)
  show ?thesis
    using eq v tot total_inject [OF v, of r] by (auto simp: time_ok_def)
qed

lemma subtract_time_Inr:
  assumes "time_ok t" and "duration_ok d"
  shows "subtract_time t d = Inr r \<longleftrightarrow> time_ok r \<and> total_ps r + duration_ps d = total_ps t"
proof -
  let ?p = "picoseconds_per_second"
  let ?d = "Protocol_time (d_seconds d) (d_picoseconds d)"
  have v: "valid_time t" "valid_time ?d" "d_picoseconds d < ?p" "pt_picoseconds t < ?p"
    using assms by (auto simp: time_ok_def duration_ok_def valid_time_def valid_duration_def)
  have w: "wrap64 (?p + pt_picoseconds t) = ?p + pt_picoseconds t"
    using v by (simp add: time_consts)
  have td: "total_ps ?d = duration_ps d" by (simp add: total_ps_def duration_ps_def)
  let ?r = "if pt_picoseconds t < d_picoseconds d
      then Protocol_time (pt_seconds t - d_seconds d - 1) (?p + pt_picoseconds t - d_picoseconds d)
      else Protocol_time (pt_seconds t - d_seconds d) (pt_picoseconds t - d_picoseconds d)"
  have eq: "subtract_time t d = (if t < ?d then Inl (err Overflow) else Inr ?r)"
    using assms w by (simp add: subtract_time_def time_ok_def duration_ok_def)
  show ?thesis
  proof (cases "t < ?d")
    case True
    then show ?thesis using time_less_total [OF v(1,2)] td eq by auto
  next
    case False
    then have le: "d_seconds d < pt_seconds t
        \<or> d_seconds d = pt_seconds t \<and> d_picoseconds d \<le> pt_picoseconds t"
      by (auto simp: less_protocol_time_def)
    have r: "valid_time ?r" "pt_seconds ?r \<le> u64_max"
      using v assms(1) by (auto simp: valid_time_def time_ok_def)
    have tot: "total_ps ?r + duration_ps d = total_ps t"
    proof (cases "pt_picoseconds t < d_picoseconds d")
      case True
      then obtain k where k: "pt_seconds t = d_seconds d + Suc k"
        using le less_iff_Suc_add by auto
      then show ?thesis using True v by (simp add: total_ps_def duration_ps_def algebra_simps)
    next
      case ge: False
      then have "d_seconds d \<le> pt_seconds t" using le by auto
      then obtain k where "pt_seconds t = d_seconds d + k" using le_Suc_ex by blast
      then show ?thesis using ge by (simp add: total_ps_def duration_ps_def algebra_simps)
    qed
    show ?thesis using False eq r tot total_inject [OF r(1), of r] by (auto simp: time_ok_def)
  qed
qed

lemma duration_from_picoseconds:
  assumes "n \<le> u64_max"
  shows "duration_ok (from_picoseconds n)" and "duration_ps (from_picoseconds n) = n"
  using assms by (auto simp: from_picoseconds_def duration_ok_def valid_duration_def duration_ps_def
      time_consts)

lemma duration_from_nanoseconds:
  assumes "n \<le> u64_max"
  shows "duration_ok (from_nanoseconds n)" and "duration_ps (from_nanoseconds n) = n * 1000"
proof -
  have lt: "n mod 1000000000 < 1000000000" by simp
  have w: "wrap64 (n mod 1000000000 * 1000) = n mod 1000000000 * 1000"
    using lt by (intro wrap64_id) (simp add: u64_max_def)
  show "duration_ok (from_nanoseconds n)"
    using assms lt w by (simp add: from_nanoseconds_def duration_ok_def valid_duration_def
        u64_max_def picoseconds_per_second_def)
  have "(n div 1000000000 * 1000000000 + n mod 1000000000) * 1000 = n * 1000" by simp
  then have "n div 1000000000 * 1000000000000 + n mod 1000000000 * 1000 = n * 1000"
    unfolding distrib_right by simp
  then show "duration_ps (from_nanoseconds n) = n * 1000"
    by (simp add: from_nanoseconds_def duration_ps_def w picoseconds_per_second_def)
qed

lemma difference_Inr:
  assumes "time_ok a" and "time_ok b"
  shows "difference a b = Inr d \<longleftrightarrow> duration_ok d \<and> duration_ps d + total_ps b = total_ps a"
proof -
  let ?b = "Duration (pt_seconds b) (pt_picoseconds b)"
  have b: "duration_ok ?b" "duration_ps ?b = total_ps b"
    using assms(2) by (simp_all add: duration_ok_def valid_duration_def time_ok_def valid_time_def
        duration_ps_def total_ps_def)
  have "difference a b = Inr d \<longleftrightarrow>
      (\<exists>t. subtract_time a ?b = Inr t \<and> d = Duration (pt_seconds t) (pt_picoseconds t))"
    by (auto simp: difference_def and_then_eq_Inr)
  also have "\<dots> \<longleftrightarrow> duration_ok d \<and> duration_ps d + total_ps b = total_ps a"
    unfolding subtract_time_Inr [OF assms(1) b(1)] b(2)
    by (auto simp: duration_ok_def valid_duration_def time_ok_def valid_time_def duration_ps_def
        total_ps_def intro!: exI [of _ "Protocol_time (d_seconds d) (d_picoseconds d)"])
  finally show ?thesis .
qed


lemma representable: "n < (u64_max + 1) * picoseconds_per_second \<Longrightarrow> \<exists>r. time_ok r \<and> total_ps r = n"
proof -
  let ?p = picoseconds_per_second
  assume "n < (u64_max + 1) * ?p"
  then have "n div ?p \<le> u64_max" using less_mult_imp_div_less [of n "u64_max + 1" ?p] by simp
  then have "time_ok (Protocol_time (n div ?p) (n mod ?p))"
    by (simp add: time_ok_def valid_time_def picoseconds_per_second_def)
  then show ?thesis by (auto simp: total_ps_def intro!: exI [of _ "Protocol_time (n div ?p) (n mod ?p)"])
qed

lemma total_bound: "time_ok r \<Longrightarrow> total_ps r < (u64_max + 1) * picoseconds_per_second"
  by (auto simp: time_ok_def valid_time_def total_ps_def time_consts)

lemma time_arithmetic_difference:
  assumes "time_ok t" and "time_ok s"
  shows "(\<exists>x. difference t s = Inr x) \<longleftrightarrow> s \<le> t"
proof -
  have "s \<le> t \<longleftrightarrow> total_ps s \<le> total_ps t"
    using assms by (simp add: time_ok_def time_le_total)
  moreover have "\<exists>x. duration_ok x \<and> duration_ps x + total_ps s = total_ps t" if le: "total_ps s \<le> total_ps t"
  proof -
    obtain q where q: "time_ok q" "total_ps q = total_ps t - total_ps s"
      using representable [of "total_ps t - total_ps s"] total_bound [OF assms(1)]
      by (meson less_imp_diff_less)
    let ?x = "Duration (pt_seconds q) (pt_picoseconds q)"
    have "duration_ok ?x" "duration_ps ?x = total_ps q"
      using q(1) by (simp_all add: duration_ok_def valid_duration_def time_ok_def valid_time_def
          duration_ps_def total_ps_def)
    with q(2) le show ?thesis by (intro exI [of _ ?x]) simp
  qed
  ultimately show ?thesis using difference_Inr [OF assms] by (metis le_add2)
qed

section \<open>Properties\<close>

text \<open>Time arithmetic is exact on all representable values: a sum exists exactly when it fits
  in 64-bit seconds and then has the sum of the picosecond totals, a difference exists exactly
  when it is not negative and then inverts the sum, and comparing times compares totals.\<close>

theorem time_arithmetic_exact:
  assumes "time_ok t" and "time_ok s" and "duration_ok d"
  shows "((\<exists>r. add_time t d = Inr r)
        \<longleftrightarrow> total_ps t + duration_ps d < (u64_max + 1) * picoseconds_per_second)
    \<and> ((\<exists>r. subtract_time t d = Inr r) \<longleftrightarrow> duration_ps d \<le> total_ps t)
    \<and> (\<forall>r. add_time t d = Inr r
        \<longrightarrow> total_ps r = total_ps t + duration_ps d \<and> subtract_time r d = Inr t \<and> difference r t = Inr d)
    \<and> ((\<exists>x. difference t s = Inr x) \<longleftrightarrow> s \<le> t)"
proof -
  let ?p = picoseconds_per_second
  note rep = representable and bound = total_bound
  have "(\<exists>r. add_time t d = Inr r) \<longleftrightarrow> total_ps t + duration_ps d < (u64_max + 1) * ?p"
    using add_time_Inr [OF assms(1,3)] rep bound by metis
  moreover have "(\<exists>r. subtract_time t d = Inr r) \<longleftrightarrow> duration_ps d \<le> total_ps t"
    using subtract_time_Inr [OF assms(1,3)] rep [of "total_ps t - duration_ps d"] bound [OF assms(1)]
    by (metis le_add_diff_inverse2 less_imp_diff_less le_add2)
  moreover have "subtract_time r d = Inr t \<and> difference r t = Inr d \<and> total_ps r = total_ps t + duration_ps d"
    if "add_time t d = Inr r" for r
    using that add_time_Inr [OF assms(1,3), of r] subtract_time_Inr [of r d t] difference_Inr [of r t d] assms
    by simp
  moreover have "(\<exists>x. difference t s = Inr x) \<longleftrightarrow> s \<le> t"
    using assms(1,2) by (rule time_arithmetic_difference)
  ultimately show ?thesis by blast
qed

theorem time_arithmetic_exact_witness:
  "\<exists>r. add_time (Protocol_time 1 999999999999) (Duration 0 1) = Inr r \<and> total_ps r = 2000000000000"
proof -
  have ok: "time_ok (Protocol_time 1 999999999999)" "duration_ok (Duration 0 1)"
    and v: "total_ps (Protocol_time 1 999999999999) = 1999999999999" "duration_ps (Duration 0 1) = 1"
    by (simp_all add: time_ok_def valid_time_def duration_ok_def valid_duration_def total_ps_def
        duration_ps_def time_consts)
  have "1999999999999 + 1 < (u64_max + 1) * picoseconds_per_second" by (simp add: time_consts)
  with time_arithmetic_exact [OF ok(1) ok(1) ok(2)] v show ?thesis by auto
qed

end
