(* ===== verification/Timeline.thy ===== *)
theory Timeline
  imports Complex_Main Timing
begin

text \<open>
  The sample timeline of \<^verbatim>\<open>include/vita/runtime/timing/sample_timeline.hpp\<close>: the exact
  time of a sample ordinal, kept as a protocol time plus a reduced fraction of a picosecond.
  The specification is the rational number \<open>exact_ps\<close>; the lemmas show that no 64-bit
  intermediate wraps, that advancing adds exactly \<open>samples / rate\<close> seconds, and that the
  representation of a time is unique, so advancing in steps of any size leads to the same
  state.
\<close>

record exact_sample_time =
  ex_time :: protocol_time
  ex_numerator :: nat
  ex_denominator :: nat

record timeline =
  tl_current :: exact_sample_time
  tl_rate :: nat
  tl_ordinal :: nat
  tl_revision :: nat

definition common_denominator :: "nat \<Rightarrow> nat \<Rightarrow> nat result" where
  "common_denominator a b =
     (let factor = a div gcd a b
      in if factor > u64_max div b then Inl (err Resource_limit) else Inr (wrap64 (factor * b)))"

definition create_timeline :: "protocol_time \<Rightarrow> nat \<Rightarrow> timeline result" where
  "create_timeline origin rate =
     (if \<not> valid_time origin \<or> rate = 0 \<or> rate > 100000000 then Inl (err Invalid_argument)
      else Inr \<lparr>tl_current = \<lparr>ex_time = origin, ex_numerator = 0, ex_denominator = 1\<rparr>,
                tl_rate = rate, tl_ordinal = 0, tl_revision = 0\<rparr>)"

definition reanchor_mapping ::
  "timeline \<Rightarrow> protocol_time \<Rightarrow> protocol_time \<Rightarrow> timeline \<times> unit result" where
  "reanchor_mapping line old_now new_now =
     (case (if new_now \<ge> old_now then difference new_now old_now else difference old_now new_now) of
        Inl e \<Rightarrow> (line, Inl e)
      | Inr delta \<Rightarrow>
          (case (if new_now \<ge> old_now then add_time (ex_time (tl_current line)) delta
                 else subtract_time (ex_time (tl_current line)) delta) of
             Inl e \<Rightarrow> (line, Inl e)
           | Inr shifted \<Rightarrow> (line\<lparr>tl_current := (tl_current line)\<lparr>ex_time := shifted\<rparr>\<rparr>, Inr ())))"

definition change_rate :: "timeline \<Rightarrow> nat \<Rightarrow> timeline \<times> unit result" where
  "change_rate line rate =
     (if rate = 0 \<or> rate > 100000000 then (line, Inl (err Invalid_argument))
      else if tl_revision line = u64_max then (line, Inl (err Overflow))
      else case common_denominator (ex_denominator (tl_current line))
                  (rate div gcd picoseconds_per_second rate) of
        Inl e \<Rightarrow> (line, Inl e)
      | Inr d \<Rightarrow> (line\<lparr>tl_rate := rate, tl_revision := wrap64 (tl_revision line + 1)\<rparr>, Inr ()))"

definition advance :: "timeline \<Rightarrow> nat \<Rightarrow> timeline \<times> unit result" where
  "advance line samples =
     (let current = tl_current line; rate = tl_rate line
      in if samples > u64_max - tl_ordinal line then (line, Inl (err Overflow))
      else let seconds = samples div rate; remaining = samples mod rate;
               quotient = picoseconds_per_second div rate;
               step_remainder = picoseconds_per_second mod rate;
               remainder_product = wrap64 (remaining * step_remainder);
               fraction = wrap64 (wrap64 (remaining * quotient) + remainder_product div rate);
               residue = remainder_product mod rate;
               divisor = gcd picoseconds_per_second rate;
               step_denominator = rate div divisor
      in case common_denominator (ex_denominator current) step_denominator of
           Inl e \<Rightarrow> (line, Inl e)
         | Inr denominator \<Rightarrow>
             let a = wrap64 (ex_numerator current * (denominator div ex_denominator current));
                 b = wrap64 (residue div divisor * (denominator div step_denominator));
                 carry = (a \<ge> denominator - b);
                 numerator = (if carry then a - (denominator - b) else wrap64 (a + b))
             in case add_time (ex_time current) (Duration seconds fraction) of
                  Inl e \<Rightarrow> (line, Inl e)
                | Inr next1 \<Rightarrow>
                    (case (if carry then add_time next1 (Duration 0 1) else Inr next1) of
                       Inl e \<Rightarrow> (line, Inl e)
                     | Inr next2 \<Rightarrow>
                         let g = gcd numerator denominator
                         in (line\<lparr>tl_current := \<lparr>ex_time = next2, ex_numerator = numerator div g,
                                               ex_denominator = denominator div g\<rparr>,
                                tl_ordinal := wrap64 (tl_ordinal line + samples)\<rparr>, Inr ())))"

section \<open>Exact values\<close>

definition exact_ps :: "exact_sample_time \<Rightarrow> rat" where
  "exact_ps e = of_nat (total_ps (ex_time e)) + of_nat (ex_numerator e) / of_nat (ex_denominator e)"

definition exact_inv :: "exact_sample_time \<Rightarrow> bool" where
  "exact_inv e \<longleftrightarrow> time_ok (ex_time e) \<and> ex_numerator e < ex_denominator e
     \<and> coprime (ex_numerator e) (ex_denominator e) \<and> ex_denominator e \<le> u64_max"

definition timeline_inv :: "timeline \<Rightarrow> bool" where
  "timeline_inv line \<longleftrightarrow> exact_inv (tl_current line) \<and> 0 < tl_rate line \<and> tl_rate line \<le> 100000000
     \<and> tl_ordinal line \<le> u64_max \<and> tl_revision line \<le> u64_max"

definition step_den :: "nat \<Rightarrow> nat" where
  "step_den rate = rate div gcd picoseconds_per_second rate"

text \<open>The end of representable time, in picoseconds.\<close>

definition time_limit :: rat where
  "time_limit = of_nat ((u64_max + 1) * picoseconds_per_second)"

lemma common_denominator_Inr:
  assumes "0 < a" and "0 < b"
  shows "common_denominator a b = Inr m \<longleftrightarrow> m = lcm a b \<and> lcm a b \<le> u64_max"
    and "common_denominator a b = Inl e \<longleftrightarrow> e = err Resource_limit \<and> lcm a b > u64_max"
proof -
  have l: "a div gcd a b * b = lcm a b"
    by (simp add: lcm_nat_def dvd_div_mult)
  have "(a div gcd a b \<le> u64_max div b) = (lcm a b \<le> u64_max)"
    using assms(2) l by (simp add: less_eq_div_iff_mult_less_eq)
  then show "common_denominator a b = Inr m \<longleftrightarrow> m = lcm a b \<and> lcm a b \<le> u64_max"
    "common_denominator a b = Inl e \<longleftrightarrow> e = err Resource_limit \<and> lcm a b > u64_max"
    using l by (auto simp: common_denominator_def Let_def wrap64_id)
qed

lemma step_den_pos: "0 < rate \<Longrightarrow> 0 < step_den rate"
  by (simp add: step_den_def div_greater_zero_iff gcd_le2_nat)

text \<open>Splitting \<open>remaining\<close> samples of a second into picoseconds and a residue.\<close>

lemma sample_fraction:
  fixes rate remaining :: nat
  assumes "remaining < rate" and "rate \<le> 100000000"
  defines "N \<equiv> picoseconds_per_second"
  defines "rp \<equiv> remaining * (N mod rate)"
  defines "fraction \<equiv> remaining * (N div rate) + rp div rate" and "residue \<equiv> rp mod rate"
  shows "remaining * N = fraction * rate + residue" and "fraction < N"
    and "gcd N rate dvd residue" and "residue div gcd N rate < step_den rate"
    and "rp \<le> u64_max" and "remaining * (N div rate) \<le> u64_max" and "fraction \<le> u64_max"
    and "(of_nat residue / of_nat rate :: rat) = of_nat (residue div gcd N rate) / of_nat (step_den rate)"
proof -
  have r: "0 < rate" using assms(1) by simp
  have "remaining * N = remaining * (N div rate * rate + N mod rate)" by simp
  also have "\<dots> = remaining * (N div rate) * rate + rp" unfolding rp_def by algebra
  also have "\<dots> = fraction * rate + residue"
    unfolding fraction_def residue_def by (metis add.assoc add_mult_distrib div_mult_mod_eq)
  finally show e: "remaining * N = fraction * rate + residue" .
  have "fraction * rate \<le> remaining * N" using e by simp
  also have "\<dots> < rate * N" using assms(1) by (simp add: N_def picoseconds_per_second_def)
  finally have "fraction * rate < N * rate" by (simp add: mult.commute)
  then show f: "fraction < N" by simp
  have "N mod rate < rate" using r by simp
  then have "rp \<le> rate * rate" unfolding rp_def using assms(1) by (intro mult_le_mono) simp_all
  also have "\<dots> \<le> 100000000 * 100000000" using assms(2) by (intro mult_le_mono)
  finally show "rp \<le> u64_max" by (simp add: u64_max_def)
  have "remaining * (N div rate) \<le> fraction" by (simp add: fraction_def)
  then show "remaining * (N div rate) \<le> u64_max" "fraction \<le> u64_max"
    using f by (simp_all add: N_def u64_max_def picoseconds_per_second_def)
  have g: "gcd N rate dvd N mod rate" by (simp add: dvd_mod_iff)
  then show gr: "gcd N rate dvd residue"
    unfolding residue_def rp_def by (simp add: dvd_mod_iff)
  have res: "residue < rate" using r by (simp add: residue_def)
  have rate: "rate = step_den rate * gcd N rate" by (simp add: step_den_def N_def)
  have rs: "residue = residue div gcd N rate * gcd N rate" using gr by simp
  show "residue div gcd N rate < step_den rate"
    using res rate rs by (metis mult_less_cancel2)
  have "gcd N rate > 0" using r by simp
  then show "(of_nat residue / of_nat rate :: rat) = of_nat (residue div gcd N rate) / of_nat (step_den rate)"
    by (subst rate, subst rs) (simp only: of_nat_mult, simp)
qed

text \<open>Adding two proper fractions over a common denominator.\<close>

lemma add_fractions:
  fixes n d m k :: nat
  assumes "n < d" and "m < k" and "D = lcm d k"
  defines "a \<equiv> n * (D div d)" and "b \<equiv> m * (D div k)"
  shows "a < D" and "b < D"
    and "(of_nat a / of_nat D :: rat) = of_nat n / of_nat d"
    and "(of_nat b / of_nat D :: rat) = of_nat m / of_nat k"
proof -
  have part: "x * (D div y) < D \<and> (of_nat (x * (D div y)) / of_nat D :: rat) = of_nat x / of_nat y"
    if h: "x < y" "y dvd D" "0 < D" for x y
  proof -
    obtain z where z: "D = y * z" using h(2) by blast
    with h have "0 < z" "0 < y" by auto
    then show ?thesis using h(1) z by (simp add: mult.commute)
  qed
  have "0 < D" using assms by (simp add: lcm_pos_nat)
  then show "a < D" "b < D" "(of_nat a / of_nat D :: rat) = of_nat n / of_nat d"
    "(of_nat b / of_nat D :: rat) = of_nat m / of_nat k"
    using part [of n d] part [of m k] assms by simp_all
qed

text \<open>A time has one representation.\<close>

lemma exact_unique:
  assumes "exact_inv x" and "exact_inv y" and "exact_ps x = exact_ps y"
  shows "ex_time x = ex_time y" and "ex_numerator x = ex_numerator y"
    and "ex_denominator x = ex_denominator y"
proof -
  have fl: "\<lfloor>exact_ps z\<rfloor> = int (total_ps (ex_time z))" if "exact_inv z" for z
    using that by (auto simp: exact_ps_def exact_inv_def floor_eq_iff)
  have "total_ps (ex_time x) = total_ps (ex_time y)" using fl assms by (metis of_nat_eq_iff)
  then show t: "ex_time x = ex_time y"
    using assms(1,2) by (auto simp: exact_inv_def time_ok_def intro: total_inject)
  have "0 < ex_denominator x" "0 < ex_denominator y" using assms by (auto simp: exact_inv_def)
  moreover have "(of_nat (ex_numerator x) / of_nat (ex_denominator x) :: rat)
      = of_nat (ex_numerator y) / of_nat (ex_denominator y)"
    using assms(3) t by (simp add: exact_ps_def)
  ultimately have "(of_nat (ex_numerator x * ex_denominator y) :: rat)
      = of_nat (ex_numerator y * ex_denominator x)"
    by (simp add: frac_eq_eq)
  then have "ex_numerator x * ex_denominator y = ex_numerator y * ex_denominator x"
    using of_nat_eq_iff by blast
  then show "ex_numerator x = ex_numerator y" "ex_denominator x = ex_denominator y"
    using assms(1,2) by (auto simp: exact_inv_def coprime_crossproduct_nat)
qed


text \<open>Reducing a proper fraction.\<close>

lemma reduce_fraction:
  fixes n d :: nat
  assumes "n < d"
  shows "n div gcd n d < d div gcd n d" and "coprime (n div gcd n d) (d div gcd n d)"
    and "d div gcd n d dvd d" and "d div gcd n d \<le> d"
    and "(of_nat (n div gcd n d) / of_nat (d div gcd n d) :: rat) = of_nat n / of_nat d"
proof -
  have g: "0 < gcd n d" using assms by simp
  have e: "n = n div gcd n d * gcd n d" "d = d div gcd n d * gcd n d" by simp_all
  show "n div gcd n d < d div gcd n d" using assms e by (metis mult_less_cancel2)
  show "coprime (n div gcd n d) (d div gcd n d)" using assms by (intro div_gcd_coprime) auto
  show "d div gcd n d dvd d" using e(2) by (metis dvd_triv_left)
  show "d div gcd n d \<le> d" by simp
  have "(of_nat n / of_nat d :: rat) = of_nat (n div gcd n d * gcd n d) / of_nat (d div gcd n d * gcd n d)"
    using e by simp
  then show "(of_nat (n div gcd n d) / of_nat (d div gcd n d) :: rat) = of_nat n / of_nat d"
    using g by (simp only: of_nat_mult) simp
qed

lemma exact_below_limit: "exact_inv e \<Longrightarrow> exact_ps e < time_limit"
proof -
  assume i: "exact_inv e"
  then have "total_ps (ex_time e) + 1 \<le> (u64_max + 1) * picoseconds_per_second"
    by (auto simp: exact_inv_def time_ok_def valid_time_def total_ps_def time_consts)
  then have "(of_nat (total_ps (ex_time e)) + 1 :: rat) \<le> time_limit"
    unfolding time_limit_def by (metis of_nat_1 of_nat_add of_nat_le_iff)
  moreover have "(of_nat (ex_numerator e) / of_nat (ex_denominator e) :: rat) < 1"
    using i by (simp add: exact_inv_def)
  ultimately show ?thesis by (simp add: exact_ps_def)
qed

text \<open>One call of \<open>advance\<close>, on every branch.\<close>

lemma advance_time:
  assumes t: "time_ok t" and f: "fraction < picoseconds_per_second" and s: "seconds \<le> u64_max"
  shows "(case add_time t (Duration seconds fraction) of Inl e \<Rightarrow> Inl e
      | Inr t1 \<Rightarrow> if carry then add_time t1 (Duration 0 1) else Inr t1) = Inr r
    \<longleftrightarrow> time_ok r \<and> total_ps r = total_ps t + seconds * picoseconds_per_second + fraction + of_bool carry"
proof -
  let ?d = "Duration seconds fraction" and ?T = "total_ps t + seconds * picoseconds_per_second + fraction"
  have d: "duration_ok ?d" "duration_ps ?d = seconds * picoseconds_per_second + fraction"
    using f s by (simp_all add: duration_ok_def valid_duration_def duration_ps_def)
  have d1: "duration_ok (Duration 0 1)" "duration_ps (Duration 0 1) = 1"
    by (simp_all add: duration_ok_def valid_duration_def duration_ps_def picoseconds_per_second_def)
  have add: "add_time t ?d = Inr r \<longleftrightarrow> time_ok r \<and> total_ps r = ?T" for r
    using add_time_Inr [OF t d(1)] d(2) by (simp add: add.assoc)
  have pred: "\<exists>q. time_ok q \<and> total_ps q = ?T" if h: "time_ok r" "total_ps r = ?T + 1"
  proof -
    have "subtract_time r (Duration 0 1) = Inr q \<longleftrightarrow> time_ok q \<and> total_ps q + 1 = ?T + 1" for q
      using subtract_time_Inr [OF h(1) d1(1)] d1(2) h(2) by simp
    moreover have "\<exists>q. subtract_time r (Duration 0 1) = Inr q"
      using h by (auto simp: subtract_time_def time_ok_def valid_duration_def less_protocol_time_def
          total_ps_def time_consts)
    ultimately show ?thesis by auto
  qed
  show ?thesis
  proof (cases "add_time t ?d")
    case (Inl e)
    then have no: "\<not> (time_ok q \<and> total_ps q = ?T)" for q using add [of q] by simp
    then show ?thesis using Inl pred by (cases carry) auto
  next
    case (Inr t1)
    then have t1: "time_ok t1" "total_ps t1 = ?T" using add by auto
    show ?thesis using Inr t1 add_time_Inr [OF t1(1) d1(1)] d1(2) add [of r]
      by (cases carry) auto
  qed
qed


definition advance_parts :: "timeline \<Rightarrow> nat \<Rightarrow> nat \<times> nat \<times> nat" where
  "advance_parts line samples =
     (let rate = tl_rate line; N = picoseconds_per_second; e = tl_current line;
          rp = samples mod rate * (N mod rate);
          D = lcm (ex_denominator e) (step_den rate)
      in (samples mod rate * (N div rate) + rp div rate,
          ex_numerator e * (D div ex_denominator e)
            + rp mod rate div gcd N rate * (D div step_den rate),
          D))"

lemma advance_eq:
  assumes inv: "timeline_inv line" and p: "advance_parts line samples = (fraction, whole, D)"
  shows "advance line samples =
    (if samples > u64_max - tl_ordinal line then (line, Inl (err Overflow))
     else if D > u64_max then (line, Inl (err Resource_limit))
     else case (case add_time (ex_time (tl_current line)) (Duration (samples div tl_rate line) fraction) of
            Inl e \<Rightarrow> Inl e | Inr t1 \<Rightarrow> if D \<le> whole then add_time t1 (Duration 0 1) else Inr t1) of
       Inl e \<Rightarrow> (line, Inl e)
     | Inr r \<Rightarrow> let m = (if D \<le> whole then whole - D else whole); g = gcd m D
         in (line\<lparr>tl_current := \<lparr>ex_time = r, ex_numerator = m div g, ex_denominator = D div g\<rparr>,
                 tl_ordinal := tl_ordinal line + samples\<rparr>, Inr ()))"
proof (cases "samples > u64_max - tl_ordinal line")
  case True
  then show ?thesis by (simp add: advance_def)
next
  case ord: False
  let ?e = "tl_current line" and ?rate = "tl_rate line" and ?N = picoseconds_per_second
  let ?rem = "samples mod ?rate"
  have r: "0 < ?rate" "?rate \<le> 100000000" "?rem < ?rate" "tl_ordinal line \<le> u64_max"
    and ex: "ex_numerator ?e < ex_denominator ?e"
    using inv by (auto simp: timeline_inv_def exact_inv_def)
  note sf = sample_fraction [OF r(3,2)]
  let ?rp = "?rem * (?N mod ?rate)"
  have fr: "fraction = ?rem * (?N div ?rate) + ?rp div ?rate"
    and D: "D = lcm (ex_denominator ?e) (step_den ?rate)"
    and tot: "whole = ex_numerator ?e * (D div ex_denominator ?e)
        + ?rp mod ?rate div gcd ?N ?rate * (D div step_den ?rate)"
    using p by (auto simp: advance_parts_def Let_def)
  let ?a = "ex_numerator ?e * (D div ex_denominator ?e)"
  let ?b = "?rp mod ?rate div gcd ?N ?rate * (D div step_den ?rate)"
  have ab: "?a < D" "?b < D" using add_fractions [OF ex sf(4) D] by simp_all
  have carry: "(D - ?b \<le> ?a) = (D \<le> whole)" "?a - (D - ?b) = whole - D"
    using ab tot by auto
  have w: "wrap64 ?rp = ?rp" "wrap64 (?rem * (?N div ?rate)) = ?rem * (?N div ?rate)"
    "wrap64 (?rem * (?N div ?rate) + ?rp div ?rate) = fraction"
    "wrap64 (tl_ordinal line + samples) = tl_ordinal line + samples"
    using sf(5-7) ord r(4) fr by (auto intro: wrap64_id)
  have wab: "wrap64 ?a = ?a" "wrap64 ?b = ?b" if "D \<le> u64_max"
    using ab that by (auto intro: wrap64_id)
  have sum: "wrap64 (?a + ?b) = whole" if "D \<le> u64_max" "\<not> D \<le> whole"
    using that tot by (simp add: wrap64_id)
  have cd: "common_denominator (ex_denominator ?e) (?rate div gcd ?N ?rate)
      = (if D > u64_max then Inl (err Resource_limit) else Inr D)"
    using common_denominator_Inr [of "ex_denominator ?e" "step_den ?rate"] step_den_pos [OF r(1)] ex D
    by (cases "common_denominator (ex_denominator ?e) (?rate div gcd ?N ?rate)")
       (auto simp: step_den_def)
  show ?thesis
  proof (cases "D > u64_max")
    case True
    then show ?thesis using ord by (simp add: advance_def Let_def w cd)
  next
    case False
    then have le: "D \<le> u64_max" by simp
    define a b c where "a = ?a" and "b = ?b" and "c \<longleftrightarrow> D - b \<le> a"
    have ca: "c = (D \<le> whole)" using carry(1) by (simp add: a_def b_def c_def)
    have m: "(if c then a - (D - b) else wrap64 (a + b)) = (if D \<le> whole then whole - D else whole)"
      using carry(2) sum [OF le] ca by (simp add: a_def b_def)
    have wa: "wrap64 (ex_numerator ?e * (D div ex_denominator ?e)) = a"
      "wrap64 (?rp mod ?rate div gcd ?N ?rate * (D div (?rate div gcd ?N ?rate))) = b"
      using wab [OF le] by (simp_all add: a_def b_def step_den_def)
    have cd': "common_denominator (ex_denominator ?e) (?rate div gcd ?N ?rate) = Inr D"
      using cd le by simp
    have no: "\<not> u64_max - tl_ordinal line < samples" "\<not> u64_max < D" using ord le by simp_all
    have "advance line samples = (case add_time (ex_time ?e) (Duration (samples div ?rate) fraction) of
          Inl e \<Rightarrow> (line, Inl e)
        | Inr t1 \<Rightarrow> (case (if c then add_time t1 (Duration 0 1) else Inr t1) of
            Inl e \<Rightarrow> (line, Inl e)
          | Inr r \<Rightarrow> (line\<lparr>tl_current := \<lparr>ex_time = r,
                ex_numerator = (if c then a - (D - b) else wrap64 (a + b))
                  div gcd (if c then a - (D - b) else wrap64 (a + b)) D,
                ex_denominator = D div gcd (if c then a - (D - b) else wrap64 (a + b)) D\<rparr>,
              tl_ordinal := wrap64 (tl_ordinal line + samples)\<rparr>, Inr ())))"
      unfolding advance_def Let_def if_not_P [OF no(1)] w(1-3) cd' sum.case wa c_def by (rule refl)
    then show ?thesis unfolding m unfolding w(4) ca Let_def if_not_P [OF no(1)] if_not_P [OF no(2)]
      by (simp split: sum.split)
  qed
qed


lemma advance_spec:
  assumes inv: "timeline_inv line"
  shows "case advance line samples of
      (line', Inr u) \<Rightarrow> timeline_inv line'
        \<and> exact_ps (tl_current line') = exact_ps (tl_current line)
            + of_nat samples * of_nat picoseconds_per_second / of_nat (tl_rate line)
        \<and> tl_ordinal line' = tl_ordinal line + samples
        \<and> tl_rate line' = tl_rate line \<and> tl_revision line' = tl_revision line
        \<and> ex_denominator (tl_current line') dvd lcm (ex_denominator (tl_current line)) (step_den (tl_rate line))
        \<and> lcm (ex_denominator (tl_current line)) (step_den (tl_rate line)) \<le> u64_max
    | (line', Inl e) \<Rightarrow> line' = line \<and> (u64_max < tl_ordinal line + samples
        \<or> u64_max < lcm (ex_denominator (tl_current line)) (step_den (tl_rate line))
        \<or> time_limit \<le> exact_ps (tl_current line)
            + of_nat samples * of_nat picoseconds_per_second / of_nat (tl_rate line))"
proof -
  let ?e = "tl_current line" and ?rate = "tl_rate line" and ?N = picoseconds_per_second
  let ?rem = "samples mod ?rate"
  obtain fraction whole D where p: "advance_parts line samples = (fraction, whole, D)"
    by (cases "advance_parts line samples") auto
  have r: "0 < ?rate" "?rate \<le> 100000000" "?rem < ?rate" "time_ok (ex_time ?e)"
    and ex: "ex_numerator ?e < ex_denominator ?e"
    using inv by (auto simp: timeline_inv_def exact_inv_def)
  note sf = sample_fraction [OF r(3,2)]
  define residue where "residue = ?rem * (?N mod ?rate) mod ?rate"
  have fr: "fraction = ?rem * (?N div ?rate) + ?rem * (?N mod ?rate) div ?rate"
    and D: "D = lcm (ex_denominator ?e) (step_den ?rate)"
    and wh: "whole = ex_numerator ?e * (D div ex_denominator ?e)
        + residue div gcd ?N ?rate * (D div step_den ?rate)"
    using p by (auto simp: advance_parts_def Let_def residue_def)
  have res: "residue div gcd ?N ?rate < step_den ?rate" using sf(4) by (simp add: residue_def)
  note af = add_fractions [OF ex res D]
  have Dpos: "0 < D" using af(1) by simp
  define m where "m = (if D \<le> whole then whole - D else whole)"
  have m: "m < D" "whole = m + of_bool (D \<le> whole) * D"
    using af(1,2) wh by (auto simp: m_def)
  define T where "T = total_ps (ex_time ?e) + samples div ?rate * ?N + fraction + of_bool (D \<le> whole)"
  have frac: "(of_nat whole / of_nat D :: rat)
      = of_nat (ex_numerator ?e) / of_nat (ex_denominator ?e) + of_nat residue / of_nat ?rate"
    using af(3,4) sf(8) wh by (simp add: add_divide_distrib residue_def)
  have step: "(of_nat samples * of_nat ?N / of_nat ?rate :: rat)
      = of_nat (samples div ?rate * ?N + fraction) + of_nat residue / of_nat ?rate"
  proof -
    have rem: "?rem * ?N = fraction * ?rate + residue" using sf(1) by (simp add: fr residue_def)
    have "samples * ?N = (samples div ?rate * ?rate + ?rem) * ?N" by simp
    also have "\<dots> = samples div ?rate * ?N * ?rate + ?rem * ?N" by algebra
    also have "\<dots> = (samples div ?rate * ?N + fraction) * ?rate + residue"
      unfolding rem by algebra
    finally have "(of_nat (samples * ?N) :: rat) = of_nat ((samples div ?rate * ?N + fraction) * ?rate + residue)"
      by simp
    then show ?thesis using r(1) by (simp add: field_simps)
  qed
  have sum: "exact_ps ?e + of_nat samples * of_nat ?N / of_nat ?rate = of_nat T + of_nat m / of_nat D"
  proof -
    have "(of_nat whole / of_nat D :: rat) = of_nat m / of_nat D + of_bool (D \<le> whole)"
      using Dpos by (subst m(2)) (simp add: add_divide_distrib)
    then show ?thesis unfolding exact_ps_def step T_def using frac by simp
  qed
  have sec: "samples div ?rate \<le> u64_max" if "samples \<le> u64_max"
    using that by (meson div_le_dividend le_trans)
  show ?thesis
  proof (cases "samples > u64_max - tl_ordinal line \<or> D > u64_max")
    case True
    then show ?thesis using D by (auto simp: advance_eq [OF inv p])
  next
    case False
    then have s: "samples \<le> u64_max" by arith
    let ?c = "case add_time (ex_time ?e) (Duration (samples div ?rate) fraction) of
        Inl e \<Rightarrow> Inl e | Inr t1 \<Rightarrow> if D \<le> whole then add_time t1 (Duration 0 1) else Inr t1"
    have c: "?c = Inr t \<longleftrightarrow> time_ok t \<and> total_ps t = T" for t
      using advance_time [OF r(4) _ sec [OF s], of fraction "D \<le> whole" t] sf(2) by (simp add: T_def fr)
    show ?thesis
    proof (cases ?c)
      case (Inl e)
      have "time_limit \<le> of_nat T"
      proof (rule ccontr)
        assume "\<not> ?thesis"
        then have "T < (u64_max + 1) * ?N" unfolding time_limit_def by (metis not_le of_nat_less_iff)
        then have "T div ?N \<le> u64_max" using less_mult_imp_div_less [of T "u64_max + 1" ?N] by simp
        then have "time_ok (Protocol_time (T div ?N) (T mod ?N))"
          by (simp add: time_ok_def valid_time_def picoseconds_per_second_def)
        then show False using c [of "Protocol_time (T div ?N) (T mod ?N)"] Inl by (simp add: total_ps_def)
      qed
      also have "(of_nat T :: rat) \<le> of_nat T + of_nat m / of_nat D" by simp
      finally show ?thesis using Inl False sum by (simp add: advance_eq [OF inv p])
    next
      case (Inr t)
      then have t: "time_ok t" "total_ps t = T" using c by auto
      note rf = reduce_fraction [OF m(1)]
      define g where "g = gcd m D"
      let ?e' = "\<lparr>ex_time = t, ex_numerator = m div g, ex_denominator = D div g\<rparr>"
      have adv: "advance line samples
          = (line\<lparr>tl_current := ?e', tl_ordinal := tl_ordinal line + samples\<rparr>, Inr ())"
        using False Inr by (simp add: advance_eq [OF inv p] m_def [symmetric] Let_def g_def)
      have e': "exact_inv ?e'"
        using t(1) rf(1,2) le_trans [OF rf(4)] False by (simp add: exact_inv_def g_def)
      have "exact_ps ?e' = of_nat T + of_nat m / of_nat D"
        using rf(5) t(2) by (simp add: exact_ps_def g_def)
      moreover have "tl_ordinal line + samples \<le> u64_max"
        using False inv by (auto simp: timeline_inv_def)
      ultimately show ?thesis
        using adv e' inv sum False rf(3) D [symmetric] by (simp add: timeline_inv_def g_def)
    qed
  qed
qed

lemma advance_step_den:
  assumes "0 < d" and "e dvd lcm d k"
  shows "lcm e k dvd lcm d (k :: nat)"
  using assms(2) by (simp add: lcm_least)

lemma step_den_3: "step_den 3 = 3"
  by (simp add: step_den_def picoseconds_per_second_def gcd_non_0_nat)

lemma sample_advance_ok:
  assumes "timeline_inv line" and "tl_rate line = 3" and "ex_denominator (tl_current line) dvd 3"
    and "tl_ordinal line < 10" and "exact_ps (tl_current line) < 10000000000000" and "n < 10"
  shows "\<exists>l. advance line n = (l, Inr ()) \<and> timeline_inv l \<and> tl_rate l = 3
    \<and> ex_denominator (tl_current l) dvd 3 \<and> tl_ordinal l = tl_ordinal line + n
    \<and> exact_ps (tl_current l) = exact_ps (tl_current line) + of_nat n * 1000000000000 / 3"
proof -
  let ?x = "of_nat n * of_nat picoseconds_per_second / of_nat (tl_rate line) :: rat"
  have l: "lcm (ex_denominator (tl_current line)) 3 = 3" using assms(3) by (simp add: lcm_proj2_if_dvd)
  have "(of_nat n :: rat) < 10" using assms(6) by (simp flip: of_nat_less_iff)
  then have x: "?x < 10000000000000" "?x = of_nat n * 1000000000000 / 3"
    using assms(2) by (simp_all add: picoseconds_per_second_def)
  then have lim: "exact_ps (tl_current line) + ?x < time_limit"
    using assms(5) by (simp add: time_limit_def time_consts)
  obtain l r where a: "advance line n = (l, r)" by fastforce
  show ?thesis
    using advance_spec [OF assms(1), of n] assms(2,4,6) l lim x(2) unfolding a
    by (cases r) (auto simp: step_den_3 u64_max_def)
qed

section \<open>Properties\<close>

definition sample_timeline :: timeline where
  "sample_timeline = \<lparr>tl_current = \<lparr>ex_time = Protocol_time 5 0, ex_numerator = 0, ex_denominator = 1\<rparr>,
     tl_rate = 3, tl_ordinal = 0, tl_revision = 0\<rparr>"

lemma sample_timeline_inv: "timeline_inv sample_timeline"
  by (simp add: timeline_inv_def exact_inv_def sample_timeline_def time_ok_def valid_time_def time_consts)

text \<open>C12: advancing a timeline by a number of samples adds exactly \<open>samples / rate\<close> seconds
  to its time, as a rational number and with no 64-bit wrap-around, counts the samples, and
  keeps the representation reduced. It fails, changing nothing, only when the sample ordinal,
  the fraction's denominator or the time itself would leave 64 bits.\<close>

theorem advance_exact:
  assumes "timeline_inv line"
  shows "case advance line samples of
      (line', Inr u) \<Rightarrow> timeline_inv line'
        \<and> exact_ps (tl_current line') = exact_ps (tl_current line)
            + of_nat samples * of_nat picoseconds_per_second / of_nat (tl_rate line)
        \<and> tl_ordinal line' = tl_ordinal line + samples \<and> tl_rate line' = tl_rate line
        \<and> tl_revision line' = tl_revision line
    | (line', Inl e) \<Rightarrow> line' = line \<and> (u64_max < tl_ordinal line + samples
        \<or> u64_max < lcm (ex_denominator (tl_current line)) (step_den (tl_rate line))
        \<or> time_limit \<le> exact_ps (tl_current line)
            + of_nat samples * of_nat picoseconds_per_second / of_nat (tl_rate line))"
  using advance_spec [OF assms, of samples] by (auto split: prod.split sum.split)

theorem advance_exact_witness:
  "case advance sample_timeline 4 of
     (line', Inr u) \<Rightarrow> exact_ps (tl_current line') = 19000000000000 / 3 | (line', Inl e) \<Rightarrow> False"
proof -
  have "step_den 3 \<le> 3" unfolding step_den_def by (rule div_le_dividend)
  then have s: "lcm 1 (step_den 3) \<le> u64_max" by (simp add: u64_max_def)
  have s': "exact_ps (tl_current sample_timeline) = 5000000000000"
    "time_limit = 18446744073709551616000000000000"
    by (simp_all add: exact_ps_def sample_timeline_def total_ps_def time_limit_def time_consts)
  obtain l r where a: "advance sample_timeline 4 = (l, r)" by fastforce
  have f: "tl_ordinal sample_timeline = 0" "tl_rate sample_timeline = 3"
    "ex_denominator (tl_current sample_timeline) = 1"
    by (simp_all add: sample_timeline_def)
  show ?thesis
    using advance_exact [OF sample_timeline_inv, of 4] s s' unfolding a f
    by (cases r) (simp_all add: u64_max_def picoseconds_per_second_def)
qed

text \<open>there is no drift: advancing by \<open>a\<close> and then by \<open>b\<close> samples leads to exactly
  the state that advancing by \<open>a + b\<close> at once leads to, so block sizes do not matter.\<close>

theorem advance_additive:
  assumes "timeline_inv line"
    and "advance line a = (l1, Inr ())" and "advance l1 b = (l2, Inr ())"
  shows "advance line (a + b) = (l2, Inr ())"
proof -
  let ?den = "ex_denominator (tl_current line)" and ?k = "step_den (tl_rate line)"
  let ?x = "\<lambda>n. of_nat n * of_nat picoseconds_per_second / (of_nat (tl_rate line) :: rat)"
  have s1: "timeline_inv l1" "exact_ps (tl_current l1) = exact_ps (tl_current line) + ?x a"
    "tl_ordinal l1 = tl_ordinal line + a" "tl_rate l1 = tl_rate line" "tl_revision l1 = tl_revision line"
    "lcm ?den ?k \<le> u64_max"
    using advance_spec [OF assms(1), of a] assms(2) by auto
  have s2: "timeline_inv l2" "exact_ps (tl_current l2) = exact_ps (tl_current line) + ?x (a + b)"
    "tl_ordinal l2 = tl_ordinal line + (a + b)" "tl_rate l2 = tl_rate line" "tl_revision l2 = tl_revision line"
    using advance_spec [OF s1(1), of b] assms(3) s1
    by (auto simp: add_divide_distrib distrib_right)
  have "exact_ps (tl_current line) + ?x (a + b) < time_limit"
    using exact_below_limit [of "tl_current l2"] s2(1,2) by (simp add: timeline_inv_def)
  moreover have "tl_ordinal line + (a + b) \<le> u64_max" using s2(1,3) by (simp add: timeline_inv_def)
  ultimately obtain l3 where l3: "advance line (a + b) = (l3, Inr ())" "timeline_inv l3"
      "exact_ps (tl_current l3) = exact_ps (tl_current line) + ?x (a + b)"
      "tl_ordinal l3 = tl_ordinal line + (a + b)" "tl_rate l3 = tl_rate line" "tl_revision l3 = tl_revision line"
    using advance_spec [OF assms(1), of "a + b"] s1(6)
    by (cases "advance line (a + b)"; cases "snd (advance line (a + b))") auto
  have "exact_inv (tl_current l3)" "exact_inv (tl_current l2)"
    using l3(2) s2(1) by (simp_all add: timeline_inv_def)
  then have "tl_current l3 = tl_current l2"
    using exact_unique [of "tl_current l3" "tl_current l2"] l3(3) s2(2) by simp
  then have "l3 = l2" using l3(4-6) s2(3-5) by simp
  with l3(1) show ?thesis by simp
qed


theorem advance_additive_witness:
  "\<exists>l1 l2. advance sample_timeline 1 = (l1, Inr ()) \<and> advance l1 2 = (l2, Inr ())
     \<and> advance sample_timeline 3 = (l2, Inr ()) \<and> exact_ps (tl_current l2) = 6000000000000"
proof -
  have s: "tl_rate sample_timeline = 3" "ex_denominator (tl_current sample_timeline) dvd 3"
    "tl_ordinal sample_timeline = 0" "exact_ps (tl_current sample_timeline) = 5000000000000"
    by (simp_all add: sample_timeline_def exact_ps_def total_ps_def time_consts)
  obtain l1 where l1: "advance sample_timeline 1 = (l1, Inr ())" "timeline_inv l1" "tl_rate l1 = 3"
    "ex_denominator (tl_current l1) dvd 3" "tl_ordinal l1 = 1"
    "exact_ps (tl_current l1) = 5000000000000 + 1000000000000 / 3"
    using sample_advance_ok [OF sample_timeline_inv s(1,2), of 1] s(3,4) by auto
  obtain l2 where l2: "advance l1 2 = (l2, Inr ())"
    "exact_ps (tl_current l2) = exact_ps (tl_current l1) + 2 * 1000000000000 / 3"
    using sample_advance_ok [OF l1(2-4), of 2] l1(5,6) by auto
  show ?thesis
    using advance_additive [OF sample_timeline_inv l1(1) l2(1)] l1(1,6) l2
    by (simp only: one_plus_numeral) (auto simp: numeral_3_eq_3)
qed

text \<open>changing the sample rate and re-anchoring the clock mapping keep the timeline sound.
  A rate change keeps the exact current time and the ordinal and takes the next revision; a
  re-anchoring shifts the time by exactly the shift of the mapping and touches nothing else;
  a refused call changes nothing.\<close>

theorem retime_keeps_timeline:
  assumes "timeline_inv line" and "time_ok old_now" and "time_ok new_now"
  shows "(case change_rate line rate of
        (line', Inr u) \<Rightarrow> timeline_inv line' \<and> tl_rate line' = rate \<and> tl_current line' = tl_current line
          \<and> tl_ordinal line' = tl_ordinal line \<and> tl_revision line' = tl_revision line + 1
      | (line', Inl e) \<Rightarrow> line' = line)
    \<and> (case reanchor_mapping line old_now new_now of
        (line', Inr u) \<Rightarrow> timeline_inv line'
          \<and> exact_ps (tl_current line') + of_nat (total_ps old_now)
              = exact_ps (tl_current line) + of_nat (total_ps new_now)
          \<and> tl_rate line' = tl_rate line \<and> tl_ordinal line' = tl_ordinal line
          \<and> tl_revision line' = tl_revision line
      | (line', Inl e) \<Rightarrow> line' = line)"
proof
  show "case change_rate line rate of
      (line', Inr u) \<Rightarrow> timeline_inv line' \<and> tl_rate line' = rate \<and> tl_current line' = tl_current line
        \<and> tl_ordinal line' = tl_ordinal line \<and> tl_revision line' = tl_revision line + 1
    | (line', Inl e) \<Rightarrow> line' = line"
    using assms(1) wrap64_id [of "tl_revision line + 1"]
    by (auto simp: change_rate_def timeline_inv_def split: sum.split)
next
  let ?e = "tl_current line"
  have e: "time_ok (ex_time ?e)" using assms(1) by (simp add: timeline_inv_def exact_inv_def)
  have shift: "timeline_inv (line\<lparr>tl_current := ?e\<lparr>ex_time := t\<rparr>\<rparr>)
      \<and> exact_ps (?e\<lparr>ex_time := t\<rparr>) + of_nat x = exact_ps ?e + of_nat y"
    if "time_ok t" "total_ps t + x = total_ps (ex_time ?e) + y" for t x y
  proof -
    have "(of_nat (total_ps t) + of_nat x :: rat) = of_nat (total_ps (ex_time ?e)) + of_nat y"
      using that(2) by (metis of_nat_add)
    then show ?thesis using that(1) assms(1) by (simp add: timeline_inv_def exact_inv_def exact_ps_def)
  qed
  show "case reanchor_mapping line old_now new_now of
      (line', Inr u) \<Rightarrow> timeline_inv line'
        \<and> exact_ps (tl_current line') + of_nat (total_ps old_now)
            = exact_ps (tl_current line) + of_nat (total_ps new_now)
        \<and> tl_rate line' = tl_rate line \<and> tl_ordinal line' = tl_ordinal line
        \<and> tl_revision line' = tl_revision line
    | (line', Inl e) \<Rightarrow> line' = line"
  proof (cases "old_now \<le> new_now")
    case True
    show ?thesis
      using True difference_Inr [OF assms(3,2)] add_time_Inr [OF e] shift [of _ "total_ps old_now" "total_ps new_now"]
      by (auto simp: reanchor_mapping_def split: sum.split)
  next
    case False
    show ?thesis
      using False difference_Inr [OF assms(2,3)] subtract_time_Inr [OF e] shift [of _ "total_ps old_now" "total_ps new_now"]
      by (auto simp: reanchor_mapping_def split: sum.split)
  qed
qed


theorem retime_keeps_timeline_witness:
  "case reanchor_mapping sample_timeline (Protocol_time 1 0) (Protocol_time 4 7) of
     (line', Inr u) \<Rightarrow> exact_ps (tl_current line') = 8000000000007 | (line', Inl e) \<Rightarrow> False"
proof -
  have t: "time_ok (Protocol_time 1 0)" "time_ok (Protocol_time 4 7)"
    by (simp_all add: time_ok_def valid_time_def time_consts)
  have v: "exact_ps (tl_current sample_timeline) = 5000000000000" "total_ps (Protocol_time 1 0) = 1000000000000"
    "total_ps (Protocol_time 4 7) = 4000000000007"
    by (simp_all add: sample_timeline_def exact_ps_def total_ps_def time_consts)
  have "snd (reanchor_mapping sample_timeline (Protocol_time 1 0) (Protocol_time 4 7)) = Inr ()"
    by (simp add: reanchor_mapping_def difference_def subtract_time_def add_time_def Let_def
        less_eq_protocol_time_def less_protocol_time_def sample_timeline_def valid_time_def
        valid_duration_def time_consts)
  with retime_keeps_timeline [OF sample_timeline_inv t] v show ?thesis
    by (cases "reanchor_mapping sample_timeline (Protocol_time 1 0) (Protocol_time 4 7)") auto
qed

end
