(* ===== verification/Clock.thy ===== *)
theory Clock
  imports Timing
begin

text \<open>
  The disciplined protocol clock of \<^verbatim>\<open>include/vita/runtime/timing/clock.hpp\<close>: a state
  machine from unbound through acquiring to locked, with holdover and fault on loss of the
  pulse, that maps monotonic readings to protocol time with an uncertainty. 64-bit fields are
  naturals with explicit wrap-around; \<open>clock_inv\<close> is what every operation keeps, and it
  rules out that the unguarded sum in \<open>snapshot\<close> wraps.
\<close>

datatype epoch = Epoch_utc | Epoch_gps | Epoch_other

datatype clock_state = Unbound | Acquiring | Locked | Holdover | Faulted

fun epoch_code :: "epoch \<Rightarrow> nat" where
  "epoch_code Epoch_utc = 0"
| "epoch_code Epoch_gps = 1"
| "epoch_code Epoch_other = 2"

record clock_binding =
  cb_epoch :: epoch
  cb_epoch_configured :: bool
  cb_qualified :: bool
  cb_injected :: bool
  cb_calibration_uncertainty_ps :: nat
  cb_holdover_drift_ppb :: nat
  cb_holdover_limit_ns :: nat

record clock_snapshot =
  cs_state :: clock_state
  cs_time :: protocol_time
  cs_uncertainty_ps :: nat
  cs_mapping_generation :: nat
  cs_calibrated :: bool
  cs_injected :: bool
  cs_epoch :: epoch

record protocol_clock =
  pc_binding :: clock_binding
  pc_state :: clock_state
  pc_capture :: mono_time
  pc_origin :: protocol_time
  pc_generation :: nat
  pc_pulse_uncertainty :: nat
  pc_mapped :: bool

definition new_clock :: protocol_clock where
  "new_clock = \<lparr>pc_binding = \<lparr>cb_epoch = Epoch_other, cb_epoch_configured = False,
       cb_qualified = False, cb_injected = False, cb_calibration_uncertainty_ps = 0,
       cb_holdover_drift_ppb = 0, cb_holdover_limit_ns = 2000000000\<rparr>,
     pc_state = Unbound, pc_capture = Mono_time 0, pc_origin = Protocol_time 0 0,
     pc_generation = 0, pc_pulse_uncertainty = 0, pc_mapped = False\<rparr>"

definition clock_bind :: "protocol_clock \<Rightarrow> clock_binding \<Rightarrow> protocol_clock \<times> unit result" where
  "clock_bind c b =
     (if \<not> cb_epoch_configured b \<or> (\<not> cb_qualified b \<and> \<not> cb_injected b)
         \<or> cb_holdover_limit_ns b = 0 \<or> epoch_code (cb_epoch b) > epoch_code Epoch_other
      then (c, Inl (err Invalid_argument))
      else if pc_generation c = u64_max then (c, Inl (err Overflow))
      else (c\<lparr>pc_binding := b, pc_state := Acquiring, pc_mapped := False,
              pc_generation := wrap64 (pc_generation c + 1)\<rparr>, Inr ()))"

definition observe_pps :: "protocol_clock \<Rightarrow> mono_time \<Rightarrow> protocol_time option \<Rightarrow> nat
    \<Rightarrow> protocol_clock \<times> unit result" where
  "observe_pps c capture time_of_day uncertainty_ps =
     (if pc_state c = Unbound then (c, Inl (err Invalid_state))
      else case time_of_day of
        None \<Rightarrow> (if \<not> pc_mapped c then c\<lparr>pc_state := Acquiring\<rparr> else c, Inl (err Invalid_argument))
      | Some t \<Rightarrow>
          if \<not> valid_time t \<or> (pc_mapped c \<and> capture < pc_capture c)
          then (c, Inl (err Invalid_argument))
          else if pc_generation c = u64_max
            \<or> uncertainty_ps > u64_max - cb_calibration_uncertainty_ps (pc_binding c)
          then (c, Inl (err Overflow))
          else (c\<lparr>pc_capture := capture, pc_origin := t, pc_pulse_uncertainty := uncertainty_ps,
                  pc_mapped := True, pc_generation := wrap64 (pc_generation c + 1),
                  pc_state := Locked\<rparr>, Inr ()))"

definition pps_lost :: "protocol_clock \<Rightarrow> mono_time \<Rightarrow> protocol_clock \<times> unit result" where
  "pps_lost c now =
     (if \<not> pc_mapped c \<or> now < pc_capture c then (c, Inl (err Invalid_state))
      else (c\<lparr>pc_state := (if mono_ns now - mono_ns (pc_capture c)
                              \<ge> cb_holdover_limit_ns (pc_binding c) then Faulted else Holdover)\<rparr>,
            Inr ()))"

definition snapshot_state :: "protocol_clock \<Rightarrow> nat \<Rightarrow> clock_state" where
  "snapshot_state c elapsed =
     (if elapsed \<ge> cb_holdover_limit_ns (pc_binding c) then Faulted
      else if elapsed > 1000000000 \<and> pc_state c = Locked then Holdover else pc_state c)"

text \<open>\<open>snapshot\<close> stores the new state before anything can fail.\<close>

definition clock_snapshot :: "protocol_clock \<Rightarrow> mono_time \<Rightarrow> protocol_clock \<times> clock_snapshot result" where
  "clock_snapshot c now =
     (if \<not> pc_mapped c \<or> now < pc_capture c then (c, Inl (err Invalid_state))
      else let elapsed = mono_ns now - mono_ns (pc_capture c);
               c' = c\<lparr>pc_state := snapshot_state c elapsed\<rparr>
      in case add_time (pc_origin c') (from_nanoseconds elapsed) of
           Inl e \<Rightarrow> (c', Inl e)
         | Inr time \<Rightarrow>
             let whole = elapsed div 1000000; remainder = elapsed mod 1000000;
                 drift = cb_holdover_drift_ppb (pc_binding c')
             in if (whole \<noteq> 0 \<and> drift > u64_max div whole)
                  \<or> (remainder \<noteq> 0 \<and> drift > u64_max div remainder)
                then (c', Inl (err Overflow))
                else let product = wrap64 (remainder * drift);
                         extra = wrap64 (product div 1000000
                                   + (if product mod 1000000 \<noteq> 0 then 1 else 0));
                         base = wrap64 (cb_calibration_uncertainty_ps (pc_binding c')
                                  + pc_pulse_uncertainty c')
                in if wrap64 (whole * drift) > u64_max - base
                     \<or> extra > u64_max - base - wrap64 (whole * drift)
                   then (c', Inl (err Overflow))
                   else (c', Inr \<lparr>cs_state = pc_state c', cs_time = time,
                          cs_uncertainty_ps = wrap64 (base + wrap64 (whole * drift) + extra),
                          cs_mapping_generation = pc_generation c',
                          cs_calibrated = (pc_state c' = Locked),
                          cs_injected = cb_injected (pc_binding c'),
                          cs_epoch = cb_epoch (pc_binding c')\<rparr>))"

definition data_start_allowed_at :: "protocol_clock \<Rightarrow> mono_time \<Rightarrow> protocol_clock \<times> bool result" where
  "data_start_allowed_at c now =
     (case clock_snapshot c now of
        (c', Inl e) \<Rightarrow> (c', Inl e) | (c', Inr s) \<Rightarrow> (c', Inr (cs_state s = Locked)))"

definition data_continue_allowed_at :: "protocol_clock \<Rightarrow> mono_time \<Rightarrow> protocol_clock \<times> bool result" where
  "data_continue_allowed_at c now =
     (case clock_snapshot c now of
        (c', Inl e) \<Rightarrow> (c', Inl e)
      | (c', Inr s) \<Rightarrow> (c', Inr (cs_state s = Locked \<or> cs_state s = Holdover)))"

definition data_start_allowed :: "protocol_clock \<Rightarrow> bool" where
  "data_start_allowed c \<longleftrightarrow> pc_mapped c \<and> pc_state c = Locked"

definition data_continue_allowed :: "protocol_clock \<Rightarrow> bool" where
  "data_continue_allowed c \<longleftrightarrow> pc_mapped c \<and> (pc_state c = Locked \<or> pc_state c = Holdover)"

definition mapping_current :: "protocol_clock \<Rightarrow> nat \<Rightarrow> bool" where
  "mapping_current c generation \<longleftrightarrow> pc_mapped c \<and> generation = pc_generation c"

section \<open>The clock as a state machine\<close>

text \<open>Inputs are 64-bit values; a binding's fields and the arguments of an observation fit.\<close>

definition binding_fits :: "clock_binding \<Rightarrow> bool" where
  "binding_fits b \<longleftrightarrow> cb_calibration_uncertainty_ps b \<le> u64_max \<and> cb_holdover_drift_ppb b \<le> u64_max
     \<and> cb_holdover_limit_ns b \<le> u64_max"

inductive clock_step :: "protocol_clock \<Rightarrow> protocol_clock \<Rightarrow> bool" where
  bind_clock: "binding_fits b \<Longrightarrow> clock_bind c b = (c', res) \<Longrightarrow> clock_step c c'"
| pulse: "mono_ns m \<le> u64_max \<Longrightarrow> (\<forall>t. tod = Some t \<longrightarrow> pt_seconds t \<le> u64_max) \<Longrightarrow> u \<le> u64_max \<Longrightarrow>
    observe_pps c m tod u = (c', res) \<Longrightarrow> clock_step c c'"
| lost: "mono_ns m \<le> u64_max \<Longrightarrow> pps_lost c m = (c', res) \<Longrightarrow> clock_step c c'"
| look: "mono_ns m \<le> u64_max \<Longrightarrow> clock_snapshot c m = (c', out) \<Longrightarrow> clock_step c c'"

inductive clock_reachable :: "protocol_clock \<Rightarrow> bool" where
  start_clock: "clock_reachable new_clock"
| run_clock: "clock_reachable c \<Longrightarrow> clock_step c c' \<Longrightarrow> clock_reachable c'"

definition clock_inv :: "protocol_clock \<Rightarrow> bool" where
  "clock_inv c \<longleftrightarrow> pc_generation c \<le> u64_max \<and> binding_fits (pc_binding c)
     \<and> (pc_state c = Unbound \<longrightarrow> \<not> pc_mapped c)
     \<and> (pc_state c \<in> {Locked, Holdover, Faulted} \<longrightarrow> pc_mapped c)
     \<and> (pc_mapped c \<longrightarrow> time_ok (pc_origin c) \<and> mono_ns (pc_capture c) \<le> u64_max
          \<and> cb_calibration_uncertainty_ps (pc_binding c) + pc_pulse_uncertainty c \<le> u64_max)"

lemma clock_snapshot_state:
  "fst (clock_snapshot c now) = (if \<not> pc_mapped c \<or> now < pc_capture c then c
     else c\<lparr>pc_state := snapshot_state c (mono_ns now - mono_ns (pc_capture c))\<rparr>)"
  by (simp add: clock_snapshot_def Let_def split: sum.split)

lemma clock_step_inv: "clock_step c c' \<Longrightarrow> clock_inv c \<Longrightarrow> clock_inv c'"
proof (induction rule: clock_step.induct)
  case (bind_clock b c c' res)
  then show ?case using wrap64_id [of "pc_generation c + 1"]
    by (auto simp: clock_bind_def clock_inv_def split: if_splits)
next
  case (pulse m tod u c c' res)
  then show ?case using wrap64_id [of "pc_generation c + 1"]
    by (auto simp: observe_pps_def clock_inv_def time_ok_def binding_fits_def split: if_splits option.splits)
next
  case (lost m c c' res)
  then show ?case by (auto simp: pps_lost_def clock_inv_def split: if_splits)
next
  case (look m c c' out)
  then have "c' = fst (clock_snapshot c m)" by simp
  with look show ?case
    by (auto simp: clock_snapshot_state clock_inv_def snapshot_state_def split: if_splits)
qed

lemma clock_reachable_inv: "clock_reachable c \<Longrightarrow> clock_inv c"
proof (induction rule: clock_reachable.induct)
  case start_clock
  show ?case by (simp add: new_clock_def clock_inv_def binding_fits_def u64_max_def)
qed (rule clock_step_inv)

text \<open>The rounded-up drift term, computed in two halves.\<close>

lemma drift_split:
  fixes elapsed drift :: nat
  defines "x \<equiv> elapsed mod 1000000 * drift"
  shows "elapsed div 1000000 * drift + (x div 1000000 + (if x mod 1000000 \<noteq> 0 then 1 else 0))
    = (elapsed * drift + 999999) div 1000000"
proof -
  have "elapsed * drift = (elapsed div 1000000 * 1000000 + elapsed mod 1000000) * drift" by simp
  also have "\<dots> = elapsed div 1000000 * drift * 1000000 + x" unfolding x_def by algebra
  finally have "(elapsed * drift + 999999) div 1000000 = elapsed div 1000000 * drift + (x + 999999) div 1000000"
    by simp
  moreover have "(x + 999999) div 1000000 = x div 1000000 + (if x mod 1000000 \<noteq> 0 then 1 else 0)"
  proof (cases "x mod 1000000 = 0")
    case True
    then have "1000000 dvd x" by (simp add: mod_eq_0_iff_dvd)
    then obtain q where "x = 1000000 * q" by blast
    then show ?thesis by simp
  next
    case False
    have "(x mod 1000000 + 999999) div 1000000 = 1"
      using False mod_less_divisor [of 1000000 x] by (intro div_nat_eqI) simp_all
    moreover have "x + 999999 = x div 1000000 * 1000000 + (x mod 1000000 + 999999)" by simp
    then have "(x + 999999) div 1000000 = x div 1000000 + (x mod 1000000 + 999999) div 1000000"
      by (simp only:)
    ultimately show ?thesis using False by simp
  qed
  ultimately show ?thesis by simp
qed


lemma snapshot_state_cases:
  "snapshot_state c el = Locked \<Longrightarrow> el \<le> 1000000000 \<and> el < cb_holdover_limit_ns (pc_binding c)
     \<and> pc_state c = Locked"
  "snapshot_state c el = Holdover \<Longrightarrow> el < cb_holdover_limit_ns (pc_binding c)"
  by (auto simp: snapshot_state_def split: if_splits)

lemma guarded_product: "a \<noteq> 0 \<and> u64_max div a < b \<longleftrightarrow> u64_max < a * b"
  by (cases "a = 0") (auto simp: div_less_iff_less_mult mult.commute)

text \<open>The snapshot with every wrap-around resolved.\<close>

definition drift_ps :: "protocol_clock \<Rightarrow> nat \<Rightarrow> nat" where
  "drift_ps c elapsed = (elapsed * cb_holdover_drift_ppb (pc_binding c) + 999999) div 1000000"

definition uncertainty_at :: "protocol_clock \<Rightarrow> nat \<Rightarrow> nat" where
  "uncertainty_at c elapsed =
     cb_calibration_uncertainty_ps (pc_binding c) + pc_pulse_uncertainty c + drift_ps c elapsed"

lemma clock_snapshot_eq:
  assumes inv: "clock_inv c" and m: "pc_mapped c" "pc_capture c \<le> now"
  defines "el \<equiv> mono_ns now - mono_ns (pc_capture c)"
  defines "c' \<equiv> c\<lparr>pc_state := snapshot_state c el\<rparr>"
  shows "clock_snapshot c now = (case add_time (pc_origin c) (from_nanoseconds el) of
      Inl e \<Rightarrow> (c', Inl e)
    | Inr time \<Rightarrow> if u64_max < el mod 1000000 * cb_holdover_drift_ppb (pc_binding c)
          \<or> u64_max < uncertainty_at c el
        then (c', Inl (err Overflow))
        else (c', Inr \<lparr>cs_state = snapshot_state c el, cs_time = time,
               cs_uncertainty_ps = uncertainty_at c el, cs_mapping_generation = pc_generation c,
               cs_calibrated = (snapshot_state c el = Locked),
               cs_injected = cb_injected (pc_binding c), cs_epoch = cb_epoch (pc_binding c)\<rparr>))"
proof -
  have go: "\<not> (\<not> pc_mapped c \<or> now < pc_capture c)" using m by simp
  have sel: "pc_origin c' = pc_origin c" "pc_binding c' = pc_binding c" "pc_generation c' = pc_generation c"
    "pc_pulse_uncertainty c' = pc_pulse_uncertainty c" "pc_state c' = snapshot_state c el"
    by (simp_all add: c'_def)
  note open_def = clock_snapshot_def [of c now, unfolded Let_def if_not_P [OF go],
      folded el_def, folded c'_def, unfolded sel]
  show ?thesis
proof (cases "add_time (pc_origin c) (from_nanoseconds el)")
  case (Inl e)
  then show ?thesis unfolding open_def by simp
next
  case (Inr time)
  let ?d = "cb_holdover_drift_ppb (pc_binding c)" and ?w = "el div 1000000" and ?r = "el mod 1000000"
  let ?base = "cb_calibration_uncertainty_ps (pc_binding c) + pc_pulse_uncertainty c"
  let ?x = "?r * ?d div 1000000 + (if ?r * ?d mod 1000000 \<noteq> 0 then 1 else 0)"
  have base: "wrap64 ?base = ?base" "?base \<le> u64_max"
    using inv m by (simp_all add: clock_inv_def wrap64_id)
  have dr: "?w * ?d + ?x = drift_ps c el" unfolding drift_ps_def by (rule drift_split)
  have guard: "(?w \<noteq> 0 \<and> ?d > u64_max div ?w) \<or> (?r \<noteq> 0 \<and> ?d > u64_max div ?r)
      \<longleftrightarrow> u64_max < ?w * ?d \<or> u64_max < ?r * ?d"
    unfolding guarded_product by (rule refl)
  have start: "clock_snapshot c now = (if (?w \<noteq> 0 \<and> ?d > u64_max div ?w) \<or> (?r \<noteq> 0 \<and> ?d > u64_max div ?r)
      then (c', Inl (err Overflow))
      else let product = wrap64 (?r * ?d);
               extra = wrap64 (product div 1000000 + (if product mod 1000000 \<noteq> 0 then 1 else 0));
               base = wrap64 ?base
      in if wrap64 (?w * ?d) > u64_max - base \<or> extra > u64_max - base - wrap64 (?w * ?d)
         then (c', Inl (err Overflow))
         else (c', Inr \<lparr>cs_state = snapshot_state c el, cs_time = time,
                cs_uncertainty_ps = wrap64 (base + wrap64 (?w * ?d) + extra),
                cs_mapping_generation = pc_generation c,
                cs_calibrated = (snapshot_state c el = Locked),
                cs_injected = cb_injected (pc_binding c), cs_epoch = cb_epoch (pc_binding c)\<rparr>))"
    unfolding open_def Inr Let_def sum.case by (rule refl)
  show ?thesis
  proof (cases "u64_max < ?w * ?d \<or> u64_max < ?r * ?d")
    case True
    then have "u64_max < ?r * ?d \<or> u64_max < uncertainty_at c el"
      using dr by (auto simp: uncertainty_at_def)
    then show ?thesis unfolding start Inr sum.case if_P [OF True [folded guard]] by simp
  next
    case False
    then have le: "?w * ?d \<le> u64_max" "?r * ?d \<le> u64_max" by simp_all
    then have w: "wrap64 (?w * ?d) = ?w * ?d" "wrap64 (?r * ?d) = ?r * ?d" by (simp_all add: wrap64_id)
    have "?r * ?d div 1000000 \<le> u64_max div 1000000" using le(2) by (rule div_le_mono)
    then have x: "wrap64 ?x = ?x" by (intro wrap64_id) (simp add: u64_max_def)
    have sum: "u64_max - ?base < ?w * ?d \<or> u64_max - ?base - ?w * ?d < ?x \<longleftrightarrow> u64_max < uncertainty_at c el"
      using base(2) dr by (auto simp: uncertainty_at_def)
    have tot: "?base + ?w * ?d + ?x = uncertainty_at c el"
      using dr by (simp add: uncertainty_at_def)
    show ?thesis
      unfolding start Inr sum.case if_not_P [OF False [folded guard]] Let_def w x base(1) sum tot
      using False by (simp add: wrap64_id)
  qed
qed
qed

lemma clock_step_generation:
  assumes "clock_step c c'" and "clock_inv c"
  shows "pc_generation c \<le> pc_generation c'"
    and "pc_generation c' = pc_generation c \<Longrightarrow> pc_binding c' = pc_binding c
      \<and> pc_capture c' = pc_capture c \<and> pc_origin c' = pc_origin c
      \<and> pc_pulse_uncertainty c' = pc_pulse_uncertainty c \<and> pc_mapped c' = pc_mapped c"
proof -
  have w: "wrap64 (pc_generation c + 1) = pc_generation c + 1" if "pc_generation c \<noteq> u64_max"
    using that assms(2) by (intro wrap64_id) (simp add: clock_inv_def)
  have "pc_generation c \<le> pc_generation c' \<and> (pc_generation c' = pc_generation c \<longrightarrow>
      pc_binding c' = pc_binding c \<and> pc_capture c' = pc_capture c \<and> pc_origin c' = pc_origin c
      \<and> pc_pulse_uncertainty c' = pc_pulse_uncertainty c \<and> pc_mapped c' = pc_mapped c)"
    using assms(1)
  proof (cases rule: clock_step.cases)
    case (bind_clock b res)
    then show ?thesis using w by (auto simp: clock_bind_def split: if_splits)
  next
    case (pulse m tod u res)
    then show ?thesis using w by (auto simp: observe_pps_def split: if_splits option.splits)
  next
    case (lost m res)
    then show ?thesis by (auto simp: pps_lost_def split: if_splits)
  next
    case (look m out)
    then have "c' = fst (clock_snapshot c m)" by simp
    then show ?thesis by (auto simp: clock_snapshot_state)
  qed
  then show "pc_generation c \<le> pc_generation c'" "pc_generation c' = pc_generation c \<Longrightarrow>
      pc_binding c' = pc_binding c \<and> pc_capture c' = pc_capture c \<and> pc_origin c' = pc_origin c
      \<and> pc_pulse_uncertainty c' = pc_pulse_uncertainty c \<and> pc_mapped c' = pc_mapped c" by auto
qed

section \<open>Properties\<close>

definition sample_binding :: clock_binding where
  "sample_binding = \<lparr>cb_epoch = Epoch_utc, cb_epoch_configured = True, cb_qualified = True,
     cb_injected = False, cb_calibration_uncertainty_ps = 100, cb_holdover_drift_ppb = 10,
     cb_holdover_limit_ns = 2000000000\<rparr>"

definition sample_clock :: protocol_clock where
  "sample_clock = \<lparr>pc_binding = sample_binding, pc_state = Locked, pc_capture = Mono_time 1000,
     pc_origin = Protocol_time 10 0, pc_generation = 2, pc_pulse_uncertainty = 5, pc_mapped = True\<rparr>"

lemma sample_clock_reachable: "clock_reachable sample_clock"
proof -
  have b: "binding_fits sample_binding" by (simp add: binding_fits_def sample_binding_def u64_max_def)
  obtain c res where c: "clock_bind new_clock sample_binding = (c, res)" by fastforce
  have "observe_pps c (Mono_time 1000) (Some (Protocol_time 10 0)) 5 = (sample_clock, Inr ())"
    using c by (auto simp: clock_bind_def new_clock_def sample_binding_def observe_pps_def
        sample_clock_def valid_time_def time_consts)
  from run_clock [OF run_clock [OF start_clock bind_clock [OF b c]] pulse [OF _ _ _ this]]
  show ?thesis by (simp add: u64_max_def)
qed

text \<open>a snapshot is exact and conservative: its time is the origin plus the elapsed
  nanoseconds, its uncertainty is the calibration and pulse uncertainty plus the holdover
  drift rounded up, it reports locked only within a second of the last pulse and locked or
  holdover only within the holdover limit; on a mapped clock it fails only by overflow.\<close>

theorem clock_snapshot_exact:
  assumes "clock_reachable c" and "pc_mapped c" and "pc_capture c \<le> now" and "mono_ns now \<le> u64_max"
    and "el = mono_ns now - mono_ns (pc_capture c)"
  shows "case snd (clock_snapshot c now) of
      Inr s \<Rightarrow> total_ps (cs_time s) = total_ps (pc_origin c) + el * 1000
        \<and> cs_uncertainty_ps s = uncertainty_at c el
        \<and> cs_mapping_generation s = pc_generation c
        \<and> cs_state s = pc_state (fst (clock_snapshot c now))
        \<and> (cs_calibrated s \<longleftrightarrow> cs_state s = Locked)
        \<and> (cs_state s = Locked \<longrightarrow> el \<le> 1000000000)
        \<and> (cs_state s = Locked \<or> cs_state s = Holdover \<longrightarrow> el < cb_holdover_limit_ns (pc_binding c))
    | Inl e \<Rightarrow> (u64_max + 1) * picoseconds_per_second \<le> total_ps (pc_origin c) + el * 1000
        \<or> u64_max < el mod 1000000 * cb_holdover_drift_ppb (pc_binding c)
        \<or> u64_max < uncertainty_at c el"
proof -
  note inv = clock_reachable_inv [OF assms(1)]
  have o: "time_ok (pc_origin c)" using inv assms(2) by (simp add: clock_inv_def)
  have el: "el \<le> u64_max" using assms(4,5) by simp
  note d = duration_from_nanoseconds [OF el]
  have add: "add_time (pc_origin c) (from_nanoseconds el) = Inr t
      \<longleftrightarrow> time_ok t \<and> total_ps t = total_ps (pc_origin c) + el * 1000" for t
    using add_time_Inr [OF o d(1)] d(2) by simp
  have fits: "\<exists>t. add_time (pc_origin c) (from_nanoseconds el) = Inr t"
    if lt: "total_ps (pc_origin c) + el * 1000 < (u64_max + 1) * picoseconds_per_second"
  proof -
    let ?n = "total_ps (pc_origin c) + el * 1000" and ?p = picoseconds_per_second
    have "?n div ?p \<le> u64_max" using less_mult_imp_div_less [OF lt] by simp
    then show ?thesis
      using add [of "Protocol_time (?n div ?p) (?n mod ?p)"]
      by (auto simp: time_ok_def valid_time_def total_ps_def picoseconds_per_second_def)
  qed
  note eq = clock_snapshot_eq [OF inv assms(2,3), folded assms(5)]
  show ?thesis
  proof (cases "add_time (pc_origin c) (from_nanoseconds el)")
    case (Inl e)
    then show ?thesis using eq fits by (auto simp: not_le)
  next
    case (Inr t)
    then show ?thesis using eq add [of t] snapshot_state_cases [of c el] by auto
  qed
qed

theorem clock_snapshot_exact_witness:
  "case snd (clock_snapshot sample_clock (Mono_time 3001000)) of
     Inr s \<Rightarrow> total_ps (cs_time s) = 10003000000000 \<and> cs_uncertainty_ps s = 135 | Inl e \<Rightarrow> False"
proof -
  have s: "pc_mapped sample_clock" "pc_capture sample_clock \<le> Mono_time 3001000"
    "mono_ns (Mono_time 3001000) \<le> u64_max"
    "3000000 = mono_ns (Mono_time 3001000) - mono_ns (pc_capture sample_clock)"
    and v: "total_ps (pc_origin sample_clock) = 10000000000000"
      "uncertainty_at sample_clock 3000000 = 135" "cb_holdover_drift_ppb (pc_binding sample_clock) = 10"
    by (simp_all add: sample_clock_def less_eq_mono_time_def u64_max_def total_ps_def
        picoseconds_per_second_def uncertainty_at_def drift_ps_def sample_binding_def)
  have c: "\<not> (u64_max + 1) * picoseconds_per_second \<le> 10000000000000 + 3000000 * 1000"
    "\<not> u64_max < 3000000 mod 1000000 * 10" "\<not> u64_max < 135"
    by (simp_all add: time_consts)
  show ?thesis
    using clock_snapshot_exact [OF sample_clock_reachable s] c unfolding v
    by (cases "snd (clock_snapshot sample_clock (Mono_time 3001000))") simp_all
qed

text \<open>The mapping generation identifies the mapping: along any run of the clock it never
  decreases, and as long as a generation is current the binding and the pulse that define the
  mapping have not changed, so a plan made under it still refers to the same time.\<close>

theorem mapping_generation_stable:
  assumes "clock_reachable c" and "clock_step\<^sup>*\<^sup>* c c'"
    and "mapping_current c g" and "mapping_current c' g"
  shows "pc_binding c' = pc_binding c \<and> pc_capture c' = pc_capture c \<and> pc_origin c' = pc_origin c
    \<and> pc_pulse_uncertainty c' = pc_pulse_uncertainty c"
proof -
  have "clock_inv c' \<and> pc_generation c \<le> pc_generation c' \<and> (pc_generation c' = pc_generation c \<longrightarrow>
      pc_binding c' = pc_binding c \<and> pc_capture c' = pc_capture c \<and> pc_origin c' = pc_origin c
      \<and> pc_pulse_uncertainty c' = pc_pulse_uncertainty c)"
    using assms(2)
  proof (induction rule: rtranclp_induct)
    case base
    then show ?case using clock_reachable_inv [OF assms(1)] by simp
  next
    case (step d e)
    then show ?case
      using clock_step_inv [OF step(2)] clock_step_generation [OF step(2)] by auto
  qed
  then show ?thesis using assms(3,4) by (simp add: mapping_current_def)
qed


theorem mapping_generation_stable_witness:
  "pc_origin (fst (pps_lost sample_clock (Mono_time 2000))) = pc_origin sample_clock
   \<and> mapping_current (fst (pps_lost sample_clock (Mono_time 2000))) 2"
proof -
  let ?c = "fst (pps_lost sample_clock (Mono_time 2000))"
  have "clock_step sample_clock ?c"
    using clock_step.lost [of "Mono_time 2000" sample_clock ?c "snd (pps_lost sample_clock (Mono_time 2000))"]
    by (simp add: u64_max_def)
  moreover have "mapping_current sample_clock 2" "mapping_current ?c 2"
    by (simp_all add: mapping_current_def sample_clock_def pps_lost_def less_mono_time_def)
  ultimately show ?thesis
    using mapping_generation_stable [OF sample_clock_reachable, of ?c 2] by auto
qed

end
