(* ===== verification/Scheduling.thy ===== *)
theory Scheduling
  imports Timeline Clock
begin

text \<open>
  Execution windows and boundary selection
  (\<^verbatim>\<open>include/vita/runtime/timing/scheduling.hpp\<close>): which sample boundary a timed
  command takes effect at. The specification of \<open>choose_boundary\<close> is written in exact
  picoseconds and shares nothing with the loop: which requests are served (\<open>timing_request_ok\<close>),
  which boundaries a served request may take (\<open>boundary_admissible\<close>), and which of two is preferred
  (\<open>boundary_preferred\<close>: the closer to the requested time, the earlier among equals, or just the
  earlier one when no time was requested). The loop invariant is stated over its own tests
  (\<open>eligible\<close>) and then shown to agree with the specification.
\<close>

record timing_capabilities =
  tc_device_early_ps :: nat
  tc_device_late_ps :: nat
  tc_application_early_ps :: nat
  tc_application_late_ps :: nat
  tc_preparation_lead_ns :: nat
  tc_horizon_ns :: nat
  tc_qualified :: bool
  tc_injected :: bool

definition deterministic_capabilities :: timing_capabilities where
  "deterministic_capabilities = \<lparr>tc_device_early_ps = 1000000, tc_device_late_ps = 1000000,
     tc_application_early_ps = 1000000000, tc_application_late_ps = 1000000000,
     tc_preparation_lead_ns = 1000000, tc_horizon_ns = 10000000000, tc_qualified = False,
     tc_injected = True\<rparr>"

record execution_window =
  ew_earliest :: protocol_time
  ew_latest :: protocol_time

record boundary =
  bd_time :: protocol_time
  bd_sample_ordinal :: nat
  bd_mapping_generation :: nat
  bd_committed :: bool
  bd_backend_ready :: bool
  bd_quantization_uncertainty_ps :: nat

definition make_boundary :: "timeline \<Rightarrow> nat \<Rightarrow> bool \<Rightarrow> boundary" where
  "make_boundary line mapping_generation backend_ready =
     \<lparr>bd_time = ex_time (tl_current line), bd_sample_ordinal = tl_ordinal line,
      bd_mapping_generation = mapping_generation, bd_committed = False,
      bd_backend_ready = backend_ready,
      bd_quantization_uncertainty_ps = (if ex_numerator (tl_current line) \<noteq> 0 then 1 else 0)\<rparr>"

definition execution_window :: "nat \<Rightarrow> protocol_time \<Rightarrow> timing_capabilities \<Rightarrow> execution_window result" where
  "execution_window mode requested cap =
     (if mode < 1 \<or> mode > 4 \<or> \<not> valid_time requested then Inl (err Invalid_argument)
      else and_then
        (if mode = 2
         then if tc_application_late_ps cap > u64_max - tc_device_late_ps cap then Inl (err Overflow)
              else Inr (tc_device_early_ps cap, wrap64 (tc_device_late_ps cap + tc_application_late_ps cap))
         else if mode = 3
         then if tc_application_early_ps cap > u64_max - tc_device_early_ps cap then Inl (err Overflow)
              else Inr (wrap64 (tc_device_early_ps cap + tc_application_early_ps cap), tc_device_late_ps cap)
         else if mode = 4 then Inr (tc_application_early_ps cap, tc_application_late_ps cap)
         else Inr (tc_device_early_ps cap, tc_device_late_ps cap))
        (\<lambda>(early, late).
           and_then (subtract_time requested (from_picoseconds early)) (\<lambda>first.
           and_then (add_time requested (from_picoseconds late)) (\<lambda>latest.
             Inr \<lparr>ew_earliest = first, ew_latest = latest\<rparr>))))"

definition effect_interval_allowed ::
  "nat \<Rightarrow> protocol_time \<Rightarrow> protocol_time \<Rightarrow> protocol_time \<Rightarrow> timing_capabilities \<Rightarrow> bool result" where
  "effect_interval_allowed mode requested first latest cap =
     (if mode > 4 \<or> \<not> valid_time first \<or> \<not> valid_time latest \<or> latest < first
      then Inl (err Invalid_argument)
      else if mode = 0 then Inr True
      else and_then (execution_window mode requested cap) (\<lambda>w.
        Inr (first \<ge> ew_earliest w \<and> latest \<le> ew_latest w)))"

text \<open>What the selection loop fixes before it starts.\<close>

record selection =
  sel_mode :: nat
  sel_requested :: protocol_time
  sel_generation :: nat
  sel_uncertainty_ps :: nat
  sel_ready :: protocol_time
  sel_horizon :: protocol_time
  sel_window :: execution_window

definition skip_boundary :: "selection \<Rightarrow> boundary \<Rightarrow> bool" where
  "skip_boundary s b \<longleftrightarrow> \<not> valid_time (bd_time b) \<or> bd_committed b \<or> \<not> bd_backend_ready b
     \<or> bd_mapping_generation b \<noteq> sel_generation s \<or> bd_time b < sel_ready s
     \<or> (sel_mode s \<noteq> 0 \<and> bd_time b > sel_horizon s)"

definition outside_window :: "selection \<Rightarrow> boundary \<Rightarrow> bool" where
  "outside_window s b =
     (let u = from_picoseconds (wrap64 (sel_uncertainty_ps s + bd_quantization_uncertainty_ps b))
      in case (subtract_time (bd_time b) u, add_time (bd_time b) u) of
           (Inr first, Inr latest) \<Rightarrow> first < ew_earliest (sel_window s) \<or> latest > ew_latest (sel_window s)
         | _ \<Rightarrow> True)"

fun select_loop :: "selection \<Rightarrow> (boundary \<times> duration) option \<Rightarrow> boundary list
    \<Rightarrow> (boundary \<times> duration) option result" where
  "select_loop s best [] = Inr best"
| "select_loop s best (b # bs) =
     (if skip_boundary s b then select_loop s best bs
      else if sel_mode s \<noteq> 0
      then if bd_quantization_uncertainty_ps b > u64_max - sel_uncertainty_ps s
           then Inl (err Overflow)
           else if outside_window s b then select_loop s best bs
           else (case (if bd_time b \<ge> sel_requested s then difference (bd_time b) (sel_requested s)
                       else difference (sel_requested s) (bd_time b)) of
                   Inl e \<Rightarrow> Inl e
                 | Inr d \<Rightarrow>
                     select_loop s
                       (case best of None \<Rightarrow> Some (b, d)
                        | Some (sb, sd) \<Rightarrow>
                            if d < sd \<or> (d = sd \<and> bd_time b < bd_time sb) then Some (b, d) else best)
                       bs)
      else select_loop s
             (case best of None \<Rightarrow> Some (b, Duration 0 0)
              | Some (sb, sd) \<Rightarrow> if bd_time b < bd_time sb then Some (b, sd) else best) bs)"

definition choose_boundary :: "nat \<Rightarrow> protocol_time \<Rightarrow> clock_snapshot \<Rightarrow> boundary list
    \<Rightarrow> timing_capabilities \<Rightarrow> boundary result" where
  "choose_boundary mode requested clock boundaries cap =
     (if mode > 4 \<or> \<not> valid_time (cs_time clock) then Inl (err Invalid_argument)
      else if length boundaries > 128 then Inl (err Resource_limit)
      else if mode \<noteq> 0 \<and> ((\<not> tc_qualified cap \<and> \<not> tc_injected cap)
                \<or> (cs_state clock \<noteq> Locked \<and> cs_state clock \<noteq> Holdover))
      then Inl (err Invalid_state)
      else
        and_then (add_time (cs_time clock)
          (from_nanoseconds (if mode \<noteq> 0 then tc_preparation_lead_ns cap else 0))) (\<lambda>ready.
        and_then (if mode \<noteq> 0 then add_time (cs_time clock) (from_nanoseconds (tc_horizon_ns cap))
                  else Inr (cs_time clock)) (\<lambda>horizon.
        if mode \<noteq> 0 \<and> (\<not> valid_time requested \<or> requested > horizon)
        then Inl (err Invalid_argument)
        else
          and_then (if mode \<noteq> 0 then execution_window mode requested cap
                    else Inr \<lparr>ew_earliest = Protocol_time 0 0, ew_latest = Protocol_time 0 0\<rparr>) (\<lambda>window.
          and_then (select_loop \<lparr>sel_mode = mode, sel_requested = requested,
                      sel_generation = cs_mapping_generation clock,
                      sel_uncertainty_ps = cs_uncertainty_ps clock, sel_ready = ready,
                      sel_horizon = horizon, sel_window = window\<rparr> None boundaries) (\<lambda>selected.
            case selected of
              None \<Rightarrow> Inl (err Invalid_state)
            | Some (b, d) \<Rightarrow> Inr b)))))"

section \<open>The choice is the best eligible boundary\<close>

definition eligible :: "selection \<Rightarrow> boundary \<Rightarrow> bool" where
  "eligible s b \<longleftrightarrow> \<not> skip_boundary s b \<and> (sel_mode s \<noteq> 0 \<longrightarrow> \<not> outside_window s b)"

definition distance_to :: "selection \<Rightarrow> boundary \<Rightarrow> duration" where
  "distance_to s b =
     (if sel_mode s = 0 then Duration 0 0
      else case (if bd_time b \<ge> sel_requested s then difference (bd_time b) (sel_requested s)
                 else difference (sel_requested s) (bd_time b)) of
             Inl e \<Rightarrow> Duration 0 0 | Inr d \<Rightarrow> d)"

definition at_least_as_good :: "selection \<Rightarrow> boundary \<Rightarrow> boundary \<Rightarrow> bool" where
  "at_least_as_good s a b \<longleftrightarrow> distance_to s a < distance_to s b
     \<or> distance_to s a = distance_to s b \<and> bd_time a \<le> bd_time b"

definition best_among :: "selection \<Rightarrow> boundary set \<Rightarrow> (boundary \<times> duration) option \<Rightarrow> bool" where
  "best_among s B best \<longleftrightarrow> (case best of
      None \<Rightarrow> (\<forall>b \<in> B. \<not> eligible s b)
    | Some (a, d) \<Rightarrow> a \<in> B \<and> eligible s a \<and> d = distance_to s a
        \<and> (\<forall>b \<in> B. eligible s b \<longrightarrow> at_least_as_good s a b))"

lemma best_among_skip: "best_among s B best \<Longrightarrow> \<not> eligible s b \<Longrightarrow> best_among s (insert b B) best"
  by (auto simp: best_among_def split: option.splits)

lemma best_among_add:
  assumes "best_among s B best" and "eligible s b"
  shows "best_among s (insert b B) (case best of None \<Rightarrow> Some (b, distance_to s b)
    | Some (a, d) \<Rightarrow> if distance_to s b < d \<or> (distance_to s b = d \<and> bd_time b < bd_time a)
        then Some (b, distance_to s b) else best)"
proof (cases best)
  case None
  then show ?thesis using assms by (auto simp: best_among_def at_least_as_good_def)
next
  case (Some p)
  obtain a d where p: "p = (a, d)" by fastforce
  have a: "a \<in> B" "eligible s a" "d = distance_to s a" "\<forall>x \<in> B. eligible s x \<longrightarrow> at_least_as_good s a x"
    using assms(1) Some p by (auto simp: best_among_def)
  show ?thesis
  proof (cases "distance_to s b < d \<or> (distance_to s b = d \<and> bd_time b < bd_time a)")
    case True
    then have "at_least_as_good s b x" if "at_least_as_good s a x" for x
      using that a(3) by (auto simp: at_least_as_good_def)
    then show ?thesis using True a assms(2) Some p
      by (auto simp: best_among_def at_least_as_good_def)
  next
    case False
    then have "at_least_as_good s a b" using a(3) by (auto simp: at_least_as_good_def)
    then show ?thesis using False a Some p by (auto simp: best_among_def)
  qed
qed

lemma select_loop_best:
  assumes "select_loop s best bs = Inr out" and "best_among s B best"
  shows "best_among s (B \<union> set bs) out"
  using assms
proof (induction bs arbitrary: best B)
  case (Cons b bs)
  let ?diff = "if bd_time b \<ge> sel_requested s then difference (bd_time b) (sel_requested s)
      else difference (sel_requested s) (bd_time b)"
  have step: "best_among s (B \<union> set (b # bs)) out"
    if "select_loop s best' bs = Inr out" "best_among s (insert b B) best'" for best'
    using Cons.IH [OF that] by simp
  consider (skip) "\<not> eligible s b" "select_loop s best bs = Inr out"
    | (timed) d where "eligible s b" "sel_mode s \<noteq> 0" "?diff = Inr d"
        "select_loop s (case best of None \<Rightarrow> Some (b, d) | Some (sb, sd) \<Rightarrow>
           if d < sd \<or> (d = sd \<and> bd_time b < bd_time sb) then Some (b, d) else best) bs = Inr out"
    | (plain) "eligible s b" "sel_mode s = 0"
        "select_loop s (case best of None \<Rightarrow> Some (b, Duration 0 0)
           | Some (sb, sd) \<Rightarrow> if bd_time b < bd_time sb then Some (b, sd) else best) bs = Inr out"
    using Cons.prems(1)
    by (cases "skip_boundary s b"; cases "sel_mode s \<noteq> 0"; cases "outside_window s b"; cases ?diff)
       (simp_all add: eligible_def)
  then show ?case
  proof cases
    case skip
    then show ?thesis using step best_among_skip [OF Cons.prems(2)] by blast
  next
    case (timed d)
    then have d: "distance_to s b = d" by (simp add: distance_to_def)
    show ?thesis
      by (rule step [OF timed(4) best_among_add [OF Cons.prems(2) timed(1), unfolded d]])
  next
    case plain
    have z: "distance_to s x = Duration 0 0" for x using plain(2) by (simp add: distance_to_def)
    have "sd = Duration 0 0" if "best = Some (sb, sd)" for sb sd
      using that Cons.prems(2) z by (simp add: best_among_def)
    then have "(case best of None \<Rightarrow> Some (b, Duration 0 0)
           | Some (sb, sd) \<Rightarrow> if bd_time b < bd_time sb then Some (b, sd) else best)
        = (case best of None \<Rightarrow> Some (b, distance_to s b) | Some (a, d) \<Rightarrow>
           if distance_to s b < d \<or> (distance_to s b = d \<and> bd_time b < bd_time a)
           then Some (b, distance_to s b) else best)"
      using z by (auto split: option.split)
    then show ?thesis using step best_among_add [OF Cons.prems(2) plain(1)] plain(3) by simp
  qed
qed simp

lemma select_loop_Inr:
  assumes "sel_mode s \<noteq> 0 \<longrightarrow> time_ok (sel_requested s)"
    and "\<forall>b \<in> set bs. pt_seconds (bd_time b) \<le> u64_max"
  shows "(\<exists>out. select_loop s best bs = Inr out) \<longleftrightarrow> (\<forall>b \<in> set bs. \<not> skip_boundary s b \<and> sel_mode s \<noteq> 0
    \<longrightarrow> bd_quantization_uncertainty_ps b \<le> u64_max - sel_uncertainty_ps s)"
  using assms(2)
proof (induction bs arbitrary: best)
  case (Cons b bs)
  let ?diff = "if bd_time b \<ge> sel_requested s then difference (bd_time b) (sel_requested s)
      else difference (sel_requested s) (bd_time b)"
  have diff: "\<exists>d. ?diff = Inr d" if m: "sel_mode s \<noteq> 0" and v: "valid_time (bd_time b)"
  proof -
    have ok: "time_ok (bd_time b)" "time_ok (sel_requested s)"
      using m v assms(1) Cons.prems by (auto simp: time_ok_def)
    have "\<exists>d. difference x y = Inr d" if xy: "time_ok x" "time_ok y" "y \<le> x" for x y
      using time_arithmetic_difference [OF xy(1,2)] xy(3) by blast
    then show ?thesis using ok by simp
  qed
  have ih: "(\<exists>out. select_loop s best' bs = Inr out) \<longleftrightarrow> (\<forall>b \<in> set bs. \<not> skip_boundary s b \<and> sel_mode s \<noteq> 0
    \<longrightarrow> bd_quantization_uncertainty_ps b \<le> u64_max - sel_uncertainty_ps s)" for best'
    using Cons by simp
  show ?case
  proof (cases "skip_boundary s b \<or> sel_mode s = 0 \<or> outside_window s b")
    case True
    then show ?thesis using ih by (auto simp: not_less)
  next
    case False
    then obtain d where "?diff = Inr d" using diff by (auto simp: skip_boundary_def)
    then show ?thesis using ih False by (auto simp: not_less)
  qed
qed simp

section \<open>The specification in exact picoseconds\<close>

text \<open>How much earlier and later than requested an effect may be, by timing mode.\<close>

definition early_tolerance :: "nat \<Rightarrow> timing_capabilities \<Rightarrow> nat" where
  "early_tolerance mode cap = (if mode \<le> 3 then tc_device_early_ps cap else 0)
     + (if mode \<in> {3, 4} then tc_application_early_ps cap else 0)"

definition late_tolerance :: "nat \<Rightarrow> timing_capabilities \<Rightarrow> nat" where
  "late_tolerance mode cap = (if mode \<le> 3 then tc_device_late_ps cap else 0)
     + (if mode \<in> {2, 4} then tc_application_late_ps cap else 0)"

definition ps_limit :: nat where
  "ps_limit = (u64_max + 1) * picoseconds_per_second"

definition boundary_uncertainty :: "clock_snapshot \<Rightarrow> boundary \<Rightarrow> nat" where
  "boundary_uncertainty clock b = cs_uncertainty_ps clock + bd_quantization_uncertainty_ps b"

text \<open>A boundary that can still be used: it is free, ready, belongs to the clock's mapping, and lies
  between the preparation lead and the horizon (not in the past, when no time is requested).\<close>

definition boundary_usable :: "nat \<Rightarrow> clock_snapshot \<Rightarrow> timing_capabilities \<Rightarrow> boundary \<Rightarrow> bool" where
  "boundary_usable mode clock cap b \<longleftrightarrow> valid_time (bd_time b) \<and> \<not> bd_committed b \<and> bd_backend_ready b
     \<and> bd_mapping_generation b = cs_mapping_generation clock
     \<and> (if mode = 0 then total_ps (cs_time clock) \<le> total_ps (bd_time b)
        else total_ps (cs_time clock) + tc_preparation_lead_ns cap * 1000 \<le> total_ps (bd_time b)
          \<and> total_ps (bd_time b) \<le> total_ps (cs_time clock) + tc_horizon_ns cap * 1000)"

text \<open>For a timed request the whole interval of uncertainty around it must be tolerable.\<close>

definition boundary_admissible ::
  "nat \<Rightarrow> protocol_time \<Rightarrow> clock_snapshot \<Rightarrow> timing_capabilities \<Rightarrow> boundary \<Rightarrow> bool" where
  "boundary_admissible mode requested clock cap b \<longleftrightarrow> boundary_usable mode clock cap b
     \<and> (mode \<noteq> 0 \<longrightarrow>
          total_ps requested + boundary_uncertainty clock b \<le> total_ps (bd_time b) + early_tolerance mode cap
          \<and> total_ps (bd_time b) + boundary_uncertainty clock b \<le> total_ps requested + late_tolerance mode cap)"

definition gap_ps :: "protocol_time \<Rightarrow> protocol_time \<Rightarrow> nat" where
  "gap_ps a b = (if total_ps a \<le> total_ps b then total_ps b - total_ps a else total_ps a - total_ps b)"

definition boundary_preferred :: "nat \<Rightarrow> protocol_time \<Rightarrow> boundary \<Rightarrow> boundary \<Rightarrow> bool" where
  "boundary_preferred mode requested a b \<longleftrightarrow>
     (if mode = 0 then total_ps (bd_time a) \<le> total_ps (bd_time b)
      else gap_ps requested (bd_time a) < gap_ps requested (bd_time b)
        \<or> gap_ps requested (bd_time a) = gap_ps requested (bd_time b)
          \<and> total_ps (bd_time a) \<le> total_ps (bd_time b))"

text \<open>The requests that are served: a known mode, at most 128 boundaries and a valid clock reading; for
  a timed request a device that supports timing and a clock that is locked or held, a valid requested
  time within the horizon, and no sum that leaves its 64-bit field.\<close>

definition timing_request_ok :: "nat \<Rightarrow> protocol_time \<Rightarrow> clock_snapshot \<Rightarrow> boundary list \<Rightarrow> timing_capabilities \<Rightarrow> bool" where
  "timing_request_ok mode requested clock boundaries cap \<longleftrightarrow> mode \<le> 4 \<and> length boundaries \<le> 128
     \<and> valid_time (cs_time clock)
     \<and> (mode \<noteq> 0 \<longrightarrow> (tc_qualified cap \<or> tc_injected cap) \<and> cs_state clock \<in> {Locked, Holdover}
          \<and> valid_time requested
          \<and> total_ps requested \<le> total_ps (cs_time clock) + tc_horizon_ns cap * 1000
          \<and> total_ps (cs_time clock) + tc_preparation_lead_ns cap * 1000 < ps_limit
          \<and> total_ps (cs_time clock) + tc_horizon_ns cap * 1000 < ps_limit
          \<and> early_tolerance mode cap \<le> u64_max \<and> early_tolerance mode cap \<le> total_ps requested
          \<and> late_tolerance mode cap \<le> u64_max \<and> total_ps requested + late_tolerance mode cap < ps_limit
          \<and> (\<forall>b \<in> set boundaries. boundary_usable mode clock cap b \<longrightarrow> boundary_uncertainty clock b \<le> u64_max))"

text \<open>What the types of the source say: every field is an unsigned 64-bit number.\<close>

definition timing_fields_fit :: "protocol_time \<Rightarrow> clock_snapshot \<Rightarrow> boundary list \<Rightarrow> timing_capabilities \<Rightarrow> bool" where
  "timing_fields_fit requested clock boundaries cap \<longleftrightarrow>
     list_all (\<lambda>n. n \<le> u64_max) [pt_seconds requested, pt_seconds (cs_time clock), cs_uncertainty_ps clock,
       tc_device_early_ps cap, tc_device_late_ps cap, tc_application_early_ps cap, tc_application_late_ps cap,
       tc_preparation_lead_ns cap, tc_horizon_ns cap]
     \<and> list_all (\<lambda>b. pt_seconds (bd_time b) \<le> u64_max) boundaries"

section \<open>The loop's tests agree with the specification\<close>

text \<open>The set-up of the loop for a request, when its guards pass.\<close>

definition selection_for :: "nat \<Rightarrow> protocol_time \<Rightarrow> clock_snapshot \<Rightarrow> timing_capabilities \<Rightarrow> selection \<Rightarrow> bool" where
  "selection_for mode requested clock cap s \<longleftrightarrow> sel_mode s = mode \<and> sel_requested s = requested
     \<and> sel_generation s = cs_mapping_generation clock \<and> sel_uncertainty_ps s = cs_uncertainty_ps clock
     \<and> add_time (cs_time clock) (from_nanoseconds (if mode \<noteq> 0 then tc_preparation_lead_ns cap else 0))
         = Inr (sel_ready s)
     \<and> (mode \<noteq> 0 \<longrightarrow> add_time (cs_time clock) (from_nanoseconds (tc_horizon_ns cap)) = Inr (sel_horizon s)
          \<and> execution_window mode requested cap = Inr (sel_window s))"

lemma fields_fitD:
  assumes "timing_fields_fit requested clock boundaries cap"
  shows "valid_time requested \<Longrightarrow> time_ok requested" "valid_time (cs_time clock) \<Longrightarrow> time_ok (cs_time clock)"
    "\<forall>b \<in> set boundaries. pt_seconds (bd_time b) \<le> u64_max"
    "cs_uncertainty_ps clock \<le> u64_max" "tc_preparation_lead_ns cap \<le> u64_max" "tc_horizon_ns cap \<le> u64_max"
    "tc_device_early_ps cap \<le> u64_max" "tc_device_late_ps cap \<le> u64_max"
    "tc_application_early_ps cap \<le> u64_max" "tc_application_late_ps cap \<le> u64_max"
  using assms by (simp_all add: timing_fields_fit_def time_ok_def list_all_iff)

text \<open>Adding a duration succeeds exactly below the limit, and then adds the picoseconds.\<close>

lemma add_ns_exact:
  assumes "time_ok t" "n \<le> u64_max"
  shows "add_time t (from_nanoseconds n) = Inr r \<longleftrightarrow> time_ok r \<and> total_ps r = total_ps t + n * 1000"
    and "total_ps t + n * 1000 < ps_limit \<longleftrightarrow> (\<exists>r. add_time t (from_nanoseconds n) = Inr r)"
proof -
  note d = duration_from_nanoseconds [OF assms(2)]
  show eq: "add_time t (from_nanoseconds n) = Inr r \<longleftrightarrow> time_ok r \<and> total_ps r = total_ps t + n * 1000" for r
    using add_time_Inr [OF assms(1) d(1)] d(2) by simp
  show "total_ps t + n * 1000 < ps_limit \<longleftrightarrow> (\<exists>r. add_time t (from_nanoseconds n) = Inr r)"
    using representable [of "total_ps t + n * 1000"] total_bound unfolding eq ps_limit_def by metis
qed

lemma window_exact:
  assumes "timing_fields_fit requested clock bs cap" "time_ok requested" "1 \<le> mode" "mode \<le> 4"
  shows "execution_window mode requested cap = Inr w \<longleftrightarrow>
    early_tolerance mode cap \<le> u64_max \<and> late_tolerance mode cap \<le> u64_max
    \<and> time_ok (ew_earliest w) \<and> total_ps (ew_earliest w) + early_tolerance mode cap = total_ps requested
    \<and> time_ok (ew_latest w) \<and> total_ps (ew_latest w) = total_ps requested + late_tolerance mode cap"
proof -
  let ?e = "early_tolerance mode cap" and ?l = "late_tolerance mode cap"
  note fit = fields_fitD(7-10) [OF assms(1)]
  have v: "valid_time requested" using assms(2) by (simp add: time_ok_def)
  have "mode = 1 \<or> mode = 2 \<or> mode = 3 \<or> mode = 4" using assms(3,4) by linarith
  then have eq: "execution_window mode requested cap =
      (if ?e \<le> u64_max \<and> ?l \<le> u64_max
       then and_then (subtract_time requested (from_picoseconds ?e)) (\<lambda>first.
         and_then (add_time requested (from_picoseconds ?l)) (\<lambda>latest.
           Inr \<lparr>ew_earliest = first, ew_latest = latest\<rparr>))
       else Inl (err Overflow))"
    using v fit by (elim disjE) (auto simp: execution_window_def early_tolerance_def late_tolerance_def wrap64_id)
  show ?thesis
  proof (cases "?e \<le> u64_max \<and> ?l \<le> u64_max")
    case True
    then have de: "duration_ok (from_picoseconds ?e)" "duration_ps (from_picoseconds ?e) = ?e"
      and dl: "duration_ok (from_picoseconds ?l)" "duration_ps (from_picoseconds ?l) = ?l"
      using duration_from_picoseconds by blast+
    have "execution_window mode requested cap = Inr w \<longleftrightarrow>
        subtract_time requested (from_picoseconds ?e) = Inr (ew_earliest w)
        \<and> add_time requested (from_picoseconds ?l) = Inr (ew_latest w)"
      unfolding eq using True by (cases w) (auto simp: and_then_eq_Inr)
    then show ?thesis
      using True subtract_time_Inr [OF assms(2) de(1)] add_time_Inr [OF assms(2) dl(1)] de(2) dl(2) by simp
  qed (use eq in auto)
qed

lemma usable_skip:
  assumes "selection_for mode requested clock cap s" "timing_fields_fit requested clock bs cap"
    and "valid_time (cs_time clock)"
  shows "boundary_usable mode clock cap b \<longleftrightarrow> \<not> skip_boundary s b"
proof (cases "valid_time (bd_time b)")
  case v: True
  note now = fields_fitD(2) [OF assms(2,3)] and fit = fields_fitD(5,6) [OF assms(2)]
  have ready: "time_ok (sel_ready s)"
    "total_ps (sel_ready s) = total_ps (cs_time clock) + (if mode \<noteq> 0 then tc_preparation_lead_ns cap else 0) * 1000"
  proof -
    let ?n = "if mode \<noteq> 0 then tc_preparation_lead_ns cap else 0"
    have "?n \<le> u64_max" "add_time (cs_time clock) (from_nanoseconds ?n) = Inr (sel_ready s)"
      using assms(1) fit(1) by (auto simp: selection_for_def)
    then show "time_ok (sel_ready s)" "total_ps (sel_ready s) = total_ps (cs_time clock) + ?n * 1000"
      using add_ns_exact(1) [OF now] by blast+
  qed
  have horizon: "time_ok (sel_horizon s)"
    "total_ps (sel_horizon s) = total_ps (cs_time clock) + tc_horizon_ns cap * 1000" if "mode \<noteq> 0"
    using assms(1) that add_ns_exact(1) [OF now fit(2), THEN iffD1] unfolding selection_for_def by blast+
  have r: "bd_time b < sel_ready s \<longleftrightarrow> total_ps (bd_time b) < total_ps (sel_ready s)"
    using time_less_total [OF v] ready(1) by (simp add: time_ok_def)
  have h: "mode \<noteq> 0 \<Longrightarrow> sel_horizon s < bd_time b \<longleftrightarrow> total_ps (sel_horizon s) < total_ps (bd_time b)"
    using time_less_total [OF _ v] horizon(1) by (simp add: time_ok_def)
  show ?thesis
    using assms(1) v r h ready(2) horizon(2)
    by (cases "mode = 0") (auto simp: boundary_usable_def skip_boundary_def selection_for_def not_less)
qed (simp add: boundary_usable_def skip_boundary_def)

lemma admissible_eligible:
  assumes "selection_for mode requested clock cap s" "timing_fields_fit requested clock bs cap"
    and "valid_time (cs_time clock)" "mode \<le> 4" "mode \<noteq> 0 \<longrightarrow> valid_time requested" "b \<in> set bs"
    and "mode \<noteq> 0 \<Longrightarrow> boundary_usable mode clock cap b \<Longrightarrow> boundary_uncertainty clock b \<le> u64_max"
  shows "boundary_admissible mode requested clock cap b \<longleftrightarrow> eligible s b"
proof (cases "mode \<noteq> 0 \<and> boundary_usable mode clock cap b")
  case True
  let ?u = "boundary_uncertainty clock b" and ?t = "total_ps (bd_time b)" and ?w = "sel_window s"
  have t: "time_ok (bd_time b)" "time_ok requested"
    using True assms(5,6) fields_fitD(1,3) [OF assms(2)] by (auto simp: boundary_usable_def time_ok_def)
  have u: "?u \<le> u64_max" using assms(7) True by simp
  note d = duration_from_picoseconds [OF u]
  have w: "time_ok (ew_earliest ?w)" "total_ps (ew_earliest ?w) + early_tolerance mode cap = total_ps requested"
    "time_ok (ew_latest ?w)" "total_ps (ew_latest ?w) = total_ps requested + late_tolerance mode cap"
    using window_exact [OF assms(2) t(2) _ assms(4), of ?w] True assms(1) by (auto simp: selection_for_def)
  have m: "sel_mode s = mode" "sel_uncertainty_ps s = cs_uncertainty_ps clock"
    using assms(1) by (simp_all add: selection_for_def)
  have s: "subtract_time (bd_time b) (from_picoseconds ?u) = Inr lo \<longleftrightarrow> time_ok lo \<and> total_ps lo + ?u = ?t"
    and a: "add_time (bd_time b) (from_picoseconds ?u) = Inr hi \<longleftrightarrow> time_ok hi \<and> total_ps hi = ?t + ?u" for lo hi
    using subtract_time_Inr [OF t(1) d(1)] add_time_Inr [OF t(1) d(1)] d(2) by simp_all
  have le: "time_ok x \<Longrightarrow> time_ok y \<Longrightarrow> x \<le> y \<longleftrightarrow> total_ps x \<le> total_ps y" for x y
    using time_le_total by (simp add: time_ok_def)
  have "outside_window s b \<longleftrightarrow> \<not> (\<exists>lo hi. subtract_time (bd_time b) (from_picoseconds ?u) = Inr lo
      \<and> add_time (bd_time b) (from_picoseconds ?u) = Inr hi \<and> ew_earliest ?w \<le> lo \<and> hi \<le> ew_latest ?w)"
    using u by (auto simp: outside_window_def m boundary_uncertainty_def wrap64_id Let_def not_le split: sum.splits)
  also have "\<dots> \<longleftrightarrow> \<not> (\<exists>lo hi. time_ok lo \<and> total_ps lo + ?u = ?t \<and> time_ok hi \<and> total_ps hi = ?t + ?u
      \<and> total_ps (ew_earliest ?w) \<le> total_ps lo \<and> total_ps hi \<le> total_ps (ew_latest ?w))"
    unfolding s a using le w(1,3) by blast
  also have "\<dots> \<longleftrightarrow> \<not> (total_ps (ew_earliest ?w) + ?u \<le> ?t \<and> ?t + ?u \<le> total_ps (ew_latest ?w))"
  proof -
    have "\<exists>lo hi. time_ok lo \<and> total_ps lo + ?u = ?t \<and> time_ok hi \<and> total_ps hi = ?t + ?u"
      if h: "?u \<le> ?t" "?t + ?u \<le> total_ps (ew_latest ?w)"
    proof -
      obtain lo where "time_ok lo" "total_ps lo = ?t - ?u"
        using representable [of "?t - ?u"] total_bound [OF t(1)] by (meson less_imp_diff_less)
      moreover obtain hi where "time_ok hi" "total_ps hi = ?t + ?u"
        using representable [of "?t + ?u"] total_bound [OF w(3)] h(2) by (meson le_less_trans)
      ultimately show ?thesis using h(1) by (intro exI [of _ lo] exI [of _ hi]) simp
    qed
    then show ?thesis by fastforce
  qed
  finally have "outside_window s b \<longleftrightarrow> \<not> (total_ps requested + ?u \<le> ?t + early_tolerance mode cap
      \<and> ?t + ?u \<le> total_ps requested + late_tolerance mode cap)"
    using w(2,4) by auto
  then show ?thesis
    using True m usable_skip [OF assms(1-3)] by (auto simp: boundary_admissible_def eligible_def)
next
  case False
  then show ?thesis
    using assms(1) usable_skip [OF assms(1-3)] by (auto simp: boundary_admissible_def eligible_def selection_for_def)
qed

lemma preferred_good:
  assumes "eligible s a" "eligible s b" "sel_mode s \<noteq> 0 \<longrightarrow> time_ok (sel_requested s)"
    and "pt_seconds (bd_time a) \<le> u64_max" "pt_seconds (bd_time b) \<le> u64_max"
  shows "boundary_preferred (sel_mode s) (sel_requested s) a b \<longleftrightarrow> at_least_as_good s a b"
proof -
  have t: "time_ok (bd_time a)" "time_ok (bd_time b)"
    using assms(1,2,4,5) by (simp_all add: eligible_def skip_boundary_def time_ok_def)
  have le: "bd_time a \<le> bd_time b \<longleftrightarrow> total_ps (bd_time a) \<le> total_ps (bd_time b)"
    using t time_le_total by (simp add: time_ok_def)
  show ?thesis
  proof (cases "sel_mode s = 0")
    case True
    then show ?thesis using le by (simp add: boundary_preferred_def at_least_as_good_def distance_to_def)
  next
    case False
    then have r: "time_ok (sel_requested s)" using assms(3) by simp
    have d: "valid_duration (distance_to s x) \<and> duration_ps (distance_to s x) = gap_ps (sel_requested s) (bd_time x)"
      if x: "time_ok (bd_time x)" for x
    proof -
      have le: "sel_requested s \<le> bd_time x \<longleftrightarrow> total_ps (sel_requested s) \<le> total_ps (bd_time x)"
        using time_le_total x r by (simp add: time_ok_def)
      obtain d where d: "(if bd_time x \<ge> sel_requested s then difference (bd_time x) (sel_requested s)
          else difference (sel_requested s) (bd_time x)) = Inr d"
        using time_arithmetic_difference [OF x r] time_arithmetic_difference [OF r x]
        by (cases "bd_time x \<ge> sel_requested s") auto
      then have "distance_to s x = d" using False by (simp add: distance_to_def)
      moreover have "duration_ok d" "duration_ps d = gap_ps (sel_requested s) (bd_time x)"
        using d le difference_Inr [OF x r, of d] difference_Inr [OF r x, of d]
        by (auto simp: gap_ps_def split: if_splits)
      ultimately show ?thesis by (simp add: duration_ok_def)
    qed
    then show ?thesis
      using False le duration_less_total duration_inject d [OF t(1)] d [OF t(2)]
      unfolding boundary_preferred_def at_least_as_good_def by metis
  qed
qed

lemma choose_runs:
  assumes fit: "timing_fields_fit requested clock boundaries cap" and ok: "timing_request_ok mode requested clock boundaries cap"
  shows "\<exists>s. selection_for mode requested clock cap s
    \<and> choose_boundary mode requested clock boundaries cap = and_then (select_loop s None boundaries) (\<lambda>selected.
        case selected of None \<Rightarrow> Inl (err Invalid_state) | Some (b, d) \<Rightarrow> Inr b)"
proof -
  have g: "\<not> 4 < mode" "\<not> 128 < length boundaries" "valid_time (cs_time clock)" using ok by (auto simp: timing_request_ok_def)
  note now = fields_fitD(2) [OF fit g(3)]
  let ?lead = "if mode \<noteq> 0 then tc_preparation_lead_ns cap else 0"
  have "total_ps (cs_time clock) + ?lead * 1000 < ps_limit"
    using ok total_bound [OF now] by (auto simp: timing_request_ok_def ps_limit_def)
  moreover have "?lead \<le> u64_max" using fields_fitD(5) [OF fit] by simp
  ultimately obtain ready where ready: "add_time (cs_time clock) (from_nanoseconds ?lead) = Inr ready"
    using add_ns_exact(2) [OF now] by blast
  show ?thesis
  proof (cases "mode = 0")
    case True
    let ?s = "\<lparr>sel_mode = mode, sel_requested = requested, sel_generation = cs_mapping_generation clock,
       sel_uncertainty_ps = cs_uncertainty_ps clock, sel_ready = ready, sel_horizon = cs_time clock,
       sel_window = \<lparr>ew_earliest = Protocol_time 0 0, ew_latest = Protocol_time 0 0\<rparr>\<rparr>"
    have "selection_for mode requested clock cap ?s" using ready True by (simp add: selection_for_def)
    then show ?thesis using True g ready by (intro exI [of _ ?s]) (simp add: choose_boundary_def)
  next
    case False
    have q: "\<not> ((\<not> tc_qualified cap \<and> \<not> tc_injected cap) \<or> (cs_state clock \<noteq> Locked \<and> cs_state clock \<noteq> Holdover))"
      "valid_time requested" "total_ps requested \<le> total_ps (cs_time clock) + tc_horizon_ns cap * 1000"
      "total_ps (cs_time clock) + tc_horizon_ns cap * 1000 < ps_limit"
      "early_tolerance mode cap \<le> u64_max" "early_tolerance mode cap \<le> total_ps requested"
      "late_tolerance mode cap \<le> u64_max" "total_ps requested + late_tolerance mode cap < ps_limit"
      using ok False by (auto simp: timing_request_ok_def)
    note r = fields_fitD(1) [OF fit q(2)]
    obtain horizon where h: "add_time (cs_time clock) (from_nanoseconds (tc_horizon_ns cap)) = Inr horizon"
      using add_ns_exact(2) [OF now fields_fitD(6) [OF fit]] q(4) by blast
    then have hv: "valid_time horizon" "total_ps horizon = total_ps (cs_time clock) + tc_horizon_ns cap * 1000"
      using add_ns_exact(1) [OF now fields_fitD(6) [OF fit], of horizon] by (simp_all add: time_ok_def)
    have le: "\<not> horizon < requested" using time_less_total [OF hv(1) q(2)] hv(2) q(3) by simp
    obtain lo where lo: "time_ok lo" "total_ps lo = total_ps requested - early_tolerance mode cap"
      using representable [of "total_ps requested - early_tolerance mode cap"] total_bound [OF r]
      by (meson less_imp_diff_less)
    obtain hi where hi: "time_ok hi" "total_ps hi = total_ps requested + late_tolerance mode cap"
      using representable q(8) unfolding ps_limit_def by blast
    let ?w = "\<lparr>ew_earliest = lo, ew_latest = hi\<rparr>"
    have w: "execution_window mode requested cap = Inr ?w"
      using window_exact [OF fit r, of mode ?w] False g(1) q(5-7) lo hi by simp
    let ?s = "\<lparr>sel_mode = mode, sel_requested = requested, sel_generation = cs_mapping_generation clock,
       sel_uncertainty_ps = cs_uncertainty_ps clock, sel_ready = ready, sel_horizon = horizon, sel_window = ?w\<rparr>"
    have "selection_for mode requested clock cap ?s" using ready h w by (simp add: selection_for_def)
    moreover have "add_time (cs_time clock) (from_nanoseconds (tc_preparation_lead_ns cap)) = Inr ready"
      using ready False by simp
    ultimately show ?thesis using h w le q(1,2) g False
      by (intro exI [of _ ?s] conjI)
         (simp_all only: choose_boundary_def simp_thms if_False if_True and_then_simps)
  qed
qed

lemma served_request_ok:
  assumes fit: "timing_fields_fit requested clock boundaries cap"
    and ch: "choose_boundary mode requested clock boundaries cap = Inr b"
  shows "timing_request_ok mode requested clock boundaries cap"
proof -
  have g: "mode \<le> 4" "length boundaries \<le> 128" "valid_time (cs_time clock)"
    using ch by (auto simp: choose_boundary_def split: if_split_asm)
  note now = fields_fitD(2) [OF fit g(3)]
  show ?thesis
  proof (cases "mode = 0")
    case False
    obtain ready horizon window selected where c: "tc_qualified cap \<or> tc_injected cap"
      "cs_state clock \<in> {Locked, Holdover}" "valid_time requested" "requested \<le> horizon"
      "add_time (cs_time clock) (from_nanoseconds (tc_preparation_lead_ns cap)) = Inr ready"
      "add_time (cs_time clock) (from_nanoseconds (tc_horizon_ns cap)) = Inr horizon"
      "execution_window mode requested cap = Inr window"
      "select_loop \<lparr>sel_mode = mode, sel_requested = requested, sel_generation = cs_mapping_generation clock,
         sel_uncertainty_ps = cs_uncertainty_ps clock, sel_ready = ready, sel_horizon = horizon,
         sel_window = window\<rparr> None boundaries = Inr selected"
      using ch False by (auto simp: choose_boundary_def and_then_eq_Inr not_less split: if_split_asm)
    note r = fields_fitD(1) [OF fit c(3)]
    let ?s = "\<lparr>sel_mode = mode, sel_requested = requested, sel_generation = cs_mapping_generation clock,
         sel_uncertainty_ps = cs_uncertainty_ps clock, sel_ready = ready, sel_horizon = horizon,
         sel_window = window\<rparr>"
    have s: "selection_for mode requested clock cap ?s" using c(5-7) False by (simp add: selection_for_def)
    have "requested \<le> horizon \<longleftrightarrow> total_ps requested \<le> total_ps (cs_time clock) + tc_horizon_ns cap * 1000"
      using add_ns_exact(1) [OF now fields_fitD(6) [OF fit], of horizon] c(6) time_le_total [OF c(3), of horizon]
      by (simp add: time_ok_def)
    moreover have "\<forall>b \<in> set boundaries. boundary_usable mode clock cap b \<longrightarrow> boundary_uncertainty clock b \<le> u64_max"
    proof (intro ballI impI)
      fix b assume b: "b \<in> set boundaries" "boundary_usable mode clock cap b"
      then have "bd_quantization_uncertainty_ps b \<le> u64_max - cs_uncertainty_ps clock"
        using select_loop_Inr [of ?s boundaries None] c(8) r fields_fitD(3) [OF fit] False
          usable_skip [OF s fit g(3), of b] by auto
      then show "boundary_uncertainty clock b \<le> u64_max"
        using fields_fitD(4) [OF fit] by (simp add: boundary_uncertainty_def)
    qed
    moreover have "total_ps (cs_time clock) + tc_preparation_lead_ns cap * 1000 < ps_limit"
      "total_ps (cs_time clock) + tc_horizon_ns cap * 1000 < ps_limit"
      using add_ns_exact(2) [OF now fields_fitD(5) [OF fit]] add_ns_exact(2) [OF now fields_fitD(6) [OF fit]]
        c(5,6) by blast+
    moreover have "early_tolerance mode cap \<le> u64_max" "early_tolerance mode cap \<le> total_ps requested"
      "late_tolerance mode cap \<le> u64_max" "total_ps requested + late_tolerance mode cap < ps_limit"
      using window_exact [OF fit r _ g(1), of window] c(7) False total_bound [of "ew_latest window"]
      by (auto simp: ps_limit_def)
    ultimately show ?thesis using c(1-4) g by (simp add: timing_request_ok_def)
  qed (use g in \<open>simp add: timing_request_ok_def\<close>)
qed

lemma interval_allowed:
  assumes fit: "timing_fields_fit requested clock bs cap" and ok: "timing_request_ok mode requested clock bs cap"
    and b: "b \<in> set bs" "boundary_admissible mode requested clock cap b" "mode \<noteq> 0"
  shows "\<exists>lo hi. total_ps lo + boundary_uncertainty clock b = total_ps (bd_time b)
    \<and> total_ps hi = total_ps (bd_time b) + boundary_uncertainty clock b
    \<and> effect_interval_allowed mode requested lo hi cap = Inr True"
proof -
  let ?u = "boundary_uncertainty clock b" and ?t = "total_ps (bd_time b)"
  have q: "mode \<le> 4" "valid_time requested" "early_tolerance mode cap \<le> u64_max"
    "early_tolerance mode cap \<le> total_ps requested" "late_tolerance mode cap \<le> u64_max"
    "total_ps requested + late_tolerance mode cap < ps_limit"
    using ok b(3) by (auto simp: timing_request_ok_def)
  have a: "valid_time (bd_time b)" "total_ps requested + ?u \<le> ?t + early_tolerance mode cap"
    "?t + ?u \<le> total_ps requested + late_tolerance mode cap"
    using b(2,3) by (auto simp: boundary_admissible_def boundary_usable_def)
  note r = fields_fitD(1) [OF fit q(2)]
  obtain e where e: "time_ok e" "total_ps e = total_ps requested - early_tolerance mode cap"
    using representable [of "total_ps requested - early_tolerance mode cap"] total_bound [OF r]
    by (meson less_imp_diff_less)
  obtain l where l: "time_ok l" "total_ps l = total_ps requested + late_tolerance mode cap"
    using representable q(6) unfolding ps_limit_def by blast
  have w: "execution_window mode requested cap = Inr \<lparr>ew_earliest = e, ew_latest = l\<rparr>"
    using window_exact [OF fit r, of mode "\<lparr>ew_earliest = e, ew_latest = l\<rparr>"] q e l b(3) by simp
  have "time_ok (bd_time b)" using a(1) b(1) fields_fitD(3) [OF fit] by (simp add: time_ok_def)
  then obtain lo where lo: "time_ok lo" "total_ps lo = ?t - ?u"
    using representable [of "?t - ?u"] total_bound [of "bd_time b"] by (meson less_imp_diff_less)
  obtain hi where hi: "time_ok hi" "total_ps hi = ?t + ?u"
    using representable [of "?t + ?u"] total_bound [OF l(1)] l(2) a(3) by (metis le_less_trans)
  have "?u \<le> ?t" using a(2) q(4) by linarith
  moreover have "\<not> hi < lo" "e \<le> lo" "hi \<le> l"
    using time_less_total [of hi lo] time_le_total [of e lo] time_le_total [of hi l] lo hi e l a(2,3) q(4)
    by (auto simp: time_ok_def)
  ultimately show ?thesis using lo hi w q(1) b(3)
    by (intro exI [of _ lo] exI [of _ hi]) (simp add: effect_interval_allowed_def time_ok_def)
qed

section \<open>Properties\<close>

text \<open>C18: boundary selection meets its specification in exact picoseconds. It answers with a boundary
  exactly when the request is one to be served and an admissible boundary is offered: the answer is one of
  the offered boundaries, uncommitted, ready, under the clock's current mapping, not before the preparation
  lead (the present, for untimed requests) and not beyond the horizon, with its whole interval of
  uncertainty within the tolerances of the timing mode; and no other admissible boundary is preferred, by
  distance to the requested time and then by time (by time alone, for untimed requests). When a request to
  be served finds no boundary the answer is an invalid state. The fields are 64-bit numbers, as their types
  say.\<close>

theorem choose_boundary_best:
  assumes "timing_fields_fit requested clock boundaries cap"
  shows "case choose_boundary mode requested clock boundaries cap of
      Inl e \<Rightarrow> timing_request_ok mode requested clock boundaries cap \<longrightarrow>
        e = err Invalid_state \<and> (\<forall>x \<in> set boundaries. \<not> boundary_admissible mode requested clock cap x)
    | Inr b \<Rightarrow> timing_request_ok mode requested clock boundaries cap
        \<and> b \<in> set boundaries \<and> boundary_admissible mode requested clock cap b
        \<and> (\<forall>x \<in> set boundaries. boundary_admissible mode requested clock cap x \<longrightarrow> boundary_preferred mode requested b x)
        \<and> (mode \<noteq> 0 \<longrightarrow> (\<exists>lo hi. total_ps lo + boundary_uncertainty clock b = total_ps (bd_time b)
             \<and> total_ps hi = total_ps (bd_time b) + boundary_uncertainty clock b
             \<and> effect_interval_allowed mode requested lo hi cap = Inr True))"
proof (cases "timing_request_ok mode requested clock boundaries cap")
  case ok: True
  obtain s where s: "selection_for mode requested clock cap s"
    "choose_boundary mode requested clock boundaries cap = and_then (select_loop s None boundaries) (\<lambda>selected.
        case selected of None \<Rightarrow> Inl (err Invalid_state) | Some (b, d) \<Rightarrow> Inr b)"
    using choose_runs [OF assms ok] by blast
  have g: "mode \<le> 4" "valid_time (cs_time clock)" "mode \<noteq> 0 \<longrightarrow> valid_time requested"
    "mode \<noteq> 0 \<longrightarrow> (\<forall>x \<in> set boundaries. boundary_usable mode clock cap x \<longrightarrow> boundary_uncertainty clock x \<le> u64_max)"
    using ok by (auto simp: timing_request_ok_def)
  have m: "sel_mode s = mode" "sel_requested s = requested" "sel_uncertainty_ps s = cs_uncertainty_ps clock"
    using s(1) by (simp_all add: selection_for_def)
  have r: "sel_mode s \<noteq> 0 \<longrightarrow> time_ok (sel_requested s)" using fields_fitD(1) [OF assms] g(3) m by simp
  have el: "boundary_admissible mode requested clock cap x \<longleftrightarrow> eligible s x" if "x \<in> set boundaries" for x
    by (rule admissible_eligible [OF s(1) assms g(2,1,3) that]) (use g(4) that in blast)
  have "bd_quantization_uncertainty_ps x \<le> u64_max - cs_uncertainty_ps clock"
    if "x \<in> set boundaries" "\<not> skip_boundary s x" "mode \<noteq> 0" for x
    using g(4) usable_skip [OF s(1) assms g(2), of x] that by (fastforce simp: boundary_uncertainty_def)
  then obtain selected where sel: "select_loop s None boundaries = Inr selected"
    using select_loop_Inr [OF r fields_fitD(3) [OF assms], of None] m by auto
  have best: "best_among s (set boundaries) selected"
    using select_loop_best [OF sel, of "{}"] by (simp add: best_among_def)
  show ?thesis
  proof (cases selected)
    case None
    then show ?thesis using s(2) sel best el by (simp add: best_among_def)
  next
    case (Some p)
    obtain b d where p: "p = (b, d)" by fastforce
    have b: "b \<in> set boundaries" "eligible s b" "\<forall>x \<in> set boundaries. eligible s x \<longrightarrow> at_least_as_good s b x"
      using best Some p by (auto simp: best_among_def)
    have adm: "boundary_admissible mode requested clock cap b" using el b(1,2) by simp
    have "boundary_preferred mode requested b x" if "x \<in> set boundaries" "boundary_admissible mode requested clock cap x" for x
      using preferred_good [OF b(2) _ r, of x] b el fields_fitD(3) [OF assms] m that by simp
    moreover have "choose_boundary mode requested clock boundaries cap = Inr b" using s(2) sel Some p by simp
    moreover note interval_allowed [OF assms ok b(1) adm]
    ultimately show ?thesis using ok b(1) adm by simp
  qed
next
  case False
  then show ?thesis using served_request_ok [OF assms, of mode]
    by (cases "choose_boundary mode requested clock boundaries cap") auto
qed

section \<open>A concrete choice\<close>

definition sample_snapshot :: clock_snapshot where
  "sample_snapshot = \<lparr>cs_state = Locked, cs_time = Protocol_time 10 0, cs_uncertainty_ps = 100,
     cs_mapping_generation = 2, cs_calibrated = True, cs_injected = True, cs_epoch = Epoch_utc\<rparr>"

definition sample_boundary :: "nat \<Rightarrow> boundary" where
  "sample_boundary ps = \<lparr>bd_time = Protocol_time 11 ps, bd_sample_ordinal = 4, bd_mapping_generation = 2,
     bd_committed = False, bd_backend_ready = True, bd_quantization_uncertainty_ps = 1\<rparr>"

lemmas time_eval = add_time_def subtract_time_def difference_def from_picoseconds_def from_nanoseconds_def
  valid_time_def valid_duration_def less_protocol_time_def less_eq_protocol_time_def less_duration_def
  time_consts Let_def

lemma sample_choice:
  "choose_boundary 1 (Protocol_time 11 0) sample_snapshot [sample_boundary 700, sample_boundary 5]
     deterministic_capabilities = Inr (sample_boundary 5)"
  by (simp add: choose_boundary_def sample_snapshot_def sample_boundary_def deterministic_capabilities_def
      execution_window_def skip_boundary_def outside_window_def time_eval)

theorem choose_boundary_best_witness:
  "boundary_admissible 1 (Protocol_time 11 0) sample_snapshot deterministic_capabilities (sample_boundary 700)
   \<and> boundary_preferred 1 (Protocol_time 11 0) (sample_boundary 5) (sample_boundary 700)
   \<and> \<not> boundary_preferred 1 (Protocol_time 11 0) (sample_boundary 700) (sample_boundary 5)"
proof -
  have "timing_fields_fit (Protocol_time 11 0) sample_snapshot [sample_boundary 700, sample_boundary 5] deterministic_capabilities"
    by (simp add: timing_fields_fit_def sample_snapshot_def sample_boundary_def deterministic_capabilities_def u64_max_def)
  note t = choose_boundary_best [OF this, of 1, unfolded sample_choice]
  have "boundary_admissible 1 (Protocol_time 11 0) sample_snapshot deterministic_capabilities (sample_boundary 700)"
    by (simp add: boundary_admissible_def boundary_usable_def boundary_uncertainty_def early_tolerance_def late_tolerance_def
        sample_snapshot_def sample_boundary_def deterministic_capabilities_def total_ps_def time_eval)
  moreover have "\<not> boundary_preferred 1 (Protocol_time 11 0) (sample_boundary 700) (sample_boundary 5)"
    by (simp add: boundary_preferred_def gap_ps_def sample_boundary_def total_ps_def)
  ultimately show ?thesis using t by simp
qed

end
