(* ===== verification/Executor.thy ===== *)
theory Executor
  imports Slots
begin

text \<open>
  The bounded executor of \<^verbatim>\<open>include/vita/runtime/execution/executor.hpp\<close> (a ring
  buffer of tasks, run one at a time) and the fixed-capacity vector of
  \<^verbatim>\<open>include/vita/core/fixed_vector.hpp\<close>. Task callbacks are a parameter: a task, run in
  a world, yields a new world and the operations it performs on its own executor while it
  runs. The locale \<open>bounded_queue\<close> is the interface of a FIFO of limited capacity; its
  lemma says tasks leave in the order they came; the ring buffer interprets it.
\<close>

section \<open>Fixed vectors\<close>

record 'a fixed_vector =
  fv_slots :: "'a slots"
  fv_size :: nat

definition make_vector :: "nat \<Rightarrow> 'a fixed_vector" where
  "make_vector n = \<lparr>fv_slots = replicate n None, fv_size = 0\<rparr>"

definition fv_full :: "'a fixed_vector \<Rightarrow> bool" where
  "fv_full v \<longleftrightarrow> fv_size v = length (fv_slots v)"

definition emplace_back :: "'a fixed_vector \<Rightarrow> 'a \<Rightarrow> 'a fixed_vector \<times> unit result" where
  "emplace_back v x =
     (if fv_full v then (v, Inl (err_need Capacity_exhausted 0 (fv_size v + 1)))
      else (v\<lparr>fv_slots := (fv_slots v)[fv_size v := Some x], fv_size := fv_size v + 1\<rparr>, Inr ()))"

definition pop_back :: "'a fixed_vector \<Rightarrow> 'a fixed_vector" where
  "pop_back v =
     (if fv_size v \<noteq> 0
      then v\<lparr>fv_slots := (fv_slots v)[fv_size v - 1 := None], fv_size := fv_size v - 1\<rparr> else v)"

function clear_vector :: "'a fixed_vector \<Rightarrow> 'a fixed_vector" where
  "clear_vector v = (if fv_size v \<noteq> 0 then clear_vector (pop_back v) else v)"
  by pat_completeness auto
termination
  by (relation "measure fv_size") (auto simp: pop_back_def)

declare clear_vector.simps [simp del]

section \<open>The executor\<close>

type_synonym task = "nat option \<times> nat"

datatype executor_call = Post_call task | Close_call | Run_call

record executor =
  ex_queue :: "task list"
  ex_head :: nat
  ex_size :: nat
  ex_running :: bool
  ex_open :: bool

definition make_executor :: "nat \<Rightarrow> executor" where
  "make_executor n = \<lparr>ex_queue = replicate n (None, 0), ex_head = 0, ex_size = 0,
     ex_running = False, ex_open = True\<rparr>"

definition executor_post :: "executor \<Rightarrow> task \<Rightarrow> executor \<times> unit result" where
  "executor_post ex t =
     (let n = length (ex_queue ex)
      in if fst t = None then (ex, Inl (err Invalid_argument))
         else if \<not> ex_open ex then (ex, Inl (err Invalid_state))
         else if ex_size ex = n then (ex, Inl (err Capacity_exhausted))
         else (ex\<lparr>ex_queue := (ex_queue ex)[(ex_head ex + ex_size ex) mod n := t],
                  ex_size := ex_size ex + 1\<rparr>, Inr ()))"

definition executor_close :: "executor \<Rightarrow> executor" where
  "executor_close ex = ex\<lparr>ex_open := False\<rparr>"

text \<open>What a callback does to its executor: it posts, closes, or tries to run it, which does
  nothing while a task is running (\<open>reentrant_run\<close> derives this from the guard of \<open>run_one\<close>).
  Which calls a callback makes depends on its task and its world.\<close>

fun apply_call :: "executor_call \<Rightarrow> executor \<Rightarrow> executor" where
  "apply_call (Post_call t) ex = fst (executor_post ex t)"
| "apply_call Close_call ex = executor_close ex"
| "apply_call Run_call ex = ex"

type_synonym 'w callback = "task \<Rightarrow> 'w \<Rightarrow> 'w \<times> executor_call list"

definition take_task :: "executor \<Rightarrow> (executor \<times> task) option" where
  "take_task ex =
     (if ex_running ex \<or> ex_size ex = 0 then None
      else Some (ex\<lparr>ex_running := True, ex_head := (ex_head ex + 1) mod length (ex_queue ex),
                    ex_size := ex_size ex - 1\<rparr>, ex_queue ex ! ex_head ex))"

definition run_one :: "'w callback \<Rightarrow> executor \<Rightarrow> 'w \<Rightarrow> executor \<times> 'w \<times> bool" where
  "run_one invoke ex w =
     (case take_task ex of
        None \<Rightarrow> (ex, w, False)
      | Some (ex1, t) \<Rightarrow>
          let (w', calls) = invoke t w
          in ((fold apply_call calls ex1)\<lparr>ex_running := False\<rparr>, w', True))"

fun run_loop :: "'w callback \<Rightarrow> nat \<Rightarrow> nat \<Rightarrow> executor \<Rightarrow> 'w \<Rightarrow> executor \<times> 'w \<times> nat" where
  "run_loop invoke 0 n ex w = (ex, w, n)"
| "run_loop invoke (Suc budget) n ex w =
     (case run_one invoke ex w of
        (ex', w', True) \<Rightarrow> run_loop invoke budget (n + 1) ex' w'
      | (ex', w', False) \<Rightarrow> (ex', w', n))"

definition executor_run :: "'w callback \<Rightarrow> nat \<Rightarrow> executor \<Rightarrow> 'w \<Rightarrow> executor \<times> 'w \<times> nat" where
  "executor_run invoke budget ex w = run_loop invoke budget 0 ex w"

text \<open>The frames of the executors whose tasks are on the current thread's stack, innermost
  first; blocking on one of them would deadlock.\<close>

definition check_blocking_wait :: "nat list \<Rightarrow> nat option \<Rightarrow> unit result" where
  "check_blocking_wait frames target =
     (case target of None \<Rightarrow> Inr ()
      | Some d \<Rightarrow> if d \<in> set frames then Inl (err Would_deadlock) else Inr ())"

section \<open>Bounded queues\<close>

definition queue_contents :: "executor \<Rightarrow> task list" where
  "queue_contents ex = map (\<lambda>i. ex_queue ex ! ((ex_head ex + i) mod length (ex_queue ex))) [0..<ex_size ex]"

definition executor_inv :: "executor \<Rightarrow> bool" where
  "executor_inv ex \<longleftrightarrow> ex_size ex \<le> length (ex_queue ex) \<and> ex_head ex < length (ex_queue ex)"

locale bounded_queue =
  fixes contents :: "'q \<Rightarrow> 'a list" and ok :: "'q \<Rightarrow> bool" and limit :: "'q \<Rightarrow> nat"
    and push :: "'q \<Rightarrow> 'a \<Rightarrow> 'q" and pop :: "'q \<Rightarrow> 'q" and front :: "'q \<Rightarrow> 'a"
  assumes push_contents: "ok q \<Longrightarrow> length (contents q) < limit q \<Longrightarrow> contents (push q x) = contents q @ [x]"
    and push_ok: "ok q \<Longrightarrow> length (contents q) < limit q \<Longrightarrow> ok (push q x) \<and> limit (push q x) = limit q"
    and pop_contents: "ok q \<Longrightarrow> contents q \<noteq> [] \<Longrightarrow> contents (pop q) = tl (contents q)"
    and pop_ok: "ok q \<Longrightarrow> contents q \<noteq> [] \<Longrightarrow> ok (pop q) \<and> limit (pop q) = limit q"
    and front_contents: "ok q \<Longrightarrow> contents q \<noteq> [] \<Longrightarrow> front q = hd (contents q)"
begin

lemma push_all:
  assumes "ok q" and "length (contents q) + length xs \<le> limit q"
  shows "contents (fold (\<lambda>x q. push q x) xs q) = contents q @ xs"
    and "ok (fold (\<lambda>x q. push q x) xs q)"
  using assms
proof (induction xs arbitrary: q)
  case (Cons x xs)
  {
    case 1
    then show ?case using Cons.IH(1) [of "push q x"] push_contents [of q x] push_ok [of q x] by simp
  next
    case 2
    then show ?case using Cons.IH(2) [of "push q x"] push_contents [of q x] push_ok [of q x] by simp
  }
qed simp_all

text \<open>Popping drains a queue in the order it was filled.\<close>

lemma drain:
  assumes "ok q" and "n \<le> length (contents q)"
  shows "map (\<lambda>i. front ((pop ^^ i) q)) [0..<n] = take n (contents q)"
    and "contents ((pop ^^ n) q) = drop n (contents q)" and "ok ((pop ^^ n) q)"
  using assms(2)
proof (induction n)
  case (Suc n)
  {
    case 1
    then have ne: "contents ((pop ^^ n) q) \<noteq> []" using Suc(2) by simp
    have "front ((pop ^^ n) q) = contents q ! n"
      using front_contents [OF Suc(3) ne] Suc(2) 1 by (simp add: hd_drop_conv_nth)
    then show ?case using 1 Suc(1) by (simp add: take_Suc_conv_app_nth)
  next
    case 2
    then have ne: "contents ((pop ^^ n) q) \<noteq> []" using Suc(2) by simp
    show ?case using pop_contents [OF Suc(3) ne] Suc(2) 2 by (simp add: drop_Suc tl_drop)
  next
    case 3
    then have ne: "contents ((pop ^^ n) q) \<noteq> []" using Suc(2) by simp
    show ?case using pop_ok [OF Suc(3) ne] 3 by simp
  }
qed (use assms(1) in simp_all)

end

definition ring_push :: "executor \<Rightarrow> task \<Rightarrow> executor" where
  "ring_push ex t = ex\<lparr>ex_queue := (ex_queue ex)[(ex_head ex + ex_size ex) mod length (ex_queue ex) := t],
     ex_size := ex_size ex + 1\<rparr>"

definition ring_pop :: "executor \<Rightarrow> executor" where
  "ring_pop ex = ex\<lparr>ex_head := (ex_head ex + 1) mod length (ex_queue ex), ex_size := ex_size ex - 1\<rparr>"

lemma mod_add_inj:
  fixes h i j n :: nat
  assumes "i < n" and "j < n" and "(h + i) mod n = (h + j) mod n"
  shows "i = j"
proof -
  have le: "x = y" if "x \<le> y" "y < n" "(h + y) mod n = (h + x) mod n" for x y
    using that mod_eq_dvd_iff_nat [of "h + x" "h + y" n] nat_dvd_not_less [of "y - x" n] by fastforce
  show ?thesis using le [of i j] le [of j i] assms by (cases "i \<le> j") auto
qed

lemma length_queue_contents [simp]: "length (queue_contents ex) = ex_size ex"
  by (simp add: queue_contents_def)

interpretation ring: bounded_queue queue_contents executor_inv "\<lambda>ex. length (ex_queue ex)"
  ring_push ring_pop "\<lambda>ex. ex_queue ex ! ex_head ex"
proof
  fix q x assume ok: "executor_inv q" and room: "length (queue_contents q) < length (ex_queue q)"
  let ?n = "length (ex_queue q)"
  have "(ex_head q + ex_size q) mod ?n \<noteq> (ex_head q + i) mod ?n" if "i < ex_size q" for i
    using mod_add_inj [of i ?n "ex_size q" "ex_head q"] that room by auto
  moreover have "(ex_head q + ex_size q) mod ?n < ?n" using room by (intro mod_less_divisor) auto
  ultimately show "queue_contents (ring_push q x) = queue_contents q @ [x]"
    by (auto simp: queue_contents_def ring_push_def)
  show "executor_inv (ring_push q x) \<and> length (ex_queue (ring_push q x)) = ?n"
    using ok room by (simp add: executor_inv_def ring_push_def)
next
  fix q assume ok: "executor_inv q" and ne: "queue_contents q \<noteq> []"
  let ?n = "length (ex_queue q)"
  have s: "0 < ex_size q" using ne by (auto simp: queue_contents_def)
  have n: "0 < ?n" using ok by (auto simp: executor_inv_def)
  have shift: "((ex_head q + 1) mod ?n + i) mod ?n = (ex_head q + Suc i) mod ?n" for i
    by (simp add: mod_add_left_eq)
  show "queue_contents (ring_pop q) = tl (queue_contents q)"
    using s shift by (intro nth_equalityI) (auto simp: queue_contents_def ring_pop_def nth_tl less_diff_conv)
  show "executor_inv (ring_pop q) \<and> length (ex_queue (ring_pop q)) = ?n"
    using ok n by (auto simp: executor_inv_def ring_pop_def)
  show "ex_queue q ! ex_head q = hd (queue_contents q)"
    using s ok by (simp add: queue_contents_def hd_map upt_conv_Cons executor_inv_def)
qed

lemma post_ring: "executor_post ex t =
    (if fst t = None then (ex, Inl (err Invalid_argument))
     else if \<not> ex_open ex then (ex, Inl (err Invalid_state))
     else if ex_size ex = length (ex_queue ex) then (ex, Inl (err Capacity_exhausted))
     else (ring_push ex t, Inr ()))"
  by (simp add: executor_post_def ring_push_def Let_def)

lemma take_ring: "take_task ex = (if ex_running ex \<or> ex_size ex = 0 then None
    else Some ((ring_pop ex)\<lparr>ex_running := True\<rparr>, ex_queue ex ! ex_head ex))"
  by (simp add: take_task_def ring_pop_def)

lemma running_simps [simp]:
  "queue_contents (ex\<lparr>ex_running := b\<rparr>) = queue_contents ex"
  "executor_inv (ex\<lparr>ex_running := b\<rparr>) = executor_inv ex"
  by (simp_all add: queue_contents_def executor_inv_def)

section \<open>The specification\<close>

text \<open>An executor is a list of waiting tasks; a call appends a task if there is room and the
  executor is open.\<close>

fun spec_call :: "nat \<Rightarrow> executor_call \<Rightarrow> task list \<times> bool \<Rightarrow> task list \<times> bool" where
  "spec_call n (Post_call t) (ts, open) =
     (if fst t \<noteq> None \<and> open \<and> length ts < n then (ts @ [t], open) else (ts, open))"
| "spec_call n Close_call (ts, open) = (ts, False)"
| "spec_call n Run_call (ts, open) = (ts, open)"

fun spec_run :: "'w callback \<Rightarrow> nat \<Rightarrow> nat \<Rightarrow> task list \<times> bool \<Rightarrow> 'w \<Rightarrow> (task list \<times> bool) \<times> 'w \<times> nat" where
  "spec_run invoke n 0 q w = (q, w, 0)"
| "spec_run invoke n (Suc budget) ([], open) w = (([], open), w, 0)"
| "spec_run invoke n (Suc budget) (t # ts, open) w =
     (case invoke t w of (w', calls) \<Rightarrow>
       (case spec_run invoke n budget (fold (spec_call n) calls (ts, open)) w' of
          (q', w'', k) \<Rightarrow> (q', w'', k + 1)))"

definition executor_abs :: "executor \<Rightarrow> task list \<times> bool" where
  "executor_abs ex = (queue_contents ex, ex_open ex)"

text \<open>The calls of a callback are made while its executor runs it, so a run among them finds the
  executor running and returns at once.\<close>

lemma apply_call_running: "ex_running (fold apply_call cs ex) = ex_running ex"
proof (induction cs arbitrary: ex)
  case (Cons c cs)
  then show ?case by (cases c) (simp_all add: executor_post_def executor_close_def Let_def)
qed simp

lemma reentrant_run:
  assumes "take_task ex = Some (ex1, t)"
  shows "run_one invoke (fold apply_call cs ex1) w = (apply_call Run_call (fold apply_call cs ex1), w, False)"
proof -
  have "ex_running ex1" using assms by (auto simp: take_task_def split: if_splits)
  then show ?thesis by (simp add: run_one_def take_task_def apply_call_running)
qed

lemma call_refines:
  assumes "executor_inv ex"
  shows "executor_abs (apply_call c ex) = spec_call (length (ex_queue ex)) c (executor_abs ex)
    \<and> executor_inv (apply_call c ex) \<and> length (ex_queue (apply_call c ex)) = length (ex_queue ex)
    \<and> ex_running (apply_call c ex) = ex_running ex"
proof (cases c)
  case (Post_call t)
  have "ex_size ex \<le> length (ex_queue ex)" using assms by (simp add: executor_inv_def)
  then show ?thesis
    using Post_call assms ring.push_contents [OF assms] ring.push_ok [OF assms]
    by (auto simp: executor_abs_def post_ring ring_push_def)
qed (use assms in \<open>auto simp: executor_abs_def executor_close_def queue_contents_def executor_inv_def\<close>)

lemma calls_refine:
  assumes "executor_inv ex"
  shows "executor_abs (fold apply_call cs ex) = fold (spec_call (length (ex_queue ex))) cs (executor_abs ex)
    \<and> executor_inv (fold apply_call cs ex) \<and> length (ex_queue (fold apply_call cs ex)) = length (ex_queue ex)"
  using assms
proof (induction cs arbitrary: ex)
  case (Cons c cs)
  then show ?case using Cons.IH [of "apply_call c ex"] call_refines [OF Cons.prems, of c] by simp
qed simp

lemma abs_running [simp]: "executor_abs (ex\<lparr>ex_running := b\<rparr>) = executor_abs ex"
  by (simp add: executor_abs_def)

lemma run_loop_refines:
  assumes "executor_inv ex" and "\<not> ex_running ex"
  shows "case run_loop invoke budget k ex w of (ex', w', n) \<Rightarrow>
    executor_inv ex' \<and> \<not> ex_running ex' \<and> length (ex_queue ex') = length (ex_queue ex) \<and> k \<le> n
    \<and> spec_run invoke (length (ex_queue ex)) budget (executor_abs ex) w = (executor_abs ex', w', n - k)"
  using assms
proof (induction budget arbitrary: ex w k)
  case (Suc budget)
  show ?case
  proof (cases "queue_contents ex")
    case Nil
    then have "ex_size ex = 0" by (simp add: queue_contents_def)
    then show ?thesis using Suc.prems Nil by (simp add: run_one_def take_ring executor_abs_def)
  next
    case (Cons t ts)
    then have ne: "queue_contents ex \<noteq> []" by simp
    then have s: "ex_size ex \<noteq> 0" by (auto simp: queue_contents_def)
    let ?p = "(ring_pop ex)\<lparr>ex_running := True\<rparr>"
    obtain w' calls where i: "invoke t w = (w', calls)" by fastforce
    have fr: "ex_queue ex ! ex_head ex = t" using ring.front_contents [OF Suc.prems(1) ne] Cons by simp
    have p: "executor_inv ?p" "length (ex_queue ?p) = length (ex_queue ex)" "executor_abs ?p = (ts, ex_open ex)"
      using ring.pop_ok [OF Suc.prems(1) ne] ring.pop_contents [OF Suc.prems(1) ne] Cons
      by (simp_all add: executor_abs_def ring_pop_def)
    let ?e = "(fold apply_call calls ?p)\<lparr>ex_running := False\<rparr>"
    have run: "run_one invoke ex w = (?e, w', True)"
      using Suc.prems(2) s i fr by (simp add: run_one_def take_ring)
    have e: "executor_inv ?e" "\<not> ex_running ?e" "length (ex_queue ?e) = length (ex_queue ex)"
      "executor_abs ?e = fold (spec_call (length (ex_queue ex))) calls (ts, ex_open ex)"
      using calls_refine [OF p(1), of calls] p(2,3) by simp_all
    obtain ex' w'' n where r: "run_loop invoke budget (Suc k) ?e w' = (ex', w'', n)" by (metis prod_cases3)
    note ih = Suc.IH [OF e(1,2), of "Suc k" w', unfolded r prod.case]
    have "spec_run invoke (length (ex_queue ex)) (Suc budget) (executor_abs ex) w = (executor_abs ex', w'', n - k)"
      using ih e(3,4) Cons i by (auto simp: executor_abs_def)
    then show ?thesis using ih run r e(3) by simp
  qed
qed simp


section \<open>Fixed vectors as stacks\<close>

definition fv_contents :: "'a fixed_vector \<Rightarrow> 'a list" where
  "fv_contents v = map the (take (fv_size v) (fv_slots v))"

definition fv_inv :: "'a fixed_vector \<Rightarrow> bool" where
  "fv_inv v \<longleftrightarrow> fv_size v \<le> length (fv_slots v)
     \<and> (\<forall>i < length (fv_slots v). fv_slots v ! i \<noteq> None \<longleftrightarrow> i < fv_size v)"

lemma fv_inv_make: "fv_inv (make_vector n)" "fv_contents (make_vector n) = []"
  by (simp_all add: fv_inv_def make_vector_def fv_contents_def)

lemma emplace_back_spec:
  assumes "fv_inv v"
  shows "case emplace_back v x of
      (v', Inr u) \<Rightarrow> fv_inv v' \<and> fv_contents v' = fv_contents v @ [x]
        \<and> length (fv_slots v') = length (fv_slots v) \<and> length (fv_contents v) < length (fv_slots v)
    | (v', Inl e) \<Rightarrow> v' = v \<and> length (fv_contents v) = length (fv_slots v)
        \<and> e = err_need Capacity_exhausted 0 (length (fv_contents v) + 1)"
proof (cases "fv_full v")
  case True
  then show ?thesis by (simp add: emplace_back_def fv_full_def fv_contents_def)
next
  case False
  then have "fv_size v < length (fv_slots v)" using assms by (simp add: fv_inv_def fv_full_def)
  then show ?thesis using False assms
    by (auto simp: emplace_back_def fv_inv_def fv_contents_def take_Suc_conv_app_nth nth_list_update)
qed

lemma pop_back_spec:
  assumes "fv_inv v"
  shows "fv_inv (pop_back v) \<and> fv_contents (pop_back v) = butlast (fv_contents v)
    \<and> length (fv_slots (pop_back v)) = length (fv_slots v) \<and> fv_size (pop_back v) = fv_size v - 1"
proof (cases "fv_size v")
  case (Suc n)
  then show ?thesis using assms
    by (auto simp: pop_back_def fv_inv_def fv_contents_def nth_list_update butlast_take map_butlast [symmetric])
qed (use assms in \<open>simp add: pop_back_def fv_contents_def\<close>)

lemma clear_vector_spec:
  "fv_inv v \<Longrightarrow> fv_inv (clear_vector v) \<and> fv_contents (clear_vector v) = []
     \<and> length (fv_slots (clear_vector v)) = length (fv_slots v) \<and> fv_size (clear_vector v) = 0"
proof (induction v rule: clear_vector.induct)
  case (1 v)
  then show ?case using pop_back_spec [of v]
    by (cases "fv_size v = 0") (simp_all add: clear_vector.simps [of v] fv_contents_def)
qed

section \<open>Properties\<close>

lemma sample_executor_inv: "executor_inv (make_executor 2)" "\<not> ex_running (make_executor 2)"
  by (simp_all add: executor_inv_def make_executor_def)

text \<open>C34: a run of the executor takes tasks in the order they were posted, at most the budget and
  none twice; what a task posts while running joins the back of the queue if there is room
  and the executor is open; nothing is overwritten in the ring however it wraps.\<close>

theorem executor_run_refines_fifo:
  assumes "executor_inv ex" and "\<not> ex_running ex"
  shows "case executor_run invoke budget ex w of (ex', w', n) \<Rightarrow>
    executor_inv ex' \<and> \<not> ex_running ex' \<and> n \<le> budget
    \<and> spec_run invoke (length (ex_queue ex)) budget (executor_abs ex) w = (executor_abs ex', w', n)"
proof -
  have bound: "snd (snd (spec_run invoke m b q w)) \<le> b" for m b q w
    by (induction invoke m b q w rule: spec_run.induct) (auto split: prod.splits)
  obtain ex' w' n where r: "executor_run invoke budget ex w = (ex', w', n)" by (metis prod_cases3)
  then show ?thesis
    using run_loop_refines [OF assms, where invoke = invoke and budget = budget and k = 0 and w = w] bound [of "length (ex_queue ex)" budget "executor_abs ex" w]
    by (simp add: executor_run_def)
qed

theorem executor_run_refines_fifo_witness:
  "case executor_run (\<lambda>t w. (w @ [snd t], [])) (Suc (Suc (Suc 0)))
      (fst (executor_post (fst (executor_post (make_executor 2) (Some 1, 10))) (Some 1, 20))) [] of
    (ex', w', n) \<Rightarrow> w' = [10, 20] \<and> n = 2"
proof -
  let ?ex = "fst (executor_post (fst (executor_post (make_executor 2) (Some 1, 10))) (Some 1, 20))"
  have two: "replicate 2 (None, 0) = [(None, 0), (None, 0)]" "[0..<2] = [0, Suc 0]" by (simp_all add: numeral_2_eq_2)
  have ex: "executor_inv ?ex" "\<not> ex_running ?ex" "executor_abs ?ex = ([(Some 1, 10), (Some 1, 20)], True)"
    "length (ex_queue ?ex) = 2"
    by (simp_all add: executor_post_def make_executor_def executor_inv_def executor_abs_def
        queue_contents_def two Let_def)
  show ?thesis
    using executor_run_refines_fifo [OF ex(1,2), where invoke = "\<lambda>t w. (w @ [snd t], [])" and budget = "Suc (Suc (Suc 0))"
        and w = "[]"] ex(3,4)
    by auto
qed

text \<open>A fixed vector is a bounded stack: appending adds at the end or, exactly when all
  elements are in use, reports the needed capacity and changes nothing; popping removes the
  last element; clearing empties it; slots beyond the size are always vacated.\<close>

theorem fixed_vector_is_stack:
  assumes "fv_inv v"
  shows "(case emplace_back v x of
      (v', Inr u) \<Rightarrow> fv_inv v' \<and> fv_contents v' = fv_contents v @ [x]
        \<and> fv_contents (pop_back v') = fv_contents v
    | (v', Inl e) \<Rightarrow> v' = v \<and> length (fv_contents v) = length (fv_slots v))
    \<and> fv_contents (pop_back v) = butlast (fv_contents v) \<and> fv_inv (pop_back v)
    \<and> fv_contents (clear_vector v) = [] \<and> fv_inv (clear_vector v)"
proof -
  obtain v' r where e: "emplace_back v x = (v', r)" by fastforce
  show ?thesis
    using emplace_back_spec [OF assms, of x] pop_back_spec [OF assms] pop_back_spec [of v'] clear_vector_spec [OF assms]
    by (cases r) (simp_all add: e)
qed

theorem fixed_vector_is_stack_witness:
  "fv_contents (clear_vector (make_vector 3 :: nat fixed_vector)) = []"
  using fixed_vector_is_stack [OF fv_inv_make(1) [of 3], where x = "0 :: nat"] by simp

end
