(* ===== verification/Tickets.thy ===== *)
theory Tickets
  imports Slots
begin

text \<open>
  Completion tickets and quiescence guards
  (\<^verbatim>\<open>include/vita/runtime/completion/ticket.hpp\<close>). A slot's atomic word packs a
  generation and a state; publishers race for a slot with compare-and-exchange and one reader
  collects the result. Threads are modelled as an interleaving of the atomic steps the code
  takes: reserving (under the allocation mutex), claiming, finishing, and the two halves of
  consuming. Each slot carries a ghost log of what was reserved, finished and delivered; the
  invariant ties the log to the slot word and gives exactly-once delivery.
\<close>

section \<open>Slots\<close>

datatype completion_status = Succeeded | Failed | Cancelled | Abandoned

record completion_result =
  co_status :: completion_status
  co_error :: error
  co_value :: nat
  co_effective_monotonic_ns :: nat

record completion_record =
  cp_operation :: nat
  cp_result :: completion_result

datatype ticket_state = T_free | T_reserved | T_writing | T_ready | T_reading | T_retired

fun ticket_code :: "ticket_state \<Rightarrow> nat" where
  "ticket_code T_free = 0"
| "ticket_code T_reserved = 1"
| "ticket_code T_writing = 2"
| "ticket_code T_ready = 3"
| "ticket_code T_reading = 4"
| "ticket_code T_retired = 5"

definition max_ticket_generation :: nat where
  "max_ticket_generation = 72057594037927935"

definition tag :: "nat \<Rightarrow> ticket_state \<Rightarrow> nat" where
  "tag g s = g * 256 mod 18446744073709551616 + ticket_code s"

record completion_slot =
  tk_tagged :: nat
  tk_operation :: nat
  tk_payload :: completion_result

record completion_state =
  tk_slots :: "completion_slot list"
  tk_rejected :: nat

definition default_result :: completion_result where
  "default_result = \<lparr>co_status = Succeeded, co_error = err Invalid_state, co_value = 0,
     co_effective_monotonic_ns = 0\<rparr>"

definition make_completion :: "nat \<Rightarrow> nat \<Rightarrow> completion_state" where
  "make_completion n initial_generation =
     (let initial = (if initial_generation \<le> max_ticket_generation then initial_generation
                     else max_ticket_generation)
      in \<lparr>tk_slots = replicate n \<lparr>tk_tagged = tag initial T_free, tk_operation = 0,
                                   tk_payload = default_result\<rparr>, tk_rejected = 0\<rparr>)"

text \<open>\<open>static_cast<TicketState>(tagged & 255)\<close> compared with a state, and the generation.\<close>

definition in_state :: "completion_slot \<Rightarrow> ticket_state \<Rightarrow> bool" where
  "in_state sl s \<longleftrightarrow> tk_tagged sl mod 256 = ticket_code s"

definition generation_of :: "completion_slot \<Rightarrow> nat" where
  "generation_of sl = tk_tagged sl div 256"

section \<open>Operations\<close>

definition slot_reserve :: "nat \<Rightarrow> completion_slot \<Rightarrow> completion_slot" where
  "slot_reserve operation sl =
     sl\<lparr>tk_operation := operation, tk_tagged := tag (generation_of sl) T_reserved\<rparr>"

fun reserve_loop :: "nat \<Rightarrow> completion_slot list \<Rightarrow> (completion_slot list \<times> nat \<times> nat) option" where
  "reserve_loop operation [] = None"
| "reserve_loop operation (sl # sls) =
     (if \<not> in_state sl T_free
      then map_option (\<lambda>(sls', i, g). (sl # sls', i + 1, g)) (reserve_loop operation sls)
      else Some (slot_reserve operation sl # sls, 0, generation_of sl))"

text \<open>A publisher is its slot index and generation; a token is an owned publisher.\<close>

definition ticket_reserve :: "completion_state \<Rightarrow> nat \<Rightarrow> completion_state \<times> (nat \<times> nat) result" where
  "ticket_reserve st operation =
     (case reserve_loop operation (tk_slots st) of
        None \<Rightarrow> (st, Inl (err Capacity_exhausted))
      | Some (sls, i, g) \<Rightarrow> (st\<lparr>tk_slots := sls\<rparr>, Inr (i, g)))"

definition is_reserved :: "completion_state \<Rightarrow> nat \<times> nat \<Rightarrow> bool" where
  "is_reserved st p = (case p of (i, g) \<Rightarrow> tk_tagged (tk_slots st ! i) = tag g T_reserved)"

definition try_claim :: "completion_state \<Rightarrow> nat \<times> nat \<Rightarrow> completion_state \<times> bool" where
  "try_claim st p = (case p of (i, g) \<Rightarrow>
     if tk_tagged (tk_slots st ! i) = tag g T_reserved
     then (st\<lparr>tk_slots := (tk_slots st)[i := (tk_slots st ! i)\<lparr>tk_tagged := tag g T_writing\<rparr>]\<rparr>, True)
     else (st\<lparr>tk_rejected := (tk_rejected st + 1) mod 18446744073709551616\<rparr>, False))"

definition writer_finish :: "completion_state \<Rightarrow> nat \<times> nat \<Rightarrow> completion_result \<Rightarrow> completion_state" where
  "writer_finish st w res = (case w of (i, g) \<Rightarrow>
     st\<lparr>tk_slots := (tk_slots st)[i := (tk_slots st ! i)\<lparr>tk_payload := res, tk_tagged := tag g T_ready\<rparr>]\<rparr>)"

definition publish :: "completion_state \<Rightarrow> nat \<times> nat \<Rightarrow> completion_result \<Rightarrow> completion_state \<times> bool" where
  "publish st p res =
     (case try_claim st p of
        (st', False) \<Rightarrow> (st', False)
      | (st', True) \<Rightarrow> (writer_finish st' p res, True))"

record completion_token =
  ct_publisher :: "nat \<times> nat"
  ct_active :: bool

definition token_publish ::
  "completion_state \<Rightarrow> completion_token \<Rightarrow> completion_result \<Rightarrow> completion_state \<times> completion_token \<times> bool" where
  "token_publish st tok res =
     (if \<not> ct_active tok then (st, tok, False)
      else case publish st (ct_publisher tok) res of
        (st', ok) \<Rightarrow> (st', tok\<lparr>ct_active := False\<rparr>, ok))"

definition token_abandon :: "completion_state \<Rightarrow> completion_token \<Rightarrow> completion_state \<times> completion_token" where
  "token_abandon st tok =
     (if ct_active tok
      then (fst (publish st (ct_publisher tok)
              (default_result\<lparr>co_status := Abandoned, co_error := err Callback_failure\<rparr>)),
            tok\<lparr>ct_active := False\<rparr>)
      else (st, tok))"

definition consume_begin :: "completion_state \<Rightarrow> nat \<Rightarrow> (completion_state \<times> nat) option" where
  "consume_begin st i =
     (if i \<ge> length (tk_slots st) then None
      else let sl = tk_slots st ! i
      in if \<not> in_state sl T_ready then None
         else let g = generation_of sl
         in Some (st\<lparr>tk_slots := (tk_slots st)[i := sl\<lparr>tk_tagged := tag g T_reading\<rparr>]\<rparr>, g))"

definition consume_end :: "completion_state \<Rightarrow> nat \<Rightarrow> nat \<Rightarrow> completion_state \<times> completion_record" where
  "consume_end st i g =
     (let sl = tk_slots st ! i
      in (st\<lparr>tk_slots := (tk_slots st)[i := sl\<lparr>tk_payload := default_result,
            tk_tagged := (if g = max_ticket_generation then tag g T_retired else tag (g + 1) T_free)\<rparr>]\<rparr>,
          \<lparr>cp_operation = tk_operation sl, cp_result = tk_payload sl\<rparr>))"

definition consume :: "completion_state \<Rightarrow> nat \<Rightarrow> completion_state \<times> completion_record option" where
  "consume st i =
     (case consume_begin st i of
        None \<Rightarrow> (st, None)
      | Some (st', g) \<Rightarrow> (case consume_end st' i g of (st'', r) \<Rightarrow> (st'', Some r)))"

text \<open>\<open>scan\<close> consumes every slot in index order.\<close>

fun scan_loop :: "nat list \<Rightarrow> completion_state \<Rightarrow> completion_state \<times> completion_record list" where
  "scan_loop [] st = (st, [])"
| "scan_loop (i # is) st =
     (case consume st i of
        (st', None) \<Rightarrow> scan_loop is st'
      | (st', Some r) \<Rightarrow> (case scan_loop is st' of (st'', rs) \<Rightarrow> (st'', r # rs)))"

definition scan :: "completion_state \<Rightarrow> completion_state \<times> completion_record list" where
  "scan st = scan_loop [0..<length (tk_slots st)] st"

section \<open>Quiescence guards\<close>

text \<open>The shared state behind every copy of a guard; a guard carries the generation it was armed
  with. \<open>'s\<close> is the transmit storage kept alive until the provider is proved quiet.\<close>

record 's quiescence =
  qg_storage :: "'s option"
  qg_quarantined :: bool
  qg_generation :: nat

definition new_quiescence :: "'s quiescence" where
  "new_quiescence = \<lparr>qg_storage = None, qg_quarantined = False, qg_generation = 0\<rparr>"

definition guard_arm :: "'s quiescence \<Rightarrow> nat \<Rightarrow> 's \<Rightarrow> 's quiescence \<times> nat \<times> unit result" where
  "guard_arm q guard storage =
     (if qg_storage q \<noteq> None then (q, guard, Inl (err Invalid_state))
      else if qg_generation q = 18446744073709551615 then (q, guard, Inl (err Overflow))
      else (\<lparr>qg_storage = Some storage, qg_quarantined = True, qg_generation = qg_generation q + 1\<rparr>,
            qg_generation q + 1, Inr ()))"

definition guard_retained :: "'s quiescence \<Rightarrow> bool" where
  "guard_retained q \<longleftrightarrow> qg_storage q \<noteq> None"

definition prove_quiescent :: "'s quiescence \<Rightarrow> nat \<Rightarrow> 's quiescence \<times> bool" where
  "prove_quiescent q guard =
     (if guard \<noteq> qg_generation q \<or> qg_storage q = None then (q, False)
      else (q\<lparr>qg_storage := None, qg_quarantined := False\<rparr>, True))"

inductive quiescence_step :: "'s quiescence \<Rightarrow> 's quiescence \<Rightarrow> bool" where
  arm_step: "guard_arm q guard storage = (q', guard', res) \<Longrightarrow> quiescence_step q q'"
| quiet_step: "prove_quiescent q guard = (q', released) \<Longrightarrow> quiescence_step q q'"

section \<open>Slot words\<close>

lemma ticket_code_less: "ticket_code s < 256" and ticket_code_inject: "ticket_code s = ticket_code t \<longleftrightarrow> s = t"
  by (cases s; simp) (cases s; cases t; simp)

lemma tag_simps:
  assumes "g \<le> max_ticket_generation"
  shows "tag g s div 256 = g" and "tag g s mod 256 = ticket_code s"
proof -
  have "g * 256 mod 18446744073709551616 = g * 256"
    using assms by (simp add: max_ticket_generation_def)
  then show "tag g s div 256 = g" "tag g s mod 256 = ticket_code s"
    using ticket_code_less [of s] by (simp_all add: tag_def)
qed

lemma tag_inject:
  "g \<le> max_ticket_generation \<Longrightarrow> h \<le> max_ticket_generation \<Longrightarrow> tag g s = tag h t \<longleftrightarrow> g = h \<and> s = t"
  using tag_simps [of g s] tag_simps [of h t] ticket_code_inject by metis

section \<open>Interleavings\<close>

text \<open>The ghost log of one slot: what was reserved (generation, operation), which writers and
  readers are at work, what was finished (generation, result) and delivered, in order.\<close>

record slot_log =
  lg_reserved :: "(nat \<times> nat) set"
  lg_writers :: "nat set"
  lg_readers :: "nat set"
  lg_finished :: "(nat \<times> completion_result) set"
  lg_delivered :: "(nat \<times> completion_record) list"

definition empty_log :: slot_log where
  "empty_log = \<lparr>lg_reserved = {}, lg_writers = {}, lg_readers = {}, lg_finished = {}, lg_delivered = []\<rparr>"

type_synonym ticket_world = "completion_state \<times> (nat \<Rightarrow> slot_log)"

inductive ticket_step :: "ticket_world \<Rightarrow> ticket_world \<Rightarrow> bool" where
  reserve_step: "ticket_reserve st operation = (st', Inr (i, g)) \<Longrightarrow>
    ticket_step (st, l) (st', l(i := (l i)\<lparr>lg_reserved := insert (g, operation) (lg_reserved (l i))\<rparr>))"
| claim_step: "i < length (tk_slots st) \<Longrightarrow> g \<le> max_ticket_generation \<Longrightarrow> try_claim st (i, g) = (st', ok) \<Longrightarrow>
    ticket_step (st, l) (st', if ok then l(i := (l i)\<lparr>lg_writers := insert g (lg_writers (l i))\<rparr>) else l)"
| finish_step: "i < length (tk_slots st) \<Longrightarrow> g \<in> lg_writers (l i) \<Longrightarrow>
    ticket_step (st, l) (writer_finish st (i, g) res,
      l(i := (l i)\<lparr>lg_writers := lg_writers (l i) - {g}, lg_finished := insert (g, res) (lg_finished (l i))\<rparr>))"
| begin_step: "consume_begin st i = Some (st', g) \<Longrightarrow>
    ticket_step (st, l) (st', l(i := (l i)\<lparr>lg_readers := insert g (lg_readers (l i))\<rparr>))"
| end_step: "i < length (tk_slots st) \<Longrightarrow> g \<in> lg_readers (l i) \<Longrightarrow> consume_end st i g = (st', r) \<Longrightarrow>
    ticket_step (st, l) (st', l(i := (l i)\<lparr>lg_readers := lg_readers (l i) - {g},
      lg_delivered := lg_delivered (l i) @ [(g, r)]\<rparr>))"

definition slot_ok :: "nat \<Rightarrow> ticket_state \<Rightarrow> completion_slot \<Rightarrow> slot_log \<Rightarrow> bool" where
  "slot_ok g s sl l \<longleftrightarrow> g \<le> max_ticket_generation \<and> tk_tagged sl = tag g s
     \<and> (\<forall>g' op. (g', op) \<in> lg_reserved l \<longrightarrow> g' \<le> g \<and> (g' = g \<longrightarrow> s \<noteq> T_free \<and> op = tk_operation sl))
     \<and> (s \<noteq> T_free \<longrightarrow> (g, tk_operation sl) \<in> lg_reserved l)
     \<and> (\<forall>g' \<in> lg_writers l. g' = g \<and> s = T_writing)
     \<and> (\<forall>g' \<in> lg_readers l. g' = g \<and> s = T_reading)
     \<and> (\<forall>g' r. (g', r) \<in> lg_finished l \<longrightarrow> g' \<le> g
          \<and> (g' = g \<longrightarrow> (s = T_ready \<or> s = T_reading) \<and> r = tk_payload sl \<or> s = T_retired))
     \<and> (s = T_ready \<or> s = T_reading \<longrightarrow> (g, tk_payload sl) \<in> lg_finished l)
     \<and> (\<forall>g' r. (g', r) \<in> set (lg_delivered l) \<longrightarrow> g' \<le> g \<and> (g' = g \<longrightarrow> s = T_retired)
          \<and> (g', cp_operation r) \<in> lg_reserved l \<and> (g', cp_result r) \<in> lg_finished l)
     \<and> (\<forall>g' r. (g', r) \<in> lg_finished l \<longrightarrow> g' = g \<and> (s = T_ready \<or> s = T_reading)
          \<or> (\<exists>x. (g', x) \<in> set (lg_delivered l) \<and> cp_result x = r))
     \<and> distinct (map fst (lg_delivered l))"

definition slot_inv :: "completion_slot \<Rightarrow> slot_log \<Rightarrow> bool" where
  "slot_inv sl l \<longleftrightarrow> (\<exists>g s. slot_ok g s sl l)"

definition tickets_inv :: "ticket_world \<Rightarrow> bool" where
  "tickets_inv w \<longleftrightarrow> (\<forall>i < length (tk_slots (fst w)). slot_inv (tk_slots (fst w) ! i) (snd w i))"

lemma tickets_inv_update:
  assumes "tickets_inv (st, l)" and "tk_slots st' = (tk_slots st)[i := sl]"
    and "i < length (tk_slots st) \<Longrightarrow> slot_inv sl l'"
  shows "tickets_inv (st', l(i := l'))"
  using assms by (auto simp: tickets_inv_def nth_list_update)


lemma slot_ok_tag:
  assumes "slot_ok g s sl l"
  shows "generation_of sl = g" and "in_state sl t \<longleftrightarrow> s = t"
    and "h \<le> max_ticket_generation \<Longrightarrow> tk_tagged sl = tag h t \<longleftrightarrow> h = g \<and> s = t"
  using assms tag_simps [of g s] tag_inject [of g h s t] ticket_code_inject
  by (auto simp: slot_ok_def generation_of_def in_state_def)

lemma slot_reserve_ok:
  assumes "slot_ok g T_free sl l"
  shows "slot_ok g T_reserved (slot_reserve op sl) (l\<lparr>lg_reserved := insert (g, op) (lg_reserved l)\<rparr>)"
proof -
  have "generation_of sl = g" by (rule slot_ok_tag [OF assms])
  then show ?thesis using assms unfolding slot_ok_def by (auto simp: slot_reserve_def)
qed

lemma slot_claim_ok:
  assumes "slot_ok g T_reserved sl l"
  shows "slot_ok g T_writing (sl\<lparr>tk_tagged := tag g T_writing\<rparr>) (l\<lparr>lg_writers := insert g (lg_writers l)\<rparr>)"
  using assms unfolding slot_ok_def by auto

lemma slot_okD:
  assumes "slot_ok g s sl l"
  shows "g \<le> max_ticket_generation" and "tk_tagged sl = tag g s"
    and "(g', op) \<in> lg_reserved l \<Longrightarrow> g' \<le> g \<and> (g' = g \<longrightarrow> s \<noteq> T_free \<and> op = tk_operation sl)"
    and "s \<noteq> T_free \<Longrightarrow> (g, tk_operation sl) \<in> lg_reserved l"
    and "g' \<in> lg_writers l \<Longrightarrow> g' = g \<and> s = T_writing"
    and "g' \<in> lg_readers l \<Longrightarrow> g' = g \<and> s = T_reading"
    and "(g', r) \<in> lg_finished l \<Longrightarrow> g' \<le> g
      \<and> (g' = g \<longrightarrow> (s = T_ready \<or> s = T_reading) \<and> r = tk_payload sl \<or> s = T_retired)"
    and "s = T_ready \<or> s = T_reading \<Longrightarrow> (g, tk_payload sl) \<in> lg_finished l"
    and "(g', x) \<in> set (lg_delivered l) \<Longrightarrow> g' \<le> g \<and> (g' = g \<longrightarrow> s = T_retired)
      \<and> (g', cp_operation x) \<in> lg_reserved l \<and> (g', cp_result x) \<in> lg_finished l"
    and "(g', r) \<in> lg_finished l \<Longrightarrow> g' = g \<and> (s = T_ready \<or> s = T_reading)
      \<or> (\<exists>x. (g', x) \<in> set (lg_delivered l) \<and> cp_result x = r)"
    and "distinct (map fst (lg_delivered l))"
proof -
  note c = assms [unfolded slot_ok_def]
  show "g \<le> max_ticket_generation"
    by (rule c [THEN conjunct1, rule_format])
  show "tk_tagged sl = tag g s"
    by (rule c [THEN conjunct2, THEN conjunct1, rule_format])
  show "(g', op) \<in> lg_reserved l \<Longrightarrow> g' \<le> g \<and> (g' = g \<longrightarrow> s \<noteq> T_free \<and> op = tk_operation sl)"
    by (rule c [THEN conjunct2, THEN conjunct2, THEN conjunct1, rule_format])
  show "s \<noteq> T_free \<Longrightarrow> (g, tk_operation sl) \<in> lg_reserved l"
    by (rule c [THEN conjunct2, THEN conjunct2, THEN conjunct2, THEN conjunct1, rule_format])
  show "g' \<in> lg_writers l \<Longrightarrow> g' = g \<and> s = T_writing"
    by (rule c [THEN conjunct2, THEN conjunct2, THEN conjunct2, THEN conjunct2, THEN conjunct1, rule_format])
  show "g' \<in> lg_readers l \<Longrightarrow> g' = g \<and> s = T_reading"
    by (rule c [THEN conjunct2, THEN conjunct2, THEN conjunct2, THEN conjunct2, THEN conjunct2, THEN conjunct1, rule_format])
  show "(g', r) \<in> lg_finished l \<Longrightarrow> g' \<le> g
      \<and> (g' = g \<longrightarrow> (s = T_ready \<or> s = T_reading) \<and> r = tk_payload sl \<or> s = T_retired)"
    by (rule c [THEN conjunct2, THEN conjunct2, THEN conjunct2, THEN conjunct2, THEN conjunct2, THEN conjunct2, THEN conjunct1, rule_format])
  show "s = T_ready \<or> s = T_reading \<Longrightarrow> (g, tk_payload sl) \<in> lg_finished l"
    by (rule c [THEN conjunct2, THEN conjunct2, THEN conjunct2, THEN conjunct2, THEN conjunct2, THEN conjunct2, THEN conjunct2, THEN conjunct1, rule_format])
  show "(g', x) \<in> set (lg_delivered l) \<Longrightarrow> g' \<le> g \<and> (g' = g \<longrightarrow> s = T_retired)
      \<and> (g', cp_operation x) \<in> lg_reserved l \<and> (g', cp_result x) \<in> lg_finished l"
    by (rule c [THEN conjunct2, THEN conjunct2, THEN conjunct2, THEN conjunct2, THEN conjunct2, THEN conjunct2, THEN conjunct2, THEN conjunct2, THEN conjunct1, rule_format])
  show "(g', r) \<in> lg_finished l \<Longrightarrow> g' = g \<and> (s = T_ready \<or> s = T_reading)
      \<or> (\<exists>x. (g', x) \<in> set (lg_delivered l) \<and> cp_result x = r)"
    by (rule c [THEN conjunct2, THEN conjunct2, THEN conjunct2, THEN conjunct2, THEN conjunct2, THEN conjunct2, THEN conjunct2, THEN conjunct2, THEN conjunct2, THEN conjunct1, rule_format])
  show "distinct (map fst (lg_delivered l))"
    by (rule c [THEN conjunct2, THEN conjunct2, THEN conjunct2, THEN conjunct2, THEN conjunct2, THEN conjunct2, THEN conjunct2, THEN conjunct2, THEN conjunct2, THEN conjunct2, rule_format])
qed

text \<open>The same facts as an introduction rule, one goal each.\<close>

lemma slot_okI:
  assumes "g \<le> max_ticket_generation" and "tk_tagged sl = tag g s"
    and "\<And>g' op. (g', op) \<in> lg_reserved l \<Longrightarrow> g' \<le> g \<and> (g' = g \<longrightarrow> s \<noteq> T_free \<and> op = tk_operation sl)"
    and "s \<noteq> T_free \<Longrightarrow> (g, tk_operation sl) \<in> lg_reserved l"
    and "\<And>g'. g' \<in> lg_writers l \<Longrightarrow> g' = g \<and> s = T_writing"
    and "\<And>g'. g' \<in> lg_readers l \<Longrightarrow> g' = g \<and> s = T_reading"
    and "\<And>g' r. (g', r) \<in> lg_finished l \<Longrightarrow> g' \<le> g
      \<and> (g' = g \<longrightarrow> (s = T_ready \<or> s = T_reading) \<and> r = tk_payload sl \<or> s = T_retired)"
    and "s = T_ready \<or> s = T_reading \<Longrightarrow> (g, tk_payload sl) \<in> lg_finished l"
    and "\<And>g' x. (g', x) \<in> set (lg_delivered l) \<Longrightarrow> g' \<le> g \<and> (g' = g \<longrightarrow> s = T_retired)
      \<and> (g', cp_operation x) \<in> lg_reserved l \<and> (g', cp_result x) \<in> lg_finished l"
    and "\<And>g' r. (g', r) \<in> lg_finished l \<Longrightarrow> g' = g \<and> (s = T_ready \<or> s = T_reading)
      \<or> (\<exists>x. (g', x) \<in> set (lg_delivered l) \<and> cp_result x = r)"
    and "distinct (map fst (lg_delivered l))"
  shows "slot_ok g s sl l"
  unfolding slot_ok_def
  by (intro conjI [OF assms(1) conjI [OF assms(2) conjI [OF _ conjI [OF _ conjI [OF _ conjI [OF _ conjI
        [OF _ conjI [OF _ conjI [OF _ conjI [OF _ assms(11)]]]]]]]]]] allI impI ballI)
     (erule assms)+

lemma slot_finish_ok:
  assumes "slot_ok g s sl l" and "g' \<in> lg_writers l"
  shows "slot_ok g T_ready (sl\<lparr>tk_payload := res, tk_tagged := tag g' T_ready\<rparr>)
    (l\<lparr>lg_writers := lg_writers l - {g'}, lg_finished := insert (g', res) (lg_finished l)\<rparr>)"
proof -
  note d = slot_okD [OF assms(1)]
  have e: "g' = g" "s = T_writing" using d(5) assms(2) by auto
  have fin: "h < g" if "(h, r) \<in> lg_finished l" for h r using d(7) [OF that] e by auto
  have del: "h < g \<and> (h, cp_operation x) \<in> lg_reserved l \<and> (h, cp_result x) \<in> lg_finished l"
    if "(h, x) \<in> set (lg_delivered l)" for h x using d(9) [OF that] e by auto
  have dlv: "\<exists>x. (h, x) \<in> set (lg_delivered l) \<and> cp_result x = r" if "(h, r) \<in> lg_finished l" for h r
    using d(10) [OF that] e by auto
  have wr: "lg_writers l - {g} = {}" "lg_readers l = {}" using d(5,6) e by auto
  show ?thesis
  proof (rule slot_okI, goal_cases)
    case (7 h r)
    then show ?case using fin [of h r] e(1) by auto
  next
    case (9 h x)
    then show ?case using del by force
  next
    case (10 h r)
    then show ?case using dlv e(1) by auto
  next
    case (3 h op)
    then show ?case using d(3) [of h op] by simp
  qed (use d(1,4,11) e wr in simp_all)
qed

lemma slot_begin_ok:
  assumes "slot_ok g T_ready sl l"
  shows "slot_ok g T_reading (sl\<lparr>tk_tagged := tag g T_reading\<rparr>) (l\<lparr>lg_readers := insert g (lg_readers l)\<rparr>)"
  using assms unfolding slot_ok_def by auto

lemma slot_end_ok:
  assumes "slot_ok g s sl l" and "g' \<in> lg_readers l"
  defines "final \<equiv> g = max_ticket_generation"
  shows "slot_ok (if final then g else g + 1) (if final then T_retired else T_free)
    (sl\<lparr>tk_payload := default_result,
        tk_tagged := (if g' = max_ticket_generation then tag g' T_retired else tag (g' + 1) T_free)\<rparr>)
    (l\<lparr>lg_readers := lg_readers l - {g'},
       lg_delivered := lg_delivered l @ [(g', \<lparr>cp_operation = tk_operation sl, cp_result = tk_payload sl\<rparr>)]\<rparr>)"
proof -
  have e: "g' = g" "s = T_reading" using assms by (auto simp: slot_ok_def)
  note d = slot_okD [OF assms(1)]
  have del: "h < g \<and> (h, cp_operation x) \<in> lg_reserved l \<and> (h, cp_result x) \<in> lg_finished l"
    if "(h, x) \<in> set (lg_delivered l)" for h x using d(9) [OF that] e(2) by auto
  have fresh: "g \<notin> fst ` set (lg_delivered l)" using del by fastforce
  have mem: "(g, tk_operation sl) \<in> lg_reserved l" "(g, tk_payload sl) \<in> lg_finished l"
    using d(4,8) e(2) by auto
  have fin: "h \<le> g \<and> (h = g \<longrightarrow> r = tk_payload sl)" if "(h, r) \<in> lg_finished l" for h r
    using d(7) [OF that] e(2) by auto
  have dlv: "h = g \<or> (\<exists>x. (h, x) \<in> set (lg_delivered l) \<and> cp_result x = r)" if "(h, r) \<in> lg_finished l" for h r
    using d(10) [OF that] by auto
  have rd: "lg_readers l - {g} = {}" "lg_writers l = {}" using d(5,6) e by auto
  have res: "h \<le> g" if "(h, op) \<in> lg_reserved l" for h op using d(3) [OF that] by simp
  let ?x = "\<lparr>cp_operation = tk_operation sl, cp_result = tk_payload sl\<rparr>"
  have del': "h \<le> g \<and> (h, cp_operation x) \<in> lg_reserved l \<and> (h, cp_result x) \<in> lg_finished l"
    if "(h, x) \<in> set (lg_delivered l @ [(g, ?x)])" for h x using that del [of h x] mem by auto
  have dlv': "\<exists>x. (h, x) \<in> set (lg_delivered l @ [(g, ?x)]) \<and> cp_result x = r"
    if "(h, r) \<in> lg_finished l" for h r using dlv [OF that] fin [OF that] by fastforce
  have dist: "distinct (map fst (lg_delivered l @ [(g, ?x)]))" using d(11) fresh by auto
  show ?thesis
  proof (rule slot_okI, goal_cases)
    case (3 h op)
    then show ?case using d(3) [of h op] res [of h op] e(2) by (auto simp: final_def)
  next
    case (7 h r)
    then show ?case using fin [of h r] by (auto simp: final_def)
  next
    case (9 h x)
    then show ?case using del' [of h x] e(1) by (auto simp: final_def)
  next
    case (10 h r)
    then show ?case using dlv' [of h r] e(1) by auto
  next
    case 11
    then show ?case using dist e(1) by simp
  qed (use d(1) e rd mem in \<open>auto simp: final_def\<close>)
qed

lemma reserve_loop_Some:
  assumes "reserve_loop op sls = Some (sls', i, g)"
  shows "i < length sls" and "in_state (sls ! i) T_free" and "g = generation_of (sls ! i)"
    and "sls' = sls[i := slot_reserve op (sls ! i)]"
proof -
  have "i < length sls \<and> in_state (sls ! i) T_free \<and> g = generation_of (sls ! i)
      \<and> sls' = sls[i := slot_reserve op (sls ! i)]"
    using assms by (induction sls arbitrary: sls' i g) (auto split: if_splits)
  then show "i < length sls" "in_state (sls ! i) T_free" "g = generation_of (sls ! i)"
    "sls' = sls[i := slot_reserve op (sls ! i)]" by auto
qed

lemma slot_invI: "slot_ok g s sl l \<Longrightarrow> slot_inv sl l"
  unfolding slot_inv_def by blast

lemma ticket_step_inv:
  assumes "ticket_step w w'" and "tickets_inv w"
  shows "tickets_inv w'"
  using assms(1)
proof (cases rule: ticket_step.cases)
  case (reserve_step st operation st' i g l)
  then obtain sls where r: "reserve_loop operation (tk_slots st) = Some (sls, i, g)" "st' = st\<lparr>tk_slots := sls\<rparr>"
    by (auto simp: ticket_reserve_def split: option.splits)
  note rl = reserve_loop_Some [OF r(1)]
  obtain h s where ok: "slot_ok h s (tk_slots st ! i) (l i)"
    using assms(2) rl(1) reserve_step(1) by (auto simp: tickets_inv_def slot_inv_def)
  have "slot_ok g T_free (tk_slots st ! i) (l i)"
    using ok rl(2,3) slot_ok_tag [OF ok] by simp
  from slot_reserve_ok [OF this, of operation] show ?thesis
    using assms(2) rl(4) r(2) reserve_step(1,2)
    by (auto intro!: tickets_inv_update [of st l] intro: slot_invI)
next
  case (claim_step i st g st' ok l)
  obtain h s where sl: "slot_ok h s (tk_slots st ! i) (l i)"
    using assms(2) claim_step by (auto simp: tickets_inv_def slot_inv_def)
  show ?thesis
  proof (cases "tk_tagged (tk_slots st ! i) = tag g T_reserved")
    case True
    then have "slot_ok g T_reserved (tk_slots st ! i) (l i)"
      using sl slot_ok_tag(3) [OF sl claim_step(4)] by simp
    from slot_claim_ok [OF this] show ?thesis
      using assms(2) claim_step True
      by (auto intro!: tickets_inv_update [of st l] intro: slot_invI simp: try_claim_def)
  next
    case False
    then show ?thesis using assms(2) claim_step by (auto simp: try_claim_def tickets_inv_def)
  qed
next
  case (finish_step i st g l res)
  obtain h s where sl: "slot_ok h s (tk_slots st ! i) (l i)"
    using assms(2) finish_step by (auto simp: tickets_inv_def slot_inv_def)
  from slot_finish_ok [OF sl finish_step(4)] show ?thesis
    using assms(2) finish_step
    by (auto intro!: tickets_inv_update [of st l] intro: slot_invI simp: writer_finish_def)
next
  case (begin_step st i st' g l)
  then have b: "i < length (tk_slots st)" "in_state (tk_slots st ! i) T_ready" "g = generation_of (tk_slots st ! i)"
    "st' = st\<lparr>tk_slots := (tk_slots st)[i := (tk_slots st ! i)\<lparr>tk_tagged := tag g T_reading\<rparr>]\<rparr>"
    by (auto simp: consume_begin_def Let_def split: if_splits)
  obtain h s where sl: "slot_ok h s (tk_slots st ! i) (l i)"
    using assms(2) begin_step(1) b(1) by (auto simp: tickets_inv_def slot_inv_def)
  have "slot_ok g T_ready (tk_slots st ! i) (l i)" using sl b(2,3) slot_ok_tag [OF sl] by simp
  from slot_begin_ok [OF this] show ?thesis
    using assms(2) begin_step(1,2) b(4)
    by (auto intro!: tickets_inv_update [of st l] intro: slot_invI)
next
  case (end_step i st g l st' r)
  obtain h s where sl: "slot_ok h s (tk_slots st ! i) (l i)"
    using assms(2) end_step by (auto simp: tickets_inv_def slot_inv_def)
  from slot_end_ok [OF sl end_step(4)] show ?thesis
    using assms(2) end_step
    by (auto intro!: tickets_inv_update [of st l] intro: slot_invI simp: consume_end_def Let_def)
qed


section \<open>Properties\<close>

definition ticket_run :: "nat \<Rightarrow> nat \<Rightarrow> ticket_world \<Rightarrow> bool" where
  "ticket_run n initial w \<longleftrightarrow> ticket_step\<^sup>*\<^sup>* (make_completion n initial, \<lambda>i. empty_log) w"

lemma ticket_run_inv: "ticket_run n initial w \<Longrightarrow> tickets_inv w"
  unfolding ticket_run_def
proof (induction rule: rtranclp_induct)
  case base
  have "slot_ok (min initial max_ticket_generation) T_free (tk_slots (make_completion n initial) ! i) empty_log"
    if "i < n" for i
    using that by (intro slot_okI) (auto simp: make_completion_def empty_log_def min_def Let_def)
  then have "slot_inv (tk_slots (make_completion n initial) ! i) empty_log" if "i < n" for i
    using that slot_invI by blast
  then show ?case by (simp add: tickets_inv_def make_completion_def Let_def)
qed (rule ticket_step_inv)

text \<open>C27: completions are delivered exactly once under any interleaving of reservers, racing
  publishers and readers: a slot delivers at most one record per generation; the record
  carries the operation that was reserved and the result of the one publisher that won the
  slot; every finished result has been delivered or is still in the slot, ready or being
  read.\<close>

theorem completion_exactly_once:
  assumes "ticket_run n initial (st, l)" and "i < length (tk_slots st)"
  shows "distinct (map fst (lg_delivered (l i)))
    \<and> (\<forall>(g, r) \<in> set (lg_delivered (l i)).
         (g, cp_operation r) \<in> lg_reserved (l i) \<and> (g, cp_result r) \<in> lg_finished (l i))
    \<and> (\<forall>g r r'. (g, r) \<in> lg_finished (l i) \<longrightarrow> (g, r') \<in> lg_finished (l i) \<longrightarrow> r = r')
    \<and> (\<forall>(g, r) \<in> lg_finished (l i). (\<exists>x. (g, x) \<in> set (lg_delivered (l i)) \<and> cp_result x = r)
         \<or> (g = generation_of (tk_slots st ! i) \<and> r = tk_payload (tk_slots st ! i)
             \<and> (in_state (tk_slots st ! i) T_ready \<or> in_state (tk_slots st ! i) T_reading)))"
proof -
  obtain g s where ok: "slot_ok g s (tk_slots st ! i) (l i)"
    using ticket_run_inv [OF assms(1)] assms(2) by (auto simp: tickets_inv_def slot_inv_def)
  note d = slot_okD [OF ok] and tg = slot_ok_tag [OF ok]
  have once: "(h, x) \<in> set (lg_delivered (l i)) \<Longrightarrow> (h, y) \<in> set (lg_delivered (l i)) \<Longrightarrow> x = y" for h x y
    using d(11) by (meson eq_key_imp_eq_value)
  have split: "(\<exists>x. (h, x) \<in> set (lg_delivered (l i)) \<and> cp_result x = r) \<and> \<not> (h = g \<and> (s = T_ready \<or> s = T_reading))
      \<or> h = g \<and> r = tk_payload (tk_slots st ! i) \<and> (s = T_ready \<or> s = T_reading)"
    if "(h, r) \<in> lg_finished (l i)" for h r
    using d(7,10) [OF that] by auto
  have "r = r'" if "(h, r) \<in> lg_finished (l i)" "(h, r') \<in> lg_finished (l i)" for h r r'
    using split [OF that(1)] split [OF that(2)] once by auto
  moreover have "(\<exists>x. (h, x) \<in> set (lg_delivered (l i)) \<and> cp_result x = r)
         \<or> (h = generation_of (tk_slots st ! i) \<and> r = tk_payload (tk_slots st ! i)
             \<and> (in_state (tk_slots st ! i) T_ready \<or> in_state (tk_slots st ! i) T_reading))"
    if "(h, r) \<in> lg_finished (l i)" for h r
    using split [OF that] tg by auto
  moreover have "(h, cp_operation r) \<in> lg_reserved (l i) \<and> (h, cp_result r) \<in> lg_finished (l i)"
    if "(h, r) \<in> set (lg_delivered (l i))" for h r
    using d(9) [OF that] by simp
  ultimately show ?thesis using d(11) by blast
qed

lemma sample_ticket_run: "ticket_run 1 1 (make_completion 1 1, \<lambda>i. empty_log)"
  by (simp add: ticket_run_def)

text \<open>One full cycle of a one-slot arena.\<close>

lemma sample_ticket_cycle:
  "\<exists>st l. ticket_run 1 1 (st, l) \<and> length (tk_slots st) = 1
     \<and> lg_delivered (l 0) = [(1, \<lparr>cp_operation = 7, cp_result = default_result\<rparr>)]"
proof -
  let ?s = "\<lambda>g s op. \<lparr>tk_slots = [\<lparr>tk_tagged = tag g s, tk_operation = op, tk_payload = default_result\<rparr>],
      tk_rejected = 0\<rparr>"
  let ?l = "\<lambda>w r f d. (\<lambda>i. empty_log)(0 := \<lparr>lg_reserved = {(1, 7)}, lg_writers = w, lg_readers = r,
      lg_finished = f, lg_delivered = d\<rparr>)"
  let ?r = "\<lparr>cp_operation = 7, cp_result = default_result\<rparr>"
  note ev = in_state_def generation_of_def tag_def max_ticket_generation_def Let_def empty_log_def
  have s0: "make_completion 1 1 = ?s 1 T_free 0" by (simp add: make_completion_def ev)
  have "ticket_step (?s 1 T_free 0, \<lambda>i. empty_log) (?s 1 T_reserved 7, ?l {} {} {} [])"
    using reserve_step [of "?s 1 T_free 0" 7 "?s 1 T_reserved 7" 0 1 "\<lambda>i. empty_log"]
    by (simp add: ticket_reserve_def slot_reserve_def ev)
  moreover have "ticket_step (?s 1 T_reserved 7, ?l {} {} {} []) (?s 1 T_writing 7, ?l {1} {} {} [])"
    using claim_step [of 0 "?s 1 T_reserved 7" 1 "?s 1 T_writing 7" True "?l {} {} {} []"]
    by (simp add: try_claim_def ev)
  moreover have "ticket_step (?s 1 T_writing 7, ?l {1} {} {} [])
      (?s 1 T_ready 7, ?l {} {} {(1, default_result)} [])"
    using finish_step [of 0 "?s 1 T_writing 7" 1 "?l {1} {} {} []" default_result]
    by (simp add: writer_finish_def ev)
  moreover have "ticket_step (?s 1 T_ready 7, ?l {} {} {(1, default_result)} [])
      (?s 1 T_reading 7, ?l {} {1} {(1, default_result)} [])"
    using begin_step [of "?s 1 T_ready 7" 0 "?s 1 T_reading 7" 1 "?l {} {} {(1, default_result)} []"]
    by (simp add: consume_begin_def ev)
  moreover have "ticket_step (?s 1 T_reading 7, ?l {} {1} {(1, default_result)} [])
      (?s 2 T_free 7, ?l {} {} {(1, default_result)} [(1, ?r)])"
    using end_step [of 0 "?s 1 T_reading 7" 1 "?l {} {1} {(1, default_result)} []" "?s 2 T_free 7" ?r]
    by (simp add: consume_end_def ev)
  ultimately have "ticket_run 1 1 (?s 2 T_free 7, ?l {} {} {(1, default_result)} [(1, ?r)])"
    unfolding ticket_run_def s0 by (meson converse_rtranclp_into_rtranclp rtranclp.rtrancl_refl)
  then show ?thesis
    by (intro exI [of _ "?s 2 T_free 7"] exI [of _ "?l {} {} {(1, default_result)} [(1, ?r)]"]) simp
qed

theorem completion_exactly_once_witness:
  "\<exists>st l. ticket_run 1 1 (st, l) \<and> lg_delivered (l 0) \<noteq> [] \<and> distinct (map fst (lg_delivered (l 0)))
     \<and> (1, 7) \<in> lg_reserved (l 0) \<and> (1, default_result) \<in> lg_finished (l 0)"
proof -
  obtain st l where w: "ticket_run 1 1 (st, l)" "length (tk_slots st) = 1"
    "lg_delivered (l 0) = [(1, \<lparr>cp_operation = 7, cp_result = default_result\<rparr>)]"
    using sample_ticket_cycle by blast
  then show ?thesis using completion_exactly_once [OF w(1), of 0] by (auto intro!: exI [of _ st] exI [of _ l])
qed

text \<open>a reserved ticket can be published exactly once: the first publication succeeds, every
  later one by a copy of the publisher is counted as rejected and changes no slot; consuming
  returns the operation with the published result and frees the slot under the next
  generation, so publishers of the old generation stay locked out.\<close>

theorem ticket_life_cycle:
  assumes "ticket_run n initial (st, l)" and "ticket_reserve st op = (st1, Inr (i, g))"
  shows "\<exists>st2 st4. publish st1 (i, g) res = (st2, True)
    \<and> (\<exists>st3. publish st2 (i, g) res' = (st3, False) \<and> tk_slots st3 = tk_slots st2)
    \<and> consume st2 i = (st4, Some \<lparr>cp_operation = op, cp_result = res\<rparr>)
    \<and> (\<exists>st5. publish st4 (i, g) res' = (st5, False) \<and> tk_slots st5 = tk_slots st4)
    \<and> (g = max_ticket_generation \<longrightarrow> in_state (tk_slots st4 ! i) T_retired)
    \<and> (g \<noteq> max_ticket_generation \<longrightarrow> in_state (tk_slots st4 ! i) T_free
         \<and> generation_of (tk_slots st4 ! i) = g + 1)"
proof -
  obtain sls where r: "reserve_loop op (tk_slots st) = Some (sls, i, g)" "st1 = st\<lparr>tk_slots := sls\<rparr>"
    using assms(2) by (auto simp: ticket_reserve_def split: option.splits)
  note rl = reserve_loop_Some [OF r(1)]
  obtain h s where ok: "slot_ok h s (tk_slots st ! i) (l i)"
    using ticket_run_inv [OF assms(1)] rl(1) by (auto simp: tickets_inv_def slot_inv_def)
  have gm: "g \<le> max_ticket_generation" using slot_okD(1) [OF ok] slot_ok_tag(1) [OF ok] rl(3) by simp
  let ?i = "i < length sls"
  have i: ?i and sl: "tk_operation (sls ! i) = op" "tk_tagged (sls ! i) = tag g T_reserved"
    using rl by (simp_all add: slot_reserve_def)
  have ts: "tag g t div 256 = g" "tag g t mod 256 = ticket_code t" "tag g t = tag g u \<longleftrightarrow> t = u" for t u
    using tag_simps [OF gm] tag_inject [OF gm gm] by simp_all
  have up: "g \<noteq> max_ticket_generation \<Longrightarrow> tag (g + 1) t div 256 = g + 1 \<and> tag (g + 1) t mod 256 = ticket_code t
      \<and> tag (g + 1) t \<noteq> tag g u" for t u
    using gm tag_simps [of "g + 1" t] tag_inject [of "g + 1" g t u] by simp
  note run = r(2) publish_def try_claim_def writer_finish_def consume_def consume_begin_def
    consume_end_def in_state_def generation_of_def Let_def
  show ?thesis
  proof (cases "g = max_ticket_generation")
    case True
    then show ?thesis using i sl by (simp add: run ts [unfolded True])
  next
    case False
    then show ?thesis using i sl up [of T_free T_reserved] by (simp add: run ts)
  qed
qed

lemma sample_reserve: "\<exists>st1. ticket_reserve (make_completion 1 1) 7 = (st1, Inr (0, 1))"
  by (simp add: ticket_reserve_def make_completion_def in_state_def generation_of_def tag_def
      max_ticket_generation_def Let_def)

theorem ticket_life_cycle_witness:
  "\<exists>st1 st2. ticket_reserve (make_completion 1 1) 7 = (st1, Inr (0, 1))
     \<and> publish st1 (0, 1) default_result = (st2, True)"
  using sample_reserve ticket_life_cycle [OF sample_ticket_run, of 7] by blast

text \<open>Evidence of quiescence is generation-bound: storage is released only by a guard of the
  generation that armed it; once the guard is re-armed, no older guard copy can release the
  new storage or change anything, however late its callback comes.\<close>

theorem stale_quiescence_rejected:
  assumes "quiescence_step\<^sup>*\<^sup>* q q'" and "guard < qg_generation q"
  shows "prove_quiescent q' guard = (q', False)"
proof -
  have "qg_generation q \<le> qg_generation q'"
    using assms(1)
  proof (induction rule: rtranclp_induct)
    case (step a b)
    then show ?case
      by (auto simp: guard_arm_def prove_quiescent_def elim!: quiescence_step.cases split: if_splits)
  qed simp
  then show ?thesis using assms(2) by (simp add: prove_quiescent_def)
qed

theorem stale_quiescence_rejected_witness:
  "prove_quiescent \<lparr>qg_storage = Some (0 :: nat), qg_quarantined = True, qg_generation = 2\<rparr> 1
     = (\<lparr>qg_storage = Some 0, qg_quarantined = True, qg_generation = 2\<rparr>, False)"
  by (rule stale_quiescence_rejected [OF rtranclp.rtrancl_refl]) simp

end
