(* ===== verification/Admission.thy ===== *)
theory Admission
  imports Slots
begin

text \<open>
  Resource admission (\<^verbatim>\<open>include/vita/runtime/execution/admission.hpp\<close>) and the slot
  arena (\<^verbatim>\<open>include/vita/runtime/execution/arena.hpp\<close>). A pool counts the credits it
  has handed out; bundles own them. A run of the program is a sequence of steps on one pool
  and the bundles that were ever made from it (a null bundle holds nothing). The locale
  \<open>provider\<close> is the contract the pool and the arena share: acquiring and immediately
  releasing is no change, and refusing is no change; composite acquisition
  (\<open>AdmittedStorage\<close>) is proved all-or-nothing from it.
\<close>

section \<open>Requests\<close>

datatype resource = Transaction | Plan_bytes | Schedule | Revision | Completion | Response
  | Duplicate_entry | Duplicate_bytes | Context_publication | Ordinary_queue | Cancellation_queue
  | Cancellation_response | Emergency_response | Data_queue | Resource_count

fun resource_index :: "resource \<Rightarrow> nat" where
  "resource_index Transaction = 0"
| "resource_index Plan_bytes = 1"
| "resource_index Schedule = 2"
| "resource_index Revision = 3"
| "resource_index Completion = 4"
| "resource_index Response = 5"
| "resource_index Duplicate_entry = 6"
| "resource_index Duplicate_bytes = 7"
| "resource_index Context_publication = 8"
| "resource_index Ordinary_queue = 9"
| "resource_index Cancellation_queue = 10"
| "resource_index Cancellation_response = 11"
| "resource_index Emergency_response = 12"
| "resource_index Data_queue = 13"
| "resource_index Resource_count = 14"

definition resource_count :: nat where
  "resource_count = resource_index Resource_count"

record admission_request =
  ar_counts :: "nat list"
  ar_valid :: bool

definition empty_request :: admission_request where
  "empty_request = \<lparr>ar_counts = replicate resource_count 0, ar_valid = True\<rparr>"

definition need :: "admission_request \<Rightarrow> resource \<Rightarrow> nat \<Rightarrow> admission_request" where
  "need q r n =
     (if resource_index r \<ge> resource_count then q\<lparr>ar_valid := False\<rparr>
      else q\<lparr>ar_counts := (ar_counts q)[resource_index r := n]\<rparr>)"

record admission_state =
  as_capacities :: admission_request
  as_used :: admission_request
  as_open :: bool

text \<open>A bundle's \<open>state_\<close> pointer is the identity of its pool, \<open>None\<close> when null.\<close>

record admission_bundle =
  ab_state :: "nat option"
  ab_held :: admission_request

definition null_bundle :: admission_bundle where
  "null_bundle = \<lparr>ab_state = None, ab_held = empty_request\<rparr>"

definition make_pool :: "admission_request \<Rightarrow> admission_state" where
  "make_pool capacities = \<lparr>as_capacities = capacities, as_used = empty_request, as_open = True\<rparr>"

definition bundle_reset :: "admission_state \<Rightarrow> admission_bundle \<Rightarrow> admission_state \<times> admission_bundle" where
  "bundle_reset st b =
     (if ab_state b = None then (st, b)
      else (st\<lparr>as_used := (as_used st)\<lparr>ar_counts :=
              map2 size_sub (ar_counts (as_used st)) (ar_counts (ab_held b))\<rparr>\<rparr>,
            null_bundle))"

definition bundle_transfer ::
  "admission_bundle \<Rightarrow> admission_request \<Rightarrow> admission_bundle \<times> admission_bundle result" where
  "bundle_transfer b request =
     (if ab_state b = None then (b, Inl (err Invalid_state))
      else if \<not> ar_valid request then (b, Inl (err Invalid_argument))
      else if \<exists>i \<in> set [0..<resource_count]. ar_counts request ! i > ar_counts (ab_held b) ! i
      then (b, Inl (err Invalid_argument))
      else (b\<lparr>ab_held := (ab_held b)\<lparr>ar_counts :=
              map2 size_sub (ar_counts (ab_held b)) (ar_counts request)\<rparr>\<rparr>,
            Inr \<lparr>ab_state = ab_state b, ab_held = request\<rparr>))"

definition bundle_held :: "admission_bundle \<Rightarrow> resource \<Rightarrow> nat" where
  "bundle_held b r = (if resource_index r < resource_count
     then ar_counts (ab_held b) ! resource_index r else 0)"

definition pool_acquire ::
  "nat \<Rightarrow> admission_state \<Rightarrow> admission_request \<Rightarrow> admission_state \<times> admission_bundle result" where
  "pool_acquire pid st request =
     (if \<not> ar_valid request \<or> \<not> ar_valid (as_capacities st) then (st, Inl (err Invalid_argument))
      else if \<not> as_open st then (st, Inl (err Invalid_state))
      else if \<exists>i \<in> set [0..<resource_count]. ar_counts request ! i
                > size_sub (ar_counts (as_capacities st) ! i) (ar_counts (as_used st) ! i)
      then (st, Inl (err Capacity_exhausted))
      else (st\<lparr>as_used := (as_used st)\<lparr>ar_counts :=
              map2 size_add (ar_counts (as_used st)) (ar_counts request)\<rparr>\<rparr>,
            Inr \<lparr>ab_state = Some pid, ab_held = request\<rparr>))"

definition pool_owns :: "nat \<Rightarrow> admission_bundle \<Rightarrow> bool" where
  "pool_owns pid b \<longleftrightarrow> ab_state b = Some pid"

definition pool_capacity :: "admission_state \<Rightarrow> resource \<Rightarrow> nat" where
  "pool_capacity st r = (if resource_index r < resource_count
     then ar_counts (as_capacities st) ! resource_index r else 0)"

definition pool_used :: "admission_state \<Rightarrow> resource \<Rightarrow> nat" where
  "pool_used st r = (if resource_index r < resource_count
     then ar_counts (as_used st) ! resource_index r else 0)"

definition pool_close :: "admission_state \<Rightarrow> admission_state" where
  "pool_close st = st\<lparr>as_open := False\<rparr>"

definition reference_capacities :: admission_request where
  "reference_capacities =
     fold (\<lambda>(r, n) q. need q r n)
       [(Transaction, 256), (Plan_bytes, 2097152), (Schedule, 128), (Revision, 2048),
        (Completion, 1024), (Response, 768), (Duplicate_entry, 4096), (Duplicate_bytes, 8388608),
        (Context_publication, 2048), (Ordinary_queue, 256), (Data_queue, 4096),
        (Cancellation_queue, 64), (Cancellation_response, 64), (Emergency_response, 256)]
       empty_request"

text \<open>Move assignment \<open>bundles[j] = std::move(bundles[i])\<close>.\<close>

definition bundle_move :: "admission_state \<Rightarrow> admission_bundle list \<Rightarrow> nat \<Rightarrow> nat
    \<Rightarrow> admission_state \<times> admission_bundle list" where
  "bundle_move st bs j i =
     (if i = j then (st, bs)
      else let (st', _) = bundle_reset st (bs ! j)
           in (st', bs[j := bs ! i, i := null_bundle]))"

section \<open>The slot arena\<close>

record slot_arena =
  sa_slots :: "bytes list"
  sa_busy :: "bool list"

definition make_arena :: "nat \<Rightarrow> nat \<Rightarrow> slot_arena" where
  "make_arena n bytes_per_slot =
     \<lparr>sa_slots = replicate n (replicate bytes_per_slot 0), sa_busy = replicate n False\<rparr>"

text \<open>A lease is its slot; the null lease is \<open>None\<close>.\<close>

fun first_idle :: "bool list \<Rightarrow> nat option" where
  "first_idle [] = None"
| "first_idle (b # bs) = (if \<not> b then Some 0 else map_option Suc (first_idle bs))"

definition arena_acquire :: "nat \<Rightarrow> slot_arena \<Rightarrow> nat \<Rightarrow> slot_arena \<times> nat result" where
  "arena_acquire bytes_per_slot a required =
     (if required > bytes_per_slot then (a, Inl (err Capacity_exhausted))
      else case first_idle (sa_busy a) of
        Some i \<Rightarrow> (a\<lparr>sa_busy := (sa_busy a)[i := True]\<rparr>, Inr i)
      | None \<Rightarrow> (a, Inl (err Capacity_exhausted)))"

definition lease_reset :: "slot_arena \<Rightarrow> nat option \<Rightarrow> slot_arena \<times> nat option" where
  "lease_reset a lease = (case lease of None \<Rightarrow> (a, None)
     | Some i \<Rightarrow> (a\<lparr>sa_busy := (sa_busy a)[i := False]\<rparr>, None))"

definition lease_bytes :: "slot_arena \<Rightarrow> nat option \<Rightarrow> bytes" where
  "lease_bytes a lease = (case lease of None \<Rightarrow> [] | Some i \<Rightarrow> sa_slots a ! i)"

text \<open>Credits and storage acquired together; when the arena refuses, the credits go out of
  scope and are released.\<close>

definition admitted_storage_acquire :: "nat \<Rightarrow> nat \<Rightarrow> nat \<Rightarrow> admission_state \<Rightarrow> slot_arena
    \<Rightarrow> admission_request \<Rightarrow> nat
    \<Rightarrow> admission_state \<times> slot_arena \<times> (admission_bundle \<times> nat) result" where
  "admitted_storage_acquire pid n bytes_per_slot st a request required =
     (if ar_counts request ! resource_index Plan_bytes < required
         \<or> pool_capacity st Plan_bytes > n * bytes_per_slot
      then (st, a, Inl (err Invalid_argument))
      else case pool_acquire pid st request of
        (st1, Inl e) \<Rightarrow> (st1, a, Inl e)
      | (st1, Inr reserved) \<Rightarrow>
          (case arena_acquire bytes_per_slot a required of
             (a1, Inl e) \<Rightarrow> (fst (bundle_reset st1 reserved), a1, Inl e)
           | (a1, Inr slot) \<Rightarrow> (st1, a1, Inr (reserved, slot))))"

section \<open>Conservation of credits\<close>

definition request_ok :: "admission_request \<Rightarrow> bool" where
  "request_ok q \<longleftrightarrow> length (ar_counts q) = resource_count \<and> (\<forall>c \<in> set (ar_counts q). c \<le> size_max)"

definition held_total :: "admission_bundle list \<Rightarrow> nat \<Rightarrow> nat" where
  "held_total bs i = sum_list (map (\<lambda>b. ar_counts (ab_held b) ! i) bs)"

definition pool_inv :: "admission_state \<Rightarrow> admission_bundle list \<Rightarrow> bool" where
  "pool_inv st bs \<longleftrightarrow> request_ok (as_capacities st) \<and> length (ar_counts (as_used st)) = resource_count
     \<and> (\<forall>b \<in> set bs. length (ar_counts (ab_held b)) = resource_count
          \<and> (ab_state b = None \<longrightarrow> ab_held b = empty_request))
     \<and> (\<forall>i < resource_count. ar_counts (as_used st) ! i = held_total bs i
          \<and> held_total bs i \<le> ar_counts (as_capacities st) ! i)"

inductive admission_step ::
  "nat \<Rightarrow> admission_state \<times> admission_bundle list \<Rightarrow> admission_state \<times> admission_bundle list \<Rightarrow> bool"
  for pid where
  acquire_bundle: "request_ok q \<Longrightarrow> pool_acquire pid st q = (st', Inr b) \<Longrightarrow>
    admission_step pid (st, bs) (st', bs @ [b])"
| transfer_bundle: "request_ok q \<Longrightarrow> i < length bs \<Longrightarrow> bundle_transfer (bs ! i) q = (b', Inr new) \<Longrightarrow>
    admission_step pid (st, bs) (st, bs[i := b'] @ [new])"
| reset_bundle: "i < length bs \<Longrightarrow> bundle_reset st (bs ! i) = (st', b') \<Longrightarrow>
    admission_step pid (st, bs) (st', bs[i := b'])"
| move_bundle: "i < length bs \<Longrightarrow> j < length bs \<Longrightarrow> bundle_move st bs j i = (st', bs') \<Longrightarrow>
    admission_step pid (st, bs) (st', bs')"
| close_pool: "admission_step pid (st, bs) (pool_close st, bs)"

inductive_cases admission_stepE: "admission_step pid s s'"

lemma resource_count_14: "resource_count = 14"
  by (simp add: resource_count_def)

lemma resource_index_less: "resource_index r < resource_count \<longleftrightarrow> r \<noteq> Resource_count"
  by (cases r) (simp_all add: resource_count_14)

lemma held_total_append [simp]: "held_total (bs @ cs) i = held_total bs i + held_total cs i"
  by (simp add: held_total_def)

lemma held_total_Cons [simp]: "held_total (b # bs) i = ar_counts (ab_held b) ! i + held_total bs i"
  by (simp add: held_total_def)

lemma held_total_Nil [simp]: "held_total [] i = 0"
  by (simp add: held_total_def)

lemma held_total_update:
  "k < length bs \<Longrightarrow> held_total (bs[k := b]) i + ar_counts (ab_held (bs ! k)) ! i
     = held_total bs i + ar_counts (ab_held b) ! i"
  by (induction bs arbitrary: k) (auto simp: nth_Cons split: nat.splits)

lemma held_total_member: "k < length bs \<Longrightarrow> ar_counts (ab_held (bs ! k)) ! i \<le> held_total bs i"
  by (auto simp: held_total_def intro!: member_le_sum_list)


lemma empty_request_counts [simp]:
  "length (ar_counts empty_request) = resource_count" "i < resource_count \<Longrightarrow> ar_counts empty_request ! i = 0"
  by (simp_all add: empty_request_def)

lemma null_bundle_simps [simp]: "ab_state null_bundle = None" "ab_held null_bundle = empty_request"
  by (simp_all add: null_bundle_def)

lemma pool_invD:
  assumes "pool_inv st bs" and "i < resource_count"
  shows "ar_counts (as_used st) ! i = held_total bs i"
    and "ar_counts (as_used st) ! i \<le> ar_counts (as_capacities st) ! i"
    and "ar_counts (as_capacities st) ! i \<le> size_max"
  using assms by (auto simp: pool_inv_def request_ok_def)

text \<open>What a successful acquisition does to the used counts.\<close>

lemma pool_acquire_Inr:
  assumes "pool_inv st bs" and "request_ok q" and "pool_acquire pid st q = (st', Inr b)"
  shows "b = \<lparr>ab_state = Some pid, ab_held = q\<rparr>" and "as_capacities st' = as_capacities st"
    and "length (ar_counts (as_used st')) = resource_count" and "as_open st"
    and "i < resource_count \<Longrightarrow> ar_counts (as_used st') ! i = ar_counts (as_used st) ! i + ar_counts q ! i
      \<and> ar_counts (as_used st) ! i + ar_counts q ! i \<le> ar_counts (as_capacities st) ! i"
proof -
  have st': "st' = st\<lparr>as_used := (as_used st)\<lparr>ar_counts := map2 size_add (ar_counts (as_used st)) (ar_counts q)\<rparr>\<rparr>"
    and fit: "\<forall>i < resource_count. ar_counts q ! i
      \<le> size_sub (ar_counts (as_capacities st) ! i) (ar_counts (as_used st) ! i)"
    and b: "b = \<lparr>ab_state = Some pid, ab_held = q\<rparr>" and op: "as_open st"
    using assms(3) by (auto simp: pool_acquire_def not_less split: if_splits)
  have len: "length (ar_counts (as_used st)) = resource_count" "length (ar_counts q) = resource_count"
    using assms(1,2) by (simp_all add: pool_inv_def request_ok_def)
  show "b = \<lparr>ab_state = Some pid, ab_held = q\<rparr>" "as_capacities st' = as_capacities st"
    "length (ar_counts (as_used st')) = resource_count" "as_open st"
    using b st' len op by simp_all
  assume i: "i < resource_count"
  note u = pool_invD [OF assms(1) i]
  have le: "ar_counts (as_used st) ! i + ar_counts q ! i \<le> ar_counts (as_capacities st) ! i"
    using fit i u(2) by auto
  then show "ar_counts (as_used st') ! i = ar_counts (as_used st) ! i + ar_counts q ! i
      \<and> ar_counts (as_used st) ! i + ar_counts q ! i \<le> ar_counts (as_capacities st) ! i"
    using st' i len u(3) by simp
qed

lemma bundle_reset_used:
  assumes "pool_inv st bs" and "k < length bs" and "i < resource_count"
  shows "ar_counts (as_used (fst (bundle_reset st (bs ! k)))) ! i
    = ar_counts (as_used st) ! i - ar_counts (ab_held (bs ! k)) ! i"
proof -
  have len: "length (ar_counts (ab_held (bs ! k))) = resource_count" "length (ar_counts (as_used st)) = resource_count"
    and null: "ab_state (bs ! k) = None \<Longrightarrow> ab_held (bs ! k) = empty_request"
    using assms(1,2) by (auto simp: pool_inv_def)
  have "ar_counts (ab_held (bs ! k)) ! i \<le> ar_counts (as_used st) ! i"
    using held_total_member [OF assms(2), of i] pool_invD(1) [OF assms(1,3)] by simp
  then show ?thesis using len null assms(3) by (simp add: bundle_reset_def)
qed

lemma bundle_reset_inv:
  assumes "pool_inv st bs" and "k < length bs"
  shows "pool_inv (fst (bundle_reset st (bs ! k))) (bs[k := snd (bundle_reset st (bs ! k))])"
proof -
  let ?st = "fst (bundle_reset st (bs ! k))" and ?b = "snd (bundle_reset st (bs ! k))"
  have null: "ab_state (bs ! k) = None \<Longrightarrow> ab_held (bs ! k) = empty_request"
    and len: "length (ar_counts (ab_held (bs ! k))) = resource_count"
    using assms by (auto simp: pool_inv_def)
  have b: "ab_held ?b = empty_request" "ab_state ?b = None"
    using null by (simp_all add: bundle_reset_def)
  have used: "ar_counts (as_used ?st) ! i = held_total (bs[k := ?b]) i
      \<and> held_total (bs[k := ?b]) i \<le> ar_counts (as_capacities st) ! i" if "i < resource_count" for i
  proof -
    have "held_total (bs[k := ?b]) i + ar_counts (ab_held (bs ! k)) ! i = held_total bs i"
      using held_total_update [OF assms(2), of ?b i] b(1) that by simp
    then show ?thesis
      using bundle_reset_used [OF assms that] pool_invD(1,2) [OF assms(1) that] by linarith
  qed
  have "length (ar_counts (as_used ?st)) = resource_count" "as_capacities ?st = as_capacities st"
    using assms(1) len by (auto simp: pool_inv_def bundle_reset_def)
  then show ?thesis
    using assms(1) b used set_update_subset_insert [of bs k ?b] by (auto simp: pool_inv_def)
qed

lemma bundle_transfer_Inr:
  assumes "bundle_transfer b q = (b', Inr new)"
    and "length (ar_counts (ab_held b)) = resource_count" and "length (ar_counts q) = resource_count"
  shows "ab_state b' = ab_state b" and "new = \<lparr>ab_state = ab_state b, ab_held = q\<rparr>" and "ab_state b \<noteq> None"
    and "length (ar_counts (ab_held b')) = resource_count"
    and "i < resource_count \<Longrightarrow> ar_counts (ab_held b') ! i + ar_counts q ! i = ar_counts (ab_held b) ! i"
  using assms by (auto simp: bundle_transfer_def not_less split: if_splits)

lemma admission_step_inv:
  assumes "admission_step pid s s'" and "pool_inv (fst s) (snd s)"
  shows "pool_inv (fst s') (snd s')"
  using assms(1)
proof (cases rule: admission_step.cases)
  case (acquire_bundle q st st' b bs)
  have inv: "pool_inv st bs" using assms(2) acquire_bundle by simp
  note a = pool_acquire_Inr [OF inv acquire_bundle(3,4)]
  show ?thesis using inv a acquire_bundle(1-3) by (auto simp: pool_inv_def request_ok_def)
next
  case (transfer_bundle q i bs b' new st)
  have inv: "pool_inv st bs" using assms(2) transfer_bundle by simp
  have q: "length (ar_counts q) = resource_count" and b: "length (ar_counts (ab_held (bs ! i))) = resource_count"
    using inv transfer_bundle by (auto simp: pool_inv_def request_ok_def)
  note tr = bundle_transfer_Inr [OF transfer_bundle(5) b q]
  have tot: "held_total (bs[i := b'] @ [new]) j = held_total bs j" if "j < resource_count" for j
    using held_total_update [OF transfer_bundle(4), of b' j] tr(5) [OF that] tr(2) by simp
  have "x = b' \<or> x = new \<or> x \<in> set bs" if "x \<in> set (bs[i := b'] @ [new])" for x
    using that set_update_subset_insert [of bs i b'] by auto
  moreover have "ab_state b' \<noteq> None" "ab_state new \<noteq> None" "length (ar_counts (ab_held new)) = resource_count"
    using tr q by auto
  ultimately have "pool_inv st (bs[i := b'] @ [new])"
    using inv tr(4) unfolding pool_inv_def by (metis tot)
  then show ?thesis using transfer_bundle by simp
next
  case (reset_bundle i bs st st' b')
  then show ?thesis using bundle_reset_inv [of st bs i] assms(2) by simp
next
  case (move_bundle i bs j st st' bs')
  have inv: "pool_inv st bs" using assms(2) move_bundle by simp
  show ?thesis
  proof (cases "i = j")
    case True
    then show ?thesis using move_bundle assms(2) by (simp add: bundle_move_def)
  next
    case False
    let ?st = "fst (bundle_reset st (bs ! j))" and ?b = "snd (bundle_reset st (bs ! j))"
    let ?cs = "bs[j := ?b]"
    have r: "pool_inv ?st ?cs" by (rule bundle_reset_inv [OF inv move_bundle(4)])
    have out: "st' = ?st" "bs' = bs[j := bs ! i, i := null_bundle]"
      using move_bundle(5) False by (auto simp: bundle_move_def split: prod.splits)
    have b: "ab_held ?b = empty_request"
      using r move_bundle(4) inv by (auto simp: bundle_reset_def pool_inv_def)
    have tot: "held_total bs' k = held_total ?cs k" if "k < resource_count" for k
      using held_total_update [of j bs "bs ! i" k] held_total_update [of i "bs[j := bs ! i]" null_bundle k]
        held_total_update [of j bs ?b k] move_bundle(3,4) False out(2) b that by simp
    have mem: "x = null_bundle \<or> x \<in> set bs" if "x \<in> set bs'" for x
      using that out(2) move_bundle(3) set_update_subset_insert [of "bs[j := bs ! i]" i null_bundle]
        set_update_subset_insert [of bs j "bs ! i"] nth_mem by blast
    have "length (ar_counts (ab_held x)) = resource_count \<and> (ab_state x = None \<longrightarrow> ab_held x = empty_request)"
      if "x \<in> set bs'" for x using mem [OF that] inv by (auto simp: pool_inv_def)
    then have "pool_inv st' bs'"
      using r tot unfolding out(1) pool_inv_def by simp
    then show ?thesis using move_bundle by simp
  qed
next
  case (close_pool st bs)
  then show ?thesis using assms(2) by (simp add: pool_inv_def pool_close_def)
qed


section \<open>Providers\<close>

text \<open>What acquiring code relies on: a refusal changes nothing, and giving back what was just
  taken restores the provider.\<close>

locale provider =
  fixes taking :: "'s \<Rightarrow> 'r \<Rightarrow> 's \<times> 'h result" and giving :: "'s \<Rightarrow> 'h \<Rightarrow> 's"
    and sound :: "'s \<Rightarrow> bool" and asked :: "'r \<Rightarrow> bool"
  assumes refuse: "taking s r = (s', Inl e) \<Longrightarrow> s' = s"
    and give_back: "sound s \<Longrightarrow> asked r \<Longrightarrow> taking s r = (s', Inr h) \<Longrightarrow> giving s' h = s"
begin

text \<open>Taking from this provider and then from another: if the second refuses, what the first
  gave is returned and neither has changed.\<close>

lemma take_then_refuse:
  assumes "sound s" and "asked r" and "taking s r = (s1, Inr h)"
    and "\<And>t t' q e. other t q = (t', Inl e) \<Longrightarrow> t' = t" and "other t q = (t1, Inl e)"
  shows "giving s1 h = s \<and> t1 = t"
  using assms give_back by blast

end

definition pool_sound :: "admission_state \<Rightarrow> bool" where
  "pool_sound st \<longleftrightarrow> (\<exists>bs. pool_inv st bs)"

lemma pool_give_back:
  assumes "pool_inv st bs" and "request_ok q" and "pool_acquire pid st q = (st', Inr b)"
  shows "fst (bundle_reset st' b) = st"
proof -
  note a = pool_acquire_Inr [OF assms]
  have len: "length (ar_counts q) = resource_count" "length (ar_counts (as_used st)) = resource_count"
    using assms by (simp_all add: request_ok_def pool_inv_def)
  have "map2 size_sub (ar_counts (as_used st')) (ar_counts q) = ar_counts (as_used st)"
    using a(3,5) len by (intro nth_equalityI) auto
  moreover obtain u where "st' = st\<lparr>as_used := (as_used st)\<lparr>ar_counts := u\<rparr>\<rparr>"
    using assms(3) by (auto simp: pool_acquire_def split: if_splits)
  ultimately show ?thesis by (simp add: a(1) bundle_reset_def)
qed

interpretation admission_provider: provider "pool_acquire pid" "\<lambda>st b. fst (bundle_reset st b)"
  pool_sound request_ok for pid
proof
  show "s' = s" if "pool_acquire pid s r = (s', Inl e)" for s r s' e
    using that by (auto simp: pool_acquire_def split: if_splits)
  show "fst (bundle_reset s' h) = s"
    if "pool_sound s" "request_ok r" "pool_acquire pid s r = (s', Inr h)" for s r s' h
    using that pool_give_back by (auto simp: pool_sound_def)
qed

lemma first_idle_Some: "first_idle bs = Some i \<Longrightarrow> i < length bs \<and> \<not> bs ! i \<and> (\<forall>j < i. bs ! j)"
  by (induction bs arbitrary: i) (auto simp: nth_Cons split: if_splits nat.splits)

lemma first_idle_None: "first_idle bs = None \<longleftrightarrow> (\<forall>b \<in> set bs. b)"
  by (induction bs) auto

interpretation arena_provider: provider "arena_acquire bytes_per_slot"
  "\<lambda>a i. fst (lease_reset a (Some i))" "\<lambda>a. True" "\<lambda>n. True" for bytes_per_slot
proof
  show "s' = s" if "arena_acquire bytes_per_slot s r = (s', Inl e)" for s r s' e
    using that by (auto simp: arena_acquire_def split: if_splits option.splits)
  show "fst (lease_reset s' (Some h)) = s" if "arena_acquire bytes_per_slot s r = (s', Inr h)" for s r s' h
    using that first_idle_Some [of "sa_busy s" h]
    by (auto simp: arena_acquire_def lease_reset_def list_update_same_conv split: if_splits option.splits)
qed


lemma storage_outcome:
  assumes "pool_inv st bs" and "request_ok q"
  shows "case admitted_storage_acquire pid n k st a q required of
      (st', a', Inl e) \<Rightarrow> st' = st \<and> a' = a
    | (st', a', Inr (b, slot)) \<Rightarrow> b = \<lparr>ab_state = Some pid, ab_held = q\<rparr> \<and> pool_inv st' (bs @ [b])
        \<and> slot < length (sa_busy a) \<and> \<not> sa_busy a ! slot
        \<and> sa_busy a' = (sa_busy a)[slot := True] \<and> sa_slots a' = sa_slots a
        \<and> fst (bundle_reset st' b) = st \<and> fst (lease_reset a' (Some slot)) = a"
proof -
  obtain st1 r1 where p: "pool_acquire pid st q = (st1, r1)" by fastforce
  obtain a1 r2 where ar: "arena_acquire k a required = (a1, r2)" by fastforce
  show ?thesis
  proof (cases r1)
    case (Inl e)
    then show ?thesis using p admission_provider.refuse [of pid st q st1 e]
      by (simp add: admitted_storage_acquire_def)
  next
    case r1: (Inr b)
    have b: "b = \<lparr>ab_state = Some pid, ab_held = q\<rparr>"
      using pool_acquire_Inr(1) [OF assms] p r1 by simp
    have inv: "pool_inv st1 (bs @ [b])"
      using admission_step_inv [OF acquire_bundle [OF assms(2), of pid st st1 b bs]] p r1 assms(1) by simp
    show ?thesis
    proof (cases r2)
      case (Inl e)
      have "pool_sound st" using assms(1) by (auto simp: pool_sound_def)
      then have "fst (bundle_reset st1 b) = st \<and> a1 = a"
        using admission_provider.take_then_refuse [OF _ assms(2), of st pid st1 b "arena_acquire k" a required a1 e]
          arena_provider.refuse [of k] p r1 ar Inl by blast
      then show ?thesis using p ar r1 Inl by (simp add: admitted_storage_acquire_def)
    next
      case (Inr slot)
      have "fst (bundle_reset st1 b) = st" "fst (lease_reset a1 (Some slot)) = a"
        using pool_give_back [OF assms] arena_provider.give_back [where s = a and r = required and s' = a1 and h = slot] p r1 ar Inr by simp_all
      moreover have "slot < length (sa_busy a)" "\<not> sa_busy a ! slot"
        "sa_busy a1 = (sa_busy a)[slot := True]" "sa_slots a1 = sa_slots a"
        using ar Inr first_idle_Some [of "sa_busy a" slot]
        by (auto simp: arena_acquire_def split: if_splits option.splits)
      ultimately show ?thesis using p ar r1 Inr b inv by (simp add: admitted_storage_acquire_def)
    qed
  qed
qed

section \<open>Properties\<close>

definition pool_run :: "nat \<Rightarrow> admission_request \<Rightarrow> admission_state \<Rightarrow> admission_bundle list \<Rightarrow> bool" where
  "pool_run pid capacities st bs \<longleftrightarrow> (admission_step pid)\<^sup>*\<^sup>* (make_pool capacities, []) (st, bs)"

lemma pool_run_inv:
  assumes "request_ok capacities" and "pool_run pid capacities st bs"
  shows "pool_inv st bs"
proof -
  have "pool_inv (fst s) (snd s)" if "(admission_step pid)\<^sup>*\<^sup>* (make_pool capacities, []) s" for s
    using that
  proof (induction rule: rtranclp_induct)
    case base
    then show ?case using assms(1) by (simp add: pool_inv_def make_pool_def)
  qed (rule admission_step_inv)
  then show ?thesis using assms(2) by (force simp: pool_run_def)
qed

lemma request_ok_need: "request_ok q \<Longrightarrow> n \<le> size_max \<Longrightarrow> request_ok (need q r n)"
  using set_update_subset_insert [of "ar_counts q" "resource_index r" n]
  by (auto simp: request_ok_def need_def)

lemma request_ok_empty: "request_ok empty_request"
  by (simp add: request_ok_def empty_request_def)

lemma reference_capacities_ok: "request_ok reference_capacities"
  by (simp add: reference_capacities_def request_ok_need request_ok_empty size_max_def)

text \<open>C30: whatever sequence of acquisitions, transfers, moves and releases is run, the pool's used
  count of every resource is exactly what the bundles alive hold and never exceeds the
  configured capacity: no credit is lost, duplicated or handed out twice.\<close>

theorem admission_conserves_credits:
  assumes "request_ok capacities" and "pool_run pid capacities st bs" and "r \<noteq> Resource_count"
  shows "pool_used st r = sum_list (map (\<lambda>b. bundle_held b r) bs)
    \<and> pool_used st r \<le> pool_capacity st r"
proof -
  have i: "resource_index r < resource_count" using assms(3) by (simp add: resource_index_less)
  show ?thesis
    using pool_invD [OF pool_run_inv [OF assms(1,2)] i] i
    by (simp add: pool_used_def pool_capacity_def bundle_held_def held_total_def)
qed

theorem admission_conserves_credits_witness:
  "let st = fst (pool_acquire 1 (make_pool reference_capacities) (need empty_request Schedule 3))
   in pool_used st Schedule \<le> pool_capacity st Schedule"
proof -
  let ?q = "need empty_request Schedule 3"
  have q: "request_ok ?q"
    by (simp add: request_ok_need request_ok_empty size_max_def)
  obtain st res where a: "pool_acquire 1 (make_pool reference_capacities) ?q = (st, res)" by fastforce
  have "\<exists>bs. pool_run 1 reference_capacities st bs"
  proof (cases res)
    case (Inl e)
    then have "st = make_pool reference_capacities" using a admission_provider.refuse by blast
    then show ?thesis by (auto simp: pool_run_def)
  next
    case (Inr b)
    then show ?thesis using acquire_bundle [OF q, of 1 "make_pool reference_capacities" st b "[]"] a
      by (auto simp: pool_run_def)
  qed
  then show ?thesis
    using admission_conserves_credits [OF reference_capacities_ok] a by (auto simp: Let_def)
qed

text \<open>Acquiring credits and storage together is all-or-nothing: a refusal by either leaves the
  pool and the arena exactly as they were; success reserves one idle slot for the storage and
  charges exactly the requested credits.\<close>

theorem admitted_storage_atomic:
  assumes "pool_inv st bs" and "request_ok q"
  shows "case admitted_storage_acquire pid n k st a q required of
      (st', a', Inl e) \<Rightarrow> st' = st \<and> a' = a
    | (st', a', Inr (b, slot)) \<Rightarrow> b = \<lparr>ab_state = Some pid, ab_held = q\<rparr> \<and> pool_inv st' (bs @ [b])
        \<and> slot < length (sa_busy a) \<and> \<not> sa_busy a ! slot
        \<and> sa_busy a' = (sa_busy a)[slot := True] \<and> sa_slots a' = sa_slots a"
  using storage_outcome [OF assms, where pid = pid and n = n and k = k and a = a and required = required] by (auto split: prod.splits sum.splits)

theorem admitted_storage_atomic_witness:
  "case admitted_storage_acquire 1 0 8192 (make_pool reference_capacities) (make_arena 0 8192) empty_request 0 of
     (st', a', Inl e) \<Rightarrow> st' = make_pool reference_capacities | (st', a', Inr x) \<Rightarrow> False"
proof -
  have i: "pool_inv (make_pool reference_capacities) []"
    using reference_capacities_ok by (simp add: pool_inv_def make_pool_def)
  show ?thesis
    using admitted_storage_atomic [OF i request_ok_empty, where pid = 1 and n = 0 and k = 8192
        and a = "make_arena 0 8192" and required = 0]
    by (auto simp: make_arena_def split: prod.splits sum.splits)
qed

end
