(* ===== verification/Budget.thy ===== *)
theory Budget
  imports Admission Tickets
begin

text \<open>
  The memory budget ledger of \<^verbatim>\<open>include/vita/runtime/execution/budget.hpp\<close> and the
  combined operation admission of \<^verbatim>\<open>include/vita/runtime/execution/operation.hpp\<close>.
  Object sizes (\<^verbatim>\<open>sizeof\<close>) are parameters: the projection \<open>reference_budget\<close> takes
  the seven byte counts it charges.
\<close>

section \<open>The ledger\<close>

datatype budget_category = Raw_blocks | Providers | Duplicate_values | Duplicate_index | Plans
  | Transactions | Revisions | Context_history | Queues | Completion_budget | Scheduling_budget
  | Retention_budget | Metrics | Adapters_stacks | Headroom | Category_count

fun category_index :: "budget_category \<Rightarrow> nat" where
  "category_index Raw_blocks = 0"
| "category_index Providers = 1"
| "category_index Duplicate_values = 2"
| "category_index Duplicate_index = 3"
| "category_index Plans = 4"
| "category_index Transactions = 5"
| "category_index Revisions = 6"
| "category_index Context_history = 7"
| "category_index Queues = 8"
| "category_index Completion_budget = 9"
| "category_index Scheduling_budget = 10"
| "category_index Retention_budget = 11"
| "category_index Metrics = 12"
| "category_index Adapters_stacks = 13"
| "category_index Headroom = 14"
| "category_index Category_count = 15"

definition framework_budget :: nat where
  "framework_budget = 67108864"

definition retention_headroom_transfer :: nat where
  "retention_headroom_transfer = 704512"

definition sdr_state_headroom_transfer :: nat where
  "sdr_state_headroom_transfer = 99712"

record budget_row =
  br_reserved :: nat
  br_charged :: nat

type_synonym budget_ledger = "budget_row list"

definition new_ledger :: budget_ledger where
  "new_ledger = map (\<lambda>r. \<lparr>br_reserved = r, br_charged = 0\<rparr>)
     [30998528, 2621440, 8388608, 524288, 2097152, 1048576, 1114112 + sdr_state_headroom_transfer,
      1048576, 3145728, 524288, 1048576, 262144 + retention_headroom_transfer, 1048576, 4194304,
      9043968 - retention_headroom_transfer - sdr_state_headroom_transfer]"

definition ledger_charge :: "budget_ledger \<Rightarrow> budget_category \<Rightarrow> nat \<Rightarrow> budget_ledger \<times> unit result" where
  "ledger_charge led c n =
     (let i = category_index c
      in if i \<ge> length led then (led, Inl (err Invalid_argument))
         else let row = led ! i
         in if n > size_sub (br_reserved row) (br_charged row) then (led, Inl (err Capacity_exhausted))
            else (led[i := row\<lparr>br_charged := size_add (br_charged row) n\<rparr>], Inr ()))"

definition charge_objects :: "nat \<Rightarrow> budget_ledger \<Rightarrow> budget_category \<Rightarrow> nat \<Rightarrow> budget_ledger \<times> unit result" where
  "charge_objects object_size led c count =
     (if count > size_max div object_size then (led, Inl (err Overflow))
      else ledger_charge led c (count * object_size))"

definition transfer_headroom :: "budget_ledger \<Rightarrow> budget_category \<Rightarrow> nat \<Rightarrow> budget_ledger \<times> unit result" where
  "transfer_headroom led target n =
     (let i = category_index target; h = category_index Headroom
      in if i \<ge> length led - 1 then (led, Inl (err Invalid_argument))
         else let head = led ! h
         in if n > size_sub (br_reserved head) (br_charged head) then (led, Inl (err Capacity_exhausted))
            else let led' = led[h := head\<lparr>br_reserved := size_sub (br_reserved head) n\<rparr>]
            in (led'[i := (led' ! i)\<lparr>br_reserved := size_add (br_reserved (led' ! i)) n\<rparr>], Inr ()))"

definition transfer_unused ::
  "budget_ledger \<Rightarrow> budget_category \<Rightarrow> budget_category \<Rightarrow> nat \<Rightarrow> budget_ledger \<times> unit result" where
  "transfer_unused led from to n =
     (let s = category_index from; t = category_index to
      in if s \<ge> length led \<or> t \<ge> length led \<or> s = t then (led, Inl (err Invalid_argument))
         else if n > size_sub (br_reserved (led ! s)) (br_charged (led ! s))
         then (led, Inl (err Capacity_exhausted))
         else if n > size_max - br_reserved (led ! t) then (led, Inl (err Overflow))
         else let led' = led[s := (led ! s)\<lparr>br_reserved := size_sub (br_reserved (led ! s)) n\<rparr>]
         in (led'[t := (led' ! t)\<lparr>br_reserved := size_add (br_reserved (led' ! t)) n\<rparr>], Inr ()))"

definition ledger_row :: "budget_ledger \<Rightarrow> budget_category \<Rightarrow> budget_row" where
  "ledger_row led c = (if category_index c < length led then led ! category_index c
     else \<lparr>br_reserved = 0, br_charged = 0\<rparr>)"

definition charged_bytes :: "budget_ledger \<Rightarrow> nat" where
  "charged_bytes led = fold (\<lambda>r n. size_add n (br_charged r)) led 0"

definition reserved_bytes :: "budget_ledger \<Rightarrow> nat" where
  "reserved_bytes led = fold (\<lambda>r n. size_add n (br_reserved r)) led 0"

definition ledger_ensure :: "budget_ledger \<Rightarrow> budget_category \<Rightarrow> nat \<Rightarrow> budget_ledger \<times> unit result" where
  "ledger_ensure led c n =
     (let row = ledger_row led c
      in if n \<le> br_reserved row then (led, Inr ()) else transfer_headroom led c (n - br_reserved row))"

fun charge_items :: "budget_ledger \<Rightarrow> (budget_category \<times> nat) list \<Rightarrow> budget_ledger result" where
  "charge_items led [] = Inr led"
| "charge_items led ((c, n) # items) =
     (case ledger_ensure led c n of
        (_, Inl e) \<Rightarrow> Inl e
      | (led1, Inr u) \<Rightarrow>
          (case ledger_charge led1 c n of
             (_, Inl e) \<Rightarrow> Inl e
           | (led2, Inr u) \<Rightarrow> charge_items led2 items))"

definition reference_budget :: "nat \<Rightarrow> nat \<Rightarrow> nat \<Rightarrow> nat \<Rightarrow> nat \<Rightarrow> nat \<Rightarrow> budget_ledger result" where
  "reference_budget providers retained completion plans queues scheduling =
     charge_items new_ledger
       [(Raw_blocks, 30998528), (Providers, providers), (Retention_budget, retained),
        (Completion_budget, completion), (Plans, plans), (Queues, queues), (Scheduling_budget, scheduling)]"

section \<open>Operation admission\<close>

definition admitted_operation_acquire :: "nat \<Rightarrow> nat \<Rightarrow> nat \<Rightarrow> admission_state \<Rightarrow> slot_arena
    \<Rightarrow> completion_state \<Rightarrow> admission_request \<Rightarrow> nat \<Rightarrow> nat
    \<Rightarrow> admission_state \<times> slot_arena \<times> completion_state
       \<times> (admission_bundle \<times> nat \<times> completion_token) result" where
  "admitted_operation_acquire pid n bytes_per_slot st a tickets request required operation =
     (let wanted = ar_counts request ! resource_index Completion
      in if pool_capacity st Completion > length (tk_slots tickets) \<or> wanted = 0 \<or> wanted \<noteq> 1
            \<or> pool_capacity st Transaction > n
         then (st, a, tickets, Inl (err Invalid_argument))
         else case admitted_storage_acquire pid n bytes_per_slot st a request required of
           (st1, a1, Inl e) \<Rightarrow> (st1, a1, tickets, Inl e)
         | (st1, a1, Inr (credits, slot)) \<Rightarrow>
             (case ticket_reserve tickets operation of
                (tickets1, Inl e) \<Rightarrow>
                  (fst (bundle_reset st1 credits), fst (lease_reset a1 (Some slot)), tickets1, Inl e)
              | (tickets1, Inr p) \<Rightarrow>
                  (st1, a1, tickets1, Inr (credits, slot, \<lparr>ct_publisher = p, ct_active = True\<rparr>))))"

section \<open>Lemmas\<close>

definition ledger_inv :: "budget_ledger \<Rightarrow> bool" where
  "ledger_inv led \<longleftrightarrow> length led = 15 \<and> (\<forall>r \<in> set led. br_charged r \<le> br_reserved r)
     \<and> sum_list (map br_reserved led) = framework_budget"

inductive ledger_step :: "budget_ledger \<Rightarrow> budget_ledger \<Rightarrow> bool" where
  charge: "ledger_charge led c n = (led', res) \<Longrightarrow> ledger_step led led'"
| objects: "charge_objects sz led c n = (led', res) \<Longrightarrow> ledger_step led led'"
| headroom: "transfer_headroom led c n = (led', res) \<Longrightarrow> ledger_step led led'"
| unused: "transfer_unused led c d n = (led', res) \<Longrightarrow> ledger_step led led'"

lemma sum_update:
  fixes f :: "'a \<Rightarrow> nat"
  shows "i < length xs \<Longrightarrow> sum_list (map f (xs[i := x])) + f (xs ! i) = sum_list (map f xs) + f x"
  by (induction xs arbitrary: i) (auto simp: nth_Cons split: nat.splits)

lemma member_le_sum: "x \<in> set xs \<Longrightarrow> (f x :: nat) \<le> sum_list (map f xs)"
  by (induction xs) auto

lemma ledger_bounds:
  assumes "ledger_inv led" and "i < length led"
  shows "br_charged (led ! i) \<le> br_reserved (led ! i)" and "br_reserved (led ! i) \<le> framework_budget"
proof -
  show "br_charged (led ! i) \<le> br_reserved (led ! i)" using assms by (simp add: ledger_inv_def)
  have "br_reserved (led ! i) \<le> sum_list (map br_reserved led)"
    using assms(2) by (intro member_le_sum_list) auto
  then show "br_reserved (led ! i) \<le> framework_budget" using assms(1) by (simp add: ledger_inv_def)
qed

lemma ledger_charge_inv:
  assumes "ledger_inv led"
  shows "ledger_inv (fst (ledger_charge led c n))"
proof (cases "category_index c < length led")
  case True
  let ?r = "led ! category_index c"
  note b = ledger_bounds [OF assms True]
  show ?thesis
  proof (cases "n \<le> br_reserved ?r - br_charged ?r")
    case fits: True
    then have "br_charged ?r + n \<le> br_reserved ?r" "br_reserved ?r \<le> size_max" using b
      by (auto simp: framework_budget_def size_max_def)
    moreover have "sum_list (map br_reserved (led[category_index c := ?r\<lparr>br_charged := br_charged ?r + n\<rparr>]))
        = sum_list (map br_reserved led)"
      using sum_update [OF True, of br_reserved "?r\<lparr>br_charged := br_charged ?r + n\<rparr>"] by simp
    ultimately show ?thesis
      using assms True fits b set_update_subset_insert [of led "category_index c" "?r\<lparr>br_charged := br_charged ?r + n\<rparr>"]
      by (auto simp: ledger_charge_def ledger_inv_def Let_def)
  next
    case False
    then show ?thesis using assms b True by (simp add: ledger_charge_def Let_def)
  qed
qed (use assms in \<open>simp add: ledger_charge_def Let_def\<close>)

text \<open>Moving reserve between two rows.\<close>

lemma move_reserve_inv:
  assumes inv: "ledger_inv led" and i: "s < length led" "t < length led" "s \<noteq> t"
    and n: "n \<le> br_reserved (led ! s) - br_charged (led ! s)"
  shows "ledger_inv (led[s := (led ! s)\<lparr>br_reserved := br_reserved (led ! s) - n\<rparr>,
      t := (led ! t)\<lparr>br_reserved := br_reserved (led ! t) + n\<rparr>])"
    and "br_reserved (led ! t) + n \<le> framework_budget"
proof -
  let ?x = "(led ! s)\<lparr>br_reserved := br_reserved (led ! s) - n\<rparr>"
  let ?y = "(led ! t)\<lparr>br_reserved := br_reserved (led ! t) + n\<rparr>"
  let ?l = "led[s := ?x]"
  note bs = ledger_bounds [OF inv i(1)] and bt = ledger_bounds [OF inv i(2)]
  have s1: "sum_list (map br_reserved ?l) + br_reserved (led ! s)
      = sum_list (map br_reserved led) + (br_reserved (led ! s) - n)"
    using sum_update [OF i(1), of br_reserved ?x] by simp
  have s2: "sum_list (map br_reserved (?l[t := ?y])) + br_reserved (led ! t)
      = sum_list (map br_reserved ?l) + (br_reserved (led ! t) + n)"
    using sum_update [of t ?l br_reserved ?y] i by simp
  have sum: "sum_list (map br_reserved (?l[t := ?y])) = framework_budget"
  proof -
    have "n \<le> br_reserved (led ! s)" using n by simp
    then show ?thesis using s1 s2 inv unfolding ledger_inv_def by linarith
  qed
  have "?y \<in> set (?l[t := ?y])" using i by (intro set_update_memI) simp
  then have "br_reserved ?y \<le> sum_list (map br_reserved (?l[t := ?y]))"
    by (rule member_le_sum)
  then show "br_reserved (led ! t) + n \<le> framework_budget" using sum by simp
  have "br_charged r \<le> br_reserved r" if "r \<in> set (?l[t := ?y])" for r
  proof -
    have "r = ?y \<or> r = ?x \<or> r \<in> set led"
      using that set_update_subset_insert [of ?l t ?y] set_update_subset_insert [of led s ?x] by blast
    moreover have "br_charged ?x \<le> br_reserved ?x" using n bs by simp
    moreover have "br_charged ?y \<le> br_reserved ?y" using bt by simp
    ultimately show ?thesis using inv unfolding ledger_inv_def by metis
  qed
  then show "ledger_inv (?l[t := ?y])" using sum inv by (simp add: ledger_inv_def)
qed


lemma ledger_step_inv:
  assumes "ledger_step led led'" and inv: "ledger_inv led"
  shows "ledger_inv led'"
  using assms(1)
proof (cases rule: ledger_step.cases)
  case (charge c n res)
  then show ?thesis using ledger_charge_inv [OF inv, of c n] by simp
next
  case (objects sz c n res)
  then show ?thesis using inv ledger_charge_inv [OF inv, of c "n * sz"]
    by (auto simp: charge_objects_def split: if_splits)
next
  case (headroom c n res)
  let ?i = "category_index c"
  show ?thesis
  proof (cases "?i < 14 \<and> n \<le> br_reserved (led ! 14) - br_charged (led ! 14)")
    case True
    have len: "length led = 15" using inv by (simp add: ledger_inv_def)
    note b = ledger_bounds [OF inv, of 14] and m = move_reserve_inv [OF inv, of 14 ?i n]
    have "led' = led[14 := (led ! 14)\<lparr>br_reserved := br_reserved (led ! 14) - n\<rparr>,
        ?i := (led ! ?i)\<lparr>br_reserved := br_reserved (led ! ?i) + n\<rparr>]"
      using headroom True len b m(2) by (auto simp: transfer_headroom_def Let_def framework_budget_def size_max_def)
    then show ?thesis using m(1) True len by simp
  next
    case False
    then have "led' = led"
      using headroom ledger_bounds [OF inv, of 14] inv
      by (auto simp: transfer_headroom_def Let_def ledger_inv_def split: if_splits)
    then show ?thesis using inv by simp
  qed
next
  case (unused c d n res)
  let ?s = "category_index c" and ?t = "category_index d"
  show ?thesis
  proof (cases "?s < length led \<and> ?t < length led \<and> ?s \<noteq> ?t \<and> n \<le> br_reserved (led ! ?s) - br_charged (led ! ?s)")
    case True
    note b = ledger_bounds [OF inv, of ?s] and m = move_reserve_inv [OF inv, of ?s ?t n]
    have "led' = led[?s := (led ! ?s)\<lparr>br_reserved := br_reserved (led ! ?s) - n\<rparr>,
        ?t := (led ! ?t)\<lparr>br_reserved := br_reserved (led ! ?t) + n\<rparr>]"
    proof -
      have "br_reserved (led ! ?s) \<le> size_max" "br_reserved (led ! ?t) + n \<le> size_max"
        using b m(2) True by (simp_all add: framework_budget_def size_max_def)
      moreover have "n \<le> br_reserved (led ! ?s)" using True by arith
      ultimately have "\<not> size_max - br_reserved (led ! ?t) < n"
        "\<not> size_sub (br_reserved (led ! ?s)) (br_charged (led ! ?s)) < n"
        "size_sub (br_reserved (led ! ?s)) n = br_reserved (led ! ?s) - n"
        "size_add (br_reserved (led ! ?t)) n = br_reserved (led ! ?t) + n"
        using True b by simp_all
      then show ?thesis using unused True by (simp add: transfer_unused_def Let_def)
    qed
    then show ?thesis using m(1) True by simp
  next
    case False
    then have "led' = led"
      using unused ledger_bounds [OF inv, of ?s] by (auto simp: transfer_unused_def Let_def split: if_splits)
    then show ?thesis using inv by simp
  qed
qed

lemma new_ledger_inv: "ledger_inv new_ledger"
  by (simp add: ledger_inv_def new_ledger_def framework_budget_def retention_headroom_transfer_def
      sdr_state_headroom_transfer_def)

lemma fold_size_add:
  "n + sum_list (map f xs) \<le> size_max \<Longrightarrow> fold (\<lambda>r n. size_add n (f r)) xs n = n + sum_list (map f xs)"
  by (induction xs arbitrary: n) (auto simp: add.assoc)

section \<open>Properties\<close>

text \<open>whatever is charged and transferred, the ledger stays inside the framework's 64 MiB:
  the reservations always add up to exactly \<open>framework_budget\<close>, no row is charged beyond
  its reservation, and the sums never wrap.\<close>

theorem budget_is_conserved:
  assumes "ledger_step\<^sup>*\<^sup>* new_ledger led"
  shows "reserved_bytes led = framework_budget \<and> charged_bytes led \<le> framework_budget
    \<and> (\<forall>r \<in> set led. br_charged r \<le> br_reserved r)"
proof -
  have inv: "ledger_inv led"
    using assms by (induction rule: rtranclp_induct) (auto intro: new_ledger_inv ledger_step_inv)
  have res: "sum_list (map br_reserved led) = framework_budget" using inv by (simp add: ledger_inv_def)
  have "sum_list (map br_charged led) \<le> sum_list (map br_reserved led)"
    using inv by (intro sum_list_mono) (simp add: ledger_inv_def)
  then show ?thesis
    using inv res fold_size_add [of 0 br_reserved led] fold_size_add [of 0 br_charged led]
    by (simp add: reserved_bytes_def charged_bytes_def ledger_inv_def framework_budget_def size_max_def)
qed

theorem budget_is_conserved_witness:
  "reserved_bytes (fst (transfer_headroom new_ledger Plans 4096)) = framework_budget"
proof -
  have "ledger_step new_ledger (fst (transfer_headroom new_ledger Plans 4096))"
    using headroom [of new_ledger Plans 4096] by (metis prod.collapse)
  then show ?thesis using budget_is_conserved [of "fst (transfer_headroom new_ledger Plans 4096)"] by auto
qed

text \<open>Admitting an operation is all-or-nothing across its three resources: if the credits, the
  storage slot or the completion ticket is refused, the pool, the arena and the tickets are
  as before; on success each of the three is held and the token is the reserved ticket.\<close>

theorem admitted_operation_atomic:
  assumes "pool_inv st bs" and "request_ok q"
  shows "case admitted_operation_acquire pid n k st a tickets q required op of
      (st', a', tickets', Inl e) \<Rightarrow> st' = st \<and> a' = a \<and> tickets' = tickets
    | (st', a', tickets', Inr (b, slot, tok)) \<Rightarrow> pool_inv st' (bs @ [b]) \<and> ab_held b = q
        \<and> sa_busy a' = (sa_busy a)[slot := True] \<and> \<not> sa_busy a ! slot
        \<and> ct_active tok \<and> ticket_reserve tickets op = (tickets', Inr (ct_publisher tok))"
proof -
  obtain st1 a1 r1 where s: "admitted_storage_acquire pid n k st a q required = (st1, a1, r1)"
    by (metis prod_cases3)
  obtain t1 r2 where t: "ticket_reserve tickets op = (t1, r2)" by fastforce
  note atom = storage_outcome [OF assms, where pid = pid and n = n and k = k and a = a and required = required]
  have keep: "t1 = tickets" if "r2 = Inl e" for e
    using t that by (auto simp: ticket_reserve_def split: option.splits)
  show ?thesis
    using atom t keep s
    by (cases r1; cases r2) (auto simp: admitted_operation_acquire_def Let_def split: prod.splits)
qed


text \<open>A small pool that admits one operation.\<close>

definition sample_request :: admission_request where
  "sample_request = \<lparr>ar_counts = [1, 4, 0, 0, 1, 0, 0, 0, 0, 0, 0, 0, 0, 0], ar_valid = True\<rparr>"

lemma sample_request_ok: "request_ok sample_request"
  by (simp add: request_ok_def sample_request_def resource_count_14 size_max_def)

lemma sample_pool_inv: "pool_inv (make_pool sample_request) []"
  using sample_request_ok by (simp add: pool_inv_def make_pool_def)

lemma sample_storage:
  "\<exists>st a b. admitted_storage_acquire 1 1 8 (make_pool sample_request) (make_arena 1 8) sample_request 4
     = (st, a, Inr (b, 0))"
proof -
  have "[0..<resource_count] = [0, 1, 2, 3, 4, 5, 6, 7, 8, 9, 10, 11, 12, 13]"
    by (simp add: resource_count_14 upt_rec)
  then show ?thesis
    by (simp add: admitted_storage_acquire_def pool_acquire_def pool_capacity_def make_pool_def
        sample_request_def arena_acquire_def make_arena_def resource_count_14 empty_request_def)
qed

theorem admitted_operation_atomic_witness:
  "\<exists>st a tickets b slot tok. admitted_operation_acquire 1 1 8 (make_pool sample_request) (make_arena 1 8)
       (make_completion 1 1) sample_request 4 7 = (st, a, tickets, Inr (b, slot, tok))
     \<and> pool_inv st [b] \<and> ct_active tok"
proof -
  obtain st a b where s: "admitted_storage_acquire 1 1 8 (make_pool sample_request) (make_arena 1 8)
      sample_request 4 = (st, a, Inr (b, 0))" using sample_storage by blast
  obtain tk where t: "ticket_reserve (make_completion 1 1) 7 = (tk, Inr (0, 1))" using sample_reserve by blast
  have "length (tk_slots (make_completion 1 1)) = 1" by (simp add: make_completion_def Let_def)
  then have "admitted_operation_acquire 1 1 8 (make_pool sample_request) (make_arena 1 8)
      (make_completion 1 1) sample_request 4 7
      = (st, a, tk, Inr (b, 0, \<lparr>ct_publisher = (0, 1), ct_active = True\<rparr>))"
    using s t by (simp add: admitted_operation_acquire_def sample_request_def make_pool_def
        pool_capacity_def resource_count_14)
  with admitted_operation_atomic [OF sample_pool_inv sample_request_ok, where pid = 1 and n = 1 and k = 8
      and a = "make_arena 1 8" and tickets = "make_completion 1 1" and required = 4 and op = 7]
  show ?thesis by auto
qed

end
