(* ===== verification/Memory_Pool.thy ===== *)
theory Memory_Pool
  imports Prelude "HOL-Library.Multiset"
begin

text \<open>
  External buffer pools and buffer leases (\<^verbatim>\<open>include/vita/memory/pool.hpp\<close>). The memory
  of a run is a record: the pools created so far (a \<^verbatim>\<open>shared_ptr\<close> to a pool state is its
  position), the retention quotas of \<^verbatim>\<open>memory/envelope.hpp\<close>, the bytes at every CPU
  address, and the log of reclamation hooks called. A lease is the triple the class stores.
  Dropping a lease is two critical sections with the hook in between, so it is two steps here;
  the inductive relation \<open>lease_step\<close> interleaves the steps of all lease holders.
\<close>

section \<open>Blocks, pools and the memory of a run\<close>

datatype memory_domain = Cpu | Device

record buffer_spec =
  sp_lifetime :: "nat option"
  sp_cpu_address :: nat
  sp_block_size :: nat
  sp_block_count :: nat
  sp_alignment :: nat
  sp_domain :: memory_domain
  sp_device_address :: nat
  sp_on_return :: "nat option"
  sp_context :: nat

record buffer_request =
  rq_capacity :: nat
  rq_alignment :: nat
  rq_domain :: memory_domain
  rq_cpu_access :: bool

record block =
  bk_lifetime :: "nat option"
  bk_address :: nat
  bk_capacity :: nat
  bk_alignment :: nat
  bk_references :: nat
  bk_domain :: memory_domain
  bk_device_address :: nat
  bk_on_return :: "nat option"
  bk_context :: nat

record pool_state =
  pl_blocks :: "block list"
  pl_returns :: nat

record quota_state =
  qt_active :: nat
  qt_limit :: nat
  qt_enabled :: bool

record memory =
  mm_pools :: "pool_state list"
  mm_quotas :: "quota_state list"
  mm_ram :: "nat \<Rightarrow> u8"
  mm_hooks :: "(nat \<times> nat \<times> nat) list"

definition power_of_two :: "nat \<Rightarrow> bool" where
  "power_of_two v \<longleftrightarrow> v \<noteq> 0 \<and> v AND (v - 1) = 0"

definition span_bytes :: "memory \<Rightarrow> nat \<Rightarrow> nat \<Rightarrow> bytes" where
  "span_bytes m address n = map (\<lambda>i. mm_ram m (address + i)) [0..<n]"

definition block_at :: "memory \<Rightarrow> nat \<Rightarrow> nat \<Rightarrow> block" where
  "block_at m p i = pl_blocks (mm_pools m ! p) ! i"

definition set_pool :: "memory \<Rightarrow> nat \<Rightarrow> pool_state \<Rightarrow> memory" where
  "set_pool m p st = m\<lparr>mm_pools := (mm_pools m)[p := st]\<rparr>"

definition set_references :: "memory \<Rightarrow> nat \<Rightarrow> nat \<Rightarrow> nat \<Rightarrow> memory" where
  "set_references m p i n = set_pool m p ((mm_pools m ! p)\<lparr>pl_blocks :=
     (pl_blocks (mm_pools m ! p))[i := (block_at m p i)\<lparr>bk_references := n\<rparr>]\<rparr>)"

section \<open>Buffer leases\<close>

record buffer_lease =
  bl_state :: "nat option"
  bl_index :: nat
  bl_used :: nat

definition null_lease :: buffer_lease where
  "null_lease = \<lparr>bl_state = None, bl_index = 0, bl_used = 0\<rparr>"

definition lease_share :: "memory \<Rightarrow> buffer_lease \<Rightarrow> memory \<times> buffer_lease" where
  "lease_share m l = (let p = the (bl_state l); i = bl_index l in
     (set_references m p i (size_add (bk_references (block_at m p i)) 1),
      \<lparr>bl_state = bl_state l, bl_index = i, bl_used = bl_used l\<rparr>))"

text \<open>The move constructor: the source keeps its index and size but no longer owns a block.\<close>

definition lease_move :: "buffer_lease \<Rightarrow> buffer_lease \<times> buffer_lease" where
  "lease_move other = (\<lparr>bl_state = bl_state other, bl_index = bl_index other, bl_used = bl_used other\<rparr>,
     other\<lparr>bl_state := None\<rparr>)"

text \<open>
  The two critical sections of \<open>reset\<close>: the decrement, which marks a block with no
  references left as unavailable, and, after the hook, the return to the pool.
\<close>

definition lease_drop :: "memory \<Rightarrow> nat \<Rightarrow> nat \<Rightarrow> memory \<times> bool" where
  "lease_drop m p i = (let n = size_sub (bk_references (block_at m p i)) 1 in
     if n = 0 then (set_references m p i size_max, True)
     else (set_references m p i n, False))"

definition lease_reclaim :: "memory \<Rightarrow> nat \<Rightarrow> nat \<Rightarrow> memory" where
  "lease_reclaim m p i = (let
     m1 = (case bk_on_return (block_at m p i) of None \<Rightarrow> m
           | Some f \<Rightarrow> m\<lparr>mm_hooks := mm_hooks m @ [(f, bk_context (block_at m p i), i)]\<rparr>);
     m2 = set_references m1 p i 0;
     st = mm_pools m2 ! p
   in set_pool m2 p (st\<lparr>pl_returns := size_add (pl_returns st) 1\<rparr>))"

definition lease_reset :: "memory \<Rightarrow> buffer_lease \<Rightarrow> memory \<times> buffer_lease" where
  "lease_reset m l = (case bl_state l of None \<Rightarrow> (m, l)
     | Some p \<Rightarrow> (let (m1, final) = lease_drop m p (bl_index l);
                      m2 = (if final then lease_reclaim m1 p (bl_index l) else m1)
                  in (m2, l\<lparr>bl_state := None, bl_used := 0\<rparr>)))"

text \<open>Move assignment \<open>dst = std::move(src)\<close> of two distinct objects.\<close>

definition lease_assign ::
  "memory \<Rightarrow> buffer_lease \<Rightarrow> buffer_lease \<Rightarrow> memory \<times> buffer_lease \<times> buffer_lease" where
  "lease_assign m dst src = (let (m1, _) = lease_reset m dst; (new, old) = lease_move src
     in (m1, new, old))"

definition lease_live :: "buffer_lease \<Rightarrow> bool" where
  "lease_live l \<longleftrightarrow> bl_state l \<noteq> None"

definition lease_capacity :: "memory \<Rightarrow> buffer_lease \<Rightarrow> nat" where
  "lease_capacity m l =
     (case bl_state l of None \<Rightarrow> 0 | Some p \<Rightarrow> bk_capacity (block_at m p (bl_index l)))"

definition lease_alignment :: "memory \<Rightarrow> buffer_lease \<Rightarrow> nat" where
  "lease_alignment m l =
     (case bl_state l of None \<Rightarrow> 0 | Some p \<Rightarrow> bk_alignment (block_at m p (bl_index l)))"

definition lease_domain :: "memory \<Rightarrow> buffer_lease \<Rightarrow> memory_domain" where
  "lease_domain m l =
     (case bl_state l of None \<Rightarrow> Cpu | Some p \<Rightarrow> bk_domain (block_at m p (bl_index l)))"

definition lease_device_address :: "memory \<Rightarrow> buffer_lease \<Rightarrow> nat" where
  "lease_device_address m l =
     (case bl_state l of None \<Rightarrow> 0 | Some p \<Rightarrow> bk_device_address (block_at m p (bl_index l)))"

definition set_size :: "memory \<Rightarrow> buffer_lease \<Rightarrow> nat \<Rightarrow> buffer_lease result" where
  "set_size m l n =
     (if bl_state l = None \<or> n > lease_capacity m l then Inl (err Invalid_argument)
      else Inr (l\<lparr>bl_used := n\<rparr>))"

text \<open>A mutable span is its address and extent, since the holder writes through it.\<close>

definition writable_bytes :: "memory \<Rightarrow> buffer_lease \<Rightarrow> (nat \<times> nat) result" where
  "writable_bytes m l = (case bl_state l of None \<Rightarrow> Inl (err Invalid_state)
     | Some p \<Rightarrow> let b = block_at m p (bl_index l) in
         if bk_address b = 0 then Inl (err No_cpu_access)
         else Inr (bk_address b, bk_capacity b))"

definition lease_bytes :: "memory \<Rightarrow> buffer_lease \<Rightarrow> bytes result" where
  "lease_bytes m l = (case bl_state l of None \<Rightarrow> Inl (err Invalid_state)
     | Some p \<Rightarrow> let b = block_at m p (bl_index l) in
         if bk_address b = 0 then Inl (err No_cpu_access)
         else Inr (span_bytes m (bk_address b) (bl_used l)))"

section \<open>External pools\<close>

text \<open>The validation loop of \<open>create\<close>: it returns the number of blocks.\<close>

fun count_blocks :: "buffer_spec list \<Rightarrow> nat \<Rightarrow> nat result" where
  "count_blocks [] total_count = Inr total_count"
| "count_blocks (s # specs) total_count =
     (if sp_lifetime s = None \<or> sp_block_size s = 0 \<or> sp_block_count s = 0
         \<or> \<not> power_of_two (sp_alignment s) \<or> sp_block_size s mod sp_alignment s \<noteq> 0
         \<or> (sp_domain s = Cpu \<and> sp_cpu_address s = 0)
         \<or> (sp_cpu_address s \<noteq> 0 \<and> sp_cpu_address s mod sp_alignment s \<noteq> 0)
      then Inl (err Invalid_argument)
      else if sp_block_count s > size_max div sp_block_size s
         \<or> sp_block_count s > size_max - total_count
      then Inl (err Overflow)
      else if sp_device_address s \<noteq> 0
         \<and> sp_block_count s * sp_block_size s > size_max - sp_device_address s
      then Inl (err Overflow)
      else count_blocks specs (total_count + sp_block_count s))"

definition spec_blocks :: "buffer_spec \<Rightarrow> block list" where
  "spec_blocks s = map (\<lambda>i. \<lparr>bk_lifetime = sp_lifetime s,
       bk_address = (if sp_cpu_address s \<noteq> 0 then size_add (sp_cpu_address s) (i * sp_block_size s) else 0),
       bk_capacity = sp_block_size s, bk_alignment = sp_alignment s, bk_references = 0,
       bk_domain = sp_domain s,
       bk_device_address =
         (if sp_device_address s \<noteq> 0 then size_add (sp_device_address s) (i * sp_block_size s) else 0),
       bk_on_return = sp_on_return s, bk_context = sp_context s\<rparr>) [0..<sp_block_count s]"

text \<open>\<open>block_sizeof\<close> is \<open>sizeof(detail::Block)\<close>.\<close>

definition pool_create ::
  "nat \<Rightarrow> memory \<Rightarrow> buffer_spec list \<Rightarrow> memory \<times> nat option result" where
  "pool_create block_sizeof m specs = (case count_blocks specs 0 of Inl e \<Rightarrow> (m, Inl e)
     | Inr n \<Rightarrow>
         if n = 0 \<or> n > size_max div block_sizeof then (m, Inl (err Invalid_argument))
         else (m\<lparr>mm_pools := mm_pools m @
                  [\<lparr>pl_blocks = concat (map spec_blocks specs), pl_returns = 0\<rparr>]\<rparr>,
               Inr (Some (length (mm_pools m)))))"

definition block_fits :: "buffer_request \<Rightarrow> block \<Rightarrow> bool" where
  "block_fits q b \<longleftrightarrow> bk_capacity b \<ge> rq_capacity q \<and> bk_alignment b \<ge> rq_alignment q
     \<and> bk_domain b = rq_domain q \<and> (\<not> rq_cpu_access q \<or> bk_address b \<noteq> 0)"

definition select_block :: "block list \<Rightarrow> buffer_request \<Rightarrow> nat" where
  "select_block bs q = fold (\<lambda>i selected.
     if bk_references (bs ! i) = 0 \<and> block_fits q (bs ! i)
        \<and> (selected = length bs \<or> bk_capacity (bs ! i) < bk_capacity (bs ! selected))
     then i else selected) [0..<length bs] (length bs)"

definition buffer_acquire ::
  "memory \<Rightarrow> nat option \<Rightarrow> buffer_request \<Rightarrow> memory \<times> buffer_lease result" where
  "buffer_acquire m pool q = (case pool of None \<Rightarrow> (m, Inl (err Invalid_argument))
     | Some p \<Rightarrow>
         if rq_capacity q = 0 \<or> \<not> power_of_two (rq_alignment q) then (m, Inl (err Invalid_argument))
         else let bs = pl_blocks (mm_pools m ! p); selected = select_block bs q in
           if selected = length bs then (m, Inl (err Capacity_exhausted))
           else (set_references m p selected 1,
                 Inr \<lparr>bl_state = Some p, bl_index = selected, bl_used = 0\<rparr>))"

definition pool_supports :: "memory \<Rightarrow> nat option \<Rightarrow> buffer_request \<Rightarrow> bool" where
  "pool_supports m pool q = (case pool of None \<Rightarrow> False
     | Some p \<Rightarrow> rq_capacity q \<noteq> 0 \<and> power_of_two (rq_alignment q)
         \<and> list_ex (block_fits q) (pl_blocks (mm_pools m ! p)))"

definition return_count :: "memory \<Rightarrow> nat option \<Rightarrow> nat" where
  "return_count m pool = (case pool of None \<Rightarrow> 0 | Some p \<Rightarrow> pl_returns (mm_pools m ! p))"

definition shares_provider_with :: "nat option \<Rightarrow> nat option \<Rightarrow> bool" where
  "shares_provider_with a b \<longleftrightarrow> a \<noteq> None \<and> a = b"

definition pool_block_count :: "memory \<Rightarrow> nat option \<Rightarrow> nat" where
  "pool_block_count m pool =
     (case pool of None \<Rightarrow> 0 | Some p \<Rightarrow> length (pl_blocks (mm_pools m ! p)))"

fun sum_capacity :: "block list \<Rightarrow> nat \<Rightarrow> nat result" where
  "sum_capacity [] acc = Inr acc"
| "sum_capacity (b # bs) acc =
     (if bk_capacity b > size_max - acc then Inl (err Overflow)
      else sum_capacity bs (acc + bk_capacity b))"

definition raw_bytes :: "memory \<Rightarrow> nat option \<Rightarrow> nat result" where
  "raw_bytes m pool =
     (case pool of None \<Rightarrow> Inr 0 | Some p \<Rightarrow> sum_capacity (pl_blocks (mm_pools m ! p)) 0)"

section \<open>Interleaved holders\<close>

text \<open>
  The leases alive in the program are a multiset, the blocks whose hook is running a second
  one. A holder may acquire, share, resize or drop; the last drop of a block leaves it closing
  until its reclamation step. The side condition of sharing bounds the number of lease objects
  by what the address space can hold.
\<close>

type_synonym lease_world = "memory \<times> buffer_lease multiset \<times> (nat \<times> nat) multiset"

inductive lease_step :: "lease_world \<Rightarrow> lease_world \<Rightarrow> bool" where
  Create: "pool_create n m specs = (m', Inr pool) \<Longrightarrow> lease_step (m, ls, cs) (m', ls, cs)"
| Acquire: "p < length (mm_pools m) \<Longrightarrow> size ls + 1 < size_max \<Longrightarrow>
    buffer_acquire m (Some p) q = (m', Inr l) \<Longrightarrow> lease_step (m, ls, cs) (m', add_mset l ls, cs)"
| Share: "l \<in># ls \<Longrightarrow> size ls + 1 < size_max \<Longrightarrow> lease_share m l = (m', l') \<Longrightarrow>
    lease_step (m, ls, cs) (m', add_mset l' ls, cs)"
| Resize: "set_size m l n = Inr l' \<Longrightarrow>
    lease_step (m, add_mset l ls, cs) (m, add_mset l' ls, cs)"
| Drop: "bl_state l = Some p \<Longrightarrow> lease_drop m p (bl_index l) = (m', final) \<Longrightarrow>
    lease_step (m, add_mset l ls, cs) (m', ls, if final then add_mset (p, bl_index l) cs else cs)"
| Reclaim: "lease_step (m, ls, add_mset (p, i) cs) (lease_reclaim m p i, ls, cs)"

definition held :: "buffer_lease multiset \<Rightarrow> nat \<Rightarrow> nat \<Rightarrow> nat" where
  "held ls p i = size (filter_mset (\<lambda>l. bl_state l = Some p \<and> bl_index l = i) ls)"

definition valid_block :: "memory \<Rightarrow> nat \<Rightarrow> nat \<Rightarrow> bool" where
  "valid_block m p i \<longleftrightarrow> p < length (mm_pools m) \<and> i < length (pl_blocks (mm_pools m ! p))"

definition lease_ok :: "memory \<Rightarrow> buffer_lease \<Rightarrow> bool" where
  "lease_ok m l \<longleftrightarrow> (case bl_state l of None \<Rightarrow> False
     | Some p \<Rightarrow> valid_block m p (bl_index l) \<and> bl_used l \<le> lease_capacity m l)"

definition refs_ok :: "memory \<Rightarrow> buffer_lease multiset \<Rightarrow> (nat \<times> nat) multiset \<Rightarrow> bool" where
  "refs_ok m ls cs \<longleftrightarrow> (\<forall>p i. valid_block m p i \<longrightarrow>
     (if (p, i) \<in># cs then held ls p i = 0 \<and> count cs (p, i) = 1
        \<and> bk_references (block_at m p i) = size_max
      else bk_references (block_at m p i) = held ls p i))"

definition lease_inv :: "lease_world \<Rightarrow> bool" where
  "lease_inv w = (case w of (m, ls, cs) \<Rightarrow> size ls < size_max \<and> (\<forall>l \<in># ls. lease_ok m l)
     \<and> (\<forall>(p, i) \<in># cs. valid_block m p i) \<and> refs_ok m ls cs)"

section \<open>Frame lemmas\<close>

named_theorems frame \<open>what a lease operation leaves of the memory\<close>

lemma valid_block_set_references [simp]:
  "valid_block (set_references m p i n) p' i' = valid_block m p' i'"
  by (cases "p = p'"; cases "p < length (mm_pools m)")
     (auto simp: valid_block_def set_references_def set_pool_def)

lemma block_at_set_references [frame]:
  "valid_block m p i \<Longrightarrow> block_at (set_references m p i n) p' i' =
     (if p' = p \<and> i' = i then (block_at m p i)\<lparr>bk_references := n\<rparr> else block_at m p' i')"
  by (auto simp: valid_block_def set_references_def set_pool_def block_at_def nth_list_update)

lemma ram_set_references [simp]: "mm_ram (set_references m p i n) = mm_ram m"
  "mm_quotas (set_references m p i n) = mm_quotas m"
  by (simp_all add: set_references_def set_pool_def)

lemma length_pools_set_references [simp]:
  "length (mm_pools (set_references m p i n)) = length (mm_pools m)"
  by (simp add: set_references_def set_pool_def)

text \<open>Two memories agree up to reference counts, return counts and hooks.\<close>

definition same_layout :: "memory \<Rightarrow> memory \<Rightarrow> bool" where
  "same_layout m m' \<longleftrightarrow> length (mm_pools m') = length (mm_pools m) \<and> mm_ram m' = mm_ram m
     \<and> (\<forall>p i. valid_block m' p i = valid_block m p i)
     \<and> (\<forall>p i. valid_block m p i \<longrightarrow>
         (block_at m' p i)\<lparr>bk_references := 0\<rparr> = (block_at m p i)\<lparr>bk_references := 0\<rparr>)"

lemma same_layout_refl [simp]: "same_layout m m"
  by (simp add: same_layout_def)

lemma same_layout_trans [trans]: "same_layout a b \<Longrightarrow> same_layout b c \<Longrightarrow> same_layout a c"
  by (simp add: same_layout_def)

lemma same_layout_block:
  assumes "same_layout m m'" "valid_block m p i"
  shows "bk_capacity (block_at m' p i) = bk_capacity (block_at m p i)"
    and "bk_address (block_at m' p i) = bk_address (block_at m p i)"
proof -
  have "(block_at m' p i)\<lparr>bk_references := 0\<rparr> = (block_at m p i)\<lparr>bk_references := 0\<rparr>"
    using assms by (simp add: same_layout_def)
  then have "f ((block_at m' p i)\<lparr>bk_references := 0\<rparr>) = f ((block_at m p i)\<lparr>bk_references := 0\<rparr>)"
    for f :: "block \<Rightarrow> nat" by simp
  from this [of bk_capacity] this [of bk_address]
  show "bk_capacity (block_at m' p i) = bk_capacity (block_at m p i)"
    "bk_address (block_at m' p i) = bk_address (block_at m p i)" by simp_all
qed

lemma same_layout_set_references [simp]:
  "valid_block m p i \<Longrightarrow> same_layout m (set_references m p i n)"
  by (auto simp: same_layout_def block_at_set_references)

lemma lease_ok_layout: "same_layout m m' \<Longrightarrow> lease_ok m l \<Longrightarrow> lease_ok m' l"
  using same_layout_block [of m m']
  by (auto simp: lease_ok_def lease_capacity_def same_layout_def split: option.splits)

lemma lease_bytes_layout:
  "same_layout m m' \<Longrightarrow> lease_ok m l \<Longrightarrow> lease_bytes m' l = lease_bytes m l"
  using same_layout_block [of m m']
  by (auto simp: lease_ok_def lease_bytes_def span_bytes_def same_layout_def Let_def
      split: option.splits)

lemma lease_share_frame [frame]:
  assumes "lease_ok m l" "lease_share m l = (m', l')"
  shows "l' = l" "same_layout m m'" "mm_quotas m' = mm_quotas m"
  using assms by (auto simp: lease_ok_def lease_share_def Let_def split: option.splits)

lemma lease_drop_frame [frame]:
  assumes "valid_block m p i" "lease_drop m p i = (m', final)"
  shows "same_layout m m'" "mm_quotas m' = mm_quotas m"
  using assms by (auto simp: lease_drop_def Let_def split: if_splits)

lemma lease_reclaim_blocks [frame]:
  assumes "valid_block m p i"
  shows "block_at (lease_reclaim m p i) p' i' = block_at (set_references m p i 0) p' i'"
    and "valid_block (lease_reclaim m p i) p' i' = valid_block m p' i'"
    and "mm_ram (lease_reclaim m p i) = mm_ram m"
    and "mm_quotas (lease_reclaim m p i) = mm_quotas m"
    and "length (mm_pools (lease_reclaim m p i)) = length (mm_pools m)"
  using assms
  by (auto simp: lease_reclaim_def valid_block_def block_at_def set_references_def set_pool_def
      Let_def nth_list_update split: option.splits)

lemma lease_reclaim_frame [frame]: "valid_block m p i \<Longrightarrow> same_layout m (lease_reclaim m p i)"
  by (auto simp: same_layout_def lease_reclaim_blocks block_at_set_references)

section \<open>Selection is best fit\<close>

definition selectable :: "buffer_request \<Rightarrow> block \<Rightarrow> bool" where
  "selectable q b \<longleftrightarrow> bk_references b = 0 \<and> block_fits q b"

definition best_of :: "block list \<Rightarrow> buffer_request \<Rightarrow> nat \<Rightarrow> nat \<Rightarrow> bool" where
  "best_of bs q k s \<longleftrightarrow> s < k \<and> selectable q (bs ! s)
     \<and> (\<forall>j < k. selectable q (bs ! j) \<longrightarrow> bk_capacity (bs ! s) \<le> bk_capacity (bs ! j))"

lemma select_block_prefix:
  assumes "k \<le> length bs"
  shows "let s = fold (\<lambda>i selected.
      if bk_references (bs ! i) = 0 \<and> block_fits q (bs ! i)
         \<and> (selected = length bs \<or> bk_capacity (bs ! i) < bk_capacity (bs ! selected))
      then i else selected) [0..<k] (length bs)
    in (s = length bs \<and> (\<forall>j < k. \<not> selectable q (bs ! j))) \<or> best_of bs q k s"
  using assms
proof (induction k)
  case (Suc k)
  then show ?case
    by (auto simp: Let_def selectable_def best_of_def less_Suc_eq)
qed simp

lemma select_block_cases:
  "(select_block bs q = length bs \<and> (\<forall>b \<in> set bs. \<not> selectable q b))
   \<or> best_of bs q (length bs) (select_block bs q)"
  using select_block_prefix [of "length bs" bs q]
  by (auto simp: select_block_def Let_def in_set_conv_nth)

lemma buffer_acquire_Inr:
  assumes "buffer_acquire m (Some p) q = (m', Inr l)" "p < length (mm_pools m)"
  shows "valid_block m p (bl_index l)" "l = \<lparr>bl_state = Some p, bl_index = bl_index l, bl_used = 0\<rparr>"
    "m' = set_references m p (bl_index l) 1"
    "best_of (pl_blocks (mm_pools m ! p)) q (length (pl_blocks (mm_pools m ! p))) (bl_index l)"
  using assms select_block_cases [of "pl_blocks (mm_pools m ! p)" q]
  by (auto simp: buffer_acquire_def Let_def valid_block_def best_of_def split: if_splits)

section \<open>Reference counts are exact\<close>

lemma held_add [simp]:
  "held (add_mset l ls) p i = held ls p i + (if bl_state l = Some p \<and> bl_index l = i then 1 else 0)"
  by (simp add: held_def)

lemma held_empty [simp]: "held {#} p i = 0"
  by (simp add: held_def)

lemma held_le: "held ls p i \<le> size ls"
  by (simp add: held_def size_filter_mset_lesseq)

lemma held_pos: "l \<in># ls \<Longrightarrow> bl_state l = Some p \<Longrightarrow> held ls p (bl_index l) > 0"
  by (auto simp: held_def dest!: multi_member_split)

lemma refs_okD:
  assumes "refs_ok m ls cs" "valid_block m p i"
  shows "(p, i) \<notin># cs \<Longrightarrow> bk_references (block_at m p i) = held ls p i"
    and "(p, i) \<in># cs \<Longrightarrow> bk_references (block_at m p i) = size_max \<and> held ls p i = 0
           \<and> count cs (p, i) = 1"
  using assms by (auto simp: refs_ok_def)

lemma lease_invD:
  assumes "lease_inv (m, ls, cs)"
  shows "size ls < size_max" "l \<in># ls \<Longrightarrow> lease_ok m l" "(p, i) \<in># cs \<Longrightarrow> valid_block m p i"
    "refs_ok m ls cs"
  using assms by (auto simp: lease_inv_def)

text \<open>The common shape of the steps that change the count of one block.\<close>

lemma refs_ok_update:
  assumes "refs_ok m ls cs" "valid_block m p i"
    and blocks: "\<And>p' i'. block_at m' p' i' =
      (if p' = p \<and> i' = i then (block_at m p i)\<lparr>bk_references := n\<rparr> else block_at m p' i')"
    and valid: "\<And>p' i'. valid_block m' p' i' = valid_block m p' i'"
    and held: "\<And>p' i'. (p', i') \<noteq> (p, i) \<Longrightarrow> held ls' p' i' = held ls p' i'"
    and closing: "\<And>x. x \<noteq> (p, i) \<Longrightarrow> count cs' x = count cs x"
    and here: "if (p, i) \<in># cs' then held ls' p i = 0 \<and> count cs' (p, i) = 1 \<and> n = size_max
      else n = held ls' p i"
  shows "refs_ok m' ls' cs'"
  unfolding refs_ok_def
proof (intro allI impI)
  fix p' i' assume v: "valid_block m' p' i'"
  show "if (p', i') \<in># cs' then held ls' p' i' = 0 \<and> count cs' (p', i') = 1
      \<and> bk_references (block_at m' p' i') = size_max
    else bk_references (block_at m' p' i') = held ls' p' i'"
  proof (cases "(p', i') = (p, i)")
    case False
    then have "(p', i') \<in># cs' \<longleftrightarrow> (p', i') \<in># cs" using closing by (metis not_in_iff)
    then show ?thesis
      using False assms(1) v valid held [OF False] closing [OF False] blocks
      by (auto simp: refs_ok_def)
  qed (use here blocks in auto)
qed

lemma step_acquire:
  assumes inv: "lease_inv (m, ls, cs)" and p: "p < length (mm_pools m)"
    and room: "size ls + 1 < size_max" and acq: "buffer_acquire m (Some p) q = (m', Inr l)"
  shows "lease_inv (m', add_mset l ls, cs)" "held ls p (bl_index l) = 0" "(p, bl_index l) \<notin># cs"
proof -
  note a = buffer_acquire_Inr [OF acq p] and d = lease_invD [OF inv]
  have free: "bk_references (block_at m p (bl_index l)) = 0"
    using a(4) by (simp add: best_of_def selectable_def block_at_def)
  then show nc: "(p, bl_index l) \<notin># cs"
    using refs_okD(2) [OF d(4) a(1)] by (auto simp: size_max_def)
  then show nh: "held ls p (bl_index l) = 0" using refs_okD(1) [OF d(4) a(1)] free by simp
  have st: "bl_state l = Some p" by (subst a(2)) simp
  have us: "bl_used l = 0" by (subst a(2)) simp
  have lay: "same_layout m m'" using a(1,3) by simp
  have "lease_ok m' l" using a(1,3) us st by (simp add: lease_ok_def)
  moreover have "refs_ok m' (add_mset l ls) cs"
    by (rule refs_ok_update [OF d(4) a(1), where n = 1])
       (use a(1,3) nh nc st in \<open>auto simp: block_at_set_references\<close>)
  ultimately show "lease_inv (m', add_mset l ls, cs)"
    using d(2,3) lease_ok_layout [OF lay] room a(3) by (auto simp: lease_inv_def)
qed

lemma step_share:
  assumes inv: "lease_inv (m, ls, cs)" and l: "l \<in># ls" and room: "size ls + 1 < size_max"
    and sh: "lease_share m l = (m', l')"
  shows "lease_inv (m', add_mset l' ls, cs)"
proof -
  note d = lease_invD [OF inv]
  have ok: "lease_ok m l" by (rule d(2) [OF l])
  note f = lease_share_frame [OF ok sh]
  obtain p where p: "bl_state l = Some p" "valid_block m p (bl_index l)"
    using ok by (auto simp: lease_ok_def split: option.splits)
  have nc: "(p, bl_index l) \<notin># cs"
    using refs_okD(2) [OF d(4) p(2)] held_pos [OF l p(1)] by auto
  then have r: "bk_references (block_at m p (bl_index l)) = held ls p (bl_index l)"
    by (rule refs_okD(1) [OF d(4) p(2)])
  have m': "m' = set_references m p (bl_index l) (held ls p (bl_index l) + 1)"
    using sh p(1) r room held_le [of ls p "bl_index l"] by (auto simp: lease_share_def Let_def)
  have "refs_ok m' (add_mset l' ls) cs"
    by (rule refs_ok_update [OF d(4) p(2), where n = "held ls p (bl_index l) + 1"])
       (use m' f(1) p nc in \<open>auto simp: block_at_set_references\<close>)
  then show ?thesis
    using d(2,3) lease_ok_layout [OF f(2)] room f(1) ok m' by (auto simp: lease_inv_def)
qed

lemma step_drop:
  assumes inv: "lease_inv (m, add_mset l ls, cs)" and p: "bl_state l = Some p"
    and dr: "lease_drop m p (bl_index l) = (m', final)"
  shows "lease_inv (m', ls, if final then add_mset (p, bl_index l) cs else cs)"
proof -
  note d = lease_invD [OF inv]
  let ?i = "bl_index l"
  have v: "valid_block m p ?i" using d(2) [of l] p by (simp add: lease_ok_def)
  have nc: "(p, ?i) \<notin># cs" using refs_okD(2) [OF d(4) v] p by auto
  have r: "bk_references (block_at m p ?i) = held ls p ?i + 1"
    using refs_okD(1) [OF d(4) v nc] p by simp
  have fin: "final \<longleftrightarrow> held ls p ?i = 0"
    and m': "m' = set_references m p ?i (if final then size_max else held ls p ?i)"
    using dr r by (auto simp: lease_drop_def Let_def split: if_splits)
  note lay = lease_drop_frame(1) [OF v dr]
  have "refs_ok m' ls (if final then add_mset (p, ?i) cs else cs)"
    by (rule refs_ok_update [OF d(4) v, where n = "if final then size_max else held ls p ?i"])
       (use m' p nc fin v in \<open>auto simp: block_at_set_references not_in_iff\<close>)
  then show ?thesis
    using d(1) d(2) d(3) lease_ok_layout [OF lay] v m' by (auto simp: lease_inv_def)
qed

lemma step_reclaim:
  assumes inv: "lease_inv (m, ls, add_mset (p, i) cs)"
  shows "lease_inv (lease_reclaim m p i, ls, cs)"
proof -
  note d = lease_invD [OF inv]
  have v: "valid_block m p i" using d(3) by simp
  have h: "held ls p i = 0" "(p, i) \<notin># cs"
    using refs_okD(2) [OF d(4) v] by (auto simp: not_in_iff)
  have "refs_ok (lease_reclaim m p i) ls cs"
    by (rule refs_ok_update [OF d(4) v, where n = 0])
       (use h v in \<open>auto simp: lease_reclaim_blocks block_at_set_references\<close>)
  then show ?thesis
    using d(1,2) d(3) lease_ok_layout [OF lease_reclaim_frame [OF v]] v
    by (auto simp: lease_inv_def lease_reclaim_blocks)
qed

lemma spec_blocks_unreferenced: "b \<in> set (concat (map spec_blocks specs)) \<Longrightarrow> bk_references b = 0"
  by (auto simp: spec_blocks_def)

lemma step_create:
  assumes inv: "lease_inv (m, ls, cs)" and cr: "pool_create n m specs = (m', Inr pool)"
  shows "lease_inv (m', ls, cs)"
proof -
  note d = lease_invD [OF inv]
  let ?new = "\<lparr>pl_blocks = concat (map spec_blocks specs), pl_returns = 0\<rparr>"
  have m': "mm_pools m' = mm_pools m @ [?new]"
    using cr by (auto simp: pool_create_def split: sum.splits if_splits)
  have old: "valid_block m p i \<Longrightarrow> valid_block m' p i \<and> block_at m' p i = block_at m p i" for p i
    using m' by (auto simp: valid_block_def block_at_def nth_append)
  have fresh: "bk_references (block_at m' p i) = 0" "p = length (mm_pools m)"
    if "valid_block m' p i" "\<not> valid_block m p i" for p i
  proof -
    have q: "p = length (mm_pools m)" "i < length (concat (map spec_blocks specs))"
      using that m' by (auto simp: valid_block_def nth_append less_Suc_eq split: if_splits)
    then have "block_at m' p i \<in> set (concat (map spec_blocks specs))"
      using m' nth_mem [OF q(2)] by (simp add: block_at_def nth_append del: set_concat)
    then show "bk_references (block_at m' p i) = 0" by (rule spec_blocks_unreferenced)
    show "p = length (mm_pools m)" by fact
  qed
  have none: "held ls p i = 0" if "\<not> valid_block m p i" for p i
  proof (rule ccontr)
    assume "held ls p i \<noteq> 0"
    then obtain l where "l \<in># ls" "bl_state l = Some p" "bl_index l = i"
      by (auto simp: held_def elim!: multiset_nonemptyE)
    then show False using d(2) [of l] that by (simp add: lease_ok_def)
  qed
  have "refs_ok m' ls cs"
    unfolding refs_ok_def
  proof (intro allI impI)
    fix p i assume v: "valid_block m' p i"
    show "if (p, i) \<in># cs then held ls p i = 0 \<and> count cs (p, i) = 1
        \<and> bk_references (block_at m' p i) = size_max
      else bk_references (block_at m' p i) = held ls p i"
      using refs_okD [OF d(4), of p i] old [of p i] fresh [OF v] none [of p i] d(3) [of p i]
      by (cases "valid_block m p i") auto
  qed
  moreover have "lease_ok m' l" if "l \<in># ls" for l
    using d(2) [OF that] old
    by (auto simp: lease_ok_def lease_capacity_def split: option.splits)
  ultimately show ?thesis using d(1,3) old by (auto simp: lease_inv_def)
qed

lemma step_resize:
  assumes inv: "lease_inv (m, add_mset l ls, cs)" and sz: "set_size m l n = Inr l'"
  shows "lease_inv (m, add_mset l' ls, cs)"
proof -
  have l': "l' = l\<lparr>bl_used := n\<rparr>" "n \<le> lease_capacity m l" using sz by (auto simp: set_size_def)
  have "held (add_mset l' ls) = held (add_mset l ls)" by (intro ext) (use l' in simp)
  moreover have "lease_ok m l'"
    using l' lease_invD(2) [OF inv, of l]
    by (auto simp: lease_ok_def lease_capacity_def split: option.splits)
  ultimately show ?thesis using inv by (auto simp: lease_inv_def refs_ok_def simp del: held_add)
qed

lemma lease_step_inv: "lease_step w w' \<Longrightarrow> lease_inv w \<Longrightarrow> lease_inv w'"
  by (induction rule: lease_step.induct)
     (blast intro: step_create step_acquire step_share step_resize step_drop step_reclaim)+

lemma lease_reachable_inv:
  assumes "lease_step\<^sup>*\<^sup>* (m0, {#}, {#}) w" "mm_pools m0 = []"
  shows "lease_inv w"
  using assms(1)
proof (induction rule: rtranclp_induct)
  case base
  show ?case using assms(2) by (simp add: lease_inv_def refs_ok_def valid_block_def size_max_def)
qed (blast intro: lease_step_inv)

text \<open>When a block serves a request, and when it is free: nobody holds it and its hook is not running.\<close>

definition block_serves :: "buffer_request \<Rightarrow> block \<Rightarrow> bool" where
  "block_serves q b \<longleftrightarrow> rq_capacity q \<le> bk_capacity b \<and> rq_alignment q \<le> bk_alignment b
     \<and> bk_domain b = rq_domain q \<and> (rq_cpu_access q \<longrightarrow> bk_address b \<noteq> 0)"

definition free_block :: "buffer_lease multiset \<Rightarrow> (nat \<times> nat) multiset \<Rightarrow> nat \<Rightarrow> nat \<Rightarrow> bool" where
  "free_block ls cs p i \<longleftrightarrow> (\<forall>l \<in># ls. \<not> (bl_state l = Some p \<and> bl_index l = i)) \<and> (p, i) \<notin># cs"

lemma selectable_free:
  assumes "lease_inv (m, ls, cs)" "valid_block m p i"
  shows "selectable q (pl_blocks (mm_pools m ! p) ! i) \<longleftrightarrow> free_block ls cs p i \<and> block_serves q (block_at m p i)"
proof -
  note d = lease_invD [OF assms(1)]
  have "held ls p i = 0 \<longleftrightarrow> (\<forall>l \<in># ls. \<not> (bl_state l = Some p \<and> bl_index l = i))"
    by (auto simp: held_def)
  then have "bk_references (block_at m p i) = 0 \<longleftrightarrow> free_block ls cs p i"
    using refs_okD [OF d(4) assms(2)] by (cases "(p, i) \<in># cs") (auto simp: free_block_def size_max_def)
  then show ?thesis by (auto simp: selectable_def block_fits_def block_serves_def block_at_def)
qed

lemma buffer_acquire_Inl:
  assumes "buffer_acquire m (Some p) q = (m', Inl e)"
  shows "m' = m" "rq_capacity q \<noteq> 0 \<Longrightarrow> power_of_two (rq_alignment q) \<Longrightarrow>
    e = err Capacity_exhausted \<and> (\<forall>b \<in> set (pl_blocks (mm_pools m ! p)). \<not> selectable q b)"
  using assms select_block_cases [of "pl_blocks (mm_pools m ! p)" q]
  by (auto simp: buffer_acquire_def Let_def best_of_def split: if_splits)

text \<open>C32: Whatever the interleaving of creating pools, of acquiring, sharing, resizing and dropping
  leases and of the reclamation hooks, the reference count of every block is the number of leases alive
  on it, or the closing mark while its hook runs, when no lease is left on it; every lease is on a block
  of a pool and stays within it. Acquiring then answers exactly: a lease on a block that was free, serves
  the request and is a smallest such block, counted once; or, for a well-formed request, exhaustion when
  no free block of the pool serves it, and then nothing changes.\<close>

theorem buffer_leases_exclusive:
  assumes "lease_step\<^sup>*\<^sup>* (m0, {#}, {#}) (m, ls, cs)" "mm_pools m0 = []"
  shows "(\<forall>l \<in># ls. \<exists>p. bl_state l = Some p \<and> valid_block m p (bl_index l) \<and> bl_used l \<le> lease_capacity m l)
    \<and> (\<forall>p i. valid_block m p i \<longrightarrow> bk_references (block_at m p i) = (if (p, i) \<in># cs then size_max else held ls p i)
         \<and> ((p, i) \<in># cs \<longrightarrow> held ls p i = 0))
    \<and> (\<forall>p q. p < length (mm_pools m) \<longrightarrow> (case buffer_acquire m (Some p) q of
           (m', Inr l) \<Rightarrow> bl_state l = Some p \<and> valid_block m p (bl_index l) \<and> bl_used l = 0
             \<and> free_block ls cs p (bl_index l) \<and> block_serves q (block_at m p (bl_index l))
             \<and> (\<forall>i. valid_block m p i \<and> free_block ls cs p i \<and> block_serves q (block_at m p i)
                  \<longrightarrow> bk_capacity (block_at m p (bl_index l)) \<le> bk_capacity (block_at m p i))
             \<and> bk_references (block_at m' p (bl_index l)) = 1
         | (m', Inl e) \<Rightarrow> m' = m \<and> (rq_capacity q \<noteq> 0 \<and> power_of_two (rq_alignment q)
             \<longrightarrow> e = err Capacity_exhausted
               \<and> (\<forall>i. valid_block m p i \<longrightarrow> \<not> (free_block ls cs p i \<and> block_serves q (block_at m p i))))))"
proof (intro conjI allI impI ballI)
  have inv: "lease_inv (m, ls, cs)" by (rule lease_reachable_inv) fact+
  note d = lease_invD [OF inv]
  show "\<exists>p. bl_state l = Some p \<and> valid_block m p (bl_index l) \<and> bl_used l \<le> lease_capacity m l" if "l \<in># ls" for l
    using d(2) [OF that] by (auto simp: lease_ok_def split: option.splits)
  show "bk_references (block_at m p i) = (if (p, i) \<in># cs then size_max else held ls p i)"
    if "valid_block m p i" for p i
    using refs_okD [OF d(4) that] by simp
  show "held ls p i = 0" if "valid_block m p i" "(p, i) \<in># cs" for p i
    using refs_okD(2) [OF d(4) that] by simp
  fix p q assume p: "p < length (mm_pools m)"
  let ?bs = "pl_blocks (mm_pools m ! p)"
  have nth: "valid_block m p i \<longleftrightarrow> i < length ?bs" for i using p by (simp add: valid_block_def)
  note sel = selectable_free [OF inv, of p]
  obtain m' r where acq: "buffer_acquire m (Some p) q = (m', r)" by fastforce
  show "case buffer_acquire m (Some p) q of
      (m', Inr l) \<Rightarrow> bl_state l = Some p \<and> valid_block m p (bl_index l) \<and> bl_used l = 0
        \<and> free_block ls cs p (bl_index l) \<and> block_serves q (block_at m p (bl_index l))
        \<and> (\<forall>i. valid_block m p i \<and> free_block ls cs p i \<and> block_serves q (block_at m p i)
             \<longrightarrow> bk_capacity (block_at m p (bl_index l)) \<le> bk_capacity (block_at m p i))
        \<and> bk_references (block_at m' p (bl_index l)) = 1
    | (m', Inl e) \<Rightarrow> m' = m \<and> (rq_capacity q \<noteq> 0 \<and> power_of_two (rq_alignment q)
        \<longrightarrow> e = err Capacity_exhausted
          \<and> (\<forall>i. valid_block m p i \<longrightarrow> \<not> (free_block ls cs p i \<and> block_serves q (block_at m p i))))"
  proof (cases r)
    case (Inl e)
    note a = buffer_acquire_Inl [OF acq [unfolded Inl]]
    have "\<not> (free_block ls cs p i \<and> block_serves q (block_at m p i))"
      if "rq_capacity q \<noteq> 0" "power_of_two (rq_alignment q)" "valid_block m p i" for i
      using a(2) [OF that(1,2)] sel [OF that(3), of q] nth that(3) nth_mem by blast
    then show ?thesis using a acq Inl by simp
  next
    case (Inr l)
    note a = buffer_acquire_Inr [OF acq [unfolded Inr] p]
    have l: "bl_state l = Some p" "bl_used l = 0" by (subst a(2); simp)+
    have "bk_capacity (block_at m p (bl_index l)) \<le> bk_capacity (block_at m p i)"
      if "valid_block m p i \<and> free_block ls cs p i \<and> block_serves q (block_at m p i)" for i
      using a(4) sel [of i q] nth that by (auto simp: best_of_def block_at_def)
    moreover have "free_block ls cs p (bl_index l) \<and> block_serves q (block_at m p (bl_index l))"
      using a(4) sel [OF a(1), of q] by (simp add: best_of_def)
    moreover have "bk_references (block_at m' p (bl_index l)) = 1"
      using a(1,3) by (simp add: block_at_set_references)
    ultimately show ?thesis using acq Inr l a(1) by simp
  qed
qed

section \<open>The layout of a created pool\<close>

lemma count_blocks_Inr:
  "count_blocks specs n = Inr k \<Longrightarrow> n \<le> size_max \<Longrightarrow>
     k = n + (\<Sum>s \<leftarrow> specs. sp_block_count s) \<and> k \<le> size_max
     \<and> (\<forall>s \<in> set specs. sp_block_size s > 0 \<and> power_of_two (sp_alignment s)
          \<and> sp_alignment s dvd sp_block_size s \<and> sp_alignment s dvd sp_cpu_address s
          \<and> (sp_domain s = Cpu \<longrightarrow> sp_cpu_address s \<noteq> 0)
          \<and> sp_block_count s * sp_block_size s \<le> size_max
          \<and> sp_device_address s + sp_block_count s * sp_block_size s \<le> size_max)"
proof (induction specs arbitrary: n)
  case (Cons s specs)
  let ?e = "sp_block_count s * sp_block_size s"
  have c: "sp_block_size s > 0" "power_of_two (sp_alignment s)"
    "sp_block_size s mod sp_alignment s = 0"
    "sp_domain s = Cpu \<longrightarrow> sp_cpu_address s \<noteq> 0"
    "sp_cpu_address s = 0 \<or> sp_cpu_address s mod sp_alignment s = 0"
    "sp_block_count s \<le> size_max div sp_block_size s" "sp_block_count s \<le> size_max - n"
    "sp_device_address s = 0 \<or> ?e \<le> size_max - sp_device_address s"
    "count_blocks specs (n + sp_block_count s) = Inr k"
    using Cons.prems(1) by (auto split: if_splits)
  have e: "?e \<le> size_max"
    using c(6) c(1) by (simp add: less_eq_div_iff_mult_less_eq)
  have "sp_device_address s + ?e \<le> size_max"
  proof (cases "sp_device_address s = 0")
    case False
    then have "?e > 0" using c(1) Cons.prems(1) by (auto split: if_splits)
    with False c(8) show ?thesis by linarith
  qed (use e in simp)
  moreover have "n + sp_block_count s \<le> size_max" using c(7) Cons.prems(2) by linarith
  moreover note Cons.IH [OF c(9) this]
  ultimately show ?case using c e by (auto simp: mod_eq_0_iff_dvd)
qed simp

text \<open>Two ranges of memory do not overlap; address zero stands for no memory.\<close>

definition ranges_apart :: "nat \<Rightarrow> nat \<Rightarrow> nat \<Rightarrow> nat \<Rightarrow> bool" where
  "ranges_apart a n b k \<longleftrightarrow> a = 0 \<or> b = 0 \<or> a + n \<le> b \<or> b + k \<le> a"

definition spec_extent :: "buffer_spec \<Rightarrow> nat" where
  "spec_extent s = sp_block_count s * sp_block_size s"

text \<open>
  What the creator of a pool provides: memory that really exists, so its CPU extents do not run over the
  end of the address space, and a separate piece of it for every specification. \<open>create\<close> takes the CPU
  extent on trust (it cannot check it against the allocation); it does check the device extent.
\<close>

definition provided_memory :: "buffer_spec list \<Rightarrow> bool" where
  "provided_memory specs \<longleftrightarrow> list_all (\<lambda>s. sp_cpu_address s + spec_extent s \<le> size_max) specs
     \<and> sorted_wrt (\<lambda>s t. ranges_apart (sp_cpu_address s) (spec_extent s) (sp_cpu_address t) (spec_extent t)
         \<and> ranges_apart (sp_device_address s) (spec_extent s) (sp_device_address t) (spec_extent t)) specs"

text \<open>A range of the given size inside an extent, or no memory when the extent is none.\<close>

definition range_inside :: "nat \<Rightarrow> nat \<Rightarrow> nat \<Rightarrow> nat \<Rightarrow> bool" where
  "range_inside a n base extent \<longleftrightarrow> (if base = 0 then a = 0 else base \<le> a \<and> a + n \<le> base + extent)"

definition block_of_spec :: "buffer_spec \<Rightarrow> block \<Rightarrow> bool" where
  "block_of_spec s b \<longleftrightarrow> bk_capacity b = sp_block_size s \<and> bk_alignment b = sp_alignment s
     \<and> bk_domain b = sp_domain s \<and> bk_lifetime b = sp_lifetime s \<and> bk_on_return b = sp_on_return s
     \<and> bk_context b = sp_context s \<and> bk_references b = 0
     \<and> (bk_domain b = Cpu \<longrightarrow> bk_address b \<noteq> 0) \<and> bk_alignment b dvd bk_address b
     \<and> range_inside (bk_address b) (bk_capacity b) (sp_cpu_address s) (spec_extent s)
     \<and> range_inside (bk_device_address b) (bk_capacity b) (sp_device_address s) (spec_extent s)
     \<and> bk_device_address b + bk_capacity b \<le> size_max"

definition blocks_apart :: "block \<Rightarrow> block \<Rightarrow> bool" where
  "blocks_apart a b \<longleftrightarrow> ranges_apart (bk_address a) (bk_capacity a) (bk_address b) (bk_capacity b)
     \<and> ranges_apart (bk_device_address a) (bk_capacity a) (bk_device_address b) (bk_capacity b)"

lemma inside_apart:
  assumes "range_inside a n x k" "range_inside b l y j" "ranges_apart x k y j"
  shows "ranges_apart a n b l"
  using assms by (auto simp: range_inside_def ranges_apart_def split: if_splits)

lemma spec_blocks_layout:
  assumes "power_of_two (sp_alignment s)" "sp_alignment s dvd sp_block_size s" "sp_alignment s dvd sp_cpu_address s"
    and "sp_domain s = Cpu \<longrightarrow> sp_cpu_address s \<noteq> 0" "sp_cpu_address s + spec_extent s \<le> size_max"
    and "sp_device_address s + spec_extent s \<le> size_max"
  shows "\<forall>b \<in> set (spec_blocks s). block_of_spec s b" "sorted_wrt blocks_apart (spec_blocks s)"
proof -
  have step: "a * sp_block_size s + sp_block_size s \<le> b * sp_block_size s" if "a < b" for a b
    using mult_le_mono1 [of "Suc a" b "sp_block_size s"] that by simp
  have e: "i * sp_block_size s + sp_block_size s \<le> spec_extent s" if "i < sp_block_count s" for i
    using step [OF that] by (simp add: spec_extent_def)
  have exact: "size_add (sp_cpu_address s) (i * sp_block_size s) = sp_cpu_address s + i * sp_block_size s"
    "size_add (sp_device_address s) (i * sp_block_size s) = sp_device_address s + i * sp_block_size s"
    if "i < sp_block_count s" for i
    using e [OF that] assms(5,6) by (simp_all add: size_add_id)
  show "\<forall>b \<in> set (spec_blocks s). block_of_spec s b"
  proof
    fix b assume "b \<in> set (spec_blocks s)"
    then obtain i where i: "i < sp_block_count s" "b = spec_blocks s ! i"
      by (auto simp: in_set_conv_nth spec_blocks_def)
    show "block_of_spec s b"
      using i assms e [OF i(1)] exact [OF i(1)]
      by (auto simp: block_of_spec_def spec_blocks_def range_inside_def)
  qed
  show "sorted_wrt blocks_apart (spec_blocks s)"
    unfolding sorted_wrt_iff_nth_less
  proof (intro allI impI)
    fix i j assume ij: "i < j" "j < length (spec_blocks s)"
    then have j: "j < sp_block_count s" "i < sp_block_count s" by (simp_all add: spec_blocks_def)
    then show "blocks_apart (spec_blocks s ! i) (spec_blocks s ! j)"
      using step [OF ij(1)] exact [OF j(1)] exact [OF j(2)]
      by (simp add: blocks_apart_def ranges_apart_def spec_blocks_def)
  qed
qed

lemma pool_layout:
  assumes "\<forall>s \<in> set specs. (\<forall>b \<in> set (spec_blocks s). block_of_spec s b) \<and> sorted_wrt blocks_apart (spec_blocks s)"
    and "provided_memory specs"
  shows "list_all2 block_of_spec (concat (map (\<lambda>s. replicate (sp_block_count s) s) specs)) (concat (map spec_blocks specs))"
    "sorted_wrt blocks_apart (concat (map spec_blocks specs))"
proof -
  have "list_all2 block_of_spec (concat (map (\<lambda>s. replicate (sp_block_count s) s) specs)) (concat (map spec_blocks specs))
      \<and> sorted_wrt blocks_apart (concat (map spec_blocks specs))"
    using assms
  proof (induction specs)
    case (Cons s specs)
    have rest: "provided_memory specs" using Cons.prems(2) by (simp add: provided_memory_def)
    have one: "list_all2 block_of_spec (replicate (sp_block_count s) s) (spec_blocks s)"
      using Cons.prems(1) by (auto simp: list_all2_conv_all_nth spec_blocks_def)
    have "blocks_apart a b" if a: "a \<in> set (spec_blocks s)" and t: "t \<in> set specs" "b \<in> set (spec_blocks t)" for a b t
    proof -
      have o: "block_of_spec s a" "block_of_spec t b" using Cons.prems(1) a t by auto
      have "ranges_apart (sp_cpu_address s) (spec_extent s) (sp_cpu_address t) (spec_extent t)"
        "ranges_apart (sp_device_address s) (spec_extent s) (sp_device_address t) (spec_extent t)"
        using Cons.prems(2) t(1) by (simp_all add: provided_memory_def)
      then show ?thesis using o inside_apart unfolding blocks_apart_def block_of_spec_def by blast
    qed
    then show ?case using Cons.IH Cons.prems(1) rest one
      by (auto simp: sorted_wrt_append intro: list_all2_appendI)
  qed simp
  then show "list_all2 block_of_spec (concat (map (\<lambda>s. replicate (sp_block_count s) s) specs)) (concat (map spec_blocks specs))"
    "sorted_wrt blocks_apart (concat (map spec_blocks specs))" by blast+
qed

text \<open>C39: On memory that exists and is not shared between the specifications, a created pool has, in
  order, exactly the configured number of blocks of each specification. Every block, the first and the
  last included, has the size, alignment, domain and hook of its specification and no references, is
  aligned, and lies inside the specification's CPU and device extents, without wrapping around. No two
  blocks of the pool overlap, whether of one specification or of two.\<close>

theorem created_pool_layout:
  assumes "pool_create n m specs = (m', Inr (Some p))" "provided_memory specs"
  shows "pool_block_count m' (Some p) = (\<Sum>s \<leftarrow> specs. sp_block_count s)
    \<and> list_all2 block_of_spec (concat (map (\<lambda>s. replicate (sp_block_count s) s) specs)) (pl_blocks (mm_pools m' ! p))
    \<and> sorted_wrt blocks_apart (pl_blocks (mm_pools m' ! p))"
proof -
  obtain k where k: "count_blocks specs 0 = Inr k"
    using assms(1) by (auto simp: pool_create_def split: sum.splits if_splits)
  have new: "pl_blocks (mm_pools m' ! p) = concat (map spec_blocks specs)"
    using assms(1) k by (auto simp: pool_create_def split: if_splits)
  have "(\<forall>b \<in> set (spec_blocks s). block_of_spec s b) \<and> sorted_wrt blocks_apart (spec_blocks s)"
    if s: "s \<in> set specs" for s
  proof -
    note c = conjunct2 [OF conjunct2 [OF count_blocks_Inr [OF k]], rule_format, OF _ s]
    have "sp_cpu_address s + spec_extent s \<le> size_max" using assms(2) s by (simp add: provided_memory_def list_all_iff)
    then show ?thesis using c spec_blocks_layout [of s] by (simp add: spec_extent_def)
  qed
  then have "list_all2 block_of_spec (concat (map (\<lambda>s. replicate (sp_block_count s) s) specs)) (concat (map spec_blocks specs))"
    "sorted_wrt blocks_apart (concat (map spec_blocks specs))"
    using pool_layout [OF _ assms(2)] by blast+
  moreover have "length (concat (map spec_blocks specs)) = (\<Sum>s \<leftarrow> specs. sp_block_count s)"
    by (simp add: length_concat spec_blocks_def comp_def)
  ultimately show ?thesis by (simp add: pool_block_count_def new)
qed

section \<open>A concrete pool\<close>

definition empty_memory :: memory where
  "empty_memory = \<lparr>mm_pools = [], mm_quotas = [], mm_ram = (\<lambda>_. 0), mm_hooks = []\<rparr>"

definition sample_spec :: buffer_spec where
  "sample_spec = \<lparr>sp_lifetime = Some 1, sp_cpu_address = 64, sp_block_size = 16,
     sp_block_count = 2, sp_alignment = 8, sp_domain = Cpu, sp_device_address = 0,
     sp_on_return = Some 7, sp_context = 3\<rparr>"

definition sample_memory :: memory where
  "sample_memory = fst (pool_create 88 empty_memory [sample_spec])"

definition sample_request :: buffer_request where
  "sample_request = \<lparr>rq_capacity = 10, rq_alignment = 8, rq_domain = Cpu, rq_cpu_access = True\<rparr>"

definition sample_lease :: buffer_lease where
  "sample_lease = \<lparr>bl_state = Some 0, bl_index = 0, bl_used = 0\<rparr>"

lemma sample_create:
  "pool_create 88 empty_memory [sample_spec] = (sample_memory, Inr (Some 0))"
  by (simp add: sample_memory_def pool_create_def sample_spec_def power_of_two_def size_max_def
      empty_memory_def)

lemma sample_pools: "mm_pools sample_memory = [\<lparr>pl_blocks = spec_blocks sample_spec, pl_returns = 0\<rparr>]"
  by (simp add: sample_memory_def pool_create_def sample_spec_def power_of_two_def size_max_def
      empty_memory_def)

lemma sample_acquire:
  "buffer_acquire sample_memory (Some 0) sample_request
     = (set_references sample_memory 0 0 1, Inr sample_lease)"
  by (simp add: buffer_acquire_def sample_pools select_block_def sample_lease_def spec_blocks_def
      sample_spec_def sample_request_def block_fits_def power_of_two_def numeral_2_eq_2 upt_rec size_max_def)

theorem buffer_leases_exclusive_witness:
  "bk_references (block_at sample_memory 0 1) = 0 \<and> free_block {#} {#} 0 0
   \<and> block_serves sample_request (block_at sample_memory 0 0)
   \<and> bk_capacity (block_at sample_memory 0 0) \<le> bk_capacity (block_at sample_memory 0 1)
   \<and> bk_references (block_at (set_references sample_memory 0 0 1) 0 0) = 1"
proof -
  have "lease_step (empty_memory, {#}, {#}) (sample_memory, {#}, {#})"
    by (rule lease_step.Create [OF sample_create])
  then have "lease_step\<^sup>*\<^sup>* (empty_memory, {#}, {#}) (sample_memory, {#}, {#})" by simp
  note t = buffer_leases_exclusive [OF this]
  have e: "mm_pools empty_memory = []" "0 < length (mm_pools sample_memory)" "valid_block sample_memory 0 1"
    by (simp_all add: empty_memory_def sample_pools valid_block_def spec_blocks_def sample_spec_def)
  have "block_serves sample_request (block_at sample_memory 0 1)" "free_block {#} {#} 0 1"
    by (simp_all add: block_serves_def free_block_def block_at_def sample_pools spec_blocks_def sample_spec_def
        sample_request_def size_max_def)
  then show ?thesis
    using t [OF e(1), THEN conjunct2, THEN conjunct1, rule_format, OF e(3)]
      t [OF e(1), THEN conjunct2, THEN conjunct2, rule_format, OF e(2), of sample_request, unfolded sample_acquire]
      e(3)
    by (simp add: sample_lease_def)
qed

definition sample_specs :: "buffer_spec list" where
  "sample_specs = [sample_spec, sample_spec\<lparr>sp_cpu_address := 128, sp_block_count := 1\<rparr>]"

theorem created_pool_layout_witness:
  "\<exists>m'. pool_create 88 empty_memory sample_specs = (m', Inr (Some 0)) \<and> pool_block_count m' (Some 0) = 3
     \<and> blocks_apart (pl_blocks (mm_pools m' ! 0) ! 0) (pl_blocks (mm_pools m' ! 0) ! 2)
     \<and> block_of_spec sample_spec (pl_blocks (mm_pools m' ! 0) ! 1)"
proof -
  obtain m' where m': "pool_create 88 empty_memory sample_specs = (m', Inr (Some 0))"
    by (simp add: pool_create_def sample_specs_def sample_spec_def power_of_two_def size_max_def empty_memory_def)
  have "provided_memory sample_specs"
    by (simp add: provided_memory_def sample_specs_def sample_spec_def ranges_apart_def spec_extent_def size_max_def)
  note t = created_pool_layout [OF m' this]
  let ?bs = "pl_blocks (mm_pools m' ! 0)"
  have n: "length ?bs = 3" using t by (simp add: pool_block_count_def sample_specs_def sample_spec_def)
  have "blocks_apart (?bs ! 0) (?bs ! 2)" using t n sorted_wrt_nth_less [of blocks_apart ?bs 0 2] by simp
  moreover have "block_of_spec sample_spec (?bs ! 1)"
    using list_all2_nthD2 [OF t [THEN conjunct2, THEN conjunct1], of 1] n
    by (simp add: sample_specs_def sample_spec_def numeral_2_eq_2)
  ultimately show ?thesis using m' t by (simp add: sample_specs_def sample_spec_def)
qed

end
