(* ===== verification/Rx_Envelope.thy ===== *)
theory Rx_Envelope
  imports Memory_Pool
begin

text \<open>
  Received and transmitted packets as collections of buffer leases
  (\<^verbatim>\<open>include/vita/memory/envelope.hpp\<close>): retention quotas, the received envelope, the
  packet a consumer retains from it, and transmit storage. The fixed arrays of leases and
  segments are lists of the array's length; the counters say how much of them is in use. The
  compare-exchange loop of \<open>take_quota\<close> is one atomic step, the iteration that succeeds.
\<close>

section \<open>Segments and quotas\<close>

record segment_ref =
  sg_lease :: nat
  sg_offset :: nat
  sg_length :: nat

definition null_segment :: segment_ref where
  "null_segment = \<lparr>sg_lease = 0, sg_offset = 0, sg_length = 0\<rparr>"

definition set_quota :: "memory \<Rightarrow> nat \<Rightarrow> quota_state \<Rightarrow> memory" where
  "set_quota m q s = m\<lparr>mm_quotas := (mm_quotas m)[q := s]\<rparr>"

definition make_quota :: "memory \<Rightarrow> nat \<Rightarrow> memory \<times> nat" where
  "make_quota m limit =
     (m\<lparr>mm_quotas := mm_quotas m @ [\<lparr>qt_active = 0, qt_limit = limit, qt_enabled = True\<rparr>]\<rparr>,
      length (mm_quotas m))"

definition quota_active :: "memory \<Rightarrow> nat \<Rightarrow> nat" where
  "quota_active m q = qt_active (mm_quotas m ! q)"

definition quota_enable :: "memory \<Rightarrow> nat \<Rightarrow> bool \<Rightarrow> memory" where
  "quota_enable m q v = set_quota m q ((mm_quotas m ! q)\<lparr>qt_enabled := v\<rparr>)"

definition take_quota :: "memory \<Rightarrow> nat \<Rightarrow> memory \<times> bool" where
  "take_quota m q = (let s = mm_quotas m ! q in
     if \<not> qt_enabled s then (m, False)
     else if qt_active s < qt_limit s
     then (set_quota m q (s\<lparr>qt_active := size_add (qt_active s) 1\<rparr>), True)
     else (m, False))"

definition give_quota :: "memory \<Rightarrow> nat \<Rightarrow> memory" where
  "give_quota m q = (let s = mm_quotas m ! q in
     set_quota m q (s\<lparr>qt_active := size_sub (qt_active s) 1\<rparr>))"

text \<open>Both quotas, or neither; \<open>retain\<close> of either class starts with this.\<close>

definition take_both :: "memory \<Rightarrow> nat \<Rightarrow> nat \<Rightarrow> memory \<times> bool" where
  "take_both m consumer global_q = (case take_quota m consumer of
       (m1, False) \<Rightarrow> (m1, False)
     | (m1, True) \<Rightarrow>
         if consumer \<noteq> global_q
         then (case take_quota m1 global_q of
                 (m2, True) \<Rightarrow> (m2, True)
               | (m2, False) \<Rightarrow> (give_quota m2 consumer, False))
         else (m1, True))"

section \<open>Arrays of leases\<close>

fun reset_all :: "memory \<Rightarrow> buffer_lease list \<Rightarrow> memory \<times> buffer_lease list" where
  "reset_all m [] = (m, [])"
| "reset_all m (l # ls) = (let (m1, l') = lease_reset m l; (m2, ls') = reset_all m1 ls in (m2, l' # ls'))"

fun assign_all :: "memory \<Rightarrow> buffer_lease list \<Rightarrow> buffer_lease list
    \<Rightarrow> memory \<times> buffer_lease list \<times> buffer_lease list" where
  "assign_all m (d # ds) (s # ss) = (let (m1, d', s') = lease_assign m d s;
      (m2, ds', ss') = assign_all m1 ds ss in (m2, d' # ds', s' # ss'))"
| "assign_all m ds ss = (m, ds, ss)"

fun share_all :: "memory \<Rightarrow> buffer_lease list \<Rightarrow> memory \<times> buffer_lease list" where
  "share_all m [] = (m, [])"
| "share_all m (l # ls) = (let (m1, l') = lease_share m l; (m2, ls') = share_all m1 ls in (m2, l' # ls'))"

text \<open>A segment of the bytes a lease covers.\<close>

definition segment_bytes :: "memory \<Rightarrow> buffer_lease list \<Rightarrow> segment_ref \<Rightarrow> bytes result" where
  "segment_bytes m leases s = and_then (lease_bytes m (leases ! sg_lease s))
     (\<lambda>b. Inr (subspan b (sg_offset s) (sg_length s)))"

section \<open>Retained packets\<close>

record retained_rx =
  rt_leases :: "buffer_lease list"
  rt_fragments :: "segment_ref list"
  rt_lease_count :: nat
  rt_fragment_count :: nat
  rt_consumer :: "nat option"
  rt_global :: "nat option"

definition null_retained :: retained_rx where
  "null_retained = \<lparr>rt_leases = replicate 16 null_lease, rt_fragments = replicate 16 null_segment,
     rt_lease_count = 0, rt_fragment_count = 0, rt_consumer = None, rt_global = None\<rparr>"

definition release_quotas :: "memory \<Rightarrow> retained_rx \<Rightarrow> memory \<times> retained_rx" where
  "release_quotas m r = (let
     m1 = (case rt_consumer r of None \<Rightarrow> m | Some c \<Rightarrow> give_quota m c);
     m2 = (case rt_global r of None \<Rightarrow> m1
           | Some g \<Rightarrow> if rt_global r \<noteq> rt_consumer r then give_quota m1 g else m1)
   in (m2, r\<lparr>rt_consumer := None, rt_global := None\<rparr>))"

definition retained_reset :: "memory \<Rightarrow> retained_rx \<Rightarrow> memory \<times> retained_rx" where
  "retained_reset m r = (let (m1, ls) = reset_all m (rt_leases r)
     in release_quotas m1 (r\<lparr>rt_leases := ls, rt_lease_count := 0, rt_fragment_count := 0\<rparr>))"

definition retained_move :: "retained_rx \<Rightarrow> retained_rx \<times> retained_rx" where
  "retained_move other = (other\<lparr>rt_leases := map (fst \<circ> lease_move) (rt_leases other)\<rparr>,
     other\<lparr>rt_leases := map (snd \<circ> lease_move) (rt_leases other), rt_lease_count := 0,
       rt_fragment_count := 0, rt_consumer := None, rt_global := None\<rparr>)"

definition retained_assign ::
  "memory \<Rightarrow> retained_rx \<Rightarrow> retained_rx \<Rightarrow> memory \<times> retained_rx \<times> retained_rx" where
  "retained_assign m dst src = (let
     (m1, d) = retained_reset m dst;
     (m2, ls, ls') = assign_all m1 (rt_leases d) (rt_leases src)
   in (m2, d\<lparr>rt_leases := ls, rt_fragments := rt_fragments src,
             rt_lease_count := rt_lease_count src, rt_fragment_count := rt_fragment_count src,
             rt_consumer := rt_consumer src, rt_global := rt_global src\<rparr>,
       src\<lparr>rt_leases := ls', rt_lease_count := 0, rt_fragment_count := 0,
           rt_consumer := None, rt_global := None\<rparr>))"

definition retained_retain ::
  "memory \<Rightarrow> retained_rx \<Rightarrow> nat \<Rightarrow> nat \<Rightarrow> memory \<times> retained_rx result" where
  "retained_retain m r consumer global_q =
     (if rt_fragment_count r = 0 then (m, Inl (err Invalid_state))
      else case take_both m consumer global_q of
        (m1, False) \<Rightarrow> (m1, Inl (err Capacity_exhausted))
      | (m1, True) \<Rightarrow> (let
          (m2, ls) = share_all m1 (take (rt_lease_count r) (rt_leases r))
        in (m2, Inr (null_retained\<lparr>rt_leases := ls @ drop (rt_lease_count r) (rt_leases null_retained),
             rt_fragments := rt_fragments r, rt_lease_count := rt_lease_count r,
             rt_fragment_count := rt_fragment_count r, rt_consumer := Some consumer,
             rt_global := Some global_q\<rparr>))))"

definition retained_fragment :: "memory \<Rightarrow> retained_rx \<Rightarrow> nat \<Rightarrow> bytes result" where
  "retained_fragment m r i =
     (if i \<ge> rt_fragment_count r then Inl (err Invalid_argument)
      else segment_bytes m (rt_leases r) (rt_fragments r ! i))"

section \<open>Received envelopes\<close>

record rx_envelope =
  rx_leases :: "buffer_lease list"
  rx_payload :: "segment_ref list"
  rx_lease_count :: nat
  rx_fragment_count :: nat
  rx_prologue :: segment_ref
  rx_trailer :: segment_ref
  rx_has_prologue :: bool
  rx_has_trailer :: bool

definition null_rx :: rx_envelope where
  "null_rx = \<lparr>rx_leases = replicate 18 null_lease, rx_payload = replicate 16 null_segment,
     rx_lease_count = 0, rx_fragment_count = 0, rx_prologue = null_segment,
     rx_trailer = null_segment, rx_has_prologue = False, rx_has_trailer = False\<rparr>"

definition rx_valid :: "rx_envelope \<Rightarrow> segment_ref \<Rightarrow> bool" where
  "rx_valid e s \<longleftrightarrow> sg_lease s < rx_lease_count e
     \<and> sg_offset s \<le> bl_used (rx_leases e ! sg_lease s)
     \<and> sg_length s \<le> size_sub (bl_used (rx_leases e ! sg_lease s)) (sg_offset s)"

definition rx_moved :: "rx_envelope \<Rightarrow> buffer_lease list \<Rightarrow> rx_envelope" where
  "rx_moved other ls = other\<lparr>rx_leases := ls, rx_lease_count := 0, rx_fragment_count := 0,
     rx_has_prologue := False, rx_has_trailer := False\<rparr>"

definition rx_move :: "rx_envelope \<Rightarrow> rx_envelope \<times> rx_envelope" where
  "rx_move other = (other\<lparr>rx_leases := map (fst \<circ> lease_move) (rx_leases other)\<rparr>,
     rx_moved other (map (snd \<circ> lease_move) (rx_leases other)))"

definition rx_assign ::
  "memory \<Rightarrow> rx_envelope \<Rightarrow> rx_envelope \<Rightarrow> memory \<times> rx_envelope \<times> rx_envelope" where
  "rx_assign m dst src = (let (m1, ls, ls') = assign_all m (rx_leases dst) (rx_leases src)
     in (m1, src\<lparr>rx_leases := ls\<rparr>, rx_moved src ls'))"

text \<open>The implicit destructor destroys the array, last element first.\<close>

definition rx_destroy :: "memory \<Rightarrow> rx_envelope \<Rightarrow> memory" where
  "rx_destroy m e = fst (reset_all m (rev (rx_leases e)))"

text \<open>The lease is moved from only on success; the second result is what the caller keeps.\<close>

definition add_buffer :: "memory \<Rightarrow> rx_envelope \<Rightarrow> buffer_lease
    \<Rightarrow> memory \<times> rx_envelope \<times> buffer_lease \<times> nat result" where
  "add_buffer m e l =
     (if \<not> lease_live l then (m, e, l, Inl (err Invalid_argument))
      else if rx_lease_count e = length (rx_leases e) then (m, e, l, Inl (err Capacity_exhausted))
      else (let k = rx_lease_count e; (m1, new, old) = lease_assign m (rx_leases e ! k) l
        in (m1, e\<lparr>rx_leases := (rx_leases e)[k := new], rx_lease_count := k + 1\<rparr>, old, Inr k)))"

definition append_payload :: "rx_envelope \<Rightarrow> segment_ref \<Rightarrow> rx_envelope result" where
  "append_payload e s =
     (if \<not> rx_valid e s \<or> sg_length s = 0 then Inl (err Invalid_argument)
      else if rx_fragment_count e = length (rx_payload e) then Inl (err Capacity_exhausted)
      else Inr (e\<lparr>rx_payload := (rx_payload e)[rx_fragment_count e := s],
                  rx_fragment_count := rx_fragment_count e + 1\<rparr>))"

definition set_prologue :: "memory \<Rightarrow> rx_envelope \<Rightarrow> segment_ref \<Rightarrow> rx_envelope result" where
  "set_prologue m e s =
     (if \<not> rx_valid e s then Inl (err Invalid_argument)
      else and_then (lease_bytes m (rx_leases e ! sg_lease s))
        (\<lambda>_. Inr (e\<lparr>rx_prologue := s, rx_has_prologue := True\<rparr>)))"

definition set_trailer :: "rx_envelope \<Rightarrow> segment_ref \<Rightarrow> rx_envelope result" where
  "set_trailer e s =
     (if \<not> rx_valid e s then Inl (err Invalid_argument)
      else Inr (e\<lparr>rx_trailer := s, rx_has_trailer := True\<rparr>))"

definition prologue_bytes :: "memory \<Rightarrow> rx_envelope \<Rightarrow> bytes result" where
  "prologue_bytes m e = (if \<not> rx_has_prologue e then Inl (err Invalid_state)
     else segment_bytes m (rx_leases e) (rx_prologue e))"

definition trailer_bytes :: "memory \<Rightarrow> rx_envelope \<Rightarrow> bytes result" where
  "trailer_bytes m e = (if \<not> rx_has_trailer e then Inl (err Invalid_state)
     else segment_bytes m (rx_leases e) (rx_trailer e))"

definition rx_fragment :: "memory \<Rightarrow> rx_envelope \<Rightarrow> nat \<Rightarrow> bytes result" where
  "rx_fragment m e i = (if i \<ge> rx_fragment_count e then Inl (err Invalid_argument)
     else segment_bytes m (rx_leases e) (rx_payload e ! i))"

text \<open>
  The loop of \<open>retain\<close> over the payload segments: the first segment on a lease shares it
  into the next free place of the copy and remembers that place in \<open>remap\<close>.
\<close>

fun retain_loop :: "buffer_lease list \<Rightarrow> segment_ref list \<Rightarrow> nat list \<Rightarrow> memory \<Rightarrow> retained_rx
    \<Rightarrow> memory \<times> retained_rx" where
  "retain_loop leases [] remap m out = (m, out)"
| "retain_loop leases (s # ss) remap m out = (let
     (m1, out1, remap1) =
       (if remap ! sg_lease s = 18
        then (let (m', l) = lease_share m (leases ! sg_lease s) in
          (m', out\<lparr>rt_leases := (rt_leases out)[rt_lease_count out := l],
                   rt_lease_count := rt_lease_count out + 1\<rparr>,
           remap[sg_lease s := rt_lease_count out]))
        else (m, out, remap));
     s' = s\<lparr>sg_lease := remap1 ! sg_lease s\<rparr>
   in retain_loop leases ss remap1 m1
        (out1\<lparr>rt_fragments := (rt_fragments out1)[rt_fragment_count out1 := s'],
              rt_fragment_count := rt_fragment_count out1 + 1\<rparr>))"

definition rx_retain ::
  "memory \<Rightarrow> rx_envelope \<Rightarrow> nat \<Rightarrow> nat \<Rightarrow> memory \<times> retained_rx result" where
  "rx_retain m e consumer global_q =
     (if rx_fragment_count e = 0 then (m, Inl (err Invalid_state))
      else case take_both m consumer global_q of
        (m1, False) \<Rightarrow> (m1, Inl (err Capacity_exhausted))
      | (m1, True) \<Rightarrow> (let (m2, out) = retain_loop (rx_leases e)
            (take (rx_fragment_count e) (rx_payload e)) (replicate 18 18) m1
            (null_retained\<lparr>rt_consumer := Some consumer, rt_global := Some global_q\<rparr>)
          in (m2, Inr out)))"

section \<open>Transmit storage\<close>

record tx_storage =
  tx_leases :: "buffer_lease list"
  tx_segments :: "segment_ref list"
  tx_count :: nat

definition null_tx :: tx_storage where
  "null_tx = \<lparr>tx_leases = replicate 3 null_lease, tx_segments = replicate 3 null_segment,
     tx_count = 0\<rparr>"

definition tx_move :: "tx_storage \<Rightarrow> tx_storage \<times> tx_storage" where
  "tx_move other = (other\<lparr>tx_leases := map (fst \<circ> lease_move) (tx_leases other)\<rparr>,
     other\<lparr>tx_leases := map (snd \<circ> lease_move) (tx_leases other), tx_count := 0\<rparr>)"

definition tx_assign ::
  "memory \<Rightarrow> tx_storage \<Rightarrow> tx_storage \<Rightarrow> memory \<times> tx_storage \<times> tx_storage" where
  "tx_assign m dst src = (let (m1, ls, ls') = assign_all m (tx_leases dst) (tx_leases src)
     in (m1, src\<lparr>tx_leases := ls\<rparr>, src\<lparr>tx_leases := ls', tx_count := 0\<rparr>))"

definition byte_size :: "tx_storage \<Rightarrow> nat" where
  "byte_size t = fold (\<lambda>s n. size_add n (sg_length s)) (take (tx_count t) (tx_segments t)) 0"

definition tx_append :: "memory \<Rightarrow> tx_storage \<Rightarrow> buffer_lease \<Rightarrow> nat \<Rightarrow> nat
    \<Rightarrow> memory \<times> buffer_lease \<times> tx_storage result" where
  "tx_append m t l off len =
     (if \<not> lease_live l \<or> off > bl_used l \<or> len > size_sub (bl_used l) off \<or> len = 0
      then (m, l, Inl (err Invalid_argument))
      else if tx_count t = 3 then (m, l, Inl (err Capacity_exhausted))
      else if len > size_max - byte_size t then (m, l, Inl (err Overflow))
      else (let k = tx_count t; (m1, new, old) = lease_assign m (tx_leases t ! k) l in
        (m1, old, Inr (t\<lparr>tx_segments := (tx_segments t)[k := \<lparr>sg_lease = k, sg_offset = off, sg_length = len\<rparr>],
           tx_leases := (tx_leases t)[k := new], tx_count := k + 1\<rparr>))))"

definition tx_segment :: "memory \<Rightarrow> tx_storage \<Rightarrow> nat \<Rightarrow> bytes result" where
  "tx_segment m t i = (if i \<ge> tx_count t then Inl (err Invalid_argument)
     else and_then (lease_bytes m (tx_leases t ! i))
       (\<lambda>b. Inr (subspan b (sg_offset (tx_segments t ! i)) (sg_length (tx_segments t ! i)))))"

definition tx_destroy :: "memory \<Rightarrow> tx_storage \<Rightarrow> memory" where
  "tx_destroy m t = fst (reset_all m (rev (tx_leases t)))"

text \<open>
  The loop of \<open>acquire\<close>. Every early return destroys the lease of the iteration and the
  storage built so far.
\<close>

fun tx_acquire_loop :: "memory \<Rightarrow> nat option \<Rightarrow> tx_storage \<Rightarrow> buffer_request list
    \<Rightarrow> memory \<times> tx_storage result" where
  "tx_acquire_loop m pool out [] = (m, Inr out)"
| "tx_acquire_loop m pool out (q # qs) = (case buffer_acquire m pool q of
       (m1, Inl e) \<Rightarrow> (tx_destroy m1 out, Inl e)
     | (m1, Inr l) \<Rightarrow> (case set_size m1 l (rq_capacity q) of
         Inl e \<Rightarrow> (tx_destroy (fst (lease_reset m1 l)) out, Inl e)
       | Inr l1 \<Rightarrow> (case tx_append m1 out l1 0 (rq_capacity q) of
           (m2, l2, Inl e) \<Rightarrow> (tx_destroy (fst (lease_reset m2 l2)) out, Inl e)
         | (m2, l2, Inr out') \<Rightarrow> tx_acquire_loop (fst (lease_reset m2 l2)) pool out' qs)))"

definition tx_acquire ::
  "memory \<Rightarrow> nat option \<Rightarrow> buffer_request list \<Rightarrow> memory \<times> tx_storage result" where
  "tx_acquire m pool requests =
     (if length requests > 3 then (m, Inl (err Capacity_exhausted))
      else tx_acquire_loop m pool null_tx requests)"

section \<open>Well-formed envelopes\<close>

definition live_leases :: "buffer_lease list \<Rightarrow> buffer_lease multiset" where
  "live_leases ls = mset (filter lease_live ls)"

definition rx_ok :: "memory \<Rightarrow> rx_envelope \<Rightarrow> bool" where
  "rx_ok m e \<longleftrightarrow> length (rx_leases e) = 18 \<and> length (rx_payload e) = 16
     \<and> rx_lease_count e \<le> 18 \<and> rx_fragment_count e \<le> 16
     \<and> list_all (lease_ok m) (take (rx_lease_count e) (rx_leases e))
     \<and> list_all (\<lambda>l. \<not> lease_live l) (drop (rx_lease_count e) (rx_leases e))
     \<and> list_all (rx_valid e) (take (rx_fragment_count e) (rx_payload e))
     \<and> (rx_has_prologue e \<longrightarrow> rx_valid e (rx_prologue e))
     \<and> (rx_has_trailer e \<longrightarrow> rx_valid e (rx_trailer e))"

lemma live_leases_simps [simp]:
  "live_leases [] = {#}"
  "live_leases (l # ls) = (if lease_live l then add_mset l (live_leases ls) else live_leases ls)"
  "live_leases (rev ls) = live_leases ls"
  by (simp_all add: live_leases_def flip: rev_filter)

lemma lease_ok_live: "lease_ok m l \<Longrightarrow> lease_live l"
  by (auto simp: lease_ok_def lease_live_def split: option.splits)

lemma lease_inv_pools:
  assumes "mm_pools m' = mm_pools m"
  shows "lease_inv (m', ls, cs) = lease_inv (m, ls, cs)"
proof -
  have "valid_block m' = valid_block m" "block_at m' = block_at m"
    using assms by (auto simp: fun_eq_iff valid_block_def block_at_def)
  then show ?thesis
    by (simp add: lease_inv_def refs_ok_def lease_ok_def lease_capacity_def cong: option.case_cong)
qed

lemma same_layout_pools: "mm_pools m' = mm_pools m \<Longrightarrow> mm_ram m' = mm_ram m \<Longrightarrow> same_layout m m'"
  by (simp add: same_layout_def valid_block_def block_at_def)

section \<open>Quotas\<close>

lemma take_quota_pools [simp]:
  "mm_pools (fst (take_quota m q)) = mm_pools m" "mm_ram (fst (take_quota m q)) = mm_ram m"
  "mm_pools (give_quota m q) = mm_pools m" "mm_ram (give_quota m q) = mm_ram m"
  by (simp_all add: take_quota_def give_quota_def set_quota_def Let_def)

lemma give_take_quota:
  assumes "take_quota m q = (m', True)" "q < length (mm_quotas m)" "qt_limit (mm_quotas m ! q) \<le> size_max"
  shows "give_quota m' q = m"
proof -
  let ?s = "mm_quotas m ! q"
  have c: "qt_active ?s < qt_limit ?s"
    "m' = set_quota m q (?s\<lparr>qt_active := size_add (qt_active ?s) 1\<rparr>)"
    using assms(1) by (auto simp: take_quota_def Let_def split: if_splits)
  then show ?thesis using assms(2,3)
    by (simp add: give_quota_def set_quota_def Let_def)
qed

lemma take_both_frame:
  assumes "take_both m c g = (m', ok)"
  shows "mm_pools m' = mm_pools m" "mm_ram m' = mm_ram m"
proof -
  have p: "mm_pools a = mm_pools m0 \<and> mm_ram a = mm_ram m0" if "take_quota m0 q = (a, b)" for a b m0 q
    using take_quota_pools(1,2) [of m0 q] that by simp
  show "mm_pools m' = mm_pools m" "mm_ram m' = mm_ram m"
    using assms by (auto simp: take_both_def dest!: p split: prod.splits bool.splits if_splits)
qed

lemma take_quota_False: "take_quota m q = (m', False) \<Longrightarrow> m' = m"
  by (auto simp: take_quota_def Let_def split: if_splits)

lemma take_both_False:
  assumes "take_both m c g = (m', False)" "c < length (mm_quotas m)"
    "qt_limit (mm_quotas m ! c) \<le> size_max"
  shows "m' = m"
proof -
  obtain m1 b where a: "take_quota m c = (m1, b)" by fastforce
  show ?thesis
  proof (cases b)
    case False
    then show ?thesis using a assms(1) take_quota_False by (auto simp: take_both_def)
  next
    case True
    then obtain m2 where "take_quota m1 g = (m2, False)" "m' = give_quota m2 c"
      using a assms(1) by (auto simp: take_both_def split: prod.splits bool.splits if_splits)
    moreover have "take_quota m c = (m1, True)" using a True by simp
    ultimately show ?thesis using take_quota_False give_take_quota assms(2,3) by blast
  qed
qed

section \<open>Sharing and dropping whole arrays\<close>

lemma lease_reset_inv:
  assumes "lease_inv (m, add_mset l ls, cs)"
  shows "lease_inv (fst (lease_reset m l), ls, cs)" "same_layout m (fst (lease_reset m l))"
    "mm_quotas (fst (lease_reset m l)) = mm_quotas m"
proof -
  have ok: "lease_ok m l" using assms by (simp add: lease_inv_def)
  then obtain p where p: "bl_state l = Some p" "valid_block m p (bl_index l)"
    by (auto simp: lease_ok_def split: option.splits)
  obtain m1 b where d: "lease_drop m p (bl_index l) = (m1, b)" by fastforce
  note s = step_drop [OF assms p(1) d] and f = lease_drop_frame [OF p(2) d]
  have v: "valid_block m1 p (bl_index l)" using f(1) p(2) by (simp add: same_layout_def)
  have r: "fst (lease_reset m l) = (if b then lease_reclaim m1 p (bl_index l) else m1)"
    using p d by (simp add: lease_reset_def)
  show "lease_inv (fst (lease_reset m l), ls, cs)" using s step_reclaim r by (cases b) auto
  show "same_layout m (fst (lease_reset m l))"
    using r f(1) lease_reclaim_frame [OF v] same_layout_trans by (cases b) auto
  show "mm_quotas (fst (lease_reset m l)) = mm_quotas m"
    using r f(2) lease_reclaim_blocks(4) [OF v] by (cases b) auto
qed

lemma lease_move_eq: "lease_move l = (l, l\<lparr>bl_state := None\<rparr>)"
  by (simp add: lease_move_def)

lemma lease_reset_dead: "\<not> lease_live l \<Longrightarrow> lease_reset m l = (m, l)"
  by (simp add: lease_live_def lease_reset_def)

lemma reset_all_inv:
  "lease_inv (m, live_leases xs + ls, cs) \<Longrightarrow>
     lease_inv (fst (reset_all m xs), ls, cs) \<and> same_layout m (fst (reset_all m xs))"
proof (induction xs arbitrary: m)
  case (Cons x xs)
  show ?case
  proof (cases "lease_live x")
    case True
    then have i: "lease_inv (m, add_mset x (live_leases xs + ls), cs)" using Cons.prems by simp
    note r = lease_reset_inv [OF i]
    show ?thesis using Cons.IH [OF r(1)] r(2) same_layout_trans
      by (auto simp: Let_def split: prod.splits)
  next
    case False
    then show ?thesis using Cons.IH [of m] Cons.prems lease_reset_dead [OF False]
      by (auto simp: Let_def split: prod.splits)
  qed
qed simp

section \<open>Retaining a packet\<close>

definition retained_of ::
  "buffer_lease list \<Rightarrow> segment_ref list \<Rightarrow> nat list \<Rightarrow> retained_rx \<Rightarrow> bool" where
  "retained_of leases seen remap out \<longleftrightarrow>
     length remap = 18 \<and> length (rt_leases out) = 16 \<and> length (rt_fragments out) = 16
     \<and> rt_fragment_count out = length seen \<and> rt_lease_count out \<le> length seen
     \<and> (\<forall>l \<in> set (drop (rt_lease_count out) (rt_leases out)). \<not> lease_live l)
     \<and> (\<forall>j < 18. remap ! j \<noteq> 18 \<longrightarrow>
          remap ! j < rt_lease_count out \<and> rt_leases out ! (remap ! j) = leases ! j)
     \<and> (\<forall>k < length seen. remap ! sg_lease (seen ! k) \<noteq> 18
          \<and> rt_fragments out ! k = (seen ! k)\<lparr>sg_lease := remap ! sg_lease (seen ! k)\<rparr>)"

lemma live_leases_split:
  assumes "\<forall>l \<in> set (drop n ls). \<not> lease_live l"
  shows "live_leases ls = live_leases (take n ls)"
proof -
  have "filter lease_live (drop n ls) = []" using assms by (simp add: filter_empty_conv)
  then have "filter lease_live ls = filter lease_live (take n ls)"
    by (metis append_Nil2 append_take_drop_id filter_append)
  then show ?thesis by (simp add: live_leases_def)
qed

lemma live_leases_update:
  "i < length xs \<Longrightarrow> \<not> lease_live (xs ! i) \<Longrightarrow> lease_live l \<Longrightarrow>
     live_leases (xs[i := l]) = add_mset l (live_leases xs)"
  by (induction xs arbitrary: i) (auto simp: nth_Cons split: nat.splits)

lemma size_live_leases: "size (live_leases xs) \<le> length xs"
  by (metis live_leases_def length_filter_le size_mset)

lemma retained_of_share:
  assumes r: "retained_of leases seen remap out" and j: "sg_lease s < 18" "remap ! sg_lease s = 18"
    and room: "length seen < 16"
  shows "retained_of leases (seen @ [s]) (remap[sg_lease s := rt_lease_count out])
    (out\<lparr>rt_leases := (rt_leases out)[rt_lease_count out := leases ! sg_lease s],
         rt_lease_count := rt_lease_count out + 1,
         rt_fragments := (rt_fragments out)[rt_fragment_count out := s\<lparr>sg_lease := rt_lease_count out\<rparr>],
         rt_fragment_count := rt_fragment_count out + 1\<rparr>)"
proof -
  let ?c = "rt_lease_count out"
  have c: "?c < 16" "?c \<noteq> 18" using r room by (auto simp: retained_of_def)
  have dead: "\<not> lease_live l"
    if "l \<in> set (drop (Suc ?c) ((rt_leases out)[?c := leases ! sg_lease s]))" for l
  proof -
    have "drop (Suc ?c) ((rt_leases out)[?c := leases ! sg_lease s]) = drop (Suc ?c) (rt_leases out)"
      by (simp add: drop_update_cancel)
    then have "l \<in> set (drop ?c (rt_leases out))"
      using that set_drop_subset_set_drop [of ?c "Suc ?c" "rt_leases out"] by auto
    then show ?thesis using r by (auto simp: retained_of_def)
  qed
  show ?thesis
    using r j c dead room by (auto simp: retained_of_def nth_list_update nth_append less_Suc_eq)
qed

lemma retained_of_reuse:
  assumes r: "retained_of leases seen remap out" and j: "sg_lease s < 18" "remap ! sg_lease s \<noteq> 18"
    and room: "length seen < 16"
  shows "retained_of leases (seen @ [s]) remap
    (out\<lparr>rt_fragments := (rt_fragments out)[rt_fragment_count out := s\<lparr>sg_lease := remap ! sg_lease s\<rparr>],
         rt_fragment_count := rt_fragment_count out + 1\<rparr>)"
  using assms by (auto simp: retained_of_def nth_list_update nth_append less_Suc_eq)

lemma retain_loop_ok:
  assumes "retained_of leases seen remap out" "lease_inv (m, ls + live_leases (rt_leases out), cs)"
    and "\<forall>s \<in> set ss. sg_lease s < 18 \<and> leases ! sg_lease s \<in># ls" "length seen + length ss \<le> 16"
    and "size ls + 32 < size_max" "retain_loop leases ss remap m out = (m', out')"
  shows "\<exists>remap'. retained_of leases (seen @ ss) remap' out' \<and> same_layout m m'
    \<and> lease_inv (m', ls + live_leases (rt_leases out'), cs)
    \<and> rt_consumer out' = rt_consumer out \<and> rt_global out' = rt_global out"
  using assms
proof (induction ss arbitrary: seen remap m out)
  case (Cons s ss)
  have j: "sg_lease s < 18" and l: "leases ! sg_lease s \<in># ls" and room: "length seen < 16"
    using Cons.prems(3,4) by auto
  let ?l = "leases ! sg_lease s"
  show ?case
  proof (cases "remap ! sg_lease s = 18")
    case True
    obtain m1 l1 where sh: "lease_share m ?l = (m1, l1)" by fastforce
    let ?out = "out\<lparr>rt_leases := (rt_leases out)[rt_lease_count out := ?l],
         rt_lease_count := rt_lease_count out + 1,
         rt_fragments := (rt_fragments out)[rt_fragment_count out := s\<lparr>sg_lease := rt_lease_count out\<rparr>],
         rt_fragment_count := rt_fragment_count out + 1\<rparr>"
    have ok: "lease_ok m ?l" using lease_invD(2) [OF Cons.prems(2)] l by simp
    note f = lease_share_frame [OF ok sh]
    have lc: "rt_lease_count out < length (rt_leases out)"
      and len: "length (rt_leases out) = 16" and remap: "length remap = 18"
      using Cons.prems(1) room by (auto simp: retained_of_def)
    have dead: "\<not> lease_live (rt_leases out ! rt_lease_count out)"
      using Cons.prems(1) Cons_nth_drop_Suc [OF lc] unfolding retained_of_def
      by (metis list.set_intros(1))
    have "lease_inv (m1, add_mset l1 (ls + live_leases (rt_leases out)), cs)"
      by (rule step_share [OF Cons.prems(2) _ _ sh])
         (use l Cons.prems(5) size_live_leases [of "rt_leases out"] len in auto)
    then have inv: "lease_inv (m1, ls + live_leases (rt_leases ?out), cs)"
      using live_leases_update [OF lc dead lease_ok_live [OF ok]] f(1) by simp
    have "retain_loop leases ss (remap[sg_lease s := rt_lease_count out]) m1 ?out = (m', out')"
      using Cons.prems(6) True sh f(1) remap j by simp
    from Cons.IH [OF retained_of_share [OF Cons.prems(1) j True room] inv _ _ Cons.prems(5) this]
    show ?thesis using Cons.prems(3,4) f(2) same_layout_trans by fastforce
  next
    case False
    from Cons.IH [OF retained_of_reuse [OF Cons.prems(1) j False room] _ _ _ Cons.prems(5)]
    show ?thesis using Cons.prems False by simp
  qed
qed auto

lemma retained_fragment_eq:
  assumes r: "retained_of (rx_leases e) (take (rx_fragment_count e) (rx_payload e)) remap out"
    and e: "rx_ok m e" and lay: "same_layout m m'"
  shows "retained_fragment m' out i = rx_fragment m e i"
proof -
  have n: "length (take (rx_fragment_count e) (rx_payload e)) = rx_fragment_count e"
    using e by (simp add: rx_ok_def)
  show ?thesis
  proof (cases "i < rx_fragment_count e")
    case False
    then show ?thesis using r n by (simp add: retained_fragment_def rx_fragment_def retained_of_def)
  next
    case True
    let ?s = "rx_payload e ! i"
    have v: "sg_lease ?s < rx_lease_count e" "rx_lease_count e \<le> 18" "length (rx_leases e) = 18"
      using e True n by (auto simp: rx_ok_def rx_valid_def list_all_length)
    then have ok: "lease_ok m (rx_leases e ! sg_lease ?s)"
      using e by (simp add: rx_ok_def list_all_length)
    have f: "rt_fragments out ! i = ?s\<lparr>sg_lease := remap ! sg_lease ?s\<rparr>"
      "rt_leases out ! (remap ! sg_lease ?s) = rx_leases e ! sg_lease ?s"
      using r True n v by (auto simp: retained_of_def)
    show ?thesis
      using True r n f lease_bytes_layout [OF lay ok]
      by (simp add: retained_fragment_def rx_fragment_def segment_bytes_def retained_of_def)
  qed
qed

lemma retained_of_null: "retained_of leases [] (replicate 18 18)
    (null_retained\<lparr>rt_consumer := c, rt_global := g\<rparr>)"
  by (auto simp: retained_of_def null_retained_def lease_live_def null_lease_def)

lemma live_null_retained [simp]: "live_leases (rt_leases null_retained) = {#}"
  by (simp add: live_leases_def null_retained_def filter_empty_conv lease_live_def null_lease_def)

lemma rx_leases_live:
  assumes "rx_ok m e" "i < rx_lease_count e"
  shows "rx_leases e ! i \<in># live_leases (rx_leases e)"
proof -
  have "lease_ok m (rx_leases e ! i)" "i < length (rx_leases e)"
    using assms by (auto simp: rx_ok_def list_all_length)
  then show ?thesis using lease_ok_live by (auto simp: live_leases_def)
qed

text \<open>C35: Retaining a received packet either fails and changes nothing, quotas included, or
  yields a packet with the same fragments: each reads the bytes it reads in the envelope, also
  after the envelope is destroyed, and from then on the retained packet's leases, with the rest
  of the program's, account for every reference, so none of its blocks can be handed out.\<close>

theorem retained_packet_survives:
  assumes e: "rx_ok m e" and inv: "lease_inv (m, live_leases (rx_leases e) + ls, cs)"
    and room: "size ls + 64 < size_max"
    and quota: "consumer < length (mm_quotas m)" "qt_limit (mm_quotas m ! consumer) \<le> size_max"
  shows "case rx_retain m e consumer g of
      (m', Inl x) \<Rightarrow> m' = m
    | (m', Inr r) \<Rightarrow> rt_fragment_count r = rx_fragment_count e
        \<and> (\<forall>i. retained_fragment m' r i = rx_fragment m e i
             \<and> retained_fragment (rx_destroy m' e) r i = rx_fragment m e i)
        \<and> lease_inv (rx_destroy m' e, live_leases (rt_leases r) + ls, cs)"
proof -
  obtain m1 ok where t: "take_both m consumer g = (m1, ok)" by fastforce
  note tf = take_both_frame [OF t]
  consider (empty) "rx_fragment_count e = 0" | (refused) "rx_fragment_count e \<noteq> 0" "\<not> ok"
    | (retained) "rx_fragment_count e \<noteq> 0" ok by blast
  then show ?thesis
  proof cases
    case refused
    then show ?thesis using t take_both_False [OF _ quota] by (auto simp: rx_retain_def)
  next
    case retained
    let ?ss = "take (rx_fragment_count e) (rx_payload e)"
    let ?out = "null_retained\<lparr>rt_consumer := Some consumer, rt_global := Some g\<rparr>"
    obtain m2 r where l: "retain_loop (rx_leases e) ?ss (replicate 18 18) m1 ?out = (m2, r)"
      by fastforce
    have inv1: "lease_inv (m1, (live_leases (rx_leases e) + ls) + live_leases (rt_leases ?out), cs)"
      using inv lease_inv_pools [OF tf(1)] by simp
    have len: "length (rx_leases e) = 18" "length ?ss = rx_fragment_count e" "rx_fragment_count e \<le> 16"
      using e by (auto simp: rx_ok_def)
    have segs: "\<forall>s \<in> set ?ss. sg_lease s < 18 \<and> rx_leases e ! sg_lease s \<in># live_leases (rx_leases e) + ls"
    proof
      fix s assume "s \<in> set ?ss"
      then have "sg_lease s < rx_lease_count e" "rx_lease_count e \<le> 18"
        using e by (auto simp: rx_ok_def list_all_iff rx_valid_def)
      then show "sg_lease s < 18 \<and> rx_leases e ! sg_lease s \<in># live_leases (rx_leases e) + ls"
        using rx_leases_live [OF e] by simp
    qed
    have big: "size (live_leases (rx_leases e) + ls) + 32 < size_max"
      using room size_live_leases [of "rx_leases e"] len(1) by simp
    obtain remap where rm: "retained_of (rx_leases e) ?ss remap r" "same_layout m1 m2"
      "lease_inv (m2, (live_leases (rx_leases e) + ls) + live_leases (rt_leases r), cs)"
      using retain_loop_ok [OF retained_of_null inv1 segs _ big l] len by auto
    have lay: "same_layout m m2"
      using same_layout_trans [OF same_layout_pools [OF tf] rm(2)] .
    have "lease_inv (m2, live_leases (rev (rx_leases e)) + (live_leases (rt_leases r) + ls), cs)"
      using rm(3) by (simp add: ac_simps)
    note d = reset_all_inv [OF this, folded rx_destroy_def]
    have "same_layout m (rx_destroy m2 e)" using same_layout_trans [OF lay] d by blast
    then have "retained_fragment m2 r i = rx_fragment m e i
        \<and> retained_fragment (rx_destroy m2 e) r i = rx_fragment m e i" for i
      using retained_fragment_eq [OF rm(1) e] lay by blast
    moreover have "rt_fragment_count r = rx_fragment_count e"
      using rm(1) len by (simp add: retained_of_def)
    moreover have "rx_retain m e consumer g = (m2, Inr r)"
      using retained t l by (simp add: rx_retain_def)
    ultimately show ?thesis using d by simp
  qed (simp add: rx_retain_def)
qed

section \<open>Building an envelope\<close>

lemma null_rx_ok: "rx_ok m null_rx"
  by (simp add: rx_ok_def null_rx_def list_all_iff lease_live_def null_lease_def)

lemma rx_dead: "rx_ok m e \<Longrightarrow> rx_lease_count e < 18 \<Longrightarrow> \<not> lease_live (rx_leases e ! rx_lease_count e)"
  by (metis (no_types, lifting) Cons_nth_drop_Suc list.pred_inject(2) rx_ok_def)

lemma add_buffer_cases:
  assumes e: "rx_ok m e" and l: "lease_ok m l"
  shows "add_buffer m e l = (if rx_lease_count e = 18 then (m, e, l, Inl (err Capacity_exhausted))
    else (m, e\<lparr>rx_leases := (rx_leases e)[rx_lease_count e := l],
               rx_lease_count := rx_lease_count e + 1\<rparr>, l\<lparr>bl_state := None\<rparr>,
          Inr (rx_lease_count e)))"
proof (cases "rx_lease_count e = 18")
  case True
  then show ?thesis using e lease_ok_live [OF l] by (simp add: add_buffer_def rx_ok_def)
next
  case False
  have r: "lease_reset m (rx_leases e ! rx_lease_count e) = (m, rx_leases e ! rx_lease_count e)"
    by (rule lease_reset_dead) (rule rx_dead [OF e], use e False in \<open>simp add: rx_ok_def\<close>)
  have "length (rx_leases e) = 18" using e by (simp add: rx_ok_def)
  then show ?thesis using False r lease_ok_live [OF l]
    by (simp add: add_buffer_def lease_assign_def lease_move_eq Let_def)
qed

lemma add_buffer_ok:
  assumes e: "rx_ok m e" and l: "lease_ok m l" and n: "rx_lease_count e < 18"
  shows "rx_ok m (e\<lparr>rx_leases := (rx_leases e)[rx_lease_count e := l],
                     rx_lease_count := rx_lease_count e + 1\<rparr>)" (is "rx_ok m ?e")
proof -
  have keep: "rx_valid ?e s" if "rx_valid e s" for s
    using that by (auto simp: rx_valid_def)
  have len: "rx_lease_count e < length (rx_leases e)" using e n by (simp add: rx_ok_def)
  have dead: "list_all (\<lambda>l. \<not> lease_live l) (drop (Suc (rx_lease_count e)) (rx_leases e))"
    using e Cons_nth_drop_Suc [OF len] by (metis (mono_tags, lifting) list.pred_inject(2) rx_ok_def)
  have "list_all (rx_valid ?e) (take (rx_fragment_count e) (rx_payload e))"
    using e keep by (auto simp: rx_ok_def list_all_iff)
  then show ?thesis
    using e l n len keep dead
    by (simp add: rx_ok_def take_Suc_conv_app_nth drop_update_cancel)
qed

lemma append_payload_ok:
  assumes e: "rx_ok m e" and a: "append_payload e s = Inr e'"
  shows "rx_ok m e'"
proof -
  have c: "rx_valid e s" "rx_fragment_count e \<noteq> 16"
    and e': "e' = e\<lparr>rx_payload := (rx_payload e)[rx_fragment_count e := s],
       rx_fragment_count := rx_fragment_count e + 1\<rparr>"
    using a e by (auto simp: append_payload_def rx_ok_def split: if_splits)
  have v: "rx_valid e' = rx_valid e" using e' by (simp add: fun_eq_iff rx_valid_def)
  have "rx_fragment_count e < length (rx_payload e)" using e c(2) by (simp add: rx_ok_def)
  then show ?thesis
    using e c v by (simp add: rx_ok_def e' take_Suc_conv_app_nth)
qed

lemma set_marks_ok:
  assumes "rx_ok m e"
  shows "set_prologue m e s = Inr e' \<Longrightarrow> rx_ok m e'" "set_trailer e s = Inr e' \<Longrightarrow> rx_ok m e'"
proof -
  have v: "rx_valid (e\<lparr>rx_prologue := s, rx_has_prologue := True\<rparr>) = rx_valid e"
    "rx_valid (e\<lparr>rx_trailer := s, rx_has_trailer := True\<rparr>) = rx_valid e"
    by (simp_all add: fun_eq_iff rx_valid_def)
  show "set_prologue m e s = Inr e' \<Longrightarrow> rx_ok m e'"
    using assms v(1) by (auto simp: set_prologue_def and_then_eq_Inr rx_ok_def)
  show "set_trailer e s = Inr e' \<Longrightarrow> rx_ok m e'"
    using assms v(2) by (auto simp: set_trailer_def rx_ok_def split: if_splits)
qed

text \<open>
  What a segment of an envelope means, independently of the operations: it lies inside an added buffer
  (\<open>holds_segment\<close>), and its bytes are the memory cells from the block's address plus the offset on
  (\<open>segment_cells\<close>), unless the block is not addressable by the CPU.
\<close>

definition holds_segment :: "rx_envelope \<Rightarrow> segment_ref \<Rightarrow> bool" where
  "holds_segment e s \<longleftrightarrow> sg_lease s < rx_lease_count e
     \<and> sg_offset s + sg_length s \<le> bl_used (rx_leases e ! sg_lease s)"

definition segment_cells :: "memory \<Rightarrow> rx_envelope \<Rightarrow> segment_ref \<Rightarrow> bytes result" where
  "segment_cells m e s = (let l = rx_leases e ! sg_lease s; b = block_at m (the (bl_state l)) (bl_index l) in
     if bk_address b = 0 then Inl (err No_cpu_access)
     else Inr (map (\<lambda>k. mm_ram m (bk_address b + sg_offset s + k)) [0..<sg_length s]))"

text \<open>Another envelope reads the same parts: all fragments of the first.\<close>

definition same_fragments :: "memory \<Rightarrow> rx_envelope \<Rightarrow> rx_envelope \<Rightarrow> bool" where
  "same_fragments m e e' \<longleftrightarrow> (\<forall>j < rx_fragment_count e. rx_fragment m e' j = rx_fragment m e j)"

lemma holds_valid: "rx_valid e s \<longleftrightarrow> holds_segment e s"
  by (cases "sg_offset s \<le> bl_used (rx_leases e ! sg_lease s)") (auto simp: rx_valid_def holds_segment_def)

lemma rx_lease_ok: "rx_ok m e \<Longrightarrow> k < rx_lease_count e \<Longrightarrow> lease_ok m (rx_leases e ! k)"
  by (auto simp: rx_ok_def list_all_length)

lemma segment_bytes_exact:
  assumes "rx_ok m e" "holds_segment e s"
  shows "segment_bytes m (rx_leases e) s = segment_cells m e s"
proof -
  let ?l = "rx_leases e ! sg_lease s"
  obtain p where p: "bl_state ?l = Some p"
    using rx_lease_ok [OF assms(1), of "sg_lease s"] assms(2)
    by (auto simp: holds_segment_def lease_ok_def split: option.splits)
  have "subspan (span_bytes m x (bl_used ?l)) (sg_offset s) (sg_length s)
      = map (\<lambda>k. mm_ram m (x + sg_offset s + k)) [0..<sg_length s]" for x
    using assms(2) by (intro nth_equalityI) (auto simp: subspan_def span_bytes_def holds_segment_def ac_simps)
  then show ?thesis using p
    by (simp add: segment_bytes_def segment_cells_def lease_bytes_def Let_def)
qed

lemma rx_fragment_exact:
  assumes "rx_ok m e"
  shows "rx_fragment m e i = (if i < rx_fragment_count e then segment_cells m e (rx_payload e ! i)
      else Inl (err Invalid_argument))"
    and "i < rx_fragment_count e \<Longrightarrow> holds_segment e (rx_payload e ! i)"
proof -
  show h: "holds_segment e (rx_payload e ! i)" if "i < rx_fragment_count e"
    using assms that by (auto simp: rx_ok_def list_all_length holds_valid)
  show "rx_fragment m e i = (if i < rx_fragment_count e then segment_cells m e (rx_payload e ! i)
      else Inl (err Invalid_argument))"
    using segment_bytes_exact [OF assms h] by (simp add: rx_fragment_def)
qed

lemma add_buffer_exact:
  assumes e: "rx_ok m e" and l: "lease_ok m l"
  shows "case add_buffer m e l of
        (m', e', l', Inr k) \<Rightarrow> m' = m \<and> rx_ok m e' \<and> k = rx_lease_count e \<and> rx_lease_count e' = k + 1
          \<and> rx_leases e' ! k = l \<and> \<not> lease_live l'
          \<and> rx_fragment_count e' = rx_fragment_count e \<and> same_fragments m e e'
      | (m', e', l', Inl x) \<Rightarrow> (m', e', l') = (m, e, l) \<and> x = err Capacity_exhausted \<and> rx_lease_count e = 18"
proof (cases "rx_lease_count e = 18")
  case False
  let ?e = "e\<lparr>rx_leases := (rx_leases e)[rx_lease_count e := l], rx_lease_count := rx_lease_count e + 1\<rparr>"
  have n: "rx_lease_count e < 18" "length (rx_leases e) = 18" using e False by (auto simp: rx_ok_def)
  have "rx_fragment m ?e j = rx_fragment m e j" if j: "j < rx_fragment_count e" for j
  proof -
    have "sg_lease (rx_payload e ! j) < rx_lease_count e"
      using rx_fragment_exact(2) [OF e j] by (simp add: holds_segment_def)
    then show ?thesis by (simp add: rx_fragment_def segment_bytes_def)
  qed
  then show ?thesis using add_buffer_cases [OF e l] add_buffer_ok [OF e l n(1)] n False
    by (simp add: same_fragments_def lease_live_def)
qed (simp add: add_buffer_cases [OF e l])

lemma append_payload_exact:
  assumes e: "rx_ok m e"
  shows "case append_payload e s of
        Inr e' \<Rightarrow> rx_ok m e' \<and> holds_segment e s \<and> sg_length s > 0
          \<and> rx_fragment_count e' = rx_fragment_count e + 1
          \<and> rx_fragment m e' (rx_fragment_count e) = segment_cells m e s \<and> same_fragments m e e'
          \<and> prologue_bytes m e' = prologue_bytes m e \<and> trailer_bytes m e' = trailer_bytes m e
      | Inl x \<Rightarrow> if \<not> holds_segment e s \<or> sg_length s = 0 then x = err Invalid_argument
          else x = err Capacity_exhausted \<and> rx_fragment_count e = 16"
proof (cases "append_payload e s")
  case (Inl x)
  then show ?thesis using e by (auto simp: append_payload_def holds_valid rx_ok_def split: if_splits)
next
  case (Inr e')
  let ?n = "rx_fragment_count e"
  have c: "holds_segment e s" "sg_length s > 0"
    and e': "e' = e\<lparr>rx_payload := (rx_payload e)[?n := s], rx_fragment_count := ?n + 1\<rparr>"
    and n: "?n < length (rx_payload e)"
    using Inr e by (auto simp: append_payload_def holds_valid rx_ok_def split: if_splits)
  have "rx_fragment m e' ?n = segment_cells m e s"
    using segment_bytes_exact [OF e c(1)] n e' by (simp add: rx_fragment_def)
  moreover have "same_fragments m e e'" using e' by (simp add: same_fragments_def rx_fragment_def)
  ultimately show ?thesis using Inr c append_payload_ok [OF e Inr] e'
    by (simp add: prologue_bytes_def trailer_bytes_def)
qed

lemma set_prologue_exact:
  assumes e: "rx_ok m e"
  shows "case set_prologue m e s of
        Inr e' \<Rightarrow> rx_ok m e' \<and> holds_segment e s \<and> prologue_bytes m e' = segment_cells m e s
          \<and> rx_fragment_count e' = rx_fragment_count e \<and> same_fragments m e e'
          \<and> trailer_bytes m e' = trailer_bytes m e
      | Inl x \<Rightarrow> if \<not> holds_segment e s then x = err Invalid_argument
          else segment_cells m e s = Inl x \<and> x = err No_cpu_access"
proof (cases "holds_segment e s")
  case True
  note cells = segment_bytes_exact [OF e True]
  show ?thesis
  proof (cases "set_prologue m e s")
    case (Inl x)
    then have "segment_bytes m (rx_leases e) s = Inl x"
      using True by (auto simp: set_prologue_def holds_valid and_then_eq_Inl segment_bytes_def)
    then show ?thesis using Inl True cells by (auto simp: segment_cells_def Let_def split: if_splits)
  next
    case (Inr e')
    then have "e' = e\<lparr>rx_prologue := s, rx_has_prologue := True\<rparr>"
      by (auto simp: set_prologue_def and_then_eq_Inr split: if_splits)
    then show ?thesis using Inr True cells set_marks_ok(1) [OF e Inr]
      by (simp add: prologue_bytes_def trailer_bytes_def same_fragments_def rx_fragment_def)
  qed
qed (simp add: set_prologue_def holds_valid)

lemma set_trailer_exact:
  assumes e: "rx_ok m e"
  shows "case set_trailer e s of
        Inr e' \<Rightarrow> rx_ok m e' \<and> holds_segment e s \<and> trailer_bytes m e' = segment_cells m e s
          \<and> rx_fragment_count e' = rx_fragment_count e \<and> same_fragments m e e'
          \<and> prologue_bytes m e' = prologue_bytes m e
      | Inl x \<Rightarrow> \<not> holds_segment e s \<and> x = err Invalid_argument"
proof (cases "holds_segment e s")
  case True
  then show ?thesis
    using segment_bytes_exact [OF e True] set_marks_ok(2) [OF e, of s]
    by (simp add: set_trailer_def holds_valid prologue_bytes_def trailer_bytes_def same_fragments_def rx_fragment_def)
qed (simp add: set_trailer_def holds_valid)

text \<open>C40: An envelope is built and read exactly. Adding a buffer moves the lease into the next place of the
  envelope, or leaves both untouched when all eighteen are in use. A segment is accepted exactly when it
  lies inside an added buffer (and, as payload, is not empty and there is room); it then is the new last
  fragment, the prologue or the trailer, reading it gives the memory cells of its range, from the address
  of its block plus its offset on, and everything else reads as before. Every fragment reads exactly the
  cells of its segment, or reports that the memory is not addressable by the CPU.\<close>

theorem rx_envelope_well_formed:
  assumes e: "rx_ok m e" and l: "lease_ok m l"
  shows "(case add_buffer m e l of
        (m', e', l', Inr k) \<Rightarrow> m' = m \<and> rx_ok m e' \<and> k = rx_lease_count e \<and> rx_lease_count e' = k + 1
          \<and> rx_leases e' ! k = l \<and> \<not> lease_live l'
          \<and> rx_fragment_count e' = rx_fragment_count e \<and> same_fragments m e e'
      | (m', e', l', Inl x) \<Rightarrow> (m', e', l') = (m, e, l) \<and> x = err Capacity_exhausted \<and> rx_lease_count e = 18)
    \<and> (case append_payload e s of
        Inr e' \<Rightarrow> rx_ok m e' \<and> holds_segment e s \<and> sg_length s > 0
          \<and> rx_fragment_count e' = rx_fragment_count e + 1
          \<and> rx_fragment m e' (rx_fragment_count e) = segment_cells m e s \<and> same_fragments m e e'
          \<and> prologue_bytes m e' = prologue_bytes m e \<and> trailer_bytes m e' = trailer_bytes m e
      | Inl x \<Rightarrow> if \<not> holds_segment e s \<or> sg_length s = 0 then x = err Invalid_argument
          else x = err Capacity_exhausted \<and> rx_fragment_count e = 16)
    \<and> (case set_prologue m e s of
        Inr e' \<Rightarrow> rx_ok m e' \<and> holds_segment e s \<and> prologue_bytes m e' = segment_cells m e s
          \<and> rx_fragment_count e' = rx_fragment_count e \<and> same_fragments m e e'
          \<and> trailer_bytes m e' = trailer_bytes m e
      | Inl x \<Rightarrow> if \<not> holds_segment e s then x = err Invalid_argument
          else segment_cells m e s = Inl x \<and> x = err No_cpu_access)
    \<and> (case set_trailer e s of
        Inr e' \<Rightarrow> rx_ok m e' \<and> holds_segment e s \<and> trailer_bytes m e' = segment_cells m e s
          \<and> rx_fragment_count e' = rx_fragment_count e \<and> same_fragments m e e'
          \<and> prologue_bytes m e' = prologue_bytes m e
      | Inl x \<Rightarrow> \<not> holds_segment e s \<and> x = err Invalid_argument)
    \<and> rx_fragment m e i = (if i < rx_fragment_count e then segment_cells m e (rx_payload e ! i)
        else Inl (err Invalid_argument))"
  by (intro conjI add_buffer_exact [OF e l] append_payload_exact [OF e] set_prologue_exact [OF e]
      set_trailer_exact [OF e] rx_fragment_exact(1) [OF e])

section \<open>Transmit storage is acquired as a whole\<close>

definition tx_ok :: "tx_storage \<Rightarrow> bool" where
  "tx_ok t \<longleftrightarrow> length (tx_leases t) = 3 \<and> length (tx_segments t) = 3 \<and> tx_count t \<le> 3
     \<and> (\<forall>l \<in> set (drop (tx_count t) (tx_leases t)). \<not> lease_live l)
     \<and> (\<forall>i < tx_count t. sg_offset (tx_segments t ! i) + sg_length (tx_segments t ! i)
          \<le> bl_used (tx_leases t ! i))
     \<and> (\<Sum>s \<leftarrow> take (tx_count t) (tx_segments t). sg_length s) \<le> size_max"

lemma fold_segment_sizes:
  "n + (\<Sum>s \<leftarrow> ss. sg_length s) \<le> size_max \<Longrightarrow>
     fold (\<lambda>s n. size_add n (sg_length s)) ss n = n + (\<Sum>s \<leftarrow> ss. sg_length s)"
  by (induction ss arbitrary: n) auto

lemma byte_size_sum: "tx_ok t \<Longrightarrow> byte_size t = (\<Sum>s \<leftarrow> take (tx_count t) (tx_segments t). sg_length s)"
  using fold_segment_sizes [of 0 "take (tx_count t) (tx_segments t)"] by (simp add: byte_size_def tx_ok_def)

lemma tx_append_cases:
  assumes "tx_append m t l off len = (m', l', res)" "tx_ok t"
  shows "case res of Inl x \<Rightarrow> m' = m \<and> l' = l
    | Inr t' \<Rightarrow> m' = m \<and> \<not> lease_live l' \<and> tx_ok t'
        \<and> live_leases (tx_leases t') = add_mset l (live_leases (tx_leases t))
        \<and> tx_count t' = tx_count t + 1 \<and> byte_size t' = byte_size t + len"
proof (cases res)
  case (Inl x)
  then show ?thesis using assms(1)
    by (auto simp: tx_append_def Let_def lease_assign_def lease_move_eq split: if_splits prod.splits)
next
  case (Inr t')
  let ?k = "tx_count t"
  have c: "lease_live l" "len \<le> size_max - byte_size t" "?k \<noteq> 3" "off + len \<le> bl_used l"
    using assms(1) Inr by (auto simp: tx_append_def split: if_splits prod.splits)
  have k: "?k < 3" "?k < length (tx_leases t)" "?k < length (tx_segments t)"
    using assms(2) c(3) by (auto simp: tx_ok_def)
  have dead: "\<not> lease_live (tx_leases t ! ?k)"
    using assms(2) Cons_nth_drop_Suc [OF k(2)] unfolding tx_ok_def by (metis list.set_intros(1))
  have t': "t' = t\<lparr>tx_segments := (tx_segments t)[?k := \<lparr>sg_lease = ?k, sg_offset = off, sg_length = len\<rparr>],
      tx_leases := (tx_leases t)[?k := l], tx_count := ?k + 1\<rparr>" "m' = m" "\<not> lease_live l'"
    using assms(1) Inr lease_reset_dead [OF dead]
    by (auto simp: tx_append_def Let_def lease_assign_def lease_move_eq lease_live_def
        split: if_splits prod.splits)
  have dead': "\<not> lease_live x" if "x \<in> set (drop (Suc ?k) (tx_leases t))" for x
  proof -
    have "x \<in> set (drop ?k (tx_leases t))"
      using that set_drop_subset_set_drop [of ?k "Suc ?k" "tx_leases t"] by auto
    then show ?thesis using assms(2) by (auto simp: tx_ok_def)
  qed
  have segs: "(\<Sum>s \<leftarrow> take (Suc ?k) (tx_segments t'). sg_length s) = byte_size t + len"
    using k(3) t'(1) byte_size_sum [OF assms(2)] by (simp add: take_Suc_conv_app_nth)
  have "byte_size t + len \<le> size_max"
    using c(2) byte_size_sum [OF assms(2)] assms(2) unfolding tx_ok_def by linarith
  then have ok: "tx_ok t'"
    using t'(1) k assms(2) segs dead' c(4)
    by (auto simp: tx_ok_def drop_update_cancel nth_list_update less_Suc_eq)
  then show ?thesis
    using Inr t' segs live_leases_update [OF k(2) dead c(1)] byte_size_sum [OF ok] by simp
qed

lemma tx_destroy_inv:
  "lease_inv (m, live_leases (tx_leases t) + ls, cs) \<Longrightarrow> lease_inv (tx_destroy m t, ls, cs)"
  using reset_all_inv [of m "rev (tx_leases t)" ls cs] by (simp add: tx_destroy_def)

lemma tx_acquire_loop_inv:
  assumes "lease_inv (m, live_leases (tx_leases out) + ls, cs)" "tx_ok out"
    and "p < length (mm_pools m)" "size ls + 8 < size_max"
    and "tx_acquire_loop m (Some p) out qs = (m', res)"
  shows "case res of Inl x \<Rightarrow> lease_inv (m', ls, cs)
    | Inr t \<Rightarrow> lease_inv (m', live_leases (tx_leases t) + ls, cs) \<and> tx_ok t
        \<and> tx_count t = tx_count out + length qs
        \<and> byte_size t = byte_size out + (\<Sum>q \<leftarrow> qs. rq_capacity q)"
  using assms
proof (induction qs arbitrary: m out)
  case (Cons q qs)
  obtain m1 a where acq: "buffer_acquire m (Some p) q = (m1, a)" by fastforce
  show ?case
  proof (cases a)
    case (Inl x)
    then have "m1 = m" using acq by (auto simp: buffer_acquire_def Let_def split: if_splits)
    moreover have "(m', res) = (tx_destroy m1 out, Inl x)" using Cons.prems(5) acq Inl by simp
    ultimately show ?thesis using tx_destroy_inv [OF Cons.prems(1)] by simp
  next
    case (Inr l)
    let ?ls = "live_leases (tx_leases out) + ls"
    have "size ?ls + 1 < size_max"
      using Cons.prems(2,4) size_live_leases [of "tx_leases out"] by (auto simp: tx_ok_def)
    note i1 = step_acquire(1) [OF Cons.prems(1,3) this acq [unfolded Inr]]
    note a = buffer_acquire_Inr [OF acq [unfolded Inr] Cons.prems(3)]
    have pools: "length (mm_pools m1) = length (mm_pools m)" using a(3) by simp
    show ?thesis
    proof (cases "set_size m1 l (rq_capacity q)")
      case (Inl x)
      then have "(m', res) = (tx_destroy (fst (lease_reset m1 l)) out, Inl x)"
        using Cons.prems(5) acq Inr by simp
      then show ?thesis using tx_destroy_inv [OF lease_reset_inv(1) [OF i1]] by simp
    next
      case (Inr l1)
      obtain m2 l2 r where ap: "tx_append m1 out l1 0 (rq_capacity q) = (m2, l2, r)"
        by (metis prod_cases3)
      note c = tx_append_cases [OF ap Cons.prems(2)]
      note i2 = step_resize [OF i1 Inr]
      show ?thesis
      proof (cases r)
        case (Inl x)
        then have "m2 = m1" "l2 = l1" using c by simp_all
        then have "(m', res) = (tx_destroy (fst (lease_reset m1 l1)) out, Inl x)"
          using Cons.prems(5) acq \<open>a = Inr l\<close> Inr ap Inl by simp
        then show ?thesis using tx_destroy_inv [OF lease_reset_inv(1) [OF i2]] by simp
      next
        case r: (Inr out')
        then have d: "m2 = m1" "fst (lease_reset m2 l2) = m1" "tx_ok out'"
          "live_leases (tx_leases out') = add_mset l1 (live_leases (tx_leases out))"
          "tx_count out' = tx_count out + 1" "byte_size out' = byte_size out + rq_capacity q"
          using c lease_reset_dead by auto
        have "tx_acquire_loop m1 (Some p) out' qs = (m', res)"
          using Cons.prems(5) acq \<open>a = Inr l\<close> Inr ap r d(2) by simp
        moreover have "lease_inv (m1, live_leases (tx_leases out') + ls, cs)" using i2 d(4) by simp
        ultimately have "case res of Inl x \<Rightarrow> lease_inv (m', ls, cs)
          | Inr t \<Rightarrow> lease_inv (m', live_leases (tx_leases t) + ls, cs) \<and> tx_ok t
            \<and> tx_count t = tx_count out' + length qs
            \<and> byte_size t = byte_size out' + (\<Sum>q \<leftarrow> qs. rq_capacity q)"
          using Cons.IH [of m1 out'] d(3) pools Cons.prems(3,4) by simp
        then show ?thesis using d(5,6) by (auto split: sum.splits)
      qed
    qed
  qed
qed auto

lemma null_tx_ok: "tx_ok null_tx" "live_leases (tx_leases null_tx) = {#}" "byte_size null_tx = 0"
  "tx_count null_tx = 0"
  by (simp_all add: tx_ok_def null_tx_def lease_live_def null_lease_def byte_size_def
      live_leases_def filter_empty_conv)

text \<open>Acquiring transmit storage is all or nothing: on success the storage holds one segment
  per request with the requested total size, and its leases are the only new ones; on failure
  every lease taken on the way is back, and the references are exact in both cases.\<close>

theorem tx_storage_all_or_nothing:
  assumes "lease_inv (m, ls, cs)" "p < length (mm_pools m)" "size ls + 8 < size_max"
  shows "case tx_acquire m (Some p) requests of
      (m', Inl x) \<Rightarrow> lease_inv (m', ls, cs)
    | (m', Inr t) \<Rightarrow> lease_inv (m', live_leases (tx_leases t) + ls, cs)
        \<and> tx_count t = length requests \<and> byte_size t = (\<Sum>q \<leftarrow> requests. rq_capacity q)"
proof (cases "length requests > 3")
  case False
  obtain m' res where l: "tx_acquire_loop m (Some p) null_tx requests = (m', res)" by fastforce
  have "lease_inv (m, live_leases (tx_leases null_tx) + ls, cs)"
    using assms(1) by (simp add: null_tx_ok)
  from tx_acquire_loop_inv [OF this null_tx_ok(1) assms(2,3) l] show ?thesis
    using False l by (auto simp: tx_acquire_def null_tx_ok split: sum.splits)
qed (use assms in \<open>simp add: tx_acquire_def\<close>)

section \<open>A concrete packet\<close>

definition sample_held :: buffer_lease where
  "sample_held = \<lparr>bl_state = Some 0, bl_index = 0, bl_used = 8\<rparr>"

definition sample_rx_memory :: memory where
  "sample_rx_memory = fst (make_quota (set_references sample_memory 0 0 1) 2)"

definition sample_rx :: rx_envelope where
  "sample_rx = null_rx\<lparr>rx_leases := (replicate 18 null_lease)[0 := sample_held], rx_lease_count := 1,
     rx_payload := (replicate 16 null_segment)[0 := \<lparr>sg_lease = 0, sg_offset = 2, sg_length = 3\<rparr>],
     rx_fragment_count := 1\<rparr>"

lemma sample_rx_lists:
  "rx_leases sample_rx = sample_held # replicate 17 null_lease"
  "rx_payload sample_rx = \<lparr>sg_lease = 0, sg_offset = 2, sg_length = 3\<rparr> # replicate 15 null_segment"
proof -
  have "replicate 18 null_lease = null_lease # replicate 17 null_lease"
    "replicate 16 null_segment = null_segment # replicate 15 null_segment"
    by (simp_all flip: replicate_Suc)
  then show "rx_leases sample_rx = sample_held # replicate 17 null_lease"
    "rx_payload sample_rx = \<lparr>sg_lease = 0, sg_offset = 2, sg_length = 3\<rparr> # replicate 15 null_segment"
    by (simp_all add: sample_rx_def)
qed

lemma sample_rx_counts [simp]:
  "rx_lease_count sample_rx = 1" "rx_fragment_count sample_rx = 1"
  "\<not> rx_has_prologue sample_rx" "\<not> rx_has_trailer sample_rx"
  by (simp_all add: sample_rx_def null_rx_def)

lemma sample_rx_pools:
  "mm_pools sample_rx_memory = mm_pools (set_references sample_memory 0 0 1)"
  "mm_ram sample_rx_memory = (\<lambda>_. 0)"
  "mm_quotas sample_rx_memory = [\<lparr>qt_active = 0, qt_limit = 2, qt_enabled = True\<rparr>]"
  using sample_create
  by (auto simp: sample_rx_memory_def make_quota_def pool_create_def empty_memory_def sample_memory_def
      split: sum.splits if_splits)

lemma sample_block:
  "bk_capacity (block_at (set_references sample_memory 0 0 1) 0 0) = 16"
  "bk_address (block_at (set_references sample_memory 0 0 1) 0 0) = 64"
  "valid_block sample_memory 0 0"
  by (simp_all add: block_at_def set_references_def set_pool_def sample_pools spec_blocks_def
      sample_spec_def valid_block_def nth_list_update size_max_def)

lemma sample_rx_inv: "lease_inv (sample_rx_memory, {#sample_held#}, {#})"
proof -
  have "lease_inv (empty_memory, {#}, {#})"
    by (rule lease_reachable_inv [of empty_memory]) (simp_all add: empty_memory_def)
  then have "lease_inv (sample_memory, {#}, {#})" by (rule step_create [OF _ sample_create])
  then have "lease_inv (set_references sample_memory 0 0 1, {#sample_lease#}, {#})"
    by (rule step_acquire(1) [OF _ _ _ sample_acquire]) (simp_all add: sample_pools size_max_def)
  then have "lease_inv (set_references sample_memory 0 0 1, {#sample_held#}, {#})"
    by (rule step_resize [where n = 8])
       (simp add: set_size_def sample_lease_def sample_held_def lease_capacity_def sample_block [simplified])
  then show ?thesis using lease_inv_pools [OF sample_rx_pools(1)] by simp
qed

lemma sample_rx_ok: "rx_ok sample_rx_memory sample_rx"
proof -
  have "lease_ok sample_rx_memory sample_held" using sample_rx_inv by (simp add: lease_inv_def)
  then show ?thesis
    by (simp add: rx_ok_def sample_rx_lists list_all_iff lease_live_def null_lease_def rx_valid_def
        sample_held_def)
qed

lemma sample_rx_leases: "live_leases (rx_leases sample_rx) = {#sample_held#}"
  by (simp add: sample_rx_lists live_leases_def lease_live_def sample_held_def null_lease_def)

lemma Inr_resultE: "\<not> isl (snd x) \<Longrightarrow> \<exists>m' r. x = (m', Inr r)"
  by (metis isl_def prod.exhaust_sel sumE)

theorem retained_packet_survives_witness:
  "\<exists>m' r. rx_retain sample_rx_memory sample_rx 0 0 = (m', Inr r)
     \<and> retained_fragment (rx_destroy m' sample_rx) r 0 = Inr [0, 0, 0]"
proof -
  have inv: "lease_inv (sample_rx_memory, live_leases (rx_leases sample_rx) + {#}, {#})"
    using sample_rx_inv sample_rx_leases by simp
  have "\<not> isl (snd (rx_retain sample_rx_memory sample_rx 0 0))"
    by (simp add: rx_retain_def take_both_def take_quota_def sample_rx_pools Let_def split: prod.splits)
  then obtain m' r where r: "rx_retain sample_rx_memory sample_rx 0 0 = (m', Inr r)"
    using Inr_resultE by blast
  have q: "0 < length (mm_quotas sample_rx_memory)" "qt_limit (mm_quotas sample_rx_memory ! 0) \<le> size_max"
    by (simp_all add: sample_rx_pools size_max_def)
  have "rx_fragment sample_rx_memory sample_rx 0 = Inr [0, 0, 0]"
    using sample_block(2)
    by (simp add: rx_fragment_def segment_bytes_def sample_rx_lists lease_bytes_def sample_held_def
        block_at_def sample_rx_pools span_bytes_def subspan_def numeral_eq_Suc)
  then show ?thesis
    using retained_packet_survives [OF sample_rx_ok inv _ q, of 0] r by (auto simp: size_max_def)
qed

text \<open>The same packet in a memory that holds at every address the address itself.\<close>

definition sample_ram :: memory where
  "sample_ram = sample_rx_memory\<lparr>mm_ram := of_nat\<rparr>"

lemma sample_ram_ok: "rx_ok sample_ram sample_rx" "lease_ok sample_ram sample_held"
proof -
  have "lease_ok sample_ram = lease_ok sample_rx_memory"
    by (simp add: fun_eq_iff lease_ok_def valid_block_def lease_capacity_def block_at_def sample_ram_def
        cong: option.case_cong)
  moreover have "lease_ok sample_rx_memory sample_held" using sample_rx_inv by (simp add: lease_inv_def)
  ultimately show "rx_ok sample_ram sample_rx" "lease_ok sample_ram sample_held"
    using sample_rx_ok by (simp_all add: rx_ok_def)
qed

lemma sample_ram_block: "bk_address (block_at sample_ram 0 0) = 64"
  using sample_block(2) by (simp add: block_at_def sample_ram_def sample_rx_pools)

theorem rx_envelope_well_formed_witness:
  "rx_fragment sample_ram sample_rx 0 = Inr [66, 67, 68]
   \<and> \<not> isl (append_payload sample_rx \<lparr>sg_lease = 0, sg_offset = 6, sg_length = 2\<rparr>)
   \<and> rx_fragment sample_ram (projr (append_payload sample_rx \<lparr>sg_lease = 0, sg_offset = 6, sg_length = 2\<rparr>)) 1
       = Inr [70, 71]"
proof -
  let ?s = "\<lparr>sg_lease = 0, sg_offset = 6, sg_length = 2\<rparr>"
  note t = rx_envelope_well_formed [OF sample_ram_ok, of ?s 0]
  have h: "holds_segment sample_rx ?s"
    by (simp add: holds_segment_def sample_rx_lists sample_held_def)
  have c: "segment_cells sample_ram sample_rx ?s = Inr [70, 71]"
    "segment_cells sample_ram sample_rx (rx_payload sample_rx ! 0) = Inr [66, 67, 68]"
    using sample_ram_block
    by (simp_all add: segment_cells_def sample_rx_lists sample_held_def sample_ram_def upt_rec)
  obtain e' where e': "append_payload sample_rx ?s = Inr e'"
    using t h by (cases "append_payload sample_rx ?s") auto
  then show ?thesis using t c by simp
qed

theorem tx_storage_all_or_nothing_witness:
  "\<exists>m' t. tx_acquire sample_memory (Some 0) [sample_request] = (m', Inr t)
     \<and> tx_count t = 1 \<and> byte_size t = 10"
proof -
  have inv: "lease_inv (sample_memory, {#}, {#})"
    by (rule lease_reachable_inv [of empty_memory])
       (auto simp: empty_memory_def intro: lease_step.Create [OF sample_create, unfolded empty_memory_def])
  have p: "0 < length (mm_pools sample_memory)" by (simp add: sample_pools)
  have "\<not> isl (snd (tx_acquire sample_memory (Some 0) [sample_request]))"
  proof -
    have q: "rq_capacity sample_request = 10" by (simp add: sample_request_def)
    have "set_size (set_references sample_memory 0 0 1) sample_lease 10
        = Inr (sample_lease\<lparr>bl_used := 10\<rparr>)"
      by (simp add: set_size_def lease_capacity_def sample_lease_def sample_block [simplified])
    then show ?thesis
      by (simp add: tx_acquire_def sample_acquire q tx_append_def lease_live_def sample_lease_def
          null_tx_ok size_max_def split: prod.splits)
  qed
  then obtain m' t where r: "tx_acquire sample_memory (Some 0) [sample_request] = (m', Inr t)"
    using Inr_resultE by blast
  then show ?thesis
    using tx_storage_all_or_nothing [OF inv p, of "[sample_request]"]
    by (simp add: size_max_def sample_request_def)
qed

end
