(* ===== verification/Framing.thy ===== *)
theory Framing
  imports Wire_Roundtrip Rx_Envelope
begin

text \<open>
  The transmit-side prologue inspector (\<^verbatim>\<open>include/vita/runtime/transport/framing.hpp\<close>).
  It reads the segments of a transmit storage only as far as the packet prologue reaches, into
  a 68-byte prefix buffer. The reader state is that buffer, the number of bytes copied into it
  and the offset of the next word. The main theorem is that the inspection is the envelope
  decoder on the concatenation of the segments, errors included.
\<close>

section \<open>The lazy prefix\<close>

record framing =
  fm_envelope :: envelope
  fm_payload_offset :: nat
  fm_payload_bytes :: nat
  fm_packet_bytes :: nat

record prefix_reader =
  pr_prefix :: bytes
  pr_copied :: nat
  pr_offset :: nat

definition prefix_capacity :: nat where
  "prefix_capacity = 68"

definition new_reader :: prefix_reader where
  "new_reader = \<lparr>pr_prefix = replicate prefix_capacity 0, pr_copied = 0, pr_offset = 0\<rparr>"

text \<open>The loop of \<open>ensure\<close> over the segments \<open>is\<close> still to visit.\<close>

primrec ensure_loop :: "memory \<Rightarrow> tx_storage \<Rightarrow> nat \<Rightarrow> nat list \<Rightarrow> nat \<Rightarrow> bytes \<Rightarrow> nat
    \<Rightarrow> (bytes \<times> nat) result" where
  "ensure_loop m t wanted [] start prefix copied = Inr (prefix, copied)"
| "ensure_loop m t wanted (i # is) start prefix copied =
     (if copied \<ge> wanted then Inr (prefix, copied)
      else case tx_segment m t i of Inl e \<Rightarrow> Inl e | Inr part \<Rightarrow>
        if copied \<ge> start + length part
        then ensure_loop m t wanted is (start + length part) prefix copied
        else let off = copied - start; n = min (wanted - copied) (length part - off)
          in ensure_loop m t wanted is (start + length part)
               (write_bytes prefix copied (take n (drop off part))) (copied + n))"

definition ensure :: "memory \<Rightarrow> tx_storage \<Rightarrow> nat \<Rightarrow> prefix_reader \<Rightarrow> prefix_reader result" where
  "ensure m t wanted r =
     (if wanted > prefix_capacity \<or> wanted > byte_size t
      then Inl (err_need Short_input (pr_copied r) wanted)
      else and_then (ensure_loop m t wanted [0..<tx_count t] 0 (pr_prefix r) (pr_copied r))
        (\<lambda>(prefix, copied). if copied \<noteq> wanted then Inl (err_need Short_input copied wanted)
           else Inr (r\<lparr>pr_prefix := prefix, pr_copied := copied\<rparr>)))"

definition prefix_take :: "memory \<Rightarrow> tx_storage \<Rightarrow> prefix_reader \<Rightarrow> (u32 \<times> prefix_reader) result" where
  "prefix_take m t r = and_then (ensure m t (pr_offset r + 4) r) (\<lambda>r1.
     Inr (load32 (pr_prefix r1) (pr_offset r1), r1\<lparr>pr_offset := pr_offset r1 + 4\<rparr>))"

text \<open>\<open>auto a = take(), b = take();\<close> with the error of \<open>a\<close> reported first.\<close>

definition prefix_pair ::
  "memory \<Rightarrow> tx_storage \<Rightarrow> prefix_reader \<Rightarrow> ((u32 \<times> u32) \<times> prefix_reader) result" where
  "prefix_pair m t r = and_then (prefix_take m t r) (\<lambda>(a, r1).
     and_then (prefix_take m t r1) (\<lambda>(b, r2). Inr ((a, b), r2)))"

section \<open>The parts of the prologue\<close>

definition inspect_stream_id ::
  "memory \<Rightarrow> tx_storage \<Rightarrow> u32 \<Rightarrow> prefix_reader \<Rightarrow> (u32 option \<times> prefix_reader) result" where
  "inspect_stream_id m t type r =
     (if type \<noteq> 0 \<and> type \<noteq> 2
      then and_then (prefix_take m t r) (\<lambda>(v, r1). Inr (Some v, r1))
      else Inr (None, r))"

definition inspect_class_id ::
  "memory \<Rightarrow> tx_storage \<Rightarrow> u32 \<Rightarrow> prefix_reader \<Rightarrow> (class_ident option \<times> prefix_reader) result" where
  "inspect_class_id m t h r =
     (if test_bit32 h 27
      then and_then (prefix_pair m t r) (\<lambda>((a, b), r1).
             if a AND 0x07000000 \<noteq> 0 then Inl (err_at Invalid_argument (pr_offset r1 - 8))
             else Inr (Some \<lparr>cls_oui = a AND 0xffffff,
                    cls_information_class = ucast (drop_bit 16 b), cls_packet_class = ucast b,
                    cls_pad_bits = ucast (drop_bit 27 a)\<rparr>, r1))
      else Inr (None, r))"

definition inspect_timestamp ::
  "memory \<Rightarrow> tx_storage \<Rightarrow> timestamp \<Rightarrow> prefix_reader \<Rightarrow> (timestamp \<times> prefix_reader) result" where
  "inspect_timestamp m t ts r =
     and_then (if ts_tsi ts \<noteq> Tsi_none
               then and_then (prefix_take m t r) (\<lambda>(v, r1). Inr (ts\<lparr>ts_integer := v\<rparr>, r1))
               else Inr (ts, r)) (\<lambda>(ts1, r1).
       if ts_tsf ts1 \<noteq> Tsf_none
       then and_then (prefix_pair m t r1) (\<lambda>((a, b), r2).
              Inr (ts1\<lparr>ts_fractional := push_bit 32 (ucast a) OR ucast b\<rparr>, r2))
       else Inr (ts1, r1))"

definition inspect_identifier :: "memory \<Rightarrow> tx_storage \<Rightarrow> u32 \<Rightarrow> nat \<Rightarrow> nat \<Rightarrow> prefix_reader
    \<Rightarrow> (ident \<times> prefix_reader) result" where
  "inspect_identifier m t cam enable uuid r =
     (if test_bit32 cam enable
      then if test_bit32 cam uuid
           then and_then (prefix_pair m t r) (\<lambda>((a, b), r1).
                and_then (prefix_pair m t r1) (\<lambda>((c, d), r2).
                  Inr (uuid_id (a, b, c, d), r2)))
           else and_then (prefix_take m t r) (\<lambda>(v, r1). Inr (short_id v, r1))
      else Inr (absent_id, r))"

definition inspect_command :: "memory \<Rightarrow> tx_storage \<Rightarrow> packet_type \<Rightarrow> prefix_reader
    \<Rightarrow> (command option \<times> prefix_reader) result" where
  "inspect_command m t type r =
     (if is_command type
      then and_then (prefix_pair m t r) (\<lambda>((cam, mid), r1).
           and_then (inspect_identifier m t cam 31 30 r1) (\<lambda>(controllee, r2).
           and_then (inspect_identifier m t cam 29 28 r2) (\<lambda>(controller, r3).
             Inr (Some \<lparr>cmd_cam = cam, cmd_message_id = mid, cmd_controllee = controllee,
                        cmd_controller = controller\<rparr>, r3))))
      else Inr (None, r))"

definition inspect_flags :: "u32 \<Rightarrow> envelope result" where
  "inspect_flags h =
     (let e = empty_envelope\<lparr>env_type := packet_type_of (drop_bit 28 h),
                env_packet_count := ucast (drop_bit 16 h AND 15),
                env_timestamp := empty_timestamp\<lparr>ts_tsi := tsi_of (drop_bit 22 h AND 3),
                                                 ts_tsf := tsf_of (drop_bit 20 h AND 3)\<rparr>\<rparr>
      in if is_data (env_type e)
         then Inr (e\<lparr>env_trailer := test_bit32 h 26, env_nd0 := test_bit32 h 25,
                     env_spectrum := test_bit32 h 24\<rparr>)
         else if is_command (env_type e)
         then (if test_bit32 h 25 then Inl (err Invalid_argument)
               else Inr (e\<lparr>env_ack := test_bit32 h 26, env_cancel := test_bit32 h 24\<rparr>))
         else (if test_bit32 h 26 then Inl (err Invalid_argument)
               else Inr (e\<lparr>env_nd0 := test_bit32 h 25, env_tsm := test_bit32 h 24\<rparr>)))"

definition inspect_prologue :: "memory \<Rightarrow> tx_storage \<Rightarrow> u32 \<Rightarrow> envelope \<Rightarrow> prefix_reader
    \<Rightarrow> (envelope \<times> prefix_reader) result" where
  "inspect_prologue m t h e r =
     and_then (inspect_stream_id m t (drop_bit 28 h) r) (\<lambda>(sid, r1).
     and_then (inspect_class_id m t h r1) (\<lambda>(cls, r2).
     and_then (inspect_timestamp m t (env_timestamp e) r2) (\<lambda>(ts, r3).
     and_then (inspect_command m t (env_type e) r3) (\<lambda>(cmd, r4).
       Inr (e\<lparr>env_stream_id := sid, env_class_id := cls, env_timestamp := ts,
              env_command := cmd\<rparr>, r4)))))"

definition inspect :: "memory \<Rightarrow> tx_storage \<Rightarrow> framing result" where
  "inspect m t =
     and_then (ensure m t 4 new_reader) (\<lambda>r0.
       let all_bytes = byte_size t; h = load32 (pr_prefix r0) 0; type = drop_bit 28 h;
           sz = unat (h AND 0xffff) * 4
       in if type > 7 \<or> sz = 0 then Inl (err Invalid_argument)
          else if sz > all_bytes then Inl (err_need Short_input all_bytes sz)
          else if sz \<noteq> all_bytes then Inl (err_at Invalid_argument sz)
          else and_then (inspect_flags h) (\<lambda>e0.
               and_then (inspect_prologue m t h e0 (r0\<lparr>pr_offset := 4\<rparr>)) (\<lambda>(e, r).
                 let off = pr_offset r; trailer_size = (if env_trailer e then 4 else 0)
                 in if off > sz \<or> trailer_size > sz - off
                    then Inl (err_need Short_input off (off + trailer_size))
                    else let payload_bytes = sz - off - trailer_size
                    in and_then (measure_envelope e payload_bytes) (\<lambda>_.
                         Inr \<lparr>fm_envelope = e, fm_payload_offset = off,
                              fm_payload_bytes = payload_bytes, fm_packet_bytes = sz\<rparr>))))"

section \<open>The prefix is a prefix of the packet\<close>

definition tx_reads :: "memory \<Rightarrow> tx_storage \<Rightarrow> bytes list \<Rightarrow> bool" where
  "tx_reads m t parts \<longleftrightarrow> map (tx_segment m t) [0..<tx_count t] = map Inr parts"

definition reader_at :: "bytes \<Rightarrow> nat \<Rightarrow> prefix_reader \<Rightarrow> bool" where
  "reader_at wire off r \<longleftrightarrow> pr_copied r = off \<and> pr_offset r = off \<and> off \<le> length wire
     \<and> length (pr_prefix r) = prefix_capacity \<and> take off (pr_prefix r) = take off wire"

lemma take_write_at:
  "n + length bs \<le> length xs \<Longrightarrow> take n xs = ys \<Longrightarrow>
     take (n + length bs) (write_bytes xs n bs) = ys @ bs"
  by (auto simp: write_bytes_def)

lemma ensure_loop_reads:
  assumes "map (tx_segment m t) is = map Inr parts" "wire = before @ concat parts"
    and "length before = start" "wanted \<le> length wire" "wanted \<le> length prefix" "copied \<le> wanted"
    and "take copied prefix = take copied wire" "start \<le> copied \<or> copied = wanted"
  shows "\<exists>prefix'. ensure_loop m t wanted is start prefix copied = Inr (prefix', wanted)
    \<and> length prefix' = length prefix \<and> take wanted prefix' = take wanted wire"
  using assms
proof (induction "is" arbitrary: parts before start prefix copied)
  case Nil
  then have "copied = wanted" by auto
  then show ?case using Nil by simp
next
  case (Cons i "is")
  then obtain part ps where p: "parts = part # ps" "tx_segment m t i = Inr part"
    "map (tx_segment m t) is = map Inr ps" by (cases parts) auto
  have w: "wire = (before @ part) @ concat ps" "length (before @ part) = start + length part"
    using Cons.prems(2,3) p(1) by simp_all
  consider (full) "copied = wanted" | (skip) "copied < wanted" "start + length part \<le> copied"
    | (copy) "copied < wanted" "start \<le> copied" "copied < start + length part"
    using Cons.prems(6,8) by linarith
  then show ?case
  proof cases
    case full
    then show ?thesis using Cons.prems by simp
  next
    case skip
    then show ?thesis
      using Cons.IH [OF p(3) w(1) w(2) Cons.prems(4-7)] p(2) by simp
  next
    case copy
    let ?off = "copied - start"
    let ?n = "min (wanted - copied) (length part - ?off)"
    let ?new = "take ?n (drop ?off part)"
    have n: "length ?new = ?n" by simp
    have at: "take copied wire @ ?new = take (copied + ?n) wire"
    proof -
      have "take (copied + ?n) wire = take copied wire @ take ?n (drop copied wire)"
        by (rule take_add)
      also have "drop copied wire = drop ?off part @ concat ps"
        using w(1) Cons.prems(3) copy by simp
      finally show ?thesis by simp
    qed
    have "take (copied + length ?new) (write_bytes prefix copied ?new) = take copied wire @ ?new"
      by (rule take_write_at) (use Cons.prems(5,7) copy(1) in auto)
    then have t: "take (copied + ?n) (write_bytes prefix copied ?new) = take (copied + ?n) wire"
      using at n by simp
    have len: "length (write_bytes prefix copied ?new) = length prefix"
      by (rule length_write_bytes) (use Cons.prems(5) copy(1) in auto)
    have "\<exists>prefix'. ensure_loop m t wanted is (start + length part) (write_bytes prefix copied ?new)
        (copied + ?n) = Inr (prefix', wanted)
      \<and> length prefix' = length (write_bytes prefix copied ?new)
      \<and> take wanted prefix' = take wanted wire"
      by (rule Cons.IH [OF p(3) w(1) w(2) Cons.prems(4) _ _ t])
         (use Cons.prems(5) copy len in auto)
    then show ?thesis using copy p(2) len by (simp add: Let_def)
  qed
qed

lemma tx_segment_length:
  assumes "tx_ok t" "i < tx_count t" "tx_segment m t i = Inr part"
  shows "length part = sg_length (tx_segments t ! i)"
proof -
  have "sg_offset (tx_segments t ! i) + sg_length (tx_segments t ! i) \<le> bl_used (tx_leases t ! i)"
    using assms(1,2) by (simp add: tx_ok_def)
  then show ?thesis using assms(2,3)
    by (auto simp: tx_segment_def and_then_eq_Inr lease_bytes_def Let_def subspan_def span_bytes_def
        split: option.splits if_splits)
qed

lemma tx_reads_byte_size:
  assumes "tx_ok t" "tx_reads m t parts"
  shows "byte_size t = length (concat parts)"
proof -
  have len: "length parts = tx_count t" 
    using arg_cong [OF assms(2) [unfolded tx_reads_def], of length] by simp
  have "map length parts = map sg_length (take (tx_count t) (tx_segments t))"
  proof (rule nth_equalityI)
    show "length (map length parts) = length (map sg_length (take (tx_count t) (tx_segments t)))"
      using len assms(1) by (simp add: tx_ok_def)
    fix i assume "i < length (map length parts)"
    then have i: "i < tx_count t" using len by simp
    have "map (tx_segment m t) [0..<tx_count t] ! i = map Inr parts ! i"
      using assms(2) by (simp add: tx_reads_def)
    then have "tx_segment m t i = Inr (parts ! i)" using i len by simp
    then show "map length parts ! i = map sg_length (take (tx_count t) (tx_segments t)) ! i"
      using tx_segment_length [OF assms(1) i] i len assms(1) by (simp add: tx_ok_def)
  qed
  then show ?thesis using byte_size_sum [OF assms(1)] by (simp add: length_concat)
qed

section \<open>Reading words\<close>

text \<open>
  The two readers agree: same error, or same value with the readers at the same offset, which
  stays below the bound \<open>k\<close>.
\<close>

fun agree :: "bytes \<Rightarrow> nat \<Rightarrow> ('a \<times> prefix_reader) result \<Rightarrow> ('a \<times> nat) result \<Rightarrow> bool" where
  "agree wire k (Inl e) (Inl e') = (e = e')"
| "agree wire k (Inr (v, r)) (Inr (v', off)) = (v = v' \<and> reader_at wire off r \<and> off \<le> k)"
| "agree wire k (Inl e) (Inr y) = False"
| "agree wire k (Inr x) (Inl e) = False"

lemma agree_bind:
  assumes "agree wire k R S"
    and "\<And>v r off. reader_at wire off r \<Longrightarrow> off \<le> k \<Longrightarrow> agree wire k' (f (v, r)) (g (v, off))"
  shows "agree wire k' (and_then R f) (and_then S g)"
  using assms by (cases "(wire, k, R, S)" rule: agree.cases) auto

lemma agree_mono: "agree wire k R S \<Longrightarrow> k \<le> k' \<Longrightarrow> agree wire k' R S"
  by (cases "(wire, k, R, S)" rule: agree.cases) auto

lemma agree_unit [simp]: "reader_at wire off r \<Longrightarrow> off \<le> k \<Longrightarrow> agree wire k (Inr (v, r)) (Inr (v, off))"
  by simp

definition tx_wire :: "memory \<Rightarrow> tx_storage \<Rightarrow> bytes \<Rightarrow> bool" where
  "tx_wire m t wire \<longleftrightarrow> tx_ok t \<and> (\<exists>parts. tx_reads m t parts \<and> wire = concat parts)"

lemma tx_wire_size: "tx_wire m t wire \<Longrightarrow> byte_size t = length wire"
  using tx_reads_byte_size by (auto simp: tx_wire_def)

lemma ensure_prefix:
  assumes w: "tx_wire m t wire" and r: "length (pr_prefix r) = prefix_capacity"
    "take (pr_copied r) (pr_prefix r) = take (pr_copied r) wire"
    and k: "pr_copied r \<le> wanted" "wanted \<le> prefix_capacity"
  shows "if wanted \<le> length wire
    then (\<exists>prefix. ensure m t wanted r = Inr (r\<lparr>pr_prefix := prefix, pr_copied := wanted\<rparr>)
            \<and> length prefix = prefix_capacity \<and> take wanted prefix = take wanted wire)
    else ensure m t wanted r = Inl (err_need Short_input (pr_copied r) wanted)"
proof -
  obtain parts where p: "map (tx_segment m t) [0..<tx_count t] = map Inr parts" "wire = concat parts"
    using w by (auto simp: tx_wire_def tx_reads_def)
  show ?thesis
  proof (cases "wanted \<le> length wire")
    case True
    have "\<exists>prefix'. ensure_loop m t wanted [0..<tx_count t] 0 (pr_prefix r) (pr_copied r)
        = Inr (prefix', wanted) \<and> length prefix' = length (pr_prefix r)
        \<and> take wanted prefix' = take wanted wire"
      by (rule ensure_loop_reads [OF p(1), where before = "[]"])
         (use p(2) True r k in auto)
    then show ?thesis using True k r tx_wire_size [OF w] by (auto simp: ensure_def)
  qed (use tx_wire_size [OF w] in \<open>simp add: ensure_def\<close>)
qed

lemma load32_prefix:
  assumes "take (off + 4) xs = take (off + 4) ys" "off + 4 \<le> length xs" "off + 4 \<le> length ys"
  shows "load32 xs off = load32 ys off"
proof -
  have "xs ! (off + i) = ys ! (off + i)" if "i < 4" for i
    using arg_cong [OF assms(1), of "\<lambda>zs. zs ! (off + i)"] assms(2,3) that by simp
  from this [of 0] this [of 1] this [of 2] this [of 3] show ?thesis by (simp add: load32_def)
qed

lemma prefix_take_agrees:
  assumes w: "tx_wire m t wire" and r: "reader_at wire off r" and k: "off + 4 \<le> k" "k \<le> 68"
  shows "agree wire k (prefix_take m t r) (take32 wire (length wire) off)"
proof (cases "off + 4 \<le> length wire")
  case True
  have o: "pr_offset r = off" "pr_copied r = off" using r by (simp_all add: reader_at_def)
  obtain prefix where p: "ensure m t (off + 4) r = Inr (r\<lparr>pr_prefix := prefix, pr_copied := off + 4\<rparr>)"
    "length prefix = prefix_capacity" "take (off + 4) prefix = take (off + 4) wire"
    using ensure_prefix [OF w, of r "off + 4"] r k True
    by (auto simp: reader_at_def prefix_capacity_def)
  have "load32 prefix off = load32 wire off"
    by (rule load32_prefix [OF p(3)]) (use p(2) k True in \<open>auto simp: prefix_capacity_def\<close>)
  then show ?thesis using o p True k
    by (simp add: prefix_take_def take32_def reader_at_def not_less)
next
  case False
  then have "ensure m t (off + 4) r = Inl (err_need Short_input off (off + 4))"
    using ensure_prefix [OF w, of r "off + 4"] r k
    by (auto simp: reader_at_def prefix_capacity_def)
  then show ?thesis using r False by (simp add: prefix_take_def take32_def reader_at_def)
qed

text \<open>The decoder's pair, with the two words paired.\<close>

definition take_words2 :: "bytes \<Rightarrow> nat \<Rightarrow> nat \<Rightarrow> ((u32 \<times> u32) \<times> nat) result" where
  "take_words2 wire sz off = and_then (take32 wire sz off) (\<lambda>(a, off1).
     and_then (take32 wire sz off1) (\<lambda>(b, off2). Inr ((a, b), off2)))"

lemma take_pair_words2:
  "and_then (take_pair wire sz off) f = and_then (take_words2 wire sz off) (\<lambda>((a, b), off'). f (a, b, off'))"
  by (simp add: take_pair_def take_words2_def and_then_def split: sum.splits prod.splits)

lemma prefix_pair_agrees:
  assumes w: "tx_wire m t wire" and r: "reader_at wire off r" and k: "off + 8 \<le> k" "k \<le> 68"
  shows "agree wire k (prefix_pair m t r) (take_words2 wire (length wire) off)"
  unfolding prefix_pair_def take_words2_def
proof (rule agree_bind [where k = "off + 4"])
  show "agree wire (off + 4) (prefix_take m t r) (take32 wire (length wire) off)"
    by (rule prefix_take_agrees [OF w r]) (use k in auto)
  fix v r1 off1 assume r1: "reader_at wire off1 r1" "off1 \<le> off + 4"
  show "agree wire k ((\<lambda>(a, r1). and_then (prefix_take m t r1) (\<lambda>(b, r2). Inr ((a, b), r2))) (v, r1))
     ((\<lambda>(a, off1). and_then (take32 wire (length wire) off1) (\<lambda>(b, off2). Inr ((a, b), off2))) (v, off1))"
    unfolding prod.case
    by (rule agree_bind [OF prefix_take_agrees [OF w r1(1), where k = k]]) (use r1 k in auto)
qed

lemma inspect_stream_id_agrees:
  assumes w: "tx_wire m t wire" and r: "reader_at wire off r" and k: "off + 4 \<le> k" "k \<le> 68"
  shows "agree wire k (inspect_stream_id m t type r) (take_stream_id wire (length wire) type off)"
proof -
  have "agree wire k (and_then (prefix_take m t r) (\<lambda>(v, r1). Inr (Some v, r1)))
      (and_then (take32 wire (length wire) off) (\<lambda>(v, off'). Inr (Some v, off')))"
    by (rule agree_bind [OF prefix_take_agrees [OF w r k]]) auto
  then show ?thesis using r k by (simp add: inspect_stream_id_def take_stream_id_def)
qed

lemma inspect_class_id_agrees:
  assumes w: "tx_wire m t wire" and r: "reader_at wire off r" and k: "off + 8 \<le> k" "k \<le> 68"
  shows "agree wire k (inspect_class_id m t h r) (take_class_id wire (length wire) h off)"
proof -
  have "agree wire k (and_then (prefix_pair m t r) (\<lambda>((a, b), r1).
             if a AND 0x07000000 \<noteq> 0 then Inl (err_at Invalid_argument (pr_offset r1 - 8))
             else Inr (Some (class_of_words a b), r1)))
     (and_then (take_words2 wire (length wire) off) (\<lambda>((a, b), off').
             if a AND 0x07000000 \<noteq> 0 then Inl (err_at Invalid_argument (off' - 8))
             else Inr (Some (class_of_words a b), off')))"
    by (rule agree_bind [OF prefix_pair_agrees [OF w r k]]) (auto simp: reader_at_def)
  then show ?thesis using r k
    unfolding inspect_class_id_def take_class_id_def take_pair_words2 class_of_words_def by simp
qed

lemma inspect_timestamp_agrees:
  assumes w: "tx_wire m t wire" and r: "reader_at wire off r" and k: "off + 12 \<le> k" "k \<le> 68"
  shows "agree wire k (inspect_timestamp m t ts r)
    (and_then (take_ts_integer wire (length wire) ts off)
       (\<lambda>(ts1, off1). take_ts_fractional wire (length wire) ts1 off1))"
  unfolding inspect_timestamp_def take_ts_integer_def
proof (rule agree_bind [where k = "off + 4"])
  have "agree wire (off + 4) (and_then (prefix_take m t r) (\<lambda>(v, r1). Inr (ts\<lparr>ts_integer := v\<rparr>, r1)))
      (and_then (take32 wire (length wire) off) (\<lambda>(v, off'). Inr (ts\<lparr>ts_integer := v\<rparr>, off')))"
    by (rule agree_bind [OF prefix_take_agrees [OF w r, where k = "off + 4"]]) (use k in auto)
  then show "agree wire (off + 4)
     (if ts_tsi ts \<noteq> Tsi_none
      then and_then (prefix_take m t r) (\<lambda>(v, r1). Inr (ts\<lparr>ts_integer := v\<rparr>, r1)) else Inr (ts, r))
     (if ts_tsi ts \<noteq> Tsi_none
      then and_then (take32 wire (length wire) off) (\<lambda>(v, off'). Inr (ts\<lparr>ts_integer := v\<rparr>, off'))
      else Inr (ts, off))" using r by simp
  fix v :: timestamp and r1 off1 assume r1: "reader_at wire off1 r1" "off1 \<le> off + 4"
  have "agree wire k (and_then (prefix_pair m t r1) (\<lambda>((a, b), r2).
        Inr (v\<lparr>ts_fractional := push_bit 32 (ucast a) OR ucast b\<rparr>, r2)))
     (and_then (take_words2 wire (length wire) off1) (\<lambda>((a, b), off').
        Inr (v\<lparr>ts_fractional := push_bit 32 (ucast a) OR ucast b\<rparr>, off')))"
    by (rule agree_bind [OF prefix_pair_agrees [OF w r1(1), where k = k]]) (use r1 k in auto)
  then show "agree wire k ((\<lambda>(ts1, r1). if ts_tsf ts1 \<noteq> Tsf_none
       then and_then (prefix_pair m t r1) (\<lambda>((a, b), r2).
              Inr (ts1\<lparr>ts_fractional := push_bit 32 (ucast a) OR ucast b\<rparr>, r2))
       else Inr (ts1, r1)) (v, r1))
     ((\<lambda>(ts1, off1). take_ts_fractional wire (length wire) ts1 off1) (v, off1))"
    using r1 k by (simp add: take_ts_fractional_def take_pair_words2)
qed

lemma inspect_identifier_agrees:
  assumes w: "tx_wire m t wire" and r: "reader_at wire off r" and k: "off + 16 \<le> k" "k \<le> 68"
  shows "agree wire k (inspect_identifier m t cam en uu r)
    (take_identifier wire (length wire) cam en uu off)"
proof -
  have short: "agree wire k (and_then (prefix_take m t r) (\<lambda>(v, r1). Inr (short_id v, r1)))
      (and_then (take32 wire (length wire) off) (\<lambda>(v, off1). Inr (short_id v, off1)))"
    by (rule agree_bind [OF prefix_take_agrees [OF w r, where k = k]]) (use k in auto)
  have tail: "agree wire k (and_then (prefix_pair m t r1) (\<lambda>((c, d), r2). Inr (uuid_id (a, b, c, d), r2)))
      (and_then (take_words2 wire (length wire) off1) (\<lambda>((c, d), off2). Inr (uuid_id (a, b, c, d), off2)))"
    if "reader_at wire off1 r1" "off1 \<le> off + 8" for a b r1 off1
    by (rule agree_bind [OF prefix_pair_agrees [OF w that(1), where k = k]]) (use that(2) k in auto)
  have "agree wire k
      (and_then (prefix_pair m t r) (\<lambda>((a, b), r1). and_then (prefix_pair m t r1)
         (\<lambda>((c, d), r2). Inr (uuid_id (a, b, c, d), r2))))
      (and_then (take_words2 wire (length wire) off) (\<lambda>((a, b), off1).
         and_then (take_words2 wire (length wire) off1)
         (\<lambda>((c, d), off2). Inr (uuid_id (a, b, c, d), off2))))"
  proof (rule agree_bind [OF prefix_pair_agrees [OF w r, where k = "off + 8"]])
    fix v :: "u32 \<times> u32" and r1 off1 assume "reader_at wire off1 r1" "off1 \<le> off + 8"
    then show "agree wire k ((\<lambda>((a, b), r1). and_then (prefix_pair m t r1)
         (\<lambda>((c, d), r2). Inr (uuid_id (a, b, c, d), r2))) (v, r1))
      ((\<lambda>((a, b), off1). and_then (take_words2 wire (length wire) off1)
         (\<lambda>((c, d), off2). Inr (uuid_id (a, b, c, d), off2))) (v, off1))"
      using tail [of off1 r1 "fst v" "snd v"] by (cases v) simp
  qed (use k in auto)
  then show ?thesis using short r k
    by (simp add: inspect_identifier_def take_identifier_def take_pair_words2)
qed

lemma inspect_command_agrees:
  assumes w: "tx_wire m t wire" and r: "reader_at wire off r" and k: "off \<le> 28"
  shows "agree wire 68 (inspect_command m t type r) (take_command wire (length wire) type off)"
proof (cases "is_command type")
  case True
  have last_id: "agree wire 68 (and_then (inspect_identifier m t cam 29 28 r2) (\<lambda>(b, r3). Inr (f b, r3)))
      (and_then (take_identifier wire (length wire) cam 29 28 off2) (\<lambda>(b, off3). Inr (f b, off3)))"
    if "reader_at wire off2 r2" "off2 \<le> 52" for cam off2 r2 and f :: "ident \<Rightarrow> command option"
    by (rule agree_bind [OF inspect_identifier_agrees [OF w that(1), where k = 68]])
       (use that in auto)
  have ids: "agree wire 68
      (and_then (inspect_identifier m t cam 31 30 r1) (\<lambda>(a, r2).
         and_then (inspect_identifier m t cam 29 28 r2) (\<lambda>(b, r3). Inr (g a b, r3))))
      (and_then (take_identifier wire (length wire) cam 31 30 off1) (\<lambda>(a, off2).
         and_then (take_identifier wire (length wire) cam 29 28 off2) (\<lambda>(b, off3). Inr (g a b, off3))))"
    if "reader_at wire off1 r1" "off1 \<le> 36" for cam off1 r1 and g :: "ident \<Rightarrow> ident \<Rightarrow> command option"
    by (rule agree_bind [OF inspect_identifier_agrees [OF w that(1), where k = 52]])
       (use that last_id in auto)
  have "agree wire 68
     (and_then (prefix_pair m t r) (\<lambda>((cam, mid), r1).
           and_then (inspect_identifier m t cam 31 30 r1) (\<lambda>(a, r2).
           and_then (inspect_identifier m t cam 29 28 r2) (\<lambda>(b, r3).
             Inr (Some \<lparr>cmd_cam = cam, cmd_message_id = mid, cmd_controllee = a,
                        cmd_controller = b\<rparr>, r3)))))
     (and_then (take_words2 wire (length wire) off) (\<lambda>((cam, mid), off1).
           and_then (take_identifier wire (length wire) cam 31 30 off1) (\<lambda>(a, off2).
           and_then (take_identifier wire (length wire) cam 29 28 off2) (\<lambda>(b, off3).
             Inr (Some \<lparr>cmd_cam = cam, cmd_message_id = mid, cmd_controllee = a,
                        cmd_controller = b\<rparr>, off3)))))"
    by (rule agree_bind [OF prefix_pair_agrees [OF w r, where k = 36]])
       (use k in \<open>auto intro: ids\<close>)
  then show ?thesis
    using True by (simp add: inspect_command_def take_command_def take_pair_words2)
next
  case False
  then show ?thesis using r k by (simp add: inspect_command_def take_command_def)
qed

lemma and_then_assoc: "and_then (and_then x f) g = and_then x (\<lambda>v. and_then (f v) g)"
  by (cases x) auto

lemma take_envelope_grouped:
  "take_envelope wire sz h e =
     and_then (take_stream_id wire sz (drop_bit 28 h) 4) (\<lambda>(sid, off1).
     and_then (take_class_id wire sz h off1) (\<lambda>(cls, off2).
     and_then (and_then (take_ts_integer wire sz (env_timestamp e) off2)
        (\<lambda>(ts, off3). take_ts_fractional wire sz ts off3)) (\<lambda>(ts', off4).
     and_then (take_command wire sz (env_type e) off4) (\<lambda>(cmd, off5).
       Inr (e\<lparr>env_stream_id := sid, env_class_id := cls, env_timestamp := ts',
              env_command := cmd\<rparr>, off5)))))"
  by (simp add: take_envelope_def and_then_assoc split_def)

lemma inspect_prologue_agrees:
  assumes w: "tx_wire m t wire" and r: "reader_at wire 4 r"
  shows "agree wire 68 (inspect_prologue m t h e r) (take_envelope wire (length wire) h e)"
proof -
  let ?f = "\<lambda>sid cls ts cmd. e\<lparr>env_stream_id := sid, env_class_id := cls, env_timestamp := ts,
              env_command := cmd\<rparr>"
  let ?n = "length wire"
  have cmd: "agree wire 68
      (and_then (inspect_command m t (env_type e) r3) (\<lambda>(cmd, r4). Inr (?f sid cls ts cmd, r4)))
      (and_then (take_command wire ?n (env_type e) off4) (\<lambda>(cmd, off5). Inr (?f sid cls ts cmd, off5)))"
    if "reader_at wire off4 r3" "off4 \<le> 28" for sid cls ts off4 r3
    by (rule agree_bind [OF inspect_command_agrees [OF w that]]) auto
  have ts: "agree wire 68
      (and_then (inspect_timestamp m t (env_timestamp e) r2) (\<lambda>(ts, r3).
         and_then (inspect_command m t (env_type e) r3) (\<lambda>(cmd, r4). Inr (?f sid cls ts cmd, r4))))
      (and_then (and_then (take_ts_integer wire ?n (env_timestamp e) off2)
          (\<lambda>(ts, off3). take_ts_fractional wire ?n ts off3)) (\<lambda>(ts, off4).
         and_then (take_command wire ?n (env_type e) off4) (\<lambda>(cmd, off5). Inr (?f sid cls ts cmd, off5))))"
    if "reader_at wire off2 r2" "off2 \<le> 16" for sid cls off2 r2
    by (rule agree_bind [OF inspect_timestamp_agrees [OF w that(1), where k = 28]])
       (use that cmd in auto)
  have cls: "agree wire 68
      (and_then (inspect_class_id m t h r1) (\<lambda>(cls, r2).
         and_then (inspect_timestamp m t (env_timestamp e) r2) (\<lambda>(ts, r3).
         and_then (inspect_command m t (env_type e) r3) (\<lambda>(cmd, r4). Inr (?f sid cls ts cmd, r4)))))
      (and_then (take_class_id wire ?n h off1) (\<lambda>(cls, off2).
         and_then (and_then (take_ts_integer wire ?n (env_timestamp e) off2)
          (\<lambda>(ts, off3). take_ts_fractional wire ?n ts off3)) (\<lambda>(ts, off4).
         and_then (take_command wire ?n (env_type e) off4) (\<lambda>(cmd, off5). Inr (?f sid cls ts cmd, off5)))))"
    if "reader_at wire off1 r1" "off1 \<le> 8" for sid off1 r1
    by (rule agree_bind [OF inspect_class_id_agrees [OF w that(1), where k = 16]])
       (use that ts in auto)
  show ?thesis unfolding inspect_prologue_def take_envelope_grouped
    by (rule agree_bind [OF inspect_stream_id_agrees [OF w r, where k = 8]]) (use cls in auto)
qed

text \<open>C19: Inspecting a transmit storage gives what decoding the concatenation of its segments
  gives, whatever the segmentation: the same error, or the same envelope with the offset and
  the sizes of the decoded view. The 68 bytes of the prefix buffer are always enough.\<close>

theorem inspect_is_decode:
  assumes "tx_wire m t wire"
  shows "inspect m t = (case decode_envelope wire of Inl e \<Rightarrow> Inl e
     | Inr v \<Rightarrow> Inr \<lparr>fm_envelope = view_envelope v, fm_payload_offset = view_payload_offset v,
                    fm_payload_bytes = length (view_payload v), fm_packet_bytes = length wire\<rparr>)"
proof (cases "length wire < 4")
  case True
  then have "ensure m t 4 new_reader = Inl (err_need Short_input 0 4)"
    using ensure_prefix [OF assms, of new_reader 4] by (simp add: new_reader_def prefix_capacity_def)
  then show ?thesis using True by (simp add: inspect_def decode_envelope_def)
next
  case False
  obtain prefix where p: "ensure m t 4 new_reader = Inr (new_reader\<lparr>pr_prefix := prefix, pr_copied := 4\<rparr>)"
    "length prefix = prefix_capacity" "take 4 prefix = take 4 wire"
    using False ensure_prefix [OF assms, of new_reader 4]
    by (auto simp: new_reader_def prefix_capacity_def)
  let ?r = "new_reader\<lparr>pr_prefix := prefix, pr_copied := 4, pr_offset := 4\<rparr>"
  define h where "h = load32 wire 0"
  have h: "load32 prefix 0 = h"
    unfolding h_def by (rule load32_prefix) (use p False in \<open>auto simp: prefix_capacity_def\<close>)
  have r: "reader_at wire 4 ?r" using p False by (simp add: reader_at_def)
  have same: "inspect_flags h = decode_header h" by (simp add: inspect_flags_def decode_header_def)
  show ?thesis
  proof (cases "drop_bit 28 h > 7 \<or> unat (h AND 0xffff) * 4 = 0 \<or> unat (h AND 0xffff) * 4 \<noteq> length wire")
    case True
    then show ?thesis using False p(1) h tx_wire_size [OF assms]
      by (auto simp: inspect_def decode_envelope_def Let_def simp flip: h_def)
  next
    case sz: False
    show ?thesis
    proof (cases "decode_header h")
      case (Inl x)
      then show ?thesis using False sz p(1) h tx_wire_size [OF assms] same
        by (simp add: inspect_def decode_envelope_def Let_def flip: h_def)
    next
      case (Inr e0)
      have a: "agree wire 68 (inspect_prologue m t h e0 ?r) (take_envelope wire (length wire) h e0)"
        by (rule inspect_prologue_agrees [OF assms r])
      have n: "drop_bit 28 h \<le> 7" "unat (h AND 0xffff) * 4 = length wire" using sz by auto
      show ?thesis
        using False n p(1) h tx_wire_size [OF assms] same Inr a
        by (cases "(wire, 68 :: nat, inspect_prologue m t h e0 ?r, take_envelope wire (length wire) h e0)"
              rule: agree.cases)
           (auto simp: inspect_def decode_envelope_def Let_def reader_at_def subspan_def and_then_def
              simp flip: h_def split: sum.splits)
    qed
  qed
qed

section \<open>A packet in two segments\<close>

definition sample_tx_memory :: memory where
  "sample_tx_memory = sample_memory\<lparr>mm_ram := (\<lambda>a.
     if 64 \<le> a \<and> a < 67 then [0x40, 0, 0] ! (a - 64)
     else if 80 \<le> a \<and> a < 85 then [2, 0, 0, 0, 7] ! (a - 80) else 0)\<rparr>"

definition sample_tx :: tx_storage where
  "sample_tx = \<lparr>tx_leases = [\<lparr>bl_state = Some 0, bl_index = 0, bl_used = 3\<rparr>,
       \<lparr>bl_state = Some 0, bl_index = 1, bl_used = 5\<rparr>, null_lease],
     tx_segments = [\<lparr>sg_lease = 0, sg_offset = 0, sg_length = 3\<rparr>,
       \<lparr>sg_lease = 1, sg_offset = 0, sg_length = 5\<rparr>, null_segment], tx_count = 2\<rparr>"

lemma sample_tx_blocks:
  "bk_address (block_at sample_tx_memory 0 0) = 64" "bk_address (block_at sample_tx_memory 0 (Suc 0)) = 80"
  by (simp_all add: block_at_def sample_tx_memory_def sample_pools spec_blocks_def sample_spec_def size_max_def)

lemma sample_tx_wire: "tx_wire sample_tx_memory sample_tx [0x40, 0, 0, 2, 0, 0, 0, 7]"
proof -
  have "tx_reads sample_tx_memory sample_tx [[0x40, 0, 0], [2, 0, 0, 0, 7]]"
    by (simp add: tx_reads_def tx_segment_def sample_tx_def lease_bytes_def sample_tx_blocks
        sample_tx_blocks(2) [simplified] span_bytes_def subspan_def numeral_2_eq_2 upt_rec)
       (simp add: sample_tx_memory_def)
  moreover have "tx_ok sample_tx"
    by (simp add: tx_ok_def sample_tx_def lease_live_def null_lease_def null_segment_def size_max_def
        numeral_2_eq_2 less_Suc_eq)
  ultimately show ?thesis by (force simp: tx_wire_def)
qed

theorem inspect_is_decode_witness:
  "inspect sample_tx_memory sample_tx = Inr \<lparr>fm_envelope = empty_envelope\<lparr>env_type := Context,
       env_stream_id := Some 7\<rparr>, fm_payload_offset = 8, fm_payload_bytes = 0, fm_packet_bytes = 8\<rparr>"
proof -
  have "decode_envelope [0x40, 0, 0, 2, 0, 0, 0, 7] = Inr \<lparr>view_envelope = empty_envelope\<lparr>env_type := Context,
       env_stream_id := Some 7\<rparr>, view_payload = [], view_trailer = None, view_payload_offset = 8,
       view_wire = [0x40, 0, 0, 2, 0, 0, 0, 7]\<rparr>"
    by (simp add: wire_eval Let_def)
  then show ?thesis using inspect_is_decode [OF sample_tx_wire] by simp
qed

end
