(* ===== verification/Field_Ids.thy ===== *)
theory Field_Ids
  imports Prelude
begin

text \<open>
  Identifiers of the context and command fields (\<^verbatim>\<open>include/vita/fields/types.hpp\<close>): a
  field is named by the indicator word (CIF) and the bit that announces it. One constant per
  field type of the source, and the collection \<open>field_ids\<close> of their definitions.
\<close>

named_theorems field_ids \<open>definitions of the field identifiers\<close>

record field_id =
  fid_cif :: u8
  fid_bit :: u8

definition FormattedGPS_id :: field_id where [field_ids]: "FormattedGPS_id = \<lparr>fid_cif = 0, fid_bit = 14\<rparr>"
definition FormattedINS_id :: field_id where [field_ids]: "FormattedINS_id = \<lparr>fid_cif = 0, fid_bit = 13\<rparr>"
definition ECEFEphemeris_id :: field_id where [field_ids]: "ECEFEphemeris_id = \<lparr>fid_cif = 0, fid_bit = 12\<rparr>"
definition RelativeEphemeris_id :: field_id where [field_ids]: "RelativeEphemeris_id = \<lparr>fid_cif = 0, fid_bit = 11\<rparr>"
definition GPSASCII_id :: field_id where [field_ids]: "GPSASCII_id = \<lparr>fid_cif = 0, fid_bit = 9\<rparr>"
definition ContextAssociationLists_id :: field_id where [field_ids]: "ContextAssociationLists_id = \<lparr>fid_cif = 0, fid_bit = 8\<rparr>"
definition ReferencePoint_id :: field_id where [field_ids]: "ReferencePoint_id = \<lparr>fid_cif = 0, fid_bit = 30\<rparr>"
definition SampleRate_id :: field_id where [field_ids]: "SampleRate_id = \<lparr>fid_cif = 0, fid_bit = 21\<rparr>"
definition StateEvent_id :: field_id where [field_ids]: "StateEvent_id = \<lparr>fid_cif = 0, fid_bit = 16\<rparr>"
definition DataPayloadFormat_id :: field_id where [field_ids]: "DataPayloadFormat_id = \<lparr>fid_cif = 0, fid_bit = 15\<rparr>"
definition Bandwidth_id :: field_id where [field_ids]: "Bandwidth_id = \<lparr>fid_cif = 0, fid_bit = 29\<rparr>"
definition IFReferenceFrequency_id :: field_id where [field_ids]: "IFReferenceFrequency_id = \<lparr>fid_cif = 0, fid_bit = 28\<rparr>"
definition RFReferenceFrequency_id :: field_id where [field_ids]: "RFReferenceFrequency_id = \<lparr>fid_cif = 0, fid_bit = 27\<rparr>"
definition RFReferenceFrequencyOffset_id :: field_id where [field_ids]: "RFReferenceFrequencyOffset_id = \<lparr>fid_cif = 0, fid_bit = 26\<rparr>"
definition IFBandOffset_id :: field_id where [field_ids]: "IFBandOffset_id = \<lparr>fid_cif = 0, fid_bit = 25\<rparr>"
definition ReferenceLevel_id :: field_id where [field_ids]: "ReferenceLevel_id = \<lparr>fid_cif = 0, fid_bit = 24\<rparr>"
definition Gain_id :: field_id where [field_ids]: "Gain_id = \<lparr>fid_cif = 0, fid_bit = 23\<rparr>"
definition OverRangeCount_id :: field_id where [field_ids]: "OverRangeCount_id = \<lparr>fid_cif = 0, fid_bit = 22\<rparr>"
definition TimestampAdjustment_id :: field_id where [field_ids]: "TimestampAdjustment_id = \<lparr>fid_cif = 0, fid_bit = 20\<rparr>"
definition TimestampCalibrationTime_id :: field_id where [field_ids]: "TimestampCalibrationTime_id = \<lparr>fid_cif = 0, fid_bit = 19\<rparr>"
definition Temperature_id :: field_id where [field_ids]: "Temperature_id = \<lparr>fid_cif = 0, fid_bit = 18\<rparr>"
definition DeviceIdentifier_id :: field_id where [field_ids]: "DeviceIdentifier_id = \<lparr>fid_cif = 0, fid_bit = 17\<rparr>"
definition EphemerisReferenceId_id :: field_id where [field_ids]: "EphemerisReferenceId_id = \<lparr>fid_cif = 0, fid_bit = 10\<rparr>"
definition PhaseOffset_id :: field_id where [field_ids]: "PhaseOffset_id = \<lparr>fid_cif = 1, fid_bit = 31\<rparr>"
definition Polarization_id :: field_id where [field_ids]: "Polarization_id = \<lparr>fid_cif = 1, fid_bit = 30\<rparr>"
definition PointingVector3D_id :: field_id where [field_ids]: "PointingVector3D_id = \<lparr>fid_cif = 1, fid_bit = 29\<rparr>"
definition SpatialScanType_id :: field_id where [field_ids]: "SpatialScanType_id = \<lparr>fid_cif = 1, fid_bit = 27\<rparr>"
definition SpatialReferenceType_id :: field_id where [field_ids]: "SpatialReferenceType_id = \<lparr>fid_cif = 1, fid_bit = 26\<rparr>"
definition BeamWidth_id :: field_id where [field_ids]: "BeamWidth_id = \<lparr>fid_cif = 1, fid_bit = 25\<rparr>"
definition Range_id :: field_id where [field_ids]: "Range_id = \<lparr>fid_cif = 1, fid_bit = 24\<rparr>"
definition EbNoBer_id :: field_id where [field_ids]: "EbNoBer_id = \<lparr>fid_cif = 1, fid_bit = 20\<rparr>"
definition Threshold_id :: field_id where [field_ids]: "Threshold_id = \<lparr>fid_cif = 1, fid_bit = 19\<rparr>"
definition CompressionPoint_id :: field_id where [field_ids]: "CompressionPoint_id = \<lparr>fid_cif = 1, fid_bit = 18\<rparr>"
definition InterceptPoints_id :: field_id where [field_ids]: "InterceptPoints_id = \<lparr>fid_cif = 1, fid_bit = 17\<rparr>"
definition SnrNoiseFigure_id :: field_id where [field_ids]: "SnrNoiseFigure_id = \<lparr>fid_cif = 1, fid_bit = 16\<rparr>"
definition AuxiliaryFrequency_id :: field_id where [field_ids]: "AuxiliaryFrequency_id = \<lparr>fid_cif = 1, fid_bit = 15\<rparr>"
definition AuxiliaryGain_id :: field_id where [field_ids]: "AuxiliaryGain_id = \<lparr>fid_cif = 1, fid_bit = 14\<rparr>"
definition AuxiliaryBandwidth_id :: field_id where [field_ids]: "AuxiliaryBandwidth_id = \<lparr>fid_cif = 1, fid_bit = 13\<rparr>"
definition DiscreteIO32_id :: field_id where [field_ids]: "DiscreteIO32_id = \<lparr>fid_cif = 1, fid_bit = 6\<rparr>"
definition DiscreteIO64_id :: field_id where [field_ids]: "DiscreteIO64_id = \<lparr>fid_cif = 1, fid_bit = 5\<rparr>"
definition HealthStatus_id :: field_id where [field_ids]: "HealthStatus_id = \<lparr>fid_cif = 1, fid_bit = 4\<rparr>"
definition V49SpecCompliance_id :: field_id where [field_ids]: "V49SpecCompliance_id = \<lparr>fid_cif = 1, fid_bit = 3\<rparr>"
definition VersionBuild_id :: field_id where [field_ids]: "VersionBuild_id = \<lparr>fid_cif = 1, fid_bit = 2\<rparr>"
definition BufferSize_id :: field_id where [field_ids]: "BufferSize_id = \<lparr>fid_cif = 1, fid_bit = 1\<rparr>"
definition PointingVectorStructure_id :: field_id where [field_ids]: "PointingVectorStructure_id = \<lparr>fid_cif = 1, fid_bit = 28\<rparr>"
definition IndexList_id :: field_id where [field_ids]: "IndexList_id = \<lparr>fid_cif = 1, fid_bit = 7\<rparr>"
definition Spectrum_id :: field_id where [field_ids]: "Spectrum_id = \<lparr>fid_cif = 1, fid_bit = 10\<rparr>"
definition SectorStepScan_id :: field_id where [field_ids]: "SectorStepScan_id = \<lparr>fid_cif = 1, fid_bit = 9\<rparr>"
definition Bind_id :: field_id where [field_ids]: "Bind_id = \<lparr>fid_cif = 2, fid_bit = 31\<rparr>"
definition CitedSID_id :: field_id where [field_ids]: "CitedSID_id = \<lparr>fid_cif = 2, fid_bit = 30\<rparr>"
definition SiblingSID_id :: field_id where [field_ids]: "SiblingSID_id = \<lparr>fid_cif = 2, fid_bit = 29\<rparr>"
definition ParentSID_id :: field_id where [field_ids]: "ParentSID_id = \<lparr>fid_cif = 2, fid_bit = 28\<rparr>"
definition ChildSID_id :: field_id where [field_ids]: "ChildSID_id = \<lparr>fid_cif = 2, fid_bit = 27\<rparr>"
definition CitedMessageId_id :: field_id where [field_ids]: "CitedMessageId_id = \<lparr>fid_cif = 2, fid_bit = 26\<rparr>"
definition ControlleeId_id :: field_id where [field_ids]: "ControlleeId_id = \<lparr>fid_cif = 2, fid_bit = 25\<rparr>"
definition ControlleeUUID_id :: field_id where [field_ids]: "ControlleeUUID_id = \<lparr>fid_cif = 2, fid_bit = 24\<rparr>"
definition ControllerId_id :: field_id where [field_ids]: "ControllerId_id = \<lparr>fid_cif = 2, fid_bit = 23\<rparr>"
definition ControllerUUID_id :: field_id where [field_ids]: "ControllerUUID_id = \<lparr>fid_cif = 2, fid_bit = 22\<rparr>"
definition InformationSource_id :: field_id where [field_ids]: "InformationSource_id = \<lparr>fid_cif = 2, fid_bit = 21\<rparr>"
definition TrackId_id :: field_id where [field_ids]: "TrackId_id = \<lparr>fid_cif = 2, fid_bit = 20\<rparr>"
definition CountryCode_id :: field_id where [field_ids]: "CountryCode_id = \<lparr>fid_cif = 2, fid_bit = 19\<rparr>"
definition OperatorId_id :: field_id where [field_ids]: "OperatorId_id = \<lparr>fid_cif = 2, fid_bit = 18\<rparr>"
definition PlatformClass_id :: field_id where [field_ids]: "PlatformClass_id = \<lparr>fid_cif = 2, fid_bit = 17\<rparr>"
definition PlatformInstance_id :: field_id where [field_ids]: "PlatformInstance_id = \<lparr>fid_cif = 2, fid_bit = 16\<rparr>"
definition PlatformDisplay_id :: field_id where [field_ids]: "PlatformDisplay_id = \<lparr>fid_cif = 2, fid_bit = 15\<rparr>"
definition EmsDeviceClass_id :: field_id where [field_ids]: "EmsDeviceClass_id = \<lparr>fid_cif = 2, fid_bit = 14\<rparr>"
definition EmsDeviceType_id :: field_id where [field_ids]: "EmsDeviceType_id = \<lparr>fid_cif = 2, fid_bit = 13\<rparr>"
definition EmsDeviceInstance_id :: field_id where [field_ids]: "EmsDeviceInstance_id = \<lparr>fid_cif = 2, fid_bit = 12\<rparr>"
definition ModulationClass_id :: field_id where [field_ids]: "ModulationClass_id = \<lparr>fid_cif = 2, fid_bit = 11\<rparr>"
definition ModulationType_id :: field_id where [field_ids]: "ModulationType_id = \<lparr>fid_cif = 2, fid_bit = 10\<rparr>"
definition FunctionId_id :: field_id where [field_ids]: "FunctionId_id = \<lparr>fid_cif = 2, fid_bit = 9\<rparr>"
definition ModeId_id :: field_id where [field_ids]: "ModeId_id = \<lparr>fid_cif = 2, fid_bit = 8\<rparr>"
definition EventId_id :: field_id where [field_ids]: "EventId_id = \<lparr>fid_cif = 2, fid_bit = 7\<rparr>"
definition FunctionPriority_id :: field_id where [field_ids]: "FunctionPriority_id = \<lparr>fid_cif = 2, fid_bit = 6\<rparr>"
definition CommunicationPriority_id :: field_id where [field_ids]: "CommunicationPriority_id = \<lparr>fid_cif = 2, fid_bit = 5\<rparr>"
definition RFFootprint_id :: field_id where [field_ids]: "RFFootprint_id = \<lparr>fid_cif = 2, fid_bit = 4\<rparr>"
definition RFFootprintRange_id :: field_id where [field_ids]: "RFFootprintRange_id = \<lparr>fid_cif = 2, fid_bit = 3\<rparr>"
definition TimestampDetails_id :: field_id where [field_ids]: "TimestampDetails_id = \<lparr>fid_cif = 3, fid_bit = 31\<rparr>"
definition TimestampSkew_id :: field_id where [field_ids]: "TimestampSkew_id = \<lparr>fid_cif = 3, fid_bit = 30\<rparr>"
definition RiseTime_id :: field_id where [field_ids]: "RiseTime_id = \<lparr>fid_cif = 3, fid_bit = 27\<rparr>"
definition FallTime_id :: field_id where [field_ids]: "FallTime_id = \<lparr>fid_cif = 3, fid_bit = 26\<rparr>"
definition OffsetTime_id :: field_id where [field_ids]: "OffsetTime_id = \<lparr>fid_cif = 3, fid_bit = 25\<rparr>"
definition PulseWidth_id :: field_id where [field_ids]: "PulseWidth_id = \<lparr>fid_cif = 3, fid_bit = 24\<rparr>"
definition Period_id :: field_id where [field_ids]: "Period_id = \<lparr>fid_cif = 3, fid_bit = 23\<rparr>"
definition Duration_id :: field_id where [field_ids]: "Duration_id = \<lparr>fid_cif = 3, fid_bit = 22\<rparr>"
definition Dwell_id :: field_id where [field_ids]: "Dwell_id = \<lparr>fid_cif = 3, fid_bit = 21\<rparr>"
definition Jitter_id :: field_id where [field_ids]: "Jitter_id = \<lparr>fid_cif = 3, fid_bit = 20\<rparr>"
definition Age_id :: field_id where [field_ids]: "Age_id = \<lparr>fid_cif = 3, fid_bit = 17\<rparr>"
definition ShelfLife_id :: field_id where [field_ids]: "ShelfLife_id = \<lparr>fid_cif = 3, fid_bit = 16\<rparr>"
definition AirTemperature_id :: field_id where [field_ids]: "AirTemperature_id = \<lparr>fid_cif = 3, fid_bit = 7\<rparr>"
definition SeaGroundTemperature_id :: field_id where [field_ids]: "SeaGroundTemperature_id = \<lparr>fid_cif = 3, fid_bit = 6\<rparr>"
definition Humidity_id :: field_id where [field_ids]: "Humidity_id = \<lparr>fid_cif = 3, fid_bit = 5\<rparr>"
definition BarometricPressure_id :: field_id where [field_ids]: "BarometricPressure_id = \<lparr>fid_cif = 3, fid_bit = 4\<rparr>"
definition SeaSwellState_id :: field_id where [field_ids]: "SeaSwellState_id = \<lparr>fid_cif = 3, fid_bit = 3\<rparr>"
definition TroposphericState_id :: field_id where [field_ids]: "TroposphericState_id = \<lparr>fid_cif = 3, fid_bit = 2\<rparr>"
definition NetworkId_id :: field_id where [field_ids]: "NetworkId_id = \<lparr>fid_cif = 3, fid_bit = 1\<rparr>"

end
