(* ===== verification/Field_Values.thy ===== *)
theory Field_Values
  imports Field_Ids
begin

text \<open>
  Field values and the field registry (\<^verbatim>\<open>include/vita/fields/types.hpp\<close>, with the value
  structs of \<^verbatim>\<open>cif1.hpp\<close>, \<^verbatim>\<open>cif2.hpp\<close> and \<^verbatim>\<open>cif3.hpp\<close>). A C++ struct of scalars is a
  one-constructor datatype with the members as selectors; signed members are words read with
  \<^const>\<open>sint\<close>; \<^verbatim>\<open>OptionalQ7\<close>, which compares equal whatever its unused member holds, is an option.
  The variant \<^verbatim>\<open>SemanticValue\<close> is a datatype whose constructors are in the order of the
  alternatives, and \<open>variant_index\<close> is their position.
\<close>

type_synonym s16 = "16 word"
type_synonym s64 = "64 word"
type_synonym optional_q7 = "s16 option"

section \<open>Value structs\<close>

datatype hertz = Hertz (q20: s64)
datatype payload_format = Payload_format (pf_bits: u64)
datatype decibels_q7 = Decibels_q7 (db_q7: s16)
datatype gain_stages = Gain_stages (gs_stage1_q7: s16) (gs_stage2_q7: s16)
datatype femtoseconds = Femtoseconds (fs_count: s64)
datatype celsius_q6 = Celsius_q6 (ce_q6: s16)
datatype device_identifier = Device_identifier (di_oui: u32) (di_code: u16)
datatype native_slice = Native_slice (ns_offset: u32) (ns_bytes: u32)
datatype radians_q7 = Radians_q7 (ra_q7: s16)
datatype polarization_angles = Polarization_angles (po_tilt_q7: s16) (po_ellipticity_q7: s16)
datatype pointing_angles = Pointing_angles (pa_azimuth_q7: u16) (pa_elevation_q7: s16)
datatype spatial_reference = Spatial_reference (sr_user_id: u16) (sr_reference: u8) (sr_beam: u8)
datatype beam_width_code = Beam_width_code (bw_horizontal: u16) (bw_vertical: u16)
datatype metres_q6 = Metres_q6 (me_q6: u32)
datatype ebno_ber = Ebno_ber (eb_ebno_q7: optional_q7) (eb_ber_q7: optional_q7)
datatype threshold_value = Threshold_value (th_stage1_q7: s16) (th_stage2_q7: s16)
datatype intercept_points = Intercept_points (ip_second_q7: optional_q7) (ip_third_q7: optional_q7)
datatype snr_noise_figure = Snr_noise_figure (sn_snr_q7: optional_q7) (sn_noise_figure_q7: optional_q7)
datatype unsigned64_bits = Unsigned64_bits (u64_bits: u64)
datatype version_build = Version_build (vb_year_since2000: u8) (vb_day: u16) (vb_revision: u8) (vb_user: u16)
datatype buffer_size = Buffer_size (bs_capacity_bytes: u32) (bs_level: u8) (bs_status: u8)
datatype country_code = Country_code (cc_code: u16) (cc_iso3166: bool)
datatype ems_device_class = Ems_device_class (em_class_code: u16) (em_organization: u8) (em_exciter: bool) (em_receiver: bool)
datatype humidity_code = Humidity_code (hu_raw: u16)
datatype barometric_pressure_code = Barometric_pressure_code (bp_raw17: u32)
datatype sea_swell = Sea_swell (sw_sea: u8) (sw_swell: u8) (sw_user: u8)
datatype timestamp_details = Timestamp_details (td_flags: u32) (td_epoch: u32)
datatype probability_code = Probability_code (pc_value: u8) (pc_function: u8)
datatype belief_code = Belief_code (bc_value: u8)

datatype semantic_value = SV_uint32 (sv_uint32: u32) | SV_hertz (sv_hertz: hertz) | SV_payload_format (sv_payload_format: payload_format)
  | SV_decibels (sv_decibels: decibels_q7) | SV_gain (sv_gain: gain_stages) | SV_femtoseconds (sv_femtoseconds: femtoseconds)
  | SV_celsius (sv_celsius: celsius_q6) | SV_device (sv_device: device_identifier) | SV_native (sv_native: native_slice)
  | SV_radians (sv_radians: radians_q7) | SV_polarization (sv_polarization: polarization_angles) | SV_pointing (sv_pointing: pointing_angles)
  | SV_spatial (sv_spatial: spatial_reference) | SV_beam_width (sv_beam_width: beam_width_code) | SV_metres (sv_metres: metres_q6)
  | SV_ebno (sv_ebno: ebno_ber) | SV_threshold (sv_threshold: threshold_value) | SV_intercept (sv_intercept: intercept_points)
  | SV_snr (sv_snr: snr_noise_figure) | SV_unsigned64 (sv_unsigned64: unsigned64_bits) | SV_version (sv_version: version_build)
  | SV_buffer_size (sv_buffer_size: buffer_size) | SV_country (sv_country: country_code) | SV_ems (sv_ems: ems_device_class)
  | SV_humidity (sv_humidity: humidity_code) | SV_pressure (sv_pressure: barometric_pressure_code) | SV_sea_swell (sv_sea_swell: sea_swell)
  | SV_timestamp (sv_timestamp: timestamp_details) | SV_probability (sv_probability: probability_code) | SV_belief (sv_belief: belief_code)

primrec variant_index :: "semantic_value \<Rightarrow> nat" where
  "variant_index (SV_uint32 _) = 0"
| "variant_index (SV_hertz _) = 1"
| "variant_index (SV_payload_format _) = 2"
| "variant_index (SV_decibels _) = 3"
| "variant_index (SV_gain _) = 4"
| "variant_index (SV_femtoseconds _) = 5"
| "variant_index (SV_celsius _) = 6"
| "variant_index (SV_device _) = 7"
| "variant_index (SV_native _) = 8"
| "variant_index (SV_radians _) = 9"
| "variant_index (SV_polarization _) = 10"
| "variant_index (SV_pointing _) = 11"
| "variant_index (SV_spatial _) = 12"
| "variant_index (SV_beam_width _) = 13"
| "variant_index (SV_metres _) = 14"
| "variant_index (SV_ebno _) = 15"
| "variant_index (SV_threshold _) = 16"
| "variant_index (SV_intercept _) = 17"
| "variant_index (SV_snr _) = 18"
| "variant_index (SV_unsigned64 _) = 19"
| "variant_index (SV_version _) = 20"
| "variant_index (SV_buffer_size _) = 21"
| "variant_index (SV_country _) = 22"
| "variant_index (SV_ems _) = 23"
| "variant_index (SV_humidity _) = 24"
| "variant_index (SV_pressure _) = 25"
| "variant_index (SV_sea_swell _) = 26"
| "variant_index (SV_timestamp _) = 27"
| "variant_index (SV_probability _) = 28"
| "variant_index (SV_belief _) = 29"

definition hertz_from_integer :: "u64 \<Rightarrow> hertz result" where
  "hertz_from_integer hz =
     (if hz > 9223372036854775807 div 1048576 then Inl (err Overflow)
      else Inr (Hertz (push_bit 20 hz)))"

section \<open>Thresholds and timestamp details\<close>

datatype threshold_mode = Single_db | Single_dbm | Window_db | Window_dbm

fun validate_threshold :: "threshold_value \<Rightarrow> threshold_mode \<Rightarrow> unit result" where
  "validate_threshold v Single_db =
     (if th_stage2_q7 v = 0 then Inr () else Inl (err Invalid_argument))"
| "validate_threshold v Single_dbm =
     (if sint (th_stage2_q7 v) = - 32768 then Inr () else Inl (err Invalid_argument))"
| "validate_threshold v Window_db =
     (if sint (th_stage2_q7 v) > sint (th_stage1_q7 v) then Inr () else Inl (err Invalid_argument))"
| "validate_threshold v Window_dbm =
     (if sint (th_stage2_q7 v) > sint (th_stage1_q7 v) then Inr () else Inl (err Invalid_argument))"

definition epoch_code :: "timestamp_details \<Rightarrow> u32" where
  "epoch_code v = drop_bit 16 (td_flags v) AND 3"

definition leap_handling :: "timestamp_details \<Rightarrow> u32" where
  "leap_handling v = drop_bit 14 (td_flags v) AND 3"

definition leap_prediction :: "timestamp_details \<Rightarrow> u32" where
  "leap_prediction v = drop_bit 12 (td_flags v) AND 3"

definition details_source :: "timestamp_details \<Rightarrow> u32" where
  "details_source v = drop_bit 9 (td_flags v) AND 7"

definition details_global :: "timestamp_details \<Rightarrow> bool" where
  "details_global v = test_bit32 (td_flags v) 18"

definition offset_enabled :: "timestamp_details \<Rightarrow> bool" where
  "offset_enabled v = test_bit32 (td_flags v) 8"

definition validate_timestamp_details_intrinsic :: "timestamp_details \<Rightarrow> unit result" where
  "validate_timestamp_details_intrinsic v =
     (if td_flags v AND 0x00f80000 \<noteq> 0
         \<or> (leap_handling v = 0 \<and> leap_prediction v \<noteq> 0 \<and> leap_prediction v \<noteq> 2)
      then Inl (err Invalid_argument) else Inr ())"

definition make_timestamp_details :: "u32 \<Rightarrow> u32 \<Rightarrow> timestamp_details result" where
  "make_timestamp_details flags epoch = (let v = Timestamp_details flags epoch
     in and_then (validate_timestamp_details_intrinsic v) (\<lambda>_. Inr v))"

record timestamp_details_scope =
  tds_observed_tsi_mask :: u8
  tds_scope_complete :: bool
  tds_documented_user_bits :: u8
  tds_user_source_documented :: bool
  tds_observed_tsf_mask :: u8

datatype timestamp_scope_status = Scope_complete | Scope_incomplete | Scope_not_applicable

definition validate_timestamp_details ::
  "timestamp_details \<Rightarrow> timestamp_details_scope \<Rightarrow> timestamp_scope_status result" where
  "validate_timestamp_details v scope =
     and_then (validate_timestamp_details_intrinsic v) (\<lambda>_.
       let masks = tds_observed_tsi_mask scope OR tds_observed_tsf_mask scope;
           utc = (tds_observed_tsi_mask scope AND 2 \<noteq> 0);
           gps = (tds_observed_tsi_mask scope AND 4 \<noteq> 0);
           code = epoch_code v;
           epoch_ok =
             (if utc \<and> gps then code = 0
              else if utc then code = 0 \<or> ((code = 1 \<or> code = 3) \<and> td_epoch v = 0)
              else if gps then code = 0 \<or> (code = 1 \<and> td_epoch v = 315964811)
                \<or> (code = 2 \<and> td_epoch v = 0) \<or> (code = 3 \<and> td_epoch v = 315964800)
              else True);
           undocumented = (drop_bit 24 (td_flags v) AND NOT (ucast (tds_documented_user_bits scope)) \<noteq> 0
             \<or> (details_source v \<ge> 6 \<and> \<not> tds_user_source_documented scope))
       in if masks AND 0xf0 \<noteq> 0 then Inl (err Invalid_argument)
          else if \<not> epoch_ok then Inl (err Invalid_argument)
          else if \<not> tds_scope_complete scope \<or> undocumented then Inr Scope_incomplete
          else if masks AND 14 = 0 then Inr Scope_not_applicable
          else Inr Scope_complete)"

section \<open>Attributes and descriptors\<close>

definition structured_field :: "field_id \<Rightarrow> bool" where
  "structured_field i \<longleftrightarrow>
     (fid_cif i = 0 \<and> ((fid_bit i \<ge> 11 \<and> fid_bit i \<le> 14) \<or> fid_bit i = 9 \<or> fid_bit i = 8))
     \<or> (fid_cif i = 2 \<and> (fid_bit i = 24 \<or> fid_bit i = 22))
     \<or> (fid_cif i = 3 \<and> (fid_bit i = 17 \<or> fid_bit i = 16))
     \<or> (fid_cif i = 1 \<and> (fid_bit i = 28 \<or> fid_bit i = 10 \<or> fid_bit i = 9 \<or> fid_bit i = 7))"

definition temporal_duration_field :: "field_id \<Rightarrow> bool" where
  "temporal_duration_field i \<longleftrightarrow> fid_cif i = 3 \<and> (fid_bit i = 17 \<or> fid_bit i = 16)"

definition cif2_generic16_field :: "field_id \<Rightarrow> bool" where
  "cif2_generic16_field i \<longleftrightarrow>
     fid_cif i = 2 \<and> (fid_bit i = 18 \<or> (fid_bit i \<ge> 6 \<and> fid_bit i \<le> 11))"

datatype attribute = Current | Average | Median | Standard_deviation | Maximum | Minimum
  | Precision | Accuracy | First_derivative | Second_derivative | Third_derivative
  | Probability | Belief

primrec attribute_index :: "attribute \<Rightarrow> nat" where
  "attribute_index Current = 0"
| "attribute_index Average = 1"
| "attribute_index Median = 2"
| "attribute_index Standard_deviation = 3"
| "attribute_index Maximum = 4"
| "attribute_index Minimum = 5"
| "attribute_index Precision = 6"
| "attribute_index Accuracy = 7"
| "attribute_index First_derivative = 8"
| "attribute_index Second_derivative = 9"
| "attribute_index Third_derivative = 10"
| "attribute_index Probability = 11"
| "attribute_index Belief = 12"

definition attribute_bit :: "attribute \<Rightarrow> u32" where
  "attribute_bit a = (if attribute_index a < 13 then push_bit (31 - attribute_index a) 1 else 0)"

definition supported_scalar_attributes :: u32 where
  "supported_scalar_attributes = attribute_bit Current OR attribute_bit Minimum OR attribute_bit Maximum"

definition all_attributes :: u32 where
  "all_attributes = 0xfff80000"

definition base_attribute :: "attribute \<Rightarrow> bool" where
  "base_attribute a \<longleftrightarrow> attribute_index a < 11"

record field_descriptor =
  fd_id :: field_id
  fd_words :: nat
  fd_variant_index :: nat
  fd_attributes :: u32

definition fdesc :: "field_id \<Rightarrow> nat \<Rightarrow> nat \<Rightarrow> field_descriptor" where
  "fdesc i w v = \<lparr>fd_id = i, fd_words = w, fd_variant_index = v, fd_attributes = all_attributes\<rparr>"

definition baseline_descriptors :: "field_descriptor list" where
  "baseline_descriptors = [fdesc ReferencePoint_id 1 0,
     fdesc SampleRate_id 2 1,
     fdesc StateEvent_id 1 0,
     fdesc DataPayloadFormat_id 2 2]"

definition scalar_descriptors :: "field_descriptor list" where
  "scalar_descriptors = [fdesc Bandwidth_id 2 1,
     fdesc IFReferenceFrequency_id 2 1,
     fdesc RFReferenceFrequency_id 2 1,
     fdesc RFReferenceFrequencyOffset_id 2 1,
     fdesc IFBandOffset_id 2 1,
     fdesc ReferenceLevel_id 1 3,
     fdesc Gain_id 1 4,
     fdesc OverRangeCount_id 1 0,
     fdesc TimestampAdjustment_id 2 5,
     fdesc TimestampCalibrationTime_id 1 0,
     fdesc Temperature_id 1 6,
     fdesc DeviceIdentifier_id 2 7,
     fdesc EphemerisReferenceId_id 1 0]"

definition structured_descriptors :: "field_descriptor list" where
  "structured_descriptors = [fdesc FormattedGPS_id 11 8,
     fdesc FormattedINS_id 11 8,
     fdesc ECEFEphemeris_id 13 8,
     fdesc RelativeEphemeris_id 13 8,
     fdesc GPSASCII_id 0 8,
     fdesc ContextAssociationLists_id 0 8]"

definition cif1_fixed_descriptors :: "field_descriptor list" where
  "cif1_fixed_descriptors = [fdesc PhaseOffset_id 1 9,
     fdesc Polarization_id 1 10,
     fdesc PointingVector3D_id 1 11,
     fdesc SpatialScanType_id 1 0,
     fdesc SpatialReferenceType_id 1 12,
     fdesc BeamWidth_id 1 13,
     fdesc Range_id 1 14,
     fdesc EbNoBer_id 1 15,
     fdesc Threshold_id 1 16,
     fdesc CompressionPoint_id 1 3,
     fdesc InterceptPoints_id 1 17,
     fdesc SnrNoiseFigure_id 1 18,
     fdesc AuxiliaryFrequency_id 2 1,
     fdesc AuxiliaryGain_id 1 4,
     fdesc AuxiliaryBandwidth_id 2 1,
     fdesc DiscreteIO32_id 1 0,
     fdesc DiscreteIO64_id 2 19,
     fdesc HealthStatus_id 1 0,
     fdesc V49SpecCompliance_id 1 0,
     fdesc VersionBuild_id 1 20,
     fdesc BufferSize_id 2 21]"

definition cif1_structure_descriptors :: "field_descriptor list" where
  "cif1_structure_descriptors = [fdesc PointingVectorStructure_id 0 8,
     fdesc IndexList_id 0 8,
     fdesc Spectrum_id 13 8,
     fdesc SectorStepScan_id 0 8]"

definition cif2_descriptors :: "field_descriptor list" where
  "cif2_descriptors = [fdesc Bind_id 1 0,
     fdesc CitedSID_id 1 0,
     fdesc SiblingSID_id 1 0,
     fdesc ParentSID_id 1 0,
     fdesc ChildSID_id 1 0,
     fdesc CitedMessageId_id 1 0,
     fdesc ControlleeId_id 1 0,
     fdesc ControlleeUUID_id 4 8,
     fdesc ControllerId_id 1 0,
     fdesc ControllerUUID_id 4 8,
     fdesc InformationSource_id 1 0,
     fdesc TrackId_id 1 0,
     fdesc CountryCode_id 1 22,
     fdesc OperatorId_id 1 0,
     fdesc PlatformClass_id 1 0,
     fdesc PlatformInstance_id 1 0,
     fdesc PlatformDisplay_id 1 0,
     fdesc EmsDeviceClass_id 1 23,
     fdesc EmsDeviceType_id 1 0,
     fdesc EmsDeviceInstance_id 1 0,
     fdesc ModulationClass_id 1 0,
     fdesc ModulationType_id 1 0,
     fdesc FunctionId_id 1 0,
     fdesc ModeId_id 1 0,
     fdesc EventId_id 1 0,
     fdesc FunctionPriority_id 1 0,
     fdesc CommunicationPriority_id 1 0,
     fdesc RFFootprint_id 1 0,
     fdesc RFFootprintRange_id 1 0]"

definition cif3_descriptors :: "field_descriptor list" where
  "cif3_descriptors = [fdesc TimestampDetails_id 2 27,
     fdesc TimestampSkew_id 2 5,
     fdesc RiseTime_id 2 5,
     fdesc FallTime_id 2 5,
     fdesc OffsetTime_id 2 5,
     fdesc PulseWidth_id 2 5,
     fdesc Period_id 2 5,
     fdesc Duration_id 2 5,
     fdesc Dwell_id 2 5,
     fdesc Jitter_id 2 5,
     fdesc Age_id 0 8,
     fdesc ShelfLife_id 0 8,
     fdesc AirTemperature_id 1 6,
     fdesc SeaGroundTemperature_id 1 6,
     fdesc Humidity_id 1 24,
     fdesc BarometricPressure_id 1 25,
     fdesc SeaSwellState_id 1 26,
     fdesc TroposphericState_id 1 0,
     fdesc NetworkId_id 1 0]"

definition descriptor :: "field_id \<Rightarrow> field_descriptor option" where
  "descriptor i = find (\<lambda>d. fd_id d = i) (baseline_descriptors @ scalar_descriptors
     @ structured_descriptors @ cif1_fixed_descriptors @ cif1_structure_descriptors
     @ cif2_descriptors @ cif3_descriptors)"

definition valid_field_selector :: "field_id \<Rightarrow> bool" where
  "valid_field_selector i =
     (if fid_cif i > 3 \<or> fid_bit i > 31 then False
      else if fid_cif i = 0 then fid_bit i \<ge> 8 \<and> fid_bit i \<le> 30
      else True)"

definition field_before :: "field_id \<Rightarrow> field_id \<Rightarrow> bool" where
  "field_before a b \<longleftrightarrow> fid_cif a < fid_cif b \<or> (fid_cif a = fid_cif b \<and> fid_bit a > fid_bit b)"

section \<open>Validation\<close>

definition nonsentinel :: "optional_q7 \<Rightarrow> bool" where
  "nonsentinel v \<longleftrightarrow> v = None \<or> v \<noteq> Some 0x7fff"

text \<open>The checks after the alternative is known to be the field's; in the order of the code.\<close>

definition validate_ranges :: "field_id \<Rightarrow> semantic_value \<Rightarrow> bool \<Rightarrow> unit result" where
  "validate_ranges i v current =
     (if current \<and> (i = SampleRate_id \<or> i = Bandwidth_id \<or> i = AuxiliaryBandwidth_id)
         \<and> sint (q20 (sv_hertz v)) < 0 then Inl (err Invalid_argument)
      else if current \<and> (i = Temperature_id \<or> i = AirTemperature_id \<or> i = SeaGroundTemperature_id)
         \<and> sint (ce_q6 (sv_celsius v)) < - 17481 then Inl (err Invalid_argument)
      else if i = DeviceIdentifier_id \<and> di_oui (sv_device v) > 0xffffff then Inl (err Invalid_argument)
      else if (i = SpatialScanType_id \<or> i = HealthStatus_id \<or> i = TroposphericState_id
          \<or> cif2_generic16_field i) \<and> sv_uint32 v > 0xffff then Inl (err Invalid_argument)
      else if current \<and> i = V49SpecCompliance_id \<and> (sv_uint32 v < 1 \<or> sv_uint32 v > 4)
      then Inl (err Invalid_argument)
      else if current \<and> i = PointingVector3D_id
         \<and> (sint (pa_elevation_q7 (sv_pointing v)) < - 90 * 128
            \<or> sint (pa_elevation_q7 (sv_pointing v)) > 90 * 128) then Inl (err Invalid_argument)
      else if i = SpatialReferenceType_id \<and> (sr_reference (sv_spatial v) > 3 \<or> sr_beam (sv_spatial v) > 2)
      then Inl (err Invalid_argument)
      else if i = EbNoBer_id \<and> (\<not> nonsentinel (eb_ebno_q7 (sv_ebno v)) \<or> \<not> nonsentinel (eb_ber_q7 (sv_ebno v))
         \<or> (current \<and> (case eb_ber_q7 (sv_ebno v) of None \<Rightarrow> False | Some b \<Rightarrow> sint b > 0)))
      then Inl (err Invalid_argument)
      else if i = InterceptPoints_id \<and> (\<not> nonsentinel (ip_second_q7 (sv_intercept v))
         \<or> \<not> nonsentinel (ip_third_q7 (sv_intercept v))) then Inl (err Invalid_argument)
      else if i = SnrNoiseFigure_id \<and> (\<not> nonsentinel (sn_snr_q7 (sv_snr v))
         \<or> (current \<and> (case sn_noise_figure_q7 (sv_snr v) of None \<Rightarrow> False | Some n \<Rightarrow> sint n \<le> 0)))
      then Inl (err Invalid_argument)
      else if i = VersionBuild_id \<and> (vb_year_since2000 (sv_version v) > 127
         \<or> (if current then vb_day (sv_version v) < 1 \<or> vb_day (sv_version v) > 366
            else vb_day (sv_version v) > 511)
         \<or> vb_revision (sv_version v) > 63 \<or> vb_user (sv_version v) > 1023)
      then Inl (err Invalid_argument)
      else if current \<and> i = Bind_id \<and> sv_uint32 v > 1 then Inl (err Invalid_argument)
      else if i = CountryCode_id \<and> cc_code (sv_country v) > 0x7ff then Inl (err Invalid_argument)
      else if i = EmsDeviceClass_id \<and> (em_class_code (sv_ems v) > 0xfff \<or> em_organization (sv_ems v) > 2)
      then Inl (err Invalid_argument)
      else if current \<and> fid_cif i = 3 \<and> (fid_bit i = 27 \<or> fid_bit i = 26 \<or> (fid_bit i \<ge> 20 \<and> fid_bit i \<le> 24))
         \<and> sint (fs_count (sv_femtoseconds v)) < 0 then Inl (err Invalid_argument)
      else if i = BarometricPressure_id \<and> bp_raw17 (sv_pressure v) > 0x1ffff then Inl (err Invalid_argument)
      else if i = SeaSwellState_id \<and> (sw_sea (sv_sea_swell v) > (if current then 9 else 31)
         \<or> sw_swell (sv_sea_swell v) > (if current then 9 else 31) \<or> sw_user (sv_sea_swell v) > 63)
      then Inl (err Invalid_argument)
      else if current \<and> i = TimestampDetails_id
      then validate_timestamp_details_intrinsic (sv_timestamp v)
      else Inr ())"

definition is_native :: "semantic_value \<Rightarrow> bool" where
  "is_native v \<longleftrightarrow> variant_index v = 8"

definition validate_value :: "field_id \<Rightarrow> semantic_value \<Rightarrow> bool \<Rightarrow> unit result" where
  "validate_value i v current =
     (if is_native v then Inl (err Invalid_argument)
      else case descriptor i of None \<Rightarrow> Inl (err Unsupported_layout)
      | Some d \<Rightarrow> if variant_index v \<noteq> fd_variant_index d then Inl (err Invalid_argument)
          else validate_ranges i v current)"

definition validate_attribute_value :: "field_id \<Rightarrow> attribute \<Rightarrow> semantic_value \<Rightarrow> unit result" where
  "validate_attribute_value i a v =
     (if descriptor i = None then Inl (err Unsupported_layout)
      else if attribute_index a \<ge> 13 \<or> is_native v then Inl (err Invalid_argument)
      else if a = Probability
      then (if variant_index v = 28 then Inr () else Inl (err Invalid_argument))
      else if a = Belief
      then (if variant_index v = 29 then Inr () else Inl (err Invalid_argument))
      else validate_value i v (a = Current \<or> (i = SampleRate_id \<and> (a = Minimum \<or> a = Maximum))))"

end
