(* ===== verification/Scalar_Codec.thy ===== *)
theory Scalar_Codec
  imports Field_Values
begin

text \<open>
  The scalar field codec (\<^verbatim>\<open>include/vita/codec/scalar.hpp\<close>) and the check of scalar wire
  images (\<^verbatim>\<open>codec/packet.hpp\<close>, \<open>validate_wire_value\<close>). Writing a validated value and
  reading it back is the identity, and so is reading validated bytes and writing them back:
  on validated data the codec is a bijection, field by field.
\<close>

section \<open>Reading\<close>

definition optional16 :: "u32 \<Rightarrow> u16 \<Rightarrow> optional_q7" where
  "optional16 w sentinel = (if (ucast w :: u16) = sentinel then None else Some (ucast w))"

text \<open>The switch over the descriptor's alternative.\<close>

definition read_variant :: "nat \<Rightarrow> u32 \<Rightarrow> u64 \<Rightarrow> semantic_value result" where
  "read_variant k low bits =
     (if k = 0 then Inr (SV_uint32 low)
         else if k = 1 then Inr (SV_hertz (Hertz bits))
         else if k = 2 then Inr (SV_payload_format (Payload_format bits))
         else if k = 3 then Inr (SV_decibels (Decibels_q7 (ucast low)))
         else if k = 4 then Inr (SV_gain (Gain_stages (ucast low) (ucast (drop_bit 16 low))))
         else if k = 5 then Inr (SV_femtoseconds (Femtoseconds bits))
         else if k = 6 then Inr (SV_celsius (Celsius_q6 (ucast low)))
         else if k = 7 then Inr (SV_device (Device_identifier (low AND 0xffffff) (ucast bits)))
         else if k = 9 then Inr (SV_radians (Radians_q7 (ucast low)))
         else if k = 10 then Inr (SV_polarization (Polarization_angles (ucast (drop_bit 16 low)) (ucast low)))
         else if k = 11 then Inr (SV_pointing (Pointing_angles (ucast low) (ucast (drop_bit 16 low))))
         else if k = 12 then Inr (SV_spatial (Spatial_reference (ucast (drop_bit 16 low))
                (ucast (drop_bit 2 low AND 3)) (ucast (low AND 3))))
         else if k = 13 then Inr (SV_beam_width (Beam_width_code (ucast (drop_bit 16 low)) (ucast low)))
         else if k = 14 then Inr (SV_metres (Metres_q6 low))
         else if k = 15 then Inr (SV_ebno (Ebno_ber (optional16 (drop_bit 16 low) 0x7fff) (optional16 low 0x7fff)))
         else if k = 16 then Inr (SV_threshold (Threshold_value (ucast low) (ucast (drop_bit 16 low))))
         else if k = 17 then Inr (SV_intercept (Intercept_points (optional16 (drop_bit 16 low) 0x7fff) (optional16 low 0x7fff)))
         else if k = 18 then Inr (SV_snr (Snr_noise_figure (optional16 (drop_bit 16 low) 0x7fff) (optional16 low 0)))
         else if k = 19 then Inr (SV_unsigned64 (Unsigned64_bits bits))
         else if k = 20 then Inr (SV_version (Version_build (ucast (drop_bit 25 low))
                (ucast (drop_bit 16 low AND 511)) (ucast (drop_bit 10 low AND 63)) (ucast (low AND 1023))))
         else if k = 21 then Inr (SV_buffer_size (Buffer_size low (ucast (drop_bit 8 bits AND 255)) (ucast (bits AND 255))))
         else if k = 22 then Inr (SV_country (Country_code (ucast (low AND 0x7ff)) (low AND 0x8000 \<noteq> 0)))
         else if k = 23 then Inr (SV_ems (Ems_device_class (ucast (low AND 0xfff))
                (ucast (drop_bit 14 low AND 3)) (low AND 0x2000 \<noteq> 0) (low AND 0x1000 \<noteq> 0)))
         else if k = 24 then Inr (SV_humidity (Humidity_code (ucast low)))
         else if k = 25 then Inr (SV_pressure (Barometric_pressure_code (low AND 0x1ffff)))
         else if k = 26 then Inr (SV_sea_swell (Sea_swell (ucast (low AND 31)) (ucast (drop_bit 5 low AND 31))
                (ucast (drop_bit 10 low AND 63))))
         else if k = 27 then Inr (SV_timestamp (Timestamp_details low (ucast bits)))
         else Inl (err Unsupported_layout))"

definition read_scalar :: "field_descriptor \<Rightarrow> bytes \<Rightarrow> semantic_value result" where
  "read_scalar d bytes =
     (if length bytes \<noteq> fd_words d * 4 then Inl (err Short_input)
      else let low = load32 bytes 0;
               bits = (if fd_words d = 2 then push_bit 32 (ucast low) OR ucast (load32 bytes 4)
                       else ucast low) :: u64
      in read_variant (fd_variant_index d) low bits)"

section \<open>Writing\<close>

definition unoptional16 :: "optional_q7 \<Rightarrow> u16 \<Rightarrow> u16" where
  "unoptional16 v sentinel = (case v of None \<Rightarrow> sentinel | Some x \<Rightarrow> x)"

definition pair16 :: "u16 \<Rightarrow> u16 \<Rightarrow> u32" where
  "pair16 high low = push_bit 16 (ucast high) OR ucast low"

primrec scalar_bits :: "semantic_value \<Rightarrow> u64" where
  "scalar_bits (SV_uint32 x) = ucast x"
| "scalar_bits (SV_hertz x) = q20 x"
| "scalar_bits (SV_payload_format x) = pf_bits x"
| "scalar_bits (SV_decibels x) = ucast (db_q7 x)"
| "scalar_bits (SV_gain x) = ucast (pair16 (gs_stage2_q7 x) (gs_stage1_q7 x))"
| "scalar_bits (SV_femtoseconds x) = fs_count x"
| "scalar_bits (SV_celsius x) = ucast (ce_q6 x)"
| "scalar_bits (SV_device x) = push_bit 32 (ucast (di_oui x)) OR ucast (di_code x)"
| "scalar_bits (SV_native x) = 0"
| "scalar_bits (SV_radians x) = ucast (ra_q7 x)"
| "scalar_bits (SV_polarization x) = ucast (pair16 (po_tilt_q7 x) (po_ellipticity_q7 x))"
| "scalar_bits (SV_pointing x) = ucast (pair16 (pa_elevation_q7 x) (pa_azimuth_q7 x))"
| "scalar_bits (SV_spatial x) = ucast (push_bit 16 (ucast (sr_user_id x) :: u32)
     OR push_bit 2 (ucast (sr_reference x)) OR ucast (sr_beam x))"
| "scalar_bits (SV_beam_width x) = ucast (pair16 (bw_horizontal x) (bw_vertical x))"
| "scalar_bits (SV_metres x) = ucast (me_q6 x)"
| "scalar_bits (SV_ebno x) = ucast (pair16 (unoptional16 (eb_ebno_q7 x) 0x7fff) (unoptional16 (eb_ber_q7 x) 0x7fff))"
| "scalar_bits (SV_threshold x) = ucast (pair16 (th_stage2_q7 x) (th_stage1_q7 x))"
| "scalar_bits (SV_intercept x) = ucast (pair16 (unoptional16 (ip_second_q7 x) 0x7fff) (unoptional16 (ip_third_q7 x) 0x7fff))"
| "scalar_bits (SV_snr x) = ucast (pair16 (unoptional16 (sn_snr_q7 x) 0x7fff) (unoptional16 (sn_noise_figure_q7 x) 0))"
| "scalar_bits (SV_unsigned64 x) = u64_bits x"
| "scalar_bits (SV_version x) = ucast (push_bit 25 (ucast (vb_year_since2000 x) :: u32)
     OR push_bit 16 (ucast (vb_day x)) OR push_bit 10 (ucast (vb_revision x)) OR ucast (vb_user x))"
| "scalar_bits (SV_buffer_size x) = push_bit 32 (ucast (bs_capacity_bytes x))
     OR ucast (push_bit 8 (ucast (bs_level x) :: u32)) OR ucast (bs_status x)"
| "scalar_bits (SV_country x) = ucast ((if cc_iso3166 x then 0x8000 else 0) OR (ucast (cc_code x) :: u32))"
| "scalar_bits (SV_ems x) = ucast (push_bit 14 (ucast (em_organization x) :: u32)
     OR (if em_exciter x then 0x2000 else 0) OR (if em_receiver x then 0x1000 else 0) OR ucast (em_class_code x))"
| "scalar_bits (SV_humidity x) = ucast (hu_raw x)"
| "scalar_bits (SV_pressure x) = ucast (bp_raw17 x)"
| "scalar_bits (SV_sea_swell x) = ucast (push_bit 10 (ucast (sw_user x) :: u32)
     OR push_bit 5 (ucast (sw_swell x)) OR ucast (sw_sea x))"
| "scalar_bits (SV_timestamp x) = push_bit 32 (ucast (td_flags x)) OR ucast (td_epoch x)"
| "scalar_bits (SV_probability x) = ucast (push_bit 8 (ucast (pc_function x) :: u32) OR ucast (pc_value x))"
| "scalar_bits (SV_belief x) = ucast (bc_value x)"

definition write_scalar :: "field_descriptor \<Rightarrow> semantic_value \<Rightarrow> bytes \<Rightarrow> nat \<Rightarrow> bytes" where
  "write_scalar d v output off = (let bits = scalar_bits v in
     if fd_words d = 2
     then store32 (store32 output off (ucast (drop_bit 32 bits))) (off + 4) (ucast bits)
     else store32 output off (ucast bits))"

definition read_attribute_scalar ::
  "field_descriptor \<Rightarrow> attribute \<Rightarrow> bytes \<Rightarrow> semantic_value result" where
  "read_attribute_scalar d a bytes =
     (if a = Probability \<or> a = Belief
      then if length bytes \<noteq> 4 then Inl (err Short_input)
        else let bits = load32 bytes 0 in
          if a = Probability
          then if bits AND 0xffff0000 \<noteq> 0 then Inl (err Invalid_argument)
            else Inr (SV_probability (Probability_code (ucast bits) (ucast (drop_bit 8 bits))))
          else if bits AND 0xffffff00 \<noteq> 0 then Inl (err Invalid_argument)
          else Inr (SV_belief (Belief_code (ucast bits)))
      else read_scalar d bytes)"

definition write_attribute_scalar ::
  "field_descriptor \<Rightarrow> attribute \<Rightarrow> semantic_value \<Rightarrow> bytes \<Rightarrow> nat \<Rightarrow> bytes" where
  "write_attribute_scalar d a v output off =
     (if a = Probability \<or> a = Belief then store32 output off (ucast (scalar_bits v))
      else write_scalar d v output off)"

section \<open>The wire check\<close>

definition validate_wire_value :: "field_id \<Rightarrow> bytes \<Rightarrow> unit result" where
  "validate_wire_value i bytes = (let w = load32 bytes 0; w4 = load32 bytes 4 in
     if (i = AirTemperature_id \<or> i = SeaGroundTemperature_id \<or> i = Humidity_id \<or> i = SeaSwellState_id
         \<or> i = TroposphericState_id) \<and> w AND 0xffff0000 \<noteq> 0 then Inl (err Invalid_argument)
     else if i = BarometricPressure_id \<and> w AND 0xfffe0000 \<noteq> 0 then Inl (err Invalid_argument)
     else if i = TimestampDetails_id \<and> w AND 0x00f80000 \<noteq> 0 then Inl (err Invalid_argument)
     else if cif2_generic16_field i \<and> w AND 0xffff0000 \<noteq> 0 then Inl (err Invalid_argument)
     else if i = Bind_id \<and> w AND 0xfffffffe \<noteq> 0 then Inl (err Invalid_argument)
     else if i = CountryCode_id \<and> w AND 0xffff7800 \<noteq> 0 then Inl (err Invalid_argument)
     else if i = EmsDeviceClass_id \<and> (w AND 0xffff0000 \<noteq> 0 \<or> w AND 0xc000 = 0xc000)
     then Inl (err Invalid_argument)
     else if (i = PhaseOffset_id \<or> i = CompressionPoint_id \<or> i = SpatialScanType_id \<or> i = HealthStatus_id)
       \<and> w AND 0xffff0000 \<noteq> 0 then Inl (err Invalid_argument)
     else if i = SpatialReferenceType_id \<and> (w AND 0x0000fff0 \<noteq> 0 \<or> w AND 3 = 3)
     then Inl (err Invalid_argument)
     else if i = BufferSize_id \<and> w4 AND 0xffff0000 \<noteq> 0 then Inl (err Invalid_argument)
     else if (i = ReferenceLevel_id \<or> i = Temperature_id) \<and> w AND 0xffff0000 \<noteq> 0
     then Inl (err Invalid_argument)
     else if i = DeviceIdentifier_id \<and> (w AND 0xff000000 \<noteq> 0 \<or> w4 AND 0xffff0000 \<noteq> 0)
     then Inl (err Invalid_argument)
     else if i = StateEvent_id \<and> w AND 0x00f00f00 \<noteq> 0 then Inl (err Invalid_argument)
     else if i = DataPayloadFormat_id
     then let code = drop_bit 24 w AND 31; kind = drop_bit 29 w AND 3; fraction = drop_bit 12 w AND 15;
              packing = (drop_bit 6 w AND 63) + 1; bits = (w AND 63) + 1 in
       if kind = 3 \<or> (code \<ge> 8 \<and> code \<le> 12) \<or> code \<ge> 24 \<or> packing < bits
          \<or> ((code \<noteq> 7 \<and> code \<noteq> 23) \<and> fraction \<noteq> 0) \<or> fraction \<ge> bits
          \<or> (code = 13 \<and> bits \<noteq> 16) \<or> (code = 14 \<and> bits \<noteq> 32) \<or> (code = 15 \<and> bits \<noteq> 64)
       then Inl (err Invalid_argument) else Inr ()
     else Inr ())"

section \<open>The registry\<close>

definition words_of_variant :: "nat \<Rightarrow> nat" where
  "words_of_variant k = (if k \<in> {1, 2, 5, 7, 19, 21, 27} then 2 else 1)"

text \<open>Which field an alternative with a restricted range belongs to.\<close>

definition owner_ok :: "field_descriptor \<Rightarrow> bool" where
  "owner_ok d \<longleftrightarrow> (let k = fd_variant_index d; i = fd_id d in
     k \<le> 27 \<and> (k = 8 \<or> fd_words d = words_of_variant k) \<and> ((k = 8) = structured_field i)
     \<and> (k = 3 \<longrightarrow> i \<in> {ReferenceLevel_id, CompressionPoint_id})
     \<and> (k = 6 \<longrightarrow> i \<in> {Temperature_id, AirTemperature_id, SeaGroundTemperature_id})
     \<and> (k = 7 \<longrightarrow> i = DeviceIdentifier_id) \<and> (k = 9 \<longrightarrow> i = PhaseOffset_id)
     \<and> (k = 12 \<longrightarrow> i = SpatialReferenceType_id) \<and> (k = 15 \<longrightarrow> i = EbNoBer_id)
     \<and> (k = 17 \<longrightarrow> i = InterceptPoints_id) \<and> (k = 18 \<longrightarrow> i = SnrNoiseFigure_id)
     \<and> (k = 20 \<longrightarrow> i = VersionBuild_id) \<and> (k = 21 \<longrightarrow> i = BufferSize_id)
     \<and> (k = 22 \<longrightarrow> i = CountryCode_id) \<and> (k = 23 \<longrightarrow> i = EmsDeviceClass_id)
     \<and> (k = 24 \<longrightarrow> i = Humidity_id) \<and> (k = 25 \<longrightarrow> i = BarometricPressure_id)
     \<and> (k = 26 \<longrightarrow> i = SeaSwellState_id) \<and> (k = 27 \<longrightarrow> i = TimestampDetails_id))"

lemmas owner_eval = owner_ok_def fdesc_def words_of_variant_def structured_field_def

lemma baseline_owner: "list_all owner_ok baseline_descriptors"
  by (simp add: baseline_descriptors_def owner_eval field_ids)

lemma scalar_owner: "list_all owner_ok scalar_descriptors"
  by (simp add: scalar_descriptors_def owner_eval field_ids)

lemma structured_owner: "list_all owner_ok structured_descriptors"
  by (simp add: structured_descriptors_def owner_eval field_ids)

lemma cif1_fixed_owner: "list_all owner_ok cif1_fixed_descriptors"
  by (simp add: cif1_fixed_descriptors_def owner_eval field_ids)

lemma cif1_structure_owner: "list_all owner_ok cif1_structure_descriptors"
  by (simp add: cif1_structure_descriptors_def owner_eval field_ids)

lemma cif2_owner: "list_all owner_ok cif2_descriptors"
  by (simp add: cif2_descriptors_def owner_eval field_ids)

lemma cif3_owner: "list_all owner_ok cif3_descriptors"
  by (simp add: cif3_descriptors_def owner_eval field_ids)

lemma descriptor_owner:
  assumes "descriptor i = Some d"
  shows "owner_ok d" "fd_id d = i"
proof -
  show "fd_id d = i" using assms by (auto simp: descriptor_def find_Some_iff)
  have "list_all owner_ok (baseline_descriptors @ scalar_descriptors
     @ structured_descriptors @ cif1_fixed_descriptors @ cif1_structure_descriptors
     @ cif2_descriptors @ cif3_descriptors)"
    by (simp add: baseline_owner scalar_owner structured_owner cif1_fixed_owner cif1_structure_owner
        cif2_owner cif3_owner)
  moreover have "d \<in> set (baseline_descriptors @ scalar_descriptors
     @ structured_descriptors @ cif1_fixed_descriptors @ cif1_structure_descriptors
     @ cif2_descriptors @ cif3_descriptors)"
    using assms nth_mem unfolding descriptor_def find_Some_iff by blast
  ultimately show "owner_ok d" unfolding list_all_iff by blast
qed

section \<open>Words and images\<close>

definition scalar_image :: "field_descriptor \<Rightarrow> semantic_value \<Rightarrow> bytes" where
  "scalar_image d v = (if fd_words d = 2
     then be_of_word (ucast (drop_bit 32 (scalar_bits v))) @ be_of_word (ucast (scalar_bits v))
     else be_of_word (ucast (scalar_bits v)))"

lemma join_split64 [simp]:
  "push_bit 32 (ucast (ucast (drop_bit 32 (b :: u64)) :: u32)) OR ucast (ucast b :: u32) = (b :: u64)"
proof (rule bit_word_eqI)
  fix n assume "n < LENGTH(64)"
  then show "bit (push_bit 32 (ucast (ucast (drop_bit 32 b) :: u32)) OR ucast (ucast b :: u32) :: u64) n = bit b n"
    by (cases "n < 32") (auto simp: bit_simps)
qed

lemma split_join64 [simp]:
  "ucast (push_bit 32 (ucast (a :: u32)) OR ucast (c :: u32) :: u64) = c"
  "ucast (drop_bit 32 (push_bit 32 (ucast (a :: u32)) OR ucast (c :: u32) :: u64)) = a"
  by (rule bit_word_eqI; auto simp: bit_simps)+

lemma ucast_up_down [simp]: "ucast (ucast (w :: u32) :: u64) = w"
  by (rule bit_word_eqI) (auto simp: bit_simps)

lemma load32_single [simp]: "load32 (be_of_word w) 0 = w"
  using load32_append [of w "[]"] by simp

lemma load32_second [simp]: "load32 (be_of_word a @ be_of_word b) 4 = b"
  by (subst load32_drop) simp_all

lemma write_scalar_image:
  assumes "off + fd_words d * 4 \<le> length out" "fd_words d = 1 \<or> fd_words d = 2"
  shows "write_scalar d v out off = write_bytes out off (scalar_image d v)"
    and "length (scalar_image d v) = fd_words d * 4"
proof -
  show "length (scalar_image d v) = fd_words d * 4" using assms(2) by (auto simp: scalar_image_def)
  show "write_scalar d v out off = write_bytes out off (scalar_image d v)"
    using assms write_bytes_append [of off "be_of_word (ucast (drop_bit 32 (scalar_bits v)))"
        "be_of_word (ucast (scalar_bits v))" out]
    by (auto simp: write_scalar_def scalar_image_def store32_def Let_def)
qed

lemma subspan_write: "off + length bs \<le> length out \<Longrightarrow> subspan (write_bytes out off bs) off (length bs) = bs"
  by (simp add: subspan_def write_bytes_def)

section \<open>Ranges\<close>

lemma le_bitD: "(w :: 'a::len word) \<le> v \<Longrightarrow> v < 2 ^ k \<Longrightarrow> bit w n \<Longrightarrow> n < k"
  by (rule word_less_bitD) (rule le_less_trans)

lemmas range_eval = validate_ranges_def field_ids cif2_generic16_field_def not_less

lemma range_device: "validate_ranges DeviceIdentifier_id v c = Inr () \<Longrightarrow> di_oui (sv_device v) \<le> 0xffffff"
  by (simp add: range_eval)

lemma range_spatial: "validate_ranges SpatialReferenceType_id v c = Inr () \<Longrightarrow>
    sr_reference (sv_spatial v) \<le> 3 \<and> sr_beam (sv_spatial v) \<le> 2"
  by (simp add: range_eval)

lemma range_ebno: "validate_ranges EbNoBer_id v c = Inr () \<Longrightarrow>
    nonsentinel (eb_ebno_q7 (sv_ebno v)) \<and> nonsentinel (eb_ber_q7 (sv_ebno v))"
  by (simp add: range_eval)

lemma range_intercept: "validate_ranges InterceptPoints_id v c = Inr () \<Longrightarrow>
    nonsentinel (ip_second_q7 (sv_intercept v)) \<and> nonsentinel (ip_third_q7 (sv_intercept v))"
  by (simp add: range_eval)

lemma range_snr: "validate_ranges SnrNoiseFigure_id v c = Inr () \<Longrightarrow>
    nonsentinel (sn_snr_q7 (sv_snr v)) \<and> (c \<longrightarrow> sn_noise_figure_q7 (sv_snr v) \<noteq> Some 0)"
  by (auto simp: range_eval)

lemma range_version: "validate_ranges VersionBuild_id v c = Inr () \<Longrightarrow>
    vb_year_since2000 (sv_version v) \<le> 127 \<and> vb_day (sv_version v) \<le> 511
    \<and> vb_revision (sv_version v) \<le> 63 \<and> vb_user (sv_version v) \<le> 1023"
  by (auto simp: range_eval split: if_splits intro: order_trans)

lemma range_country: "validate_ranges CountryCode_id v c = Inr () \<Longrightarrow> cc_code (sv_country v) \<le> 0x7ff"
  by (simp add: range_eval)

lemma range_ems: "validate_ranges EmsDeviceClass_id v c = Inr () \<Longrightarrow>
    em_class_code (sv_ems v) \<le> 0xfff \<and> em_organization (sv_ems v) \<le> 2"
  by (simp add: range_eval)

lemma range_pressure: "validate_ranges BarometricPressure_id v c = Inr () \<Longrightarrow> bp_raw17 (sv_pressure v) \<le> 0x1ffff"
  by (simp add: range_eval)

lemma range_sea: "validate_ranges SeaSwellState_id v c = Inr () \<Longrightarrow>
    sw_sea (sv_sea_swell v) \<le> 31 \<and> sw_swell (sv_sea_swell v) \<le> 31 \<and> sw_user (sv_sea_swell v) \<le> 63"
  by (auto simp: range_eval split: if_splits intro: order_trans)

section \<open>Bit fields\<close>

lemma pair16_fields [simp]:
  "ucast (pair16 a b) = b" "ucast (drop_bit 16 (pair16 a b)) = a"
  by (rule bit_word_eqI; auto simp: pair16_def bit_simps)+

lemma pair16_join [simp]: "pair16 (ucast (drop_bit 16 w)) (ucast w) = w"
proof (rule bit_word_eqI)
  fix n assume "n < LENGTH(32)"
  then show "bit (pair16 (ucast (drop_bit 16 w)) (ucast w)) n = bit w n"
    by (cases "n < 16") (auto simp: pair16_def bit_simps)
qed

lemma ucast16_up_down [simp]: "ucast (ucast (h :: u16) :: u64) = (ucast h :: u32)"
  "ucast (ucast h :: u32) = h"
  by (rule bit_word_eqI; auto simp: bit_simps)+

lemma optional16_pair:
  "nonsentinel v \<Longrightarrow> optional16 (pair16 a (unoptional16 v 0x7fff)) 0x7fff = v"
  "nonsentinel v \<Longrightarrow> optional16 (drop_bit 16 (pair16 (unoptional16 v 0x7fff) b)) 0x7fff = v"
  "v \<noteq> Some 0 \<Longrightarrow> optional16 (pair16 a (unoptional16 v 0)) 0 = v"
  by (auto simp: optional16_def unoptional16_def nonsentinel_def split: option.splits)

lemma mask_bits:
  "(3 :: u32) = mask 2" "(31 :: u32) = mask 5" "(63 :: u32) = mask 6" "(511 :: u32) = mask 9"
  "(1023 :: u32) = mask 10" "(0x7ff :: u32) = mask 11" "(0xfff :: u32) = mask 12"
  "(0x1ffff :: u32) = mask 17" "(0xffffff :: u32) = mask 24" "(255 :: u64) = mask 8"
  by (simp_all add: mask_eq_exp_minus_1)

section \<open>Writing and reading back\<close>

lemma device_fields:
  assumes "oui \<le> (0xffffff :: u32)"
  shows "ucast (drop_bit 32 (push_bit 32 (ucast oui) OR ucast (code :: u16) :: u64)) AND (0xffffff :: u32) = oui"
    and "(ucast (push_bit 32 (ucast oui) OR ucast code :: u64) :: u16) = code"
proof -
  have "bit oui n \<Longrightarrow> n < 24" for n using le_bitD [OF assms, of 24] by simp
  then show "ucast (drop_bit 32 (push_bit 32 (ucast oui) OR ucast code :: u64)) AND (0xffffff :: u32) = oui"
    by (intro bit_word_eqI) (auto simp: bit_simps mask_bits)
  show "(ucast (push_bit 32 (ucast oui) OR ucast code :: u64) :: u16) = code"
    by (intro bit_word_eqI) (auto simp: bit_simps)
qed

lemma spatial_fields:
  fixes user :: u16
  assumes "ref \<le> (3 :: u8)" "beam \<le> (2 :: u8)"
  defines "w \<equiv> push_bit 16 (ucast user :: u32) OR push_bit 2 (ucast ref) OR ucast beam"
  shows "(ucast (drop_bit 16 w) :: u16) = user" "ucast (drop_bit 2 w AND 3) = ref" "ucast (w AND 3) = beam"
proof -
  have r: "bit ref n \<Longrightarrow> n < 2" and b: "bit beam n \<Longrightarrow> n < 2" for n
    using le_bitD [OF assms(1), of 2 n] le_bitD [OF assms(2), of 2 n] by simp_all
  show "(ucast (drop_bit 16 w) :: u16) = user" "ucast (drop_bit 2 w AND 3) = ref" "ucast (w AND 3) = beam"
    unfolding w_def by (rule bit_word_eqI; auto simp: bit_simps mask_bits dest: r b)+
qed

lemma version_fields:
  assumes "y \<le> (127 :: u8)" "day \<le> (511 :: u16)" "rv \<le> (63 :: u8)" "us \<le> (1023 :: u16)"
  defines "w \<equiv> push_bit 25 (ucast y :: u32) OR push_bit 16 (ucast day) OR push_bit 10 (ucast rv) OR ucast us"
  shows "ucast (drop_bit 25 w) = y" "ucast (drop_bit 16 w AND 511) = day"
    "ucast (drop_bit 10 w AND 63) = rv" "ucast (w AND 1023) = us"
proof -
  have b: "bit y n \<Longrightarrow> n < 7" "bit day n \<Longrightarrow> n < 9" "bit rv n \<Longrightarrow> n < 6" "bit us n \<Longrightarrow> n < 10" for n
    using le_bitD [OF assms(1), of 7 n] le_bitD [OF assms(2), of 9 n] le_bitD [OF assms(3), of 6 n]
      le_bitD [OF assms(4), of 10 n] by simp_all
  show "ucast (drop_bit 25 w) = y" "ucast (drop_bit 16 w AND 511) = day"
    "ucast (drop_bit 10 w AND 63) = rv" "ucast (w AND 1023) = us"
    unfolding w_def by (rule bit_word_eqI; auto simp: bit_simps mask_bits dest: b)+
qed

lemma buffer_fields:
  fixes cap :: u32 and lv st :: u8
  defines "b \<equiv> push_bit 32 (ucast cap) OR ucast (push_bit 8 (ucast lv :: u32)) OR ucast st :: u64"
  shows "ucast (drop_bit 32 b) = cap" "ucast (drop_bit 8 b AND 255) = lv" "ucast (b AND 255) = st"
  unfolding b_def by (rule bit_word_eqI; auto simp: bit_simps mask_bits)+

lemma and_flag: "w AND (0x8000 :: u32) \<noteq> 0 \<longleftrightarrow> bit w 15" "w AND (0x2000 :: u32) \<noteq> 0 \<longleftrightarrow> bit w 13"
  "w AND (0x1000 :: u32) \<noteq> 0 \<longleftrightarrow> bit w 12"
  using test_bit32_iff [of w 15] test_bit32_iff [of w 13] test_bit32_iff [of w 12]
  unfolding test_bit32_def by simp_all

lemma flag_bits:
  "bit (if c then 0x8000 else 0 :: u32) n \<longleftrightarrow> c \<and> n = 15"
  "bit (if c then 0x2000 else 0 :: u32) n \<longleftrightarrow> c \<and> n = 13"
  "bit (if c then 0x1000 else 0 :: u32) n \<longleftrightarrow> c \<and> n = 12"
proof -
  have e: "(0x8000 :: u32) = push_bit 15 1" "(0x2000 :: u32) = push_bit 13 1"
    "(0x1000 :: u32) = push_bit 12 1" by simp_all
  show "bit (if c then 0x8000 else 0 :: u32) n \<longleftrightarrow> c \<and> n = 15"
    "bit (if c then 0x2000 else 0 :: u32) n \<longleftrightarrow> c \<and> n = 13"
    "bit (if c then 0x1000 else 0 :: u32) n \<longleftrightarrow> c \<and> n = 12"
    unfolding e by (rule bit_flag32; simp)+
qed

lemma country_fields:
  fixes iso :: bool
  assumes "code \<le> (0x7ff :: u16)"
  defines "w \<equiv> (if iso then 0x8000 else 0) OR (ucast code :: u32)"
  shows "ucast (w AND 0x7ff) = code" "bit w 15 = iso"
proof -
  have b: "bit code n \<Longrightarrow> n < 11" for n using le_bitD [OF assms(1), of 11 n] by simp
  have w: "bit w n \<longleftrightarrow> iso \<and> n = 15 \<or> bit code n" for n
    unfolding w_def bit_or_iff flag_bits bit_ucast_iff by (auto dest: b)
  show "ucast (w AND 0x7ff) = code"
    by (rule bit_word_eqI) (auto simp: bit_simps mask_bits w dest: b)
  show "bit w 15 = iso" by (auto simp: w dest: b)
qed

lemma ems_fields:
  fixes ex rc :: bool
  assumes "code \<le> (0xfff :: u16)" "org \<le> (2 :: u8)"
  defines "w \<equiv> push_bit 14 (ucast org :: u32) OR (if ex then 0x2000 else 0) OR (if rc then 0x1000 else 0)
    OR ucast code"
  shows "ucast (w AND 0xfff) = code" "ucast (drop_bit 14 w AND 3) = org" "bit w 13 = ex" "bit w 12 = rc"
proof -
  have b: "bit code n \<Longrightarrow> n < 12" "bit org n \<Longrightarrow> n < 2" for n
    using le_bitD [OF assms(1), of 12 n] le_bitD [OF assms(2), of 2 n] by simp_all
  have w: "bit w n \<longleftrightarrow> (14 \<le> n \<and> bit org (n - 14)) \<or> ex \<and> n = 13 \<or> rc \<and> n = 12 \<or> bit code n" for n
    unfolding w_def bit_or_iff flag_bits bit_ucast_iff bit_push_bit_iff by (auto dest: b)
  show "ucast (w AND 0xfff) = code" "ucast (drop_bit 14 w AND 3) = org"
    by (rule bit_word_eqI; auto simp: bit_simps mask_bits w dest: b)+
  show "bit w 13 = ex" "bit w 12 = rc" by (auto simp: w dest: b)
qed

lemma pressure_field:
  assumes "raw \<le> (0x1ffff :: u32)"
  shows "raw AND 0x1ffff = raw"
proof -
  have b: "bit raw n \<Longrightarrow> n < 17" for n using le_bitD [OF assms, of 17 n] by simp
  show ?thesis by (rule bit_word_eqI) (auto simp: bit_simps mask_bits dest: b)
qed

lemma sea_fields:
  assumes "sea \<le> (31 :: u8)" "sw \<le> (31 :: u8)" "us \<le> (63 :: u8)"
  defines "w \<equiv> push_bit 10 (ucast us :: u32) OR push_bit 5 (ucast sw) OR ucast sea"
  shows "ucast (w AND 31) = sea" "ucast (drop_bit 5 w AND 31) = sw" "ucast (drop_bit 10 w AND 63) = us"
proof -
  have b: "bit sea n \<Longrightarrow> n < 5" "bit sw n \<Longrightarrow> n < 5" "bit us n \<Longrightarrow> n < 6" for n
    using le_bitD [OF assms(1), of 5 n] le_bitD [OF assms(2), of 5 n] le_bitD [OF assms(3), of 6 n]
    by simp_all
  show "ucast (w AND 31) = sea" "ucast (drop_bit 5 w AND 31) = sw" "ucast (drop_bit 10 w AND 63) = us"
    unfolding w_def by (rule bit_word_eqI; auto simp: bit_simps mask_bits dest: b)+
qed

lemma read_scalar_words:
  "fd_words d = 2 \<Longrightarrow> read_scalar d (scalar_image d v)
     = read_variant (fd_variant_index d) (ucast (drop_bit 32 (scalar_bits v))) (scalar_bits v)"
  "fd_words d = 1 \<Longrightarrow> read_scalar d (scalar_image d v)
     = read_variant (fd_variant_index d) (ucast (scalar_bits v)) (ucast (ucast (scalar_bits v) :: u32))"
  unfolding read_scalar_def scalar_image_def Let_def by (simp_all only: join_split64) simp_all

lemma descriptor_words:
  assumes "descriptor i = Some d" "fd_variant_index d \<noteq> 8"
  shows "fd_words d = words_of_variant (fd_variant_index d)" "fd_words d = 1 \<or> fd_words d = 2"
proof -
  show w: "fd_words d = words_of_variant (fd_variant_index d)"
    using descriptor_owner(1) [OF assms(1)] assms(2) by (simp add: owner_ok_def Let_def)
  show "fd_words d = 1 \<or> fd_words d = 2" unfolding w words_of_variant_def by simp
qed

text \<open>
  The wire has no code for a known noise figure of zero, which is the code of an absent one
  (\<^verbatim>\<open>cif1.hpp\<close>, \<open>OptionalQ7\<close>). The range check refuses that value for the current attribute
  only, so \<open>wire_value\<close> says what a reader sees: that one value becomes absent, every other
  value is itself.
\<close>

definition wire_value :: "semantic_value \<Rightarrow> semantic_value" where
  "wire_value v = (case v of
      SV_snr x \<Rightarrow> if sn_noise_figure_q7 x = Some 0 then SV_snr (Snr_noise_figure (sn_snr_q7 x) None) else v
    | _ \<Rightarrow> v)"

lemma wire_value_other: "\<forall>x. v \<noteq> SV_snr x \<Longrightarrow> wire_value v = v"
  by (cases v) (simp_all add: wire_value_def)

lemma absent_code: "optional16 (pair16 a (unoptional16 (Some 0) 0)) 0 = None"
  by (simp add: optional16_def unoptional16_def)

lemma wire_value_snr:
  "wire_value (SV_snr (Snr_noise_figure a b)) = SV_snr (Snr_noise_figure a (if b = Some 0 then None else b))"
  by (simp add: wire_value_def)

lemma wire_value_current:
  assumes "descriptor i = Some d" "variant_index v = fd_variant_index d" "validate_ranges i v True = Inr ()"
  shows "wire_value v = v"
proof (cases "\<exists>x. v = SV_snr x")
  case True
  then obtain x where x: "v = SV_snr x" by blast
  note o = descriptor_owner [OF assms(1)]
  have "i = SnrNoiseFigure_id" using o(1) [unfolded owner_ok_def Let_def o(2) assms(2) [symmetric]] x by simp
  then show ?thesis using range_snr [of v True] assms(3) x by (cases x) (simp add: wire_value_snr)
qed (simp add: wire_value_other)

lemma read_scalar_image:
  assumes "descriptor i = Some d" "variant_index v = fd_variant_index d" "\<not> is_native v"
    and "validate_ranges i v c = Inr ()"
  shows "read_scalar d (scalar_image d v) = Inr (wire_value v)"
proof -
  note o = descriptor_owner [OF assms(1)]
  have k: "fd_variant_index d \<noteq> 8" using assms(2,3) by (simp add: is_native_def)
  have w: "fd_words d = words_of_variant (variant_index v)"
    using descriptor_words(1) [OF assms(1) k] assms(2) by simp
  note owner = o(1) [unfolded owner_ok_def Let_def o(2) assms(2) [symmetric]]
  note img = read_scalar_words w words_of_variant_def assms(2) [symmetric] read_variant_def
  show ?thesis
  proof (cases v)
    case (SV_device x)
    then have "i = DeviceIdentifier_id" using owner by simp
    then show ?thesis using SV_device assms(4) range_device [of v] device_fields
      by (cases x) (simp add: img wire_value_other)
  next
    case (SV_spatial x)
    then have "i = SpatialReferenceType_id" using owner by simp
    then show ?thesis using SV_spatial assms(4) range_spatial [of v] spatial_fields
      by (cases x) (simp add: img wire_value_other)
  next
    case (SV_ebno x)
    then have "i = EbNoBer_id" using owner by simp
    then show ?thesis using SV_ebno assms(4) range_ebno [of v] optional16_pair
      by (cases x) (simp add: img wire_value_other)
  next
    case (SV_intercept x)
    then have "i = InterceptPoints_id" using owner by simp
    then show ?thesis using SV_intercept assms(4) range_intercept [of v] optional16_pair
      by (cases x) (simp add: img wire_value_other)
  next
    case (SV_snr x)
    then have "i = SnrNoiseFigure_id" using owner by simp
    then show ?thesis using SV_snr assms(4) range_snr [of v c] optional16_pair
      by (cases x) (auto simp: img wire_value_snr absent_code)
  next
    case (SV_version x)
    then have "i = VersionBuild_id" using owner by simp
    then show ?thesis using SV_version assms(4) range_version [of v] version_fields
      by (cases x) (simp add: img wire_value_other)
  next
    case (SV_country x)
    then have "i = CountryCode_id" using owner by simp
    then show ?thesis using SV_country assms(4) range_country [of v] country_fields
      by (cases x) (simp add: img wire_value_other and_flag)
  next
    case (SV_ems x)
    then have "i = EmsDeviceClass_id" using owner by simp
    then show ?thesis using SV_ems assms(4) range_ems [of v] ems_fields
      by (cases x) (simp add: img wire_value_other and_flag)
  next
    case (SV_pressure x)
    then have "i = BarometricPressure_id" using owner by simp
    then show ?thesis using SV_pressure assms(4) range_pressure [of v] pressure_field
      by (cases x) (simp add: img wire_value_other)
  next
    case (SV_sea_swell x)
    then have "i = SeaSwellState_id" using owner by simp
    then show ?thesis using SV_sea_swell assms(4) range_sea [of v] sea_fields
      by (cases x) (simp add: img wire_value_other)
  next
    case (SV_buffer_size x)
    then show ?thesis using buffer_fields by (cases x) (simp add: img wire_value_other)
  next
    case (SV_timestamp x)
    then show ?thesis using split_join64 by (cases x) (simp add: img wire_value_other)
  next
    case (SV_native x)
    then show ?thesis using assms(3) by (simp add: is_native_def)
  next
    case (SV_probability x)
    then show ?thesis using owner by simp
  next
    case (SV_belief x)
    then show ?thesis using owner by simp
  qed (cases; auto simp: img wire_value_other; fail)+
qed

text \<open>C11: Every scalar value the registry accepts for an attribute is written so that it can be
  read: at any place of a large enough buffer the bytes written read back as the value itself,
  for the current attribute without exception, and for the other attributes with the one
  exception of a known noise figure of zero, which those attributes admit and which reads back
  as absent.\<close>

theorem scalar_write_read:
  assumes "validate_value i v current = Inr ()" "descriptor i = Some d"
    and "off + fd_words d * 4 \<le> length out"
  shows "read_scalar d (subspan (write_scalar d v out off) off (fd_words d * 4)) = Inr (wire_value v)
    \<and> (wire_value v \<noteq> v \<longrightarrow> \<not> current
         \<and> (\<exists>snr. v = SV_snr (Snr_noise_figure snr (Some 0)) \<and> wire_value v = SV_snr (Snr_noise_figure snr None)))"
proof -
  have c: "variant_index v = fd_variant_index d" "\<not> is_native v" "validate_ranges i v current = Inr ()"
    using assms(1,2) by (simp_all add: validate_value_def split: if_splits)
  have "fd_variant_index d \<noteq> 8" using c(1,2) by (simp add: is_native_def)
  note w = write_scalar_image [OF assms(3) descriptor_words(2) [OF assms(2) this], of v]
  have "off + length (scalar_image d v) \<le> length out" using w(2) assms(3) by simp
  then have img: "subspan (write_scalar d v out off) off (fd_words d * 4) = scalar_image d v"
    using subspan_write [of off "scalar_image d v" out] w by simp
  show ?thesis
  proof (intro conjI impI)
    show "read_scalar d (subspan (write_scalar d v out off) off (fd_words d * 4)) = Inr (wire_value v)"
      unfolding img by (rule read_scalar_image [OF assms(2) c])
  next
    assume "wire_value v \<noteq> v"
    then show "\<not> current" using wire_value_current [OF assms(2) c(1)] c(3) by (cases current) simp_all
  next
    assume w: "wire_value v \<noteq> v"
    then obtain x where x: "v = SV_snr x" using wire_value_other by blast
    with w show "\<exists>snr. v = SV_snr (Snr_noise_figure snr (Some 0)) \<and> wire_value v = SV_snr (Snr_noise_figure snr None)"
      by (cases x) (simp add: wire_value_snr split: if_splits)
  qed
qed

section \<open>Reading and writing back\<close>

lemma clear_bits:
  fixes w :: u32
  shows "w AND 0xffff0000 = 0 \<Longrightarrow> bit w n \<Longrightarrow> n < 16"
    and "w AND 0xfffe0000 = 0 \<Longrightarrow> bit w n \<Longrightarrow> n < 17"
    and "w AND 0xff000000 = 0 \<Longrightarrow> bit w n \<Longrightarrow> n < 24"
    and "w AND 0xffff7800 = 0 \<Longrightarrow> bit w n \<Longrightarrow> n < 11 \<or> n = 15"
    and "w AND 0x0000fff0 = 0 \<Longrightarrow> bit w n \<Longrightarrow> n < 4 \<or> 16 \<le> n"
proof -
  have z: "w AND m = 0 \<Longrightarrow> bit w n \<Longrightarrow> \<not> bit m n" for m :: u32 and n
    by (metis bit_and_iff bit_0_eq bot_apply bot_bool_def)
  have m: "(0xffff0000 :: u32) = NOT (mask 16)" "(0xfffe0000 :: u32) = NOT (mask 17)"
    "(0xff000000 :: u32) = NOT (mask 24)" "(0x0000fff0 :: u32) = push_bit 4 (mask 12)"
    "(0xffff7800 :: u32) = push_bit 16 (mask 16) OR push_bit 11 (mask 4)"
    by (simp_all add: mask_eq_exp_minus_1)
  have p: "bit (push_bit 4 (mask 12) :: u32) n \<longleftrightarrow> 4 \<le> n \<and> n < 16"
    "bit (push_bit 16 (mask 16) OR push_bit 11 (mask 4) :: u32) n \<longleftrightarrow> 16 \<le> n \<and> n < 32 \<or> 11 \<le> n \<and> n < 15"
    unfolding bit_or_iff bit_push_bit_iff bit_mask_iff by auto
  show "w AND 0xffff0000 = 0 \<Longrightarrow> bit w n \<Longrightarrow> n < 16" "w AND 0xfffe0000 = 0 \<Longrightarrow> bit w n \<Longrightarrow> n < 17"
    "w AND 0xff000000 = 0 \<Longrightarrow> bit w n \<Longrightarrow> n < 24"
    unfolding m by (drule z; simp add: bit_simps; force dest: bit_bounds)+
  show "w AND 0xffff7800 = 0 \<Longrightarrow> bit w n \<Longrightarrow> n < 11 \<or> n = 15"
    "w AND 0x0000fff0 = 0 \<Longrightarrow> bit w n \<Longrightarrow> n < 4 \<or> 16 \<le> n"
    unfolding m using z [of "push_bit 16 (mask 16) OR push_bit 11 (mask 4)" n]
      z [of "push_bit 4 (mask 12)" n] p bit_bounds(3) [of w n] by fastforce+
qed

lemma bytes_are_words:
  "length bs = 4 \<Longrightarrow> bs = be_of_word (load32 bs 0)"
  "length bs = 8 \<Longrightarrow> bs = be_of_word (load32 bs 0) @ be_of_word (load32 bs 4)"
proof -
  show one: "bs = be_of_word (load32 bs 0)" if "length bs = 4" for bs
    using be_of_load32 [of bs] that by simp
  show "bs = be_of_word (load32 bs 0) @ be_of_word (load32 bs 4)" if "length bs = 8"
    using be_of_load32 [of bs] one [of "drop 4 bs"] load32_drop [of 4 bs] that by simp
qed

text \<open>What the wire check leaves of the bits of the first and second word.\<close>

definition wire_bits_ok :: "nat \<Rightarrow> u32 \<Rightarrow> u32 \<Rightarrow> bool" where
  "wire_bits_ok k w w4 \<longleftrightarrow>
     (k \<in> {3, 6, 9, 23, 24, 26} \<longrightarrow> w AND 0xffff0000 = 0)
     \<and> (k = 7 \<longrightarrow> w AND 0xff000000 = 0 \<and> w4 AND 0xffff0000 = 0) \<and> (k = 12 \<longrightarrow> w AND 0x0000fff0 = 0)
     \<and> (k = 21 \<longrightarrow> w4 AND 0xffff0000 = 0) \<and> (k = 22 \<longrightarrow> w AND 0xffff7800 = 0)
     \<and> (k = 25 \<longrightarrow> w AND 0xfffe0000 = 0)"

lemmas wire_eval_ids = validate_wire_value_def Let_def field_ids cif2_generic16_field_def

lemma wire_value_masks:
  assumes "validate_wire_value i bs = Inr ()"
  shows "i \<in> {ReferenceLevel_id, CompressionPoint_id, Temperature_id, AirTemperature_id,
      SeaGroundTemperature_id, PhaseOffset_id, EmsDeviceClass_id, Humidity_id, SeaSwellState_id}
      \<Longrightarrow> load32 bs 0 AND 0xffff0000 = 0"
    and "i = DeviceIdentifier_id \<Longrightarrow> load32 bs 0 AND 0xff000000 = 0 \<and> load32 bs 4 AND 0xffff0000 = 0"
    and "i = SpatialReferenceType_id \<Longrightarrow> load32 bs 0 AND 0x0000fff0 = 0"
    and "i = BufferSize_id \<Longrightarrow> load32 bs 4 AND 0xffff0000 = 0"
    and "i = CountryCode_id \<Longrightarrow> load32 bs 0 AND 0xffff7800 = 0"
    and "i = BarometricPressure_id \<Longrightarrow> load32 bs 0 AND 0xfffe0000 = 0"
  using assms by (auto simp: wire_eval_ids split: if_splits)

lemma owner_ids:
  assumes "owner_ok d"
  shows "fd_variant_index d \<in> {3, 6, 9, 23, 24, 26} \<Longrightarrow> fd_id d \<in> {ReferenceLevel_id,
      CompressionPoint_id, Temperature_id, AirTemperature_id, SeaGroundTemperature_id, PhaseOffset_id,
      EmsDeviceClass_id, Humidity_id, SeaSwellState_id}"
    and "fd_variant_index d = 7 \<Longrightarrow> fd_id d = DeviceIdentifier_id"
    and "fd_variant_index d = 12 \<Longrightarrow> fd_id d = SpatialReferenceType_id"
    and "fd_variant_index d = 21 \<Longrightarrow> fd_id d = BufferSize_id"
    and "fd_variant_index d = 22 \<Longrightarrow> fd_id d = CountryCode_id"
    and "fd_variant_index d = 25 \<Longrightarrow> fd_id d = BarometricPressure_id"
proof -
  show "fd_id d \<in> {ReferenceLevel_id, CompressionPoint_id, Temperature_id, AirTemperature_id,
      SeaGroundTemperature_id, PhaseOffset_id, EmsDeviceClass_id, Humidity_id, SeaSwellState_id}"
    if k: "fd_variant_index d \<in> {3, 6, 9, 23, 24, 26}"
  proof -
    consider "fd_variant_index d = 3" | "fd_variant_index d = 6" | "fd_variant_index d = 9"
      | "fd_variant_index d = 23" | "fd_variant_index d = 24" | "fd_variant_index d = 26"
      using k by blast
    then show ?thesis using assms unfolding owner_ok_def Let_def by cases (simp; elim conjE disjE; simp)+
  qed
  show "fd_variant_index d = 7 \<Longrightarrow> fd_id d = DeviceIdentifier_id"
    "fd_variant_index d = 12 \<Longrightarrow> fd_id d = SpatialReferenceType_id"
    "fd_variant_index d = 21 \<Longrightarrow> fd_id d = BufferSize_id"
    "fd_variant_index d = 22 \<Longrightarrow> fd_id d = CountryCode_id"
    "fd_variant_index d = 25 \<Longrightarrow> fd_id d = BarometricPressure_id"
    using assms by (simp_all add: owner_ok_def Let_def)
qed

lemma wire_bits:
  assumes "descriptor i = Some d" "validate_wire_value i bs = Inr ()"
  shows "wire_bits_ok (fd_variant_index d) (load32 bs 0) (load32 bs 4)"
proof -
  note o = owner_ids [OF descriptor_owner(1) [OF assms(1)], unfolded descriptor_owner(2) [OF assms(1)]]
  show ?thesis unfolding wire_bits_ok_def
    by (intro conjI impI) (rule wire_value_masks [OF assms(2)]; erule o
        | rule wire_value_masks(2) [OF assms(2), THEN conjunct1]; erule o
        | rule wire_value_masks(2) [OF assms(2), THEN conjunct2]; erule o)+
qed

lemma unoptional16_join:
  "pair16 (unoptional16 (optional16 (drop_bit 16 w) s) s) (unoptional16 (optional16 w t) t) = w"
proof -
  have "unoptional16 (optional16 x s) s = ucast x" for x s
    by (simp add: unoptional16_def optional16_def)
  then show ?thesis by simp
qed

lemma join_low16:
  fixes w :: u32
  assumes "w AND 0xffff0000 = 0"
  shows "ucast (ucast w :: u16) = w" "ucast (ucast w :: u16) = (ucast w :: u64)"
  by (rule bit_word_eqI; auto simp: bit_simps dest: clear_bits(1) [OF assms])+

lemma join_device:
  fixes w w4 :: u32
  assumes "w AND 0xff000000 = 0" "w4 AND 0xffff0000 = 0"
  shows "push_bit 32 (ucast (w AND 0xffffff)) OR ucast (ucast (push_bit 32 (ucast w) OR ucast w4 :: u64) :: u16)
    = (push_bit 32 (ucast w) OR ucast w4 :: u64)"
  by (rule bit_word_eqI)
     (auto simp: bit_simps mask_bits dest: clear_bits(3) [OF assms(1)] clear_bits(1) [OF assms(2)])

lemma join_spatial:
  fixes w :: u32
  assumes "w AND 0x0000fff0 = 0"
  shows "push_bit 16 (ucast (ucast (drop_bit 16 w) :: u16)) OR push_bit 2 (ucast (ucast (drop_bit 2 w AND 3) :: u8))
    OR ucast (ucast (w AND 3) :: u8) = w"
proof (rule bit_word_eqI)
  fix n assume "n < LENGTH(32)"
  then consider "n < 2" | "n = 2" | "n = 3" | "4 \<le> n" "n < 16" | "16 \<le> n" "n < 32" by fastforce
  then show "bit (push_bit 16 (ucast (ucast (drop_bit 16 w) :: u16))
      OR push_bit 2 (ucast (ucast (drop_bit 2 w AND 3) :: u8)) OR ucast (ucast (w AND 3) :: u8) :: u32) n = bit w n"
    by cases (auto simp: bit_simps mask_bits dest: clear_bits(5) [OF assms])
qed

lemma join_version:
  fixes w :: u32
  shows "push_bit 25 (ucast (ucast (drop_bit 25 w) :: u8)) OR push_bit 16 (ucast (ucast (drop_bit 16 w AND 511) :: u16))
    OR push_bit 10 (ucast (ucast (drop_bit 10 w AND 63) :: u8)) OR ucast (ucast (w AND 1023) :: u16) = w"
proof (rule bit_word_eqI)
  fix n assume "n < LENGTH(32)"
  then consider "n < 10" | "10 \<le> n" "n < 16" | "16 \<le> n" "n < 25" | "25 \<le> n" "n < 32" by fastforce
  then show "bit (push_bit 25 (ucast (ucast (drop_bit 25 w) :: u8)) OR push_bit 16 (ucast (ucast (drop_bit 16 w AND 511) :: u16))
    OR push_bit 10 (ucast (ucast (drop_bit 10 w AND 63) :: u8)) OR ucast (ucast (w AND 1023) :: u16) :: u32) n = bit w n"
    by cases (auto simp: bit_simps mask_bits)
qed

lemma join_buffer:
  fixes w w4 :: u32
  assumes "w4 AND 0xffff0000 = 0"
  defines "b \<equiv> push_bit 32 (ucast w) OR ucast w4 :: u64"
  shows "push_bit 32 (ucast w) OR ucast (push_bit 8 (ucast (ucast (drop_bit 8 b AND 255) :: u8) :: u32))
    OR ucast (ucast (b AND 255) :: u8) = b"
proof (rule bit_word_eqI)
  fix n assume "n < LENGTH(64)"
  then consider "n < 8" | "8 \<le> n" "n < 16" | "16 \<le> n" "n < 32" | "32 \<le> n" "n < 64" by fastforce
  then show "bit (push_bit 32 (ucast w) OR ucast (push_bit 8 (ucast (ucast (drop_bit 8 b AND 255) :: u8) :: u32))
    OR ucast (ucast (b AND 255) :: u8) :: u64) n = bit b n"
    unfolding b_def by cases (auto simp: bit_simps mask_bits dest: clear_bits(1) [OF assms(1)])
qed

lemma join_country:
  fixes w :: u32
  assumes "w AND 0xffff7800 = 0"
  shows "(if bit w 15 then 0x8000 else 0) OR ucast (ucast (w AND 0x7ff) :: u16) = w"
proof (rule bit_word_eqI)
  fix n assume "n < LENGTH(32)"
  show "bit ((if bit w 15 then 0x8000 else 0) OR ucast (ucast (w AND 0x7ff) :: u16) :: u32) n = bit w n"
    unfolding bit_or_iff flag_bits
    by (auto simp: bit_simps mask_bits dest: clear_bits(4) [OF assms])
qed

lemma join_ems:
  fixes w :: u32
  assumes "w AND 0xffff0000 = 0"
  shows "push_bit 14 (ucast (ucast (drop_bit 14 w AND 3) :: u8)) OR (if bit w 13 then 0x2000 else 0)
    OR (if bit w 12 then 0x1000 else 0) OR ucast (ucast (w AND 0xfff) :: u16) = w"
proof (rule bit_word_eqI)
  fix n assume "n < LENGTH(32)"
  then consider "n < 12" | "n = 12" | "n = 13" | "14 \<le> n" "n < 16" | "16 \<le> n" "n < 32" by fastforce
  then show "bit (push_bit 14 (ucast (ucast (drop_bit 14 w AND 3) :: u8)) OR (if bit w 13 then 0x2000 else 0)
    OR (if bit w 12 then 0x1000 else 0) OR ucast (ucast (w AND 0xfff) :: u16) :: u32) n = bit w n"
    unfolding bit_or_iff flag_bits
    by cases (auto simp: bit_simps mask_bits dest: clear_bits(1) [OF assms])
qed

lemma join_pressure:
  fixes w :: u32
  assumes "w AND 0xfffe0000 = 0"
  shows "w AND 0x1ffff = w"
  by (rule bit_word_eqI) (auto simp: bit_simps mask_bits dest: clear_bits(2) [OF assms])

lemma join_sea:
  fixes w :: u32
  assumes "w AND 0xffff0000 = 0"
  shows "push_bit 10 (ucast (ucast (drop_bit 10 w AND 63) :: u8)) OR push_bit 5 (ucast (ucast (drop_bit 5 w AND 31) :: u8))
    OR ucast (ucast (w AND 31) :: u8) = w"
proof (rule bit_word_eqI)
  fix n assume "n < LENGTH(32)"
  then consider "n < 5" | "5 \<le> n" "n < 10" | "10 \<le> n" "n < 16" | "16 \<le> n" "n < 32" by fastforce
  then show "bit (push_bit 10 (ucast (ucast (drop_bit 10 w AND 63) :: u8)) OR push_bit 5 (ucast (ucast (drop_bit 5 w AND 31) :: u8))
    OR ucast (ucast (w AND 31) :: u8) :: u32) n = bit w n"
    by cases (auto simp: bit_simps mask_bits dest: clear_bits(1) [OF assms])
qed

lemma read_variant_total:
  assumes "k \<le> 27" "k \<noteq> 8" "wire_bits_ok k w w4"
  defines "b \<equiv> push_bit 32 (ucast w) OR ucast w4 :: u64"
  shows "if words_of_variant k = 2 then \<exists>v. read_variant k w b = Inr v \<and> scalar_bits v = b
    else \<exists>v. read_variant k w (ucast w) = Inr v \<and> ucast (scalar_bits v) = w"
proof -
  have "k \<in> {0..27}" using assms(1) by simp
  also have "{0..27} = {0, 1, 2, 3, 4, 5, 6, 7, 8, 9, 10, 11, 12, 13, 14, 15, 16, 17, 18, 19, 20, 21, 22,
    23, 24, 25, 26, 27 :: nat}" by (intro set_eqI; simp; presburger)
  finally show ?thesis
    using assms(2,3) join_device [of w w4] join_buffer [of w4 w]
    by (elim insertE emptyE)
       (simp_all add: read_variant_def words_of_variant_def wire_bits_ok_def join_low16 join_spatial
          join_version join_country join_ems join_pressure join_sea unoptional16_join and_flag b_def)
qed

text \<open>C16: Every scalar wire image that passes the wire check is read as a value, and writing that
  value produces exactly these bytes again: no two accepted images mean the same value.\<close>

theorem scalar_read_write:
  assumes "descriptor i = Some d" "\<not> structured_field i" "length bs = fd_words d * 4"
    and "validate_wire_value i bs = Inr ()" "off + length bs \<le> length out"
  shows "\<exists>v. read_scalar d bs = Inr v \<and> write_scalar d v out off = write_bytes out off bs"
proof -
  let ?k = "fd_variant_index d"
  have o: "?k \<le> 27" "?k \<noteq> 8"
    using descriptor_owner [OF assms(1)] assms(2) by (auto simp: owner_ok_def Let_def)
  note w = descriptor_words [OF assms(1) o(2)]
  note t = read_variant_total [OF o wire_bits [OF assms(1,4)]]
  show ?thesis
  proof (cases "fd_words d = 2")
    case True
    then have bs: "bs = be_of_word (load32 bs 0) @ be_of_word (load32 bs 4)"
      using bytes_are_words(2) assms(3) by simp
    obtain v where v: "read_variant ?k (load32 bs 0) (push_bit 32 (ucast (load32 bs 0)) OR ucast (load32 bs 4)) = Inr v"
      "scalar_bits v = push_bit 32 (ucast (load32 bs 0)) OR ucast (load32 bs 4)"
      using t True w(1) by auto
    have "scalar_image d v = be_of_word (load32 bs 0) @ be_of_word (load32 bs 4)"
      unfolding scalar_image_def v(2) using True by (simp only: split_join64 if_True simp_thms)
    then show ?thesis
      using v(1) True assms(3,5) write_scalar_image(1) [OF _ w(2), of off out v] bs
      by (intro exI [of _ v]) (simp add: read_scalar_def)
  next
    case False
    then have one: "fd_words d = 1" using w(2) by simp
    then have bs: "bs = be_of_word (load32 bs 0)" using bytes_are_words(1) assms(3) by simp
    obtain v where v: "read_variant ?k (load32 bs 0) (ucast (load32 bs 0)) = Inr v"
      "ucast (scalar_bits v) = load32 bs 0"
      using t False w(1) by auto
    have "scalar_image d v = bs" unfolding scalar_image_def v(2) using False bs by simp
    then show ?thesis
      using v(1) one assms(3,5) write_scalar_image(1) [OF _ w(2), of off out v]
      by (intro exI [of _ v]) (simp add: read_scalar_def)
  qed
qed

section \<open>Concrete fields\<close>

lemma sample_gain_descriptor: "descriptor Gain_id = Some (fdesc Gain_id 1 4)"
  by (simp add: descriptor_def baseline_descriptors_def scalar_descriptors_def fdesc_def field_ids)

lemma sample_snr_descriptor: "descriptor SnrNoiseFigure_id = Some (fdesc SnrNoiseFigure_id 1 18)"
  by (simp add: descriptor_def baseline_descriptors_def scalar_descriptors_def fdesc_def field_ids
      structured_descriptors_def cif1_fixed_descriptors_def)

lemma sample_snr_accepted:
  "validate_value SnrNoiseFigure_id (SV_snr (Snr_noise_figure None (Some 0))) False = Inr ()"
  unfolding validate_value_def sample_snr_descriptor
  by (simp add: is_native_def fdesc_def validate_ranges_def cif2_generic16_field_def field_ids nonsentinel_def)

theorem scalar_write_read_witness:
  "read_scalar (fdesc Gain_id 1 4) (subspan (write_scalar (fdesc Gain_id 1 4)
     (SV_gain (Gain_stages 0x180 (- 5))) [0, 0, 0, 0, 0, 0] 1) 1 4) = Inr (SV_gain (Gain_stages 0x180 (- 5)))
   \<and> read_scalar (fdesc SnrNoiseFigure_id 1 18) (subspan (write_scalar (fdesc SnrNoiseFigure_id 1 18)
     (SV_snr (Snr_noise_figure None (Some 0))) [1, 2, 3, 4] 0) 0 4) = Inr (SV_snr (Snr_noise_figure None None))"
proof -
  have "validate_value Gain_id (SV_gain (Gain_stages 0x180 (- 5))) True = Inr ()"
    unfolding validate_value_def sample_gain_descriptor
    by (simp add: is_native_def fdesc_def validate_ranges_def cif2_generic16_field_def field_ids)
  from scalar_write_read [OF this sample_gain_descriptor, of 1 "[0, 0, 0, 0, 0, 0]"]
    scalar_write_read [OF sample_snr_accepted sample_snr_descriptor, of 0 "[1, 2, 3, 4]"]
  show ?thesis by (simp add: fdesc_def wire_value_def)
qed

theorem scalar_read_write_witness:
  "\<exists>v. read_scalar (fdesc Gain_id 1 4) [1, 2, 3, 4] = Inr v
     \<and> write_scalar (fdesc Gain_id 1 4) v [0, 0, 0, 0] 0 = write_bytes [0, 0, 0, 0] 0 [1, 2, 3, 4]"
  using scalar_read_write [OF sample_gain_descriptor, of "[1, 2, 3, 4]" 0 "[0, 0, 0, 0]"]
  by (simp add: fdesc_def structured_field_def validate_wire_value_def cif2_generic16_field_def field_ids)

end
