(* ===== verification/State_Contracts.thy ===== *)
theory State_Contracts
  imports Field_Values Scheduling "HOL-Library.Signed_Division"
begin

text \<open>
  The device state, execution plans and outcomes (\<^verbatim>\<open>runtime/state/contracts.hpp\<close>), the
  constants of the IQ profiles (\<^verbatim>\<open>profiles/iq/profile.hpp\<close>) and the capability contract of
  the SDR profile (\<^verbatim>\<open>profiles/iq/sdr.hpp\<close>). A snapshot is eight field states in a fixed
  order; \<open>field_index\<close> finds a field's place.
\<close>

section \<open>IQ profiles\<close>

datatype iq_profile = Generator_v1 | Frequency_tunable | Sdr_radio

definition information_class :: "iq_profile \<Rightarrow> u16" where
  "information_class p = (if p = Sdr_radio then 0 else if p = Frequency_tunable then 2 else 1)"

definition context_class :: "iq_profile \<Rightarrow> u16" where
  "context_class p = (if p = Sdr_radio then 0 else if p = Frequency_tunable then 0x110 else 0x10)"

definition command_class :: "iq_profile \<Rightarrow> u16" where
  "command_class p = (if p = Sdr_radio then 0 else if p = Frequency_tunable then 0x120 else 0x20)"

definition data_class :: "iq_profile \<Rightarrow> u16 \<Rightarrow> u16" where
  "data_class p baseline =
     (if p = Sdr_radio then 0 else if p = Frequency_tunable then 0x100 + baseline else baseline)"

definition sdr_unknown_oui :: u32 where
  "sdr_unknown_oui = 0x00ffffff"

datatype sample_frame = Frame_single | Frame_first | Frame_middle | Frame_final

primrec sample_frame_code :: "sample_frame \<Rightarrow> u32" where
  "sample_frame_code Frame_single = 0"
| "sample_frame_code Frame_first = 1"
| "sample_frame_code Frame_middle = 2"
| "sample_frame_code Frame_final = 3"

definition sdr_burst_pairs :: nat where
  "sdr_burst_pairs = 1024 * 1024 div 4"

definition sdr_packet_pairs :: "nat \<Rightarrow> nat \<Rightarrow> nat \<Rightarrow> nat" where
  "sdr_packet_pairs ordinal maximum burst_pairs = min maximum (burst_pairs - ordinal mod burst_pairs)"

definition sdr_sample_frame :: "nat \<Rightarrow> nat \<Rightarrow> nat \<Rightarrow> sample_frame" where
  "sdr_sample_frame ordinal pairs burst_pairs =
     (let first = (ordinal mod burst_pairs = 0);
          final = (ordinal mod burst_pairs + pairs = burst_pairs)
      in if first then (if final then Frame_single else Frame_first)
         else (if final then Frame_final else Frame_middle))"

definition sdr_trailer :: "sample_frame \<Rightarrow> u32" where
  "sdr_trailer f = 0x00c00000 OR push_bit 10 (sample_frame_code f)"

definition minimum_center_hz :: int where
  "minimum_center_hz = 1000000"

definition maximum_center_hz :: int where
  "maximum_center_hz = 6000000000"

definition hz_unit :: int where
  "hz_unit = 1048576"

section \<open>Device state\<close>

datatype validity = Absent | Known | Unknown

record field_state =
  fs_id :: field_id
  fs_value :: semantic_value
  fs_validity :: validity

definition state_field_capacity :: nat where
  "state_field_capacity = 8"

definition command_field_capacity :: nat where
  "command_field_capacity = 4"

definition baseline_fields :: "field_id list" where
  "baseline_fields = [ReferencePoint_id, SampleRate_id, StateEvent_id, DataPayloadFormat_id]"

definition state_fields :: "field_id list" where
  "state_fields = [ReferencePoint_id, SampleRate_id, StateEvent_id, DataPayloadFormat_id,
     RFReferenceFrequency_id, Bandwidth_id, Gain_id, DiscreteIO32_id]"

primrec index_from :: "field_id \<Rightarrow> field_id list \<Rightarrow> nat \<Rightarrow> nat" where
  "index_from i [] n = n"
| "index_from i (x # xs) n = (if x = i then n else index_from i xs (n + 1))"

definition field_index :: "field_id \<Rightarrow> nat" where
  "field_index i = index_from i state_fields 0"

record state_snapshot =
  ss_version :: nat
  ss_fields :: "field_state list"
  ss_profile :: iq_profile

definition fresh_field :: "field_id \<Rightarrow> semantic_value \<Rightarrow> field_state" where
  "fresh_field i v = \<lparr>fs_id = i, fs_value = v, fs_validity = Absent\<rparr>"

definition default_snapshot :: state_snapshot where
  "default_snapshot = \<lparr>ss_version = 0,
     ss_fields = [fresh_field ReferencePoint_id (SV_uint32 0), fresh_field SampleRate_id (SV_hertz (Hertz 0)),
       fresh_field StateEvent_id (SV_uint32 0),
       fresh_field DataPayloadFormat_id (SV_payload_format (Payload_format 0)),
       fresh_field RFReferenceFrequency_id (SV_hertz (Hertz 0)), fresh_field Bandwidth_id (SV_hertz (Hertz 0)),
       fresh_field Gain_id (SV_gain (Gain_stages 0 0)), fresh_field DiscreteIO32_id (SV_uint32 0)],
     ss_profile = Generator_v1\<rparr>"

definition active_state_fields :: "iq_profile \<Rightarrow> nat" where
  "active_state_fields p = (if p = Sdr_radio then 8 else if p = Frequency_tunable then 5 else 4)"

definition profile_field :: "iq_profile \<Rightarrow> field_id \<Rightarrow> bool" where
  "profile_field p i = (let k = field_index i in
     k < 4 \<or> (k = 4 \<and> p \<noteq> Generator_v1) \<or> (k < 8 \<and> p = Sdr_radio))"

text \<open>\<open>std::get_if\<close> on the two alternatives the state uses most.\<close>

definition get_hertz :: "semantic_value \<Rightarrow> int option" where
  "get_hertz v = (case v of SV_hertz h \<Rightarrow> Some (sint (q20 h)) | _ \<Rightarrow> None)"

definition get_uint32 :: "semantic_value \<Rightarrow> u32 option" where
  "get_uint32 v = (case v of SV_uint32 x \<Rightarrow> Some x | _ \<Rightarrow> None)"

definition get_gain :: "semantic_value \<Rightarrow> (int \<times> int) option" where
  "get_gain v = (case v of SV_gain g \<Rightarrow> Some (sint (gs_stage1_q7 g), sint (gs_stage2_q7 g)) | _ \<Rightarrow> None)"

definition known_at :: "state_snapshot \<Rightarrow> nat \<Rightarrow> bool" where
  "known_at s i \<longleftrightarrow> fs_validity (ss_fields s ! i) = Known"

definition value_at :: "state_snapshot \<Rightarrow> nat \<Rightarrow> semantic_value" where
  "value_at s i = fs_value (ss_fields s ! i)"

text \<open>One round of the loop of \<open>validate_snapshot\<close>.\<close>

definition validate_field :: "state_snapshot \<Rightarrow> nat \<Rightarrow> unit result" where
  "validate_field s i = (let f = ss_fields s ! i in
     if i \<ge> active_state_fields (ss_profile s)
     then (if fs_validity f \<noteq> Absent then Inl (err Unsupported_capability) else Inr ())
     else if fs_id f \<noteq> state_fields ! i then Inl (err Invalid_argument)
     else and_then (if fs_validity f = Known then validate_value (fs_id f) (fs_value f) True else Inr ()) (\<lambda>_.
       if i = 4 \<and> fs_validity f = Known
       then (case get_hertz (fs_value f) of None \<Rightarrow> Inl (err Invalid_argument)
         | Some q \<Rightarrow> if q < minimum_center_hz * hz_unit \<or> q > maximum_center_hz * hz_unit
              \<or> (ss_profile s = Frequency_tunable \<and> q smod hz_unit \<noteq> 0)
             then Inl (err Invalid_argument) else Inr ())
       else Inr ()))"

primrec validate_fields :: "state_snapshot \<Rightarrow> nat list \<Rightarrow> unit result" where
  "validate_fields s [] = Inr ()"
| "validate_fields s (i # is) = and_then (validate_field s i) (\<lambda>_. validate_fields s is)"

text \<open>The checks of the SDR profile, in the order of the code.\<close>

definition sdr_state_ok :: "state_snapshot \<Rightarrow> bool" where
  "sdr_state_ok s \<longleftrightarrow>
     (known_at s 0 \<longrightarrow> (case get_uint32 (value_at s 0) of None \<Rightarrow> False | Some sid \<Rightarrow> 1 \<le> sid \<and> sid \<le> 4))
     \<and> (known_at s 3 \<longrightarrow> value_at s 3 = SV_payload_format (Payload_format 0x200003cf00000000))
     \<and> (known_at s 1 \<longrightarrow> (case get_hertz (value_at s 1) of None \<Rightarrow> False
          | Some q \<Rightarrow> 1000 * hz_unit \<le> q \<and> q \<le> 2000000 * hz_unit \<and> q smod hz_unit = 0))
     \<and> (known_at s 5 \<longrightarrow> (case get_hertz (value_at s 5) of None \<Rightarrow> False
          | Some q \<Rightarrow> 0 < q \<and> q \<le> 2000000 * hz_unit
              \<and> (known_at s 1 \<longrightarrow> q \<le> the (get_hertz (value_at s 1)))))
     \<and> (known_at s 6 \<longrightarrow> (case get_gain (value_at s 6) of None \<Rightarrow> False
          | Some (a, b) \<Rightarrow> b = 0 \<and> - 60 * 128 \<le> a \<and> a \<le> 60 * 128))
     \<and> (known_at s 7 \<longrightarrow> (case get_uint32 (value_at s 7) of None \<Rightarrow> False | Some x \<Rightarrow> x = 2 \<or> x = 3))"

definition validate_snapshot :: "state_snapshot \<Rightarrow> unit result" where
  "validate_snapshot s =
     and_then (validate_fields s [0..<state_field_capacity]) (\<lambda>_.
       if ss_profile s = Sdr_radio \<and> \<not> sdr_state_ok s then Inl (err Invalid_argument) else Inr ())"

section \<open>Plans and outcomes\<close>

record diagnostics =
  dg_warnings :: u32
  dg_errors :: u32

definition no_diagnostics :: diagnostics where
  "no_diagnostics = \<lparr>dg_warnings = 0, dg_errors = 0\<rparr>"

record planned_field =
  pf_id :: field_id
  pf_requested :: semantic_value
  pf_adjusted :: semantic_value
  pf_dependency_mask :: u8
  pf_eligible :: bool
  pf_diagnostics :: diagnostics
  pf_time_known :: bool
  pf_ordinal_known :: bool

record execution_plan =
  ep_fields :: "planned_field list"
  ep_count :: nat
  ep_order :: "nat list"
  ep_expected_state_version :: nat
  ep_operation :: nat
  ep_association_generation :: nat
  ep_boundary :: boundary

datatype field_status = Field_pending | Field_executed | Field_failed | Field_cancelled | Field_unknown_effect | Field_not_executed

record field_outcome =
  fo_id :: field_id
  fo_status :: field_status
  fo_value :: semantic_value
  fo_validity :: validity
  fo_actual_time :: protocol_time
  fo_sample_ordinal :: nat
  fo_uncertainty_ps :: nat
  fo_time_known :: bool
  fo_ordinal_known :: bool
  fo_simulated :: bool
  fo_diagnostics :: diagnostics

record effective_event =
  ee_state :: state_snapshot
  ee_actual_time :: protocol_time
  ee_sample_ordinal :: nat
  ee_source_operation :: nat
  ee_association_generation :: nat
  ee_changed_mask :: u8
  ee_time_known :: bool
  ee_ordinal_known :: bool
  ee_outcome :: field_outcome
  ee_sample_epoch :: "protocol_time option"

definition context_time :: "effective_event \<Rightarrow> protocol_time" where
  "context_time e = (case ee_sample_epoch e of None \<Rightarrow> ee_actual_time e | Some t \<Rightarrow> t)"

text \<open>
  A revision reservation calls its release function once; the calls made are returned. The
  owner pointer only keeps the context alive.
\<close>

record revision_reservation =
  rr_owner :: "nat option"
  rr_context :: nat
  rr_token :: nat
  rr_release :: "nat option"

definition null_reservation :: revision_reservation where
  "null_reservation = \<lparr>rr_owner = None, rr_context = 0, rr_token = 0, rr_release = None\<rparr>"

definition reservation_reset :: "revision_reservation \<Rightarrow> revision_reservation \<times> (nat \<times> nat \<times> nat) list" where
  "reservation_reset r = (r\<lparr>rr_owner := None, rr_release := None\<rparr>,
     case rr_release r of None \<Rightarrow> [] | Some f \<Rightarrow> [(f, rr_context r, rr_token r)])"

definition reservation_move :: "revision_reservation \<Rightarrow> revision_reservation \<times> revision_reservation" where
  "reservation_move other = (other, other\<lparr>rr_owner := None, rr_release := None\<rparr>)"

definition reservation_assign :: "revision_reservation \<Rightarrow> revision_reservation
    \<Rightarrow> revision_reservation \<times> revision_reservation \<times> (nat \<times> nat \<times> nat) list" where
  "reservation_assign dst src = (let (_, calls) = reservation_reset dst; (new, old) = reservation_move src
     in (new, old, calls))"

definition reservation_live :: "revision_reservation \<Rightarrow> bool" where
  "reservation_live r \<longleftrightarrow> rr_release r \<noteq> None"

section \<open>SDR capabilities\<close>

record supported_values =
  sv_step :: int
  sv_origin :: int
  sv_choices :: "int list"
  sv_count :: nat

text \<open>C++ \<open>%\<close> truncates toward zero.\<close>

definition on_grid :: "supported_values \<Rightarrow> int \<Rightarrow> bool" where
  "on_grid s v =
     (if sv_step s \<le> 0 then sv_step s = 0
      else let remainder = v smod sv_step s; base = sv_origin s smod sv_step s;
               remainder' = (if remainder < 0 then remainder + sv_step s else remainder);
               base' = (if base < 0 then base + sv_step s else base)
      in remainder' = base')"

definition supported_valid :: "supported_values \<Rightarrow> bool" where
  "supported_valid s \<longleftrightarrow> \<not> (sv_step s < 0 \<or> sv_count s > length (sv_choices s))
     \<and> list_all (\<lambda>i. on_grid s (sv_choices s ! i)
          \<and> list_all (\<lambda>j. sv_choices s ! j \<noteq> sv_choices s ! i) [0..<i]) [0..<sv_count s]"

definition supported_accepts :: "supported_values \<Rightarrow> int \<Rightarrow> bool" where
  "supported_accepts s v =
     (if \<not> supported_valid s \<or> \<not> on_grid s v then False
      else if sv_count s = 0 then True
      else list_ex (\<lambda>i. v = sv_choices s ! i) [0..<sv_count s])"

record capability_range =
  cr_minimum :: int
  cr_maximum :: int

text \<open>Gain ranges carry both stages.\<close>

record sdr_capabilities =
  sc_center_frequency :: capability_range
  sc_sample_rate :: capability_range
  sc_bandwidth :: capability_range
  sc_gain :: capability_range
  sc_gain_stage2 :: capability_range
  sc_center_values :: supported_values
  sc_sample_rate_values :: supported_values
  sc_bandwidth_values :: supported_values
  sc_gain_values :: supported_values
  sc_bandwidth_supported :: "(int \<Rightarrow> int \<Rightarrow> bool) option"

definition values_domain :: "supported_values \<Rightarrow> capability_range \<Rightarrow> bool" where
  "values_domain s r =
     (if \<not> supported_accepts s (cr_minimum r) \<or> \<not> supported_accepts s (cr_maximum r) then False
      else list_all (\<lambda>i. \<not> (sv_choices s ! i < cr_minimum r \<or> sv_choices s ! i > cr_maximum r)) [0..<sv_count s])"

definition range_ordered :: "capability_range \<Rightarrow> bool" where
  "range_ordered r \<longleftrightarrow> cr_minimum r \<ge> 0 \<and> cr_minimum r \<le> cr_maximum r"

definition capabilities_validate :: "sdr_capabilities \<Rightarrow> unit result" where
  "capabilities_validate c =
     (if \<not> range_ordered (sc_center_frequency c) \<or> \<not> range_ordered (sc_sample_rate c)
         \<or> \<not> range_ordered (sc_bandwidth c) \<or> cr_minimum (sc_gain c) > cr_maximum (sc_gain c)
         \<or> cr_minimum (sc_gain_stage2 c) \<noteq> 0 \<or> cr_maximum (sc_gain_stage2 c) \<noteq> 0
         \<or> \<not> supported_valid (sc_center_values c) \<or> \<not> supported_valid (sc_sample_rate_values c)
         \<or> \<not> supported_valid (sc_bandwidth_values c) \<or> \<not> supported_valid (sc_gain_values c)
      then Inl (err Invalid_argument)
      else if cr_minimum (sc_center_frequency c) < minimum_center_hz * hz_unit
         \<or> cr_maximum (sc_center_frequency c) > maximum_center_hz * hz_unit
         \<or> cr_minimum (sc_sample_rate c) < 1000 * hz_unit \<or> cr_maximum (sc_sample_rate c) > 2000000 * hz_unit
         \<or> cr_minimum (sc_bandwidth c) \<le> 0 \<or> cr_maximum (sc_bandwidth c) > 2000000 * hz_unit
         \<or> cr_minimum (sc_gain c) < - 60 * 128 \<or> cr_maximum (sc_gain c) > 60 * 128
      then Inl (err Invalid_argument)
      else if \<not> values_domain (sc_center_values c) (sc_center_frequency c)
         \<or> \<not> values_domain (sc_sample_rate_values c) (sc_sample_rate c)
         \<or> \<not> values_domain (sc_bandwidth_values c) (sc_bandwidth c)
         \<or> \<not> values_domain (sc_gain_values c) (sc_gain c)
      then Inl (err Invalid_argument) else Inr ())"

definition in_range :: "capability_range \<Rightarrow> int \<Rightarrow> bool" where
  "in_range r v \<longleftrightarrow> cr_minimum r \<le> v \<and> v \<le> cr_maximum r"

definition capabilities_support :: "sdr_capabilities \<Rightarrow> int \<Rightarrow> int \<Rightarrow> bool" where
  "capabilities_support c bandwidth rate =
     (if bandwidth > rate \<or> \<not> supported_accepts (sc_bandwidth_values c) bandwidth
         \<or> \<not> supported_accepts (sc_sample_rate_values c) rate
         \<or> \<not> in_range (sc_bandwidth c) bandwidth \<or> \<not> in_range (sc_sample_rate c) rate
      then False
      else case sc_bandwidth_supported c of None \<Rightarrow> True | Some f \<Rightarrow> f bandwidth rate)"

definition sdr_capability_field :: "field_id \<Rightarrow> bool" where
  "sdr_capability_field i \<longleftrightarrow> i = RFReferenceFrequency_id \<or> i = SampleRate_id \<or> i = Bandwidth_id \<or> i = Gain_id"

end
