(* ===== verification/Packed_Samples.thy ===== *)
theory Packed_Samples
  imports Prelude
begin

text \<open>
  Sample payloads: the interleaved I/Q pairs of \<^verbatim>\<open>codec/samples.hpp\<close> and the general
  item packing of \<^verbatim>\<open>codec/general_samples.hpp\<close> (link-efficient and processing-efficient
  packing, channel and event tags, repeat structures). Addresses are numbers, for the overlap
  tests. A float sample is its 32 bits, which is all \<^verbatim>\<open>std::bit_cast\<close> sees of it.
\<close>

section \<open>I/Q pairs\<close>

datatype iq_scalar = Iq_int16 | Iq_int32 | Iq_float

definition scalar_bytes :: "iq_scalar \<Rightarrow> nat" where
  "scalar_bytes t = (case t of Iq_int16 \<Rightarrow> 2 | _ \<Rightarrow> 4)"

text \<open>A pair carries the two bit images, of 16 or 32 bits.\<close>

record iq_pair =
  iq_i :: u32
  iq_q :: u32

definition iq_typed :: "iq_scalar \<Rightarrow> iq_pair \<Rightarrow> bool" where
  "iq_typed t p \<longleftrightarrow> scalar_bytes t = 2 \<longrightarrow> iq_i p < 2 ^ 16 \<and> iq_q p < 2 ^ 16"

definition ranges_clash :: "nat \<Rightarrow> nat \<Rightarrow> nat \<Rightarrow> bool" where
  "ranges_clash source destination n =
     (if source \<le> destination then destination - source < n else source - destination < n)"

definition pack_pair :: "iq_scalar \<Rightarrow> bytes \<Rightarrow> nat \<Rightarrow> iq_pair \<Rightarrow> bytes" where
  "pack_pair t output offset p =
     (if scalar_bytes t = 2 then store32 output offset (push_bit 16 (iq_i p) OR iq_q p)
      else store32 (store32 output offset (iq_i p)) (offset + 4) (iq_q p))"

primrec pack_pairs :: "iq_scalar \<Rightarrow> iq_pair list \<Rightarrow> bytes \<Rightarrow> nat \<Rightarrow> bytes" where
  "pack_pairs t [] output offset = output"
| "pack_pairs t (p # ps) output offset =
     pack_pairs t ps (pack_pair t output offset p) (offset + scalar_bytes t * 2)"

definition pack_iq :: "iq_scalar \<Rightarrow> iq_pair list \<Rightarrow> nat \<Rightarrow> bytes \<Rightarrow> nat \<Rightarrow> (nat \<times> bytes) result" where
  "pack_iq t samples source output destination =
     and_then (checked_multiply (length samples) (scalar_bytes t * 2)) (\<lambda>size.
       if length output < size then Inl (err_need Short_output 0 size)
       else if size \<noteq> 0 \<and> ranges_clash source destination size then Inl (err Invalid_argument)
       else Inr (size, pack_pairs t samples output 0))"

record sample_view =
  sview_type :: iq_scalar
  sview_data :: bytes

definition sample_view_create :: "iq_scalar \<Rightarrow> bytes \<Rightarrow> sample_view result" where
  "sample_view_create t data =
     (if length data mod (scalar_bytes t * 2) \<noteq> 0 then Inl (err Invalid_argument)
      else Inr \<lparr>sview_type = t, sview_data = data\<rparr>)"

definition sample_view_size :: "sample_view \<Rightarrow> nat" where
  "sample_view_size v = length (sview_data v) div (scalar_bytes (sview_type v) * 2)"

definition sample_view_at :: "sample_view \<Rightarrow> nat \<Rightarrow> iq_pair result" where
  "sample_view_at v index =
     (if index \<ge> sample_view_size v then Inl (err_at Invalid_argument index)
      else let offset = index * scalar_bytes (sview_type v) * 2 in
        if scalar_bytes (sview_type v) = 2
        then let bits = load32 (sview_data v) offset in
          Inr \<lparr>iq_i = take_bit 16 (drop_bit 16 bits), iq_q = take_bit 16 bits\<rparr>
        else Inr \<lparr>iq_i = load32 (sview_data v) offset, iq_q = load32 (sview_data v) (offset + 4)\<rparr>)"

section \<open>General packing\<close>

datatype packing_mode = Link_packing | Processing_packing
datatype sample_kind = Real_sample | Cartesian_sample | Polar_sample
datatype repeat_mode = Repeat_none | Repeat_component | Repeat_channel

record packing_spec =
  item_bits :: nat
  packing_bits :: nat
  channel_tag_bits :: nat
  event_tag_bits :: nat
  packing :: packing_mode
  kind :: sample_kind
  repeating :: repeat_mode
  vector_size :: nat
  repeat_count :: nat

record sample_limits =
  max_items :: nat
  max_bytes :: nat

definition default_limits :: sample_limits where
  "default_limits = \<lparr>max_items = 4096, max_bytes = 65535 * 4\<rparr>"

record shape =
  sh_structures :: nat
  sh_items_per_structure :: nat
  sh_items :: nat
  sh_bytes :: nat

record item =
  data_bits :: u64
  channel_tag :: u64
  event_tag :: u64

record coordinates =
  co_structure :: nat
  co_time :: nat
  co_channel :: nat
  co_component :: nat

definition components :: "sample_kind \<Rightarrow> nat" where
  "components k = (if k = Real_sample then 1 else 2)"

definition multiply :: "nat \<Rightarrow> nat \<Rightarrow> nat result" where
  "multiply a b = (if a \<noteq> 0 \<and> b > size_max div a then Inl (err Overflow) else Inr (a * b))"

definition fits :: "u64 \<Rightarrow> nat \<Rightarrow> bool" where
  "fits v bits \<longleftrightarrow> bits = 64 \<or> drop_bit bits v = 0"

definition validate_packing :: "packing_spec \<Rightarrow> unit result" where
  "validate_packing s =
     (if item_bits s = 0 \<or> item_bits s > 64 \<or> packing_bits s = 0 \<or> packing_bits s > 64
         \<or> channel_tag_bits s > 15 \<or> event_tag_bits s > 7
         \<or> item_bits s + channel_tag_bits s + event_tag_bits s > packing_bits s
         \<or> vector_size s = 0 \<or> vector_size s > 65535 \<or> repeat_count s = 0 \<or> repeat_count s > 65536
      then Inl (err Invalid_argument)
      else if (repeating s = Repeat_none \<and> repeat_count s \<noteq> 1)
         \<or> (repeating s = Repeat_component \<and> kind s = Real_sample) then Inl (err Invalid_argument)
      else if packing s = Processing_packing \<and> packing_bits s > 32 then Inl (err Unsupported_layout)
      else Inr ())"

definition bit_offset :: "packing_spec \<Rightarrow> nat \<Rightarrow> nat" where
  "bit_offset s index =
     (if packing s = Link_packing then index * packing_bits s
      else let per = 32 div packing_bits s in index div per * 32 + index mod per * packing_bits s)"

primrec read_bits_loop :: "bytes \<Rightarrow> nat \<Rightarrow> nat list \<Rightarrow> u64 \<Rightarrow> u64" where
  "read_bits_loop bs offset [] value = value"
| "read_bits_loop bs offset (b # rest) value =
     read_bits_loop bs offset rest
       (push_bit 1 value OR ucast (drop_bit (7 - (offset + b) mod 8) (bs ! ((offset + b) div 8)) AND 1))"

definition read_bits :: "bytes \<Rightarrow> nat \<Rightarrow> nat \<Rightarrow> u64" where
  "read_bits bs offset width = read_bits_loop bs offset [0..<width] 0"

primrec write_bits_loop :: "bytes \<Rightarrow> nat \<Rightarrow> nat \<Rightarrow> nat list \<Rightarrow> u64 \<Rightarrow> bytes" where
  "write_bits_loop bs offset width [] value = bs"
| "write_bits_loop bs offset width (b # rest) value =
     write_bits_loop
       (if drop_bit (width - 1 - b) value AND 1 \<noteq> 0
        then bs[(offset + b) div 8 := bs ! ((offset + b) div 8) OR push_bit (7 - (offset + b) mod 8) 1]
        else bs) offset width rest value"

definition write_bits :: "bytes \<Rightarrow> nat \<Rightarrow> nat \<Rightarrow> u64 \<Rightarrow> bytes" where
  "write_bits bs offset width value = write_bits_loop bs offset width [0..<width] value"

definition overlap :: "nat \<Rightarrow> nat \<Rightarrow> nat \<Rightarrow> nat \<Rightarrow> bool" where
  "overlap x an y bn =
     (if an = 0 \<or> bn = 0 then False else if x \<le> y then y - x < an else x - y < bn)"

definition packed_words :: "packing_spec \<Rightarrow> nat \<Rightarrow> nat result" where
  "packed_words s items =
     (if packing s = Link_packing
      then and_then (multiply items (packing_bits s)) (\<lambda>bits. Inr (bits div 32 + (if bits mod 32 \<noteq> 0 then 1 else 0)))
      else let per = 32 div packing_bits s in Inr (items div per + (if items mod per \<noteq> 0 then 1 else 0)))"

definition measure_samples :: "packing_spec \<Rightarrow> nat \<Rightarrow> sample_limits \<Rightarrow> shape result" where
  "measure_samples s structures limits =
     and_then (validate_packing s) (\<lambda>_.
     and_then (multiply (vector_size s) (repeat_count s)) (\<lambda>samples.
     and_then (multiply samples (components (kind s))) (\<lambda>group.
     and_then (multiply structures group) (\<lambda>items.
     if items > max_items limits then Inl (err_need Resource_limit 0 items)
     else and_then (packed_words s items) (\<lambda>words.
       and_then (multiply words 4) (\<lambda>bytes.
       and_then (multiply bytes 8) (\<lambda>bits.
       if bytes > max_bytes limits then Inl (err_need Resource_limit 0 bytes)
       else Inr \<lparr>sh_structures = structures, sh_items_per_structure = group, sh_items = items,
         sh_bytes = bytes\<rparr>)))))))"

record packed_samples =
  ps_bytes :: bytes
  ps_spec :: packing_spec
  ps_shape :: shape

definition packed_create :: "bytes \<Rightarrow> packing_spec \<Rightarrow> nat \<Rightarrow> sample_limits \<Rightarrow> packed_samples result" where
  "packed_create bs spec structures limits =
     and_then (measure_samples spec structures limits) (\<lambda>sh.
       if length bs < sh_bytes sh then Inl (err_need Short_input 0 (sh_bytes sh))
       else if length bs \<noteq> sh_bytes sh then Inl (err Invalid_argument)
       else Inr \<lparr>ps_bytes = bs, ps_spec = spec, ps_shape = sh\<rparr>)"

definition read_item :: "bytes \<Rightarrow> packing_spec \<Rightarrow> nat \<Rightarrow> item" where
  "read_item bs s at =
     \<lparr>data_bits = read_bits bs at (item_bits s),
      channel_tag = read_bits bs (at + packing_bits s - channel_tag_bits s) (channel_tag_bits s),
      event_tag = read_bits bs (at + packing_bits s - channel_tag_bits s - event_tag_bits s) (event_tag_bits s)\<rparr>"

definition packed_at :: "packed_samples \<Rightarrow> nat \<Rightarrow> item result" where
  "packed_at p index =
     (if index \<ge> sh_items (ps_shape p) then Inl (err_at Invalid_argument index)
      else Inr (read_item (ps_bytes p) (ps_spec p) (bit_offset (ps_spec p) index)))"

definition to_u32 :: "nat \<Rightarrow> nat" where
  "to_u32 n = n mod 4294967296"

definition packed_coordinates :: "packed_samples \<Rightarrow> nat \<Rightarrow> coordinates result" where
  "packed_coordinates p index = (let s = ps_spec p; sh = ps_shape p in
     if index \<ge> sh_items sh then Inl (err_at Invalid_argument index)
     else let structure = index div sh_items_per_structure sh;
            local = index mod sh_items_per_structure sh;
            c = components (kind s); r = repeat_count s; v = vector_size s;
            (time, channel, component) =
              (if repeating s = Repeat_component
               then let linear = local div (c * r) * r + local mod r
                    in (linear div v, linear mod v, local div r mod c)
               else if repeating s = Repeat_channel then (local div c mod r, local div (c * r), local mod c)
               else (0, local div c, local mod c))
     in Inr \<lparr>co_structure = structure, co_time = to_u32 time, co_channel = to_u32 channel,
          co_component = to_u32 component\<rparr>)"

definition packed_index :: "packed_samples \<Rightarrow> coordinates \<Rightarrow> nat result" where
  "packed_index p x = (let s = ps_spec p; sh = ps_shape p; c = components (kind s); r = repeat_count s in
     if co_structure x \<ge> sh_structures sh \<or> co_time x \<ge> repeat_count s \<or> co_channel x \<ge> vector_size s
        \<or> co_component x \<ge> components (kind s) then Inl (err Invalid_argument)
     else let local =
            (if repeating s = Repeat_component
             then let linear = co_time x * vector_size s + co_channel x
                  in (linear div r * c + co_component x) * r + linear mod r
             else if repeating s = Repeat_channel then (co_channel x * r + co_time x) * c + co_component x
             else co_channel x * c + co_component x)
     in Inr (co_structure x * sh_items_per_structure sh + local))"

definition item_fits :: "packing_spec \<Rightarrow> item \<Rightarrow> bool" where
  "item_fits s it \<longleftrightarrow> fits (data_bits it) (item_bits s) \<and> fits (channel_tag it) (channel_tag_bits s)
     \<and> fits (event_tag it) (event_tag_bits s)"

definition write_item :: "packing_spec \<Rightarrow> bytes \<Rightarrow> nat \<Rightarrow> item \<Rightarrow> bytes" where
  "write_item s wire at it =
     (let wire = write_bits wire at (item_bits s) (data_bits it);
          wire = write_bits wire (at + packing_bits s - channel_tag_bits s) (channel_tag_bits s) (channel_tag it)
      in write_bits wire (at + packing_bits s - channel_tag_bits s - event_tag_bits s) (event_tag_bits s) (event_tag it))"

primrec write_items :: "packing_spec \<Rightarrow> bytes \<Rightarrow> nat \<Rightarrow> item list \<Rightarrow> bytes" where
  "write_items s wire i [] = wire"
| "write_items s wire i (it # rest) = write_items s (write_item s wire (bit_offset s i) it) (i + 1) rest"

definition item_size :: nat where
  "item_size = 24"

definition pack_samples :: "packing_spec \<Rightarrow> nat \<Rightarrow> item list \<Rightarrow> nat \<Rightarrow> bytes \<Rightarrow> nat \<Rightarrow> sample_limits
    \<Rightarrow> (nat \<times> bytes) result" where
  "pack_samples spec structures items items_addr output out_addr limits =
     and_then (measure_samples spec structures limits) (\<lambda>sh.
       if length items \<noteq> sh_items sh then Inl (err Invalid_argument)
       else if length output < sh_bytes sh then Inl (err_need Short_output 0 (sh_bytes sh))
       else and_then (multiply (length items) item_size) (\<lambda>input_bytes.
         if overlap items_addr input_bytes out_addr (sh_bytes sh) then Inl (err Invalid_argument)
         else if \<not> list_all (item_fits spec) items then Inl (err Invalid_argument)
         else let wire = write_items spec (replicate (sh_bytes sh) 0) 0 items
              in Inr (sh_bytes sh, wire @ drop (sh_bytes sh) output)))"

section \<open>I/Q pairs survive packing\<close>

definition pair_words :: "iq_scalar \<Rightarrow> iq_pair \<Rightarrow> bytes" where
  "pair_words t p = (if scalar_bytes t = 2 then be_of_word (push_bit 16 (iq_i p) OR iq_q p)
     else be_of_word (iq_i p) @ be_of_word (iq_q p))"

lemma scalar_bytes_cases: "scalar_bytes t = 2 \<or> scalar_bytes t = 4"
  by (cases t) (simp_all add: scalar_bytes_def)

lemma length_pair_words [simp]: "length (pair_words t p) = scalar_bytes t * 2"
  using scalar_bytes_cases [of t] by (auto simp: pair_words_def)

lemma pack_pair_eq:
  "offset + scalar_bytes t * 2 \<le> length buf
   \<Longrightarrow> pack_pair t buf offset p = write_bytes buf offset (pair_words t p)"
  using scalar_bytes_cases [of t] write_bytes_append [of offset "be_of_word (iq_i p)" "be_of_word (iq_q p)" buf]
  by (auto simp: pack_pair_def pair_words_def store32_def)

lemma pack_pairs_eq:
  "offset + length ps * (scalar_bytes t * 2) \<le> length buf
   \<Longrightarrow> pack_pairs t ps buf offset = write_bytes buf offset (concat (map (pair_words t) ps))"
proof (induction ps arbitrary: buf offset)
  case (Cons p ps)
  have len: "length (concat (map (pair_words t) ps)) = length ps * (scalar_bytes t * 2)"
    by (induction ps) simp_all
  from Cons.prems have fit: "offset + scalar_bytes t * 2 \<le> length buf"
    by simp
  then have "pack_pairs t (p # ps) buf offset
      = write_bytes (write_bytes buf offset (pair_words t p)) (offset + scalar_bytes t * 2)
          (concat (map (pair_words t) ps))"
    using Cons.prems by (simp add: pack_pair_eq Cons.IH)
  also have "\<dots> = write_bytes buf offset (concat (map (pair_words t) (p # ps)))"
    using Cons.prems len
      write_bytes_append [of offset "pair_words t p" "concat (map (pair_words t) ps)" buf]
    by simp
  finally show ?case .
qed simp

lemma drop_pair_words:
  "index < length ps \<Longrightarrow> drop (index * (scalar_bytes t * 2)) (concat (map (pair_words t) ps))
     = pair_words t (ps ! index) @ concat (map (pair_words t) (drop (index + 1) ps))"
proof (induction ps arbitrary: index)
  case (Cons p ps)
  then show ?case by (cases index) (simp_all add: add.commute)
qed simp

lemma split_halves:
  assumes "a < 2 ^ 16" "b < 2 ^ 16"
  shows "take_bit 16 (drop_bit 16 (push_bit 16 a OR b :: u32)) = a" (is ?A)
    "take_bit 16 (push_bit 16 a OR b :: u32) = b" (is ?B)
proof -
  have high: "bit a n \<Longrightarrow> n < 16" "bit b n \<Longrightarrow> n < 16" for n
    using assms word_less_bitD by blast+
  show ?A by (rule bit_word_eqI) (auto simp: bit_simps dest: high)
  show ?B by (rule bit_word_eqI) (auto simp: bit_simps dest: high)
qed

lemma load_pair_words:
  assumes "drop offset data = pair_words t p @ rest" "iq_typed t p" "offset + scalar_bytes t * 2 \<le> length data"
  shows "scalar_bytes t = 2 \<Longrightarrow> load32 data offset = push_bit 16 (iq_i p) OR iq_q p"
    "scalar_bytes t = 4 \<Longrightarrow> load32 data offset = iq_i p"
    "scalar_bytes t = 4 \<Longrightarrow> load32 data (offset + 4) = iq_q p"
proof -
  have d4: "drop (offset + 4) data = drop 4 (drop offset data)" by (simp add: add.commute)
  show "scalar_bytes t = 2 \<Longrightarrow> load32 data offset = push_bit 16 (iq_i p) OR iq_q p"
    "scalar_bytes t = 4 \<Longrightarrow> load32 data offset = iq_i p"
    using assms by (auto simp: load32_drop [of offset data] pair_words_def)
  show "scalar_bytes t = 4 \<Longrightarrow> load32 data (offset + 4) = iq_q p"
    using assms d4 by (auto simp: load32_drop [of "offset + 4" data] pair_words_def)
qed

text \<open>An array of I/Q pairs of any sample type, packed into a buffer that is large enough and
  does not overlap it, is read back pair by pair through a sample view of the written bytes, and
  the rest of the buffer keeps its bytes.\<close>

theorem iq_pack_view:
  assumes pack: "pack_iq t samples source buf destination = Inr (n, out)"
    and typed: "\<And>p. p \<in> set samples \<Longrightarrow> iq_typed t p" and index: "index < length samples"
  shows "\<exists>v. sample_view_create t (take n out) = Inr v \<and> sample_view_size v = length samples
    \<and> sample_view_at v index = Inr (samples ! index) \<and> drop n out = drop n buf"
proof -
  let ?w = "scalar_bytes t * 2" and ?bs = "concat (map (pair_words t) samples)"
  have len: "length ?bs = length samples * ?w" by (induction samples) simp_all
  from pack have n: "n = length samples * ?w" and fit: "n \<le> length buf"
    and out: "out = pack_pairs t samples buf 0"
    by (auto simp: pack_iq_def and_then_eq_Inr not_less)
  then have out: "out = write_bytes buf 0 ?bs" by (simp add: pack_pairs_eq)
  have data: "take n out = ?bs" using out len n fit by (simp add: write_bytes_def)
  have pos: "0 < ?w" using scalar_bytes_cases [of t] by auto
  let ?v = "\<lparr>sview_type = t, sview_data = ?bs\<rparr>"
  have create: "sample_view_create t (take n out) = Inr ?v"
    unfolding data by (simp add: sample_view_create_def len)
  have size: "sample_view_size ?v = length samples"
    using pos by (simp add: sample_view_size_def len)
  have rest: "drop (index * ?w) ?bs = pair_words t (samples ! index) @ concat (map (pair_words t) (drop (index + 1) samples))"
    using index by (rule drop_pair_words)
  have "index * ?w + ?w \<le> length ?bs"
    using index len mult_le_mono1 [of "index + 1" "length samples" ?w] by simp
  note load = load_pair_words [OF rest typed [OF nth_mem [OF index]] this]
  have "sample_view_at ?v index = Inr (samples ! index)"
  proof (cases "scalar_bytes t = 2")
    case True
    with typed [OF nth_mem [OF index]] have small: "iq_i (samples ! index) < 2 ^ 16" "iq_q (samples ! index) < 2 ^ 16"
      by (simp_all add: iq_typed_def)
    have "load32 ?bs (index * 4) = push_bit 16 (iq_i (samples ! index)) OR iq_q (samples ! index)"
      using load(1) True by simp
    with True size show ?thesis
      using index split_halves [OF small] by (simp add: sample_view_at_def Let_def mult.commute [of _ 4])
  next
    case False
    with scalar_bytes_cases [of t] have "scalar_bytes t = 4" by blast
    with load(2,3) show ?thesis
      using index size by (simp add: sample_view_at_def Let_def mult.assoc)
  qed
  moreover have "drop n out = drop n buf"
    unfolding out using n len fit by (simp add: write_bytes_def)
  ultimately show ?thesis using create size by blast
qed

text \<open>The view of one pair of 16-bit samples.\<close>

theorem iq_pack_view_witness:
  "\<exists>v. sample_view_create Iq_int16 (take 4 [0x12, 0x34, 0x56, 0x78, 9]) = Inr v \<and> sample_view_size v = 1
    \<and> sample_view_at v 0 = Inr \<lparr>iq_i = 0x1234, iq_q = 0x5678\<rparr> \<and> drop 4 [0x12, 0x34, 0x56, 0x78, 9] = [9]"
proof -
  have "pack_iq Iq_int16 [\<lparr>iq_i = 0x1234, iq_q = 0x5678\<rparr>] 100 [1, 2, 3, 4, 9] 200 = Inr (4, [0x12, 0x34, 0x56, 0x78, 9])"
    by (simp add: pack_iq_def checked_multiply_def size_max_def scalar_bytes_def ranges_clash_def
        pack_pair_def store32_def write_bytes_def be_of_word_def)
  from iq_pack_view [OF this, of 0] show ?thesis
    by (simp add: iq_typed_def)
qed

section \<open>Bit fields\<close>

text \<open>Bit \<open>k\<close> of a byte sequence, most significant bit of each byte first.\<close>

definition bit_at :: "bytes \<Rightarrow> nat \<Rightarrow> bool" where
  "bit_at bs k = bit (bs ! (k div 8)) (7 - k mod 8)"

lemma ucast_low_bit: "(ucast (drop_bit n (a :: u8) AND 1) :: u64) = of_bool (bit a n)"
  by (rule bit_word_eqI) (auto simp: bit_simps bit_1_iff)

lemma read_bits_loop_snoc:
  "read_bits_loop bs offset (xs @ [b]) v
     = push_bit 1 (read_bits_loop bs offset xs v) OR of_bool (bit_at bs (offset + b))"
  by (induction xs arbitrary: v) (simp_all add: ucast_low_bit bit_at_def)

lemma bit_shift_in:
  "bit (push_bit 1 x OR of_bool c :: u64) n \<longleftrightarrow> (n = 0 \<and> c) \<or> (1 \<le> n \<and> n < 64 \<and> bit x (n - 1))"
proof -
  have "bit (push_bit 1 x :: u64) n \<longleftrightarrow> 1 \<le> n \<and> n < 64 \<and> bit x (n - 1)"
    by (simp only: bit_push_bit_iff) (auto dest: bit_imp_le_length)
  then show ?thesis by (cases c) (auto simp: bit_or_iff bit_1_iff)
qed

lemma bit_read_bits:
  "width \<le> 64 \<Longrightarrow> bit (read_bits bs offset width) n \<longleftrightarrow> n < width \<and> bit_at bs (offset + (width - 1 - n))"
proof (induction width arbitrary: n)
  case (Suc width)
  have "read_bits bs offset (Suc width)
      = push_bit 1 (read_bits bs offset width) OR of_bool (bit_at bs (offset + width))"
    by (simp add: read_bits_def read_bits_loop_snoc)
  then have step: "bit (read_bits bs offset (Suc width)) n
      \<longleftrightarrow> (n = 0 \<and> bit_at bs (offset + width)) \<or> (1 \<le> n \<and> n < 64 \<and> bit (read_bits bs offset width) (n - 1))"
    by (simp only: bit_shift_in)
  show ?case
  proof (cases n)
    case 0
    with step show ?thesis by simp
  next
    case n: (Suc k)
    have "bit (read_bits bs offset width) k \<longleftrightarrow> k < width \<and> bit_at bs (offset + (width - 1 - k))"
      using Suc by simp
    with step Suc.prems n show ?thesis by (cases "k < width") simp_all
  qed
qed (simp add: read_bits_def)

lemma read_bits_eqI:
  assumes "width \<le> 64" "fits v width"
    and "\<And>n. n < width \<Longrightarrow> bit_at bs (offset + n) \<longleftrightarrow> bit v (width - 1 - n)"
  shows "read_bits bs offset width = v"
proof (rule bit_word_eqI)
  fix n assume n: "n < LENGTH(64)"
  have "bit v n \<Longrightarrow> n < width"
  proof (rule ccontr)
    assume "bit v n" "\<not> n < width"
    then have "bit (drop_bit width v) (n - width)" by (simp add: bit_simps)
    with assms(2) n \<open>\<not> n < width\<close> show False by (auto simp: fits_def)
  qed
  with assms(3) [of "width - 1 - n"] assms(1) show "bit (read_bits bs offset width) n = bit v n"
    by (auto simp: bit_read_bits)
qed

lemma read_bits_cong:
  assumes "\<And>n. n < width \<Longrightarrow> bit_at bs (offset + n) = bit_at bs' (offset + n)" "width \<le> 64"
  shows "read_bits bs offset width = read_bits bs' offset width"
proof (rule bit_word_eqI)
  fix n
  show "bit (read_bits bs offset width) n = bit (read_bits bs' offset width) n"
    using assms(1) [of "width - 1 - n"] assms(2) by (cases "n < width") (simp_all add: bit_read_bits)
qed

lemma bit_at_set:
  assumes "j < 8 * length bs" "k < 8 * length bs"
  shows "bit_at (bs[j div 8 := bs ! (j div 8) OR push_bit (7 - j mod 8) 1]) k \<longleftrightarrow> bit_at bs k \<or> k = j"
proof -
  have bounds: "j div 8 < length bs" "k div 8 < length bs" using assms by auto
  have "k = j \<longleftrightarrow> k div 8 = j div 8 \<and> 7 - k mod 8 = 7 - j mod 8"
  proof
    assume same: "k div 8 = j div 8 \<and> 7 - k mod 8 = 7 - j mod 8"
    have "k mod 8 < 8" "j mod 8 < 8" by simp_all
    with same have "k mod 8 = j mod 8" by arith
    with same show "k = j" by (metis div_mult_mod_eq)
  qed simp
  with bounds show ?thesis
    by (auto simp: bit_at_def nth_list_update bit_simps bit_1_iff)
qed

lemma length_write_bits [simp]: "length (write_bits bs offset width v) = length bs"
proof -
  have "length (write_bits_loop bs offset width xs v) = length bs" for xs
    by (induction xs arbitrary: bs) simp_all
  then show ?thesis by (simp add: write_bits_def)
qed

lemma bit_at_write_loop:
  assumes "\<And>b. b \<in> set xs \<Longrightarrow> offset + b < 8 * length bs" "k < 8 * length bs"
  shows "bit_at (write_bits_loop bs offset width xs v) k
    \<longleftrightarrow> bit_at bs k \<or> (\<exists>b\<in>set xs. k = offset + b \<and> bit v (width - 1 - b))"
  using assms
proof (induction xs arbitrary: bs)
  case (Cons b xs)
  have test: "drop_bit (width - 1 - b) v AND 1 \<noteq> 0 \<longleftrightarrow> bit v (width - 1 - b)"
    unfolding bit_iff_odd_drop_bit and_one_eq even_iff_mod_2_eq_zero ..
  define bs' where "bs' = (if drop_bit (width - 1 - b) v AND 1 \<noteq> 0
    then bs[(offset + b) div 8 := bs ! ((offset + b) div 8) OR push_bit (7 - (offset + b) mod 8) 1] else bs)"
  have len: "length bs' = length bs" by (simp add: bs'_def)
  have here: "bit_at bs' k \<longleftrightarrow> bit_at bs k \<or> (k = offset + b \<and> bit v (width - 1 - b))"
    using bit_at_set [of "offset + b" bs k] Cons.prems test
    by (cases "bit v (width - 1 - b)") (simp_all only: bs'_def list.set_intros if_True if_False simp_thms)
  have "bit_at (write_bits_loop bs offset width (b # xs) v) k = bit_at (write_bits_loop bs' offset width xs v) k"
    by (simp only: bs'_def write_bits_loop.simps)
  also have "\<dots> \<longleftrightarrow> bit_at bs' k \<or> (\<exists>b\<in>set xs. k = offset + b \<and> bit v (width - 1 - b))"
    by (rule Cons.IH) (use Cons.prems len in simp_all)
  finally show ?case unfolding here by (simp only: list.set bex_simps disj_assoc) 
qed simp

lemma bit_at_write:
  assumes "offset + width \<le> 8 * length bs" "k < 8 * length bs"
  shows "bit_at (write_bits bs offset width v) k
    \<longleftrightarrow> bit_at bs k \<or> (offset \<le> k \<and> k < offset + width \<and> bit v (width - 1 - (k - offset)))"
proof -
  have "(\<exists>b\<in>set [0..<width]. k = offset + b \<and> bit v (width - 1 - b))
      \<longleftrightarrow> offset \<le> k \<and> k < offset + width \<and> bit v (width - 1 - (k - offset))"
    by (auto intro: bexI [of _ "k - offset"])
  with assms show ?thesis
    using bit_at_write_loop [of "[0..<width]" offset bs k width v] by (simp add: write_bits_def)
qed

text \<open>A field written over zero bits is read back; other bits are as before.\<close>

lemma read_written:
  assumes "offset + width \<le> 8 * length bs" "width \<le> 64" "fits v width"
    and "\<And>k. offset \<le> k \<Longrightarrow> k < offset + width \<Longrightarrow> \<not> bit_at bs k"
  shows "read_bits (write_bits bs offset width v) offset width = v"
  using assms by (intro read_bits_eqI) (auto simp: bit_at_write)

lemma read_other:
  assumes "offset + width \<le> 8 * length bs" "off' + w' \<le> 8 * length bs" "w' \<le> 64"
    and "off' + w' \<le> offset \<or> offset + width \<le> off'"
  shows "read_bits (write_bits bs offset width v) off' w' = read_bits bs off' w'"
  using assms by (intro read_bits_cong) (auto simp: bit_at_write)

section \<open>Slots of packed items\<close>

text \<open>What a successful validation gives.\<close>

lemma validate_packing_Inr:
  assumes "validate_packing s = Inr u"
  shows "0 < item_bits s" "item_bits s \<le> 64" "0 < packing_bits s" "packing_bits s \<le> 64"
    "channel_tag_bits s \<le> 15" "event_tag_bits s \<le> 7"
    "item_bits s + channel_tag_bits s + event_tag_bits s \<le> packing_bits s"
    "0 < vector_size s" "vector_size s \<le> 65535" "0 < repeat_count s" "repeat_count s \<le> 65536"
    "repeating s = Repeat_none \<Longrightarrow> repeat_count s = 1"
    "repeating s = Repeat_component \<Longrightarrow> kind s \<noteq> Real_sample"
    "packing s = Processing_packing \<Longrightarrow> packing_bits s \<le> 32"
  using assms by (auto simp: validate_packing_def split: if_splits)

lemma per_word:
  assumes "validate_packing s = Inr u" "packing s = Processing_packing"
  shows "0 < 32 div packing_bits s" "32 div packing_bits s * packing_bits s \<le> 32"
  using validate_packing_Inr(3,14) [OF assms(1)] assms(2) by (simp_all add: div_greater_zero_iff)

lemma bit_offset_Suc:
  assumes "validate_packing s = Inr u"
  shows "bit_offset s i + packing_bits s \<le> bit_offset s (Suc i)"
proof (cases "packing s")
  case Link_packing
  then show ?thesis by (simp add: bit_offset_def)
next
  case Processing_packing
  let ?per = "32 div packing_bits s" and ?b = "packing_bits s"
  note per = per_word [OF assms Processing_packing]
  show ?thesis
  proof (cases "Suc (i mod ?per) = ?per")
    case True
    then have "(Suc i) mod ?per = 0" "Suc i div ?per = Suc (i div ?per)"
      by (simp_all add: mod_Suc div_Suc)
    moreover have "i mod ?per * ?b + ?b \<le> 32"
      using per(2) True by (metis add.commute mult_Suc)
    ultimately show ?thesis using Processing_packing by (simp add: bit_offset_def Let_def)
  next
    case False
    then have "(Suc i) mod ?per = Suc (i mod ?per)" "Suc i div ?per = i div ?per"
      by (simp_all add: mod_Suc div_Suc)
    then show ?thesis using Processing_packing by (simp add: bit_offset_def Let_def)
  qed
qed

lemma bit_offset_spaced:
  assumes "validate_packing s = Inr u" "i < j"
  shows "bit_offset s i + packing_bits s \<le> bit_offset s j"
  using assms(2)
proof (induction j)
  case (Suc j)
  then show ?case
    using bit_offset_Suc [OF assms(1), of j] by (cases "i = j") (auto simp: less_Suc_eq)
qed simp

lemma multiply_checked: "multiply = checked_multiply"
  by (intro ext) (simp add: multiply_def checked_multiply_def)

lemma bit_offset_words:
  assumes "validate_packing s = Inr u" "packed_words s n = Inr words"
  shows "bit_offset s n \<le> 32 * words"
proof (cases "packing s")
  case Link_packing
  then have "words = n * packing_bits s div 32 + (if n * packing_bits s mod 32 \<noteq> 0 then 1 else 0)"
    using assms(2) by (simp add: packed_words_def and_then_eq_Inr multiply_checked)
  moreover have "n * packing_bits s = 32 * (n * packing_bits s div 32) + n * packing_bits s mod 32"
    "n * packing_bits s mod 32 < 32"
    by simp_all
  ultimately show ?thesis using Link_packing by (auto simp: bit_offset_def split: if_splits)
next
  case Processing_packing
  let ?per = "32 div packing_bits s"
  note per = per_word [OF assms(1) Processing_packing]
  have "n mod ?per * packing_bits s \<le> ?per * packing_bits s"
    by (rule mult_le_mono1) (use per in simp)
  with per(2) have "n mod ?per * packing_bits s \<le> 32" by linarith
  with assms(2) Processing_packing show ?thesis
    by (cases "n mod ?per = 0") (auto simp: packed_words_def bit_offset_def Let_def)
qed

lemma measure_samples_Inr:
  assumes "measure_samples s structures limits = Inr sh"
  shows "validate_packing s = Inr ()" "sh_structures sh = structures"
    "sh_items_per_structure sh = vector_size s * repeat_count s * components (kind s)"
    "sh_items sh = structures * sh_items_per_structure sh" "sh_bytes sh \<le> max_bytes limits"
    "sh_items sh \<le> max_items limits" "\<exists>words. packed_words s (sh_items sh) = Inr words \<and> sh_bytes sh = words * 4"
  using assms by (auto simp: measure_samples_def and_then_eq_Inr multiply_checked)

lemma slot_in_bytes:
  assumes "measure_samples s structures limits = Inr sh" "i < sh_items sh"
  shows "bit_offset s i + packing_bits s \<le> 8 * sh_bytes sh"
proof -
  note m = measure_samples_Inr [OF assms(1)]
  from m(7) obtain words where "packed_words s (sh_items sh) = Inr words" "sh_bytes sh = words * 4" by blast
  with bit_offset_words [OF m(1)] bit_offset_spaced [OF m(1) assms(2)] show ?thesis by fastforce
qed

section \<open>Items survive packing\<close>

lemma length_write_item [simp]: "length (write_item s wire off it) = length wire"
  by (simp add: write_item_def Let_def)

lemma length_write_items [simp]: "length (write_items s wire i items) = length wire"
  by (induction items arbitrary: wire i) simp_all

text \<open>Writing one item changes only the bits of its slot, and fills a zero slot with the item.\<close>

lemma write_item_outside:
  assumes "validate_packing s = Inr u" "off + packing_bits s \<le> 8 * length wire" "k < 8 * length wire"
    and "k < off \<or> off + packing_bits s \<le> k"
  shows "bit_at (write_item s wire off it) k = bit_at wire k"
proof -
  note v = validate_packing_Inr [OF assms(1)]
  show ?thesis
    unfolding write_item_def Let_def using assms v(7) by (auto simp: bit_at_write)
qed

lemma write_item_read:
  assumes valid: "validate_packing s = Inr u" and room: "off + packing_bits s \<le> 8 * length wire"
    and "item_fits s it" and zero: "\<And>k. off \<le> k \<Longrightarrow> k < off + packing_bits s \<Longrightarrow> \<not> bit_at wire k"
  shows "read_item (write_item s wire off it) s off = it"
proof -
  note v = validate_packing_Inr [OF valid]
  let ?c = "off + packing_bits s - channel_tag_bits s"
  let ?e = "?c - event_tag_bits s"
  define w1 where "w1 = write_bits wire off (item_bits s) (data_bits it)"
  define w2 where "w2 = write_bits w1 ?c (channel_tag_bits s) (channel_tag it)"
  define w3 where "w3 = write_bits w2 ?e (event_tag_bits s) (event_tag it)"
  have len: "length w1 = length wire" "length w2 = length wire" by (simp_all add: w1_def w2_def)
  have fit: "fits (data_bits it) (item_bits s)" "fits (channel_tag it) (channel_tag_bits s)"
    "fits (event_tag it) (event_tag_bits s)"
    using assms(3) by (simp_all add: item_fits_def)
  have order: "off + item_bits s \<le> ?e" "?e + event_tag_bits s = ?c" "?c + channel_tag_bits s = off + packing_bits s"
    using v(7) by linarith+
  have r1: "read_bits w1 off (item_bits s) = data_bits it"
    unfolding w1_def using order room v(2) fit(1) by (intro read_written zero) linarith+
  have r2: "read_bits w2 ?c (channel_tag_bits s) = channel_tag it"
    unfolding w2_def
  proof (rule read_written)
    fix k assume "?c \<le> k" "k < ?c + channel_tag_bits s"
    then show "\<not> bit_at w1 k" unfolding w1_def using order room zero [of k] by (simp add: bit_at_write)
  qed (use order room v(5) fit(2) len in linarith)+
  have r3: "read_bits w3 ?e (event_tag_bits s) = event_tag it"
    unfolding w3_def
  proof (rule read_written)
    fix k assume "?e \<le> k" "k < ?e + event_tag_bits s"
    then show "\<not> bit_at w2 k"
      unfolding w2_def w1_def using order room zero [of k] by (simp add: bit_at_write)
  qed (use order room v(6) fit(3) len in linarith)+
  have "read_bits w3 off (item_bits s) = data_bits it"
    unfolding r1 [symmetric] w3_def w2_def using order room v(2) len by (simp add: read_other)
  moreover have "read_bits w3 ?c (channel_tag_bits s) = channel_tag it"
    unfolding r2 [symmetric] w3_def using order room v(5) len by (simp add: read_other)
  moreover have "write_item s wire off it = w3"
    by (simp add: write_item_def w1_def w2_def w3_def)
  ultimately show ?thesis by (simp only: read_item_def r3) simp
qed

lemma read_item_cong:
  assumes "validate_packing s = Inr u"
    and "\<And>k. off \<le> k \<Longrightarrow> k < off + packing_bits s \<Longrightarrow> bit_at bs k = bit_at bs' k"
  shows "read_item bs s off = read_item bs' s off"
  unfolding read_item_def
  using validate_packing_Inr(2,5,6,7) [OF assms(1)]
  by (auto intro!: read_bits_cong assms(2))

text \<open>Writing from item \<open>i\<close> on leaves the earlier slots and stores each item in its own.\<close>

lemma write_items_keep:
  assumes "validate_packing s = Inr u" "items \<noteq> [] \<Longrightarrow> bit_offset s (i + length items - 1) + packing_bits s \<le> 8 * length wire"
    and "k < bit_offset s i" "k < 8 * length wire"
  shows "bit_at (write_items s wire i items) k = bit_at wire k"
  using assms(2-)
proof (induction items arbitrary: i wire)
  case (Cons it items)
  have last: "bit_offset s (i + length items) + packing_bits s \<le> 8 * length wire" using Cons.prems(1) by simp
  have "bit_offset s i \<le> bit_offset s (i + length items)"
    using bit_offset_spaced [OF assms(1), of i "i + length items"] by (cases items) auto
  with last have room: "bit_offset s i + packing_bits s \<le> 8 * length wire" by linarith
  have "bit_at (write_items s (write_item s wire (bit_offset s i) it) (Suc i) items) k
      = bit_at (write_item s wire (bit_offset s i) it) k"
    using last Cons.prems(2,3) bit_offset_Suc [OF assms(1), of i] by (intro Cons.IH) auto
  also have "\<dots> = bit_at wire k"
    using write_item_outside [OF assms(1) room Cons.prems(3)] Cons.prems(2) by blast
  finally show ?case by simp
qed simp

lemma write_items_read:
  assumes valid: "validate_packing s = Inr u"
    and "\<And>j. i \<le> j \<Longrightarrow> j < i + length items \<Longrightarrow> bit_offset s j + packing_bits s \<le> 8 * length wire"
    and "list_all (item_fits s) items" and "\<And>k. bit_offset s i \<le> k \<Longrightarrow> k < 8 * length wire \<Longrightarrow> \<not> bit_at wire k"
    and "n < length items"
  shows "read_item (write_items s wire i items) s (bit_offset s (i + n)) = items ! n"
  using assms(2-)
proof (induction items arbitrary: i wire n)
  case (Cons it items)
  let ?w = "write_item s wire (bit_offset s i) it"
  have room: "bit_offset s i + packing_bits s \<le> 8 * length wire" using Cons.prems(1) [of i] by simp
  have rooms: "bit_offset s j + packing_bits s \<le> 8 * length wire" if "Suc i \<le> j" "j < Suc i + length items" for j
    using Cons.prems(1) [of j] that by simp
  have zero: "\<not> bit_at ?w k" if "bit_offset s (Suc i) \<le> k" "k < 8 * length wire" for k
    using write_item_outside [OF valid room that(2)] bit_offset_Suc [OF valid, of i] Cons.prems(3) [of k] that
    by simp
  have rest: "\<not> bit_at wire k" if "bit_offset s i \<le> k" "k < bit_offset s i + packing_bits s" for k
    using Cons.prems(3) [of k] that room by simp
  show ?case
  proof (cases n)
    case 0
    have "read_item (write_items s ?w (Suc i) items) s (bit_offset s i) = read_item ?w s (bit_offset s i)"
    proof (rule read_item_cong [OF valid], rule write_items_keep [OF valid])
      show "bit_offset s (Suc i + length items - 1) + packing_bits s \<le> 8 * length ?w" if "items \<noteq> []"
        using rooms [of "i + length items"] that by (cases items) simp_all
    qed (use bit_offset_Suc [OF valid, of i] room in simp_all)
    also have "\<dots> = it"
      using Cons.prems(2) by (intro write_item_read [OF valid room _ rest]) simp_all
    finally show ?thesis using 0 by simp
  next
    case (Suc m)
    have "read_item (write_items s ?w (Suc i) items) s (bit_offset s (Suc i + m)) = items ! m"
      using Cons.prems(2,4) Suc rooms zero by (intro Cons.IH) simp_all
    then show ?thesis using Suc by simp
  qed
qed simp

lemma replicate_zero_bits: "k < 8 * n \<Longrightarrow> \<not> bit_at (replicate n 0) k"
  by (simp add: bit_at_def less_mult_imp_div_less mult.commute)

text \<open>C22: items packed under a specification are read back one by one, data, channel tag and event
  tag, from the bytes written, and the rest of the output buffer keeps its bytes.\<close>

theorem pack_then_read:
  assumes "pack_samples spec structures items items_addr buf out_addr limits = Inr (n, out)"
    and "i < length items"
  shows "\<exists>p. packed_create (take n out) spec structures limits = Inr p
    \<and> sh_items (ps_shape p) = length items \<and> packed_at p i = Inr (items ! i) \<and> drop n out = drop n buf"
proof -
  from assms(1) obtain sh where measure: "measure_samples spec structures limits = Inr sh"
    and len: "length items = sh_items sh" and buf: "sh_bytes sh \<le> length buf"
    and fit: "list_all (item_fits spec) items" and n: "n = sh_bytes sh"
    and out: "out = write_items spec (replicate (sh_bytes sh) 0) 0 items @ drop (sh_bytes sh) buf"
    by (auto simp: pack_samples_def and_then_eq_Inr Let_def)
  note valid = measure_samples_Inr(1) [OF measure]
  let ?wire = "write_items spec (replicate n 0) 0 items"
  have "read_item ?wire spec (bit_offset spec (0 + i)) = items ! i"
    using assms(2) fit len slot_in_bytes [OF measure] n
    by (intro write_items_read [OF valid]) (simp_all add: replicate_zero_bits)
  moreover have "take n out = ?wire" "drop n out = drop n buf" using out n by simp_all
  ultimately show ?thesis
    using measure assms(2) len n by (simp add: packed_create_def packed_at_def)
qed

text \<open>Two 12-bit items with a 4-bit channel tag, packed to 16 bits.\<close>

definition tagged_spec :: packing_spec where
  "tagged_spec = \<lparr>item_bits = 12, packing_bits = 16, channel_tag_bits = 4, event_tag_bits = 0,
     packing = Link_packing, kind = Real_sample, repeating = Repeat_none, vector_size = 2, repeat_count = 1\<rparr>"

theorem pack_then_read_witness:
  "\<exists>p. packed_create (take 4 [0xab, 0xc5, 0x12, 0x36, 7]) tagged_spec 1 default_limits = Inr p
    \<and> sh_items (ps_shape p) = 2
    \<and> packed_at p 1 = Inr \<lparr>data_bits = 0x123, channel_tag = 6, event_tag = 0\<rparr>
    \<and> drop 4 [0xab, 0xc5, 0x12, 0x36, 7] = [7]"
proof -
  let ?items = "[\<lparr>data_bits = 0xabc, channel_tag = 5, event_tag = 0\<rparr>, \<lparr>data_bits = 0x123, channel_tag = 6, event_tag = 0\<rparr>]"
  have bits: "[0..<12::nat] = [0, 1, 2, 3, 4, 5, 6, 7, 8, 9, 10, 11]" "[0..<4::nat] = [0, 1, 2, 3]"
    by (simp_all add: upt_conv_Cons)
  have zeros: "replicate 4 (0 :: u8) = [0, 0, 0, 0]" by (simp add: eval_nat_numeral)
  have m: "measure_samples tagged_spec 1 default_limits
      = Inr \<lparr>sh_structures = 1, sh_items_per_structure = 2, sh_items = 2, sh_bytes = 4\<rparr>"
    by (simp add: measure_samples_def validate_packing_def tagged_spec_def default_limits_def
        multiply_def size_max_def components_def packed_words_def)
  have w1: "write_item tagged_spec [0, 0, 0, 0] 0 (?items ! 0) = [0xab, 0xc5, 0, 0]"
    by (simp add: tagged_spec_def write_item_def write_bits_def bits)
  have w2: "write_item tagged_spec [0xab, 0xc5, 0, 0] 16 (?items ! 1) = [0xab, 0xc5, 0x12, 0x36]"
    by (simp add: tagged_spec_def write_item_def write_bits_def bits)
  have off: "bit_offset tagged_spec 0 = 0" "bit_offset tagged_spec 1 = 16"
    by (simp_all add: bit_offset_def tagged_spec_def)
  have mul: "multiply (length ?items) item_size = Inr 48"
    by (simp add: multiply_checked item_size_def size_max_def)
  have fit: "list_all (item_fits tagged_spec) ?items"
    by (simp add: item_fits_def fits_def tagged_spec_def)
  have "write_items tagged_spec [0, 0, 0, 0] 0 ?items = [0xab, 0xc5, 0x12, 0x36]"
    using w1 w2 off by simp
  then have "pack_samples tagged_spec 1 ?items 100 [1, 2, 3, 4, 7] 200 default_limits
      = Inr (4, [0xab, 0xc5, 0x12, 0x36, 7])"
    unfolding pack_samples_def m mul using fit zeros by (simp add: overlap_def Let_def)
  from pack_then_read [OF this, of 1] show ?thesis by (simp add: numeral_2_eq_2)
qed

section \<open>Item coordinates\<close>

text \<open>An item's position in the repeat structure, and back. The three arrangements are
  mixed-radix numbers over component, time and channel.\<close>

lemma components_pos [simp]: "0 < components k"
  by (simp add: components_def)

lemma mixed_radix:
  fixes a b c :: nat
  assumes "c < m"
  shows "(a * m + c) div m = a" "(a * m + c) mod m = c"
  using assms by simp_all

text \<open>A bijection between indices and coordinates: an operation pair inverse on the ranges.\<close>

definition in_shape :: "packed_samples \<Rightarrow> coordinates \<Rightarrow> bool" where
  "in_shape p x \<longleftrightarrow> co_structure x < sh_structures (ps_shape p) \<and> co_time x < repeat_count (ps_spec p)
     \<and> co_channel x < vector_size (ps_spec p) \<and> co_component x < components (kind (ps_spec p))"

lemma packed_create_Inr:
  assumes "packed_create bs spec structures limits = Inr p"
  shows "ps_spec p = spec" "measure_samples spec structures limits = Inr (ps_shape p)" "ps_bytes p = bs"
    "length bs = sh_bytes (ps_shape p)"
  using assms by (auto simp: packed_create_def and_then_eq_Inr)

definition local_index :: "packing_spec \<Rightarrow> nat \<Rightarrow> nat \<Rightarrow> nat \<Rightarrow> nat" where
  "local_index s time channel component = (let c = components (kind s); r = repeat_count s in
     if repeating s = Repeat_component
     then let linear = time * vector_size s + channel in (linear div r * c + component) * r + linear mod r
     else if repeating s = Repeat_channel then (channel * r + time) * c + component
     else channel * c + component)"

definition local_coordinates :: "packing_spec \<Rightarrow> nat \<Rightarrow> nat \<times> nat \<times> nat" where
  "local_coordinates s local = (let c = components (kind s); r = repeat_count s; v = vector_size s in
     if repeating s = Repeat_component
     then let linear = local div (c * r) * r + local mod r in (linear div v, linear mod v, local div r mod c)
     else if repeating s = Repeat_channel then (local div c mod r, local div (c * r), local mod c)
     else (0, local div c, local mod c))"

lemma less_mult_mixed: "a < m \<Longrightarrow> b < k \<Longrightarrow> a * k + b < m * (k :: nat)"
  by (metis mult.commute mult_Suc_right add.commute add_less_cancel_left less_le_trans
      Suc_leI mult_le_mono1)

lemma local_coordinates_index:
  assumes "validate_packing s = Inr u" "t < repeat_count s" "ch < vector_size s" "k < components (kind s)"
  shows "local_coordinates s (local_index s t ch k) = (t, ch, k)"
    and "local_index s t ch k < vector_size s * repeat_count s * components (kind s)"
proof -
  let ?c = "components (kind s)" and ?r = "repeat_count s" and ?v = "vector_size s"
  note v = validate_packing_Inr [OF assms(1)]
  have "local_coordinates s (local_index s t ch k) = (t, ch, k) \<and> local_index s t ch k < ?v * ?r * ?c"
  proof (cases "repeating s")
    case Repeat_none
    with v(12) assms have "t = 0" "?r = 1" by simp_all
    with Repeat_none assms less_mult_mixed [of ch ?v k ?c] show ?thesis
      by (simp add: local_coordinates_def local_index_def)
  next
    case Repeat_component
    let ?l = "t * ?v + ch"
    have l: "?l < ?r * ?v" using assms by (intro less_mult_mixed)
    have lr: "?l div ?r < ?v" using l by (simp add: less_mult_imp_div_less mult.commute)
    have r: "?l mod ?r < ?r" using v(10) by simp
    have inner: "(?l div ?r * ?c + k) * ?r + ?l mod ?r = ?l div ?r * (?c * ?r) + (k * ?r + ?l mod ?r)"
      by (simp add: algebra_simps)
    have "k * ?r + ?l mod ?r < ?c * ?r" using assms r by (intro less_mult_mixed)
    then have outer: "((?l div ?r * ?c + k) * ?r + ?l mod ?r) div (?c * ?r) = ?l div ?r"
      unfolding inner by (rule mixed_radix(1))
    have "?l div ?r * (?c * ?r) + (k * ?r + ?l mod ?r) < ?v * (?c * ?r)"
      using lr \<open>k * ?r + ?l mod ?r < ?c * ?r\<close> by (rule less_mult_mixed)
    moreover have "local_coordinates s (local_index s t ch k) = (t, ch, k)"
      using Repeat_component outer r assms
      by (simp add: local_coordinates_def local_index_def Let_def)
    ultimately show ?thesis
      using Repeat_component inner by (simp add: local_index_def Let_def mult.commute mult.left_commute)
  next
    case Repeat_channel
    have "(ch * ?r + t) * ?c + k = ch * (?c * ?r) + (t * ?c + k)" by (simp add: algebra_simps)
    moreover have "t * ?c + k < ?c * ?r" using less_mult_mixed assms by (metis mult.commute)
    ultimately have "((ch * ?r + t) * ?c + k) div (?c * ?r) = ch" "(ch * ?r + t) * ?c + k < ?v * (?c * ?r)"
      using assms(3) by (simp_all only: mixed_radix less_mult_mixed)
    with Repeat_channel assms show ?thesis
      by (simp add: local_coordinates_def local_index_def Let_def mult.commute mult.left_commute)
  qed
  then show "local_coordinates s (local_index s t ch k) = (t, ch, k)"
    "local_index s t ch k < ?v * ?r * ?c" by blast+
qed

lemma local_index_onto:
  assumes valid: "validate_packing s = Inr u"
    and local: "local < vector_size s * repeat_count s * components (kind s)"
  obtains t ch k where "t < repeat_count s" "ch < vector_size s" "k < components (kind s)"
    "local_index s t ch k = local"
proof -
  let ?D = "{..<repeat_count s} \<times> {..<vector_size s} \<times> {..<components (kind s)}"
  let ?N = "vector_size s * repeat_count s * components (kind s)"
  let ?f = "\<lambda>(t, ch, k). local_index s t ch k"
  have inv: "local_coordinates s (?f x) = x" "?f x < ?N" if "x \<in> ?D" for x
    using that local_coordinates_index [OF valid] by auto
  then have "inj_on ?f ?D" by (metis (no_types, lifting) inj_onI)
  then have "card (?f ` ?D) = ?N" by (simp add: card_image card_cartesian_product)
  moreover have "?f ` ?D \<subseteq> {..<?N}" using inv(2) by blast
  ultimately have "?f ` ?D = {..<?N}" by (simp add: card_subset_eq)
  with local have "local \<in> ?f ` ?D" by simp
  with that show thesis by auto
qed

lemma packed_index_local:
  "in_shape p x \<Longrightarrow> packed_index p x
     = Inr (co_structure x * sh_items_per_structure (ps_shape p)
         + local_index (ps_spec p) (co_time x) (co_channel x) (co_component x))"
  by (auto simp: packed_index_def in_shape_def local_index_def Let_def)

lemma packed_coordinates_local:
  assumes "index < sh_items (ps_shape p)"
    and "local_coordinates (ps_spec p) (index mod sh_items_per_structure (ps_shape p)) = (t, ch, k)"
  shows "packed_coordinates p index = Inr \<lparr>co_structure = index div sh_items_per_structure (ps_shape p),
     co_time = to_u32 t, co_channel = to_u32 ch, co_component = to_u32 k\<rparr>"
  using assms by (auto simp: packed_coordinates_def local_coordinates_def Let_def split: if_splits)

text \<open>the items of a payload and their coordinates (structure, repeat, channel, component) are in
  one-to-one correspondence: every item has coordinates within the declared extents, from which its
  index is found again, and all coordinates within the extents are those of an item.\<close>

theorem coordinates_bijective:
  assumes "packed_create bs spec structures limits = Inr p"
  shows "(\<forall>index < sh_items (ps_shape p). \<exists>x. packed_coordinates p index = Inr x \<and> in_shape p x
      \<and> packed_index p x = Inr index)
    \<and> (\<forall>x. in_shape p x \<longrightarrow> (\<exists>index < sh_items (ps_shape p). packed_index p x = Inr index
      \<and> packed_coordinates p index = Inr x))"
proof -
  note c = packed_create_Inr [OF assms] and m = measure_samples_Inr [OF packed_create_Inr(2) [OF assms]]
  note v = validate_packing_Inr [OF m(1)]
  let ?g = "sh_items_per_structure (ps_shape p)"
  have g: "?g = vector_size spec * repeat_count spec * components (kind spec)" "0 < ?g"
    using m(3) v(8,10) by simp_all
  have u32: "to_u32 t = t" "to_u32 ch = ch" "to_u32 k = k"
    if "t < repeat_count spec" "ch < vector_size spec" "k < components (kind spec)" for t ch k
    using that v(9,11) by (auto simp: to_u32_def components_def split: if_splits)
  have split: "packed_index p x = Inr index \<and> packed_coordinates p index = Inr x \<and> index < sh_items (ps_shape p)"
    if "in_shape p x" "index = co_structure x * ?g + local_index spec (co_time x) (co_channel x) (co_component x)"
    for x index
  proof -
    from that(1) have r: "co_structure x < structures" "co_time x < repeat_count spec"
      "co_channel x < vector_size spec" "co_component x < components (kind spec)"
      by (simp_all add: in_shape_def c m)
    note l = local_coordinates_index [OF m(1) r(2-4)]
    then have "index div ?g = co_structure x" "index mod ?g = local_index spec (co_time x) (co_channel x) (co_component x)"
      unfolding that(2) using g by simp_all
    moreover have "index < sh_items (ps_shape p)"
      unfolding that(2) m(4) using r(1) l(2) g less_mult_mixed by metis
    ultimately show ?thesis
      using that packed_coordinates_local [of index p] l(1) u32 [OF r(2-4)] by (simp add: packed_index_local c)
  qed
  have "\<exists>x. packed_coordinates p index = Inr x \<and> in_shape p x \<and> packed_index p x = Inr index"
    if i: "index < sh_items (ps_shape p)" for index
  proof -
    have "index mod ?g < vector_size spec * repeat_count spec * components (kind spec)" using g by simp
    from local_index_onto [OF m(1) this] obtain t ch k where tck: "t < repeat_count spec" "ch < vector_size spec"
      "k < components (kind spec)" "local_index spec t ch k = index mod ?g" by metis
    let ?x = "\<lparr>co_structure = index div ?g, co_time = t, co_channel = ch, co_component = k\<rparr>"
    have "index div ?g < structures" using i m(4) by (simp add: less_mult_imp_div_less)
    with tck have "in_shape p ?x" by (simp add: in_shape_def c m)
    moreover from tck(4) have "index = index div ?g * ?g + local_index spec t ch k" by simp
    ultimately show ?thesis using split [of ?x index] by auto
  qed
  moreover have "\<exists>index < sh_items (ps_shape p). packed_index p x = Inr index \<and> packed_coordinates p index = Inr x"
    if "in_shape p x" for x
    using split [OF that refl] by blast
  ultimately show ?thesis by blast
qed

definition tagged_payload :: packed_samples where
  "tagged_payload = \<lparr>ps_bytes = [0xab, 0xc5, 0x12, 0x36], ps_spec = tagged_spec,
     ps_shape = \<lparr>sh_structures = 1, sh_items_per_structure = 2, sh_items = 2, sh_bytes = 4\<rparr>\<rparr>"

theorem coordinates_bijective_witness:
  "\<exists>x. packed_coordinates tagged_payload 1 = Inr x \<and> in_shape tagged_payload x
     \<and> packed_index tagged_payload x = Inr 1"
proof -
  have m: "measure_samples tagged_spec 1 default_limits = Inr (ps_shape tagged_payload)"
    by (simp add: measure_samples_def validate_packing_def tagged_spec_def default_limits_def tagged_payload_def
        multiply_def size_max_def components_def packed_words_def)
  have "packed_create (ps_bytes tagged_payload) tagged_spec 1 default_limits = Inr tagged_payload"
    unfolding packed_create_def m by (simp add: tagged_payload_def)
  from coordinates_bijective [OF this] show ?thesis by (simp add: tagged_payload_def)
qed

end
