(* ===== verification/Numeric_Samples.thy ===== *)
theory Numeric_Samples
  imports Prelude Complex_Main
begin

text \<open>
  Exact numeric sample values (\<^verbatim>\<open>codec/numeric_samples.hpp\<close>): fixed-point, non-normalized
  and VRT floating-point formats of up to 64 bits, decoded to a binary value and encoded under a
  rounding and overflow policy. A \<^verbatim>\<open>std::uint64_t\<close> is a \<open>nat\<close> below \<open>2 ^ 64\<close> whose left
  shifts, products and complements are reduced modulo \<open>2 ^ 64\<close>; exponents are \<open>int\<close>, cut
  to 16 bits where the code does.
\<close>

section \<open>Machine helpers\<close>

definition u64_wrap :: "nat \<Rightarrow> nat" where
  "u64_wrap n = n mod 2 ^ 64"

definition shl64 :: "nat \<Rightarrow> nat \<Rightarrow> nat" where
  "shl64 n k = u64_wrap (n * 2 ^ k)"

text \<open>\<open>~n + 1\<close>\<close>

definition neg64 :: "nat \<Rightarrow> nat" where
  "neg64 n = u64_wrap (2 ^ 64 - n)"

definition int16_wrap :: "int \<Rightarrow> int" where
  "int16_wrap i = (i + 32768) mod 65536 - 32768"

fun bit_width :: "nat \<Rightarrow> nat" where
  "bit_width n = (if n = 0 then 0 else Suc (bit_width (n div 2)))"

fun countr_zero :: "nat \<Rightarrow> nat" where
  "countr_zero n = (if n = 0 then 64 else if odd n then 0 else Suc (countr_zero (n div 2)))"

declare bit_width.simps [simp del] countr_zero.simps [simp del]

section \<open>Values, formats and policies\<close>

record binary_value =
  bv_magnitude :: nat
  bv_exponent :: int
  bv_negative :: bool

datatype numeric_kind = Unsigned_fixed | Signed_fixed | Unsigned_non_normalized
  | Signed_non_normalized | Unsigned_vrt | Signed_vrt

record numeric_spec =
  ns_kind :: numeric_kind
  ns_bits :: nat
  ns_fractional_bits :: nat
  ns_exponent_bits :: nat

datatype precision = Exact_only | Allow_rounding
datatype rounding = Nearest_ties_even | Toward_zero | Toward_negative | Toward_positive
datatype overflow_policy = Overflow_error | Overflow_saturate
datatype vrt_encoding = Lowest_exponent

record conversion_policy =
  cp_precision :: precision
  cp_rounding :: rounding
  cp_overflow :: overflow_policy
  cp_vrt_encoding :: vrt_encoding

record encoded_value =
  ev_bits :: nat
  ev_rounded :: bool
  ev_saturated :: bool

definition num_mask :: "nat \<Rightarrow> nat" where
  "num_mask n = (if n = 64 then 2 ^ 64 - 1 else shl64 1 n - 1)"

definition signed_kind :: "numeric_kind \<Rightarrow> bool" where
  "signed_kind k \<longleftrightarrow> k = Signed_fixed \<or> k = Signed_non_normalized \<or> k = Signed_vrt"

definition vrt_kind :: "numeric_kind \<Rightarrow> bool" where
  "vrt_kind k \<longleftrightarrow> k = Signed_vrt \<or> k = Unsigned_vrt"

definition non_normalized :: "numeric_kind \<Rightarrow> bool" where
  "non_normalized k \<longleftrightarrow> k = Signed_non_normalized \<or> k = Unsigned_non_normalized"

definition validate_numeric :: "numeric_spec \<Rightarrow> unit result" where
  "validate_numeric s =
     (if ns_bits s < 1 \<or> ns_bits s > 64 then Inl (err Invalid_argument)
      else if vrt_kind (ns_kind s)
      then (if ns_exponent_bits s < 1 \<or> ns_exponent_bits s > 6 \<or> ns_exponent_bits s \<ge> ns_bits s
              \<or> ns_fractional_bits s \<noteq> 0 then Inl (err Invalid_argument) else Inr ())
      else if ns_exponent_bits s \<noteq> 0
        \<or> (if non_normalized (ns_kind s) then ns_fractional_bits s \<ge> ns_bits s \<or> ns_fractional_bits s > 15
            else ns_fractional_bits s \<noteq> 0) then Inl (err Invalid_argument)
      else Inr ())"

definition mantissa_bits :: "numeric_spec \<Rightarrow> nat" where
  "mantissa_bits s = ns_bits s - (if vrt_kind (ns_kind s) then ns_exponent_bits s else 0)"

definition quantum :: "numeric_spec \<Rightarrow> nat \<Rightarrow> int" where
  "quantum s e =
     (if non_normalized (ns_kind s) then - int (ns_fractional_bits s)
      else let width = int (mantissa_bits s) - (if signed_kind (ns_kind s) then 1 else 0)
        in - width + (if vrt_kind (ns_kind s) then int e - int (num_mask (ns_exponent_bits s)) else 0))"

definition compare_magnitude :: "binary_value \<Rightarrow> binary_value \<Rightarrow> int" where
  "compare_magnitude a b =
     (if bv_magnitude a = 0 \<or> bv_magnitude b = 0
      then (if bv_magnitude a \<noteq> 0 then 1 else if bv_magnitude b \<noteq> 0 then - 1 else 0)
      else let aw = bit_width (bv_magnitude a); bw = bit_width (bv_magnitude b);
        atop = bv_exponent a + int aw; btop = bv_exponent b + int bw
      in if atop \<noteq> btop then (if atop < btop then - 1 else 1)
         else let am = shl64 (bv_magnitude a) (64 - aw); bm = shl64 (bv_magnitude b) (64 - bw)
         in if am < bm then - 1 else if am > bm then 1 else 0)"

record quantized =
  qz_magnitude :: nat
  qz_residue :: bool
  qz_overflow :: bool

definition round_up :: "rounding \<Rightarrow> bool \<Rightarrow> nat \<Rightarrow> nat \<Rightarrow> nat \<Rightarrow> bool" where
  "round_up mode negative right quot remainder =
     (remainder \<noteq> 0 \<and>
       (case mode of Toward_negative \<Rightarrow> negative
         | Toward_positive \<Rightarrow> \<not> negative
         | Nearest_ties_even \<Rightarrow> right \<le> 64 \<and>
             (let half = shl64 1 (right - 1) in remainder > half \<or> (remainder = half \<and> odd quot))
         | Toward_zero \<Rightarrow> False))"

definition quantize :: "binary_value \<Rightarrow> int \<Rightarrow> rounding \<Rightarrow> quantized" where
  "quantize v q mode = (let shift = bv_exponent v - q in
     if bv_magnitude v = 0 then \<lparr>qz_magnitude = 0, qz_residue = False, qz_overflow = False\<rparr>
     else if shift \<ge> 0
     then (if shift \<ge> 64 \<or> int (bit_width (bv_magnitude v)) + shift > 64
           then \<lparr>qz_magnitude = 0, qz_residue = False, qz_overflow = True\<rparr>
           else \<lparr>qz_magnitude = shl64 (bv_magnitude v) (nat shift), qz_residue = False, qz_overflow = False\<rparr>)
     else let right = nat (- shift);
            quot = (if right \<ge> 64 then 0 else bv_magnitude v div 2 ^ right);
            remainder = (if right \<ge> 64 then bv_magnitude v else bv_magnitude v mod 2 ^ right);
            increment = round_up mode (bv_negative v) right quot remainder
     in if increment \<and> quot = 2 ^ 64 - 1
        then \<lparr>qz_magnitude = 0, qz_residue = remainder \<noteq> 0, qz_overflow = True\<rparr>
        else \<lparr>qz_magnitude = quot + of_bool increment, qz_residue = remainder \<noteq> 0, qz_overflow = False\<rparr>)"

definition canonicalize :: "binary_value \<Rightarrow> binary_value result" where
  "canonicalize v =
     (if bv_magnitude v = 0 then Inr \<lparr>bv_magnitude = 0, bv_exponent = 0, bv_negative = False\<rparr>
      else let trailing = countr_zero (bv_magnitude v); exponent = bv_exponent v + int trailing
        in if exponent > 32767 then Inl (err Overflow)
           else Inr \<lparr>bv_magnitude = bv_magnitude v div 2 ^ trailing, bv_exponent = int16_wrap exponent,
             bv_negative = bv_negative v\<rparr>)"

definition decode_numeric :: "numeric_spec \<Rightarrow> nat \<Rightarrow> binary_value result" where
  "decode_numeric spec bits =
     and_then (validate_numeric spec) (\<lambda>_.
     if bits div 2 ^ ns_bits spec \<noteq> 0 then Inl (err Invalid_argument)
     else let m = mantissa_bits spec;
       e = (if vrt_kind (ns_kind spec) then bits mod 2 ^ ns_exponent_bits spec else 0);
       mantissa = (if vrt_kind (ns_kind spec) then bits div 2 ^ ns_exponent_bits spec else bits);
       negative = (signed_kind (ns_kind spec) \<and> bit mantissa (m - 1));
       magnitude = (if negative then neg64 mantissa mod 2 ^ m else mantissa)
     in canonicalize \<lparr>bv_magnitude = magnitude, bv_exponent = int16_wrap (quantum spec e), bv_negative = negative\<rparr>)"

text \<open>The inner loop: a rounded value that fits the finer domain is moved there.\<close>

primrec lower_exponent :: "nat \<Rightarrow> nat \<Rightarrow> nat \<Rightarrow> nat \<times> nat" where
  "lower_exponent max_mag magnitude 0 = (magnitude, 0)"
| "lower_exponent max_mag magnitude (Suc e) =
     (if magnitude \<noteq> 0 \<and> magnitude \<le> max_mag div 2 then lower_exponent max_mag (u64_wrap (magnitude * 2)) e
      else (magnitude, Suc e))"

definition encoded_bits :: "numeric_spec \<Rightarrow> nat \<Rightarrow> bool \<Rightarrow> nat \<Rightarrow> nat \<Rightarrow> nat" where
  "encoded_bits spec m negative magnitude e =
     (let mantissa = (if negative then neg64 magnitude mod 2 ^ m else magnitude)
      in if vrt_kind (ns_kind spec) then shl64 mantissa (ns_exponent_bits spec) OR e else mantissa)"

primrec encode_loop :: "numeric_spec \<Rightarrow> binary_value \<Rightarrow> conversion_policy \<Rightarrow> nat \<Rightarrow> bool \<Rightarrow> nat list
    \<Rightarrow> encoded_value result" where
  "encode_loop spec v policy max_mag saturated [] = Inl (err Invalid_argument)"
| "encode_loop spec v policy max_mag saturated (e # es) =
     (let r = quantize v (quantum spec e) (cp_rounding policy)
      in if qz_overflow r \<or> qz_magnitude r > max_mag then encode_loop spec v policy max_mag saturated es
         else if qz_residue r \<and> cp_precision policy = Exact_only then encode_loop spec v policy max_mag saturated es
         else let (magnitude, encoded_e) = lower_exponent max_mag (qz_magnitude r) e
           in Inr \<lparr>ev_bits = (if qz_magnitude r = 0 then 0
                else encoded_bits spec (mantissa_bits spec) (bv_negative v) magnitude encoded_e),
              ev_rounded = qz_residue r, ev_saturated = saturated\<rparr>)"

definition max_exponent_code :: "numeric_spec \<Rightarrow> nat" where
  "max_exponent_code s = (if vrt_kind (ns_kind s) then num_mask (ns_exponent_bits s) else 0)"

definition max_magnitude :: "numeric_spec \<Rightarrow> bool \<Rightarrow> nat" where
  "max_magnitude s negative = (let m = mantissa_bits s in
     if signed_kind (ns_kind s) then (if negative then shl64 1 (m - 1) else num_mask (m - 1)) else num_mask m)"

definition encode_numeric :: "numeric_spec \<Rightarrow> binary_value \<Rightarrow> conversion_policy \<Rightarrow> encoded_value result" where
  "encode_numeric spec v policy =
     and_then (validate_numeric spec) (\<lambda>_.
     if bv_magnitude v = 0 then Inr \<lparr>ev_bits = 0, ev_rounded = False, ev_saturated = False\<rparr>
     else let signed_format = signed_kind (ns_kind spec); max_e = max_exponent_code spec;
       max_mag = max_magnitude spec (bv_negative v);
       bound = \<lparr>bv_magnitude = max_mag, bv_exponent = int16_wrap (quantum spec max_e), bv_negative = bv_negative v\<rparr>;
       beyond = ((\<not> signed_format \<and> bv_negative v) \<or> compare_magnitude v bound > 0)
     in if beyond \<and> (cp_overflow policy = Overflow_error \<or> cp_precision policy = Exact_only) then Inl (err Overflow)
        else if beyond \<and> \<not> signed_format \<and> bv_negative v then Inr \<lparr>ev_bits = 0, ev_rounded = False, ev_saturated = True\<rparr>
        else encode_loop spec (if beyond then bound else v) policy max_mag beyond [0..<max_e + 1])"

definition convert_numeric :: "numeric_spec \<Rightarrow> nat \<Rightarrow> numeric_spec \<Rightarrow> conversion_policy \<Rightarrow> encoded_value result" where
  "convert_numeric source bits destination policy =
     and_then (decode_numeric source bits) (\<lambda>v. encode_numeric destination v policy)"

section \<open>Arithmetic of the helpers\<close>

lemma bit_width_0 [simp]: "bit_width 0 = 0"
  by (simp add: bit_width.simps)

lemma bit_width_bounds: "0 < n \<Longrightarrow> 2 ^ (bit_width n - 1) \<le> n \<and> n < 2 ^ bit_width n \<and> 0 < bit_width n"
proof (induction n rule: bit_width.induct)
  case (1 n)
  show ?case
  proof (cases "n div 2 = 0")
    case True
    with 1 have "n = 1" by auto
    then show ?thesis by (simp add: bit_width.simps [of "Suc 0"])
  next
    case False
    with 1 have IH: "2 ^ (bit_width (n div 2) - 1) \<le> n div 2" "n div 2 < 2 ^ bit_width (n div 2)"
      "0 < bit_width (n div 2)" by auto
    have w: "bit_width n = Suc (bit_width (n div 2))" using 1 by (simp add: bit_width.simps [of n])
    define p where "p = (2 :: nat) ^ (bit_width (n div 2) - 1)"
    have "2 ^ bit_width (n div 2) = 2 * p" using IH(3) by (simp add: p_def flip: power_Suc)
    moreover from this have "2 ^ (bit_width n - 1) = 2 * p" "2 ^ bit_width n = 4 * p" by (simp_all add: w)
    ultimately show ?thesis using IH(1,2) w unfolding p_def [symmetric] by auto
  qed
qed

lemma pow2_less: "(2 :: nat) ^ a < 2 ^ b \<longleftrightarrow> a < b"
  by simp

lemma bit_width_eqI: "2 ^ k \<le> n \<Longrightarrow> n < 2 ^ Suc k \<Longrightarrow> bit_width n = Suc k"
proof -
  assume k: "2 ^ k \<le> n" "n < 2 ^ Suc k"
  then have "0 < n" by (metis less_le_trans zero_less_numeral zero_less_power)
  note b = bit_width_bounds [OF this]
  from k b have "2 ^ k < (2 :: nat) ^ bit_width n" "2 ^ (bit_width n - 1) < (2 :: nat) ^ Suc k"
    by (meson le_less_trans)+
  then have "k < bit_width n" "bit_width n - 1 < Suc k"
    by (simp_all only: pow2_less)
  then show "bit_width n = Suc k" by simp
qed

lemma bit_width_mult: "0 < n \<Longrightarrow> bit_width (n * 2 ^ k) = bit_width n + k"
proof -
  assume n: "0 < n"
  note b = bit_width_bounds [OF n]
  have "2 ^ (bit_width n - 1 + k) \<le> n * 2 ^ k"
    unfolding power_add using b by (intro mult_le_mono1) simp
  moreover have "Suc (bit_width n - 1 + k) = bit_width n + k" using b by simp
  then have "n * 2 ^ k < 2 ^ Suc (bit_width n - 1 + k)" using b by (simp add: power_add)
  ultimately have "bit_width (n * 2 ^ k) = Suc (bit_width n - 1 + k)" by (rule bit_width_eqI)
  with b show ?thesis by simp
qed

lemma bit_width_le: "n < 2 ^ k \<Longrightarrow> bit_width n \<le> k"
proof (cases "n = 0")
  case False
  assume "n < 2 ^ k"
  with bit_width_bounds [of n] False have "2 ^ (bit_width n - 1) < (2 :: nat) ^ k" by (meson le_less_trans not_gr0)
  then have "bit_width n - 1 < k"
    by (simp only: pow2_less)
  with bit_width_bounds [of n] False show ?thesis by simp
qed simp

lemma countr_zero_div: "0 < n \<Longrightarrow> n div 2 ^ countr_zero n * 2 ^ countr_zero n = n \<and> odd (n div 2 ^ countr_zero n)"
proof (induction n rule: countr_zero.induct)
  case (1 n)
  show ?case
  proof (cases "odd n")
    case True
    with 1 show ?thesis by (simp add: countr_zero.simps [of n])
  next
    case False
    with 1 have IH: "n div 2 div 2 ^ countr_zero (n div 2) * 2 ^ countr_zero (n div 2) = n div 2"
      "odd (n div 2 div 2 ^ countr_zero (n div 2))" by auto
    have z: "countr_zero n = Suc (countr_zero (n div 2))" using 1 False by (simp add: countr_zero.simps [of n])
    have "n div 2 ^ countr_zero n = n div 2 div 2 ^ countr_zero (n div 2)"
      unfolding z by (simp add: div_mult2_eq)
    with IH z False show ?thesis by (metis dvd_div_mult_self mult.assoc power_Suc2)
  qed
qed

lemma countr_zero_mult: "0 < n \<Longrightarrow> countr_zero (n * 2 ^ k) = countr_zero n + k"
  by (induction k) (simp_all add: countr_zero.simps [of "n * (2 * 2 ^ _)"] mult.left_commute)

lemma int16_wrap_id [simp]: "- 32768 \<le> i \<Longrightarrow> i \<le> 32767 \<Longrightarrow> int16_wrap i = i"
  by (simp add: int16_wrap_def)

lemma shl64_id [simp]: "n * 2 ^ k < 2 ^ 64 \<Longrightarrow> shl64 n k = n * 2 ^ k"
  by (simp add: shl64_def u64_wrap_def)

lemma num_mask_eq [simp]: "n \<le> 64 \<Longrightarrow> num_mask n = 2 ^ n - 1"
proof -
  assume "n \<le> 64"
  moreover from this have "n \<noteq> 64 \<Longrightarrow> (2 :: nat) ^ n < 2 ^ 64" by (intro power_strict_increasing) auto
  ultimately show ?thesis unfolding num_mask_def using shl64_id [of 1 n] by auto
qed

section \<open>Canonical values\<close>

abbreviation bval :: "nat \<Rightarrow> int \<Rightarrow> bool \<Rightarrow> binary_value" where
  "bval m e neg \<equiv> \<lparr>bv_magnitude = m, bv_exponent = e, bv_negative = neg\<rparr>"

lemma bval_eta [simp]: "bval (bv_magnitude v) (bv_exponent v) (bv_negative v) = v"
  by (cases v) simp

text \<open>The real number a binary value stands for, without its sign.\<close>

definition real_magnitude :: "binary_value \<Rightarrow> real" where
  "real_magnitude v = real (bv_magnitude v) * 2 powi bv_exponent v"

lemma canonicalize_scale:
  assumes "0 < m"
  shows "canonicalize (bval (m * 2 ^ k) (e - int k) neg) = canonicalize (bval m e neg)"
proof -
  have "m * 2 ^ k div 2 ^ (countr_zero m + k) = m div 2 ^ countr_zero m"
    by (simp add: power_add)
  with assms show ?thesis by (simp add: canonicalize_def countr_zero_mult Let_def)
qed

lemma canonicalize_cases:
  assumes "canonicalize v = Inr c" "0 < bv_magnitude v" "- 32768 \<le> bv_exponent v"
  shows "c = bval (bv_magnitude v div 2 ^ countr_zero (bv_magnitude v))
     (bv_exponent v + int (countr_zero (bv_magnitude v))) (bv_negative v)"
    and "bv_magnitude c * 2 ^ countr_zero (bv_magnitude v) = bv_magnitude v" "odd (bv_magnitude c)"
  using assms countr_zero_div [of "bv_magnitude v"] by (auto simp: canonicalize_def Let_def split: if_splits)

lemma countr_zero_odd: "odd n \<Longrightarrow> countr_zero n = 0"
  by (simp add: countr_zero.simps [of n] odd_pos)

lemma canonicalize_idem:
  assumes "canonicalize v = Inr c" "- 32768 \<le> bv_exponent v"
  shows "canonicalize c = Inr c"
proof (cases "bv_magnitude v = 0")
  case True
  with assms show ?thesis by (auto simp: canonicalize_def)
next
  case False
  then have pos: "0 < bv_magnitude v" by simp
  note c = canonicalize_cases [OF assms(1) pos assms(2)]
  have "bv_exponent c \<le> 32767" "- 32768 \<le> bv_exponent c"
    using assms False c(1) by (auto simp: canonicalize_def Let_def split: if_splits)
  with c(3) show ?thesis
    using odd_pos by (auto simp: canonicalize_def countr_zero_odd Let_def)
qed

section \<open>Encoded magnitudes are decoded\<close>

lemma validate_numeric_Inr:
  assumes "validate_numeric s = Inr u"
  shows "1 \<le> ns_bits s" "ns_bits s \<le> 64" "vrt_kind (ns_kind s) \<Longrightarrow> ns_exponent_bits s \<le> 6"
    "vrt_kind (ns_kind s) \<Longrightarrow> ns_exponent_bits s < ns_bits s" "ns_fractional_bits s \<le> 15"
    "1 \<le> mantissa_bits s" "mantissa_bits s \<le> 64"
    "mantissa_bits s + (if vrt_kind (ns_kind s) then ns_exponent_bits s else 0) = ns_bits s"
  using assms by (auto simp: validate_numeric_def mantissa_bits_def split: if_splits)

lemma quantum_bounds:
  assumes "validate_numeric s = Inr u" "e \<le> max_exponent_code s"
  shows "- 200 \<le> quantum s e" "quantum s e \<le> 200"
proof -
  note v = validate_numeric_Inr [OF assms(1)]
  have "(2 :: nat) ^ ns_exponent_bits s \<le> 2 ^ 6" if "vrt_kind (ns_kind s)"
    using v(3) [OF that] by (intro power_increasing) simp_all
  then have "num_mask (ns_exponent_bits s) \<le> 63" if "vrt_kind (ns_kind s)"
    using v(3) [OF that] that by simp
  with v(2,5-8) assms(2) show "- 200 \<le> quantum s e" "quantum s e \<le> 200"
    by (auto simp: quantum_def max_exponent_code_def Let_def simp del: num_mask_eq split: if_splits)
qed

lemma max_magnitude_cases:
  assumes "validate_numeric s = Inr u"
  shows "signed_kind (ns_kind s) \<Longrightarrow> max_magnitude s True = 2 ^ (mantissa_bits s - 1)"
    "signed_kind (ns_kind s) \<Longrightarrow> max_magnitude s False = 2 ^ (mantissa_bits s - 1) - 1"
    "\<not> signed_kind (ns_kind s) \<Longrightarrow> max_magnitude s neg = 2 ^ mantissa_bits s - 1"
proof -
  note v = validate_numeric_Inr(6,7) [OF assms]
  have "(2 :: nat) ^ (mantissa_bits s - 1) < 2 ^ 64" using v by (intro power_strict_increasing) auto
  with v show "signed_kind (ns_kind s) \<Longrightarrow> max_magnitude s True = 2 ^ (mantissa_bits s - 1)"
    "signed_kind (ns_kind s) \<Longrightarrow> max_magnitude s False = 2 ^ (mantissa_bits s - 1) - 1"
    "\<not> signed_kind (ns_kind s) \<Longrightarrow> max_magnitude s neg = 2 ^ mantissa_bits s - 1"
    using shl64_id [of 1 "mantissa_bits s - 1"] by (auto simp: max_magnitude_def Let_def)
qed

lemma max_magnitude_bound:
  assumes "validate_numeric s = Inr u"
  shows "max_magnitude s neg < 2 ^ mantissa_bits s"
proof -
  note v = validate_numeric_Inr(6) [OF assms]
  have "(2 :: nat) ^ (mantissa_bits s - 1) < 2 ^ mantissa_bits s" using v by simp
  with le_less_trans [OF diff_le_self this] show ?thesis
    using max_magnitude_cases [OF assms] by (cases neg; cases "signed_kind (ns_kind s)") auto
qed

text \<open>Two's complement in \<open>m\<close> bits.\<close>

lemma neg64_mod:
  assumes "0 < n" "n \<le> 2 ^ m" "m \<le> 64"
  shows "neg64 n mod 2 ^ m = (2 ^ m - n) mod 2 ^ m"
proof -
  have "(2 :: nat) ^ 64 = 2 ^ m * 2 ^ (64 - m)" using assms(3) by (simp flip: power_add)
  then obtain k where k: "(2 :: nat) ^ 64 = 2 ^ m * k" "0 < k" by (metis zero_less_numeral zero_less_power)
  have "(2 :: nat) ^ 64 - n = 2 ^ m * (k - 1) + (2 ^ m - n)"
    unfolding k(1) using k(2) assms(2) by (simp add: diff_mult_distrib2)
  then have "(2 ^ 64 - n) mod 2 ^ m = (2 ^ m - n) mod 2 ^ m" by simp
  moreover have "u64_wrap (2 ^ 64 - n) = 2 ^ 64 - n" using assms(1) by (simp add: u64_wrap_def)
  ultimately show ?thesis by (simp add: neg64_def)
qed

lemma top_bit_iff: "n < 2 ^ Suc k \<Longrightarrow> bit n k \<longleftrightarrow> 2 ^ k \<le> (n :: nat)"
proof -
  assume n: "n < 2 ^ Suc k"
  then have "n div 2 ^ k < 2" by (simp add: div_less_iff_less_mult mult.commute)
  then have "odd (n div 2 ^ k) \<longleftrightarrow> n div 2 ^ k \<noteq> 0" by (auto simp: less_2_cases_iff)
  then show ?thesis by (simp add: bit_iff_odd div_eq_0_iff not_less)
qed

definition mantissa_of :: "nat \<Rightarrow> bool \<Rightarrow> nat \<Rightarrow> nat" where
  "mantissa_of m negative magnitude = (if negative then neg64 magnitude mod 2 ^ m else magnitude)"

lemma mantissa_decodes:
  assumes valid: "validate_numeric s = Inr u" and mag: "0 < mag" "mag \<le> max_magnitude s neg"
    and sign: "neg \<Longrightarrow> signed_kind (ns_kind s)"
  shows "mantissa_of (mantissa_bits s) neg mag < 2 ^ mantissa_bits s"
    and "(signed_kind (ns_kind s) \<and> bit (mantissa_of (mantissa_bits s) neg mag) (mantissa_bits s - 1)) = neg"
    and "mantissa_of (mantissa_bits s) neg (mantissa_of (mantissa_bits s) neg mag) = mag"
proof -
  let ?m = "mantissa_bits s" and ?x = "mantissa_of (mantissa_bits s) neg mag"
  note v = validate_numeric_Inr(6,7) [OF valid] and cases = max_magnitude_cases [OF valid]
  have pow: "(2 :: nat) ^ ?m = 2 * 2 ^ (?m - 1)" using v by (simp flip: power_Suc)
  have x: "?x = (if neg then 2 ^ ?m - mag else mag)"
    using mag sign cases(1) pow neg64_mod [of mag ?m] v
    by (auto simp: mantissa_of_def) 
  have small: "mag < 2 ^ ?m" using mag(2) max_magnitude_bound [OF valid] by (meson le_less_trans)
  with x mag(1) show lt: "?x < 2 ^ ?m" by auto
  have top: "bit ?x (?m - 1) \<longleftrightarrow> 2 ^ (?m - 1) \<le> ?x"
    using lt v by (intro top_bit_iff) simp
  show "(signed_kind (ns_kind s) \<and> bit ?x (?m - 1)) = neg"
  proof (cases "signed_kind (ns_kind s)")
    case True
    define p where "p = (2 :: nat) ^ (?m - 1)"
    have "0 < p" by (simp add: p_def)
    moreover have "neg \<Longrightarrow> mag \<le> p" "\<not> neg \<Longrightarrow> mag \<le> p - 1"
      using mag(2) cases(1,2) [OF True] by (simp_all add: p_def)
    ultimately have "p \<le> ?x \<longleftrightarrow> neg" unfolding x pow p_def [symmetric] by auto
    then have "2 ^ (?m - 1) \<le> ?x \<longleftrightarrow> neg" by (simp only: p_def)
    with True top show ?thesis by blast
  qed (use sign in blast)
  show "mantissa_of ?m neg ?x = mag"
  proof (cases neg)
    case True
    have "neg64 (2 ^ ?m - mag) mod 2 ^ ?m = (2 ^ ?m - (2 ^ ?m - mag)) mod 2 ^ ?m"
      using small mag(1) v by (intro neg64_mod) auto
    with True x small show ?thesis by (simp add: mantissa_of_def)
  qed (simp add: mantissa_of_def)
qed

lemma or_eq_add: "e < 2 ^ k \<Longrightarrow> (a * 2 ^ k) OR e = a * 2 ^ k + (e :: nat)"
proof -
  assume "e < 2 ^ k"
  then have e: "take_bit k e = e" by (rule take_bit_nat_eq_self)
  have "push_bit k a AND take_bit k e = 0" by (auto simp: bit_eq_iff bit_simps)
  then have "push_bit k a + e = push_bit k a OR e" unfolding e by (rule disjunctive_add_eq_or)
  then show ?thesis by (simp only: push_bit_eq_mult)
qed

lemma decode_encoded:
  assumes valid: "validate_numeric s = Inr u" and mag: "0 < mag" "mag \<le> max_magnitude s neg"
    and sign: "neg \<Longrightarrow> signed_kind (ns_kind s)" and e: "e \<le> max_exponent_code s"
  shows "decode_numeric s (encoded_bits s (mantissa_bits s) neg mag e) = canonicalize (bval mag (quantum s e) neg)"
proof -
  let ?m = "mantissa_bits s" and ?x = "mantissa_of (mantissa_bits s) neg mag"
  note v = validate_numeric_Inr [OF valid] and d = mantissa_decodes [OF valid mag sign]
  have q: "int16_wrap (quantum s e) = quantum s e"
    using quantum_bounds [OF valid e] by simp
  have recover: "(if neg then neg64 ?x mod 2 ^ ?m else ?x) = mag"
    using d(3) by (simp add: mantissa_of_def split: if_splits)
  show ?thesis
  proof (cases "vrt_kind (ns_kind s)")
    case True
    let ?k = "ns_exponent_bits s" and ?b = "?x * 2 ^ ns_exponent_bits s + e"
    have "e \<le> 2 ^ ?k - 1" using e v(3) [OF True] True by (simp add: max_exponent_code_def)
    moreover have "(0 :: nat) < 2 ^ ?k" by simp
    ultimately have small: "e < 2 ^ ?k" by linarith
    have lt: "?b < 2 ^ ns_bits s"
    proof -
      have "?b < Suc ?x * 2 ^ ?k" using small by simp
      also have "\<dots> \<le> 2 ^ ?m * 2 ^ ?k" using d(1) by (intro mult_le_mono1) simp
      also have "\<dots> = 2 ^ ns_bits s" using v(8) True by (simp flip: power_add)
      finally show ?thesis .
    qed
    also have "(2 :: nat) ^ ns_bits s \<le> 2 ^ 64" using v(2) by (intro power_increasing) simp_all
    finally have "?x * 2 ^ ?k < 2 ^ 64" by linarith
    then have "encoded_bits s ?m neg mag e = ?b"
      using True or_eq_add [OF small, of ?x]
      by (simp only: encoded_bits_def mantissa_of_def Let_def if_True shl64_id)
    moreover have "?b div 2 ^ ?k = ?x" "?b mod 2 ^ ?k = e" using small by simp_all
    moreover have "?b div 2 ^ ns_bits s = 0" using lt by (rule div_less)
    ultimately show ?thesis
      using True valid d(2) q recover by (simp only: decode_numeric_def Let_def and_then_simps if_True if_False simp_thms)
  next
    case False
    then have "?x div 2 ^ ns_bits s = 0" using d(1) v(8) by simp
    moreover have "encoded_bits s ?m neg mag e = ?x" "e = 0"
      using False e by (simp_all add: encoded_bits_def mantissa_of_def max_exponent_code_def)
    ultimately show ?thesis
      using False valid d(2) q recover by (simp only: decode_numeric_def Let_def and_then_simps if_True if_False simp_thms)
  qed
qed

lemma lower_exponent_Inr:
  assumes "lower_exponent max_mag m e = (m', e')" "0 < m" "m \<le> max_mag" "max_mag < 2 ^ 64"
  shows "e' \<le> e \<and> m' = m * 2 ^ (e - e') \<and> 0 < m' \<and> m' \<le> max_mag"
  using assms(1-3)
proof (induction e arbitrary: m)
  case (Suc e)
  show ?case
  proof (cases "m \<le> max_mag div 2")
    case True
    then have two: "m * 2 \<le> max_mag" by linarith
    with assms(4) have "u64_wrap (m * 2) = m * 2" by (simp add: u64_wrap_def)
    with Suc.IH [of "m * 2"] Suc.prems True two
    have IH: "e' \<le> e" "m' = m * 2 * 2 ^ (e - e')" "0 < m'" "m' \<le> max_mag" by auto
    then have "Suc e - e' = Suc (e - e')" by simp
    with IH show ?thesis by simp
  qed (use Suc.prems in auto)
qed simp

text \<open>Moving a magnitude to a lower exponent code keeps its value.\<close>

lemma quantum_shift:
  assumes "e' \<le> e" "e \<le> max_exponent_code s"
  shows "quantum s e' = quantum s e - int (e - e')"
proof (cases "vrt_kind (ns_kind s)")
  case True
  then have "\<not> non_normalized (ns_kind s)" by (auto simp: vrt_kind_def non_normalized_def)
  with True assms show ?thesis by (simp add: quantum_def Let_def)
qed (use assms in \<open>simp add: max_exponent_code_def\<close>)

lemma decode_lowered:
  assumes valid: "validate_numeric s = Inr u" and mag: "0 < mag" "mag \<le> max_magnitude s neg"
    and sign: "neg \<Longrightarrow> signed_kind (ns_kind s)" and e: "e \<le> max_exponent_code s"
    and low: "lower_exponent (max_magnitude s neg) mag e = (mag', e')"
  shows "decode_numeric s (encoded_bits s (mantissa_bits s) neg mag' e') = canonicalize (bval mag (quantum s e) neg)"
proof -
  have "(2 :: nat) ^ mantissa_bits s \<le> 2 ^ 64"
    using validate_numeric_Inr(7) [OF valid] by (intro power_increasing) simp_all
  with max_magnitude_bound [OF valid] have "max_magnitude s neg < 2 ^ 64" by (meson less_le_trans)
  note l = lower_exponent_Inr [OF low mag this]
  have "decode_numeric s (encoded_bits s (mantissa_bits s) neg mag' e') = canonicalize (bval mag' (quantum s e') neg)"
    using l e by (intro decode_encoded [OF valid _ _ sign]) auto
  also have "\<dots> = canonicalize (bval (mag * 2 ^ (e - e')) (quantum s e - int (e - e')) neg)"
    using l quantum_shift [of e' e s] e by simp
  also have "\<dots> = canonicalize (bval mag (quantum s e) neg)"
    by (rule canonicalize_scale [OF mag(1)])
  finally show ?thesis .
qed

section \<open>Exact encodings\<close>

lemma quantize_exact:
  assumes "\<not> qz_overflow (quantize v q mode)" "\<not> qz_residue (quantize v q mode)"
    "0 < bv_magnitude v" "bv_magnitude v < 2 ^ 64"
  shows "0 < qz_magnitude (quantize v q mode)"
    "canonicalize (bval (qz_magnitude (quantize v q mode)) q (bv_negative v)) = canonicalize v"
proof -
  let ?m = "bv_magnitude v" and ?r = "quantize v q mode"
  have "0 < qz_magnitude ?r \<and> canonicalize (bval (qz_magnitude ?r) q (bv_negative v)) = canonicalize v"
  proof (cases "bv_exponent v - q \<ge> 0")
    case True
    let ?k = "nat (bv_exponent v - q)"
    have w: "\<not> (bv_exponent v - q \<ge> 64 \<or> int (bit_width ?m) + (bv_exponent v - q) > 64)"
      using assms(1,3) True by (auto simp: quantize_def Let_def split: if_splits)
    have "?m * 2 ^ ?k < 2 ^ bit_width ?m * 2 ^ ?k" using bit_width_bounds [OF assms(3)] by simp
    also have "\<dots> \<le> (2 :: nat) ^ 64" unfolding power_add [symmetric] using w True by (intro power_increasing) auto
    finally have "shl64 ?m ?k = ?m * 2 ^ ?k" by simp
    with w True assms(3) have mag: "qz_magnitude ?r = ?m * 2 ^ ?k" by (simp add: quantize_def Let_def)
    have "canonicalize (bval (?m * 2 ^ ?k) (bv_exponent v - int ?k) (bv_negative v)) = canonicalize v"
      using canonicalize_scale [OF assms(3), of ?k "bv_exponent v" "bv_negative v"] by simp
    with mag assms(3) True show ?thesis by simp
  next
    case False
    let ?k = "nat (q - bv_exponent v)"
    have "?k < 64 \<and> ?m mod 2 ^ ?k = 0"
      using assms(2,3) False by (auto simp: quantize_def Let_def split: if_splits)
    then have k: "?k < 64" "?m = ?m div 2 ^ ?k * 2 ^ ?k" by (auto simp: mod_eq_0_iff_dvd)
    with assms(2,3) False have mag: "qz_magnitude ?r = ?m div 2 ^ ?k"
      by (auto simp: quantize_def Let_def round_up_def split: if_splits)
    have pos: "0 < ?m div 2 ^ ?k" using k(2) assms(3) by (metis mult_is_0 not_gr0)
    have "canonicalize v = canonicalize (bval (?m div 2 ^ ?k * 2 ^ ?k) (q - int ?k) (bv_negative v))"
      using k(2) False by simp
    also have "\<dots> = canonicalize (bval (?m div 2 ^ ?k) q (bv_negative v))"
      by (rule canonicalize_scale [OF pos])
    finally show ?thesis using mag pos by simp
  qed
  then show "0 < qz_magnitude ?r" "canonicalize (bval (qz_magnitude ?r) q (bv_negative v)) = canonicalize v"
    by blast+
qed

lemma encode_loop_exact:
  assumes valid: "validate_numeric s = Inr u" and v: "0 < bv_magnitude v" "bv_magnitude v < 2 ^ 64"
    and sign: "bv_negative v \<Longrightarrow> signed_kind (ns_kind s)" and "\<And>e. e \<in> set es \<Longrightarrow> e \<le> max_exponent_code s"
    and "encode_loop s v policy (max_magnitude s (bv_negative v)) sat es = Inr enc" "\<not> ev_rounded enc"
  shows "decode_numeric s (ev_bits enc) = canonicalize v \<and> ev_saturated enc = sat"
  using assms(5-)
proof (induction es)
  case (Cons e es)
  let ?max = "max_magnitude s (bv_negative v)" and ?r = "quantize v (quantum s e) (cp_rounding policy)"
  show ?case
  proof (cases "qz_overflow ?r \<or> qz_magnitude ?r > ?max \<or> qz_residue ?r \<and> cp_precision policy = Exact_only")
    case True
    then have "encode_loop s v policy ?max sat es = Inr enc"
      using Cons.prems(2) by (auto simp: Let_def split: if_splits)
    with Cons show ?thesis by simp
  next
    case False
    obtain mag' e' where low: "lower_exponent ?max (qz_magnitude ?r) e = (mag', e')" by fastforce
    from False Cons.prems(2,3) low have enc: "enc = \<lparr>ev_bits = (if qz_magnitude ?r = 0 then 0
        else encoded_bits s (mantissa_bits s) (bv_negative v) mag' e'), ev_rounded = False, ev_saturated = sat\<rparr>"
      and exact: "\<not> qz_overflow ?r" "\<not> qz_residue ?r" "qz_magnitude ?r \<le> ?max"
      by (auto simp: Let_def)
    note q = quantize_exact [OF exact(1,2) v]
    show ?thesis
      using decode_lowered [OF valid q(1) exact(3) sign _ low] Cons.prems(1) [of e] enc q by simp
  qed
qed simp

lemma decode_zero:
  assumes "validate_numeric s = Inr u"
  shows "decode_numeric s 0 = Inr (bval 0 0 False)"
  using assms by (simp add: decode_numeric_def canonicalize_def Let_def)

lemma encode_unsaturated:
  assumes "encode_numeric s v policy = Inr enc" "bv_magnitude v \<noteq> 0" "\<not> ev_saturated enc"
  shows "bv_negative v \<Longrightarrow> signed_kind (ns_kind s)"
    "encode_loop s v policy (max_magnitude s (bv_negative v)) False [0..<max_exponent_code s + 1] = Inr enc"
proof -
  have sat: "encode_loop s w p m b es = Inr en \<Longrightarrow> ev_saturated en = b" for w p m b es en
    by (induction es) (auto simp: Let_def split: if_splits prod.splits)
  from assms show "bv_negative v \<Longrightarrow> signed_kind (ns_kind s)"
    "encode_loop s v policy (max_magnitude s (bv_negative v)) False [0..<max_exponent_code s + 1] = Inr enc"
    by (auto simp: encode_numeric_def and_then_eq_Inr Let_def simp del: upt_Suc split: if_splits dest: sat)
qed

lemma exact_only_encoding:
  assumes "encode_numeric s v policy = Inr enc" "cp_precision policy = Exact_only"
  shows "\<not> ev_rounded enc" "\<not> ev_saturated enc"
proof -
  have "encode_loop s w policy m b es = Inr enc \<Longrightarrow> \<not> ev_rounded enc \<and> ev_saturated enc = b" for w m b es
    using assms(2) by (induction es) (auto simp: Let_def split: if_splits prod.splits)
  with assms show "\<not> ev_rounded enc" "\<not> ev_saturated enc"
    by (auto simp: encode_numeric_def and_then_eq_Inr Let_def split: if_splits)
qed

lemma unrounded_encoding_decodes:
  assumes "encode_numeric s v policy = Inr enc" "\<not> ev_rounded enc" "\<not> ev_saturated enc" "bv_magnitude v < 2 ^ 64"
  shows "decode_numeric s (ev_bits enc) = canonicalize v"
proof -
  from assms(1) have valid: "validate_numeric s = Inr ()" by (auto simp: encode_numeric_def and_then_eq_Inr)
  show ?thesis
  proof (cases "bv_magnitude v = 0")
    case True
    with assms(1) valid show ?thesis by (auto simp: encode_numeric_def decode_zero canonicalize_def)
  next
    case False
    note u = encode_unsaturated [OF assms(1) False assms(3)]
    have "e \<le> max_exponent_code s" if "e \<in> set [0..<max_exponent_code s + 1]" for e using that by auto
    from encode_loop_exact [OF valid _ assms(4) u(1) this u(2) assms(2)] False show ?thesis by simp
  qed
qed

text \<open>C25: encoding with the exact-only policy never rounds or saturates, and the bits it produces decode to
  the canonical form of the value encoded, in every fixed-point, non-normalized and VRT format.\<close>

theorem exact_encoding_decodes:
  assumes "encode_numeric s v policy = Inr enc" "cp_precision policy = Exact_only" "bv_magnitude v < 2 ^ 64"
  shows "decode_numeric s (ev_bits enc) = canonicalize v \<and> \<not> ev_rounded enc \<and> \<not> ev_saturated enc"
  using unrounded_encoding_decodes [OF assms(1) exact_only_encoding [OF assms(1,2)] assms(3)]
    exact_only_encoding [OF assms(1,2)] by blast

section \<open>Magnitude comparison\<close>

lemma powi_nat: "2 powi (int k + e) = 2 ^ k * (2 powi e :: real)"
  by (simp add: power_int_add power_int_of_nat)

lemma compare_magnitude_le:
  assumes "real_magnitude a \<le> real_magnitude b" "bv_magnitude a < 2 ^ 64" "bv_magnitude b < 2 ^ 64"
  shows "compare_magnitude a b \<le> 0"
proof (cases "bv_magnitude a = 0 \<or> bv_magnitude b = 0")
  case True
  have "bv_magnitude b = 0 \<Longrightarrow> bv_magnitude a = 0"
  proof (rule ccontr)
    assume "bv_magnitude b = 0" "bv_magnitude a \<noteq> 0"
    then have "real_magnitude b = 0" "0 < real_magnitude a"
      by (simp_all add: real_magnitude_def zero_less_power_int)
    with assms(1) show False by simp
  qed
  with True show ?thesis by (auto simp: compare_magnitude_def)
next
  case False
  then have pos: "0 < bv_magnitude a" "0 < bv_magnitude b" by simp_all
  let ?aw = "bit_width (bv_magnitude a)" and ?bw = "bit_width (bv_magnitude b)"
  note a = bit_width_bounds [OF pos(1)] and b = bit_width_bounds [OF pos(2)]
  have w: "?aw \<le> 64" "?bw \<le> 64" using assms(2,3) bit_width_le by blast+
  have norm: "real_magnitude x = real (bv_magnitude x * 2 ^ (64 - bit_width (bv_magnitude x)))
      * 2 powi (bv_exponent x + int (bit_width (bv_magnitude x)) - 64)" if "bit_width (bv_magnitude x) \<le> 64" for x
  proof -
    have "bv_exponent x = int (64 - bit_width (bv_magnitude x)) + (bv_exponent x + int (bit_width (bv_magnitude x)) - 64)"
      using that by simp
    then show ?thesis unfolding real_magnitude_def using powi_nat by (metis (no_types) of_nat_mult of_nat_numeral of_nat_power mult.assoc)
  qed
  have shl: "shl64 n (64 - bit_width n) = n * 2 ^ (64 - bit_width n)" if "0 < n" "bit_width n \<le> 64" for n
  proof -
    have "n * 2 ^ (64 - bit_width n) < 2 ^ bit_width n * 2 ^ (64 - bit_width n)"
      using bit_width_bounds [OF that(1)] by simp
    with that(2) show ?thesis by (simp flip: power_add)
  qed
  have "\<not> bv_exponent b + int ?bw < bv_exponent a + int ?aw"
  proof
    assume lt: "bv_exponent b + int ?bw < bv_exponent a + int ?aw"
    have "real_magnitude b < 2 ^ ?bw * 2 powi bv_exponent b"
      unfolding real_magnitude_def using b by (intro mult_strict_right_mono) simp_all
    also have "\<dots> = 2 powi (int ?bw + bv_exponent b)" by (rule powi_nat [symmetric])
    also have "\<dots> \<le> 2 powi (int (?aw - 1) + bv_exponent a)"
      using lt a by (intro power_int_increasing) auto
    also have "\<dots> = 2 ^ (?aw - 1) * 2 powi bv_exponent a" by (rule powi_nat)
    also have "\<dots> \<le> real_magnitude a"
      unfolding real_magnitude_def using a by (intro mult_right_mono) simp_all
    finally show False using assms(1) by simp
  qed
  moreover have "bv_magnitude a * 2 ^ (64 - ?aw) \<le> bv_magnitude b * 2 ^ (64 - ?bw)"
    if "bv_exponent a + int ?aw = bv_exponent b + int ?bw"
    using assms(1) unfolding norm [OF w(1)] norm [OF w(2)] that
    by (subst (asm) mult_le_cancel_right_pos) (simp_all only: zero_less_power_int zero_less_numeral of_nat_le_iff)
  ultimately show ?thesis
    using False shl [OF pos(1) w(1)] shl [OF pos(2) w(2)] by (auto simp: compare_magnitude_def Let_def)
qed

section \<open>Decoded values are encodable\<close>

text \<open>Every decoded value is a bounded magnitude at one of the format's quanta.\<close>

lemma decode_numeric_Inr:
  assumes "decode_numeric s bits = Inr v"
  obtains u mag e neg where "validate_numeric s = Inr u" "mag \<le> max_magnitude s neg" "e \<le> max_exponent_code s"
    "neg \<Longrightarrow> signed_kind (ns_kind s)" "canonicalize (bval mag (quantum s e) neg) = Inr v"
    "\<not> vrt_kind (ns_kind s) \<Longrightarrow> bits = mantissa_of (mantissa_bits s) neg mag"
proof -
  let ?m = "mantissa_bits s" and ?k = "ns_exponent_bits s" and ?vrt = "vrt_kind (ns_kind s)"
  define x where "x = (if ?vrt then bits div 2 ^ ?k else bits)"
  define e where "e = (if ?vrt then bits mod 2 ^ ?k else 0)"
  define neg where "neg = (signed_kind (ns_kind s) \<and> bit x (?m - 1))"
  from assms have valid: "validate_numeric s = Inr ()" and bits: "bits < 2 ^ ns_bits s"
    by (auto simp: decode_numeric_def and_then_eq_Inr div_eq_0_iff split: if_splits)
  note w = validate_numeric_Inr [OF valid]
  have dec: "canonicalize (bval (mantissa_of ?m neg x) (int16_wrap (quantum s e)) neg) = Inr v"
    using assms valid bits by (simp add: decode_numeric_def Let_def x_def e_def neg_def mantissa_of_def)
  have e: "e \<le> max_exponent_code s"
    using w(3) by (auto simp: e_def max_exponent_code_def less_eq_Suc_le [symmetric] intro!: less_imp_le_nat Suc_leI
        simp: less_Suc_eq_le [symmetric])
  have x: "x < 2 ^ ?m"
    using bits w(8) by (auto simp: x_def div_less_iff_less_mult simp flip: power_add split: if_splits)
  have pow: "(2 :: nat) ^ ?m = 2 * 2 ^ (?m - 1)" using w(6) by (simp flip: power_Suc)
  have top: "bit x (?m - 1) \<longleftrightarrow> 2 ^ (?m - 1) \<le> x"
    using x w(6) by (intro top_bit_iff) simp
  have mag: "mantissa_of ?m neg x = (if neg then 2 ^ ?m - x else x)"
  proof (cases neg)
    case True
    then have "2 ^ (?m - 1) \<le> x" using top by (simp add: neg_def)
    moreover have "(0 :: nat) < 2 ^ (?m - 1)" by simp
    ultimately have "0 < x" by linarith
    with True x w(7) neg64_mod [of x ?m] show ?thesis by (simp add: mantissa_of_def)
  qed (simp add: mantissa_of_def)
  have le: "mantissa_of ?m neg x \<le> max_magnitude s neg"
  proof (cases "signed_kind (ns_kind s)")
    case True
    define p where "p = (2 :: nat) ^ (?m - 1)"
    from True have "neg \<longleftrightarrow> p \<le> x" using top by (simp add: neg_def p_def)
    then show ?thesis
      unfolding mag using x max_magnitude_cases(1,2) [OF valid True] unfolding pow p_def [symmetric]
      by (cases neg) auto
  next
    case False
    then have "\<not> neg" by (simp add: neg_def)
    with False x max_magnitude_cases(3) [OF valid False] show ?thesis unfolding mag by auto
  qed
  have twice: "mantissa_of ?m neg (mantissa_of ?m neg x) = x"
  proof (cases neg)
    case True
    with mag x w(7) neg64_mod [of "2 ^ ?m - x" ?m] show ?thesis by (simp add: mantissa_of_def)
  qed (simp add: mantissa_of_def)
  show thesis
  proof (rule that [OF valid le e])
    show "neg \<Longrightarrow> signed_kind (ns_kind s)" by (simp add: neg_def)
    show "canonicalize (bval (mantissa_of ?m neg x) (quantum s e) neg) = Inr v"
      using dec quantum_bounds [OF valid e] by simp
    show "\<not> ?vrt \<Longrightarrow> bits = mantissa_of ?m neg (mantissa_of ?m neg x)"
      unfolding twice by (simp add: x_def)
  qed
qed

lemma quantize_at_quantum:
  assumes "canonicalize (bval mag q neg) = Inr v" "0 < mag" "mag < 2 ^ 64" "- 32768 \<le> q"
  shows "q' \<le> q \<Longrightarrow> \<not> qz_residue (quantize v q' mode)"
    "quantize v q mode = \<lparr>qz_magnitude = mag, qz_residue = False, qz_overflow = False\<rparr>"
proof -
  let ?z = "countr_zero mag"
  note c = canonicalize_cases [OF assms(1)] 
  have v: "bv_exponent v = q + int ?z" "bv_magnitude v * 2 ^ ?z = mag" "bv_negative v = neg"
    using c assms(2,4) by simp_all
  then have pos: "0 < bv_magnitude v" using assms(2) by (metis mult_is_0 not_gr0)
  have w: "bit_width (bv_magnitude v) + ?z \<le> 64"
    using bit_width_mult [OF pos, of ?z] bit_width_le [OF assms(3)] v(2) by simp
  moreover have "0 < bit_width (bv_magnitude v)" using bit_width_bounds [OF pos] by simp
  moreover have "shl64 (bv_magnitude v) ?z = mag" using v(2) assms(3) by simp
  ultimately show "quantize v q mode = \<lparr>qz_magnitude = mag, qz_residue = False, qz_overflow = False\<rparr>"
    using pos v(1) by (simp add: quantize_def)
  show "q' \<le> q \<Longrightarrow> \<not> qz_residue (quantize v q' mode)"
    using v(1) by (simp add: quantize_def Let_def)
qed

lemma encode_loop_finds:
  assumes "e \<in> set es" "quantize v (quantum s e) (cp_rounding policy) = \<lparr>qz_magnitude = mag, qz_residue = False, qz_overflow = False\<rparr>"
    "mag \<le> max_mag" "sorted es" "\<And>e'. e' \<le> e \<Longrightarrow> \<not> qz_residue (quantize v (quantum s e') (cp_rounding policy))"
  shows "\<exists>enc. encode_loop s v policy max_mag sat es = Inr enc \<and> \<not> ev_rounded enc \<and> ev_saturated enc = sat"
  using assms(1,4)
proof (induction es)
  case (Cons e0 es)
  let ?r = "quantize v (quantum s e0) (cp_rounding policy)"
  have res: "\<not> qz_residue ?r" using Cons.prems assms(5) [of e0] by auto
  show ?case
  proof (cases "qz_overflow ?r \<or> qz_magnitude ?r > max_mag")
    case True
    with assms(2,3) have "e0 \<noteq> e" by auto
    with Cons True show ?thesis by (simp add: Let_def)
  next
    case False
    with res show ?thesis by (simp add: Let_def split: prod.splits)
  qed
qed simp

lemma quantum_mono: "e' \<le> e \<Longrightarrow> quantum s e' \<le> quantum s e"
  by (simp add: quantum_def Let_def)

lemma decoded_within_bound:
  assumes valid: "validate_numeric s = Inr u" and le: "mag \<le> max_magnitude s neg" and e: "e \<le> max_exponent_code s"
    and can: "canonicalize (bval mag (quantum s e) neg) = Inr v" and pos: "0 < mag"
  shows "\<not> compare_magnitude v (bval (max_magnitude s neg) (int16_wrap (quantum s (max_exponent_code s))) neg') > 0"
    "bv_magnitude v < 2 ^ 64"
proof -
  let ?bound = "bval (max_magnitude s neg) (int16_wrap (quantum s (max_exponent_code s))) neg'"
  note q = quantum_bounds [OF valid e] and qm = quantum_bounds [OF valid order_refl]
  have "(2 :: nat) ^ mantissa_bits s \<le> 2 ^ 64"
    using validate_numeric_Inr(7) [OF valid] by (intro power_increasing) simp_all
  with max_magnitude_bound [OF valid] have small: "max_magnitude s neg < 2 ^ 64" by (meson less_le_trans)
  have c: "bv_magnitude v * 2 ^ countr_zero mag = mag" "bv_exponent v = quantum s e + int (countr_zero mag)"
    using canonicalize_cases [OF can] pos q by simp_all
  have "bv_magnitude v \<le> bv_magnitude v * 2 ^ countr_zero mag" by simp
  with c(1) le small show lt: "bv_magnitude v < 2 ^ 64" by linarith
  have "real mag = real (bv_magnitude v) * 2 ^ countr_zero mag"
    using c(1) by (metis of_nat_mult of_nat_power of_nat_numeral)
  then have "real_magnitude v = real mag * 2 powi quantum s e"
    using powi_nat [of "countr_zero mag" "quantum s e"] by (simp add: real_magnitude_def c(2) add.commute)
  also have "\<dots> \<le> real (max_magnitude s neg) * 2 powi quantum s (max_exponent_code s)"
    using le quantum_mono [OF e, of s] by (intro mult_mono power_int_increasing) simp_all
  also have "\<dots> = real_magnitude ?bound" using qm by (simp add: real_magnitude_def)
  finally show "\<not> compare_magnitude v ?bound > 0"
    using compare_magnitude_le [of v ?bound] lt small by simp
qed

text \<open>a decoded sample can be encoded again in its own format under every policy, without rounding
  and without saturation, to bits that decode to the same value; in the fixed-point and
  non-normalized formats they are the very bits decoded.\<close>

theorem decoded_sample_reencodes:
  assumes "decode_numeric s bits = Inr v"
  shows "\<exists>enc. encode_numeric s v policy = Inr enc \<and> \<not> ev_rounded enc \<and> \<not> ev_saturated enc
    \<and> decode_numeric s (ev_bits enc) = Inr v \<and> (vrt_kind (ns_kind s) \<or> ev_bits enc = bits)"
proof -
  from decode_numeric_Inr [OF assms] obtain u mag e neg where valid: "validate_numeric s = Inr u"
    and le: "mag \<le> max_magnitude s neg" and e: "e \<le> max_exponent_code s" and sign: "neg \<Longrightarrow> signed_kind (ns_kind s)"
    and can: "canonicalize (bval mag (quantum s e) neg) = Inr v"
    and bits: "\<not> vrt_kind (ns_kind s) \<Longrightarrow> bits = mantissa_of (mantissa_bits s) neg mag" by metis
  note q = quantum_bounds [OF valid e]
  show ?thesis
  proof (cases "mag = 0")
    case True
    with can have v: "v = bval 0 0 False" by (simp add: canonicalize_def)
    have "neg64 0 = 0" by (simp add: neg64_def u64_wrap_def)
    with True bits have "vrt_kind (ns_kind s) \<or> bits = 0"
      by (cases "vrt_kind (ns_kind s)") (auto simp: mantissa_of_def split: if_splits)
    with v valid decode_zero [OF valid] show ?thesis by (auto simp: encode_numeric_def)
  next
    case False
    then have pos: "0 < mag" by simp
    note bound = decoded_within_bound [OF valid le e can pos]
    have "(2 :: nat) ^ mantissa_bits s \<le> 2 ^ 64"
      using validate_numeric_Inr(7) [OF valid] by (intro power_increasing) simp_all
    with max_magnitude_bound [OF valid, of neg] le have small: "mag < 2 ^ 64" by linarith
    note quant = quantize_at_quantum [OF can pos small]
    have v: "bv_negative v = neg" "bv_magnitude v \<noteq> 0"
      using canonicalize_cases [OF can] pos q by (auto simp: odd_pos)
    have "\<exists>enc. encode_loop s v policy (max_magnitude s neg) False [0..<max_exponent_code s + 1] = Inr enc
        \<and> \<not> ev_rounded enc \<and> ev_saturated enc = False"
    proof (rule encode_loop_finds [OF _ quant(2) le])
      show "\<not> qz_residue (quantize v (quantum s e') (cp_rounding policy))" if "e' \<le> e" for e'
        using quant(1) [OF _ quantum_mono [OF that]] q by simp
    qed (use e q in \<open>auto simp del: upt_Suc\<close>)
    then obtain enc where loop: "encode_loop s v policy (max_magnitude s neg) False [0..<max_exponent_code s + 1] = Inr enc"
      and enc: "\<not> ev_rounded enc" "\<not> ev_saturated enc" by auto
    have run: "encode_numeric s v policy = Inr enc"
      using valid v bound(1) sign loop by (auto simp: encode_numeric_def Let_def simp del: upt_Suc)
    have "canonicalize v = Inr v" using can q by (intro canonicalize_idem [OF can]) simp
    with unrounded_encoding_decodes [OF run enc bound(2)] have dec: "decode_numeric s (ev_bits enc) = Inr v" by simp
    have "ev_bits enc = bits" if "\<not> vrt_kind (ns_kind s)"
    proof -
      from that e have "e = 0" "max_exponent_code s = 0" by (simp_all add: max_exponent_code_def)
      with loop quant(2) q le pos v(1) that bits show ?thesis
        by (auto simp: Let_def encoded_bits_def mantissa_of_def split: if_splits)
    qed
    with run enc dec show ?thesis by blast
  qed
qed

text \<open>Signed 8-bit fixed point: \<open>-3 * 2 ^ -7\<close> is the byte \<open>0xfd\<close>.\<close>

definition fixed8 :: numeric_spec where
  "fixed8 = \<lparr>ns_kind = Signed_fixed, ns_bits = 8, ns_fractional_bits = 0, ns_exponent_bits = 0\<rparr>"

definition exact_policy :: conversion_policy where
  "exact_policy = \<lparr>cp_precision = Exact_only, cp_rounding = Nearest_ties_even, cp_overflow = Overflow_error,
     cp_vrt_encoding = Lowest_exponent\<rparr>"

lemma validate_fixed8: "validate_numeric fixed8 = Inr ()"
  by (simp add: validate_numeric_def fixed8_def vrt_kind_def non_normalized_def)

lemmas fixed8_facts = fixed8_def mantissa_bits_def vrt_kind_def signed_kind_def non_normalized_def quantum_def
  max_exponent_code_def max_magnitude_def

lemma decode_fixed8: "decode_numeric fixed8 0xfd = Inr (bval 3 (- 7) True)"
proof -
  have "countr_zero 3 = 0" by (simp add: countr_zero_odd)
  moreover have "bit (253 :: nat) 7" by (simp add: bit_iff_odd)
  moreover have "neg64 253 mod 256 = 3" by (simp add: neg64_def u64_wrap_def)
  ultimately show ?thesis
    unfolding decode_numeric_def validate_fixed8
    by (simp add: fixed8_facts canonicalize_def)
qed

lemma encode_fixed8:
  "encode_numeric fixed8 (bval 3 (- 7) True) exact_policy = Inr \<lparr>ev_bits = 0xfd, ev_rounded = False, ev_saturated = False\<rparr>"
proof -
  have w: "bit_width 3 = 2" "bit_width 128 = 8"
    using bit_width_eqI [of 1 3] bit_width_eqI [of 7 128] by simp_all
  have c: "\<not> compare_magnitude (bval 3 (- 7) True) (bval 128 (- 7) True) > 0"
    by (simp add: compare_magnitude_def w)
  have q: "quantize (bval 3 (- 7) True) (- 7) Nearest_ties_even
      = \<lparr>qz_magnitude = 3, qz_residue = False, qz_overflow = False\<rparr>"
    by (simp add: quantize_def w shl64_def u64_wrap_def)
  show ?thesis
    unfolding encode_numeric_def validate_fixed8
    using c q by (simp add: fixed8_facts exact_policy_def shl64_def u64_wrap_def encoded_bits_def neg64_def)
qed

theorem exact_encoding_decodes_witness:
  "decode_numeric fixed8 0xfd = canonicalize (bval 3 (- 7) True)"
  using exact_encoding_decodes [OF encode_fixed8] by (simp add: exact_policy_def)

theorem decoded_sample_reencodes_witness:
  "\<exists>enc. encode_numeric fixed8 (bval 3 (- 7) True) exact_policy = Inr enc \<and> \<not> ev_rounded enc
    \<and> \<not> ev_saturated enc \<and> ev_bits enc = 0xfd"
  using decoded_sample_reencodes [OF decode_fixed8, of exact_policy]
  by (auto simp: fixed8_def vrt_kind_def)

end
