(* ===== verification/Ieee_Samples.thy ===== *)
theory Ieee_Samples
  imports Numeric_Samples
begin

text \<open>
  IEEE 754 sample formats (\<^verbatim>\<open>codec/ieee_samples.hpp\<close>): exact decoding of binary16, binary32 and
  binary64, encoding of a binary value with the rounding and overflow policy, and conversion
  between the formats with quiet and signaling NaN payloads. The integers follow
  \<open>Numeric_Samples\<close>.
\<close>

section \<open>Formats and policies\<close>

datatype ieee_format = Binary16 | Binary32 | Binary64
datatype ieee_category = Cat_zero | Cat_finite | Cat_infinity | Cat_quiet_nan | Cat_signaling_nan
datatype ieee_overflow = Ieee_error | Ieee_result | Saturate_finite
datatype nonfinite = Nonfinite_reject | Nonfinite_propagate
datatype nan_payload = Payload_exact | Payload_preserve_high | Payload_canonical

record ieee_policy =
  ip_precision :: precision
  ip_rounding :: rounding
  ip_overflow :: ieee_overflow
  ip_nonfinite :: nonfinite
  ip_payload :: nan_payload

record ieee_flags =
  fl_invalid :: bool
  fl_inexact :: bool
  fl_overflow :: bool
  fl_underflow :: bool
  fl_payload_loss :: bool

definition no_flags :: ieee_flags where
  "no_flags = \<lparr>fl_invalid = False, fl_inexact = False, fl_overflow = False, fl_underflow = False, fl_payload_loss = False\<rparr>"

record converted =
  cv_bits :: nat
  cv_flags :: ieee_flags

record decoded =
  de_category :: ieee_category
  de_negative :: bool
  de_finite :: binary_value
  de_payload :: nat
  de_payload_bits :: nat

record ieee_shape =
  is_width :: nat
  is_fraction :: nat
  is_exponent :: nat
  is_bias :: int

primrec ieee_shape_of :: "ieee_format \<Rightarrow> ieee_shape" where
  "ieee_shape_of Binary16 = \<lparr>is_width = 16, is_fraction = 10, is_exponent = 5, is_bias = 15\<rparr>"
| "ieee_shape_of Binary32 = \<lparr>is_width = 32, is_fraction = 23, is_exponent = 8, is_bias = 127\<rparr>"
| "ieee_shape_of Binary64 = \<lparr>is_width = 64, is_fraction = 52, is_exponent = 11, is_bias = 1023\<rparr>"

section \<open>Rounding and overflow\<close>

record rounded_value =
  rv_integer :: nat
  rv_inexact :: bool

definition ieee_round :: "binary_value \<Rightarrow> int \<Rightarrow> rounding \<Rightarrow> rounded_value" where
  "ieee_round v q mode = (let shift = bv_exponent v - q in
     if shift \<ge> 0 then \<lparr>rv_integer = shl64 (bv_magnitude v) (nat shift), rv_inexact = False\<rparr>
     else let right = nat (- shift);
            integer = (if right \<ge> 64 then 0 else bv_magnitude v div 2 ^ right);
            residue = (if right \<ge> 64 then bv_magnitude v else bv_magnitude v mod 2 ^ right);
            increment = round_up mode (bv_negative v) right integer residue
     in \<lparr>rv_integer = u64_wrap (integer + of_bool increment), rv_inexact = residue \<noteq> 0\<rparr>)"

definition ieee_overflow_result :: "ieee_shape \<Rightarrow> bool \<Rightarrow> ieee_policy \<Rightarrow> converted result" where
  "ieee_overflow_result s negative p =
     (if ip_precision p = Exact_only \<or> ip_overflow p = Ieee_error then Inl (err Overflow)
      else let sign = shl64 (of_bool negative) (is_width s - 1);
        inf = shl64 (num_mask (is_exponent s)) (is_fraction s);
        infinity = (ip_overflow p = Ieee_result \<and> (ip_rounding p = Nearest_ties_even
          \<or> (ip_rounding p = Toward_negative \<and> negative) \<or> (ip_rounding p = Toward_positive \<and> \<not> negative)))
      in Inr \<lparr>cv_bits = sign OR (if infinity then inf else inf - 1),
           cv_flags = no_flags\<lparr>fl_inexact := True, fl_overflow := True\<rparr>\<rparr>)"

section \<open>Decoding\<close>

definition decode_ieee :: "ieee_format \<Rightarrow> nat \<Rightarrow> decoded result" where
  "decode_ieee format bits = (let s = ieee_shape_of format in
     if bits div 2 ^ is_width s \<noteq> 0 then Inl (err Invalid_argument)
     else let negative = (bits div 2 ^ (is_width s - 1) \<noteq> 0);
       fraction = bits mod 2 ^ is_fraction s;
       exponent = bits div 2 ^ is_fraction s mod 2 ^ is_exponent s;
       out = \<lparr>de_category = Cat_zero, de_negative = negative, de_finite = bval 0 0 False, de_payload = 0, de_payload_bits = 0\<rparr>
     in if exponent = num_mask (is_exponent s)
        then (if fraction = 0 then Inr (out\<lparr>de_category := Cat_infinity\<rparr>)
              else Inr (out\<lparr>de_category := (if bit fraction (is_fraction s - 1) then Cat_quiet_nan else Cat_signaling_nan),
                de_payload := fraction mod 2 ^ (is_fraction s - 1), de_payload_bits := is_fraction s - 1\<rparr>))
        else if exponent \<noteq> 0 \<or> fraction \<noteq> 0
        then let magnitude = fraction OR (if exponent \<noteq> 0 then 2 ^ is_fraction s else 0);
               q = (if exponent \<noteq> 0 then int exponent else 1) - is_bias s - int (is_fraction s)
          in and_then (canonicalize (bval magnitude (int16_wrap q) negative)) (\<lambda>v.
               Inr (out\<lparr>de_category := Cat_finite, de_finite := v\<rparr>))
        else Inr out)"

definition finite_value :: "decoded \<Rightarrow> binary_value result" where
  "finite_value v =
     (if de_payload v \<noteq> 0 \<or> de_payload_bits v \<noteq> 0 then Inl (err Invalid_argument)
      else if de_category v = Cat_zero \<and> de_finite v = bval 0 0 False then Inr (de_finite v)
      else if de_category v = Cat_finite \<and> bv_magnitude (de_finite v) \<noteq> 0
        \<and> bv_negative (de_finite v) = de_negative v \<and> canonicalize (de_finite v) = Inr (de_finite v)
      then Inr (de_finite v)
      else Inl (err Invalid_argument))"

section \<open>Encoding and conversion\<close>

definition encode_finite :: "ieee_format \<Rightarrow> binary_value \<Rightarrow> ieee_policy \<Rightarrow> converted result" where
  "encode_finite format v policy = (let s = ieee_shape_of format; f = is_fraction s;
       sign = shl64 (of_bool (bv_negative v)) (is_width s - 1)
     in if bv_magnitude v = 0 then Inr \<lparr>cv_bits = sign, cv_flags = no_flags\<rparr>
     else let top = bv_exponent v + int (bit_width (bv_magnitude v)) - 1
     in if top > is_bias s then ieee_overflow_result s (bv_negative v) policy
     else let minimum = 1 - is_bias s;
       tiny = (if top < minimum
         then let precision_rounded = ieee_round v (top - int f) (ip_rounding policy);
                carry = (rv_integer precision_rounded = 2 ^ (f + 1))
              in top + of_bool carry < minimum
         else False);
       q = (if top < minimum then minimum else top) - int f;
       rounded = ieee_round v q (ip_rounding policy);
       (significand, top') = (if rv_integer rounded = 2 ^ (f + 1) then (rv_integer rounded div 2, top + 1)
         else (rv_integer rounded, top))
     in if top' > is_bias s then ieee_overflow_result s (bv_negative v) policy
     else if rv_inexact rounded \<and> ip_precision policy = Exact_only then Inl (err Invalid_argument)
     else let normal = significand \<ge> 2 ^ f;
       exponent = (if normal then nat ((if top' < minimum then minimum else top') + is_bias s) else 0)
     in Inr \<lparr>cv_bits = sign OR shl64 exponent f OR significand mod 2 ^ f,
          cv_flags = no_flags\<lparr>fl_inexact := rv_inexact rounded, fl_underflow := rv_inexact rounded \<and> tiny\<rparr>\<rparr>)"

definition convert_nan :: "decoded \<Rightarrow> ieee_shape \<Rightarrow> ieee_policy \<Rightarrow> converted result" where
  "convert_nan src dst policy = (let
       sign = shl64 (of_bool (de_negative src)) (is_width dst - 1);
       inf = shl64 (num_mask (is_exponent dst)) (is_fraction dst);
       quiet = shl64 1 (is_fraction dst - 1);
       flags = no_flags\<lparr>fl_invalid := (de_category src = Cat_signaling_nan)\<rparr>
     in if ip_payload policy = Payload_canonical
        then Inr \<lparr>cv_bits = inf OR quiet, cv_flags = flags\<lparr>fl_payload_loss := de_negative src \<or> de_payload src \<noteq> 0\<rparr>\<rparr>
        else let target = is_fraction dst - 1;
          (payload, loss) = (if de_payload_bits src > target
            then let shift = de_payload_bits src - target
                 in (de_payload src div 2 ^ shift, de_payload src mod 2 ^ shift \<noteq> 0)
            else (shl64 (de_payload src) (target - de_payload_bits src), False))
        in if loss \<and> ip_payload policy = Payload_exact then Inl (err Invalid_argument)
           else Inr \<lparr>cv_bits = sign OR inf OR quiet OR payload, cv_flags = flags\<lparr>fl_payload_loss := loss\<rparr>\<rparr>)"

definition convert_ieee :: "ieee_format \<Rightarrow> nat \<Rightarrow> ieee_format \<Rightarrow> ieee_policy \<Rightarrow> converted result" where
  "convert_ieee source bits destination policy =
     and_then (decode_ieee source bits) (\<lambda>src. let dst = ieee_shape_of destination in
       if de_category src = Cat_finite then encode_finite destination (de_finite src) policy
       else if de_category src = Cat_zero then encode_finite destination (bval 0 0 (de_negative src)) policy
       else if ip_nonfinite policy = Nonfinite_reject then Inl (err Invalid_argument)
       else if de_category src = Cat_infinity
       then Inr \<lparr>cv_bits = shl64 (of_bool (de_negative src)) (is_width dst - 1)
            OR shl64 (num_mask (is_exponent dst)) (is_fraction dst), cv_flags = no_flags\<rparr>
       else convert_nan src dst policy)"

section \<open>Bit layout\<close>

lemma shape_facts:
  assumes "s = ieee_shape_of format"
  shows "is_width s = 1 + is_exponent s + is_fraction s" "is_width s \<le> 64" "10 \<le> is_fraction s" "is_fraction s \<le> 52"
    "is_exponent s \<le> 11" "1 \<le> is_exponent s" "(2 :: nat) ^ is_exponent s = nat (2 * is_bias s + 2)"
    "1 \<le> is_bias s" "is_bias s \<le> 1023"
  by (cases format; simp add: assms)+

text \<open>Sign, exponent code and fraction side by side.\<close>

definition layout :: "ieee_shape \<Rightarrow> bool \<Rightarrow> nat \<Rightarrow> nat \<Rightarrow> nat" where
  "layout s negative exponent fraction =
     (of_bool negative * 2 ^ is_exponent s + exponent) * 2 ^ is_fraction s + fraction"

lemma layout_or:
  assumes s: "s = ieee_shape_of format" and e: "exponent < 2 ^ is_exponent s" and f: "fraction < 2 ^ is_fraction s"
  shows "shl64 (of_bool negative) (is_width s - 1) OR shl64 exponent (is_fraction s) OR fraction
    = layout s negative exponent fraction"
proof -
  note sh = shape_facts [OF s]
  have width: "is_width s - 1 = is_exponent s + is_fraction s" using sh(1) by simp
  have pow: "(2 :: nat) ^ (is_exponent s + is_fraction s) \<le> 2 ^ 63" using sh(1,2) by (intro power_increasing) simp_all
  have "exponent * 2 ^ is_fraction s < 2 ^ is_exponent s * 2 ^ is_fraction s" using e by simp
  also have "\<dots> < 2 ^ 64" using pow unfolding power_add [symmetric] by simp
  finally have shl: "shl64 exponent (is_fraction s) = exponent * 2 ^ is_fraction s" by simp
  have "exponent * 2 ^ is_fraction s + fraction < Suc exponent * 2 ^ is_fraction s" using f by simp
  also have "\<dots> \<le> 2 ^ is_exponent s * 2 ^ is_fraction s" using e by (intro mult_le_mono1) simp
  finally have low: "exponent * 2 ^ is_fraction s + fraction < 2 ^ (is_exponent s + is_fraction s)"
    by (simp add: power_add)
  have "of_bool negative * (2 :: nat) ^ (is_exponent s + is_fraction s) < 2 ^ 64" using pow by (cases negative) simp_all
  then have "shl64 (of_bool negative) (is_width s - 1) = of_bool negative * 2 ^ (is_exponent s + is_fraction s)"
    unfolding width by (rule shl64_id)
  with shl or_eq_add [OF f, of exponent] or_eq_add [OF low, of "of_bool negative"] show ?thesis
    by (simp add: layout_def power_add algebra_simps or.assoc)
qed

lemma layout_fields:
  assumes s: "s = ieee_shape_of format" and e: "exponent < 2 ^ is_exponent s" and f: "fraction < 2 ^ is_fraction s"
  shows "layout s negative exponent fraction div 2 ^ is_width s = 0"
    "layout s negative exponent fraction div 2 ^ (is_width s - 1) = of_bool negative"
    "layout s negative exponent fraction mod 2 ^ is_fraction s = fraction"
    "layout s negative exponent fraction div 2 ^ is_fraction s mod 2 ^ is_exponent s = exponent"
proof -
  let ?l = "layout s negative exponent fraction"
  have high: "?l div 2 ^ is_fraction s = of_bool negative * 2 ^ is_exponent s + exponent"
    using f by (simp add: layout_def)
  with e show "?l div 2 ^ is_fraction s mod 2 ^ is_exponent s = exponent" by simp
  show "?l mod 2 ^ is_fraction s = fraction" using f by (simp add: layout_def)
  have "is_width s - 1 = is_fraction s + is_exponent s" using shape_facts(1) [OF s] by simp
  then have top: "?l div 2 ^ (is_width s - 1) = ?l div 2 ^ is_fraction s div 2 ^ is_exponent s"
    by (simp add: power_add div_mult2_eq)
  with e high show neg: "?l div 2 ^ (is_width s - 1) = of_bool negative" by simp
  have "(2 :: nat) ^ is_width s = 2 ^ (is_width s - 1) * 2"
    using shape_facts(1) [OF s] by (simp flip: power_Suc2)
  then have "?l div 2 ^ is_width s = ?l div 2 ^ (is_width s - 1) div 2" by (simp add: div_mult2_eq)
  with neg show "?l div 2 ^ is_width s = 0" by simp
qed

lemma layout_exhaust:
  assumes s: "s = ieee_shape_of format" and "bits div 2 ^ is_width s = 0"
  shows "bits = layout s (bits div 2 ^ (is_width s - 1) \<noteq> 0) (bits div 2 ^ is_fraction s mod 2 ^ is_exponent s)
     (bits mod 2 ^ is_fraction s)"
proof -
  let ?h = "bits div 2 ^ is_fraction s"
  have w: "is_width s - 1 = is_fraction s + is_exponent s" using shape_facts(1) [OF s] by simp
  then have top: "bits div 2 ^ (is_width s - 1) = ?h div 2 ^ is_exponent s" by (simp add: power_add div_mult2_eq)
  have "(2 :: nat) ^ is_width s = 2 ^ (is_width s - 1) * 2"
    using shape_facts(1) [OF s] by (simp flip: power_Suc2)
  then have "bits div 2 ^ (is_width s - 1) div 2 = 0" using assms(2) by (metis div_mult2_eq)
  then have "?h div 2 ^ is_exponent s = of_bool (bits div 2 ^ (is_width s - 1) \<noteq> 0)"
    unfolding top by (auto simp: div_eq_0_iff less_2_cases_iff)
  then have "?h = of_bool (bits div 2 ^ (is_width s - 1) \<noteq> 0) * 2 ^ is_exponent s + ?h mod 2 ^ is_exponent s"
    by (metis div_mult_mod_eq)
  then show ?thesis unfolding layout_def by (metis div_mult_mod_eq)
qed

section \<open>Finite values\<close>

text \<open>Normal and subnormal significands with their exponent codes.\<close>

definition significand_ok :: "ieee_shape \<Rightarrow> nat \<Rightarrow> nat \<Rightarrow> bool" where
  "significand_ok s exponent significand \<longleftrightarrow>
     (if exponent = 0 then 0 < significand \<and> significand < 2 ^ is_fraction s
      else exponent \<le> nat (2 * is_bias s) \<and> 2 ^ is_fraction s \<le> significand \<and> significand < 2 ^ (is_fraction s + 1))"

definition ieee_quantum :: "ieee_shape \<Rightarrow> nat \<Rightarrow> int" where
  "ieee_quantum s exponent = (if exponent \<noteq> 0 then int exponent else 1) - is_bias s - int (is_fraction s)"

definition finite_decoded :: "bool \<Rightarrow> binary_value \<Rightarrow> decoded" where
  "finite_decoded negative v = \<lparr>de_category = Cat_finite, de_negative = negative, de_finite = v, de_payload = 0, de_payload_bits = 0\<rparr>"

lemma exponent_code_bounds:
  assumes s: "s = ieee_shape_of format" and "exponent \<le> nat (2 * is_bias s)"
  shows "exponent < 2 ^ is_exponent s" "exponent \<noteq> num_mask (is_exponent s)" "- 2000 \<le> ieee_quantum s exponent"
    "ieee_quantum s exponent \<le> 2000"
proof -
  note sh = shape_facts [OF s]
  have m: "num_mask (is_exponent s) = nat (2 * is_bias s + 2) - 1"
    using num_mask_eq [of "is_exponent s"] sh(5) unfolding sh(7) by simp
  show "exponent < 2 ^ is_exponent s" unfolding sh(7) using assms(2) sh(8) by linarith
  show "exponent \<noteq> num_mask (is_exponent s)" unfolding m using assms(2) sh(8) by linarith
  show "- 2000 \<le> ieee_quantum s exponent" "ieee_quantum s exponent \<le> 2000"
    using sh(3,4,8,9) assms(2) by (auto simp: ieee_quantum_def)
qed

lemma decode_layout:
  assumes s: "s = ieee_shape_of format" and ok: "significand_ok s exponent significand"
  shows "decode_ieee format (layout s negative exponent (significand mod 2 ^ is_fraction s))
    = and_then (canonicalize (bval significand (ieee_quantum s exponent) negative)) (\<lambda>v. Inr (finite_decoded negative v))"
proof -
  let ?f = "significand mod 2 ^ is_fraction s"
  have "exponent \<le> nat (2 * is_bias s)" using ok by (auto simp: significand_ok_def split: if_splits)
  note e = exponent_code_bounds [OF s this] and l = layout_fields [OF s exponent_code_bounds(1) [OF s this], of ?f negative]
  have mag: "?f OR (if exponent \<noteq> 0 then 2 ^ is_fraction s else 0) = significand"
  proof (cases "exponent = 0")
    case False
    then have "significand div 2 ^ is_fraction s = 1"
      using ok by (auto simp: significand_ok_def intro!: div_nat_eqI)
    then have "significand = 1 * 2 ^ is_fraction s + ?f" by (metis div_mult_mod_eq)
    with or_eq_add [of ?f "is_fraction s" 1] False show ?thesis by (simp add: or.commute)
  qed (use ok in \<open>simp add: significand_ok_def\<close>)
  have "exponent \<noteq> 0 \<or> ?f \<noteq> 0"
    using ok by (cases "exponent = 0") (simp_all add: significand_ok_def)
  moreover have "int16_wrap (ieee_quantum s exponent) = ieee_quantum s exponent" using e(3,4) by simp
  ultimately show ?thesis
    using l e(2) mag by (simp add: decode_ieee_def Let_def finite_decoded_def ieee_quantum_def flip: s)
qed

lemma ieee_round_exact:
  assumes v: "0 < bv_magnitude v" "bv_magnitude v < 2 ^ 64" and exact: "\<not> rv_inexact (ieee_round v q mode)"
    and room: "int (bit_width (bv_magnitude v)) + bv_exponent v - q \<le> 64"
  shows "0 < rv_integer (ieee_round v q mode)"
    "canonicalize (bval (rv_integer (ieee_round v q mode)) q (bv_negative v)) = canonicalize v"
    "int (bit_width (rv_integer (ieee_round v q mode))) = int (bit_width (bv_magnitude v)) + bv_exponent v - q"
proof -
  let ?m = "bv_magnitude v" and ?r = "ieee_round v q mode"
  have "\<exists>k. (bv_exponent v - q = int k \<and> rv_integer ?r = ?m * 2 ^ k)
      \<or> (q - bv_exponent v = int k \<and> ?m = rv_integer ?r * 2 ^ k)"
  proof (cases "bv_exponent v - q \<ge> 0")
    case True
    let ?k = "nat (bv_exponent v - q)"
    have "?m * 2 ^ ?k < 2 ^ bit_width ?m * 2 ^ ?k" using bit_width_bounds [OF v(1)] by simp
    also have "\<dots> \<le> (2 :: nat) ^ 64" unfolding power_add [symmetric] using room True by (intro power_increasing) auto
    finally have "rv_integer ?r = ?m * 2 ^ ?k" using True by (simp add: ieee_round_def)
    with True show ?thesis by (intro exI [of _ ?k]) simp
  next
    case False
    let ?k = "nat (q - bv_exponent v)"
    have "?k < 64 \<and> ?m mod 2 ^ ?k = 0"
      using exact v(1) False by (auto simp: ieee_round_def Let_def split: if_splits)
    then have k: "?k < 64" "?m mod 2 ^ ?k = 0" by simp_all
    have "?m div 2 ^ ?k < 2 ^ 64" using v(2) by (meson div_le_dividend le_less_trans)
    then have "rv_integer ?r = ?m div 2 ^ ?k" 
      using k False by (simp add: ieee_round_def round_up_def u64_wrap_def Let_def)
    with k False show ?thesis by (intro exI [of _ ?k]) auto
  qed
  then obtain k where k: "(bv_exponent v - q = int k \<and> rv_integer ?r = ?m * 2 ^ k)
      \<or> (q - bv_exponent v = int k \<and> ?m = rv_integer ?r * 2 ^ k)" ..
  show pos: "0 < rv_integer ?r" using k v(1) by (metis mult_is_0 neq0_conv power_not_zero zero_neq_numeral)
  show "int (bit_width (rv_integer ?r)) = int (bit_width ?m) + bv_exponent v - q"
    using k bit_width_mult [OF v(1), of k] bit_width_mult [OF pos, of k] by auto
  show "canonicalize (bval (rv_integer ?r) q (bv_negative v)) = canonicalize v"
    using k canonicalize_scale [OF v(1), of k "bv_exponent v" "bv_negative v"]
      canonicalize_scale [OF pos, of k q "bv_negative v"]
    by (smt (verit) bval_eta)
qed

text \<open>When the rounding at the chosen quantum is exact the result is the layout of its significand.\<close>

lemma encode_finite_exact:
  fixes msb q :: int and significand exponent :: nat
  assumes s: "s = ieee_shape_of format" and v: "0 < bv_magnitude v" "bv_magnitude v < 2 ^ 64"
    and top: "msb = bv_exponent v + int (bit_width (bv_magnitude v)) - 1" "msb \<le> is_bias s"
    and q: "q = (if msb < 1 - is_bias s then 1 - is_bias s else msb) - int (is_fraction s)"
    and exact: "\<not> rv_inexact (ieee_round v q (ip_rounding policy))"
  defines "significand \<equiv> rv_integer (ieee_round v q (ip_rounding policy))"
    and "exponent \<equiv> (if msb < 1 - is_bias s then 0 else nat (msb + is_bias s))"
  shows "encode_finite format v policy
      = Inr \<lparr>cv_bits = layout s (bv_negative v) exponent (significand mod 2 ^ is_fraction s), cv_flags = no_flags\<rparr>"
    and "significand_ok s exponent significand" "ieee_quantum s exponent = q"
    "canonicalize (bval significand q (bv_negative v)) = canonicalize v"
proof -
  note sh = shape_facts [OF s]
  have room: "int (bit_width (bv_magnitude v)) + bv_exponent v - q \<le> 64" using q top sh(4) by auto
  note r = ieee_round_exact [OF v exact room, folded significand_def]
  show "canonicalize (bval significand q (bv_negative v)) = canonicalize v" by (rule r(2))
  show "ieee_quantum s exponent = q" using q top(2) sh(8) by (auto simp: ieee_quantum_def exponent_def)
  note w = bit_width_bounds [OF r(1)]
  show ok: "significand_ok s exponent significand"
  proof (cases "msb < 1 - is_bias s")
    case True
    then have "bit_width significand \<le> is_fraction s" using r(3) q top(1) by auto
    then have "(2 :: nat) ^ bit_width significand \<le> 2 ^ is_fraction s" by (intro power_increasing) simp_all
    with w have "significand < 2 ^ is_fraction s" by (meson less_le_trans)
    with True r(1) show ?thesis by (simp add: significand_ok_def exponent_def)
  next
    case False
    then have "bit_width significand = is_fraction s + 1" using r(3) q top(1) by auto
    with w False top(2) sh(8) show ?thesis by (auto simp: significand_ok_def exponent_def)
  qed
  have lt: "significand < 2 ^ (is_fraction s + 1)"
    using ok by (auto simp: significand_ok_def split: if_splits) 
  have normal: "significand \<ge> 2 ^ is_fraction s \<longleftrightarrow> \<not> msb < 1 - is_bias s"
    using ok top(2) by (auto simp: significand_ok_def exponent_def split: if_splits)
  have "exponent < 2 ^ is_exponent s"
    using ok by (intro exponent_code_bounds(1) [OF s]) (auto simp: significand_ok_def split: if_splits)
  note lay = layout_or [OF s this, of "significand mod 2 ^ is_fraction s" "bv_negative v"]
  have code: "(if 2 ^ is_fraction s \<le> significand
      then nat ((if msb < 1 - is_bias s then 1 - is_bias s else msb) + is_bias s) else 0) = exponent"
    using normal by (simp add: exponent_def)
  have lt': "significand \<noteq> 2 ^ (is_fraction s + 1)" using lt by simp
  have "encode_finite format v policy = Inr \<lparr>cv_bits = shl64 (of_bool (bv_negative v)) (is_width s - 1)
      OR shl64 exponent (is_fraction s) OR significand mod 2 ^ is_fraction s, cv_flags = no_flags\<rparr>"
    unfolding encode_finite_def Let_def s [symmetric] top(1) [symmetric] q [symmetric] significand_def [symmetric]
    using v(1) top(2) exact lt' code by (simp add: no_flags_def)
  with lay show "encode_finite format v policy
      = Inr \<lparr>cv_bits = layout s (bv_negative v) exponent (significand mod 2 ^ is_fraction s), cv_flags = no_flags\<rparr>"
    by simp
qed

section \<open>Conversions\<close>

lemma decode_ieee_finite:
  assumes s: "s = ieee_shape_of format" and dec: "decode_ieee format bits = Inr d" and cat: "de_category d = Cat_finite"
  obtains negative exponent significand where "significand_ok s exponent significand"
    "bits = layout s negative exponent (significand mod 2 ^ is_fraction s)"
    "canonicalize (bval significand (ieee_quantum s exponent) negative) = Inr (de_finite d)"
    "d = finite_decoded negative (de_finite d)"
proof -
  let ?f = "bits mod 2 ^ is_fraction s" and ?e = "bits div 2 ^ is_fraction s mod 2 ^ is_exponent s"
  let ?neg = "bits div 2 ^ (is_width s - 1) \<noteq> 0"
  note sh = shape_facts [OF s]
  from dec have width: "bits div 2 ^ is_width s = 0" by (simp add: decode_ieee_def Let_def s split: if_splits)
  have not_special: "?e \<noteq> num_mask (is_exponent s)" and nonzero: "?e \<noteq> 0 \<or> ?f \<noteq> 0"
    using dec cat by (auto simp: decode_ieee_def Let_def s split: if_splits)
  define sig where "sig = (if ?e \<noteq> 0 then 2 ^ is_fraction s + ?f else ?f)"
  have "?e < 2 ^ is_exponent s" by simp
  moreover have "num_mask (is_exponent s) = 2 ^ is_exponent s - 1" using sh(5) by simp
  ultimately have "?e \<le> nat (2 * is_bias s)" using not_special unfolding sh(7) by linarith
  then have ok: "significand_ok s ?e sig"
    using nonzero by (auto simp: significand_ok_def sig_def)
  have "sig mod 2 ^ is_fraction s = ?f" by (simp add: sig_def)
  with layout_exhaust [OF s width] have bits: "bits = layout s ?neg ?e (sig mod 2 ^ is_fraction s)" by simp
  from dec have "and_then (canonicalize (bval sig (ieee_quantum s ?e) ?neg)) (\<lambda>v. Inr (finite_decoded ?neg v)) = Inr d"
    using decode_layout [OF s ok, of ?neg] bits by metis
  then have "canonicalize (bval sig (ieee_quantum s ?e) ?neg) = Inr (de_finite d)" "d = finite_decoded ?neg (de_finite d)"
    by (auto simp: and_then_eq_Inr finite_decoded_def)
  with that ok bits show thesis by blast
qed

lemma significand_bounds:
  assumes s: "s = ieee_shape_of format" and ok: "significand_ok s exponent significand"
  shows "0 < significand" "significand < 2 ^ 64" "exponent \<le> nat (2 * is_bias s)"
proof -
  have "(2 :: nat) ^ (is_fraction s + 1) \<le> 2 ^ 64" using shape_facts(4) [OF s] by (intro power_increasing) simp_all
  moreover have "(0 :: nat) < 2 ^ is_fraction s" by simp
  ultimately show "0 < significand" "significand < 2 ^ 64" "exponent \<le> nat (2 * is_bias s)"
    using ok by (auto simp: significand_ok_def split: if_splits simp del: zero_less_power)
qed

lemma decoded_canonical:
  assumes s: "s = ieee_shape_of format" and ok: "significand_ok s exponent significand"
    and can: "canonicalize (bval significand (ieee_quantum s exponent) negative) = Inr v"
  shows "canonicalize v = Inr v" "bv_negative v = negative" "0 < bv_magnitude v" "bv_magnitude v < 2 ^ 64"
    "bv_magnitude v * 2 ^ countr_zero significand = significand"
    "bv_exponent v = ieee_quantum s exponent + int (countr_zero significand)"
proof -
  note b = significand_bounds [OF s ok]
  note e = exponent_code_bounds(3) [OF s b(3)]
  show "canonicalize v = Inr v" using e by (intro canonicalize_idem [OF can]) simp
  note c = canonicalize_cases [OF can]
  show "bv_negative v = negative" "bv_exponent v = ieee_quantum s exponent + int (countr_zero significand)"
    and mul: "bv_magnitude v * 2 ^ countr_zero significand = significand"
    using c b(1) e by simp_all
  show "0 < bv_magnitude v" using mul b(1) by (metis mult_is_0 not_gr0)
  have "bv_magnitude v \<le> bv_magnitude v * 2 ^ countr_zero significand" by simp
  with mul b(2) show "bv_magnitude v < 2 ^ 64" by linarith
qed

lemma encode_finite_not_inexact:
  assumes "encode_finite format v policy = Inr c" "\<not> fl_inexact (cv_flags c)" "0 < bv_magnitude v"
    and s: "s = ieee_shape_of format" and top: "msb = bv_exponent v + int (bit_width (bv_magnitude v)) - 1"
    and q: "q = (if msb < 1 - is_bias s then 1 - is_bias s else msb) - int (is_fraction s)"
  shows "msb \<le> is_bias s" "\<not> rv_inexact (ieee_round v q (ip_rounding policy))"
proof -
  have over: "ieee_overflow_result s n policy = Inr c \<Longrightarrow> fl_inexact (cv_flags c)" for n
    by (auto simp: ieee_overflow_result_def Let_def split: if_splits)
  show msb: "msb \<le> is_bias s"
  proof (rule ccontr)
    assume "\<not> msb \<le> is_bias s"
    then have "ieee_overflow_result s (bv_negative v) policy = Inr c"
      using assms(1,3) unfolding encode_finite_def Let_def s [symmetric] top [symmetric] by simp
    with over assms(2) show False by blast
  qed
  show "\<not> rv_inexact (ieee_round v q (ip_rounding policy))"
    using assms(1-3) msb over
    unfolding encode_finite_def Let_def s [symmetric] top [symmetric] q [symmetric]
    by (auto split: if_splits)
qed

text \<open>C29: a conversion between IEEE formats that does not report an inexact result keeps the number, its sign
  included, whatever the rounding mode: the converted bits decode to exactly what the source bits
  decode to, for finite values and for both zeros.\<close>

theorem exact_conversion_keeps_value:
  assumes conv: "convert_ieee source bits destination policy = Inr c" and exact: "\<not> fl_inexact (cv_flags c)"
    and dec: "decode_ieee source bits = Inr d" and cat: "de_category d = Cat_finite \<or> de_category d = Cat_zero"
  shows "decode_ieee destination (cv_bits c) = Inr d"
proof (cases "de_category d = Cat_finite")
  case True
  let ?v = "de_finite d" and ?s = "ieee_shape_of destination"
  obtain negative exponent significand where ok: "significand_ok (ieee_shape_of source) exponent significand"
    and can: "canonicalize (bval significand (ieee_quantum (ieee_shape_of source) exponent) negative) = Inr ?v"
    and d: "d = finite_decoded negative ?v"
    using decode_ieee_finite [OF refl dec True] by metis
  note v = decoded_canonical [OF refl ok can]
  have enc: "encode_finite destination ?v policy = Inr c" using conv dec True by (simp add: convert_ieee_def)
  define msb where "msb = bv_exponent ?v + int (bit_width (bv_magnitude ?v)) - 1"
  define q where "q = (if msb < 1 - is_bias ?s then 1 - is_bias ?s else msb) - int (is_fraction ?s)"
  note n = encode_finite_not_inexact [OF enc exact v(3) refl msb_def q_def]
  note r = encode_finite_exact [OF refl v(3,4) msb_def n(1) q_def n(2)]
  show ?thesis
    using enc r(1) decode_layout [OF refl r(2)] r(3,4) v(1,2) d by auto
next
  case False
  with cat have zero: "de_category d = Cat_zero" by simp
  have d: "d = \<lparr>de_category = Cat_zero, de_negative = de_negative d, de_finite = bval 0 0 False, de_payload = 0, de_payload_bits = 0\<rparr>"
    using dec zero by (auto simp: decode_ieee_def Let_def and_then_eq_Inr split: if_splits)
  let ?s = "ieee_shape_of destination"
  note sh = shape_facts [of ?s destination]
  have "cv_bits c = shl64 (of_bool (de_negative d)) (is_width ?s - 1)"
    using conv dec zero by (auto simp: convert_ieee_def encode_finite_def Let_def)
  also have "\<dots> = layout ?s (de_negative d) 0 0"
    using layout_or [of ?s destination 0 0 "de_negative d"] by (simp add: shl64_def u64_wrap_def)
  finally have bits: "cv_bits c = layout ?s (de_negative d) 0 0" .
  have "num_mask (is_exponent ?s) \<noteq> 0" using exponent_code_bounds(2) [of ?s destination 0] by simp
  with bits layout_fields [of ?s destination 0 0 "de_negative d"] show ?thesis
    by (subst d) (simp add: decode_ieee_def Let_def)
qed

lemma finite_identity:
  assumes s: "s = ieee_shape_of format" and ok: "significand_ok s exponent significand"
    and can: "canonicalize (bval significand (ieee_quantum s exponent) negative) = Inr v"
  shows "encode_finite format v policy
    = Inr \<lparr>cv_bits = layout s negative exponent (significand mod 2 ^ is_fraction s), cv_flags = no_flags\<rparr>"
proof -
  note v = decoded_canonical [OF s ok can] and b = significand_bounds [OF s ok] and sh = shape_facts [OF s]
  define msb where "msb = bv_exponent v + int (bit_width (bv_magnitude v)) - 1"
  define q where "q = (if msb < 1 - is_bias s then 1 - is_bias s else msb) - int (is_fraction s)"
  have "bit_width significand = bit_width (bv_magnitude v) + countr_zero significand"
    using bit_width_mult [OF v(3), of "countr_zero significand"] v(5) by simp
  then have msb: "msb = ieee_quantum s exponent + int (bit_width significand) - 1" by (simp add: msb_def v(6))
  have code: "msb \<le> is_bias s \<and> q = ieee_quantum s exponent
      \<and> (if msb < 1 - is_bias s then 0 else nat (msb + is_bias s)) = exponent"
  proof (cases "exponent = 0")
    case True
    then have "bit_width significand \<le> is_fraction s" using ok by (intro bit_width_le) (simp add: significand_ok_def)
    with True msb sh(8) show ?thesis by (auto simp: q_def ieee_quantum_def)
  next
    case False
    then have "bit_width significand = Suc (is_fraction s)" "exponent \<le> nat (2 * is_bias s)"
      using ok by (auto simp: significand_ok_def intro!: bit_width_eqI)
    with False msb sh(8) show ?thesis by (auto simp: q_def ieee_quantum_def)
  qed
  have "ieee_round v q (ip_rounding policy) = \<lparr>rv_integer = significand, rv_inexact = False\<rparr>"
    using code v(5,6) b(2) by (simp add: ieee_round_def)
  with encode_finite_exact [OF s v(3,4) msb_def _ q_def] code v(2) show ?thesis by simp
qed

lemma exponent_mask_bounds:
  assumes "s = ieee_shape_of format"
  shows "num_mask (is_exponent s) < 2 ^ is_exponent s"
  using shape_facts(5) [OF assms] by simp

lemma special_identity:
  assumes s: "s = ieee_shape_of format" and "bits div 2 ^ is_width s = 0"
  shows "bits mod 2 ^ is_fraction s = 0 \<Longrightarrow> bits div 2 ^ is_fraction s mod 2 ^ is_exponent s = 0
      \<Longrightarrow> shl64 (of_bool (bits div 2 ^ (is_width s - 1) \<noteq> 0)) (is_width s - 1) = bits"
    and "bits div 2 ^ is_fraction s mod 2 ^ is_exponent s = num_mask (is_exponent s)
      \<Longrightarrow> fraction = bits mod 2 ^ is_fraction s
      \<Longrightarrow> shl64 (of_bool (bits div 2 ^ (is_width s - 1) \<noteq> 0)) (is_width s - 1)
        OR shl64 (num_mask (is_exponent s)) (is_fraction s) OR fraction = bits"
proof -
  note l = layout_exhaust [OF s assms(2)]
  show "shl64 (of_bool (bits div 2 ^ (is_width s - 1) \<noteq> 0)) (is_width s - 1) = bits"
    if "bits mod 2 ^ is_fraction s = 0" "bits div 2 ^ is_fraction s mod 2 ^ is_exponent s = 0"
    using layout_or [OF s, of 0 0 "bits div 2 ^ (is_width s - 1) \<noteq> 0"] l that
    by (simp add: shl64_def u64_wrap_def)
  show "shl64 (of_bool (bits div 2 ^ (is_width s - 1) \<noteq> 0)) (is_width s - 1)
      OR shl64 (num_mask (is_exponent s)) (is_fraction s) OR fraction = bits"
    if "bits div 2 ^ is_fraction s mod 2 ^ is_exponent s = num_mask (is_exponent s)"
      "fraction = bits mod 2 ^ is_fraction s"
    using layout_or [OF s exponent_mask_bounds [OF s], of fraction "bits div 2 ^ (is_width s - 1) \<noteq> 0"] l that
    by simp
qed

lemma quiet_fraction:
  assumes "bit fraction (k - 1)" "fraction < 2 ^ k" "1 \<le> k" "k \<le> 52"
  shows "shl64 1 (k - 1) OR fraction mod 2 ^ (k - 1) = fraction"
proof -
  have "fraction < 2 ^ Suc (k - 1)" using assms by simp
  with assms(1) have "2 ^ (k - 1) \<le> fraction" "fraction < 2 * 2 ^ (k - 1)" by (simp_all add: top_bit_iff)
  then have "fraction div 2 ^ (k - 1) = 1" by (intro div_nat_eqI) auto
  then have "fraction = 1 * 2 ^ (k - 1) + fraction mod 2 ^ (k - 1)" by (metis div_mult_mod_eq)
  moreover have "(2 :: nat) ^ (k - 1) < 2 ^ 64" using assms(4) by (intro power_strict_increasing) auto
  ultimately show ?thesis
    using or_eq_add [of "fraction mod 2 ^ (k - 1)" "k - 1" 1] shl64_id [of 1 "k - 1"] by simp
qed

lemma decode_ieee_special:
  assumes s: "s = ieee_shape_of format" and dec: "decode_ieee format bits = Inr d" and "de_category d \<noteq> Cat_finite"
  shows "bits div 2 ^ is_width s = 0" "de_negative d = (bits div 2 ^ (is_width s - 1) \<noteq> 0)"
    "de_category d = Cat_zero \<Longrightarrow> bits mod 2 ^ is_fraction s = 0 \<and> bits div 2 ^ is_fraction s mod 2 ^ is_exponent s = 0"
    "de_category d \<noteq> Cat_zero \<Longrightarrow> bits div 2 ^ is_fraction s mod 2 ^ is_exponent s = num_mask (is_exponent s)"
    "de_category d = Cat_infinity \<Longrightarrow> bits mod 2 ^ is_fraction s = 0"
    "de_category d = Cat_quiet_nan \<Longrightarrow> bit (bits mod 2 ^ is_fraction s) (is_fraction s - 1)
       \<and> de_payload d = bits mod 2 ^ is_fraction s mod 2 ^ (is_fraction s - 1) \<and> de_payload_bits d = is_fraction s - 1"
  using assms(2,3) by (auto simp: decode_ieee_def Let_def s [symmetric] and_then_eq_Inr split: if_splits)

lemma quiet_nan_identity:
  assumes s: "s = ieee_shape_of format" and dec: "decode_ieee format bits = Inr d"
    and cat: "de_category d = Cat_quiet_nan" and "ip_payload policy \<noteq> Payload_canonical"
  shows "convert_nan d s policy = Inr \<lparr>cv_bits = bits, cv_flags = no_flags\<rparr>"
proof -
  have ne: "de_category d \<noteq> Cat_finite" "de_category d \<noteq> Cat_zero" using cat by simp_all
  note sp = decode_ieee_special [OF s dec ne(1)] and payload = decode_ieee_special(6) [OF s dec ne(1) cat]
  have "shl64 1 (is_fraction s - 1) OR bits mod 2 ^ is_fraction s mod 2 ^ (is_fraction s - 1) = bits mod 2 ^ is_fraction s"
    using payload shape_facts(3,4) [OF s] by (intro quiet_fraction) simp_all
  note fr = special_identity(2) [OF s sp(1) sp(4) [OF ne(2)] this]
  have "shl64 (de_payload d) 0 = de_payload d"
  proof -
    have "de_payload d < 2 ^ (is_fraction s - 1)" using payload by simp
    also have "(2 :: nat) ^ (is_fraction s - 1) < 2 ^ 64"
      using shape_facts(4) [OF s] by (intro power_strict_increasing) auto
    finally show ?thesis by simp
  qed
  with fr sp(2) payload cat assms(4) show ?thesis
    by (simp add: convert_nan_def Let_def no_flags_def or.assoc)
qed

text \<open>Converting a sample to its own format gives back the same bits with no flag, for zeros, subnormal and
  normal numbers under every policy, and for infinities and quiet NaNs when these are propagated with
  their payload.\<close>

theorem same_format_identity:
  assumes dec: "decode_ieee format bits = Inr d"
    and cat: "de_category d = Cat_finite \<or> de_category d = Cat_zero
      \<or> de_category d \<noteq> Cat_signaling_nan \<and> ip_nonfinite policy = Nonfinite_propagate \<and> ip_payload policy \<noteq> Payload_canonical"
  shows "convert_ieee format bits format policy = Inr \<lparr>cv_bits = bits, cv_flags = no_flags\<rparr>"
proof (cases "de_category d = Cat_finite")
  case True
  obtain negative exponent significand where ok: "significand_ok (ieee_shape_of format) exponent significand"
    and bits: "bits = layout (ieee_shape_of format) negative exponent (significand mod 2 ^ is_fraction (ieee_shape_of format))"
    and can: "canonicalize (bval significand (ieee_quantum (ieee_shape_of format) exponent) negative) = Inr (de_finite d)"
    using decode_ieee_finite [OF refl dec True] by metis
  have "convert_ieee format bits format policy = encode_finite format (de_finite d) policy"
    using dec True by (simp add: convert_ieee_def)
  also have "\<dots> = Inr \<lparr>cv_bits = bits, cv_flags = no_flags\<rparr>"
    unfolding finite_identity [OF refl ok can] bits [symmetric] ..
  finally show ?thesis .
next
  case False
  let ?s = "ieee_shape_of format"
  note sp = decode_ieee_special [OF refl dec False]
  show ?thesis
  proof (cases "de_category d")
    case Cat_zero
    with sp(1-3) special_identity(1) [OF refl sp(1)] dec show ?thesis
      by (simp add: convert_ieee_def encode_finite_def Let_def)
  next
    case Cat_infinity
    with sp(1,2,4,5) special_identity(2) [OF refl sp(1), of 0] dec cat show ?thesis
      by (simp add: convert_ieee_def Let_def)
  next
    case Cat_quiet_nan
    with cat quiet_nan_identity [OF refl dec] dec show ?thesis by (simp add: convert_ieee_def)
  qed (use False cat in simp_all)
qed

text \<open>The number 1 in binary16 is \<open>0x3c00\<close>, in binary32 \<open>0x3f800000\<close>.\<close>

definition strict_policy :: ieee_policy where
  "strict_policy = \<lparr>ip_precision = Exact_only, ip_rounding = Nearest_ties_even, ip_overflow = Ieee_error,
     ip_nonfinite = Nonfinite_reject, ip_payload = Payload_exact\<rparr>"

lemma decode_one: "decode_ieee Binary16 0x3c00 = Inr (finite_decoded False (bval 1 0 False))"
proof -
  have "countr_zero 1024 = 10" using countr_zero_mult [of 1 10] by (simp add: countr_zero_odd)
  then show ?thesis by (simp add: decode_ieee_def canonicalize_def finite_decoded_def)
qed

lemma convert_one:
  "convert_ieee Binary16 0x3c00 Binary32 strict_policy = Inr \<lparr>cv_bits = 0x3f800000, cv_flags = no_flags\<rparr>"
proof -
  have "bit_width 1 = 1" using bit_width_eqI [of 0 1] by simp
  then have "encode_finite Binary32 (bval 1 0 False) strict_policy = Inr \<lparr>cv_bits = 0x3f800000, cv_flags = no_flags\<rparr>"
    by (simp add: encode_finite_def ieee_round_def shl64_def u64_wrap_def strict_policy_def no_flags_def)
  then show ?thesis by (simp add: convert_ieee_def decode_one finite_decoded_def)
qed

theorem exact_conversion_keeps_value_witness:
  "decode_ieee Binary32 0x3f800000 = Inr (finite_decoded False (bval 1 0 False))"
  using exact_conversion_keeps_value [OF convert_one _ decode_one] by (simp add: no_flags_def finite_decoded_def)

theorem same_format_identity_witness:
  "convert_ieee Binary16 0x3c00 Binary16 strict_policy = Inr \<lparr>cv_bits = 0x3c00, cv_flags = no_flags\<rparr>"
  using same_format_identity [OF decode_one] by (simp add: finite_decoded_def)

end
