(* ===== verification/Sample_Descriptors.thy ===== *)
theory Sample_Descriptors
  imports Packed_Samples Ieee_Samples Field_Values
begin

text \<open>
  Payload format descriptors (\<^verbatim>\<open>codec/sample_descriptors.hpp\<close>): the 64-bit format field is
  validated into a packing specification and a number format, and a payload is measured against
  the padding evidence. Then the reader of payloads scattered over several byte spans
  (\<^verbatim>\<open>codec/segmented_samples.hpp\<close>). A nonempty span has a data pointer, so the null test of
  the code has no counterpart.
\<close>

section \<open>Descriptors\<close>

datatype signal_domain = Domain_time | Domain_spectral | Domain_spectral_log_power
datatype component_unit = Dimensionless | Decibels | Pi_multiple | Two_pi_multiple | Radians | Unspecified_unit
datatype number_format = Number_numeric numeric_spec | Number_ieee ieee_format

record sample_desc =
  ds_wire :: payload_format
  ds_packing :: packing_spec
  ds_number :: number_format
  ds_domain :: signal_domain

text \<open>\<open>(w >> k) & mask\<close> as a number.\<close>

definition wire_bits :: "u32 \<Rightarrow> nat \<Rightarrow> nat \<Rightarrow> nat" where
  "wire_bits w k n = unat (take_bit n (drop_bit k w))"

definition wire_packing :: "u32 \<Rightarrow> u32 \<Rightarrow> packing_spec" where
  "wire_packing high low = (let k = wire_bits high 29 2; repeats = wire_bits low 16 16 + 1 in
     \<lparr>item_bits = wire_bits high 0 6 + 1, packing_bits = wire_bits high 6 6 + 1,
      channel_tag_bits = wire_bits high 16 4, event_tag_bits = wire_bits high 20 3,
      packing = (if bit high 31 then Link_packing else Processing_packing),
      kind = (if k = 0 then Real_sample else if k = 1 then Cartesian_sample else Polar_sample),
      repeating = (if bit high 23 then Repeat_component else if repeats > 1 then Repeat_channel else Repeat_none),
      vector_size = wire_bits low 0 16 + 1, repeat_count = repeats\<rparr>)"

definition numeric_number :: "nat \<Rightarrow> nat \<Rightarrow> signal_domain \<Rightarrow> nat \<Rightarrow> number_format result" where
  "numeric_number code fraction domain bits =
     (let n = \<lparr>ns_kind = Signed_fixed, ns_bits = bits, ns_fractional_bits = 0, ns_exponent_bits = 0\<rparr>
      in and_then
       (if code = 0 \<or> code = 16 then Inr (n\<lparr>ns_kind := (if code = 0 then Signed_fixed else Unsigned_fixed)\<rparr>)
        else if (code \<ge> 1 \<and> code \<le> 6) \<or> (code \<ge> 17 \<and> code \<le> 22)
        then Inr (n\<lparr>ns_kind := (if code < 16 then Signed_vrt else Unsigned_vrt), ns_exponent_bits := code mod 16\<rparr>)
        else if code = 7 \<or> code = 23
        then (if domain = Domain_time then Inl (err Invalid_argument)
              else Inr (n\<lparr>ns_kind := (if code = 7 then Signed_non_normalized else Unsigned_non_normalized),
                ns_fractional_bits := fraction\<rparr>))
        else Inl (err Unsupported_layout)) (\<lambda>n.
       if code \<noteq> 7 \<and> code \<noteq> 23 \<and> fraction \<noteq> 0 then Inl (err Invalid_argument)
       else and_then (decode_numeric n 0) (\<lambda>_. Inr (Number_numeric n))))"

definition wire_number :: "nat \<Rightarrow> nat \<Rightarrow> signal_domain \<Rightarrow> nat \<Rightarrow> number_format result" where
  "wire_number code fraction domain bits =
     (if code = 13 \<or> code = 14 \<or> code = 15
      then (if bits \<noteq> (if code = 13 then 16 else if code = 14 then 32 else 64) \<or> fraction \<noteq> 0
            then Inl (err Invalid_argument)
            else Inr (Number_ieee (if code = 13 then Binary16 else if code = 14 then Binary32 else Binary64)))
      else numeric_number code fraction domain bits)"

definition sample_descriptor :: "payload_format \<Rightarrow> signal_domain \<Rightarrow> sample_desc result" where
  "sample_descriptor wire domain =
     (let high = ucast (drop_bit 32 (pf_bits wire)) :: u32; low = ucast (pf_bits wire) :: u32;
        code = wire_bits high 24 5; fraction = wire_bits high 12 4; p = wire_packing high low
      in if wire_bits high 29 2 = 3 then Inl (err Invalid_argument)
      else if bit high 23 \<and> repeat_count p = 1 then Inl (err Invalid_argument)
      else and_then (measure_samples p 0 default_limits) (\<lambda>_.
        and_then (wire_number code fraction domain (item_bits p)) (\<lambda>number.
        if domain = Domain_spectral_log_power
          \<and> (kind p \<noteq> Real_sample \<or> item_bits p > 16 \<or> (code \<noteq> 0 \<and> code \<noteq> 7 \<and> code \<noteq> 23))
        then Inl (err Invalid_argument)
        else Inr \<lparr>ds_wire = wire, ds_packing = p, ds_number = number, ds_domain = domain\<rparr>)))"

definition component_unit_of :: "sample_desc \<Rightarrow> nat \<Rightarrow> component_unit result" where
  "component_unit_of d component =
     (if component \<ge> (if kind (ds_packing d) = Real_sample then 1 else 2) then Inl (err Invalid_argument)
      else if ds_domain d = Domain_spectral_log_power then Inr Decibels
      else if kind (ds_packing d) \<noteq> Polar_sample \<or> component \<noteq> 1 then Inr Dimensionless
      else case ds_number d of Number_ieee _ \<Rightarrow> Inr Radians
        | Number_numeric n \<Rightarrow>
            if ns_kind n = Signed_non_normalized \<or> ns_kind n = Unsigned_non_normalized then Inr Unspecified_unit
            else Inr (if ns_kind n = Signed_fixed \<or> ns_kind n = Signed_vrt then Pi_multiple else Two_pi_multiple))"

section \<open>Payloads\<close>

datatype pad_reporting = Omitted_by_class | Exact_padding | Allow_zero_when_implied

record padding_evidence =
  pe_policy :: pad_reporting
  pe_class_id_pad_bits :: "nat option"

record payload_binding =
  pb_structures :: nat
  pb_padding :: padding_evidence

definition payload_padding :: "packing_spec \<Rightarrow> shape \<Rightarrow> nat" where
  "payload_padding p sh =
     sh_bytes sh * 8 - (if sh_items sh \<noteq> 0 then bit_offset p (sh_items sh - 1) + packing_bits p else 0)"

definition padding_accepted :: "padding_evidence \<Rightarrow> nat \<Rightarrow> nat \<Rightarrow> bool" where
  "padding_accepted evidence padding bits = (case pe_policy evidence of
     Omitted_by_class \<Rightarrow> pe_class_id_pad_bits evidence = None
   | _ \<Rightarrow> (case pe_class_id_pad_bits evidence of None \<Rightarrow> False
       | Some pad \<Rightarrow> \<not> pad > 31
          \<and> \<not> (pad \<noteq> padding \<and> \<not> (pe_policy evidence = Allow_zero_when_implied \<and> pad = 0 \<and> padding < bits))))"

definition measure_payload :: "sample_desc \<Rightarrow> payload_binding \<Rightarrow> sample_limits \<Rightarrow> shape result" where
  "measure_payload d binding limits =
     and_then (measure_samples (ds_packing d) (pb_structures binding) limits) (\<lambda>sh.
       if \<not> padding_accepted (pb_padding binding) (payload_padding (ds_packing d) sh) (item_bits (ds_packing d))
       then Inl (err Invalid_argument) else Inr sh)"

definition contiguous :: "bytes \<Rightarrow> sample_desc \<Rightarrow> payload_binding \<Rightarrow> sample_limits \<Rightarrow> packed_samples result" where
  "contiguous bs d binding limits =
     and_then (measure_payload d binding limits) (\<lambda>_.
       packed_create bs (ds_packing d) (pb_structures binding) limits)"

section \<open>Segmented payloads\<close>

record segment =
  sg_bytes :: bytes
  sg_end :: nat

record segmented_samples =
  gs_segments :: "segment list"
  gs_descriptor :: sample_desc
  gs_shape :: shape

primrec segment_byte :: "segment list \<Rightarrow> nat \<Rightarrow> nat \<Rightarrow> u8" where
  "segment_byte [] start offset = 0"
| "segment_byte (g # gs) start offset =
     (if offset < sg_end g then sg_bytes g ! (offset - start) else segment_byte gs (sg_end g) offset)"

primrec segment_read_loop :: "segment list \<Rightarrow> nat \<Rightarrow> nat list \<Rightarrow> u64 \<Rightarrow> u64" where
  "segment_read_loop gs offset [] value = value"
| "segment_read_loop gs offset (b # rest) value =
     segment_read_loop gs offset rest
       (push_bit 1 value OR ucast (drop_bit (7 - (offset + b) mod 8) (segment_byte gs 0 ((offset + b) div 8)) AND 1))"

definition segment_read :: "segment list \<Rightarrow> nat \<Rightarrow> nat \<Rightarrow> u64" where
  "segment_read gs offset width = segment_read_loop gs offset [0..<width] 0"

primrec add_segments :: "bytes list \<Rightarrow> segment list \<Rightarrow> nat \<Rightarrow> (segment list \<times> nat) result" where
  "add_segments [] gs extent = Inr (gs, extent)"
| "add_segments (b # rest) gs extent =
     (if b = [] then add_segments rest gs extent
      else if length b > size_max - extent then Inl (err Overflow)
      else add_segments rest (gs @ [\<lparr>sg_bytes = b, sg_end = extent + length b\<rparr>]) (extent + length b))"

definition segmented_create :: "nat \<Rightarrow> bytes list \<Rightarrow> sample_desc \<Rightarrow> payload_binding \<Rightarrow> sample_limits
    \<Rightarrow> segmented_samples result" where
  "segmented_create max_segments pieces d binding limits =
     (if length pieces > max_segments then Inl (err_need Resource_limit 0 (length pieces))
      else and_then (measure_payload d binding limits) (\<lambda>sh.
        and_then (add_segments pieces [] 0) (\<lambda>(gs, extent).
          if extent < sh_bytes sh then Inl (err_need Short_input 0 (sh_bytes sh))
          else if extent \<noteq> sh_bytes sh then Inl (err Invalid_argument)
          else Inr \<lparr>gs_segments = gs, gs_descriptor = d, gs_shape = sh\<rparr>)))"

definition segmented_at :: "segmented_samples \<Rightarrow> nat \<Rightarrow> item result" where
  "segmented_at g index =
     (if index \<ge> sh_items (gs_shape g) then Inl (err_at Invalid_argument index)
      else let p = ds_packing (gs_descriptor g); offset = bit_offset p index in
        Inr \<lparr>data_bits = segment_read (gs_segments g) offset (item_bits p),
          channel_tag = segment_read (gs_segments g) (offset + packing_bits p - channel_tag_bits p) (channel_tag_bits p),
          event_tag = segment_read (gs_segments g) (offset + packing_bits p - channel_tag_bits p - event_tag_bits p)
            (event_tag_bits p)\<rparr>)"

section \<open>Scattered payloads read as one\<close>

primrec chained :: "nat \<Rightarrow> segment list \<Rightarrow> bool" where
  "chained start [] = True"
| "chained start (g # gs) = (sg_end g = start + length (sg_bytes g) \<and> chained (sg_end g) gs)"

definition segment_bytes :: "segment list \<Rightarrow> bytes" where
  "segment_bytes gs = concat (map sg_bytes gs)"

lemma segment_byte_nth:
  "chained start gs \<Longrightarrow> start \<le> offset \<Longrightarrow> offset < start + length (segment_bytes gs)
   \<Longrightarrow> segment_byte gs start offset = segment_bytes gs ! (offset - start)"
proof (induction gs arbitrary: start)
  case (Cons g gs)
  have e: "sg_end g = start + length (sg_bytes g)" and all: "segment_bytes (g # gs) = sg_bytes g @ segment_bytes gs"
    using Cons.prems by (simp_all add: segment_bytes_def)
  show ?case
  proof (cases "offset < sg_end g")
    case False
    have "segment_byte gs (sg_end g) offset = segment_bytes gs ! (offset - sg_end g)"
      using Cons.prems False e unfolding all by (intro Cons.IH) simp_all
    moreover have "\<not> offset - start < length (sg_bytes g)" using False e Cons.prems(2) by linarith
    ultimately show ?thesis using False e unfolding all by (simp add: nth_append)
  next
    case True
    with e Cons.prems(2) have "offset - start < length (sg_bytes g)" by linarith
    with True show ?thesis unfolding all by (simp add: nth_append)
  qed
qed (simp add: segment_bytes_def)

lemma chained_snoc:
  "chained start (gs @ [g]) \<longleftrightarrow> chained start gs \<and> sg_end g = start + length (segment_bytes gs) + length (sg_bytes g)"
proof (induction gs arbitrary: start)
  case (Cons a gs)
  then show ?case
    by (cases "sg_end a = start + length (sg_bytes a)") (simp_all add: segment_bytes_def add.assoc)
qed (simp add: segment_bytes_def)

lemma add_segments_Inr:
  assumes "chained 0 gs" "extent = length (segment_bytes gs)" "extent + length (concat pieces) \<le> size_max"
  shows "\<exists>gs'. add_segments pieces gs extent = Inr (gs', extent + length (concat pieces)) \<and> chained 0 gs'
    \<and> segment_bytes gs' = segment_bytes gs @ concat pieces"
  using assms
proof (induction pieces arbitrary: gs extent)
  case (Cons b pieces)
  show ?case
  proof (cases "b = []")
    case False
    let ?g = "\<lparr>sg_bytes = b, sg_end = extent + length b\<rparr>"
    from Cons.IH [of "gs @ [?g]" "extent + length b"] Cons.prems False
    show ?thesis by (auto simp: chained_snoc segment_bytes_def)
  qed (use Cons in auto)
qed auto

lemma segment_read_eq:
  assumes "chained 0 gs" "offset + width \<le> 8 * length (segment_bytes gs)"
  shows "segment_read gs offset width = read_bits (segment_bytes gs) offset width"
proof -
  have "segment_read_loop gs offset xs v = read_bits_loop (segment_bytes gs) offset xs v"
    if "\<And>b. b \<in> set xs \<Longrightarrow> (offset + b) div 8 < length (segment_bytes gs)" for xs v
    using that by (induction xs arbitrary: v) (simp_all add: segment_byte_nth [OF assms(1)])
  moreover have "(offset + b) div 8 < length (segment_bytes gs)" if "b \<in> set [0..<width]" for b
    using that assms(2) by (auto simp: less_mult_imp_div_less mult.commute)
  ultimately show ?thesis by (simp only: segment_read_def read_bits_def)
qed

lemma segmented_at_eq:
  assumes measure: "measure_samples (ds_packing d) structures limits = Inr sh" and gs: "chained 0 gs"
    and len: "length (segment_bytes gs) = sh_bytes sh"
  shows "segmented_at \<lparr>gs_segments = gs, gs_descriptor = d, gs_shape = sh\<rparr> i
    = packed_at \<lparr>ps_bytes = segment_bytes gs, ps_spec = ds_packing d, ps_shape = sh\<rparr> i"
proof (cases "i < sh_items sh")
  case True
  let ?p = "ds_packing d"
  note slot = slot_in_bytes [OF measure True]
  note v = validate_packing_Inr(7) [OF measure_samples_Inr(1) [OF measure]]
  have "segment_read gs (bit_offset ?p i + k) w = read_bits (segment_bytes gs) (bit_offset ?p i + k) w"
    if "k + w \<le> packing_bits ?p" for k w
    using slot that len by (intro segment_read_eq [OF gs]) simp
  from this [of 0 "item_bits ?p"] this [of "packing_bits ?p - channel_tag_bits ?p" "channel_tag_bits ?p"]
    this [of "packing_bits ?p - channel_tag_bits ?p - event_tag_bits ?p" "event_tag_bits ?p"] v True
  show ?thesis by (simp add: segmented_at_def packed_at_def read_item_def Let_def)
qed (simp add: segmented_at_def packed_at_def)

text \<open>a payload given in pieces is read like the one contiguous payload the pieces make up: creating
  the reader succeeds or fails with the same error, and every index gives the same item.\<close>

theorem segmented_is_contiguous:
  assumes "length pieces \<le> max_segments" "length (concat pieces) \<le> size_max"
  shows "case contiguous (concat pieces) d binding limits of
      Inl e \<Rightarrow> segmented_create max_segments pieces d binding limits = Inl e
    | Inr p \<Rightarrow> \<exists>g. segmented_create max_segments pieces d binding limits = Inr g \<and> (\<forall>i. segmented_at g i = packed_at p i)"
proof (cases "measure_payload d binding limits")
  case (Inl e)
  then show ?thesis using assms(1) by (simp add: contiguous_def segmented_create_def)
next
  case (Inr sh)
  then have m: "measure_samples (ds_packing d) (pb_structures binding) limits = Inr sh"
    by (simp add: measure_payload_def and_then_eq_Inr)
  from add_segments_Inr [of "[]" 0 pieces] assms(2) obtain gs where
    gs: "add_segments pieces [] 0 = Inr (gs, length (concat pieces))" "chained 0 gs" "segment_bytes gs = concat pieces"
    by (auto simp: segment_bytes_def)
  show ?thesis
  proof (cases "length (concat pieces) = sh_bytes sh")
    case True
    with gs m Inr assms(1) have "segmented_create max_segments pieces d binding limits
        = Inr \<lparr>gs_segments = gs, gs_descriptor = d, gs_shape = sh\<rparr>"
      by (simp add: segmented_create_def)
    moreover have "contiguous (concat pieces) d binding limits
        = Inr \<lparr>ps_bytes = concat pieces, ps_spec = ds_packing d, ps_shape = sh\<rparr>"
      using True m Inr by (simp add: contiguous_def packed_create_def)
    ultimately show ?thesis using segmented_at_eq [OF m gs(2)] gs(3) True by simp
  qed (use gs m Inr assms(1) in \<open>auto simp: contiguous_def packed_create_def segmented_create_def\<close>)
qed

section \<open>Described samples are numbers\<close>

definition decode_number :: "number_format \<Rightarrow> u64 \<Rightarrow> bool" where
  "decode_number n bits = (case n of
     Number_numeric spec \<Rightarrow> (case decode_numeric spec (unat bits) of Inr _ \<Rightarrow> True | Inl _ \<Rightarrow> False)
   | Number_ieee format \<Rightarrow> (case decode_ieee format (unat bits) of Inr _ \<Rightarrow> True | Inl _ \<Rightarrow> False))"

lemma read_bits_bound: "width \<le> 64 \<Longrightarrow> unat (read_bits bs offset width) < 2 ^ width"
proof -
  assume w: "width \<le> 64"
  have "take_bit width (read_bits bs offset width) = read_bits bs offset width"
    by (rule bit_word_eqI) (auto simp: bit_take_bit_iff bit_read_bits [OF w])
  then show ?thesis by (metis unsigned_take_bit_eq take_bit_nat_less_exp)
qed

lemma canonicalize_small: "bv_exponent v \<le> 3000 \<Longrightarrow> bv_magnitude v < 2 ^ 64 \<Longrightarrow> \<exists>c. canonicalize v = Inr c"
proof (cases "bv_magnitude v = 0")
  case False
  assume v: "bv_exponent v \<le> 3000" "bv_magnitude v < 2 ^ 64"
  let ?z = "countr_zero (bv_magnitude v)"
  have "2 ^ ?z \<le> bv_magnitude v"
    using countr_zero_div [of "bv_magnitude v"] False by (metis dvd_imp_le dvd_triv_right not_gr0)
  with v(2) have "(2 :: nat) ^ ?z < 2 ^ 64" by linarith
  then have "?z < 64" by (simp only: pow2_less)
  with v(1) False show ?thesis by (simp add: canonicalize_def Let_def)
qed (simp add: canonicalize_def)

lemma decode_numeric_total:
  assumes valid: "validate_numeric s = Inr u" and bits: "bits < 2 ^ ns_bits s"
  shows "\<exists>v. decode_numeric s bits = Inr v"
proof -
  let ?k = "ns_exponent_bits s" and ?vrt = "vrt_kind (ns_kind s)"
  define e where "e = (if ?vrt then bits mod 2 ^ ?k else 0)"
  define x where "x = (if ?vrt then bits div 2 ^ ?k else bits)"
  define neg where "neg = (signed_kind (ns_kind s) \<and> bit x (mantissa_bits s - 1))"
  note v = validate_numeric_Inr [OF valid]
  have "e \<le> max_exponent_code s"
    using v(3) by (auto simp: e_def max_exponent_code_def simp flip: less_eq_Suc_le intro!: less_imp_le_nat
        simp: less_Suc_eq_le [symmetric])
  note q = quantum_bounds [OF valid this]
  have p: "(2 :: nat) ^ ns_bits s \<le> 2 ^ 64" "(2 :: nat) ^ mantissa_bits s \<le> 2 ^ 64"
    using v(2,7) by (intro power_increasing; simp)+
  have "x \<le> bits" by (simp add: x_def)
  with bits p(1) have "x < 2 ^ 64" by linarith
  moreover have "neg64 x mod 2 ^ mantissa_bits s < 2 ^ 64" by (rule less_le_trans [OF _ p(2)]) simp
  ultimately have "(if neg then neg64 x mod 2 ^ mantissa_bits s else x) < 2 ^ 64" by presburger
  then obtain c where "canonicalize (bval (if neg then neg64 x mod 2 ^ mantissa_bits s else x) (quantum s e) neg) = Inr c"
    using canonicalize_small [of "bval (if neg then neg64 x mod 2 ^ mantissa_bits s else x) (quantum s e) neg"] q by auto
  then show ?thesis
    using valid bits q by (auto simp: decode_numeric_def Let_def e_def x_def neg_def)
qed

lemma decode_ieee_total:
  assumes s: "s = ieee_shape_of format" and bits: "bits < 2 ^ is_width s"
  shows "\<exists>d. decode_ieee format bits = Inr d"
proof -
  let ?f = "bits mod 2 ^ is_fraction s" and ?e = "bits div 2 ^ is_fraction s mod 2 ^ is_exponent s"
  note sh = shape_facts [OF s]
  define q where "q = (if ?e \<noteq> 0 then int ?e else 1) - is_bias s - int (is_fraction s)"
  have "(2 :: nat) ^ is_exponent s \<le> 2 ^ 11" using sh(5) by (intro power_increasing) simp_all
  moreover have "?e < 2 ^ is_exponent s" by simp
  ultimately have "?e < 2 ^ 11" by linarith
  then have e: "?e < 2048" by simp
  then have q: "- 3000 \<le> q" "q \<le> 3000" using sh(4,8,9) by (auto simp: q_def)
  have "?f OR (if ?e \<noteq> 0 then 2 ^ is_fraction s else 0) < 2 ^ 64"
  proof -
    have p: "(2 :: nat) ^ is_fraction s \<le> 2 ^ 52" using sh(4) by (intro power_increasing) simp_all
    have f: "?f < 2 ^ 52" by (rule less_le_trans [OF _ p]) simp
    have "?f OR 2 ^ is_fraction s = 2 ^ is_fraction s + ?f"
      using or_eq_add [of ?f "is_fraction s" 1] by (simp add: or.commute)
    with p f have "?f OR 2 ^ is_fraction s < 2 ^ 64" by simp
    with f show ?thesis by simp
  qed
  then obtain c where "canonicalize (bval (?f OR (if ?e \<noteq> 0 then 2 ^ is_fraction s else 0)) q
      (bits div 2 ^ (is_width s - 1) \<noteq> 0)) = Inr c"
    using canonicalize_small [of "bval (?f OR (if ?e \<noteq> 0 then 2 ^ is_fraction s else 0)) q
      (bits div 2 ^ (is_width s - 1) \<noteq> 0)"] q(2) by auto
  moreover have "int16_wrap q = q" using q by simp
  ultimately show ?thesis
    using bits unfolding decode_ieee_def Let_def s [symmetric] q_def by (auto simp: not_less)
qed

text \<open>every item read from a payload under an accepted format descriptor is a number of the described format:
  decoding its data bits never fails.\<close>

theorem described_items_decode:
  assumes "sample_descriptor wire domain = Inr d" "contiguous bs d binding limits = Inr p" "packed_at p i = Inr it"
  shows "decode_number (ds_number d) (data_bits it)"
proof -
  from assms(2) have p: "ps_spec p = ds_packing d"
    by (auto simp: contiguous_def and_then_eq_Inr packed_create_Inr)
  from assms(1) obtain code fraction where number: "wire_number code fraction domain (item_bits (ds_packing d)) = Inr (ds_number d)"
    and valid: "validate_packing (ds_packing d) = Inr ()"
    by (auto simp: sample_descriptor_def and_then_eq_Inr Let_def measure_samples_def)
  note w = validate_packing_Inr(2) [OF valid]
  from assms(3) p have "data_bits it = read_bits (ps_bytes p) (bit_offset (ds_packing d) i) (item_bits (ds_packing d))"
    by (auto simp: packed_at_def read_item_def)
  then have bits: "unat (data_bits it) < 2 ^ item_bits (ds_packing d)" using read_bits_bound [OF w] by simp
  show ?thesis
  proof (cases "ds_number d")
    case (Number_numeric n)
    with number have "validate_numeric n = Inr ()" "ns_bits n = item_bits (ds_packing d)"
      by (auto simp: wire_number_def numeric_number_def decode_numeric_def and_then_eq_Inr Let_def split: if_splits)
    with decode_numeric_total [of n "()" "unat (data_bits it)"] bits Number_numeric show ?thesis
      by (auto simp: decode_number_def)
  next
    case (Number_ieee format)
    with number have "is_width (ieee_shape_of format) = item_bits (ds_packing d)"
      by (auto simp: wire_number_def numeric_number_def and_then_eq_Inr Let_def split: if_splits)
    with decode_ieee_total [OF refl, of "unat (data_bits it)" format] bits Number_ieee show ?thesis
      by (auto simp: decode_number_def)
  qed
qed

text \<open>Link-packed real 16-bit signed fixed-point samples, two of them in two pieces.\<close>

definition real16 :: sample_desc where
  "real16 = \<lparr>ds_wire = Payload_format 0x800003cf00000000,
     ds_packing = \<lparr>item_bits = 16, packing_bits = 16, channel_tag_bits = 0, event_tag_bits = 0, packing = Link_packing,
       kind = Real_sample, repeating = Repeat_none, vector_size = 1, repeat_count = 1\<rparr>,
     ds_number = Number_numeric \<lparr>ns_kind = Signed_fixed, ns_bits = 16, ns_fractional_bits = 0, ns_exponent_bits = 0\<rparr>,
     ds_domain = Domain_time\<rparr>"

definition two_structures :: payload_binding where
  "two_structures = \<lparr>pb_structures = 2, pb_padding = \<lparr>pe_policy = Omitted_by_class, pe_class_id_pad_bits = None\<rparr>\<rparr>"

definition real16_payload :: packed_samples where
  "real16_payload = \<lparr>ps_bytes = [0x12, 0x34, 0x56, 0x78], ps_spec = ds_packing real16,
     ps_shape = \<lparr>sh_structures = 2, sh_items_per_structure = 1, sh_items = 2, sh_bytes = 4\<rparr>\<rparr>"

lemma real16_descriptor: "sample_descriptor (Payload_format 0x800003cf00000000) Domain_time = Inr real16"
proof -
  have high: "(ucast (drop_bit 32 (0x800003cf00000000 :: u64)) :: u32) = 0x800003cf" "(ucast (0x800003cf00000000 :: u64) :: u32) = 0"
    by simp_all
  have fields: "wire_bits 0x800003cf 29 2 = 0" "wire_bits 0x800003cf 24 5 = 0" "wire_bits 0x800003cf 12 4 = 0"
    "wire_bits 0x800003cf 0 6 = 15" "wire_bits 0x800003cf 6 6 = 15" "wire_bits 0x800003cf 16 4 = 0"
    "wire_bits 0x800003cf 20 3 = 0" "wire_bits 0 16 16 = 0" "wire_bits 0 0 16 = 0"
    by (simp_all add: wire_bits_def take_bit_eq_mod)
  have flags: "bit (0x800003cf :: u32) 31" "\<not> bit (0x800003cf :: u32) 23" by (simp_all add: bit_iff_odd_drop_bit)
  have spec: "wire_packing 0x800003cf 0 = ds_packing real16"
    unfolding wire_packing_def real16_def fields using flags by simp
  have m: "measure_samples (ds_packing real16) 0 default_limits
      = Inr \<lparr>sh_structures = 0, sh_items_per_structure = 1, sh_items = 0, sh_bytes = 0\<rparr>"
    by (simp add: measure_samples_def validate_packing_def real16_def default_limits_def multiply_def size_max_def
        components_def packed_words_def)
  have zero: "decode_numeric \<lparr>ns_kind = Signed_fixed, ns_bits = 16, ns_fractional_bits = 0, ns_exponent_bits = 0\<rparr> 0
      = Inr (bval 0 0 False)"
    by (rule decode_zero) (simp add: validate_numeric_def vrt_kind_def non_normalized_def)
  have "wire_number 0 0 Domain_time (item_bits (ds_packing real16)) = Inr (ds_number real16)"
    by (simp add: wire_number_def numeric_number_def real16_def zero)
  with m show ?thesis
    unfolding sample_descriptor_def Let_def payload_format.sel high fields spec using flags by (simp add: real16_def)
qed

lemma real16_contiguous: "contiguous [0x12, 0x34, 0x56, 0x78] real16 two_structures default_limits = Inr real16_payload"
proof -
  have m: "measure_samples (ds_packing real16) 2 default_limits = Inr (ps_shape real16_payload)"
    by (simp add: measure_samples_def validate_packing_def real16_def default_limits_def multiply_def size_max_def
        components_def packed_words_def real16_payload_def)
  then show ?thesis
    by (simp add: contiguous_def measure_payload_def two_structures_def padding_accepted_def packed_create_def
        real16_payload_def)
qed

theorem segmented_is_contiguous_witness:
  "\<exists>g. segmented_create 8 [[0x12, 0x34, 0x56], [], [0x78]] real16 two_structures default_limits = Inr g
    \<and> segmented_at g 1 = packed_at real16_payload 1"
  using segmented_is_contiguous [of "[[0x12, 0x34, 0x56], [], [0x78]]" 8 real16 two_structures default_limits]
  by (auto simp: real16_contiguous size_max_def)

theorem described_items_decode_witness: "decode_number (ds_number real16) 0x5678"
proof -
  have bits: "[0..<16::nat] = [0, 1, 2, 3, 4, 5, 6, 7, 8, 9, 10, 11, 12, 13, 14, 15]" by (simp add: upt_conv_Cons)
  have "packed_at real16_payload 1 = Inr \<lparr>data_bits = 0x5678, channel_tag = 0, event_tag = 0\<rparr>"
    by (simp add: packed_at_def real16_payload_def real16_def bit_offset_def read_item_def read_bits_def bits)
  from described_items_decode [OF real16_descriptor real16_contiguous this] show ?thesis by simp
qed

end
