(* ===== verification/Packet_View.thy ===== *)
theory Packet_View
  imports Wire Scalar_Codec
begin

text \<open>
  A decoded packet as its consumers see it (\<^verbatim>\<open>codec/packet.hpp\<close>): the envelope view and one
  view per field, attribute or diagnostic of the body. The traversal that fills it is not part
  of this theory; its consumers take any packet view.
\<close>

datatype body_kind = Body_values | Body_selectors | Body_diagnostics
datatype diagnostic_group = Group_none | Group_warning | Group_error

record field_view =
  fv_id :: field_id
  fv_attribute :: attribute
  fv_kind :: body_kind
  fv_group :: diagnostic_group
  fv_bytes :: bytes

record packet_view =
  pv_envelope :: envelope_view
  pv_fields :: "field_view list"
  pv_body_kind :: body_kind
  pv_opaque :: bool
  pv_change :: bool
  pv_requires_request_context :: bool

definition field_value :: "field_view \<Rightarrow> semantic_value result" where
  "field_value v =
     (if fv_kind v \<noteq> Body_values \<or> attribute_index (fv_attribute v) \<ge> 13 then Inl (err Invalid_state)
      else case descriptor (fv_id v) of None \<Rightarrow> Inl (err Unsupported_layout)
        | Some d \<Rightarrow>
            if base_attribute (fv_attribute v) \<and> structured_field (fv_id v) then Inl (err Unsupported_capability)
            else read_attribute_scalar d (fv_attribute v) (fv_bytes v))"

definition field_diagnostic :: "field_view \<Rightarrow> u32 result" where
  "field_diagnostic v =
     (if fv_kind v \<noteq> Body_diagnostics \<or> length (fv_bytes v) \<noteq> 4 then Inl (err Invalid_state)
      else Inr (load32 (fv_bytes v) 0))"

text \<open>\<open>placeholder\<close>: the value of a field of all-zero wire bytes.\<close>

definition placeholder :: "field_id \<Rightarrow> semantic_value" where
  "placeholder i = (case descriptor i of None \<Rightarrow> SV_uint32 0
     | Some d \<Rightarrow> if structured_field i then SV_uint32 0
         else case read_scalar d (replicate (fd_words d * 4) 0) of Inr v \<Rightarrow> v | Inl _ \<Rightarrow> SV_uint32 0)"

end
