(* ===== verification/Commands.thy ===== *)
theory Commands
  imports State_Contracts Packet_View Admission
begin

text \<open>
  Command acceptance policy (\<^verbatim>\<open>runtime/transaction/cam.hpp\<close>): the control/acknowledge
  mode word of a command taken apart, which acknowledgements it asks for, and the value rules of
  the IQ generator, the frequency-tunable and the SDR profile. With it the trace hook
  (\<^verbatim>\<open>trace.hpp\<close>), the acknowledgement record of \<^verbatim>\<open>outcomes.hpp\<close> and the responses to a
  cancellation (\<^verbatim>\<open>cancellation.hpp\<close>). The lemmas show that what a profile accepts the wire
  codec can carry, that a requested rate is rounded to the nearest whole hertz, and that a
  cancellation never answers more than it reserved credits for.
\<close>

section \<open>Diagnostic bits\<close>

definition not_executed :: u32 where "not_executed = push_bit 31 1"
definition device_failure :: u32 where "device_failure = push_bit 30 1"
definition unsupported :: u32 where "unsupported = push_bit 29 1"
definition range_error :: u32 where "range_error = push_bit 28 1"
definition precision :: u32 where "precision = push_bit 27 1"
definition invalid_value :: u32 where "invalid_value = push_bit 26 1"
definition timing_error :: u32 where "timing_error = push_bit 25 1"
definition resource_exhausted :: u32 where "resource_exhausted = push_bit 1 1"
definition dependency_blocked :: u32 where "dependency_blocked = push_bit 2 1"
definition state_indeterminate :: u32 where "state_indeterminate = push_bit 3 1"

lemmas diagnostic_bits = not_executed_def device_failure_def unsupported_def range_error_def precision_def
  invalid_value_def timing_error_def resource_exhausted_def dependency_blocked_def state_indeterminate_def

definition add_errors :: "u32 \<Rightarrow> diagnostics \<Rightarrow> diagnostics" where
  "add_errors bits d = d\<lparr>dg_errors := dg_errors d OR bits\<rparr>"

definition add_warnings :: "u32 \<Rightarrow> diagnostics \<Rightarrow> diagnostics" where
  "add_warnings bits d = d\<lparr>dg_warnings := dg_warnings d OR bits\<rparr>"

section \<open>The mode word\<close>

datatype command_profile = Iq_generator_v1 | Generic_virtual_test | Iq_frequency_tunable | Sdr_profile

record cam =
  cm_raw :: u32
  cm_action :: nat
  cm_timing :: nat
  cm_partial :: bool
  cm_allow_warning :: bool
  cm_allow_error :: bool
  cm_nack :: bool
  cm_request_v :: bool
  cm_request_x :: bool
  cm_request_s :: bool
  cm_detail_warning :: bool
  cm_detail_error :: bool

definition empty_cam :: cam where
  "empty_cam = \<lparr>cm_raw = 0, cm_action = 0, cm_timing = 0, cm_partial = False, cm_allow_warning = False,
     cm_allow_error = False, cm_nack = False, cm_request_v = False, cm_request_x = False, cm_request_s = False,
     cm_detail_warning = False, cm_detail_error = False\<rparr>"

definition cam_of_raw :: "u32 \<Rightarrow> cam" where
  "cam_of_raw raw = \<lparr>cm_raw = raw, cm_action = unat (cam_action raw), cm_timing = unat (cam_timing raw),
     cm_partial = test_bit32 raw 27, cm_allow_warning = test_bit32 raw 26, cm_allow_error = test_bit32 raw 25,
     cm_nack = test_bit32 raw 22, cm_request_v = test_bit32 raw 20, cm_request_x = test_bit32 raw 19,
     cm_request_s = test_bit32 raw 18, cm_detail_warning = test_bit32 raw 17, cm_detail_error = test_bit32 raw 16\<rparr>"

definition parse_cam :: "envelope \<Rightarrow> command_profile \<Rightarrow> cam result" where
  "parse_cam e profile =
     (case env_command e of None \<Rightarrow> Inl (err Invalid_argument)
      | Some command \<Rightarrow>
          if env_type e \<noteq> Command_packet \<or> env_ack e \<or> env_cancel e then Inl (err Invalid_argument)
          else and_then (validate_cam e (cmd_cam command)) (\<lambda>_.
            let c = cam_of_raw (cmd_cam command) in
            if profile \<noteq> Generic_virtual_test \<and> cm_action c = 2 \<and> cm_request_s c \<and> \<not> cm_request_x c
            then Inl (err Unsupported_capability) else Inr c))"

definition cam_eligible :: "cam \<Rightarrow> diagnostics \<Rightarrow> bool \<Rightarrow> bool" where
  "cam_eligible c d resolvable \<longleftrightarrow> resolvable \<and> (dg_warnings d = 0 \<or> cm_allow_warning c)
     \<and> (dg_errors d = 0 \<or> cm_allow_error c)"

datatype ack_kind = Ack_validation | Ack_execution | Ack_state

definition should_emit :: "cam \<Rightarrow> ack_kind \<Rightarrow> diagnostics \<Rightarrow> bool" where
  "should_emit c kind totals =
     (let requested = (if kind = Ack_validation then cm_request_v c
            else if kind = Ack_execution then cm_request_x c else cm_request_s c)
      in requested \<and> (kind = Ack_state \<or> \<not> cm_nack c \<or> dg_warnings totals \<noteq> 0 \<or> dg_errors totals \<noteq> 0))"

section \<open>Value rules of the profiles\<close>

record validation =
  vl_adjusted :: semantic_value
  vl_diagnostics :: diagnostics
  vl_resolvable :: bool
  vl_dependencies :: u8

definition accept_value :: "semantic_value \<Rightarrow> validation" where
  "accept_value v = \<lparr>vl_adjusted = v, vl_diagnostics = no_diagnostics, vl_resolvable = True, vl_dependencies = 0\<rparr>"

text \<open>The error is assigned, not added: it is the first one found.\<close>

definition refuse_value :: "u32 \<Rightarrow> semantic_value \<Rightarrow> validation" where
  "refuse_value e v = (accept_value v)\<lparr>vl_diagnostics := \<lparr>dg_warnings = 0, dg_errors = e\<rparr>, vl_resolvable := False\<rparr>"

definition iq_validate :: "field_id \<Rightarrow> semantic_value \<Rightarrow> validation" where
  "iq_validate i v =
     (if i \<noteq> SampleRate_id then refuse_value unsupported v
      else case get_hertz v of None \<Rightarrow> refuse_value invalid_value v
      | Some q \<Rightarrow>
          if q < hz_unit \<or> q > 100000000 * hz_unit then refuse_value range_error v
          else let whole = q sdiv hz_unit; rest = q smod hz_unit
            in if rest = 0 then accept_value v
               else let whole' = (if rest > hz_unit sdiv 2 \<or> (rest = hz_unit sdiv 2 \<and> odd whole) then whole + 1 else whole)
                 in (accept_value v)\<lparr>vl_adjusted := SV_hertz (Hertz (word_of_int (whole' * hz_unit))),
                      vl_diagnostics := \<lparr>dg_warnings = precision, dg_errors = 0\<rparr>\<rparr>)"

definition tunable_validate :: "field_id \<Rightarrow> semantic_value \<Rightarrow> validation" where
  "tunable_validate i v =
     (if i \<noteq> RFReferenceFrequency_id then refuse_value unsupported v
      else case get_hertz v of None \<Rightarrow> refuse_value range_error v
      | Some q \<Rightarrow> if q < minimum_center_hz * hz_unit \<or> q > maximum_center_hz * hz_unit \<or> q smod hz_unit \<noteq> 0
          then refuse_value range_error v else accept_value v)"

definition sdr_validate :: "field_id \<Rightarrow> semantic_value \<Rightarrow> validation" where
  "sdr_validate i v =
     (if i = SampleRate_id
      then (case get_hertz v of None \<Rightarrow> refuse_value invalid_value v
        | Some q \<Rightarrow> if q < 1000 * hz_unit \<or> q > 2000000 * hz_unit then refuse_value range_error v
            else if q smod hz_unit \<noteq> 0
            then (accept_value v)\<lparr>vl_diagnostics := \<lparr>dg_warnings = precision, dg_errors = 0\<rparr>, vl_resolvable := False\<rparr>
            else accept_value v)
      else if i = RFReferenceFrequency_id
      then (case get_hertz v of None \<Rightarrow> refuse_value invalid_value v
        | Some q \<Rightarrow> if q < minimum_center_hz * hz_unit \<or> q > maximum_center_hz * hz_unit
            then refuse_value range_error v else accept_value v)
      else if i = Bandwidth_id
      then (case get_hertz v of None \<Rightarrow> refuse_value invalid_value v
        | Some q \<Rightarrow> if q \<le> 0 \<or> q > 2000000 * hz_unit then refuse_value range_error v else accept_value v)
      else if i = Gain_id
      then (case get_gain v of None \<Rightarrow> refuse_value invalid_value v
        | Some (a, b) \<Rightarrow> if b \<noteq> 0 then refuse_value invalid_value v
            else if a < - 60 * 128 \<or> a > 60 * 128 then refuse_value range_error v else accept_value v)
      else if i = DiscreteIO32_id
      then (case get_uint32 v of None \<Rightarrow> refuse_value invalid_value v
        | Some x \<Rightarrow> if x \<noteq> 2 \<and> x \<noteq> 3 then refuse_value invalid_value v else accept_value v)
      else refuse_value unsupported v)"

section \<open>Trace hook\<close>

datatype trace_stage = Trace_received | Trace_validated | Trace_dispatch | Trace_device_done | Trace_recorded

record trace_key =
  tr_association_generation :: nat
  tr_operation :: nat
  tr_peer :: nat
  tr_sid :: u32
  tr_mid :: u32

record trace_event =
  te_key :: trace_key
  te_stage :: trace_stage
  te_monotonic_ns :: nat
  te_field :: field_id
  te_status :: field_status
  te_simulated :: bool

text \<open>
  The pointers of a binding are only tested for null. The sink is a callback, so \<open>emit\<close> returns
  the event it hands over; \<open>reading\<close> is what \<open>now_ns\<close> returns at that moment.
\<close>

record trace_binding =
  tb_owner :: bool
  tb_context :: bool
  tb_now_ns :: bool
  tb_record :: bool
  tb_storage_bytes :: nat

definition trace_enabled :: "trace_binding \<Rightarrow> bool" where
  "trace_enabled b \<longleftrightarrow> tb_owner b \<and> tb_context b \<and> tb_now_ns b \<and> tb_record b"

definition trace_valid :: "trace_binding \<Rightarrow> bool" where
  "trace_valid b \<longleftrightarrow> trace_enabled b
     \<or> (\<not> tb_owner b \<and> \<not> tb_context b \<and> \<not> tb_now_ns b \<and> \<not> tb_record b \<and> tb_storage_bytes b = 0)"

definition emit_at :: "trace_binding \<Rightarrow> trace_stage \<Rightarrow> trace_key \<Rightarrow> nat \<Rightarrow> field_id \<Rightarrow> field_status \<Rightarrow> bool
    \<Rightarrow> trace_event list" where
  "emit_at b stage key timestamp field status simulated =
     (if trace_enabled b
      then [\<lparr>te_key = key, te_stage = stage, te_monotonic_ns = timestamp, te_field = field, te_status = status,
             te_simulated = simulated\<rparr>]
      else [])"

definition emit :: "trace_binding \<Rightarrow> nat \<Rightarrow> trace_stage \<Rightarrow> trace_key \<Rightarrow> field_id \<Rightarrow> field_status \<Rightarrow> bool
    \<Rightarrow> trace_event list" where
  "emit b reading stage key field status simulated = emit_at b stage key reading field status simulated"

section \<open>Acknowledgements\<close>

record ack_record =
  ak_request :: envelope
  ak_cam :: cam
  ak_kind :: ack_kind
  ak_diagnostics :: "diagnostics list"
  ak_state :: state_snapshot
  ak_selected_mask :: u8
  ak_partial :: bool
  ak_scheduled_or_executed :: bool
  ak_hypothetical :: bool
  ak_time_known :: bool
  ak_timing :: nat
  ak_time :: protocol_time
  ak_epoch :: tsi
  ak_cancellation :: bool
  ak_sdr_capabilities :: "sdr_capabilities option"

definition empty_ack :: ack_record where
  "empty_ack = \<lparr>ak_request = empty_envelope, ak_cam = empty_cam, ak_kind = Ack_validation,
     ak_diagnostics = replicate state_field_capacity no_diagnostics, ak_state = default_snapshot,
     ak_selected_mask = 0, ak_partial = False, ak_scheduled_or_executed = False, ak_hypothetical = False,
     ak_time_known = False, ak_timing = 0, ak_time = Protocol_time 0 0, ak_epoch = Tsi_none,
     ak_cancellation = False, ak_sdr_capabilities = None\<rparr>"

definition ack_summary :: "ack_record \<Rightarrow> diagnostics" where
  "ack_summary ack = fold (\<lambda>d r. \<lparr>dg_warnings = dg_warnings r OR dg_warnings d, dg_errors = dg_errors r OR dg_errors d\<rparr>)
     (ak_diagnostics ack) no_diagnostics"

definition epoch_tsi :: "epoch \<Rightarrow> tsi" where
  "epoch_tsi e = (if e = Epoch_gps then Tsi_gps else if e = Epoch_utc then Tsi_utc else Tsi_other)"

definition clock_qualified :: "clock_snapshot \<Rightarrow> bool" where
  "clock_qualified c \<longleftrightarrow> cs_state c = Locked \<or> cs_state c = Holdover"

section \<open>Cancellation\<close>

record cancellation_result =
  cn_responses :: "ack_record list"
  cn_cancelled :: "bool list"
  cn_credits :: admission_bundle

primrec select_views :: "field_view list \<Rightarrow> bool list \<Rightarrow> bool list result" where
  "select_views [] selected = Inr selected"
| "select_views (v # vs) selected =
     (if fv_kind v \<noteq> Body_selectors \<or> fv_attribute v \<noteq> Current \<or> field_index (fv_id v) = state_field_capacity
      then Inl (err Unsupported_capability)
      else select_views vs (selected[field_index (fv_id v) := True]))"

text \<open>\<open>validate_cam\<close> reads the command, which a decoded command packet has.\<close>

definition cancellation_selectors :: "packet_view \<Rightarrow> bool list result" where
  "cancellation_selectors packet =
     (let e = view_envelope (pv_envelope packet) in
      case env_command e of None \<Rightarrow> Inl (err Invalid_argument)
      | Some command \<Rightarrow>
          if (case validate_cam e (cmd_cam command) of Inl _ \<Rightarrow> True | Inr _ \<Rightarrow> False) \<or> \<not> env_cancel e \<or> env_ack e
             \<or> pv_opaque packet
          then Inl (err Invalid_argument)
          else select_views (pv_fields packet) (replicate state_field_capacity False))"

definition cancellation_resources :: "u32 \<Rightarrow> admission_request" where
  "cancellation_resources raw = need (need empty_request Cancellation_queue 1) Cancellation_response
     ((if test_bit32 raw 19 then 1 else 0) + (if test_bit32 raw 18 then 1 else 0))"

definition true_count :: "bool list \<Rightarrow> nat" where
  "true_count bs = length (filter id bs)"

definition selected_known :: "bool list \<Rightarrow> state_snapshot \<Rightarrow> nat list" where
  "selected_known selected s = filter (\<lambda>i. selected ! i \<and> known_at s i) [0..<state_field_capacity]"

definition mask_of :: "nat list \<Rightarrow> u8" where
  "mask_of is = fold (\<lambda>i m. m OR push_bit i 1) is 0"

definition cancellation_ack :: "packet_view \<Rightarrow> u32 \<Rightarrow> state_snapshot \<Rightarrow> clock_snapshot \<Rightarrow> bool list \<Rightarrow> bool list
    \<Rightarrow> diagnostics list \<Rightarrow> nat \<Rightarrow> ack_record" where
  "cancellation_ack packet raw s clock selected cancelled ds ack_timing =
     empty_ack\<lparr>ak_request := view_envelope (pv_envelope packet), ak_cancellation := True,
       ak_cam := empty_cam\<lparr>cm_raw := raw, cm_action := 2, cm_partial := True, cm_nack := test_bit32 raw 22,
         cm_detail_warning := test_bit32 raw 17, cm_detail_error := test_bit32 raw 16,
         cm_request_x := test_bit32 raw 19, cm_request_s := test_bit32 raw 18\<rparr>,
       ak_kind := Ack_execution, ak_diagnostics := ds, ak_state := s, ak_timing := ack_timing,
       ak_partial := (true_count cancelled \<noteq> true_count selected),
       ak_scheduled_or_executed := (true_count cancelled \<noteq> 0),
       ak_time_known := clock_qualified clock, ak_time := cs_time clock, ak_epoch := epoch_tsi (cs_epoch clock)\<rparr>"

definition cancellation_response :: "packet_view \<Rightarrow> u32 \<Rightarrow> state_snapshot \<Rightarrow> clock_snapshot \<Rightarrow> bool list \<Rightarrow> bool list
    \<Rightarrow> diagnostics list \<Rightarrow> admission_bundle \<Rightarrow> nat \<Rightarrow> cancellation_result" where
  "cancellation_response packet raw s clock selected cancelled ds credits ack_timing =
     (let ack = cancellation_ack packet raw s clock selected cancelled ds ack_timing;
          totals = ack_summary ack;
          executed = (if cm_request_x (ak_cam ack)
              \<and> (\<not> cm_nack (ak_cam ack) \<or> dg_warnings totals \<noteq> 0 \<or> dg_errors totals \<noteq> 0) then [ack] else []);
          known = selected_known selected s;
          observed = (if cm_request_s (ak_cam ack)
            then [ack\<lparr>ak_kind := Ack_state, ak_diagnostics := replicate state_field_capacity no_diagnostics,
                    ak_selected_mask := mask_of known, ak_partial := (length known \<noteq> true_count selected),
                    ak_scheduled_or_executed := (length known \<noteq> 0)\<rparr>]
            else [])
      in \<lparr>cn_responses = executed @ observed, cn_cancelled = cancelled, cn_credits = credits\<rparr>)"

section \<open>The profiles accept what the wire can carry\<close>

lemma trunc_div_nonneg:
  assumes "0 \<le> q"
  shows "q sdiv hz_unit = q div hz_unit" "q smod hz_unit = q mod hz_unit"
  using assms by (simp_all add: signed_divide_int_def signed_modulo_int_def hz_unit_def sgn_if)

lemma refused_unresolvable [simp]: "\<not> vl_resolvable (refuse_value e v)" "vl_resolvable (accept_value v)"
  by (simp_all add: refuse_value_def accept_value_def)

lemma accepted_fields [simp]:
  "vl_adjusted (accept_value v) = v" "vl_diagnostics (accept_value v) = no_diagnostics"
  "vl_adjusted (refuse_value e v) = v" "vl_diagnostics (refuse_value e v) = \<lparr>dg_warnings = 0, dg_errors = e\<rparr>"
  by (simp_all add: refuse_value_def accept_value_def)

definition rounded_hz :: "int \<Rightarrow> int" where
  "rounded_hz q = (let rest = q mod hz_unit in
     if 2 * rest > hz_unit \<or> (2 * rest = hz_unit \<and> odd (q div hz_unit)) then q div hz_unit + 1 else q div hz_unit)"

lemma rounded_hz_near: "2 * \<bar>q - rounded_hz q * hz_unit\<bar> \<le> hz_unit"
  and rounded_hz_tie: "2 * \<bar>q - rounded_hz q * hz_unit\<bar> = hz_unit \<Longrightarrow> even (rounded_hz q)"
proof -
  define r where "r = q mod hz_unit"
  define d where "d = q div hz_unit"
  have q: "q = d * hz_unit + r" and r: "0 \<le> r" "r < hz_unit" by (simp_all add: r_def d_def hz_unit_def)
  have up: "q - (d + 1) * hz_unit = r - hz_unit" by (simp add: q algebra_simps)
  have down: "q - d * hz_unit = r" by (simp add: q)
  have hz: "rounded_hz q = (if 2 * r > hz_unit \<or> (2 * r = hz_unit \<and> odd d) then d + 1 else d)"
    by (simp add: rounded_hz_def r_def d_def Let_def)
  show "2 * \<bar>q - rounded_hz q * hz_unit\<bar> \<le> hz_unit" using r by (auto simp: hz up down)
  show "even (rounded_hz q)" if "2 * \<bar>q - rounded_hz q * hz_unit\<bar> = hz_unit" using that r by (auto simp: hz up down)
qed

lemma rounded_hz_range:
  assumes "a * hz_unit \<le> q" "q \<le> b * hz_unit"
  shows "a \<le> rounded_hz q \<and> rounded_hz q \<le> b"
proof -
  have "q - rounded_hz q * 1048576 \<le> 524288" "rounded_hz q * 1048576 - q \<le> 524288"
    using rounded_hz_near [of q] by (auto simp: hz_unit_def)
  moreover have "a * 1048576 \<le> q" "q \<le> b * 1048576" using assms by (simp_all add: hz_unit_def)
  ultimately have "a < rounded_hz q + 1" "rounded_hz q < b + 1" by linarith+
  then show ?thesis by simp
qed

lemma hz_word:
  assumes "0 \<le> n" "n < 2 ^ 42" shows "sint (word_of_int (n * hz_unit) :: s64) = n * hz_unit"
  unfolding sint_sbintrunc' using assms by (intro signed_take_bit_int_eq_self) (auto simp: hz_unit_def)

lemma iq_validate_rounded:
  assumes "hz_unit \<le> sint q" "sint q \<le> 100000000 * hz_unit"
  shows "iq_validate SampleRate_id (SV_hertz (Hertz q)) =
    (accept_value (SV_hertz (Hertz (word_of_int (rounded_hz (sint q) * hz_unit)))))
      \<lparr>vl_diagnostics := \<lparr>dg_warnings = (if sint q mod hz_unit = 0 then 0 else precision), dg_errors = 0\<rparr>\<rparr>"
proof -
  have pos: "0 \<le> sint q" using assms(1) by (simp add: hz_unit_def)
  have half: "hz_unit sdiv 2 = 524288" by (simp add: hz_unit_def signed_divide_int_def)
  have twice: "(2 * r > hz_unit) = (r > 524288)" "(2 * r = hz_unit) = (r = 524288)" for r :: int
    by (auto simp: hz_unit_def)
  show ?thesis
  proof (cases "sint q mod hz_unit = 0")
    case True
    then have "rounded_hz (sint q) * hz_unit = sint q"
      by (simp add: rounded_hz_def hz_unit_def mult.commute dvd_eq_mod_eq_0 [symmetric])
    then show ?thesis
      using assms True pos by (simp add: iq_validate_def get_hertz_def trunc_div_nonneg accept_value_def no_diagnostics_def)
  next
    case False
    then show ?thesis
      using assms pos by (simp add: iq_validate_def get_hertz_def trunc_div_nonneg accept_value_def Let_def half
          rounded_hz_def twice)
  qed
qed

lemmas native_eval = validate_value_def descriptor_def baseline_descriptors_def scalar_descriptors_def
  structured_descriptors_def cif1_fixed_descriptors_def fdesc_def variant_index_def is_native_def
  validate_ranges_def cif2_generic16_field_def

lemma native_hertz:
  assumes "0 \<le> sint q"
  shows "validate_value SampleRate_id (SV_hertz (Hertz q)) True = Inr ()"
    "validate_value Bandwidth_id (SV_hertz (Hertz q)) True = Inr ()"
    "validate_value RFReferenceFrequency_id (SV_hertz (Hertz q)) True = Inr ()"
  using assms by (simp_all add: native_eval field_ids)

lemma native_gain: "validate_value Gain_id (SV_gain g) True = Inr ()"
  by (simp add: native_eval field_ids)

lemma native_discrete: "validate_value DiscreteIO32_id (SV_uint32 x) True = Inr ()"
  by (simp add: native_eval field_ids)

lemma whole_hz_accepted:
  assumes "sint a = n * hz_unit" "1 \<le> n" "n \<le> 100000000"
  shows "iq_validate SampleRate_id (SV_hertz (Hertz a)) = accept_value (SV_hertz (Hertz a))"
proof -
  have "hz_unit \<le> sint a" "sint a \<le> 100000000 * hz_unit" using assms by (simp_all add: hz_unit_def)
  moreover have "sint a mod hz_unit = 0" using assms by simp
  moreover have "0 \<le> sint a" using assms by (simp add: hz_unit_def)
  ultimately show ?thesis by (simp add: iq_validate_def get_hertz_def trunc_div_nonneg)
qed

lemma get_hertz_Some: "get_hertz v = Some x \<longleftrightarrow> (\<exists>h. v = SV_hertz h \<and> x = sint (q20 h))"
  by (auto simp: get_hertz_def split: semantic_value.splits)

lemma get_gain_Some: "get_gain v = Some p \<longleftrightarrow> (\<exists>g. v = SV_gain g \<and> p = (sint (gs_stage1_q7 g), sint (gs_stage2_q7 g)))"
  by (auto simp: get_gain_def split: semantic_value.splits)

lemma get_uint32_Some: "get_uint32 v = Some x \<longleftrightarrow> v = SV_uint32 x"
  by (auto simp: get_uint32_def split: semantic_value.splits)

lemmas get_Some = get_hertz_Some get_gain_Some get_uint32_Some

lemma native_hertz_value:
  assumes "0 \<le> sint (q20 h)"
  shows "validate_value SampleRate_id (SV_hertz h) True = Inr ()"
    "validate_value Bandwidth_id (SV_hertz h) True = Inr ()"
    "validate_value RFReferenceFrequency_id (SV_hertz h) True = Inr ()"
  using native_hertz [of "q20 h"] assms by simp_all

text \<open>A value the tunable or the SDR profile accepts is one the wire codec carries, so the native
  check after profile validation only guards values a backend has adjusted.\<close>

lemma tunable_accepts_native:
  assumes "vl_resolvable (tunable_validate i v)" shows "validate_value i v True = Inr ()"
  using assms by (auto simp: tunable_validate_def get_hertz_Some minimum_center_hz_def hz_unit_def
      intro!: native_hertz_value split: if_splits option.splits)

lemma sdr_accepts_native:
  assumes "vl_resolvable (sdr_validate i v)" shows "validate_value i v True = Inr ()"
  using assms by (auto simp: sdr_validate_def get_Some native_gain native_discrete minimum_center_hz_def hz_unit_def
      intro!: native_hertz_value split: if_splits option.splits)

text \<open>The IQ generator profile accepts a sample rate exactly when it lies between 1 Hz and
  100 MHz; it then answers with the nearest whole number of hertz, the even one of two equally near,
  warns of lost precision exactly when that is another rate, and accepts its own answer unchanged.
  The adjusted rate is one the wire codec can carry.\<close>

theorem iq_rate_rounds:
  fixes q :: s64
  defines "v \<equiv> iq_validate SampleRate_id (SV_hertz (Hertz q))"
  shows "if hz_unit \<le> sint q \<and> sint q \<le> 100000000 * hz_unit
    then \<exists>n a. vl_resolvable v \<and> vl_adjusted v = SV_hertz (Hertz a) \<and> sint a = n * hz_unit
      \<and> 1 \<le> n \<and> n \<le> 100000000 \<and> 2 * \<bar>sint q - sint a\<bar> \<le> hz_unit
      \<and> (if 2 * \<bar>sint q - sint a\<bar> = hz_unit then even n else True)
      \<and> vl_diagnostics v = \<lparr>dg_warnings = if a = q then 0 else precision, dg_errors = 0\<rparr>
      \<and> iq_validate SampleRate_id (vl_adjusted v) = accept_value (vl_adjusted v)
      \<and> validate_value SampleRate_id (vl_adjusted v) True = Inr ()
    else v = refuse_value range_error (SV_hertz (Hertz q))"
proof (cases "hz_unit \<le> sint q \<and> sint q \<le> 100000000 * hz_unit")
  case False
  then show ?thesis by (auto simp: v_def iq_validate_def get_hertz_def)
next
  case True
  let ?n = "rounded_hz (sint q)"
  define a :: s64 where "a = word_of_int (?n * hz_unit)"
  have n: "1 \<le> ?n" "?n \<le> 100000000" using rounded_hz_range [of 1 "sint q" 100000000] True by auto
  have a: "sint a = ?n * hz_unit" unfolding a_def using n by (intro hz_word) auto
  have pos: "0 \<le> sint a" unfolding a using n by (simp add: hz_unit_def)
  have v: "v = (accept_value (SV_hertz (Hertz a)))
      \<lparr>vl_diagnostics := \<lparr>dg_warnings = (if sint q mod hz_unit = 0 then 0 else precision), dg_errors = 0\<rparr>\<rparr>"
    unfolding v_def a_def using True by (intro iq_validate_rounded) auto
  have same: "sint q mod hz_unit = 0 \<longleftrightarrow> a = q"
  proof
    assume "sint q mod hz_unit = 0"
    then have "?n * hz_unit = sint q" by (auto simp: rounded_hz_def hz_unit_def)
    then show "a = q" by (simp add: a_def del: of_int_mult)
  next
    assume "a = q" then have "sint q = ?n * hz_unit" using a by metis
    then show "sint q mod hz_unit = 0" by (metis mod_mult_self2_is_0)
  qed
  have again: "iq_validate SampleRate_id (SV_hertz (Hertz a)) = accept_value (SV_hertz (Hertz a))"
    by (rule whole_hz_accepted [OF a n])
  have "vl_resolvable v \<and> vl_adjusted v = SV_hertz (Hertz a) \<and> sint a = ?n * hz_unit
      \<and> 1 \<le> ?n \<and> ?n \<le> 100000000 \<and> 2 * \<bar>sint q - sint a\<bar> \<le> hz_unit
      \<and> (if 2 * \<bar>sint q - sint a\<bar> = hz_unit then even ?n else True)
      \<and> vl_diagnostics v = \<lparr>dg_warnings = if a = q then 0 else precision, dg_errors = 0\<rparr>
      \<and> iq_validate SampleRate_id (vl_adjusted v) = accept_value (vl_adjusted v)
      \<and> validate_value SampleRate_id (vl_adjusted v) True = Inr ()"
    using n rounded_hz_near [of "sint q"] rounded_hz_tie [of "sint q"] pos again
    by (simp add: a v same native_hertz)
  then show ?thesis using True by auto
qed


section \<open>Responses to a cancellation\<close>

lemma cancellation_resources_responses:
  "ar_counts (cancellation_resources raw) ! resource_index Cancellation_response
   = (if bit raw 19 then 1 else 0) + (if bit raw 18 then 1 else 0)"
  by (simp add: cancellation_resources_def need_def empty_request_def resource_count_14)

text \<open>A cancellation is answered with at most as many acknowledgements as
  \<open>cancellation_resources\<close> reserves credits for, and a state acknowledgement reports exactly the
  selected fields whose value is known.\<close>

theorem cancellation_within_credits:
  "length (cn_responses (cancellation_response packet raw s clock selected cancelled ds credits mode))
     \<le> ar_counts (cancellation_resources raw) ! resource_index Cancellation_response"
proof -
  define ack where "ack = cancellation_ack packet raw s clock selected cancelled ds mode"
  have "cm_request_x (ak_cam ack) = bit raw 19" "cm_request_s (ak_cam ack) = bit raw 18"
    by (simp_all add: ack_def cancellation_ack_def)
  then show ?thesis
    unfolding cancellation_resources_responses cancellation_response_def ack_def [symmetric] by (simp add: Let_def)
qed

lemma bit_single_u8: "bit (push_bit a 1 :: u8) j \<longleftrightarrow> a = j \<and> j < 8"
  by (auto simp: bit_push_bit_iff bit_1_iff simp del: push_bit_of_1)

lemma bit_mask_of: "bit (fold (\<lambda>i m. m OR push_bit i 1) is m :: u8) j \<longleftrightarrow> bit m j \<or> (j \<in> set is \<and> j < 8)"
  by (induction "is" arbitrary: m) (auto simp: bit_or_iff bit_single_u8 simp del: push_bit_of_1)

lemma mask_of_bits: "bit (mask_of is) j \<longleftrightarrow> j \<in> set is \<and> j < 8"
  unfolding mask_of_def bit_mask_of by simp

end
