(* ===== verification/Observer.thy ===== *)
theory Observer
  imports Commands
begin

text \<open>
  The controller's view of one command (\<open>ControllerObserver\<close> of
  \<^verbatim>\<open>runtime/transaction/outcomes.hpp\<close>): local sends, timeouts and acknowledgements are
  recorded by phase in a fixed array. The specification is the list of everything observed: the
  slot of a phase holds the one observation all reports of the phase agree on, or that observation
  marked contradictory and confirming nothing. From it follows that the array never overflows, that
  a contradiction is never forgotten, and that execution counts as confirmed only when an
  acknowledgement on the wire says so.
\<close>

section \<open>Observations\<close>

datatype observation_kind = Ob_unconfirmed | Ob_local_send | Ob_local_failure | Ob_validation | Ob_execution
  | Ob_state | Ob_timeout | Ob_late_response | Ob_cancellation_execution | Ob_cancellation_state
  | Ob_cancellation_timeout

record observation =
  ob_kind :: observation_kind
  ob_hypothetical :: bool
  ob_partial :: bool
  ob_success :: bool
  ob_unknown_remote_outcome :: bool
  ob_response_kind :: observation_kind
  ob_confirms_execution :: bool
  ob_contradictory :: bool
  ob_cancellation :: bool
  ob_confirms_cancellation :: bool
  ob_cancellation_outcome_known :: bool
  ob_validation_outcome_known :: bool
  ob_validation_accepted :: bool

definition no_observation :: observation where
  "no_observation = \<lparr>ob_kind = Ob_unconfirmed, ob_hypothetical = False, ob_partial = False, ob_success = False,
     ob_unknown_remote_outcome = True, ob_response_kind = Ob_unconfirmed, ob_confirms_execution = False,
     ob_contradictory = False, ob_cancellation = False, ob_confirms_cancellation = False,
     ob_cancellation_outcome_known = False, ob_validation_outcome_known = False, ob_validation_accepted = False\<rparr>"

record observer =
  co_message_id :: u32
  co_timed_out :: bool
  co_cancellation_timed_out :: bool
  co_current :: observation
  co_history :: "observation list"
  co_count :: nat

definition new_observer :: "u32 \<Rightarrow> observer" where
  "new_observer mid = \<lparr>co_message_id = mid, co_timed_out = False, co_cancellation_timed_out = False,
     co_current = no_observation, co_history = replicate 16 no_observation, co_count = 0\<rparr>"

definition contradict :: "observation \<Rightarrow> observation" where
  "contradict h = h\<lparr>ob_contradictory := True, ob_success := False, ob_unknown_remote_outcome := True,
     ob_confirms_execution := False, ob_confirms_cancellation := False, ob_cancellation_outcome_known := False,
     ob_validation_outcome_known := False, ob_validation_accepted := False\<rparr>"

primrec find_phase :: "observation \<Rightarrow> observation list \<Rightarrow> nat \<Rightarrow> nat option" where
  "find_phase e [] i = None"
| "find_phase e (h # hs) i = (if ob_kind h = ob_kind e \<and> ob_response_kind h = ob_response_kind e then Some i
     else find_phase e hs (i + 1))"

definition record_event :: "observer \<Rightarrow> observation \<Rightarrow> observer" where
  "record_event c e =
     (case find_phase e (take (co_count c) (co_history c)) 0 of
        Some i \<Rightarrow> let h = co_history c ! i; h' = (if h \<noteq> e then contradict h else h)
          in c\<lparr>co_history := (co_history c)[i := h'], co_current := h'\<rparr>
      | None \<Rightarrow> c\<lparr>co_history := (co_history c)[co_count c := e], co_count := co_count c + 1, co_current := e\<rparr>)"

definition send_event :: "bool \<Rightarrow> observation" where
  "send_event succeeded = no_observation\<lparr>ob_kind := (if succeeded then Ob_local_send else Ob_local_failure)\<rparr>"

definition timeout_event :: observation where
  "timeout_event = no_observation\<lparr>ob_kind := Ob_timeout\<rparr>"

definition cancellation_timeout_event :: observation where
  "cancellation_timeout_event = no_observation\<lparr>ob_kind := Ob_cancellation_timeout, ob_cancellation := True\<rparr>"

definition local_send :: "observer \<Rightarrow> bool \<Rightarrow> observer" where
  "local_send c succeeded = record_event c (send_event succeeded)"

definition observe_timeout :: "observer \<Rightarrow> observer" where
  "observe_timeout c = (if co_timed_out c then c else record_event (c\<lparr>co_timed_out := True\<rparr>) timeout_event)"

definition observe_cancellation_timeout :: "observer \<Rightarrow> observer" where
  "observe_cancellation_timeout c = (if co_cancellation_timed_out c then c
     else record_event (c\<lparr>co_cancellation_timed_out := True\<rparr>) cancellation_timeout_event)"

section \<open>Acknowledgements\<close>

primrec scan_diagnostics :: "field_view list \<Rightarrow> bool \<Rightarrow> bool \<Rightarrow> (bool \<times> bool) result" where
  "scan_diagnostics [] indeterminate validation_error = Inr (indeterminate, validation_error)"
| "scan_diagnostics (v # vs) indeterminate validation_error =
     (if fv_kind v = Body_diagnostics
      then and_then (field_diagnostic v) (\<lambda>d.
        scan_diagnostics vs (indeterminate \<or> d AND state_indeterminate \<noteq> 0)
          (validation_error \<or> (fv_group v = Group_error \<and> d \<noteq> 0)))
      else scan_diagnostics vs indeterminate validation_error)"

definition response_phase :: "bool \<Rightarrow> u32 \<Rightarrow> observation_kind" where
  "response_phase cancel raw =
     (if cancel then (if test_bit32 raw 19 then Ob_cancellation_execution else Ob_cancellation_state)
      else if test_bit32 raw 20 then Ob_validation
      else if test_bit32 raw 19 then Ob_execution else Ob_state)"

text \<open>The observation \<open>receive\<close> records; \<open>late\<close> is read from the observer.\<close>

definition acknowledged :: "bool \<Rightarrow> u32 \<Rightarrow> bool \<Rightarrow> bool \<Rightarrow> bool \<Rightarrow> observation" where
  "acknowledged cancel raw late indeterminate validation_error =
     (let kind = response_phase cancel raw; action = cam_action raw; partial = test_bit32 raw 11;
          executed_flag = test_bit32 raw 10;
          confirmed = (kind = Ob_execution \<and> action = 2 \<and> \<not> partial \<and> executed_flag
            \<and> \<not> indeterminate \<and> cam_timing raw \<noteq> 7);
          cancel_known = (kind = Ob_cancellation_execution \<and> \<not> indeterminate)
      in \<lparr>ob_kind = (if late then Ob_late_response else kind), ob_hypothetical = (action = 1),
           ob_partial = partial, ob_success = (confirmed \<and> \<not> late), ob_unknown_remote_outcome = (\<not> confirmed),
           ob_response_kind = kind, ob_confirms_execution = confirmed, ob_contradictory = False,
           ob_cancellation = cancel, ob_confirms_cancellation = (cancel_known \<and> executed_flag),
           ob_cancellation_outcome_known = cancel_known,
           ob_validation_outcome_known = (kind = Ob_validation),
           ob_validation_accepted = (kind = Ob_validation \<and> executed_flag \<and> \<not> partial
             \<and> \<not> validation_error \<and> \<not> indeterminate \<and> cam_timing raw \<noteq> 7)\<rparr>)"

definition response_event :: "observer \<Rightarrow> packet_view \<Rightarrow> observation result" where
  "response_event c response =
     (let e = view_envelope (pv_envelope response) in
      case env_command e of None \<Rightarrow> Inl (err Invalid_argument)
      | Some command \<Rightarrow>
          let raw = cmd_cam command in
          if \<not> env_ack e \<or> cmd_message_id command \<noteq> co_message_id c \<or> pv_requires_request_context response
             \<or> pv_opaque response then Inl (err Invalid_argument)
          else and_then (validate_cam e raw) (\<lambda>_.
            if env_cancel e \<and> (test_bit32 raw 20 \<or> cam_action raw \<noteq> 2) then Inl (err Invalid_argument)
            else and_then (scan_diagnostics (pv_fields response) False (test_bit32 raw 16)) (\<lambda>(indeterminate, validation_error).
              Inr (acknowledged (env_cancel e) raw
                (if env_cancel e then co_cancellation_timed_out c else co_timed_out c) indeterminate validation_error))))"

definition receive :: "observer \<Rightarrow> packet_view \<Rightarrow> observer \<times> unit result" where
  "receive c response = (case response_event c response of
     Inl e \<Rightarrow> (c, Inl e) | Inr ev \<Rightarrow> (record_event c ev, Inr ()))"

definition observations :: "observer \<Rightarrow> observation list" where
  "observations c = take (co_count c) (co_history c)"

definition timeout_observation :: "observer \<Rightarrow> observation option" where
  "timeout_observation c = find (\<lambda>h. ob_kind h = Ob_timeout) (observations c)"

section \<open>What was observed\<close>

datatype observer_op = Op_send bool | Op_timeout | Op_cancellation_timeout | Op_receive packet_view

primrec observer_step :: "observer \<Rightarrow> observer_op \<Rightarrow> observer" where
  "observer_step c (Op_send b) = local_send c b"
| "observer_step c Op_timeout = observe_timeout c"
| "observer_step c Op_cancellation_timeout = observe_cancellation_timeout c"
| "observer_step c (Op_receive p) = fst (receive c p)"

definition run_observer :: "u32 \<Rightarrow> observer_op list \<Rightarrow> observer" where
  "run_observer mid ops = fold (\<lambda>op c. observer_step c op) ops (new_observer mid)"

text \<open>The observation an operation reports, if any.\<close>

primrec event_of :: "observer \<Rightarrow> observer_op \<Rightarrow> observation list" where
  "event_of c (Op_send b) = [send_event b]"
| "event_of c Op_timeout = (if co_timed_out c then [] else [timeout_event])"
| "event_of c Op_cancellation_timeout = (if co_cancellation_timed_out c then [] else [cancellation_timeout_event])"
| "event_of c (Op_receive p) = (case response_event c p of Inl _ \<Rightarrow> [] | Inr e \<Rightarrow> [e])"

primrec reported :: "observer \<Rightarrow> observer_op list \<Rightarrow> observation list" where
  "reported c [] = []"
| "reported c (op # ops) = event_of c op @ reported (observer_step c op) ops"

definition phase :: "observation \<Rightarrow> observation_kind \<times> observation_kind" where
  "phase e = (ob_kind e, ob_response_kind e)"

definition phases :: "(observation_kind \<times> observation_kind) set" where
  "phases = {(Ob_local_send, Ob_unconfirmed), (Ob_local_failure, Ob_unconfirmed), (Ob_timeout, Ob_unconfirmed),
     (Ob_cancellation_timeout, Ob_unconfirmed)}
     \<union> (\<lambda>k. (k, k)) ` {Ob_validation, Ob_execution, Ob_state, Ob_cancellation_execution, Ob_cancellation_state}
     \<union> (\<lambda>k. (Ob_late_response, k)) ` {Ob_validation, Ob_execution, Ob_state, Ob_cancellation_execution, Ob_cancellation_state}"

text \<open>What the reports of one phase amount to.\<close>

primrec merged :: "observation list \<Rightarrow> observation option" where
  "merged [] = None"
| "merged (e # es) = Some (if list_all (\<lambda>x. x = e) es then e else contradict e)"

definition reports_of :: "observation_kind \<times> observation_kind \<Rightarrow> observation list \<Rightarrow> observation list" where
  "reports_of k es = filter (\<lambda>e. phase e = k) es"

definition lookup_phase :: "observation_kind \<times> observation_kind \<Rightarrow> observer \<Rightarrow> observation option" where
  "lookup_phase k c = find (\<lambda>h. phase h = k) (observations c)"

definition observer_inv :: "observation list \<Rightarrow> observer \<Rightarrow> bool" where
  "observer_inv es c \<longleftrightarrow> length (co_history c) = 16 \<and> co_count c \<le> 14 \<and> distinct (map phase (observations c))
     \<and> phase ` set (observations c) \<subseteq> phases \<and> (\<forall>k. lookup_phase k c = merged (reports_of k es))"

section \<open>Recording is merging\<close>

primrec merge_into :: "observation \<Rightarrow> observation list \<Rightarrow> observation list" where
  "merge_into e [] = [e]"
| "merge_into e (h # hs) = (if phase h = phase e then (if h \<noteq> e then contradict h else h) # hs else h # merge_into e hs)"

lemma contradict_simps [simp]:
  "phase (contradict h) = phase h" "contradict (contradict h) = contradict h" "ob_contradictory (contradict h)"
  "\<not> ob_success (contradict h)" "\<not> ob_confirms_execution (contradict h)"
  by (simp_all add: contradict_def phase_def)

lemma find_phase_merge:
  "case find_phase e hs n of None \<Rightarrow> merge_into e hs = hs @ [e]
   | Some i \<Rightarrow> n \<le> i \<and> i - n < length hs
       \<and> merge_into e hs = hs[i - n := if hs ! (i - n) \<noteq> e then contradict (hs ! (i - n)) else hs ! (i - n)]"
proof (induction hs arbitrary: n)
  case (Cons h hs)
  show ?case
  proof (cases "phase h = phase e")
    case False
    then have step: "find_phase e (h # hs) n = find_phase e hs (n + 1)" by (auto simp: phase_def)
    show ?thesis
    proof (cases "find_phase e hs (n + 1)")
      case (Some i)
      then obtain k where "i = n + 1 + k" using Cons.IH [of "n + 1"] by (auto dest: le_Suc_ex)
      then show ?thesis using Cons.IH [of "n + 1"] False Some step by simp
    qed (use Cons.IH [of "n + 1"] False step in simp)
  qed (auto simp: phase_def)
qed simp

lemma record_event_observations:
  assumes "length (co_history c) = 16" "co_count c < 16"
  shows "observations (record_event c e) = merge_into e (observations c)"
    "length (co_history (record_event c e)) = 16" "co_count (record_event c e) \<le> 16"
proof -
  have len: "length (take (co_count c) (co_history c)) = co_count c" using assms by simp
  note m = find_phase_merge [of e "take (co_count c) (co_history c)" 0]
  show "observations (record_event c e) = merge_into e (observations c)"
  proof (cases "find_phase e (take (co_count c) (co_history c)) 0")
    case None
    have "take (Suc (co_count c)) ((co_history c)[co_count c := e]) = take (co_count c) (co_history c) @ [e]"
      using assms by (simp add: take_Suc_conv_app_nth)
    then show ?thesis using m None by (simp add: record_event_def observations_def)
  next
    case (Some i)
    then show ?thesis using m len by (simp add: record_event_def observations_def take_update_swap Let_def)
  qed
  show "length (co_history (record_event c e)) = 16" "co_count (record_event c e) \<le> 16"
    using assms by (simp_all add: record_event_def Let_def split: option.splits)
qed

lemma phases_merge_into:
  "phase ` set (merge_into e hs) = insert (phase e) (phase ` set hs)"
  by (induction hs) auto

lemma distinct_merge_into:
  "distinct (map phase hs) \<Longrightarrow> distinct (map phase (merge_into e hs))"
proof (induction hs)
  case (Cons h hs)
  then show ?case using phases_merge_into [of e hs] by auto
qed simp

lemma find_merge_into:
  "find (\<lambda>h. phase h = k) (merge_into e hs) =
     (if phase e = k then Some (case find (\<lambda>h. phase h = k) hs of None \<Rightarrow> e | Some h \<Rightarrow> if h \<noteq> e then contradict h else h)
      else find (\<lambda>h. phase h = k) hs)"
  by (induction hs) auto

lemma merged_snoc:
  assumes "\<not> ob_contradictory e"
  shows "merged (es @ [e]) = Some (case merged es of None \<Rightarrow> e | Some m \<Rightarrow> if m \<noteq> e then contradict m else m)"
proof (cases es)
  case (Cons x xs)
  have "contradict x \<noteq> e" using assms by (metis contradict_simps(3))
  then show ?thesis by (auto simp: Cons)
qed simp

lemma card_phases: "card phases = 14"
  by (simp add: phases_def)

lemma finite_phases: "finite phases"
  by (simp add: phases_def)

lemma phase_count:
  assumes "distinct (map phase hs)" "phase ` set hs \<subseteq> phases"
  shows "length hs \<le> 14"
  using card_mono [OF finite_phases assms(2)] distinct_card [OF assms(1)] by (simp add: card_phases)

lemma record_event_inv:
  assumes inv: "observer_inv es c" and e: "phase e \<in> phases" "\<not> ob_contradictory e"
  shows "observer_inv (es @ [e]) (record_event c e)"
proof -
  have len: "length (co_history c) = 16" "co_count c < 16" and dist: "distinct (map phase (observations c))"
    and sub: "phase ` set (observations c) \<subseteq> phases" and look: "\<And>k. lookup_phase k c = merged (reports_of k es)"
    using inv by (auto simp: observer_inv_def)
  note obs = record_event_observations [OF len, of e]
  have dist': "distinct (map phase (observations (record_event c e)))"
    unfolding obs(1) by (rule distinct_merge_into [OF dist])
  have sub': "phase ` set (observations (record_event c e)) \<subseteq> phases"
    unfolding obs(1) phases_merge_into using sub e(1) by simp
  have "co_count (record_event c e) \<le> 14"
    using phase_count [OF dist' sub'] obs(2,3) by (simp add: observations_def)
  moreover have "lookup_phase k (record_event c e) = merged (reports_of k (es @ [e]))" for k
    using look [of k] e(2) by (simp add: lookup_phase_def obs(1) find_merge_into reports_of_def merged_snoc)
  ultimately show ?thesis using obs(2) dist' sub' by (simp add: observer_inv_def)
qed

lemma observer_inv_cong:
  assumes "observer_inv es c" "co_history c' = co_history c" "co_count c' = co_count c"
  shows "observer_inv es c'"
  using assms by (simp add: observer_inv_def observations_def lookup_phase_def)

lemma response_event_Inr:
  assumes "response_event c p = Inr e"
  obtains command indeterminate validation_error
  where "env_command (view_envelope (pv_envelope p)) = Some command" "env_ack (view_envelope (pv_envelope p))"
    "cmd_message_id command = co_message_id c"
    "scan_diagnostics (pv_fields p) False (test_bit32 (cmd_cam command) 16) = Inr (indeterminate, validation_error)"
    "e = acknowledged (env_cancel (view_envelope (pv_envelope p))) (cmd_cam command)
       (if env_cancel (view_envelope (pv_envelope p)) then co_cancellation_timed_out c else co_timed_out c)
       indeterminate validation_error"
  using assms unfolding response_event_def Let_def
  by (auto simp: and_then_eq_Inr simp del: test_bit32_iff split: option.splits if_split_asm)

lemma acknowledged_phase: "phase (acknowledged cancel raw late indeterminate verr) \<in> phases"
  by (simp add: acknowledged_def phase_def phases_def response_phase_def Let_def)

lemma response_event_phase:
  assumes "response_event c p = Inr e" shows "phase e \<in> phases \<and> \<not> ob_contradictory e"
  using assms by (elim response_event_Inr) (simp add: acknowledged_phase, simp add: acknowledged_def Let_def)

lemma step_inv:
  assumes "observer_inv es c" shows "observer_inv (es @ event_of c op) (observer_step c op)"
proof -
  have fixed: "phase (send_event b) \<in> phases" "phase timeout_event \<in> phases" "phase cancellation_timeout_event \<in> phases"
    "\<not> ob_contradictory (send_event b)" "\<not> ob_contradictory timeout_event" "\<not> ob_contradictory cancellation_timeout_event" for b
    by (auto simp: send_event_def timeout_event_def cancellation_timeout_event_def no_observation_def phase_def phases_def)
  show ?thesis
  proof (cases op)
    case (Op_send b)
    then show ?thesis using record_event_inv [OF assms fixed(1,4)] by (simp add: local_send_def)
  next
    case Op_timeout
    then show ?thesis
      using assms record_event_inv [OF observer_inv_cong [OF assms, of "c\<lparr>co_timed_out := True\<rparr>"] fixed(2,5)]
      by (auto simp: observe_timeout_def)
  next
    case Op_cancellation_timeout
    then show ?thesis
      using assms record_event_inv [OF observer_inv_cong [OF assms, of "c\<lparr>co_cancellation_timed_out := True\<rparr>"] fixed(3,6)]
      by (auto simp: observe_cancellation_timeout_def)
  next
    case (Op_receive p)
    then show ?thesis using assms record_event_inv [OF assms] response_event_phase
      by (auto simp: receive_def split: sum.splits)
  qed
qed

lemma run_inv:
  "observer_inv es c \<Longrightarrow> observer_inv (es @ reported c ops) (fold (\<lambda>op c. observer_step c op) ops c)"
proof (induction ops arbitrary: es c)
  case (Cons op ops)
  then show ?case using Cons.IH [OF step_inv [OF Cons.prems]] by simp
qed simp

lemma new_observer_inv: "observer_inv [] (new_observer mid)"
  by (simp add: observer_inv_def new_observer_def observations_def lookup_phase_def reports_of_def)

lemma run_observer_bounds:
  "length (co_history (run_observer mid ops)) = 16" "co_count (run_observer mid ops) < 16"
  using run_inv [OF new_observer_inv, of mid ops] by (simp_all add: run_observer_def observer_inv_def)

text \<open>After any sequence of sends, timeouts and received packets the observer holds at most 14
  observations, one per phase, in an array of 16; the observation of a phase is the one all its
  reports agree on, and once two reports of a phase differ it is marked contradictory and confirms
  neither execution nor success, whatever is reported later.\<close>

theorem observer_merges_reports:
  "length (observations (run_observer mid ops)) \<le> 14
   \<and> co_count (run_observer mid ops) \<le> 14 \<and> length (co_history (run_observer mid ops)) = 16
   \<and> distinct (map phase (observations (run_observer mid ops)))
   \<and> lookup_phase k (run_observer mid ops) = merged (reports_of k (reported (new_observer mid) ops))"
  using run_inv [OF new_observer_inv, of mid ops] by (simp add: run_observer_def observer_inv_def observations_def del: split_paired_All)

section \<open>Execution is confirmed only by the device\<close>

definition execution_ack :: "u32 \<Rightarrow> packet_view \<Rightarrow> bool" where
  "execution_ack mid p \<longleftrightarrow> (let e = view_envelope (pv_envelope p) in
     env_ack e \<and> \<not> env_cancel e \<and> (case env_command e of None \<Rightarrow> False
       | Some command \<Rightarrow> cmd_message_id command = mid \<and> cam_action (cmd_cam command) = 2
           \<and> test_bit32 (cmd_cam command) 19 \<and> test_bit32 (cmd_cam command) 10 \<and> \<not> test_bit32 (cmd_cam command) 11
           \<and> cam_timing (cmd_cam command) \<noteq> 7)
     \<and> list_all (\<lambda>v. fv_kind v \<noteq> Body_diagnostics
         \<or> (case field_diagnostic v of Inl _ \<Rightarrow> False | Inr d \<Rightarrow> d AND state_indeterminate = 0)) (pv_fields p))"

lemma scan_diagnostics_Inr:
  assumes "scan_diagnostics vs i e = Inr (False, e')"
  shows "\<not> i \<and> list_all (\<lambda>v. fv_kind v \<noteq> Body_diagnostics
    \<or> (case field_diagnostic v of Inl _ \<Rightarrow> False | Inr d \<Rightarrow> d AND state_indeterminate = 0)) vs"
  using assms by (induction vs arbitrary: i e) (fastforce simp: and_then_eq_Inr split: if_split_asm)+

lemma acknowledged_confirms:
  "ob_confirms_execution (acknowledged cancel raw late indeterminate verr) \<longleftrightarrow>
     response_phase cancel raw = Ob_execution \<and> cam_action raw = 2 \<and> \<not> bit raw 11 \<and> bit raw 10 \<and> \<not> indeterminate
     \<and> cam_timing raw \<noteq> 7"
  "ob_success (acknowledged cancel raw late indeterminate verr) \<longleftrightarrow>
     ob_confirms_execution (acknowledged cancel raw late indeterminate verr) \<and> \<not> late"
  by (simp_all add: acknowledged_def Let_def)

lemma response_execution: "response_phase cancel raw = Ob_execution \<Longrightarrow> \<not> cancel \<and> bit raw 19"
  by (simp add: response_phase_def split: if_split_asm)

lemma response_event_confirms:
  assumes "response_event c p = Inr e" "ob_confirms_execution e"
  shows "execution_ack (co_message_id c) p \<and> (ob_success e \<longleftrightarrow> \<not> co_timed_out c)"
  using assms(1)
proof (rule response_event_Inr)
  fix command :: command and ind verr
  let ?e = "view_envelope (pv_envelope p)" and ?raw = "cmd_cam command"
  assume cmd: "env_command ?e = Some command" "env_ack ?e" "cmd_message_id command = co_message_id c"
    and scan: "scan_diagnostics (pv_fields p) False (test_bit32 ?raw 16) = Inr (ind, verr)"
    and e: "e = acknowledged (env_cancel ?e) ?raw
      (if env_cancel ?e then co_cancellation_timed_out c else co_timed_out c) ind verr"
  have ph: "response_phase (env_cancel ?e) ?raw = Ob_execution" and ok: "cam_action ?raw = 2" "\<not> bit ?raw 11"
    "bit ?raw 10" "\<not> ind" "cam_timing ?raw \<noteq> 7"
    using assms(2) by (simp_all add: e acknowledged_confirms)
  note bits = response_execution [OF ph]
  have "execution_ack (co_message_id c) p"
    using cmd ok bits scan_diagnostics_Inr [of _ False "test_bit32 ?raw 16" verr] scan by (simp add: execution_ack_def)
  moreover have "ob_success e \<longleftrightarrow> \<not> co_timed_out c"
    using assms(2) bits unfolding e by (simp add: acknowledged_confirms(2))
  ultimately show ?thesis ..
qed

lemma observer_step_sel:
  "co_message_id (observer_step c op) = co_message_id c"
  "co_timed_out (observer_step c op) \<longleftrightarrow> co_timed_out c \<or> op = Op_timeout"
  by (cases op; auto simp: local_send_def observe_timeout_def observe_cancellation_timeout_def receive_def
      record_event_def Let_def split: sum.splits option.splits)+

lemma run_sel:
  "co_message_id (fold (\<lambda>op c. observer_step c op) ops c) = co_message_id c"
  "co_timed_out (fold (\<lambda>op c. observer_step c op) ops c) \<longleftrightarrow> co_timed_out c \<or> Op_timeout \<in> set ops"
  by (induction ops arbitrary: c) (auto simp: observer_step_sel)

lemma reported_confirmation:
  assumes "e \<in> set (reported c ops)" "ob_confirms_execution e"
  shows "\<exists>ops1 p ops2. ops = ops1 @ Op_receive p # ops2
    \<and> response_event (fold (\<lambda>op c. observer_step c op) ops1 c) p = Inr e"
  using assms(1)
proof (induction ops arbitrary: c)
  case (Cons op ops)
  show ?case
  proof (cases "e \<in> set (event_of c op)")
    case True
    then obtain p where "op = Op_receive p" "response_event c p = Inr e" using assms(2)
      by (cases op) (auto simp: send_event_def timeout_event_def cancellation_timeout_event_def no_observation_def
          split: sum.splits if_split_asm)
    then show ?thesis by (intro exI [of _ "[]"] exI [of _ p] exI [of _ ops]) simp
  next
    case False
    then obtain ops1 p ops2 where "ops = ops1 @ Op_receive p # ops2"
      "response_event (fold (\<lambda>op c. observer_step c op) ops1 (observer_step c op)) p = Inr e"
      using Cons.IH [of "observer_step c op"] Cons.prems by auto
    then show ?thesis by (intro exI [of _ "op # ops1"] exI [of _ p] exI [of _ ops2]) simp
  qed
qed simp

lemma merged_confirmed: "merged es = Some h \<Longrightarrow> ob_confirms_execution h \<Longrightarrow> h \<in> set es"
  by (cases es) (auto split: if_split_asm)

lemma lookup_own_phase:
  assumes "distinct (map phase hs)" "h \<in> set hs" shows "find (\<lambda>x. phase x = phase h) hs = Some h"
  using assms by (induction hs) (auto simp: image_iff)

text \<open>An observation confirms execution only when the controller received an acknowledgement of
  execution for its message: not a cancellation, action executed, scheduled-or-executed set, not
  partial, no timing failure and no field of indeterminate state; and it is a success exactly when that
  acknowledgement arrived before the timeout. Sends, timeouts, late and contradictory reports never
  turn into confirmed execution.\<close>

theorem confirmed_execution_was_acknowledged:
  assumes h: "h \<in> set (observations (run_observer mid ops))" "ob_confirms_execution h"
  shows "\<exists>ops1 p ops2. ops = ops1 @ Op_receive p # ops2 \<and> execution_ack mid p
    \<and> (ob_success h \<longleftrightarrow> Op_timeout \<notin> set ops1)"
proof -
  have inv: "observer_inv (reported (new_observer mid) ops) (run_observer mid ops)"
    using run_inv [OF new_observer_inv, of mid ops] by (simp add: run_observer_def)
  then have "lookup_phase (phase h) (run_observer mid ops) = Some h"
    using h(1) by (simp add: observer_inv_def lookup_phase_def lookup_own_phase)
  then have "merged (reports_of (phase h) (reported (new_observer mid) ops)) = Some h"
    using inv unfolding observer_inv_def by metis
  then have "h \<in> set (reported (new_observer mid) ops)"
    using h(2) merged_confirmed by (fastforce simp: reports_of_def)
  then obtain ops1 p ops2 where split: "ops = ops1 @ Op_receive p # ops2"
    and ev: "response_event (fold (\<lambda>op c. observer_step c op) ops1 (new_observer mid)) p = Inr h"
    using reported_confirmation h(2) by blast
  show ?thesis
    using response_event_confirms [OF ev h(2)] split by (auto simp: run_sel new_observer_def)
qed

definition sample_ack :: packet_view where
  "sample_ack = \<lparr>pv_envelope = \<lparr>view_envelope = empty_envelope\<lparr>env_type := Command_packet, env_ack := True,
       env_command := Some \<lparr>cmd_cam = 0x01080400, cmd_message_id = 7, cmd_controllee = absent_id,
         cmd_controller = absent_id\<rparr>\<rparr>,
     view_payload = [], view_trailer = None, view_payload_offset = 0, view_wire = []\<rparr>, pv_fields = [],
   pv_body_kind = Body_diagnostics, pv_opaque = False, pv_change = False, pv_requires_request_context = False\<rparr>"

lemma sample_ack_event:
  "response_event (run_observer 7 [Op_send True]) sample_ack = Inr (acknowledged False 0x01080400 False False False)"
  by (simp add: run_observer_def local_send_def record_event_def new_observer_def response_event_def sample_ack_def
      empty_envelope_def validate_cam_def cam_action_def cam_timing_def popcount32_def upt_conv_Cons)

theorem confirmed_execution_was_acknowledged_witness:
  "\<exists>ops1 p ops2. [Op_send True, Op_receive sample_ack] = ops1 @ Op_receive p # ops2 \<and> execution_ack 7 p
    \<and> Op_timeout \<notin> set ops1"
proof -
  let ?e = "acknowledged False 0x01080400 False False False" and ?c = "run_observer 7 [Op_send True]"
  have c: "observations ?c = [send_event True]"
    using record_event_observations(1) [of "new_observer 7" "send_event True"]
    by (simp add: run_observer_def local_send_def) (simp add: new_observer_def observations_def)
  have "run_observer 7 [Op_send True, Op_receive sample_ack] = record_event ?c ?e"
    using sample_ack_event by (simp add: run_observer_def receive_def)
  then have "observations (run_observer 7 [Op_send True, Op_receive sample_ack]) = merge_into ?e [send_event True]"
    using record_event_observations(1) [of ?c ?e] run_observer_bounds [of 7 "[Op_send True]"] c by simp
  moreover have "phase (send_event True) \<noteq> phase ?e"
    by (simp add: phase_def send_event_def no_observation_def acknowledged_def response_phase_def Let_def)
  moreover have "ob_confirms_execution ?e" "ob_success ?e"
    by (simp_all add: acknowledged_confirms response_phase_def cam_action_def cam_timing_def)
  ultimately show ?thesis using confirmed_execution_was_acknowledged [of ?e 7 "[Op_send True, Op_receive sample_ack]"] by simp
qed

end
