(* ===== verification/Responses.thy ===== *)
theory Responses
  imports Observer Wire_Roundtrip
begin

text \<open>
  The envelope of an acknowledgement (\<open>encode_response\<close> of
  \<^verbatim>\<open>runtime/transaction/outcomes.hpp\<close>): the mode word echoed with the kind, flags and timing of
  the response, and the effective time. The body is written by the packet codec. The last lemma closes
  the loop between the two ends of the protocol: the controller's observer accepts every envelope made
  for its message and concludes from it what the engine put into the acknowledgement.
\<close>

definition ack_kind_bit :: "ack_kind \<Rightarrow> nat" where
  "ack_kind_bit k = (if k = Ack_validation then 20 else if k = Ack_execution then 19 else 18)"

definition wire_timing :: "ack_record \<Rightarrow> nat" where
  "wire_timing ack = (if ts_tsi (env_timestamp (ak_request ack)) = Tsi_none
     \<and> ts_tsf (env_timestamp (ak_request ack)) = Tsf_none then 0 else ak_timing ack)"

definition response_cam :: "ack_record \<Rightarrow> u32" where
  "response_cam ack =
     (let totals = ack_summary ack in
      (cm_raw (ak_cam ack) AND 0xffe00000) OR push_bit (ack_kind_bit (ak_kind ack)) 1
      OR (if ak_partial ack then push_bit 11 1 else 0) OR (if ak_scheduled_or_executed ack then push_bit 10 1 else 0)
      OR push_bit 12 (of_nat (wire_timing ack))
      OR (if ak_kind ack \<noteq> Ack_state
          then (if dg_warnings totals \<noteq> 0 then push_bit 17 1 else 0) OR (if dg_errors totals \<noteq> 0 then push_bit 16 1 else 0)
          else 0))"

definition response_envelope :: "ack_record \<Rightarrow> nat \<Rightarrow> envelope result" where
  "response_envelope ack outgoing_packet_count =
     (if outgoing_packet_count > 15 then Inl (err Invalid_argument)
      else case env_command (ak_request ack) of None \<Rightarrow> Inl (err Invalid_argument)
      | Some command \<Rightarrow>
          if ak_cancellation ack \<and> ak_kind ack = Ack_validation then Inl (err Invalid_argument)
          else let e = (ak_request ack)\<lparr>env_ack := True, env_cancel := ak_cancellation ack,
                    env_packet_count := of_nat outgoing_packet_count,
                    env_command := Some (command\<lparr>cmd_cam := response_cam ack\<rparr>)\<rparr>
            in if ak_timing ack > 7 \<or> ak_timing ack = 5 \<or> ak_timing ack = 6 \<or> tsi_code (ak_epoch ack) > 3
               then Inl (err Invalid_argument)
               else if ak_time_known ack
               then (if \<not> valid_time (ak_time ack) then Inl (err Invalid_argument)
                     else if pt_seconds (ak_time ack) > 4294967295 then Inl (err Overflow)
                     else if ak_epoch ack = Tsi_none then Inl (err Invalid_state)
                     else Inr (e\<lparr>env_timestamp := \<lparr>ts_tsi = ak_epoch ack, ts_tsf = Tsf_picoseconds,
                            ts_integer = of_nat (pt_seconds (ak_time ack)),
                            ts_fractional = of_nat (pt_picoseconds (ak_time ack))\<rparr>\<rparr>))
               else Inr (e\<lparr>env_timestamp := empty_timestamp\<rparr>))"

section \<open>Reading the mode word back\<close>

lemma bit_high_mask: "bit (0xffe00000 :: u32) n \<longleftrightarrow> 21 \<le> n \<and> n < 32"
proof -
  have eq: "(0xffe00000 :: u32) = push_bit 21 (mask 11)" by (simp add: mask_eq_exp_minus_1)
  show ?thesis unfolding eq bit_push_bit_iff bit_mask_iff by auto
qed

lemma bit_flag_if: "bit (if b then push_bit k 1 else 0 :: u32) n \<longleftrightarrow> b \<and> k = n \<and> n < 32"
  by (auto simp: bit_push_bit_iff bit_1_iff simp del: push_bit_of_1)

lemma bit_single_u32: "bit (push_bit k 1 :: u32) n \<longleftrightarrow> k = n \<and> n < 32"
  using bit_flag_if [of True k n] by simp

lemma bit_timing_field:
  assumes "t \<le> 7"
  shows "bit (push_bit 12 (of_nat t) :: u32) n \<longleftrightarrow> 12 \<le> n \<and> n < 15 \<and> bit t (n - 12)"
proof -
  have "bit t (n - 12) \<Longrightarrow> n - 12 < 3" using bit_nat_less [of t 3 "n - 12"] assms by simp
  then show ?thesis by (auto simp: bit_push_bit_iff bit_of_nat_iff)
qed

lemma wire_timing_le: "ak_timing ack \<le> 7 \<Longrightarrow> wire_timing ack \<le> 7"
  by (simp add: wire_timing_def)

definition response_bit :: "ack_record \<Rightarrow> nat \<Rightarrow> bool" where
  "response_bit ack n =
     (if n \<ge> 21 then n < 32 \<and> bit (cm_raw (ak_cam ack)) n
      else if n \<ge> 18 then n = ack_kind_bit (ak_kind ack)
      else if n = 17 then ak_kind ack \<noteq> Ack_state \<and> dg_warnings (ack_summary ack) \<noteq> 0
      else if n = 16 then ak_kind ack \<noteq> Ack_state \<and> dg_errors (ack_summary ack) \<noteq> 0
      else if n \<ge> 12 then n < 15 \<and> bit (wire_timing ack) (n - 12)
      else if n = 11 then ak_partial ack else n = 10 \<and> ak_scheduled_or_executed ack)"

lemma bit_response_cam:
  assumes "ak_timing ack \<le> 7"
  shows "bit (response_cam ack) n \<longleftrightarrow> response_bit ack n"
proof -
  have kind: "ack_kind_bit (ak_kind ack) \<in> {18, 19, 20}" by (simp add: ack_kind_bit_def)
  have diag: "bit (if k then (if a then push_bit 17 1 else 0) OR (if b then push_bit 16 1 else 0) else 0 :: u32) n
      \<longleftrightarrow> k \<and> (a \<and> n = 17 \<or> b \<and> n = 16)" for k a b
    by (cases k) (auto simp: bit_or_iff bit_flag_if)
  show ?thesis
    unfolding response_cam_def Let_def bit_or_iff bit_and_iff bit_high_mask bit_single_u32 bit_flag_if
      bit_timing_field [OF wire_timing_le [OF assms]] diag
    using kind by (auto simp: response_bit_def)
qed

lemma response_cam_fields:
  assumes "ak_timing ack \<le> 7"
  shows "cam_action (response_cam ack) = cam_action (cm_raw (ak_cam ack))"
    "cam_timing (response_cam ack) = of_nat (wire_timing ack)"
    "drop_bit 18 (response_cam ack) AND 7 = push_bit (ack_kind_bit (ak_kind ack) - 18) 1"
    "response_cam ack AND (push_bit 21 1 OR push_bit 15 1 OR 0x300 OR 0xff) = (cm_raw (ak_cam ack)) AND push_bit 21 1"
proof -
  note cam = bit_response_cam [OF assms]
  have masks: "(3 :: u32) = mask 2" "(7 :: u32) = mask 3" by (simp_all add: mask_eq_exp_minus_1)
  have low: "bit (push_bit 21 1 OR push_bit 15 1 OR 0x300 OR 0xff :: u32) n \<longleftrightarrow> n = 21 \<or> n = 15 \<or> n < 10" for n
  proof -
    have eq: "(push_bit 21 1 OR push_bit 15 1 OR 0x300 OR 0xff :: u32) = push_bit 21 1 OR push_bit 15 1 OR mask 10"
      by (simp add: mask_eq_exp_minus_1)
    show ?thesis unfolding eq bit_or_iff bit_single_u32 bit_mask_iff by auto
  qed
  have t: "bit (wire_timing ack) k \<Longrightarrow> k < 3" for k
    using bit_nat_less [of "wire_timing ack" 3 k] wire_timing_le [OF assms] by simp
  show "cam_action (response_cam ack) = cam_action (cm_raw (ak_cam ack))"
    unfolding cam_action_def masks
    by (rule bit_word_eqI) (auto simp: bit_simps cam response_bit_def)
  show "cam_timing (response_cam ack) = of_nat (wire_timing ack)"
    unfolding cam_timing_def masks
    by (rule bit_word_eqI) (auto simp: bit_simps cam response_bit_def dest: t)
  show "drop_bit 18 (response_cam ack) AND 7 = push_bit (ack_kind_bit (ak_kind ack) - 18) 1"
    unfolding masks
    by (rule bit_word_eqI)
      (auto simp: bit_drop_bit_eq bit_and_iff bit_mask_iff bit_single_u32 cam response_bit_def ack_kind_bit_def
        simp del: push_bit_of_1)
  show "response_cam ack AND (push_bit 21 1 OR push_bit 15 1 OR 0x300 OR 0xff) = (cm_raw (ak_cam ack)) AND push_bit 21 1"
  proof (rule bit_word_eqI)
    fix n assume "n < LENGTH(32)"
    then show "bit (response_cam ack AND (push_bit 21 1 OR push_bit 15 1 OR 0x300 OR 0xff)) n
        \<longleftrightarrow> bit (cm_raw (ak_cam ack) AND push_bit 21 1) n"
      unfolding bit_and_iff low bit_single_u32 cam response_bit_def by (auto simp: ack_kind_bit_def)
  qed
qed


section \<open>The controller concludes what the engine reported\<close>

definition observed_phase :: "ack_record \<Rightarrow> observation_kind" where
  "observed_phase ack =
     (if ak_cancellation ack then (if ak_kind ack = Ack_execution then Ob_cancellation_execution else Ob_cancellation_state)
      else if ak_kind ack = Ack_validation then Ob_validation
      else if ak_kind ack = Ack_execution then Ob_execution else Ob_state)"

text \<open>An acknowledgement made for a command that passed \<open>validate_cam\<close>.\<close>

definition ack_for_command :: "ack_record \<Rightarrow> command \<Rightarrow> bool" where
  "ack_for_command ack command \<longleftrightarrow> env_command (ak_request ack) = Some command
     \<and> env_type (ak_request ack) = Command_packet \<and> \<not> env_ack (ak_request ack)
     \<and> env_cancel (ak_request ack) = ak_cancellation ack \<and> cm_raw (ak_cam ack) = cmd_cam command
     \<and> validate_cam (ak_request ack) (cmd_cam command) = Inr ()"

lemma validate_cam_request:
  assumes "validate_cam e raw = Inr ()"
  shows "\<not> bit raw 21" "cam_action raw \<noteq> 3" "env_cancel e \<Longrightarrow> \<not> env_ack e \<Longrightarrow> cam_action raw = 2"
proof -
  let ?rest = "push_bit 15 1 OR (if env_ack e then 0x300 else 0xf00) OR (if env_type e = Extension_command then 1 else 0xff)"
  have guard: "(if x \<noteq> 0 then Inl a else y) = Inr () \<Longrightarrow> x = 0" for x :: u32 and a :: error and y
    by (simp split: if_split_asm)
  have "raw AND (push_bit 21 1 OR ?rest) = 0"
    using assms unfolding validate_cam_def Let_def by (rule guard)
  then have "\<not> bit (raw AND (push_bit 21 1 OR ?rest)) 21" by simp
  then show "\<not> bit raw 21" unfolding bit_and_iff bit_or_iff bit_single_u32 by simp
qed (use assms in \<open>auto simp: validate_cam_def Let_def split: if_split_asm\<close>)

lemma response_envelope_Inr:
  assumes "response_envelope ack n = Inr e" "ack_for_command ack command"
  shows "env_type e = Command_packet" "env_ack e" "env_cancel e = ak_cancellation ack"
    "env_command e = Some (command\<lparr>cmd_cam := response_cam ack\<rparr>)" "ak_timing ack \<in> {0, 1, 2, 3, 4, 7}"
    "\<not> (ak_cancellation ack \<and> ak_kind ack = Ack_validation)"
  using assms by (auto simp: response_envelope_def ack_for_command_def Let_def split: if_split_asm)

lemma popcount_kind: "popcount32 (push_bit (ack_kind_bit k - 18) 1) = 1"
  by (simp add: ack_kind_bit_def popcount32_def upt_conv_Cons)

lemma wire_timing_cases: "ak_timing ack \<in> {0, 1, 2, 3, 4, 7} \<Longrightarrow> wire_timing ack \<in> {0, 1, 2, 3, 4, 7}"
  by (simp add: wire_timing_def)

lemma response_cam_valid:
  assumes e: "response_envelope ack n = Inr e" and ack: "ack_for_command ack command"
  shows "validate_cam e (response_cam ack) = Inr ()"
proof -
  note env = response_envelope_Inr [OF e ack]
  have le: "ak_timing ack \<le> 7" using env(5) by auto
  have raw: "validate_cam (ak_request ack) (cm_raw (ak_cam ack)) = Inr ()" using ack by (simp add: ack_for_command_def)
  note fields = response_cam_fields [OF le] and bits = bit_response_cam [OF le]
  have reserved: "response_cam ack AND (push_bit 21 1 OR push_bit 15 1 OR 0x300 OR 0xff) = 0"
    using validate_cam_request(1) [OF raw] test_bit32_iff [of "cm_raw (ak_cam ack)" 21]
    unfolding fields(4) test_bit32_def by simp
  have timing: "cam_timing (response_cam ack) > 4 \<Longrightarrow> cam_timing (response_cam ack) = 7"
    unfolding fields(2) using wire_timing_cases [OF env(5)] by auto
  have state: "bit (response_cam ack) 18 \<Longrightarrow> response_cam ack AND (push_bit 17 1 OR push_bit 16 1) = 0"
  proof (rule bit_word_eqI)
    fix n assume "bit (response_cam ack) 18"
    then have "ak_kind ack = Ack_state"
      by (cases "ak_kind ack") (auto simp: bits response_bit_def ack_kind_bit_def)
    then show "bit (response_cam ack AND (push_bit 17 1 OR push_bit 16 1)) n = bit 0 n"
      unfolding bit_and_iff bit_or_iff bit_single_u32 bits by (auto simp: response_bit_def)
  qed
  show ?thesis
    unfolding validate_cam_def Let_def test_bit32_iff
    using env reserved timing state validate_cam_request(2) [OF raw] popcount_kind
    by (simp add: fields(1,3) del: push_bit_of_1)
qed


lemma response_phase_kind:
  assumes "ak_timing ack \<le> 7" "\<not> (ak_cancellation ack \<and> ak_kind ack = Ack_validation)"
  shows "response_phase (ak_cancellation ack) (response_cam ack) = observed_phase ack"
  using assms by (cases "ak_kind ack")
    (auto simp: response_phase_def observed_phase_def bit_response_cam response_bit_def ack_kind_bit_def)

text \<open>Let a command's acknowledgement be given an envelope by \<open>encode_response\<close>, and let a packet with
  that envelope reach the controller that sent the command. The observer accepts it, files it under the
  phase of the acknowledgement (late if the deadline has passed), and concludes confirmed execution
  exactly when the engine reported a complete execution of an executing command, without timing failure
  and without a field of indeterminate state.\<close>

lemma ack_reaches_controller:
  assumes e: "response_envelope ack n = Inr e" and ack: "ack_for_command ack command"
    and p: "view_envelope (pv_envelope p) = e" "\<not> pv_requires_request_context p" "\<not> pv_opaque p"
    and scan: "scan_diagnostics (pv_fields p) False (bit (response_cam ack) 16) = Inr (indeterminate, verr)"
    and c: "co_message_id c = cmd_message_id command"
  shows "\<exists>ev. response_event c p = Inr ev \<and> ob_response_kind ev = observed_phase ack
    \<and> ob_cancellation ev = ak_cancellation ack \<and> ob_partial ev = ak_partial ack
    \<and> ob_kind ev = (if (if ak_cancellation ack then co_cancellation_timed_out c else co_timed_out c)
        then Ob_late_response else observed_phase ack)
    \<and> (ob_confirms_execution ev \<longleftrightarrow> ak_kind ack = Ack_execution \<and> \<not> ak_cancellation ack
        \<and> cam_action (cmd_cam command) = 2 \<and> \<not> ak_partial ack \<and> ak_scheduled_or_executed ack
        \<and> wire_timing ack \<noteq> 7 \<and> \<not> indeterminate)"
proof -
  note env = response_envelope_Inr [OF e ack]
  let ?raw = "response_cam ack"
  let ?late = "if ak_cancellation ack then co_cancellation_timed_out c else co_timed_out c"
  have le: "ak_timing ack \<le> 7" using env(5) by auto
  note fields = response_cam_fields [OF le] and bits = bit_response_cam [OF le]
  have raw: "cm_raw (ak_cam ack) = cmd_cam command" using ack by (simp add: ack_for_command_def)
  have cancel: "\<not> (ak_cancellation ack \<and> (bit ?raw 20 \<or> cam_action ?raw \<noteq> 2))"
    using env(6) validate_cam_request(3) [of "ak_request ack" "cmd_cam command"] ack
    by (auto simp: fields(1) raw ack_for_command_def bits response_bit_def ack_kind_bit_def split: if_split_asm)
  have "response_event c p = Inr (acknowledged (ak_cancellation ack) ?raw ?late indeterminate verr)"
    using env cancel c scan response_cam_valid [OF e ack] p by (simp add: response_event_def)
  moreover have seven: "(of_nat (wire_timing ack) :: u32) = 7 \<longleftrightarrow> wire_timing ack = 7"
    using wire_timing_cases [OF env(5)] by auto
  moreover have "observed_phase ack = Ob_execution \<longleftrightarrow> ak_kind ack = Ack_execution \<and> \<not> ak_cancellation ack"
    by (simp add: observed_phase_def)
  moreover have "bit ?raw 11 = ak_partial ack" "bit ?raw 10 = ak_scheduled_or_executed ack"
    by (simp_all add: bits response_bit_def)
  ultimately show ?thesis
    using response_phase_kind [OF le env(6)] by (auto simp: acknowledged_def Let_def fields(1,2) raw)
qed

end
