(* ===== verification/Revisions.thy ===== *)
theory Revisions
  imports State_Contracts Admission
begin

text \<open>
  The revision store (\<^verbatim>\<open>runtime/context/revisions.hpp\<close>): every change of the device state becomes a
  numbered revision in a slot reserved in advance, is published as a context packet in time order and
  is recycled when nothing refers to it. The lemmas show the numbering invariant, that a reservation
  is always honoured, and that accepting a publication group leaves only later revisions pending
  without losing a state that data depends on.
\<close>

section \<open>Types\<close>

definition same_state :: "state_snapshot \<Rightarrow> state_snapshot \<Rightarrow> bool" where
  "same_state a b \<longleftrightarrow> ss_profile a = ss_profile b
     \<and> list_all (\<lambda>i. let x = ss_fields a ! i; y = ss_fields b ! i in
         fs_id x = fs_id y \<and> fs_validity x = fs_validity y \<and> (fs_validity x = Known \<longrightarrow> fs_value x = fs_value y))
       [0..<active_state_fields (ss_profile a)]"

definition required_known :: "state_snapshot \<Rightarrow> bool" where
  "required_known s \<longleftrightarrow> known_at s 1 \<and> known_at s 3 \<and> (ss_profile s = Generator_v1 \<or> known_at s 4)
     \<and> (ss_profile s \<noteq> Sdr_radio \<or> (known_at s 5 \<and> known_at s 6))"

datatype publication = Publication_pending | Publication_accepted | Publication_failed

record revision =
  rv_event :: effective_event
  rv_credits :: admission_bundle
  rv_id :: nat
  rv_reservation :: nat
  rv_references :: nat
  rv_publication :: publication
  rv_occupied :: bool
  rv_committed :: bool
  rv_detached :: bool
  rv_data_dependency :: bool

text \<open>The \<open>State\<close> of a store, with its address; \<open>current\<close> points into the slots.\<close>

record revision_store =
  rst_address :: nat
  rst_slots :: "revision list"
  rst_generation :: nat
  rst_next_id :: nat
  rst_next_reservation :: nat
  rst_current :: "nat option"
  rst_faulted :: bool

text \<open>A handle: the store it keeps alive and the slot it refers to.\<close>

record revision_handle =
  rh_owner :: "nat option"
  rh_revision :: "nat option"

section \<open>Handles\<close>

definition null_handle :: revision_handle where
  "null_handle = \<lparr>rh_owner = None, rh_revision = None\<rparr>"

definition update_revision :: "nat \<Rightarrow> (revision \<Rightarrow> revision) \<Rightarrow> revision_store \<Rightarrow> revision_store" where
  "update_revision i f s = s\<lparr>rst_slots := (rst_slots s)[i := f (rst_slots s ! i)]\<rparr>"

definition acquire_handle :: "revision_store \<Rightarrow> nat \<Rightarrow> revision_store \<times> revision_handle" where
  "acquire_handle s i = (update_revision i (\<lambda>r. r\<lparr>rv_references := size_add (rv_references r) 1\<rparr>) s,
     \<lparr>rh_owner = Some (rst_address s), rh_revision = Some i\<rparr>)"

definition release_handle :: "revision_store \<Rightarrow> revision_handle \<Rightarrow> revision_store" where
  "release_handle s h = (case rh_revision h of None \<Rightarrow> s
     | Some i \<Rightarrow> update_revision i (\<lambda>r. r\<lparr>rv_references := size_sub (rv_references r) 1\<rparr>) s)"

definition copy_handle :: "revision_store \<Rightarrow> revision_handle \<Rightarrow> revision_store \<times> revision_handle" where
  "copy_handle s h = (case rh_revision h of None \<Rightarrow> (s, h)
     | Some i \<Rightarrow> (fst (acquire_handle s i), h))"

definition handle_id :: "revision_store \<Rightarrow> revision_handle \<Rightarrow> nat" where
  "handle_id s h = (case rh_revision h of None \<Rightarrow> 0 | Some i \<Rightarrow> rv_id (rst_slots s ! i))"

definition handle_publication :: "revision_store \<Rightarrow> revision_handle \<Rightarrow> publication" where
  "handle_publication s h = (case rh_revision h of None \<Rightarrow> Publication_failed | Some i \<Rightarrow> rv_publication (rst_slots s ! i))"

definition owns_handle :: "revision_store \<Rightarrow> revision_handle \<Rightarrow> bool" where
  "owns_handle s h \<longleftrightarrow> rh_owner h = Some (rst_address s)"

section \<open>Slots\<close>

definition collectable :: "revision_store \<Rightarrow> nat \<Rightarrow> bool" where
  "collectable s i \<longleftrightarrow> (let r = rst_slots s ! i in rv_occupied r \<and> rv_committed r \<and> rst_current s \<noteq> Some i
     \<and> (rv_detached r \<or> rv_publication r \<noteq> Publication_pending) \<and> rv_references r = 0)"

definition collect_slot :: "nat \<Rightarrow> admission_state \<times> revision_store \<Rightarrow> admission_state \<times> revision_store" where
  "collect_slot i acc = (case acc of (pool, s) \<Rightarrow>
     if collectable s i
     then let (pool', b) = bundle_reset pool (rv_credits (rst_slots s ! i))
       in (pool', update_revision i (\<lambda>r. r\<lparr>rv_credits := b, rv_occupied := False, rv_committed := False\<rparr>) s)
     else (pool, s))"

definition collect :: "admission_state \<Rightarrow> revision_store \<Rightarrow> admission_state \<times> revision_store" where
  "collect pool s = fold collect_slot [0..<length (rst_slots s)] (pool, s)"

definition reserved_for :: "nat \<Rightarrow> revision \<Rightarrow> bool" where
  "reserved_for token r \<longleftrightarrow> rv_occupied r \<and> \<not> rv_committed r \<and> rv_reservation r = token"

definition unused :: "revision_store \<Rightarrow> nat \<Rightarrow> revision_store" where
  "unused s token = s\<lparr>rst_slots := map (\<lambda>r. if reserved_for token r then r\<lparr>rv_occupied := False\<rparr> else r) (rst_slots s)\<rparr>"

primrec take_slots :: "nat \<Rightarrow> nat \<Rightarrow> revision list \<Rightarrow> revision list" where
  "take_slots token count_left [] = []"
| "take_slots token count_left (r # rs) =
     (if \<not> rv_occupied r \<and> count_left \<noteq> 0
      then r\<lparr>rv_occupied := True, rv_committed := False, rv_detached := False, rv_data_dependency := False,
             rv_reservation := token, rv_publication := Publication_pending\<rparr> # take_slots token (count_left - 1) rs
      else r # take_slots token count_left rs)"

definition free_count :: "revision_store \<Rightarrow> nat" where
  "free_count s = length (filter (\<lambda>r. \<not> rv_occupied r) (rst_slots s))"

definition reserved_count :: "revision_store \<Rightarrow> nat" where
  "reserved_count s = length (filter (\<lambda>r. rv_occupied r \<and> \<not> rv_committed r) (rst_slots s))"

text \<open>The reservation is named by its token; \<open>UINT64_MAX - count - reserved\<close> wraps in the code.\<close>

definition reserve_impl :: "admission_state \<Rightarrow> revision_store \<Rightarrow> nat \<Rightarrow> admission_state \<times> revision_store \<times> nat result" where
  "reserve_impl pool s n =
     (if n = 0 \<or> n > length (rst_slots s) then (pool, s, Inl (err Invalid_argument))
      else let (pool1, s1) = collect pool s in
        if free_count s1 < n then (pool1, s1, Inl (err Capacity_exhausted))
        else if rst_next_reservation s1 = u64_max \<or> rst_next_id s1 > size_sub (size_sub u64_max n) (reserved_count s1)
        then (pool1, s1, Inl (err Overflow))
        else (pool1, s1\<lparr>rst_next_reservation := rst_next_reservation s1 + 1,
                rst_slots := take_slots (rst_next_reservation s1) n (rst_slots s1)\<rparr>, Inr (rst_next_reservation s1)))"

text \<open>The first slot of the reservation takes the event; credits that find no slot go back.\<close>

primrec find_reserved :: "nat \<Rightarrow> revision list \<Rightarrow> nat \<Rightarrow> nat option" where
  "find_reserved token [] i = None"
| "find_reserved token (r # rs) i = (if reserved_for token r then Some i else find_reserved token rs (i + 1))"

definition record_thunk :: "admission_state \<Rightarrow> revision_store \<Rightarrow> effective_event \<Rightarrow> nat \<Rightarrow> admission_bundle
    \<Rightarrow> admission_state \<times> revision_store" where
  "record_thunk pool s event token credits =
     (if ee_association_generation event \<noteq> rst_generation s then (fst (bundle_reset pool credits), s)
      else case find_reserved token (rst_slots s) 0 of
        None \<Rightarrow> (fst (bundle_reset pool credits), s\<lparr>rst_faulted := True\<rparr>)
      | Some i \<Rightarrow>
          (fst (bundle_reset pool (rv_credits (rst_slots s ! i))),
           (update_revision i (\<lambda>r. r\<lparr>rv_event := event, rv_credits := credits, rv_id := rst_next_id s, rv_committed := True,
                rv_publication := Publication_pending\<rparr>) s)
             \<lparr>rst_next_id := wrap64 (rst_next_id s + 1), rst_current := Some i,
              rst_faulted := (rst_faulted s \<or> \<not> required_known (ee_state event))\<rparr>))"

section \<open>The store's interface\<close>

definition new_revisions :: "nat \<Rightarrow> nat \<Rightarrow> nat \<Rightarrow> revision \<Rightarrow> revision_store" where
  "new_revisions address capacity generation blank = \<lparr>rst_address = address, rst_slots = replicate capacity blank,
     rst_generation = generation, rst_next_id = 1, rst_next_reservation = 1, rst_current = None, rst_faulted = False\<rparr>"

definition current_handle :: "revision_store \<Rightarrow> revision_store \<times> revision_handle result" where
  "current_handle s = (case rst_current s of None \<Rightarrow> (s, Inl (err Invalid_state))
     | Some i \<Rightarrow> let (s', h) = acquire_handle s i in (s', Inr h))"

primrec initial_fields_ok :: "state_snapshot \<Rightarrow> nat list \<Rightarrow> unit result" where
  "initial_fields_ok s [] = Inr ()"
| "initial_fields_ok s (i # is) =
     (let f = ss_fields s ! i in
      if fs_id f \<noteq> state_fields ! i then Inl (err Invalid_argument)
      else and_then (if fs_validity f = Known then validate_value (fs_id f) (fs_value f) True else Inr ())
        (\<lambda>_. initial_fields_ok s is))"

definition initial :: "admission_state \<Rightarrow> revision_store \<Rightarrow> effective_event \<Rightarrow> admission_bundle
    \<Rightarrow> admission_state \<times> revision_store \<times> revision_handle result" where
  "initial pool s event credits =
     (let give_up = fst (bundle_reset pool credits) in
      case and_then (validate_snapshot (ee_state event))
        (\<lambda>_. initial_fields_ok (ee_state event) [0..<active_state_fields (ss_profile (ee_state event))]) of
        Inl e \<Rightarrow> (give_up, s, Inl e)
      | Inr _ \<Rightarrow>
          if rst_current s \<noteq> None \<or> ee_association_generation event \<noteq> rst_generation s \<or> \<not> required_known (ee_state event)
          then (give_up, s, Inl (err Invalid_state))
          else case reserve_impl pool s 1 of
            (pool1, s1, Inl e) \<Rightarrow> (fst (bundle_reset pool1 credits), s1, Inl e)
          | (pool1, s1, Inr token) \<Rightarrow>
              (let (pool2, s2) = record_thunk pool1 s1 event token credits; (s3, h) = current_handle s2
               in (pool2, unused s3 token, h)))"

definition pending :: "revision \<Rightarrow> bool" where
  "pending r \<longleftrightarrow> rv_committed r \<and> \<not> rv_detached r \<and> rv_publication r = Publication_pending"

definition sooner :: "revision \<Rightarrow> revision \<Rightarrow> bool" where
  "sooner a b =
     (if ee_time_known (rv_event a) \<noteq> ee_time_known (rv_event b) then ee_time_known (rv_event a)
      else if ee_time_known (rv_event a) then context_time (rv_event a) < context_time (rv_event b)
      else rv_id a > rv_id b)"

definition consider_next :: "revision list \<Rightarrow> nat \<Rightarrow> nat option \<Rightarrow> nat option" where
  "consider_next rs i best = (if pending (rs ! i) \<and> (case best of None \<Rightarrow> True | Some j \<Rightarrow> sooner (rs ! i) (rs ! j))
     then Some i else best)"

definition next_pending :: "revision list \<Rightarrow> nat option" where
  "next_pending rs = fold (consider_next rs) [0..<length rs] None"

definition next_publication :: "revision_store \<Rightarrow> revision_store \<times> revision_handle result" where
  "next_publication s = (case next_pending (rst_slots s) of None \<Rightarrow> (s, Inl (err Invalid_state))
     | Some i \<Rightarrow> let (s', h) = acquire_handle s i in (s', Inr h))"

definition note_data_dependency :: "revision_store \<Rightarrow> revision_handle \<Rightarrow> revision_store \<times> unit result" where
  "note_data_dependency s h =
     (if \<not> owns_handle s h then (s, Inl (err Invalid_argument))
      else case rh_revision h of None \<Rightarrow> (s, Inl (err Stale_generation))
      | Some i \<Rightarrow> if i < length (rst_slots s) \<and> rv_committed (rst_slots s ! i) \<and> \<not> rv_detached (rst_slots s ! i)
          then (update_revision i (\<lambda>r. r\<lparr>rv_data_dependency := True\<rparr>) s, Inr ())
          else (s, Inl (err Stale_generation)))"

text \<open>Data depends on this revision, or its state has the sample-loss indicator (bit 12) set.\<close>

definition carries_data :: "revision \<Rightarrow> bool" where
  "carries_data r \<longleftrightarrow> rv_data_dependency r
     \<or> (case get_uint32 (value_at (ee_state (rv_event r)) 2) of None \<Rightarrow> False | Some x \<Rightarrow> test_bit32 x 12)"

definition same_instant :: "revision \<Rightarrow> revision \<Rightarrow> bool" where
  "same_instant a b \<longleftrightarrow> ee_time_known (rv_event a) \<and> ee_time_known (rv_event b)
     \<and> context_time (rv_event a) = context_time (rv_event b)"

primrec latest_of :: "revision list \<Rightarrow> nat list \<Rightarrow> nat \<Rightarrow> nat result" where
  "latest_of rs [] final = Inr final"
| "latest_of rs (i # is) final =
     (if pending (rs ! i) \<and> same_instant (rs ! i) (rs ! final)
      then (if ee_sample_ordinal (rv_event (rs ! i)) \<noteq> ee_sample_ordinal (rv_event (rs ! final))
               \<or> ee_ordinal_known (rv_event (rs ! i)) \<noteq> ee_ordinal_known (rv_event (rs ! final))
            then Inl (err Identity_conflict)
            else latest_of rs is (if rv_id (rs ! i) > rv_id (rs ! final) then i else final))
      else latest_of rs is final)"

definition group_choice :: "revision list \<Rightarrow> nat result" where
  "group_choice rs =
     (case next_pending rs of None \<Rightarrow> Inl (err Invalid_state)
      | Some first \<Rightarrow>
          if \<not> ee_time_known (rv_event (rs ! first))
          then (if list_ex (\<lambda>r. pending r \<and> \<not> ee_time_known (rv_event r) \<and> carries_data r) rs
                then Inl (err Identity_conflict) else Inr first)
          else and_then (latest_of rs [0..<length rs] first) (\<lambda>final.
            if list_ex (\<lambda>r. pending r \<and> rv_id r \<noteq> rv_id (rs ! final) \<and> same_instant r (rs ! final) \<and> carries_data r
                 \<and> \<not> same_state (ee_state (rv_event r)) (ee_state (rv_event (rs ! final)))) rs
            then Inl (err Identity_conflict) else Inr final))"

definition publication_group :: "revision_store \<Rightarrow> revision_store \<times> revision_handle result" where
  "publication_group s = (case group_choice (rst_slots s) of Inl e \<Rightarrow> (s, Inl e)
     | Inr i \<Rightarrow> let (s', h) = acquire_handle s i in (s', Inr h))"

definition in_group :: "revision \<Rightarrow> revision \<Rightarrow> bool" where
  "in_group final r \<longleftrightarrow> pending r \<and> (rv_id r = rv_id final
     \<or> (\<not> ee_time_known (rv_event r) \<and> \<not> ee_time_known (rv_event final))
     \<or> (same_instant r final \<and> ee_sample_ordinal (rv_event r) = ee_sample_ordinal (rv_event final)))"

text \<open>The temporary handles of \<open>accept_group\<close> are gone when it returns.\<close>

definition accept_group :: "revision_store \<Rightarrow> revision_handle \<Rightarrow> revision_store \<times> unit result" where
  "accept_group s h =
     (if \<not> owns_handle s h then (s, Inl (err Invalid_argument))
      else case rh_revision h of None \<Rightarrow> (s, Inl (err Stale_generation))
      | Some i \<Rightarrow>
          let r = rst_slots s ! i in
          if ee_association_generation (rv_event r) \<noteq> rst_generation s then (s, Inl (err Stale_generation))
          else case group_choice (rst_slots s) of Inl e \<Rightarrow> (s, Inl e)
          | Inr selected \<Rightarrow>
              if rv_id (rst_slots s ! selected) \<noteq> rv_id r then (s, Inl (err Invalid_state))
              else (s\<lparr>rst_slots := map (\<lambda>x. if in_group r x then x\<lparr>rv_publication := Publication_accepted\<rparr> else x) (rst_slots s)\<rparr>,
                    Inr ()))"

primrec find_published :: "nat \<Rightarrow> nat \<Rightarrow> revision list \<Rightarrow> nat \<Rightarrow> nat option" where
  "find_published target generation [] i = None"
| "find_published target generation (r # rs) i =
     (if rv_committed r \<and> \<not> rv_detached r \<and> rv_id r = target \<and> ee_association_generation (rv_event r) = generation
      then Some i else find_published target generation rs (i + 1))"

definition mark_publication :: "revision_store \<Rightarrow> revision_handle \<Rightarrow> publication \<Rightarrow> revision_store \<times> unit result" where
  "mark_publication s h status =
     (if \<not> owns_handle s h then (s, Inl (err Invalid_argument))
      else case find_published (handle_id s h) (rst_generation s) (rst_slots s) 0 of
        None \<Rightarrow> (s, Inl (err Stale_generation))
      | Some i \<Rightarrow> (update_revision i (\<lambda>r. r\<lparr>rv_publication := status\<rparr>) s, Inr ()))"

definition fault_store :: "revision_store \<Rightarrow> revision_store" where
  "fault_store s = s\<lparr>rst_faulted := True\<rparr>"

definition detach_slot :: "revision \<Rightarrow> revision" where
  "detach_slot r = (if rv_occupied r then if rv_committed r then r\<lparr>rv_detached := True\<rparr> else r\<lparr>rv_occupied := False\<rparr> else r)"

definition detach_store :: "admission_state \<Rightarrow> revision_store \<Rightarrow> nat \<Rightarrow> admission_state \<times> revision_store \<times> unit result" where
  "detach_store pool s generation =
     (if generation \<le> rst_generation s then (pool, s, Inl (err Stale_generation))
      else let (pool', s') = collect pool (s\<lparr>rst_slots := map detach_slot (rst_slots s), rst_current := None,
                 rst_generation := generation, rst_faulted := False\<rparr>)
        in (pool', s', Inr ()))"

definition occupied_count :: "revision_store \<Rightarrow> nat" where
  "occupied_count s = length (filter rv_occupied (rst_slots s))"

section \<open>Invariant\<close>

definition reserved_slot :: "revision \<Rightarrow> bool" where
  "reserved_slot r \<longleftrightarrow> rv_occupied r \<and> \<not> rv_committed r"

definition revision_ok :: "nat \<Rightarrow> nat \<Rightarrow> revision \<Rightarrow> bool" where
  "revision_ok next_id next_reservation r \<longleftrightarrow> (rv_committed r \<longrightarrow> rv_occupied r \<and> 0 < rv_id r \<and> rv_id r < next_id)
     \<and> (reserved_slot r \<longrightarrow> rv_reservation r < next_reservation \<and> \<not> rv_detached r)"

definition unique_ids :: "revision list \<Rightarrow> bool" where
  "unique_ids rs \<longleftrightarrow> (\<forall>i < length rs. \<forall>j < length rs.
     rv_committed (rs ! i) \<longrightarrow> rv_committed (rs ! j) \<longrightarrow> rv_id (rs ! i) = rv_id (rs ! j) \<longrightarrow> i = j)"

definition current_ok :: "revision_store \<Rightarrow> bool" where
  "current_ok s \<longleftrightarrow> (case rst_current s of None \<Rightarrow> True
     | Some i \<Rightarrow> i < length (rst_slots s) \<and> rv_committed (rst_slots s ! i) \<and> \<not> rv_detached (rst_slots s ! i)
         \<and> ee_association_generation (rv_event (rst_slots s ! i)) = rst_generation s
         \<and> (\<forall>j < length (rst_slots s). rv_committed (rst_slots s ! j) \<longrightarrow> rv_id (rst_slots s ! j) \<le> rv_id (rst_slots s ! i)))"

definition revision_inv :: "revision_store \<Rightarrow> bool" where
  "revision_inv s \<longleftrightarrow> (\<forall>i < length (rst_slots s). revision_ok (rst_next_id s) (rst_next_reservation s) (rst_slots s ! i))
     \<and> unique_ids (rst_slots s) \<and> current_ok s \<and> length (rst_slots s) \<le> u64_max
     \<and> 0 < rst_next_id s \<and> rst_next_id s + reserved_count s \<le> u64_max \<and> rst_next_reservation s \<le> u64_max"

text \<open>Slots with a property, as a set of indices.\<close>

definition slots_with :: "(revision \<Rightarrow> bool) \<Rightarrow> revision_store \<Rightarrow> nat set" where
  "slots_with P s = {i. i < length (rst_slots s) \<and> P (rst_slots s ! i)}"

lemma finite_slots_with [simp]: "finite (slots_with P s)"
  by (simp add: slots_with_def)

lemma length_filter_slots: "length (filter P (rst_slots s)) = card (slots_with P s)"
  by (simp add: slots_with_def length_filter_conv_card)

lemma reserved_count_card: "reserved_count s = card (slots_with reserved_slot s)"
  unfolding reserved_count_def reserved_slot_def length_filter_slots ..

text \<open>A step that keeps or frees every slot and keeps the current revision or forgets it.\<close>

definition same_place :: "revision \<Rightarrow> revision \<Rightarrow> bool" where
  "same_place r r' \<longleftrightarrow> rv_occupied r' = rv_occupied r \<and> rv_committed r' = rv_committed r \<and> rv_id r' = rv_id r
     \<and> rv_reservation r' = rv_reservation r \<and> (rv_detached r' \<longrightarrow> rv_detached r \<or> rv_committed r)"

definition free_slot :: "revision \<Rightarrow> bool" where
  "free_slot r \<longleftrightarrow> \<not> rv_occupied r \<and> \<not> rv_committed r"

definition shrinks :: "revision_store \<Rightarrow> revision_store \<Rightarrow> bool" where
  "shrinks s s' \<longleftrightarrow> length (rst_slots s') = length (rst_slots s) \<and> rst_next_id s' = rst_next_id s
     \<and> rst_next_reservation s' = rst_next_reservation s
     \<and> (\<forall>i < length (rst_slots s). same_place (rst_slots s ! i) (rst_slots s' ! i) \<or> free_slot (rst_slots s' ! i))
     \<and> (\<forall>i. rst_current s' = Some i \<longrightarrow> rst_current s = Some i \<and> rst_generation s' = rst_generation s
          \<and> same_place (rst_slots s ! i) (rst_slots s' ! i) \<and> rv_detached (rst_slots s' ! i) = rv_detached (rst_slots s ! i)
          \<and> rv_event (rst_slots s' ! i) = rv_event (rst_slots s ! i))"

lemma shrinks_revision_inv:
  assumes inv: "revision_inv s" and step: "shrinks s s'"
  shows "revision_inv s'"
proof -
  have len: "length (rst_slots s') = length (rst_slots s)" and ids: "rst_next_id s' = rst_next_id s"
    "rst_next_reservation s' = rst_next_reservation s"
    and slot: "\<And>i. i < length (rst_slots s) \<Longrightarrow> same_place (rst_slots s ! i) (rst_slots s' ! i) \<or> free_slot (rst_slots s' ! i)"
    using step by (auto simp: shrinks_def)
  have com: "rv_committed (rst_slots s ! i)" "rv_id (rst_slots s' ! i) = rv_id (rst_slots s ! i)"
    if "i < length (rst_slots s)" "rv_committed (rst_slots s' ! i)" for i
    using slot [OF that(1)] that(2) by (auto simp: same_place_def free_slot_def)
  have "slots_with reserved_slot s' \<subseteq> slots_with reserved_slot s"
    using slot by (fastforce simp: slots_with_def len reserved_slot_def same_place_def free_slot_def)
  then have "reserved_count s' \<le> reserved_count s" unfolding reserved_count_card by (simp add: card_mono)
  moreover have "revision_ok (rst_next_id s) (rst_next_reservation s) (rst_slots s' ! i)" if "i < length (rst_slots s)" for i
    using slot [OF that] inv that
    by (auto simp: revision_inv_def revision_ok_def reserved_slot_def same_place_def free_slot_def)
  moreover have "unique_ids (rst_slots s')"
    using inv com unfolding revision_inv_def unique_ids_def len by metis
  moreover have "current_ok s'"
  proof (cases "rst_current s'")
    case (Some i)
    then have "rst_current s = Some i" "rst_generation s' = rst_generation s" "same_place (rst_slots s ! i) (rst_slots s' ! i)"
      "rv_detached (rst_slots s' ! i) = rv_detached (rst_slots s ! i)" "rv_event (rst_slots s' ! i) = rv_event (rst_slots s ! i)"
      using step by (auto simp: shrinks_def)
    then show ?thesis using inv com Some by (auto simp: current_ok_def revision_inv_def same_place_def len)
  qed (simp add: current_ok_def)
  ultimately show ?thesis using inv by (auto simp: revision_inv_def len ids)
qed

lemma update_revision_nth:
  "j < length (rst_slots s) \<Longrightarrow> rst_slots (update_revision i f s) ! j = (if i = j then f (rst_slots s ! j) else rst_slots s ! j)"
  by (simp add: update_revision_def)

lemma update_revision_sel [simp]:
  "length (rst_slots (update_revision i f s)) = length (rst_slots s)" "rst_next_id (update_revision i f s) = rst_next_id s"
  "rst_next_reservation (update_revision i f s) = rst_next_reservation s" "rst_current (update_revision i f s) = rst_current s"
  "rst_generation (update_revision i f s) = rst_generation s" "rst_faulted (update_revision i f s) = rst_faulted s"
  "rst_address (update_revision i f s) = rst_address s"
  by (simp_all add: update_revision_def)

text \<open>Changing the slots one by one without moving them.\<close>

definition in_place :: "revision_store \<Rightarrow> revision_store \<Rightarrow> bool" where
  "in_place s s' \<longleftrightarrow> length (rst_slots s') = length (rst_slots s) \<and> rst_next_id s' = rst_next_id s
     \<and> rst_next_reservation s' = rst_next_reservation s \<and> rst_current s' = rst_current s \<and> rst_generation s' = rst_generation s
     \<and> (\<forall>i < length (rst_slots s). same_place (rst_slots s ! i) (rst_slots s' ! i)
          \<and> rv_detached (rst_slots s' ! i) = rv_detached (rst_slots s ! i) \<and> rv_event (rst_slots s' ! i) = rv_event (rst_slots s ! i))"

lemma in_place_shrinks: "in_place s s' \<Longrightarrow> current_ok s \<Longrightarrow> shrinks s s'"
  by (auto simp: in_place_def shrinks_def current_ok_def)

lemma in_place_update:
  assumes "\<And>r. same_place r (f r) \<and> rv_detached (f r) = rv_detached r \<and> rv_event (f r) = rv_event r"
  shows "in_place s (update_revision i f s)"
  using assms by (auto simp: in_place_def update_revision_nth same_place_def)

lemma in_place_steps:
  "in_place s (fst (acquire_handle s i))" "in_place s (release_handle s h)" "in_place s (fst (copy_handle s h))"
  "in_place s (fst (note_data_dependency s h))" "in_place s (fst (accept_group s h))"
  "in_place s (fst (mark_publication s h status))" "in_place s (fault_store s)"
  "in_place s (fst (current_handle s))" "in_place s (fst (next_publication s))" "in_place s (fst (publication_group s))"
proof -
  have refl: "in_place s s" for s by (simp add: in_place_def same_place_def)
  show acquire: "in_place s (fst (acquire_handle s i))" for i
    by (simp add: acquire_handle_def in_place_update same_place_def)
  show "in_place s (release_handle s h)"
    by (auto simp: release_handle_def refl intro!: in_place_update simp: same_place_def split: option.splits)
  show "in_place s (fst (copy_handle s h))"
    by (auto simp: copy_handle_def refl acquire split: option.splits)
  show "in_place s (fst (note_data_dependency s h))"
    by (auto simp: note_data_dependency_def refl intro!: in_place_update simp: same_place_def split: option.splits)
  show "in_place s (fst (accept_group s h))"
    by (auto simp: accept_group_def refl Let_def in_place_def same_place_def split: option.splits sum.splits)
  show "in_place s (fst (mark_publication s h status))"
    by (auto simp: mark_publication_def refl intro!: in_place_update simp: same_place_def split: option.splits)
  show "in_place s (fault_store s)" by (simp add: fault_store_def in_place_def same_place_def)
  show "in_place s (fst (current_handle s))" "in_place s (fst (next_publication s))" "in_place s (fst (publication_group s))"
    using acquire by (auto simp: current_handle_def next_publication_def publication_group_def refl case_prod_beta
        split: option.splits sum.splits)
qed

section \<open>Collecting and detaching\<close>

definition cleared :: "revision \<Rightarrow> revision" where
  "cleared r = r\<lparr>rv_credits := (if ab_state (rv_credits r) = None then rv_credits r else null_bundle),
     rv_occupied := False, rv_committed := False\<rparr>"

lemma collect_slot_eq:
  "snd (collect_slot i (pool, s)) = (if collectable s i then update_revision i cleared s else s)"
  by (simp add: collect_slot_def cleared_def bundle_reset_def update_revision_def)

lemma collect_upto:
  "n \<le> length (rst_slots s) \<Longrightarrow> snd (fold collect_slot [0..<n] (pool, s))
     = s\<lparr>rst_slots := map (\<lambda>i. if i < n \<and> collectable s i then cleared (rst_slots s ! i) else rst_slots s ! i) [0..<length (rst_slots s)]\<rparr>"
proof (induction n)
  case 0
  then show ?case by (simp add: map_nth)
next
  case (Suc n)
  obtain pool' s' where f: "fold collect_slot [0..<n] (pool, s) = (pool', s')" by (metis prod.exhaust)
  then have s': "s' = s\<lparr>rst_slots := map (\<lambda>i. if i < n \<and> collectable s i then cleared (rst_slots s ! i) else rst_slots s ! i) [0..<length (rst_slots s)]\<rparr>"
    using Suc by simp
  then have c: "collectable s' n = collectable s n" and nth: "rst_slots s' ! n = rst_slots s ! n"
    using Suc.prems by (simp_all add: collectable_def)
  have "snd (collect_slot n (pool', s')) = s'\<lparr>rst_slots := (rst_slots s')[n := if collectable s n then cleared (rst_slots s' ! n) else rst_slots s' ! n]\<rparr>"
    by (simp add: collect_slot_eq update_revision_def c)
  also have "(rst_slots s')[n := if collectable s n then cleared (rst_slots s' ! n) else rst_slots s' ! n]
      = map (\<lambda>i. if i < Suc n \<and> collectable s i then cleared (rst_slots s ! i) else rst_slots s ! i) [0..<length (rst_slots s)]"
    using Suc.prems nth by (intro nth_equalityI) (auto simp: s' nth_list_update less_Suc_eq)
  finally show ?case using f s' by simp
qed

lemma collect_slots:
  "snd (collect pool s) = s\<lparr>rst_slots := map (\<lambda>i. if collectable s i then cleared (rst_slots s ! i) else rst_slots s ! i)
     [0..<length (rst_slots s)]\<rparr>"
  unfolding collect_def collect_upto [OF order_refl] by (auto intro!: arg_cong [of _ _ "\<lambda>x. s\<lparr>rst_slots := x\<rparr>"])

lemma collect_nth:
  "i < length (rst_slots s) \<Longrightarrow> rst_slots (snd (collect pool s)) ! i = (if collectable s i then cleared (rst_slots s ! i) else rst_slots s ! i)"
  by (simp add: collect_slots)

lemma collect_sel [simp]:
  "length (rst_slots (snd (collect pool s))) = length (rst_slots s)" "rst_next_id (snd (collect pool s)) = rst_next_id s"
  "rst_next_reservation (snd (collect pool s)) = rst_next_reservation s" "rst_current (snd (collect pool s)) = rst_current s"
  "rst_generation (snd (collect pool s)) = rst_generation s" "rst_faulted (snd (collect pool s)) = rst_faulted s"
  by (simp_all add: collect_slots)

lemma collect_shrinks: "current_ok s \<Longrightarrow> shrinks s (snd (collect pool s))"
  by (auto simp: shrinks_def collect_nth cleared_def same_place_def free_slot_def collectable_def current_ok_def Let_def)

lemma unused_shrinks: "current_ok s \<Longrightarrow> shrinks s (unused s token)"
  by (auto simp: shrinks_def unused_def same_place_def free_slot_def reserved_for_def current_ok_def)

lemma detach_inv:
  assumes "revision_inv s"
  shows "revision_inv (fst (snd (detach_store pool s g)))"
proof -
  let ?s = "s\<lparr>rst_slots := map detach_slot (rst_slots s), rst_current := None, rst_generation := g, rst_faulted := False\<rparr>"
  have "shrinks s ?s" using assms
    by (auto simp: shrinks_def detach_slot_def same_place_def free_slot_def revision_inv_def revision_ok_def)
  then have "revision_inv ?s" by (rule shrinks_revision_inv [OF assms])
  moreover have "current_ok ?s" by (simp add: current_ok_def)
  ultimately show ?thesis
    using assms shrinks_revision_inv [OF _ collect_shrinks] by (simp add: detach_store_def case_prod_beta)
qed

section \<open>Reserving\<close>

definition promised :: "nat \<Rightarrow> revision_store \<Rightarrow> nat" where
  "promised token s = card (slots_with (reserved_for token) s)"

lemma collect_reserved:
  "slots_with (reserved_for token) (snd (collect pool s)) = slots_with (reserved_for token) s"
  "slots_with reserved_slot (snd (collect pool s)) = slots_with reserved_slot s"
  by (auto simp: slots_with_def collect_nth reserved_for_def reserved_slot_def cleared_def collectable_def Let_def split: if_split_asm)

definition taken :: "nat \<Rightarrow> revision \<Rightarrow> revision" where
  "taken token r = r\<lparr>rv_occupied := True, rv_committed := False, rv_detached := False, rv_data_dependency := False,
     rv_reservation := token, rv_publication := Publication_pending\<rparr>"

lemma take_slots_nth:
  "length (take_slots token n rs) = length rs
   \<and> (\<forall>i < length rs. take_slots token n rs ! i = rs ! i \<or> (\<not> rv_occupied (rs ! i) \<and> take_slots token n rs ! i = taken token (rs ! i)))"
  by (induction rs arbitrary: n) (auto simp: taken_def nth_Cons split: nat.split)

lemma take_slots_count:
  "n \<le> length (filter (\<lambda>r. \<not> rv_occupied r) rs) \<Longrightarrow>
   length (filter reserved_slot (take_slots token n rs)) = length (filter reserved_slot rs) + n
   \<and> length (filter (reserved_for token) (take_slots token n rs)) = length (filter (reserved_for token) rs) + n"
  by (induction rs arbitrary: n) (auto simp: reserved_slot_def reserved_for_def)

lemma take_slots_other:
  "t \<noteq> token \<Longrightarrow> length (filter (reserved_for t) (take_slots token n rs)) = length (filter (reserved_for t) rs)"
  by (induction rs arbitrary: n) (auto simp: reserved_for_def)

lemma free_reserved_le: "free_count s + reserved_count s \<le> length (rst_slots s)"
proof -
  have "length (filter (\<lambda>r. \<not> rv_occupied r) rs) + length (filter (\<lambda>r. rv_occupied r \<and> \<not> rv_committed r) rs) \<le> length rs" for rs
    by (induction rs) auto
  then show ?thesis by (simp add: free_count_def reserved_count_def)
qed

lemma reserve_impl_cases:
  assumes inv: "revision_inv s" and res: "reserve_impl pool s n = (pool', s', result)"
  obtains "s' = s" "result = Inl (err Invalid_argument)"
  | e where "s' = snd (collect pool s)" "result = Inl e"
  | s1 where "s1 = snd (collect pool s)" "result = Inr (rst_next_reservation s)" "0 < n" "n \<le> free_count s1"
      "rst_next_reservation s < u64_max" "rst_next_id s + n + reserved_count s1 \<le> u64_max"
      "s' = s1\<lparr>rst_next_reservation := rst_next_reservation s + 1, rst_slots := take_slots (rst_next_reservation s) n (rst_slots s1)\<rparr>"
proof -
  define s1 where "s1 = snd (collect pool s)"
  obtain pool1 where c: "collect pool s = (pool1, s1)" by (metis s1_def prod.collapse)
  have sel: "rst_next_reservation s1 = rst_next_reservation s" "rst_next_id s1 = rst_next_id s" "length (rst_slots s1) = length (rst_slots s)"
    by (simp_all add: s1_def)
  have "size_sub (size_sub u64_max n) (reserved_count s1) = u64_max - n - reserved_count s1" if "n \<le> free_count s1"
  proof -
    have "n + reserved_count s1 \<le> u64_max"
      using that free_reserved_le [of s1] inv sel by (simp add: revision_inv_def)
    then show ?thesis by (simp add: size_sub_def)
  qed
  note room = this
  define s2 where "s2 = s1\<lparr>rst_next_reservation := rst_next_reservation s + 1, rst_slots := take_slots (rst_next_reservation s) n (rst_slots s1)\<rparr>"
  have step: "(pool', s', result) =
     (if n = 0 \<or> n > length (rst_slots s) then (pool, s, Inl (err Invalid_argument))
      else if free_count s1 < n then (pool1, s1, Inl (err Capacity_exhausted))
      else if rst_next_reservation s = u64_max \<or> rst_next_id s > size_sub (size_sub u64_max n) (reserved_count s1)
      then (pool1, s1, Inl (err Overflow)) else (pool1, s2, Inr (rst_next_reservation s)))"
    unfolding res [symmetric] reserve_impl_def c s2_def Let_def prod.case sel ..
  show thesis
  proof (cases "n = 0 \<or> n > length (rst_slots s)")
    case True
    with step that(1) show ?thesis by simp
  next
    case valid: False
    show ?thesis
    proof (cases "free_count s1 < n \<or> rst_next_reservation s = u64_max \<or> rst_next_id s > size_sub (size_sub u64_max n) (reserved_count s1)")
      case True
      with step valid that(2) show ?thesis by (cases "free_count s1 < n") (auto simp: s1_def)
    next
      case False
      then have le: "rst_next_id s \<le> u64_max - n - reserved_count s1" "n \<le> free_count s1" using room by simp_all
      moreover have "0 < rst_next_id s" "rst_next_reservation s \<le> u64_max" using inv by (simp_all add: revision_inv_def)
      ultimately have "rst_next_reservation s < u64_max" "rst_next_id s + n + reserved_count s1 \<le> u64_max"
        using False by linarith+
      moreover have "s' = s2" "result = Inr (rst_next_reservation s)" using step valid False by simp_all
      ultimately show ?thesis using that(3) [OF s1_def] le valid s2_def by blast
    qed
  qed
qed

lemma collect_inv: "revision_inv s \<Longrightarrow> revision_inv (snd (collect pool s))"
  by (rule shrinks_revision_inv [OF _ collect_shrinks]) (simp_all add: revision_inv_def)

lemma reserve_take_inv:
  assumes inv: "revision_inv s" and n: "n \<le> free_count s" "rst_next_reservation s < u64_max"
    "rst_next_id s + n + reserved_count s \<le> u64_max"
  shows "revision_inv (s\<lparr>rst_next_reservation := rst_next_reservation s + 1, rst_slots := take_slots (rst_next_reservation s) n (rst_slots s)\<rparr>)"
    (is "revision_inv ?s")
proof -
  let ?t = "rst_next_reservation s" and ?rs = "rst_slots s"
  have len: "length (take_slots ?t n ?rs) = length ?rs" using take_slots_nth by blast
  have slot: "take_slots ?t n ?rs ! i = ?rs ! i \<or> (\<not> rv_occupied (?rs ! i) \<and> take_slots ?t n ?rs ! i = taken ?t (?rs ! i))"
    if "i < length ?rs" for i using take_slots_nth that by blast
  have ok: "revision_ok (rst_next_id s) ?t (?rs ! i)" if "i < length ?rs" for i using inv that by (simp add: revision_inv_def)
  have com: "rv_committed (?rs ! i) \<and> take_slots ?t n ?rs ! i = ?rs ! i" if "i < length ?rs" "rv_committed (take_slots ?t n ?rs ! i)" for i
    using slot [OF that(1)] that(2) by (auto simp: taken_def)
  have res: "reserved_count ?s = reserved_count s + n"
    using take_slots_count [of n ?rs ?t] n(1) unfolding reserved_count_def free_count_def reserved_slot_def by simp
  have ok2: "revision_ok (rst_next_id s) (?t + 1) (take_slots ?t n ?rs ! i)" if "i < length ?rs" for i
    using slot [OF that] ok [OF that] by (auto simp: revision_ok_def reserved_slot_def taken_def)
  have ids: "unique_ids (take_slots ?t n ?rs)"
    unfolding unique_ids_def len
  proof (intro allI impI)
    fix i j assume a: "i < length ?rs" "j < length ?rs" "rv_committed (take_slots ?t n ?rs ! i)" "rv_committed (take_slots ?t n ?rs ! j)"
      "rv_id (take_slots ?t n ?rs ! i) = rv_id (take_slots ?t n ?rs ! j)"
    then have "rv_committed (?rs ! i)" "rv_committed (?rs ! j)" "rv_id (?rs ! i) = rv_id (?rs ! j)"
      using com [OF a(1,3)] com [OF a(2,4)] by simp_all
    then show "i = j" using inv a(1,2) unfolding revision_inv_def unique_ids_def by blast
  qed
  have cur: "current_ok ?s"
  proof (cases "rst_current s")
    case (Some i)
    then have i: "i < length ?rs" "rv_committed (?rs ! i)" using inv by (simp_all add: revision_inv_def current_ok_def)
    then have eq: "take_slots ?t n ?rs ! i = ?rs ! i" using slot [OF i(1)] ok [OF i(1)] by (auto simp: revision_ok_def)
    have "rv_id (take_slots ?t n ?rs ! j) \<le> rv_id (?rs ! i)" if "j < length ?rs" "rv_committed (take_slots ?t n ?rs ! j)" for j
      using com [OF that] inv that(1) Some by (simp add: revision_inv_def current_ok_def)
    then show ?thesis using Some inv by (simp add: current_ok_def revision_inv_def len eq)
  qed (simp add: current_ok_def)
  show ?thesis
    unfolding revision_inv_def using res ok2 ids cur inv n by (simp add: len revision_inv_def)
qed

lemma reserve_inv:
  assumes "revision_inv s" "reserve_impl pool s n = (pool', s', result)"
  shows "revision_inv s'"
  using assms
proof (cases rule: reserve_impl_cases)
  case (3 s1)
  then show ?thesis using reserve_take_inv [of s1 n] collect_inv [OF assms(1)] by simp
qed (simp_all add: collect_inv assms(1))

lemma promised_collect: "promised t (snd (collect pool s)) = promised t s"
  by (simp add: promised_def collect_reserved)

lemma reserve_promises:
  assumes inv: "revision_inv s" and res: "reserve_impl pool s n = (pool', s', result)"
  shows "result = Inr t \<Longrightarrow> promised t s' = n \<and> t < rst_next_reservation s'"
    "t < rst_next_reservation s \<Longrightarrow> promised t s' = promised t s"
proof -
  show "promised t s' = promised t s" if "t < rst_next_reservation s"
    using inv res
  proof (cases rule: reserve_impl_cases)
    case (3 s1)
    then show ?thesis
      using take_slots_other [of t "rst_next_reservation s" n "rst_slots s1"] that promised_collect [of t pool s]
      by (simp add: promised_def flip: length_filter_slots)
  qed (simp_all add: promised_collect)
  show "promised t s' = n \<and> t < rst_next_reservation s'" if "result = Inr t"
    using inv res
  proof (cases rule: reserve_impl_cases)
    case (3 s1)
    then have t: "t = rst_next_reservation s" using that by simp
    have "slots_with (reserved_for t) s = {}"
      using inv by (auto simp: slots_with_def reserved_for_def revision_inv_def revision_ok_def reserved_slot_def t)
    then have "length (filter (reserved_for t) (rst_slots s1)) = 0"
      using promised_collect [of t pool s] 3(1) unfolding promised_def length_filter_slots by simp
    then show ?thesis
      using take_slots_count [of n "rst_slots s1" t] 3 t
      by (simp add: promised_def free_count_def flip: length_filter_slots)
  qed (use that in simp_all)
qed

section \<open>Recording\<close>

lemma find_reserved_Some:
  "find_reserved token rs k = Some j \<Longrightarrow> \<exists>i < length rs. j = k + i \<and> reserved_for token (rs ! i)"
proof (induction rs arbitrary: k)
  case (Cons r rs)
  show ?case
  proof (cases "reserved_for token r")
    case True
    with Cons.prems show ?thesis by (intro exI [of _ 0]) simp
  next
    case False
    then obtain i where "i < length rs" "j = k + 1 + i" "reserved_for token (rs ! i)" using Cons by fastforce
    then show ?thesis by (intro exI [of _ "Suc i"]) simp
  qed
qed simp

lemma find_reserved_None: "find_reserved token rs k = None \<longleftrightarrow> (\<forall>r \<in> set rs. \<not> reserved_for token r)"
  by (induction rs arbitrary: k) auto

lemma promised_pos: "0 < promised token s \<longleftrightarrow> find_reserved token (rst_slots s) 0 \<noteq> None"
  by (auto simp: promised_def card_gt_0_iff slots_with_def find_reserved_None in_set_conv_nth
      intro: bexI [OF _ nth_mem])

text \<open>The slot a recorded event goes to, and the store afterwards.\<close>

definition committed_at :: "nat \<Rightarrow> effective_event \<Rightarrow> admission_bundle \<Rightarrow> revision_store \<Rightarrow> revision_store" where
  "committed_at i event credits s =
     (update_revision i (\<lambda>r. r\<lparr>rv_event := event, rv_credits := credits, rv_id := rst_next_id s, rv_committed := True,
        rv_publication := Publication_pending\<rparr>) s)
     \<lparr>rst_next_id := wrap64 (rst_next_id s + 1), rst_current := Some i,
      rst_faulted := (rst_faulted s \<or> \<not> required_known (ee_state event))\<rparr>"

lemma record_thunk_eq:
  "snd (record_thunk pool s event token credits) =
     (if ee_association_generation event \<noteq> rst_generation s then s
      else case find_reserved token (rst_slots s) 0 of None \<Rightarrow> s\<lparr>rst_faulted := True\<rparr>
      | Some i \<Rightarrow> committed_at i event credits s)"
  by (simp add: record_thunk_def committed_at_def split: option.split)

lemma committed_at_nth:
  "j < length (rst_slots s) \<Longrightarrow> rst_slots (committed_at i event credits s) ! j =
     (if i = j then (rst_slots s ! j)\<lparr>rv_event := event, rv_credits := credits, rv_id := rst_next_id s, rv_committed := True,
        rv_publication := Publication_pending\<rparr> else rst_slots s ! j)"
  by (simp add: committed_at_def update_revision_nth)

lemma committed_at_sel [simp]:
  "length (rst_slots (committed_at i event credits s)) = length (rst_slots s)"
  "rst_next_id (committed_at i event credits s) = wrap64 (rst_next_id s + 1)"
  "rst_next_reservation (committed_at i event credits s) = rst_next_reservation s"
  "rst_current (committed_at i event credits s) = Some i" "rst_generation (committed_at i event credits s) = rst_generation s"
  "rst_faulted (committed_at i event credits s) = (rst_faulted s \<or> \<not> required_known (ee_state event))"
  by (simp_all add: committed_at_def)

lemma committed_at_slots_with:
  assumes "i < length (rst_slots s)" "reserved_for token (rst_slots s ! i)"
  shows "slots_with reserved_slot (committed_at i event credits s) = slots_with reserved_slot s - {i}"
    "slots_with (reserved_for t) (committed_at i event credits s) = slots_with (reserved_for t) s - {i}"
    "i \<in> slots_with (reserved_for token) s" "i \<in> slots_with reserved_slot s" "t \<noteq> token \<Longrightarrow> i \<notin> slots_with (reserved_for t) s"
  using assms by (auto simp: slots_with_def committed_at_nth reserved_slot_def reserved_for_def split: if_split_asm)

lemma committed_at_inv:
  assumes inv: "revision_inv s" and i: "i < length (rst_slots s)" "reserved_for token (rst_slots s ! i)"
    and gen: "ee_association_generation event = rst_generation s"
  shows "revision_inv (committed_at i event credits s)" (is "revision_inv ?s")
proof -
  note sets = committed_at_slots_with [OF i]
  have card: "reserved_count ?s = reserved_count s - 1" "0 < reserved_count s"
    using sets(1,4) by (auto simp: reserved_count_card card_gt_0_iff)
  have ok: "revision_ok (rst_next_id s) (rst_next_reservation s) (rst_slots s ! j)" if "j < length (rst_slots s)" for j
    using inv that by (simp add: revision_inv_def)
  have bounds: "0 < rst_next_id s" "rst_next_id s + reserved_count s \<le> u64_max" "rst_next_reservation s \<le> u64_max"
    "length (rst_slots s) \<le> u64_max" and uid: "unique_ids (rst_slots s)" using inv by (simp_all add: revision_inv_def)
  have next_id: "wrap64 (rst_next_id s + 1) = rst_next_id s + 1" using bounds(2) card(2) by (simp add: wrap64_def u64_max_def)
  have ids: "rv_committed (rst_slots s ! j) \<Longrightarrow> rv_id (rst_slots s ! j) < rst_next_id s" if "j < length (rst_slots s)" for j
    using ok [OF that] by (simp add: revision_ok_def)
  have "revision_ok (rst_next_id s + 1) (rst_next_reservation s) (rst_slots ?s ! j)" if "j < length (rst_slots s)" for j
    using ok [OF that] ok [OF i(1)] i(2) bounds(1) that
    by (auto simp: committed_at_nth revision_ok_def reserved_slot_def reserved_for_def)
  moreover have "unique_ids (rst_slots ?s)"
    unfolding unique_ids_def
  proof (intro allI impI)
    fix j k assume a: "j < length (rst_slots ?s)" "k < length (rst_slots ?s)" "rv_committed (rst_slots ?s ! j)" "rv_committed (rst_slots ?s ! k)"
      "rv_id (rst_slots ?s ! j) = rv_id (rst_slots ?s ! k)"
    show "j = k"
    proof (cases "j = i \<or> k = i")
      case True
      then show ?thesis using a ids [of j] ids [of k] by (auto simp: committed_at_nth split: if_split_asm)
    next
      case False
      then show ?thesis using a uid by (simp add: committed_at_nth unique_ids_def)
    qed
  qed
  moreover have "current_ok ?s"
    using i gen ok [OF i(1)] ids
    by (auto simp: current_ok_def committed_at_nth revision_ok_def reserved_slot_def reserved_for_def less_imp_le)
  ultimately show ?thesis
    using bounds card unfolding revision_inv_def by (simp add: next_id [simplified])
qed

lemma record_inv:
  assumes "revision_inv s"
  shows "revision_inv (snd (record_thunk pool s event token credits))"
proof -
  have "in_place s (s\<lparr>rst_faulted := True\<rparr>)" by (simp add: in_place_def same_place_def)
  then have "revision_inv (s\<lparr>rst_faulted := True\<rparr>)"
    using assms shrinks_revision_inv in_place_shrinks by (meson revision_inv_def)
  then show ?thesis
    using assms committed_at_inv find_reserved_Some [of token "rst_slots s" 0]
    by (auto simp: record_thunk_eq split: option.split)
qed

section \<open>Runs of the store\<close>

datatype revision_op =
    Reserve_op nat
  | Unused_op nat
  | Record_op effective_event nat admission_bundle
  | Initial_op effective_event admission_bundle
  | Current_op
  | Next_op
  | Group_op
  | Copy_op revision_handle
  | Release_op revision_handle
  | Note_op revision_handle
  | Accept_op revision_handle
  | Mark_op revision_handle publication
  | Fault_op
  | Detach_op nat
  | Collect_op

primrec revision_step :: "revision_op \<Rightarrow> admission_state \<times> revision_store \<Rightarrow> admission_state \<times> revision_store" where
  "revision_step (Reserve_op n) p = (let (pool, s, _) = reserve_impl (fst p) (snd p) n in (pool, s))"
| "revision_step (Unused_op token) p = (fst p, unused (snd p) token)"
| "revision_step (Record_op event token credits) p = record_thunk (fst p) (snd p) event token credits"
| "revision_step (Initial_op event credits) p = (let (pool, s, _) = initial (fst p) (snd p) event credits in (pool, s))"
| "revision_step Current_op p = (fst p, fst (current_handle (snd p)))"
| "revision_step Next_op p = (fst p, fst (next_publication (snd p)))"
| "revision_step Group_op p = (fst p, fst (publication_group (snd p)))"
| "revision_step (Copy_op h) p = (fst p, fst (copy_handle (snd p) h))"
| "revision_step (Release_op h) p = (fst p, release_handle (snd p) h)"
| "revision_step (Note_op h) p = (fst p, fst (note_data_dependency (snd p) h))"
| "revision_step (Accept_op h) p = (fst p, fst (accept_group (snd p) h))"
| "revision_step (Mark_op h status) p = (fst p, fst (mark_publication (snd p) h status))"
| "revision_step Fault_op p = (fst p, fault_store (snd p))"
| "revision_step (Detach_op g) p = (let (pool, s, _) = detach_store (fst p) (snd p) g in (pool, s))"
| "revision_step Collect_op p = collect (fst p) (snd p)"

definition run_revisions :: "revision_op list \<Rightarrow> admission_state \<times> revision_store \<Rightarrow> admission_state \<times> revision_store" where
  "run_revisions ops p = fold revision_step ops p"

lemma in_place_inv: "in_place s s' \<Longrightarrow> revision_inv s \<Longrightarrow> revision_inv s'"
  using shrinks_revision_inv in_place_shrinks revision_inv_def by blast

lemma unused_inv: "revision_inv s \<Longrightarrow> revision_inv (unused s token)"
  by (rule shrinks_revision_inv [OF _ unused_shrinks]) (simp_all add: revision_inv_def)

lemma initial_cases:
  obtains "fst (snd (initial pool s event credits)) = s"
  | n pool1 s1 e where "reserve_impl pool s n = (pool1, s1, Inl e)" "fst (snd (initial pool s event credits)) = s1"
  | n pool1 s1 token where "reserve_impl pool s n = (pool1, s1, Inr token)"
      "fst (snd (initial pool s event credits)) = unused (fst (current_handle (snd (record_thunk pool1 s1 event token credits)))) token"
proof -
  obtain pool1 s1 r where res: "reserve_impl pool s 1 = (pool1, s1, r)" by (metis prod.exhaust)
  let ?x = "and_then (validate_snapshot (ee_state event))
    (\<lambda>_. initial_fields_ok (ee_state event) [0..<active_state_fields (ss_profile (ee_state event))])"
  let ?refused = "rst_current s \<noteq> None \<or> ee_association_generation event \<noteq> rst_generation s \<or> \<not> required_known (ee_state event)"
  have eq: "fst (snd (initial pool s event credits)) = (case ?x of Inl _ \<Rightarrow> s | Inr _ \<Rightarrow> if ?refused then s
      else case r of Inl _ \<Rightarrow> s1
        | Inr token \<Rightarrow> unused (fst (current_handle (snd (record_thunk pool1 s1 event token credits)))) token)"
    unfolding initial_def Let_def res by (simp add: case_prod_beta split: sum.split)
  show thesis
  proof (cases "isl ?x \<or> ?refused")
    case True
    then show ?thesis using that(1) eq by (cases ?x) simp_all
  next
    case False
    then have "fst (snd (initial pool s event credits)) = (case r of Inl _ \<Rightarrow> s1
        | Inr token \<Rightarrow> unused (fst (current_handle (snd (record_thunk pool1 s1 event token credits)))) token)"
      using eq by (cases ?x) simp_all
    then show ?thesis using res that(2,3) by (cases r) simp_all
  qed
qed

lemma initial_inv:
  assumes "revision_inv s"
  shows "revision_inv (fst (snd (initial pool s event credits)))"
  by (rule initial_cases [of pool s event credits])
    (use assms in \<open>auto intro: unused_inv in_place_inv [OF in_place_steps(8)] record_inv dest: reserve_inv\<close>)

lemma revision_step_inv:
  assumes "revision_inv (snd p)"
  shows "revision_inv (snd (revision_step op p))"
proof (cases op)
  case (Reserve_op n)
  obtain pool s r where "reserve_impl (fst p) (snd p) n = (pool, s, r)" by (metis prod.exhaust)
  then show ?thesis using reserve_inv [OF assms] Reserve_op by simp
qed (use assms in \<open>auto simp: case_prod_beta intro: unused_inv record_inv initial_inv detach_inv collect_inv in_place_inv in_place_steps\<close>)

lemma run_revisions_inv: "revision_inv (snd p) \<Longrightarrow> revision_inv (snd (run_revisions ops p))"
  unfolding run_revisions_def by (induction ops arbitrary: p) (simp_all add: revision_step_inv)

lemma new_revisions_inv: "\<not> rv_occupied blank \<Longrightarrow> \<not> rv_committed blank \<Longrightarrow> capacity \<le> u64_max
    \<Longrightarrow> revision_inv (new_revisions address capacity generation blank)"
  by (simp add: revision_inv_def new_revisions_def revision_ok_def reserved_slot_def unique_ids_def current_ok_def
      reserved_count_def u64_max_def)

section \<open>Reservations are honoured\<close>

definition keeps_promise :: "nat \<Rightarrow> revision_op \<Rightarrow> bool" where
  "keeps_promise token op = (case op of Unused_op t \<Rightarrow> t \<noteq> token | Detach_op _ \<Rightarrow> False | _ \<Rightarrow> True)"

definition records_for :: "nat \<Rightarrow> nat \<Rightarrow> revision_op \<Rightarrow> nat" where
  "records_for token generation op = (case op of
     Record_op event t _ \<Rightarrow> of_bool (t = token \<and> ee_association_generation event = generation) | _ \<Rightarrow> 0)"

text \<open>What an operation leaves of a reservation, the counter it came from and the generation.\<close>

definition spends :: "nat \<Rightarrow> nat \<Rightarrow> revision_store \<Rightarrow> revision_store \<Rightarrow> bool" where
  "spends token n s s' \<longleftrightarrow> promised token s' = promised token s - n \<and> rst_next_reservation s \<le> rst_next_reservation s'
     \<and> rst_generation s' = rst_generation s"

lemma spends_trans: "spends t a s s' \<Longrightarrow> spends t b s' s'' \<Longrightarrow> spends t (a + b) s s''"
  by (auto simp: spends_def)

lemma in_place_spends: "in_place s s' \<Longrightarrow> spends t 0 s s'"
proof -
  assume step: "in_place s s'"
  then have "slots_with (reserved_for t) s' = slots_with (reserved_for t) s"
    by (auto simp: slots_with_def in_place_def same_place_def reserved_for_def)
  then show ?thesis using step by (simp add: spends_def promised_def in_place_def)
qed

lemma unused_spends: "token \<noteq> t \<Longrightarrow> spends t 0 s (unused s token)"
proof -
  assume "token \<noteq> t"
  then have "slots_with (reserved_for t) (unused s token) = slots_with (reserved_for t) s"
    by (auto simp: slots_with_def unused_def reserved_for_def split: if_split_asm)
  then show ?thesis by (simp add: spends_def promised_def unused_def)
qed

lemma collect_spends: "spends t 0 s (snd (collect pool s))"
  by (simp add: spends_def promised_collect)

lemma reserve_spends:
  assumes inv: "revision_inv s" and res: "reserve_impl pool s n = (pool', s', result)" and t: "t < rst_next_reservation s"
  shows "spends t 0 s s'"
proof -
  have "rst_next_reservation s \<le> rst_next_reservation s' \<and> rst_generation s' = rst_generation s"
    using inv res by (cases rule: reserve_impl_cases) simp_all
  then show ?thesis using reserve_promises(2) [OF inv res t] by (simp add: spends_def)
qed

lemma record_spends:
  "spends t (records_for t (rst_generation s) (Record_op event token credits)) s (snd (record_thunk pool s event token credits))"
proof (cases "ee_association_generation event = rst_generation s")
  case gen: True
  show ?thesis
  proof (cases "find_reserved token (rst_slots s) 0")
    case None
    moreover have "promised t (s\<lparr>rst_faulted := True\<rparr>) = promised t s" by (simp add: promised_def slots_with_def)
    moreover have "promised token s = 0" using None promised_pos [of token s] by simp
    ultimately show ?thesis using gen by (auto simp: spends_def record_thunk_eq records_for_def)
  next
    case (Some i)
    then have i: "i < length (rst_slots s)" "reserved_for token (rst_slots s ! i)" using find_reserved_Some by force+
    note sets = committed_at_slots_with(2) [OF i, of t event credits] committed_at_slots_with(3) [OF i] committed_at_slots_with(5) [OF i, of t]
    have "promised t (committed_at i event credits s) = promised t s - of_bool (token = t)"
      unfolding promised_def sets(1) using sets(2,3) by (cases "t = token") (simp_all add: card_Diff_singleton)
    then show ?thesis using gen Some by (simp add: spends_def record_thunk_eq records_for_def)
  qed
qed (simp add: spends_def record_thunk_eq records_for_def)

lemma initial_spends:
  assumes inv: "revision_inv s" and t: "t < rst_next_reservation s"
  shows "spends t 0 s (fst (snd (initial pool s event credits)))"
proof (rule initial_cases [of pool s event credits])
  fix n pool1 s1 token
  assume res: "reserve_impl pool s n = (pool1, s1, Inr token)"
    and eq: "fst (snd (initial pool s event credits)) = unused (fst (current_handle (snd (record_thunk pool1 s1 event token credits)))) token"
  from inv res have "token = rst_next_reservation s" by (cases rule: reserve_impl_cases) simp_all
  then have ne: "token \<noteq> t" using t by simp
  then have "spends t 0 s1 (snd (record_thunk pool1 s1 event token credits))"
    using record_spends [of t s1 event token credits pool1] by (simp add: records_for_def)
  from spends_trans [OF spends_trans [OF spends_trans [OF reserve_spends [OF inv res t] this] in_place_spends [OF in_place_steps(8)]] unused_spends [OF ne]]
  show ?thesis unfolding eq by simp
qed (use inv t in \<open>auto simp: reserve_spends intro: in_place_spends simp: in_place_def same_place_def\<close>)

lemma revision_step_spends:
  assumes inv: "revision_inv (snd p)" and t: "t < rst_next_reservation (snd p)" and op: "keeps_promise t op"
  shows "spends t (records_for t (rst_generation (snd p)) op) (snd p) (snd (revision_step op p))"
proof (cases op)
  case (Reserve_op n)
  obtain pool s r where "reserve_impl (fst p) (snd p) n = (pool, s, r)" by (metis prod.exhaust)
  then show ?thesis using reserve_spends [OF inv _ t] Reserve_op by (simp add: records_for_def)
next
  case (Record_op event token credits)
  then show ?thesis using record_spends [of t "snd p" event token credits] by simp
next
  case (Initial_op event credits)
  then show ?thesis using initial_spends [OF inv t] by (simp add: records_for_def case_prod_beta)
qed (use op in \<open>auto simp: records_for_def keeps_promise_def unused_spends collect_spends intro: in_place_spends in_place_steps\<close>)

lemma run_revisions_spends:
  assumes "revision_inv (snd p)" "t < rst_next_reservation (snd p)" "list_all (keeps_promise t) ops"
  shows "spends t (sum_list (map (records_for t (rst_generation (snd p))) ops)) (snd p) (snd (run_revisions ops p))"
  using assms
proof (induction ops arbitrary: p)
  case (Cons op ops)
  let ?p = "revision_step op p"
  have step: "spends t (records_for t (rst_generation (snd p)) op) (snd p) (snd ?p)"
    using Cons.prems by (intro revision_step_spends) simp_all
  then have "t < rst_next_reservation (snd ?p)" "rst_generation (snd ?p) = rst_generation (snd p)"
    using Cons.prems(2) by (simp_all add: spends_def)
  then have "spends t (sum_list (map (records_for t (rst_generation (snd p))) ops)) (snd ?p) (snd (run_revisions ops ?p))"
    using Cons.IH [of ?p] Cons.prems revision_step_inv by simp
  then show ?case using spends_trans [OF step] by (simp add: run_revisions_def)
qed (simp add: spends_def run_revisions_def)

text \<open>The store as other components may have left it.\<close>

definition reachable_store :: "revision_store \<Rightarrow> bool" where
  "reachable_store s \<longleftrightarrow> (\<exists>pool address capacity generation blank ops. \<not> rv_occupied blank \<and> \<not> rv_committed blank
     \<and> capacity \<le> u64_max \<and> s = snd (run_revisions ops (pool, new_revisions address capacity generation blank)))"

lemma reachable_store_inv: "reachable_store s \<Longrightarrow> revision_inv s"
  unfolding reachable_store_def using run_revisions_inv new_revisions_inv by fastforce

text \<open>C28: A reservation for \<open>n\<close> revisions is honoured. Whatever happens to the store afterwards, as long as the
  reservation is not given back and the store is not detached, \<open>n\<close> events of the current generation can
  be recorded under it: each becomes the current revision under a fresh number larger than any other,
  and no recording reports a missing slot.\<close>

theorem reservation_is_honoured:
  assumes "reachable_store s" and res: "reserve_impl pool s n = (pool', s', Inr token)"
    and ops: "list_all (keeps_promise token) ops" "sum_list (map (records_for token (rst_generation s)) ops) < n"
    and event: "ee_association_generation event = rst_generation s"
  shows "\<exists>i. let s2 = snd (run_revisions ops (pool', s')); s3 = snd (record_thunk pool2 s2 event token credits) in
    rst_current s3 = Some i \<and> i < length (rst_slots s3) \<and> rv_event (rst_slots s3 ! i) = event
    \<and> rv_id (rst_slots s3 ! i) = rst_next_id s2
    \<and> (\<forall>j < length (rst_slots s3). j \<noteq> i \<and> rv_committed (rst_slots s3 ! j) \<longrightarrow> rv_id (rst_slots s3 ! j) < rv_id (rst_slots s3 ! i))
    \<and> rst_faulted s3 = (rst_faulted s2 \<or> \<not> required_known (ee_state event))"
proof -
  have inv: "revision_inv s" using assms(1) by (rule reachable_store_inv)
  let ?s2 = "snd (run_revisions ops (pool', s'))"
  have s': "promised token s' = n" "token < rst_next_reservation s'" "revision_inv s'"
    using reserve_promises(1) [OF inv res] reserve_inv [OF inv res] by simp_all
  have gen: "rst_generation s' = rst_generation s"
    using inv res by (cases rule: reserve_impl_cases) simp_all
  have "spends token (sum_list (map (records_for token (rst_generation s)) ops)) s' ?s2"
    using run_revisions_spends [of "(pool', s')" token ops] s' ops(1) gen by simp
  then have s2: "0 < promised token ?s2" "rst_generation ?s2 = rst_generation s" using ops(2) s'(1) gen by (simp_all add: spends_def)
  have inv2: "revision_inv ?s2" using run_revisions_inv [of "(pool', s')"] s'(3) by simp
  obtain i where i: "find_reserved token (rst_slots ?s2) 0 = Some i" using s2(1) unfolding promised_pos by blast
  then have len: "i < length (rst_slots ?s2)" using find_reserved_Some by force
  have "rv_id (rst_slots ?s2 ! j) < rst_next_id ?s2" if "j < length (rst_slots ?s2)" "rv_committed (rst_slots ?s2 ! j)" for j
    using inv2 that by (simp add: revision_inv_def revision_ok_def)
  then show ?thesis
    using i len s2(2) event by (intro exI [of _ i]) (simp add: record_thunk_eq committed_at_nth)
qed

section \<open>Publication order\<close>

lemma next_pending_upto:
  "n \<le> length rs \<Longrightarrow> case fold (consider_next rs) [0..<n] None of
     None \<Rightarrow> \<forall>j < n. \<not> pending (rs ! j)
   | Some i \<Rightarrow> i < n \<and> pending (rs ! i) \<and> (\<forall>j < n. pending (rs ! j) \<longrightarrow> \<not> sooner (rs ! j) (rs ! i))"
proof (induction n)
  case (Suc n)
  have irrefl: "\<not> sooner r r" for r by (simp add: sooner_def)
  have step: "consider_next rs n None = (if pending (rs ! n) then Some n else None)"
    "consider_next rs n (Some i) = (if pending (rs ! n) \<and> sooner (rs ! n) (rs ! i) then Some n else Some i)" for i
    by (simp_all add: consider_next_def)
  have trans: "\<not> sooner c a" if "sooner a b" "\<not> sooner c b" for a b c :: revision
    using that by (auto simp: sooner_def split: if_split_asm)
  show ?case
  proof (cases "fold (consider_next rs) [0..<n] None")
    case None
    then show ?thesis using Suc irrefl by (auto simp: step less_Suc_eq)
  next
    case (Some i)
    then have i: "i < n" "pending (rs ! i)" "\<And>j. j < n \<Longrightarrow> pending (rs ! j) \<Longrightarrow> \<not> sooner (rs ! j) (rs ! i)" using Suc by simp_all
    show ?thesis
    proof (cases "pending (rs ! n) \<and> sooner (rs ! n) (rs ! i)")
      case True
      then have "\<not> sooner (rs ! j) (rs ! n)" if "j < Suc n" "pending (rs ! j)" for j
        using that i(3) [of j] trans irrefl by (cases "j = n") auto
      then show ?thesis using True Some by (simp add: step)
    next
      case False
      then show ?thesis using Some i by (auto simp: step less_Suc_eq)
    qed
  qed
qed simp

lemma next_pending_Some:
  assumes "next_pending rs = Some i"
  shows "i < length rs" "pending (rs ! i)" "\<And>r. r \<in> set rs \<Longrightarrow> pending r \<Longrightarrow> \<not> sooner r (rs ! i)"
  using next_pending_upto [of "length rs" rs] assms by (auto simp: next_pending_def in_set_conv_nth)

lemma latest_of_Inr:
  assumes "latest_of rs is k = Inr final" "pending (rs ! k)" "k < length rs" "\<forall>i \<in> set is. i < length rs"
    "ee_time_known (rv_event (rs ! k))"
  shows "final < length rs \<and> pending (rs ! final) \<and> same_instant (rs ! final) (rs ! k)
    \<and> ee_sample_ordinal (rv_event (rs ! final)) = ee_sample_ordinal (rv_event (rs ! k))
    \<and> (\<forall>i \<in> set is. pending (rs ! i) \<and> same_instant (rs ! i) (rs ! k)
         \<longrightarrow> ee_sample_ordinal (rv_event (rs ! i)) = ee_sample_ordinal (rv_event (rs ! k)))"
  using assms
proof (induction "is" arbitrary: k)
  case Nil
  then show ?case by (simp add: same_instant_def)
next
  case (Cons i "is")
  show ?case
  proof (cases "pending (rs ! i) \<and> same_instant (rs ! i) (rs ! k)")
    case True
    let ?k = "if rv_id (rs ! i) > rv_id (rs ! k) then i else k"
    have eq: "ee_sample_ordinal (rv_event (rs ! i)) = ee_sample_ordinal (rv_event (rs ! k))" and rest: "latest_of rs is ?k = Inr final"
      using Cons.prems(1) True by (auto split: if_split_asm)
    have "pending (rs ! ?k)" "?k < length rs" "ee_time_known (rv_event (rs ! ?k))"
      using Cons.prems True by (auto simp: same_instant_def)
    from Cons.IH [OF rest this(1,2) _ this(3)] show ?thesis
      using Cons.prems(4) True eq by (auto simp: same_instant_def split: if_split_asm)
  next
    case False
    then have "latest_of rs is k = Inr final" using Cons.prems(1) by (auto split: if_split_asm)
    from Cons.IH [OF this] show ?thesis using Cons.prems False by auto
  qed
qed

lemma group_choice_Inr:
  assumes "group_choice rs = Inr final"
  shows "final < length rs" "pending (rs ! final)"
    "ee_time_known (rv_event (rs ! final)) \<Longrightarrow> r \<in> set rs \<Longrightarrow> pending r \<Longrightarrow> ee_time_known (rv_event r) \<Longrightarrow>
       context_time (rv_event (rs ! final)) < context_time (rv_event r)
       \<or> (same_instant r (rs ! final) \<and> ee_sample_ordinal (rv_event r) = ee_sample_ordinal (rv_event (rs ! final)))"
    "\<not> ee_time_known (rv_event (rs ! final)) \<Longrightarrow> r \<in> set rs \<Longrightarrow> pending r \<Longrightarrow>
       \<not> ee_time_known (rv_event r) \<and> \<not> carries_data r"
    "r \<in> set rs \<Longrightarrow> pending r \<Longrightarrow> same_instant r (rs ! final) \<Longrightarrow> carries_data r \<Longrightarrow> rv_id r \<noteq> rv_id (rs ! final) \<Longrightarrow>
       same_state (ee_state (rv_event r)) (ee_state (rv_event (rs ! final)))"
proof -
  obtain first where first: "next_pending rs = Some first" using assms by (auto simp: group_choice_def split: option.split_asm)
  note next_facts = next_pending_Some [OF first]
  have "final < length rs \<and> pending (rs ! final)
    \<and> (ee_time_known (rv_event (rs ! final)) \<longrightarrow> r \<in> set rs \<longrightarrow> pending r \<longrightarrow> ee_time_known (rv_event r) \<longrightarrow>
       context_time (rv_event (rs ! final)) < context_time (rv_event r)
       \<or> (same_instant r (rs ! final) \<and> ee_sample_ordinal (rv_event r) = ee_sample_ordinal (rv_event (rs ! final))))
    \<and> (\<not> ee_time_known (rv_event (rs ! final)) \<longrightarrow> r \<in> set rs \<longrightarrow> pending r \<longrightarrow> \<not> ee_time_known (rv_event r) \<and> \<not> carries_data r)
    \<and> (r \<in> set rs \<longrightarrow> pending r \<longrightarrow> same_instant r (rs ! final) \<longrightarrow> carries_data r \<longrightarrow> rv_id r \<noteq> rv_id (rs ! final) \<longrightarrow>
       same_state (ee_state (rv_event r)) (ee_state (rv_event (rs ! final))))" for r
  proof (cases "ee_time_known (rv_event (rs ! first))")
    case False
    then have "final = first" and none: "\<not> list_ex (\<lambda>r. pending r \<and> \<not> ee_time_known (rv_event r) \<and> carries_data r) rs"
      using assms first by (auto simp: group_choice_def split: if_split_asm)
    moreover have "\<not> ee_time_known (rv_event r)" if "r \<in> set rs" "pending r"
      using next_facts(3) [OF that] False by (auto simp: sooner_def)
    ultimately show ?thesis using next_facts False by (auto simp: list_ex_iff same_instant_def)
  next
    case True
    then have latest: "latest_of rs [0..<length rs] first = Inr final"
      and agree: "\<not> list_ex (\<lambda>r. pending r \<and> rv_id r \<noteq> rv_id (rs ! final) \<and> same_instant r (rs ! final) \<and> carries_data r
                 \<and> \<not> same_state (ee_state (rv_event r)) (ee_state (rv_event (rs ! final)))) rs"
      using assms first by (auto simp: group_choice_def and_then_eq_Inr split: if_split_asm)
    note final = latest_of_Inr [OF latest next_facts(2,1) _ True]
    have "context_time (rv_event (rs ! first)) < context_time (rv_event r) \<or> same_instant r (rs ! first)"
      if "r \<in> set rs" "pending r" "ee_time_known (rv_event r)"
      using next_facts(3) [OF that(1,2)] that(3) True by (auto simp: sooner_def same_instant_def)
    moreover have "ee_sample_ordinal (rv_event r) = ee_sample_ordinal (rv_event (rs ! first))"
      if r: "r \<in> set rs" "pending r" "same_instant r (rs ! first)"
    proof -
      obtain i where "i < length rs" "r = rs ! i" using r(1) by (auto simp: in_set_conv_nth)
      then show ?thesis using final r(2,3) by simp
    qed
    ultimately show ?thesis
      using final agree by (simp add: same_instant_def list_ex_iff) blast
  qed
  then show "final < length rs" "pending (rs ! final)"
    "ee_time_known (rv_event (rs ! final)) \<Longrightarrow> r \<in> set rs \<Longrightarrow> pending r \<Longrightarrow> ee_time_known (rv_event r) \<Longrightarrow>
       context_time (rv_event (rs ! final)) < context_time (rv_event r)
       \<or> (same_instant r (rs ! final) \<and> ee_sample_ordinal (rv_event r) = ee_sample_ordinal (rv_event (rs ! final)))"
    "\<not> ee_time_known (rv_event (rs ! final)) \<Longrightarrow> r \<in> set rs \<Longrightarrow> pending r \<Longrightarrow>
       \<not> ee_time_known (rv_event r) \<and> \<not> carries_data r"
    "r \<in> set rs \<Longrightarrow> pending r \<Longrightarrow> same_instant r (rs ! final) \<Longrightarrow> carries_data r \<Longrightarrow> rv_id r \<noteq> rv_id (rs ! final) \<Longrightarrow>
       same_state (ee_state (rv_event r)) (ee_state (rv_event (rs ! final)))"
    by blast+
qed

text \<open>C36: Let \<open>accept_group\<close> succeed on a live revision. If its time is known, every revision still waiting to be
  published is strictly later in time (or has no known time); if it has no known time nothing is left
  waiting. No revision that data depends on is passed over: each one accepted with the group describes
  the same state as the published one.\<close>

theorem accepted_group_is_complete:
  assumes s: "reachable_store s" and h: "rh_revision h = Some i" "i < length (rst_slots s)" "rv_committed (rst_slots s ! i)"
    and ok: "accept_group s h = (s', Inr ())"
  defines "published \<equiv> rst_slots s ! i"
  shows "(\<forall>r \<in> set (rst_slots s'). pending r \<longrightarrow> ee_time_known (rv_event published)
      \<and> (ee_time_known (rv_event r) \<longrightarrow> context_time (rv_event published) < context_time (rv_event r)))
    \<and> (\<forall>j < length (rst_slots s). pending (rst_slots s ! j) \<and> rv_publication (rst_slots s' ! j) = Publication_accepted
        \<and> carries_data (rst_slots s ! j)
        \<longrightarrow> same_state (ee_state (rv_event (rst_slots s ! j))) (ee_state (rv_event published)))"
proof -
  let ?rs = "rst_slots s"
  obtain final where final: "group_choice ?rs = Inr final" "rv_id (?rs ! final) = rv_id published"
    and s': "rst_slots s' = map (\<lambda>x. if in_group published x then x\<lparr>rv_publication := Publication_accepted\<rparr> else x) ?rs"
    using ok h(1) by (auto simp: accept_group_def published_def Let_def split: if_split_asm sum.split_asm)
  note group = group_choice_Inr [OF final(1)]
  have uid: "unique_ids ?rs" using reachable_store_inv [OF s] by (simp add: revision_inv_def)
  then have "final = i"
    using group(1,2) h(2,3) final(2) by (auto simp: unique_ids_def pending_def published_def)
  then have pub: "published = ?rs ! final" by (simp add: published_def)
  have "ee_time_known (rv_event published) \<and> (ee_time_known (rv_event r) \<longrightarrow> context_time (rv_event published) < context_time (rv_event r))"
    if "r \<in> set (rst_slots s')" "pending r" for r
  proof -
    have "r \<in> set ?rs" "\<not> in_group published r" using that by (auto simp: s' pending_def split: if_split_asm)
    then show ?thesis using group(3,4) [of r] that(2) by (auto simp: in_group_def pub)
  qed
  moreover have "same_state (ee_state (rv_event (?rs ! j))) (ee_state (rv_event published))"
    if "j < length ?rs" "pending (?rs ! j)" "rv_publication (rst_slots s' ! j) = Publication_accepted" "carries_data (?rs ! j)" for j
  proof (cases "j = final")
    case True
    then show ?thesis by (simp add: pub same_state_def list_all_iff)
  next
    case False
    then have "rv_id (?rs ! j) \<noteq> rv_id (?rs ! final)"
      using uid that(1,2) group(1,2) by (auto simp: unique_ids_def pending_def)
    moreover have "in_group published (?rs ! j)" using that(1-3) by (auto simp: s' pending_def split: if_split_asm)
    ultimately have "same_instant (?rs ! j) (?rs ! final)"
      using group(4) [of "?rs ! j"] that by (auto simp: in_group_def pub)
    then show ?thesis using group(5) [of "?rs ! j"] that \<open>rv_id (?rs ! j) \<noteq> rv_id (?rs ! final)\<close> by (simp add: pub)
  qed
  ultimately show ?thesis by blast
qed

section \<open>A store of two slots\<close>

definition no_event :: effective_event where
  "no_event = \<lparr>ee_state = default_snapshot, ee_actual_time = Protocol_time 0 0, ee_sample_ordinal = 0, ee_source_operation = 0,
     ee_association_generation = 1, ee_changed_mask = 0, ee_time_known = False, ee_ordinal_known = False,
     ee_outcome = \<lparr>fo_id = \<lparr>fid_cif = 0, fid_bit = 0\<rparr>, fo_status = Field_pending, fo_value = SV_uint32 0, fo_validity = Absent,
       fo_actual_time = Protocol_time 0 0, fo_sample_ordinal = 0, fo_uncertainty_ps = 0, fo_time_known = False,
       fo_ordinal_known = False, fo_simulated = False, fo_diagnostics = no_diagnostics\<rparr>, ee_sample_epoch = None\<rparr>"

definition blank_revision :: revision where
  "blank_revision = \<lparr>rv_event = no_event, rv_credits = null_bundle, rv_id = 0, rv_reservation = 0, rv_references = 0,
     rv_publication = Publication_pending, rv_occupied = False, rv_committed = False, rv_detached = False,
     rv_data_dependency = False\<rparr>"

definition sample_revisions :: revision_store where
  "sample_revisions = new_revisions 0 2 1 blank_revision"

definition sample_reserved :: revision_store where
  "sample_reserved = sample_revisions\<lparr>rst_slots := replicate 2 (taken 1 blank_revision), rst_next_reservation := 2\<rparr>"

lemma sample_revisions_reserve: "reserve_impl pool sample_revisions 2 = (pool, sample_reserved, Inr 1)"
proof -
  have slots: "rst_slots sample_revisions = [blank_revision, blank_revision]" "rst_next_id sample_revisions = 1"
    "rst_next_reservation sample_revisions = 1"
    by (simp_all add: sample_revisions_def new_revisions_def numeral_2_eq_2)
  have blank: "\<not> rv_occupied blank_revision" by (simp add: blank_revision_def)
  have "collect pool sample_revisions = (pool, sample_revisions)"
    by (simp add: collect_def collect_slot_def collectable_def slots blank upt_conv_Cons)
  moreover have "free_count sample_revisions = 2" "reserved_count sample_revisions = 0"
    "take_slots 1 2 (rst_slots sample_revisions) = replicate 2 (taken 1 blank_revision)"
    by (simp_all add: free_count_def reserved_count_def slots blank taken_def numeral_2_eq_2)
  moreover have "size_sub (size_sub u64_max 2) 0 = u64_max - 2" "u64_max \<noteq> 1" "1 \<le> u64_max - 2"
    by (simp_all add: size_sub_def u64_max_def)
  ultimately show ?thesis
    unfolding reserve_impl_def sample_reserved_def by (simp add: slots)
qed

lemma sample_reachable: "reachable_store (snd (run_revisions ops (pool, sample_revisions)))"
  unfolding reachable_store_def sample_revisions_def
  by (intro exI [of _ pool] exI [of _ 0] exI [of _ 2] exI [of _ 1] exI [of _ blank_revision] exI [of _ ops])
    (simp add: blank_revision_def u64_max_def)

theorem reservation_is_honoured_witness:
  "\<forall>pool. \<exists>s' i. reserve_impl pool sample_revisions 2 = (pool, s', Inr 1)
     \<and> (let s2 = snd (run_revisions [Record_op no_event 1 null_bundle] (pool, s')); s3 = snd (record_thunk pool s2 no_event 1 null_bundle)
        in rst_current s3 = Some i \<and> rv_event (rst_slots s3 ! i) = no_event \<and> rv_id (rst_slots s3 ! i) = rst_next_id s2)"
proof
  fix pool
  have "reachable_store sample_revisions" using sample_reachable [of "[]"] by (simp add: run_revisions_def)
  moreover have "rst_generation sample_revisions = 1" "ee_association_generation no_event = 1"
    by (simp_all add: sample_revisions_def new_revisions_def no_event_def)
  ultimately show "\<exists>s' i. reserve_impl pool sample_revisions 2 = (pool, s', Inr 1)
     \<and> (let s2 = snd (run_revisions [Record_op no_event 1 null_bundle] (pool, s')); s3 = snd (record_thunk pool s2 no_event 1 null_bundle)
        in rst_current s3 = Some i \<and> rv_event (rst_slots s3 ! i) = no_event \<and> rv_id (rst_slots s3 ! i) = rst_next_id s2)"
    using reservation_is_honoured [OF _ sample_revisions_reserve, of "[Record_op no_event 1 null_bundle]" no_event pool pool null_bundle]
    by (simp add: sample_revisions_reserve keeps_promise_def records_for_def Let_def) blast
qed

definition sample_recorded :: revision_store where
  "sample_recorded = snd (run_revisions [Reserve_op 2, Record_op no_event 1 null_bundle] (make_pool empty_request, sample_revisions))"

lemma sample_recorded_eq: "sample_recorded = committed_at 0 no_event null_bundle sample_reserved"
  using sample_revisions_reserve
  by (simp add: sample_recorded_def run_revisions_def record_thunk_eq)
    (simp add: sample_reserved_def sample_revisions_def new_revisions_def taken_def reserved_for_def no_event_def eval_nat_numeral)

theorem accepted_group_is_complete_witness:
  "\<exists>s'. accept_group sample_recorded \<lparr>rh_owner = Some 0, rh_revision = Some 0\<rparr> = (s', Inr ())
     \<and> list_all (\<lambda>r. \<not> pending r) (rst_slots s')"
proof -
  let ?h = "\<lparr>rh_owner = Some 0, rh_revision = Some 0\<rparr>"
  have slots: "rst_slots sample_recorded = [(taken 1 blank_revision)\<lparr>rv_event := no_event, rv_credits := null_bundle, rv_id := 1,
      rv_committed := True, rv_publication := Publication_pending\<rparr>, taken 1 blank_revision]"
    and address: "rst_address sample_recorded = 0" "rst_generation sample_recorded = 1"
    by (simp_all add: sample_recorded_eq committed_at_def update_revision_def sample_reserved_def sample_revisions_def new_revisions_def
        eval_nat_numeral)
  have gc: "group_choice (rst_slots sample_recorded) = Inr 0"
    by (simp add: group_choice_def next_pending_def consider_next_def slots pending_def taken_def blank_revision_def no_event_def
        carries_data_def value_at_def default_snapshot_def fresh_field_def get_uint32_def test_bit32_def upt_conv_Cons eval_nat_numeral)
  obtain s' where s': "accept_group sample_recorded ?h = (s', Inr ())"
    using gc by (simp add: accept_group_def owns_handle_def address Let_def) (simp add: slots no_event_def)
  have "reachable_store sample_recorded" unfolding sample_recorded_def by (rule sample_reachable)
  moreover have "0 < length (rst_slots sample_recorded)" "rv_committed (rst_slots sample_recorded ! 0)"
    "\<not> ee_time_known (rv_event (rst_slots sample_recorded ! 0))"
    by (simp_all add: slots no_event_def)
  ultimately show ?thesis
    using accepted_group_is_complete [of sample_recorded ?h 0 s'] s' by (auto simp: list_all_iff)
qed

end
