(* ===== verification/Publisher.thy ===== *)
theory Publisher
  imports Wire Rx_Envelope Revisions
begin

text \<open>
  The publisher of context packets (\<^verbatim>\<open>runtime/context/publisher.hpp\<close>): it sends the revisions of the store in
  the order of their times, repeats the current state, and holds data back until the state it belongs to has
  been accepted by the transport. The transport is a pair of callbacks over its own state. The
  model also records the frames the transport accepted and the circumstances of every data packet handed to it. The lemmas
  show that accepted frames never go back in time or contradict each other, and that data follows its context.
\<close>

section \<open>Frames\<close>

definition valid_data_enable :: u32 where
  "valid_data_enable = push_bit 30 1"

definition valid_data_indicator :: u32 where
  "valid_data_indicator = push_bit 18 1"

definition sample_loss_enable :: u32 where
  "sample_loss_enable = push_bit 24 1"

definition sample_loss_indicator :: u32 where
  "sample_loss_indicator = push_bit 12 1"

record context_frame =
  cf_state :: state_snapshot
  cf_time :: protocol_time
  cf_epoch :: tsi
  cf_time_known :: bool
  cf_change :: bool
  cf_refresh :: bool
  cf_valid :: bool
  cf_revision_id :: nat
  cf_association_generation :: nat
  cf_observation :: bool

datatype stream_status = Stream_idle | Stream_active | Stream_context_unavailable | Stream_metadata_unknown
  | Stream_backend_fault | Stream_temporal_association

definition put_field :: "nat \<Rightarrow> field_state \<Rightarrow> state_snapshot \<Rightarrow> state_snapshot" where
  "put_field i f s = s\<lparr>ss_fields := (ss_fields s)[i := f]\<rparr>"

definition known_field :: "field_id \<Rightarrow> semantic_value \<Rightarrow> field_state" where
  "known_field i x = \<lparr>fs_id = i, fs_value = x, fs_validity = Known\<rparr>"

definition indicators_of :: "state_snapshot \<Rightarrow> u32" where
  "indicators_of s = (case get_uint32 (value_at s 2) of Some x \<Rightarrow> if known_at s 2 then x else 0 | None \<Rightarrow> 0)"

definition set_indicators :: "u32 \<Rightarrow> state_snapshot \<Rightarrow> state_snapshot" where
  "set_indicators x s = put_field 2 (known_field StateEvent_id (SV_uint32 x)) s"

definition switch_bit :: "bool \<Rightarrow> u32 \<Rightarrow> u32 \<Rightarrow> u32" where
  "switch_bit on flag x = (if on then x OR flag else x AND NOT flag)"

section \<open>State\<close>

record 'w publisher_binding =
  bi_context_send :: "(context_frame \<Rightarrow> 'w \<Rightarrow> 'w \<times> unit result) option"
  bi_data_send :: "(tx_storage \<Rightarrow> revision_handle \<Rightarrow> memory \<times> 'w \<Rightarrow> (memory \<times> 'w) \<times> tx_storage \<times> unit result) option"

text \<open>\<open>pb_frames\<close> are the frames accepted in this association, \<open>pb_since_start\<close> counts those since the stream was
  started, and \<open>pb_carried\<close> has, for each data packet handed to the transport, the publication of its revision and that count.\<close>

record 'w publisher =
  pb_store :: revision_store
  pb_pool :: admission_state
  pb_memory :: memory
  pb_world :: 'w
  pb_held :: "(tx_storage \<times> revision_handle) option list"
  pb_held_count :: nat
  pb_status :: stream_status
  pb_blocked_since :: "mono_time option"
  pb_refresh_at :: mono_time
  pb_refresh_started :: bool
  pb_invalid_sent :: bool
  pb_start_gate :: bool
  pb_starting_run :: bool
  pb_calibrated :: bool
  pb_context_highwater :: "protocol_time option"
  pb_fault_snapshot :: "state_snapshot option"
  pb_highwater_state :: "state_snapshot option"
  pb_frames :: "context_frame list"
  pb_since_start :: nat
  pb_carried :: "(publication \<times> nat) list"

definition new_publisher :: "nat \<Rightarrow> revision_store \<Rightarrow> admission_state \<Rightarrow> memory \<Rightarrow> 'w \<Rightarrow> 'w publisher" where
  "new_publisher capacity s pool m w = \<lparr>pb_store = s, pb_pool = pool, pb_memory = m, pb_world = w, pb_held = replicate capacity None,
     pb_held_count = 0, pb_status = Stream_idle, pb_blocked_since = None, pb_refresh_at = Mono_time 0, pb_refresh_started = False,
     pb_invalid_sent = False, pb_start_gate = True, pb_starting_run = True, pb_calibrated = False, pb_context_highwater = None,
     pb_fault_snapshot = None, pb_highwater_state = None, pb_frames = [], pb_since_start = 0, pb_carried = []\<rparr>"

primrec release_held :: "(tx_storage \<times> revision_handle) option list \<Rightarrow> memory \<times> revision_store \<Rightarrow> memory \<times> revision_store" where
  "release_held [] x = x"
| "release_held (y # ys) x = release_held ys (case y of None \<Rightarrow> x | Some (t, h) \<Rightarrow> (tx_destroy (fst x) t, release_handle (snd x) h))"

definition stop_publisher :: "stream_status \<Rightarrow> 'w publisher \<Rightarrow> 'w publisher" where
  "stop_publisher status p = (let (m, s) = release_held (pb_held p) (pb_memory p, pb_store p)
     in p\<lparr>pb_status := status, pb_memory := m, pb_store := s, pb_held := replicate (length (pb_held p)) None, pb_held_count := 0\<rparr>)"

definition make_frame :: "'w publisher \<Rightarrow> revision \<Rightarrow> tsi \<Rightarrow> bool \<Rightarrow> protocol_time \<Rightarrow> context_frame" where
  "make_frame p r epoch refresh now =
     (let event = rv_event r; valid = required_known (ee_state event);
          x1 = indicators_of (ee_state event) OR push_bit 31 1 OR valid_data_enable;
          x2 = switch_bit (pb_calibrated p) (push_bit 19 1) x1;
          x3 = switch_bit valid valid_data_indicator x2;
          x4 = (if refresh then x3 AND NOT (sample_loss_enable OR sample_loss_indicator) else x3)
      in \<lparr>cf_state = set_indicators x4 (ee_state event), cf_time = (if refresh then now else context_time event), cf_epoch = epoch,
          cf_time_known = (refresh \<or> ee_time_known event), cf_change = (\<not> refresh), cf_refresh = refresh, cf_valid = valid,
          cf_revision_id = rv_id r, cf_association_generation = ee_association_generation event, cf_observation = False\<rparr>)"

text \<open>A temporary handle raises and lowers the count of its revision again; nothing in between depends on it.\<close>

definition current_revision :: "'w publisher \<Rightarrow> revision option" where
  "current_revision p = map_option (\<lambda>i. rst_slots (pb_store p) ! i) (rst_current (pb_store p))"

section \<open>Calls of the transport\<close>

definition send_frame :: "'w publisher_binding \<Rightarrow> context_frame \<Rightarrow> 'w publisher \<Rightarrow> 'w publisher \<times> unit result" where
  "send_frame b f p =
     (case bi_context_send b of None \<Rightarrow> (p, Inl (err Invalid_state))
      | Some send \<Rightarrow> case send f (pb_world p) of
          (w, Inl x) \<Rightarrow> (p\<lparr>pb_world := w\<rparr>, Inl x)
        | (w, Inr _) \<Rightarrow> (p\<lparr>pb_world := w, pb_frames := pb_frames p @ [f], pb_since_start := pb_since_start p + 1\<rparr>, Inr ()))"

definition send_data :: "'w publisher_binding \<Rightarrow> tx_storage \<Rightarrow> revision_handle \<Rightarrow> 'w publisher \<Rightarrow> 'w publisher \<times> tx_storage \<times> unit result" where
  "send_data b t h p =
     (case bi_data_send b of None \<Rightarrow> (p, t, Inl (err Invalid_state))
      | Some send \<Rightarrow> case send t h (pb_memory p, pb_world p) of
          ((m, w), t', r) \<Rightarrow> (p\<lparr>pb_memory := m, pb_world := w,
            pb_carried := pb_carried p @ [(handle_publication (pb_store p) h, pb_since_start p)]\<rparr>, t', r))"

section \<open>Operations\<close>

definition binding_complete :: "'w publisher_binding \<Rightarrow> bool" where
  "binding_complete b \<longleftrightarrow> bi_context_send b \<noteq> None \<and> bi_data_send b \<noteq> None"

definition start_publisher :: "'w publisher_binding \<Rightarrow> mono_time \<Rightarrow> 'w publisher \<Rightarrow> 'w publisher \<times> unit result" where
  "start_publisher b now p =
     (case current_revision p of None \<Rightarrow> (p, Inl (err Invalid_state))
      | Some r \<Rightarrow>
          if rst_faulted (pb_store p) \<or> \<not> required_known (ee_state (rv_event r)) then (p, Inl (err Invalid_state))
          else if \<not> binding_complete b \<or> pb_status p \<noteq> Stream_idle then (p, Inl (err Invalid_state))
          else (p\<lparr>pb_status := Stream_active, pb_refresh_at := now, pb_refresh_started := False, pb_start_gate := True,
                  pb_starting_run := True, pb_blocked_since := Some now, pb_since_start := 0\<rparr>, Inr ()))"

definition backend_fault :: "state_snapshot \<Rightarrow> 'w publisher \<Rightarrow> 'w publisher" where
  "backend_fault observed p = stop_publisher Stream_backend_fault (p\<lparr>pb_fault_snapshot := Some observed, pb_store := fault_store (pb_store p)\<rparr>)"

definition temporal_fault :: "'w publisher \<Rightarrow> 'w publisher" where
  "temporal_fault p = stop_publisher Stream_temporal_association p"

definition drop_handle :: "revision_handle \<Rightarrow> 'w publisher \<Rightarrow> 'w publisher" where
  "drop_handle h p = p\<lparr>pb_store := release_handle (pb_store p) h\<rparr>"

definition submittable :: "revision_handle \<Rightarrow> 'w publisher \<Rightarrow> bool" where
  "submittable h p \<longleftrightarrow> (case rh_revision h of None \<Rightarrow> False
     | Some i \<Rightarrow> let event = rv_event (rst_slots (pb_store p) ! i) in
         pb_status p = Stream_active \<and> owns_handle (pb_store p) h
         \<and> ee_association_generation event = rst_generation (pb_store p) \<and> \<not> rst_faulted (pb_store p) \<and> required_known (ee_state event))"

definition mark_blocked :: "mono_time \<Rightarrow> 'w publisher \<Rightarrow> 'w publisher" where
  "mark_blocked now p = (if pb_blocked_since p = None then p\<lparr>pb_blocked_since := Some now\<rparr> else p)"

text \<open>Data for a later context waits in a free slot; \<open>null_tx\<close> is the storage moved from.\<close>

definition hold_data :: "tx_storage \<Rightarrow> revision_handle \<Rightarrow> 'w publisher \<Rightarrow> 'w publisher \<times> tx_storage \<times> unit result" where
  "hold_data t h p =
     (if pb_held_count p = length (pb_held p)
      then (drop_handle h (stop_publisher Stream_context_unavailable p), t, Inl (err Capacity_exhausted))
      else case find (\<lambda>i. pb_held p ! i = None) [0..<length (pb_held p)] of
        None \<Rightarrow> (drop_handle h p, t, Inl (err Capacity_exhausted))
      | Some i \<Rightarrow> let (kept, moved) = tx_move t
          in (p\<lparr>pb_held := (pb_held p)[i := Some (kept, h)], pb_held_count := pb_held_count p + 1\<rparr>, moved, Inr ()))"

definition submit :: "'w publisher_binding \<Rightarrow> tx_storage \<Rightarrow> revision_handle \<Rightarrow> mono_time \<Rightarrow> 'w publisher
    \<Rightarrow> 'w publisher \<times> tx_storage \<times> unit result" where
  "submit b t h now p =
     (if \<not> submittable h p then (drop_handle h p, t, Inl (err Invalid_state))
      else case note_data_dependency (pb_store p) h of
        (s, Inl x) \<Rightarrow> (drop_handle h (p\<lparr>pb_store := s\<rparr>), t, Inl x)
      | (s, Inr _) \<Rightarrow>
          let p1 = p\<lparr>pb_store := s\<rparr> in
          if \<not> pb_start_gate p1 \<and> handle_publication s h = Publication_accepted
          then (case send_data b t h p1 of (p2, t', r) \<Rightarrow> (drop_handle h p2, t', r))
          else hold_data t h (mark_blocked now p1))"

section \<open>Progress\<close>

text \<open>After a fault, one frame that says the data is not valid.\<close>

definition invalid_frame :: "'w publisher \<Rightarrow> revision \<Rightarrow> tsi \<Rightarrow> protocol_time \<Rightarrow> context_frame" where
  "invalid_frame p r epoch protocol_now =
     (let f = make_frame p r epoch False (Protocol_time 0 0);
          s = (case pb_fault_snapshot p of Some observed \<Rightarrow> observed | None \<Rightarrow> cf_state f);
          x = (indicators_of s AND NOT (valid_data_indicator OR sample_loss_enable OR sample_loss_indicator OR push_bit 19 1))
            OR valid_data_enable OR push_bit 31 1
      in f\<lparr>cf_state := set_indicators (if pb_calibrated p then x OR push_bit 19 1 else x) s, cf_valid := False, cf_refresh := True,
           cf_time := protocol_now, cf_time_known := True, cf_observation := True\<rparr>)"

definition set_highwater :: "context_frame \<Rightarrow> 'w publisher \<Rightarrow> 'w publisher" where
  "set_highwater f p = p\<lparr>pb_context_highwater := Some (cf_time f), pb_highwater_state := Some (cf_state f)\<rparr>"

definition not_later :: "protocol_time \<Rightarrow> 'w publisher \<Rightarrow> bool" where
  "not_later t p \<longleftrightarrow> (case pb_context_highwater p of None \<Rightarrow> False | Some high \<Rightarrow> t \<le> high)"

definition report_fault :: "'w publisher_binding \<Rightarrow> protocol_time \<Rightarrow> tsi \<Rightarrow> bool \<Rightarrow> 'w publisher \<Rightarrow> 'w publisher \<times> unit result" where
  "report_fault b protocol_now epoch usable p =
     (if pb_invalid_sent p \<or> \<not> usable then (p, Inl (err Invalid_state))
      else if not_later protocol_now p then (p, Inl (err Identity_conflict))
      else case current_revision p of None \<Rightarrow> (p, Inl (err Invalid_state))
      | Some r \<Rightarrow>
          let f = invalid_frame p r epoch protocol_now in
          (case send_frame b f p of
             (p1, Inl _) \<Rightarrow> (p1\<lparr>pb_invalid_sent := False\<rparr>, Inl (err Invalid_state))
           | (p1, Inr _) \<Rightarrow> (set_highwater f (p1\<lparr>pb_invalid_sent := True\<rparr>), Inl (err Invalid_state))))"

text \<open>The frame for a publication group. A state of unknown time can only open a run, as an observation of the current state.\<close>

definition group_frame :: "protocol_time \<Rightarrow> tsi \<Rightarrow> revision \<Rightarrow> 'w publisher \<Rightarrow> 'w publisher \<times> context_frame result" where
  "group_frame protocol_now epoch r p =
     (let f = make_frame p r epoch False (Protocol_time 0 0) in
      if cf_time_known f then (p, Inr f)
      else if \<not> pb_starting_run p then (temporal_fault p, Inl (err Invalid_state))
      else case current_revision p of None \<Rightarrow> (p, Inl (err Invalid_state))
      | Some latest \<Rightarrow> (p, Inr ((make_frame p latest epoch True protocol_now)\<lparr>cf_change := True, cf_observation := True\<rparr>)))"

definition contradicts :: "context_frame \<Rightarrow> 'w publisher \<Rightarrow> bool" where
  "contradicts f p \<longleftrightarrow> cf_time_known f \<and> (case pb_context_highwater p of None \<Rightarrow> False
     | Some high \<Rightarrow> cf_time f \<le> high \<and> (cf_time f < high \<or> (case pb_highwater_state p of None \<Rightarrow> True
         | Some s \<Rightarrow> \<not> same_state (cf_state f) s)))"

definition raise_highwater :: "context_frame \<Rightarrow> 'w publisher \<Rightarrow> 'w publisher" where
  "raise_highwater f p = (if cf_time_known f \<and> \<not> not_later (cf_time f) p then set_highwater f p else p)"

definition open_gate :: "context_frame \<Rightarrow> protocol_time \<Rightarrow> 'w publisher \<Rightarrow> 'w publisher" where
  "open_gate f protocol_now p =
     (if pb_start_gate p \<and> cf_time_known f \<and> cf_time f = protocol_now
         \<and> (case current_revision p of None \<Rightarrow> False | Some r \<Rightarrow> cf_revision_id f = rv_id r)
      then p\<lparr>pb_start_gate := False\<rparr> else p)"

definition publish_group :: "'w publisher_binding \<Rightarrow> mono_time \<Rightarrow> protocol_time \<Rightarrow> tsi \<Rightarrow> nat \<Rightarrow> 'w publisher \<Rightarrow> 'w publisher \<times> unit result" where
  "publish_group b now protocol_now epoch i p =
     (case group_frame protocol_now epoch (rst_slots (pb_store p) ! i) (mark_blocked now p) of
        (p1, Inl x) \<Rightarrow> (p1, Inl x)
      | (p1, Inr f) \<Rightarrow>
          if contradicts f p1 then (temporal_fault p1, Inl (err Identity_conflict))
          else case send_frame b f p1 of (p2, Inl x) \<Rightarrow> (p2, Inl x)
          | (p2, Inr _) \<Rightarrow>
              let p3 = raise_highwater f p2;
                  (s, r) = accept_group (pb_store p3) \<lparr>rh_owner = Some (rst_address (pb_store p3)), rh_revision = Some i\<rparr>;
                  p4 = p3\<lparr>pb_store := s\<rparr>
              in case r of Inl x \<Rightarrow> (p4, Inl x)
              | Inr _ \<Rightarrow> (open_gate f protocol_now (p4\<lparr>pb_refresh_at := now, pb_refresh_started := True\<rparr>), Inr ()))"

primrec publish_groups :: "'w publisher_binding \<Rightarrow> mono_time \<Rightarrow> protocol_time \<Rightarrow> tsi \<Rightarrow> nat \<Rightarrow> 'w publisher \<Rightarrow> 'w publisher \<times> unit result" where
  "publish_groups b now protocol_now epoch 0 p = (p, Inr ())"
| "publish_groups b now protocol_now epoch (Suc n) p =
     (case group_choice (rst_slots (pb_store p)) of
        Inl x \<Rightarrow> if err_code x = Identity_conflict then (temporal_fault p, Inl x) else (p, Inr ())
      | Inr i \<Rightarrow> case publish_group b now protocol_now epoch i p of
          (p1, Inl x) \<Rightarrow> (p1, Inl x) | (p1, Inr _) \<Rightarrow> publish_groups b now protocol_now epoch n p1)"

definition pass_gate :: "'w publisher_binding \<Rightarrow> mono_time \<Rightarrow> protocol_time \<Rightarrow> tsi \<Rightarrow> 'w publisher \<Rightarrow> 'w publisher \<times> unit result" where
  "pass_gate b now protocol_now epoch p =
     (if \<not> pb_start_gate p then (p, Inr ())
      else case current_revision p of None \<Rightarrow> (p, Inl (err Invalid_state))
      | Some r \<Rightarrow>
          if not_later protocol_now p then (temporal_fault p, Inl (err Identity_conflict))
          else let f = (make_frame p r epoch True protocol_now)\<lparr>cf_change := True, cf_observation := True\<rparr> in
            case send_frame b f p of (p1, Inl x) \<Rightarrow> (p1, Inl x)
            | (p1, Inr _) \<Rightarrow> ((set_highwater f p1)\<lparr>pb_start_gate := False, pb_refresh_started := True, pb_refresh_at := now\<rparr>, Inr ()))"

primrec send_held :: "'w publisher_binding \<Rightarrow> nat list \<Rightarrow> 'w publisher \<Rightarrow> 'w publisher \<times> unit result" where
  "send_held b [] p = (p, Inr ())"
| "send_held b (i # is) p =
     (case pb_held p ! i of None \<Rightarrow> send_held b is p
      | Some (t, h) \<Rightarrow>
          if handle_publication (pb_store p) h \<noteq> Publication_accepted then send_held b is p
          else case send_data b t h p of
            (p1, t', Inl x) \<Rightarrow> (p1\<lparr>pb_held := (pb_held p1)[i := Some (t', h)]\<rparr>, Inl x)
          | (p1, t', Inr _) \<Rightarrow>
              let p2 = drop_handle h (p1\<lparr>pb_memory := tx_destroy (pb_memory p1) t'\<rparr>)
              in send_held b is (p2\<lparr>pb_held := (pb_held p2)[i := None], pb_held_count := pb_held_count p2 - 1\<rparr>))"

definition refresh_interval_ns :: nat where
  "refresh_interval_ns = 1000000000"

definition blocked_limit_ns :: nat where
  "blocked_limit_ns = 10000000"

definition refresh_context :: "'w publisher_binding \<Rightarrow> mono_time \<Rightarrow> protocol_time \<Rightarrow> tsi \<Rightarrow> 'w publisher \<Rightarrow> 'w publisher \<times> unit result" where
  "refresh_context b now protocol_now epoch p =
     (if \<not> (pb_refresh_started p \<and> mono_ns (pb_refresh_at p) \<le> mono_ns now \<and> refresh_interval_ns \<le> mono_ns now - mono_ns (pb_refresh_at p))
      then (p, Inr ())
      else if not_later protocol_now p then (temporal_fault p, Inl (err Identity_conflict))
      else case current_revision p of None \<Rightarrow> (p, Inl (err Invalid_state))
      | Some r \<Rightarrow>
          let f = make_frame p r epoch True protocol_now in
          case send_frame b f p of (p1, Inl x) \<Rightarrow> (mark_blocked now p1, Inl x)
          | (p1, Inr _) \<Rightarrow> ((if not_later protocol_now p1 then p1 else set_highwater f p1)\<lparr>pb_refresh_at := now\<rparr>, Inr ()))"

definition settle_round :: "'w publisher \<Rightarrow> 'w publisher" where
  "settle_round p = (let (pool, s) = collect (pb_pool p) (pb_store p)
     in p\<lparr>pb_blocked_since := None, pb_starting_run := False, pb_pool := pool, pb_store := s\<rparr>)"

definition publish_round :: "'w publisher_binding \<Rightarrow> mono_time \<Rightarrow> protocol_time \<Rightarrow> tsi \<Rightarrow> 'w publisher \<Rightarrow> 'w publisher \<times> unit result" where
  "publish_round b now protocol_now epoch p =
     (case publish_groups b now protocol_now epoch (length (rst_slots (pb_store p))) p of (p1, Inl x) \<Rightarrow> (p1, Inl x)
      | (p1, Inr _) \<Rightarrow>
          case pass_gate b now protocol_now epoch p1 of (p2, Inl x) \<Rightarrow> (p2, Inl x)
          | (p2, Inr _) \<Rightarrow>
              case send_held b [0..<length (pb_held p2)] p2 of (p3, Inl x) \<Rightarrow> (p3, Inl x)
              | (p3, Inr _) \<Rightarrow>
                  case refresh_context b now protocol_now epoch p3 of (p4, Inl x) \<Rightarrow> (p4, Inl x)
                  | (p4, Inr _) \<Rightarrow> (settle_round p4, Inr ()))"

definition overdue :: "mono_time \<Rightarrow> 'w publisher \<Rightarrow> bool" where
  "overdue now p \<longleftrightarrow> (case pb_blocked_since p of None \<Rightarrow> False
     | Some t \<Rightarrow> mono_ns t \<le> mono_ns now \<and> blocked_limit_ns \<le> mono_ns now - mono_ns t)"

definition progress_publisher :: "'w publisher_binding \<Rightarrow> mono_time \<Rightarrow> protocol_time \<Rightarrow> tsi \<Rightarrow> bool \<Rightarrow> bool \<Rightarrow> 'w publisher
    \<Rightarrow> 'w publisher \<times> unit result" where
  "progress_publisher b now protocol_now epoch usable calibrated p0 =
     (let p = p0\<lparr>pb_calibrated := calibrated \<and> usable\<rparr> in
      if \<not> valid_time protocol_now \<or> epoch = Tsi_none then (p, Inl (err Invalid_argument))
      else if \<not> binding_complete b then (p, Inl (err Invalid_state))
      else let p1 = (if rst_faulted (pb_store p) \<and> pb_status p = Stream_active then stop_publisher Stream_metadata_unknown p else p) in
        if pb_status p1 = Stream_metadata_unknown \<or> pb_status p1 = Stream_backend_fault then report_fault b protocol_now epoch usable p1
        else if \<not> usable \<or> pb_status p1 \<noteq> Stream_active then (p1, Inl (err Invalid_state))
        else if overdue now p1 then (stop_publisher Stream_context_unavailable p1, Inl (err Capacity_exhausted))
        else publish_round b now protocol_now epoch p1)"

definition tsi_of_epoch :: "epoch \<Rightarrow> tsi" where
  "tsi_of_epoch e = (case e of Epoch_utc \<Rightarrow> Tsi_utc | Epoch_gps \<Rightarrow> Tsi_gps | Epoch_other \<Rightarrow> Tsi_other)"

definition progress_clock :: "'w publisher_binding \<Rightarrow> mono_time \<Rightarrow> clock_snapshot \<Rightarrow> 'w publisher \<Rightarrow> 'w publisher \<times> unit result" where
  "progress_clock b now clock p = progress_publisher b now (cs_time clock) (tsi_of_epoch (cs_epoch clock))
     (cs_state clock = Locked \<or> cs_state clock = Holdover) (cs_calibrated clock \<and> cs_state clock = Locked) p"

definition pause_publisher :: "'w publisher \<Rightarrow> 'w publisher" where
  "pause_publisher p =
     (if (pb_status p = Stream_active \<or> pb_status p = Stream_context_unavailable)
         \<and> (case current_revision p of None \<Rightarrow> False
             | Some r \<Rightarrow> \<not> rst_faulted (pb_store p) \<and> required_known (ee_state (rv_event r)))
      then (stop_publisher Stream_idle p)\<lparr>pb_blocked_since := None\<rparr> else p)"

definition detach_publisher :: "nat \<Rightarrow> 'w publisher \<Rightarrow> 'w publisher \<times> unit result" where
  "detach_publisher generation p =
     (case detach_store (pb_pool p) (pb_store p) generation of
        (pool, s, Inl x) \<Rightarrow> (p\<lparr>pb_pool := pool, pb_store := s\<rparr>, Inl x)
      | (pool, s, Inr _) \<Rightarrow> ((stop_publisher Stream_idle (p\<lparr>pb_pool := pool, pb_store := s\<rparr>))\<lparr>pb_blocked_since := None,
          pb_refresh_started := False, pb_invalid_sent := False, pb_context_highwater := None, pb_fault_snapshot := None,
          pb_highwater_state := None, pb_frames := []\<rparr>, Inr ()))"

section \<open>Frames stay in order\<close>

definition follows :: "context_frame \<Rightarrow> context_frame \<Rightarrow> bool" where
  "follows a b \<longleftrightarrow> cf_time a < cf_time b \<or> (cf_time a = cf_time b \<and> same_state (cf_state a) (cf_state b))"

text \<open>The part of the state that the properties are about.\<close>

record publisher_view =
  pw_frames :: "context_frame list"
  pw_high :: "protocol_time option"
  pw_high_state :: "state_snapshot option"
  pw_gate :: bool
  pw_since :: nat
  pw_carried :: "(publication \<times> nat) list"

definition view_of :: "'w publisher \<Rightarrow> publisher_view" where
  "view_of p = \<lparr>pw_frames = pb_frames p, pw_high = pb_context_highwater p, pw_high_state = pb_highwater_state p, pw_gate = pb_start_gate p,
     pw_since = pb_since_start p, pw_carried = pb_carried p\<rparr>"

definition below_high :: "publisher_view \<Rightarrow> bool" where
  "below_high v \<longleftrightarrow> (case pw_high v of None \<Rightarrow> pw_frames v = []
     | Some t \<Rightarrow> (case pw_high_state v of None \<Rightarrow> False
         | Some s \<Rightarrow> list_all (\<lambda>f. cf_time f < t \<or> (cf_time f = t \<and> same_state (cf_state f) s)) (pw_frames v)))"

definition publisher_inv :: "publisher_view \<Rightarrow> bool" where
  "publisher_inv v \<longleftrightarrow> sorted_wrt follows (pw_frames v) \<and> below_high v \<and> (pw_gate v \<or> 0 < pw_since v)
     \<and> list_all (\<lambda>(status, n). status = Publication_accepted \<and> 0 < n) (pw_carried v)"

lemma same_state_equiv: "same_state a a" "same_state a b \<Longrightarrow> same_state b a" "same_state a b \<Longrightarrow> same_state b c \<Longrightarrow> same_state a c"
  by (auto simp: same_state_def list_all_iff Let_def)

lemma view_unchanged [simp]:
  "view_of (p\<lparr>pb_store := s\<rparr>) = view_of p" "view_of (p\<lparr>pb_pool := pool\<rparr>) = view_of p" "view_of (p\<lparr>pb_memory := m\<rparr>) = view_of p"
  "view_of (p\<lparr>pb_world := w\<rparr>) = view_of p" "view_of (p\<lparr>pb_held := hs\<rparr>) = view_of p" "view_of (p\<lparr>pb_held_count := n\<rparr>) = view_of p"
  "view_of (p\<lparr>pb_status := st\<rparr>) = view_of p" "view_of (p\<lparr>pb_blocked_since := t\<rparr>) = view_of p" "view_of (p\<lparr>pb_refresh_at := r\<rparr>) = view_of p"
  "view_of (p\<lparr>pb_refresh_started := x\<rparr>) = view_of p" "view_of (p\<lparr>pb_invalid_sent := x\<rparr>) = view_of p"
  "view_of (p\<lparr>pb_starting_run := x\<rparr>) = view_of p" "view_of (p\<lparr>pb_calibrated := x\<rparr>) = view_of p"
  "view_of (p\<lparr>pb_fault_snapshot := f\<rparr>) = view_of p"
  by (simp_all add: view_of_def)

lemma view_update [simp]:
  "view_of (p\<lparr>pb_start_gate := x\<rparr>) = (view_of p)\<lparr>pw_gate := x\<rparr>" "view_of (p\<lparr>pb_carried := cs\<rparr>) = (view_of p)\<lparr>pw_carried := cs\<rparr>"
  "view_of (p\<lparr>pb_since_start := k\<rparr>) = (view_of p)\<lparr>pw_since := k\<rparr>"
  "pw_since (view_of p) = pb_since_start p" "pw_gate (view_of p) = pb_start_gate p" "pw_carried (view_of p) = pb_carried p"
  by (simp_all add: view_of_def)

lemma below_high_update [simp]:
  "below_high (v\<lparr>pw_gate := x\<rparr>) = below_high v" "below_high (v\<lparr>pw_carried := cs\<rparr>) = below_high v"
  "below_high (v\<lparr>pw_since := k\<rparr>) = below_high v" "below_high (v\<lparr>pw_frames := [], pw_high := None, pw_high_state := None\<rparr>)"
  by (simp_all add: below_high_def cong: option.case_cong)

lemma view_quiet [simp]:
  "view_of (stop_publisher status p) = view_of p" "view_of (temporal_fault p) = view_of p" "view_of (backend_fault observed p) = view_of p"
  "view_of (drop_handle h p) = view_of p" "view_of (mark_blocked now p) = view_of p" "view_of (settle_round p) = view_of p"
  "view_of (pause_publisher p) = view_of p"
  by (simp_all add: temporal_fault_def backend_fault_def stop_publisher_def drop_handle_def mark_blocked_def settle_round_def
      pause_publisher_def case_prod_beta Let_def)

lemma send_frame_view:
  "view_of (fst (send_frame b f p)) = (case snd (send_frame b f p) of Inl _ \<Rightarrow> view_of p
     | Inr _ \<Rightarrow> (view_of p)\<lparr>pw_frames := pb_frames p @ [f], pw_since := pb_since_start p + 1\<rparr>)"
  by (simp add: send_frame_def view_of_def split: option.split prod.split sum.split)

lemma view_high: "view_of (set_highwater f p) = (view_of p)\<lparr>pw_high := Some (cf_time f), pw_high_state := Some (cf_state f)\<rparr>"
  by (simp add: set_highwater_def view_of_def)

text \<open>A frame later than everything before it.\<close>

lemma inv_later_frame:
  assumes inv: "publisher_inv v" and later: "case pw_high v of None \<Rightarrow> True | Some t \<Rightarrow> t < cf_time f"
  shows "publisher_inv (v\<lparr>pw_frames := pw_frames v @ [f], pw_since := pw_since v + 1, pw_high := Some (cf_time f), pw_high_state := Some (cf_state f)\<rparr>)"
proof -
  have all: "cf_time g < cf_time f" if "g \<in> set (pw_frames v)" for g
    using inv later that by (auto simp: publisher_inv_def below_high_def list_all_iff split: option.splits)
  then show ?thesis using inv
    by (auto simp: publisher_inv_def below_high_def sorted_wrt_append follows_def list_all_iff same_state_equiv(1))
qed

text \<open>A frame at the latest time that says the same.\<close>

lemma inv_same_frame:
  assumes inv: "publisher_inv v" and high: "pw_high v = Some (cf_time f)" "pw_high_state v = Some s" "same_state (cf_state f) s"
  shows "publisher_inv (v\<lparr>pw_frames := pw_frames v @ [f], pw_since := pw_since v + 1\<rparr>)"
proof -
  have "follows g f" if "g \<in> set (pw_frames v)" for g
    using inv high that same_state_equiv(3) [OF _ same_state_equiv(2) [OF high(3)], of "cf_state g"]
    by (auto simp: publisher_inv_def below_high_def follows_def list_all_iff)
  then show ?thesis using inv high
    by (auto simp: publisher_inv_def below_high_def sorted_wrt_append list_all_iff)
qed

lemma send_later:
  assumes inv: "publisher_inv (view_of p)" and later: "\<not> not_later (cf_time f) p" and sent: "send_frame b f p = (p1, Inr x)"
  shows "publisher_inv (view_of (set_highwater f p1))" "0 < pb_since_start p1"
proof -
  have v: "view_of p1 = (view_of p)\<lparr>pw_frames := pb_frames p @ [f], pw_since := pb_since_start p + 1\<rparr>"
    using send_frame_view [of b f p] by (simp add: sent)
  have "case pw_high (view_of p) of None \<Rightarrow> True | Some t \<Rightarrow> t < cf_time f"
    using later by (simp add: not_later_def view_of_def not_le split: option.splits)
  from inv_later_frame [OF inv this] show "publisher_inv (view_of (set_highwater f p1))"
    unfolding view_high v by (simp add: view_of_def)
  show "0 < pb_since_start p1" using v by (simp add: view_of_def)
qed

lemma send_refused: "send_frame b f p = (p1, Inl x) \<Longrightarrow> view_of p1 = view_of p"
  using send_frame_view [of b f p] by simp

lemma send_consistent:
  assumes inv: "publisher_inv (view_of p)" and ok: "\<not> contradicts f p" "cf_time_known f" and sent: "send_frame b f p = (p1, Inr x)"
  shows "publisher_inv (view_of (raise_highwater f p1))" "0 < pb_since_start p1"
proof -
  have v: "view_of p1 = (view_of p)\<lparr>pw_frames := pb_frames p @ [f], pw_since := pb_since_start p + 1\<rparr>"
    using send_frame_view [of b f p] by (simp add: sent)
  then have high: "pb_context_highwater p1 = pb_context_highwater p" by (simp add: view_of_def)
  show "0 < pb_since_start p1" using v by (simp add: view_of_def)
  show "publisher_inv (view_of (raise_highwater f p1))"
  proof (cases "not_later (cf_time f) p")
    case False
    with high ok(2) show ?thesis using send_later(1) [OF inv False sent] by (simp add: raise_highwater_def not_later_def)
  next
    case True
    then obtain t s where t: "pb_context_highwater p = Some t" "cf_time f = t" "pb_highwater_state p = Some s" "same_state (cf_state f) s"
      using ok by (auto simp: not_later_def contradicts_def split: option.splits)
    have "publisher_inv ((view_of p)\<lparr>pw_frames := pw_frames (view_of p) @ [f], pw_since := pw_since (view_of p) + 1\<rparr>)"
      by (rule inv_same_frame [OF inv, of f s]) (use t in \<open>simp_all add: view_of_def\<close>)
    moreover have "raise_highwater f p1 = p1" using True high by (simp add: raise_highwater_def not_later_def)
    ultimately show ?thesis unfolding v [symmetric] using v by (simp add: view_of_def)
  qed
qed

lemma group_frame_view: "group_frame protocol_now epoch r p = (p1, x) \<Longrightarrow> view_of p1 = view_of p"
  by (auto simp: group_frame_def Let_def split: if_splits option.splits)

lemma group_frame_timed: "group_frame protocol_now epoch r p = (p1, Inr f) \<Longrightarrow> cf_time_known f"
  by (auto simp: group_frame_def Let_def make_frame_def split: if_splits option.splits)

lemma open_gate_inv:
  "publisher_inv (view_of p) \<Longrightarrow> 0 < pb_since_start p \<Longrightarrow> publisher_inv (view_of (open_gate f protocol_now p))"
  by (simp add: open_gate_def publisher_inv_def)

lemma raise_since [simp]: "pb_since_start (raise_highwater f p) = pb_since_start p"
  by (simp add: raise_highwater_def set_highwater_def)

lemma publish_group_inv:
  assumes inv: "publisher_inv (view_of p)"
  shows "publisher_inv (view_of (fst (publish_group b now protocol_now epoch i p)))"
proof (cases "group_frame protocol_now epoch (rst_slots (pb_store p) ! i) (mark_blocked now p)")
  case (Pair p1 x)
  have v1: "publisher_inv (view_of p1)" using group_frame_view [OF Pair] inv by simp
  show ?thesis
  proof (cases x)
    case (Inr f)
    show ?thesis
    proof (cases "contradicts f p1")
      case False
      obtain p2 y where sent: "send_frame b f p1 = (p2, y)" by fastforce
      show ?thesis
      proof (cases y)
        case (Inl e)
        with sent v1 send_refused [of b f p1 p2 e] show ?thesis
          by (simp add: publish_group_def Pair Inr False)
      next
        case (Inr u)
        note ok = send_consistent [OF v1 False group_frame_timed [OF Pair [unfolded \<open>x = Inr f\<close>]] sent [unfolded Inr]]
        have "publisher_inv (view_of (open_gate f protocol_now ((raise_highwater f p2)\<lparr>pb_store := s, pb_refresh_at := now, pb_refresh_started := True\<rparr>)))" for s
          by (rule open_gate_inv) (use ok in simp_all)
        then show ?thesis using ok(1)
          by (simp add: publish_group_def Pair \<open>x = Inr f\<close> False sent Inr Let_def case_prod_beta split: sum.split)
      qed
    qed (use v1 Inr in \<open>simp add: publish_group_def Pair\<close>)
  qed (use v1 in \<open>simp add: publish_group_def Pair\<close>)
qed

lemma publish_groups_inv:
  "publisher_inv (view_of p) \<Longrightarrow> publisher_inv (view_of (fst (publish_groups b now protocol_now epoch n p)))"
proof (induction n arbitrary: p)
  case (Suc n)
  show ?case
  proof (cases "group_choice (rst_slots (pb_store p))")
    case (Inr i)
    with Suc.IH publish_group_inv [OF Suc.prems, of b now protocol_now epoch i] show ?thesis
      by (cases "publish_group b now protocol_now epoch i p") (simp split: sum.split)
  qed (use Suc.prems in simp)
qed simp

lemma pass_gate_inv:
  assumes inv: "publisher_inv (view_of p)"
  shows "publisher_inv (view_of (fst (pass_gate b now protocol_now epoch p)))"
    "snd (pass_gate b now protocol_now epoch p) = Inr x \<Longrightarrow> \<not> pb_start_gate (fst (pass_gate b now protocol_now epoch p))"
proof -
  show "publisher_inv (view_of (fst (pass_gate b now protocol_now epoch p)))"
  proof (cases "current_revision p")
    case (Some r)
    define f where "f = (make_frame p r epoch True protocol_now)\<lparr>cf_change := True, cf_observation := True\<rparr>"
    have t: "cf_time f = protocol_now" by (simp add: f_def make_frame_def Let_def)
    obtain p1 y where sent: "send_frame b f p = (p1, y)" by fastforce
    have "publisher_inv (view_of ((set_highwater f p1)\<lparr>pb_start_gate := False, pb_refresh_started := True, pb_refresh_at := now\<rparr>))"
      if "\<not> not_later protocol_now p" "y = Inr u" for u
      using send_later [OF inv _ sent [unfolded that(2)]] that(1) t by (simp add: publisher_inv_def set_highwater_def)
    moreover have "publisher_inv (view_of p1)" if "y = Inl e" for e using inv send_refused sent that by metis
    ultimately show ?thesis using inv
      by (simp add: pass_gate_def Some Let_def flip: f_def) (auto simp: sent split: sum.split)
  qed (use inv in \<open>simp add: pass_gate_def\<close>)
  show "snd (pass_gate b now protocol_now epoch p) = Inr x \<Longrightarrow> \<not> pb_start_gate (fst (pass_gate b now protocol_now epoch p))"
    by (auto simp: pass_gate_def Let_def split: if_splits option.splits prod.splits sum.splits)
qed

lemma send_data_inv:
  assumes "publisher_inv (view_of p)" "\<not> pb_start_gate p" "handle_publication (pb_store p) h = Publication_accepted"
  shows "publisher_inv (view_of (fst (send_data b t h p)))" "\<not> pb_start_gate (fst (send_data b t h p))"
  using assms by (auto simp: send_data_def publisher_inv_def split: option.split prod.split)

lemma send_held_inv:
  "publisher_inv (view_of p) \<Longrightarrow> \<not> pb_start_gate p \<Longrightarrow> publisher_inv (view_of (fst (send_held b is p)))"
proof (induction "is" arbitrary: p)
  case (Cons i "is")
  show ?case
  proof (cases "pb_held p ! i")
    case (Some th)
    obtain t h where th: "th = (t, h)" by fastforce
    show ?thesis
    proof (cases "handle_publication (pb_store p) h = Publication_accepted")
      case True
      obtain p1 t' y where sent: "send_data b t h p = (p1, t', y)" by (metis prod_cases3)
      have p1: "publisher_inv (view_of p1)" "\<not> pb_start_gate p1"
        using send_data_inv [OF Cons.prems True, of b t] by (simp_all add: sent)
      show ?thesis
      proof (cases y)
        case (Inr u)
        define p3 where "p3 = (drop_handle h (p1\<lparr>pb_memory := tx_destroy (pb_memory p1) t'\<rparr>))
          \<lparr>pb_held := (pb_held (drop_handle h (p1\<lparr>pb_memory := tx_destroy (pb_memory p1) t'\<rparr>)))[i := None],
            pb_held_count := pb_held_count (drop_handle h (p1\<lparr>pb_memory := tx_destroy (pb_memory p1) t'\<rparr>)) - 1\<rparr>"
        have "publisher_inv (view_of p3)" "\<not> pb_start_gate p3" using p1 by (simp_all add: p3_def) (simp add: drop_handle_def)
        from Cons.IH [OF this] show ?thesis by (simp add: Some th True sent Inr Let_def p3_def)
      qed (use p1 in \<open>simp add: Some th True sent\<close>)
    qed (use Cons in \<open>simp add: Some th\<close>)
  qed (use Cons in simp)
qed simp

lemma refresh_inv:
  assumes inv: "publisher_inv (view_of p)"
  shows "publisher_inv (view_of (fst (refresh_context b now protocol_now epoch p)))"
proof (cases "current_revision p")
  case (Some r)
  define f where "f = make_frame p r epoch True protocol_now"
  have t: "cf_time f = protocol_now" by (simp add: f_def make_frame_def Let_def)
  obtain p1 y where sent: "send_frame b f p = (p1, y)" by fastforce
  have "publisher_inv (view_of (if not_later protocol_now p1 then p1 else set_highwater f p1))"
    if later: "\<not> not_later protocol_now p" and y: "y = Inr u" for u
  proof -
    have "\<not> not_later protocol_now p1"
      using later send_frame_view [of b f p] by (simp add: sent y not_later_def view_of_def)
    then show ?thesis using send_later(1) [OF inv _ sent [unfolded y]] later t by simp
  qed
  moreover have "publisher_inv (view_of p1)" if "y = Inl e" for e using inv send_refused sent that by metis
  ultimately show ?thesis using inv
    by (simp add: refresh_context_def Some Let_def flip: f_def) (auto simp: sent split: sum.split)
qed (use inv in \<open>simp add: refresh_context_def\<close>)

lemma publish_round_inv:
  assumes inv: "publisher_inv (view_of p)"
  shows "publisher_inv (view_of (fst (publish_round b now protocol_now epoch p)))"
proof -
  obtain p1 y1 where 1: "publish_groups b now protocol_now epoch (length (rst_slots (pb_store p))) p = (p1, y1)" by fastforce
  have i1: "publisher_inv (view_of p1)" using publish_groups_inv [OF inv] 1 by (metis fst_conv)
  obtain p2 y2 where 2: "pass_gate b now protocol_now epoch p1 = (p2, y2)" by fastforce
  have i2: "publisher_inv (view_of p2)" and gate: "\<And>u. y2 = Inr u \<Longrightarrow> \<not> pb_start_gate p2"
    using pass_gate_inv [OF i1, of b now protocol_now epoch] 2 by auto
  obtain p3 y3 where 3: "send_held b [0..<length (pb_held p2)] p2 = (p3, y3)" by fastforce
  have i3: "publisher_inv (view_of p3)" if "y2 = Inr u" for u using send_held_inv [OF i2 gate [OF that]] 3 by (metis fst_conv)
  obtain p4 y4 where 4: "refresh_context b now protocol_now epoch p3 = (p4, y4)" by fastforce
  have i4: "publisher_inv (view_of p4)" if "y2 = Inr u" for u using refresh_inv [OF i3 [OF that]] 4 by (metis fst_conv)
  show ?thesis using i1 i2 i3 i4
    by (cases y1; cases y2; cases y3; cases y4) (simp_all add: publish_round_def 1 2 3 4)
qed

lemma report_fault_inv:
  assumes inv: "publisher_inv (view_of p)"
  shows "publisher_inv (view_of (fst (report_fault b protocol_now epoch usable p)))"
proof (cases "current_revision p")
  case (Some r)
  define f where "f = invalid_frame p r epoch protocol_now"
  have t: "cf_time f = protocol_now" by (simp add: f_def invalid_frame_def Let_def)
  obtain p1 y where sent: "send_frame b f p = (p1, y)" by fastforce
  have "publisher_inv (view_of (set_highwater f (p1\<lparr>pb_invalid_sent := True\<rparr>)))" if "\<not> not_later protocol_now p" "y = Inr u" for u
    using send_later(1) [OF inv _ sent [unfolded that(2)]] that(1) t by (simp add: view_high)
  moreover have "publisher_inv (view_of p1)" if "y = Inl e" for e using inv send_refused sent that by metis
  ultimately show ?thesis using inv
    by (simp add: report_fault_def Some Let_def flip: f_def) (auto simp: sent split: sum.split)
qed (use inv in \<open>simp add: report_fault_def\<close>)

lemma progress_publisher_inv:
  assumes inv: "publisher_inv (view_of p)"
  shows "publisher_inv (view_of (fst (progress_publisher b now protocol_now epoch usable calibrated p)))"
proof -
  define p1 where "p1 = (if rst_faulted (pb_store p) \<and> pb_status p = Stream_active
     then stop_publisher Stream_metadata_unknown (p\<lparr>pb_calibrated := calibrated \<and> usable\<rparr>) else p\<lparr>pb_calibrated := calibrated \<and> usable\<rparr>)"
  have "publisher_inv (view_of p1)" using inv by (simp add: p1_def)
  note parts = report_fault_inv [OF this] publish_round_inv [OF this] this
  show ?thesis using parts inv by (simp add: progress_publisher_def Let_def flip: p1_def)
qed

lemma submit_inv:
  assumes inv: "publisher_inv (view_of p)"
  shows "publisher_inv (view_of (fst (submit b t h now p)))"
proof -
  have "publisher_inv (view_of (fst (send_data b t h (p\<lparr>pb_store := s\<rparr>))))"
    if "\<not> pb_start_gate p" "handle_publication s h = Publication_accepted" for s
    using send_data_inv(1) [of "p\<lparr>pb_store := s\<rparr>" h b t] inv that by simp
  moreover have "publisher_inv (view_of (fst (hold_data t h q)))" if "view_of q = view_of p" for q :: "'a publisher"
    using inv that by (simp add: hold_data_def case_prod_beta Let_def split: option.split)
  ultimately show ?thesis using inv
    by (simp add: submit_def Let_def case_prod_beta split: sum.split)
qed

section \<open>Runs\<close>

text \<open>The engine records new revisions and everybody uses the pool and the memory between the calls.\<close>

datatype 'w publisher_op =
    Pb_start mono_time
  | Pb_submit tx_storage revision_handle mono_time
  | Pb_progress mono_time protocol_time tsi bool bool
  | Pb_clock mono_time clock_snapshot
  | Pb_backend_fault state_snapshot
  | Pb_temporal_fault
  | Pb_pause
  | Pb_detach nat
  | Pb_others revision_store admission_state memory 'w

primrec publisher_step :: "'w publisher_binding \<Rightarrow> 'w publisher_op \<Rightarrow> 'w publisher \<Rightarrow> 'w publisher" where
  "publisher_step b (Pb_start now) p = fst (start_publisher b now p)"
| "publisher_step b (Pb_submit t h now) p = fst (submit b t h now p)"
| "publisher_step b (Pb_progress now protocol_now epoch usable calibrated) p = fst (progress_publisher b now protocol_now epoch usable calibrated p)"
| "publisher_step b (Pb_clock now clock) p = fst (progress_clock b now clock p)"
| "publisher_step b (Pb_backend_fault observed) p = backend_fault observed p"
| "publisher_step b Pb_temporal_fault p = temporal_fault p"
| "publisher_step b Pb_pause p = pause_publisher p"
| "publisher_step b (Pb_detach generation) p = fst (detach_publisher generation p)"
| "publisher_step b (Pb_others s pool m w) p = p\<lparr>pb_store := s, pb_pool := pool, pb_memory := m, pb_world := w\<rparr>"

lemma detach_view: "view_of (fst (detach_publisher generation p)) = view_of p \<or>
   view_of (fst (detach_publisher generation p)) = (view_of p)\<lparr>pw_frames := [], pw_high := None, pw_high_state := None\<rparr>"
proof -
  have "view_of ((stop_publisher st q)\<lparr>pb_blocked_since := None, pb_refresh_started := False, pb_invalid_sent := False,
      pb_context_highwater := None, pb_fault_snapshot := None, pb_highwater_state := None, pb_frames := []\<rparr>)
      = (view_of q)\<lparr>pw_frames := [], pw_high := None, pw_high_state := None\<rparr>" for st and q :: "'a publisher"
    using view_quiet(1) [of st q] by (simp add: view_of_def)
  then show ?thesis by (simp add: detach_publisher_def split: prod.split sum.split)
qed

lemma publisher_step_inv:
  assumes inv: "publisher_inv (view_of p)"
  shows "publisher_inv (view_of (publisher_step b op p))"
proof (cases op)
  case (Pb_start now)
  have "view_of (fst (start_publisher b now p)) = view_of p \<or> view_of (fst (start_publisher b now p)) = (view_of p)\<lparr>pw_gate := True, pw_since := 0\<rparr>"
    by (simp add: start_publisher_def view_of_def split: option.split)
  then show ?thesis
  proof
    assume "view_of (fst (start_publisher b now p)) = view_of p"
    with inv Pb_start show ?thesis by simp
  next
    assume "view_of (fst (start_publisher b now p)) = (view_of p)\<lparr>pw_gate := True, pw_since := 0\<rparr>"
    with inv Pb_start show ?thesis by (simp add: publisher_inv_def)
  qed
next
  case (Pb_detach generation)
  show ?thesis using detach_view [of generation p]
  proof
    assume "view_of (fst (detach_publisher generation p)) = view_of p"
    with inv Pb_detach show ?thesis by simp
  next
    assume "view_of (fst (detach_publisher generation p)) = (view_of p)\<lparr>pw_frames := [], pw_high := None, pw_high_state := None\<rparr>"
    with inv Pb_detach show ?thesis by (simp add: publisher_inv_def)
  qed
qed (use inv in \<open>simp_all add: submit_inv progress_publisher_inv progress_clock_def\<close>)

definition run_publisher :: "'w publisher_binding \<Rightarrow> 'w publisher_op list \<Rightarrow> 'w publisher \<Rightarrow> 'w publisher" where
  "run_publisher b ops p = fold (publisher_step b) ops p"

lemma run_publisher_inv: "publisher_inv (view_of p) \<Longrightarrow> publisher_inv (view_of (run_publisher b ops p))"
  unfolding run_publisher_def by (induction ops arbitrary: p) (simp_all add: publisher_step_inv)

text \<open>C21: Whatever the transport accepts or refuses and whatever is recorded, submitted, paused or faulted in between: the
  context frames accepted in one association never go back in time, two frames for the same instant report
  the same state, and every data packet is handed to the transport after a context frame of the
  running stream and only when the state it belongs to has been accepted.\<close>

theorem published_contexts_are_consistent:
  "let p = run_publisher b ops (new_publisher capacity s pool m w)
   in sorted_wrt (\<lambda>f g. cf_time f < cf_time g \<or> (cf_time f = cf_time g \<and> same_state (cf_state f) (cf_state g))) (pb_frames p)
    \<and> set (pb_carried p) \<subseteq> {Publication_accepted} \<times> {0<..}"
proof -
  have "publisher_inv (view_of (new_publisher capacity s pool m w))"
    by (simp add: publisher_inv_def below_high_def view_of_def new_publisher_def)
  from run_publisher_inv [OF this, of b ops] show ?thesis
    by (auto simp: Let_def publisher_inv_def view_of_def follows_def [abs_def] list_all_iff)
qed

end
