(* ===== verification/Receiver.thy ===== *)
theory Receiver
  imports Publisher Packet_View
begin

text \<open>
  The receiving end of context packets (\<^verbatim>\<open>runtime/context/receiver.hpp\<close>): a bounded history of reported
  states in the order of their times, the state in force at a sample's time, and the data packets
  that wait for one. The callbacks are recorded as events. The lemmas show that data is delivered as known
  only with a state that was reported for its time, is the latest one held, is fresh and was not
  contradicted.
\<close>

section \<open>Metadata\<close>

datatype confidence = Metadata_known | Metadata_missing | Metadata_stale | Metadata_ambiguous | Metadata_incomplete_delta

record metadata_snapshot =
  md_state :: state_snapshot
  md_effective :: protocol_time
  md_confidence :: confidence
  md_events :: u32
  md_valid_data :: bool

definition same_snapshot :: "state_snapshot \<Rightarrow> state_snapshot \<Rightarrow> bool" where
  "same_snapshot a b \<longleftrightarrow> ss_profile a = ss_profile b
     \<and> list_all (\<lambda>i. fs_id (ss_fields a ! i) = fs_id (ss_fields b ! i) \<and> fs_validity (ss_fields a ! i) = fs_validity (ss_fields b ! i)
         \<and> (fs_validity (ss_fields a ! i) = Known \<longrightarrow> fs_value (ss_fields a ! i) = fs_value (ss_fields b ! i)))
       [0..<active_state_fields (ss_profile a)]"

section \<open>The history\<close>

record history_entry =
  he_state :: state_snapshot
  he_effective :: protocol_time
  he_arrival :: mono_time
  he_events :: u32
  he_full :: bool
  he_conflict :: bool

record receiver_history =
  rh_entries :: "history_entry list"
  rh_capacity :: nat
  rh_profile :: iq_profile
  rh_generation :: nat
  rh_epoch :: tsi
  rh_reference :: "u32 option"

definition new_history :: "nat \<Rightarrow> nat \<Rightarrow> tsi \<Rightarrow> u32 option \<Rightarrow> iq_profile \<Rightarrow> receiver_history" where
  "new_history capacity generation epoch reference profile = \<lparr>rh_entries = [], rh_capacity = capacity, rh_profile = profile,
     rh_generation = generation, rh_epoch = epoch, rh_reference = reference\<rparr>"

primrec recheck_fields :: "state_snapshot \<Rightarrow> nat list \<Rightarrow> unit result" where
  "recheck_fields s [] = Inr ()"
| "recheck_fields s (i # is) =
     (let f = ss_fields s ! i in
      if fs_id f \<noteq> state_fields ! i then Inl (err Invalid_argument)
      else and_then (if fs_validity f = Known then validate_value (fs_id f) (fs_value f) True else Inr ()) (\<lambda>_. recheck_fields s is))"

text \<open>Sample loss is an event of one instant, not part of the state.\<close>

definition split_events :: "state_snapshot \<Rightarrow> u32 \<Rightarrow> (state_snapshot \<times> u32) result" where
  "split_events s events =
     (if \<not> known_at s 2 then Inr (s, events)
      else case get_uint32 (value_at s 2) of None \<Rightarrow> Inl (err Invalid_argument)
      | Some x \<Rightarrow> let loss = sample_loss_enable OR sample_loss_indicator
          in Inr (put_field 2 ((ss_fields s ! 2)\<lparr>fs_value := SV_uint32 (x AND NOT loss)\<rparr>) s, events OR (x AND loss)))"

definition admissible_report :: "receiver_history \<Rightarrow> state_snapshot \<Rightarrow> protocol_time \<Rightarrow> u32 \<Rightarrow> (state_snapshot \<times> u32) result" where
  "admissible_report h s effective events =
     and_then (validate_snapshot s) (\<lambda>_.
       if ss_profile s \<noteq> rh_profile h then Inl (err Identity_conflict)
       else if \<not> valid_time effective then Inl (err Invalid_argument)
       else and_then (recheck_fields s [0..<active_state_fields (ss_profile s)]) (\<lambda>_. split_events s events))"

definition disagrees :: "history_entry \<Rightarrow> history_entry \<Rightarrow> bool" where
  "disagrees old e \<longleftrightarrow> he_full old \<noteq> he_full e \<or> \<not> same_snapshot (he_state old) (he_state e) \<or> he_events old \<noteq> he_events e"

definition place_entry :: "nat \<Rightarrow> history_entry \<Rightarrow> history_entry list \<Rightarrow> history_entry list result" where
  "place_entry capacity e es =
     (let i = length (takeWhile (\<lambda>x. he_effective x < he_effective e) es) in
      if i < length es \<and> he_effective (es ! i) = he_effective e
      then Inr (if disagrees (es ! i) e then es[i := (es ! i)\<lparr>he_conflict := True\<rparr>] else es)
      else if length es = capacity
      then (if i = 0 then Inl (err Capacity_exhausted) else Inr (take (i - 1) (tl es) @ e # drop (i - 1) (tl es)))
      else Inr (take i es @ e # drop i es))"

definition report_entry :: "state_snapshot \<Rightarrow> protocol_time \<Rightarrow> mono_time \<Rightarrow> bool \<Rightarrow> u32 \<Rightarrow> receiver_history \<Rightarrow> history_entry result" where
  "report_entry s effective arrival full events h =
     and_then (admissible_report h s effective events) (\<lambda>(s', ev). Inr \<lparr>he_state = s', he_effective = effective, he_arrival = arrival,
       he_events = ev, he_full = full, he_conflict = False\<rparr>)"

definition add_report :: "history_entry result \<Rightarrow> receiver_history \<Rightarrow> receiver_history \<times> unit result" where
  "add_report r h = (case and_then r (\<lambda>e. place_entry (rh_capacity h) e (rh_entries h)) of
     Inl x \<Rightarrow> (h, Inl x) | Inr es \<Rightarrow> (h\<lparr>rh_entries := es\<rparr>, Inr ()))"

definition insert_report :: "state_snapshot \<Rightarrow> protocol_time \<Rightarrow> mono_time \<Rightarrow> bool \<Rightarrow> u32 \<Rightarrow> receiver_history
    \<Rightarrow> receiver_history \<times> unit result" where
  "insert_report s effective arrival full events h = add_report (report_entry s effective arrival full events h) h"

primrec context_fields :: "iq_profile \<Rightarrow> field_view list \<Rightarrow> state_snapshot \<Rightarrow> state_snapshot result" where
  "context_fields profile [] s = Inr s"
| "context_fields profile (v # vs) s =
     (let i = field_index (fv_id v) in
      if \<not> profile_field profile (fv_id v) \<or> i = state_field_capacity \<or> fv_kind v \<noteq> Body_values \<or> fv_attribute v \<noteq> Current
      then Inl (err Unsupported_capability)
      else and_then (field_value v) (\<lambda>x. context_fields profile vs (put_field i \<lparr>fs_id = fv_id v, fs_value = x, fs_validity = Known\<rparr> s)))"

text \<open>A context packet of the radio profile carries four fields; the others are fixed by the profile. Context
  packets always have a stream identifier.\<close>

definition complete_radio :: "receiver_history \<Rightarrow> packet_view \<Rightarrow> state_snapshot \<Rightarrow> state_snapshot result" where
  "complete_radio h packet s =
     (let e = view_envelope (pv_envelope packet) in
      if rh_profile h \<noteq> Sdr_radio then Inr s
      else if env_class_id e \<noteq> None \<or> ts_tsi (env_timestamp e) \<noteq> Tsi_utc \<or> length (pv_fields packet) \<noteq> 4 then Inl (err Invalid_argument)
      else if \<not> (known_at s 1 \<and> known_at s 4 \<and> known_at s 5 \<and> known_at s 6) then Inl (err Invalid_argument)
      else let reference = (case rh_reference h of Some r \<Rightarrow> r | None \<Rightarrow> case env_stream_id e of Some sid \<Rightarrow> sid | None \<Rightarrow> 0)
        in Inr (put_field 3 (known_field DataPayloadFormat_id (SV_payload_format (Payload_format 0x200003cf00000000)))
             (put_field 2 (known_field StateEvent_id (SV_uint32 (valid_data_enable OR valid_data_indicator)))
               (put_field 0 (known_field ReferencePoint_id (SV_uint32 reference)) s))))"

definition reference_matches :: "receiver_history \<Rightarrow> state_snapshot \<Rightarrow> bool" where
  "reference_matches h s \<longleftrightarrow> (case rh_reference h of None \<Rightarrow> True
     | Some r \<Rightarrow> known_at s 0 \<and> get_uint32 (value_at s 0) = Some r)"

definition context_report :: "receiver_history \<Rightarrow> packet_view \<Rightarrow> nat \<Rightarrow> state_snapshot result" where
  "context_report h packet generation =
     (let e = view_envelope (pv_envelope packet); ts = env_timestamp e in
      if generation \<noteq> rh_generation h then Inl (err Stale_generation)
      else if env_type e \<noteq> Context \<or> pv_opaque packet \<or> env_tsm e \<or> ts_tsi ts = Tsi_none \<or> ts_tsf ts \<noteq> Tsf_picoseconds
        \<or> (rh_epoch h \<noteq> Tsi_none \<and> ts_tsi ts \<noteq> rh_epoch h) then Inl (err Unsupported_capability)
      else and_then (context_fields (rh_profile h) (pv_fields packet) (default_snapshot\<lparr>ss_profile := rh_profile h\<rparr>)) (\<lambda>s.
        and_then (complete_radio h packet s) (\<lambda>s'. if reference_matches h s' then Inr s' else Inl (err Identity_conflict))))"

definition packet_entry :: "packet_view \<Rightarrow> nat \<Rightarrow> mono_time \<Rightarrow> bool \<Rightarrow> receiver_history \<Rightarrow> history_entry result" where
  "packet_entry packet generation arrival full h =
     and_then (context_report h packet generation) (\<lambda>s. let ts = env_timestamp (view_envelope (pv_envelope packet))
       in report_entry s (Protocol_time (unat (ts_integer ts)) (unat (ts_fractional ts))) arrival full 0 h)"

definition receive_report :: "packet_view \<Rightarrow> nat \<Rightarrow> mono_time \<Rightarrow> bool \<Rightarrow> receiver_history \<Rightarrow> receiver_history \<times> unit result" where
  "receive_report packet generation arrival full h = add_report (packet_entry packet generation arrival full h) h"

section \<open>The state at a time\<close>

definition freshness_ns :: nat where
  "freshness_ns = 2000000000"

definition overlay :: "state_snapshot \<Rightarrow> state_snapshot \<Rightarrow> state_snapshot" where
  "overlay s delta = s\<lparr>ss_fields := map (\<lambda>i. if fs_validity (ss_fields delta ! i) \<noteq> Absent then ss_fields delta ! i else ss_fields s ! i)
     [0..<state_field_capacity]\<rparr>"

record resolution =
  rz_state :: state_snapshot
  rz_last :: "history_entry option"
  rz_anchored :: bool
  rz_ambiguous :: bool
  rz_delta :: bool

definition apply_entry :: "history_entry \<Rightarrow> resolution \<Rightarrow> resolution" where
  "apply_entry e z =
     (if he_full e then \<lparr>rz_state = he_state e, rz_last = Some e, rz_anchored = True, rz_ambiguous = he_conflict e, rz_delta = False\<rparr>
      else z\<lparr>rz_state := overlay (rz_state z) (he_state e), rz_last := Some e, rz_ambiguous := rz_ambiguous z \<or> he_conflict e, rz_delta := True\<rparr>)"

definition resolution_at :: "receiver_history \<Rightarrow> protocol_time \<Rightarrow> resolution" where
  "resolution_at h sample = fold apply_entry (takeWhile (\<lambda>e. he_effective e \<le> sample) (rh_entries h))
     \<lparr>rz_state = default_snapshot, rz_last = None, rz_anchored = False, rz_ambiguous = False, rz_delta = False\<rparr>"

definition is_fresh :: "history_entry \<Rightarrow> mono_time \<Rightarrow> bool" where
  "is_fresh e now \<longleftrightarrow> mono_ns (he_arrival e) \<le> mono_ns now \<and> mono_ns now - mono_ns (he_arrival e) < freshness_ns"

definition outlived :: "history_entry \<Rightarrow> protocol_time \<Rightarrow> bool" where
  "outlived e sample = (case add_time (he_effective e) (Duration 2 0) of Inl _ \<Rightarrow> False | Inr limit \<Rightarrow> limit \<le> sample)"

definition marked_valid :: "state_snapshot \<Rightarrow> bool" where
  "marked_valid s \<longleftrightarrow> known_at s 2 \<and> (case get_uint32 (value_at s 2) of None \<Rightarrow> False
     | Some x \<Rightarrow> x AND valid_data_enable \<noteq> 0 \<and> x AND valid_data_indicator \<noteq> 0)"

definition resolve :: "receiver_history \<Rightarrow> protocol_time \<Rightarrow> mono_time \<Rightarrow> metadata_snapshot" where
  "resolve h sample now =
     (let z = resolution_at h sample in
      case rz_last z of
        None \<Rightarrow> \<lparr>md_state = rz_state z, md_effective = Protocol_time 0 0, md_confidence = Metadata_missing, md_events = 0, md_valid_data = False\<rparr>
      | Some e \<Rightarrow>
          let base = \<lparr>md_state = rz_state z, md_effective = he_effective e, md_confidence = Metadata_missing,
                md_events = (if sample = he_effective e then he_events e else 0), md_valid_data = False\<rparr> in
          if rz_ambiguous z then base\<lparr>md_confidence := Metadata_ambiguous\<rparr>
          else if \<not> is_fresh e now \<or> outlived e sample then base\<lparr>md_confidence := Metadata_stale\<rparr>
          else if \<not> rz_anchored z \<or> \<not> required_known (rz_state z) then base
          else base\<lparr>md_valid_data := marked_valid (rz_state z),
                 md_confidence := (if rz_delta z then Metadata_incomplete_delta else Metadata_known)\<rparr>)"

definition expire_history :: "mono_time \<Rightarrow> receiver_history \<Rightarrow> receiver_history" where
  "expire_history now h = h\<lparr>rh_entries := filter (\<lambda>e. mono_ns now < mono_ns (he_arrival e)
     \<or> mono_ns now - mono_ns (he_arrival e) < freshness_ns) (rh_entries h)\<rparr>"

definition detach_history :: "nat \<Rightarrow> tsi \<Rightarrow> u32 option \<Rightarrow> receiver_history \<Rightarrow> receiver_history \<times> unit result" where
  "detach_history generation epoch reference h =
     (if generation \<le> rh_generation h then (h, Inl (err Stale_generation))
      else (h\<lparr>rh_entries := [], rh_generation := generation, rh_epoch := epoch, rh_reference := reference\<rparr>, Inr ()))"

section \<open>The receiver\<close>

record waiting_packet =
  wp_payload :: retained_rx
  wp_sample :: protocol_time
  wp_arrival :: mono_time

record receiver =
  rc_history :: receiver_history
  rc_deliver :: bool
  rc_drop :: bool
  rc_waiting :: "waiting_packet option list"
  rc_local_quota :: nat
  rc_global_quota :: nat
  rc_allow_unknown :: bool
  rc_fixed_format :: "payload_format option"
  rc_waiting_count :: nat

datatype rx_event = Delivered "rx_envelope + retained_rx" metadata_snapshot protocol_time | Dropped confidence

type_synonym 'a receiving = "memory \<times> receiver \<times> rx_event list \<times> 'a"

definition new_receiver :: "memory \<Rightarrow> nat \<Rightarrow> nat \<Rightarrow> bool \<Rightarrow> bool \<Rightarrow> bool \<Rightarrow> payload_format option \<Rightarrow> receiver_history \<Rightarrow> memory \<times> receiver" where
  "new_receiver m global_quota waiting has_deliver has_drop allow_unknown fixed h =
     (let (m1, q) = make_quota m waiting
      in (m1, \<lparr>rc_history = h, rc_deliver = has_deliver, rc_drop = has_drop, rc_waiting = replicate waiting None, rc_local_quota = q,
           rc_global_quota = global_quota, rc_allow_unknown = allow_unknown, rc_fixed_format = fixed, rc_waiting_count = 0\<rparr>))"

definition deliverable :: "metadata_snapshot \<Rightarrow> bool" where
  "deliverable md \<longleftrightarrow> md_confidence md = Metadata_known \<and> md_valid_data md"

definition drop_event :: "receiver \<Rightarrow> confidence \<Rightarrow> rx_event list" where
  "drop_event c k = (if rc_drop c then [Dropped k] else [])"

text \<open>Without context, data goes out with every field unknown and the configured payload format.\<close>

definition anonymous :: "payload_format \<Rightarrow> metadata_snapshot \<Rightarrow> metadata_snapshot" where
  "anonymous f md = md\<lparr>md_state := put_field 3 (known_field DataPayloadFormat_id (SV_payload_format f))
     ((md_state md)\<lparr>ss_fields := map (\<lambda>x. if fs_validity x = Known then x\<lparr>fs_validity := Unknown\<rparr> else x) (ss_fields (md_state md))\<rparr>)\<rparr>"

definition hold_packet :: "rx_envelope \<Rightarrow> protocol_time \<Rightarrow> mono_time \<Rightarrow> confidence \<Rightarrow> memory \<Rightarrow> receiver \<Rightarrow> unit result receiving" where
  "hold_packet envelope sample now k m c =
     (case rx_retain m envelope (rc_local_quota c) (rc_global_quota c) of
        (m1, Inl x) \<Rightarrow> (m1, c, [], Inl x)
      | (m1, Inr payload) \<Rightarrow>
          case find (\<lambda>i. rc_waiting c ! i = None) [0..<length (rc_waiting c)] of
            Some i \<Rightarrow> (m1, c\<lparr>rc_waiting := (rc_waiting c)[i := Some \<lparr>wp_payload = payload, wp_sample = sample, wp_arrival = now\<rparr>],
                rc_waiting_count := rc_waiting_count c + 1\<rparr>, [], Inr ())
          | None \<Rightarrow> (fst (retained_reset m1 payload), c, drop_event c k, Inl (err Capacity_exhausted)))"

definition receive_data :: "rx_envelope \<Rightarrow> protocol_time \<Rightarrow> nat \<Rightarrow> mono_time \<Rightarrow> memory \<Rightarrow> receiver \<Rightarrow> unit result receiving" where
  "receive_data envelope sample generation now m c =
     (if generation \<noteq> rh_generation (rc_history c) then (m, c, [], Inl (err Stale_generation))
      else if \<not> rc_deliver c \<or> \<not> valid_time sample \<or> (rc_allow_unknown c \<and> rc_fixed_format c = None)
      then (m, c, [], Inl (err Invalid_argument))
      else let md = resolve (rc_history c) sample now in
        if deliverable md then (m, c, [Delivered (Inl envelope) md sample], Inr ())
        else case (rc_allow_unknown c \<and> md_confidence md \<noteq> Metadata_known, rc_fixed_format c) of
          (True, Some f) \<Rightarrow> (m, c, [Delivered (Inl envelope) (anonymous f md) sample], Inr ())
        | _ \<Rightarrow> hold_packet envelope sample now (md_confidence md) m c)"

definition waiting_limit_ns :: nat where
  "waiting_limit_ns = 10000000"

definition clear_waiting :: "nat \<Rightarrow> waiting_packet \<Rightarrow> memory \<Rightarrow> receiver \<Rightarrow> memory \<times> receiver" where
  "clear_waiting i p m c = (fst (retained_reset m (wp_payload p)),
     c\<lparr>rc_waiting := (rc_waiting c)[i := None], rc_waiting_count := rc_waiting_count c - 1\<rparr>)"

definition serve_slot :: "mono_time \<Rightarrow> nat \<Rightarrow> memory \<Rightarrow> receiver \<Rightarrow> memory \<times> receiver \<times> rx_event list" where
  "serve_slot now i m c =
     (case rc_waiting c ! i of None \<Rightarrow> (m, c, [])
      | Some p \<Rightarrow>
          let md = resolve (rc_history c) (wp_sample p) now; (m1, c1) = clear_waiting i p m c in
          if mono_ns (wp_arrival p) \<le> mono_ns now \<and> waiting_limit_ns \<le> mono_ns now - mono_ns (wp_arrival p)
          then (m1, c1, drop_event c (md_confidence md))
          else if deliverable md then (m1, c1, [Delivered (Inr (wp_payload p)) md (wp_sample p)])
          else (m, c, []))"

primrec serve_slots :: "mono_time \<Rightarrow> nat list \<Rightarrow> memory \<Rightarrow> receiver \<Rightarrow> memory \<times> receiver \<times> rx_event list" where
  "serve_slots now [] m c = (m, c, [])"
| "serve_slots now (i # is) m c =
     (let (m1, c1, ev) = serve_slot now i m c; (m2, c2, evs) = serve_slots now is m1 c1 in (m2, c2, ev @ evs))"

definition progress_receiver :: "mono_time \<Rightarrow> memory \<Rightarrow> receiver \<Rightarrow> memory \<times> receiver \<times> rx_event list" where
  "progress_receiver now m c =
     (let (m1, c1, ev) = serve_slots now [0..<length (rc_waiting c)] m c
      in (m1, c1\<lparr>rc_history := expire_history now (rc_history c1)\<rparr>, ev))"

definition receive_context :: "packet_view \<Rightarrow> nat \<Rightarrow> mono_time \<Rightarrow> bool \<Rightarrow> memory \<Rightarrow> receiver \<Rightarrow> unit result receiving" where
  "receive_context packet generation now full m c =
     (case receive_report packet generation now full (rc_history c) of
        (h, Inl x) \<Rightarrow> (m, c\<lparr>rc_history := h\<rparr>, [], Inl x)
      | (h, Inr _) \<Rightarrow> let (m1, c1, ev) = progress_receiver now m (c\<lparr>rc_history := h\<rparr>) in (m1, c1, ev, Inr ()))"

primrec release_waiting :: "waiting_packet option list \<Rightarrow> memory \<Rightarrow> memory" where
  "release_waiting [] m = m"
| "release_waiting (x # xs) m = release_waiting xs (case x of None \<Rightarrow> m | Some p \<Rightarrow> fst (retained_reset m (wp_payload p)))"

definition detach_receiver :: "nat \<Rightarrow> tsi \<Rightarrow> u32 option \<Rightarrow> memory \<Rightarrow> receiver \<Rightarrow> unit result receiving" where
  "detach_receiver generation epoch reference m c =
     (case detach_history generation epoch reference (rc_history c) of
        (h, Inl x) \<Rightarrow> (m, c\<lparr>rc_history := h\<rparr>, [], Inl x)
      | (h, Inr _) \<Rightarrow> (release_waiting (rc_waiting c) m,
          c\<lparr>rc_history := h, rc_waiting := replicate (length (rc_waiting c)) None, rc_waiting_count := 0\<rparr>, [], Inr ()))"

section \<open>The history is ordered and backed by reports\<close>

text \<open>An entry stands for the report that created it; while it is not in conflict, every later report for the same
  instant agreed.\<close>

definition backed :: "history_entry list \<Rightarrow> history_entry \<Rightarrow> bool" where
  "backed reports e \<longleftrightarrow> (\<exists>before after. reports = before @ e\<lparr>he_conflict := False\<rparr> # after
     \<and> (he_conflict e \<or> list_all (\<lambda>r. he_effective r = he_effective e \<longrightarrow> \<not> disagrees e r) after))"

definition earlier :: "history_entry \<Rightarrow> history_entry \<Rightarrow> bool" where
  "earlier a b \<longleftrightarrow> he_effective a < he_effective b"

definition history_inv :: "history_entry list \<Rightarrow> history_entry list \<Rightarrow> bool" where
  "history_inv reports es \<longleftrightarrow> sorted_wrt earlier es \<and> list_all (backed reports) es"

lemma history_inv_Nil [simp]: "history_inv reports []"
  by (simp add: history_inv_def)

lemma history_inv_filter: "history_inv reports es \<Longrightarrow> history_inv reports (filter P es)"
  by (auto simp: history_inv_def sorted_wrt_filter list_all_iff)

lemma history_inv_tl: "history_inv reports es \<Longrightarrow> history_inv reports (tl es)"
  by (cases es) (auto simp: history_inv_def)

lemma backed_new: "\<not> he_conflict r \<Longrightarrow> backed (reports @ [r]) r"
  unfolding backed_def by (intro exI [of _ reports] exI [of _ "[]"]) simp

lemma backed_other:
  assumes "backed reports e" "he_effective r \<noteq> he_effective e \<or> \<not> disagrees e r"
  shows "backed (reports @ [r]) e"
proof -
  obtain before after where "reports = before @ e\<lparr>he_conflict := False\<rparr> # after"
    "he_conflict e \<or> list_all (\<lambda>r. he_effective r = he_effective e \<longrightarrow> \<not> disagrees e r) after"
    using assms(1) unfolding backed_def by blast
  then show ?thesis unfolding backed_def using assms(2)
    by (intro exI [of _ before] exI [of _ "after @ [r]"]) auto
qed

lemma backed_conflict:
  assumes "backed reports e"
  shows "backed (reports @ [r]) (e\<lparr>he_conflict := True\<rparr>)"
proof -
  obtain before after where "reports = before @ e\<lparr>he_conflict := False\<rparr> # after" using assms unfolding backed_def by blast
  then show ?thesis unfolding backed_def by (intro exI [of _ before] exI [of _ "after @ [r]"]) simp
qed

lemma takeWhile_take: "e \<in> set (take (length (takeWhile P es)) es) \<Longrightarrow> P e"
  by (metis set_takeWhileD takeWhile_eq_take)

lemma history_inv_insert:
  assumes inv: "history_inv reports es" and r: "\<not> he_conflict r" and i: "i \<le> length es"
    and low: "\<And>e. e \<in> set (take i es) \<Longrightarrow> he_effective e < he_effective r"
    and high: "\<And>e. e \<in> set (drop i es) \<Longrightarrow> he_effective r < he_effective e"
  shows "history_inv (reports @ [r]) (take i es @ r # drop i es)"
proof -
  have sorted: "sorted_wrt earlier (take i es @ drop i es)" using inv by (simp add: history_inv_def)
  have "backed (reports @ [r]) e" if e: "e \<in> set (take i es) \<union> set (drop i es)" for e
  proof (rule backed_other)
    show "backed reports e" using inv e by (auto simp: history_inv_def list_all_iff dest: in_set_takeD in_set_dropD)
    show "he_effective r \<noteq> he_effective e \<or> \<not> disagrees e r" using low high e by force
  qed
  moreover have "sorted_wrt earlier (take i es @ r # drop i es)"
    using sorted low high by (auto simp: sorted_wrt_append earlier_def intro: less_trans [OF low high])
  ultimately show ?thesis using backed_new [OF r, of reports] by (simp add: history_inv_def list_all_iff)
qed

lemma history_inv_same:
  assumes inv: "history_inv reports es" and i: "i < length es" and same: "he_effective (es ! i) = he_effective r"
  shows "history_inv (reports @ [r]) (if disagrees (es ! i) r then es[i := (es ! i)\<lparr>he_conflict := True\<rparr>] else es)"
proof -
  have others: "he_effective (es ! j) \<noteq> he_effective r" if "j < length es" "j \<noteq> i" for j
  proof -
    have "earlier (es ! j) (es ! i) \<or> earlier (es ! i) (es ! j)"
      using inv i that by (simp add: history_inv_def sorted_wrt_iff_nth_less) (metis linorder_neqE_nat)
    then show ?thesis using same by (auto simp: earlier_def)
  qed
  have backed: "backed reports (es ! j)" if "j < length es" for j using inv that by (simp add: history_inv_def list_all_length)
  define es' where "es' = (if disagrees (es ! i) r then es[i := (es ! i)\<lparr>he_conflict := True\<rparr>] else es)"
  have len: "length es' = length es" by (simp add: es'_def)
  have eff: "he_effective (es' ! j) = he_effective (es ! j)" for j
    using i by (cases "j = i") (simp_all add: es'_def)
  have "sorted_wrt earlier es'"
    using inv by (simp add: history_inv_def sorted_wrt_iff_nth_less earlier_def len eff)
  moreover have "backed (reports @ [r]) (es' ! j)" if j: "j < length es" for j
  proof (cases "j = i")
    case True
    then show ?thesis using backed [OF i] i backed_conflict [OF backed [OF i], of r] backed_other [OF backed [OF i], of r]
      by (simp add: es'_def)
  next
    case False
    then have "es' ! j = es ! j" by (simp add: es'_def)
    with backed_other [OF backed [OF j], of r] others [OF j False] show ?thesis by auto
  qed
  ultimately show ?thesis unfolding es'_def [symmetric] by (simp add: history_inv_def list_all_length len)
qed

lemma place_entry_inv:
  assumes inv: "history_inv reports es" and r: "\<not> he_conflict r" and placed: "place_entry capacity r es = Inr es'"
  shows "history_inv (reports @ [r]) es'"
proof -
  define i where "i = length (takeWhile (\<lambda>x. he_effective x < he_effective r) es)"
  have i: "i \<le> length es" by (simp add: i_def length_takeWhile_le)
  have low: "he_effective e < he_effective r" if "e \<in> set (take i es)" for e
    using that takeWhile_take [of e "\<lambda>x. he_effective x < he_effective r" es] by (simp add: i_def)
  have sorted: "sorted_wrt earlier es" using inv by (simp add: history_inv_def)
  show ?thesis
  proof (cases "i < length es \<and> he_effective (es ! i) = he_effective r")
    case True
    then show ?thesis using placed history_inv_same [OF inv, of i r] by (simp add: place_entry_def flip: i_def)
  next
    case False
    have high: "he_effective r < he_effective e" if e: "e \<in> set (drop i es)" for e
    proof -
      obtain k where k: "e = es ! (i + k)" "i + k < length es"
        using e by (auto simp: in_set_conv_nth)
      have "\<not> he_effective (es ! i) < he_effective r"
        using nth_length_takeWhile [of "\<lambda>x. he_effective x < he_effective r" es] k(2) by (simp add: i_def [symmetric])
      with False k(2) have "he_effective r < he_effective (es ! i)" by auto
      also have "\<dots> \<le> he_effective e" using sorted k by (cases k) (auto simp: sorted_wrt_iff_nth_less earlier_def less_imp_le)
      finally show ?thesis .
    qed
    show ?thesis
    proof (cases "length es = capacity")
      case full: True
      then have pos: "i \<noteq> 0" and es': "es' = take (i - 1) (tl es) @ r # drop (i - 1) (tl es)"
        using placed False by (auto simp: place_entry_def Let_def i_def [symmetric] split: if_splits)
      have "take (i - 1) (tl es) = tl (take i es)" "drop (i - 1) (tl es) = drop i es"
        using pos i by (cases es; cases i; simp)+
      with history_inv_insert [OF history_inv_tl [OF inv] r, of "i - 1"] low high pos i es' show ?thesis
        by (metis diff_le_mono list.set_sel(2) length_tl tl_Nil)
    next
      case False
      then have "es' = take i es @ r # drop i es"
        using placed \<open>\<not> (i < length es \<and> _)\<close> by (auto simp: place_entry_def Let_def i_def [symmetric])
      with history_inv_insert [OF inv r i low high] show ?thesis by simp
    qed
  qed
qed

section \<open>What a sample's time resolves to\<close>

lemma takeWhile_covers:
  assumes "sorted_wrt earlier es" "e \<in> set es" "he_effective e \<le> t"
  shows "e \<in> set (takeWhile (\<lambda>x. he_effective x \<le> t) es)"
  using assms by (induction es) (auto simp: earlier_def dest: less_imp_le)

lemma resolution_last:
  assumes sorted: "sorted_wrt earlier (rh_entries h)" and last: "rz_last (resolution_at h sample) = Some e"
  obtains z where "e \<in> set (rh_entries h)" "he_effective e \<le> sample" "resolution_at h sample = apply_entry e z"
    "\<And>e'. e' \<in> set (rh_entries h) \<Longrightarrow> he_effective e' \<le> sample \<Longrightarrow> he_effective e' \<le> he_effective e"
proof -
  define xs where "xs = takeWhile (\<lambda>e. he_effective e \<le> sample) (rh_entries h)"
  define z0 where "z0 = \<lparr>rz_state = default_snapshot, rz_last = None, rz_anchored = False, rz_ambiguous = False, rz_delta = False\<rparr>"
  have fold: "resolution_at h sample = fold apply_entry xs z0" by (simp add: resolution_at_def xs_def z0_def)
  with last have "xs \<noteq> []" by (auto simp: z0_def)
  then obtain ys e0 where xs: "xs = ys @ [e0]" by (metis rev_exhaust)
  have "e0 = e" using last by (auto simp: fold xs apply_entry_def split: if_splits)
  have "sorted_wrt earlier xs" using sorted by (metis xs_def sorted_wrt_take takeWhile_eq_take)
  then have le: "he_effective e' \<le> he_effective e" if "e' \<in> set xs" for e'
    using that by (auto simp: xs \<open>e0 = e\<close> sorted_wrt_append earlier_def less_imp_le)
  show ?thesis
  proof (rule that)
    have "e \<in> set xs" by (simp add: xs \<open>e0 = e\<close>)
    then show "e \<in> set (rh_entries h)" "he_effective e \<le> sample" by (auto simp: xs_def dest: set_takeWhileD)
    show "resolution_at h sample = apply_entry e (fold apply_entry ys z0)" by (simp add: fold xs \<open>e0 = e\<close>)
    show "he_effective e' \<le> he_effective e" if "e' \<in> set (rh_entries h)" "he_effective e' \<le> sample" for e'
      using le takeWhile_covers [OF sorted that] by (simp add: xs_def)
  qed
qed

text \<open>The entry that gives a sample its state: the latest one held at or before its time, complete, not in conflict,
  still fresh, and reported.\<close>

definition in_force :: "receiver_history \<Rightarrow> history_entry list \<Rightarrow> mono_time \<Rightarrow> protocol_time \<Rightarrow> history_entry \<Rightarrow> bool" where
  "in_force h reports now sample e \<longleftrightarrow> e \<in> set (rh_entries h) \<and> he_effective e \<le> sample
     \<and> (\<forall>e' \<in> set (rh_entries h). he_effective e' \<le> sample \<longrightarrow> he_effective e' \<le> he_effective e)
     \<and> he_full e \<and> \<not> he_conflict e \<and> is_fresh e now \<and> \<not> outlived e sample \<and> backed reports e"

lemma resolve_known:
  assumes inv: "history_inv reports (rh_entries h)" and known: "md_confidence (resolve h sample now) = Metadata_known"
  shows "\<exists>e. in_force h reports now sample e \<and> required_known (he_state e) \<and> md_state (resolve h sample now) = he_state e
    \<and> md_effective (resolve h sample now) = he_effective e"
proof (cases "rz_last (resolution_at h sample)")
  case None
  with known show ?thesis by (simp add: resolve_def)
next
  case (Some e)
  have sorted: "sorted_wrt earlier (rh_entries h)" using inv by (simp add: history_inv_def)
  obtain z where e: "e \<in> set (rh_entries h)" "he_effective e \<le> sample" "resolution_at h sample = apply_entry e z"
    "\<And>e'. e' \<in> set (rh_entries h) \<Longrightarrow> he_effective e' \<le> sample \<Longrightarrow> he_effective e' \<le> he_effective e"
    using resolution_last [OF sorted Some] by metis
  define rz where "rz = resolution_at h sample"
  have k: "\<not> rz_ambiguous rz" "is_fresh e now" "\<not> outlived e sample" "required_known (rz_state rz)" "\<not> rz_delta rz"
    "md_state (resolve h sample now) = rz_state rz" "md_effective (resolve h sample now) = he_effective e"
    using known Some by (simp_all add: resolve_def Let_def rz_def split: if_splits)
  have "he_full e" using k(5) e(3) by (simp add: rz_def apply_entry_def split: if_splits)
  then have "rz_state rz = he_state e" "rz_ambiguous rz = he_conflict e" using e(3) by (simp_all add: rz_def apply_entry_def)
  moreover have "backed reports e" using inv e(1) by (simp add: history_inv_def list_all_iff)
  ultimately show ?thesis using e(1,2,4) k \<open>he_full e\<close> by (intro exI [of _ e]) (simp add: in_force_def)
qed

section \<open>Runs\<close>

text \<open>The last operation lets everybody else use the memory.\<close>

datatype receiver_op =
    Rc_insert state_snapshot protocol_time mono_time bool u32
  | Rc_report packet_view nat mono_time bool
  | Rc_expire mono_time
  | Rc_data rx_envelope protocol_time nat mono_time
  | Rc_context packet_view nat mono_time bool
  | Rc_progress mono_time
  | Rc_detach nat tsi "u32 option"
  | Rc_others memory

definition on_history :: "receiver_history \<Rightarrow> memory \<times> receiver \<Rightarrow> memory \<times> receiver" where
  "on_history h x = (fst x, (snd x)\<lparr>rc_history := h\<rparr>)"

definition without_events :: "'a receiving \<Rightarrow> memory \<times> receiver" where
  "without_events x = (fst x, fst (snd x))"

primrec receiver_step :: "receiver_op \<Rightarrow> memory \<times> receiver \<Rightarrow> memory \<times> receiver" where
  "receiver_step (Rc_insert s effective arrival full events) x =
     on_history (fst (insert_report s effective arrival full events (rc_history (snd x)))) x"
| "receiver_step (Rc_report packet generation arrival full) x =
     on_history (fst (receive_report packet generation arrival full (rc_history (snd x)))) x"
| "receiver_step (Rc_expire now) x = on_history (expire_history now (rc_history (snd x))) x"
| "receiver_step (Rc_data envelope sample generation now) x = without_events (receive_data envelope sample generation now (fst x) (snd x))"
| "receiver_step (Rc_context packet generation now full) x = without_events (receive_context packet generation now full (fst x) (snd x))"
| "receiver_step (Rc_progress now) x = (case progress_receiver now (fst x) (snd x) of (m, c, _) \<Rightarrow> (m, c))"
| "receiver_step (Rc_detach generation epoch reference) x = without_events (detach_receiver generation epoch reference (fst x) (snd x))"
| "receiver_step (Rc_others m) x = (m, snd x)"

text \<open>The reports accepted since the last detachment.\<close>

definition note_report :: "history_entry result \<Rightarrow> receiver_history \<Rightarrow> history_entry list \<Rightarrow> history_entry list" where
  "note_report r h reports = (case (r, snd (add_report r h)) of (Inr e, Inr _) \<Rightarrow> reports @ [e] | _ \<Rightarrow> reports)"

primrec reports_step :: "receiver_op \<Rightarrow> receiver_history \<Rightarrow> history_entry list \<Rightarrow> history_entry list" where
  "reports_step (Rc_insert s effective arrival full events) h reports = note_report (report_entry s effective arrival full events h) h reports"
| "reports_step (Rc_report packet generation arrival full) h reports = note_report (packet_entry packet generation arrival full h) h reports"
| "reports_step (Rc_context packet generation now full) h reports = note_report (packet_entry packet generation now full h) h reports"
| "reports_step (Rc_detach generation epoch reference) h reports = (if generation \<le> rh_generation h then reports else [])"
| "reports_step (Rc_expire now) h reports = reports"
| "reports_step (Rc_data envelope sample generation now) h reports = reports"
| "reports_step (Rc_progress now) h reports = reports"
| "reports_step (Rc_others m) h reports = reports"

definition run_receiver :: "receiver_op list \<Rightarrow> memory \<times> receiver \<Rightarrow> (memory \<times> receiver) \<times> history_entry list" where
  "run_receiver ops x = fold (\<lambda>op (y, reports). (receiver_step op y, reports_step op (rc_history (snd y)) reports)) ops (x, [])"

lemma report_entry_fresh: "report_entry s effective arrival full events h = Inr r \<Longrightarrow> \<not> he_conflict r"
  by (auto simp: report_entry_def and_then_def split: sum.splits)

lemma packet_entry_fresh: "packet_entry packet generation arrival full h = Inr r \<Longrightarrow> \<not> he_conflict r"
  by (auto simp: packet_entry_def and_then_def Let_def dest: report_entry_fresh split: sum.splits)

lemma add_report_inv:
  assumes "history_inv reports (rh_entries h)" "\<And>e. r = Inr e \<Longrightarrow> \<not> he_conflict e"
  shows "history_inv (note_report r h reports) (rh_entries (fst (add_report r h)))"
proof (cases r)
  case (Inr e)
  with place_entry_inv [OF assms(1), of e] assms show ?thesis
    by (cases "place_entry (rh_capacity h) e (rh_entries h)") (simp_all add: note_report_def add_report_def and_then_def)
qed (use assms in \<open>simp add: note_report_def add_report_def and_then_def\<close>)

lemma serve_slot_history: "rc_history (fst (snd (serve_slot now i m c))) = rc_history c"
  by (simp add: serve_slot_def clear_waiting_def Let_def split: option.split)

lemma serve_slots_history: "rc_history (fst (snd (serve_slots now is m c))) = rc_history c"
  by (induction "is" arbitrary: m c) (simp_all add: case_prod_beta Let_def serve_slot_history)

lemma progress_history: "rc_history (fst (snd (progress_receiver now m c))) = expire_history now (rc_history c)"
  by (simp add: progress_receiver_def case_prod_beta Let_def serve_slots_history)

lemma receive_data_history: "rc_history (fst (snd (receive_data envelope sample generation now m c))) = rc_history c"
  by (auto simp: receive_data_def hold_packet_def Let_def split: prod.split sum.split option.split bool.split)

lemma receive_context_history:
  "rc_history (fst (snd (receive_context packet generation now full m c))) =
     (case receive_report packet generation now full (rc_history c) of (h, Inl _) \<Rightarrow> h | (h, Inr _) \<Rightarrow> expire_history now h)"
  by (simp add: receive_context_def case_prod_beta Let_def progress_history split: sum.split)

lemma expire_inv: "history_inv reports (rh_entries h) \<Longrightarrow> history_inv reports (rh_entries (expire_history now h))"
  by (simp add: expire_history_def history_inv_filter)

definition receiver_inv :: "(memory \<times> receiver) \<times> history_entry list \<Rightarrow> bool" where
  "receiver_inv x \<longleftrightarrow> history_inv (snd x) (rh_entries (rc_history (snd (fst x))))"

lemma receiver_step_inv:
  assumes "receiver_inv (x, reports)"
  shows "receiver_inv (receiver_step op x, reports_step op (rc_history (snd x)) reports)"
proof -
  let ?h = "rc_history (snd x)"
  have inv: "history_inv reports (rh_entries ?h)" using assms by (simp add: receiver_inv_def)
  have added: "history_inv (note_report (report_entry s effective arrival full events ?h) ?h reports)
      (rh_entries (fst (add_report (report_entry s effective arrival full events ?h) ?h)))"
    "history_inv (note_report (packet_entry packet generation arrival full ?h) ?h reports)
      (rh_entries (fst (add_report (packet_entry packet generation arrival full ?h) ?h)))"
    for s effective arrival full events packet generation
    by (rule add_report_inv [OF inv]; erule report_entry_fresh packet_entry_fresh)+
  show ?thesis
  proof (cases op)
    case (Rc_context packet generation now full)
    have "history_inv (note_report (packet_entry packet generation now full ?h) ?h reports)
        (rh_entries (rc_history (fst (snd (receive_context packet generation now full (fst x) (snd x))))))"
      using added(2) [of packet generation now full]
      by (auto simp: receive_context_history receive_report_def case_prod_beta expire_inv split: sum.split)
    then show ?thesis using Rc_context by (simp add: receiver_inv_def without_events_def)
  next
    case (Rc_detach generation epoch reference)
    then show ?thesis using inv
      by (auto simp: receiver_inv_def without_events_def detach_receiver_def detach_history_def)
  qed (use inv added in \<open>simp_all add: receiver_inv_def on_history_def without_events_def insert_report_def receive_report_def
    receive_data_history progress_history expire_inv case_prod_beta\<close>)
qed

lemma run_receiver_inv:
  assumes "receiver_inv (x, [])"
  shows "receiver_inv (run_receiver ops x)"
proof -
  have "receiver_inv (fold (\<lambda>op (y, reports). (receiver_step op y, reports_step op (rc_history (snd y)) reports)) ops z)"
    if "receiver_inv z" for z
    using that
  proof (induction ops arbitrary: z)
    case (Cons op ops)
    obtain y reports where z: "z = (y, reports)" by fastforce
    show ?case using Cons.IH [OF receiver_step_inv [OF Cons.prems [unfolded z], of op]] by (simp add: z)
  qed simp
  then show ?thesis using assms by (simp add: run_receiver_def)
qed

text \<open>A delivery that claims known metadata has the state of an entry in force.\<close>

definition justified :: "receiver_history \<Rightarrow> history_entry list \<Rightarrow> mono_time \<Rightarrow> rx_event \<Rightarrow> bool" where
  "justified h reports now event \<longleftrightarrow> (case event of Dropped _ \<Rightarrow> True
     | Delivered payload md sample \<Rightarrow> md_confidence md = Metadata_known \<longrightarrow> md_valid_data md
         \<and> (\<exists>e. in_force h reports now sample e \<and> required_known (he_state e) \<and> md_state md = he_state e \<and> md_effective md = he_effective e))"

lemma justified_Dropped [simp]: "justified h reports now (Dropped k)"
  by (simp add: justified_def)

lemma drop_event_justified: "set (drop_event c k) \<subseteq> {event. justified h reports now event}"
  by (auto simp: drop_event_def)

lemma delivered_justified:
  "history_inv reports (rh_entries h) \<Longrightarrow> deliverable (resolve h sample now) \<Longrightarrow> justified h reports now (Delivered payload (resolve h sample now) sample)"
  by (simp add: justified_def deliverable_def resolve_known)

lemma receive_data_justified:
  assumes "history_inv reports (rh_entries (rc_history c))"
  shows "set (fst (snd (snd (receive_data envelope sample generation now m c)))) \<subseteq> {event. justified (rc_history c) reports now event}"
proof -
  have anon: "justified (rc_history c) reports now (Delivered (Inl envelope) (anonymous f md) sample)"
    if "md_confidence md \<noteq> Metadata_known" for f md
    using that by (simp add: justified_def anonymous_def)
  have held: "set (fst (snd (snd (hold_packet envelope sample now k m c)))) \<subseteq> {event. justified (rc_history c) reports now event}" for k
    using drop_event_justified by (simp add: hold_packet_def split: prod.split sum.split option.split)
  show ?thesis using held
    by (simp add: receive_data_def Let_def delivered_justified [OF assms] anon split: prod.split option.split bool.split)
qed

lemma serve_slots_justified:
  assumes "history_inv reports (rh_entries (rc_history c))"
  shows "set (snd (snd (serve_slots now is m c))) \<subseteq> {event. justified (rc_history c) reports now event}"
  using assms
proof (induction "is" arbitrary: m c)
  case (Cons i "is")
  have "set (snd (snd (serve_slot now i m c))) \<subseteq> {event. justified (rc_history c) reports now event}"
    using drop_event_justified delivered_justified [OF Cons.prems]
    by (simp add: serve_slot_def Let_def case_prod_beta split: option.split)
  moreover have "set (snd (snd (serve_slots now is (fst (serve_slot now i m c)) (fst (snd (serve_slot now i m c))))))
      \<subseteq> {event. justified (rc_history c) reports now event}"
    using Cons.IH [of "fst (snd (serve_slot now i m c))"] Cons.prems by (simp add: serve_slot_history)
  ultimately show ?case by (simp add: case_prod_beta Let_def)
qed simp

lemma progress_justified:
  "history_inv reports (rh_entries (rc_history c))
   \<Longrightarrow> set (snd (snd (progress_receiver now m c))) \<subseteq> {event. justified (rc_history c) reports now event}"
  using serve_slots_justified by (simp add: progress_receiver_def case_prod_beta Let_def)

text \<open>C15: Data is handed to the application as known only with the state of a complete context report: one accepted
  in this association, in force at the sample's time as the latest held, received less than two seconds ago, and
  not contradicted by any report accepted after it. This holds when the data arrives, when it has
  waited, and when a context packet releases it, after any sequence of operations.\<close>

theorem delivered_metadata_was_reported:
  "let ((m, c), reports) = run_receiver ops (new_receiver m0 gq waiting has_deliver has_drop allow_unknown fixed
       (new_history capacity g epoch reference profile));
     (h, accepted) = receive_report packet generation now full (rc_history c);
     reports' = note_report (packet_entry packet generation now full (rc_history c)) (rc_history c) reports
   in set (fst (snd (snd (receive_data envelope sample generation now m c)))) \<subseteq> {event. justified (rc_history c) reports now event}
    \<and> set (snd (snd (progress_receiver now m c))) \<subseteq> {event. justified (rc_history c) reports now event}
    \<and> set (fst (snd (snd (receive_context packet generation now full m c)))) \<subseteq> {event. justified h reports' now event}"
proof -
  let ?justified = "\<lambda>h reports. {event. justified h reports now event}"
  obtain m c reports where run: "run_receiver ops (new_receiver m0 gq waiting has_deliver has_drop allow_unknown fixed
      (new_history capacity g epoch reference profile)) = ((m, c), reports)" by (metis surj_pair)
  obtain h accepted where rep: "receive_report packet generation now full (rc_history c) = (h, accepted)" by fastforce
  have "receiver_inv (run_receiver ops (new_receiver m0 gq waiting has_deliver has_drop allow_unknown fixed
      (new_history capacity g epoch reference profile)))"
    by (rule run_receiver_inv) (simp add: receiver_inv_def new_receiver_def new_history_def case_prod_beta Let_def)
  then have inv: "history_inv reports (rh_entries (rc_history c))" by (simp add: run receiver_inv_def)
  have inv': "history_inv (note_report (packet_entry packet generation now full (rc_history c)) (rc_history c) reports) (rh_entries h)"
    using add_report_inv [OF inv, of "packet_entry packet generation now full (rc_history c)"] packet_entry_fresh
    by (simp add: rep [unfolded receive_report_def])
  have "set (fst (snd (snd (receive_context packet generation now full m c))))
      \<subseteq> ?justified h (note_report (packet_entry packet generation now full (rc_history c)) (rc_history c) reports)"
    using progress_justified [of _ "c\<lparr>rc_history := h\<rparr>" now m, simplified, OF inv']
    by (cases accepted) (simp_all add: receive_context_def rep case_prod_beta Let_def)
  then show ?thesis using receive_data_justified [OF inv, of envelope sample generation now m] progress_justified [OF inv, of now m]
    unfolding Let_def run rep prod.case by blast
qed

end
