(* ===== verification/Planning.thy ===== *)
theory Planning
  imports Commands Tickets
begin

text \<open>
  Command planning (\<^verbatim>\<open>runtime/transaction/engine.hpp\<close>, \<open>request_from\<close> and the planning half of
  \<open>Engine\<close>): a decoded command becomes a request, every requested field is validated by the profile,
  the capabilities and the backend, dependencies give an execution order, and what may not execute is
  marked. The backend's callbacks and the application's observer are parameters; each is called at most
  once per field and plan, so a function of the field covers any stateful callback.
\<close>

section \<open>Requests\<close>

record operation_context =
  oc_operation :: nat
  oc_association_generation :: nat
  oc_monotonic :: mono_time
  oc_clock :: clock_snapshot
  oc_boundaries :: "boundary list"
  oc_timing :: timing_capabilities
  oc_data_running :: bool
  oc_trace_peer :: nat

record request =
  rq_envelope :: envelope
  rq_cam :: cam
  rq_fields :: "field_id list"
  rq_values :: "semantic_value list"
  rq_unsupported :: "bool list"
  rq_attributes :: "u32 list"
  rq_count :: nat
  rq_capability_query :: bool

definition no_field :: field_id where
  "no_field = \<lparr>fid_cif = 0, fid_bit = 0\<rparr>"

definition no_request :: request where
  "no_request = \<lparr>rq_envelope = empty_envelope, rq_cam = empty_cam, rq_fields = replicate 5 no_field,
     rq_values = replicate 5 (SV_uint32 0), rq_unsupported = replicate 5 False, rq_attributes = replicate 5 0,
     rq_count = 0, rq_capability_query = False\<rparr>"

text \<open>The three decisions on a view once its place \<open>i\<close> in the request is known.\<close>

definition note_view :: "command_profile \<Rightarrow> nat \<Rightarrow> field_view \<Rightarrow> request \<Rightarrow> request result" where
  "note_view profile i v r =
     (let r1 = r\<lparr>rq_attributes := (rq_attributes r)[i := rq_attributes r ! i OR attribute_bit (fv_attribute v)]\<rparr>;
          r2 = (if profile = Sdr_profile \<and> \<not> sdr_capability_field (fv_id v) \<and> fv_id v \<noteq> DiscreteIO32_id
                then r1\<lparr>rq_unsupported := (rq_unsupported r1)[i := True]\<rparr> else r1);
          capability_attribute = (fv_attribute v = Minimum \<or> fv_attribute v = Maximum)
      in if profile = Sdr_profile \<and> cm_action (rq_cam r) = 0 \<and> fv_kind v = Body_selectors \<and> capability_attribute
         then Inr (let r3 = r2\<lparr>rq_capability_query := True\<rparr>
           in if \<not> sdr_capability_field (fv_id v) then r3\<lparr>rq_unsupported := (rq_unsupported r3)[i := True]\<rparr> else r3)
         else if fv_attribute v \<noteq> Current
            \<or> (fv_id v = RFReferenceFrequency_id \<and> profile \<noteq> Iq_frequency_tunable \<and> profile \<noteq> Sdr_profile)
         then Inr (r2\<lparr>rq_unsupported := (rq_unsupported r2)[i := True]\<rparr>)
         else if fv_kind v = Body_values
         then and_then (field_value v) (\<lambda>x. Inr (r2\<lparr>rq_values := (rq_values r2)[i := x]\<rparr>))
         else Inr r2)"

definition add_view :: "command_profile \<Rightarrow> field_view \<Rightarrow> request \<Rightarrow> request result" where
  "add_view profile v r =
     (if field_index (fv_id v) = state_field_capacity then Inl (err Unsupported_capability)
      else let i = index_from (fv_id v) (take (rq_count r) (rq_fields r)) 0 in
        if i = rq_count r
        then (if rq_count r = (if profile = Sdr_profile \<and> cm_action (rq_cam r) = 0 then 5 else 4)
              then Inl (err Resource_limit)
              else note_view profile i v (r\<lparr>rq_fields := (rq_fields r)[i := fv_id v],
                     rq_values := (rq_values r)[i := placeholder (fv_id v)], rq_count := rq_count r + 1\<rparr>))
        else note_view profile i v r)"

primrec add_views :: "command_profile \<Rightarrow> field_view list \<Rightarrow> request \<Rightarrow> request result" where
  "add_views profile [] r = Inr r"
| "add_views profile (v # vs) r = and_then (add_view profile v r) (add_views profile vs)"

definition sdr_envelope_ok :: "packet_view \<Rightarrow> bool" where
  "sdr_envelope_ok packet \<longleftrightarrow> (let e = view_envelope (pv_envelope packet) in
     \<not> (env_class_id e \<noteq> None \<or> (case env_stream_id e of None \<Rightarrow> True | Some sid \<Rightarrow> sid < 1 \<or> sid > 4)
        \<or> ts_tsi (env_timestamp e) \<noteq> Tsi_utc \<or> ts_tsf (env_timestamp e) \<noteq> Tsf_picoseconds
        \<or> (case env_command e of None \<Rightarrow> True | Some command \<Rightarrow> cmd_message_id command = 0)
        \<or> length (view_wire (pv_envelope packet)) > 1024))"

definition check_capability_query :: "request \<Rightarrow> request" where
  "check_capability_query r = (if rq_capability_query r
     then r\<lparr>rq_unsupported := map (\<lambda>i. if i < rq_count r
             \<and> rq_attributes r ! i \<noteq> attribute_bit Minimum OR attribute_bit Maximum
           then True else rq_unsupported r ! i) [0..<length (rq_unsupported r)]\<rparr>
     else r)"

definition request_from :: "packet_view \<Rightarrow> command_profile \<Rightarrow> request result" where
  "request_from packet profile =
     and_then (parse_cam (view_envelope (pv_envelope packet)) profile) (\<lambda>c.
       if profile = Sdr_profile \<and> \<not> sdr_envelope_ok packet then Inl (err Unsupported_capability)
       else and_then (add_views profile (pv_fields packet)
              (no_request\<lparr>rq_envelope := view_envelope (pv_envelope packet), rq_cam := c\<rparr>)) (\<lambda>r.
         if profile = Sdr_profile \<and> rq_count r = 0 then Inl (err Invalid_argument)
         else Inr (check_capability_query r)))"

definition mark_not_executed :: "diagnostics \<Rightarrow> diagnostics" where
  "mark_not_executed d = (if dg_warnings d \<noteq> 0 \<and> dg_errors d = 0 then add_warnings not_executed d
     else add_errors not_executed d)"

section \<open>Engine state\<close>

record planning_storage =
  pl_request :: request
  pl_execution :: execution_plan
  pl_trace_key :: trace_key
  pl_outcomes :: "field_outcome list"
  pl_tokens :: "completion_token list"
  pl_ticket_operations :: "nat list"
  pl_timing :: timing_capabilities
  pl_requested_time :: protocol_time
  pl_time_known :: bool
  pl_data_running :: bool
  pl_schedule_valid :: bool
  pl_cancelled :: "bool list"
  pl_revisions :: revision_reservation

record transaction_record =
  tn_active :: bool
  tn_complete :: bool
  tn_revalidated :: bool
  tn_running :: bool
  tn_generation :: nat
  tn_sequence :: nat
  tn_step :: nat
  tn_running_field :: nat
  tn_response_read :: nat
  tn_responses :: "ack_record list"
  tn_hypothetical :: state_snapshot

record slot =
  sl_plan :: planning_storage
  sl_record :: transaction_record
  sl_credits :: admission_bundle

text \<open>The options and callbacks planning and execution read. \<open>None\<close> is a null function pointer.\<close>

record engine_env =
  eo_profile :: command_profile
  eo_timeline :: "timeline option"
  eo_sdr_capabilities :: "sdr_capabilities option"
  eo_validate :: "(field_id \<Rightarrow> semantic_value \<Rightarrow> state_snapshot \<Rightarrow> validation) option"
  eo_validate_plan :: "(execution_plan \<Rightarrow> state_snapshot \<Rightarrow> bool) option"
  eo_has_commit :: bool
  eo_has_simulate :: bool
  eo_simulate :: "planned_field \<Rightarrow> state_snapshot \<Rightarrow> boundary \<Rightarrow> field_outcome"
  eo_observe :: "(state_snapshot \<Rightarrow> operation_context \<Rightarrow> state_snapshot) option"
  eo_has_effects :: bool
  eo_trace :: trace_binding

section \<open>Validation of one field\<close>

definition requests_field :: "request \<Rightarrow> field_id \<Rightarrow> bool" where
  "requests_field r i \<longleftrightarrow> list_ex (\<lambda>k. rq_fields r ! k = i) [0..<rq_count r]"

definition requested_hertz :: "request \<Rightarrow> field_id \<Rightarrow> int option" where
  "requested_hertz r i = fold (\<lambda>k acc. if rq_fields r ! k = i then get_hertz (rq_values r ! k) else acc)
     [0..<rq_count r] None"

definition sdr_configuration :: "request \<Rightarrow> bool" where
  "sdr_configuration r \<longleftrightarrow> rq_count r = 4 \<and> requests_field r SampleRate_id \<and> requests_field r RFReferenceFrequency_id
     \<and> requests_field r Bandwidth_id \<and> requests_field r Gain_id"

definition sdr_lifecycle :: "request \<Rightarrow> bool" where
  "sdr_lifecycle r \<longleftrightarrow> rq_count r = 1 \<and> requests_field r DiscreteIO32_id"

text \<open>Another active command is waiting to start the stream.\<close>

definition armed :: "slot list \<Rightarrow> nat \<Rightarrow> bool" where
  "armed slots k \<longleftrightarrow> list_ex (\<lambda>j. j \<noteq> k \<and> (let other = slots ! j; r = pl_request (sl_plan other) in
     tn_active (sl_record other) \<and> \<not> tn_complete (sl_record other) \<and> cm_action (rq_cam r) = 2 \<and> rq_count r = 1
     \<and> rq_fields r ! 0 = DiscreteIO32_id \<and> get_uint32 (rq_values r ! 0) = Some 3
     \<and> pf_eligible (ep_fields (pl_execution (sl_plan other)) ! 0) \<and> \<not> pl_cancelled (sl_plan other) ! 0)) [0..<length slots]"

definition configured :: "state_snapshot \<Rightarrow> bool" where
  "configured s \<longleftrightarrow> known_at s 1 \<and> known_at s 4 \<and> known_at s 5 \<and> known_at s 6"

definition refuse_more :: "u32 \<Rightarrow> validation \<Rightarrow> validation" where
  "refuse_more bits v = v\<lparr>vl_resolvable := False, vl_diagnostics := add_errors bits (vl_diagnostics v)\<rparr>"

definition profile_validate :: "command_profile \<Rightarrow> field_id \<Rightarrow> semantic_value \<Rightarrow> validation" where
  "profile_validate p i v = (if p = Iq_generator_v1 then iq_validate i v
     else if p = Iq_frequency_tunable then tunable_validate i v
     else if p = Sdr_profile then sdr_validate i v else accept_value v)"

definition capability_supports :: "sdr_capabilities \<Rightarrow> field_id \<Rightarrow> semantic_value \<Rightarrow> bool" where
  "capability_supports c i v =
     (if i = RFReferenceFrequency_id then (case get_hertz v of None \<Rightarrow> False
        | Some q \<Rightarrow> supported_accepts (sc_center_values c) q \<and> in_range (sc_center_frequency c) q)
      else if i = SampleRate_id then (case get_hertz v of None \<Rightarrow> False
        | Some q \<Rightarrow> supported_accepts (sc_sample_rate_values c) q \<and> in_range (sc_sample_rate c) q)
      else if i = Bandwidth_id then (case get_hertz v of None \<Rightarrow> False
        | Some q \<Rightarrow> supported_accepts (sc_bandwidth_values c) q \<and> in_range (sc_bandwidth c) q)
      else if i = Gain_id then (case get_gain v of None \<Rightarrow> False
        | Some (a, b) \<Rightarrow> supported_accepts (sc_gain_values c) a \<and> in_range (sc_gain c) a \<and> in_range (sc_gain_stage2 c) b)
      else True)"

definition backend_validate :: "engine_env \<Rightarrow> field_id \<Rightarrow> state_snapshot \<Rightarrow> validation \<Rightarrow> validation" where
  "backend_validate env i s v = (case eo_validate env of None \<Rightarrow> v
     | Some f \<Rightarrow> let extra = f i (vl_adjusted v) s;
           extra' = (if eo_profile env = Sdr_profile \<and> vl_adjusted extra \<noteq> vl_adjusted v
             then refuse_more precision extra else extra)
         in \<lparr>vl_adjusted = vl_adjusted extra',
              vl_diagnostics = \<lparr>dg_warnings = dg_warnings (vl_diagnostics v) OR dg_warnings (vl_diagnostics extra'),
                dg_errors = dg_errors (vl_diagnostics v) OR dg_errors (vl_diagnostics extra')\<rparr>,
              vl_resolvable = (vl_resolvable v \<and> vl_resolvable extra'), vl_dependencies = vl_dependencies extra'\<rparr>)"

definition native_ok :: "command_profile \<Rightarrow> field_id \<Rightarrow> semantic_value \<Rightarrow> bool" where
  "native_ok p i v \<longleftrightarrow> validate_value i v True = Inr ()
     \<and> (p = Iq_frequency_tunable \<longrightarrow> vl_resolvable (tunable_validate i v))
     \<and> (p = Sdr_profile \<longrightarrow> vl_resolvable (sdr_validate i v))"

text \<open>The value checks of one field, in the order of the code: each later check runs only while the value
  is resolvable.\<close>

definition check_value :: "engine_env \<Rightarrow> request \<Rightarrow> state_snapshot \<Rightarrow> nat \<Rightarrow> validation" where
  "check_value env r s k =
     (let p = eo_profile env; i = rq_fields r ! k; x = rq_values r ! k in
      if rq_unsupported r ! k \<or> (p = Sdr_profile \<and> \<not> sdr_capability_field i \<and> i \<noteq> DiscreteIO32_id)
      then refuse_value unsupported x
      else if cm_action (rq_cam r) = 0 then accept_value x
      else let v1 = profile_validate p i x;
               v2 = (case eo_sdr_capabilities env of None \<Rightarrow> v1
                 | Some c \<Rightarrow> if vl_resolvable v1 \<and> p = Sdr_profile \<and> \<not> capability_supports c i x
                     then refuse_more range_error v1 else v1);
               v3 = (if vl_resolvable v2 then backend_validate env i s v2 else v2)
           in if vl_resolvable v3 \<and> \<not> native_ok p i (vl_adjusted v3) then refuse_more invalid_value v3 else v3)"

definition refuse_if :: "bool \<Rightarrow> u32 \<Rightarrow> validation \<Rightarrow> validation" where
  "refuse_if b bits v = (if b then refuse_more bits v else v)"

text \<open>The checks on the command as a whole, applied to each of its fields.\<close>

definition check_command :: "engine_env \<Rightarrow> request \<Rightarrow> bool \<Rightarrow> bool \<Rightarrow> state_snapshot \<Rightarrow> nat \<Rightarrow> validation \<Rightarrow> validation" where
  "check_command env r data_running arm s k v =
     (let p = eo_profile env; i = rq_fields r ! k; action = cm_action (rq_cam r); sdr = (p = Sdr_profile);
          rate = requested_hertz r SampleRate_id; bandwidth = requested_hertz r Bandwidth_id;
          mixed = (p = Iq_frequency_tunable \<and> action \<noteq> 0 \<and> requests_field r SampleRate_id
            \<and> requests_field r RFReferenceFrequency_id);
          incomplete = (sdr \<and> action \<noteq> 0 \<and> (\<not> (sdr_configuration r \<or> sdr_lifecycle r)
            \<or> (sdr_configuration r \<and> (data_running \<or> arm))));
          incompatible = (case (rate, bandwidth) of (Some q, Some b) \<Rightarrow> b > q | _ \<Rightarrow> False);
          discrete = get_uint32 (rq_values r ! k); start = (discrete = Some 3);
          bad_lifecycle = (sdr \<and> action \<noteq> 0 \<and> i = DiscreteIO32_id
            \<and> (discrete = None \<or> (start \<and> (data_running \<or> arm \<or> \<not> configured s)) \<or> (start \<and> cm_timing (rq_cam r) \<noteq> 1)
               \<or> (\<not> start \<and> cm_timing (rq_cam r) \<noteq> 0)));
          unsupported_pair = (sdr \<and> sdr_configuration r \<and> (case (rate, bandwidth, eo_sdr_capabilities env) of
              (Some q, Some b, Some c) \<Rightarrow> \<not> capabilities_support c b q | _ \<Rightarrow> False))
      in refuse_if (unsupported_pair \<and> i = Bandwidth_id) range_error
         (refuse_if (incompatible \<and> i = Bandwidth_id) range_error
         (refuse_if bad_lifecycle timing_error
         (refuse_if incomplete unsupported
         (refuse_if (sdr \<and> sdr_configuration r \<and> action = 2 \<and> \<not> eo_has_commit env) unsupported
         (refuse_if (sdr \<and> action \<noteq> 0 \<and> cm_partial (rq_cam r)) unsupported
         (refuse_if mixed unsupported v)))))))"

section \<open>Dependencies\<close>

definition targets_of :: "u8 \<Rightarrow> nat list" where
  "targets_of deps = filter (bit deps) [0..<state_field_capacity]"

definition fields_at :: "request \<Rightarrow> nat \<Rightarrow> nat list" where
  "fields_at r target = filter (\<lambda>j. rq_fields r ! j = state_fields ! target) [0..<rq_count r]"

definition plan_field :: "engine_env \<Rightarrow> request \<Rightarrow> bool \<Rightarrow> bool \<Rightarrow> bool \<Rightarrow> state_snapshot \<Rightarrow> nat \<Rightarrow> planned_field" where
  "plan_field env r time_known data_running arm s k =
     (let v = check_command env r data_running arm s k (check_value env r s k);
          targets = targets_of (vl_dependencies v);
          missing = list_ex (\<lambda>t. fields_at r t = [] \<and> \<not> known_at s t) targets
      in \<lparr>pf_id = rq_fields r ! k, pf_requested = rq_values r ! k, pf_adjusted = vl_adjusted v,
          pf_dependency_mask = mask_of (concat (map (fields_at r) targets)),
          pf_eligible = (cam_eligible (rq_cam r) (vl_diagnostics v) (vl_resolvable v) \<and> \<not> missing),
          pf_diagnostics = (if missing then add_errors dependency_blocked (vl_diagnostics v) else vl_diagnostics v),
          pf_time_known = time_known, pf_ordinal_known = data_running\<rparr>)"

definition ready_field :: "planned_field list \<Rightarrow> u8 \<Rightarrow> nat \<Rightarrow> bool" where
  "ready_field fs visited i \<longleftrightarrow> \<not> bit visited i \<and> pf_dependency_mask (fs ! i) AND NOT visited = 0"

primrec order_loop :: "planned_field list \<Rightarrow> nat \<Rightarrow> nat list \<Rightarrow> u8 \<Rightarrow> nat list \<Rightarrow> nat list \<times> bool" where
  "order_loop fs n [] visited order = (order, True)"
| "order_loop fs n (p # ps) visited order =
     (case find (ready_field fs visited) [0..<n] of None \<Rightarrow> (order, False)
      | Some i \<Rightarrow> order_loop fs n ps (visited OR push_bit i 1) (order[p := i]))"

definition blocked_by :: "nat \<Rightarrow> planned_field list \<Rightarrow> planned_field \<Rightarrow> bool" where
  "blocked_by n fs f \<longleftrightarrow> list_ex (\<lambda>d. bit (pf_dependency_mask f) d \<and> \<not> pf_eligible (fs ! d)) [0..<n]"

definition refuse_field :: "u32 \<Rightarrow> planned_field \<Rightarrow> planned_field" where
  "refuse_field bits f = f\<lparr>pf_eligible := False, pf_diagnostics := add_errors bits (pf_diagnostics f)\<rparr>"

text \<open>Both passes that block dependents walk the plan in execution order.\<close>

primrec block_dependents :: "u32 \<Rightarrow> nat \<Rightarrow> nat list \<Rightarrow> planned_field list \<Rightarrow> bool \<Rightarrow> planned_field list \<times> bool" where
  "block_dependents bits n [] fs all = (fs, all)"
| "block_dependents bits n (i # is) fs all =
     (let f = (if blocked_by n fs (fs ! i) then refuse_field bits (fs ! i) else fs ! i)
      in block_dependents bits n is (fs[i := f]) (all \<and> pf_eligible f))"

definition map_first :: "nat \<Rightarrow> ('a \<Rightarrow> 'a) \<Rightarrow> 'a list \<Rightarrow> 'a list" where
  "map_first n f xs = map f (take n xs) @ drop n xs"

definition withdraw :: "planned_field \<Rightarrow> planned_field" where
  "withdraw f = f\<lparr>pf_eligible := False\<rparr>"

definition mark_field :: "planned_field \<Rightarrow> planned_field" where
  "mark_field f = (if pf_eligible f then f else f\<lparr>pf_diagnostics := mark_not_executed (pf_diagnostics f)\<rparr>)"

section \<open>The plan\<close>

text \<open>What is decided once the order is known; \<open>plan\<close> carries fields, count and order.\<close>

definition decide_plan :: "engine_env \<Rightarrow> request \<Rightarrow> state_snapshot \<Rightarrow> execution_plan \<Rightarrow> execution_plan" where
  "decide_plan env r s plan =
     (let n = ep_count plan;
          (fs1, all1) = block_dependents dependency_blocked n (take n (ep_order plan)) (ep_fields plan) True;
          rejected = (cm_action (rq_cam r) \<noteq> 0 \<and> (case eo_validate_plan env of None \<Rightarrow> False
            | Some f \<Rightarrow> \<not> f (plan\<lparr>ep_fields := fs1\<rparr>) s));
          all = (all1 \<and> \<not> rejected);
          fs2 = (if rejected then map (refuse_field invalid_value) fs1 else fs1);
          fs3 = (if (\<not> cm_partial (rq_cam r) \<or> eo_profile env = Sdr_profile) \<and> \<not> all then map_first n withdraw fs2 else fs2)
      in plan\<lparr>ep_fields := map_first n mark_field fs3\<rparr>)"

definition validate_plan :: "engine_env \<Rightarrow> bool \<Rightarrow> planning_storage \<Rightarrow> state_snapshot \<Rightarrow> planning_storage \<times> unit result" where
  "validate_plan env arm pl s =
     (let r = pl_request pl; n = rq_count r; plan = pl_execution pl;
          fs = map (plan_field env r (pl_time_known pl) (pl_data_running pl) arm s) [0..<n] @ drop n (ep_fields plan);
          (order, found) = order_loop fs n [0..<n] 0 (ep_order plan);
          plan' = plan\<lparr>ep_count := n, ep_expected_state_version := ss_version s, ep_fields := fs, ep_order := order\<rparr>
      in if \<not> found then (pl\<lparr>pl_execution := plan'\<rparr>, Inl (err Invalid_argument))
         else (pl\<lparr>pl_execution := decide_plan env r s plan'\<rparr>, Inr ()))"

text \<open>\<open>validate_boundary_state\<close>: can the stream's timeline take the new rate at the chosen boundary?\<close>

definition rate_fits :: "timeline \<Rightarrow> planning_storage \<Rightarrow> planned_field \<Rightarrow> bool" where
  "rate_fits line pl f =
     (let b = ep_boundary (pl_execution pl); q = (case get_hertz (pf_adjusted f) of None \<Rightarrow> 0 | Some q \<Rightarrow> q);
          (line', ok) = (if \<not> pl_data_running pl then (line, True)
            else if bd_sample_ordinal b < tl_ordinal line \<or> bd_committed b then (line, False)
            else case advance line (bd_sample_ordinal b - tl_ordinal line) of
                (line', Inl _) \<Rightarrow> (line', False) | (line', Inr _) \<Rightarrow> (line', ex_time (tl_current line') = bd_time b))
      in ok \<and> q > 0 \<and> q smod hz_unit = 0
         \<and> (case change_rate line' (nat (q div hz_unit)) of (_, Inl _) \<Rightarrow> False | (_, Inr _) \<Rightarrow> True))"

definition check_rate :: "timeline \<Rightarrow> planning_storage \<Rightarrow> planned_field \<Rightarrow> planned_field" where
  "check_rate line pl f = (if pf_eligible f \<and> pf_id f = SampleRate_id \<and> \<not> rate_fits line pl f
     then refuse_field (resource_exhausted OR not_executed) f else f)"

definition validate_boundary_state :: "engine_env \<Rightarrow> planning_storage \<Rightarrow> planning_storage" where
  "validate_boundary_state env pl =
     (case eo_timeline env of None \<Rightarrow> pl
      | Some line \<Rightarrow>
          if cm_action (rq_cam (pl_request pl)) = 0 then pl
          else let plan = pl_execution pl; n = ep_count plan;
                   fs1 = map_first n (check_rate line pl) (ep_fields plan);
                   (fs2, all) = block_dependents (dependency_blocked OR not_executed) n (take n (ep_order plan)) fs1 True;
                   fs3 = (if (\<not> cm_partial (rq_cam (pl_request pl)) \<or> eo_profile env = Sdr_profile) \<and> \<not> all
                     then map_first n (\<lambda>f. mark_field (withdraw f)) fs2 else fs2)
               in pl\<lparr>pl_execution := plan\<lparr>ep_fields := fs3\<rparr>\<rparr>)"


section \<open>Execution order\<close>

lemma ready_field_iff: "ready_field fs V i \<longleftrightarrow> \<not> bit V i \<and> (\<forall>d. bit (pf_dependency_mask (fs ! i)) d \<longrightarrow> bit V d)"
proof -
  have "pf_dependency_mask (fs ! i) AND NOT V = 0 \<longleftrightarrow> (\<forall>d. bit (pf_dependency_mask (fs ! i)) d \<longrightarrow> bit V d)"
    by (auto simp: bit_eq_iff bit_and_iff bit_not_iff)
  then show ?thesis by (simp add: ready_field_def)
qed

text \<open>\<open>ordered fs order n\<close>: the first \<open>n\<close> entries name fields once each, dependencies first.\<close>

definition ordered :: "planned_field list \<Rightarrow> nat list \<Rightarrow> nat \<Rightarrow> bool" where
  "ordered fs order n \<longleftrightarrow> distinct (take n order)
     \<and> (\<forall>p < n. \<forall>d. bit (pf_dependency_mask (fs ! (order ! p))) d \<longrightarrow> d \<in> set (take p order))"

lemma order_loop_ordered:
  assumes "order_loop fs n [p..<n] V order = (order', True)" "p \<le> n" "n \<le> length order" "n \<le> 8"
    "ordered fs order p" "\<And>i. bit V i \<longleftrightarrow> i \<in> set (take p order)" "set (take p order) \<subseteq> {..<n}"
  shows "ordered fs order' n \<and> set (take n order') = {..<n} \<and> length order' = length order"
  using assms
proof (induction "n - p" arbitrary: p V order)
  case 0
  then have "p = n" by simp
  then have "order' = order" "distinct (take n order)" "set (take n order) \<subseteq> {..<n}"
    using 0 by (auto simp: ordered_def)
  moreover have "card (set (take n order)) = n" using calculation(2) 0(4) by (simp add: distinct_card)
  ultimately have "set (take n order) = {..<n}" by (intro card_subset_eq) simp_all
  then show ?case using 0(6) \<open>p = n\<close> \<open>order' = order\<close> by simp
next
  case (Suc m)
  then have p: "p < n" by simp
  then have upt: "[p..<n] = p # [p + 1..<n]" by (simp add: upt_conv_Cons)
  from Suc.prems(1) obtain i where i: "find (ready_field fs V) [0..<n] = Some i"
    and rest: "order_loop fs n [p + 1..<n] (V OR push_bit i 1) (order[p := i]) = (order', True)"
    by (auto simp: upt split: option.splits)
  from i have "i < n" and ready: "ready_field fs V i" by (auto simp: find_Some_iff)
  have fresh: "i \<notin> set (take p order)" and deps: "\<And>d. bit (pf_dependency_mask (fs ! i)) d \<Longrightarrow> d \<in> set (take p order)"
    using ready Suc.prems(6) by (auto simp: ready_field_iff)
  have take': "take (p + 1) (order[p := i]) = take p order @ [i]"
    using p Suc.prems(3) by (simp add: take_Suc_conv_app_nth)
  have prefix: "take q (order[p := i]) = take q order" if "q \<le> p" for q using that by simp
  have bits: "bit (V OR push_bit i 1) k \<longleftrightarrow> k \<in> set (take (p + 1) (order[p := i]))" for k
    using \<open>i < n\<close> Suc.prems(4) unfolding take' bit_or_iff bit_single_u8 Suc.prems(6) by auto
  have ord: "ordered fs (order[p := i]) (p + 1)"
    unfolding ordered_def take'
  proof (intro conjI allI impI)
    show "distinct (take p order @ [i])" using fresh Suc.prems(5) by (simp add: ordered_def)
    fix q d assume q: "q < p + 1" and d: "bit (pf_dependency_mask (fs ! (order[p := i] ! q))) d"
    show "d \<in> set (take q (order[p := i]))"
    proof (cases "q = p")
      case True
      then show ?thesis using d deps p Suc.prems(3) by simp
    next
      case False
      then show ?thesis using d q Suc.prems(5) p Suc.prems(3) by (auto simp: ordered_def)
    qed
  qed
  have m: "m = n - (p + 1)" and le: "p + 1 \<le> n" "n \<le> length (order[p := i])" using Suc.hyps(2) p Suc.prems(3) by auto
  have sub: "set (take (p + 1) (order[p := i])) \<subseteq> {..<n}" unfolding take' using Suc.prems(7) \<open>i < n\<close> by simp
  show ?case using Suc.hyps(1) [OF m rest le Suc.prems(4) ord bits sub] by simp
qed

lemma order_loop_finds:
  assumes rank: "\<And>i d. i < n \<Longrightarrow> bit (pf_dependency_mask (fs ! i)) d \<Longrightarrow> d < n \<and> (rank d :: nat) < rank i"
    and "n \<le> 8" "distinct used" "set used \<subseteq> {..<n}" "\<And>i. bit V i \<longleftrightarrow> i \<in> set used" "length used + length ps = n"
  shows "snd (order_loop fs n ps V order)"
  using assms(3-)
proof (induction ps arbitrary: used V order)
  case (Cons p ps)
  let ?left = "{..<n} - set used"
  have "card (set used) < n" using Cons.prems by (simp add: distinct_card)
  then have "?left \<noteq> {}" using card_mono [of "set used" "{..<n}"] by auto
  then obtain k where "k \<in> ?left" by blast
  then obtain i where i: "i \<in> ?left" and least: "\<And>k. k \<in> ?left \<Longrightarrow> rank i \<le> rank k"
    using ex_has_least_nat [of "\<lambda>k. k \<in> ?left" k rank] by blast
  have "bit V d" if "bit (pf_dependency_mask (fs ! i)) d" for d
    using rank [of i d] least [of d] that i Cons.prems(3) by force
  then have "ready_field fs V i" using i Cons.prems(3) by (simp add: ready_field_iff)
  then obtain j where j: "find (ready_field fs V) [0..<n] = Some j"
    using i by (cases "find (ready_field fs V) [0..<n]") (auto simp: find_None_iff)
  then have "j < n" "j \<notin> set used" using Cons.prems(3) by (auto simp: find_Some_iff ready_field_iff)
  moreover have "bit (V OR push_bit j 1) k \<longleftrightarrow> k \<in> set (used @ [j])" for k
    using \<open>j < n\<close> assms(2) unfolding bit_or_iff bit_single_u8 Cons.prems(3) by auto
  ultimately show ?case using Cons.IH [of "used @ [j]" "V OR push_bit j 1" "order[p := j]"] Cons.prems j by simp
qed simp

section \<open>Blocking dependents\<close>

text \<open>Everything of a planned field but its fate.\<close>

definition core :: "planned_field \<Rightarrow> planned_field" where
  "core f = f\<lparr>pf_eligible := False, pf_diagnostics := no_diagnostics\<rparr>"

definition weaker :: "planned_field list \<Rightarrow> planned_field list \<Rightarrow> bool" where
  "weaker fs fs' \<longleftrightarrow> list_all2 (\<lambda>f f'. core f' = core f \<and> (pf_eligible f' \<longrightarrow> pf_eligible f)) fs fs'"

definition dependents_closed :: "nat \<Rightarrow> planned_field list \<Rightarrow> bool" where
  "dependents_closed n fs \<longleftrightarrow> (\<forall>i < n. pf_eligible (fs ! i) \<longrightarrow>
     (\<forall>d < n. bit (pf_dependency_mask (fs ! i)) d \<longrightarrow> pf_eligible (fs ! d)))"

lemma core_sel:
  "core f = core g \<Longrightarrow> pf_id f = pf_id g \<and> pf_adjusted f = pf_adjusted g \<and> pf_dependency_mask f = pf_dependency_mask g"
  by (cases f; cases g) (simp add: core_def)

lemma weaker_refl: "weaker fs fs"
  by (simp add: weaker_def list_all2_refl)

lemma weaker_trans: "weaker a b \<Longrightarrow> weaker b c \<Longrightarrow> weaker a c"
  by (auto simp: weaker_def list_all2_conv_all_nth)

lemma weaker_length: "weaker fs fs' \<Longrightarrow> length fs' = length fs"
  by (simp add: weaker_def list_all2_lengthD)

lemma weaker_nth:
  assumes "weaker fs fs'" "i < length fs"
  shows "core (fs' ! i) = core (fs ! i)" "pf_eligible (fs' ! i) \<Longrightarrow> pf_eligible (fs ! i)"
    "pf_dependency_mask (fs' ! i) = pf_dependency_mask (fs ! i)" "pf_id (fs' ! i) = pf_id (fs ! i)"
    "pf_adjusted (fs' ! i) = pf_adjusted (fs ! i)"
proof -
  show core: "core (fs' ! i) = core (fs ! i)" and "pf_eligible (fs' ! i) \<Longrightarrow> pf_eligible (fs ! i)"
    using assms by (auto simp: weaker_def list_all2_conv_all_nth)
  show "pf_dependency_mask (fs' ! i) = pf_dependency_mask (fs ! i)" "pf_id (fs' ! i) = pf_id (fs ! i)"
    "pf_adjusted (fs' ! i) = pf_adjusted (fs ! i)" using core_sel [OF core] by auto
qed

lemma weaker_map:
  assumes "\<And>f. core (g f) = core f \<and> (pf_eligible (g f) \<longrightarrow> pf_eligible f)"
  shows "weaker fs (map_first n g fs)" "weaker fs (map g fs)" "weaker fs (fs[i := g (fs ! i)])"
proof -
  have fst: "weaker xs (map g xs)" for xs using assms by (simp add: weaker_def list_all2_conv_all_nth)
  have "weaker (take n fs @ drop n fs) (map_first n g fs)"
    unfolding map_first_def weaker_def using fst [of "take n fs"] weaker_refl [of "drop n fs"]
    by (intro list_all2_appendI) (auto simp: weaker_def)
  then show "weaker fs (map_first n g fs)" by simp
  show "weaker fs (map g fs)" by (rule fst)
  show "weaker fs (fs[i := g (fs ! i)])"
    using assms weaker_refl by (cases "i < length fs") (auto simp: weaker_def list_all2_conv_all_nth nth_list_update)
qed

lemma fate_steps:
  "core (refuse_field bits f) = core f \<and> (pf_eligible (refuse_field bits f) \<longrightarrow> pf_eligible f)"
  "core (withdraw f) = core f \<and> (pf_eligible (withdraw f) \<longrightarrow> pf_eligible f)"
  "core (mark_field f) = core f \<and> (pf_eligible (mark_field f) \<longrightarrow> pf_eligible f)"
  "core (mark_field (withdraw f)) = core f \<and> (pf_eligible (mark_field (withdraw f)) \<longrightarrow> pf_eligible f)"
  "core (check_rate line pl f) = core f \<and> (pf_eligible (check_rate line pl f) \<longrightarrow> pf_eligible f)"
  by (auto simp: core_def refuse_field_def withdraw_def mark_field_def check_rate_def)

lemma fate_eligible [simp]:
  "\<not> pf_eligible (refuse_field bits f)" "\<not> pf_eligible (withdraw f)" "pf_eligible (mark_field f) = pf_eligible f"
  by (simp_all add: refuse_field_def withdraw_def mark_field_def)

lemma nth_map_first: "i < length xs \<Longrightarrow> map_first n g xs ! i = (if i < n then g (xs ! i) else xs ! i)"
  by (simp add: map_first_def nth_append min_def)

lemma length_map_first [simp]: "length (map_first n g xs) = length xs"
  by (simp add: map_first_def)

lemma block_dependents_spec:
  assumes "block_dependents bits n is fs all = (fs', all')" "distinct is"
  shows "weaker fs fs' \<and> (\<forall>j. j \<notin> set is \<longrightarrow> fs' ! j = fs ! j)
    \<and> (set is \<subseteq> {..<length fs} \<longrightarrow> (all' \<longleftrightarrow> all \<and> (\<forall>i \<in> set is. pf_eligible (fs' ! i))))"
  using assms
proof (induction "is" arbitrary: fs all)
  case (Cons i "is")
  define g where "g = (if blocked_by n fs (fs ! i) then refuse_field bits (fs ! i) else fs ! i)"
  have step: "block_dependents bits n is (fs[i := g]) (all \<and> pf_eligible g) = (fs', all')"
    using Cons.prems(1) by (simp add: g_def Let_def)
  note IH = Cons.IH [OF step] 
  have "weaker fs (fs[i := g])"
    using weaker_map(3) [of "refuse_field bits" fs i] weaker_refl [of fs] fate_steps(1) by (simp add: g_def)
  moreover have "i < length fs \<Longrightarrow> fs' ! i = g" using IH Cons.prems(2) by simp
  ultimately show ?case using IH Cons.prems(2) by (auto intro: weaker_trans)
qed (simp add: weaker_refl)

lemma block_dependents_closed:
  assumes "block_dependents bits n is fs all = (fs', all')" "distinct is" "set is \<subseteq> {..<length fs}"
    "\<And>k d. k < length is \<Longrightarrow> bit (pf_dependency_mask (fs ! (is ! k))) d \<Longrightarrow> d \<notin> set (drop k is)"
    "i \<in> set is" "pf_eligible (fs' ! i)" "d < n" "bit (pf_dependency_mask (fs' ! i)) d"
  shows "pf_eligible (fs' ! d)"
  using assms
proof (induction "is" arbitrary: fs all)
  case (Cons j "is")
  define g where "g = (if blocked_by n fs (fs ! j) then refuse_field bits (fs ! j) else fs ! j)"
  have step: "block_dependents bits n is (fs[j := g]) (all \<and> pf_eligible g) = (fs', all')"
    using Cons.prems(1) by (simp add: g_def Let_def)
  note whole = block_dependents_spec [OF Cons.prems(1,2)] and rest = block_dependents_spec [OF step]
  have masks: "pf_dependency_mask (fs[j := g] ! k) = pf_dependency_mask (fs ! k)" for k
    by (cases "j < length fs"; cases "k = j") (simp_all add: g_def refuse_field_def list_update_beyond)
  show ?case
  proof (cases "i = j")
    case True
    have d: "bit (pf_dependency_mask (fs ! j)) d"
      using Cons.prems(3,8) whole True weaker_nth(3) [of fs fs' j] by simp
    then have "d \<notin> set (j # is)" using Cons.prems(4) [of 0 d] by simp
    then have same: "fs' ! d = fs ! d" using whole by blast
    have "fs' ! j = g" using rest Cons.prems(2,3) by simp
    then have "\<not> blocked_by n fs (fs ! j)" using Cons.prems(6) True by (auto simp: g_def split: if_split_asm)
    then show ?thesis using d Cons.prems(7) same by (auto simp: blocked_by_def list_ex_iff)
  next
    case False
    have "d \<notin> set (drop k is)" if "k < length is" "bit (pf_dependency_mask (fs[j := g] ! (is ! k))) d" for k d
      using Cons.prems(4) [of "Suc k" d] that by (simp add: masks)
    then show ?thesis using Cons.IH [OF step] Cons.prems False by simp
  qed
qed simp


lemma ordered_suffix:
  assumes "ordered fs order n" "n \<le> length order" "k < n" "bit (pf_dependency_mask (fs ! (take n order ! k))) d"
  shows "d \<notin> set (drop k (take n order))"
proof
  assume "d \<in> set (drop k (take n order))"
  moreover have "d \<in> set (take k (take n order))"
    using assms by (simp add: ordered_def min_def)
  moreover have "distinct (take k (take n order) @ drop k (take n order))"
    using assms(1) unfolding append_take_drop_id by (simp add: ordered_def)
  ultimately show False by (meson distinct_append disjoint_iff)
qed

text \<open>What both planning passes establish of the first \<open>n\<close> fields.\<close>

lemma block_plan:
  assumes "block_dependents bits n (take n order) fs True = (fs', all)" "ordered fs order n"
    "set (take n order) = {..<n}" "n \<le> length order" "n \<le> length fs"
  shows "weaker fs fs'" "dependents_closed n fs'" "all \<longleftrightarrow> (\<forall>i < n. pf_eligible (fs' ! i))"
proof -
  have dist: "distinct (take n order)" using assms(2) by (simp add: ordered_def)
  note spec = block_dependents_spec [OF assms(1) dist]
  show "weaker fs fs'" "all \<longleftrightarrow> (\<forall>i < n. pf_eligible (fs' ! i))" using spec assms(3,5) by auto
  show "dependents_closed n fs'"
    unfolding dependents_closed_def
  proof (intro allI impI)
    fix i d assume i: "i < n" "pf_eligible (fs' ! i)" "d < n" "bit (pf_dependency_mask (fs' ! i)) d"
    show "pf_eligible (fs' ! d)"
    proof (rule block_dependents_closed [OF assms(1) dist])
      show "set (take n order) \<subseteq> {..<length fs}" using assms(3,5) by auto
      show "d \<notin> set (drop k (take n order))"
        if "k < length (take n order)" "bit (pf_dependency_mask (fs ! (take n order ! k))) d" for k d
        using ordered_suffix [OF assms(2,4)] that by simp
    qed (use i assms(3) in auto)
  qed
qed

lemma ordered_weaker:
  assumes "ordered fs order n" "weaker fs fs'" "set (take n order) = {..<n}" "n \<le> length fs" "n \<le> length order"
  shows "ordered fs' order n"
proof -
  have "order ! p < length fs" if "p < n" for p
    using that assms(3-5) nth_mem [of p "take n order"] by auto
  then show ?thesis using assms(1,2) by (auto simp: ordered_def weaker_nth(3))
qed

lemma ordered_rank:
  assumes ord: "ordered fs order n" and cover: "set (take n order) = {..<n}" and len: "n \<le> length order"
  shows "\<exists>rank :: nat \<Rightarrow> nat. \<forall>i d. i < n \<and> bit (pf_dependency_mask (fs ! i)) d \<longrightarrow> rank d < rank i"
proof -
  have dist: "distinct (take n order)" using ord by (simp add: ordered_def)
  have "\<exists>p < n. order ! p = i" if "i < n" for i
  proof -
    have "i \<in> set (take n order)" using that cover by simp
    then show ?thesis using len by (auto simp: in_set_conv_nth)
  qed
  then obtain rank where rank: "\<And>i. i < n \<Longrightarrow> rank i < n \<and> order ! rank i = i" by metis
  have "rank d < rank i" if "i < n" "bit (pf_dependency_mask (fs ! i)) d" for i d
  proof -
    have "d \<in> set (take (rank i) order)" using that rank [of i] ord by (auto simp: ordered_def)
    then obtain q where q: "q < rank i" "order ! q = d" using len rank [of i] that by (auto simp: in_set_conv_nth)
    then have "q < n" using rank [of i] that by simp
    then have "order ! q \<in> set (take n order)" using len by (auto simp: in_set_conv_nth)
    then have "d < n" using cover q by simp
    then have "rank d = q"
      using nth_eq_iff_index_eq [OF dist, of "rank d" q] rank [of d] \<open>q < n\<close> q(2) len by simp
    then show ?thesis using q by simp
  qed
  then show ?thesis by blast
qed

definition fate_marked :: "diagnostics \<Rightarrow> bool" where
  "fate_marked d \<longleftrightarrow> bit (dg_warnings d) 31 \<or> bit (dg_errors d) 31"

lemma mark_not_executed_marked: "fate_marked (mark_not_executed d)"
  by (simp add: fate_marked_def mark_not_executed_def add_warnings_def add_errors_def not_executed_def bit_or_iff)

lemma mark_field_marked: "\<not> pf_eligible f \<Longrightarrow> fate_marked (pf_diagnostics (mark_field f))"
  by (simp add: mark_field_def mark_not_executed_marked)

text \<open>\<open>plan_sound\<close>: the order is a permutation that respects dependencies, no eligible field depends on
  an ineligible one, a command that does not allow partial execution is all or nothing, and every
  ineligible field is marked as not executed.\<close>

definition plan_sound :: "engine_env \<Rightarrow> request \<Rightarrow> execution_plan \<Rightarrow> bool" where
  "plan_sound env r plan \<longleftrightarrow> (let n = ep_count plan; fs = ep_fields plan in
     ordered fs (ep_order plan) n \<and> set (take n (ep_order plan)) = {..<n} \<and> dependents_closed n fs
     \<and> (cm_partial (rq_cam r) \<and> eo_profile env \<noteq> Sdr_profile \<or> (\<forall>i < n. pf_eligible (fs ! i)) \<or> (\<forall>i < n. \<not> pf_eligible (fs ! i)))
     \<and> (\<forall>i < n. pf_eligible (fs ! i) \<or> fate_marked (pf_diagnostics (fs ! i))))"

lemma dependents_closed_none: "(\<And>i. i < n \<Longrightarrow> \<not> pf_eligible (fs ! i)) \<Longrightarrow> dependents_closed n fs"
  by (simp add: dependents_closed_def)

lemma dependents_closed_mark:
  assumes "dependents_closed n fs" "n \<le> length fs"
  shows "dependents_closed n (map_first n mark_field fs)"
proof -
  have "pf_dependency_mask (mark_field f) = pf_dependency_mask f" for f by (simp add: mark_field_def)
  then show ?thesis using assms by (simp add: dependents_closed_def nth_map_first)
qed

lemma decide_plan_sound:
  assumes ord: "ordered (ep_fields plan) (ep_order plan) n" "set (take n (ep_order plan)) = {..<n}"
    and n: "n = ep_count plan" "n \<le> length (ep_order plan)" "n \<le> length (ep_fields plan)"
  shows "plan_sound env r (decide_plan env r s plan) \<and> weaker (ep_fields plan) (ep_fields (decide_plan env r s plan))
    \<and> ep_count (decide_plan env r s plan) = n \<and> ep_order (decide_plan env r s plan) = ep_order plan"
proof -
  obtain fs1 all1 where b: "block_dependents dependency_blocked n (take n (ep_order plan)) (ep_fields plan) True = (fs1, all1)"
    by fastforce
  define rejected where "rejected \<longleftrightarrow> cm_action (rq_cam r) \<noteq> 0 \<and> (case eo_validate_plan env of None \<Rightarrow> False
            | Some f \<Rightarrow> \<not> f (plan\<lparr>ep_fields := fs1\<rparr>) s)"
  define fs2 where "fs2 = (if rejected then map (refuse_field invalid_value) fs1 else fs1)"
  define whole where "whole \<longleftrightarrow> \<not> cm_partial (rq_cam r) \<or> eo_profile env = Sdr_profile"
  define fs3 where "fs3 = (if whole \<and> \<not> (all1 \<and> \<not> rejected) then map_first n withdraw fs2 else fs2)"
  have plan': "decide_plan env r s plan = plan\<lparr>ep_fields := map_first n mark_field fs3\<rparr>"
    by (simp add: decide_plan_def n(1) [symmetric] b fs3_def fs2_def rejected_def whole_def Let_def)
  note bp = block_plan [OF b ord n(2,3)]
  have len: "n \<le> length fs1" using weaker_length [OF bp(1)] n(3) by simp
  have w2: "weaker fs1 fs2" unfolding fs2_def using weaker_map(2) [OF fate_steps(1)] weaker_refl by simp
  have w3: "weaker fs2 fs3" unfolding fs3_def using weaker_map(1) [OF fate_steps(2)] weaker_refl by simp
  have w4: "weaker fs3 (map_first n mark_field fs3)" by (rule weaker_map(1) [OF fate_steps(3)])
  have w: "weaker (ep_fields plan) (map_first n mark_field fs3)"
    using bp(1) w2 w3 w4 by (blast intro: weaker_trans)
  have len3: "n \<le> length fs3" using len weaker_length [OF w2] weaker_length [OF w3] by simp
  have none2: "\<not> pf_eligible (fs2 ! i)" if rejected "i < n" for i using that len by (simp add: fs2_def)
  have closed3: "dependents_closed n fs3"
  proof (cases "fs3 = fs1")
    case False
    then have "\<not> pf_eligible (fs3 ! i)" if "i < n" for i
      using that none2 len3 weaker_length [OF w3] by (auto simp: fs3_def nth_map_first fs2_def split: if_split_asm)
    then show ?thesis by (rule dependents_closed_none)
  qed (simp add: bp(2))
  have fate: "\<not> whole \<or> (\<forall>i < n. pf_eligible (fs3 ! i)) \<or> (\<forall>i < n. \<not> pf_eligible (fs3 ! i))"
    using bp(3) len3 weaker_length [OF w3] by (auto simp: fs3_def fs2_def nth_map_first)
  have "plan_sound env r (plan\<lparr>ep_fields := map_first n mark_field fs3\<rparr>)"
    unfolding plan_sound_def Let_def
    using ordered_weaker [OF ord(1) w ord(2) n(3,2)] ord(2) dependents_closed_mark [OF closed3 len3] fate len3
      mark_field_marked n(1)
    by (simp add: nth_map_first whole_def) blast
  then show ?thesis using w n(1) by (simp add: plan')
qed


section \<open>Plans are sound and exist exactly for acyclic dependencies\<close>

definition storage_ok :: "planning_storage \<Rightarrow> bool" where
  "storage_ok pl \<longleftrightarrow> rq_count (pl_request pl) \<le> 5 \<and> length (ep_fields (pl_execution pl)) = 5
     \<and> length (ep_order (pl_execution pl)) = 5"

text \<open>The fields as planned before dependencies are followed.\<close>

definition planned_fields :: "engine_env \<Rightarrow> bool \<Rightarrow> planning_storage \<Rightarrow> state_snapshot \<Rightarrow> planned_field list" where
  "planned_fields env arm pl s = map (plan_field env (pl_request pl) (pl_time_known pl) (pl_data_running pl) arm s)
     [0..<rq_count (pl_request pl)] @ drop (rq_count (pl_request pl)) (ep_fields (pl_execution pl))"

definition depends_on :: "planned_field list \<Rightarrow> nat \<Rightarrow> nat \<Rightarrow> bool" where
  "depends_on fs i d \<longleftrightarrow> bit (pf_dependency_mask (fs ! i)) d"

lemma plan_field_mask: "bit (pf_dependency_mask (plan_field env r tk dr arm s k)) d \<Longrightarrow> d < rq_count r"
  by (auto simp: plan_field_def Let_def mask_of_bits fields_at_def)

lemma planned_fields_nth:
  "i < rq_count (pl_request pl) \<Longrightarrow> planned_fields env arm pl s ! i
     = plan_field env (pl_request pl) (pl_time_known pl) (pl_data_running pl) arm s i"
  by (simp add: planned_fields_def nth_append)

lemma length_planned_fields: "storage_ok pl \<Longrightarrow> length (planned_fields env arm pl s) = 5"
  by (simp add: planned_fields_def storage_ok_def)

lemma validate_plan_Inr:
  assumes "validate_plan env arm pl s = (pl', Inr ())" "storage_ok pl"
  shows "plan_sound env (pl_request pl) (pl_execution pl')
    \<and> weaker (planned_fields env arm pl s) (ep_fields (pl_execution pl'))
    \<and> ep_count (pl_execution pl') = rq_count (pl_request pl) \<and> pl_request pl' = pl_request pl"
proof -
  let ?n = "rq_count (pl_request pl)" and ?fs = "planned_fields env arm pl s"
  obtain order found where loop: "order_loop ?fs ?n [0..<?n] 0 (ep_order (pl_execution pl)) = (order, found)" by fastforce
  let ?plan = "(pl_execution pl)\<lparr>ep_count := ?n, ep_expected_state_version := ss_version s, ep_fields := ?fs, ep_order := order\<rparr>"
  have found and pl': "pl' = pl\<lparr>pl_execution := decide_plan env (pl_request pl) s ?plan\<rparr>"
    using assms(1) loop by (auto simp: validate_plan_def Let_def planned_fields_def [symmetric] split: if_split_asm)
  have n: "?n \<le> length (ep_order (pl_execution pl))" "?n \<le> 8" using assms(2) by (auto simp: storage_ok_def)
  have "ordered ?fs order ?n \<and> set (take ?n order) = {..<?n} \<and> length order = length (ep_order (pl_execution pl))"
    by (rule order_loop_ordered [of _ _ 0 0]) (use loop \<open>found\<close> n in \<open>simp_all add: ordered_def\<close>)
  then show ?thesis
    using decide_plan_sound [of ?plan ?n env "pl_request pl" s] n length_planned_fields [OF assms(2), of env arm s] assms(2)
    by (simp add: pl' storage_ok_def)
qed

text \<open>C20: A plan that validates executes every requested field once, each after the fields it depends on;
  no eligible field depends on an ineligible one; without partial execution (and always in the SDR
  profile) either all fields are eligible or none is; every ineligible field is marked as not executed;
  and planning changes nothing of a field but its eligibility and diagnostics.\<close>

theorem validated_plan_is_sound:
  assumes "validate_plan env arm pl s = (pl', Inr ())" "storage_ok pl"
  shows "plan_sound env (pl_request pl) (pl_execution pl')
    \<and> ep_count (pl_execution pl') = rq_count (pl_request pl)
    \<and> weaker (planned_fields env arm pl s) (ep_fields (pl_execution pl'))"
  using validate_plan_Inr [OF assms] by blast

text \<open>C24: The bounded search for an execution order succeeds exactly when the dependencies of the requested
  fields have no cycle (some ranking decreases along every dependency), whatever the backend's
  dependencies are; a cyclic command is refused as invalid before anything is begun.\<close>

theorem plan_order_iff_acyclic:
  assumes "storage_ok pl"
  shows "snd (validate_plan env arm pl s) = (if \<exists>rank :: nat \<Rightarrow> nat. \<forall>i d. i < rq_count (pl_request pl)
      \<and> depends_on (planned_fields env arm pl s) i d \<longrightarrow> rank d < rank i
    then Inr () else Inl (err Invalid_argument))"
proof -
  let ?n = "rq_count (pl_request pl)" and ?fs = "planned_fields env arm pl s"
  obtain order found where loop: "order_loop ?fs ?n [0..<?n] 0 (ep_order (pl_execution pl)) = (order, found)" by fastforce
  have snd: "snd (validate_plan env arm pl s) = (if found then Inr () else Inl (err Invalid_argument))"
    using loop by (simp add: validate_plan_def Let_def planned_fields_def [symmetric])
  have n: "?n \<le> length (ep_order (pl_execution pl))" "?n \<le> 8" using assms by (auto simp: storage_ok_def)
  have less: "d < ?n" if "i < ?n" "depends_on ?fs i d" for i d
    using that plan_field_mask by (fastforce simp: depends_on_def planned_fields_nth)
  have "found" if "\<forall>i d. i < ?n \<and> depends_on ?fs i d \<longrightarrow> (rank d :: nat) < rank i" for rank
  proof -
    have "snd (order_loop ?fs ?n [0..<?n] 0 (ep_order (pl_execution pl)))"
      by (rule order_loop_finds [where rank = rank and used = "[]"])
        (use that less n in \<open>auto simp: depends_on_def\<close>)
    then show ?thesis by (simp add: loop)
  qed
  moreover have "\<exists>rank :: nat \<Rightarrow> nat. \<forall>i d. i < ?n \<and> depends_on ?fs i d \<longrightarrow> rank d < rank i" if found
  proof -
    have "ordered ?fs order ?n \<and> set (take ?n order) = {..<?n} \<and> length order = length (ep_order (pl_execution pl))"
      by (rule order_loop_ordered [of _ _ 0 0]) (use loop that n in \<open>simp_all add: ordered_def\<close>)
    then show ?thesis using ordered_rank [of ?fs order ?n] n by (auto simp: depends_on_def)
  qed
  ultimately have "found \<longleftrightarrow> (\<exists>rank :: nat \<Rightarrow> nat. \<forall>i d. i < ?n \<and> depends_on ?fs i d \<longrightarrow> rank d < rank i)" by blast
  then show ?thesis unfolding snd by (simp only:)
qed


section \<open>Only admissible values are dispatched\<close>

lemma check_value_native:
  assumes "vl_resolvable (check_value env r s k)" "cm_action (rq_cam r) \<noteq> 0"
  shows "native_ok (eo_profile env) (rq_fields r ! k) (vl_adjusted (check_value env r s k))"
  using assms by (auto simp: check_value_def Let_def refuse_more_def split: if_split_asm)

lemma refuse_if_sel [simp]:
  "vl_adjusted (refuse_if b bits v) = vl_adjusted v" "vl_dependencies (refuse_if b bits v) = vl_dependencies v"
  "vl_resolvable (refuse_if b bits v) \<longleftrightarrow> vl_resolvable v \<and> \<not> b"
  by (simp_all add: refuse_if_def refuse_more_def)

lemma check_command_adjusted: "vl_adjusted (check_command env r dr arm s k v) = vl_adjusted v"
  by (simp add: check_command_def Let_def)

lemma check_command_resolvable: "vl_resolvable (check_command env r dr arm s k v) \<Longrightarrow> vl_resolvable v"
  by (simp add: check_command_def Let_def)

lemma plan_field_sel:
  "pf_id (plan_field env r tk dr arm s k) = rq_fields r ! k"
  "pf_adjusted (plan_field env r tk dr arm s k) = vl_adjusted (check_value env r s k)"
  "pf_eligible (plan_field env r tk dr arm s k) \<Longrightarrow>
     vl_resolvable (check_command env r dr arm s k (check_value env r s k))"
  by (simp_all add: plan_field_def Let_def cam_eligible_def check_command_adjusted)

text \<open>What eligibility in a validated plan means for one field.\<close>

lemma eligible_field:
  assumes "validate_plan env arm pl s = (pl', Inr ())" "storage_ok pl"
    and "i < ep_count (pl_execution pl')" "pf_eligible (ep_fields (pl_execution pl') ! i)"
  defines "f \<equiv> ep_fields (pl_execution pl') ! i" and "r \<equiv> pl_request pl"
  shows "pf_id f = rq_fields r ! i" "pf_adjusted f = vl_adjusted (check_value env r s i)"
    "vl_resolvable (check_command env r (pl_data_running pl) arm s i (check_value env r s i))"
proof -
  let ?fs = "planned_fields env arm pl s"
  note vp = validate_plan_Inr [OF assms(1,2)]
  have i: "i < rq_count r" using assms(3) vp by (simp add: r_def)
  then have "i < length ?fs" using assms(2) length_planned_fields [OF assms(2)] by (simp add: storage_ok_def r_def)
  then have w: "pf_id f = pf_id (?fs ! i)" "pf_adjusted f = pf_adjusted (?fs ! i)" "pf_eligible (?fs ! i)"
    using vp assms(4) weaker_nth [of ?fs "ep_fields (pl_execution pl')" i] by (auto simp: f_def)
  note nth = planned_fields_nth [of i pl env arm s, folded r_def, OF i]
  show "pf_id f = rq_fields r ! i" "pf_adjusted f = vl_adjusted (check_value env r s i)"
    "vl_resolvable (check_command env r (pl_data_running pl) arm s i (check_value env r s i))"
    using w unfolding nth by (auto simp: plan_field_sel)
qed

text \<open>Every value a validated plan would execute is one the field can carry on the wire and, in the
  tunable and SDR profiles, one the profile itself accepts, even after the backend has adjusted it.\<close>

theorem eligible_values_are_admissible:
  assumes "validate_plan env arm pl s = (pl', Inr ())" "storage_ok pl" "cm_action (rq_cam (pl_request pl)) \<noteq> 0"
    and "i < ep_count (pl_execution pl')" "pf_eligible (ep_fields (pl_execution pl') ! i)"
  shows "native_ok (eo_profile env) (pf_id (ep_fields (pl_execution pl') ! i)) (pf_adjusted (ep_fields (pl_execution pl') ! i))"
proof -
  note e = eligible_field [OF assms(1,2,4,5)]
  show ?thesis using check_value_native [OF check_command_resolvable [OF e(3)] assms(3)] by (simp add: e)
qed

section \<open>An accepted SDR configuration keeps the device state valid\<close>

text \<open>The effect of executing fields with their adjusted values: what the virtual backend does to its model
  when it accepts a plan (\<open>virtual_commit\<close> of \<open>Backend\<close>, which also has the refusal and the counters).\<close>

definition settle_fields :: "planned_field list \<Rightarrow> field_state list \<Rightarrow> field_state list" where
  "settle_fields fs xs = fold (\<lambda>f xs. xs[field_index (pf_id f) := \<lparr>fs_id = pf_id f, fs_value = pf_adjusted f,
     fs_validity = Known\<rparr>]) fs xs"

definition commit_plan :: "execution_plan \<Rightarrow> state_snapshot \<Rightarrow> state_snapshot" where
  "commit_plan plan s = s\<lparr>ss_fields := settle_fields (take (ep_count plan) (ep_fields plan)) (ss_fields s),
     ss_version := wrap64 (ss_version s + 1)\<rparr>"

lemma sdr_check_value:
  assumes "vl_resolvable (check_value env r s k)" "eo_profile env = Sdr_profile" "cm_action (rq_cam r) \<noteq> 0"
  shows "vl_adjusted (check_value env r s k) = rq_values r ! k" "vl_resolvable (sdr_validate (rq_fields r ! k) (rq_values r ! k))"
proof -
  have keep: "vl_adjusted (sdr_validate i v) = v" for i v
    by (auto simp: sdr_validate_def split: option.splits)
  show adj: "vl_adjusted (check_value env r s k) = rq_values r ! k"
    using assms by (auto simp: check_value_def Let_def profile_validate_def keep backend_validate_def refuse_more_def
        split: if_split_asm option.splits)
  show "vl_resolvable (sdr_validate (rq_fields r ! k) (rq_values r ! k))"
    using check_value_native [OF assms(1,3)] assms(2) by (simp add: native_ok_def adj)
qed

lemma nth_settle:
  assumes "distinct (map (\<lambda>f. field_index (pf_id f)) fs)"
  shows "length (settle_fields fs xs) = length xs"
    "f \<in> set fs \<Longrightarrow> field_index (pf_id f) < length xs \<Longrightarrow> settle_fields fs xs ! field_index (pf_id f)
       = \<lparr>fs_id = pf_id f, fs_value = pf_adjusted f, fs_validity = Known\<rparr>"
    "j \<notin> (\<lambda>f. field_index (pf_id f)) ` set fs \<Longrightarrow> settle_fields fs xs ! j = xs ! j"
proof -
  show "length (settle_fields fs xs) = length xs"
    unfolding settle_fields_def by (induction fs arbitrary: xs) auto
  show keep: "j \<notin> (\<lambda>f. field_index (pf_id f)) ` set fs \<Longrightarrow> settle_fields fs xs ! j = xs ! j" for fs xs j
    unfolding settle_fields_def by (induction fs arbitrary: xs) auto
  show "f \<in> set fs \<Longrightarrow> field_index (pf_id f) < length xs \<Longrightarrow> settle_fields fs xs ! field_index (pf_id f)
       = \<lparr>fs_id = pf_id f, fs_value = pf_adjusted f, fs_validity = Known\<rparr>"
    using assms
  proof (induction fs arbitrary: xs)
    case (Cons g fs)
    then show ?case
      using keep [of "field_index (pf_id g)" fs] by (auto simp: settle_fields_def)
  qed simp
qed

definition sdr_value_ok :: "nat \<Rightarrow> semantic_value \<Rightarrow> bool" where
  "sdr_value_ok j v =
     (if j = 0 then (case get_uint32 v of None \<Rightarrow> False | Some sid \<Rightarrow> 1 \<le> sid \<and> sid \<le> 4)
      else if j = 1 then (case get_hertz v of None \<Rightarrow> False
        | Some q \<Rightarrow> 1000 * hz_unit \<le> q \<and> q \<le> 2000000 * hz_unit \<and> q smod hz_unit = 0)
      else if j = 3 then v = SV_payload_format (Payload_format 0x200003cf00000000)
      else if j = 4 then (case get_hertz v of None \<Rightarrow> False
        | Some q \<Rightarrow> minimum_center_hz * hz_unit \<le> q \<and> q \<le> maximum_center_hz * hz_unit)
      else if j = 5 then (case get_hertz v of None \<Rightarrow> False | Some q \<Rightarrow> 0 < q \<and> q \<le> 2000000 * hz_unit)
      else if j = 6 then (case get_gain v of None \<Rightarrow> False | Some (a, b) \<Rightarrow> b = 0 \<and> - 60 * 128 \<le> a \<and> a \<le> 60 * 128)
      else if j = 7 then (case get_uint32 v of None \<Rightarrow> False | Some x \<Rightarrow> x = 2 \<or> x = 3)
      else True)"

definition sdr_field_ok :: "nat \<Rightarrow> field_state \<Rightarrow> bool" where
  "sdr_field_ok j x \<longleftrightarrow> fs_id x = state_fields ! j
     \<and> (fs_validity x = Known \<longrightarrow> validate_value (fs_id x) (fs_value x) True = Inr () \<and> sdr_value_ok j (fs_value x))"

definition rate_covers_bandwidth :: "state_snapshot \<Rightarrow> bool" where
  "rate_covers_bandwidth s \<longleftrightarrow> (known_at s 1 \<and> known_at s 5 \<longrightarrow>
     the (get_hertz (value_at s 5)) \<le> the (get_hertz (value_at s 1)))"

lemma validate_fields_Inr: "validate_fields s is = Inr () \<longleftrightarrow> (\<forall>i \<in> set is. validate_field s i = Inr ())"
  by (induction "is") (auto simp: and_then_eq_Inr)

lemma less_8: "(\<forall>j < (8 :: nat). P j) \<longleftrightarrow> P 0 \<and> P 1 \<and> P 2 \<and> P 3 \<and> P 4 \<and> P 5 \<and> P 6 \<and> P 7"
  by (simp add: eval_nat_numeral All_less_Suc) blast

lemma validate_field_sdr:
  assumes "ss_profile s = Sdr_radio" "j < 8"
  shows "validate_field s j = Inr () \<longleftrightarrow> fs_id (ss_fields s ! j) = state_fields ! j
    \<and> (known_at s j \<longrightarrow> validate_value (fs_id (ss_fields s ! j)) (value_at s j) True = Inr ()
       \<and> (j = 4 \<longrightarrow> sdr_value_ok 4 (value_at s 4)))"
  using assms by (auto simp: validate_field_def active_state_fields_def known_at_def value_at_def sdr_value_ok_def
      and_then_eq_Inr Let_def split: option.splits if_split_asm)

lemma validate_snapshot_sdr:
  assumes "ss_profile s = Sdr_radio"
  shows "validate_snapshot s = Inr () \<longleftrightarrow> (\<forall>j < 8. sdr_field_ok j (ss_fields s ! j)) \<and> rate_covers_bandwidth s"
proof -
  have split: "validate_snapshot s = Inr () \<longleftrightarrow> (\<forall>j < 8. validate_field s j = Inr ()) \<and> sdr_state_ok s"
    using assms validate_fields_Inr [of s "[0..<state_field_capacity]"]
    by (cases "validate_fields s [0..<state_field_capacity]") (auto simp: validate_snapshot_def state_field_capacity_def)
  have five: "(case get_hertz v of None \<Rightarrow> False | Some q \<Rightarrow> 0 < q \<and> q \<le> 2000000 * hz_unit \<and> (k \<longrightarrow> q \<le> rate))
      \<longleftrightarrow> sdr_value_ok 5 v \<and> (k \<longrightarrow> the (get_hertz v) \<le> rate)" for v k rate
    by (auto simp: sdr_value_ok_def split: option.splits)
  have state: "sdr_state_ok s \<longleftrightarrow> (\<forall>j < 8. known_at s j \<longrightarrow> j \<noteq> 4 \<longrightarrow> sdr_value_ok j (value_at s j)) \<and> rate_covers_bandwidth s"
    unfolding sdr_state_ok_def five less_8 rate_covers_bandwidth_def
    by (simp add: sdr_value_ok_def [of 0] sdr_value_ok_def [of 1] sdr_value_ok_def [of 2] sdr_value_ok_def [of 3]
        sdr_value_ok_def [of 6] sdr_value_ok_def [of 7] sdr_value_ok_def [of "Suc 0"]) blast
  show ?thesis
    unfolding split state using assms
    by (auto simp: validate_field_sdr sdr_field_ok_def known_at_def value_at_def)
qed

lemma field_index_sdr [simp]:
  "field_index SampleRate_id = 1" "field_index RFReferenceFrequency_id = 4" "field_index Bandwidth_id = 5"
  "field_index Gain_id = 6" "field_index DiscreteIO32_id = 7"
  by (simp_all add: field_index_def state_fields_def field_ids)

lemma state_fields_sdr:
  "state_fields ! 1 = SampleRate_id" "state_fields ! 4 = RFReferenceFrequency_id" "state_fields ! 5 = Bandwidth_id"
  "state_fields ! 6 = Gain_id" "state_fields ! 7 = DiscreteIO32_id"
  by (simp_all add: state_fields_def)

lemma sdr_accepted_id:
  assumes "vl_resolvable (sdr_validate i v)"
  shows "i \<in> {SampleRate_id, RFReferenceFrequency_id, Bandwidth_id, Gain_id, DiscreteIO32_id}"
  using assms by (auto simp: sdr_validate_def split: if_split_asm)

lemma sdr_new_field:
  assumes "vl_resolvable (sdr_validate i v)"
  shows "field_index i < 8" "sdr_field_ok (field_index i) \<lparr>fs_id = i, fs_value = v, fs_validity = Known\<rparr>"
proof -
  show "field_index i < 8" using sdr_accepted_id [OF assms] by auto
  have "i = SampleRate_id \<Longrightarrow> sdr_value_ok 1 v" "i = RFReferenceFrequency_id \<Longrightarrow> sdr_value_ok 4 v"
    "i = Bandwidth_id \<Longrightarrow> sdr_value_ok 5 v" "i = Gain_id \<Longrightarrow> sdr_value_ok 6 v"
    "i = DiscreteIO32_id \<Longrightarrow> sdr_value_ok 7 v"
    using assms by (simp_all add: sdr_validate_def sdr_value_ok_def field_ids split: option.splits prod.splits if_split_asm)
  then have "sdr_value_ok (field_index i) v" using sdr_accepted_id [OF assms] by auto
  moreover have "state_fields ! field_index i = i"
    using sdr_accepted_id [OF assms] state_fields_sdr by auto
  ultimately show "sdr_field_ok (field_index i) \<lparr>fs_id = i, fs_value = v, fs_validity = Known\<rparr>"
    by (simp add: sdr_field_ok_def sdr_accepts_native [OF assms])
qed

lemma requested_hertz_unique:
  assumes "k < rq_count r" "rq_fields r ! k = i" "distinct (map ((!) (rq_fields r)) [0..<rq_count r])"
  shows "requested_hertz r i = get_hertz (rq_values r ! k)"
proof -
  have other: "rq_fields r ! j \<noteq> i" if "j < rq_count r" "j \<noteq> k" for j
    using assms that nth_eq_iff_index_eq [OF assms(3), of j k] by auto
  have "fold (\<lambda>k acc. if rq_fields r ! k = i then get_hertz (rq_values r ! k) else acc) [0..<m] acc
      = (if k < m then get_hertz (rq_values r ! k) else acc)" if "m \<le> rq_count r" for m acc
    using that
  proof (induction m)
    case (Suc m)
    then show ?case using assms(2) other [of m] by (cases "m = k") auto
  qed simp
  then show ?thesis using assms(1) by (simp add: requested_hertz_def)
qed

text \<open>The fields of a complete SDR configuration.\<close>

lemma configuration_fields:
  assumes "sdr_configuration r"
  shows "distinct (map ((!) (rq_fields r)) [0..<rq_count r])"
    "(!) (rq_fields r) ` {..<rq_count r} = {SampleRate_id, RFReferenceFrequency_id, Bandwidth_id, Gain_id}"
proof -
  let ?ids = "map ((!) (rq_fields r)) [0..<rq_count r]" and ?S = "{SampleRate_id, RFReferenceFrequency_id, Bandwidth_id, Gain_id}"
  have "requests_field r i \<longleftrightarrow> i \<in> set ?ids" for i by (auto simp: requests_field_def list_ex_iff)
  then have sub: "?S \<subseteq> set ?ids" using assms unfolding sdr_configuration_def by blast
  have n: "rq_count r = 4" using assms by (simp add: sdr_configuration_def)
  have "card ?S = 4" by (simp add: field_ids)
  then have "card (set ?ids) = length ?ids" using card_mono [OF _ sub] card_length [of ?ids] n by simp
  then show "distinct ?ids" by (rule card_distinct)
  have "set ?ids = ?S"
    using card_seteq [OF _ sub] \<open>card (set ?ids) = length ?ids\<close> \<open>card ?S = 4\<close> n by simp
  then show "(!) (rq_fields r) ` {..<rq_count r} = ?S" by (simp add: atLeast_upt)
qed

lemma sdr_command_shape:
  assumes "vl_resolvable (check_command env r dr arm s k v)" "eo_profile env = Sdr_profile" "cm_action (rq_cam r) \<noteq> 0"
  shows "sdr_configuration r \<or> sdr_lifecycle r"
    "rq_fields r ! k = Bandwidth_id \<Longrightarrow> requested_hertz r SampleRate_id = Some q \<Longrightarrow> requested_hertz r Bandwidth_id = Some b \<Longrightarrow> b \<le> q"
  using assms by (auto simp: check_command_def Let_def)


lemma sdr_hertz:
  assumes "vl_resolvable (sdr_validate i v)" "i = SampleRate_id \<or> i = Bandwidth_id"
  shows "\<exists>q. get_hertz v = Some q"
  using assms by (auto simp: sdr_validate_def field_ids split: option.splits)

lemma sdr_indices_distinct:
  assumes "sdr_configuration r \<or> sdr_lifecycle r"
  shows "distinct (map field_index (map ((!) (rq_fields r)) [0..<rq_count r]))"
  using assms
proof
  assume conf: "sdr_configuration r"
  have "inj_on field_index {SampleRate_id, RFReferenceFrequency_id, Bandwidth_id, Gain_id}"
    by (auto simp: inj_on_def)
  then have "inj_on field_index (set (map ((!) (rq_fields r)) [0..<rq_count r]))"
    using configuration_fields(2) [OF conf] by (simp add: atLeast_upt)
  then show ?thesis using configuration_fields(1) [OF conf] by (simp only: distinct_map)
qed (simp add: sdr_lifecycle_def)

lemma commit_settles:
  assumes dist: "distinct (map (\<lambda>f. field_index (pf_id f)) (take (ep_count plan) (ep_fields plan)))"
    and len: "length (ss_fields s) = 8" and old: "\<forall>j < 8. sdr_field_ok j (ss_fields s ! j)"
    and new: "\<forall>f \<in> set (take (ep_count plan) (ep_fields plan)). vl_resolvable (sdr_validate (pf_id f) (pf_adjusted f))"
  shows "\<And>j. j < 8 \<Longrightarrow> sdr_field_ok j (ss_fields (commit_plan plan s) ! j)"
    "\<And>f. f \<in> set (take (ep_count plan) (ep_fields plan)) \<Longrightarrow> ss_fields (commit_plan plan s) ! field_index (pf_id f)
       = \<lparr>fs_id = pf_id f, fs_value = pf_adjusted f, fs_validity = Known\<rparr>"
    "\<And>j. j \<notin> (\<lambda>f. field_index (pf_id f)) ` set (take (ep_count plan) (ep_fields plan))
       \<Longrightarrow> ss_fields (commit_plan plan s) ! j = ss_fields s ! j"
proof -
  let ?fs = "take (ep_count plan) (ep_fields plan)"
  show set: "ss_fields (commit_plan plan s) ! field_index (pf_id f)
       = \<lparr>fs_id = pf_id f, fs_value = pf_adjusted f, fs_validity = Known\<rparr>" if "f \<in> set ?fs" for f
    using nth_settle(2) [OF dist that, of "ss_fields s"] sdr_new_field(1) [OF new [rule_format, OF that]] len
    by (simp add: commit_plan_def)
  show keep: "ss_fields (commit_plan plan s) ! j = ss_fields s ! j" if "j \<notin> (\<lambda>f. field_index (pf_id f)) ` set ?fs" for j
    using nth_settle(3) [OF dist that] by (simp add: commit_plan_def)
  show "sdr_field_ok j (ss_fields (commit_plan plan s) ! j)" if "j < 8" for j
  proof (cases "j \<in> (\<lambda>f. field_index (pf_id f)) ` set ?fs")
    case True
    then obtain f where f: "f \<in> set ?fs" "j = field_index (pf_id f)" by blast
    then show ?thesis using set [OF f(1)] sdr_new_field(2) [OF new [rule_format, OF f(1)]] by simp
  next
    case False
    then show ?thesis using keep old that by simp
  qed
qed

text \<open>C26: Let a validated plan of the SDR profile have an eligible field. Then the whole command is
  eligible, and committing its adjusted values to a valid device state gives a valid device state again:
  every field in range and the bandwidth within the sample rate.\<close>

theorem sdr_commit_keeps_state_valid:
  assumes plan: "validate_plan env arm pl s = (pl', Inr ())" and ok: "storage_ok pl"
    and sdr: "eo_profile env = Sdr_profile" "cm_action (rq_cam (pl_request pl)) \<noteq> 0"
    and s: "ss_profile s = Sdr_radio" "length (ss_fields s) = 8" "validate_snapshot s = Inr ()"
    and some: "i < ep_count (pl_execution pl')" "pf_eligible (ep_fields (pl_execution pl') ! i)"
  shows "list_all pf_eligible (take (ep_count (pl_execution pl')) (ep_fields (pl_execution pl')))
    \<and> validate_snapshot (commit_plan (pl_execution pl') s) = Inr ()"
proof -
  let ?p = "pl_execution pl'" and ?r = "pl_request pl"
  let ?fs = "take (ep_count ?p) (ep_fields ?p)"
  note vp = validate_plan_Inr [OF plan ok]
  have n: "ep_count ?p = rq_count ?r" and len: "rq_count ?r \<le> length (ep_fields ?p)"
    using vp ok weaker_length [of "planned_fields env arm pl s" "ep_fields ?p"] length_planned_fields [OF ok, of env arm s]
    by (auto simp: storage_ok_def)
  have all: "pf_eligible (ep_fields ?p ! k)" if "k < rq_count ?r" for k
    using vp some sdr(1) that n by (auto simp: plan_sound_def Let_def)
  note ef = eligible_field [OF plan ok, unfolded n, OF _ all]
  have check: "vl_resolvable (check_value env ?r s k)" if "k < rq_count ?r" for k
    using ef(3) [OF that that] by (rule check_command_resolvable)
  have adj: "pf_adjusted (ep_fields ?p ! k) = rq_values ?r ! k" "vl_resolvable (sdr_validate (rq_fields ?r ! k) (rq_values ?r ! k))"
    if "k < rq_count ?r" for k
    using ef(2) [OF that that] sdr_check_value [OF check [OF that] sdr] by simp_all
  have fs: "?fs = map (\<lambda>k. ep_fields ?p ! k) [0..<rq_count ?r]"
    using len n by (simp add: list_eq_iff_nth_eq)
  have new: "\<forall>f \<in> set ?fs. vl_resolvable (sdr_validate (pf_id f) (pf_adjusted f))"
    using adj ef(1) by (auto simp: fs)
  have shape: "sdr_configuration ?r \<or> sdr_lifecycle ?r"
    using sdr_command_shape(1) [OF ef(3) sdr] some(1) n by simp
  have ids: "map (\<lambda>f. field_index (pf_id f)) ?fs = map field_index (map ((!) (rq_fields ?r)) [0..<rq_count ?r])"
    using ef(1) by (simp add: fs)
  have dist: "distinct (map (\<lambda>f. field_index (pf_id f)) ?fs)"
    unfolding ids by (rule sdr_indices_distinct [OF shape])
  have valid: "(\<forall>j < 8. sdr_field_ok j (ss_fields s ! j)) \<and> rate_covers_bandwidth s"
    using s(3) validate_snapshot_sdr [OF s(1)] by simp
  note commit = commit_settles [OF dist s(2) conjunct1 [OF valid] new]
  have cover: "rate_covers_bandwidth (commit_plan ?p s)"
    using shape
  proof
    assume conf: "sdr_configuration ?r"
    note cf = configuration_fields [OF conf]
    obtain k1 k5 where k: "k1 < rq_count ?r" "rq_fields ?r ! k1 = SampleRate_id" "k5 < rq_count ?r" "rq_fields ?r ! k5 = Bandwidth_id"
      using cf(2) by (metis imageE insertCI lessThan_iff)
    have mem: "ep_fields ?p ! k \<in> set ?fs" if "k < rq_count ?r" for k using that by (auto simp: fs)
    have at: "value_at (commit_plan ?p s) (field_index (rq_fields ?r ! k)) = rq_values ?r ! k" if "k < rq_count ?r" for k
      using commit(2) [OF mem [OF that]] ef(1) [OF that that] adj(1) [OF that] by (simp add: value_at_def)
    have v1: "value_at (commit_plan ?p s) 1 = rq_values ?r ! k1" and v5: "value_at (commit_plan ?p s) 5 = rq_values ?r ! k5"
      using at [OF k(1)] at [OF k(3)] by (simp_all add: k)
    obtain q b where "get_hertz (rq_values ?r ! k1) = Some q" "get_hertz (rq_values ?r ! k5) = Some b"
      using sdr_hertz [OF adj(2) [OF k(1)]] sdr_hertz [OF adj(2) [OF k(3)]] k by auto
    then show ?thesis
      using sdr_command_shape(2) [OF ef(3) [OF k(3) k(3)] sdr k(4)] requested_hertz_unique [OF k(1,2) cf(1)]
        requested_hertz_unique [OF k(3,4) cf(1)]
      unfolding rate_covers_bandwidth_def v1 v5 by simp
  next
    assume life: "sdr_lifecycle ?r"
    then have one: "rq_count ?r = 1" by (simp add: sdr_lifecycle_def)
    then have "rq_fields ?r ! 0 = DiscreteIO32_id" using life by (simp add: sdr_lifecycle_def requests_field_def)
    then have "(\<lambda>f. field_index (pf_id f)) ` set ?fs = {7}" using ids one by (simp flip: set_map)
    then show ?thesis
      using commit(3) [of 1] commit(3) [of 5] valid by (simp add: rate_covers_bandwidth_def known_at_def value_at_def)
  qed
  have "ss_profile (commit_plan ?p s) = Sdr_radio" using s(1) by (simp add: commit_plan_def)
  then have "validate_snapshot (commit_plan ?p s) = Inr ()"
    using validate_snapshot_sdr cover commit(1) by blast
  moreover have "list_all pf_eligible ?fs" using all by (simp add: fs list_all_iff)
  ultimately show ?thesis by simp
qed

section \<open>A sample configuration\<close>

text \<open>A command whose fields are all acceptable and independent is planned completely.\<close>

lemma block_independent:
  "(\<And>i. i \<in> set is \<Longrightarrow> pf_dependency_mask (fs ! i) = 0)
   \<Longrightarrow> block_dependents bits n is fs all = (fs, all \<and> (\<forall>i \<in> set is. pf_eligible (fs ! i)))"
  by (induction "is" arbitrary: all) (auto simp: blocked_by_def list_ex_iff)

lemma independent_plan:
  assumes ok: "storage_ok pl" and env: "eo_validate_plan env = None"
    and fields: "\<And>i. i < rq_count (pl_request pl) \<Longrightarrow>
      pf_dependency_mask (planned_fields env arm pl s ! i) = 0 \<and> pf_eligible (planned_fields env arm pl s ! i)"
  shows "\<exists>pl'. validate_plan env arm pl s = (pl', Inr ()) \<and> ep_count (pl_execution pl') = rq_count (pl_request pl)
    \<and> (\<forall>i < rq_count (pl_request pl). pf_eligible (ep_fields (pl_execution pl') ! i))"
proof -
  let ?n = "rq_count (pl_request pl)" and ?fs = "planned_fields env arm pl s"
  obtain order found where loop: "order_loop ?fs ?n [0..<?n] 0 (ep_order (pl_execution pl)) = (order, found)" by fastforce
  have n: "?n \<le> length (ep_order (pl_execution pl))" "?n \<le> 8" "?n \<le> length ?fs"
    using ok length_planned_fields [OF ok] by (auto simp: storage_ok_def)
  have "snd (order_loop ?fs ?n [0..<?n] 0 (ep_order (pl_execution pl)))"
    by (rule order_loop_finds [where rank = "\<lambda>_. 0" and used = "[]"]) (use fields n in auto)
  then have found by (simp add: loop)
  then have ord: "set (take ?n order) = {..<?n}"
    using order_loop_ordered [of ?fs ?n 0 0 "ep_order (pl_execution pl)" order] loop n by (simp add: ordered_def)
  let ?plan = "(pl_execution pl)\<lparr>ep_count := ?n, ep_expected_state_version := ss_version s, ep_fields := ?fs, ep_order := order\<rparr>"
  have "block_dependents dependency_blocked ?n (take ?n order) ?fs True = (?fs, True)"
    using fields ord by (subst block_independent) auto
  then have "ep_fields (decide_plan env (pl_request pl) s ?plan) = map_first ?n mark_field ?fs"
    by (simp add: decide_plan_def env Let_def)
  then show ?thesis
    using loop \<open>found\<close> fields n
    by (auto simp: validate_plan_def planned_fields_def [symmetric] nth_map_first Let_def decide_plan_def split: prod.splits)
qed

definition no_outcome :: field_outcome where
  "no_outcome = \<lparr>fo_id = no_field, fo_status = Field_pending, fo_value = SV_uint32 0, fo_validity = Absent,
     fo_actual_time = Protocol_time 0 0, fo_sample_ordinal = 0, fo_uncertainty_ps = 0, fo_time_known = False,
     fo_ordinal_known = False, fo_simulated = False, fo_diagnostics = no_diagnostics\<rparr>"

definition sample_sdr_request :: request where
  "sample_sdr_request = no_request\<lparr>rq_cam := empty_cam\<lparr>cm_action := 2\<rparr>, rq_count := 4,
     rq_fields := [Gain_id, SampleRate_id, Bandwidth_id, RFReferenceFrequency_id, no_field],
     rq_values := [SV_gain (Gain_stages 128 0), SV_hertz (Hertz 0xf424000000), SV_hertz (Hertz 0x7a12000000),
       SV_hertz (Hertz 0x5f5e10000000), SV_uint32 0]\<rparr>"

definition sample_sdr_state :: state_snapshot where
  "sample_sdr_state = default_snapshot\<lparr>ss_profile := Sdr_radio\<rparr>"

text \<open>A backend without callbacks but with a commit operation.\<close>

definition sample_sdr_env :: engine_env where
  "sample_sdr_env = \<lparr>eo_profile = Sdr_profile, eo_timeline = None, eo_sdr_capabilities = None, eo_validate = None,
     eo_validate_plan = None, eo_has_commit = True, eo_has_simulate = True, eo_simulate = (\<lambda>f s b. no_outcome),
     eo_observe = None, eo_has_effects = False,
     eo_trace = \<lparr>tb_owner = False, tb_context = False, tb_now_ns = False, tb_record = False, tb_storage_bytes = 0\<rparr>\<rparr>"

definition no_planned_field :: planned_field where
  "no_planned_field = \<lparr>pf_id = no_field, pf_requested = SV_uint32 0, pf_adjusted = SV_uint32 0, pf_dependency_mask = 0,
     pf_eligible = False, pf_diagnostics = no_diagnostics, pf_time_known = False, pf_ordinal_known = False\<rparr>"

definition no_boundary :: boundary where
  "no_boundary = \<lparr>bd_time = Protocol_time 0 0, bd_sample_ordinal = 0, bd_mapping_generation = 0, bd_committed = False,
     bd_backend_ready = False, bd_quantization_uncertainty_ps = 0\<rparr>"

definition fresh_plan :: execution_plan where
  "fresh_plan = \<lparr>ep_fields = replicate 5 no_planned_field, ep_count = 0, ep_order = replicate 5 0,
     ep_expected_state_version = 0, ep_operation = 0, ep_association_generation = 0, ep_boundary = no_boundary\<rparr>"

definition fresh_storage :: planning_storage where
  "fresh_storage = \<lparr>pl_request = no_request, pl_execution = fresh_plan,
     pl_trace_key = \<lparr>tr_association_generation = 0, tr_operation = 0, tr_peer = 0, tr_sid = 0, tr_mid = 0\<rparr>,
     pl_outcomes = replicate 5 no_outcome, pl_tokens = [], pl_ticket_operations = replicate 4 0,
     pl_timing = deterministic_capabilities, pl_requested_time = Protocol_time 0 0, pl_time_known = False,
     pl_data_running = False, pl_schedule_valid = True, pl_cancelled = replicate 5 False,
     pl_revisions = null_reservation\<rparr>"

definition sample_sdr_storage :: planning_storage where
  "sample_sdr_storage = fresh_storage\<lparr>pl_request := sample_sdr_request\<rparr>"

lemma sample_sdr_storage_ok: "storage_ok sample_sdr_storage"
  by (simp add: storage_ok_def sample_sdr_storage_def fresh_storage_def fresh_plan_def sample_sdr_request_def)

lemma sample_sdr_values:
  assumes "k < 4" shows "check_value sample_sdr_env sample_sdr_request sample_sdr_state k = accept_value (rq_values sample_sdr_request ! k)"
proof -
  consider "k = 0" | "k = 1" | "k = 2" | "k = 3" using assms by linarith
  then show ?thesis
    by cases (simp_all add: check_value_def sample_sdr_env_def sample_sdr_request_def no_request_def empty_cam_def
        profile_validate_def backend_validate_def sdr_validate_def native_ok_def sdr_capability_field_def
        sdr_accepts_native get_hertz_def get_gain_def hz_unit_def minimum_center_hz_def maximum_center_hz_def field_ids
        signed_modulo_int_def)
qed

lemma sample_sdr_command:
  "sdr_configuration sample_sdr_request" "requested_hertz sample_sdr_request SampleRate_id = Some (1000000 * hz_unit)"
  "requested_hertz sample_sdr_request Bandwidth_id = Some (500000 * hz_unit)"
  by (simp_all add: sdr_configuration_def requests_field_def requested_hertz_def sample_sdr_request_def upt_conv_Cons
      get_hertz_def hz_unit_def field_ids)

lemma sample_sdr_field:
  assumes "k < 4"
  shows "pf_dependency_mask (plan_field sample_sdr_env sample_sdr_request tk False False sample_sdr_state k) = 0
    \<and> pf_eligible (plan_field sample_sdr_env sample_sdr_request tk False False sample_sdr_state k)"
proof -
  have "rq_fields sample_sdr_request ! k \<noteq> DiscreteIO32_id"
  proof -
    consider "k = 0" | "k = 1" | "k = 2" | "k = 3" using assms by linarith
    then show ?thesis by cases (simp_all add: sample_sdr_request_def field_ids)
  qed
  moreover have "cm_action (rq_cam sample_sdr_request) = 2" "\<not> cm_partial (rq_cam sample_sdr_request)"
    by (simp_all add: sample_sdr_request_def empty_cam_def)
  ultimately have "check_command sample_sdr_env sample_sdr_request False False sample_sdr_state k v = v" for v
    using sample_sdr_command by (simp add: check_command_def sample_sdr_env_def refuse_if_def hz_unit_def Let_def)
  then show ?thesis
    using sample_sdr_values [OF assms]
    by (simp add: plan_field_def Let_def targets_of_def accept_value_def mask_of_def cam_eligible_def no_diagnostics_def)
qed

lemma sample_sdr_plan:
  "\<exists>pl'. validate_plan sample_sdr_env False sample_sdr_storage sample_sdr_state = (pl', Inr ())
    \<and> ep_count (pl_execution pl') = 4 \<and> (\<forall>i < 4. pf_eligible (ep_fields (pl_execution pl') ! i))"
proof -
  have r: "pl_request sample_sdr_storage = sample_sdr_request" "rq_count sample_sdr_request = 4"
    "pl_data_running sample_sdr_storage = False"
    by (simp_all add: sample_sdr_storage_def sample_sdr_request_def fresh_storage_def)
  show ?thesis
    using independent_plan [OF sample_sdr_storage_ok, of sample_sdr_env False sample_sdr_state] sample_sdr_field
    by (simp add: r planned_fields_nth) (simp add: sample_sdr_env_def)
qed

lemma sample_sdr_state_valid:
  "ss_profile sample_sdr_state = Sdr_radio" "length (ss_fields sample_sdr_state) = 8"
  "validate_snapshot sample_sdr_state = Inr ()"
  by code_simp+

theorem validated_plan_is_sound_witness:
  "\<exists>pl'. validate_plan sample_sdr_env False sample_sdr_storage sample_sdr_state = (pl', Inr ())
    \<and> plan_sound sample_sdr_env sample_sdr_request (pl_execution pl')"
  using sample_sdr_plan validated_plan_is_sound [OF _ sample_sdr_storage_ok]
  by (fastforce simp: sample_sdr_storage_def)

theorem plan_order_iff_acyclic_witness:
  "snd (validate_plan sample_sdr_env False sample_sdr_storage sample_sdr_state) = Inr ()"
proof -
  let ?fs = "planned_fields sample_sdr_env False sample_sdr_storage sample_sdr_state"
  have r: "pl_request sample_sdr_storage = sample_sdr_request" "rq_count sample_sdr_request = 4"
    "pl_data_running sample_sdr_storage = False"
    by (simp_all add: sample_sdr_storage_def sample_sdr_request_def fresh_storage_def)
  have "\<not> depends_on ?fs i d" if "i < 4" for i d
    using sample_sdr_field [OF that] planned_fields_nth [of i sample_sdr_storage sample_sdr_env False sample_sdr_state] that
    by (simp add: r depends_on_def)
  then have "\<exists>rank :: nat \<Rightarrow> nat. \<forall>i d. i < 4 \<and> depends_on ?fs i d \<longrightarrow> rank d < rank i" by blast
  then show ?thesis
    using plan_order_iff_acyclic [OF sample_sdr_storage_ok, of sample_sdr_env False sample_sdr_state]
    unfolding r by (simp only: if_True)
qed

theorem eligible_values_are_admissible_witness:
  "\<exists>pl'. validate_plan sample_sdr_env False sample_sdr_storage sample_sdr_state = (pl', Inr ())
    \<and> native_ok Sdr_profile (pf_id (ep_fields (pl_execution pl') ! 2)) (pf_adjusted (ep_fields (pl_execution pl') ! 2))"
proof -
  obtain pl' where pl': "validate_plan sample_sdr_env False sample_sdr_storage sample_sdr_state = (pl', Inr ())"
    "ep_count (pl_execution pl') = 4" "\<forall>i < 4. pf_eligible (ep_fields (pl_execution pl') ! i)" using sample_sdr_plan by blast
  have "cm_action (rq_cam (pl_request sample_sdr_storage)) \<noteq> 0"
    by (simp add: sample_sdr_storage_def sample_sdr_request_def empty_cam_def)
  from eligible_values_are_admissible [OF pl'(1) sample_sdr_storage_ok this, of 2] pl' show ?thesis
    by (auto simp: sample_sdr_env_def)
qed

theorem sdr_commit_keeps_state_valid_witness:
  "\<exists>pl'. validate_plan sample_sdr_env False sample_sdr_storage sample_sdr_state = (pl', Inr ())
    \<and> validate_snapshot (commit_plan (pl_execution pl') sample_sdr_state) = Inr ()"
proof -
  obtain pl' where pl': "validate_plan sample_sdr_env False sample_sdr_storage sample_sdr_state = (pl', Inr ())"
    "ep_count (pl_execution pl') = 4" "\<forall>i < 4. pf_eligible (ep_fields (pl_execution pl') ! i)" using sample_sdr_plan by blast
  have "cm_action (rq_cam (pl_request sample_sdr_storage)) \<noteq> 0" "eo_profile sample_sdr_env = Sdr_profile"
    by (simp_all add: sample_sdr_storage_def sample_sdr_request_def empty_cam_def sample_sdr_env_def)
  from sdr_commit_keeps_state_valid [OF pl'(1) sample_sdr_storage_ok this(2,1) sample_sdr_state_valid, of 0] pl'
  show ?thesis by auto
qed

end
