(* ===== verification/Dispatch.thy ===== *)
theory Dispatch
  imports Planning
begin

text \<open>
  Executing a plan (\<^verbatim>\<open>runtime/transaction/engine.hpp\<close>): what is made of an outcome
  (\<open>apply_outcome\<close>), the acknowledgements queued (\<open>queue_ack\<close>, \<open>finish\<close>) and the loop of \<open>progress\<close> that
  walks a plan until a field has to be handed to the device. The device's outcomes are parameters and
  may be anything; the lemmas show that the loop ends, that simulation leaves the device state alone,
  and that a field is executed only after everything it depends on was executed.
\<close>

section \<open>Engine core\<close>

text \<open>What outside the slot an outcome can change: the device state, the fault flag, the effects
  handed to the sink with their credits, and the revision reservations released.\<close>

record engine_core =
  ec_state :: state_snapshot
  ec_faulted :: bool
  ec_quiescing :: bool
  ec_events :: "(effective_event \<times> admission_bundle) list"
  ec_released :: "(nat \<times> nat \<times> nat) list"

section \<open>Outcomes\<close>

text \<open>An outcome that contradicts the plan or itself becomes an unknown effect.\<close>

definition outcome_incoherent :: "planned_field \<Rightarrow> field_outcome \<Rightarrow> bool" where
  "outcome_incoherent f oc \<longleftrightarrow> fo_id oc \<noteq> pf_id f \<or> fo_status oc = Field_pending
     \<or> (fo_status oc = Field_executed \<and> fo_validity oc \<noteq> Known)
     \<or> (fo_status oc = Field_unknown_effect \<and> fo_validity oc \<noteq> Unknown)
     \<or> (fo_time_known oc \<and> \<not> valid_time (fo_actual_time oc))"

definition unknown_outcome :: "field_id \<Rightarrow> field_outcome" where
  "unknown_outcome i = no_outcome\<lparr>fo_id := i, fo_status := Field_unknown_effect, fo_validity := Unknown,
     fo_diagnostics := \<lparr>dg_warnings = 0, dg_errors = device_failure OR state_indeterminate\<rparr>\<rparr>"

definition coherent_outcome :: "planned_field \<Rightarrow> bool \<Rightarrow> field_outcome \<Rightarrow> field_outcome" where
  "coherent_outcome f simulated oc =
     (let oc1 = (if outcome_incoherent f oc then unknown_outcome (pf_id f) else oc);
          d = fo_diagnostics oc1
      in oc1\<lparr>fo_simulated := simulated, fo_diagnostics := \<lparr>dg_warnings = dg_warnings d OR dg_warnings (pf_diagnostics f),
           dg_errors = dg_errors d OR dg_errors (pf_diagnostics f)\<rparr>\<rparr>)"

definition outcome_native :: "command_profile \<Rightarrow> planned_field \<Rightarrow> field_outcome \<Rightarrow> bool" where
  "outcome_native p f oc \<longleftrightarrow> validate_value (pf_id f) (fo_value oc) True = Inr ()
     \<and> (p = Iq_frequency_tunable \<longrightarrow> vl_resolvable (tunable_validate (pf_id f) (fo_value oc)))"

definition checked_outcome :: "command_profile \<Rightarrow> planned_field \<Rightarrow> field_outcome \<Rightarrow> field_outcome" where
  "checked_outcome p f oc =
     (if fo_status oc = Field_executed \<and> \<not> outcome_native p f oc
      then oc\<lparr>fo_status := Field_unknown_effect, fo_validity := Unknown,
             fo_diagnostics := add_errors (device_failure OR state_indeterminate) (fo_diagnostics oc)\<rparr>
      else oc)"

definition effect_in_time :: "planning_storage \<Rightarrow> field_outcome \<Rightarrow> bool" where
  "effect_in_time pl oc \<longleftrightarrow> fo_time_known oc
     \<and> (case (subtract_time (fo_actual_time oc) (from_picoseconds (fo_uncertainty_ps oc)),
              add_time (fo_actual_time oc) (from_picoseconds (fo_uncertainty_ps oc))) of
          (Inr early, Inr late) \<Rightarrow>
            (case effect_interval_allowed (cm_timing (rq_cam (pl_request pl))) (pl_requested_time pl) early late (pl_timing pl) of
               Inr fit \<Rightarrow> fit | Inl _ \<Rightarrow> False)
        | _ \<Rightarrow> False)"

definition timed_outcome :: "bool \<Rightarrow> planning_storage \<Rightarrow> field_outcome \<Rightarrow> field_outcome" where
  "timed_outcome quiescing pl oc =
     (let timed = (cm_timing (rq_cam (pl_request pl)) \<noteq> 0); executed = (fo_status oc = Field_executed);
          oc1 = (if executed then oc else oc\<lparr>fo_diagnostics := mark_not_executed (fo_diagnostics oc)\<rparr>);
          oc2 = (if quiescing \<and> timed \<and> \<not> executed
            then oc1\<lparr>fo_diagnostics := add_errors timing_error (fo_diagnostics oc1)\<rparr> else oc1)
      in if timed \<and> executed \<and> \<not> effect_in_time pl oc2
         then oc2\<lparr>fo_diagnostics := add_errors timing_error (fo_diagnostics oc2)\<rparr> else oc2)"

definition final_outcome :: "engine_env \<Rightarrow> bool \<Rightarrow> planning_storage \<Rightarrow> nat \<Rightarrow> field_outcome \<Rightarrow> field_outcome" where
  "final_outcome env quiescing pl i oc =
     (let f = ep_fields (pl_execution pl) ! i
      in timed_outcome quiescing pl (checked_outcome (eo_profile env) f
           (coherent_outcome f (cm_action (rq_cam (pl_request pl)) = 1) oc)))"

text \<open>The field's new state, if the outcome changes it.\<close>

definition settle_state :: "planned_field \<Rightarrow> field_outcome \<Rightarrow> state_snapshot \<Rightarrow> state_snapshot option" where
  "settle_state f oc s =
     (if fo_status oc \<noteq> Field_executed \<and> fo_status oc \<noteq> Field_unknown_effect then None
      else let i = field_index (pf_id f); old = ss_fields s ! i;
               validity = (if fo_status oc = Field_unknown_effect then Unknown else Known);
               new = old\<lparr>fs_id := pf_id f, fs_validity := validity,
                 fs_value := (if validity = Known then fo_value oc else fs_value old)\<rparr>
           in if fs_validity new \<noteq> fs_validity old \<or> (fs_validity new = Known \<and> fs_value new \<noteq> fs_value old)
              then Some (s\<lparr>ss_fields := (ss_fields s)[i := new], ss_version := wrap64 (ss_version s + 1)\<rparr>) else None)"

definition effect_event :: "planning_storage \<Rightarrow> planned_field \<Rightarrow> field_outcome \<Rightarrow> state_snapshot \<Rightarrow> effective_event" where
  "effect_event pl f oc s = \<lparr>ee_state = s, ee_actual_time = fo_actual_time oc, ee_sample_ordinal = fo_sample_ordinal oc,
     ee_source_operation = ep_operation (pl_execution pl),
     ee_association_generation = ep_association_generation (pl_execution pl),
     ee_changed_mask = push_bit (field_index (pf_id f)) 1, ee_time_known = fo_time_known oc,
     ee_ordinal_known = fo_ordinal_known oc, ee_outcome = oc,
     ee_sample_epoch = (if ss_profile s = Sdr_radio \<and> pf_id f = DiscreteIO32_id \<and> fo_status oc = Field_executed
         \<and> get_uint32 (fo_value oc) = Some 3 then Some (pl_requested_time pl) else None)\<rparr>"

definition publication_request :: admission_request where
  "publication_request = need (need empty_request Revision 1) Context_publication 1"

definition record_effect :: "engine_env \<Rightarrow> effective_event \<Rightarrow> slot \<Rightarrow> engine_core \<Rightarrow> engine_core \<times> slot" where
  "record_effect env event sl ec =
     (if eo_has_effects env
      then (case bundle_transfer (sl_credits sl) publication_request of
              (rest, Inr credits) \<Rightarrow> (ec\<lparr>ec_events := ec_events ec @ [(event, credits)]\<rparr>, sl\<lparr>sl_credits := rest\<rparr>)
            | (rest, Inl _) \<Rightarrow> (ec, sl\<lparr>sl_credits := rest\<rparr>))
      else (ec, sl))"

text \<open>Without partial execution a failure withdraws the fields still to come.\<close>

definition withdraw_rest :: "nat \<Rightarrow> execution_plan \<Rightarrow> execution_plan" where
  "withdraw_rest step plan = plan\<lparr>ep_fields := fold (\<lambda>i fs. fs[i := refuse_field not_executed (fs ! i)])
     (drop step (take (ep_count plan) (ep_order plan))) (ep_fields plan)\<rparr>"

text \<open>The state an outcome changes: the hypothetical one of a simulation, or the device's.\<close>

definition store_effect :: "engine_env \<Rightarrow> planned_field \<Rightarrow> field_outcome \<Rightarrow> engine_core \<Rightarrow> slot \<Rightarrow> engine_core \<times> slot" where
  "store_effect env f oc ec sl =
     (if fo_simulated oc
      then (ec, case settle_state f oc (tn_hypothetical (sl_record sl)) of None \<Rightarrow> sl
             | Some s \<Rightarrow> sl\<lparr>sl_record := (sl_record sl)\<lparr>tn_hypothetical := s\<rparr>\<rparr>)
      else case settle_state f oc (ec_state ec) of None \<Rightarrow> (ec, sl)
             | Some s \<Rightarrow> record_effect env (effect_event (sl_plan sl) f oc s) sl (ec\<lparr>ec_state := s\<rparr>))"

definition apply_outcome :: "engine_env \<Rightarrow> nat \<Rightarrow> field_outcome \<Rightarrow> engine_core \<Rightarrow> slot \<Rightarrow> engine_core \<times> slot" where
  "apply_outcome env i given ec sl =
     (let pl = sl_plan sl; oc = final_outcome env (ec_quiescing ec) pl i given;
          ec1 = ec\<lparr>ec_faulted := (ec_faulted ec \<or> (fo_status oc = Field_unknown_effect \<and> \<not> fo_simulated oc))\<rparr>;
          (ec2, sl2) = store_effect env (ep_fields (pl_execution pl) ! i) oc ec1 sl;
          step = tn_step (sl_record sl) + 1;
          plan = (if fo_status oc \<noteq> Field_executed \<and> \<not> cm_partial (rq_cam (pl_request pl))
            then withdraw_rest step (pl_execution pl) else pl_execution pl)
      in (ec2, sl2\<lparr>sl_plan := pl\<lparr>pl_outcomes := (pl_outcomes pl)[i := oc], pl_execution := plan\<rparr>,
           sl_record := (sl_record sl2)\<lparr>tn_running := False, tn_step := step\<rparr>\<rparr>))"

section \<open>Acknowledgements\<close>

text \<open>One round of the loop of \<open>queue_ack\<close>; the accumulator is the acknowledgement, the number of
  successful fields and whether timing failed.\<close>

definition ack_field :: "planning_storage \<Rightarrow> ack_kind \<Rightarrow> state_snapshot \<Rightarrow> nat \<Rightarrow> ack_record \<times> nat \<times> bool \<Rightarrow> ack_record \<times> nat \<times> bool" where
  "ack_field pl kind observed i acc =
     (case acc of (ack, successful, timing_failure) \<Rightarrow>
      let f = ep_fields (pl_execution pl) ! i; k = field_index (pf_id f); oc = pl_outcomes pl ! i in
      if kind = Ack_validation
      then (ack\<lparr>ak_diagnostics := (ak_diagnostics ack)[k := pf_diagnostics f]\<rparr>,
            successful + (if pf_eligible f then 1 else 0),
            timing_failure \<or> dg_errors (pf_diagnostics f) AND timing_error \<noteq> 0)
      else if kind = Ack_execution
      then (let ack1 = ack\<lparr>ak_diagnostics := (ak_diagnostics ack)[k := fo_diagnostics oc]\<rparr>;
                ack2 = (if fo_time_known oc \<and> (\<not> ak_time_known ack1 \<or> ak_time ack1 < fo_actual_time oc)
                  then ack1\<lparr>ak_time := fo_actual_time oc, ak_time_known := True\<rparr> else ack1)
            in (ack2, successful + (if fo_status oc = Field_executed then 1 else 0),
                timing_failure \<or> dg_errors (fo_diagnostics oc) AND timing_error \<noteq> 0))
      else if \<not> rq_unsupported (pl_request pl) ! i \<and> (rq_capability_query (pl_request pl) \<or> known_at observed k)
      then (ack\<lparr>ak_selected_mask := ak_selected_mask ack OR push_bit k 1\<rparr>, successful + 1, timing_failure)
      else (ack, successful, timing_failure))"

definition make_ack :: "engine_env \<Rightarrow> operation_context \<Rightarrow> planning_storage \<Rightarrow> ack_kind \<Rightarrow> state_snapshot \<Rightarrow> ack_record" where
  "make_ack env now pl kind observed =
     (let cam = rq_cam (pl_request pl); n = ep_count (pl_execution pl); clock = oc_clock now;
          ack0 = empty_ack\<lparr>ak_epoch := epoch_tsi (cs_epoch clock), ak_request := rq_envelope (pl_request pl),
            ak_cam := cam, ak_kind := kind, ak_hypothetical := (cm_action cam = 1),
            ak_state := (case eo_observe env of Some f \<Rightarrow> if kind = Ack_state then f observed now else observed
              | None \<Rightarrow> observed)\<rparr>;
          (ack1, successful, timing_failure) = fold (ack_field pl kind observed) [0..<n] (ack0, 0, False);
          ack2 = (if kind = Ack_state \<and> ak_selected_mask ack1 \<noteq> 0 \<and> rq_capability_query (pl_request pl)
            then ack1\<lparr>ak_sdr_capabilities := eo_sdr_capabilities env\<rparr> else ack1);
          ack3 = ack2\<lparr>ak_partial := (successful \<noteq> n \<or> timing_failure),
            ak_scheduled_or_executed := (if kind = Ack_state then successful \<noteq> 0 else successful = n \<and> \<not> timing_failure)\<rparr>;
          ack4 = (if kind = Ack_execution \<and> (cm_action cam = 0 \<or> n = 0)
            then ack3\<lparr>ak_partial := False, ak_scheduled_or_executed := False\<rparr> else ack3);
          ack5 = (if kind = Ack_validation \<and> pl_time_known pl \<and> \<not> timing_failure \<and> pl_schedule_valid pl
            then ack4\<lparr>ak_time := bd_time (ep_boundary (pl_execution pl)), ak_time_known := True\<rparr> else ack4);
          ack6 = (if kind = Ack_state \<and> clock_qualified clock
            then ack5\<lparr>ak_time := cs_time clock, ak_time_known := True\<rparr> else ack5);
          ack7 = (if eo_profile env = Sdr_profile \<and> \<not> ak_time_known ack6 \<and> clock_qualified clock
            then ack6\<lparr>ak_time := cs_time clock, ak_time_known := True\<rparr> else ack6)
      in ack7\<lparr>ak_timing := (if timing_failure then 7 else cm_timing cam)\<rparr>)"

text \<open>The response vector holds three entries; a fourth is dropped.\<close>

definition queue_ack :: "engine_env \<Rightarrow> operation_context \<Rightarrow> ack_kind \<Rightarrow> state_snapshot \<Rightarrow> slot \<Rightarrow> slot" where
  "queue_ack env now kind observed sl =
     (let ack = make_ack env now (sl_plan sl) kind observed; rec = sl_record sl in
      if should_emit (ak_cam ack) kind (ack_summary ack) \<and> length (tn_responses rec) < 3
      then sl\<lparr>sl_record := rec\<lparr>tn_responses := tn_responses rec @ [ack]\<rparr>\<rparr> else sl)"

definition terminal_status :: "planning_storage \<Rightarrow> field_status" where
  "terminal_status pl =
     (case find (\<lambda>i. fo_status (pl_outcomes pl ! i) \<noteq> Field_executed) [0..<ep_count (pl_execution pl)] of
        Some i \<Rightarrow> fo_status (pl_outcomes pl ! i)
      | None \<Rightarrow> if ep_count (pl_execution pl) \<noteq> 0 then Field_executed else Field_not_executed)"

text \<open>\<open>finish\<close> with the owner of the effect stage and the trace reading at that moment.\<close>

definition finish :: "engine_env \<Rightarrow> operation_context \<Rightarrow> nat \<Rightarrow> nat \<Rightarrow> nat option \<Rightarrow> engine_core \<Rightarrow> slot
    \<Rightarrow> engine_core \<times> slot \<times> nat option \<times> trace_event list" where
  "finish env now reading k owner ec sl =
     (let simulated = (cm_action (rq_cam (pl_request (sl_plan sl))) = 1);
          observed = (if simulated then tn_hypothetical (sl_record sl) else ec_state ec);
          sl1 = queue_ack env now Ack_state observed (queue_ack env now Ack_execution observed sl);
          (revisions, calls) = reservation_reset (pl_revisions (sl_plan sl1));
          sl2 = sl1\<lparr>sl_record := (sl_record sl1)\<lparr>tn_complete := True\<rparr>, sl_plan := (sl_plan sl1)\<lparr>pl_revisions := revisions\<rparr>\<rparr>
      in (ec\<lparr>ec_released := ec_released ec @ calls\<rparr>, sl2, if owner = Some k then None else owner,
          emit (eo_trace env) reading Trace_recorded (pl_trace_key (sl_plan sl2)) no_field (terminal_status (sl_plan sl2)) simulated))"

section \<open>Walking the plan\<close>

datatype dispatch_exit = Dispatch_done | Dispatch_begin nat boundary | Dispatch_overflow

definition skip_field :: "nat \<Rightarrow> (field_outcome \<Rightarrow> field_outcome) \<Rightarrow> slot \<Rightarrow> slot" where
  "skip_field i g sl = sl\<lparr>sl_plan := (sl_plan sl)\<lparr>pl_outcomes := (pl_outcomes (sl_plan sl))[i := g (pl_outcomes (sl_plan sl) ! i)]\<rparr>,
     sl_record := (sl_record sl)\<lparr>tn_step := tn_step (sl_record sl) + 1\<rparr>\<rparr>"

definition dependencies_executed :: "planning_storage \<Rightarrow> nat \<Rightarrow> bool" where
  "dependencies_executed pl i \<longleftrightarrow> list_all (\<lambda>d. bit (pf_dependency_mask (ep_fields (pl_execution pl) ! i)) d
     \<longrightarrow> fo_status (pl_outcomes pl ! d) = Field_executed) [0..<ep_count (pl_execution pl)]"

definition update_field :: "nat \<Rightarrow> (planned_field \<Rightarrow> planned_field) \<Rightarrow> slot \<Rightarrow> slot" where
  "update_field i g sl = sl\<lparr>sl_plan := (sl_plan sl)\<lparr>pl_execution := (pl_execution (sl_plan sl))\<lparr>ep_fields :=
     (ep_fields (pl_execution (sl_plan sl)))[i := g (ep_fields (pl_execution (sl_plan sl)) ! i)]\<rparr>\<rparr>\<rparr>"

text \<open>One round of the loop: \<open>Inl\<close> continues, \<open>Inr\<close> leaves it.\<close>

definition dispatch_step :: "engine_env \<Rightarrow> operation_context \<Rightarrow> engine_core \<Rightarrow> slot
    \<Rightarrow> (engine_core \<times> slot) + (engine_core \<times> slot \<times> dispatch_exit)" where
  "dispatch_step env now ec sl =
     (let pl = sl_plan sl; i = ep_order (pl_execution pl) ! tn_step (sl_record sl) in
      if pl_cancelled pl ! i
      then Inl (ec, skip_field i (\<lambda>oc. oc\<lparr>fo_id := pf_id (ep_fields (pl_execution pl) ! i), fo_status := Field_cancelled,
             fo_diagnostics := (fo_diagnostics oc)\<lparr>dg_errors := not_executed\<rparr>\<rparr>) sl)
      else let sl1 = (if dependencies_executed pl i then sl
             else update_field i (refuse_field (dependency_blocked OR not_executed)) sl);
               f = ep_fields (pl_execution (sl_plan sl1)) ! i
      in if \<not> pf_eligible f
         then Inl (ec, skip_field i (\<lambda>_. no_outcome\<lparr>fo_id := pf_id f, fo_status := Field_not_executed,
                fo_diagnostics := pf_diagnostics f\<rparr>) sl1)
         else if cm_action (rq_cam (pl_request pl)) = 1
         then Inl (apply_outcome env i (eo_simulate env f (tn_hypothetical (sl_record sl1)) (ep_boundary (pl_execution pl))) ec sl1)
         else if ss_version (ec_state ec) > u64_max - 4 then Inr (ec, sl1, Dispatch_overflow)
         else let b = ep_boundary (pl_execution pl);
                  b' = (if pl_time_known pl then b\<lparr>bd_time := cs_time (oc_clock now)\<rparr> else b)
           in Inr (ec, sl1\<lparr>sl_record := (sl_record sl1)\<lparr>tn_running := True, tn_running_field := i\<rparr>\<rparr>, Dispatch_begin i b'))"

partial_function (option) dispatch :: "engine_env \<Rightarrow> operation_context \<Rightarrow> engine_core \<Rightarrow> slot
    \<Rightarrow> (engine_core \<times> slot \<times> dispatch_exit) option" where
  "dispatch env now ec sl =
     (if tn_step (sl_record sl) \<ge> ep_count (pl_execution (sl_plan sl)) then Some (ec, sl, Dispatch_done)
      else case dispatch_step env now ec sl of
        Inl next \<Rightarrow> dispatch env now (fst next) (snd next)
      | Inr exit \<Rightarrow> Some exit)"

section \<open>What an outcome leaves unchanged\<close>

definition plan_of :: "slot \<Rightarrow> execution_plan" where
  "plan_of sl = pl_execution (sl_plan sl)"

definition step_of :: "slot \<Rightarrow> nat" where
  "step_of sl = tn_step (sl_record sl)"

text \<open>\<open>advances i sl sl'\<close>: the slot has taken one step, deciding field \<open>i\<close>.\<close>

definition advances :: "nat \<Rightarrow> field_outcome \<Rightarrow> slot \<Rightarrow> slot \<Rightarrow> bool" where
  "advances i oc sl sl' \<longleftrightarrow> step_of sl' = step_of sl + 1 \<and> ep_count (plan_of sl') = ep_count (plan_of sl)
     \<and> ep_order (plan_of sl') = ep_order (plan_of sl) \<and> pl_request (sl_plan sl') = pl_request (sl_plan sl)
     \<and> pl_cancelled (sl_plan sl') = pl_cancelled (sl_plan sl) \<and> weaker (ep_fields (plan_of sl)) (ep_fields (plan_of sl'))
     \<and> pl_outcomes (sl_plan sl') = (pl_outcomes (sl_plan sl))[i := oc]"

lemmas slot_sel = plan_of_def step_of_def

lemma weaker_fold:
  "weaker fs (fold (\<lambda>i fs. fs[i := refuse_field bits (fs ! i)]) is fs)"
proof (induction "is" arbitrary: fs)
  case (Cons i "is")
  show ?case using weaker_trans [OF weaker_map(3) [OF fate_steps(1)] Cons.IH] by simp
qed (simp add: weaker_refl)

lemma withdraw_rest_sel:
  "ep_count (withdraw_rest k plan) = ep_count plan" "ep_order (withdraw_rest k plan) = ep_order plan"
  "weaker (ep_fields plan) (ep_fields (withdraw_rest k plan))"
  by (simp_all add: withdraw_rest_def weaker_fold)

lemma record_effect_sel:
  "sl_plan (snd (record_effect env ev sl ec)) = sl_plan sl" "sl_record (snd (record_effect env ev sl ec)) = sl_record sl"
  by (auto simp: record_effect_def split: prod.splits sum.splits)

lemma final_outcome_status:
  "fo_status (final_outcome env q pl i oc) \<noteq> Field_pending"
  "fo_simulated (final_outcome env q pl i oc) = (cm_action (rq_cam (pl_request pl)) = 1)"
  by (auto simp: final_outcome_def timed_outcome_def checked_outcome_def coherent_outcome_def Let_def
      outcome_incoherent_def unknown_outcome_def)

lemma apply_outcome_advances:
  "advances i (final_outcome env (ec_quiescing ec) (sl_plan sl) i oc) sl (snd (apply_outcome env i oc ec sl))"
proof -
  have plans: "ep_count (if b then withdraw_rest k p else p) = ep_count p" "ep_order (if b then withdraw_rest k p else p) = ep_order p"
    "weaker (ep_fields p) (ep_fields (if b then withdraw_rest k p else p))" for b k p
    by (simp_all add: withdraw_rest_sel weaker_refl)
  show ?thesis
    by (simp add: advances_def apply_outcome_def Let_def slot_sel plans split_def)
qed

lemma apply_outcome_simulated:
  assumes "cm_action (rq_cam (pl_request (sl_plan sl))) = 1"
  shows "fst (apply_outcome env i oc ec sl) = ec"
  using assms by (simp add: apply_outcome_def Let_def final_outcome_status store_effect_def split_def)

lemma advances_update:
  assumes "advances i oc (update_field i (refuse_field bits) sl) sl'"
  shows "advances i oc sl sl'"
proof -
  have "weaker (ep_fields (plan_of sl)) (ep_fields (plan_of (update_field i (refuse_field bits) sl)))"
    using weaker_map(3) [OF fate_steps(1)] by (simp add: update_field_def slot_sel)
  then have "weaker (ep_fields (plan_of sl)) (ep_fields (plan_of sl'))"
    using assms weaker_trans unfolding advances_def by blast
  then show ?thesis using assms by (simp add: advances_def update_field_def slot_sel)
qed

lemma skip_field_advances: "advances i (g (pl_outcomes (sl_plan sl) ! i)) sl (skip_field i g sl)"
  by (simp add: advances_def skip_field_def slot_sel weaker_refl)

lemma dispatch_step_Inl:
  assumes "dispatch_step env now ec sl = Inl (ec', sl')"
  shows "\<exists>oc. advances (ep_order (plan_of sl) ! step_of sl) oc sl sl' \<and> fo_status oc \<noteq> Field_pending
    \<and> (fo_status oc = Field_executed \<and> ep_order (plan_of sl) ! step_of sl < length (ep_fields (plan_of sl))
       \<longrightarrow> dependencies_executed (sl_plan sl) (ep_order (plan_of sl) ! step_of sl))
    \<and> (cm_action (rq_cam (pl_request (sl_plan sl))) = 1 \<longrightarrow> ec' = ec)"
proof -
  let ?i = "ep_order (plan_of sl) ! step_of sl"
  define sl1 where "sl1 = (if dependencies_executed (sl_plan sl) ?i then sl
    else update_field ?i (refuse_field (dependency_blocked OR not_executed)) sl)"
  have lift: "advances ?i oc sl1 sl' \<Longrightarrow> advances ?i oc sl sl'" for oc
    using advances_update by (cases "dependencies_executed (sl_plan sl) ?i") (simp_all add: sl1_def)
  have req: "pl_request (sl_plan sl1) = pl_request (sl_plan sl)" by (simp add: sl1_def update_field_def)
  let ?f = "ep_fields (plan_of sl1) ! ?i"
  have step: "dispatch_step env now ec sl =
     (if pl_cancelled (sl_plan sl) ! ?i
      then Inl (ec, skip_field ?i (\<lambda>oc. oc\<lparr>fo_id := pf_id (ep_fields (plan_of sl) ! ?i), fo_status := Field_cancelled,
             fo_diagnostics := (fo_diagnostics oc)\<lparr>dg_errors := not_executed\<rparr>\<rparr>) sl)
      else if \<not> pf_eligible ?f
         then Inl (ec, skip_field ?i (\<lambda>_. no_outcome\<lparr>fo_id := pf_id ?f, fo_status := Field_not_executed,
                fo_diagnostics := pf_diagnostics ?f\<rparr>) sl1)
         else if cm_action (rq_cam (pl_request (sl_plan sl))) = 1
         then Inl (apply_outcome env ?i (eo_simulate env ?f (tn_hypothetical (sl_record sl1)) (ep_boundary (plan_of sl))) ec sl1)
         else (if ss_version (ec_state ec) > u64_max - 4 then Inr (ec, sl1, Dispatch_overflow)
         else Inr (ec, sl1\<lparr>sl_record := (sl_record sl1)\<lparr>tn_running := True, tn_running_field := ?i\<rparr>\<rparr>, Dispatch_begin ?i
                (if pl_time_known (sl_plan sl) then (ep_boundary (plan_of sl))\<lparr>bd_time := cs_time (oc_clock now)\<rparr> else ep_boundary (plan_of sl)))))"
    unfolding dispatch_step_def Let_def sl1_def slot_sel by (rule refl)
  consider (cancelled) "pl_cancelled (sl_plan sl) ! ?i" | (skipped) "\<not> pl_cancelled (sl_plan sl) ! ?i" "\<not> pf_eligible ?f"
    | (simulated) "\<not> pl_cancelled (sl_plan sl) ! ?i" "pf_eligible ?f" "cm_action (rq_cam (pl_request (sl_plan sl))) = 1"
    using assms unfolding step by (auto split: if_split_asm)
  then show ?thesis
  proof cases
    case cancelled
    then show ?thesis using assms unfolding step
      by (intro exI conjI) (auto intro: skip_field_advances)
  next
    case skipped
    then have "advances ?i (no_outcome\<lparr>fo_id := pf_id ?f, fo_status := Field_not_executed, fo_diagnostics := pf_diagnostics ?f\<rparr>) sl1 sl'"
      "ec' = ec" using assms skip_field_advances unfolding step by fastforce+
    then show ?thesis using lift
      by (intro exI [of _ "no_outcome\<lparr>fo_id := pf_id ?f, fo_status := Field_not_executed, fo_diagnostics := pf_diagnostics ?f\<rparr>"]) simp
  next
    case simulated
    define g where "g = eo_simulate env ?f (tn_hypothetical (sl_record sl1)) (ep_boundary (plan_of sl))"
    have "apply_outcome env ?i g ec sl1 = (ec', sl')" using assms simulated unfolding step g_def by simp
    then have ends: "ec' = fst (apply_outcome env ?i g ec sl1)" "sl' = snd (apply_outcome env ?i g ec sl1)" by simp_all
    have "advances ?i (final_outcome env (ec_quiescing ec) (sl_plan sl1) ?i g) sl sl'"
      unfolding ends by (rule lift [unfolded ends, OF apply_outcome_advances])
    moreover have "ec' = ec" unfolding ends by (rule apply_outcome_simulated) (simp add: req simulated(3))
    moreover have "dependencies_executed (sl_plan sl) ?i" if "?i < length (ep_fields (plan_of sl))"
      using simulated(2) that by (auto simp: sl1_def update_field_def slot_sel split: if_split_asm)
    ultimately show ?thesis using final_outcome_status(1) by blast
  qed
qed

lemma dispatch_step_Inr:
  assumes "dispatch_step env now ec sl = Inr (ec', sl', exit)"
  shows "ec' = ec \<and> cm_action (rq_cam (pl_request (sl_plan sl))) \<noteq> 1 \<and> step_of sl' = step_of sl
    \<and> (case exit of Dispatch_done \<Rightarrow> False | Dispatch_overflow \<Rightarrow> u64_max - 4 < ss_version (ec_state ec)
       | Dispatch_begin i b \<Rightarrow> i = ep_order (plan_of sl) ! step_of sl \<and> tn_running (sl_record sl')
           \<and> tn_running_field (sl_record sl') = i \<and> pf_eligible (ep_fields (plan_of sl') ! i) \<and> \<not> pl_cancelled (sl_plan sl') ! i)"
  using assms unfolding dispatch_step_def Let_def
  by (auto simp: slot_sel update_field_def split: if_split_asm)

text \<open>C31: Whatever outcomes the device reports, the loop that walks a plan ends: it finishes the plan, or it
  hands one eligible, uncancelled field to the device and records it as running, or it stops because the
  state version would overflow.\<close>

theorem dispatch_terminates:
  "\<exists>ec' sl' exit. dispatch env now ec sl = Some (ec', sl', exit)
    \<and> (case exit of Dispatch_done \<Rightarrow> ep_count (pl_execution (sl_plan sl')) \<le> tn_step (sl_record sl')
       | Dispatch_overflow \<Rightarrow> u64_max - 4 < ss_version (ec_state ec')
       | Dispatch_begin i b \<Rightarrow> tn_running (sl_record sl') \<and> tn_running_field (sl_record sl') = i
           \<and> pf_eligible (ep_fields (pl_execution (sl_plan sl')) ! i) \<and> \<not> pl_cancelled (sl_plan sl') ! i)"
proof (induction "ep_count (plan_of sl) - step_of sl" arbitrary: ec sl rule: less_induct)
  case less
  show ?case
  proof (cases "step_of sl \<ge> ep_count (plan_of sl)")
    case True
    then show ?thesis by (subst dispatch.simps) (simp add: slot_sel)
  next
    case False
    then have unroll: "dispatch env now ec sl = (case dispatch_step env now ec sl of
        Inl next \<Rightarrow> dispatch env now (fst next) (snd next) | Inr exit \<Rightarrow> Some exit)"
      by (subst dispatch.simps) (simp add: slot_sel)
    show ?thesis
    proof (cases "dispatch_step env now ec sl")
      case (Inl nx)
      obtain ec1 sl1 where nx: "nx = (ec1, sl1)" by fastforce
      then have "ep_count (plan_of sl1) - step_of sl1 < ep_count (plan_of sl) - step_of sl"
        using dispatch_step_Inl [of env now ec sl ec1 sl1] Inl False by (auto simp: advances_def)
      from less [OF this, of ec1] show ?thesis unfolding unroll by (simp add: Inl nx)
    next
      case (Inr exit)
      obtain ec1 sl1 x where "exit = (ec1, sl1, x)" by (metis prod.exhaust)
      then show ?thesis
        using dispatch_step_Inr [of env now ec sl ec1 sl1 x] Inr unroll
        by (auto simp: slot_sel split: dispatch_exit.splits)
    qed
  qed
qed

section \<open>Simulation\<close>

text \<open>Field \<open>i\<close> has an outcome, and if it was executed so was everything it depends on.\<close>

definition decided :: "slot \<Rightarrow> nat \<Rightarrow> bool" where
  "decided sl i \<longleftrightarrow> fo_status (pl_outcomes (sl_plan sl) ! i) \<noteq> Field_pending
     \<and> (fo_status (pl_outcomes (sl_plan sl) ! i) = Field_executed \<longrightarrow> dependencies_executed (sl_plan sl) i)"

definition walkable :: "slot \<Rightarrow> bool" where
  "walkable sl \<longleftrightarrow> (let plan = plan_of sl; n = ep_count plan in ordered (ep_fields plan) (ep_order plan) n
     \<and> set (take n (ep_order plan)) = {..<n} \<and> n \<le> length (ep_order plan) \<and> n \<le> length (ep_fields plan)
     \<and> n \<le> length (pl_outcomes (sl_plan sl)))"

lemma advances_walkable:
  assumes "advances i oc sl sl'" "walkable sl" shows "walkable sl'"
  using assms ordered_weaker weaker_length [of "ep_fields (plan_of sl)" "ep_fields (plan_of sl')"]
  by (auto simp: advances_def walkable_def Let_def)

lemma walkable_order:
  assumes "walkable sl" "p < ep_count (plan_of sl)"
  shows "ep_order (plan_of sl) ! p < ep_count (plan_of sl)"
  using assms nth_mem [of p "take (ep_count (plan_of sl)) (ep_order (plan_of sl))"] by (auto simp: walkable_def Let_def)

lemma walkable_inj:
  assumes "walkable sl" "p < ep_count (plan_of sl)" "q < ep_count (plan_of sl)" "p \<noteq> q"
  shows "ep_order (plan_of sl) ! p \<noteq> ep_order (plan_of sl) ! q"
  using assms nth_eq_iff_index_eq [of "take (ep_count (plan_of sl)) (ep_order (plan_of sl))" p q]
  by (auto simp: walkable_def ordered_def Let_def)

lemma advances_dependencies:
  assumes adv: "advances i oc sl sl'" and sl: "walkable sl" and j: "j < ep_count (plan_of sl)"
    and i: "\<not> bit (pf_dependency_mask (ep_fields (plan_of sl) ! j)) i"
  shows "dependencies_executed (sl_plan sl') j \<longleftrightarrow> dependencies_executed (sl_plan sl) j"
proof -
  have "pf_dependency_mask (ep_fields (plan_of sl') ! j) = pf_dependency_mask (ep_fields (plan_of sl) ! j)"
    using adv sl j weaker_nth(3) [of "ep_fields (plan_of sl)" "ep_fields (plan_of sl')" j]
    by (auto simp: advances_def walkable_def Let_def)
  moreover have "(bit (pf_dependency_mask (ep_fields (plan_of sl) ! j)) d \<longrightarrow> fo_status ((pl_outcomes (sl_plan sl))[i := oc] ! d) = Field_executed)
      = (bit (pf_dependency_mask (ep_fields (plan_of sl) ! j)) d \<longrightarrow> fo_status (pl_outcomes (sl_plan sl) ! d) = Field_executed)" for d
    using i by (cases "d = i") auto
  moreover have "pl_outcomes (sl_plan sl') = (pl_outcomes (sl_plan sl))[i := oc]" "ep_count (plan_of sl') = ep_count (plan_of sl)"
    using adv by (auto simp: advances_def)
  ultimately show ?thesis by (simp only: dependencies_executed_def plan_of_def [symmetric])
qed

lemma not_depends_on_later:
  assumes "walkable sl" "p \<le> q" "q < ep_count (plan_of sl)"
  shows "\<not> bit (pf_dependency_mask (ep_fields (plan_of sl) ! (ep_order (plan_of sl) ! p))) (ep_order (plan_of sl) ! q)"
proof
  let ?o = "ep_order (plan_of sl)" and ?n = "ep_count (plan_of sl)"
  assume "bit (pf_dependency_mask (ep_fields (plan_of sl) ! (?o ! p))) (?o ! q)"
  then have "?o ! q \<in> set (take p ?o)" using assms by (auto simp: walkable_def ordered_def Let_def)
  then obtain r where "r < p" "?o ! r = ?o ! q" by (auto simp: in_set_conv_nth)
  then show False using walkable_inj [OF assms(1), of r q] assms(2,3) by auto
qed

lemma simulate_step:
  assumes sim: "cm_action (rq_cam (pl_request (sl_plan sl))) = 1" and sl: "walkable sl"
    and p: "step_of sl < ep_count (plan_of sl)" and dec: "\<forall>q < step_of sl. decided sl (ep_order (plan_of sl) ! q)"
  shows "\<exists>sl'. dispatch_step env now ec sl = Inl (ec, sl') \<and> walkable sl' \<and> step_of sl' = step_of sl + 1
    \<and> ep_count (plan_of sl') = ep_count (plan_of sl) \<and> pl_request (sl_plan sl') = pl_request (sl_plan sl)
    \<and> (\<forall>q < step_of sl'. decided sl' (ep_order (plan_of sl') ! q))"
proof -
  let ?i = "ep_order (plan_of sl) ! step_of sl"
  obtain ec' sl' where step: "dispatch_step env now ec sl = Inl (ec', sl')"
  proof (cases "dispatch_step env now ec sl")
    case (Inr x)
    then show ?thesis using dispatch_step_Inr [of env now ec sl] sim by (metis prod.exhaust)
  qed (metis prod.exhaust that)
  obtain oc where adv: "advances ?i oc sl sl'" and oc: "fo_status oc \<noteq> Field_pending"
    and dep: "fo_status oc = Field_executed \<and> ?i < length (ep_fields (plan_of sl)) \<longrightarrow> dependencies_executed (sl_plan sl) ?i"
    and ec: "ec' = ec"
    using dispatch_step_Inl [OF step] sim by blast
  have i: "?i < ep_count (plan_of sl)" by (rule walkable_order [OF sl p])
  have lens: "ep_count (plan_of sl) \<le> length (ep_fields (plan_of sl))" "ep_count (plan_of sl) \<le> length (pl_outcomes (sl_plan sl))"
    using sl by (auto simp: walkable_def Let_def)
  have sl': "step_of sl' = step_of sl + 1" "ep_order (plan_of sl') = ep_order (plan_of sl)"
    "pl_outcomes (sl_plan sl') = (pl_outcomes (sl_plan sl))[?i := oc]"
    using adv by (auto simp: advances_def)
  have "decided sl' (ep_order (plan_of sl) ! q)" if q: "q < step_of sl + 1" for q
  proof (cases "q = step_of sl")
    case True
    then show ?thesis
      using oc dep i lens advances_dependencies [OF adv sl i] not_depends_on_later [OF sl _ p, of "step_of sl"]
      by (auto simp: decided_def sl')
  next
    case False
    then have "q < step_of sl" using q by simp
    moreover have "ep_order (plan_of sl) ! q \<noteq> ?i" using walkable_inj [OF sl _ p, of q] calculation p by simp
    ultimately show ?thesis
      using dec advances_dependencies [OF adv sl walkable_order [OF sl], of q] not_depends_on_later [OF sl _ p, of q] p
      by (auto simp: decided_def sl')
  qed
  then show ?thesis
    using step ec advances_walkable [OF adv sl] sl' adv by (auto simp: advances_def)
qed


lemma simulate_from:
  assumes "cm_action (rq_cam (pl_request (sl_plan sl))) = 1" "walkable sl" "step_of sl \<le> ep_count (plan_of sl)"
    "\<forall>q < step_of sl. decided sl (ep_order (plan_of sl) ! q)"
  shows "\<exists>sl'. dispatch env now ec sl = Some (ec, sl', Dispatch_done) \<and> walkable sl' \<and> step_of sl' = ep_count (plan_of sl)
    \<and> ep_count (plan_of sl') = ep_count (plan_of sl) \<and> (\<forall>q < ep_count (plan_of sl'). decided sl' (ep_order (plan_of sl') ! q))"
  using assms
proof (induction "ep_count (plan_of sl) - step_of sl" arbitrary: sl)
  case 0
  then have "step_of sl = ep_count (plan_of sl)" by simp
  then show ?case using 0 by (subst dispatch.simps) (simp add: slot_sel)
next
  case (Suc m)
  then have p: "step_of sl < ep_count (plan_of sl)" by simp
  from simulate_step [OF Suc.prems(1,2) p Suc.prems(4), of env now ec]
  obtain sl1 where step: "dispatch_step env now ec sl = Inl (ec, sl1)" and sl1: "walkable sl1" "step_of sl1 = step_of sl + 1"
    "ep_count (plan_of sl1) = ep_count (plan_of sl)" "pl_request (sl_plan sl1) = pl_request (sl_plan sl)"
    "\<forall>q < step_of sl1. decided sl1 (ep_order (plan_of sl1) ! q)" by blast
  have "dispatch env now ec sl = dispatch env now ec sl1"
    by (subst dispatch.simps) (use step p in \<open>simp add: slot_sel\<close>)
  then show ?case using Suc.hyps(1) [of sl1] Suc.hyps(2) Suc.prems(1) sl1 p by simp
qed

text \<open>C33: Walking a sound plan of a simulated command gives every field an outcome and changes nothing outside
  the command: not the device state, not the fault flag, and no effect is published. A field is reported
  executed only if every field it depends on was executed.\<close>

theorem simulation_decides_every_field:
  assumes sound: "plan_sound env (pl_request (sl_plan sl)) (pl_execution (sl_plan sl))"
    and lens: "length (ep_order (pl_execution (sl_plan sl))) = 5" "length (ep_fields (pl_execution (sl_plan sl))) = 5"
      "length (pl_outcomes (sl_plan sl)) = 5" "ep_count (pl_execution (sl_plan sl)) \<le> 5"
    and sim: "cm_action (rq_cam (pl_request (sl_plan sl))) = 1" and start: "tn_step (sl_record sl) = 0"
  shows "\<exists>sl'. dispatch env now ec sl = Some (ec, sl', Dispatch_done)
    \<and> tn_step (sl_record sl') = ep_count (pl_execution (sl_plan sl))
    \<and> (\<forall>i < ep_count (pl_execution (sl_plan sl)). decided sl' i)"
proof -
  have "walkable sl" using sound lens by (simp add: walkable_def plan_sound_def slot_sel Let_def)
  moreover have "step_of sl \<le> ep_count (plan_of sl)" "\<forall>q < step_of sl. decided sl (ep_order (plan_of sl) ! q)"
    using start by (simp_all add: slot_sel)
  ultimately obtain sl' where sl': "dispatch env now ec sl = Some (ec, sl', Dispatch_done)" "walkable sl'"
    "step_of sl' = ep_count (plan_of sl)" "ep_count (plan_of sl') = ep_count (plan_of sl)"
    "\<forall>q < ep_count (plan_of sl'). decided sl' (ep_order (plan_of sl') ! q)"
    using simulate_from [OF sim] by blast
  have "decided sl' i" if "i < ep_count (plan_of sl')" for i
  proof -
    have "i \<in> set (take (ep_count (plan_of sl')) (ep_order (plan_of sl')))" using sl'(2) that by (simp add: walkable_def Let_def)
    then show ?thesis using sl'(5) by (auto simp: in_set_conv_nth)
  qed
  then show ?thesis using sl' by (auto simp: slot_sel)
qed

text \<open>A simulated command of two fields, the first depending on the second.\<close>

definition sample_sim_env :: engine_env where
  "sample_sim_env = sample_sdr_env\<lparr>eo_profile := Generic_virtual_test, eo_simulate := (\<lambda>f s b. no_outcome\<lparr>fo_id := pf_id f,
     fo_status := Field_executed, fo_value := pf_adjusted f, fo_validity := Known\<rparr>)\<rparr>"

definition sample_sim_field :: "field_id \<Rightarrow> u8 \<Rightarrow> planned_field" where
  "sample_sim_field i deps = no_planned_field\<lparr>pf_id := i, pf_adjusted := SV_hertz (Hertz 0x100000), pf_dependency_mask := deps,
     pf_eligible := True\<rparr>"

definition sample_sim_slot :: slot where
  "sample_sim_slot = \<lparr>sl_plan = fresh_storage\<lparr>pl_request := no_request\<lparr>rq_cam := empty_cam\<lparr>cm_action := 1\<rparr>, rq_count := 2\<rparr>,
       pl_execution := fresh_plan\<lparr>ep_count := 2, ep_order := [1, 0, 0, 0, 0],
         ep_fields := [sample_sim_field Bandwidth_id (push_bit 1 1), sample_sim_field SampleRate_id 0,
           no_planned_field, no_planned_field, no_planned_field]\<rparr>\<rparr>,
     sl_record = \<lparr>tn_active = True, tn_complete = False, tn_revalidated = True, tn_running = False, tn_generation = 1,
       tn_sequence = 1, tn_step = 0, tn_running_field = 0, tn_response_read = 0, tn_responses = [],
       tn_hypothetical = default_snapshot\<rparr>,
     sl_credits = null_bundle\<rparr>"

lemma less_2: "(\<forall>i < (2 :: nat). P i) \<longleftrightarrow> P 0 \<and> P 1"
  by (auto simp: less_2_cases_iff)

lemma sample_sim_sound:
  "plan_sound sample_sim_env (pl_request (sl_plan sample_sim_slot)) (pl_execution (sl_plan sample_sim_slot))"
proof -
  define plan where "plan = pl_execution (sl_plan sample_sim_slot)"
  have n: "ep_count plan = 2" and ord: "ep_order plan = [1, 0, 0, 0, 0]"
    and fs: "ep_fields plan ! 0 = sample_sim_field Bandwidth_id (push_bit 1 1)" "ep_fields plan ! 1 = sample_sim_field SampleRate_id 0"
    by (simp_all add: plan_def sample_sim_slot_def)
  have two: "take 2 (ep_order plan) = [1, 0]" "{..<2 :: nat} = {0, 1}" by (auto simp: ord)
  have mask: "pf_dependency_mask (sample_sim_field i m) = m" "pf_eligible (sample_sim_field i m)" for i m
    by (simp_all add: sample_sim_field_def)
  have "ordered (ep_fields plan) (ep_order plan) 2"
    unfolding ordered_def less_2 two ord nth_Cons_0 nth_Cons_Suc One_nat_def fs [unfolded One_nat_def] mask bit_single_u8 by simp
  then show ?thesis
    unfolding plan_sound_def Let_def plan_def [symmetric] n two dependents_closed_def less_2 fs by (auto simp: mask)
qed

theorem simulation_decides_every_field_witness:
  "\<forall>now ec. \<exists>sl'. dispatch sample_sim_env now ec sample_sim_slot = Some (ec, sl', Dispatch_done) \<and> decided sl' 0 \<and> decided sl' 1"
proof -
  have "length (ep_order (pl_execution (sl_plan sample_sim_slot))) = 5" "length (ep_fields (pl_execution (sl_plan sample_sim_slot))) = 5"
    "length (pl_outcomes (sl_plan sample_sim_slot)) = 5" "ep_count (pl_execution (sl_plan sample_sim_slot)) = 2"
    "cm_action (rq_cam (pl_request (sl_plan sample_sim_slot))) = 1" "tn_step (sl_record sample_sim_slot) = 0"
    by (simp_all add: sample_sim_slot_def fresh_storage_def)
  then show ?thesis using simulation_decides_every_field [OF sample_sim_sound] by (auto simp: less_2)
qed

section \<open>What an execution acknowledgement says\<close>

definition timing_clean :: "planning_storage \<Rightarrow> nat \<Rightarrow> bool" where
  "timing_clean pl i \<longleftrightarrow> dg_errors (fo_diagnostics (pl_outcomes pl ! i)) AND timing_error = 0"

definition same_header :: "ack_record \<Rightarrow> ack_record \<Rightarrow> bool" where
  "same_header a b \<longleftrightarrow> ak_request a = ak_request b \<and> ak_cam a = ak_cam b \<and> ak_kind a = ak_kind b
     \<and> ak_cancellation a = ak_cancellation b"

lemma ack_field_execution:
  "\<exists>a'. ack_field pl Ack_execution observed i (a, k, tf)
     = (a', k + (if fo_status (pl_outcomes pl ! i) = Field_executed then 1 else 0), tf \<or> \<not> timing_clean pl i) \<and> same_header a' a"
  by (simp add: ack_field_def Let_def timing_clean_def same_header_def)

lemma ack_fold_execution:
  "\<exists>a'. fold (ack_field pl Ack_execution observed) [0..<n] (a, k, tf)
     = (a', k + length (filter (\<lambda>i. fo_status (pl_outcomes pl ! i) = Field_executed) [0..<n]), tf \<or> \<not> (\<forall>i < n. timing_clean pl i))
   \<and> same_header a' a"
proof (induction n)
  case (Suc n)
  then obtain a1 where f: "fold (ack_field pl Ack_execution observed) [0..<n] (a, k, tf)
     = (a1, k + length (filter (\<lambda>i. fo_status (pl_outcomes pl ! i) = Field_executed) [0..<n]), tf \<or> \<not> (\<forall>i < n. timing_clean pl i))"
    "same_header a1 a" by blast
  obtain a2 where g: "ack_field pl Ack_execution observed n (a1, k + length (filter (\<lambda>i. fo_status (pl_outcomes pl ! i) = Field_executed) [0..<n]),
        tf \<or> \<not> (\<forall>i < n. timing_clean pl i))
     = (a2, k + length (filter (\<lambda>i. fo_status (pl_outcomes pl ! i) = Field_executed) [0..<n])
           + (if fo_status (pl_outcomes pl ! n) = Field_executed then 1 else 0),
        (tf \<or> \<not> (\<forall>i < n. timing_clean pl i)) \<or> \<not> timing_clean pl n)" "same_header a2 a1"
    using ack_field_execution by blast
  have "(\<forall>i < Suc n. timing_clean pl i) \<longleftrightarrow> (\<forall>i < n. timing_clean pl i) \<and> timing_clean pl n" by (auto simp: less_Suc_eq)
  then show ?case
    using f g by (intro exI [of _ a2]) (simp add: same_header_def)
qed (simp add: same_header_def)

lemma make_ack_execution:
  fixes env now pl observed
  assumes "cm_action (rq_cam (pl_request pl)) \<noteq> 0" "0 < ep_count (pl_execution pl)"
  defines "ack \<equiv> make_ack env now pl Ack_execution observed" and "n \<equiv> ep_count (pl_execution pl)"
  shows "ak_request ack = rq_envelope (pl_request pl)" "ak_cam ack = rq_cam (pl_request pl)" "ak_kind ack = Ack_execution"
    "\<not> ak_cancellation ack"
    "ak_scheduled_or_executed ack \<longleftrightarrow> (\<forall>i < n. fo_status (pl_outcomes pl ! i) = Field_executed) \<and> (\<forall>i < n. timing_clean pl i)"
    "ak_partial ack \<longleftrightarrow> \<not> ak_scheduled_or_executed ack"
    "ak_timing ack = (if \<forall>i < n. timing_clean pl i then cm_timing (rq_cam (pl_request pl)) else 7)"
proof -
  let ?ex = "\<lambda>i. fo_status (pl_outcomes pl ! i) = Field_executed"
  define ack0 where "ack0 = empty_ack\<lparr>ak_epoch := epoch_tsi (cs_epoch (oc_clock now)), ak_request := rq_envelope (pl_request pl),
            ak_cam := rq_cam (pl_request pl), ak_kind := Ack_execution, ak_hypothetical := (cm_action (rq_cam (pl_request pl)) = 1),
            ak_state := (case eo_observe env of Some f \<Rightarrow> if Ack_execution = Ack_state then f observed now else observed
              | None \<Rightarrow> observed)\<rparr>"
  obtain a k tf where f: "fold (ack_field pl Ack_execution observed) [0..<n] (ack0, 0, False) = (a, k, tf)" by (metis prod.exhaust)
  then have a: "k = length (filter ?ex [0..<n])" "tf \<longleftrightarrow> \<not> (\<forall>i < n. timing_clean pl i)" "ak_request a = ak_request ack0"
    "ak_cam a = ak_cam ack0" "ak_kind a = ak_kind ack0" "ak_cancellation a = ak_cancellation ack0"
    using ack_fold_execution [of pl observed n ack0 0 False] by (auto simp: same_header_def)
  have full: "length (filter ?ex [0..<n]) = n \<longleftrightarrow> (\<forall>i < n. ?ex i)"
    using filter_id_conv [of ?ex "[0..<n]"] length_filter_less by (metis (no_types, lifting) atLeast_upt diff_zero filter_True length_upt lessThan_iff nat_neq_iff)
  define ack3 where "ack3 = a\<lparr>ak_partial := (k \<noteq> n \<or> tf), ak_scheduled_or_executed := (k = n \<and> \<not> tf)\<rparr>"
  have ack: "ack = (if eo_profile env = Sdr_profile \<and> \<not> ak_time_known ack3 \<and> clock_qualified (oc_clock now)
      then ack3\<lparr>ak_time := cs_time (oc_clock now), ak_time_known := True\<rparr> else ack3)
      \<lparr>ak_timing := (if tf then 7 else cm_timing (rq_cam (pl_request pl)))\<rparr>"
    using f assms(1,2) unfolding ack_def make_ack_def Let_def n_def ack0_def ack3_def by simp
  have sel: "ak_request ack = ak_request ack3" "ak_cam ack = ak_cam ack3" "ak_kind ack = ak_kind ack3"
    "ak_cancellation ack = ak_cancellation ack3" "ak_partial ack = ak_partial ack3"
    "ak_scheduled_or_executed ack = ak_scheduled_or_executed ack3"
    "ak_timing ack = (if tf then 7 else cm_timing (rq_cam (pl_request pl)))"
    by (simp_all add: ack)
  show "ak_request ack = rq_envelope (pl_request pl)" "ak_cam ack = rq_cam (pl_request pl)" "ak_kind ack = Ack_execution"
    "\<not> ak_cancellation ack"
    by (simp_all add: sel ack3_def a ack0_def empty_ack_def)
  show "ak_scheduled_or_executed ack \<longleftrightarrow> (\<forall>i < n. ?ex i) \<and> (\<forall>i < n. timing_clean pl i)"
    "ak_partial ack \<longleftrightarrow> \<not> ak_scheduled_or_executed ack"
    using full by (simp_all add: sel ack3_def a(1,2))
  show "ak_timing ack = (if \<forall>i < n. timing_clean pl i then cm_timing (rq_cam (pl_request pl)) else 7)"
    unfolding sel a(2) by (cases "\<forall>i < n. timing_clean pl i") auto
qed

end
