(* ===== verification/Backend.thy ===== *)
theory Backend
  imports Dispatch
begin

text \<open>
  Devices (\<^verbatim>\<open>runtime/transaction/backend.hpp\<close>): the storage results are published in, the capability a
  device completes an operation with, and the virtual backend. A capability is the publisher of its
  ticket and the index of its result slot; the counter of live capabilities is kept by whoever creates
  and destroys them. The lemmas show that a result is written by the first completion only and that a
  later one is recorded as a contradiction exactly when it reports an effect.
\<close>

section \<open>Results\<close>

record result_guard =
  rg_holders :: nat
  rg_cancelled :: bool
  rg_contradiction :: bool
  rg_association_generation :: nat
  rg_field :: field_id

record result_slot =
  re_outcome :: field_outcome
  re_device_done_ns :: nat
  re_generation :: nat
  re_busy :: bool
  re_guard :: result_guard

text \<open>Tickets and results, which devices and the engine share.\<close>

record device_results =
  dr_tickets :: completion_state
  dr_slots :: "result_slot list"
  dr_trace :: trace_binding

definition update_result :: "nat \<Rightarrow> (result_slot \<Rightarrow> result_slot) \<Rightarrow> device_results \<Rightarrow> device_results" where
  "update_result i f w = w\<lparr>dr_slots := (dr_slots w)[i := f (dr_slots w ! i)]\<rparr>"

definition update_guard :: "nat \<Rightarrow> (result_guard \<Rightarrow> result_guard) \<Rightarrow> device_results \<Rightarrow> device_results" where
  "update_guard i f w = update_result i (\<lambda>r. r\<lparr>re_guard := f (re_guard r)\<rparr>) w"

record async_result =
  ay_publisher :: "nat \<times> nat"
  ay_index :: nat
  ay_guarded :: bool

definition retain_capability :: "async_result \<Rightarrow> device_results \<Rightarrow> device_results" where
  "retain_capability a w = (if ay_guarded a
     then update_guard (ay_index a) (\<lambda>g. g\<lparr>rg_holders := size_add (rg_holders g) 1\<rparr>) w else w)"

definition release_capability :: "async_result \<Rightarrow> device_results \<Rightarrow> device_results" where
  "release_capability a w = (if ay_guarded a
     then update_guard (ay_index a) (\<lambda>g. g\<lparr>rg_holders := size_sub (rg_holders g) 1\<rparr>) w else w)"

definition has_effect :: "field_outcome \<Rightarrow> bool" where
  "has_effect oc \<longleftrightarrow> fo_status oc = Field_executed \<or> fo_status oc = Field_unknown_effect"

text \<open>\<open>reading\<close> is the trace clock, read when tracing is on.\<close>

definition complete_capability :: "device_results \<Rightarrow> nat \<Rightarrow> async_result \<Rightarrow> field_outcome \<Rightarrow> device_results \<times> bool" where
  "complete_capability w reading a oc =
     (case try_claim (dr_tickets w) (ay_publisher a) of
        (t, False) \<Rightarrow> (let w1 = w\<lparr>dr_tickets := t\<rparr> in
          if ay_guarded a \<and> has_effect oc then update_guard (ay_index a) (\<lambda>g. g\<lparr>rg_contradiction := True\<rparr>) w1 else w1, False)
      | (t, True) \<Rightarrow>
          (let w1 = w\<lparr>dr_tickets := t\<rparr>;
               w2 = (if ay_guarded a \<and> fo_status oc = Field_cancelled
                 then update_guard (ay_index a) (\<lambda>g. g\<lparr>rg_cancelled := True\<rparr>) w1 else w1);
               w3 = update_result (ay_index a) (\<lambda>r. r\<lparr>re_outcome := oc,
                 re_device_done_ns := (if trace_enabled (dr_trace w) then reading else re_device_done_ns r)\<rparr>) w2
           in w3\<lparr>dr_tickets := writer_finish (dr_tickets w3) (ay_publisher a) (default_result\<lparr>co_value := ay_index a\<rparr>)\<rparr>, True))"

text \<open>Result pointers are compared; they are equal exactly when the indices are.\<close>

definition same_operation :: "async_result \<Rightarrow> async_result \<Rightarrow> bool" where
  "same_operation a b \<longleftrightarrow> ay_publisher a = ay_publisher b \<and> ay_index a = ay_index b"

definition capability_reserved :: "device_results \<Rightarrow> async_result \<Rightarrow> bool" where
  "capability_reserved w a = is_reserved (dr_tickets w) (ay_publisher a)"

definition synthetic_failure :: "device_results \<Rightarrow> async_result \<Rightarrow> device_results \<times> bool" where
  "synthetic_failure w a =
     (case publish (dr_tickets w) (ay_publisher a) (default_result\<lparr>co_status := Failed, co_error := err Callback_failure\<rparr>) of
        (t, ok) \<Rightarrow> (w\<lparr>dr_tickets := t\<rparr>, ok))"

section \<open>Backend interface\<close>

datatype disarm_result = Disarm_cancelled | Disarm_not_cancelled | Disarm_unknown_effect

record backend_quiescence =
  bq_known :: bool
  bq_quiescent :: bool
  bq_pending :: nat

record batch_outcome =
  bo_status :: field_status
  bo_actual_time :: protocol_time
  bo_time_known :: bool
  bo_uncertainty_ps :: nat

text \<open>The callbacks that act on a device of type \<open>'b\<close>; \<open>None\<close> is a null pointer. The argument capability
  of \<open>begin\<close> belongs to the callee.\<close>

record 'b backend =
  bk_begin :: "('b \<Rightarrow> device_results \<Rightarrow> planned_field \<Rightarrow> boundary \<Rightarrow> async_result \<Rightarrow> 'b \<times> device_results \<times> unit result) option"
  bk_disarm :: "('b \<Rightarrow> device_results \<Rightarrow> async_result \<Rightarrow> 'b \<times> device_results \<times> disarm_result) option"
  bk_quiescence :: "('b \<Rightarrow> backend_quiescence) option"
  bk_commit :: "('b \<Rightarrow> execution_plan \<Rightarrow> boundary \<Rightarrow> 'b \<times> batch_outcome) option"

section \<open>Virtual backend\<close>

record virtual_rule =
  vr_supported :: bool
  vr_resolvable :: bool
  vr_diagnostics :: diagnostics
  vr_adjusted :: "semantic_value option"
  vr_dependencies :: u8
  vr_completion :: field_status

definition default_rule :: virtual_rule where
  "default_rule = \<lparr>vr_supported = True, vr_resolvable = True, vr_diagnostics = no_diagnostics, vr_adjusted = None,
     vr_dependencies = 0, vr_completion = Field_executed\<rparr>"

record work =
  wk_field :: planned_field
  wk_boundary :: boundary
  wk_completion :: async_result

record virtual_backend =
  vb_rules :: "virtual_rule list"
  vb_pending :: "work option list"
  vb_begins :: nat
  vb_writes :: nat
  vb_reversible :: bool
  vb_quiescence_available :: bool
  vb_inline_completion :: bool
  vb_model :: state_snapshot

definition new_virtual :: "nat \<Rightarrow> virtual_backend" where
  "new_virtual n = \<lparr>vb_rules = replicate state_field_capacity default_rule, vb_pending = replicate n None, vb_begins = 0,
     vb_writes = 0, vb_reversible = True, vb_quiescence_available = True, vb_inline_completion = False,
     vb_model = default_snapshot\<rparr>"

definition virtual_validate :: "virtual_backend \<Rightarrow> field_id \<Rightarrow> semantic_value \<Rightarrow> validation" where
  "virtual_validate b i v =
     (let k = field_index i in
      if k = state_field_capacity then refuse_value unsupported v
      else let rule = vb_rules b ! k;
               d = (if vr_supported rule then vr_diagnostics rule else add_errors unsupported (vr_diagnostics rule))
        in \<lparr>vl_adjusted = (case vr_adjusted rule of None \<Rightarrow> v | Some a \<Rightarrow> a), vl_diagnostics = d,
            vl_resolvable = (vr_supported rule \<and> vr_resolvable rule), vl_dependencies = vr_dependencies rule\<rparr>)"

definition virtual_outcome :: "virtual_backend \<Rightarrow> planned_field \<Rightarrow> boundary \<Rightarrow> bool \<Rightarrow> field_outcome" where
  "virtual_outcome b f bd simulated =
     (let status = vr_completion (vb_rules b ! field_index (pf_id f)) in
      no_outcome\<lparr>fo_id := pf_id f, fo_value := pf_adjusted f,
        fo_validity := (if status = Field_unknown_effect then Unknown else Known), fo_actual_time := bd_time bd,
        fo_sample_ordinal := bd_sample_ordinal bd, fo_time_known := pf_time_known f, fo_ordinal_known := pf_ordinal_known f,
        fo_simulated := simulated, fo_status := status,
        fo_diagnostics := \<lparr>dg_warnings = 0, dg_errors = (if status = Field_failed then device_failure OR not_executed
          else if status = Field_unknown_effect then device_failure OR state_indeterminate OR not_executed else 0)\<rparr>\<rparr>)"

definition record_model :: "field_outcome \<Rightarrow> virtual_backend \<Rightarrow> virtual_backend" where
  "record_model oc b =
     (if has_effect oc
      then let m = vb_model b; i = field_index (fo_id oc); f = ss_fields m ! i;
               f' = f\<lparr>fs_id := fo_id oc, fs_value := (if fo_status oc = Field_executed then fo_value oc else fs_value f),
                 fs_validity := (if fo_status oc = Field_executed then Known else Unknown)\<rparr>
        in b\<lparr>vb_model := m\<lparr>ss_fields := (ss_fields m)[i := f'], ss_version := wrap64 (ss_version m + 1)\<rparr>,
             vb_writes := size_add (vb_writes b) 1\<rparr>
      else b)"

primrec first_free :: "work option list \<Rightarrow> nat \<Rightarrow> nat option" where
  "first_free [] i = None"
| "first_free (x # xs) i = (if x = None then Some i else first_free xs (i + 1))"

definition virtual_begin :: "nat \<Rightarrow> virtual_backend \<Rightarrow> device_results \<Rightarrow> planned_field \<Rightarrow> boundary \<Rightarrow> async_result
    \<Rightarrow> virtual_backend \<times> device_results \<times> unit result" where
  "virtual_begin reading b w f bd a =
     (if vb_inline_completion b
      then let oc = virtual_outcome b f bd False in
        if has_effect oc \<and> ss_version (vb_model b) = u64_max then (b, release_capability a w, Inl (err Overflow))
        else let b' = record_model oc (b\<lparr>vb_begins := size_add (vb_begins b) 1\<rparr>);
                 (w', published) = complete_capability w reading a oc
          in (b', release_capability a w', if published then Inr () else Inl (err Invalid_state))
      else case first_free (vb_pending b) 0 of
        None \<Rightarrow> (b, release_capability a w, Inl (err Capacity_exhausted))
      | Some i \<Rightarrow> (b\<lparr>vb_pending := (vb_pending b)[i := Some \<lparr>wk_field = f, wk_boundary = bd, wk_completion = a\<rparr>],
            vb_begins := size_add (vb_begins b) 1\<rparr>, w, Inr ()))"

definition virtual_simulate :: "virtual_backend \<Rightarrow> planned_field \<Rightarrow> boundary \<Rightarrow> field_outcome" where
  "virtual_simulate b f bd = virtual_outcome b f bd True"

primrec find_work :: "async_result \<Rightarrow> work option list \<Rightarrow> nat \<Rightarrow> nat option" where
  "find_work a [] i = None"
| "find_work a (x # xs) i = (case x of
     Some wk \<Rightarrow> if same_operation (wk_completion wk) a then Some i else find_work a xs (i + 1)
   | None \<Rightarrow> find_work a xs (i + 1))"

text \<open>\<open>work.reset()\<close> destroys the capability it holds.\<close>

definition drop_work :: "nat \<Rightarrow> virtual_backend \<Rightarrow> device_results \<Rightarrow> virtual_backend \<times> device_results" where
  "drop_work i b w = (case vb_pending b ! i of None \<Rightarrow> (b, w)
     | Some wk \<Rightarrow> (b\<lparr>vb_pending := (vb_pending b)[i := None]\<rparr>, release_capability (wk_completion wk) w))"

definition virtual_disarm :: "virtual_backend \<Rightarrow> device_results \<Rightarrow> async_result \<Rightarrow> virtual_backend \<times> device_results \<times> disarm_result" where
  "virtual_disarm b w a =
     (if \<not> vb_reversible b then (b, w, Disarm_not_cancelled)
      else case find_work a (vb_pending b) 0 of None \<Rightarrow> (b, w, Disarm_not_cancelled)
      | Some i \<Rightarrow> if \<not> capability_reserved w a then (b, w, Disarm_not_cancelled)
          else let (b', w') = drop_work i b w in (b', w', Disarm_cancelled))"

definition refusing_field :: "virtual_backend \<Rightarrow> execution_plan \<Rightarrow> field_status option" where
  "refusing_field b plan = find (\<lambda>s. s \<noteq> Field_executed)
     (map (\<lambda>i. vr_completion (vb_rules b ! field_index (pf_id (ep_fields plan ! i)))) [0..<ep_count plan])"

definition virtual_commit :: "virtual_backend \<Rightarrow> execution_plan \<Rightarrow> boundary \<Rightarrow> virtual_backend \<times> batch_outcome" where
  "virtual_commit b plan bd =
     (case refusing_field b plan of
        Some s \<Rightarrow> (b, \<lparr>bo_status = s, bo_actual_time = bd_time bd, bo_time_known = True, bo_uncertainty_ps = 0\<rparr>)
      | None \<Rightarrow> (b\<lparr>vb_begins := size_add (vb_begins b) 1, vb_writes := size_add (vb_writes b) (ep_count plan),
            vb_model := commit_plan plan (vb_model b)\<rparr>,
          \<lparr>bo_status = Field_executed, bo_actual_time = bd_time bd, bo_time_known = True, bo_uncertainty_ps = 0\<rparr>))"

definition pending_work :: "virtual_backend \<Rightarrow> nat" where
  "pending_work b = length (filter (\<lambda>x. x \<noteq> None) (vb_pending b))"

definition virtual_quiescence :: "virtual_backend \<Rightarrow> backend_quiescence" where
  "virtual_quiescence b = \<lparr>bq_known = vb_quiescence_available b,
     bq_quiescent = (vb_quiescence_available b \<and> pending_work b = 0), bq_pending = pending_work b\<rparr>"

definition virtual_binding :: "nat \<Rightarrow> virtual_backend backend" where
  "virtual_binding reading = \<lparr>bk_begin = Some (virtual_begin reading), bk_disarm = Some virtual_disarm,
     bk_quiescence = Some virtual_quiescence, bk_commit = Some virtual_commit\<rparr>"

definition set_inline_completion :: "virtual_backend \<Rightarrow> bool \<Rightarrow> virtual_backend \<times> unit result" where
  "set_inline_completion b enabled = (if pending_work b \<noteq> 0 then (b, Inl (err Invalid_state))
     else (b\<lparr>vb_inline_completion := enabled\<rparr>, Inr ()))"

definition set_quiescence_available :: "virtual_backend \<Rightarrow> bool \<Rightarrow> virtual_backend" where
  "set_quiescence_available b available = b\<lparr>vb_quiescence_available := available\<rparr>"

definition set_reversible :: "virtual_backend \<Rightarrow> bool \<Rightarrow> virtual_backend" where
  "set_reversible b v = b\<lparr>vb_reversible := v\<rparr>"

primrec discard_work :: "nat \<Rightarrow> nat list \<Rightarrow> virtual_backend \<Rightarrow> device_results \<Rightarrow> virtual_backend \<times> device_results" where
  "discard_work reading [] b w = (b, w)"
| "discard_work reading (i # is) b w = (case vb_pending b ! i of None \<Rightarrow> discard_work reading is b w
     | Some wk \<Rightarrow>
         let (w1, _) = complete_capability w reading (wk_completion wk) (no_outcome\<lparr>fo_id := pf_id (wk_field wk),
               fo_status := Field_cancelled, fo_diagnostics := \<lparr>dg_warnings = 0, dg_errors = not_executed\<rparr>\<rparr>);
             (b', w') = drop_work i b w1
         in discard_work reading is b' w')"

definition reinitialize :: "nat \<Rightarrow> virtual_backend \<Rightarrow> device_results \<Rightarrow> virtual_backend \<times> device_results \<times> unit result" where
  "reinitialize reading b w =
     (if \<not> vb_quiescence_available b then (b, w, Inl (err Unsupported_capability))
      else let (b', w') = discard_work reading [0..<length (vb_pending b)] b w in (b', w', Inr ()))"

definition set_rule :: "virtual_backend \<Rightarrow> field_id \<Rightarrow> virtual_rule \<Rightarrow> virtual_backend \<times> unit result" where
  "set_rule b i rule =
     (if field_index i = state_field_capacity \<or> dg_warnings (vr_diagnostics rule) AND dg_errors (vr_diagnostics rule) \<noteq> 0
         \<or> vr_dependencies rule AND 0xe0 \<noteq> 0 then (b, Inl (err Invalid_argument))
      else if vr_completion rule \<noteq> Field_executed \<and> vr_completion rule \<noteq> Field_failed \<and> vr_completion rule \<noteq> Field_unknown_effect
      then (b, Inl (err Invalid_argument))
      else (b\<lparr>vb_rules := (vb_rules b)[field_index i := rule]\<rparr>, Inr ()))"

primrec first_work :: "work option list \<Rightarrow> nat \<Rightarrow> (nat \<times> work) option" where
  "first_work [] i = None"
| "first_work (x # xs) i = (case x of Some wk \<Rightarrow> Some (i, wk) | None \<Rightarrow> first_work xs (i + 1))"

definition complete_next :: "nat \<Rightarrow> virtual_backend \<Rightarrow> device_results \<Rightarrow> field_outcome option \<Rightarrow> virtual_backend \<times> device_results \<times> bool" where
  "complete_next reading b w given =
     (case first_work (vb_pending b) 0 of None \<Rightarrow> (b, w, False)
      | Some (i, wk) \<Rightarrow>
          let oc = (case given of Some x \<Rightarrow> x | None \<Rightarrow> virtual_outcome b (wk_field wk) (wk_boundary wk) False);
              b1 = (if has_effect oc then b\<lparr>vb_writes := size_add (vb_writes b) 1\<rparr> else b);
              (w1, published) = complete_capability w reading (wk_completion wk) oc;
              (b2, w2) = drop_work i b1 w1
          in (b2, w2, published))"

definition pending_capability :: "virtual_backend \<Rightarrow> device_results \<Rightarrow> device_results \<times> async_result option" where
  "pending_capability b w = (case first_work (vb_pending b) 0 of None \<Rightarrow> (w, None)
     | Some (i, wk) \<Rightarrow> (retain_capability (wk_completion wk) w, Some (wk_completion wk)))"

section \<open>The first completion counts\<close>

text \<open>The operation of \<open>a\<close> has been completed with \<open>oc\<close> and nobody has read the ticket yet; \<open>c\<close> tells whether a
  contradiction is recorded.\<close>

definition completed_as :: "async_result \<Rightarrow> field_outcome \<Rightarrow> bool \<Rightarrow> device_results \<Rightarrow> bool" where
  "completed_as a oc c w \<longleftrightarrow> ay_index a < length (dr_slots w) \<and> fst (ay_publisher a) < length (tk_slots (dr_tickets w))
     \<and> tk_tagged (tk_slots (dr_tickets w) ! fst (ay_publisher a)) = tag (snd (ay_publisher a)) T_ready
     \<and> co_value (tk_payload (tk_slots (dr_tickets w) ! fst (ay_publisher a))) = ay_index a
     \<and> re_outcome (dr_slots w ! ay_index a) = oc \<and> rg_contradiction (re_guard (dr_slots w ! ay_index a)) = c"

lemma complete_first:
  assumes "complete_capability w reading a oc = (w1, True)"
    "fst (ay_publisher a) < length (tk_slots (dr_tickets w))" "ay_index a < length (dr_slots w)"
  shows "completed_as a oc (rg_contradiction (re_guard (dr_slots w ! ay_index a))) w1"
proof (cases "try_claim (dr_tickets w) (ay_publisher a)")
  case (Pair t ok)
  obtain i g where p: "ay_publisher a = (i, g)" by fastforce
  have ok "w1 = fst (complete_capability w reading a oc)" using assms(1) Pair by (auto simp: complete_capability_def split: bool.split_asm)
  then show ?thesis
    using assms(2,3) Pair p
    by (auto simp: complete_capability_def completed_as_def update_guard_def update_result_def writer_finish_def try_claim_def Let_def
        default_result_def split: if_split_asm)
qed

lemma complete_again:
  assumes "completed_as a oc c w" "ay_guarded a"
  shows "\<exists>w1. complete_capability w reading a oc' = (w1, False) \<and> completed_as a oc (c \<or> has_effect oc') w1"
proof -
  obtain i g where p: "ay_publisher a = (i, g)" by fastforce
  have "tag g T_ready \<noteq> tag g T_reserved" by (simp add: tag_def)
  then show ?thesis
    using assms p by (auto simp: complete_capability_def completed_as_def update_guard_def update_result_def try_claim_def Let_def)
qed

text \<open>C37: The first completion of an operation decides its outcome. Every later completion is refused and
  changes neither the outcome nor the ticket; it is recorded as a contradiction exactly when it reports
  an effect.\<close>

theorem first_completion_counts:
  assumes "complete_capability w reading a oc = (w1, True)" "ay_guarded a"
    "fst (ay_publisher a) < length (tk_slots (dr_tickets w))" "ay_index a < length (dr_slots w)"
  shows "completed_as a oc (rg_contradiction (re_guard (dr_slots w ! ay_index a)) \<or> list_ex (\<lambda>(r, x). has_effect x) later)
      (fold (\<lambda>(r, x) w. fst (complete_capability w r a x)) later w1)"
proof -
  have "completed_as a oc (c \<or> list_ex (\<lambda>(r, x). has_effect x) later) (fold (\<lambda>(r, x) w. fst (complete_capability w r a x)) later w)"
    if "completed_as a oc c w" for c w
    using that
  proof (induction later arbitrary: c w)
    case (Cons rx later)
    obtain r x where rx: "rx = (r, x)" by fastforce
    from complete_again [OF Cons.prems assms(2), of r x] obtain w1 where
      w1: "complete_capability w r a x = (w1, False)" "completed_as a oc (c \<or> has_effect x) w1" by blast
    show ?case using Cons.IH [OF w1(2)] w1(1) by (simp add: rx disj_assoc)
  qed simp
  from this [OF complete_first [OF assms(1,3,4)]] show ?thesis .
qed

text \<open>One operation at the device, first completed as cancelled and then reported executed.\<close>

definition sample_results :: device_results where
  "sample_results = \<lparr>dr_tickets = fst (ticket_reserve (make_completion 1 1) 7),
     dr_slots = [\<lparr>re_outcome = no_outcome, re_device_done_ns = 0, re_generation = 1, re_busy = True,
       re_guard = \<lparr>rg_holders = 1, rg_cancelled = False, rg_contradiction = False, rg_association_generation = 1,
         rg_field = no_field\<rparr>\<rparr>], dr_trace = eo_trace sample_sim_env\<rparr>"

definition sample_capability :: async_result where
  "sample_capability = \<lparr>ay_publisher = (0, 1), ay_index = 0, ay_guarded = True\<rparr>"

theorem first_completion_counts_witness:
  "completed_as sample_capability (no_outcome\<lparr>fo_status := Field_cancelled\<rparr>) True
     (fst (complete_capability (fst (complete_capability sample_results 0 sample_capability (no_outcome\<lparr>fo_status := Field_cancelled\<rparr>)))
       0 sample_capability (no_outcome\<lparr>fo_status := Field_executed\<rparr>)))"
proof -
  let ?first = "no_outcome\<lparr>fo_status := Field_cancelled\<rparr>"
  have t: "dr_tickets sample_results = fst (ticket_reserve (make_completion 1 1) 7)" by (simp add: sample_results_def)
  have r: "tk_slots (dr_tickets sample_results) ! 0 = \<lparr>tk_tagged = tag 1 T_reserved, tk_operation = 7, tk_payload = default_result\<rparr>"
    "length (tk_slots (dr_tickets sample_results)) = 1"
    by (simp_all add: t ticket_reserve_def make_completion_def in_state_def slot_reserve_def generation_of_def tag_def Let_def
        max_ticket_generation_def)
  have c: "ay_guarded sample_capability" "ay_publisher sample_capability = (0, 1)" "ay_index sample_capability = 0"
    "length (dr_slots sample_results) = 1" "\<not> rg_contradiction (re_guard (dr_slots sample_results ! 0))"
    by (simp_all add: sample_capability_def sample_results_def)
  have "snd (complete_capability sample_results 0 sample_capability ?first)"
    by (simp add: complete_capability_def try_claim_def c r Let_def)
  then have "complete_capability sample_results 0 sample_capability ?first
      = (fst (complete_capability sample_results 0 sample_capability ?first), True)" by (metis prod.collapse)
  from first_completion_counts [OF this, of "[(0, no_outcome\<lparr>fo_status := Field_executed\<rparr>)]"]
  show ?thesis by (simp add: r c has_effect_def)
qed

end
