(* ===== verification/Retention.thy ===== *)
theory Retention
  imports Packet_View Routing Timing Admission
begin

text \<open>
  The retention store of the responder (\<^verbatim>\<open>runtime/transaction/retention.hpp\<close>): duplicate
  detection of commands and replay of their responses. Every entry holds the record of a command and
  of its cancellation; a record owns an extent of one shared byte area with the canonical
  command and the object representations of the acknowledgements appended to it. An
  acknowledgement is its bytes, \<open>ack_size\<close> of them (\<^verbatim>\<open>sizeof(AckRecord)\<close>). The store takes its
  admission credits from a pool, which the operations pass along.
\<close>

section \<open>Keys and tokens\<close>

record transaction_key =
  tk_binding_generation :: nat
  tk_peer :: peer_session
  tk_stream_id :: "u32 option"
  tk_controller :: ident
  tk_controllee :: ident
  tk_message_id :: u32

definition same_key :: "transaction_key \<Rightarrow> transaction_key \<Rightarrow> bool" where
  "same_key a b \<longleftrightarrow> tk_binding_generation a = tk_binding_generation b \<and> tk_peer a = tk_peer b
     \<and> tk_stream_id a = tk_stream_id b \<and> tk_message_id a = tk_message_id b
     \<and> same_identifier (tk_controller a) (tk_controller b)
     \<and> same_identifier (tk_controllee a) (tk_controllee b)"

definition same_association :: "transaction_key \<Rightarrow> transaction_key \<Rightarrow> bool" where
  "same_association a b = same_key (a\<lparr>tk_message_id := 0\<rparr>) (b\<lparr>tk_message_id := 0\<rparr>)"

definition transaction_key_of :: "packet_view \<Rightarrow> nat \<Rightarrow> peer_session \<Rightarrow> transaction_key result" where
  "transaction_key_of packet generation peer = (let e = view_envelope (pv_envelope packet) in
     if generation = 0 \<or> ps_generation peer = 0 \<or> \<not> is_command (env_type e) then Inl (err Invalid_argument)
     else case env_command e of None \<Rightarrow> Inl (err Invalid_argument)
       | Some c \<Rightarrow> Inr \<lparr>tk_binding_generation = generation, tk_peer = peer, tk_stream_id = env_stream_id e,
           tk_controller = cmd_controller c, tk_controllee = cmd_controllee c, tk_message_id = cmd_message_id c\<rparr>)"

definition canonical_command_byte :: "packet_view \<Rightarrow> nat \<Rightarrow> u8" where
  "canonical_command_byte packet offset =
     (let v = pv_envelope packet; b = view_wire v ! offset;
        b = (if offset = 1 then b AND 0xf0 else b)
      in if \<not> env_cancel (view_envelope v) \<and> offset = view_payload_offset v then b AND 0x7f else b)"

datatype duplicate_kind = Dup_fresh | Dup_active | Dup_replay

record retention_token =
  rt_slot :: nat
  rt_generation :: nat
  rt_cancellation :: bool

record retention_admission =
  ra_token :: retention_token
  ra_kind :: duplicate_kind

record handle =
  h_slot :: nat
  h_generation :: nat

section \<open>Storage\<close>

record retained =
  rd_used :: bool
  rd_active :: bool
  rd_terminal :: bool
  rd_offset :: nat
  rd_bytes :: nat
  rd_canonical :: nat
  rd_response_capacity :: nat
  rd_response_count :: nat
  rd_engine :: "handle option"
  rd_credits :: admission_bundle

definition empty_record :: retained where
  "empty_record = \<lparr>rd_used = False, rd_active = False, rd_terminal = False, rd_offset = 0, rd_bytes = 0,
     rd_canonical = 0, rd_response_capacity = 0, rd_response_count = 0, rd_engine = None, rd_credits = null_bundle\<rparr>"

text \<open>The two records of an entry, indexed by the cancellation flag.\<close>

record entry =
  en_generation :: nat
  en_key :: transaction_key
  en_original :: retained
  en_cancel :: retained
  en_references :: nat
  en_expires :: mono_time

definition record_of :: "entry \<Rightarrow> bool \<Rightarrow> retained" where
  "record_of e c = (if c then en_cancel e else en_original e)"

definition set_record :: "bool \<Rightarrow> retained \<Rightarrow> entry \<Rightarrow> entry" where
  "set_record c r e = (if c then e\<lparr>en_cancel := r\<rparr> else e\<lparr>en_original := r\<rparr>)"

text \<open>The occupied index holds \<open>slot * 2 + cancellation\<close>, in offset order.\<close>

record retention_store =
  rs_entries :: "entry list"
  rs_bytes :: bytes
  rs_occupied :: "nat list"
  rs_placement_probes :: nat
  rs_pool :: admission_state

definition record_id :: "nat \<Rightarrow> bool \<Rightarrow> nat" where
  "record_id slot c = slot * 2 + of_bool c"

definition indexed_record :: "retention_store \<Rightarrow> nat \<Rightarrow> retained" where
  "indexed_record s i = record_of (rs_entries s ! (i div 2)) (i mod 2 = 1)"

definition find_entry :: "retention_store \<Rightarrow> retention_token \<Rightarrow> entry option" where
  "find_entry s t =
     (if rt_slot t \<ge> length (rs_entries s) then None
      else let e = rs_entries s ! rt_slot t in
        if rd_used (record_of e (rt_cancellation t)) \<and> en_generation e = rt_generation t then Some e else None)"

definition update_record :: "nat \<Rightarrow> bool \<Rightarrow> retained \<Rightarrow> retention_store \<Rightarrow> retention_store" where
  "update_record i c r s = s\<lparr>rs_entries := (rs_entries s)[i := set_record c r (rs_entries s ! i)]\<rparr>"

definition remove_extent :: "nat \<Rightarrow> bool \<Rightarrow> retention_store \<Rightarrow> retention_store" where
  "remove_extent i c s =
     (if \<not> rd_used (record_of (rs_entries s ! i) c) then s
      else s\<lparr>rs_occupied := remove1 (record_id i c) (rs_occupied s)\<rparr>)"

text \<open>\<open>r = Record{}\<close> releases the credits the record held.\<close>

definition clear_record :: "nat \<Rightarrow> bool \<Rightarrow> retention_store \<Rightarrow> retention_store" where
  "clear_record i c s = (let s1 = remove_extent i c s;
       pool = fst (bundle_reset (rs_pool s1) (rd_credits (record_of (rs_entries s1 ! i) c)))
     in update_record i c empty_record (s1\<lparr>rs_pool := pool\<rparr>))"

definition erase_entry :: "nat \<Rightarrow> retention_store \<Rightarrow> retention_store" where
  "erase_entry i s = (let s2 = clear_record i True (clear_record i False s); e = rs_entries s2 ! i
     in s2\<lparr>rs_entries := (rs_entries s2)[i := e\<lparr>en_references := 0, en_expires := Mono_time 0,
          en_generation := size_add (en_generation e) 1\<rparr>]\<rparr>)"

section \<open>Lookup and replay\<close>

primrec find_key :: "transaction_key \<Rightarrow> entry list \<Rightarrow> nat \<Rightarrow> nat option" where
  "find_key key [] i = None"
| "find_key key (e # es) i =
     (if rd_used (en_original e) \<and> same_key (en_key e) key then Some i else find_key key es (i + 1))"

primrec find_free :: "entry list \<Rightarrow> nat \<Rightarrow> nat option" where
  "find_free [] i = None"
| "find_free (e # es) i =
     (if \<not> rd_used (en_original e) \<and> en_generation e \<noteq> size_max then Some i else find_free es (i + 1))"

definition association_retained :: "retention_store \<Rightarrow> transaction_key \<Rightarrow> bool" where
  "association_retained s key = list_ex (\<lambda>e. rd_used (en_original e) \<and> same_association (en_key e) key) (rs_entries s)"

definition same_canonical :: "retention_store \<Rightarrow> retained \<Rightarrow> packet_view \<Rightarrow> bool" where
  "same_canonical s r packet \<longleftrightarrow> rd_canonical r = length (view_wire (pv_envelope packet))
     \<and> list_all (\<lambda>b. rs_bytes s ! (rd_offset r + b) = canonical_command_byte packet b) [0..<rd_canonical r]"

definition add_reference :: "nat \<Rightarrow> retention_store \<Rightarrow> retention_store" where
  "add_reference i s = s\<lparr>rs_entries := (rs_entries s)[i := (rs_entries s ! i)
     \<lparr>en_references := size_add (en_references (rs_entries s ! i)) 1\<rparr>]\<rparr>"

definition key_matches :: "transaction_key \<Rightarrow> packet_view \<Rightarrow> bool" where
  "key_matches key packet =
     (case transaction_key_of packet (tk_binding_generation key) (tk_peer key) of
        Inl _ \<Rightarrow> False | Inr derived \<Rightarrow> same_key key derived)"

definition replay_existing :: "transaction_key \<Rightarrow> packet_view \<Rightarrow> retention_store
    \<Rightarrow> retention_store \<times> retention_admission result" where
  "replay_existing key packet s =
     (let envelope = view_envelope (pv_envelope packet); c = env_cancel envelope in
      if env_ack envelope \<or> length (view_wire (pv_envelope packet)) < 4 then (s, Inl (err Invalid_argument))
      else if \<not> key_matches key packet then (s, Inl (err Invalid_argument))
      else case find_key key (rs_entries s) 0 of None \<Rightarrow> (s, Inl (err Invalid_state))
        | Some i \<Rightarrow> let e = rs_entries s ! i; r = record_of e c in
            if \<not> rd_used r then (s, Inl (err Invalid_state))
            else if \<not> same_canonical s r packet then (s, Inl (err Identity_conflict))
            else if en_references e = size_max then (s, Inl (err Overflow))
            else (add_reference i s, Inr \<lparr>ra_token = \<lparr>rt_slot = i, rt_generation = en_generation e, rt_cancellation = c\<rparr>,
              ra_kind = (if rd_terminal r then Dup_replay else Dup_active)\<rparr>))"

section \<open>Reservation\<close>

primrec place_extent :: "retention_store \<Rightarrow> nat \<Rightarrow> nat list \<Rightarrow> nat \<Rightarrow> nat \<Rightarrow> nat \<Rightarrow> nat \<times> nat \<times> nat" where
  "place_extent s required [] offset insertion probes = (offset, insertion, probes)"
| "place_extent s required (i # is) offset insertion probes =
     (let prior = indexed_record s i in
      if required \<le> size_sub (rd_offset prior) offset then (offset, insertion, probes + 1)
      else place_extent s required is (rd_offset prior + rd_bytes prior) (insertion + 1) (probes + 1))"

definition insert_at :: "nat \<Rightarrow> 'a \<Rightarrow> 'a list \<Rightarrow> 'a list" where
  "insert_at k x xs = take k xs @ x # drop k xs"

definition canonical_bytes :: "packet_view \<Rightarrow> bytes" where
  "canonical_bytes packet = map (canonical_command_byte packet) [0..<length (view_wire (pv_envelope packet))]"

definition retention_request :: "bool \<Rightarrow> nat \<Rightarrow> admission_request" where
  "retention_request c required =
     need (need empty_request Duplicate_entry (if c then 0 else 1)) Duplicate_bytes required"

text \<open>The part after the slot is known: place the extent, take the credits, write.\<close>

definition reserve_in :: "nat \<Rightarrow> transaction_key \<Rightarrow> packet_view \<Rightarrow> nat \<Rightarrow> nat \<Rightarrow> nat \<Rightarrow> retention_store
    \<Rightarrow> retention_store \<times> retention_admission result" where
  "reserve_in pid key packet responses required slot s =
     (let c = env_cancel (view_envelope (pv_envelope packet)); canonical = length (view_wire (pv_envelope packet));
        (offset, insertion, probes) = place_extent s required (rs_occupied s) 0 0 0;
        s = s\<lparr>rs_placement_probes := probes\<rparr>
      in if offset > length (rs_bytes s) - required then (s, Inl (err Capacity_exhausted))
      else case pool_acquire pid (rs_pool s) (retention_request c required) of
        (pool, Inl e) \<Rightarrow> (s\<lparr>rs_pool := pool\<rparr>, Inl e)
      | (pool, Inr credits) \<Rightarrow>
          let e = rs_entries s ! slot;
            pool = fst (bundle_reset pool (rd_credits (record_of e c)));
            r = (record_of e c)\<lparr>rd_used := True, rd_offset := offset, rd_bytes := required, rd_canonical := canonical,
              rd_response_capacity := responses, rd_response_count := 0, rd_active := False, rd_terminal := False,
              rd_credits := credits\<rparr>;
            e' = (set_record c r e)\<lparr>en_key := key, en_references := size_add (en_references e) 1\<rparr>
          in (s\<lparr>rs_pool := pool, rs_entries := (rs_entries s)[slot := e'],
                rs_occupied := insert_at insertion (record_id slot c) (rs_occupied s),
                rs_bytes := write_bytes (rs_bytes s) offset (canonical_bytes packet)\<rparr>,
              Inr \<lparr>ra_token = \<lparr>rt_slot = slot, rt_generation = en_generation e, rt_cancellation = c\<rparr>, ra_kind = Dup_fresh\<rparr>))"

definition reserve_fresh :: "nat \<Rightarrow> nat \<Rightarrow> transaction_key \<Rightarrow> packet_view \<Rightarrow> nat \<Rightarrow> nat option \<Rightarrow> retention_store
    \<Rightarrow> retention_store \<times> retention_admission result" where
  "reserve_fresh ack_size pid key packet responses found s =
     (let c = env_cancel (view_envelope (pv_envelope packet)); canonical = length (view_wire (pv_envelope packet)) in
      if c \<and> found = None then (s, Inl (err Invalid_state))
      else if canonical > length (rs_bytes s) \<or> responses > (length (rs_bytes s) - canonical) div ack_size
      then (s, Inl (err Capacity_exhausted))
      else case (case found of Some i \<Rightarrow> Some i | None \<Rightarrow> find_free (rs_entries s) 0) of
        None \<Rightarrow> (s, Inl (err Capacity_exhausted))
      | Some slot \<Rightarrow> reserve_in pid key packet responses (canonical + responses * ack_size) slot s)"

definition reserve :: "nat \<Rightarrow> nat \<Rightarrow> transaction_key \<Rightarrow> packet_view \<Rightarrow> nat \<Rightarrow> retention_store
    \<Rightarrow> retention_store \<times> retention_admission result" where
  "reserve ack_size pid key packet responses s =
     (let envelope = view_envelope (pv_envelope packet); c = env_cancel envelope in
      if tk_binding_generation key = 0 \<or> ps_generation (tk_peer key) = 0 \<or> length (view_wire (pv_envelope packet)) < 4
        \<or> responses > (if c then 2 else 3) \<or> env_ack envelope then (s, Inl (err Invalid_argument))
      else if \<not> key_matches key packet then (s, Inl (err Invalid_argument))
      else let found = find_key key (rs_entries s) 0 in
        case found of None \<Rightarrow> reserve_fresh ack_size pid key packet responses None s
        | Some i \<Rightarrow> let e = rs_entries s ! i; r = record_of e c in
            if \<not> rd_used r then reserve_fresh ack_size pid key packet responses (Some i) s
            else if \<not> same_canonical s r packet then (s, Inl (err Identity_conflict))
            else (add_reference i s, Inr \<lparr>ra_token = \<lparr>rt_slot = i, rt_generation = en_generation e, rt_cancellation = c\<rparr>,
              ra_kind = (if rd_terminal r then Dup_replay else Dup_active)\<rparr>))"

section \<open>Life of a record\<close>

definition with_record :: "retention_store \<Rightarrow> retention_token \<Rightarrow> (entry \<Rightarrow> retained \<Rightarrow> retention_store \<times> 'a result)
    \<Rightarrow> retention_store \<times> 'a result" where
  "with_record s t f = (case find_entry s t of None \<Rightarrow> (s, Inl (err Stale_generation))
     | Some e \<Rightarrow> f e (record_of e (rt_cancellation t)))"

definition bind_engine :: "retention_token \<Rightarrow> handle option \<Rightarrow> retention_store \<Rightarrow> retention_store \<times> unit result" where
  "bind_engine t h s = with_record s t (\<lambda>e r.
     if rd_active r \<or> rd_terminal r then (s, Inl (err Invalid_state))
     else (update_record (rt_slot t) (rt_cancellation t) (r\<lparr>rd_active := True, rd_engine := h\<rparr>) s, Inr ()))"

definition engine_handle :: "retention_token \<Rightarrow> retention_store \<Rightarrow> handle option result" where
  "engine_handle t s = snd (with_record s t (\<lambda>e r. (s, Inr (rd_engine r))))"

definition append_response :: "nat \<Rightarrow> retention_token \<Rightarrow> bool \<Rightarrow> bytes \<Rightarrow> retention_store
    \<Rightarrow> retention_store \<times> unit result" where
  "append_response ack_size t ack_cancellation ack s = with_record s t (\<lambda>e r.
     if \<not> rd_active r \<or> rd_terminal r \<or> ack_cancellation \<noteq> rt_cancellation t then (s, Inl (err Invalid_state))
     else if rd_response_count r = rd_response_capacity r then (s, Inl (err Capacity_exhausted))
     else ((update_record (rt_slot t) (rt_cancellation t) (r\<lparr>rd_response_count := rd_response_count r + 1\<rparr>) s)
             \<lparr>rs_bytes := write_bytes (rs_bytes s) (rd_offset r + rd_canonical r + rd_response_count r * ack_size) ack\<rparr>,
           Inr ()))"

definition stored_response :: "nat \<Rightarrow> retention_token \<Rightarrow> nat \<Rightarrow> retention_store \<Rightarrow> bytes option result" where
  "stored_response ack_size t index s = snd (with_record s t (\<lambda>e r. (s,
     if index \<ge> rd_response_count r then Inr None
     else Inr (Some (subspan (rs_bytes s) (rd_offset r + rd_canonical r + index * ack_size) ack_size)))))"

definition minimum_retention_ns :: nat where
  "minimum_retention_ns = 30000000000"

definition complete_record :: "retention_token \<Rightarrow> mono_time \<Rightarrow> retention_store \<Rightarrow> retention_store \<times> unit result" where
  "complete_record t now s = with_record s t (\<lambda>e r.
     if \<not> rd_active r \<or> rd_terminal r then (s, Inl (err Invalid_state))
     else let expires = (case deadline now minimum_retention_ns of Inl _ \<Rightarrow> Mono_time u64_max
            | Inr limit \<Rightarrow> if limit > en_expires e then limit else en_expires e);
          e' = (set_record (rt_cancellation t) (r\<lparr>rd_terminal := True, rd_active := False, rd_engine := None\<rparr>) e)
            \<lparr>en_expires := expires\<rparr>
     in (s\<lparr>rs_entries := (rs_entries s)[rt_slot t := e']\<rparr>, Inr ()))"

definition canonical_of :: "retention_token \<Rightarrow> retention_store \<Rightarrow> bytes result" where
  "canonical_of t s = snd (with_record s t (\<lambda>e r. (s, Inr (subspan (rs_bytes s) (rd_offset r) (rd_canonical r)))))"

definition terminal_of :: "retention_token \<Rightarrow> retention_store \<Rightarrow> bool result" where
  "terminal_of t s = snd (with_record s t (\<lambda>e r. (s, Inr (rd_terminal r))))"

definition retain_token :: "retention_token \<Rightarrow> retention_store \<Rightarrow> retention_store \<times> unit result" where
  "retain_token t s = with_record s t (\<lambda>e r. (add_reference (rt_slot t) s, Inr ()))"

definition drop_reference :: "nat \<Rightarrow> retention_store \<Rightarrow> retention_store" where
  "drop_reference i s = s\<lparr>rs_entries := (rs_entries s)[i := (rs_entries s ! i)
     \<lparr>en_references := en_references (rs_entries s ! i) - 1\<rparr>]\<rparr>"

definition release_token :: "retention_token \<Rightarrow> retention_store \<Rightarrow> retention_store \<times> unit result" where
  "release_token t s = with_record s t (\<lambda>e r.
     if en_references e = 0 then (s, Inl (err Stale_generation))
     else let s1 = drop_reference (rt_slot t) s in
       (if en_references e - 1 = 0 \<and> \<not> rd_active (en_original e) \<and> \<not> rd_terminal (en_original e)
        then erase_entry (rt_slot t) s1 else s1, Inr ()))"

definition rollback :: "retention_token \<Rightarrow> retention_store \<Rightarrow> retention_store \<times> unit result" where
  "rollback t s = with_record s t (\<lambda>e r.
     if en_references e = 0 then (s, Inl (err Stale_generation))
     else if rd_active r \<or> rd_terminal r then (s, Inl (err Invalid_state))
     else let s1 = drop_reference (rt_slot t) (clear_record (rt_slot t) (rt_cancellation t) s) in
       (if \<not> rt_cancellation t then erase_entry (rt_slot t) s1 else s1, Inr ()))"

definition expired :: "mono_time \<Rightarrow> entry \<Rightarrow> bool" where
  "expired now e \<longleftrightarrow> rd_used (en_original e) \<and> rd_terminal (en_original e)
     \<and> (\<not> rd_used (en_cancel e) \<or> rd_terminal (en_cancel e)) \<and> en_references e = 0 \<and> now \<ge> en_expires e"

primrec expire_from :: "mono_time \<Rightarrow> nat list \<Rightarrow> retention_store \<Rightarrow> retention_store" where
  "expire_from now [] s = s"
| "expire_from now (i # is) s =
     expire_from now is (if expired now (rs_entries s ! i) then erase_entry i s else s)"

definition expire :: "mono_time \<Rightarrow> retention_store \<Rightarrow> retention_store" where
  "expire now s = expire_from now [0..<length (rs_entries s)] s"

definition store_size :: "retention_store \<Rightarrow> nat" where
  "store_size s = length (filter (\<lambda>e. rd_used (en_original e)) (rs_entries s))"

section \<open>Extents\<close>

abbreviation record_at :: "retention_store \<Rightarrow> nat \<Rightarrow> retained" where
  "record_at \<equiv> indexed_record"

text \<open>The occupied extents lie in order behind \<open>start\<close>, without overlap.\<close>

primrec extents_ok :: "(nat \<Rightarrow> retained) \<Rightarrow> nat \<Rightarrow> nat \<Rightarrow> nat list \<Rightarrow> bool" where
  "extents_ok rec limit start [] = (start \<le> limit)"
| "extents_ok rec limit start (i # is) =
     (start \<le> rd_offset (rec i) \<and> extents_ok rec limit (rd_offset (rec i) + rd_bytes (rec i)) is)"

lemma extents_ok_mono: "extents_ok rec limit a is \<Longrightarrow> b \<le> a \<Longrightarrow> extents_ok rec limit b is"
  by (cases "is") auto

lemma extents_ok_cong:
  assumes "\<And>i. i \<in> set is \<Longrightarrow> rd_offset (rec i) = rd_offset (rec' i) \<and> rd_bytes (rec i) = rd_bytes (rec' i)"
  shows "extents_ok rec limit start is = extents_ok rec' limit start is"
  using assms by (induction "is" arbitrary: start) auto

lemma extents_ok_start: "extents_ok rec limit start is \<Longrightarrow> start \<le> limit"
  by (induction "is" arbitrary: start) (auto dest: add_leD1 intro: order.trans)

lemma extents_ok_remove1: "extents_ok rec limit start is \<Longrightarrow> extents_ok rec limit start (remove1 x is)"
proof (induction "is" arbitrary: start)
  case (Cons i "is")
  then show ?case using extents_ok_mono [of rec limit "rd_offset (rec i) + rd_bytes (rec i)" "is" start] by auto
qed simp

lemma extents_ok_within:
  "extents_ok rec limit start is \<Longrightarrow> k \<in> set is \<Longrightarrow> start \<le> rd_offset (rec k) \<and> rd_offset (rec k) + rd_bytes (rec k) \<le> limit"
proof (induction "is" arbitrary: start)
  case (Cons i "is")
  show ?case
  proof (cases "k = i")
    case True
    with Cons.prems(1) show ?thesis using extents_ok_start by auto
  next
    case False
    then have "rd_offset (rec i) + rd_bytes (rec i) \<le> rd_offset (rec k) \<and> rd_offset (rec k) + rd_bytes (rec k) \<le> limit"
      using Cons by auto
    with Cons.prems(1) show ?thesis by auto
  qed
qed simp

lemma extents_ok_disjoint:
  assumes "extents_ok rec limit start is" "distinct is" "k \<in> set is" "l \<in> set is" "k \<noteq> l"
  shows "rd_offset (rec k) + rd_bytes (rec k) \<le> rd_offset (rec l) \<or> rd_offset (rec l) + rd_bytes (rec l) \<le> rd_offset (rec k)"
  using assms
proof (induction "is" arbitrary: start)
  case (Cons i "is")
  have rest: "extents_ok rec limit (rd_offset (rec i) + rd_bytes (rec i)) is" using Cons.prems(1) by simp
  show ?case
  proof (cases "k = i \<or> l = i")
    case True
    with Cons.prems(3-5) extents_ok_within [OF rest] show ?thesis by auto
  next
    case False
    with Cons.IH [OF rest] Cons.prems(2-5) show ?thesis by auto
  qed
qed simp

text \<open>The first gap found by the placement loop takes the new extent.\<close>

lemma insert_at_simps:
  "insert_at 0 x xs = x # xs" "insert_at (Suc k) x (y # xs) = y # insert_at k x xs"
  by (simp_all add: insert_at_def)

lemma place_extent_fits:
  assumes "place_extent s required is start insertion probes = (offset, insertion', probes')"
    and "extents_ok (record_at s) limit start is" "offset + required \<le> limit"
    and "\<And>i. i \<in> set is \<Longrightarrow> rec i = record_at s i" "rd_offset (rec x) = offset" "rd_bytes (rec x) = required"
  shows "start \<le> offset \<and> insertion \<le> insertion' \<and> insertion' - insertion \<le> length is
    \<and> extents_ok rec limit start (insert_at (insertion' - insertion) x is)"
  using assms(1,2,4)
proof (induction "is" arbitrary: start insertion probes)
  case Nil
  with assms(3,5,6) show ?case by (auto simp: insert_at_def)
next
  case (Cons i "is")
  let ?r = "record_at s i"
  have r: "rec i = ?r" and le: "start \<le> rd_offset ?r" using Cons.prems by auto
  show ?case
  proof (cases "required \<le> size_sub (rd_offset ?r) start")
    case True
    with Cons.prems(1) have o: "offset = start" "insertion' = insertion" by (simp_all add: Let_def)
    have "start + required \<le> rd_offset ?r" using True le by simp
    moreover have "extents_ok rec limit (rd_offset ?r + rd_bytes ?r) is"
      using Cons.prems(2,3) by (subst extents_ok_cong [where rec' = "record_at s"]) auto
    ultimately show ?thesis using o r assms(5,6) by (simp add: insert_at_simps)
  next
    case False
    with Cons.prems(1) have "place_extent s required is (rd_offset ?r + rd_bytes ?r) (insertion + 1) (probes + 1)
        = (offset, insertion', probes')" by (simp add: Let_def)
    with Cons.IH [OF this] Cons.prems(2,3)
    have IH: "rd_offset ?r + rd_bytes ?r \<le> offset" "insertion + 1 \<le> insertion'" "insertion' - (insertion + 1) \<le> length is"
      "extents_ok rec limit (rd_offset ?r + rd_bytes ?r) (insert_at (insertion' - (insertion + 1)) x is)" by auto
    then have "insertion' - insertion = Suc (insertion' - (insertion + 1))" by simp
    with IH le r show ?thesis by (simp add: insert_at_simps)
  qed
qed

lemma set_insert_at: "k \<le> length xs \<Longrightarrow> set (insert_at k x xs) = insert x (set xs)"
  unfolding insert_at_def by (metis append_take_drop_id list.set(2) set_append Un_insert_right)

lemma distinct_insert_at: "k \<le> length xs \<Longrightarrow> x \<notin> set xs \<Longrightarrow> distinct xs \<Longrightarrow> distinct (insert_at k x xs)"
  unfolding insert_at_def
  by (auto simp: set_take_disj_set_drop_if_distinct dest: in_set_takeD in_set_dropD)

section \<open>The invariant and the contents of the store\<close>

definition record_ok :: "nat \<Rightarrow> retained \<Rightarrow> bool" where
  "record_ok ack_size r \<longleftrightarrow> rd_bytes r = rd_canonical r + rd_response_capacity r * ack_size \<and> 4 \<le> rd_canonical r
     \<and> rd_response_count r \<le> rd_response_capacity r"

definition record_ids :: "retention_store \<Rightarrow> nat set" where
  "record_ids s = {k. k < 2 * length (rs_entries s) \<and> rd_used (record_at s k)}"

definition retention_inv :: "nat \<Rightarrow> retention_store \<Rightarrow> bool" where
  "retention_inv ack_size s \<longleftrightarrow>
     distinct (rs_occupied s) \<and> set (rs_occupied s) = record_ids s
     \<and> extents_ok (record_at s) (length (rs_bytes s)) 0 (rs_occupied s)
     \<and> (\<forall>k \<in> record_ids s. record_ok ack_size (record_at s k))
     \<and> (\<forall>k < 2 * length (rs_entries s). rd_active (record_at s k) \<or> rd_terminal (record_at s k) \<longrightarrow> rd_used (record_at s k))
     \<and> (\<forall>i < length (rs_entries s). rd_used (en_cancel (rs_entries s ! i)) \<longrightarrow> rd_used (en_original (rs_entries s ! i)))
     \<and> (\<forall>i < length (rs_entries s). \<forall>j < length (rs_entries s). i \<noteq> j \<and> rd_used (en_original (rs_entries s ! i))
          \<and> rd_used (en_original (rs_entries s ! j)) \<longrightarrow> \<not> same_key (en_key (rs_entries s ! i)) (en_key (rs_entries s ! j)))"

text \<open>What is stored for a record: the canonical command and the responses in order.\<close>

definition stored :: "nat \<Rightarrow> bytes \<Rightarrow> retained \<Rightarrow> bytes \<times> bytes list" where
  "stored ack_size bs r = (subspan bs (rd_offset r) (rd_canonical r),
     map (\<lambda>j. subspan bs (rd_offset r + rd_canonical r + j * ack_size) ack_size) [0..<rd_response_count r])"

definition contents :: "nat \<Rightarrow> retention_store \<Rightarrow> nat \<Rightarrow> (bytes \<times> bytes list) option" where
  "contents ack_size s k = (if k \<in> record_ids s then Some (stored ack_size (rs_bytes s) (record_at s k)) else None)"

lemma record_id_parts [simp]: "record_id i c div 2 = i" "record_id i c mod 2 = 1 \<longleftrightarrow> c" "record_id i c mod 2 = Suc 0 \<longleftrightarrow> c"
  by (simp_all add: record_id_def)

lemma record_id_less [simp]: "record_id i c < 2 * n \<longleftrightarrow> i < n"
  by (cases c) (auto simp: record_id_def)

lemma record_id_inject [simp]: "record_id i c = record_id j d \<longleftrightarrow> i = j \<and> c = d"
proof
  assume eq: "record_id i c = record_id j d"
  have "i = j" using arg_cong [OF eq, of "\<lambda>k. k div 2"] by (simp only: record_id_parts)
  moreover have "c = d" using arg_cong [OF eq, of "\<lambda>k. k mod 2 = 1"] by (simp only: record_id_parts)
  ultimately show "i = j \<and> c = d" ..
qed simp

lemma record_at_id [simp]: "record_at s (record_id i c) = record_of (rs_entries s ! i) c"
  by (simp add: indexed_record_def)

lemma record_id_cases: obtains i c where "k = record_id i c"
proof
  show "k = record_id (k div 2) (k mod 2 = 1)" by (cases "k mod 2 = 1") (auto simp: record_id_def, presburger)
qed

lemma record_of_set [simp]: "record_of (set_record c r e) d = (if d = c then r else record_of e d)"
  by (auto simp: record_of_def set_record_def)

lemma set_record_sel [simp]:
  "en_key (set_record c r e) = en_key e" "en_generation (set_record c r e) = en_generation e"
  "en_references (set_record c r e) = en_references e" "en_expires (set_record c r e) = en_expires e"
  by (simp_all add: set_record_def)

lemma record_of_update [simp]:
  "record_of (e\<lparr>en_key := k\<rparr>) c = record_of e c" "record_of (e\<lparr>en_references := n\<rparr>) c = record_of e c"
  "record_of (e\<lparr>en_expires := t\<rparr>) c = record_of e c" "record_of (e\<lparr>en_generation := g\<rparr>) c = record_of e c"
  by (simp_all add: record_of_def)

lemma used_records: "rd_used (en_cancel e) = rd_used (record_of e True)" "rd_used (en_original e) = rd_used (record_of e False)"
  by (simp_all add: record_of_def)

section \<open>Operations on the layout\<close>

text \<open>Operations that only touch flags, references or expiry keep everything stored.\<close>

definition same_extent :: "retained \<Rightarrow> retained \<Rightarrow> bool" where
  "same_extent r r' \<longleftrightarrow> rd_used r = rd_used r' \<and> rd_offset r = rd_offset r' \<and> rd_bytes r = rd_bytes r'
     \<and> rd_canonical r = rd_canonical r' \<and> rd_response_capacity r = rd_response_capacity r'
     \<and> rd_response_count r = rd_response_count r'"

lemma same_extent_refl [simp]: "same_extent r r"
  by (simp add: same_extent_def)

lemma stored_same_extent: "same_extent r r' \<Longrightarrow> stored a bs r = stored a bs r'"
  by (simp add: same_extent_def stored_def)

lemma record_at_entries_update:
  "i < length (rs_entries s) \<Longrightarrow> record_at (s\<lparr>rs_entries := (rs_entries s)[i := e]\<rparr>) k
     = (if k div 2 = i then record_of e (k mod 2 = 1) else record_at s k)"
  by (simp add: indexed_record_def nth_list_update)

lemma flags_update:
  assumes inv: "retention_inv a s" and i: "i < length (rs_entries s)"
    and same: "\<And>c. same_extent (record_of e c) (record_of (rs_entries s ! i) c)" and key: "en_key e = en_key (rs_entries s ! i)"
    and flags: "\<And>c. rd_active (record_of e c) \<or> rd_terminal (record_of e c) \<Longrightarrow> rd_used (record_of e c)"
  shows "retention_inv a (s\<lparr>rs_entries := (rs_entries s)[i := e]\<rparr>)"
    "contents a (s\<lparr>rs_entries := (rs_entries s)[i := e]\<rparr>) = contents a s"
    "record_ids (s\<lparr>rs_entries := (rs_entries s)[i := e]\<rparr>) = record_ids s"
proof -
  let ?s = "s\<lparr>rs_entries := (rs_entries s)[i := e]\<rparr>"
  have ext: "same_extent (record_at ?s k) (record_at s k)" for k
    using same [of "k mod 2 = 1"] i by (cases "k div 2 = i") (simp_all add: indexed_record_def nth_list_update)
  then have used: "rd_used (record_at ?s k) = rd_used (record_at s k)" for k by (simp add: same_extent_def)
  then show ids: "record_ids ?s = record_ids s" by (simp add: record_ids_def)
  show "contents a ?s = contents a s"
    unfolding contents_def ids by (simp add: fun_eq_iff stored_same_extent [OF ext])
  have ok: "record_ok a (record_at ?s k) = record_ok a (record_at s k)" for k
    using ext [of k] by (simp add: record_ok_def same_extent_def)
  have extents: "extents_ok (record_at ?s) l st is = extents_ok (record_at s) l st is" for l st "is"
    using ext by (intro extents_ok_cong) (simp add: same_extent_def)
  have u: "rd_used (en_original (rs_entries ?s ! j)) = rd_used (en_original (rs_entries s ! j))"
    "rd_used (en_cancel (rs_entries ?s ! j)) = rd_used (en_cancel (rs_entries s ! j))"
    "en_key (rs_entries ?s ! j) = en_key (rs_entries s ! j)" for j
    using used [of "record_id j False"] used [of "record_id j True"] key i
    by (simp_all add: record_of_def nth_list_update)
  have "rd_active (record_at ?s k) \<or> rd_terminal (record_at ?s k) \<longrightarrow> rd_used (record_at ?s k)"
    if "k < 2 * length (rs_entries s)" for k
    using flags [of "k mod 2 = 1"] inv that by (auto simp: record_at_entries_update [OF i] retention_inv_def)
  with inv show "retention_inv a ?s"
    unfolding retention_inv_def ids ok u by (simp add: extents)
qed

text \<open>Removing a record frees its extent and keeps the others.\<close>

lemma record_at_update_record:
  "i < length (rs_entries s) \<Longrightarrow> record_at (update_record i c r s) k = (if k = record_id i c then r else record_at s k)"
proof -
  assume i: "i < length (rs_entries s)"
  obtain j d where k: "k = record_id j d" by (rule record_id_cases)
  show ?thesis unfolding k using i by (simp add: update_record_def nth_list_update)
qed

lemma update_record_sel [simp]:
  "length (rs_entries (update_record i c r s)) = length (rs_entries s)" "rs_bytes (update_record i c r s) = rs_bytes s"
  "rs_occupied (update_record i c r s) = rs_occupied s" "rs_pool (update_record i c r s) = rs_pool s"
  by (simp_all add: update_record_def)

lemma record_at_cong: "rs_entries s = rs_entries s' \<Longrightarrow> record_at s = record_at s'"
  by (rule ext) (simp add: indexed_record_def)

lemma clear_record_sel:
  assumes "i < length (rs_entries s)"
  shows "length (rs_entries (clear_record i c s)) = length (rs_entries s)" "rs_bytes (clear_record i c s) = rs_bytes s"
    "record_at (clear_record i c s) k = (if k = record_id i c then empty_record else record_at s k)"
    "rs_occupied (clear_record i c s) = (if rd_used (record_at s (record_id i c)) then remove1 (record_id i c) (rs_occupied s) else rs_occupied s)"
    "en_key (rs_entries (clear_record i c s) ! j) = en_key (rs_entries s ! j)"
    "en_generation (rs_entries (clear_record i c s) ! j) = en_generation (rs_entries s ! j)"
    "en_references (rs_entries (clear_record i c s) ! j) = en_references (rs_entries s ! j)"
proof -
  have len: "rs_entries (remove_extent i c s) = rs_entries s" by (simp add: remove_extent_def)
  show "record_at (clear_record i c s) k = (if k = record_id i c then empty_record else record_at s k)"
  proof -
    have "record_at ((remove_extent i c s)\<lparr>rs_pool := p\<rparr>) = record_at s" for p
      using len by (intro record_at_cong) simp
    then show ?thesis
      unfolding clear_record_def Let_def using assms len by (simp add: record_at_update_record)
  qed
  show "length (rs_entries (clear_record i c s)) = length (rs_entries s)" "rs_bytes (clear_record i c s) = rs_bytes s"
    "rs_occupied (clear_record i c s) = (if rd_used (record_at s (record_id i c)) then remove1 (record_id i c) (rs_occupied s) else rs_occupied s)"
    by (simp_all add: clear_record_def remove_extent_def Let_def)
  show "en_key (rs_entries (clear_record i c s) ! j) = en_key (rs_entries s ! j)"
    "en_generation (rs_entries (clear_record i c s) ! j) = en_generation (rs_entries s ! j)"
    "en_references (rs_entries (clear_record i c s) ! j) = en_references (rs_entries s ! j)"
    using assms len by (cases "i = j"; simp add: clear_record_def Let_def update_record_def)+
qed

lemma empty_record_unused [simp]: "\<not> rd_used empty_record" "\<not> rd_active empty_record" "\<not> rd_terminal empty_record"
  by (simp_all add: empty_record_def)

text \<open>The invariant without the condition on cancellations, which one step of \<open>erase\<close> breaks.\<close>

definition layout_inv :: "nat \<Rightarrow> retention_store \<Rightarrow> bool" where
  "layout_inv a s \<longleftrightarrow>
     distinct (rs_occupied s) \<and> set (rs_occupied s) = record_ids s
     \<and> extents_ok (record_at s) (length (rs_bytes s)) 0 (rs_occupied s)
     \<and> (\<forall>k \<in> record_ids s. record_ok a (record_at s k))
     \<and> (\<forall>k < 2 * length (rs_entries s). rd_active (record_at s k) \<or> rd_terminal (record_at s k) \<longrightarrow> rd_used (record_at s k))"

definition cancel_inv :: "retention_store \<Rightarrow> bool" where
  "cancel_inv s \<longleftrightarrow> (\<forall>i < length (rs_entries s). rd_used (record_at s (record_id i True)) \<longrightarrow> rd_used (record_at s (record_id i False)))"

definition key_inv :: "retention_store \<Rightarrow> bool" where
  "key_inv s \<longleftrightarrow> (\<forall>i < length (rs_entries s). \<forall>j < length (rs_entries s). i \<noteq> j \<and> rd_used (record_at s (record_id i False))
      \<and> rd_used (record_at s (record_id j False)) \<longrightarrow> \<not> same_key (en_key (rs_entries s ! i)) (en_key (rs_entries s ! j)))"

lemma retention_inv_split: "retention_inv a s \<longleftrightarrow> layout_inv a s \<and> cancel_inv s \<and> key_inv s"
  by (simp add: retention_inv_def layout_inv_def cancel_inv_def key_inv_def record_of_def)

lemma clear_record_layout:
  assumes inv: "layout_inv a s" and i: "i < length (rs_entries s)"
  shows "layout_inv a (clear_record i c s)"
    "contents a (clear_record i c s) = (contents a s)(record_id i c := None)"
proof -
  let ?s = "clear_record i c s" and ?k = "record_id i c"
  note sel = clear_record_sel [OF i, of c]
  have ids: "record_ids ?s = record_ids s - {?k}"
    unfolding record_ids_def sel(1) sel(3) by auto
  have occ: "set (rs_occupied ?s) = record_ids ?s" "distinct (rs_occupied ?s)"
    using inv i unfolding ids sel(4) by (auto simp: layout_inv_def record_ids_def)
  have "extents_ok (record_at ?s) (length (rs_bytes s)) 0 (rs_occupied ?s)
      = extents_ok (record_at s) (length (rs_bytes s)) 0 (rs_occupied ?s)"
    using occ(1) ids by (intro extents_ok_cong) (auto simp: sel(3))
  also have "\<dots>" using inv extents_ok_remove1 unfolding sel(4) layout_inv_def by auto
  finally have ext: "extents_ok (record_at ?s) (length (rs_bytes ?s)) 0 (rs_occupied ?s)" by (simp add: sel(2))
  have "record_ok a (record_at ?s k)" if "k \<in> record_ids ?s" for k
    using inv that unfolding ids sel(3) by (auto simp: layout_inv_def)
  moreover have "rd_active (record_at ?s k) \<or> rd_terminal (record_at ?s k) \<longrightarrow> rd_used (record_at ?s k)"
    if "k < 2 * length (rs_entries ?s)" for k
    using inv that unfolding sel(1,3) by (auto simp: layout_inv_def)
  ultimately show "layout_inv a ?s" using occ ext unfolding layout_inv_def by blast
  show "contents a ?s = (contents a s)(?k := None)"
    unfolding contents_def ids sel(2) by (auto simp: fun_eq_iff sel(3))
qed

text \<open>Erasing an entry removes its two records.\<close>

lemma record_at_generation_update:
  "record_at (s\<lparr>rs_entries := (rs_entries s)[i := (rs_entries s ! i)\<lparr>en_references := n, en_expires := t, en_generation := g\<rparr>]\<rparr>)
    = record_at s"
proof
  fix k
  show "record_at (s\<lparr>rs_entries := (rs_entries s)[i := (rs_entries s ! i)\<lparr>en_references := n, en_expires := t, en_generation := g\<rparr>]\<rparr>) k
    = record_at s k"
    by (cases "i < length (rs_entries s)"; cases "k div 2 = i") (simp_all add: indexed_record_def list_update_beyond)
qed

lemma erase_entry_sel:
  assumes i: "i < length (rs_entries s)"
  shows "length (rs_entries (erase_entry i s)) = length (rs_entries s)" "rs_bytes (erase_entry i s) = rs_bytes s"
    "record_at (erase_entry i s) k = (if k div 2 = i then empty_record else record_at s k)"
    "rs_occupied (erase_entry i s) = rs_occupied (clear_record i True (clear_record i False s))"
    "en_key (rs_entries (erase_entry i s) ! j) = en_key (rs_entries s ! j)"
    "j \<noteq> i \<Longrightarrow> en_generation (rs_entries (erase_entry i s) ! j) = en_generation (rs_entries s ! j)"
    "en_generation (rs_entries (erase_entry i s) ! i) = size_add (en_generation (rs_entries s ! i)) 1"
proof -
  let ?s1 = "clear_record i False s"
  note s1 = clear_record_sel [OF i, of False]
  have i1: "i < length (rs_entries ?s1)" using i s1(1) by simp
  note s2 = clear_record_sel [OF i1, of True]
  show "record_at (erase_entry i s) k = (if k div 2 = i then empty_record else record_at s k)"
  proof -
    obtain j c where k: "k = record_id j c" by (rule record_id_cases)
    have "record_at (erase_entry i s) k = record_at (clear_record i True ?s1) k"
      unfolding erase_entry_def Let_def record_at_generation_update ..
    also have "\<dots> = (if k div 2 = i then empty_record else record_at s k)"
      unfolding s2(3) s1(3) unfolding k by (cases c) simp_all
    finally show ?thesis .
  qed
  show "length (rs_entries (erase_entry i s)) = length (rs_entries s)" "rs_bytes (erase_entry i s) = rs_bytes s"
    "rs_occupied (erase_entry i s) = rs_occupied (clear_record i True ?s1)"
    by (simp_all add: erase_entry_def Let_def s1 s2)
  have i2: "i < length (rs_entries (clear_record i True ?s1))" using i1 s2(1) by simp
  show "en_key (rs_entries (erase_entry i s) ! j) = en_key (rs_entries s ! j)"
    using i2 s2(5) [of j] s1(5) [of j] by (cases "i = j") (simp_all add: erase_entry_def Let_def)
  show "en_generation (rs_entries (erase_entry i s) ! j) = en_generation (rs_entries s ! j)" if "j \<noteq> i"
    using that s2(6) [of j] s1(6) [of j] by (simp add: erase_entry_def Let_def)
  show "en_generation (rs_entries (erase_entry i s) ! i) = size_add (en_generation (rs_entries s ! i)) 1"
    using i2 s2(6) [of i] s1(6) [of i] by (simp add: erase_entry_def Let_def)
qed

definition without_entry :: "nat \<Rightarrow> (nat \<Rightarrow> 'a option) \<Rightarrow> nat \<Rightarrow> 'a option" where
  "without_entry i m k = (if k div 2 = i then None else m k)"

lemma layout_inv_cong:
  assumes "record_at s = record_at s'" "rs_occupied s = rs_occupied s'" "rs_bytes s = rs_bytes s'"
    "length (rs_entries s) = length (rs_entries s')"
  shows "layout_inv a s = layout_inv a s'" "contents a s = contents a s'"
proof -
  have ids: "record_ids s = record_ids s'" using assms by (simp add: record_ids_def)
  show "layout_inv a s = layout_inv a s'" unfolding layout_inv_def ids assms ..
  show "contents a s = contents a s'" by (rule ext) (simp add: contents_def ids assms)
qed

lemma erase_entry_inv:
  assumes inv: "layout_inv a s" "key_inv s" and i: "i < length (rs_entries s)"
    and cancel: "\<And>j. j < length (rs_entries s) \<Longrightarrow> j \<noteq> i \<Longrightarrow> rd_used (record_at s (record_id j True)) \<Longrightarrow> rd_used (record_at s (record_id j False))"
  shows "retention_inv a (erase_entry i s)" "contents a (erase_entry i s) = without_entry i (contents a s)"
proof -
  let ?s1 = "clear_record i False s" and ?s = "erase_entry i s"
  note s1 = clear_record_sel [OF i, of False] and e = erase_entry_sel [OF i]
  have i1: "i < length (rs_entries ?s1)" using i s1(1) by simp
  note l1 = clear_record_layout [OF inv(1) i, of False]
  note l2 = clear_record_layout [OF l1(1) i1, of True]
  note s2 = clear_record_sel [OF i1, of True]
  have same: "record_at ?s = record_at (clear_record i True ?s1)"
    unfolding erase_entry_def Let_def record_at_generation_update ..
  note cong = layout_inv_cong [OF same e(4)]
  have "layout_inv a ?s" using cong(1) l2(1) e(1,2) s2(1,2) s1(1,2) by simp
  moreover have "cancel_inv ?s" using cancel unfolding cancel_inv_def e(1,3) by auto
  moreover have "key_inv ?s" using inv(2) unfolding key_inv_def e(1,3,5) by auto
  ultimately show "retention_inv a ?s" unfolding retention_inv_split by blast
  have "contents a ?s = contents a (clear_record i True ?s1)" using cong(2) e(1,2) s2(1,2) s1(1,2) by simp
  also have "\<dots> = without_entry i (contents a s)"
  proof
    fix k
    obtain j c where k: "k = record_id j c" by (rule record_id_cases)
    show "contents a (clear_record i True ?s1) k = without_entry i (contents a s) k"
      unfolding l2(2) l1(2) k by (cases c) (auto simp: without_entry_def)
  qed
  finally show "contents a ?s = without_entry i (contents a s)" .
qed

section \<open>Writing into an extent\<close>

lemma subspan_write_outside:
  assumes "off + length bs \<le> length out" "p + n \<le> off \<or> off + length bs \<le> p"
  shows "subspan (write_bytes out off bs) p n = subspan out p n"
proof (cases "p + n \<le> off")
  case True
  have cut: "take n (drop p xs) = take n (drop p (take off xs))" for xs :: bytes
    using True by (simp add: drop_take)
  have "take off (write_bytes out off bs) = take off out" using assms(1) by (simp add: write_bytes_def)
  then show ?thesis unfolding subspan_def by (metis cut)
next
  case False
  with assms(2) have "off + length bs \<le> p" by blast
  then show ?thesis using assms(1) by (simp add: subspan_def drop_write_bytes)
qed

lemma subspan_write_same:
  "off + length bs \<le> length out \<Longrightarrow> subspan (write_bytes out off bs) off (length bs) = bs"
  by (simp add: subspan_def write_bytes_def)

lemma stored_outside:
  assumes ok: "record_ok a r" and fit: "off + length bs \<le> length out"
    and out: "rd_offset r + rd_bytes r \<le> off \<or> off + length bs \<le> rd_offset r"
  shows "stored a (write_bytes out off bs) r = stored a out r"
proof -
  have b: "rd_bytes r = rd_canonical r + rd_response_capacity r * a" "rd_response_count r \<le> rd_response_capacity r"
    using ok by (simp_all add: record_ok_def)
  have "subspan (write_bytes out off bs) (rd_offset r + rd_canonical r + j * a) a
      = subspan out (rd_offset r + rd_canonical r + j * a) a" if "j < rd_response_count r" for j
  proof (rule subspan_write_outside [OF fit])
    have "(j + 1) * a \<le> rd_response_capacity r * a" using that b(2) by (intro mult_le_mono1) simp
    then have "j * a + a \<le> rd_response_capacity r * a" by simp
    with out b(1) show "rd_offset r + rd_canonical r + j * a + a \<le> off \<or> off + length bs \<le> rd_offset r + rd_canonical r + j * a"
      by linarith
  qed
  moreover have "subspan (write_bytes out off bs) (rd_offset r) (rd_canonical r) = subspan out (rd_offset r) (rd_canonical r)"
    using out b(1) by (intro subspan_write_outside [OF fit]) linarith
  ultimately show ?thesis by (simp add: stored_def)
qed

lemma find_entry_Some:
  assumes "find_entry s t = Some e"
  shows "rt_slot t < length (rs_entries s)" "e = rs_entries s ! rt_slot t"
    "rd_used (record_of e (rt_cancellation t))" "en_generation e = rt_generation t"
    "record_id (rt_slot t) (rt_cancellation t) \<in> record_ids s"
  using assms by (auto simp: find_entry_def Let_def record_ids_def split: if_splits)

lemma stored_append:
  assumes ok: "record_ok a r" and room: "rd_response_count r < rd_response_capacity r" and len: "length ack = a"
    and fit: "rd_offset r + rd_bytes r \<le> length bs"
  shows "stored a (write_bytes bs (rd_offset r + rd_canonical r + rd_response_count r * a) ack)
      (r\<lparr>rd_response_count := rd_response_count r + 1\<rparr>)
    = (fst (stored a bs r), snd (stored a bs r) @ [ack])"
    and "rd_offset r + rd_canonical r + rd_response_count r * a + length ack \<le> rd_offset r + rd_bytes r"
proof -
  let ?off = "rd_offset r + rd_canonical r + rd_response_count r * a"
  have "(rd_response_count r + 1) * a \<le> rd_response_capacity r * a" using room by (intro mult_le_mono1) simp
  then have "rd_response_count r * a + a \<le> rd_response_capacity r * a" by simp
  with ok len show in_extent: "?off + length ack \<le> rd_offset r + rd_bytes r" by (simp add: record_ok_def)
  with fit have fit': "?off + length ack \<le> length bs" by linarith
  have old: "subspan (write_bytes bs ?off ack) (rd_offset r + rd_canonical r + j * a) a
      = subspan bs (rd_offset r + rd_canonical r + j * a) a" if "j < rd_response_count r" for j
  proof (rule subspan_write_outside [OF fit'])
    have "(j + 1) * a \<le> rd_response_count r * a" using that by (intro mult_le_mono1) simp
    then show "rd_offset r + rd_canonical r + j * a + a \<le> ?off \<or> ?off + length ack \<le> rd_offset r + rd_canonical r + j * a"
      by simp
  qed
  moreover have "subspan (write_bytes bs ?off ack) (rd_offset r) (rd_canonical r) = subspan bs (rd_offset r) (rd_canonical r)"
    by (intro subspan_write_outside [OF fit']) simp
  moreover have "subspan (write_bytes bs ?off ack) ?off a = ack" using subspan_write_same [OF fit'] len by simp
  ultimately show "stored a (write_bytes bs ?off ack) (r\<lparr>rd_response_count := rd_response_count r + 1\<rparr>)
    = (fst (stored a bs r), snd (stored a bs r) @ [ack])"
    by (simp add: stored_def)
qed

text \<open>Writing inside the extent of one record, or into a free gap, changes no other record.\<close>

lemma contents_write:
  assumes inv: "layout_inv a s" and k: "k \<in> record_ids s" "k \<noteq> l" and l: "l \<in> record_ids s"
    and off: "rd_offset (record_at s l) \<le> off" "off + length bs \<le> rd_offset (record_at s l) + rd_bytes (record_at s l)"
  shows "stored a (write_bytes (rs_bytes s) off bs) (record_at s k) = stored a (rs_bytes s) (record_at s k)"
proof (rule stored_outside)
  have ext: "extents_ok (record_at s) (length (rs_bytes s)) 0 (rs_occupied s)" "distinct (rs_occupied s)"
    "set (rs_occupied s) = record_ids s"
    using inv by (simp_all add: layout_inv_def)
  show "record_ok a (record_at s k)" using inv k(1) by (simp add: layout_inv_def)
  show "off + length bs \<le> length (rs_bytes s)"
    using extents_ok_within [OF ext(1), of l] ext(3) l off by auto
  show "rd_offset (record_at s k) + rd_bytes (record_at s k) \<le> off \<or> off + length bs \<le> rd_offset (record_at s k)"
    using extents_ok_disjoint [OF ext(1,2), of k l] ext(3) k l off by auto
qed

lemma append_response_effect:
  assumes inv: "retention_inv a s" and find: "find_entry s t = Some e"
    and r: "r = record_of e (rt_cancellation t)" and act: "rd_active r"
    and room: "rd_response_count r \<noteq> rd_response_capacity r" and len: "length ack = a"
  defines "k \<equiv> record_id (rt_slot t) (rt_cancellation t)"
    and "s' \<equiv> (update_record (rt_slot t) (rt_cancellation t) (r\<lparr>rd_response_count := rd_response_count r + 1\<rparr>) s)
      \<lparr>rs_bytes := write_bytes (rs_bytes s) (rd_offset r + rd_canonical r + rd_response_count r * a) ack\<rparr>"
  shows "retention_inv a s'" "contents a s k = Some (canonical, responses)
    \<Longrightarrow> contents a s' = (contents a s)(k \<mapsto> (canonical, responses @ [ack]))"
proof -
  let ?off = "rd_offset r + rd_canonical r + rd_response_count r * a"
  let ?u = "update_record (rt_slot t) (rt_cancellation t) (r\<lparr>rd_response_count := rd_response_count r + 1\<rparr>) s"
  note f = find_entry_Some [OF find]
  have lay: "layout_inv a s" using inv by (simp add: retention_inv_split)
  have rk: "record_at s k = r" using f(2) r by (simp add: k_def)
  have kin: "k \<in> record_ids s" using f(5) by (simp add: k_def)
  have ok: "record_ok a r" using lay kin rk by (auto simp: layout_inv_def)
  have ext: "extents_ok (record_at s) (length (rs_bytes s)) 0 (rs_occupied s)" "set (rs_occupied s) = record_ids s"
    using lay by (simp_all add: layout_inv_def)
  have fit: "rd_offset r + rd_bytes r \<le> length (rs_bytes s)"
    using extents_ok_within [OF ext(1), of k] ext(2) kin rk by simp
  have lt: "rd_response_count r < rd_response_capacity r" using ok room by (simp add: record_ok_def)
  note st = stored_append [OF ok lt len fit]
  have rec: "record_at s' l = (if l = k then r\<lparr>rd_response_count := rd_response_count r + 1\<rparr> else record_at s l)" for l
  proof -
    have "record_at s' = record_at ?u" unfolding s'_def by (rule record_at_cong) simp
    then show ?thesis unfolding k_def using record_at_update_record [OF f(1)] by simp
  qed
  have used: "rd_used r" using f(3) r by simp
  have ids: "record_ids s' = record_ids s"
    using kin rk used unfolding record_ids_def rec by (auto simp: s'_def)
  have lens: "length (rs_entries s') = length (rs_entries s)" "length (rs_bytes s') = length (rs_bytes s)"
    "rs_occupied s' = rs_occupied s"
    using st(2) fit by (simp_all add: s'_def)
  have keys: "en_key (rs_entries s' ! i) = en_key (rs_entries s ! i)" for i
    using f(1) by (cases "i = rt_slot t") (simp_all add: s'_def update_record_def)
  have "extents_ok (record_at s') (length (rs_bytes s)) 0 (rs_occupied s)
      = extents_ok (record_at s) (length (rs_bytes s)) 0 (rs_occupied s)"
    using rk by (intro extents_ok_cong) (auto simp: rec)
  moreover have "record_ok a (record_at s' l)" if "l \<in> record_ids s" for l
    using lay that ok lt by (auto simp: rec layout_inv_def record_ok_def)
  moreover have "rd_active (record_at s' l) \<or> rd_terminal (record_at s' l) \<longrightarrow> rd_used (record_at s' l)"
    if "l < 2 * length (rs_entries s)" for l
    using lay that used by (auto simp: rec layout_inv_def)
  ultimately have "layout_inv a s'"
    using lay unfolding layout_inv_def lens ids by auto
  moreover have u: "rd_used (record_at s' l) = rd_used (record_at s l)" for l using rk by (simp add: rec)
  have "cancel_inv s'" "key_inv s'"
    using inv by (simp_all add: retention_inv_split cancel_inv_def key_inv_def lens keys u del: record_at_id)
  ultimately show "retention_inv a s'" by (simp add: retention_inv_split)
  show "contents a s' = (contents a s)(k \<mapsto> (canonical, responses @ [ack]))"
    if "contents a s k = Some (canonical, responses)"
  proof
    fix l
    have bytes: "rs_bytes s' = write_bytes (rs_bytes s) ?off ack" by (simp add: s'_def)
    show "contents a s' l = ((contents a s)(k \<mapsto> (canonical, responses @ [ack]))) l"
    proof (cases "l = k")
      case True
      with that kin rk st(1) show ?thesis by (simp add: contents_def ids rec bytes)
    next
      case False
      have "stored a (write_bytes (rs_bytes s) ?off ack) (record_at s l) = stored a (rs_bytes s) (record_at s l)"
        if "l \<in> record_ids s"
        using contents_write [OF lay that False kin] rk st(2) by simp
      with False show ?thesis by (simp add: contents_def ids rec bytes)
    qed
  qed
qed

section \<open>Reservation of an extent\<close>

lemma length_canonical_bytes [simp]: "length (canonical_bytes packet) = length (view_wire (pv_envelope packet))"
  by (simp add: canonical_bytes_def)

lemma reserve_in_shape:
  assumes "reserve_in pid key packet responses required slot s = (s', Inr adm)"
  obtains offset insertion probes pool r where
    "place_extent s required (rs_occupied s) 0 0 0 = (offset, insertion, probes)" "offset \<le> length (rs_bytes s) - required"
    "rd_used r" "rd_offset r = offset" "rd_bytes r = required" "rd_canonical r = length (view_wire (pv_envelope packet))"
    "rd_response_capacity r = responses" "rd_response_count r = 0" "\<not> rd_terminal r" "\<not> rd_active r"
    "s' = s\<lparr>rs_placement_probes := probes, rs_pool := pool,
       rs_entries := (rs_entries s)[slot := (set_record (env_cancel (view_envelope (pv_envelope packet))) r (rs_entries s ! slot))
         \<lparr>en_key := key, en_references := size_add (en_references (rs_entries s ! slot)) 1\<rparr>],
       rs_occupied := insert_at insertion (record_id slot (env_cancel (view_envelope (pv_envelope packet)))) (rs_occupied s),
       rs_bytes := write_bytes (rs_bytes s) offset (canonical_bytes packet)\<rparr>"
    "adm = \<lparr>ra_token = \<lparr>rt_slot = slot, rt_generation = en_generation (rs_entries s ! slot),
       rt_cancellation = env_cancel (view_envelope (pv_envelope packet))\<rparr>, ra_kind = Dup_fresh\<rparr>"
proof -
  obtain offset insertion probes where place: "place_extent s required (rs_occupied s) 0 0 0 = (offset, insertion, probes)"
    by (cases "place_extent s required (rs_occupied s) 0 0 0") auto
  obtain pool res where acq: "pool_acquire pid (rs_pool s)
      (retention_request (env_cancel (view_envelope (pv_envelope packet))) required) = (pool, res)" by fastforce
  from assms place acq obtain credits where "res = Inr credits" "offset \<le> length (rs_bytes s) - required"
    by (cases res) (auto simp: reserve_in_def Let_def split: if_splits)
  note ok = this
  let ?c = "env_cancel (view_envelope (pv_envelope packet))"
  let ?r = "(record_of (rs_entries s ! slot) ?c)\<lparr>rd_used := True, rd_offset := offset, rd_bytes := required,
    rd_canonical := length (view_wire (pv_envelope packet)), rd_response_capacity := responses, rd_response_count := 0,
    rd_active := False, rd_terminal := False, rd_credits := credits\<rparr>"
  show thesis
  proof (rule that [OF place ok(2), of ?r "fst (bundle_reset pool (rd_credits (record_of (rs_entries s ! slot) ?c)))"])
    show "s' = s\<lparr>rs_placement_probes := probes,
        rs_pool := fst (bundle_reset pool (rd_credits (record_of (rs_entries s ! slot) ?c))),
        rs_entries := (rs_entries s)[slot := (set_record ?c ?r (rs_entries s ! slot))
          \<lparr>en_key := key, en_references := size_add (en_references (rs_entries s ! slot)) 1\<rparr>],
        rs_occupied := insert_at insertion (record_id slot ?c) (rs_occupied s),
        rs_bytes := write_bytes (rs_bytes s) offset (canonical_bytes packet)\<rparr>"
      "adm = \<lparr>ra_token = \<lparr>rt_slot = slot, rt_generation = en_generation (rs_entries s ! slot),
         rt_cancellation = ?c\<rparr>, ra_kind = Dup_fresh\<rparr>"
      using assms place acq ok by (simp_all add: reserve_in_def Let_def)
  qed simp_all
qed

lemma reserve_in_effect:
  assumes inv: "retention_inv a s" and slot: "slot < length (rs_entries s)"
    and run: "reserve_in pid key packet responses required slot s = (s', Inr adm)"
    and required: "required = length (view_wire (pv_envelope packet)) + responses * a" "required \<le> length (rs_bytes s)"
      "4 \<le> length (view_wire (pv_envelope packet))"
    and c: "c = env_cancel (view_envelope (pv_envelope packet))" and unused: "\<not> rd_used (record_of (rs_entries s ! slot) c)"
    and orig: "c \<Longrightarrow> rd_used (record_of (rs_entries s ! slot) False) \<and> same_key (en_key (rs_entries s ! slot)) key"
    and fresh: "\<And>j. j < length (rs_entries s) \<Longrightarrow> j \<noteq> slot \<Longrightarrow> rd_used (record_of (rs_entries s ! j) False)
      \<Longrightarrow> \<not> same_key (en_key (rs_entries s ! j)) key"
    and sym: "\<And>x y. same_key x y = same_key y x"
  shows "retention_inv a s'" "contents a s' = (contents a s)(record_id slot c \<mapsto> (canonical_bytes packet, []))"
    "en_key (rs_entries s' ! slot) = key" "rd_used (record_of (rs_entries s' ! slot) False)"
    "length (rs_entries s') = length (rs_entries s)" "ra_kind adm = Dup_fresh"
    "ra_token adm = \<lparr>rt_slot = slot, rt_generation = en_generation (rs_entries s' ! slot), rt_cancellation = c\<rparr>"
    "\<not> rd_terminal (record_of (rs_entries s' ! slot) c)"
proof -
  let ?k = "record_id slot c"
  from reserve_in_shape [OF run] obtain offset insertion probes pool r where
    place: "place_extent s required (rs_occupied s) 0 0 0 = (offset, insertion, probes)" and room: "offset \<le> length (rs_bytes s) - required"
    and r: "rd_used r" "rd_offset r = offset" "rd_bytes r = required" "rd_canonical r = length (view_wire (pv_envelope packet))"
      "rd_response_capacity r = responses" "rd_response_count r = 0" "\<not> rd_terminal r" "\<not> rd_active r"
    and s': "s' = s\<lparr>rs_placement_probes := probes, rs_pool := pool,
       rs_entries := (rs_entries s)[slot := (set_record c r (rs_entries s ! slot))
         \<lparr>en_key := key, en_references := size_add (en_references (rs_entries s ! slot)) 1\<rparr>],
       rs_occupied := insert_at insertion ?k (rs_occupied s),
       rs_bytes := write_bytes (rs_bytes s) offset (canonical_bytes packet)\<rparr>"
    and adm: "adm = \<lparr>ra_token = \<lparr>rt_slot = slot, rt_generation = en_generation (rs_entries s ! slot), rt_cancellation = c\<rparr>,
       ra_kind = Dup_fresh\<rparr>"
    unfolding c by metis
  have lay: "layout_inv a s" and can: "cancel_inv s" and key: "key_inv s" using inv by (simp_all add: retention_inv_split)
  have rec: "record_at s' l = (if l = ?k then r else record_at s l)" for l
  proof -
    obtain j d where l: "l = record_id j d" by (rule record_id_cases)
    show ?thesis unfolding l s' using slot by (simp add: indexed_record_def nth_list_update)
  qed
  have recs: "record_of (rs_entries s' ! j) d = (if j = slot \<and> d = c then r else record_of (rs_entries s ! j) d)" for j d
    using rec [of "record_id j d"] by simp
  have lens: "length (rs_entries s') = length (rs_entries s)" "length (rs_bytes s') = length (rs_bytes s)"
    "rs_occupied s' = insert_at insertion ?k (rs_occupied s)" "rs_bytes s' = write_bytes (rs_bytes s) offset (canonical_bytes packet)"
    using room required by (simp_all add: s')
  have keys: "en_key (rs_entries s' ! j) = (if j = slot then key else en_key (rs_entries s ! j))" if "j < length (rs_entries s)" for j
    using that by (simp add: s' nth_list_update)
  have new: "?k \<notin> record_ids s" using unused by (simp add: record_ids_def)
  have ids: "record_ids s' = insert ?k (record_ids s)"
    unfolding record_ids_def rec lens(1) using slot r(1) by auto
  have occ: "distinct (rs_occupied s)" "set (rs_occupied s) = record_ids s"
    and ext: "extents_ok (record_at s) (length (rs_bytes s)) 0 (rs_occupied s)"
    using lay by (simp_all add: layout_inv_def)
  have same: "record_at s' l = record_at s l" if "l \<in> set (rs_occupied s)" for l using that occ(2) new by (auto simp: rec)
  have fits: "offset + required \<le> length (rs_bytes s)" using room required(2) by linarith
  have "rd_offset (record_at s' ?k) = offset" "rd_bytes (record_at s' ?k) = required"
    using r by (simp_all add: rec del: record_at_id)
  note p = place_extent_fits [OF place ext fits same this]
  then have ins: "insertion \<le> length (rs_occupied s)"
    and ext': "extents_ok (record_at s') (length (rs_bytes s)) 0 (insert_at insertion ?k (rs_occupied s))" by auto
  have rok: "record_ok a r" using r required by (simp add: record_ok_def)
  have lay': "layout_inv a s'"
    unfolding layout_inv_def lens(1,2,3)
  proof (intro conjI ballI allI impI)
    show "distinct (insert_at insertion ?k (rs_occupied s))" using distinct_insert_at [OF ins] occ new by simp
    show "set (insert_at insertion ?k (rs_occupied s)) = record_ids s'" using set_insert_at [OF ins] occ(2) ids by simp
    show "extents_ok (record_at s') (length (rs_bytes s)) 0 (insert_at insertion ?k (rs_occupied s))" by (rule ext')
    show "record_ok a (record_at s' l)" if "l \<in> record_ids s'" for l
      using that lay rok ids by (auto simp: rec layout_inv_def)
    show "rd_used (record_at s' l)" if "l < 2 * length (rs_entries s)" "rd_active (record_at s' l) \<or> rd_terminal (record_at s' l)" for l
      using that lay r by (auto simp: rec layout_inv_def split: if_splits)
  qed
  have "cancel_inv s'"
    using can orig r(1) by (auto simp: cancel_inv_def lens(1) recs)
  moreover have "key_inv s'"
    unfolding key_inv_def lens(1)
  proof (intro allI impI, elim conjE)
    fix i j assume ij: "i < length (rs_entries s)" "j < length (rs_entries s)" "i \<noteq> j"
      "rd_used (record_at s' (record_id i False))" "rd_used (record_at s' (record_id j False))"
    then have used: "l \<noteq> slot \<Longrightarrow> rd_used (record_of (rs_entries s ! l) False)" if "l = i \<or> l = j" for l
      using that by (auto simp: recs split: if_splits)
    show "\<not> same_key (en_key (rs_entries s' ! i)) (en_key (rs_entries s' ! j))"
      using ij(1-3) used [of i] used [of j] fresh [of i] fresh [of j] key sym
      by (auto simp: keys key_inv_def)
  qed
  ultimately show "retention_inv a s'" using lay' by (simp add: retention_inv_split)
  show "contents a s' = (contents a s)(?k \<mapsto> (canonical_bytes packet, []))"
  proof
    fix l
    have kin: "?k \<in> record_ids s'" by (simp add: ids)
    have fit: "offset + length (canonical_bytes packet) \<le> offset + required" using required(1) by simp
    show "contents a s' l = ((contents a s)(?k \<mapsto> (canonical_bytes packet, []))) l"
    proof (cases "l = ?k")
      case True
      have "subspan (rs_bytes s') offset (length (canonical_bytes packet)) = canonical_bytes packet"
        unfolding lens(4) using fit fits by (intro subspan_write_same) linarith
      with True kin r show ?thesis by (simp add: contents_def stored_def rec del: record_at_id)
    next
      case False
      have "stored a (rs_bytes s') (record_at s l) = stored a (rs_bytes s) (record_at s l)" if l: "l \<in> record_ids s"
        unfolding lens(4)
      proof (rule stored_outside)
        have "l \<in> set (insert_at insertion ?k (rs_occupied s))" "?k \<in> set (insert_at insertion ?k (rs_occupied s))"
          "distinct (insert_at insertion ?k (rs_occupied s))"
          using l occ new ins by (simp_all add: set_insert_at distinct_insert_at)
        from extents_ok_disjoint [OF ext' this(3,1,2) False]
        show "rd_offset (record_at s l) + rd_bytes (record_at s l) \<le> offset
            \<or> offset + length (canonical_bytes packet) \<le> rd_offset (record_at s l)"
          using False r fit unfolding rec by auto
      qed (use lay l fit fits in \<open>auto simp: layout_inv_def\<close>)
      with False show ?thesis by (simp add: contents_def ids rec)
    qed
  qed
  show "en_key (rs_entries s' ! slot) = key" using keys [OF slot] by simp
  show "rd_used (record_of (rs_entries s' ! slot) False)"
    using rec [of "record_id slot False"] r(1) orig by (cases c) auto
  show "length (rs_entries s') = length (rs_entries s)" "ra_kind adm = Dup_fresh"
    "ra_token adm = \<lparr>rt_slot = slot, rt_generation = en_generation (rs_entries s' ! slot), rt_cancellation = c\<rparr>"
    using adm lens(1) slot by (simp_all add: s')
  show "\<not> rd_terminal (record_of (rs_entries s' ! slot) c)" using rec [of ?k] r(7) by simp
qed

section \<open>The store as an append-only log\<close>

lemma same_identifier_eq: "same_identifier a b \<longleftrightarrow> id_identity a = id_identity b"
  by (simp add: same_identifier_words id_identity_def)

lemma same_key_equiv:
  "same_key a a" "same_key a b \<Longrightarrow> same_key b a" "same_key a b \<Longrightarrow> same_key b c \<Longrightarrow> same_key a c"
  by (auto simp: same_key_def same_identifier_eq)

lemma same_key_sym: "same_key a b = same_key b a"
  using same_key_equiv(2) by blast

lemma find_key_Some:
  "find_key key es n = Some i \<Longrightarrow> n \<le> i \<and> i - n < length es \<and> rd_used (en_original (es ! (i - n))) \<and> same_key (en_key (es ! (i - n))) key"
proof (induction es arbitrary: n)
  case (Cons e es)
  show ?case
  proof (cases "rd_used (en_original e) \<and> same_key (en_key e) key")
    case False
    with Cons have "Suc n \<le> i \<and> i - Suc n < length es \<and> rd_used (en_original (es ! (i - Suc n)))
        \<and> same_key (en_key (es ! (i - Suc n))) key" by auto
    moreover from this have "i - n = Suc (i - Suc n)" by linarith
    ultimately show ?thesis by simp
  qed (use Cons.prems in auto)
qed simp

lemma find_key_None:
  "find_key key es n = None \<Longrightarrow> i < length es \<Longrightarrow> rd_used (en_original (es ! i)) \<Longrightarrow> \<not> same_key (en_key (es ! i)) key"
proof (induction es arbitrary: n i)
  case (Cons e es)
  then show ?case by (cases i) (auto split: if_splits)
qed simp

lemma find_free_Some:
  "find_free es n = Some i \<Longrightarrow> n \<le> i \<and> i - n < length es \<and> \<not> rd_used (en_original (es ! (i - n)))"
proof (induction es arbitrary: n)
  case (Cons e es)
  show ?case
  proof (cases "\<not> rd_used (en_original e) \<and> en_generation e \<noteq> size_max")
    case False
    with Cons have "Suc n \<le> i \<and> i - Suc n < length es \<and> \<not> rd_used (en_original (es ! (i - Suc n)))" by auto
    moreover from this have "i - n = Suc (i - Suc n)" by linarith
    ultimately show ?thesis by simp
  qed (use Cons.prems in auto)
qed simp

text \<open>References are not part of the layout.\<close>

lemma references_update:
  fixes s :: retention_store
  defines "f i n \<equiv> s\<lparr>rs_entries := (rs_entries s)[i := (rs_entries s ! i)\<lparr>en_references := n\<rparr>]\<rparr>"
  shows "retention_inv a (f i n) = retention_inv a s" "contents a (f i n) = contents a s"
    "layout_inv a (f i n) = layout_inv a s" "key_inv (f i n) = key_inv s" "record_at (f i n) = record_at s"
    "length (rs_entries (f i n)) = length (rs_entries s)"
proof -
  show rec: "record_at (f i n) = record_at s"
  proof
    fix k show "record_at (f i n) k = record_at s k"
      by (cases "i < length (rs_entries s)"; cases "k div 2 = i") (simp_all add: f_def indexed_record_def list_update_beyond)
  qed
  have keys: "en_key (rs_entries (f i n) ! j) = en_key (rs_entries s ! j)" for j
    by (cases "i < length (rs_entries s)"; cases "j = i") (simp_all add: f_def list_update_beyond)
  show len: "length (rs_entries (f i n)) = length (rs_entries s)" by (simp add: f_def)
  show lay: "layout_inv a (f i n) = layout_inv a s" and "contents a (f i n) = contents a s"
    using layout_inv_cong [OF rec] len by (simp_all add: f_def)
  show key: "key_inv (f i n) = key_inv s" by (simp only: key_inv_def rec len keys)
  have "cancel_inv (f i n) = cancel_inv s" by (simp only: cancel_inv_def rec len)
  with lay key show "retention_inv a (f i n) = retention_inv a s" by (simp add: retention_inv_split)
qed

inductive log_step :: "(nat \<Rightarrow> (bytes \<times> bytes list) option) \<Rightarrow> (nat \<Rightarrow> (bytes \<times> bytes list) option) \<Rightarrow> bool" where
  log_keep: "log_step m m"
| log_add: "m k = None \<Longrightarrow> log_step m (m(k \<mapsto> (canonical, [])))"
| log_append: "m k = Some (canonical, responses) \<Longrightarrow> log_step m (m(k \<mapsto> (canonical, responses @ [ack])))"
| log_forget: "log_step m (m |` S)"

inductive retention_step :: "nat \<Rightarrow> nat \<Rightarrow> retention_store \<Rightarrow> retention_store \<Rightarrow> bool" for a pid where
  step_reserve: "retention_step a pid s (fst (reserve a pid key packet responses s))"
| step_replay: "retention_step a pid s (fst (replay_existing key packet s))"
| step_bind: "retention_step a pid s (fst (bind_engine t h s))"
| step_append: "length ack = a \<Longrightarrow> retention_step a pid s (fst (append_response a t c ack s))"
| step_complete: "retention_step a pid s (fst (complete_record t now s))"
| step_retain: "retention_step a pid s (fst (retain_token t s))"
| step_release: "retention_step a pid s (fst (release_token t s))"
| step_rollback: "retention_step a pid s (fst (rollback t s))"
| step_expire: "retention_step a pid s (expire now s)"

lemma add_reference_inv:
  "retention_inv a (add_reference i s) = retention_inv a s" "contents a (add_reference i s) = contents a s"
  unfolding add_reference_def by (rule references_update)+

lemma drop_reference_inv:
  "retention_inv a (drop_reference i s) = retention_inv a s" "contents a (drop_reference i s) = contents a s"
  "layout_inv a (drop_reference i s) = layout_inv a s" "key_inv (drop_reference i s) = key_inv s"
  "record_at (drop_reference i s) = record_at s" "length (rs_entries (drop_reference i s)) = length (rs_entries s)"
  unfolding drop_reference_def by (rule references_update)+

lemma without_entry_restrict: "without_entry i m = m |` {k. k div 2 \<noteq> i}"
  by (rule ext) (simp add: without_entry_def restrict_map_def)

lemma forget_one: "m(k := None) = m |` (- {k})"
  by (rule ext) (simp add: restrict_map_def)

lemma expire_from_inv:
  assumes "retention_inv a s" "\<And>i. i \<in> set is \<Longrightarrow> i < length (rs_entries s)"
  shows "retention_inv a (expire_from now is s) \<and> (\<exists>S. contents a (expire_from now is s) = contents a s |` S)"
  using assms
proof (induction "is" arbitrary: s)
  case Nil
  then show ?case by (auto intro!: exI [of _ UNIV] simp: restrict_map_def)
next
  case (Cons i "is")
  show ?case
  proof (cases "expired now (rs_entries s ! i)")
    case True
    have i: "i < length (rs_entries s)" using Cons.prems(2) by simp
    note split = Cons.prems(1) [unfolded retention_inv_split]
    have "retention_inv a (erase_entry i s)" "contents a (erase_entry i s) = without_entry i (contents a s)"
      using split by (intro erase_entry_inv i; auto simp: cancel_inv_def)+
    with Cons.IH [of "erase_entry i s"] Cons.prems(2) True erase_entry_sel(1) [OF i] show ?thesis
      by (auto simp: without_entry_restrict)
  qed (use Cons in simp)
qed

definition log_refined :: "nat \<Rightarrow> retention_store \<Rightarrow> retention_store \<Rightarrow> bool" where
  "log_refined a s s' \<longleftrightarrow> retention_inv a s' \<and> log_step (contents a s) (contents a s')"

lemma log_refined_keep: "retention_inv a s' \<Longrightarrow> contents a s' = contents a s \<Longrightarrow> log_refined a s s'"
  by (simp add: log_refined_def log_keep)

lemma probes_update:
  "retention_inv a (s\<lparr>rs_placement_probes := n\<rparr>) = retention_inv a s" "contents a (s\<lparr>rs_placement_probes := n\<rparr>) = contents a s"
  "retention_inv a (s\<lparr>rs_pool := p\<rparr>) = retention_inv a s" "contents a (s\<lparr>rs_pool := p\<rparr>) = contents a s"
proof -
  have "retention_inv a s1 = retention_inv a s \<and> contents a s1 = contents a s"
    if same: "rs_entries s1 = rs_entries s" "rs_bytes s1 = rs_bytes s" "rs_occupied s1 = rs_occupied s" for s1
  proof -
    have rec: "record_at s1 = record_at s" using same(1) by (rule record_at_cong)
    have ids: "record_ids s1 = record_ids s" unfolding record_ids_def rec same(1) ..
    show ?thesis unfolding retention_inv_def contents_def [abs_def] rec ids same by simp
  qed
  from this [of "s\<lparr>rs_placement_probes := n\<rparr>"] this [of "s\<lparr>rs_pool := p\<rparr>"]
  show "retention_inv a (s\<lparr>rs_placement_probes := n\<rparr>) = retention_inv a s" "contents a (s\<lparr>rs_placement_probes := n\<rparr>) = contents a s"
    "retention_inv a (s\<lparr>rs_pool := p\<rparr>) = retention_inv a s" "contents a (s\<lparr>rs_pool := p\<rparr>) = contents a s"
    by simp_all
qed

lemma reserve_in_error:
  assumes "reserve_in pid key packet responses required slot s = (s', Inl e)"
  shows "retention_inv a s' = retention_inv a s" "contents a s' = contents a s"
  using assms
  by (auto simp: reserve_in_def Let_def probes_update split: prod.splits if_splits sum.splits)

text \<open>The slot chosen for a new record.\<close>

lemma reserve_fresh_success:
  assumes inv: "retention_inv a s" and run: "reserve_fresh a pid key packet responses found s = (s', Inr adm)"
    and found: "found = find_key key (rs_entries s) 0" and wire: "4 \<le> length (view_wire (pv_envelope packet))"
    and c: "c = env_cancel (view_envelope (pv_envelope packet))"
    and unused: "\<And>i. found = Some i \<Longrightarrow> \<not> rd_used (record_of (rs_entries s ! i) c)"
  obtains slot where "slot < length (rs_entries s)" "retention_inv a s'" "contents a s (record_id slot c) = None"
    "contents a s' = (contents a s)(record_id slot c \<mapsto> (canonical_bytes packet, []))"
    "same_key (en_key (rs_entries s' ! slot)) key" "rd_used (record_of (rs_entries s' ! slot) False)"
    "length (rs_entries s') = length (rs_entries s)" "ra_kind adm = Dup_fresh"
    "ra_token adm = \<lparr>rt_slot = slot, rt_generation = en_generation (rs_entries s' ! slot), rt_cancellation = c\<rparr>"
    "\<not> rd_terminal (record_of (rs_entries s' ! slot) c)"
proof -
  let ?required = "length (view_wire (pv_envelope packet)) + responses * a"
  from run obtain slot where slot: "(case found of Some i \<Rightarrow> Some i | None \<Rightarrow> find_free (rs_entries s) 0) = Some slot"
    and go: "reserve_in pid key packet responses ?required slot s = (s', Inr adm)"
    and fits: "length (view_wire (pv_envelope packet)) \<le> length (rs_bytes s)"
      "responses \<le> (length (rs_bytes s) - length (view_wire (pv_envelope packet))) div a"
    and some: "c \<Longrightarrow> found \<noteq> None"
    unfolding c by (auto simp: reserve_fresh_def Let_def split: if_splits option.splits)
  have "responses * a \<le> length (rs_bytes s) - length (view_wire (pv_envelope packet))"
    using fits(2) by (metis div_times_less_eq_dividend le_trans mult_le_mono1)
  with fits(1) have req: "?required \<le> length (rs_bytes s)" by linarith
  have facts: "slot < length (rs_entries s) \<and> \<not> rd_used (record_of (rs_entries s ! slot) c)
      \<and> (c \<longrightarrow> rd_used (record_of (rs_entries s ! slot) False) \<and> same_key (en_key (rs_entries s ! slot)) key)
      \<and> (\<forall>j < length (rs_entries s). j \<noteq> slot \<longrightarrow> rd_used (record_of (rs_entries s ! j) False)
          \<longrightarrow> \<not> same_key (en_key (rs_entries s ! j)) key)"
  proof (cases found)
    case None
    with some have "\<not> c" by blast
    with None slot find_free_Some [of "rs_entries s" 0 slot] find_key_None [of key "rs_entries s" 0] found
    show ?thesis by (auto simp: record_of_def)
  next
    case (Some i)
    then have "i = slot" using slot by simp
    with Some found find_key_Some [of key "rs_entries s" 0 i]
    have i: "slot < length (rs_entries s)" "rd_used (record_of (rs_entries s ! slot) False)"
      "same_key (en_key (rs_entries s ! slot)) key" by (auto simp: record_of_def)
    have "key_inv s" using inv by (simp add: retention_inv_split)
    then have "\<not> same_key (en_key (rs_entries s ! j)) key"
      if "j < length (rs_entries s)" "j \<noteq> slot" "rd_used (record_of (rs_entries s ! j) False)" for j
      using i that same_key_equiv by (metis key_inv_def record_at_id)
    with i Some unused \<open>i = slot\<close> show ?thesis by blast
  qed
  then have orig: "c \<Longrightarrow> rd_used (record_of (rs_entries s ! slot) False) \<and> same_key (en_key (rs_entries s ! slot)) key"
    and others: "\<And>j. j < length (rs_entries s) \<Longrightarrow> j \<noteq> slot \<Longrightarrow> rd_used (record_of (rs_entries s ! j) False)
      \<Longrightarrow> \<not> same_key (en_key (rs_entries s ! j)) key" by blast+
  note eff = reserve_in_effect [OF inv _ go refl req wire c _ orig others same_key_sym]
  have new: "contents a s (record_id slot c) = None" using facts by (simp add: contents_def record_ids_def)
  show thesis
    by (rule that [of slot]) (use facts eff new same_key_equiv(1) in auto)
qed

lemma reserve_fresh_error:
  assumes "reserve_fresh a pid key packet responses found s = (s', Inl e)"
  shows "retention_inv b s' = retention_inv b s" "contents b s' = contents b s"
  using assms reserve_in_error
  by (auto simp: reserve_fresh_def Let_def split: if_splits option.splits)

lemma reserve_refined:
  assumes inv: "retention_inv a s"
  shows "log_refined a s (fst (reserve a pid key packet responses s))"
proof -
  let ?c = "env_cancel (view_envelope (pv_envelope packet))" and ?found = "find_key key (rs_entries s) 0"
  have fresh: "log_refined a s (fst (reserve_fresh a pid key packet responses ?found s))"
    if "4 \<le> length (view_wire (pv_envelope packet))" "\<And>i. ?found = Some i \<Longrightarrow> \<not> rd_used (record_of (rs_entries s ! i) ?c)"
  proof (cases "reserve_fresh a pid key packet responses ?found s")
    case (Pair s' res)
    show ?thesis
    proof (cases res)
      case (Inl e)
      with Pair reserve_fresh_error [of a pid key packet responses ?found s s' e] inv show ?thesis
        by (simp add: log_refined_keep)
    next
      case (Inr adm)
      with Pair reserve_fresh_success [OF inv _ refl that(1) refl that(2)] show ?thesis
        by (metis log_refined_def log_add fst_conv)
    qed
  qed
  show ?thesis
    using fresh inv
    by (auto simp: reserve_def Let_def log_refined_keep add_reference_inv not_less split: option.splits)
qed

lemma with_record_refined:
  assumes "retention_inv a s"
    and "\<And>e. find_entry s t = Some e \<Longrightarrow> log_refined a s (fst (f e (record_of e (rt_cancellation t))))"
  shows "log_refined a s (fst (with_record s t f))"
  using assms by (auto simp: with_record_def log_refined_keep split: option.splits)

lemma flags_refined:
  assumes inv: "retention_inv a s" and find: "find_entry s t = Some e" and used: "rd_used r"
    and same: "same_extent r (record_of e (rt_cancellation t))"
    and e': "e' = set_record (rt_cancellation t) r e \<or> (\<exists>x. e' = (set_record (rt_cancellation t) r e)\<lparr>en_expires := x\<rparr>)"
  shows "log_refined a s (s\<lparr>rs_entries := (rs_entries s)[rt_slot t := e']\<rparr>)"
proof -
  note f = find_entry_Some [OF find]
  have lay: "layout_inv a s" using inv by (simp add: retention_inv_split)
  have recs: "record_of e' d = (if d = rt_cancellation t then r else record_of e d)" "en_key e' = en_key e" for d
    using e' by auto
  have flags: "rd_active (record_of e d) \<or> rd_terminal (record_of e d) \<Longrightarrow> rd_used (record_of e d)" for d
    using lay f(1,2) by (metis layout_inv_def record_at_id record_id_less)
  have "retention_inv a (s\<lparr>rs_entries := (rs_entries s)[rt_slot t := e']\<rparr>)"
    "contents a (s\<lparr>rs_entries := (rs_entries s)[rt_slot t := e']\<rparr>) = contents a s"
    using f same used flags recs by (intro flags_update [OF inv f(1)]; auto)+
  then show ?thesis by (rule log_refined_keep)
qed

lemma erase_refined:
  assumes "retention_inv a s" "i < length (rs_entries s)" "retention_inv a s0" "contents a s0 = contents a s"
    "length (rs_entries s0) = length (rs_entries s)"
  shows "log_refined a s (erase_entry i s0)"
proof -
  from assms(3) have "layout_inv a s0" "key_inv s0" "cancel_inv s0" by (simp_all add: retention_inv_split)
  moreover have "i < length (rs_entries s0)" using assms by simp
  ultimately have "retention_inv a (erase_entry i s0)" "contents a (erase_entry i s0) = without_entry i (contents a s0)"
    by (intro erase_entry_inv; auto simp: cancel_inv_def)+
  with assms(4) show ?thesis
    by (simp add: log_refined_def without_entry_restrict log_forget)
qed

lemma rollback_refined:
  assumes inv: "retention_inv a s"
  shows "log_refined a s (fst (rollback t s))"
  unfolding rollback_def
proof (rule with_record_refined [OF inv])
  fix e assume find: "find_entry s t = Some e"
  note f = find_entry_Some [OF find]
  let ?i = "rt_slot t" and ?c = "rt_cancellation t"
  let ?s0 = "clear_record ?i ?c s"
  let ?s1 = "drop_reference ?i ?s0"
  have lay: "layout_inv a s" "key_inv s" "cancel_inv s" using inv by (simp_all add: retention_inv_split)
  note cl = clear_record_layout [OF lay(1) f(1), of ?c] and sel = clear_record_sel [OF f(1), of ?c]
  have key0: "key_inv ?s0" using lay(2) unfolding key_inv_def sel(1,3,5) by auto
  have can: "rd_used (record_at ?s0 (record_id j True)) \<Longrightarrow> rd_used (record_at ?s0 (record_id j False))"
    if "j < length (rs_entries s)" "j \<noteq> ?i \<or> ?c" for j
    using lay(3) that unfolding sel(3) by (auto simp: cancel_inv_def split: if_splits)
  have cleared: "log_refined a s (if \<not> ?c then erase_entry ?i ?s1 else ?s1)"
  proof (cases ?c)
    case True
    then have "cancel_inv ?s0" using can sel(1) by (simp add: cancel_inv_def del: record_at_id)
    with cl(1) key0 have "retention_inv a ?s0" by (simp add: retention_inv_split)
    with True cl(2) show ?thesis
      by (simp add: log_refined_def drop_reference_inv forget_one log_forget)
  next
    case False
    have "retention_inv a (erase_entry ?i ?s1)" "contents a (erase_entry ?i ?s1) = without_entry ?i (contents a ?s1)"
      using cl key0 can f(1) sel(1)
      by (intro erase_entry_inv; simp add: drop_reference_inv del: record_at_id)+
    moreover have "without_entry ?i ((contents a s)(record_id ?i ?c := None)) = without_entry ?i (contents a s)"
      by (rule ext) (simp add: without_entry_def)
    ultimately show ?thesis
      using False cl(2) by (simp add: log_refined_def drop_reference_inv without_entry_restrict log_forget)
  qed
  with inv show "log_refined a s (fst (if en_references e = 0 then (s, Inl (err Stale_generation))
      else if rd_active (record_of e ?c) \<or> rd_terminal (record_of e ?c) then (s, Inl (err Invalid_state))
      else let s1 = ?s1 in (if \<not> ?c then erase_entry ?i s1 else s1, Inr ())))"
    by (auto simp: Let_def log_refined_keep)
qed

lemma bind_refined:
  assumes inv: "retention_inv a s"
  shows "log_refined a s (fst (bind_engine t h s))"
  unfolding bind_engine_def
proof (rule with_record_refined [OF inv], goal_cases)
  case (1 e)
  note f = find_entry_Some [OF 1]
  let ?r = "(record_of e (rt_cancellation t))\<lparr>rd_active := True, rd_engine := h\<rparr>"
  have "log_refined a s (update_record (rt_slot t) (rt_cancellation t) ?r s)"
    unfolding update_record_def f(2) [symmetric]
    by (rule flags_refined [OF inv 1, where r = ?r]) (use f(3) in \<open>simp_all add: same_extent_def\<close>)
  with inv show ?case by (simp add: log_refined_keep)
qed

lemma append_refined:
  assumes inv: "retention_inv a s" and len: "length ack = a"
  shows "log_refined a s (fst (append_response a t c ack s))"
  unfolding append_response_def
proof (rule with_record_refined [OF inv], goal_cases)
  case (1 e)
  let ?k = "record_id (rt_slot t) (rt_cancellation t)"
  obtain can rs where old: "contents a s ?k = Some (can, rs)"
    using find_entry_Some(5) [OF 1] by (auto simp: contents_def stored_def)
  note eff = append_response_effect [OF inv 1 refl _ _ len]
  show ?case
    using inv eff(1) eff(2) [OF _ _ old] log_append [of "contents a s" ?k can rs ack, OF old]
    by (auto simp: log_refined_def log_keep)
qed

lemma complete_refined:
  assumes inv: "retention_inv a s"
  shows "log_refined a s (fst (complete_record t now s))"
  unfolding complete_record_def
proof (rule with_record_refined [OF inv], goal_cases)
  case (1 e)
  let ?r = "(record_of e (rt_cancellation t))\<lparr>rd_terminal := True, rd_active := False, rd_engine := None\<rparr>"
  have "log_refined a s (s\<lparr>rs_entries := (rs_entries s)[rt_slot t := (set_record (rt_cancellation t) ?r e)\<lparr>en_expires := x\<rparr>]\<rparr>)" for x
    by (rule flags_refined [OF inv 1, where r = ?r]) (use find_entry_Some(3) [OF 1] in \<open>auto simp: same_extent_def\<close>)
  with inv show ?case by (simp add: log_refined_keep Let_def)
qed

lemma release_refined:
  assumes inv: "retention_inv a s"
  shows "log_refined a s (fst (release_token t s))"
  unfolding release_token_def
proof (rule with_record_refined [OF inv], goal_cases)
  case (1 e)
  have "log_refined a s (erase_entry (rt_slot t) (drop_reference (rt_slot t) s))"
    by (rule erase_refined [OF inv find_entry_Some(1) [OF 1]]) (use inv in \<open>simp_all add: drop_reference_inv\<close>)
  with inv show ?case by (simp add: log_refined_keep drop_reference_inv Let_def)
qed

lemma reference_refined:
  assumes inv: "retention_inv a s"
  shows "log_refined a s (fst (retain_token t s))" "log_refined a s (fst (replay_existing key packet s))"
  using inv
  by (auto simp: retain_token_def with_record_def replay_existing_def Let_def log_refined_keep add_reference_inv
      split: option.splits)

lemma expire_refined:
  assumes "retention_inv a s"
  shows "log_refined a s (expire now s)"
  using expire_from_inv [OF assms, of "[0..<length (rs_entries s)]" now]
  by (auto simp: expire_def log_refined_def intro: log_forget)

lemmas step_refined = reserve_refined bind_refined append_refined complete_refined release_refined
  reference_refined rollback_refined expire_refined

text \<open>C9: the retention store behaves like an append-only log per record. Every operation keeps the store's
  invariant (the extents of the live records are disjoint, in order and inside the byte area, the index
  lists exactly the live records, live entries have different keys) and changes what is stored only by
  adding a record with its canonical command, by appending one response to one record, or by forgetting
  whole records; it never alters a command or a response already stored.\<close>

theorem retention_refines_log:
  assumes inv: "retention_inv a s" and step: "retention_step a pid s s'"
  shows "retention_inv a s' \<and> log_step (contents a s) (contents a s')"
  using step inv unfolding log_refined_def [symmetric]
  by cases (simp_all add: step_refined)

section \<open>Duplicates\<close>

text \<open>The canonical comparison of the code is a comparison with what is stored.\<close>

lemma same_canonical_stored:
  assumes inv: "retention_inv a s" and k: "k \<in> record_ids s"
  shows "same_canonical s (record_at s k) packet \<longleftrightarrow> fst (the (contents a s k)) = canonical_bytes packet"
proof -
  let ?r = "record_at s k"
  have lay: "layout_inv a s" using inv by (simp add: retention_inv_split)
  then have "rd_offset ?r + rd_bytes ?r \<le> length (rs_bytes s)" "rd_canonical ?r \<le> rd_bytes ?r"
    using extents_ok_within [of "record_at s" _ 0 "rs_occupied s" k] k
    by (auto simp: layout_inv_def record_ok_def)
  then have fit: "rd_offset ?r + rd_canonical ?r \<le> length (rs_bytes s)" by linarith
  define can where "can = subspan (rs_bytes s) (rd_offset ?r) (rd_canonical ?r)"
  have stored: "fst (the (contents a s k)) = can" using k by (simp add: contents_def stored_def can_def)
  have len: "length can = rd_canonical ?r" using fit by (simp add: can_def subspan_def)
  have nth: "can ! b = rs_bytes s ! (rd_offset ?r + b)" if "b < rd_canonical ?r" for b
    using that fit by (simp add: can_def subspan_def)
  have "can = canonical_bytes packet \<longleftrightarrow> rd_canonical ?r = length (view_wire (pv_envelope packet))
      \<and> (\<forall>b < rd_canonical ?r. can ! b = canonical_command_byte packet b)"
    unfolding list_eq_iff_nth_eq len by (auto simp: canonical_bytes_def)
  also have "\<dots> \<longleftrightarrow> same_canonical s ?r packet"
    using nth by (auto simp: same_canonical_def list_all_iff)
  finally show ?thesis using stored by simp
qed

lemma find_key_unique:
  assumes inv: "retention_inv a s" and i: "i < length (rs_entries s)" "rd_used (record_of (rs_entries s ! i) False)"
    "same_key (en_key (rs_entries s ! i)) key"
  shows "find_key key (rs_entries s) 0 = Some i"
proof (cases "find_key key (rs_entries s) 0")
  case None
  with find_key_None [OF None i(1)] i show ?thesis by (simp add: record_of_def)
next
  case (Some j)
  with find_key_Some [OF Some] have j: "j < length (rs_entries s)" "rd_used (record_of (rs_entries s ! j) False)"
    "same_key (en_key (rs_entries s ! j)) key" by (auto simp: record_of_def)
  have "key_inv s" using inv by (simp add: retention_inv_split)
  with i j Some same_key_equiv show ?thesis by (metis key_inv_def record_at_id)
qed

lemma find_key_cong:
  assumes "same_key key key'"
  shows "find_key key es n = find_key key' es n"
proof -
  have "same_key x key = same_key x key'" for x using assms same_key_equiv by blast
  then show ?thesis by (induction es arbitrary: n) simp_all
qed

text \<open>A command the store accepted is found again under its key.\<close>

lemma reserve_success:
  assumes inv: "retention_inv a s" and run: "reserve a pid key packet responses s = (s', Inr adm)"
    and c: "c = env_cancel (view_envelope (pv_envelope packet))"
  obtains i where "i < length (rs_entries s')" "retention_inv a s'" "rd_used (record_of (rs_entries s' ! i) False)"
    "same_key (en_key (rs_entries s' ! i)) key" "record_id i c \<in> record_ids s'"
    "fst (the (contents a s' (record_id i c))) = canonical_bytes packet"
    "ra_token adm = \<lparr>rt_slot = i, rt_generation = en_generation (rs_entries s' ! i), rt_cancellation = c\<rparr>"
    "4 \<le> length (view_wire (pv_envelope packet))" "\<not> env_ack (view_envelope (pv_envelope packet))"
    "tk_binding_generation key \<noteq> 0" "ps_generation (tk_peer key) \<noteq> 0" "key_matches key packet"
    "responses \<le> (if c then 2 else 3)"
proof -
  from run have guards: "4 \<le> length (view_wire (pv_envelope packet))" "\<not> env_ack (view_envelope (pv_envelope packet))"
    "tk_binding_generation key \<noteq> 0" "ps_generation (tk_peer key) \<noteq> 0" "key_matches key packet"
    "responses \<le> (if c then 2 else 3)"
    by (auto simp: reserve_def Let_def c split: if_splits)
  let ?found = "find_key key (rs_entries s) 0"
  show thesis
  proof (cases "\<exists>i. ?found = Some i \<and> rd_used (record_of (rs_entries s ! i) c)")
    case True
    then obtain i where found: "?found = Some i" and used: "rd_used (record_of (rs_entries s ! i) c)" by blast
    have i: "i < length (rs_entries s)" "rd_used (record_of (rs_entries s ! i) False)" "same_key (en_key (rs_entries s ! i)) key"
      using find_key_Some [OF found] by (simp_all add: record_of_def)
    from run guards found used have s': "s' = add_reference i s" and same: "same_canonical s (record_of (rs_entries s ! i) c) packet"
      and tok: "ra_token adm = \<lparr>rt_slot = i, rt_generation = en_generation (rs_entries s ! i), rt_cancellation = c\<rparr>"
      by (auto simp: reserve_def Let_def c split: if_splits)
    have k: "record_id i c \<in> record_ids s" using i(1) used by (simp add: record_ids_def)
    have rec: "record_at s' = record_at s" "length (rs_entries s') = length (rs_entries s)"
      unfolding s' add_reference_def by (rule references_update)+
    have k': "record_id i c \<in> record_ids s'" using k by (simp only: record_ids_def rec)
    have con: "contents a s' = contents a s" "retention_inv a s'" using inv unfolding s' by (simp_all add: add_reference_inv)
    have u: "rd_used (record_of (rs_entries s' ! i) False)" using i(2) rec(1) by (metis record_at_id)
    have keys: "en_key (rs_entries s' ! i) = en_key (rs_entries s ! i)" "en_generation (rs_entries s' ! i) = en_generation (rs_entries s ! i)"
      using i(1) by (simp_all add: s' add_reference_def)
    show thesis
      by (rule that [of i])
        (use same_canonical_stored [OF inv k, of packet] same i u con tok guards k' rec keys in simp_all)
  next
    case False
    then have unused: "\<not> rd_used (record_of (rs_entries s ! i) c)" if "?found = Some i" for i using that by blast
    from run guards unused have "reserve_fresh a pid key packet responses ?found s = (s', Inr adm)"
      by (auto simp: reserve_def Let_def c split: if_splits option.splits)
    from reserve_fresh_success [OF inv this refl guards(1) c unused] obtain slot where
      slot: "slot < length (rs_entries s)" "retention_inv a s'"
      "contents a s' = (contents a s)(record_id slot c \<mapsto> (canonical_bytes packet, []))"
      "same_key (en_key (rs_entries s' ! slot)) key" "rd_used (record_of (rs_entries s' ! slot) False)"
      "length (rs_entries s') = length (rs_entries s)"
      "ra_token adm = \<lparr>rt_slot = slot, rt_generation = en_generation (rs_entries s' ! slot), rt_cancellation = c\<rparr>" by metis
    have "contents a s' (record_id slot c) \<noteq> None" by (simp add: slot(3))
    then have "record_id slot c \<in> record_ids s'" by (auto simp: contents_def split: if_splits)
    with slot guards that [of slot] show thesis by simp
  qed
qed

text \<open>C13: a command is admitted once. After the store accepted a command, a second command under the same key is
  recognised: with the same canonical bytes it gets the same token and is reported as a duplicate, and what
  is stored does not change; with other bytes it is refused as an identity conflict and nothing changes.\<close>

theorem duplicates_recognised:
  assumes inv: "retention_inv a s" and first: "reserve a pid key packet responses s = (s', Inr adm)"
    and second: "same_key key key'" "key_matches key' packet'" "tk_binding_generation key' \<noteq> 0" "ps_generation (tk_peer key') \<noteq> 0"
      "4 \<le> length (view_wire (pv_envelope packet'))" "\<not> env_ack (view_envelope (pv_envelope packet'))"
      "env_cancel (view_envelope (pv_envelope packet')) = env_cancel (view_envelope (pv_envelope packet))"
      "responses' \<le> (if env_cancel (view_envelope (pv_envelope packet)) then 2 else 3)"
  shows "if canonical_bytes packet' = canonical_bytes packet
    then \<exists>s'' adm'. reserve a pid key' packet' responses' s' = (s'', Inr adm') \<and> ra_token adm' = ra_token adm
      \<and> ra_kind adm' \<noteq> Dup_fresh \<and> contents a s'' = contents a s'
    else reserve a pid key' packet' responses' s' = (s', Inl (err Identity_conflict))"
proof -
  let ?c = "env_cancel (view_envelope (pv_envelope packet))"
  from reserve_success [OF inv first refl] obtain i where
    i: "i < length (rs_entries s')" "retention_inv a s'" "rd_used (record_of (rs_entries s' ! i) False)"
      "same_key (en_key (rs_entries s' ! i)) key" "record_id i ?c \<in> record_ids s'"
    and stored: "fst (the (contents a s' (record_id i ?c))) = canonical_bytes packet"
    and tok: "ra_token adm = \<lparr>rt_slot = i, rt_generation = en_generation (rs_entries s' ! i), rt_cancellation = ?c\<rparr>" by metis
  have "find_key key' (rs_entries s') 0 = Some i"
    using find_key_unique [OF i(2,1,3,4)] find_key_cong [OF second(1)] by simp
  moreover have "rd_used (record_of (rs_entries s' ! i) ?c)" using i(5) by (simp add: record_ids_def)
  moreover have "same_canonical s' (record_of (rs_entries s' ! i) ?c) packet' \<longleftrightarrow> canonical_bytes packet' = canonical_bytes packet"
    using same_canonical_stored [OF i(2,5), of packet'] stored by auto
  ultimately show ?thesis
    using second tok by (auto simp: reserve_def Let_def not_less add_reference_inv)
qed

section \<open>A concrete store\<close>

definition blank_entry :: entry where
  "blank_entry = \<lparr>en_generation = 1, en_key = \<lparr>tk_binding_generation = 0, tk_peer = \<lparr>ps_peer = 0, ps_generation = 0\<rparr>,
     tk_stream_id = None, tk_controller = absent_id, tk_controllee = absent_id, tk_message_id = 0\<rparr>,
     en_original = empty_record, en_cancel = empty_record, en_references = 0, en_expires = Mono_time 0\<rparr>"

definition fresh_store :: "nat \<Rightarrow> nat \<Rightarrow> admission_request \<Rightarrow> retention_store" where
  "fresh_store entries capacity credits = \<lparr>rs_entries = replicate entries blank_entry, rs_bytes = replicate capacity 0,
     rs_occupied = [], rs_placement_probes = 0, rs_pool = make_pool credits\<rparr>"

lemma fresh_store_inv: "retention_inv a (fresh_store n m credits)"
proof -
  have empty: "record_at (fresh_store n m credits) k = empty_record" if "k < 2 * n" for k
    using that by (auto simp: indexed_record_def fresh_store_def blank_entry_def record_of_def)
  have "record_ids (fresh_store n m credits) = {}"
    using empty by (auto simp: record_ids_def fresh_store_def)
  then show ?thesis using empty by (auto simp: retention_inv_def fresh_store_def blank_entry_def)
qed

definition sample_command :: packet_view where
  "sample_command = \<lparr>pv_envelope = \<lparr>view_envelope = empty_envelope\<lparr>env_type := Command_packet,
       env_command := Some \<lparr>cmd_cam = 0, cmd_message_id = 7, cmd_controllee = absent_id, cmd_controller = absent_id\<rparr>\<rparr>,
     view_payload = [], view_trailer = None, view_payload_offset = 8, view_wire = [0x60, 0x05, 0, 2, 0, 0, 0, 7]\<rparr>,
     pv_fields = [], pv_body_kind = Body_values, pv_opaque = False, pv_change = False, pv_requires_request_context = False\<rparr>"

definition sample_txkey :: transaction_key where
  "sample_txkey = \<lparr>tk_binding_generation = 1, tk_peer = \<lparr>ps_peer = 4, ps_generation = 1\<rparr>, tk_stream_id = None,
     tk_controller = absent_id, tk_controllee = absent_id, tk_message_id = 7\<rparr>"

definition sample_store :: retention_store where
  "sample_store = fresh_store 2 64 (retention_request False 64)"

theorem retention_refines_log_witness:
  "retention_inv 8 (fst (reserve 8 0 sample_txkey sample_command 1 sample_store))
    \<and> log_step (contents 8 sample_store) (contents 8 (fst (reserve 8 0 sample_txkey sample_command 1 sample_store)))"
  using retention_refines_log [OF fresh_store_inv step_reserve] unfolding sample_store_def by blast

lemma sample_credits:
  "\<exists>pool b. pool_acquire 0 (make_pool (retention_request False 64)) (retention_request False 16) = (pool, Inr b)"
proof -
  have range: "set [0..<resource_count] = {0, 1, 2, 3, 4, 5, 6, 7, 8, 9, 10, 11, 12, 13}"
    by (simp add: resource_count_def upt_conv_Cons atLeastLessThan_upt eval_nat_numeral)
  have req: "retention_request False n = \<lparr>ar_counts = [0, 0, 0, 0, 0, 0, 1, n, 0, 0, 0, 0, 0, 0], ar_valid = True\<rparr>" for n
    by (simp add: retention_request_def need_def empty_request_def resource_count_def eval_nat_numeral)
  show ?thesis
    unfolding pool_acquire_def range req
    by (simp add: make_pool_def empty_request_def resource_count_def eval_nat_numeral)
qed

lemma sample_key_matches: "key_matches sample_txkey sample_command"
  by (simp add: key_matches_def transaction_key_of_def sample_txkey_def sample_command_def is_command_def
      empty_envelope_def same_key_def same_identifier_def)

lemma sample_reservation: "\<exists>s' adm. reserve 8 0 sample_txkey sample_command 1 sample_store = (s', Inr adm)"
proof -
  have c: "env_cancel (view_envelope (pv_envelope sample_command)) = False" "env_ack (view_envelope (pv_envelope sample_command)) = False"
    "length (view_wire (pv_envelope sample_command)) = 8"
    by (simp_all add: sample_command_def empty_envelope_def)
  have k: "tk_binding_generation sample_txkey \<noteq> 0" "ps_generation (tk_peer sample_txkey) \<noteq> 0" by (simp_all add: sample_txkey_def)
  have two: "replicate 2 x = [x, x]" for x :: entry by (simp add: numeral_2_eq_2)
  have find: "find_key sample_txkey (rs_entries sample_store) 0 = None" "find_free (rs_entries sample_store) 0 = Some 0"
    "length (rs_bytes sample_store) = 64" "rs_occupied sample_store = []" "rs_pool sample_store = make_pool (retention_request False 64)"
    by (simp_all add: sample_store_def fresh_store_def two blank_entry_def size_max_def)
  obtain pool b where "pool_acquire 0 (make_pool (retention_request False 64)) (retention_request False 16) = (pool, Inr b)"
    using sample_credits by blast
  then show ?thesis
    using sample_key_matches k by (simp add: reserve_def reserve_fresh_def reserve_in_def c find Let_def)
qed

theorem duplicates_recognised_witness:
  "\<exists>s' adm s'' adm'. reserve 8 0 sample_txkey sample_command 1 sample_store = (s', Inr adm)
    \<and> reserve 8 0 sample_txkey sample_command 2 s' = (s'', Inr adm') \<and> ra_token adm' = ra_token adm \<and> ra_kind adm' \<noteq> Dup_fresh"
proof -
  obtain s' adm where first: "reserve 8 0 sample_txkey sample_command 1 sample_store = (s', Inr adm)"
    using sample_reservation by blast
  have inv: "retention_inv 8 sample_store" unfolding sample_store_def by (rule fresh_store_inv)
  have "tk_binding_generation sample_txkey \<noteq> 0" "ps_generation (tk_peer sample_txkey) \<noteq> 0"
    "4 \<le> length (view_wire (pv_envelope sample_command))" "\<not> env_ack (view_envelope (pv_envelope sample_command))"
    "2 \<le> (if env_cancel (view_envelope (pv_envelope sample_command)) then 2 else 3 :: nat)"
    by (simp_all add: sample_txkey_def sample_command_def empty_envelope_def)
  from duplicates_recognised [OF inv first same_key_equiv(1) sample_key_matches this(1-4) refl this(5)] first
  show ?thesis by auto
qed

end
