(* ===== verification/Engine.thy ===== *)
theory Engine
  imports Backend Retention
begin

text \<open>
  The transaction engine (\<open>Engine\<close> of \<^verbatim>\<open>runtime/transaction/engine.hpp\<close>): admission of commands into a
  fixed set of slots, progress of all slots under a single effect owner, cancellation, quiescence and
  release. Planning and the loop over one plan are in \<open>Planning\<close> and \<open>Dispatch\<close>. The device is any
  backend; the trace clock is an arbitrary function of the number of events written so far.
\<close>

section \<open>State\<close>

record 'b engine_setup =
  es_env :: engine_env
  es_reserve :: "(nat \<Rightarrow> revision_reservation result) option"
  es_external_retention :: bool
  es_pool_id :: nat
  es_plan_bytes :: nat
  es_backend :: "'b backend"
  es_now_ns :: "nat \<Rightarrow> nat"

record 'b engine =
  eg_slots :: "slot list"
  eg_core :: engine_core
  eg_results :: device_results
  eg_pool :: admission_state
  eg_device :: 'b
  eg_next_ticket_operation :: nat
  eg_next_sequence :: nat
  eg_association_generation :: nat
  eg_effect_owner :: "nat option"
  eg_progressing :: bool
  eg_traced :: "trace_event list"

definition slot_at :: "'b engine \<Rightarrow> nat \<Rightarrow> slot" where
  "slot_at e i = eg_slots e ! i"

definition put_slot :: "nat \<Rightarrow> slot \<Rightarrow> 'b engine \<Rightarrow> 'b engine" where
  "put_slot i sl e = e\<lparr>eg_slots := (eg_slots e)[i := sl]\<rparr>"

definition trace_reading :: "'b engine_setup \<Rightarrow> 'b engine \<Rightarrow> nat" where
  "trace_reading su e = es_now_ns su (length (eg_traced e))"

definition no_guard :: result_guard where
  "no_guard = \<lparr>rg_holders = 0, rg_cancelled = False, rg_contradiction = False, rg_association_generation = 0, rg_field = no_field\<rparr>"

definition idle_slot :: slot where
  "idle_slot = \<lparr>sl_plan = fresh_storage, sl_record = \<lparr>tn_active = False, tn_complete = False, tn_revalidated = False,
     tn_running = False, tn_generation = 1, tn_sequence = 0, tn_step = 0, tn_running_field = 0, tn_response_read = 0,
     tn_responses = [], tn_hypothetical = default_snapshot\<rparr>, sl_credits = null_bundle\<rparr>"

definition new_engine :: "'b engine_setup \<Rightarrow> nat \<Rightarrow> admission_state \<Rightarrow> 'b \<Rightarrow> state_snapshot \<Rightarrow> 'b engine" where
  "new_engine su transactions pool device s = \<lparr>eg_slots = replicate transactions idle_slot,
     eg_core = \<lparr>ec_state = s, ec_faulted = False, ec_quiescing = False, ec_events = [], ec_released = []\<rparr>,
     eg_results = \<lparr>dr_tickets = make_completion (transactions * 4) 1,
       dr_slots = replicate (transactions * 4) \<lparr>re_outcome = no_outcome, re_device_done_ns = 0, re_generation = 0,
         re_busy = False, re_guard = no_guard\<rparr>, dr_trace = eo_trace (es_env su)\<rparr>,
     eg_pool = pool, eg_device = device, eg_next_ticket_operation = 1, eg_next_sequence = 1, eg_association_generation = 0,
     eg_effect_owner = None, eg_progressing = False, eg_traced = []\<rparr>"

section \<open>Completions\<close>

definition observe_fault :: "nat \<Rightarrow> 'b engine \<Rightarrow> 'b engine" where
  "observe_fault i e =
     (let g = re_guard (dr_slots (eg_results e) ! i) in
      if \<not> rg_cancelled g \<or> \<not> rg_contradiction g then e
      else let e1 = e\<lparr>eg_results := update_guard i (\<lambda>g. g\<lparr>rg_contradiction := False\<rparr>) (eg_results e)\<rparr> in
        if rg_association_generation g \<noteq> eg_association_generation e then e1
        else let k = field_index (rg_field g); s = ec_state (eg_core e);
                 s' = (if k < state_field_capacity \<and> fs_validity (ss_fields s ! k) \<noteq> Unknown
                   then s\<lparr>ss_fields := (ss_fields s)[k := (ss_fields s ! k)\<lparr>fs_validity := Unknown\<rparr>],
                          ss_version := (if ss_version s \<noteq> u64_max then ss_version s + 1 else ss_version s)\<rparr> else s)
          in e1\<lparr>eg_core := (eg_core e)\<lparr>ec_faulted := True, ec_state := s'\<rparr>\<rparr>)"

definition observe_backend_faults :: "'b engine \<Rightarrow> 'b engine" where
  "observe_backend_faults e = fold observe_fault [0..<length (dr_slots (eg_results e))] e"

primrec awaiting :: "nat \<Rightarrow> slot list \<Rightarrow> nat \<Rightarrow> nat option" where
  "awaiting operation [] i = None"
| "awaiting operation (sl # sls) i =
     (if tn_active (sl_record sl) \<and> tn_running (sl_record sl)
         \<and> pl_ticket_operations (sl_plan sl) ! tn_running_field (sl_record sl) = operation
      then Some i else awaiting operation sls (i + 1))"

definition lost_outcome :: "field_id \<Rightarrow> field_outcome" where
  "lost_outcome i = no_outcome\<lparr>fo_id := i, fo_status := Field_unknown_effect, fo_validity := Unknown,
     fo_diagnostics := \<lparr>dg_warnings = 0, dg_errors = device_failure OR state_indeterminate\<rparr>\<rparr>"

definition consume_completion :: "'b engine_setup \<Rightarrow> completion_record \<Rightarrow> 'b engine \<Rightarrow> 'b engine" where
  "consume_completion su c e =
     (case awaiting (cp_operation c) (eg_slots e) 0 of None \<Rightarrow> e
      | Some k \<Rightarrow>
          let sl = slot_at e k; i = tn_running_field (sl_record sl); index = k * 4 + i;
              r = dr_slots (eg_results e) ! index;
              known = (co_status (cp_result c) = Succeeded \<and> co_value (cp_result c) = index);
              oc = (if known then re_outcome r else lost_outcome (pf_id (ep_fields (pl_execution (sl_plan sl)) ! i)));
              traced = (if known then emit_at (eo_trace (es_env su)) Trace_device_done (pl_trace_key (sl_plan sl))
                  (re_device_done_ns r) (fo_id oc) (fo_status oc) (fo_simulated oc) else []);
              (ec, sl') = apply_outcome (es_env su) i oc (eg_core e) sl
          in put_slot k sl' (e\<lparr>eg_core := ec, eg_traced := eg_traced e @ traced\<rparr>))"

definition collect_completions :: "'b engine_setup \<Rightarrow> 'b engine \<Rightarrow> 'b engine" where
  "collect_completions su e =
     (let (t, records) = scan (dr_tickets (eg_results e))
      in fold (consume_completion su) records (e\<lparr>eg_results := (eg_results e)\<lparr>dr_tickets := t\<rparr>\<rparr>))"

definition finish_slot :: "'b engine_setup \<Rightarrow> operation_context \<Rightarrow> nat \<Rightarrow> 'b engine \<Rightarrow> 'b engine" where
  "finish_slot su now k e =
     (let (ec, sl, owner, traced) = finish (es_env su) now (trace_reading su e) k (eg_effect_owner e) (eg_core e) (slot_at e k)
      in put_slot k sl (e\<lparr>eg_core := ec, eg_effect_owner := owner, eg_traced := eg_traced e @ traced\<rparr>))"

section \<open>Drain and reset\<close>

record engine_drain_status =
  ds_active :: nat
  ds_running :: nat
  ds_responses :: nat
  ds_capability_holders :: nat
  ds_tickets_pending :: nat
  ds_backend :: backend_quiescence
  ds_uncertain :: bool

definition drain_status :: "'b engine_setup \<Rightarrow> 'b engine \<Rightarrow> engine_drain_status" where
  "drain_status su e =
     (let act = filter (\<lambda>sl. tn_active (sl_record sl)) (eg_slots e); rs = dr_slots (eg_results e) in
      \<lparr>ds_active = length act, ds_running = length (filter (\<lambda>sl. tn_running (sl_record sl)) act),
       ds_responses = sum_list (map (\<lambda>sl. length (tn_responses (sl_record sl)) - tn_response_read (sl_record sl)) act),
       ds_capability_holders = sum_list (map (\<lambda>r. rg_holders (re_guard r)) rs),
       ds_tickets_pending = length (filter (\<lambda>t. \<not> in_state t T_free \<and> \<not> in_state t T_retired) (tk_slots (dr_tickets (eg_results e)))),
       ds_backend = (case bk_quiescence (es_backend su) of None \<Rightarrow> \<lparr>bq_known = False, bq_quiescent = False, bq_pending = 0\<rparr>
         | Some f \<Rightarrow> f (eg_device e)),
       ds_uncertain = (ec_faulted (eg_core e) \<or> list_ex (\<lambda>r. rg_contradiction (re_guard r)) rs)\<rparr>)"

definition safe_to_reset :: "'b engine_setup \<Rightarrow> 'b engine \<Rightarrow> bool" where
  "safe_to_reset su e \<longleftrightarrow> (let d = drain_status su e in \<not> eg_progressing e \<and> ds_active d = 0 \<and> ds_responses d = 0
     \<and> ds_capability_holders d = 0 \<and> ds_tickets_pending d = 0 \<and> bq_known (ds_backend d) \<and> bq_quiescent (ds_backend d)
     \<and> bq_pending (ds_backend d) = 0)"

primrec confirmed_fields :: "state_snapshot \<Rightarrow> nat list \<Rightarrow> unit result" where
  "confirmed_fields s [] = Inr ()"
| "confirmed_fields s (i # is) =
     (let f = ss_fields s ! i in
      if fs_id f \<noteq> state_fields ! i \<or> fs_validity f = Unknown then Inl (err Invalid_argument)
      else and_then (if fs_validity f = Known then validate_value (fs_id f) (fs_value f) True else Inr ())
        (\<lambda>_. confirmed_fields s is))"

definition confirmed_state :: "engine_env \<Rightarrow> state_snapshot \<Rightarrow> nat \<Rightarrow> nat \<Rightarrow> unit result" where
  "confirmed_state env s generation association =
     and_then (validate_snapshot s) (\<lambda>_.
       if generation = 0 \<or> generation \<le> association then Inl (err Stale_generation)
       else and_then (confirmed_fields s [0..<active_state_fields (ss_profile s)]) (\<lambda>_.
         if eo_profile env \<noteq> Generic_virtual_test
            \<and> (\<not> known_at s 1 \<or> \<not> known_at s 3 \<or> (eo_profile env = Iq_frequency_tunable \<and> \<not> known_at s 4))
         then Inl (err Invalid_state)
         else if (eo_profile env = Iq_frequency_tunable) \<noteq> (ss_profile s = Frequency_tunable) then Inl (err Invalid_argument)
         else Inr ()))"

definition reset_state :: "'b engine_setup \<Rightarrow> 'b engine \<Rightarrow> state_snapshot \<Rightarrow> nat \<Rightarrow> 'b engine \<times> unit result" where
  "reset_state su e confirmed generation =
     (case confirmed_state (es_env su) confirmed generation (eg_association_generation e) of Inl x \<Rightarrow> (e, Inl x)
      | Inr _ \<Rightarrow>
          if \<not> safe_to_reset su e then (e, Inl (err Invalid_state))
          else (e\<lparr>eg_core := (eg_core e)\<lparr>ec_state := confirmed, ec_faulted := False, ec_quiescing := False\<rparr>,
                  eg_association_generation := generation, eg_effect_owner := None,
                  eg_results := (eg_results e)\<lparr>dr_slots := map (\<lambda>r. r\<lparr>re_guard := (re_guard r)\<lparr>rg_cancelled := False,
                    rg_contradiction := False\<rparr>\<rparr>) (dr_slots (eg_results e))\<rparr>\<rparr>, Inr ()))"

section \<open>Admission\<close>

definition immediate_stop :: "engine_env \<Rightarrow> request \<Rightarrow> bool" where
  "immediate_stop env r \<longleftrightarrow> eo_profile env = Sdr_profile \<and> rq_count r = 1 \<and> rq_fields r ! 0 = DiscreteIO32_id
     \<and> rq_values r ! 0 = SV_uint32 2"

definition lifecycle_value :: "request \<Rightarrow> u32 option" where
  "lifecycle_value r = (if rq_count r = 1 \<and> rq_fields r ! 0 = DiscreteIO32_id then get_uint32 (rq_values r ! 0) else None)"

definition accept_request :: "'b engine_setup \<Rightarrow> 'b engine \<Rightarrow> packet_view \<Rightarrow> operation_context \<Rightarrow> request result" where
  "accept_request su e packet now =
     (let env = es_env su; s = ec_state (eg_core e) in
      if validate_snapshot s \<noteq> Inr () \<or> (eo_profile env = Iq_frequency_tunable) \<noteq> (ss_profile s = Frequency_tunable)
      then Inl (err Invalid_argument)
      else if \<not> trace_valid (eo_trace env) then Inl (err Invalid_argument)
      else if ec_quiescing (eg_core e) then Inl (err Invalid_state)
      else if oc_association_generation now = 0 \<or> (es_reserve su \<noteq> None) \<noteq> eo_has_effects env then Inl (err Invalid_state)
      else if eg_association_generation e \<noteq> 0 \<and> eg_association_generation e \<noteq> oc_association_generation now
      then Inl (err Invalid_state)
      else and_then (request_from packet (eo_profile env)) (\<lambda>r.
        if (cm_action (rq_cam r) = 2 \<and> bk_begin (es_backend su) = None) \<or> (cm_action (rq_cam r) = 1 \<and> \<not> eo_has_simulate env)
        then Inl (err Unsupported_capability)
        else if ec_faulted (eg_core e) \<and> cm_action (rq_cam r) = 2 then Inl (err Invalid_state)
        else if cm_timing (rq_cam r) \<noteq> 0
            \<and> (ts_tsf (env_timestamp (rq_envelope r)) \<noteq> Tsf_picoseconds
               \<or> ts_tsi (env_timestamp (rq_envelope r)) \<noteq> epoch_tsi (cs_epoch (oc_clock now)))
        then Inl (err Unsupported_capability)
        else Inr r))"

definition pinned :: "device_results \<Rightarrow> nat \<Rightarrow> bool" where
  "pinned w k \<longleftrightarrow> list_ex (\<lambda>f. let g = re_guard (dr_slots w ! (k * 4 + f)) in rg_holders g \<noteq> 0 \<or> (rg_cancelled g \<and> rg_contradiction g))
     [0..<4]"

definition free_transaction :: "'b engine \<Rightarrow> nat option" where
  "free_transaction e = find (\<lambda>k. \<not> tn_active (sl_record (slot_at e k)) \<and> tn_generation (sl_record (slot_at e k)) \<noteq> u64_max
     \<and> \<not> pinned (eg_results e) k) [0..<length (eg_slots e)]"

definition required_credits :: "'b engine_setup \<Rightarrow> request \<Rightarrow> admission_request" where
  "required_credits su r =
     (let q1 = need (need (need (need (need empty_request Transaction 1) Plan_bytes (es_plan_bytes su)) Completion 4)
            Response 3) Ordinary_queue 1;
          q2 = (if es_external_retention su then q1 else need (need q1 Duplicate_entry 1) Duplicate_bytes 2048);
          q3 = (if cm_action (rq_cam r) = 2 then need (need q2 Revision (rq_count r)) Context_publication (rq_count r) else q2)
      in if cm_timing (rq_cam r) \<noteq> 0 \<and> cm_action (rq_cam r) = 2 then need q3 Schedule 1 else q3)"

definition give_back :: "admission_bundle \<Rightarrow> 'b engine \<Rightarrow> 'b engine" where
  "give_back credits e = e\<lparr>eg_pool := fst (bundle_reset (eg_pool e) credits)\<rparr>"

definition release_revisions :: "nat \<Rightarrow> 'b engine \<Rightarrow> 'b engine" where
  "release_revisions k e =
     (let sl = slot_at e k; (r, calls) = reservation_reset (pl_revisions (sl_plan sl))
      in put_slot k (sl\<lparr>sl_plan := (sl_plan sl)\<lparr>pl_revisions := r\<rparr>\<rparr>)
           (e\<lparr>eg_core := (eg_core e)\<lparr>ec_released := ec_released (eg_core e) @ calls\<rparr>\<rparr>))"

text \<open>Assigning a fresh plan destroys the tokens and the reservation of the old one.\<close>

definition clear_slot :: "nat \<Rightarrow> 'b engine \<Rightarrow> 'b engine" where
  "clear_slot k e =
     (let sl = slot_at e k; w = eg_results e;
          t = fold (\<lambda>tok t. fst (token_abandon t tok)) (pl_tokens (sl_plan sl)) (dr_tickets w);
          calls = snd (reservation_reset (pl_revisions (sl_plan sl)))
      in put_slot k (sl\<lparr>sl_plan := fresh_storage, sl_record := (sl_record sl)\<lparr>tn_responses := [], tn_complete := False,
             tn_revalidated := False, tn_running := False, tn_step := 0, tn_response_read := 0,
             tn_hypothetical := ec_state (eg_core e)\<rparr>\<rparr>)
           (e\<lparr>eg_results := w\<lparr>dr_tickets := t\<rparr>, eg_core := (eg_core e)\<lparr>ec_released := ec_released (eg_core e) @ calls\<rparr>\<rparr>))"

definition reserve_revisions :: "'b engine_setup \<Rightarrow> request \<Rightarrow> revision_reservation result" where
  "reserve_revisions su r = (case es_reserve su of
     Some f \<Rightarrow> if cm_action (rq_cam r) = 2 \<and> rq_count r \<noteq> 0 then f (rq_count r) else Inr null_reservation
   | None \<Rightarrow> Inr null_reservation)"

definition load_plan :: "engine_env \<Rightarrow> request \<Rightarrow> operation_context \<Rightarrow> revision_reservation \<Rightarrow> planning_storage" where
  "load_plan env r now revisions =
     (let ts = env_timestamp (rq_envelope r) in
      fresh_storage\<lparr>pl_revisions := revisions, pl_request := r,
        pl_trace_key := \<lparr>tr_association_generation = oc_association_generation now, tr_operation = oc_operation now,
          tr_peer = oc_trace_peer now, tr_sid = (case env_stream_id (rq_envelope r) of None \<Rightarrow> 0 | Some sid \<Rightarrow> sid),
          tr_mid = (case env_command (rq_envelope r) of None \<Rightarrow> 0 | Some c \<Rightarrow> cmd_message_id c)\<rparr>,
        pl_execution := fresh_plan\<lparr>ep_operation := oc_operation now, ep_association_generation := oc_association_generation now\<rparr>,
        pl_timing := oc_timing now, pl_data_running := (oc_data_running now \<and> \<not> immediate_stop env r),
        pl_time_known := clock_qualified (oc_clock now),
        pl_requested_time := Protocol_time (unat (ts_integer ts)) (unat (ts_fractional ts))\<rparr>)"

definition refuse_plan :: "u32 \<Rightarrow> planning_storage \<Rightarrow> planning_storage" where
  "refuse_plan bits pl = pl\<lparr>pl_execution := (pl_execution pl)\<lparr>ep_fields :=
     map_first (ep_count (pl_execution pl)) (refuse_field bits) (ep_fields (pl_execution pl))\<rparr>\<rparr>"

definition requested_boundary :: "planning_storage \<Rightarrow> operation_context \<Rightarrow> boundary" where
  "requested_boundary pl now = \<lparr>bd_time = pl_requested_time pl, bd_sample_ordinal = 0,
     bd_mapping_generation = cs_mapping_generation (oc_clock now), bd_committed = False, bd_backend_ready = True,
     bd_quantization_uncertainty_ps = 0\<rparr>"

definition set_boundary :: "boundary \<Rightarrow> planning_storage \<Rightarrow> planning_storage" where
  "set_boundary b pl = pl\<lparr>pl_execution := (pl_execution pl)\<lparr>ep_boundary := b\<rparr>\<rparr>"

definition schedule_plan :: "engine_env \<Rightarrow> operation_context \<Rightarrow> planning_storage \<Rightarrow> planning_storage" where
  "schedule_plan env now pl =
     (let r = pl_request pl; clock = oc_clock now; timing = cm_timing (rq_cam r); action = cm_action (rq_cam r);
          pl1 = set_boundary \<lparr>bd_time = cs_time clock, bd_sample_ordinal = 0, bd_mapping_generation = cs_mapping_generation clock,
            bd_committed = False, bd_backend_ready = True, bd_quantization_uncertainty_ps = 0\<rparr> pl;
          sdr_start = (eo_profile env = Sdr_profile \<and> \<not> oc_data_running now \<and> lifecycle_value r = Some 3);
          boundaries = (if sdr_start then [requested_boundary pl now] else oc_boundaries now);
          pl2 = (if action \<noteq> 0 \<and> (pl_data_running pl \<or> timing \<noteq> 0)
            then (case choose_boundary timing (pl_requested_time pl) clock boundaries (oc_timing now) of
                Inr b \<Rightarrow> set_boundary b pl1
              | Inl _ \<Rightarrow> refuse_plan (timing_error OR not_executed) (pl1\<lparr>pl_schedule_valid := False\<rparr>))
            else pl1);
          in_window = (case (add_time (cs_time clock) (Duration 0 20000000000), add_time (cs_time clock) (Duration 10 0)) of
              (Inr earliest, Inr latest) \<Rightarrow> \<not> (pl_requested_time pl < earliest \<or> pl_requested_time pl > latest)
            | _ \<Rightarrow> False)
      in if eo_profile env = Sdr_profile \<and> action \<noteq> 0 \<and> timing \<noteq> 0 \<and> \<not> in_window
         then refuse_plan (timing_error OR not_executed) (pl2\<lparr>pl_schedule_valid := False\<rparr>) else pl2)"

text \<open>A stop takes back the starts that are waiting.\<close>

definition disarm_start :: "slot \<Rightarrow> slot" where
  "disarm_start sl =
     (let r = pl_request (sl_plan sl); rec = sl_record sl in
      if tn_active rec \<and> \<not> tn_complete rec \<and> \<not> tn_running rec \<and> rq_count r = 1 \<and> rq_fields r ! 0 = DiscreteIO32_id
         \<and> rq_values r ! 0 = SV_uint32 3
      then sl\<lparr>sl_plan := (sl_plan sl)\<lparr>pl_cancelled := (pl_cancelled (sl_plan sl))[0 := True], pl_schedule_valid := False\<rparr>\<rparr>
      else sl)"

definition disarm_starts :: "engine_env \<Rightarrow> nat \<Rightarrow> planning_storage \<Rightarrow> slot list \<Rightarrow> slot list" where
  "disarm_starts env k pl sls =
     (if cm_action (rq_cam (pl_request pl)) = 2 \<and> immediate_stop env (pl_request pl)
         \<and> pf_eligible (ep_fields (pl_execution pl) ! 0)
      then map (\<lambda>j. if j = k then sls ! j else disarm_start (sls ! j)) [0..<length sls] else sls)"

definition drop_tokens :: "completion_token list \<Rightarrow> completion_state \<Rightarrow> completion_state" where
  "drop_tokens toks t = fold (\<lambda>tok t.
     let own = (ct_active tok \<and> is_reserved t (ct_publisher tok)); t1 = fst (token_abandon t tok)
     in if own then fst (consume t1 (fst (ct_publisher tok))) else t1) toks t"

definition guard_result :: "nat \<Rightarrow> nat \<Rightarrow> planning_storage \<Rightarrow> nat \<Rightarrow> result_slot \<Rightarrow> result_slot" where
  "guard_result generation association pl i r = r\<lparr>re_busy := True, re_generation := generation,
     re_guard := (re_guard r)\<lparr>rg_cancelled := False, rg_contradiction := False, rg_association_generation := association,
       rg_field := (if i < ep_count (pl_execution pl) then pf_id (ep_fields (pl_execution pl) ! i) else no_field)\<rparr>\<rparr>"

text \<open>One ticket per field; all are given back when one cannot be had.\<close>

primrec admit_tickets :: "nat \<Rightarrow> operation_context \<Rightarrow> nat list \<Rightarrow> 'b engine \<Rightarrow> 'b engine \<times> unit result" where
  "admit_tickets k now [] e = (e, Inr ())"
| "admit_tickets k now (i # is) e =
     (let sl = slot_at e k; pl = sl_plan sl; w = eg_results e; operation = eg_next_ticket_operation e;
          e1 = e\<lparr>eg_next_ticket_operation := wrap64 (operation + 1)\<rparr>
      in case ticket_reserve (dr_tickets w) operation of
        (t, Inl x) \<Rightarrow>
          (release_revisions k (put_slot k (sl\<lparr>sl_plan := pl\<lparr>pl_tokens := []\<rparr>\<rparr>)
             (e1\<lparr>eg_results := w\<lparr>dr_tickets := drop_tokens (pl_tokens pl) t\<rparr>\<rparr>)), Inl x)
      | (t, Inr p) \<Rightarrow>
          admit_tickets k now is (put_slot k (sl\<lparr>sl_plan := pl\<lparr>pl_tokens := pl_tokens pl @ [\<lparr>ct_publisher = p, ct_active = True\<rparr>],
               pl_ticket_operations := (pl_ticket_operations pl)[i := operation]\<rparr>\<rparr>)
             (e1\<lparr>eg_results := update_result (k * 4 + i)
                (guard_result (tn_generation (sl_record sl)) (oc_association_generation now) pl i) (w\<lparr>dr_tickets := t\<rparr>)\<rparr>)))"

definition activate :: "'b engine_setup \<Rightarrow> nat \<Rightarrow> operation_context \<Rightarrow> admission_bundle \<Rightarrow> 'b engine \<Rightarrow> 'b engine" where
  "activate su k now credits e =
     (let sl = slot_at e k;
          sl1 = sl\<lparr>sl_credits := credits, sl_record := (sl_record sl)\<lparr>tn_active := True, tn_sequence := eg_next_sequence e\<rparr>\<rparr>;
          traced = emit (eo_trace (es_env su)) (trace_reading su e) Trace_validated (pl_trace_key (sl_plan sl)) no_field Field_pending False
      in put_slot k (queue_ack (es_env su) now Ack_validation (ec_state (eg_core e)) sl1)
           (e\<lparr>eg_association_generation := oc_association_generation now, eg_pool := fst (bundle_reset (eg_pool e) (sl_credits sl)),
              eg_next_sequence := wrap64 (eg_next_sequence e + 1), eg_traced := eg_traced e @ traced\<rparr>))"

definition admit_plan :: "'b engine_setup \<Rightarrow> nat \<Rightarrow> request \<Rightarrow> operation_context \<Rightarrow> admission_bundle \<Rightarrow> 'b engine
    \<Rightarrow> 'b engine \<times> handle result" where
  "admit_plan su k r now credits e =
     (case reserve_revisions su r of Inl x \<Rightarrow> (give_back credits e, Inl x)
      | Inr revisions \<Rightarrow>
          let env = es_env su; sl = slot_at e k;
              (pl1, validated) = validate_plan env (armed (eg_slots e) k) (load_plan env r now revisions) (ec_state (eg_core e));
              e1 = put_slot k (sl\<lparr>sl_plan := pl1\<rparr>) e
          in case validated of Inl x \<Rightarrow> (give_back credits (release_revisions k e1), Inl x)
          | Inr _ \<Rightarrow>
              let pl2 = schedule_plan env now pl1;
                  e2 = (put_slot k (sl\<lparr>sl_plan := validate_boundary_state env pl2\<rparr>) e1);
                  e3 = e2\<lparr>eg_slots := disarm_starts env k pl2 (eg_slots e2)\<rparr>
              in case admit_tickets k now [0..<4] e3 of
                (e4, Inl x) \<Rightarrow> (give_back credits e4, Inl x)
              | (e4, Inr _) \<Rightarrow> (activate su k now credits e4,
                  Inr \<lparr>h_slot = k, h_generation = tn_generation (sl_record (slot_at e4 k))\<rparr>))"

definition accept :: "'b engine_setup \<Rightarrow> 'b engine \<Rightarrow> packet_view \<Rightarrow> operation_context \<Rightarrow> 'b engine \<times> handle result" where
  "accept su e0 packet now =
     (let e = observe_backend_faults e0 in
      case accept_request su e packet now of Inl x \<Rightarrow> (e, Inl x)
      | Inr r \<Rightarrow>
          let free = free_transaction e; e1 = observe_backend_faults e in
          if ec_faulted (eg_core e1) \<and> cm_action (rq_cam r) = 2 then (e1, Inl (err Invalid_state))
          else case free of None \<Rightarrow> (e1, Inl (err Capacity_exhausted))
          | Some k \<Rightarrow>
              if ss_version (ec_state (eg_core e1)) > u64_max - 4 \<or> eg_next_ticket_operation e1 > u64_max - 4
                 \<or> eg_next_sequence e1 = u64_max
              then (e1, Inl (err Overflow))
              else case pool_acquire (es_pool_id su) (eg_pool e1) (required_credits su r) of
                (pool, Inl x) \<Rightarrow> (e1\<lparr>eg_pool := pool\<rparr>, Inl x)
              | (pool, Inr credits) \<Rightarrow> admit_plan su k r now credits (clear_slot k (e1\<lparr>eg_pool := pool\<rparr>)))"

section \<open>Progress\<close>

text \<open>The owner of the effect stage: of the commands that may act now the one with the earliest boundary,
  and of those the first accepted. The accumulator is the owner so far with its boundary and sequence.\<close>

definition may_act :: "operation_context \<Rightarrow> slot \<Rightarrow> protocol_time option" where
  "may_act now sl =
     (let pl = sl_plan sl; rec = sl_record sl;
          scheduled = (cm_timing (rq_cam (pl_request pl)) \<noteq> 0 \<or> pl_data_running pl);
          boundary = (if scheduled then bd_time (ep_boundary (pl_execution pl)) else cs_time (oc_clock now))
      in if \<not> tn_active rec \<or> tn_complete rec \<or> cm_action (rq_cam (pl_request pl)) \<noteq> 2 then None
         else if scheduled \<and> pl_schedule_valid pl \<and> clock_qualified (oc_clock now) \<and> boundary > cs_time (oc_clock now) then None
         else Some boundary)"

definition prefer_owner :: "operation_context \<Rightarrow> slot list \<Rightarrow> nat \<Rightarrow> (nat \<times> protocol_time \<times> nat) option \<Rightarrow> (nat \<times> protocol_time \<times> nat) option" where
  "prefer_owner now sls i best =
     (case may_act now (sls ! i) of None \<Rightarrow> best
      | Some boundary \<Rightarrow>
          let sequence = tn_sequence (sl_record (sls ! i)) in
          case best of None \<Rightarrow> Some (i, boundary, sequence)
          | Some (j, earliest_boundary, earliest) \<Rightarrow>
              if boundary < earliest_boundary \<or> (boundary = earliest_boundary \<and> sequence < earliest)
              then Some (i, boundary, sequence) else best)"

definition choose_owner :: "operation_context \<Rightarrow> slot list \<Rightarrow> nat option" where
  "choose_owner now sls = map_option fst (fold (prefer_owner now sls) [0..<length sls] None)"

text \<open>While quiescing a command that is not running is over.\<close>

definition quiesce_outcome :: "planning_storage \<Rightarrow> nat \<Rightarrow> field_outcome \<Rightarrow> field_outcome" where
  "quiesce_outcome pl i oc = (if fo_status oc = Field_pending
     then oc\<lparr>fo_id := pf_id (ep_fields (pl_execution pl) ! i), fo_status := Field_cancelled,
            fo_diagnostics := (fo_diagnostics oc)\<lparr>dg_errors := not_executed
              OR (if cm_timing (rq_cam (pl_request pl)) \<noteq> 0 then timing_error else 0)\<rparr>\<rparr>
     else oc)"

definition quiesce_slot :: "slot \<Rightarrow> slot" where
  "quiesce_slot sl =
     (let pl = sl_plan sl; n = ep_count (pl_execution pl) in
      sl\<lparr>sl_plan := pl\<lparr>pl_outcomes := map (\<lambda>i. if i < n then quiesce_outcome pl i (pl_outcomes pl ! i) else pl_outcomes pl ! i)
            [0..<length (pl_outcomes pl)]\<rparr>,
         sl_record := (sl_record sl)\<lparr>tn_step := n\<rparr>\<rparr>)"

definition keep_refusals :: "execution_plan \<Rightarrow> planning_storage \<Rightarrow> planning_storage" where
  "keep_refusals admitted pl = pl\<lparr>pl_execution := (pl_execution pl)\<lparr>ep_fields :=
     map (\<lambda>i. let f = ep_fields (pl_execution pl) ! i in
       if i < ep_count (pl_execution pl) \<and> \<not> pf_eligible (ep_fields admitted ! i)
       then f\<lparr>pf_eligible := False, pf_diagnostics := pf_diagnostics (ep_fields admitted ! i)\<rparr> else f)
     [0..<length (ep_fields (pl_execution pl))]\<rparr>\<rparr>"

definition revalidate :: "'b engine_setup \<Rightarrow> operation_context \<Rightarrow> nat \<Rightarrow> 'b engine \<Rightarrow> slot" where
  "revalidate su now k e =
     (let env = es_env su; sl = slot_at e k; pl = sl_plan sl; admitted = pl_execution pl;
          (pl1, validation) = validate_plan env (armed (eg_slots e) k)
            (pl\<lparr>pl_data_running := (oc_data_running now \<and> \<not> immediate_stop env (pl_request pl))\<rparr>) (ec_state (eg_core e));
          pl2 = keep_refusals admitted pl1;
          pl3 = (case validation of Inl _ \<Rightarrow> refuse_plan (invalid_value OR not_executed) pl2 | Inr _ \<Rightarrow> pl2);
          pl4 = (if ec_faulted (eg_core e) \<and> cm_action (rq_cam (pl_request pl)) = 2
            then refuse_plan (state_indeterminate OR not_executed) pl3 else pl3)
      in sl\<lparr>sl_plan := pl4, sl_record := (sl_record sl)\<lparr>tn_hypothetical := ec_state (eg_core e), tn_revalidated := True\<rparr>\<rparr>)"

definition timing_qualified :: "operation_context \<Rightarrow> planning_storage \<Rightarrow> bool" where
  "timing_qualified now pl \<longleftrightarrow> (let timing = cm_timing (rq_cam (pl_request pl)) in
     (timing = 0 \<and> \<not> pl_data_running pl)
     \<or> (clock_qualified (oc_clock now) \<and> (timing = 0 \<or> tc_qualified (pl_timing pl) \<or> tc_injected (pl_timing pl))))"

definition boundary_offered :: "operation_context \<Rightarrow> boundary \<Rightarrow> bool" where
  "boundary_offered now b \<longleftrightarrow> list_ex (\<lambda>x. bd_sample_ordinal x = bd_sample_ordinal b \<and> bd_time x = bd_time b
     \<and> bd_mapping_generation x = cs_mapping_generation (oc_clock now) \<and> \<not> bd_committed x \<and> bd_backend_ready x) (oc_boundaries now)"

text \<open>The boundary to use now, or that there is none any more.\<close>

definition renew_boundary :: "engine_env \<Rightarrow> operation_context \<Rightarrow> planning_storage \<Rightarrow> planning_storage" where
  "renew_boundary env now pl =
     (let r = pl_request pl; clock = oc_clock now; qualified = timing_qualified now pl;
          sdr_start = (eo_profile env = Sdr_profile \<and> \<not> pl_data_running pl \<and> lifecycle_value r = Some 3);
          b0 = ep_boundary (pl_execution pl);
          b1 = (if sdr_start \<and> pl_schedule_valid pl \<and> qualified
            then b0\<lparr>bd_mapping_generation := cs_mapping_generation clock\<rparr> else b0);
          available = (if sdr_start
            then bd_time b1 = pl_requested_time pl \<and> bd_mapping_generation b1 = cs_mapping_generation clock
            else boundary_offered now b1);
          pl1 = set_boundary b1 (pl\<lparr>pl_schedule_valid := (pl_schedule_valid pl \<and> available)\<rparr>);
          pl2 = (if \<not> pl_schedule_valid pl1 \<or> bd_mapping_generation b1 \<noteq> cs_mapping_generation clock
            then (case choose_boundary (cm_timing (rq_cam r)) (pl_requested_time pl) clock
                  (if sdr_start then [requested_boundary pl now] else oc_boundaries now) (pl_timing pl) of
                Inr b \<Rightarrow> set_boundary b (pl1\<lparr>pl_schedule_valid := True\<rparr>)
              | Inl _ \<Rightarrow> pl1\<lparr>pl_schedule_valid := False\<rparr>)
            else pl1)
      in pl2\<lparr>pl_schedule_valid := (pl_schedule_valid pl2 \<and> qualified)\<rparr>)"

definition must_wait :: "operation_context \<Rightarrow> planning_storage \<Rightarrow> bool" where
  "must_wait now pl \<longleftrightarrow> pl_schedule_valid pl \<and> cm_action (rq_cam (pl_request pl)) = 2
     \<and> bd_time (ep_boundary (pl_execution pl)) > cs_time (oc_clock now)
     \<and> list_ex (\<lambda>i. pf_eligible (ep_fields (pl_execution pl) ! i) \<and> \<not> pl_cancelled pl ! i) [0..<ep_count (pl_execution pl)]"

definition clock_interval_fits :: "operation_context \<Rightarrow> nat \<Rightarrow> protocol_time \<Rightarrow> timing_capabilities \<Rightarrow> bool" where
  "clock_interval_fits now mode requested timing =
     (let clock = oc_clock now in
      case (subtract_time (cs_time clock) (from_picoseconds (cs_uncertainty_ps clock)),
            add_time (cs_time clock) (from_picoseconds (cs_uncertainty_ps clock))) of
        (Inr first, Inr latest) \<Rightarrow> (case effect_interval_allowed mode requested first latest timing of Inr fit \<Rightarrow> fit | Inl _ \<Rightarrow> False)
      | _ \<Rightarrow> False)"

definition settle_schedule :: "operation_context \<Rightarrow> planning_storage \<Rightarrow> planning_storage" where
  "settle_schedule now pl =
     (let timing = cm_timing (rq_cam (pl_request pl));
          pl1 = (if pl_schedule_valid pl \<and> cm_action (rq_cam (pl_request pl)) = 2 \<and> timing \<noteq> 0
                \<and> \<not> clock_interval_fits now timing (pl_requested_time pl) (pl_timing pl)
            then pl\<lparr>pl_schedule_valid := False\<rparr> else pl)
      in if pl_schedule_valid pl1 then pl1 else refuse_plan (timing_error OR not_executed) pl1)"

section \<open>Committing a whole configuration\<close>

definition batch_field :: "batch_outcome \<Rightarrow> planned_field \<Rightarrow> field_outcome" where
  "batch_field batch f =
     (let st = bo_status batch in
      no_outcome\<lparr>fo_id := pf_id f, fo_value := pf_adjusted f, fo_status := st,
        fo_validity := (if st = Field_executed then Known else if st = Field_unknown_effect then Unknown else Absent),
        fo_actual_time := bo_actual_time batch, fo_time_known := bo_time_known batch, fo_uncertainty_ps := bo_uncertainty_ps batch,
        fo_diagnostics := \<lparr>dg_warnings = 0, dg_errors = (if st = Field_executed then 0
          else device_failure OR (if st = Field_unknown_effect then state_indeterminate else 0))\<rparr>\<rparr>)"

definition coherent_batch :: "batch_outcome \<Rightarrow> batch_outcome" where
  "coherent_batch batch = (if bo_status batch \<noteq> Field_executed \<and> bo_status batch \<noteq> Field_failed
       \<and> bo_status batch \<noteq> Field_unknown_effect
     then batch\<lparr>bo_status := Field_unknown_effect\<rparr> else batch)"

text \<open>The four outcomes are applied without publication and published as one event.\<close>

definition record_batch :: "engine_env \<Rightarrow> batch_outcome \<Rightarrow> engine_core \<Rightarrow> slot \<Rightarrow> engine_core \<times> slot" where
  "record_batch env batch ec sl =
     (let quiet = env\<lparr>eo_has_effects := False\<rparr>;
          (ec1, sl1) = fold (\<lambda>i (c, x). apply_outcome quiet i (batch_field batch (ep_fields (pl_execution (sl_plan x)) ! i)) c x)
            [0..<4] (ec, sl)
      in if ss_version (ec_state ec1) = ss_version (ec_state ec) then (ec1, sl1)
         else let s = (ec_state ec1)\<lparr>ss_version := wrap64 (ss_version (ec_state ec) + 1)\<rparr>;
                  plan = pl_execution (sl_plan sl1);
                  event = \<lparr>ee_state = s, ee_actual_time = bo_actual_time batch, ee_sample_ordinal = 0,
                    ee_source_operation = ep_operation plan, ee_association_generation = ep_association_generation plan,
                    ee_changed_mask = 0x72, ee_time_known = bo_time_known batch, ee_ordinal_known = False,
                    ee_outcome = pl_outcomes (sl_plan sl1) ! 0, ee_sample_epoch = None\<rparr>
           in record_effect env event sl1 (ec1\<lparr>ec_state := s\<rparr>))"

definition batch_ready :: "planning_storage \<Rightarrow> bool" where
  "batch_ready pl \<longleftrightarrow> list_all (\<lambda>i. pf_eligible (ep_fields (pl_execution pl) ! i)) [0..<4]"

definition revalidate_batch :: "'b engine_setup \<Rightarrow> operation_context \<Rightarrow> nat \<Rightarrow> 'b engine \<Rightarrow> planning_storage \<times> bool" where
  "revalidate_batch su now k e =
     (let pl = sl_plan (slot_at e k) in
      if bk_commit (es_backend su) \<noteq> None \<and> batch_ready pl \<and> list_all (\<lambda>i. \<not> pl_cancelled pl ! i) [0..<4]
      then (case validate_plan (es_env su) (armed (eg_slots e) k) (pl\<lparr>pl_data_running := oc_data_running now\<rparr>) (ec_state (eg_core e)) of
              (pl', Inl _) \<Rightarrow> (pl', False) | (pl', Inr _) \<Rightarrow> (pl', batch_ready pl'))
      else (pl, False))"

text \<open>\<open>True\<close> when the configuration was committed and the command is finished.\<close>

definition commit_batch :: "'b engine_setup \<Rightarrow> operation_context \<Rightarrow> nat \<Rightarrow> 'b engine \<Rightarrow> 'b engine \<times> bool" where
  "commit_batch su now k e =
     (let sl = slot_at e k; (pl, ready) = revalidate_batch su now k e in
      case bk_commit (es_backend su) of
        Some f \<Rightarrow>
          if ready
          then let (device, batch) = f (eg_device e) (pl_execution pl)
                     ((ep_boundary (pl_execution pl))\<lparr>bd_time := cs_time (oc_clock now)\<rparr>);
                   (ec, sl') = record_batch (es_env su) (coherent_batch batch) (eg_core e) (sl\<lparr>sl_plan := pl\<rparr>)
            in (finish_slot su now k (put_slot k sl' (e\<lparr>eg_core := ec, eg_device := device\<rparr>)), True)
          else (put_slot k (sl\<lparr>sl_plan := pl\<lparr>pl_execution := (pl_execution pl)\<lparr>ep_fields :=
                  map_first 4 (\<lambda>f. mark_field (withdraw f)) (ep_fields (pl_execution pl))\<rparr>\<rparr>\<rparr>) e, False)
      | None \<Rightarrow> (put_slot k (sl\<lparr>sl_plan := pl\<lparr>pl_execution := (pl_execution pl)\<lparr>ep_fields :=
                  map_first 4 (\<lambda>f. mark_field (withdraw f)) (ep_fields (pl_execution pl))\<rparr>\<rparr>\<rparr>) e, False))"

section \<open>Running\<close>

definition capability_of :: "nat \<Rightarrow> nat \<Rightarrow> slot \<Rightarrow> async_result" where
  "capability_of k i sl = \<lparr>ay_publisher = ct_publisher (pl_tokens (sl_plan sl) ! i), ay_index = k * 4 + i, ay_guarded = True\<rparr>"

text \<open>A field handed to the device; a refusal is completed on its behalf.\<close>

definition begin_field :: "'b engine_setup \<Rightarrow> nat \<Rightarrow> nat \<Rightarrow> boundary \<Rightarrow> 'b engine \<Rightarrow> 'b engine" where
  "begin_field su k i b e =
     (case bk_begin (es_backend su) of None \<Rightarrow> e
      | Some f \<Rightarrow>
          let sl = slot_at e k; field = ep_fields (pl_execution (sl_plan sl)) ! i; a = capability_of k i sl;
              traced = emit (eo_trace (es_env su)) (trace_reading su e) Trace_dispatch (pl_trace_key (sl_plan sl)) (pf_id field) Field_pending False;
              e1 = e\<lparr>eg_traced := eg_traced e @ traced\<rparr>;
              (device, w, begun) = f (eg_device e) (retain_capability a (retain_capability a (eg_results e))) field b a;
              w1 = (case begun of Inr _ \<Rightarrow> w
                | Inl _ \<Rightarrow> fst (complete_capability w (trace_reading su e1) a (no_outcome\<lparr>fo_id := pf_id field, fo_status := Field_failed,
                    fo_diagnostics := \<lparr>dg_warnings = 0, dg_errors = device_failure OR not_executed\<rparr>\<rparr>)))
          in e1\<lparr>eg_device := device, eg_results := release_capability a w1\<rparr>)"

definition run_plan :: "'b engine_setup \<Rightarrow> operation_context \<Rightarrow> nat \<Rightarrow> 'b engine \<Rightarrow> 'b engine \<times> unit result option" where
  "run_plan su now k e =
     (case dispatch (es_env su) now (eg_core e) (slot_at e k) of
        None \<Rightarrow> (e, None)
      | Some (ec, sl, exit) \<Rightarrow>
          let e1 = put_slot k sl (e\<lparr>eg_core := ec\<rparr>) in
          (case exit of Dispatch_done \<Rightarrow> (finish_slot su now k e1, None)
            | Dispatch_begin i b \<Rightarrow> (begin_field su k i b e1, Some (Inr ()))
            | Dispatch_overflow \<Rightarrow> (e1, Some (Inl (err Overflow)))))"

text \<open>What is left of a slot's turn once it may act: the schedule, the boundary, and execution. The
  second component is the value \<open>progress\<close> returns at once, if it does.\<close>

definition act_on_slot :: "'b engine_setup \<Rightarrow> operation_context \<Rightarrow> nat \<Rightarrow> 'b engine \<Rightarrow> 'b engine \<times> unit result option" where
  "act_on_slot su now k e =
     (let env = es_env su;
          sl = (if tn_revalidated (sl_record (slot_at e k)) then slot_at e k else revalidate su now k e);
          pl = sl_plan sl; r = pl_request pl;
          timed = (cm_timing (rq_cam r) \<noteq> 0 \<or> pl_data_running pl);
          pl1 = (if timed then renew_boundary env now pl else pl)
      in if timed \<and> must_wait now pl1
         then (put_slot k (sl\<lparr>sl_plan := pl1\<rparr>) (e\<lparr>eg_effect_owner := None\<rparr>), None)
         else let pl2 = validate_boundary_state env (if timed then settle_schedule now pl1 else pl1);
                  e1 = put_slot k (sl\<lparr>sl_plan := pl2\<rparr>) e;
                  (e2, committed) = (if eo_profile env = Sdr_profile \<and> ep_count (pl_execution pl2) = 4 \<and> cm_action (rq_cam r) = 2
                    then commit_batch su now k e1 else (e1, False))
           in if committed then (e2, None) else run_plan su now k e2)"

definition progress_slot :: "'b engine_setup \<Rightarrow> operation_context \<Rightarrow> bool \<Rightarrow> nat \<Rightarrow> 'b engine \<Rightarrow> 'b engine \<times> unit result option" where
  "progress_slot su now running k e =
     (let sl = slot_at e k; action = cm_action (rq_cam (pl_request (sl_plan sl))) in
      if \<not> tn_active (sl_record sl) \<or> tn_complete (sl_record sl) then (e, None)
      else if ec_quiescing (eg_core e) \<and> \<not> tn_running (sl_record sl) then (finish_slot su now k (put_slot k (quiesce_slot sl) e), None)
      else if running \<and> action \<noteq> 0 then (e, None)
      else if action = 2 \<and> eg_effect_owner e \<noteq> Some k then (e, None)
      else if action = 0 then (finish_slot su now k e, None)
      else act_on_slot su now k e)"

primrec progress_slots :: "'b engine_setup \<Rightarrow> operation_context \<Rightarrow> bool \<Rightarrow> nat list \<Rightarrow> 'b engine \<Rightarrow> 'b engine \<times> unit result" where
  "progress_slots su now running [] e = (e, Inr ())"
| "progress_slots su now running (k # ks) e =
     (case progress_slot su now running k e of (e', Some r) \<Rightarrow> (e', r)
      | (e', None) \<Rightarrow> progress_slots su now running ks e')"

definition any_running :: "'b engine \<Rightarrow> bool" where
  "any_running e \<longleftrightarrow> list_ex (\<lambda>sl. tn_active (sl_record sl) \<and> tn_running (sl_record sl)) (eg_slots e)"

text \<open>The flag \<open>progressing_\<close> is cleared on return; callbacks that call back see it set.\<close>

definition progress :: "'b engine_setup \<Rightarrow> operation_context \<Rightarrow> 'b engine \<Rightarrow> 'b engine \<times> unit result" where
  "progress su now e =
     (if eg_progressing e then (e, Inl (err Would_deadlock))
      else let e1 = collect_completions su (observe_backend_faults (e\<lparr>eg_progressing := True\<rparr>));
               e2 = (if eg_effect_owner e1 = None then e1\<lparr>eg_effect_owner := choose_owner now (eg_slots e1)\<rparr> else e1);
               (e3, result) = progress_slots su now (any_running e1) [0..<length (eg_slots e2)] e2
           in (e3\<lparr>eg_progressing := False\<rparr>, result))"

section \<open>Cancellation and quiescence\<close>

definition disarm :: "'b engine_setup \<Rightarrow> async_result \<Rightarrow> 'b engine \<Rightarrow> 'b engine \<times> disarm_result" where
  "disarm su a e = (case bk_disarm (es_backend su) of None \<Rightarrow> (e, Disarm_not_cancelled)
     | Some f \<Rightarrow> let (device, w, r) = f (eg_device e) (eg_results e) a in (e\<lparr>eg_device := device, eg_results := w\<rparr>, r))"

definition complete_at :: "'b engine_setup \<Rightarrow> async_result \<Rightarrow> field_outcome \<Rightarrow> 'b engine \<Rightarrow> 'b engine \<times> bool" where
  "complete_at su a oc e = (let (w, ok) = complete_capability (eg_results e) (trace_reading su e) a oc in (e\<lparr>eg_results := w\<rparr>, ok))"

text \<open>Taking a running operation back: whether it was cancelled, and whether the device failed.\<close>

definition take_back :: "'b engine_setup \<Rightarrow> nat \<Rightarrow> nat \<Rightarrow> field_id \<Rightarrow> u32 \<Rightarrow> 'b engine \<Rightarrow> 'b engine \<times> bool \<times> bool" where
  "take_back su k i field bits e0 =
     (let a = capability_of k i (slot_at e0 k);
          e = e0\<lparr>eg_results := retain_capability a (eg_results e0)\<rparr>;
          (e1, disarmed) = disarm su a e;
          (e2, cancelled, failed) = (case disarmed of
            Disarm_cancelled \<Rightarrow>
              (let e2 = e1\<lparr>eg_results := update_guard (k * 4 + i) (\<lambda>g. g\<lparr>rg_cancelled := True\<rparr>) (eg_results e1)\<rparr>;
                   (e3, ok) = complete_at su a (no_outcome\<lparr>fo_id := field, fo_status := Field_cancelled,
                     fo_diagnostics := \<lparr>dg_warnings = 0, dg_errors = not_executed OR bits\<rparr>\<rparr>) e2
               in if ok then (e3, True, False)
                  else (e3\<lparr>eg_results := update_guard (k * 4 + i) (\<lambda>g. g\<lparr>rg_contradiction := True\<rparr>) (eg_results e3),
                           eg_core := (eg_core e3)\<lparr>ec_faulted := True\<rparr>\<rparr>, False, True))
          | Disarm_unknown_effect \<Rightarrow>
              (fst (complete_at su a (no_outcome\<lparr>fo_id := field, fo_status := Field_unknown_effect, fo_validity := Unknown,
                 fo_diagnostics := \<lparr>dg_warnings = 0, dg_errors = device_failure OR state_indeterminate OR bits\<rparr>\<rparr>) e1), False, True)
          | Disarm_not_cancelled \<Rightarrow> (e1, False, False))
      in (e2\<lparr>eg_results := release_capability a (eg_results e2)\<rparr>, cancelled, failed))"

definition mark_cancelled :: "nat \<Rightarrow> nat \<Rightarrow> 'b engine \<Rightarrow> 'b engine" where
  "mark_cancelled k i e = (let sl = slot_at e k in
     put_slot k (sl\<lparr>sl_plan := (sl_plan sl)\<lparr>pl_cancelled := (pl_cancelled (sl_plan sl))[i := True]\<rparr>\<rparr>) e)"

definition quiesce_field :: "'b engine_setup \<Rightarrow> nat \<Rightarrow> nat \<Rightarrow> 'b engine \<Rightarrow> 'b engine" where
  "quiesce_field su k i e =
     (let sl = slot_at e k; pl = sl_plan sl in
      if fo_status (pl_outcomes pl ! i) \<noteq> Field_pending then e
      else if tn_running (sl_record sl) \<and> tn_running_field (sl_record sl) = i
      then (if pl_cancelled pl ! i then e
            else fst (take_back su k i (pf_id (ep_fields (pl_execution pl) ! i))
                   (if cm_timing (rq_cam (pl_request pl)) \<noteq> 0 then timing_error else 0) (mark_cancelled k i e)))
      else mark_cancelled k i e)"

definition quiesce_fields :: "'b engine_setup \<Rightarrow> nat \<Rightarrow> 'b engine \<Rightarrow> 'b engine" where
  "quiesce_fields su k e =
     (let sl = slot_at e k in
      if \<not> tn_active (sl_record sl) \<or> tn_complete (sl_record sl) then e
      else fold (quiesce_field su k) [0..<ep_count (pl_execution (sl_plan sl))] e)"

definition request_quiesce :: "'b engine_setup \<Rightarrow> operation_context \<Rightarrow> 'b engine \<Rightarrow> 'b engine \<times> unit result" where
  "request_quiesce su now e =
     (if eg_progressing e then (e, Inl (err Would_deadlock))
      else if oc_association_generation now = 0
          \<or> (eg_association_generation e \<noteq> 0 \<and> oc_association_generation now \<noteq> eg_association_generation e)
      then (e, Inl (err Stale_generation))
      else let e1 = collect_completions su (e\<lparr>eg_core := (eg_core e)\<lparr>ec_quiescing := True\<rparr>\<rparr>)
           in progress su now (fold (quiesce_fields su) [0..<length (eg_slots e1)] e1))"

definition live_handle :: "'b engine \<Rightarrow> handle \<Rightarrow> bool" where
  "live_handle e h \<longleftrightarrow> tn_active (sl_record (slot_at e (h_slot h))) \<and> tn_generation (sl_record (slot_at e (h_slot h))) = h_generation h"

text \<open>The command named by a cancellation must be the one the handle refers to.\<close>

definition cancels_command :: "operation_context \<Rightarrow> packet_view \<Rightarrow> slot \<Rightarrow> bool" where
  "cancels_command now packet sl =
     (let e = view_envelope (pv_envelope packet); original = rq_envelope (pl_request (sl_plan sl)) in
      case (env_command e, env_command original) of
        (Some command, Some first) \<Rightarrow> cmd_message_id command = cmd_message_id first \<and> env_stream_id e = env_stream_id original
          \<and> same_identifier (cmd_controller command) (cmd_controller first)
          \<and> same_identifier (cmd_controllee command) (cmd_controllee first)
          \<and> oc_association_generation now = ep_association_generation (pl_execution (sl_plan sl))
      | _ \<Rightarrow> False)"

definition cancel_guard :: "'b engine \<Rightarrow> handle \<Rightarrow> packet_view \<Rightarrow> operation_context \<Rightarrow> bool list result" where
  "cancel_guard e h packet now =
     (let sl = slot_at e (h_slot h); env = view_envelope (pv_envelope packet); plan = pl_execution (sl_plan sl) in
      case env_command env of None \<Rightarrow> Inl (err Invalid_argument)
      | Some command \<Rightarrow>
          if validate_cam env (cmd_cam command) \<noteq> Inr () \<or> \<not> env_cancel env \<or> env_ack env
             \<or> env_command (rq_envelope (pl_request (sl_plan sl))) = None \<or> pv_opaque packet
          then Inl (err Invalid_argument)
          else if \<not> cancels_command now packet sl then Inl (err Invalid_argument)
          else and_then (select_views (pv_fields packet) (replicate state_field_capacity False)) (\<lambda>selected.
            if cm_action (rq_cam (pl_request (sl_plan sl))) \<noteq> 2
               \<or> \<not> same_class (env_class_id env) (env_class_id (rq_envelope (pl_request (sl_plan sl))))
            then Inl (err Invalid_argument)
            else if list_all (\<lambda>i. selected ! i \<longrightarrow> list_ex (\<lambda>j. pf_id (ep_fields plan ! j) = state_fields ! i) [0..<ep_count plan])
                  [0..<state_field_capacity]
            then Inr selected else Inl (err Invalid_argument)))"

text \<open>Credits given with the cancellation are used when they are enough; none at all are acquired.\<close>

definition cancel_credits :: "'b engine_setup \<Rightarrow> u32 \<Rightarrow> admission_bundle \<Rightarrow> 'b engine \<Rightarrow> 'b engine \<times> admission_bundle result" where
  "cancel_credits su raw given e =
     (let responses = (if test_bit32 raw 19 then 1 else 0) + (if test_bit32 raw 18 then 1 else 0) in
      if bundle_held given Cancellation_queue \<ge> 1 \<and> bundle_held given Cancellation_response \<ge> responses then (e, Inr given)
      else if bundle_held given Cancellation_queue \<noteq> 0 then (give_back given e, Inl (err Invalid_argument))
      else case pool_acquire (es_pool_id su) (eg_pool e) (cancellation_resources raw) of
        (pool, Inl x) \<Rightarrow> (give_back given (e\<lparr>eg_pool := pool\<rparr>), Inl x)
      | (pool, Inr credits) \<Rightarrow> (give_back given (e\<lparr>eg_pool := pool\<rparr>), Inr credits))"

definition cancel_timing_ok :: "operation_context \<Rightarrow> packet_view \<Rightarrow> nat \<Rightarrow> bool" where
  "cancel_timing_ok now packet mode \<longleftrightarrow> mode = 0 \<or>
     (let ts = env_timestamp (view_envelope (pv_envelope packet)) in
      ts_tsi ts = epoch_tsi (cs_epoch (oc_clock now)) \<and> ts_tsf ts = Tsf_picoseconds
      \<and> clock_interval_fits now mode (Protocol_time (unat (ts_integer ts)) (unat (ts_fractional ts))) (oc_timing now)
      \<and> clock_qualified (oc_clock now))"

text \<open>Cancelling one selected state field; the last plan field of that id is meant.\<close>

definition cancel_field :: "'b engine_setup \<Rightarrow> nat \<Rightarrow> bool list \<Rightarrow> nat \<Rightarrow> 'b engine \<times> bool list \<times> diagnostics list
    \<Rightarrow> 'b engine \<times> bool list \<times> diagnostics list" where
  "cancel_field su k selected index acc =
     (case acc of (e, cancelled, ds) \<Rightarrow>
      if \<not> selected ! index then acc
      else let sl = slot_at e k; plan = pl_execution (sl_plan sl);
               i = fold (\<lambda>j f. if pf_id (ep_fields plan ! j) = state_fields ! index then j else f) [0..<ep_count plan] (ep_count plan);
               (e', done_it, failed) = (if i < ep_count plan \<and> \<not> tn_complete (sl_record sl)
                   \<and> fo_status (pl_outcomes (sl_plan sl) ! i) = Field_pending
                 then (if tn_running (sl_record sl) \<and> tn_running_field (sl_record sl) = i
                       then take_back su k i (state_fields ! index) 0 e
                       else (mark_cancelled k i e, True, False))
                 else (e, False, False));
               d = ds ! index; d1 = (if failed then add_errors device_failure d else d)
           in if done_it then (e', cancelled[index := True], ds[index := d1])
              else (e', cancelled, ds[index := add_errors not_executed d1]))"

definition cancel :: "'b engine_setup \<Rightarrow> 'b engine \<Rightarrow> handle \<Rightarrow> packet_view \<Rightarrow> operation_context \<Rightarrow> admission_bundle
    \<Rightarrow> 'b engine \<times> cancellation_result result" where
  "cancel su e h packet now reserved =
     (if eg_progressing e then (give_back reserved e, Inl (err Would_deadlock))
      else if h_slot h \<ge> length (eg_slots e) then (give_back reserved e, Inl (err Invalid_argument))
      else if \<not> live_handle e h then (give_back reserved e, Inl (err Stale_generation))
      else case cancel_guard e h packet now of Inl x \<Rightarrow> (give_back reserved e, Inl x)
      | Inr selected \<Rightarrow>
          let raw = (case env_command (view_envelope (pv_envelope packet)) of Some c \<Rightarrow> cmd_cam c | None \<Rightarrow> 0);
              mode = unat (cam_timing raw); none = replicate state_field_capacity False;
              clean = replicate state_field_capacity no_diagnostics
          in case cancel_credits su raw reserved e of (e1, Inl x) \<Rightarrow> (e1, Inl x)
          | (e1, Inr credits) \<Rightarrow>
              if \<not> cancel_timing_ok now packet mode
              then (e1, Inr (cancellation_response packet raw (ec_state (eg_core e1)) (oc_clock now) selected none
                     (map (\<lambda>b. if b then \<lparr>dg_warnings = 0, dg_errors = not_executed\<rparr> else no_diagnostics) selected) credits 7))
              else let e2 = collect_completions su e1;
                       (e3, cancelled, ds) = fold (cancel_field su (h_slot h) selected) [0..<state_field_capacity] (e2, none, clean);
                       e4 = collect_completions su e3
                in (e4, Inr (cancellation_response packet raw (ec_state (eg_core e4)) (oc_clock now) selected cancelled ds credits mode)))"

section \<open>Responses and release\<close>

definition take_response :: "'b engine \<Rightarrow> handle \<Rightarrow> 'b engine \<times> ack_record option result" where
  "take_response e h =
     (if h_slot h \<ge> length (eg_slots e) then (e, Inl (err Invalid_argument))
      else if \<not> live_handle e h then (e, Inl (err Stale_generation))
      else let sl = slot_at e (h_slot h); rec = sl_record sl in
        if tn_response_read rec = length (tn_responses rec) then (e, Inr None)
        else (put_slot (h_slot h) (sl\<lparr>sl_record := rec\<lparr>tn_response_read := tn_response_read rec + 1\<rparr>\<rparr>) e,
              Inr (Some (tn_responses rec ! tn_response_read rec))))"

definition completed :: "'b engine \<Rightarrow> handle \<Rightarrow> bool result" where
  "completed e h = (if h_slot h \<ge> length (eg_slots e) \<or> \<not> live_handle e h then Inl (err Stale_generation)
     else Inr (tn_complete (sl_record (slot_at e (h_slot h)))))"

definition command_outcomes :: "'b engine \<Rightarrow> handle \<Rightarrow> field_outcome list result" where
  "command_outcomes e h = (if h_slot h \<ge> length (eg_slots e) \<or> \<not> live_handle e h then Inl (err Stale_generation)
     else Inr (take 4 (pl_outcomes (sl_plan (slot_at e (h_slot h))))))"

definition release :: "'b engine \<Rightarrow> handle \<Rightarrow> 'b engine \<times> unit result" where
  "release e h =
     (if h_slot h \<ge> length (eg_slots e) then (e, Inl (err Invalid_argument))
      else let k = h_slot h; sl = slot_at e k; rec = sl_record sl; w = eg_results e in
        if \<not> live_handle e h \<or> \<not> tn_complete rec \<or> tn_response_read rec \<noteq> length (tn_responses rec)
        then (e, Inl (err Invalid_state))
        else let (pool, credits) = bundle_reset (eg_pool e) (sl_credits sl) in
          (put_slot k (sl\<lparr>sl_plan := (sl_plan sl)\<lparr>pl_tokens := []\<rparr>, sl_credits := credits,
             sl_record := rec\<lparr>tn_active := False, tn_generation := wrap64 (tn_generation rec + 1)\<rparr>\<rparr>)
           (e\<lparr>eg_pool := pool, eg_results := fold (\<lambda>i. update_result (k * 4 + i) (\<lambda>r. r\<lparr>re_busy := False\<rparr>)) [0..<4]
               (w\<lparr>dr_tickets := drop_tokens (pl_tokens (sl_plan sl)) (dr_tickets w)\<rparr>)\<rparr>), Inr ()))"

definition pending_times :: "'b engine \<Rightarrow> (protocol_time \<times> nat) list" where
  "pending_times e = map (\<lambda>sl. (pl_requested_time (sl_plan sl), cm_timing (rq_cam (pl_request (sl_plan sl)))))
     (filter (\<lambda>sl. tn_active (sl_record sl) \<and> \<not> tn_complete (sl_record sl) \<and> cm_action (rq_cam (pl_request (sl_plan sl))) = 2) (eg_slots e))"

definition effect_pending :: "slot \<Rightarrow> bool" where
  "effect_pending sl \<longleftrightarrow> tn_active (sl_record sl) \<and> \<not> tn_complete (sl_record sl) \<and> cm_action (rq_cam (pl_request (sl_plan sl))) = 2
     \<and> list_ex (\<lambda>i. pf_eligible (ep_fields (pl_execution (sl_plan sl)) ! i) \<and> fo_status (pl_outcomes (sl_plan sl) ! i) = Field_pending)
         [0..<ep_count (pl_execution (sl_plan sl))]"

primrec first_effect :: "slot list \<Rightarrow> boundary option \<Rightarrow> (boundary \<times> bool) option" where
  "first_effect [] best = map_option (\<lambda>b. (b, True)) best"
| "first_effect (sl # sls) best =
     (let b = ep_boundary (pl_execution (sl_plan sl)) in
      if \<not> effect_pending sl then first_effect sls best
      else if \<not> pl_data_running (sl_plan sl) then Some (b, False)
      else first_effect sls (case best of None \<Rightarrow> Some b
        | Some first \<Rightarrow> if bd_sample_ordinal b < bd_sample_ordinal first then Some b else Some first))"

definition pending_effect_boundary :: "'b engine \<Rightarrow> (boundary \<times> bool) option" where
  "pending_effect_boundary e = first_effect (eg_slots e) None"

section \<open>Whose turn it is\<close>

text \<open>The best candidate among the slots \<open>is\<close>.\<close>

definition earliest_of :: "operation_context \<Rightarrow> slot list \<Rightarrow> nat set \<Rightarrow> (nat \<times> protocol_time \<times> nat) option \<Rightarrow> bool" where
  "earliest_of now sls is best \<longleftrightarrow> (case best of None \<Rightarrow> \<forall>i \<in> is. may_act now (sls ! i) = None
     | Some (k, b, n) \<Rightarrow> k \<in> is \<and> may_act now (sls ! k) = Some b \<and> tn_sequence (sl_record (sls ! k)) = n
         \<and> (\<forall>i \<in> is. \<forall>b'. may_act now (sls ! i) = Some b' \<longrightarrow> b < b' \<or> (b = b' \<and> n \<le> tn_sequence (sl_record (sls ! i)))))"

lemma prefer_owner_earliest:
  assumes "earliest_of now sls is best"
  shows "earliest_of now sls (insert i is) (prefer_owner now sls i best)"
proof (cases "may_act now (sls ! i)")
  case None
  then show ?thesis using assms by (cases best) (auto simp: earliest_of_def prefer_owner_def)
next
  case (Some b)
  show ?thesis
  proof (cases best)
    case None
    then show ?thesis using assms Some by (simp add: earliest_of_def prefer_owner_def Let_def)
  next
    case (Some x)
    obtain k c n where x: "x = (k, c, n)" by (metis prod.exhaust)
    note best = assms [unfolded earliest_of_def Some x option.case prod.case]
    have others: "c < b' \<or> (c = b' \<and> n \<le> tn_sequence (sl_record (sls ! j)))" if "j \<in> is" "may_act now (sls ! j) = Some b'" for j b'
      using best that by blast
    show ?thesis
    proof (cases "b < c \<or> (b = c \<and> tn_sequence (sl_record (sls ! i)) < n)")
      case True
      have "b < b' \<or> (b = b' \<and> tn_sequence (sl_record (sls ! i)) \<le> tn_sequence (sl_record (sls ! j)))"
        if "j \<in> is" "may_act now (sls ! j) = Some b'" for j b'
        using others [OF that] True by auto
      then show ?thesis using True Some x \<open>may_act now (sls ! i) = Some b\<close>
        by (simp add: earliest_of_def prefer_owner_def Let_def)
    next
      case False
      then have "c < b \<or> (c = b \<and> n \<le> tn_sequence (sl_record (sls ! i)))" by auto
      moreover have "prefer_owner now sls i best = best"
        using False Some x \<open>may_act now (sls ! i) = Some b\<close> by (auto simp: prefer_owner_def Let_def)
      ultimately show ?thesis using Some x \<open>may_act now (sls ! i) = Some b\<close> best others by (simp add: earliest_of_def)
    qed
  qed
qed

lemma choose_owner_fold: "earliest_of now sls (set is) (fold (prefer_owner now sls) is None)"
proof (induction "is" rule: rev_induct)
  case (snoc i "is")
  then show ?case using prefer_owner_earliest [OF snoc, of i] by simp
qed (simp add: earliest_of_def)

text \<open>The effect stage goes to the command whose boundary is earliest among those that may act now, and
  among equals to the one accepted first; it stays free only if no command may act.\<close>

theorem choose_owner_earliest:
  "case choose_owner now sls of
     None \<Rightarrow> \<forall>k < length sls. may_act now (sls ! k) = None
   | Some k \<Rightarrow> k < length sls \<and> (\<exists>b. may_act now (sls ! k) = Some b
       \<and> (\<forall>j < length sls. \<forall>b'. may_act now (sls ! j) = Some b'
            \<longrightarrow> b < b' \<or> (b = b' \<and> tn_sequence (sl_record (sls ! k)) \<le> tn_sequence (sl_record (sls ! j)))))"
  using choose_owner_fold [of now sls "[0..<length sls]"]
  by (auto simp: choose_owner_def earliest_of_def split: option.splits)

definition sample_execution :: "nat \<Rightarrow> slot" where
  "sample_execution n = sample_sim_slot\<lparr>sl_plan := (sl_plan sample_sim_slot)\<lparr>pl_request := no_request\<lparr>rq_cam := empty_cam\<lparr>cm_action := 2\<rparr>\<rparr>\<rparr>,
     sl_record := (sl_record sample_sim_slot)\<lparr>tn_sequence := n\<rparr>\<rparr>"

theorem choose_owner_earliest_witness:
  "\<forall>now. choose_owner now [sample_execution 2, sample_execution 1] = Some 1"
proof
  fix now
  let ?sls = "[sample_execution 2, sample_execution 1]"
  have m: "may_act now (sample_execution n) = Some (cs_time (oc_clock now))" "tn_sequence (sl_record (sample_execution n)) = n" for n
    by (simp_all add: may_act_def Let_def sample_execution_def sample_sim_slot_def fresh_storage_def empty_cam_def)
  have two: "(\<forall>k < length ?sls. P k) \<longleftrightarrow> P 0 \<and> P 1" "k < length ?sls \<longleftrightarrow> k = 0 \<or> k = 1" for P k
    by (auto simp: less_2_cases_iff less_Suc_eq)
  show "choose_owner now ?sls = Some 1"
    using choose_owner_earliest [where now = now and sls = ?sls] unfolding two by (auto simp: m split: option.split_asm)
qed

end
