(* ===== verification/Slot_Lives.thy ===== *)
theory Slot_Lives
  imports Engine
begin

text \<open>
  The life cycle of a command's slot: its flags, generation and action, what the steps on one slot
  (acknowledging, finishing, applying an outcome, walking a plan) do to them, and the transition system
  all slots together follow. The lemmas show its invariant (at most the owner of the effect stage runs)
  and that generations only grow. Nothing is assumed of the device.
\<close>

section \<open>The request behind a command\<close>

lemma note_view_keeps_header:
  "note_view profile i v r = Inr r' \<Longrightarrow> rq_envelope r' = rq_envelope r \<and> rq_cam r' = rq_cam r"
  by (auto simp: note_view_def Let_def and_then_eq_Inr split: if_split_asm)

lemma add_views_keep_header:
  "add_views profile vs r = Inr r' \<Longrightarrow> rq_envelope r' = rq_envelope r \<and> rq_cam r' = rq_cam r"
proof (induction vs arbitrary: r)
  case (Cons v vs)
  then obtain r1 where "add_view profile v r = Inr r1" "add_views profile vs r1 = Inr r'"
    by (auto simp: and_then_eq_Inr)
  moreover from this(1) have "rq_envelope r1 = rq_envelope r \<and> rq_cam r1 = rq_cam r"
    by (auto simp: add_view_def Let_def split: if_split_asm dest!: note_view_keeps_header)
  ultimately show ?case using Cons.IH by simp
qed simp

lemma request_from_header:
  assumes "request_from packet profile = Inr r"
  shows "rq_envelope r = view_envelope (pv_envelope packet)"
    "\<exists>command. env_command (rq_envelope r) = Some command \<and> env_type (rq_envelope r) = Command_packet
       \<and> \<not> env_ack (rq_envelope r) \<and> \<not> env_cancel (rq_envelope r)
       \<and> validate_cam (rq_envelope r) (cmd_cam command) = Inr () \<and> rq_cam r = cam_of_raw (cmd_cam command)"
proof -
  obtain c r1 where c: "parse_cam (view_envelope (pv_envelope packet)) profile = Inr c"
    and r1: "add_views profile (pv_fields packet) (no_request\<lparr>rq_envelope := view_envelope (pv_envelope packet), rq_cam := c\<rparr>) = Inr r1"
    and r: "r = check_capability_query r1"
    using assms by (auto simp: request_from_def and_then_eq_Inr split: if_split_asm)
  have r': "rq_envelope r = view_envelope (pv_envelope packet)" "rq_cam r = c"
    using add_views_keep_header [OF r1] by (simp_all add: r check_capability_query_def)
  then show "rq_envelope r = view_envelope (pv_envelope packet)" by simp
  show "\<exists>command. env_command (rq_envelope r) = Some command \<and> env_type (rq_envelope r) = Command_packet
       \<and> \<not> env_ack (rq_envelope r) \<and> \<not> env_cancel (rq_envelope r)
       \<and> validate_cam (rq_envelope r) (cmd_cam command) = Inr () \<and> rq_cam r = cam_of_raw (cmd_cam command)"
    using c unfolding r' parse_cam_def by (auto simp: and_then_eq_Inr Let_def split: option.split_asm if_split_asm)
qed

lemma request_from_action: "request_from packet profile = Inr r \<Longrightarrow> cm_action (rq_cam r) \<le> 2"
proof -
  assume "request_from packet profile = Inr r"
  from request_from_header(2) [OF this] obtain command :: command where
    *: "validate_cam (rq_envelope r) (cmd_cam command) = Inr ()" "rq_cam r = cam_of_raw (cmd_cam command)" by blast
  have "cam_action (cmd_cam command) \<noteq> 3"
    using *(1) unfolding validate_cam_def Let_def by (auto split: if_split_asm)
  moreover have "cam_action (cmd_cam command) \<le> 3" unfolding cam_action_def by (rule word_and_le1)
  ultimately have "cam_action (cmd_cam command) < 3" by simp
  then have "unat (cam_action (cmd_cam command)) < 3" by (simp add: word_less_nat_alt)
  then show ?thesis by (simp add: *(2) cam_of_raw_def)
qed

section \<open>Life of a slot\<close>

record life =
  lf_active :: bool
  lf_complete :: bool
  lf_running :: bool
  lf_generation :: nat
  lf_action :: nat

definition life_of :: "slot \<Rightarrow> life" where
  "life_of sl = \<lparr>lf_active = tn_active (sl_record sl), lf_complete = tn_complete (sl_record sl),
     lf_running = tn_running (sl_record sl), lf_generation = tn_generation (sl_record sl),
     lf_action = cm_action (rq_cam (pl_request (sl_plan sl)))\<rparr>"

lemma life_sel [simp]:
  "lf_active (life_of sl) = tn_active (sl_record sl)" "lf_complete (life_of sl) = tn_complete (sl_record sl)"
  "lf_running (life_of sl) = tn_running (sl_record sl)" "lf_generation (life_of sl) = tn_generation (sl_record sl)"
  "lf_action (life_of sl) = cm_action (rq_cam (pl_request (sl_plan sl)))"
  by (simp_all add: life_of_def)

text \<open>Two slots with the same record flags and the same request live alike.\<close>

lemma life_cong:
  "tn_active r = tn_active (sl_record sl) \<Longrightarrow> tn_complete r = tn_complete (sl_record sl) \<Longrightarrow> tn_running r = tn_running (sl_record sl)
   \<Longrightarrow> tn_generation r = tn_generation (sl_record sl) \<Longrightarrow> pl_request pl = pl_request (sl_plan sl)
   \<Longrightarrow> life_of (sl\<lparr>sl_plan := pl, sl_record := r\<rparr>) = life_of sl"
  by (simp add: life_of_def)

lemma validate_plan_request [simp]: "pl_request (fst (validate_plan env arm pl s)) = pl_request pl"
proof -
  have "pl_request (fst (if b then (pl\<lparr>pl_execution := x\<rparr>, i) else (pl\<lparr>pl_execution := y\<rparr>, j))) = pl_request pl" for b x y i j
    by simp
  then show ?thesis unfolding validate_plan_def Let_def case_prod_beta by simp
qed

lemma validate_boundary_request [simp]: "pl_request (validate_boundary_state env pl) = pl_request pl"
proof (cases "eo_timeline env")
  case (Some line)
  have "pl_request (if b then pl else pl\<lparr>pl_execution := x\<rparr>) = pl_request pl" for b x by simp
  then show ?thesis unfolding validate_boundary_state_def Let_def case_prod_beta by (simp add: Some)
qed (simp add: validate_boundary_state_def)

lemma plan_steps_request [simp]:
  "pl_request (refuse_plan bits pl) = pl_request pl" "pl_request (set_boundary b pl) = pl_request pl"
  "pl_request (keep_refusals plan pl) = pl_request pl" "pl_request (load_plan env r now reservation) = r"
  by (simp_all add: refuse_plan_def set_boundary_def keep_refusals_def load_plan_def Let_def)

lemma schedule_plan_request [simp]: "pl_request (schedule_plan env now pl) = pl_request pl"
  unfolding schedule_plan_def Let_def by (simp split: sum.split)

lemma renew_boundary_request [simp]: "pl_request (renew_boundary env now pl) = pl_request pl"
  unfolding renew_boundary_def Let_def by (simp split: sum.split)

lemma settle_schedule_request [simp]: "pl_request (settle_schedule now pl) = pl_request pl"
  unfolding settle_schedule_def Let_def by simp

lemma life_queue_ack [simp]: "life_of (queue_ack env now kind s sl) = life_of sl"
  by (simp add: queue_ack_def Let_def life_of_def)

lemma life_completed:
  "life_of (x\<lparr>sl_record := (sl_record x)\<lparr>tn_complete := True\<rparr>, sl_plan := (sl_plan x)\<lparr>pl_revisions := r\<rparr>\<rparr>) = (life_of x)\<lparr>lf_complete := True\<rparr>"
  by (simp add: life_of_def)

lemma life_finish:
  "life_of (fst (snd (finish env now reading k owner ec sl))) = (life_of sl)\<lparr>lf_complete := True\<rparr>"
  unfolding finish_def Let_def case_prod_beta fst_conv snd_conv life_completed life_queue_ack ..

lemma finish_owner: "fst (snd (snd (finish env now reading k owner ec sl))) = (if owner = Some k then None else owner)"
  by (simp add: finish_def Let_def split_def)

lemma store_effect_life:
  "life_of ((snd (store_effect env f oc ec sl))\<lparr>sl_plan := pl, sl_record := (sl_record (snd (store_effect env f oc ec sl)))\<lparr>tn_running := b, tn_step := n\<rparr>\<rparr>)
     = (life_of sl)\<lparr>lf_running := b, lf_action := cm_action (rq_cam (pl_request pl))\<rparr>"
  by (auto simp: store_effect_def life_of_def record_effect_def split: option.split prod.split sum.split)

lemma life_apply_outcome: "life_of (snd (apply_outcome env i oc ec sl)) = (life_of sl)\<lparr>lf_running := False\<rparr>"
proof -
  have "life_of sl\<lparr>lf_running := False, lf_action := cm_action (rq_cam (pl_request (sl_plan sl)))\<rparr> = (life_of sl)\<lparr>lf_running := False\<rparr>"
    by (simp add: life_of_def)
  then show ?thesis by (simp add: apply_outcome_def Let_def split_def store_effect_life)
qed

lemma ec_apply_outcome: "ec_quiescing (fst (apply_outcome env i oc ec sl)) = ec_quiescing ec"
  by (auto simp: apply_outcome_def Let_def split_def store_effect_def record_effect_def split: option.split prod.split sum.split)

lemma record_effect_quiescing: "ec_quiescing (fst (record_effect env ev sl ec)) = ec_quiescing ec"
  by (simp add: record_effect_def split: prod.split sum.split)

lemma ec_finish: "ec_quiescing (fst (finish env now reading k owner ec sl)) = ec_quiescing ec"
  by (simp add: finish_def Let_def split_def)

text \<open>The loop over a plan runs a field exactly when it hands one to the device.\<close>

lemma life_dispatch_step:
  assumes "\<not> tn_running (sl_record sl)"
  shows "dispatch_step env now ec sl = Inl p \<Longrightarrow> life_of (snd p) = life_of sl \<and> ec_quiescing (fst p) = ec_quiescing ec"
    "dispatch_step env now ec sl = Inr (ec', sl', exit) \<Longrightarrow>
       life_of sl' = (life_of sl)\<lparr>lf_running := (\<exists>i b. exit = Dispatch_begin i b)\<rparr> \<and> lf_action (life_of sl) \<noteq> 1
       \<and> ec_quiescing ec' = ec_quiescing ec"
proof -
  have skip: "life_of (skip_field i g x) = life_of x" "life_of (update_field i h x) = life_of x" for i g h x
    by (simp_all add: skip_field_def update_field_def life_of_def)
  have run: "life_of (x\<lparr>sl_record := (sl_record x)\<lparr>tn_running := True, tn_running_field := i\<rparr>\<rparr>) = (life_of x)\<lparr>lf_running := True\<rparr>" for x i
    by (simp add: life_of_def)
  have idle: "life_of x\<lparr>lf_running := False\<rparr> = life_of x" if "life_of x = life_of sl" for x
    using assms that by (simp add: life_of_def)
  show "dispatch_step env now ec sl = Inl p \<Longrightarrow> life_of (snd p) = life_of sl \<and> ec_quiescing (fst p) = ec_quiescing ec"
    unfolding dispatch_step_def Let_def
    by (auto simp: skip life_apply_outcome idle ec_apply_outcome split: if_split_asm)
  show "dispatch_step env now ec sl = Inr (ec', sl', exit) \<Longrightarrow>
       life_of sl' = (life_of sl)\<lparr>lf_running := (\<exists>i b. exit = Dispatch_begin i b)\<rparr> \<and> lf_action (life_of sl) \<noteq> 1
       \<and> ec_quiescing ec' = ec_quiescing ec"
    unfolding dispatch_step_def Let_def
    by (auto simp: skip run idle split: if_split_asm)
qed

lemma life_dispatch:
  assumes "dispatch env now ec sl = Some (ec', sl', exit)" "\<not> tn_running (sl_record sl)"
  shows "life_of sl' = (life_of sl)\<lparr>lf_running := (\<exists>i b. exit = Dispatch_begin i b)\<rparr> \<and> ec_quiescing ec' = ec_quiescing ec
    \<and> ((\<exists>i b. exit = Dispatch_begin i b) \<longrightarrow> lf_action (life_of sl) \<noteq> 1)"
proof -
  have "case r of (ec', sl', exit) \<Rightarrow> \<not> tn_running (sl_record sl) \<longrightarrow>
      life_of sl' = (life_of sl)\<lparr>lf_running := (\<exists>i b. exit = Dispatch_begin i b)\<rparr> \<and> ec_quiescing ec' = ec_quiescing ec
      \<and> ((\<exists>i b. exit = Dispatch_begin i b) \<longrightarrow> lf_action (life_of sl) \<noteq> 1)"
    if "dispatch env now ec sl = Some r" for r
  proof (rule dispatch.raw_induct [OF _ that])
    fix dsp and env :: engine_env and now ec sl y
    assume IH: "\<And>env now ec sl y. dsp env now ec sl = Some y \<Longrightarrow> case y of (ec', sl', exit) \<Rightarrow> \<not> tn_running (sl_record sl) \<longrightarrow>
        life_of sl' = (life_of sl)\<lparr>lf_running := (\<exists>i b. exit = Dispatch_begin i b)\<rparr> \<and> ec_quiescing ec' = ec_quiescing ec
        \<and> ((\<exists>i b. exit = Dispatch_begin i b) \<longrightarrow> lf_action (life_of sl) \<noteq> 1)"
      and step: "(if tn_step (sl_record sl) \<ge> ep_count (pl_execution (sl_plan sl)) then Some (ec, sl, Dispatch_done)
        else case dispatch_step env now ec sl of Inl next \<Rightarrow> dsp env now (fst next) (snd next) | Inr exit \<Rightarrow> Some exit) = Some y"
    obtain ec' sl' exit where y: "y = (ec', sl', exit)" by (metis prod.exhaust)
    show "case y of (ec', sl', exit) \<Rightarrow> \<not> tn_running (sl_record sl) \<longrightarrow>
        life_of sl' = (life_of sl)\<lparr>lf_running := (\<exists>i b. exit = Dispatch_begin i b)\<rparr> \<and> ec_quiescing ec' = ec_quiescing ec
        \<and> ((\<exists>i b. exit = Dispatch_begin i b) \<longrightarrow> lf_action (life_of sl) \<noteq> 1)"
      unfolding y prod.case
    proof
      assume idle: "\<not> tn_running (sl_record sl)"
      show "life_of sl' = (life_of sl)\<lparr>lf_running := (\<exists>i b. exit = Dispatch_begin i b)\<rparr> \<and> ec_quiescing ec' = ec_quiescing ec
        \<and> ((\<exists>i b. exit = Dispatch_begin i b) \<longrightarrow> lf_action (life_of sl) \<noteq> 1)"
      proof (cases "tn_step (sl_record sl) \<ge> ep_count (pl_execution (sl_plan sl))")
        case True
        then show ?thesis using step idle by (auto simp: y life_of_def)
      next
        case False
        show ?thesis
        proof (cases "dispatch_step env now ec sl")
          case (Inl p)
          note s = life_dispatch_step(1) [OF idle Inl]
          have "dsp env now (fst p) (snd p) = Some y" using step False Inl by simp
          from IH [OF this] show ?thesis using s idle by (simp add: y life_of_def)
        next
          case (Inr x)
          then have "dispatch_step env now ec sl = Inr (ec', sl', exit)" using step False by (simp add: y)
          from life_dispatch_step(2) [OF idle this] show ?thesis by blast
        qed
      qed
    qed
  qed
  then show ?thesis using assms by fastforce
qed

section \<open>Life cycle of all slots\<close>

text \<open>The slots' lives with the owner of the effect stage, and the steps they can take. Only \<open>start\<close> lets a
  command act on the device.\<close>

record lives =
  lv_slots :: "life list"
  lv_owner :: "nat option"
  lv_quiescing :: bool

definition none_running :: "lives \<Rightarrow> bool" where
  "none_running v \<longleftrightarrow> (\<forall>l \<in> set (lv_slots v). \<not> lf_running l)"

definition set_life :: "nat \<Rightarrow> life \<Rightarrow> lives \<Rightarrow> lives" where
  "set_life k l v = v\<lparr>lv_slots := (lv_slots v)[k := l]\<rparr>"

definition life_at :: "lives \<Rightarrow> nat \<Rightarrow> life" where
  "life_at v k = lv_slots v ! k"

definition no_slots :: "lives \<Rightarrow> nat" where
  "no_slots v = length (lv_slots v)"

inductive turn_step :: "lives \<Rightarrow> lives \<Rightarrow> bool" where
  clear: "k < no_slots v \<Longrightarrow> \<not> lf_active (life_at v k) \<Longrightarrow> \<not> lf_active l \<Longrightarrow> \<not> lf_running l
     \<Longrightarrow> lf_generation l = lf_generation (life_at v k) \<Longrightarrow> turn_step v (set_life k l v)"
| elect: "lv_owner v = None \<Longrightarrow> turn_step v (v\<lparr>lv_owner := owner\<rparr>)"
| yield: "none_running v \<Longrightarrow> turn_step v (v\<lparr>lv_owner := None\<rparr>)"
| start: "none_running v \<Longrightarrow> lv_owner v = Some k \<Longrightarrow> k < no_slots v \<Longrightarrow> lf_active (life_at v k) \<Longrightarrow> \<not> lf_complete (life_at v k)
     \<Longrightarrow> lf_action (life_at v k) = 2 \<Longrightarrow> turn_step v (set_life k ((life_at v k)\<lparr>lf_running := True\<rparr>) v)"
| settle: "k < no_slots v \<Longrightarrow> turn_step v (set_life k ((life_at v k)\<lparr>lf_running := False\<rparr>) v)"
| finish: "k < no_slots v \<Longrightarrow> lf_active (life_at v k) \<Longrightarrow> \<not> lf_running (life_at v k)
     \<Longrightarrow> turn_step v ((set_life k ((life_at v k)\<lparr>lf_complete := True\<rparr>) v)\<lparr>lv_owner := (if lv_owner v = Some k then None else lv_owner v)\<rparr>)"
| quiesce: "turn_step v (v\<lparr>lv_quiescing := True\<rparr>)"
| reopen: "(\<forall>l \<in> set (lv_slots v). \<not> lf_active l) \<Longrightarrow> turn_step v (v\<lparr>lv_quiescing := False\<rparr>)"

text \<open>A command enters its slot and leaves it.\<close>

inductive life_step :: "lives \<Rightarrow> lives \<Rightarrow> bool" where
  turn: "turn_step v v' \<Longrightarrow> life_step v v'"
| admit: "k < no_slots v \<Longrightarrow> \<not> lf_active (life_at v k) \<Longrightarrow> \<not> lv_quiescing v \<Longrightarrow> lf_generation (life_at v k) \<noteq> u64_max
     \<Longrightarrow> lf_generation l = lf_generation (life_at v k) \<Longrightarrow> \<not> lf_running l \<Longrightarrow> lf_action l \<le> 2 \<Longrightarrow> life_step v (set_life k l v)"
| release: "k < no_slots v \<Longrightarrow> lf_active (life_at v k) \<Longrightarrow> lf_complete (life_at v k)
     \<Longrightarrow> life_step v (set_life k ((life_at v k)\<lparr>lf_active := False, lf_generation := wrap64 (lf_generation (life_at v k) + 1)\<rparr>) v)"

definition life_ok :: "nat option \<Rightarrow> nat \<Rightarrow> life \<Rightarrow> bool" where
  "life_ok owner k l \<longleftrightarrow> lf_generation l \<le> u64_max \<and> (lf_active l \<longrightarrow> lf_action l \<le> 2 \<and> lf_generation l < u64_max)
     \<and> (lf_running l \<longrightarrow> lf_active l \<and> \<not> lf_complete l \<and> lf_action l = 2 \<and> owner = Some k)"

definition life_inv :: "lives \<Rightarrow> bool" where
  "life_inv v \<longleftrightarrow> (\<forall>k < no_slots v. life_ok (lv_owner v) k (life_at v k))"

lemmas lives_sel = set_life_def life_at_def no_slots_def

lemma none_running_iff: "none_running v \<longleftrightarrow> (\<forall>k < no_slots v. \<not> lf_running (life_at v k))"
  by (auto simp: none_running_def lives_sel all_set_conv_all_nth)

lemma set_life_simps [simp]:
  "no_slots (set_life k l v) = no_slots v" "lv_owner (set_life k l v) = lv_owner v" "lv_quiescing (set_life k l v) = lv_quiescing v"
  "no_slots (v\<lparr>lv_owner := owner\<rparr>) = no_slots v" "no_slots (v\<lparr>lv_quiescing := q\<rparr>) = no_slots v"
  "life_at (v\<lparr>lv_owner := owner\<rparr>) = life_at v" "life_at (v\<lparr>lv_quiescing := q\<rparr>) = life_at v"
  by (simp_all add: lives_sel fun_eq_iff)

lemma life_at_set_life [simp]: "j < no_slots v \<Longrightarrow> life_at (set_life k l v) j = (if j = k then l else life_at v j)"
  by (auto simp: lives_sel nth_list_update)

lemma life_inv_at: "life_inv v \<Longrightarrow> k < no_slots v \<Longrightarrow> life_ok (lv_owner v) k (life_at v k)"
  by (simp add: life_inv_def)

lemma life_inv_set:
  assumes "life_inv v" "life_ok owner k l"
    and "\<And>j. j < no_slots v \<Longrightarrow> j \<noteq> k \<Longrightarrow> life_ok (lv_owner v) j (life_at v j) \<Longrightarrow> life_ok owner j (life_at v j)"
  shows "life_inv ((set_life k l v)\<lparr>lv_owner := owner\<rparr>)"
  unfolding life_inv_def using assms by (simp add: life_inv_at)

lemma life_inv_set_same:
  "life_inv v \<Longrightarrow> life_ok (lv_owner v) k l \<Longrightarrow> life_inv (set_life k l v)"
  unfolding life_inv_def by simp

lemma life_ok_idle: "life_ok owner k l \<Longrightarrow> \<not> lf_running l \<Longrightarrow> life_ok owner' j l"
  by (simp add: life_ok_def)

lemma turn_step_inv: "turn_step v v' \<Longrightarrow> life_inv v \<Longrightarrow> life_inv v'"
proof (induction rule: turn_step.induct)
  case (elect v owner)
  then show ?case by (simp add: life_inv_def life_ok_def)
next
  case (yield v)
  then show ?case using life_ok_idle by (auto simp: life_inv_def none_running_iff)
next
  case (finish k v)
  show ?case
  proof (rule life_inv_set [OF finish.prems])
    show "life_ok (if lv_owner v = Some k then None else lv_owner v) k ((life_at v k)\<lparr>lf_complete := True\<rparr>)"
      using life_inv_at [OF finish.prems finish.hyps(1)] finish.hyps by (simp add: life_ok_def)
  qed (auto simp: life_ok_def)
next
  case (start v k)
  then show ?case using life_inv_at [of v k] by (intro life_inv_set_same) (auto simp: life_ok_def)
next
  case (settle k v)
  then show ?case using life_inv_at [of v k] by (intro life_inv_set_same) (auto simp: life_ok_def)
next
  case (clear k v l)
  then show ?case using life_inv_at [of v k] by (intro life_inv_set_same) (auto simp: life_ok_def)
qed (simp_all add: life_inv_def)

lemma life_step_inv: "life_step v v' \<Longrightarrow> life_inv v \<Longrightarrow> life_inv v'"
proof (induction rule: life_step.induct)
  case (release k v)
  have "wrap64 n \<le> u64_max" for n by (simp add: wrap64_def u64_max_def)
  then show ?case using release life_inv_at [of v k] by (intro life_inv_set_same) (auto simp: life_ok_def)
next
  case (admit k v l)
  then show ?case using life_inv_at [of v k] by (intro life_inv_set_same) (auto simp: life_ok_def)
qed (rule turn_step_inv)

lemma life_steps_inv: "life_step\<^sup>*\<^sup>* v v' \<Longrightarrow> life_inv v \<Longrightarrow> life_inv v'"
  by (induction rule: rtranclp_induct) (auto intro: life_step_inv)

text \<open>A turn leaves alone which slots are in use and by which generation.\<close>

definition steady :: "lives \<Rightarrow> lives \<Rightarrow> bool" where
  "steady v v' \<longleftrightarrow> no_slots v' = no_slots v \<and> (\<forall>k < no_slots v. lf_active (life_at v' k) = lf_active (life_at v k)
     \<and> lf_generation (life_at v' k) = lf_generation (life_at v k))"

lemma turn_step_steady: "turn_step v v' \<Longrightarrow> steady v v'"
  by (induction rule: turn_step.induct) (auto simp: steady_def)

lemma turn_steps_steady: "turn_step\<^sup>*\<^sup>* v v' \<Longrightarrow> steady v v'"
  by (induction rule: rtranclp_induct) (auto simp: steady_def dest!: turn_step_steady)

lemma turn_steps_life: "turn_step\<^sup>*\<^sup>* v v' \<Longrightarrow> life_step\<^sup>*\<^sup>* v v'"
  by (induction rule: rtranclp_induct) (auto intro: rtranclp.rtrancl_into_rtrancl life_step.turn)

text \<open>Generations only grow.\<close>

definition ages :: "lives \<Rightarrow> lives \<Rightarrow> bool" where
  "ages v v' \<longleftrightarrow> no_slots v' = no_slots v \<and> (\<forall>k < no_slots v. lf_generation (life_at v k) \<le> lf_generation (life_at v' k))"

lemma ages_set: "lf_generation (life_at v k) \<le> lf_generation l \<Longrightarrow> ages v (set_life k l v)"
  by (simp add: ages_def)

lemma life_step_ages: "life_step v v' \<Longrightarrow> life_inv v \<Longrightarrow> ages v v'"
proof (induction rule: life_step.induct)
  case (turn v v')
  then show ?case using turn_step_steady [of v v'] by (simp add: ages_def steady_def)
next
  case (admit k v l)
  then show ?case by (intro ages_set) simp
next
  case (release k v)
  then have "lf_generation (life_at v k) < u64_max" using life_inv_at [of v k] by (simp add: life_ok_def)
  then show ?case by (intro ages_set) (simp add: wrap64_def u64_max_def)
qed

lemma life_steps_ages: "life_step\<^sup>*\<^sup>* v v' \<Longrightarrow> life_inv v \<Longrightarrow> ages v v'"
proof (induction rule: rtranclp_induct)
  case (step x y)
  then have "ages v x" "ages x y" using life_step_ages [OF step.hyps(2)] life_steps_inv [OF step.hyps(1)] by auto
  then show ?case unfolding ages_def by (metis order.trans)
qed (simp add: ages_def)

end
