(* ===== verification/Engine_Safety.thy ===== *)
theory Engine_Safety
  imports Slot_Lives
begin

text \<open>
  Every operation of the engine is a sequence of steps of the slots' life cycle, whatever the device
  does. From it follow that at most one command acts on the device at a time, that a released handle
  never becomes valid again, and that a quiescing engine leaves only what the device still holds.
\<close>

section \<open>Lives in an engine\<close>

definition lives_of :: "'b engine \<Rightarrow> lives" where
  "lives_of e = \<lparr>lv_slots = map life_of (eg_slots e), lv_owner = eg_effect_owner e, lv_quiescing = ec_quiescing (eg_core e)\<rparr>"

lemma lives_of_sel [simp]:
  "no_slots (lives_of e) = length (eg_slots e)" "lv_owner (lives_of e) = eg_effect_owner e"
  "lv_quiescing (lives_of e) = ec_quiescing (eg_core e)"
  by (simp_all add: lives_of_def no_slots_def)

lemma life_at_lives [simp]: "k < length (eg_slots e) \<Longrightarrow> life_at (lives_of e) k = life_of (slot_at e k)"
  by (simp add: lives_of_def life_at_def slot_at_def)

lemma lives_of_update [simp]:
  "lives_of (e\<lparr>eg_results := w\<rparr>) = lives_of e" "lives_of (e\<lparr>eg_pool := p\<rparr>) = lives_of e"
  "lives_of (e\<lparr>eg_device := d\<rparr>) = lives_of e" "lives_of (e\<lparr>eg_next_ticket_operation := n\<rparr>) = lives_of e"
  "lives_of (e\<lparr>eg_next_sequence := n\<rparr>) = lives_of e" "lives_of (e\<lparr>eg_association_generation := n\<rparr>) = lives_of e"
  "lives_of (e\<lparr>eg_progressing := b\<rparr>) = lives_of e" "lives_of (e\<lparr>eg_traced := t\<rparr>) = lives_of e"
  "lives_of (e\<lparr>eg_effect_owner := owner\<rparr>) = (lives_of e)\<lparr>lv_owner := owner\<rparr>"
  by (simp_all add: lives_of_def)

lemma lives_of_core:
  "ec_quiescing c = ec_quiescing (eg_core e) \<Longrightarrow> lives_of (e\<lparr>eg_core := c\<rparr>) = lives_of e"
  by (simp add: lives_of_def)

lemma lives_of_put [simp]: "lives_of (put_slot k sl e) = set_life k (life_of sl) (lives_of e)"
  by (simp add: lives_of_def put_slot_def set_life_def map_update)

lemma set_life_same:
  assumes "life_of sl = life_of (slot_at e k)"
  shows "set_life k (life_of sl) (lives_of e) = lives_of e"
proof (cases "k < length (eg_slots e)")
  case True
  then show ?thesis using assms by (simp add: lives_of_def set_life_def slot_at_def list_update_same_conv)
qed (simp add: lives_of_def set_life_def list_update_beyond)

lemma set_life_owner: "(set_life k l v)\<lparr>lv_owner := owner\<rparr> = set_life k l (v\<lparr>lv_owner := owner\<rparr>)"
  by (simp add: set_life_def)

lemma lives_of_owner_same [simp]: "(lives_of e)\<lparr>lv_owner := eg_effect_owner e\<rparr> = lives_of e"
  by (simp add: lives_of_def)

lemma slot_at_update [simp]:
  "slot_at (e\<lparr>eg_results := w\<rparr>) k = slot_at e k" "slot_at (e\<lparr>eg_pool := p\<rparr>) k = slot_at e k"
  "slot_at (e\<lparr>eg_device := d\<rparr>) k = slot_at e k" "slot_at (e\<lparr>eg_next_ticket_operation := n\<rparr>) k = slot_at e k"
  "slot_at (e\<lparr>eg_next_sequence := n\<rparr>) k = slot_at e k" "slot_at (e\<lparr>eg_association_generation := n\<rparr>) k = slot_at e k"
  "slot_at (e\<lparr>eg_progressing := b\<rparr>) k = slot_at e k" "slot_at (e\<lparr>eg_traced := t\<rparr>) k = slot_at e k"
  "slot_at (e\<lparr>eg_effect_owner := owner\<rparr>) k = slot_at e k" "slot_at (e\<lparr>eg_core := c\<rparr>) k = slot_at e k"
  by (simp_all add: slot_at_def)

lemma slot_at_put [simp]: "k < length (eg_slots e) \<Longrightarrow> slot_at (put_slot j sl e) k = (if k = j then sl else slot_at e k)"
  by (auto simp: slot_at_def put_slot_def nth_list_update)

lemma put_slot_sel [simp]:
  "length (eg_slots (put_slot k sl e)) = length (eg_slots e)" "eg_core (put_slot k sl e) = eg_core e"
  "eg_device (put_slot k sl e) = eg_device e" "eg_effect_owner (put_slot k sl e) = eg_effect_owner e"
  "eg_results (put_slot k sl e) = eg_results e" "eg_progressing (put_slot k sl e) = eg_progressing e"
  by (simp_all add: put_slot_def)

text \<open>One engine state evolves into another while the same commands stay in their slots.\<close>

definition evolves :: "'b engine \<Rightarrow> 'b engine \<Rightarrow> bool" where
  "evolves e e' \<longleftrightarrow> turn_step\<^sup>*\<^sup>* (lives_of e) (lives_of e')"

lemma evolves_trans [trans]: "evolves a b \<Longrightarrow> evolves b c \<Longrightarrow> evolves a c"
  by (simp add: evolves_def)

lemma evolves_same: "lives_of e' = lives_of e \<Longrightarrow> evolves e e'"
  by (simp add: evolves_def)

lemma evolves_step: "turn_step (lives_of e) (lives_of e') \<Longrightarrow> evolves e e'"
  by (simp add: evolves_def r_into_rtranclp)

lemma evolves_fold: "(\<And>x e. evolves e (f x e)) \<Longrightarrow> evolves e (fold f xs e)"
  by (induction xs arbitrary: e) (auto intro: evolves_trans evolves_same)

lemma evolves_length: "evolves e e' \<Longrightarrow> length (eg_slots e') = length (eg_slots e)"
  using turn_steps_steady [of "lives_of e" "lives_of e'"] by (simp add: evolves_def steady_def)

lemma evolves_slot:
  assumes "evolves e e'" "k < length (eg_slots e)"
  shows "tn_active (sl_record (slot_at e' k)) = tn_active (sl_record (slot_at e k))"
    "tn_generation (sl_record (slot_at e' k)) = tn_generation (sl_record (slot_at e k))"
  using turn_steps_steady [of "lives_of e" "lives_of e'"] assms evolves_length [OF assms(1)] life_at_lives [of k e] life_at_lives [of k e']
  by (auto simp: evolves_def steady_def)

lemma evolves_life: "evolves e e' \<Longrightarrow> life_step\<^sup>*\<^sup>* (lives_of e) (lives_of e')"
  unfolding evolves_def by (rule turn_steps_life)

lemma evolves_inv: "evolves e e' \<Longrightarrow> life_inv (lives_of e) \<Longrightarrow> life_inv (lives_of e')"
  by (rule life_steps_inv [OF evolves_life])

section \<open>Completions\<close>

lemma observe_fault_same:
  "eg_slots (observe_fault i e) = eg_slots e \<and> eg_device (observe_fault i e) = eg_device e \<and> eg_effect_owner (observe_fault i e) = eg_effect_owner e
   \<and> eg_progressing (observe_fault i e) = eg_progressing e \<and> ec_quiescing (eg_core (observe_fault i e)) = ec_quiescing (eg_core e)"
  by (simp add: observe_fault_def Let_def)

lemma observe_backend_faults_sel [simp]:
  "eg_slots (observe_backend_faults e) = eg_slots e" "eg_device (observe_backend_faults e) = eg_device e"
  "eg_effect_owner (observe_backend_faults e) = eg_effect_owner e" "eg_progressing (observe_backend_faults e) = eg_progressing e"
  "ec_quiescing (eg_core (observe_backend_faults e)) = ec_quiescing (eg_core e)"
proof -
  let ?f = "fold observe_fault"
  have "eg_slots (?f is e) = eg_slots e \<and> eg_device (?f is e) = eg_device e \<and> eg_effect_owner (?f is e) = eg_effect_owner e
    \<and> eg_progressing (?f is e) = eg_progressing e \<and> ec_quiescing (eg_core (?f is e)) = ec_quiescing (eg_core e)" for "is"
    by (induction "is" arbitrary: e) (simp_all add: observe_fault_same)
  then show "eg_slots (observe_backend_faults e) = eg_slots e" "eg_device (observe_backend_faults e) = eg_device e"
    "eg_effect_owner (observe_backend_faults e) = eg_effect_owner e" "eg_progressing (observe_backend_faults e) = eg_progressing e"
    "ec_quiescing (eg_core (observe_backend_faults e)) = ec_quiescing (eg_core e)"
    by (simp_all add: observe_backend_faults_def)
qed

lemma observe_backend_faults_same [simp]:
  "lives_of (observe_backend_faults e) = lives_of e" "slot_at (observe_backend_faults e) k = slot_at e k"
  by (simp_all add: lives_of_def slot_at_def)

lemma awaiting_Some:
  "awaiting operation sls i = Some k \<Longrightarrow> i \<le> k \<and> k < i + length sls \<and> tn_active (sl_record (sls ! (k - i))) \<and> tn_running (sl_record (sls ! (k - i)))"
proof (induction sls arbitrary: i)
  case (Cons sl sls)
  show ?case
  proof (cases "k = i")
    case False
    then have *: "awaiting operation sls (i + 1) = Some k" using Cons.prems by (auto split: if_split_asm)
    note Cons.IH [OF this]
    moreover have "k - i = Suc (k - (i + 1))" using calculation by auto
    ultimately show ?thesis by simp
  next
    case True
    have "awaiting operation sls (i + 1) \<noteq> Some k" using Cons.IH [of "i + 1"] True by auto
    then show ?thesis using Cons.prems True by (auto split: if_split_asm)
  qed
qed simp

lemma consume_completion_evolves:
  "evolves e (consume_completion su c e) \<and> eg_device (consume_completion su c e) = eg_device e
   \<and> eg_progressing (consume_completion su c e) = eg_progressing e \<and> ec_quiescing (eg_core (consume_completion su c e)) = ec_quiescing (eg_core e)"
proof (cases "awaiting (cp_operation c) (eg_slots e) 0")
  case (Some k)
  from awaiting_Some [OF this] have k: "k < length (eg_slots e)" by simp
  obtain t oc where eq: "consume_completion su c e = (let (ec, sl') = apply_outcome (es_env su) (tn_running_field (sl_record (slot_at e k))) oc (eg_core e) (slot_at e k)
      in put_slot k sl' (e\<lparr>eg_core := ec, eg_traced := eg_traced e @ t\<rparr>))"
    unfolding consume_completion_def Let_def by (simp add: Some)
  show ?thesis
    unfolding eq case_prod_beta Let_def
    using turn_step.settle [of k "lives_of e"] k
    by (auto simp: lives_of_core ec_apply_outcome life_apply_outcome intro!: evolves_step)
qed (simp add: consume_completion_def evolves_same)

lemma collect_completions_evolves:
  "evolves e (collect_completions su e) \<and> eg_device (collect_completions su e) = eg_device e
   \<and> eg_progressing (collect_completions su e) = eg_progressing e \<and> ec_quiescing (eg_core (collect_completions su e)) = ec_quiescing (eg_core e)"
proof -
  have "evolves e (fold (consume_completion su) rs e) \<and> eg_device (fold (consume_completion su) rs e) = eg_device e
    \<and> eg_progressing (fold (consume_completion su) rs e) = eg_progressing e
    \<and> ec_quiescing (eg_core (fold (consume_completion su) rs e)) = ec_quiescing (eg_core e)" for rs and e :: "'a engine"
  proof (induction rs arbitrary: e)
    case (Cons r rs)
    show ?case using Cons.IH [of "consume_completion su r e"] consume_completion_evolves [of e su r] by (auto intro: evolves_trans)
  qed (simp add: evolves_same)
  from this [of "e\<lparr>eg_results := (eg_results e)\<lparr>dr_tickets := fst (scan (dr_tickets (eg_results e)))\<rparr>\<rparr>" "snd (scan (dr_tickets (eg_results e)))"]
  show ?thesis by (simp add: collect_completions_def Let_def case_prod_beta evolves_def)
qed

lemma finish_slot_evolves:
  assumes "k < length (eg_slots e)" "tn_active (sl_record (slot_at e k))" "\<not> tn_running (sl_record (slot_at e k))"
  shows "evolves e (finish_slot su now k e)" "eg_device (finish_slot su now k e) = eg_device e"
    "life_of (slot_at (finish_slot su now k e) k) = (life_of (slot_at e k))\<lparr>lf_complete := True\<rparr>"
    "j < length (eg_slots e) \<Longrightarrow> j \<noteq> k \<Longrightarrow> slot_at (finish_slot su now k e) j = slot_at e j"
    "length (eg_slots (finish_slot su now k e)) = length (eg_slots e)"
    "ec_quiescing (eg_core (finish_slot su now k e)) = ec_quiescing (eg_core e)"
proof -
  have "turn_step (lives_of e) (lives_of (finish_slot su now k e))"
    using turn_step.finish [of k "lives_of e"] assms
    by (cases "eg_effect_owner e = Some k")
      (simp_all add: finish_slot_def Let_def case_prod_beta lives_of_core ec_finish finish_owner life_finish set_life_owner)
  then show "evolves e (finish_slot su now k e)" by (rule evolves_step)
qed (use assms in \<open>simp_all add: finish_slot_def Let_def case_prod_beta life_finish ec_finish\<close>)

section \<open>Progress\<close>

text \<open>A slot whose turn it is, with nothing at the device.\<close>

definition may_run :: "'b engine \<Rightarrow> nat \<Rightarrow> bool" where
  "may_run e k \<longleftrightarrow> k < length (eg_slots e) \<and> tn_active (sl_record (slot_at e k)) \<and> \<not> tn_complete (sl_record (slot_at e k))
     \<and> none_running (lives_of e) \<and> cm_action (rq_cam (pl_request (sl_plan (slot_at e k)))) \<in> {1, 2}
     \<and> (cm_action (rq_cam (pl_request (sl_plan (slot_at e k)))) = 2 \<longrightarrow> eg_effect_owner e = Some k)"

lemma may_run_idle: "may_run e k \<Longrightarrow> \<not> tn_running (sl_record (slot_at e k))"
  using life_at_lives [of k e] by (auto simp: may_run_def none_running_iff)

lemma may_run_put:
  assumes "may_run e k" "life_of sl = life_of (slot_at e k)"
  shows "may_run (put_slot k sl e) k" "lives_of (put_slot k sl e) = lives_of e"
proof -
  show "lives_of (put_slot k sl e) = lives_of e" using set_life_same [OF assms(2)] by simp
  moreover have "tn_active (sl_record sl) = tn_active (sl_record (slot_at e k))" "tn_complete (sl_record sl) = tn_complete (sl_record (slot_at e k))"
    "cm_action (rq_cam (pl_request (sl_plan sl))) = cm_action (rq_cam (pl_request (sl_plan (slot_at e k))))"
    using arg_cong [OF assms(2), of lf_active] arg_cong [OF assms(2), of lf_complete] arg_cong [OF assms(2), of lf_action] by simp_all
  ultimately show "may_run (put_slot k sl e) k" using assms(1) by (simp add: may_run_def)
qed

lemma begin_field_same [simp]: "lives_of (begin_field su k i b e) = lives_of e"
  by (simp add: begin_field_def Let_def case_prod_beta split: option.split)

lemma finish_slot_idle:
  assumes "k < length (eg_slots e)" "tn_active (sl_record (slot_at e k))" "\<not> tn_running (sl_record (slot_at e k))"
  shows "none_running (lives_of e) \<Longrightarrow> none_running (lives_of (finish_slot su now k e))"
proof -
  note f = finish_slot_evolves [where k = k and e = e and su = su and now = now]
  assume none: "none_running (lives_of e)"
  have "\<not> lf_running (life_of (slot_at (finish_slot su now k e) j))" if "j < length (eg_slots e)" for j
  proof (cases "j = k")
    case True
    then show ?thesis using f(3) assms by simp
  next
    case False
    then have "slot_at (finish_slot su now k e) j = slot_at e j" using f(4) [where j = j] that assms by simp
    then show ?thesis using none that life_at_lives [of j e] by (simp add: none_running_iff)
  qed
  then show "none_running (lives_of (finish_slot su now k e))" using f(5) assms by (simp add: none_running_iff)
qed

lemma finish_slot_turn:
  assumes "may_run e k"
  shows "evolves e (finish_slot su now k e) \<and> none_running (lives_of (finish_slot su now k e))"
  using finish_slot_evolves(1) [of k e] finish_slot_idle [of k e] may_run_idle [OF assms] assms by (simp add: may_run_def)

lemma run_plan_evolves:
  assumes "may_run e k"
  shows "evolves e (fst (run_plan su now k e)) \<and> (snd (run_plan su now k e) = None \<longrightarrow> none_running (lives_of (fst (run_plan su now k e))))"
proof -
  note idle = may_run_idle [OF assms] and run = assms [unfolded may_run_def]
  show ?thesis
  proof (cases "dispatch (es_env su) now (eg_core e) (slot_at e k)")
    case None
    then show ?thesis using run by (simp add: run_plan_def evolves_same)
  next
    case (Some x)
    obtain ec sl exit where x: "x = (ec, sl, exit)" by (metis prod.exhaust)
    note d = life_dispatch [OF Some [unfolded x] idle]
    let ?e0 = "e\<lparr>eg_core := ec\<rparr>"
    let ?e1 = "put_slot k sl ?e0"
    have e0: "may_run ?e0 k" "lives_of ?e0 = lives_of e" using assms d by (simp_all add: may_run_def lives_of_core)
    have same: "may_run ?e1 k" "lives_of ?e1 = lives_of e" if "\<not> (\<exists>i b. exit = Dispatch_begin i b)"
      using may_run_put [OF e0(1), of sl] d idle that e0(2) by (simp_all add: life_of_def)
    show ?thesis
    proof (cases exit)
      case Dispatch_done
      then show ?thesis using finish_slot_turn [of ?e1 k su now] same by (simp add: run_plan_def Some x evolves_def)
    next
      case (Dispatch_begin i b)
      have "cm_action (rq_cam (pl_request (sl_plan (slot_at e k)))) = 2" using d run Dispatch_begin by auto
      then have "turn_step (lives_of e) (lives_of ?e1)"
        using turn_step.start [of "lives_of e" k] run d Dispatch_begin by (simp add: lives_of_core)
      then show ?thesis by (simp add: run_plan_def Some x Dispatch_begin evolves_def r_into_rtranclp)
    next
      case Dispatch_overflow
      then show ?thesis using same by (simp add: run_plan_def Some x evolves_same)
    qed
  qed
qed

lemma record_batch_life:
  assumes "\<not> tn_running (sl_record sl)"
  shows "life_of (snd (record_batch env batch ec sl)) = life_of sl \<and> ec_quiescing (fst (record_batch env batch ec sl)) = ec_quiescing ec"
proof -
  let ?step = "\<lambda>i (c, x). apply_outcome (env\<lparr>eo_has_effects := False\<rparr>) i (batch_field batch (ep_fields (pl_execution (sl_plan x)) ! i)) c x"
  have idle: "(life_of sl)\<lparr>lf_running := False\<rparr> = life_of sl" using assms by (simp add: life_of_def)
  have "life_of (snd (fold ?step is acc)) = life_of sl \<and> ec_quiescing (fst (fold ?step is acc)) = ec_quiescing ec"
    if "life_of (snd acc) = life_of sl" "ec_quiescing (fst acc) = ec_quiescing ec" for "is" acc
    using that
  proof (induction "is" arbitrary: acc)
    case (Cons i "is")
    have "life_of (snd (?step i acc)) = life_of sl" "ec_quiescing (fst (?step i acc)) = ec_quiescing ec"
      using Cons.prems idle by (simp_all add: case_prod_beta life_apply_outcome ec_apply_outcome)
    then show ?case using Cons.IH [of "?step i acc"] by (simp only: fold_simps)
  qed simp
  from this [of "(ec, sl)" "[0..<4]"] show ?thesis
    unfolding record_batch_def Let_def case_prod_beta
    by (simp add: life_of_def record_effect_sel record_effect_quiescing)
qed

lemma revalidate_life: "life_of (revalidate su now k e) = life_of (slot_at e k)"
proof -
  have *: "pl_request (case v of Inl x \<Rightarrow> refuse_plan a p | Inr y \<Rightarrow> p) = pl_request p" for v :: "unit result" and a p
    by (simp split: sum.split)
  show ?thesis unfolding revalidate_def Let_def case_prod_beta by (intro life_cong) (simp_all add: *)
qed

lemma revalidate_batch_request: "pl_request (fst (revalidate_batch su now k e)) = pl_request (sl_plan (slot_at e k))"
proof -
  have "pl_request (fst (case v of (p, Inl x) \<Rightarrow> (p, False) | (p, Inr y) \<Rightarrow> (p, batch_ready p))) = pl_request (fst v)"
    for v :: "planning_storage \<times> unit result"
    by (simp split: prod.split sum.split)
  then show ?thesis by (simp add: revalidate_batch_def Let_def)
qed

lemma commit_batch_evolves:
  assumes "may_run e k"
  shows "evolves e (fst (commit_batch su now k e)) \<and> none_running (lives_of (fst (commit_batch su now k e)))
    \<and> (\<not> snd (commit_batch su now k e) \<longrightarrow> may_run (fst (commit_batch su now k e)) k)"
proof -
  note idle = may_run_idle [OF assms]
  have none: "none_running (lives_of e)" using assms by (simp add: may_run_def)
  let ?pl = "fst (revalidate_batch su now k e)"
  have pl: "life_of (slot_at e k\<lparr>sl_plan := ?pl\<lparr>pl_execution := x\<rparr>\<rparr>) = life_of (slot_at e k)" for x
    by (simp add: life_of_def revalidate_batch_request)
  have pl': "life_of (slot_at e k\<lparr>sl_plan := ?pl\<rparr>) = life_of (slot_at e k)"
    by (simp add: life_of_def revalidate_batch_request)
  have refused: ?thesis if "commit_batch su now k e = (put_slot k (slot_at e k\<lparr>sl_plan := ?pl\<lparr>pl_execution := x\<rparr>\<rparr>) e, False)" for x
    using may_run_put [OF assms pl [of x]] none by (simp add: that evolves_same)
  show ?thesis
  proof (cases "bk_commit (es_backend su) \<noteq> None \<and> snd (revalidate_batch su now k e)")
    case False
    then show ?thesis
      by (intro refused) (auto simp: commit_batch_def Let_def case_prod_beta split: option.split)
  next
    case True
    then obtain f where f: "bk_commit (es_backend su) = Some f" by auto
    define r where "r = f (eg_device e) (pl_execution ?pl) ((ep_boundary (pl_execution ?pl))\<lparr>bd_time := cs_time (oc_clock now)\<rparr>)"
    define b where "b = record_batch (es_env su) (coherent_batch (snd r)) (eg_core e) (slot_at e k\<lparr>sl_plan := ?pl\<rparr>)"
    let ?e0 = "e\<lparr>eg_core := fst b, eg_device := fst r\<rparr>"
    have eq: "commit_batch su now k e = (finish_slot su now k (put_slot k (snd b) ?e0), True)"
      unfolding commit_batch_def Let_def case_prod_beta using True by (simp add: f b_def r_def)
    have b: "life_of (snd b) = life_of (slot_at e k)" "ec_quiescing (fst b) = ec_quiescing (eg_core e)"
      using record_batch_life [of "slot_at e k\<lparr>sl_plan := ?pl\<rparr>"] idle by (simp_all add: b_def pl')
    have e0: "may_run ?e0 k" "lives_of ?e0 = lives_of e" using assms b(2) by (simp_all add: may_run_def lives_of_core)
    show ?thesis
      using may_run_put [OF e0(1), of "snd b"] finish_slot_turn [of "put_slot k (snd b) ?e0" k su now] b(1) e0(2)
      by (simp add: eq evolves_def)
  qed
qed

lemma act_on_slot_evolves:
  assumes "may_run e k"
  shows "evolves e (fst (act_on_slot su now k e)) \<and> (snd (act_on_slot su now k e) = None \<longrightarrow> none_running (lives_of (fst (act_on_slot su now k e))))"
proof -
  define sl where "sl = (if tn_revalidated (sl_record (slot_at e k)) then slot_at e k else revalidate su now k e)"
  define timed where "timed \<longleftrightarrow> cm_timing (rq_cam (pl_request (sl_plan sl))) \<noteq> 0 \<or> pl_data_running (sl_plan sl)"
  define pl1 where "pl1 = (if timed then renew_boundary (es_env su) now (sl_plan sl) else sl_plan sl)"
  define pl2 where "pl2 = validate_boundary_state (es_env su) (if timed then settle_schedule now pl1 else pl1)"
  define e1 where "e1 = put_slot k (sl\<lparr>sl_plan := pl2\<rparr>) e"
  define c where "c = (if eo_profile (es_env su) = Sdr_profile \<and> ep_count (pl_execution pl2) = 4 \<and> cm_action (rq_cam (pl_request (sl_plan sl))) = 2
    then commit_batch su now k e1 else (e1, False))"
  have eq: "act_on_slot su now k e = (if timed \<and> must_wait now pl1 then (put_slot k (sl\<lparr>sl_plan := pl1\<rparr>) (e\<lparr>eg_effect_owner := None\<rparr>), None)
      else if snd c then (fst c, None) else run_plan su now k (fst c))"
    unfolding act_on_slot_def Let_def case_prod_beta
    by (simp only: sl_def [symmetric] timed_def [symmetric] pl1_def [symmetric] pl2_def [symmetric] e1_def [symmetric] c_def [symmetric])
  have none: "none_running (lives_of e)" using assms by (simp add: may_run_def)
  have "life_of sl = life_of (slot_at e k)" by (simp add: sl_def revalidate_life)
  then have same: "life_of (sl\<lparr>sl_plan := pl1\<rparr>) = life_of (slot_at e k)" "life_of (sl\<lparr>sl_plan := pl2\<rparr>) = life_of (slot_at e k)"
    by (simp_all add: life_of_def pl1_def pl2_def)
  have e1: "may_run e1 k" "lives_of e1 = lives_of e" unfolding e1_def using may_run_put [OF assms same(2)] by auto
  have c: "evolves e (fst c)" "none_running (lives_of (fst c))" "\<not> snd c \<Longrightarrow> may_run (fst c) k"
    using commit_batch_evolves [OF e1(1), of su now] e1 none by (auto simp: c_def evolves_def)
  show ?thesis
  proof (cases "timed \<and> must_wait now pl1")
    case True
    have "lives_of (put_slot k (sl\<lparr>sl_plan := pl1\<rparr>) (e\<lparr>eg_effect_owner := None\<rparr>)) = (lives_of e)\<lparr>lv_owner := None\<rparr>"
      using set_life_same [OF same(1)] by (simp add: set_life_owner [symmetric])
    then show ?thesis using True turn_step.yield [OF none] none by (simp add: eq evolves_def r_into_rtranclp none_running_def)
  next
    case False
    then show ?thesis using c run_plan_evolves [OF c(3), of su now] by (auto simp: eq intro: evolves_trans)
  qed
qed

lemma quiesce_slot_life: "life_of (quiesce_slot sl) = life_of sl"
  by (simp add: quiesce_slot_def Let_def life_of_def)

text \<open>What one slot's turn does, given whether a field was at the device when the round began.\<close>

lemma progress_slot_evolves:
  assumes "life_inv (lives_of e)" "k < length (eg_slots e)" "\<not> running \<Longrightarrow> none_running (lives_of e)"
  shows "evolves e (fst (progress_slot su now running k e))
    \<and> (snd (progress_slot su now running k e) = None \<longrightarrow> \<not> running \<longrightarrow> none_running (lives_of (fst (progress_slot su now running k e))))"
proof -
  let ?sl = "slot_at e k"
  let ?q = "put_slot k (quiesce_slot ?sl) e"
  have ok: "life_ok (eg_effect_owner e) k (life_of ?sl)" using life_inv_at [OF assms(1), of k] assms(2) by simp
  have q: "lives_of ?q = lives_of e" using set_life_same [OF quiesce_slot_life] by simp
  consider "\<not> tn_active (sl_record ?sl) \<or> tn_complete (sl_record ?sl)"
    | "tn_active (sl_record ?sl)" "\<not> tn_complete (sl_record ?sl)" "ec_quiescing (eg_core e)" "\<not> tn_running (sl_record ?sl)"
    | "tn_active (sl_record ?sl)" "\<not> tn_complete (sl_record ?sl)" "\<not> (ec_quiescing (eg_core e) \<and> \<not> tn_running (sl_record ?sl))"
    by blast
  then show ?thesis
  proof cases
    case 1
    then show ?thesis using assms(3) by (simp add: progress_slot_def evolves_same)
  next
    case 2
    have r: "tn_active (sl_record (quiesce_slot ?sl))" "\<not> tn_running (sl_record (quiesce_slot ?sl))"
      using 2 by (simp_all add: quiesce_slot_def Let_def)
    have eq: "progress_slot su now running k e = (finish_slot su now k ?q, None)" using 2 by (simp add: progress_slot_def)
    show ?thesis unfolding eq fst_conv snd_conv using finish_slot_evolves(1) [of k ?q] finish_slot_idle [of k ?q] assms(2,3) r q by (simp add: evolves_def)
  next
    case 3
    let ?a = "cm_action (rq_cam (pl_request (sl_plan ?sl)))"
    show ?thesis
    proof (cases "?a = 0")
      case True
      then have "\<not> tn_running (sl_record ?sl)" using ok by (auto simp: life_ok_def)
      have eq: "progress_slot su now running k e = (finish_slot su now k e, None)"
        unfolding progress_slot_def Let_def using 3 True by auto
      show ?thesis unfolding eq fst_conv snd_conv using \<open>\<not> tn_running (sl_record ?sl)\<close> finish_slot_evolves(1) [of k e] finish_slot_idle [of k e] assms(2,3) 3 by simp
    next
      case False
      show ?thesis
      proof (cases "running \<or> (?a = 2 \<and> eg_effect_owner e \<noteq> Some k)")
        case True
        then have eq: "progress_slot su now running k e = (e, None)"
          unfolding progress_slot_def Let_def using 3 False by auto
        show ?thesis unfolding eq fst_conv snd_conv using assms(3) by (simp add: evolves_same)
      next
        case idle: False
        have "?a \<le> 2" using ok 3 by (simp add: life_ok_def)
        then have "may_run e k" using 3 False idle assms(2,3) by (auto simp: may_run_def)
        have eq: "progress_slot su now running k e = act_on_slot su now k e"
          unfolding progress_slot_def Let_def using 3 False idle by auto
        show ?thesis unfolding eq using act_on_slot_evolves [OF \<open>may_run e k\<close>, of su now] by blast
      qed
    qed
  qed
qed

lemma progress_slots_evolves:
  assumes "life_inv (lives_of e)" "\<forall>k \<in> set ks. k < length (eg_slots e)" "\<not> running \<Longrightarrow> none_running (lives_of e)"
  shows "evolves e (fst (progress_slots su now running ks e))"
  using assms
proof (induction ks arbitrary: e)
  case (Cons k ks)
  let ?r = "progress_slot su now running k e"
  have k: "k < length (eg_slots e)" using Cons.prems(2) by simp
  note p = progress_slot_evolves [OF Cons.prems(1) k Cons.prems(3), of running su now]
  show ?case
  proof (cases "snd ?r")
    case (Some r)
    then show ?thesis using p by (simp add: case_prod_beta)
  next
    case None
    have e: "evolves e (fst ?r)" using p by simp
    have "\<not> running \<Longrightarrow> none_running (lives_of (fst ?r))" using p None by simp
    then have "evolves (fst ?r) (fst (progress_slots su now running ks (fst ?r)))"
      using Cons.IH [OF evolves_inv [OF e Cons.prems(1)]] Cons.prems(2) evolves_length [OF e] by simp
    then show ?thesis using e None by (simp add: case_prod_beta evolves_trans)
  qed
qed (simp add: evolves_same)

lemma any_running_lives: "life_inv (lives_of e) \<Longrightarrow> \<not> any_running e \<Longrightarrow> none_running (lives_of e)"
proof -
  assume inv: "life_inv (lives_of e)" and idle: "\<not> any_running e"
  have "\<not> tn_running (sl_record (slot_at e k))" if k: "k < length (eg_slots e)" for k
    using life_inv_at [OF inv, of k] k idle by (auto simp: life_ok_def any_running_def list_ex_length slot_at_def)
  then show ?thesis by (simp add: none_running_iff)
qed

definition round_start :: "'b engine_setup \<Rightarrow> operation_context \<Rightarrow> 'b engine \<Rightarrow> 'b engine" where
  "round_start su now e =
     (let e1 = collect_completions su (observe_backend_faults (e\<lparr>eg_progressing := True\<rparr>))
      in if eg_effect_owner e1 = None then e1\<lparr>eg_effect_owner := choose_owner now (eg_slots e1)\<rparr> else e1)"

lemma progress_unfold:
  "progress su now e = (if eg_progressing e then (e, Inl (err Would_deadlock))
     else map_prod (\<lambda>x. x\<lparr>eg_progressing := False\<rparr>) id
       (progress_slots su now (any_running (round_start su now e)) [0..<length (eg_slots (round_start su now e))] (round_start su now e)))"
proof -
  have "any_running (e\<lparr>eg_effect_owner := owner\<rparr>) = any_running e" for owner and e :: "'a engine" by (simp add: any_running_def)
  then show ?thesis by (simp add: progress_def round_start_def Let_def case_prod_beta map_prod_def)
qed

lemma round_start_evolves:
  "evolves e (round_start su now e) \<and> eg_device (round_start su now e) = eg_device e
   \<and> ec_quiescing (eg_core (round_start su now e)) = ec_quiescing (eg_core e)"
proof -
  let ?e0 = "observe_backend_faults (e\<lparr>eg_progressing := True\<rparr>)"
  let ?e1 = "collect_completions su ?e0"
  note c = collect_completions_evolves [of ?e0 su]
  have "evolves ?e1 (?e1\<lparr>eg_effect_owner := owner\<rparr>)" if "eg_effect_owner ?e1 = None" for owner
    using turn_step.elect [of "lives_of ?e1" owner] that by (intro evolves_step) simp
  moreover have "evolves e ?e1" using c by (simp add: evolves_def)
  ultimately show ?thesis using c by (auto simp: round_start_def Let_def intro: evolves_trans)
qed

lemma progress_evolves: "life_inv (lives_of e) \<Longrightarrow> evolves e (fst (progress su now e))"
proof -
  assume inv: "life_inv (lives_of e)"
  let ?e = "round_start su now e"
  have e: "evolves e ?e" "life_inv (lives_of ?e)" using round_start_evolves [of e su now] evolves_inv [OF _ inv] by auto
  have "evolves ?e (fst (progress_slots su now (any_running ?e) [0..<length (eg_slots ?e)] ?e))"
    using any_running_lives [OF e(2)] by (intro progress_slots_evolves) (simp_all add: e(2))
  then show ?thesis using evolves_trans [OF e(1)] by (simp add: progress_unfold evolves_same) (simp add: evolves_def)
qed

section \<open>Quiescing\<close>

definition settled :: "life \<Rightarrow> bool" where
  "settled l \<longleftrightarrow> (lf_active l \<longrightarrow> lf_complete l \<or> lf_running l)"

lemma progress_slot_quiescing:
  assumes "life_inv (lives_of e)" "k < length (eg_slots e)" "\<not> running \<Longrightarrow> none_running (lives_of e)" "ec_quiescing (eg_core e)"
  shows "snd (progress_slot su now running k e) = None \<and> eg_device (fst (progress_slot su now running k e)) = eg_device e
    \<and> ec_quiescing (eg_core (fst (progress_slot su now running k e)))
    \<and> length (eg_slots (fst (progress_slot su now running k e))) = length (eg_slots e)
    \<and> settled (life_of (slot_at (fst (progress_slot su now running k e)) k))
    \<and> (\<forall>j < length (eg_slots e). settled (life_of (slot_at e j)) \<longrightarrow> settled (life_of (slot_at (fst (progress_slot su now running k e)) j)))"
proof -
  let ?sl = "slot_at e k"
  let ?q = "put_slot k (quiesce_slot ?sl) e"
  have ok: "life_ok (eg_effect_owner e) k (life_of ?sl)" using life_inv_at [OF assms(1), of k] assms(2) by simp
  show ?thesis
  proof (cases "tn_active (sl_record ?sl) \<and> \<not> tn_complete (sl_record ?sl) \<and> \<not> tn_running (sl_record ?sl)")
    case True
    have r: "tn_active (sl_record (quiesce_slot ?sl))" "\<not> tn_running (sl_record (quiesce_slot ?sl))"
      using True by (simp_all add: quiesce_slot_def Let_def)
    have eq: "progress_slot su now running k e = (finish_slot su now k ?q, None)"
      using True assms(4) by (simp add: progress_slot_def)
    note f = finish_slot_evolves [where k = k and e = ?q and su = su and now = now]
    have k: "settled (life_of (slot_at (finish_slot su now k ?q) k))"
      using f(3) assms(2) r by (simp add: settled_def)
    have "settled (life_of (slot_at (finish_slot su now k ?q) j))" if "j < length (eg_slots e)" "settled (life_of (slot_at e j))" for j
      using f(4) [where j = j] that assms(2) r k by (cases "j = k") simp_all
    then show ?thesis unfolding eq fst_conv snd_conv using k f(2,5,6) assms(2,4) r by simp
  next
    case False
    have "progress_slot su now running k e = (e, None)"
    proof (cases "tn_running (sl_record ?sl)")
      case True
      then have "running" "cm_action (rq_cam (pl_request (sl_plan ?sl))) \<noteq> 0"
        using ok assms(2,3) life_at_lives [of k e] by (auto simp: life_ok_def none_running_iff)
      then show ?thesis using True by (simp add: progress_slot_def Let_def)
    qed (use False in \<open>simp add: progress_slot_def\<close>)
    then show ?thesis using False assms(4) by (auto simp: settled_def)
  qed
qed

lemma progress_slots_quiescing:
  assumes "life_inv (lives_of e)" "\<forall>k \<in> set ks. k < length (eg_slots e)" "\<not> running \<Longrightarrow> none_running (lives_of e)" "ec_quiescing (eg_core e)"
  shows "snd (progress_slots su now running ks e) = Inr () \<and> eg_device (fst (progress_slots su now running ks e)) = eg_device e
    \<and> ec_quiescing (eg_core (fst (progress_slots su now running ks e)))
    \<and> length (eg_slots (fst (progress_slots su now running ks e))) = length (eg_slots e)
    \<and> (\<forall>j < length (eg_slots e). j \<in> set ks \<or> settled (life_of (slot_at e j))
         \<longrightarrow> settled (life_of (slot_at (fst (progress_slots su now running ks e)) j)))"
  using assms
proof (induction ks arbitrary: e)
  case (Cons k ks)
  let ?r = "progress_slot su now running k e"
  have k: "k < length (eg_slots e)" using Cons.prems(2) by simp
  note p = progress_slot_evolves [OF Cons.prems(1) k Cons.prems(3), of running su now]
  note q = progress_slot_quiescing [OF Cons.prems(1) k Cons.prems(3,4), of running su now]
  have inv: "life_inv (lives_of (fst ?r))" using p evolves_inv [OF _ Cons.prems(1)] by blast
  have eq: "progress_slots su now running (k # ks) e = progress_slots su now running ks (fst ?r)"
    using q by (simp add: case_prod_beta)
  have "\<not> running \<Longrightarrow> none_running (lives_of (fst ?r))" using p q by simp
  note IH = Cons.IH [OF inv _ this]
  show ?case unfolding eq using IH q Cons.prems(2) by auto
qed simp

lemma progress_quiescing:
  assumes "life_inv (lives_of e)" "ec_quiescing (eg_core e)" "\<not> eg_progressing e" "progress su now e = (e', r)"
  shows "r = Inr () \<and> eg_device e' = eg_device e \<and> ec_quiescing (eg_core e') \<and> \<not> eg_progressing e'
    \<and> length (eg_slots e') = length (eg_slots e) \<and> (\<forall>k < length (eg_slots e). settled (life_of (slot_at e' k)))"
proof -
  let ?e = "round_start su now e"
  have s: "evolves e ?e" "eg_device ?e = eg_device e" "ec_quiescing (eg_core ?e)" using round_start_evolves [of e su now] assms(2) by auto
  have inv: "life_inv (lives_of ?e)" and n: "length (eg_slots ?e) = length (eg_slots e)"
    using evolves_inv [OF s(1) assms(1)] evolves_length [OF s(1)] by auto
  note p = progress_slots_quiescing [where ks = "[0..<length (eg_slots ?e)]" and su = su and now = now, OF inv _ any_running_lives [OF inv] s(3)]
  have "e' = (fst (progress_slots su now (any_running ?e) [0..<length (eg_slots ?e)] ?e))\<lparr>eg_progressing := False\<rparr>"
    "r = snd (progress_slots su now (any_running ?e) [0..<length (eg_slots ?e)] ?e)"
    using assms(3,4) by (auto simp: progress_unfold map_prod_def case_prod_beta)
  then show ?thesis using p n s(2) by simp
qed

section \<open>Cancellation\<close>

lemma disarm_same [simp]: "lives_of (fst (disarm su a e)) = lives_of e"
  by (simp add: disarm_def Let_def case_prod_beta split: option.split)

lemma complete_at_same [simp]: "lives_of (fst (complete_at su a oc e)) = lives_of e"
  by (simp add: complete_at_def Let_def case_prod_beta)

lemma take_back_same [simp]: "lives_of (fst (take_back su k i field bits e)) = lives_of e"
  unfolding take_back_def Let_def case_prod_beta by (simp add: lives_of_core split: disarm_result.split)

lemma mark_cancelled_same [simp]: "lives_of (mark_cancelled k i e) = lives_of e"
  using set_life_same [of "slot_at e k\<lparr>sl_plan := (sl_plan (slot_at e k))\<lparr>pl_cancelled := (pl_cancelled (sl_plan (slot_at e k)))[i := True]\<rparr>\<rparr>" e k]
  by (simp add: mark_cancelled_def Let_def life_of_def)

lemma fold_same: "(\<And>x e. lives_of (f x e) = lives_of e) \<Longrightarrow> lives_of (fold f xs e) = lives_of e"
  by (induction xs arbitrary: e) simp_all

lemma quiesce_fields_same: "lives_of (quiesce_fields su k e) = lives_of e"
proof -
  have "lives_of (quiesce_field su k i e) = lives_of e" for i and e :: "'a engine"
    by (simp add: quiesce_field_def Let_def)
  then show ?thesis by (simp add: quiesce_fields_def Let_def fold_same)
qed

lemma give_back_same [simp]: "lives_of (give_back c e) = lives_of e"
  by (simp add: give_back_def)

lemma cancel_credits_same: "lives_of (fst (cancel_credits su raw given e)) = lives_of e"
  by (simp add: cancel_credits_def Let_def split: prod.split sum.split)

lemma cancel_field_same: "lives_of (fst (cancel_field su k selected i acc)) = lives_of (fst acc)"
  unfolding cancel_field_def Let_def by (simp add: case_prod_beta)

lemma cancel_evolves: "evolves e (fst (cancel su e h packet now reserved))"
proof -
  have fields: "lives_of (fst (fold (cancel_field su k selected) is acc)) = lives_of (fst acc)" for k selected "is" and acc :: "'a engine \<times> bool list \<times> diagnostics list"
    by (induction "is" arbitrary: acc) (simp_all add: cancel_field_same)
  have c: "evolves x (collect_completions su x)" for x :: "'a engine" using collect_completions_evolves by blast
  have *: "evolves e (collect_completions su (fst (fold (cancel_field su k selected) is (collect_completions su e1, none, clean))))"
    if "lives_of e1 = lives_of e" for e1 :: "'a engine" and k selected "is" none clean
    using c [of e1] c [of "fst (fold (cancel_field su k selected) is (collect_completions su e1, none, clean))"]
      fields [of k selected "is" "(collect_completions su e1, none, clean)"] that
    by (simp add: evolves_def)
  show ?thesis
    unfolding cancel_def Let_def case_prod_beta
    by (simp add: cancel_credits_same evolves_same * split: sum.split)
qed

section \<open>Admission\<close>

lemma free_transaction_Some:
  "free_transaction e = Some k \<Longrightarrow> k < length (eg_slots e) \<and> \<not> tn_active (sl_record (slot_at e k)) \<and> tn_generation (sl_record (slot_at e k)) \<noteq> u64_max"
  by (auto simp: free_transaction_def find_Some_iff)

lemma accept_request_Inr:
  assumes "accept_request su e packet now = Inr r"
  shows "cm_action (rq_cam r) \<le> 2" "\<not> ec_quiescing (eg_core e)"
proof -
  have "\<not> ec_quiescing (eg_core e) \<and> request_from packet (eo_profile (es_env su)) = Inr r"
    using assms unfolding accept_request_def Let_def by (auto simp: and_then_eq_Inr split: if_split_asm)
  then show "cm_action (rq_cam r) \<le> 2" "\<not> ec_quiescing (eg_core e)" using request_from_action by blast+
qed

text \<open>A slot about to be filled.\<close>

definition vacant :: "lives \<Rightarrow> nat \<Rightarrow> bool" where
  "vacant v k \<longleftrightarrow> k < no_slots v \<and> \<not> lf_active (life_at v k) \<and> \<not> lf_running (life_at v k) \<and> lf_generation (life_at v k) \<noteq> u64_max
     \<and> \<not> lv_quiescing v"

text \<open>A command enters a vacant slot and \<open>h\<close> refers to it.\<close>

definition admits :: "'b engine \<Rightarrow> 'b engine \<Rightarrow> handle \<Rightarrow> bool" where
  "admits e e' h \<longleftrightarrow> vacant (lives_of e) (h_slot h) \<and> (\<exists>l. lives_of e' = set_life (h_slot h) l (lives_of e) \<and> lf_active l \<and> \<not> lf_running l
     \<and> lf_action l \<le> 2 \<and> lf_generation l = h_generation h \<and> lf_generation (life_at (lives_of e) (h_slot h)) = h_generation h)"

lemma admits_life: "admits e e' h \<Longrightarrow> life_step (lives_of e) (lives_of e')"
  by (auto simp: admits_def vacant_def intro!: life_step.admit)

lemma vacant_put:
  assumes "vacant (lives_of e) k" "sl_record sl = sl_record (slot_at e k)"
  shows "evolves e (put_slot k sl e)" "vacant (lives_of (put_slot k sl e)) k"
proof -
  have k: "k < length (eg_slots e)" using assms(1) by (simp add: vacant_def)
  then show "evolves e (put_slot k sl e)"
    using assms turn_step.clear [of k "lives_of e" "life_of sl"] by (intro evolves_step) (simp add: vacant_def)
  show "vacant (lives_of (put_slot k sl e)) k" using assms k by (simp add: vacant_def)
qed

lemma release_revisions_same [simp]: "lives_of (release_revisions k e) = lives_of e"
  using set_life_same [of "slot_at e k\<lparr>sl_plan := (sl_plan (slot_at e k))\<lparr>pl_revisions := fst (reservation_reset (pl_revisions (sl_plan (slot_at e k))))\<rparr>\<rparr>" e k]
  by (simp add: release_revisions_def Let_def case_prod_beta life_of_def lives_of_core)

lemma admit_tickets_same: "lives_of (fst (admit_tickets k now is e)) = lives_of e"
proof (induction "is" arbitrary: e)
  case (Cons i "is")
  let ?sl = "slot_at e k"
  have same: "set_life k (life_of (?sl\<lparr>sl_plan := (sl_plan ?sl)\<lparr>pl_tokens := t\<rparr>\<rparr>)) (lives_of e) = lives_of e"
    "set_life k (life_of (?sl\<lparr>sl_plan := (sl_plan ?sl)\<lparr>pl_tokens := t, pl_ticket_operations := o'\<rparr>\<rparr>)) (lives_of e) = lives_of e" for t o'
    by (rule set_life_same; simp add: life_of_def)+
  show ?case
    by (simp add: Let_def same Cons.IH split: prod.split sum.split)
qed simp

lemma disarm_starts_same: "lives_of (e\<lparr>eg_slots := disarm_starts env k pl (eg_slots e)\<rparr>) = lives_of e"
proof -
  have "life_of (disarm_start sl) = life_of sl" for sl
    by (simp add: disarm_start_def Let_def life_of_def)
  then have "map life_of (disarm_starts env k pl sls) = map life_of sls" for sls
    by (auto simp: disarm_starts_def intro!: nth_equalityI)
  then show ?thesis by (simp add: lives_of_def)
qed

lemma activate_admits:
  assumes "vacant (lives_of e) k" "lf_action (life_at (lives_of e) k) \<le> 2"
  shows "admits e (activate su k now credits e) \<lparr>h_slot = k, h_generation = tn_generation (sl_record (slot_at e k))\<rparr>"
proof -
  have l: "life_of (slot_at e k\<lparr>sl_credits := c, sl_record := (sl_record (slot_at e k))\<lparr>tn_active := True, tn_sequence := n\<rparr>\<rparr>)
      = (life_of (slot_at e k))\<lparr>lf_active := True\<rparr>" for c n
    by (simp add: life_of_def)
  have "lives_of (activate su k now credits e) = set_life k ((life_of (slot_at e k))\<lparr>lf_active := True\<rparr>) (lives_of e)"
    by (simp add: activate_def Let_def l)
  then show ?thesis using assms by (auto simp: admits_def vacant_def)
qed

definition enters :: "'b engine \<Rightarrow> 'b engine \<Rightarrow> handle \<Rightarrow> bool" where
  "enters e e' h \<longleftrightarrow> (\<exists>e1. evolves e e1 \<and> admits e1 e' h)"

definition admission_outcome :: "'b engine \<Rightarrow> 'b engine \<times> handle result \<Rightarrow> bool" where
  "admission_outcome e out = (case snd out of Inl _ \<Rightarrow> evolves e (fst out) | Inr h \<Rightarrow> enters e (fst out) h)"

lemma admission_outcome_after: "evolves e e1 \<Longrightarrow> admission_outcome e1 out \<Longrightarrow> admission_outcome e out"
  by (auto simp: admission_outcome_def enters_def intro: evolves_trans split: sum.split_asm sum.split)

lemma admit_plan_outcome:
  assumes "vacant (lives_of e) k" "cm_action (rq_cam r) \<le> 2"
  shows "admission_outcome e (admit_plan su k r now credits e)"
proof (cases "reserve_revisions su r")
  case (Inr revisions)
  let ?sl = "slot_at e k"
  define v where "v = validate_plan (es_env su) (armed (eg_slots e) k) (load_plan (es_env su) r now revisions) (ec_state (eg_core e))"
  define e1 where "e1 = put_slot k (?sl\<lparr>sl_plan := fst v\<rparr>) e"
  define pl where "pl = schedule_plan (es_env su) now (fst v)"
  define e2 where "e2 = put_slot k (?sl\<lparr>sl_plan := validate_boundary_state (es_env su) pl\<rparr>) e1"
  define e3 where "e3 = e2\<lparr>eg_slots := disarm_starts (es_env su) k pl (eg_slots e2)\<rparr>"
  define t where "t = admit_tickets k now [0..<4] e3"
  have eq: "admit_plan su k r now credits e = (case snd v of Inl x \<Rightarrow> (give_back credits (release_revisions k e1), Inl x)
      | Inr _ \<Rightarrow> (case snd t of Inl x \<Rightarrow> (give_back credits (fst t), Inl x) | Inr _ \<Rightarrow> (activate su k now credits (fst t),
          Inr \<lparr>h_slot = k, h_generation = tn_generation (sl_record (slot_at (fst t) k))\<rparr>)))"
    unfolding admit_plan_def Inr sum.case Let_def case_prod_beta
    by (simp add: v_def [symmetric] e1_def [symmetric] pl_def [symmetric] e2_def [symmetric] e3_def [symmetric] t_def [symmetric]
        case_prod_beta split: sum.split)
  have k: "k < length (eg_slots e)" using assms(1) by (simp add: vacant_def)
  have e1: "evolves e e1" "vacant (lives_of e1) k" unfolding e1_def using vacant_put [OF assms(1), of "?sl\<lparr>sl_plan := fst v\<rparr>"] by auto
  have e2: "evolves e1 e2" "vacant (lives_of e2) k" unfolding e2_def
    using vacant_put [OF e1(2), of "?sl\<lparr>sl_plan := validate_boundary_state (es_env su) pl\<rparr>"] k by (auto simp: e1_def)
  have t: "lives_of (fst t) = lives_of e2" by (simp add: t_def admit_tickets_same e3_def disarm_starts_same)
  have "life_at (lives_of e2) k = life_of (?sl\<lparr>sl_plan := validate_boundary_state (es_env su) pl\<rparr>)" using k by (simp add: e2_def e1_def)
  then have "lf_action (life_at (lives_of e2) k) \<le> 2" using assms(2) by (simp add: pl_def v_def)
  then have "admits (fst t) (activate su k now credits (fst t)) \<lparr>h_slot = k, h_generation = tn_generation (sl_record (slot_at (fst t) k))\<rparr>"
    using activate_admits [of "fst t" k] e2(2) t by simp
  moreover have "evolves e (fst t)" using evolves_trans [OF e1(1) e2(1)] t by (simp add: evolves_def)
  ultimately show ?thesis
    using e1(1) by (auto simp: eq admission_outcome_def enters_def evolves_def split: sum.split)
qed (simp add: admit_plan_def admission_outcome_def evolves_same)

lemma clear_slot_vacant:
  assumes "k < length (eg_slots e)" "\<not> tn_active (sl_record (slot_at e k))" "tn_generation (sl_record (slot_at e k)) \<noteq> u64_max"
    "\<not> ec_quiescing (eg_core e)"
  shows "evolves e (clear_slot k e)" "vacant (lives_of (clear_slot k e)) k"
proof -
  define sl where "sl = slot_at e k\<lparr>sl_plan := fresh_storage, sl_record := (sl_record (slot_at e k))\<lparr>tn_responses := [], tn_complete := False,
             tn_revalidated := False, tn_running := False, tn_step := 0, tn_response_read := 0,
             tn_hypothetical := ec_state (eg_core e)\<rparr>\<rparr>"
  have l: "lives_of (clear_slot k e) = set_life k (life_of sl) (lives_of e)"
    by (simp add: clear_slot_def Let_def sl_def lives_of_core)
  then show "evolves e (clear_slot k e)"
    using assms turn_step.clear [of k "lives_of e" "life_of sl"] by (intro evolves_step) (simp add: sl_def)
  show "vacant (lives_of (clear_slot k e)) k" using assms by (simp add: l vacant_def sl_def)
qed

lemma accept_outcome: "admission_outcome e (accept su e packet now)"
proof -
  let ?e0 = "observe_backend_faults e"
  let ?e1 = "observe_backend_faults ?e0"
  have same: "lives_of ?e0 = lives_of e" "lives_of ?e1 = lives_of e" by simp_all
  show ?thesis
  proof (cases "accept_request su ?e0 packet now")
    case (Inr r)
    note r = accept_request_Inr [OF Inr]
    show ?thesis
    proof (cases "free_transaction ?e0")
      case (Some k)
      note f = free_transaction_Some [OF this]
      have *: "admission_outcome e (admit_plan su k r now credits (clear_slot k (?e1\<lparr>eg_pool := pool\<rparr>)))" for pool credits
      proof -
        let ?e = "?e1\<lparr>eg_pool := pool\<rparr>"
        have v: "k < length (eg_slots ?e)" "\<not> tn_active (sl_record (slot_at ?e k))" "tn_generation (sl_record (slot_at ?e k)) \<noteq> u64_max"
          "\<not> ec_quiescing (eg_core ?e)"
          using f r(2) by simp_all
        have "evolves e (clear_slot k ?e)" using clear_slot_vacant(1) [OF v] by (simp add: evolves_def)
        then show ?thesis using admit_plan_outcome [OF clear_slot_vacant(2) [OF v] r(1)] by (rule admission_outcome_after)
      qed
      have refused: "admission_outcome e (e', Inl x)" if "lives_of e' = lives_of e" for e' x
        using that by (simp add: admission_outcome_def evolves_same)
      show ?thesis unfolding accept_def Let_def
        by (simp add: Inr Some * refused split: prod.split sum.split)
    qed (simp add: accept_def Let_def Inr admission_outcome_def evolves_same)
  qed (simp add: accept_def Let_def admission_outcome_def evolves_same)
qed

section \<open>Every operation\<close>

lemma take_response_same: "lives_of (fst (take_response e h)) = lives_of e"
proof -
  let ?sl = "slot_at e (h_slot h)"
  have "set_life (h_slot h) (life_of (?sl\<lparr>sl_record := (sl_record ?sl)\<lparr>tn_response_read := n\<rparr>\<rparr>)) (lives_of e) = lives_of e" for n
    by (rule set_life_same) (simp add: life_of_def)
  then show ?thesis by (simp add: take_response_def Let_def)
qed

lemma release_cases:
  "(\<exists>x. release e h = (e, Inl x))
   \<or> (snd (release e h) = Inr () \<and> h_slot h < length (eg_slots e) \<and> live_handle e h \<and> tn_complete (sl_record (slot_at e (h_slot h)))
      \<and> lives_of (fst (release e h)) = set_life (h_slot h) ((life_of (slot_at e (h_slot h)))\<lparr>lf_active := False,
          lf_generation := wrap64 (tn_generation (sl_record (slot_at e (h_slot h))) + 1)\<rparr>) (lives_of e))"
  by (simp add: release_def Let_def case_prod_beta) (simp add: life_of_def)

lemma release_life: "life_step\<^sup>*\<^sup>* (lives_of e) (lives_of (fst (release e h)))"
  using release_cases [of e h] life_step.release [of "h_slot h" "lives_of e"]
  by (auto simp: live_handle_def r_into_rtranclp)

lemma reset_state_evolves: "life_inv (lives_of e) \<Longrightarrow> evolves e (fst (reset_state su e s g))"
proof -
  assume inv: "life_inv (lives_of e)"
  show ?thesis
  proof (cases "safe_to_reset su e")
    case True
    then have "filter (\<lambda>sl. tn_active (sl_record sl)) (eg_slots e) = []"
      by (simp add: safe_to_reset_def drain_status_def Let_def)
    then have idle: "\<forall>sl \<in> set (eg_slots e). \<not> tn_active (sl_record sl)" by (simp add: filter_empty_conv)
    then have none: "none_running (lives_of e)"
      using life_inv_at [OF inv] by (auto simp: none_running_iff life_ok_def slot_at_def)
    let ?v = "(lives_of e)\<lparr>lv_owner := None\<rparr>"
    have "turn_step ?v (?v\<lparr>lv_quiescing := False\<rparr>)" using idle by (intro turn_step.reopen) (simp add: lives_of_def)
    with turn_step.yield [OF none] have "turn_step\<^sup>*\<^sup>* (lives_of e) (?v\<lparr>lv_quiescing := False\<rparr>)" by (meson converse_rtranclp_into_rtranclp r_into_rtranclp)
    then show ?thesis by (simp add: reset_state_def evolves_def lives_of_def split: sum.split)
  qed (simp add: reset_state_def evolves_same split: sum.split)
qed

lemma begin_quiesce_evolves:
  "evolves e (fold (quiesce_fields su) [0..<n] (collect_completions su (e\<lparr>eg_core := (eg_core e)\<lparr>ec_quiescing := True\<rparr>\<rparr>)))"
proof -
  let ?e0 = "e\<lparr>eg_core := (eg_core e)\<lparr>ec_quiescing := True\<rparr>\<rparr>"
  have "evolves e ?e0" using turn_step.quiesce [of "lives_of e"] by (intro evolves_step) (simp add: lives_of_def)
  then have "evolves e (collect_completions su ?e0)" using collect_completions_evolves evolves_trans by blast
  moreover have "lives_of (fold (quiesce_fields su) [0..<n] x) = lives_of x" for x by (rule fold_same) (rule quiesce_fields_same)
  ultimately show ?thesis by (simp add: evolves_def)
qed

lemma request_quiesce_evolves: "life_inv (lives_of e) \<Longrightarrow> evolves e (fst (request_quiesce su now e))"
  using evolves_trans [OF begin_quiesce_evolves [of e su] progress_evolves [OF evolves_inv [OF begin_quiesce_evolves [of e su]], of _ su now]]
  by (simp add: request_quiesce_def Let_def evolves_same)

text \<open>Everything that can happen to an engine. Between the calls the device may complete, fail or take back
  whatever it likes: it and the result storage become arbitrary.\<close>

datatype 'b engine_op = Accept packet_view operation_context | Progress operation_context
  | Cancel handle packet_view operation_context admission_bundle | Request_quiesce operation_context
  | Reset_state state_snapshot nat | Take_response handle | Release handle | Device_acts 'b device_results

primrec engine_step :: "'b engine_setup \<Rightarrow> 'b engine_op \<Rightarrow> 'b engine \<Rightarrow> 'b engine" where
  "engine_step su (Accept packet now) e = fst (accept su e packet now)"
| "engine_step su (Progress now) e = fst (progress su now e)"
| "engine_step su (Cancel h packet now reserved) e = fst (cancel su e h packet now reserved)"
| "engine_step su (Request_quiesce now) e = fst (request_quiesce su now e)"
| "engine_step su (Reset_state s g) e = fst (reset_state su e s g)"
| "engine_step su (Take_response h) e = fst (take_response e h)"
| "engine_step su (Release h) e = fst (release e h)"
| "engine_step su (Device_acts d w) e = e\<lparr>eg_device := d, eg_results := w\<rparr>"

definition run_engine :: "'b engine_setup \<Rightarrow> 'b engine_op list \<Rightarrow> 'b engine \<Rightarrow> 'b engine" where
  "run_engine su ops e = fold (engine_step su) ops e"

definition engine_inv :: "'b engine \<Rightarrow> bool" where
  "engine_inv e \<longleftrightarrow> life_inv (lives_of e)"

lemma accept_life: "life_step\<^sup>*\<^sup>* (lives_of e) (lives_of (fst (accept su e packet now)))"
  using accept_outcome [of e su packet now]
  by (auto simp: admission_outcome_def enters_def dest!: evolves_life admits_life split: sum.split_asm
      intro: rtranclp.rtrancl_into_rtrancl)

lemma engine_step_life: "engine_inv e \<Longrightarrow> life_step\<^sup>*\<^sup>* (lives_of e) (lives_of (engine_step su op e))"
  unfolding engine_inv_def
  by (cases op) (simp_all add: accept_life release_life take_response_same progress_evolves cancel_evolves request_quiesce_evolves
      reset_state_evolves evolves_life)

lemma run_engine_life:
  "engine_inv e \<Longrightarrow> life_step\<^sup>*\<^sup>* (lives_of e) (lives_of (run_engine su ops e)) \<and> engine_inv (run_engine su ops e)"
  unfolding run_engine_def
proof (induction ops arbitrary: e)
  case (Cons op ops)
  have step: "life_step\<^sup>*\<^sup>* (lives_of e) (lives_of (engine_step su op e))" by (rule engine_step_life [OF Cons.prems])
  then have "engine_inv (engine_step su op e)" using Cons.prems life_steps_inv by (simp add: engine_inv_def)
  then show ?case using Cons.IH [of "engine_step su op e"] rtranclp_trans [OF step] by simp
qed simp

lemma new_engine_inv: "engine_inv (new_engine su n pool device s)"
  by (simp add: engine_inv_def life_inv_def lives_of_def no_slots_def life_at_def new_engine_def life_ok_def life_of_def idle_slot_def u64_max_def)

section \<open>Properties\<close>

text \<open>C5: Whatever commands are accepted, cancelled, released or interrupted by quiescence and reset, in
  whatever order, and whatever the device does in between, at most one command has an operation at the
  device: it is the owner of the effect stage, active, not complete, and asked to execute.\<close>

theorem one_command_acts:
  "let e = run_engine su ops (new_engine su n pool device s)
   in {k. k < length (eg_slots e) \<and> tn_running (sl_record (slot_at e k))}
     \<subseteq> {k. eg_effect_owner e = Some k \<and> tn_active (sl_record (slot_at e k)) \<and> \<not> tn_complete (sl_record (slot_at e k))
          \<and> cm_action (rq_cam (pl_request (sl_plan (slot_at e k)))) = 2}"
proof -
  let ?e = "run_engine su ops (new_engine su n pool device s)"
  have inv: "life_inv (lives_of ?e)" using run_engine_life [where su = su and ops = ops, OF new_engine_inv [of su n pool device s]] unfolding engine_inv_def by (rule conjunct2)
  have "eg_effect_owner ?e = Some k \<and> tn_active (sl_record (slot_at ?e k)) \<and> \<not> tn_complete (sl_record (slot_at ?e k))
      \<and> cm_action (rq_cam (pl_request (sl_plan (slot_at ?e k)))) = 2"
    if "k < length (eg_slots ?e)" "tn_running (sl_record (slot_at ?e k))" for k
    using life_inv_at [OF inv, of k] that by (simp add: life_ok_def)
  then show ?thesis unfolding Let_def by blast
qed

lemma release_Inr:
  assumes "release e h = (e1, Inr ())" "engine_inv e"
  shows "engine_inv e1" "h_slot h < length (eg_slots e1)" "h_generation h < tn_generation (sl_record (slot_at e1 (h_slot h)))"
proof -
  let ?sl = "slot_at e (h_slot h)"
  have ok: "h_slot h < length (eg_slots e)" "live_handle e h"
    using assms(1) by (auto simp: release_def Let_def split: if_split_asm)
  have e1: "life_step\<^sup>*\<^sup>* (lives_of e) (lives_of e1)" using release_life [of e h] assms(1) by simp
  show "engine_inv e1" using life_steps_inv [OF e1] assms(2) by (simp add: engine_inv_def)
  show "h_slot h < length (eg_slots e1)" using life_steps_ages [OF e1] assms(2) ok by (simp add: engine_inv_def ages_def)
  have "tn_generation (sl_record ?sl) < u64_max"
    using life_inv_at [of "lives_of e" "h_slot h"] assms(2) ok by (simp add: engine_inv_def life_ok_def live_handle_def)
  moreover have "tn_generation (sl_record (slot_at e1 (h_slot h))) = wrap64 (tn_generation (sl_record ?sl) + 1)"
    using assms(1) ok by (auto simp: release_def Let_def case_prod_beta split: if_split_asm)
  ultimately show "h_generation h < tn_generation (sl_record (slot_at e1 (h_slot h)))"
    using ok by (simp add: live_handle_def wrap64_def u64_max_def)
qed

text \<open>C17: Once a handle has been released no sequence of operations makes it valid again, although its slot
  is used for other commands: the generation of a slot only grows and a slot whose generation is used up
  is not given out.\<close>

theorem released_handle_stays_stale:
  assumes "engine_inv e" "release e h = (e1, Inr ())"
  shows "\<not> live_handle (run_engine su ops e1) h"
proof -
  note r = release_Inr [OF assms(2,1)]
  have "ages (lives_of e1) (lives_of (run_engine su ops e1))"
    using run_engine_life [OF r(1), of su ops] r(1) life_steps_ages by (simp add: engine_inv_def)
  then have "tn_generation (sl_record (slot_at e1 (h_slot h))) \<le> tn_generation (sl_record (slot_at (run_engine su ops e1) (h_slot h)))"
    using r(2) life_at_lives [of "h_slot h" "run_engine su ops e1"] unfolding ages_def by fastforce
  then show ?thesis using r(3) by (simp add: live_handle_def)
qed

lemma accept_quiescing: "ec_quiescing (eg_core e) \<Longrightarrow> \<exists>x y. accept su e packet now = (x, Inl y)"
  by (simp add: accept_def accept_request_def Let_def)

text \<open>C14: While the engine is quiescing a call of \<open>progress\<close> succeeds, gives the device nothing to do, and leaves
  every command either complete or with its operation still at the device; no new command is accepted.\<close>

theorem quiescing_engine_drains:
  assumes "engine_inv e" "ec_quiescing (eg_core e)" "\<not> eg_progressing e" "progress su now e = (e', r)"
  shows "r = Inr () \<and> eg_device e' = eg_device e \<and> (\<exists>x y. accept su e' packet later = (x, Inl y))
    \<and> (\<forall>k < length (eg_slots e'). tn_active (sl_record (slot_at e' k)) \<longrightarrow>
         tn_complete (sl_record (slot_at e' k)) \<or> tn_running (sl_record (slot_at e' k)))"
  using progress_quiescing [OF _ assms(2-4)] assms(1) accept_quiescing [of e' su packet later]
  by (simp add: engine_inv_def settled_def)

section \<open>Concrete engines\<close>

definition sample_setup :: "virtual_backend engine_setup" where
  "sample_setup = \<lparr>es_env = sample_sim_env, es_reserve = None, es_external_retention = True, es_pool_id = 0, es_plan_bytes = 0,
     es_backend = virtual_binding 0, es_now_ns = id\<rparr>"

text \<open>An engine of one slot that holds a command not yet complete, and one that holds a complete command.\<close>

definition sample_engine :: "virtual_backend engine" where
  "sample_engine = put_slot 0 sample_sim_slot (new_engine sample_setup 1 (make_pool empty_request) (new_virtual 4) default_snapshot)"

definition sample_complete :: "virtual_backend engine" where
  "sample_complete = put_slot 0 (sample_sim_slot\<lparr>sl_record := (sl_record sample_sim_slot)\<lparr>tn_complete := True\<rparr>\<rparr>) sample_engine"

definition sample_quiescing :: "virtual_backend engine" where
  "sample_quiescing = sample_engine\<lparr>eg_core := (eg_core sample_engine)\<lparr>ec_quiescing := True\<rparr>\<rparr>"

lemmas sample_engines = sample_engine_def sample_complete_def sample_quiescing_def

lemma sample_engines_inv: "engine_inv sample_complete" "engine_inv sample_quiescing"
  by (simp_all add: engine_inv_def life_inv_def lives_of_def no_slots_def life_at_def sample_engines put_slot_def new_engine_def life_ok_def
      life_of_def sample_sim_slot_def u64_max_def)

theorem released_handle_stays_stale_witness:
  "snd (release sample_complete \<lparr>h_slot = 0, h_generation = 1\<rparr>) = Inr ()
   \<and> \<not> live_handle (run_engine sample_setup [Release \<lparr>h_slot = 0, h_generation = 1\<rparr>]
         (fst (release sample_complete \<lparr>h_slot = 0, h_generation = 1\<rparr>))) \<lparr>h_slot = 0, h_generation = 1\<rparr>"
proof -
  let ?h = "\<lparr>h_slot = 0, h_generation = 1\<rparr>"
  have ok: "snd (release sample_complete ?h) = Inr ()"
    by (simp add: release_def Let_def case_prod_beta live_handle_def sample_complete_def sample_engine_def new_engine_def put_slot_def
        slot_at_def sample_sim_slot_def)
  then have "release sample_complete ?h = (fst (release sample_complete ?h), Inr ())" by (metis prod.collapse)
  from released_handle_stays_stale [OF sample_engines_inv(1) this] ok show ?thesis by blast
qed

theorem quiescing_engine_drains_witness:
  "\<forall>now. snd (progress sample_setup now sample_quiescing) = Inr ()
     \<and> eg_device (fst (progress sample_setup now sample_quiescing)) = new_virtual 4"
proof
  fix now
  have "ec_quiescing (eg_core sample_quiescing)" "\<not> eg_progressing sample_quiescing" "eg_device sample_quiescing = new_virtual 4"
    by (simp_all add: sample_quiescing_def sample_engine_def new_engine_def put_slot_def)
  then show "snd (progress sample_setup now sample_quiescing) = Inr ()
      \<and> eg_device (fst (progress sample_setup now sample_quiescing)) = new_virtual 4"
    using quiescing_engine_drains [OF sample_engines_inv(2), of sample_setup now "fst (progress sample_setup now sample_quiescing)"
        "snd (progress sample_setup now sample_quiescing)"] by simp
qed

end
