(* ===== verification/Manager.thy ===== *)
theory Manager
  imports Engine_Safety
begin

text \<open>
  The transaction manager (\<^verbatim>\<open>runtime/transaction/manager.hpp\<close>), which drives an engine and the retention
  store: commands and cancellations are recognised as duplicates or reserved in the store before they are
  admitted, and their acknowledgements are moved from the engine into the store. The engine, the store
  and the manager share one admission pool, kept in the engine's record. Parsing a stored packet and the object
  representation of an acknowledgement are parameters. The lemmas show that the manager and the engine
  agree on which commands are in progress, whatever the device, the parser and the store do.
\<close>

section \<open>State\<close>

record 'b manager_setup =
  ms_engine :: "'b engine_setup"
  ms_decode :: "bytes \<Rightarrow> packet_view result"
  ms_image :: "ack_record \<Rightarrow> bytes"
  ms_ack_size :: nat
  ms_monotonic_ids :: bool

record pending_cancel =
  pc_token :: retention_token
  pc_credits :: admission_bundle
  pc_requested :: protocol_time
  pc_timing :: timing_capabilities
  pc_association_generation :: nat
  pc_mapping_generation :: nat
  pc_timing_valid :: bool

record 'b manager =
  mg_engine :: "'b engine"
  mg_store :: retention_store
  mg_active :: "(retention_token \<times> handle) option list"
  mg_cancellations :: "pending_cancel option list"
  mg_progressing :: bool
  mg_closed :: bool
  mg_quiescing :: bool
  mg_closed_generation :: nat
  mg_highwater_id :: nat

definition new_manager :: "nat \<Rightarrow> nat \<Rightarrow> 'b engine \<Rightarrow> retention_store \<Rightarrow> 'b manager" where
  "new_manager transactions cancels e s = \<lparr>mg_engine = e, mg_store = s, mg_active = replicate transactions None,
     mg_cancellations = replicate cancels None, mg_progressing = False, mg_closed = False, mg_quiescing = False,
     mg_closed_generation = 0, mg_highwater_id = 0\<rparr>"

text \<open>An operation of the store, with the shared pool.\<close>

definition on_store :: "(retention_store \<Rightarrow> retention_store \<times> 'a) \<Rightarrow> 'b manager \<Rightarrow> 'b manager \<times> 'a" where
  "on_store f m = (let (s, r) = f ((mg_store m)\<lparr>rs_pool := eg_pool (mg_engine m)\<rparr>)
     in (m\<lparr>mg_store := s, mg_engine := (mg_engine m)\<lparr>eg_pool := rs_pool s\<rparr>\<rparr>, r))"

definition raw_cam :: "packet_view \<Rightarrow> u32" where
  "raw_cam packet = (case env_command (view_envelope (pv_envelope packet)) of Some c \<Rightarrow> cmd_cam c | None \<Rightarrow> 0)"

definition timing_mode :: "packet_view \<Rightarrow> nat" where
  "timing_mode packet = unat (cam_timing (raw_cam packet))"

section \<open>Finishing a cancellation\<close>

definition cancel_allowed :: "pending_cancel \<Rightarrow> operation_context \<Rightarrow> nat \<Rightarrow> bool" where
  "cancel_allowed p now mode \<longleftrightarrow> mode = 0 \<or> (pc_timing_valid p \<and> clock_interval_fits now mode (pc_requested p) (pc_timing p)
     \<and> clock_qualified (oc_clock now))"

text \<open>The credits of the pending cancellation move into the result.\<close>

definition cancel_result :: "'b manager_setup \<Rightarrow> operation_context \<Rightarrow> packet_view \<Rightarrow> bool list \<Rightarrow> handle option \<Rightarrow> pending_cancel
    \<Rightarrow> 'b engine \<Rightarrow> 'b engine \<times> cancellation_result result" where
  "cancel_result su now packet selected target p e =
     (let mode = timing_mode packet; allowed = cancel_allowed p now mode in
      case (allowed, target) of
        (True, Some h) \<Rightarrow> cancel (ms_engine su) e h packet
          (now\<lparr>oc_association_generation := pc_association_generation p, oc_timing := pc_timing p\<rparr>) (pc_credits p)
      | _ \<Rightarrow> (e, Inr (cancellation_response packet (raw_cam packet) (ec_state (eg_core e)) (oc_clock now) selected
          (replicate state_field_capacity False)
          (map (\<lambda>b. if b then \<lparr>dg_warnings = 0, dg_errors = not_executed\<rparr> else no_diagnostics) selected)
          (pc_credits p) (if allowed then mode else 7))))"

primrec append_all :: "'b manager_setup \<Rightarrow> retention_token \<Rightarrow> ack_record list \<Rightarrow> 'b manager \<Rightarrow> 'b manager \<times> unit result" where
  "append_all su t [] m = (m, Inr ())"
| "append_all su t (ack # acks) m =
     (case on_store (append_response (ms_ack_size su) t (ak_cancellation ack) (ms_image su ack)) m of
        (m', Inl x) \<Rightarrow> (m', Inl x) | (m', Inr _) \<Rightarrow> append_all su t acks m')"

definition settle_cancel :: "'b manager_setup \<Rightarrow> operation_context \<Rightarrow> retention_token \<Rightarrow> ack_record list \<Rightarrow> 'b manager
    \<Rightarrow> 'b manager \<times> unit result" where
  "settle_cancel su now t acks m =
     (case append_all su t acks m of (m1, Inl x) \<Rightarrow> (m1, Inl x)
      | (m1, Inr _) \<Rightarrow>
          case on_store (complete_record t (oc_monotonic now)) m1 of (m2, Inl x) \<Rightarrow> (m2, Inl x)
          | (m2, Inr _) \<Rightarrow> on_store (release_token t) m2)"

definition finish_cancel :: "'b manager_setup \<Rightarrow> operation_context \<Rightarrow> nat \<Rightarrow> pending_cancel \<Rightarrow> 'b manager \<Rightarrow> 'b manager \<times> unit result" where
  "finish_cancel su now i p m =
     (case and_then (canonical_of (pc_token p) (mg_store m)) (\<lambda>wire. and_then (ms_decode su wire) (\<lambda>packet.
         and_then (cancellation_selectors packet) (\<lambda>selected.
         and_then (engine_handle ((pc_token p)\<lparr>rt_cancellation := False\<rparr>) (mg_store m)) (\<lambda>target. Inr (packet, selected, target))))) of
        Inl x \<Rightarrow> (m, Inl x)
      | Inr (packet, selected, target) \<Rightarrow>
          let (e, result) = cancel_result su now packet selected target p (mg_engine m);
              m1 = m\<lparr>mg_engine := e, mg_cancellations := (mg_cancellations m)[i := Some (p\<lparr>pc_credits := null_bundle\<rparr>)]\<rparr>
          in case result of Inl x \<Rightarrow> (m1, Inl x)
          | Inr c \<Rightarrow> let (m2, r) = settle_cancel su now (pc_token p) (cn_responses c) m1
              in (m2\<lparr>mg_engine := give_back (cn_credits c) (mg_engine m2)\<rparr>, r))"

section \<open>Admission\<close>

definition give_up :: "retention_token \<Rightarrow> error \<Rightarrow> 'b manager \<Rightarrow> 'b manager \<times> retention_admission result" where
  "give_up t x m = (fst (on_store (rollback t) m), Inl x)"

definition admit_command :: "'b manager_setup \<Rightarrow> packet_view \<Rightarrow> operation_context \<Rightarrow> nat \<Rightarrow> retention_admission \<Rightarrow> 'b manager
    \<Rightarrow> 'b manager \<times> retention_admission result" where
  "admit_command su packet now mid a m =
     (case find (\<lambda>i. mg_active m ! i = None) [0..<length (mg_active m)] of
        None \<Rightarrow> give_up (ra_token a) (err Capacity_exhausted) m
      | Some i \<Rightarrow>
          case accept (ms_engine su) (mg_engine m) packet now of
            (e, Inl x) \<Rightarrow> give_up (ra_token a) x (m\<lparr>mg_engine := e\<rparr>)
          | (e, Inr h) \<Rightarrow>
              let m1 = fst (on_store (bind_engine (ra_token a) (Some h)) (m\<lparr>mg_engine := e\<rparr>));
                  m2 = fst (on_store (retain_token (ra_token a)) m1)
              in (m2\<lparr>mg_active := (mg_active m2)[i := Some (ra_token a, h)],
                     mg_highwater_id := (if ms_monotonic_ids su then mid else mg_highwater_id m2)\<rparr>, Inr a))"

definition cancel_boundary :: "protocol_time \<Rightarrow> operation_context \<Rightarrow> boundary" where
  "cancel_boundary requested now = \<lparr>bd_time = requested, bd_sample_ordinal = 0,
     bd_mapping_generation = cs_mapping_generation (oc_clock now), bd_committed = False, bd_backend_ready = True,
     bd_quantization_uncertainty_ps = 0\<rparr>"

definition requested_instant :: "packet_view \<Rightarrow> protocol_time" where
  "requested_instant packet = (let ts = env_timestamp (view_envelope (pv_envelope packet))
     in Protocol_time (unat (ts_integer ts)) (unat (ts_fractional ts)))"

definition cancel_schedulable :: "packet_view \<Rightarrow> operation_context \<Rightarrow> unit result" where
  "cancel_schedulable packet now =
     (let mode = timing_mode packet; ts = env_timestamp (view_envelope (pv_envelope packet)); requested = requested_instant packet in
      if mode = 0 then Inr ()
      else if ts_tsi ts \<noteq> epoch_tsi (cs_epoch (oc_clock now)) \<or> ts_tsf ts \<noteq> Tsf_picoseconds
         \<or> (\<not> tc_injected (oc_timing now) \<and> \<not> tc_qualified (oc_timing now))
      then Inl (err Unsupported_capability)
      else and_then (choose_boundary mode requested (oc_clock now) [cancel_boundary requested now] (oc_timing now)) (\<lambda>_. Inr ()))"

definition cancel_acceptable :: "'b manager_setup \<Rightarrow> packet_view \<Rightarrow> operation_context \<Rightarrow> retention_token \<Rightarrow> 'b manager \<Rightarrow> unit result" where
  "cancel_acceptable su packet now t m =
     and_then (cancellation_selectors packet) (\<lambda>selected.
     and_then (canonical_of (t\<lparr>rt_cancellation := False\<rparr>) (mg_store m)) (\<lambda>wire.
     and_then (ms_decode su wire) (\<lambda>original.
       if \<not> same_class (env_class_id (view_envelope (pv_envelope packet))) (env_class_id (view_envelope (pv_envelope original)))
          \<or> cam_action (raw_cam original) \<noteq> 2 then Inl (err Invalid_argument)
       else if list_ex (\<lambda>i. selected ! i \<and> \<not> list_ex (\<lambda>v. fv_id v = state_fields ! i) (pv_fields original)) [0..<state_field_capacity]
       then Inl (err Invalid_argument)
       else cancel_schedulable packet now)))"

definition admit_cancellation :: "'b manager_setup \<Rightarrow> packet_view \<Rightarrow> operation_context \<Rightarrow> retention_admission \<Rightarrow> 'b manager
    \<Rightarrow> 'b manager \<times> retention_admission result" where
  "admit_cancellation su packet now a m =
     (case cancel_acceptable su packet now (ra_token a) m of Inl x \<Rightarrow> give_up (ra_token a) x m
      | Inr _ \<Rightarrow>
          case find (\<lambda>i. mg_cancellations m ! i = None) [0..<length (mg_cancellations m)] of
            None \<Rightarrow> give_up (ra_token a) (err Capacity_exhausted) m
          | Some i \<Rightarrow>
              case pool_acquire (es_pool_id (ms_engine su)) (eg_pool (mg_engine m)) (cancellation_resources (raw_cam packet)) of
                (pool, Inl x) \<Rightarrow> give_up (ra_token a) x (m\<lparr>mg_engine := (mg_engine m)\<lparr>eg_pool := pool\<rparr>\<rparr>)
              | (pool, Inr credits) \<Rightarrow>
                  let m1 = fst (on_store (bind_engine (ra_token a) None) (m\<lparr>mg_engine := (mg_engine m)\<lparr>eg_pool := pool\<rparr>\<rparr>));
                      m2 = fst (on_store (retain_token (ra_token a)) m1)
                  in (m2\<lparr>mg_cancellations := (mg_cancellations m2)[i := Some \<lparr>pc_token = ra_token a, pc_credits = credits,
                        pc_requested = requested_instant packet, pc_timing = oc_timing now,
                        pc_association_generation = oc_association_generation now,
                        pc_mapping_generation = cs_mapping_generation (oc_clock now), pc_timing_valid = True\<rparr>]\<rparr>, Inr a))"

definition manager_accept :: "'b manager_setup \<Rightarrow> 'b manager \<Rightarrow> packet_view \<Rightarrow> operation_context \<Rightarrow> peer_session
    \<Rightarrow> 'b manager \<times> retention_admission result" where
  "manager_accept su m packet now peer =
     (if mg_progressing m \<or> \<not> es_external_retention (ms_engine su) then (m, Inl (err Invalid_state))
      else case transaction_key_of packet (oc_association_generation now) peer of Inl x \<Rightarrow> (m, Inl x)
      | Inr key \<Rightarrow>
          if mg_closed m then on_store (replay_existing key packet) m
          else let c = env_cancel (view_envelope (pv_envelope packet)); mid = unat (tk_message_id key) in
            if ms_monotonic_ids su \<and> mid = 0 then (m, Inl (err Invalid_argument))
            else if ms_monotonic_ids su \<and> \<not> c \<and> mid \<le> mg_highwater_id m then on_store (replay_existing key packet) m
            else case on_store (reserve (ms_ack_size su) (es_pool_id (ms_engine su)) key packet (if c then 2 else 3)) m of
              (m1, Inl x) \<Rightarrow> (m1, Inl x)
            | (m1, Inr a) \<Rightarrow>
                if ra_kind a \<noteq> Dup_fresh then (m1, Inr a)
                else if \<not> c then admit_command su packet now mid a m1 else admit_cancellation su packet now a m1)"

section \<open>Progress\<close>

primrec in_turn :: "(nat \<Rightarrow> 'b manager \<Rightarrow> 'b manager \<times> unit result) \<Rightarrow> nat list \<Rightarrow> 'b manager \<Rightarrow> 'b manager \<times> unit result" where
  "in_turn f [] m = (m, Inr ())"
| "in_turn f (i # is) m = (case f i m of (m', Inl x) \<Rightarrow> (m', Inl x) | (m', Inr _) \<Rightarrow> in_turn f is m')"

definition remap_cancel :: "operation_context \<Rightarrow> nat \<Rightarrow> pending_cancel \<Rightarrow> pending_cancel" where
  "remap_cancel now mode p =
     (if mode \<noteq> 0 \<and> pc_mapping_generation p \<noteq> cs_mapping_generation (oc_clock now)
      then p\<lparr>pc_timing_valid := (case choose_boundary mode (pc_requested p) (oc_clock now) [cancel_boundary (pc_requested p) now]
               (pc_timing p) of Inl _ \<Rightarrow> False | Inr _ \<Rightarrow> True),
             pc_mapping_generation := cs_mapping_generation (oc_clock now)\<rparr>
      else p)"

definition progress_cancel :: "'b manager_setup \<Rightarrow> operation_context \<Rightarrow> nat \<Rightarrow> 'b manager \<Rightarrow> 'b manager \<times> unit result" where
  "progress_cancel su now i m =
     (case mg_cancellations m ! i of None \<Rightarrow> (m, Inr ())
      | Some p0 \<Rightarrow>
          case and_then (canonical_of (pc_token p0) (mg_store m)) (ms_decode su) of Inl x \<Rightarrow> (m, Inl x)
          | Inr view \<Rightarrow>
              let mode = timing_mode view; p1 = remap_cancel now mode p0;
                  p = (if mg_quiescing m then p1\<lparr>pc_timing_valid := False\<rparr> else p1);
                  m1 = m\<lparr>mg_cancellations := (mg_cancellations m)[i := Some p]\<rparr>
              in if mode \<noteq> 0 \<and> clock_qualified (oc_clock now) \<and> pc_timing_valid p \<and> cs_time (oc_clock now) < pc_requested p
                 then (m1, Inr ())
                 else case finish_cancel su now i p m1 of (m2, Inl x) \<Rightarrow> (m2, Inl x)
                   | (m2, Inr _) \<Rightarrow> (m2\<lparr>mg_cancellations := (mg_cancellations m2)[i := None]\<rparr>, Inr ()))"

text \<open>The loop that moves acknowledgements into the store, over the positions still unread.\<close>

primrec store_responses :: "'b manager_setup \<Rightarrow> retention_token \<Rightarrow> handle \<Rightarrow> nat list \<Rightarrow> 'b manager \<Rightarrow> 'b manager \<times> unit result" where
  "store_responses su t h [] m =
     (case take_response (mg_engine m) h of (e, Inl x) \<Rightarrow> (m\<lparr>mg_engine := e\<rparr>, Inl x) | (e, Inr _) \<Rightarrow> (m\<lparr>mg_engine := e\<rparr>, Inr ()))"
| "store_responses su t h (i # is) m =
     (case take_response (mg_engine m) h of
        (e, Inl x) \<Rightarrow> (m\<lparr>mg_engine := e\<rparr>, Inl x)
      | (e, Inr None) \<Rightarrow> (m\<lparr>mg_engine := e\<rparr>, Inr ())
      | (e, Inr (Some ack)) \<Rightarrow>
          case on_store (append_response (ms_ack_size su) t (ak_cancellation ack) (ms_image su ack)) (m\<lparr>mg_engine := e\<rparr>) of
            (m', Inl x) \<Rightarrow> (m', Inl x) | (m', Inr _) \<Rightarrow> store_responses su t h is m')"

definition unread :: "'b engine \<Rightarrow> handle \<Rightarrow> nat list" where
  "unread e h = (let rec = sl_record (slot_at e (h_slot h)) in [tn_response_read rec..<length (tn_responses rec)])"

definition progress_active :: "'b manager_setup \<Rightarrow> operation_context \<Rightarrow> nat \<Rightarrow> 'b manager \<Rightarrow> 'b manager \<times> unit result" where
  "progress_active su now i m =
     (case mg_active m ! i of None \<Rightarrow> (m, Inr ())
      | Some (t, h) \<Rightarrow>
          case store_responses su t h (unread (mg_engine m) h) m of (m1, Inl x) \<Rightarrow> (m1, Inl x)
          | (m1, Inr _) \<Rightarrow>
              case completed (mg_engine m1) h of Inl x \<Rightarrow> (m1, Inl x)
              | Inr False \<Rightarrow> (m1, Inr ())
              | Inr True \<Rightarrow>
                  case on_store (complete_record t (oc_monotonic now)) m1 of (m2, Inl x) \<Rightarrow> (m2, Inl x)
                  | (m2, Inr _) \<Rightarrow>
                      case release (mg_engine m2) h of (e, Inl x) \<Rightarrow> (m2\<lparr>mg_engine := e\<rparr>, Inl x)
                      | (e, Inr _) \<Rightarrow> let m3 = fst (on_store (release_token t) (m2\<lparr>mg_engine := e\<rparr>))
                          in (m3\<lparr>mg_active := (mg_active m3)[i := None]\<rparr>, Inr ()))"

definition advance_engine :: "'b manager_setup \<Rightarrow> operation_context \<Rightarrow> 'b manager \<Rightarrow> 'b manager \<times> unit result" where
  "advance_engine su now m = (let (e, r) = progress (ms_engine su) now (mg_engine m) in (m\<lparr>mg_engine := e\<rparr>, r))"

definition progress_all :: "'b manager_setup \<Rightarrow> operation_context \<Rightarrow> 'b manager \<Rightarrow> 'b manager \<times> unit result" where
  "progress_all su now m =
     (case in_turn (progress_cancel su now) [0..<length (mg_cancellations m)] m of (m1, Inl x) \<Rightarrow> (m1, Inl x)
      | (m1, Inr _) \<Rightarrow>
          case advance_engine su now m1 of (m2, Inl x) \<Rightarrow> (m2, Inl x)
          | (m2, Inr _) \<Rightarrow>
              case in_turn (progress_active su now) [0..<length (mg_active m2)] m2 of (m3, Inl x) \<Rightarrow> (m3, Inl x)
              | (m3, Inr _) \<Rightarrow> on_store (\<lambda>s. (expire (oc_monotonic now) s, Inr ())) m3)"

definition manager_progress :: "'b manager_setup \<Rightarrow> operation_context \<Rightarrow> 'b manager \<Rightarrow> 'b manager \<times> unit result" where
  "manager_progress su now m =
     (if mg_progressing m then (m, Inl (err Would_deadlock))
      else let (m', r) = progress_all su now (m\<lparr>mg_progressing := True\<rparr>) in (m'\<lparr>mg_progressing := False\<rparr>, r))"

section \<open>Shutdown\<close>

definition close_admission :: "'b manager \<Rightarrow> 'b manager" where
  "close_admission m = m\<lparr>mg_closed_generation := (if mg_closed m then mg_closed_generation m
     else eg_association_generation (mg_engine m)), mg_closed := True\<rparr>"

definition active_count :: "'b manager \<Rightarrow> nat" where
  "active_count m = length (filter (\<lambda>x. x \<noteq> None) (mg_active m))"

definition scheduled_cancellations :: "'b manager \<Rightarrow> nat" where
  "scheduled_cancellations m = length (filter (\<lambda>x. x \<noteq> None) (mg_cancellations m))"

definition manager_quiesce :: "'b manager_setup \<Rightarrow> operation_context \<Rightarrow> 'b manager \<Rightarrow> 'b manager \<times> unit result" where
  "manager_quiesce su now m =
     (if mg_progressing m then (m, Inl (err Would_deadlock))
      else if oc_association_generation now = 0 \<or> (eg_association_generation (mg_engine m) \<noteq> 0
          \<and> oc_association_generation now \<noteq> eg_association_generation (mg_engine m))
      then (m, Inl (err Stale_generation))
      else let m1 = (close_admission m)\<lparr>mg_quiescing := True\<rparr>;
               (e, r) = request_quiesce (ms_engine su) now (mg_engine m1); m2 = m1\<lparr>mg_engine := e\<rparr>
           in case r of Inl x \<Rightarrow> (m2, Inl x) | Inr _ \<Rightarrow> manager_progress su now m2)"

definition reset_after_drain :: "'b manager_setup \<Rightarrow> 'b manager \<Rightarrow> 'b manager \<times> unit result" where
  "reset_after_drain su m =
     (if mg_progressing m \<or> active_count m \<noteq> 0 \<or> scheduled_cancellations m \<noteq> 0 \<or> ec_quiescing (eg_core (mg_engine m))
         \<or> \<not> safe_to_reset (ms_engine su) (mg_engine m)
         \<or> (mg_closed m \<and> eg_association_generation (mg_engine m) \<le> mg_closed_generation m)
      then (m, Inl (err Invalid_state)) else (m\<lparr>mg_closed := False, mg_quiescing := False\<rparr>, Inr ()))"

definition manager_response :: "'b manager_setup \<Rightarrow> retention_token \<Rightarrow> nat \<Rightarrow> 'b manager \<Rightarrow> bytes option result" where
  "manager_response su t index m = stored_response (ms_ack_size su) t index (mg_store m)"

definition manager_complete :: "retention_token \<Rightarrow> 'b manager \<Rightarrow> bool result" where
  "manager_complete t m = terminal_of t (mg_store m)"

definition manager_release :: "retention_token \<Rightarrow> 'b manager \<Rightarrow> 'b manager \<times> unit result" where
  "manager_release t m = on_store (release_token t) m"

section \<open>The manager and the engine agree\<close>

text \<open>Entry \<open>i\<close> of the manager stands for the command behind the handle \<open>h\<close>.\<close>

definition stands_for :: "'b manager \<Rightarrow> nat \<Rightarrow> handle \<Rightarrow> bool" where
  "stands_for m i h \<longleftrightarrow> i < length (mg_active m) \<and> (\<exists>t. mg_active m ! i = Some (t, h))"

definition in_use :: "'b engine \<Rightarrow> nat \<Rightarrow> bool" where
  "in_use e k \<longleftrightarrow> k < length (eg_slots e) \<and> tn_active (sl_record (slot_at e k))"

definition tracked :: "'b manager \<Rightarrow> bool" where
  "tracked m \<longleftrightarrow> (\<forall>i h. stands_for m i h \<longrightarrow> in_use (mg_engine m) (h_slot h) \<and> live_handle (mg_engine m) h)
     \<and> (\<forall>i j h h'. stands_for m i h \<longrightarrow> stands_for m j h' \<longrightarrow> h_slot h = h_slot h' \<longrightarrow> i = j)
     \<and> (\<forall>k. in_use (mg_engine m) k \<longrightarrow> (\<exists>i h. stands_for m i h \<and> h_slot h = k))"

definition manager_inv :: "'b manager \<Rightarrow> bool" where
  "manager_inv m \<longleftrightarrow> tracked m \<and> engine_inv (mg_engine m)"

text \<open>Steps that neither start nor end a command.\<close>

definition quietly :: "'b manager \<Rightarrow> 'b manager \<Rightarrow> bool" where
  "quietly m m' \<longleftrightarrow> mg_active m' = mg_active m \<and> evolves (mg_engine m) (mg_engine m')"

lemma quietly_refl: "quietly m m"
  by (simp add: quietly_def evolves_same)

lemma quietly_trans: "quietly a b \<Longrightarrow> quietly b c \<Longrightarrow> quietly a c"
  by (auto simp: quietly_def intro: evolves_trans)

lemma quietly_inv:
  assumes "quietly m m'" "manager_inv m"
  shows "manager_inv m'"
proof -
  have ev: "evolves (mg_engine m) (mg_engine m')" and act: "mg_active m' = mg_active m" using assms(1) by (auto simp: quietly_def)
  have sf: "stands_for m' = stands_for m" by (intro ext) (simp add: stands_for_def act)
  have use: "in_use (mg_engine m') k = in_use (mg_engine m) k" for k
    using evolves_slot(1) [OF ev, of k] evolves_length [OF ev] by (auto simp: in_use_def)
  have live: "live_handle (mg_engine m') h = live_handle (mg_engine m) h" if "in_use (mg_engine m) (h_slot h)" for h
    using evolves_slot [OF ev, of "h_slot h"] that by (simp add: live_handle_def in_use_def)
  have "tracked m" using assms(2) by (simp add: manager_inv_def)
  then have "tracked m'" unfolding tracked_def sf use using live by simp
  then show ?thesis using assms(2) evolves_inv [OF ev] by (simp add: manager_inv_def engine_inv_def)
qed

lemma on_store_quietly: "quietly m (fst (on_store f m))"
  by (simp add: on_store_def Let_def case_prod_beta quietly_def evolves_same)

lemma then_quietly: "quietly m m' \<Longrightarrow> quietly m (fst (on_store f m'))"
  by (rule quietly_trans [OF _ on_store_quietly])

lemma append_all_quietly: "quietly m m' \<Longrightarrow> quietly m (fst (append_all su t acks m'))"
proof (induction acks arbitrary: m')
  case (Cons ack acks)
  have "quietly m (fst (on_store (append_response (ms_ack_size su) t (ak_cancellation ack) (ms_image su ack)) m'))"
    by (rule then_quietly [OF Cons.prems])
  with Cons.IH [OF this] show ?case by (simp add: case_prod_beta split: sum.split)
qed simp

lemma settle_cancel_quietly: "quietly m m' \<Longrightarrow> quietly m (fst (settle_cancel su now t acks m'))"
  by (simp add: settle_cancel_def case_prod_beta append_all_quietly then_quietly split: sum.split)

lemma cancel_result_evolves: "evolves e (fst (cancel_result su now packet selected target p e))"
  by (simp add: cancel_result_def Let_def cancel_evolves evolves_same split: bool.split option.split)

lemma finish_cancel_quietly: "quietly m (fst (finish_cancel su now i p m))"
proof -
  have give: "quietly m (m'\<lparr>mg_engine := give_back c (mg_engine m')\<rparr>)" if "quietly m m'" for c and m' :: "'a manager"
    using that by (auto simp: quietly_def intro: evolves_trans [OF _ evolves_same])
  have one: "quietly m (m\<lparr>mg_engine := fst (cancel_result su now packet selected target p (mg_engine m)), mg_cancellations := cs\<rparr>)"
    for packet selected target cs
    by (simp add: quietly_def cancel_result_evolves)
  show ?thesis
    unfolding finish_cancel_def Let_def case_prod_beta
    by (auto simp: quietly_refl one split: sum.split intro!: give settle_cancel_quietly)
qed

lemma progress_cancel_quietly: "quietly m (fst (progress_cancel su now i m))"
proof -
  have set: "quietly m (m'\<lparr>mg_cancellations := cs\<rparr>)" if "quietly m m'" for cs and m' :: "'a manager"
    using that by (simp add: quietly_def)
  show ?thesis
    unfolding progress_cancel_def Let_def case_prod_beta
    by (auto simp: quietly_refl set split: option.split sum.split
        intro!: set quietly_trans [OF set [OF quietly_refl] finish_cancel_quietly])
qed

lemma in_turn_inv:
  assumes "P m" "\<And>i m. i \<in> set is \<Longrightarrow> P m \<Longrightarrow> P (fst (f i m))"
  shows "P (fst (in_turn f is m))"
  using assms
proof (induction "is" arbitrary: m)
  case (Cons i "is")
  have "P (fst (f i m))" using Cons.prems by simp
  then show ?case using Cons.IH [of "fst (f i m)"] Cons.prems(2) by (simp add: case_prod_beta split: sum.split)
qed simp

lemma take_quietly: "quietly m m' \<Longrightarrow> quietly m (m'\<lparr>mg_engine := fst (take_response (mg_engine m') h)\<rparr>)"
  using evolves_same [OF take_response_same, of "mg_engine m'" h] by (auto simp: quietly_def intro: evolves_trans)

lemma store_responses_quietly: "quietly m m' \<Longrightarrow> quietly m (fst (store_responses su t h is m'))"
proof (induction "is" arbitrary: m')
  case (Cons i "is")
  note t = take_quietly [OF Cons.prems, of h]
  have "quietly m (fst (store_responses su t h is (fst (on_store f (m'\<lparr>mg_engine := fst (take_response (mg_engine m') h)\<rparr>)))))"
    for f :: "retention_store \<Rightarrow> retention_store \<times> unit result"
    by (rule Cons.IH [OF then_quietly [OF t]])
  then show ?case using t by (simp add: case_prod_beta then_quietly split: sum.split option.split)
qed (simp add: case_prod_beta take_quietly split: sum.split)

text \<open>Whether slots are in use and handles live is seen in the lives.\<close>

lemma in_use_lives: "in_use e k \<longleftrightarrow> k < no_slots (lives_of e) \<and> lf_active (life_at (lives_of e) k)"
  using life_at_lives [of k e] by (auto simp: in_use_def)

lemma live_handle_lives:
  "h_slot h < no_slots (lives_of e) \<Longrightarrow> live_handle e h \<longleftrightarrow> lf_active (life_at (lives_of e) (h_slot h)) \<and> lf_generation (life_at (lives_of e) (h_slot h)) = h_generation h"
  by (simp add: live_handle_def)

lemma enter_tracked:
  assumes inv: "manager_inv m" and free: "i < length (mg_active m)" "mg_active m ! i = None"
    and enters: "enters (mg_engine m) e h" and m': "lives_of (mg_engine m') = lives_of e" "mg_active m' = (mg_active m)[i := Some (t, h)]"
  shows "manager_inv m'"
proof -
  obtain e1 where e1: "evolves (mg_engine m) e1" "admits e1 e h" using enters by (auto simp: enters_def)
  have inv1: "manager_inv (m\<lparr>mg_engine := e1\<rparr>)" using quietly_inv [OF _ inv] e1(1) by (simp add: quietly_def)
  obtain l where l: "lives_of e = set_life (h_slot h) l (lives_of e1)" "lf_active l" "lf_generation l = h_generation h"
    and v: "vacant (lives_of e1) (h_slot h)" using e1(2) by (auto simp: admits_def)
  have k: "h_slot h < no_slots (lives_of e1)" using v by (simp add: vacant_def)
  have use: "in_use (mg_engine m') k \<longleftrightarrow> k = h_slot h \<or> in_use e1 k" for k
    using k l(2) unfolding in_use_lives m'(1) l(1) by auto
  have live: "live_handle (mg_engine m') h' \<longleftrightarrow> (if h_slot h' = h_slot h then h_generation h' = h_generation h else live_handle e1 h')"
    if "in_use (mg_engine m') (h_slot h')" for h'
    using that l by (auto simp: in_use_lives live_handle_lives m'(1) k)
  have sf: "stands_for m' j h' \<longleftrightarrow> (if j = i then h' = h else stands_for m j h')" for j h'
    using free by (auto simp: stands_for_def m'(2) nth_list_update)
  have t1: "stands_for m j h' \<Longrightarrow> in_use e1 (h_slot h') \<and> live_handle e1 h'"
    "stands_for m j h' \<Longrightarrow> stands_for m j' h'' \<Longrightarrow> h_slot h' = h_slot h'' \<Longrightarrow> j = j'"
    "in_use e1 k \<Longrightarrow> \<exists>j h'. stands_for m j h' \<and> h_slot h' = k" for j j' h' h'' k
    using inv1 unfolding manager_inv_def tracked_def by (auto simp: stands_for_def)
  have other: "h_slot h' \<noteq> h_slot h" if "stands_for m j h'" for j h'
    using t1(1) [OF that] v by (auto simp: vacant_def in_use_lives)
  have none: "\<not> stands_for m i h'" for h' using free by (simp add: stands_for_def)
  have "tracked m'"
    unfolding tracked_def
  proof (intro conjI allI impI)
    fix j h' assume "stands_for m' j h'"
    then show "in_use (mg_engine m') (h_slot h')" using t1(1) [of j h'] by (auto simp: sf use split: if_split_asm)
    then show "live_handle (mg_engine m') h'"
      using \<open>stands_for m' j h'\<close> t1(1) [of j h'] other [of j h'] by (auto simp: sf live split: if_split_asm)
  next
    fix j j' h' h'' assume *: "stands_for m' j h'" "stands_for m' j' h''" "h_slot h' = h_slot h''"
    show "j = j'" using * other t1(2) [of j h' j' h''] by (auto simp: sf split: if_split_asm)
  next
    fix k assume "in_use (mg_engine m') k"
    then show "\<exists>j h'. stands_for m' j h' \<and> h_slot h' = k"
      using t1(3) [of k] none by (auto simp: use sf) metis
  qed
  moreover have "engine_inv (mg_engine m')"
    using life_step_inv [OF admits_life [OF e1(2)]] inv1 by (simp add: manager_inv_def engine_inv_def m'(1))
  ultimately show ?thesis by (simp add: manager_inv_def)
qed

lemma leave_tracked:
  assumes inv: "manager_inv m" and entry: "stands_for m i h" and released: "snd (release (mg_engine m) h) = Inr ()"
    and m': "lives_of (mg_engine m') = lives_of (fst (release (mg_engine m) h))" "mg_active m' = (mg_active m)[i := None]"
  shows "manager_inv m'"
proof -
  let ?e = "mg_engine m"
  obtain l where l: "lives_of (fst (release ?e h)) = set_life (h_slot h) l (lives_of ?e)" "\<not> lf_active l"
    using release_cases [of ?e h] released by auto
  have use: "in_use (mg_engine m') k \<longleftrightarrow> k \<noteq> h_slot h \<and> in_use ?e k" for k
    using l(2) unfolding in_use_lives m'(1) l(1) by (auto split: if_split_asm)
  have live: "live_handle (mg_engine m') h' = live_handle ?e h'" if "in_use (mg_engine m') (h_slot h')" for h'
    using that l by (auto simp: in_use_lives live_handle_lives m'(1) split: if_split_asm)
  have sf: "stands_for m' j h' \<longleftrightarrow> j \<noteq> i \<and> stands_for m j h'" for j h'
    using entry by (auto simp: stands_for_def m'(2) nth_list_update split: if_split_asm)
  have t: "tracked m" using inv by (simp add: manager_inv_def)
  have other: "h_slot h' \<noteq> h_slot h" if "stands_for m j h'" "j \<noteq> i" for j h'
    using t that entry unfolding tracked_def by blast
  have "tracked m'"
    unfolding tracked_def
  proof (intro conjI allI impI)
    fix j h' assume *: "stands_for m' j h'"
    then show "in_use (mg_engine m') (h_slot h')" using t other [of j h'] by (auto simp: sf use tracked_def)
    then show "live_handle (mg_engine m') h'" using * t by (auto simp: sf live tracked_def)
  next
    fix j j' h' h'' assume "stands_for m' j h'" "stands_for m' j' h''" "h_slot h' = h_slot h''"
    then show "j = j'" using t unfolding sf tracked_def by blast
  next
    fix k assume "in_use (mg_engine m') k"
    then have k: "k \<noteq> h_slot h" "in_use ?e k" by (auto simp: use)
    then obtain j h' where *: "stands_for m j h'" "h_slot h' = k" using t unfolding tracked_def by blast
    have "j \<noteq> i" using * k entry by (auto simp: stands_for_def)
    then show "\<exists>j h'. stands_for m' j h' \<and> h_slot h' = k" using * by (auto simp: sf)
  qed
  moreover have "engine_inv (mg_engine m')"
    using life_steps_inv [OF release_life [of ?e h]] inv by (simp add: manager_inv_def engine_inv_def m'(1))
  ultimately show ?thesis by (simp add: manager_inv_def)
qed

section \<open>Every operation of the manager\<close>

lemma progress_active_inv:
  assumes "manager_inv m" "i < length (mg_active m)"
  shows "manager_inv (fst (progress_active su now i m))"
proof (cases "mg_active m ! i")
  case None
  then show ?thesis using assms by (simp add: progress_active_def)
next
  case (Some x)
  obtain t h where x: "x = (t, h)" by fastforce
  define m1 where "m1 = fst (store_responses su t h (unread (mg_engine m) h) m)"
  define m2 where "m2 = fst (on_store (complete_record t (oc_monotonic now)) m1)"
  have q: "quietly m m1" "quietly m m2"
    unfolding m1_def m2_def using store_responses_quietly [OF quietly_refl] then_quietly by blast+
  have inv: "manager_inv m1" "manager_inv m2" using quietly_inv [OF _ assms(1)] q by blast+
  have entry: "stands_for m2 i h" using assms(2) Some x q(2) by (simp add: stands_for_def quietly_def)
  have kept: "manager_inv (m2\<lparr>mg_engine := fst (release (mg_engine m2) h)\<rparr>)" if "snd (release (mg_engine m2) h) = Inl y" for y
    using release_cases [of "mg_engine m2" h] that inv(2) by auto
  have left: "manager_inv (fst (on_store f (m2\<lparr>mg_engine := fst (release (mg_engine m2) h)\<rparr>))
      \<lparr>mg_active := (mg_active (fst (on_store f (m2\<lparr>mg_engine := fst (release (mg_engine m2) h)\<rparr>))))[i := None]\<rparr>)"
    if "snd (release (mg_engine m2) h) = Inr ()" for f :: "retention_store \<Rightarrow> retention_store \<times> unit result"
    by (rule leave_tracked [OF inv(2) entry that]) (simp_all add: on_store_def Let_def case_prod_beta)
  show ?thesis
    unfolding progress_active_def Some x option.case prod.case Let_def case_prod_beta
    by (simp add: m1_def [symmetric] m2_def [symmetric] inv kept left split: sum.split bool.split)
qed

lemma progress_active_length: "length (mg_active (fst (progress_active su now i m))) = length (mg_active m)"
proof (cases "mg_active m ! i")
  case (Some x)
  obtain t h where x: "x = (t, h)" by fastforce
  have *: "mg_active (fst (on_store f m')) = mg_active m'" for f :: "retention_store \<Rightarrow> retention_store \<times> unit result" and m' :: "'a manager"
    by (simp add: on_store_def Let_def case_prod_beta)
  have "mg_active (fst (store_responses su t h is m)) = mg_active m" for "is"
    using store_responses_quietly [OF quietly_refl, of m su t h "is"] by (simp add: quietly_def)
  then show ?thesis
    unfolding progress_active_def Some x option.case prod.case Let_def case_prod_beta
    by (simp add: * split: sum.split bool.split)
qed (simp add: progress_active_def)

lemma flag_quietly: "quietly m (m\<lparr>mg_progressing := b\<rparr>)"
  by (simp add: quietly_def evolves_same)

lemma advance_engine_inv: "manager_inv m \<Longrightarrow> manager_inv (fst (advance_engine su now m))"
proof -
  assume inv: "manager_inv m"
  then have "quietly m (fst (advance_engine su now m))"
    using progress_evolves [of "mg_engine m" "ms_engine su" now]
    by (simp add: advance_engine_def Let_def case_prod_beta quietly_def manager_inv_def engine_inv_def)
  then show ?thesis using inv by (rule quietly_inv)
qed

lemma progress_all_inv:
  assumes "manager_inv m"
  shows "manager_inv (fst (progress_all su now m))"
proof -
  define m1 where "m1 = fst (in_turn (progress_cancel su now) [0..<length (mg_cancellations m)] m)"
  define m2 where "m2 = fst (advance_engine su now m1)"
  define m3 where "m3 = fst (in_turn (progress_active su now) [0..<length (mg_active m2)] m2)"
  have 1: "manager_inv m1" unfolding m1_def
    by (rule in_turn_inv [where P = manager_inv]) (auto intro: assms quietly_inv [OF progress_cancel_quietly])
  then have 2: "manager_inv m2" unfolding m2_def by (rule advance_engine_inv)
  have "manager_inv m3 \<and> length (mg_active m3) = length (mg_active m2)" unfolding m3_def
    by (rule in_turn_inv [where P = "\<lambda>x. manager_inv x \<and> length (mg_active x) = length (mg_active m2)"])
      (auto simp: 2 progress_active_inv progress_active_length)
  then have 3: "manager_inv m3" "manager_inv (fst (on_store f m3))" for f :: "retention_store \<Rightarrow> retention_store \<times> unit result"
    using quietly_inv [OF on_store_quietly] by blast+
  show ?thesis
    unfolding progress_all_def case_prod_beta
    by (simp add: m1_def [symmetric] m2_def [symmetric] m3_def [symmetric] 1 2 3 split: sum.split)
qed

lemma manager_progress_inv: "manager_inv m \<Longrightarrow> manager_inv (fst (manager_progress su now m))"
  using quietly_inv [OF flag_quietly [of _ False] progress_all_inv [OF quietly_inv [OF flag_quietly [of m True]]]]
  by (simp add: manager_progress_def Let_def case_prod_beta)

lemma give_up_inv: "manager_inv m \<Longrightarrow> manager_inv (fst (give_up t x m))"
  unfolding give_up_def fst_conv by (rule quietly_inv [OF on_store_quietly])

lemma admit_command_inv:
  assumes "manager_inv m"
  shows "manager_inv (fst (admit_command su packet now mid a m))"
proof (cases "find (\<lambda>i. mg_active m ! i = None) [0..<length (mg_active m)]")
  case None
  then show ?thesis using give_up_inv [OF assms] by (simp add: admit_command_def)
next
  case (Some i)
  then have i: "i < length (mg_active m)" "mg_active m ! i = None" by (auto simp: find_Some_iff)
  let ?out = "accept (ms_engine su) (mg_engine m) packet now"
  note out = accept_outcome [of "mg_engine m" "ms_engine su" packet now, unfolded admission_outcome_def]
  have same: "lives_of (mg_engine (fst (on_store f x))) = lives_of (mg_engine x)" "mg_active (fst (on_store f x)) = mg_active x"
    for f :: "retention_store \<Rightarrow> retention_store \<times> unit result" and x :: "'a manager"
    by (simp_all add: on_store_def Let_def case_prod_beta)
  show ?thesis
  proof (cases "snd ?out")
    case (Inl x)
    then have "manager_inv (m\<lparr>mg_engine := fst ?out\<rparr>)" using out quietly_inv [OF _ assms] by (simp add: quietly_def)
    then show ?thesis using give_up_inv Inl by (simp add: admit_command_def Some case_prod_beta)
  next
    case (Inr h)
    then have e: "enters (mg_engine m) (fst ?out) h" using out by simp
    have "fst (admit_command su packet now mid a m) = (let m2 = fst (on_store (retain_token (ra_token a))
        (fst (on_store (bind_engine (ra_token a) (Some h)) (m\<lparr>mg_engine := fst ?out\<rparr>))))
        in m2\<lparr>mg_active := (mg_active m2)[i := Some (ra_token a, h)], mg_highwater_id := (if ms_monotonic_ids su then mid else mg_highwater_id m2)\<rparr>)"
      by (simp add: admit_command_def Some case_prod_beta Inr Let_def)
    then show ?thesis by (intro enter_tracked [OF assms i e]) (simp_all add: same Let_def)
  qed
qed

lemma admit_cancellation_quietly: "quietly m (fst (admit_cancellation su packet now a m))"
proof -
  have pool: "quietly m (m'\<lparr>mg_engine := (mg_engine m')\<lparr>eg_pool := p\<rparr>\<rparr>)" if "quietly m m'" for p and m' :: "'a manager"
    using that by (auto simp: quietly_def intro: evolves_trans [OF _ evolves_same])
  have set: "quietly m (m'\<lparr>mg_cancellations := cs\<rparr>)" if "quietly m m'" for cs and m' :: "'a manager"
    using that by (simp add: quietly_def)
  show ?thesis
    unfolding admit_cancellation_def give_up_def Let_def case_prod_beta
    by (simp add: then_quietly pool set quietly_refl split: sum.split option.split)
qed

lemma manager_accept_inv: "manager_inv m \<Longrightarrow> manager_inv (fst (manager_accept su m packet now peer))"
proof -
  assume inv: "manager_inv m"
  have s: "manager_inv (fst (on_store f m))" for f :: "retention_store \<Rightarrow> retention_store \<times> retention_admission result"
    by (rule quietly_inv [OF on_store_quietly inv])
  show ?thesis
    unfolding manager_accept_def Let_def case_prod_beta
    by (simp add: inv s admit_command_inv quietly_inv [OF admit_cancellation_quietly] split: sum.split)
qed

lemma manager_quiesce_inv: "manager_inv m \<Longrightarrow> manager_inv (fst (manager_quiesce su now m))"
proof -
  assume inv: "manager_inv m"
  have "quietly m ((close_admission m)\<lparr>mg_quiescing := True, mg_engine := fst (request_quiesce (ms_engine su) now (mg_engine (close_admission m)))\<rparr>)"
    using inv request_quiesce_evolves [of "mg_engine m"] by (simp add: quietly_def close_admission_def manager_inv_def engine_inv_def)
  from quietly_inv [OF this inv] show ?thesis
    by (simp add: manager_quiesce_def Let_def case_prod_beta inv manager_progress_inv split: sum.split)
qed

text \<open>What can happen to a manager; the runtime may also reset the engine's state, and between the calls
  the device does what it likes.\<close>

datatype 'b manager_op = Manager_accept packet_view operation_context peer_session | Manager_progress operation_context
  | Manager_quiesce operation_context | Manager_reset | Manager_close | Manager_release retention_token
  | Engine_reset state_snapshot nat | Device_works 'b device_results

primrec manager_step :: "'b manager_setup \<Rightarrow> 'b manager_op \<Rightarrow> 'b manager \<Rightarrow> 'b manager" where
  "manager_step su (Manager_accept packet now peer) m = fst (manager_accept su m packet now peer)"
| "manager_step su (Manager_progress now) m = fst (manager_progress su now m)"
| "manager_step su (Manager_quiesce now) m = fst (manager_quiesce su now m)"
| "manager_step su Manager_reset m = fst (reset_after_drain su m)"
| "manager_step su Manager_close m = close_admission m"
| "manager_step su (Manager_release t) m = fst (manager_release t m)"
| "manager_step su (Engine_reset s g) m = m\<lparr>mg_engine := fst (reset_state (ms_engine su) (mg_engine m) s g)\<rparr>"
| "manager_step su (Device_works d w) m = m\<lparr>mg_engine := (mg_engine m)\<lparr>eg_device := d, eg_results := w\<rparr>\<rparr>"

definition run_manager :: "'b manager_setup \<Rightarrow> 'b manager_op list \<Rightarrow> 'b manager \<Rightarrow> 'b manager" where
  "run_manager su ops m = fold (manager_step su) ops m"

lemma manager_step_inv: "manager_inv m \<Longrightarrow> manager_inv (manager_step su op m)"
proof (cases op)
  case (Engine_reset s g)
  assume inv: "manager_inv m"
  then have "quietly m (manager_step su op m)"
    using reset_state_evolves [of "mg_engine m" "ms_engine su" s g] Engine_reset by (simp add: quietly_def manager_inv_def engine_inv_def)
  then show ?thesis using inv by (rule quietly_inv)
next
  case Manager_reset
  assume inv: "manager_inv m"
  have "quietly m (manager_step su op m)" using Manager_reset by (simp add: reset_after_drain_def quietly_def evolves_same)
  then show ?thesis using inv by (rule quietly_inv)
next
  case Manager_close
  assume inv: "manager_inv m"
  have "quietly m (manager_step su op m)" using Manager_close by (simp add: close_admission_def quietly_def evolves_same)
  then show ?thesis using inv by (rule quietly_inv)
next
  case (Device_works d w)
  assume inv: "manager_inv m"
  have "quietly m (manager_step su op m)" using Device_works by (simp add: quietly_def evolves_same)
  then show ?thesis using inv by (rule quietly_inv)
qed (simp_all add: manager_accept_inv manager_progress_inv manager_quiesce_inv manager_release_def quietly_inv [OF on_store_quietly])

lemma run_manager_inv: "manager_inv m \<Longrightarrow> manager_inv (run_manager su ops m)"
  unfolding run_manager_def by (induction ops arbitrary: m) (simp_all add: manager_step_inv)

lemma new_manager_inv: "manager_inv (new_manager n c (new_engine su k pool d s) store)"
  using new_engine_inv [of su k pool d s]
  by (auto simp: manager_inv_def tracked_def stands_for_def in_use_def new_manager_def new_engine_def slot_at_def idle_slot_def)

text \<open>C7: Whatever is accepted, cancelled, replayed, quiesced and reset, whatever errors the store or the parser
  report on the way, and whatever the device does: the entries of the manager and the engine's slots in
  use correspond one to one, and every entry's handle is valid. No command is lost in the engine and
  none is released twice.\<close>

theorem manager_tracks_engine:
  "let m = run_manager su ops (new_manager n c (new_engine (ms_engine su) k pool d s) store); e = mg_engine m
   in bij_betw (\<lambda>i. h_slot (snd (the (mg_active m ! i)))) {i. i < length (mg_active m) \<and> mg_active m ! i \<noteq> None}
        {k. k < length (eg_slots e) \<and> tn_active (sl_record (slot_at e k))}
      \<and> {h. \<exists>t. Some (t, h) \<in> set (mg_active m)} \<subseteq> {h. live_handle e h}"
proof -
  define m where "m = run_manager su ops (new_manager n c (new_engine (ms_engine su) k pool d s) store)"
  have "manager_inv m" unfolding m_def by (rule run_manager_inv [OF new_manager_inv])
  then have t: "tracked m" by (simp add: manager_inv_def)
  have sf: "stands_for m i (snd (the (mg_active m ! i)))" if "i < length (mg_active m)" "mg_active m ! i \<noteq> None" for i
    using that by (auto simp: stands_for_def)
  have 1: "bij_betw (\<lambda>i. h_slot (snd (the (mg_active m ! i)))) {i. i < length (mg_active m) \<and> mg_active m ! i \<noteq> None}
      {k. k < length (eg_slots (mg_engine m)) \<and> tn_active (sl_record (slot_at (mg_engine m) k))}"
  proof (rule bij_betw_imageI)
    show "inj_on (\<lambda>i. h_slot (snd (the (mg_active m ! i)))) {i. i < length (mg_active m) \<and> mg_active m ! i \<noteq> None}"
      using t sf unfolding tracked_def by (intro inj_onI) blast
    have "\<exists>i. i < length (mg_active m) \<and> mg_active m ! i \<noteq> None \<and> h_slot (snd (the (mg_active m ! i))) = k"
      if "in_use (mg_engine m) k" for k
    proof -
      obtain i h where "stands_for m i h" "h_slot h = k" using t \<open>in_use (mg_engine m) k\<close> unfolding tracked_def by blast
      then show ?thesis by (auto simp: stands_for_def)
    qed
    moreover have "in_use (mg_engine m) (h_slot (snd (the (mg_active m ! i))))" if "i < length (mg_active m)" "mg_active m ! i \<noteq> None" for i
      using t sf [OF that] unfolding tracked_def by blast
    ultimately show "(\<lambda>i. h_slot (snd (the (mg_active m ! i)))) ` {i. i < length (mg_active m) \<and> mg_active m ! i \<noteq> None}
        = {k. k < length (eg_slots (mg_engine m)) \<and> tn_active (sl_record (slot_at (mg_engine m) k))}"
      unfolding in_use_def by blast
  qed
  have 2: "{h. \<exists>t. Some (t, h) \<in> set (mg_active m)} \<subseteq> {h. live_handle (mg_engine m) h}"
    using t unfolding tracked_def stands_for_def in_set_conv_nth by blast
  show ?thesis using 1 2 by (simp add: Let_def m_def [symmetric])
qed

end
