(* ===== verification/Controller.thy ===== *)
theory Controller
  imports Observer Retention
begin

text \<open>
  The controller's registry (\<^verbatim>\<open>runtime/transaction/controller.hpp\<close>): relationships with controllees, the
  message identifiers given out for them, and a record per outstanding request that collects its
  acknowledgements until it is complete or late. Parsing a packet under the request's mode word is a
  parameter. The lemmas show that message identifiers are never reused between the same parties, so that an
  acknowledgement belongs to at most one request.
\<close>

section \<open>State\<close>

record relationship_handle =
  rn_slot :: nat

record controller_handle =
  cl_slot :: nat
  cl_generation :: nat

record state_observation =
  so_state :: state_snapshot
  so_selected_mask :: u8
  so_timestamp :: timestamp
  so_hypothetical :: bool
  so_late :: bool

record capability_observation =
  cb_center_frequency :: "hertz \<times> hertz"
  cb_sample_rate :: "hertz \<times> hertz"
  cb_bandwidth :: "hertz \<times> hertz"
  cb_gain :: "gain_stages \<times> gain_stages"
  cb_selected_mask :: u8
  cb_timestamp :: timestamp
  cb_late :: bool

datatype cancel_registration = Cancel_fresh | Cancel_retry

record relationship =
  rl_used :: bool
  rl_sdr_profile :: bool
  rl_identity :: transaction_key
  rl_next_mid :: nat

record tracking_record =
  tr_used :: bool
  tr_ordinary_active :: bool
  tr_cancel_registered :: bool
  tr_cancel_active :: bool
  tr_capability_query :: bool
  tr_sdr_profile :: bool
  tr_generation :: nat
  tr_references :: nat
  tr_key :: transaction_key
  tr_request :: envelope
  tr_cancel_cam :: u32
  tr_requested_fields :: u8
  tr_cancel_fields :: u8
  tr_seen_ordinary :: u8
  tr_seen_cancel :: u8
  tr_deadline :: mono_time
  tr_cancel_deadline :: mono_time
  tr_expires :: mono_time
  tr_observer :: observer
  tr_cancel_meaning :: bytes
  tr_ordinary_state :: "state_observation option"
  tr_cancel_state :: "state_observation option"
  tr_ordinary_capabilities :: "capability_observation option"

record controller =
  ct_relationships :: "relationship list"
  ct_records :: "tracking_record list"

definition same_wire_relationship :: "transaction_key \<Rightarrow> transaction_key \<Rightarrow> bool" where
  "same_wire_relationship a b \<longleftrightarrow> ps_peer (tk_peer a) = ps_peer (tk_peer b) \<and> tk_stream_id a = tk_stream_id b
     \<and> same_identifier (tk_controller a) (tk_controller b) \<and> same_identifier (tk_controllee a) (tk_controllee b)"

definition find_record :: "controller \<Rightarrow> controller_handle \<Rightarrow> tracking_record option" where
  "find_record c h = (if cl_slot h \<ge> length (ct_records c) then None
     else let r = ct_records c ! cl_slot h in if tr_used r \<and> tr_generation r = cl_generation h then Some r else None)"

definition put_record :: "nat \<Rightarrow> tracking_record \<Rightarrow> controller \<Rightarrow> controller" where
  "put_record i r c = c\<lparr>ct_records := (ct_records c)[i := r]\<rparr>"

definition requested_responses :: "u32 \<Rightarrow> u32" where
  "requested_responses raw = drop_bit 18 raw AND 7"

definition cancel_bytes :: "packet_view \<Rightarrow> bytes" where
  "cancel_bytes packet = map (\<lambda>i. let b = view_wire (pv_envelope packet) ! i in if i = 1 then b AND 0xf0 else b)
     [0..<length (view_wire (pv_envelope packet))]"

definition terminal_record :: "bool \<Rightarrow> mono_time \<Rightarrow> tracking_record \<Rightarrow> tracking_record result" where
  "terminal_record cancellation now r =
     (if \<not> (if cancellation then tr_cancel_active r else tr_ordinary_active r) then Inr r
      else and_then (deadline now minimum_retention_ns) (\<lambda>until.
        let r1 = (if cancellation then r\<lparr>tr_cancel_active := False\<rparr> else r\<lparr>tr_ordinary_active := False\<rparr>)
        in Inr (if until > tr_expires r then r1\<lparr>tr_expires := until\<rparr> else r1)))"

section \<open>Observations\<close>

definition asked_for :: "tracking_record \<Rightarrow> bool \<Rightarrow> u8" where
  "asked_for r cancellation = (if cancellation then tr_cancel_fields r else tr_requested_fields r)"

definition observed_profile :: "tracking_record \<Rightarrow> iq_profile" where
  "observed_profile r = (if tr_sdr_profile r then Sdr_radio
     else case env_class_id (tr_request r) of
       Some k \<Rightarrow> if cls_information_class k = 2 \<and> cls_packet_class k = 0x120 then Frequency_tunable else Generator_v1
     | None \<Rightarrow> Generator_v1)"

primrec capture_fields :: "u8 \<Rightarrow> field_view list \<Rightarrow> state_observation \<Rightarrow> state_observation result" where
  "capture_fields asked [] so = Inr so"
| "capture_fields asked (v # vs) so =
     (let i = field_index (fv_id v) in
      if i = state_field_capacity \<or> \<not> bit asked i \<or> fv_kind v \<noteq> Body_values \<or> fv_attribute v \<noteq> Current
      then Inl (err Unsupported_capability)
      else and_then (field_value v) (\<lambda>x. capture_fields asked vs
        (so\<lparr>so_state := (so_state so)\<lparr>ss_fields := (ss_fields (so_state so))[i := \<lparr>fs_id = fv_id v, fs_value = x, fs_validity = Known\<rparr>]\<rparr>,
            so_selected_mask := so_selected_mask so OR push_bit i 1\<rparr>)))"

definition capture_state :: "packet_view \<Rightarrow> tracking_record \<Rightarrow> bool \<Rightarrow> state_observation result" where
  "capture_state packet r cancellation =
     (let e = view_envelope (pv_envelope packet); ts = env_timestamp e; asked = asked_for r cancellation;
          raw = (case env_command e of Some c \<Rightarrow> cmd_cam c | None \<Rightarrow> 0);
          s = default_snapshot\<lparr>ss_profile := observed_profile r,
            ss_fields := map (\<lambda>i. if bit asked i then (ss_fields default_snapshot ! i)\<lparr>fs_validity := Unknown\<rparr>
              else ss_fields default_snapshot ! i) [0..<state_field_capacity]\<rparr>
      in if ts_tsf ts = Tsf_picoseconds \<and> unat (ts_fractional ts) \<ge> picoseconds_per_second then Inl (err Invalid_argument)
         else capture_fields asked (pv_fields packet) \<lparr>so_state = s, so_selected_mask = 0, so_timestamp = ts,
            so_hypothetical = (cam_action raw = 1),
            so_late = (if cancellation then co_cancellation_timed_out (tr_observer r) else co_timed_out (tr_observer r))\<rparr>)"

definition same_field_state :: "field_state \<Rightarrow> field_state \<Rightarrow> bool" where
  "same_field_state x y \<longleftrightarrow> fs_id x = fs_id y \<and> fs_validity x = fs_validity y \<and> (fs_validity x = Known \<longrightarrow> fs_value x = fs_value y)"

definition same_observation :: "state_observation \<Rightarrow> state_observation \<Rightarrow> bool" where
  "same_observation a b \<longleftrightarrow> so_selected_mask a = so_selected_mask b \<and> so_hypothetical a = so_hypothetical b
     \<and> so_timestamp a = so_timestamp b
     \<and> list_all (\<lambda>i. same_field_state (ss_fields (so_state a) ! i) (ss_fields (so_state b) ! i)) [0..<state_field_capacity]"

definition set_bound :: "bool \<Rightarrow> 'a \<Rightarrow> 'a \<times> 'a \<Rightarrow> 'a \<times> 'a" where
  "set_bound minimum x bounds = (if minimum then (x, snd bounds) else (fst bounds, x))"

definition assign_range :: "field_id \<Rightarrow> bool \<Rightarrow> semantic_value \<Rightarrow> capability_observation \<Rightarrow> capability_observation option" where
  "assign_range i minimum x o' =
     (if i = RFReferenceFrequency_id then (case x of SV_hertz h \<Rightarrow> Some (o'\<lparr>cb_center_frequency := set_bound minimum h (cb_center_frequency o')\<rparr>) | _ \<Rightarrow> None)
      else if i = SampleRate_id then (case x of SV_hertz h \<Rightarrow> Some (o'\<lparr>cb_sample_rate := set_bound minimum h (cb_sample_rate o')\<rparr>) | _ \<Rightarrow> None)
      else if i = Bandwidth_id then (case x of SV_hertz h \<Rightarrow> Some (o'\<lparr>cb_bandwidth := set_bound minimum h (cb_bandwidth o')\<rparr>) | _ \<Rightarrow> None)
      else if i = Gain_id then (case x of SV_gain g \<Rightarrow> Some (o'\<lparr>cb_gain := set_bound minimum g (cb_gain o')\<rparr>) | _ \<Rightarrow> None)
      else None)"

text \<open>The accumulator is the observation with the masks of the minima and maxima seen.\<close>

primrec capture_ranges :: "u8 \<Rightarrow> field_view list \<Rightarrow> capability_observation \<times> u8 \<times> u8 \<Rightarrow> (capability_observation \<times> u8 \<times> u8) result" where
  "capture_ranges asked [] acc = Inr acc"
| "capture_ranges asked (v # vs) acc =
     (let i = field_index (fv_id v); minimum = (fv_attribute v = Minimum) in
      if i = state_field_capacity \<or> \<not> bit asked i \<or> (fv_attribute v \<noteq> Minimum \<and> fv_attribute v \<noteq> Maximum)
      then Inl (err Unsupported_capability)
      else and_then (field_value v) (\<lambda>x. case acc of (o', mins, maxs) \<Rightarrow>
        (case assign_range (fv_id v) minimum x o' of None \<Rightarrow> Inl (err Invalid_argument)
         | Some o'' \<Rightarrow> capture_ranges asked vs (if minimum then (o'', mins OR push_bit i 1, maxs) else (o'', mins, maxs OR push_bit i 1)))))"

definition capture_capabilities :: "packet_view \<Rightarrow> tracking_record \<Rightarrow> capability_observation result" where
  "capture_capabilities packet r =
     and_then (capture_ranges (tr_requested_fields r) (pv_fields packet)
       (\<lparr>cb_center_frequency = (Hertz 0, Hertz 0), cb_sample_rate = (Hertz 0, Hertz 0), cb_bandwidth = (Hertz 0, Hertz 0),
         cb_gain = (Gain_stages 0 0, Gain_stages 0 0), cb_selected_mask = 0,
         cb_timestamp = env_timestamp (view_envelope (pv_envelope packet)), cb_late = co_timed_out (tr_observer r)\<rparr>, 0, 0))
     (\<lambda>(o', mins, maxs). if mins AND maxs \<noteq> tr_requested_fields r then Inl (err Invalid_argument)
        else Inr (o'\<lparr>cb_selected_mask := mins AND maxs\<rparr>))"

section \<open>Relationships\<close>

definition association_tracked :: "controller \<Rightarrow> transaction_key \<Rightarrow> bool" where
  "association_tracked c key = list_ex (\<lambda>r. tr_used r \<and> same_association (tr_key r) key) (ct_records c)"

primrec can_register_in :: "transaction_key \<Rightarrow> relationship list \<Rightarrow> bool \<Rightarrow> unit result" where
  "can_register_in identity [] found = (if found then Inr () else Inl (err Capacity_exhausted))"
| "can_register_in identity (rl # rls) found =
     (if \<not> rl_used rl then can_register_in identity rls True
      else if same_key (rl_identity rl) identity then Inr ()
      else if same_wire_relationship (rl_identity rl) identity then Inl (err Identity_conflict)
      else can_register_in identity rls found)"

definition can_register_relationship :: "controller \<Rightarrow> transaction_key \<Rightarrow> unit result" where
  "can_register_relationship c identity =
     (if tk_binding_generation identity = 0 \<or> ps_generation (tk_peer identity) = 0 then Inl (err Invalid_argument)
      else can_register_in (identity\<lparr>tk_message_id := 0\<rparr>) (ct_relationships c) False)"

text \<open>An existing relationship with this identity, or a conflict with one on the wire.\<close>

primrec existing_relationship :: "transaction_key \<Rightarrow> bool \<Rightarrow> relationship list \<Rightarrow> nat \<Rightarrow> nat option result" where
  "existing_relationship identity sdr [] i = Inr None"
| "existing_relationship identity sdr (rl # rls) i =
     (if \<not> rl_used rl then existing_relationship identity sdr rls (i + 1)
      else if same_key (rl_identity rl) identity
        then (if rl_sdr_profile rl \<noteq> sdr then Inl (err Identity_conflict) else Inr (Some i))
      else if same_wire_relationship (rl_identity rl) identity then Inl (err Identity_conflict)
      else existing_relationship identity sdr rls (i + 1))"

definition register_relationship :: "transaction_key \<Rightarrow> u32 \<Rightarrow> iq_profile \<Rightarrow> controller \<Rightarrow> controller \<times> relationship_handle result" where
  "register_relationship given next_mid profile c =
     (let identity = given\<lparr>tk_message_id := 0\<rparr>; sdr = (profile = Sdr_radio) in
      if tk_binding_generation given = 0 \<or> ps_generation (tk_peer given) = 0 then (c, Inl (err Invalid_argument))
      else case existing_relationship identity sdr (ct_relationships c) 0 of Inl x \<Rightarrow> (c, Inl x)
      | Inr (Some i) \<Rightarrow> (c, Inr \<lparr>rn_slot = i\<rparr>)
      | Inr None \<Rightarrow>
          case find (\<lambda>i. \<not> rl_used (ct_relationships c ! i)) [0..<length (ct_relationships c)] of
            None \<Rightarrow> (c, Inl (err Capacity_exhausted))
          | Some i \<Rightarrow> (c\<lparr>ct_relationships := (ct_relationships c)[i := \<lparr>rl_used = True, rl_sdr_profile = sdr,
              rl_identity = identity, rl_next_mid = unat next_mid\<rparr>]\<rparr>, Inr \<lparr>rn_slot = i\<rparr>))"

definition used_relationship :: "controller \<Rightarrow> relationship_handle \<Rightarrow> bool" where
  "used_relationship c h \<longleftrightarrow> rn_slot h < length (ct_relationships c) \<and> rl_used (ct_relationships c ! rn_slot h)"

definition u32_max :: nat where
  "u32_max = 4294967295"

definition resume_after :: "relationship_handle \<Rightarrow> u32 \<Rightarrow> controller \<Rightarrow> controller \<times> unit result" where
  "resume_after h watermark c =
     (if \<not> used_relationship c h then (c, Inl (err Invalid_argument))
      else if unat watermark = u32_max then (c, Inl (err Resource_limit))
      else let rl = ct_relationships c ! rn_slot h; next = unat watermark + 1
        in (if next > rl_next_mid rl then c\<lparr>ct_relationships := (ct_relationships c)[rn_slot h := rl\<lparr>rl_next_mid := next\<rparr>]\<rparr> else c, Inr ()))"

section \<open>Tracking\<close>

primrec select_fields :: "field_view list \<Rightarrow> u8 \<times> bool \<Rightarrow> (u8 \<times> bool) result" where
  "select_fields [] acc = Inr acc"
| "select_fields (v # vs) acc =
     (let i = field_index (fv_id v) in
      if i = state_field_capacity then Inl (err Unsupported_capability)
      else select_fields vs (fst acc OR push_bit i 1, snd acc \<or> fv_attribute v = Minimum \<or> fv_attribute v = Maximum))"

definition track_guard :: "relationship \<Rightarrow> packet_view \<Rightarrow> mono_time \<Rightarrow> nat \<Rightarrow> (mono_time \<times> u8 \<times> bool) result" where
  "track_guard rl packet now timeout_ns =
     (let e = view_envelope (pv_envelope packet) in
      if env_type e \<noteq> Command_packet \<or> env_command e = None \<or> env_ack e \<or> env_cancel e \<or> pv_opaque packet
         \<or> pv_requires_request_context packet then Inl (err Invalid_argument)
      else and_then (transaction_key_of packet (tk_binding_generation (rl_identity rl)) (tk_peer (rl_identity rl))) (\<lambda>derived.
        if \<not> same_key (derived\<lparr>tk_message_id := 0\<rparr>) (rl_identity rl) then Inl (err Identity_conflict)
        else if rl_next_mid rl > u32_max then Inl (err Resource_limit)
        else and_then (deadline now timeout_ns) (\<lambda>limit.
          if mono_ns now > u64_max - minimum_retention_ns \<or> mono_ns limit > u64_max - minimum_retention_ns then Inl (err Overflow)
          else and_then (select_fields (pv_fields packet) (0, False)) (\<lambda>(selected, query). Inr (limit, selected, query)))))"

definition new_record :: "nat \<Rightarrow> relationship \<Rightarrow> envelope \<Rightarrow> mono_time \<times> u8 \<times> bool \<Rightarrow> tracking_record" where
  "new_record generation rl e plan =
     (case plan of (limit, selected, query) \<Rightarrow>
        let mid = word_of_nat (rl_next_mid rl) :: u32 in
        \<lparr>tr_used = True, tr_ordinary_active = True, tr_cancel_registered = False, tr_cancel_active = False,
         tr_capability_query = query, tr_sdr_profile = rl_sdr_profile rl, tr_generation = generation, tr_references = 1,
         tr_key = (rl_identity rl)\<lparr>tk_message_id := mid\<rparr>,
         tr_request = e\<lparr>env_command := map_option (\<lambda>k. k\<lparr>cmd_message_id := mid\<rparr>) (env_command e)\<rparr>,
         tr_cancel_cam = 0, tr_requested_fields = selected, tr_cancel_fields = 0, tr_seen_ordinary = 0, tr_seen_cancel = 0,
         tr_deadline = limit, tr_cancel_deadline = Mono_time 0, tr_expires = Mono_time 0, tr_observer = new_observer mid,
         tr_cancel_meaning = [], tr_ordinary_state = None, tr_cancel_state = None, tr_ordinary_capabilities = None\<rparr>)"

definition free_record :: "controller \<Rightarrow> nat option" where
  "free_record c = find (\<lambda>i. \<not> tr_used (ct_records c ! i) \<and> tr_generation (ct_records c ! i) \<noteq> u64_max) [0..<length (ct_records c)]"

definition track :: "relationship_handle \<Rightarrow> packet_view \<Rightarrow> mono_time \<Rightarrow> nat \<Rightarrow> controller \<Rightarrow> controller \<times> (controller_handle \<times> envelope) result" where
  "track h packet now timeout_ns c =
     (if \<not> used_relationship c h then (c, Inl (err Invalid_argument))
      else let rl = ct_relationships c ! rn_slot h in
        case track_guard rl packet now timeout_ns of Inl x \<Rightarrow> (c, Inl x)
        | Inr plan \<Rightarrow>
            case free_record c of None \<Rightarrow> (c, Inl (err Capacity_exhausted))
            | Some i \<Rightarrow> let r = new_record (tr_generation (ct_records c ! i)) rl (view_envelope (pv_envelope packet)) plan
                in (put_record i r (c\<lparr>ct_relationships := (ct_relationships c)[rn_slot h := rl\<lparr>rl_next_mid := rl_next_mid rl + 1\<rparr>]\<rparr>),
                    Inr (\<lparr>cl_slot = i, cl_generation = tr_generation r\<rparr>, tr_request r)))"

text \<open>\<open>limit\<close> is the size of a record's cancellation buffer, \<open>MaxCancelBytes\<close>.\<close>

definition cancel_guard_for :: "nat \<Rightarrow> tracking_record \<Rightarrow> packet_view \<Rightarrow> mono_time \<Rightarrow> nat \<Rightarrow> (mono_time \<times> u8) result" where
  "cancel_guard_for max_bytes r packet now timeout_ns =
     and_then (select_fields (pv_fields packet) (0, False)) (\<lambda>(selected, _).
       if selected AND NOT (tr_requested_fields r) \<noteq> 0 then Inl (err Invalid_argument)
       else if length (view_wire (pv_envelope packet)) > max_bytes then Inl (err Capacity_exhausted)
       else case deadline now timeout_ns of Inl _ \<Rightarrow> Inl (err Overflow)
         | Inr limit \<Rightarrow> if mono_ns limit > u64_max - minimum_retention_ns then Inl (err Overflow) else Inr (limit, selected))"

definition register_cancel :: "nat \<Rightarrow> controller_handle \<Rightarrow> packet_view \<Rightarrow> mono_time \<Rightarrow> nat \<Rightarrow> controller \<Rightarrow> controller \<times> cancel_registration result" where
  "register_cancel max_bytes h packet now timeout_ns c =
     (case find_record c h of None \<Rightarrow> (c, Inl (err Stale_generation))
      | Some r \<Rightarrow>
          let e = view_envelope (pv_envelope packet) in
          if env_class_id e \<noteq> env_class_id (tr_request r) then (c, Inl (err Identity_conflict))
          else case env_command e of None \<Rightarrow> (c, Inl (err Invalid_argument))
          | Some command \<Rightarrow>
              if \<not> env_cancel e \<or> env_ack e \<or> pv_opaque packet \<or> pv_requires_request_context packet
                 \<or> length (view_wire (pv_envelope packet)) < 4 then (c, Inl (err Invalid_argument))
              else if (case transaction_key_of packet (tk_binding_generation (tr_key r)) (tk_peer (tr_key r)) of
                  Inl _ \<Rightarrow> True | Inr key \<Rightarrow> \<not> same_key key (tr_key r)) then (c, Inl (err Identity_conflict))
              else if tr_cancel_registered r
              then (c, if tr_cancel_meaning r \<noteq> cancel_bytes packet then Inl (err Identity_conflict) else Inr Cancel_retry)
              else case cancel_guard_for max_bytes r packet now timeout_ns of Inl x \<Rightarrow> (c, Inl x)
              | Inr (limit, selected) \<Rightarrow>
                  (put_record (cl_slot h) (r\<lparr>tr_cancel_registered := True, tr_cancel_active := True, tr_cancel_fields := selected,
                     tr_cancel_cam := cmd_cam command, tr_cancel_deadline := limit, tr_cancel_meaning := cancel_bytes packet\<rparr>) c,
                   Inr Cancel_fresh))"

definition send_noted :: "controller_handle \<Rightarrow> bool \<Rightarrow> controller \<Rightarrow> controller \<times> unit result" where
  "send_noted h succeeded c = (case find_record c h of None \<Rightarrow> (c, Inl (err Stale_generation))
     | Some r \<Rightarrow> (put_record (cl_slot h) (r\<lparr>tr_observer := local_send (tr_observer r) succeeded\<rparr>) c, Inr ()))"

section \<open>Acknowledgements\<close>

definition original_cam :: "tracking_record \<Rightarrow> bool \<Rightarrow> u32" where
  "original_cam r cancellation = (if cancellation then tr_cancel_cam r
     else case env_command (tr_request r) of Some k \<Rightarrow> cmd_cam k | None \<Rightarrow> 0)"

text \<open>The acknowledgement must answer what was asked.\<close>

definition ack_guard :: "envelope \<Rightarrow> u32 \<Rightarrow> tracking_record \<Rightarrow> unit result" where
  "ack_guard e raw r =
     (let original = original_cam r (env_cancel e) in
      if env_class_id e \<noteq> env_class_id (tr_request r) then Inl (err Identity_conflict)
      else if env_cancel e \<and> \<not> tr_cancel_registered r then Inl (err Invalid_state)
      else if raw AND 0xffe00000 \<noteq> original AND 0xffe00000 then Inl (err Identity_conflict)
      else if requested_responses raw AND requested_responses original = 0 then Inl (err Invalid_argument)
      else Inr ())"

definition mark_late :: "bool \<Rightarrow> mono_time \<Rightarrow> tracking_record \<Rightarrow> tracking_record result" where
  "mark_late cancellation limit r = and_then (terminal_record cancellation limit r) (\<lambda>r1.
     Inr (r1\<lparr>tr_observer := (if cancellation then observe_cancellation_timeout (tr_observer r1) else observe_timeout (tr_observer r1))\<rparr>))"

definition late_check :: "bool \<Rightarrow> mono_time \<Rightarrow> tracking_record \<Rightarrow> tracking_record result" where
  "late_check cancellation now r =
     (let active = (if cancellation then tr_cancel_active r else tr_ordinary_active r);
          limit = (if cancellation then tr_cancel_deadline r else tr_deadline r)
      in if active \<and> now \<ge> limit then mark_late cancellation limit r else Inr r)"

definition known_state :: "tracking_record \<Rightarrow> bool \<Rightarrow> state_observation option" where
  "known_state r cancellation = (if cancellation then tr_cancel_state r else tr_ordinary_state r)"

text \<open>What a state acknowledgement reports; it may not contradict an earlier one.\<close>

definition capture :: "packet_view \<Rightarrow> u32 \<Rightarrow> bool \<Rightarrow> tracking_record \<Rightarrow> (state_observation option \<times> capability_observation option) result" where
  "capture parsed raw cancellation r =
     (if \<not> test_bit32 raw 18 then Inr (None, None)
      else if tr_capability_query r \<and> \<not> cancellation
      then and_then (capture_capabilities parsed r) (\<lambda>k. case tr_ordinary_capabilities r of
          Some old \<Rightarrow> if old \<noteq> k then Inl (err Identity_conflict) else Inr (None, Some k)
        | None \<Rightarrow> Inr (None, Some k))
      else and_then (capture_state parsed r cancellation) (\<lambda>so. case known_state r cancellation of
          Some old \<Rightarrow> if \<not> same_observation old so then Inl (err Identity_conflict) else Inr (Some so, None)
        | None \<Rightarrow> Inr (Some so, None)))"

definition keep_first :: "bool \<Rightarrow> state_observation option \<times> capability_observation option \<Rightarrow> tracking_record \<Rightarrow> tracking_record" where
  "keep_first cancellation found r =
     (let r1 = (if known_state r cancellation = None then if cancellation then r\<lparr>tr_cancel_state := fst found\<rparr> else r\<lparr>tr_ordinary_state := fst found\<rparr>
                else r)
      in if tr_ordinary_capabilities r1 = None then r1\<lparr>tr_ordinary_capabilities := snd found\<rparr> else r1)"

text \<open>All the acknowledgements asked for have arrived.\<close>

definition note_phase :: "bool \<Rightarrow> u32 \<Rightarrow> mono_time \<Rightarrow> tracking_record \<Rightarrow> tracking_record \<times> unit result" where
  "note_phase cancellation raw now r =
     (let phases = ucast (requested_responses raw) :: u8; expected = ucast (requested_responses (original_cam r cancellation)) :: u8;
          seen = (if cancellation then tr_seen_cancel r else tr_seen_ordinary r) OR phases;
          r1 = (if cancellation then r\<lparr>tr_seen_cancel := seen\<rparr> else r\<lparr>tr_seen_ordinary := seen\<rparr>)
      in if seen AND expected = expected
         then (case terminal_record cancellation now r1 of Inl x \<Rightarrow> (r1, Inl x) | Inr r2 \<Rightarrow> (r2, Inr ()))
         else (r1, Inr ()))"

definition receive_for :: "(bytes \<Rightarrow> u32 \<Rightarrow> packet_view result) \<Rightarrow> bytes \<Rightarrow> envelope \<Rightarrow> u32 \<Rightarrow> mono_time \<Rightarrow> tracking_record
    \<Rightarrow> tracking_record \<times> unit result" where
  "receive_for decode wire e raw now r =
     (let cancellation = env_cancel e in
      case and_then (ack_guard e raw r) (\<lambda>_. decode wire (original_cam r cancellation)) of Inl x \<Rightarrow> (r, Inl x)
      | Inr parsed \<Rightarrow>
          case late_check cancellation now r of Inl x \<Rightarrow> (r, Inl x)
          | Inr r1 \<Rightarrow>
              case capture parsed raw cancellation r1 of Inl x \<Rightarrow> (r1, Inl x)
              | Inr found \<Rightarrow>
                  case receive (tr_observer r1) parsed of (ob, Inl x) \<Rightarrow> (r1\<lparr>tr_observer := ob\<rparr>, Inl x)
                  | (ob, Inr _) \<Rightarrow> note_phase cancellation raw now (keep_first cancellation found (r1\<lparr>tr_observer := ob\<rparr>)))"

definition ack_key :: "nat \<Rightarrow> peer_session \<Rightarrow> envelope \<Rightarrow> command \<Rightarrow> transaction_key" where
  "ack_key binding peer e k = \<lparr>tk_binding_generation = binding, tk_peer = peer, tk_stream_id = env_stream_id e,
     tk_controller = cmd_controller k, tk_controllee = cmd_controllee k, tk_message_id = cmd_message_id k\<rparr>"

definition receive_ack :: "(bytes \<Rightarrow> u32 \<Rightarrow> packet_view result) \<Rightarrow> nat \<Rightarrow> peer_session \<Rightarrow> bytes \<Rightarrow> mono_time \<Rightarrow> controller
    \<Rightarrow> controller \<times> controller_handle result" where
  "receive_ack decode binding peer wire now c =
     (case decode_envelope wire of Inl x \<Rightarrow> (c, Inl x)
      | Inr framing \<Rightarrow>
          let e = view_envelope framing in
          case (env_ack e, env_command e) of
            (True, Some k) \<Rightarrow>
              (case find (\<lambda>i. tr_used (ct_records c ! i) \<and> same_key (ack_key binding peer e k) (tr_key (ct_records c ! i))) [0..<length (ct_records c)] of
                 None \<Rightarrow> (c, Inl (err Stale_generation))
               | Some i \<Rightarrow>
                   let (r, result) = receive_for decode wire e (cmd_cam k) now (ct_records c ! i)
                   in (put_record i r c, map_sum id (\<lambda>_. \<lparr>cl_slot = i, cl_generation = tr_generation r\<rparr>) result))
          | _ \<Rightarrow> (c, Inl (err Invalid_argument)))"

section \<open>Time and release\<close>

definition advance_record :: "mono_time \<Rightarrow> tracking_record \<Rightarrow> tracking_record \<times> unit result" where
  "advance_record now r =
     (if \<not> tr_used r then (r, Inr ())
      else case late_check False now r of Inl x \<Rightarrow> (r, Inl x)
      | Inr r1 \<Rightarrow> case late_check True now r1 of Inl x \<Rightarrow> (r1, Inl x) | Inr r2 \<Rightarrow> (r2, Inr ()))"

primrec advance_from :: "mono_time \<Rightarrow> nat list \<Rightarrow> controller \<Rightarrow> controller \<times> unit result" where
  "advance_from now [] c = (c, Inr ())"
| "advance_from now (i # is) c =
     (case advance_record now (ct_records c ! i) of
        (r, Inl x) \<Rightarrow> (put_record i r c, Inl x) | (r, Inr _) \<Rightarrow> advance_from now is (put_record i r c))"

definition advance_controller :: "mono_time \<Rightarrow> controller \<Rightarrow> controller \<times> unit result" where
  "advance_controller now c = advance_from now [0..<length (ct_records c)] c"

definition mark_terminal :: "controller_handle \<Rightarrow> bool \<Rightarrow> mono_time \<Rightarrow> controller \<Rightarrow> controller \<times> unit result" where
  "mark_terminal h cancellation now c =
     (case find_record c h of None \<Rightarrow> (c, Inl (err Stale_generation))
      | Some r \<Rightarrow> if cancellation \<and> \<not> tr_cancel_registered r then (c, Inl (err Invalid_state))
          else case terminal_record cancellation now r of Inl x \<Rightarrow> (c, Inl x) | Inr r1 \<Rightarrow> (put_record (cl_slot h) r1 c, Inr ()))"

definition observer_of :: "controller_handle \<Rightarrow> controller \<Rightarrow> observer result" where
  "observer_of h c = (case find_record c h of None \<Rightarrow> Inl (err Stale_generation) | Some r \<Rightarrow> Inr (tr_observer r))"

definition state_observation_of :: "controller_handle \<Rightarrow> bool \<Rightarrow> controller \<Rightarrow> state_observation option result" where
  "state_observation_of h cancellation c = (case find_record c h of None \<Rightarrow> Inl (err Stale_generation) | Some r \<Rightarrow> Inr (known_state r cancellation))"

definition capability_observation_of :: "controller_handle \<Rightarrow> controller \<Rightarrow> capability_observation option result" where
  "capability_observation_of h c = (case find_record c h of None \<Rightarrow> Inl (err Stale_generation) | Some r \<Rightarrow> Inr (tr_ordinary_capabilities r))"

definition deadline_for :: "controller_handle \<Rightarrow> bool \<Rightarrow> controller \<Rightarrow> mono_time result" where
  "deadline_for h cancellation c = (case find_record c h of None \<Rightarrow> Inl (err Stale_generation)
     | Some r \<Rightarrow> if cancellation \<and> \<not> tr_cancel_registered r then Inl (err Invalid_state)
         else Inr (if cancellation then tr_cancel_deadline r else tr_deadline r))"

definition retain_record :: "controller_handle \<Rightarrow> controller \<Rightarrow> controller \<times> unit result" where
  "retain_record h c = (case find_record c h of None \<Rightarrow> (c, Inl (err Stale_generation))
     | Some r \<Rightarrow> if tr_references r = size_max then (c, Inl (err Overflow))
         else (put_record (cl_slot h) (r\<lparr>tr_references := tr_references r + 1\<rparr>) c, Inr ()))"

definition release_record :: "controller_handle \<Rightarrow> controller \<Rightarrow> controller \<times> unit result" where
  "release_record h c = (case find_record c h of None \<Rightarrow> (c, Inl (err Stale_generation))
     | Some r \<Rightarrow> if tr_references r = 0 then (c, Inl (err Stale_generation))
         else (put_record (cl_slot h) (r\<lparr>tr_references := tr_references r - 1\<rparr>) c, Inr ()))"

definition no_key :: transaction_key where
  "no_key = \<lparr>tk_binding_generation = 0, tk_peer = \<lparr>ps_peer = 0, ps_generation = 0\<rparr>, tk_stream_id = None,
     tk_controller = absent_id, tk_controllee = absent_id, tk_message_id = 0\<rparr>"

definition blank_record :: "nat \<Rightarrow> tracking_record" where
  "blank_record generation =
     \<lparr>tr_used = False, tr_ordinary_active = False, tr_cancel_registered = False, tr_cancel_active = False, tr_capability_query = False,
      tr_sdr_profile = False, tr_generation = generation, tr_references = 0, tr_key = no_key, tr_request = empty_envelope, tr_cancel_cam = 0,
      tr_requested_fields = 0, tr_cancel_fields = 0, tr_seen_ordinary = 0, tr_seen_cancel = 0, tr_deadline = Mono_time 0,
      tr_cancel_deadline = Mono_time 0, tr_expires = Mono_time 0, tr_observer = new_observer 0, tr_cancel_meaning = [],
      tr_ordinary_state = None, tr_cancel_state = None, tr_ordinary_capabilities = None\<rparr>"

text \<open>An expired record becomes a fresh one of the next generation.\<close>

definition expire_record :: "mono_time \<Rightarrow> tracking_record \<Rightarrow> tracking_record" where
  "expire_record now r = (if tr_used r \<and> \<not> tr_ordinary_active r \<and> \<not> tr_cancel_active r \<and> tr_references r = 0 \<and> now \<ge> tr_expires r
     then blank_record (wrap64 (tr_generation r + 1)) else r)"

definition expire_controller :: "mono_time \<Rightarrow> controller \<Rightarrow> controller" where
  "expire_controller now c = c\<lparr>ct_records := map (expire_record now) (ct_records c)\<rparr>"

definition tracked_count :: "controller \<Rightarrow> nat" where
  "tracked_count c = length (filter tr_used (ct_records c))"

definition blank_relationship :: relationship where
  "blank_relationship = \<lparr>rl_used = False, rl_sdr_profile = False, rl_identity = no_key, rl_next_mid = 1\<rparr>"

definition new_controller :: "nat \<Rightarrow> nat \<Rightarrow> controller" where
  "new_controller records relationships =
     \<lparr>ct_relationships = replicate relationships blank_relationship, ct_records = replicate records (blank_record 1)\<rparr>"

section \<open>Runs\<close>

datatype controller_op =
    Ctl_register transaction_key u32 iq_profile
  | Ctl_resume relationship_handle u32
  | Ctl_track relationship_handle packet_view mono_time nat
  | Ctl_cancel controller_handle packet_view mono_time nat
  | Ctl_sent controller_handle bool
  | Ctl_receive nat peer_session bytes mono_time
  | Ctl_advance mono_time
  | Ctl_terminal controller_handle bool mono_time
  | Ctl_retain controller_handle
  | Ctl_release controller_handle
  | Ctl_expire mono_time

text \<open>The second component is the key of the request that the operation sent out, if any.\<close>

definition issued_key :: "controller \<times> (controller_handle \<times> envelope) result \<Rightarrow> controller \<times> transaction_key list" where
  "issued_key x = (fst x, case snd x of Inl _ \<Rightarrow> [] | Inr (h, _) \<Rightarrow> [tr_key (ct_records (fst x) ! cl_slot h)])"

primrec controller_step :: "(bytes \<Rightarrow> u32 \<Rightarrow> packet_view result) \<Rightarrow> nat \<Rightarrow> controller_op \<Rightarrow> controller \<Rightarrow> controller \<times> transaction_key list" where
  "controller_step decode max_bytes (Ctl_register identity next_mid profile) c = (fst (register_relationship identity next_mid profile c), [])"
| "controller_step decode max_bytes (Ctl_resume h watermark) c = (fst (resume_after h watermark c), [])"
| "controller_step decode max_bytes (Ctl_track h packet now timeout_ns) c = issued_key (track h packet now timeout_ns c)"
| "controller_step decode max_bytes (Ctl_cancel h packet now timeout_ns) c = (fst (register_cancel max_bytes h packet now timeout_ns c), [])"
| "controller_step decode max_bytes (Ctl_sent h succeeded) c = (fst (send_noted h succeeded c), [])"
| "controller_step decode max_bytes (Ctl_receive binding peer wire now) c = (fst (receive_ack decode binding peer wire now c), [])"
| "controller_step decode max_bytes (Ctl_advance now) c = (fst (advance_controller now c), [])"
| "controller_step decode max_bytes (Ctl_terminal h cancellation now) c = (fst (mark_terminal h cancellation now c), [])"
| "controller_step decode max_bytes (Ctl_retain h) c = (fst (retain_record h c), [])"
| "controller_step decode max_bytes (Ctl_release h) c = (fst (release_record h c), [])"
| "controller_step decode max_bytes (Ctl_expire now) c = (expire_controller now c, [])"

primrec run_controller :: "(bytes \<Rightarrow> u32 \<Rightarrow> packet_view result) \<Rightarrow> nat \<Rightarrow> controller_op list \<Rightarrow> controller \<Rightarrow> controller \<times> transaction_key list" where
  "run_controller decode max_bytes [] c = (c, [])"
| "run_controller decode max_bytes (x # xs) c =
     (let (c1, ks) = controller_step decode max_bytes x c; (c2, ks') = run_controller decode max_bytes xs c1 in (c2, ks @ ks'))"

section \<open>Operations that only change a record's progress\<close>

definition same_request :: "tracking_record \<Rightarrow> tracking_record \<Rightarrow> bool" where
  "same_request r r' \<longleftrightarrow> tr_used r' = tr_used r \<and> tr_key r' = tr_key r"

lemma same_request_refl [simp]: "same_request r r"
  by (simp add: same_request_def)

lemma same_request_trans: "same_request r r1 \<Longrightarrow> same_request r1 r2 \<Longrightarrow> same_request r r2"
  by (simp add: same_request_def)

lemma terminal_record_request: "terminal_record cancellation now r = Inr r' \<Longrightarrow> same_request r r'"
  by (auto simp: terminal_record_def and_then_def Let_def same_request_def split: if_splits sum.splits)

lemma late_check_request: "late_check cancellation now r = Inr r' \<Longrightarrow> same_request r r'"
  by (auto simp: late_check_def mark_late_def and_then_def Let_def same_request_def split: if_splits sum.splits
      dest!: terminal_record_request)

lemma keep_first_request: "same_request r (keep_first cancellation found r)"
  by (simp add: keep_first_def Let_def same_request_def)

lemma note_phase_request: "same_request r (fst (note_phase cancellation raw now r))"
  by (auto simp: note_phase_def Let_def same_request_def split: sum.split dest!: terminal_record_request)

lemma receive_for_request: "same_request r (fst (receive_for decode wire e raw now r))"
proof -
  have "same_request r (fst (note_phase x raw now (keep_first x found (r1\<lparr>tr_observer := ob\<rparr>))))"
    if "same_request r r1" for x found r1 ob
  proof -
    have "same_request r (r1\<lparr>tr_observer := ob\<rparr>)" using that by (simp add: same_request_def)
    then show ?thesis by (meson keep_first_request note_phase_request same_request_trans)
  qed
  moreover have "same_request r (r1\<lparr>tr_observer := ob\<rparr>)" if "same_request r r1" for r1 ob
    using that by (simp add: same_request_def)
  ultimately show ?thesis
    by (auto simp: receive_for_def Let_def split: sum.split prod.split dest: late_check_request)
qed

lemma advance_record_request: "same_request r (fst (advance_record now r))"
  by (auto simp: advance_record_def split: sum.split dest!: late_check_request intro: same_request_trans)

text \<open>Relationships stay, and a record in use was in use for the same request.\<close>

definition retains :: "controller \<Rightarrow> controller \<Rightarrow> bool" where
  "retains c c' \<longleftrightarrow> ct_relationships c' = ct_relationships c
     \<and> list_all2 (\<lambda>r r'. tr_used r' \<longrightarrow> tr_used r \<and> tr_key r' = tr_key r) (ct_records c) (ct_records c')"

lemma retains_refl [simp]: "retains c c"
  by (simp add: retains_def list_all2_refl)

lemma retains_trans: "retains c c1 \<Longrightarrow> retains c1 c2 \<Longrightarrow> retains c c2"
  by (auto simp: retains_def list_all2_conv_all_nth)

lemma put_record_retains:
  assumes "same_request (ct_records c ! i) r"
  shows "retains c (put_record i r c)"
proof -
  have "tr_used (ct_records c ! j) \<and> tr_key ((ct_records c)[i := r] ! j) = tr_key (ct_records c ! j)"
    if "j < length (ct_records c)" "tr_used ((ct_records c)[i := r] ! j)" for j
    using that assms by (cases "j = i") (simp_all add: same_request_def)
  then show ?thesis by (simp add: retains_def put_record_def list_all2_conv_all_nth)
qed

lemma find_record_at: "find_record c h = Some r \<Longrightarrow> r = ct_records c ! cl_slot h"
  by (auto simp: find_record_def Let_def split: if_splits)

lemma advance_from_retains: "retains c (fst (advance_from now is c))"
proof (induction "is" arbitrary: c)
  case (Cons i "is")
  have "retains c (put_record i (fst (advance_record now (ct_records c ! i))) c)"
    by (intro put_record_retains advance_record_request)
  with Cons.IH show ?case by (auto split: prod.split sum.split intro: retains_trans)
qed simp

lemma register_cancel_retains: "retains c (fst (register_cancel max_bytes h packet now timeout_ns c))"
proof (cases "find_record c h")
  case (Some r)
  have "retains c (put_record (cl_slot h) (r\<lparr>tr_cancel_registered := True, tr_cancel_active := True, tr_cancel_fields := selected,
      tr_cancel_cam := cam, tr_cancel_deadline := limit, tr_cancel_meaning := bs\<rparr>) c)" for selected cam limit bs
    using find_record_at [OF Some] by (intro put_record_retains) (simp add: same_request_def)
  with Some show ?thesis by (simp add: register_cancel_def Let_def split: option.split sum.split prod.split)
qed (simp add: register_cancel_def)

lemma receive_ack_retains: "retains c (fst (receive_ack decode binding peer wire now c))"
proof -
  have "retains c (put_record i (fst (receive_for decode wire e raw now (ct_records c ! i))) c)" for i e raw
    by (intro put_record_retains receive_for_request)
  then show ?thesis
    by (auto simp: receive_ack_def Let_def case_prod_beta split: sum.split option.split bool.split)
qed

lemma handle_retains:
  "retains c (fst (send_noted h succeeded c))" "retains c (fst (retain_record h c))" "retains c (fst (release_record h c))"
  "retains c (fst (mark_terminal h cancellation now c))"
  by (auto simp: send_noted_def retain_record_def release_record_def mark_terminal_def same_request_def
      split: option.split sum.split intro!: put_record_retains dest!: find_record_at terminal_record_request)

lemma expire_retains: "retains c (expire_controller now c)"
  by (simp add: retains_def expire_controller_def expire_record_def blank_record_def list_all2_conv_all_nth)

section \<open>Message identifiers are given out once\<close>

definition same_wire_request :: "transaction_key \<Rightarrow> transaction_key \<Rightarrow> bool" where
  "same_wire_request a b \<longleftrightarrow> same_wire_relationship a b \<and> tk_message_id a = tk_message_id b"

definition relationships_inv :: "transaction_key list \<Rightarrow> relationship list \<Rightarrow> bool" where
  "relationships_inv issued rls \<longleftrightarrow>
     (\<forall>i < length rls. \<forall>j < length rls. rl_used (rls ! i) \<longrightarrow> rl_used (rls ! j)
        \<longrightarrow> same_wire_relationship (rl_identity (rls ! i)) (rl_identity (rls ! j)) \<longrightarrow> i = j)
     \<and> (\<forall>k \<in> set issued. \<exists>i < length rls. rl_used (rls ! i)
        \<and> same_wire_relationship k (rl_identity (rls ! i)) \<and> unat (tk_message_id k) < rl_next_mid (rls ! i))"

definition records_inv :: "transaction_key list \<Rightarrow> tracking_record list \<Rightarrow> bool" where
  "records_inv issued rs \<longleftrightarrow>
     (\<forall>i < length rs. tr_used (rs ! i) \<longrightarrow> tr_key (rs ! i) \<in> set issued)
     \<and> (\<forall>i < length rs. \<forall>j < length rs. tr_used (rs ! i) \<longrightarrow> tr_used (rs ! j) \<longrightarrow> same_key (tr_key (rs ! i)) (tr_key (rs ! j)) \<longrightarrow> i = j)"

definition controller_inv :: "transaction_key list \<Rightarrow> controller \<Rightarrow> bool" where
  "controller_inv issued c \<longleftrightarrow> relationships_inv issued (ct_relationships c) \<and> records_inv issued (ct_records c)
     \<and> sorted_wrt (\<lambda>a b. \<not> same_wire_request a b) issued"

lemma same_wire_equiv:
  "same_wire_relationship a b \<Longrightarrow> same_wire_relationship b a"
  "same_wire_relationship a b \<Longrightarrow> same_wire_relationship b d \<Longrightarrow> same_wire_relationship a d"
  by (auto simp: same_wire_relationship_def same_identifier_eq)

lemma same_key_wire: "same_key a b \<Longrightarrow> same_wire_request a b"
  by (simp add: same_key_def same_wire_relationship_def same_wire_request_def)

lemma same_wire_mid [simp]: "same_wire_relationship (a\<lparr>tk_message_id := m\<rparr>) b = same_wire_relationship a b"
  "same_wire_relationship a (b\<lparr>tk_message_id := m\<rparr>) = same_wire_relationship a b" "same_wire_relationship a a"
  by (simp_all add: same_wire_relationship_def same_identifier_eq)

lemma retains_inv:
  assumes inv: "controller_inv issued c" and keep: "retains c c'"
  shows "controller_inv issued c'"
proof -
  have rls: "ct_relationships c' = ct_relationships c" and len: "length (ct_records c') = length (ct_records c)"
    and used: "\<And>i. i < length (ct_records c) \<Longrightarrow> tr_used (ct_records c' ! i)
      \<Longrightarrow> tr_used (ct_records c ! i) \<and> tr_key (ct_records c' ! i) = tr_key (ct_records c ! i)"
    using keep by (auto simp: retains_def list_all2_conv_all_nth)
  have "records_inv issued (ct_records c)" using inv by (simp add: controller_inv_def)
  then have "records_inv issued (ct_records c')"
    unfolding records_inv_def len by (intro conjI allI impI) (use used in \<open>metis+\<close>)
  with inv show ?thesis by (simp add: controller_inv_def rls)
qed

text \<open>A key under the next message identifier of a relationship has not been given out.\<close>

definition next_key :: "relationship \<Rightarrow> transaction_key" where
  "next_key rl = (rl_identity rl)\<lparr>tk_message_id := word_of_nat (rl_next_mid rl)\<rparr>"

lemma issued_relationship:
  assumes "relationships_inv issued rls" "k \<in> set issued"
  obtains j where "j < length rls" "rl_used (rls ! j)" "same_wire_relationship k (rl_identity (rls ! j))"
    "unat (tk_message_id k) < rl_next_mid (rls ! j)"
  using assms unfolding relationships_inv_def by blast

lemma next_key_is_new:
  assumes inv: "relationships_inv issued rls" and i: "i < length rls" "rl_used (rls ! i)"
    and room: "rl_next_mid (rls ! i) \<le> u32_max" and k: "k \<in> set issued"
  shows "\<not> same_wire_request k (next_key (rls ! i))"
proof
  assume same: "same_wire_request k (next_key (rls ! i))"
  then have wire: "same_wire_relationship k (rl_identity (rls ! i))" by (simp add: next_key_def same_wire_request_def)
  obtain j where j: "j < length rls" "rl_used (rls ! j)"
      "same_wire_relationship k (rl_identity (rls ! j))" "unat (tk_message_id k) < rl_next_mid (rls ! j)"
    using issued_relationship [OF inv k] by metis
  have "same_wire_relationship (rl_identity (rls ! j)) (rl_identity (rls ! i))"
    using same_wire_equiv(2) [OF same_wire_equiv(1) [OF j(3)] wire] .
  with inv i j(1,2) have "j = i" unfolding relationships_inv_def by blast
  moreover have "unat (tk_message_id k) = rl_next_mid (rls ! i)"
    using same room by (simp add: same_wire_request_def next_key_def unat_of_nat u32_max_def)
  ultimately show False using j(4) by simp
qed

lemma relationships_inv_bump:
  assumes "relationships_inv issued rls" "i < length rls" "rl_next_mid (rls ! i) \<le> n"
  shows "relationships_inv issued (rls[i := (rls ! i)\<lparr>rl_next_mid := n\<rparr>])"
proof -
  define rls' where "rls' = rls[i := (rls ! i)\<lparr>rl_next_mid := n\<rparr>]"
  have len: "length rls' = length rls" by (simp add: rls'_def)
  have same: "rl_used (rls' ! j) = rl_used (rls ! j)" "rl_identity (rls' ! j) = rl_identity (rls ! j)"
    "rl_next_mid (rls ! j) \<le> rl_next_mid (rls' ! j)" for j
    using assms(2,3) by (cases "j = i"; simp add: rls'_def)+
  have "\<exists>j < length rls. rl_used (rls ! j) \<and> same_wire_relationship k (rl_identity (rls ! j))
      \<and> unat (tk_message_id k) < rl_next_mid (rls' ! j)" if "k \<in> set issued" for k
    using assms(1) that same(3) unfolding relationships_inv_def by (meson order_less_le_trans)
  with assms(1) show ?thesis unfolding rls'_def [symmetric] relationships_inv_def len same by blast
qed

lemma relationships_inv_snoc:
  assumes inv: "relationships_inv issued rls" and i: "i < length rls" "rl_used (rls ! i)" and room: "rl_next_mid (rls ! i) \<le> u32_max"
  shows "relationships_inv (issued @ [next_key (rls ! i)]) (rls[i := (rls ! i)\<lparr>rl_next_mid := rl_next_mid (rls ! i) + 1\<rparr>])"
proof -
  let ?rls = "rls[i := (rls ! i)\<lparr>rl_next_mid := rl_next_mid (rls ! i) + 1\<rparr>]"
  have "\<exists>j < length ?rls. rl_used (?rls ! j) \<and> same_wire_relationship (next_key (rls ! i)) (rl_identity (?rls ! j))
      \<and> unat (tk_message_id (next_key (rls ! i))) < rl_next_mid (?rls ! j)"
    using i room by (intro exI [of _ i]) (simp add: next_key_def unat_of_nat u32_max_def)
  with relationships_inv_bump [OF inv i(1), of "rl_next_mid (rls ! i) + 1"] show ?thesis
    unfolding relationships_inv_def by auto
qed

lemma records_inv_snoc:
  assumes inv: "records_inv issued rs" and r: "tr_used r" and new: "\<And>k. k \<in> set issued \<Longrightarrow> \<not> same_key k (tr_key r)"
  shows "records_inv (issued @ [tr_key r]) (rs[i := r])"
proof -
  have apart: "\<not> same_key (tr_key (rs ! j)) (tr_key r)" "\<not> same_key (tr_key r) (tr_key (rs ! j))"
    if "j < length rs" "tr_used (rs ! j)" for j
    using inv new that by (auto simp: records_inv_def same_key_sym [of "tr_key r"])
  have "j = l" if "j < length rs" "l < length rs" "tr_used (rs[i := r] ! j)" "tr_used (rs[i := r] ! l)"
      "same_key (tr_key (rs[i := r] ! j)) (tr_key (rs[i := r] ! l))" for j l
    using that apart inv by (cases "j = i"; cases "l = i") (auto simp: records_inv_def)
  moreover have "tr_key (rs[i := r] ! j) \<in> set (issued @ [tr_key r])" if "j < length rs" "tr_used (rs[i := r] ! j)" for j
    using that inv by (cases "j = i") (auto simp: records_inv_def)
  ultimately show ?thesis by (simp add: records_inv_def)
qed

lemma track_guard_room: "track_guard rl packet now timeout_ns = Inr plan \<Longrightarrow> rl_next_mid rl \<le> u32_max"
  by (auto simp: track_guard_def Let_def and_then_def not_less split: if_splits sum.splits)

lemma new_record_key: "tr_used (new_record g rl e plan)"
  "tr_key (new_record g rl e plan) = next_key rl"
  by (cases plan rule: prod_cases3; simp add: new_record_def next_key_def Let_def)+

lemma track_cases:
  "(\<exists>x. track h packet now timeout_ns c = (c, Inl x)) \<or>
   (\<exists>i plan. let rl = ct_relationships c ! rn_slot h; r = new_record (tr_generation (ct_records c ! i)) rl (view_envelope (pv_envelope packet)) plan in
      used_relationship c h \<and> rl_next_mid rl \<le> u32_max \<and> i < length (ct_records c) \<and> \<not> tr_used (ct_records c ! i)
      \<and> track h packet now timeout_ns c =
          (put_record i r (c\<lparr>ct_relationships := (ct_relationships c)[rn_slot h := rl\<lparr>rl_next_mid := rl_next_mid rl + 1\<rparr>]\<rparr>),
           Inr (\<lparr>cl_slot = i, cl_generation = tr_generation r\<rparr>, tr_request r)))"
proof (cases "used_relationship c h")
  case True
  show ?thesis
  proof (cases "track_guard (ct_relationships c ! rn_slot h) packet now timeout_ns")
    case (Inr plan)
    show ?thesis
    proof (cases "free_record c")
      case (Some i)
      then have "i < length (ct_records c)" "\<not> tr_used (ct_records c ! i)"
        by (auto simp: free_record_def find_Some_iff)
      then show ?thesis using True Inr Some track_guard_room [OF Inr]
        by (intro disjI2 exI [of _ i] exI [of _ plan]) (simp add: track_def Let_def)
    qed (use True Inr in \<open>simp add: track_def Let_def\<close>)
  qed (use True in \<open>simp add: track_def Let_def\<close>)
qed (simp add: track_def)

lemma track_inv:
  assumes inv: "controller_inv issued c" and out: "issued_key (track h packet now timeout_ns c) = (c', ks)"
  shows "controller_inv (issued @ ks) c'"
  using track_cases [of h packet now timeout_ns c]
proof (elim disjE exE)
  fix x assume "track h packet now timeout_ns c = (c, Inl x)"
  with inv out show ?thesis by (auto simp: issued_key_def)
next
  fix i plan
  define rl where "rl = ct_relationships c ! rn_slot h"
  define r where "r = new_record (tr_generation (ct_records c ! i)) rl (view_envelope (pv_envelope packet)) plan"
  assume "let rl = ct_relationships c ! rn_slot h; r = new_record (tr_generation (ct_records c ! i)) rl (view_envelope (pv_envelope packet)) plan in
      used_relationship c h \<and> rl_next_mid rl \<le> u32_max \<and> i < length (ct_records c) \<and> \<not> tr_used (ct_records c ! i)
      \<and> track h packet now timeout_ns c =
          (put_record i r (c\<lparr>ct_relationships := (ct_relationships c)[rn_slot h := rl\<lparr>rl_next_mid := rl_next_mid rl + 1\<rparr>]\<rparr>),
           Inr (\<lparr>cl_slot = i, cl_generation = tr_generation r\<rparr>, tr_request r))"
  then have h: "rn_slot h < length (ct_relationships c)" "rl_used rl" and room: "rl_next_mid rl \<le> u32_max" and i: "i < length (ct_records c)"
    and eq: "track h packet now timeout_ns c =
          (put_record i r (c\<lparr>ct_relationships := (ct_relationships c)[rn_slot h := rl\<lparr>rl_next_mid := rl_next_mid rl + 1\<rparr>]\<rparr>),
           Inr (\<lparr>cl_slot = i, cl_generation = tr_generation r\<rparr>, tr_request r))"
    by (simp_all add: Let_def used_relationship_def flip: rl_def r_def)
  have r: "tr_used r" "tr_key r = next_key rl" by (simp_all add: r_def new_record_key)
  have c': "ct_relationships c' = (ct_relationships c)[rn_slot h := rl\<lparr>rl_next_mid := rl_next_mid rl + 1\<rparr>]"
    "ct_records c' = (ct_records c)[i := r]" "ks = [next_key rl]"
    using out i r by (auto simp: eq issued_key_def put_record_def)
  have new: "\<not> same_wire_request k (next_key rl)" if "k \<in> set issued" for k
    using inv h room that next_key_is_new [of issued "ct_relationships c" "rn_slot h" k] by (simp add: controller_inv_def rl_def)
  have "relationships_inv (issued @ ks) (ct_relationships c')"
    using inv h room relationships_inv_snoc [of issued "ct_relationships c" "rn_slot h"] by (simp add: c' controller_inv_def rl_def)
  moreover have "records_inv (issued @ ks) (ct_records c')"
    using inv records_inv_snoc [of issued "ct_records c" r i] new same_key_wire r by (auto simp add: c' controller_inv_def)
  moreover have "sorted_wrt (\<lambda>a b. \<not> same_wire_request a b) (issued @ ks)"
    using inv new by (simp add: c' controller_inv_def sorted_wrt_append)
  ultimately show ?thesis by (simp add: controller_inv_def)
qed

lemma existing_relationship_None:
  "existing_relationship identity sdr rls n = Inr None \<Longrightarrow> i < length rls \<Longrightarrow> rl_used (rls ! i)
   \<Longrightarrow> \<not> same_wire_relationship (rl_identity (rls ! i)) identity"
proof (induction rls arbitrary: n i)
  case (Cons rl rls)
  then show ?case by (cases i) (auto split: if_splits)
qed simp

lemma relationships_inv_new:
  assumes inv: "relationships_inv issued rls" and i: "i < length rls" "\<not> rl_used (rls ! i)"
    and apart: "\<And>j. j < length rls \<Longrightarrow> rl_used (rls ! j) \<Longrightarrow> \<not> same_wire_relationship (rl_identity (rls ! j)) (rl_identity rl)"
  shows "relationships_inv issued (rls[i := rl])"
proof -
  have "\<exists>j < length rls. rl_used (rls[i := rl] ! j) \<and> same_wire_relationship k (rl_identity (rls[i := rl] ! j))
      \<and> unat (tk_message_id k) < rl_next_mid (rls[i := rl] ! j)" if k: "k \<in> set issued" for k
  proof -
    obtain j where j: "j < length rls" "rl_used (rls ! j)" "same_wire_relationship k (rl_identity (rls ! j))"
        "unat (tk_message_id k) < rl_next_mid (rls ! j)"
      using issued_relationship [OF inv k] by metis
    from j(2) i(2) have "rls[i := rl] ! j = rls ! j" by (metis nth_list_update_neq)
    with j show ?thesis by metis
  qed
  moreover have "j = l" if "j < length rls" "l < length rls" "rl_used (rls[i := rl] ! j)" "rl_used (rls[i := rl] ! l)"
      "same_wire_relationship (rl_identity (rls[i := rl] ! j)) (rl_identity (rls[i := rl] ! l))" for j l
    using that apart inv by (cases "j = i"; cases "l = i") (auto simp: relationships_inv_def dest: same_wire_equiv(1))
  ultimately show ?thesis by (simp add: relationships_inv_def)
qed

lemma register_inv:
  assumes inv: "controller_inv issued c"
  shows "controller_inv issued (fst (register_relationship given next_mid profile c))"
proof (cases "existing_relationship (given\<lparr>tk_message_id := 0\<rparr>) (profile = Sdr_radio) (ct_relationships c) 0")
  case (Inr found)
  show ?thesis
  proof (cases found)
    case None
    note apart = existing_relationship_None [OF Inr [unfolded None]]
    show ?thesis
    proof (cases "find (\<lambda>i. \<not> rl_used (ct_relationships c ! i)) [0..<length (ct_relationships c)]")
      case (Some i)
      then have i: "i < length (ct_relationships c)" "\<not> rl_used (ct_relationships c ! i)" by (auto simp: find_Some_iff)
      have "relationships_inv issued ((ct_relationships c)[i := \<lparr>rl_used = True, rl_sdr_profile = (profile = Sdr_radio),
          rl_identity = given\<lparr>tk_message_id := 0\<rparr>, rl_next_mid = unat next_mid\<rparr>])"
        using inv i apart by (intro relationships_inv_new) (simp_all add: controller_inv_def)
      then show ?thesis using inv None Inr Some by (simp add: register_relationship_def Let_def controller_inv_def)
    qed (use inv None Inr in \<open>simp add: register_relationship_def Let_def\<close>)
  qed (use inv Inr in \<open>simp add: register_relationship_def Let_def\<close>)
qed (use inv in \<open>simp add: register_relationship_def Let_def\<close>)

lemma resume_inv: "controller_inv issued c \<Longrightarrow> controller_inv issued (fst (resume_after h watermark c))"
  using relationships_inv_bump [of issued "ct_relationships c" "rn_slot h" "unat watermark + 1"]
  by (simp add: resume_after_def used_relationship_def Let_def controller_inv_def)

lemma controller_step_inv:
  assumes inv: "controller_inv issued c" and step: "controller_step decode max_bytes x c = (c', ks)"
  shows "controller_inv (issued @ ks) c'"
proof (cases x)
  case (Ctl_register identity next_mid profile)
  then show ?thesis using step register_inv [OF inv] by auto
next
  case (Ctl_resume h watermark)
  then show ?thesis using step resume_inv [OF inv] by auto
next
  case (Ctl_track h packet now timeout_ns)
  then show ?thesis using step track_inv [OF inv] by simp
qed (use inv step retains_inv [OF inv] register_cancel_retains receive_ack_retains handle_retains expire_retains advance_from_retains
  in \<open>auto simp: advance_controller_def\<close>)

lemma controller_run_inv:
  "controller_inv issued c \<Longrightarrow> run_controller decode max_bytes xs c = (c', ks) \<Longrightarrow> controller_inv (issued @ ks) c'"
proof (induction xs arbitrary: c issued ks)
  case (Cons x xs)
  obtain c1 ks1 where 1: "controller_step decode max_bytes x c = (c1, ks1)" by fastforce
  obtain ks2 where 2: "run_controller decode max_bytes xs c1 = (c', ks2)" "ks = ks1 @ ks2"
    using Cons.prems(2) by (auto simp: 1 split: prod.splits)
  show ?case using Cons.IH [OF controller_step_inv [OF Cons.prems(1) 1] 2(1)] by (simp add: 2(2))
qed simp

lemma new_controller_inv: "controller_inv [] (new_controller n m)"
  by (simp add: controller_inv_def relationships_inv_def records_inv_def new_controller_def blank_relationship_def blank_record_def)

lemma filter_same_request: "sorted_wrt (\<lambda>a b. \<not> same_wire_request a b) ks \<Longrightarrow> length (filter (same_wire_request k) ks) \<le> 1"
proof (induction ks)
  case (Cons a ks)
  have "filter (same_wire_request k) ks = []" if "same_wire_request k a"
    using Cons.prems that
    by (auto simp: filter_empty_conv same_wire_request_def dest: same_wire_equiv(1) [of k a] same_wire_equiv(2) [of a k])
  with Cons show ?case by simp
qed simp

text \<open>C10: a controller never sends two requests that look the same on the wire, even under different local
  generations, whatever is registered, resumed, answered or expired in between, and an acknowledgement
  matches at most one of the requests it still tracks.\<close>

theorem request_keys_are_unique:
  "length (filter (same_wire_request k) (snd (run_controller decode max_bytes xs (new_controller n m)))) \<le> 1
   \<and> card {i. i < length (ct_records (fst (run_controller decode max_bytes xs (new_controller n m))))
        \<and> tr_used (ct_records (fst (run_controller decode max_bytes xs (new_controller n m))) ! i)
        \<and> same_key k (tr_key (ct_records (fst (run_controller decode max_bytes xs (new_controller n m))) ! i))} \<le> 1"
proof -
  obtain c ks where run: "run_controller decode max_bytes xs (new_controller n m) = (c, ks)" by fastforce
  from controller_run_inv [OF new_controller_inv this] have inv: "controller_inv ks c" by simp
  have "i = j" if "i \<in> {i. i < length (ct_records c) \<and> tr_used (ct_records c ! i) \<and> same_key k (tr_key (ct_records c ! i))}"
      "j \<in> {i. i < length (ct_records c) \<and> tr_used (ct_records c ! i) \<and> same_key k (tr_key (ct_records c ! i))}" for i j
    using inv that same_key_equiv(3) [OF same_key_equiv(2)] by (simp add: controller_inv_def records_inv_def) blast
  then have "card {i. i < length (ct_records c) \<and> tr_used (ct_records c ! i) \<and> same_key k (tr_key (ct_records c ! i))} \<le> 1"
    by (simp add: card_le_Suc0_iff_eq)
  moreover have "length (filter (same_wire_request k) ks) \<le> 1"
    using inv by (intro filter_same_request) (simp add: controller_inv_def)
  ultimately show ?thesis by (simp add: run)
qed

end
