(* ===== verification/Spec2Isabelle.thy ===== *)
theory Spec2Isabelle
  imports Stream_Framer Counters Routing Scheduling Executor Tickets Budget Rx_Envelope Framing Scalar_Codec
    State_Contracts Sample_Descriptors Packet_View Responses Receiver Manager Controller
begin

text \<open>
  Verification development for the VITA 49.2 framework (headers under \<^verbatim>\<open>src/include/vita\<close>).

  The framework is a header-only library. A \<^emph>\<open>codec\<close> turns packets into bytes; a \<^emph>\<open>transport\<close> layer
  cuts streams into packets and keeps packet memory in fixed pools; a \<^emph>\<open>stream\<close> layer routes packets and
  counts them; a \<^emph>\<open>timing\<close> layer relates samples, protocol time and the host clock; an \<^emph>\<open>execution\<close>
  layer admits work against fixed budgets; and the \<^emph>\<open>transaction\<close> layer on top plans commands, executes
  them on a device, answers them, and remembers them, while the controller concludes from the answers
  what happened. All storage is fixed at start, so most operations can refuse.

  \<^bold>\<open>Conventions.\<close> \<open>Result<T>\<close> is \<open>error + 'a\<close> (\<open>result\<close> of \<open>Prelude\<close>). A mutating member function is a
  function from the object's record to the new record and the result. Words read from or written to
  the wire are \<open>u8\<close>, \<open>u32\<close>, \<open>u64\<close>; sizes, generations and times are naturals with the C++ checks and, where
  the code may wrap, the wrap written out (\<open>wrap64\<close>, \<open>u64_wrap\<close>). Device callbacks, clocks and allocators
  are parameters. A pointer is the index of the object in an explicit store where aliasing matters
  (\<open>Memory_Pool\<close>, \<open>Rx_Envelope\<close>), otherwise the object itself.

  \<^bold>\<open>Foundations.\<close>
  \<^item> \<open>Prelude\<close>: \<^verbatim>\<open>core/\<close> errors, results, checked arithmetic, big-endian loads and stores, byte ranges.
  \<^item> \<open>Slots\<close>: arrays of optional entries, with a locale for registries keyed by an equivalence.

  \<^bold>\<open>Codec.\<close>
  \<^item> \<open>Wire\<close>, \<open>Wire_Roundtrip\<close>: \<^verbatim>\<open>codec/wire.hpp\<close>. Encoding then decoding gives the canonical envelope and
    payload, decoding then encoding gives the bytes; the split and one-shot encoders agree.
  \<^item> \<open>Field_Ids\<close>, \<open>Field_Values\<close>, \<open>Scalar_Codec\<close>, \<open>Packet_View\<close>: \<^verbatim>\<open>fields/types.hpp\<close>,
    \<^verbatim>\<open>codec/scalar.hpp\<close>, the view types of \<^verbatim>\<open>codec/packet.hpp\<close>. Round trips of every valid scalar field; the one
    value that is accepted and not representable (a known noise figure of zero) is named.
  \<^item> \<open>Packed_Samples\<close>, \<open>Numeric_Samples\<close>, \<open>Ieee_Samples\<close>, \<open>Sample_Descriptors\<close>: the sample headers of
    \<^verbatim>\<open>codec/\<close>. Packing round trips, exact encodings, and descriptors against their 64-bit field.

  \<^bold>\<open>Transport, memory and streams.\<close>
  \<^item> \<open>Stream_Framer\<close>, \<open>Framing\<close>: \<^verbatim>\<open>runtime/transport/\<close>. The framer refines a specification on whole
    streams, however the bytes arrive.
  \<^item> \<open>Memory_Pool\<close>, \<open>Rx_Envelope\<close>: \<^verbatim>\<open>memory/\<close>. Block layout on the memory provided, exact reference
    counts and best-fit acquisition under any interleaving, envelopes that read exactly their cells.
  \<^item> \<open>Counters\<close>, \<open>Routing\<close>: \<^verbatim>\<open>runtime/stream/\<close>. Registries refine maps; lookup is exact.

  \<^bold>\<open>Timing and execution.\<close>
  \<^item> \<open>Timing\<close>, \<open>Timeline\<close>, \<open>Clock\<close>, \<open>Scheduling\<close>: \<^verbatim>\<open>runtime/timing/\<close>. Exact arithmetic against rational
    numbers, the sample timeline, and the choice of a boundary against a specification in picoseconds.
  \<^item> \<open>Admission\<close>, \<open>Executor\<close>, \<open>Tickets\<close>, \<open>Budget\<close>: \<^verbatim>\<open>runtime/execution/\<close>, \<^verbatim>\<open>runtime/completion/\<close>. Credits
    are conserved, tasks run in order, a stale ticket cannot complete.

  \<^bold>\<open>Transactions.\<close>
  \<^item> \<open>State_Contracts\<close>: \<^verbatim>\<open>runtime/state/contracts.hpp\<close> and \<^verbatim>\<open>profiles/iq/sdr.hpp\<close>.
  \<^item> \<open>Commands\<close>: \<^verbatim>\<open>runtime/transaction/cam.hpp\<close>, \<^verbatim>\<open>trace.hpp\<close>, \<^verbatim>\<open>cancellation.hpp\<close>.
  \<^item> \<open>Planning\<close>: request extraction and \<open>validate_plan\<close> of \<^verbatim>\<open>engine.hpp\<close>. Plans are ordered and closed
    under dependencies, exist exactly for acyclic dependencies, carry admissible values only, and
    committing one keeps the device state valid.
  \<^item> \<open>Dispatch\<close>: outcomes, acknowledgements and the loop over a plan of \<^verbatim>\<open>engine.hpp\<close>. The loop ends and a
    simulation decides every field.
  \<^item> \<open>Backend\<close>: \<^verbatim>\<open>backend.hpp\<close>, results, completion capabilities, the virtual device. The engine takes
    any device as a record of callbacks over its state.
  \<^item> \<open>Engine\<close>: admission, progress, cancellation, quiescence, reset and release of \<^verbatim>\<open>engine.hpp\<close> over
    the slots. The effect stage goes to the earliest command.
  \<^item> \<open>Slot_Lives\<close>, \<open>Engine_Safety\<close>: every operation of the engine is a sequence of steps of a small
    transition system on the slots' flags, whatever the device does; hence at most one command acts on
    the device, released handles stay stale and a quiescing engine drains.
  \<^item> \<open>Revisions\<close>: \<^verbatim>\<open>runtime/context/revisions.hpp\<close>, the numbered states the engine's effects become.
    Reservations are honoured and publication groups are complete.
  \<^item> \<open>Publisher\<close>, \<open>Receiver\<close>: \<^verbatim>\<open>runtime/context/publisher.hpp\<close>, \<^verbatim>\<open>receiver.hpp\<close>. Published states never go back
    in time or contradict each other, data follows its context, and data is delivered as known only
    with a state that was reported for its time.
  \<^item> \<open>Retention\<close>: \<^verbatim>\<open>retention.hpp\<close> refines an append-only log and recognises duplicates.
  \<^item> \<open>Manager\<close>: \<^verbatim>\<open>manager.hpp\<close>, which joins the engine and the retention store over one admission pool.
    Its entries and the engine's slots in use correspond one to one after every sequence of calls.
  \<^item> \<open>Observer\<close>, \<open>Responses\<close>: \<^verbatim>\<open>outcomes.hpp\<close>, both ends of an acknowledgement.
  \<^item> \<open>Controller\<close>: \<^verbatim>\<open>controller.hpp\<close>, the requests a controller tracks and the acknowledgements it
    matches with them. A message identifier is never used twice between the same parties.

  The theorem of this theory spans the last group: what a controller concludes from an
  acknowledgement is what happened on the device.

  \<^bold>\<open>Loops.\<close> Bounded loops are \<open>primrec\<close> over the list of indices the C++ loop visits. Loops whose bound is
  not syntactic have a termination proof or are partial functions with a theorem that they return
  (the dispatch loop). One loop takes fuel, the framer's \<open>feed_loop\<close>: one unit per input byte, since every
  round consumes a byte, and the refinement theorem of \<open>Stream_Framer\<close> includes that it returns.

  \<^bold>\<open>Not modelled.\<close> Sockets and threads; atomics are modelled as single steps. The packet traversal and
  builders of \<^verbatim>\<open>fields/packet.hpp\<close> and \<^verbatim>\<open>codec/packet.hpp\<close>, so every consumer is proved for arbitrary
  packet views. Structured field bodies, layouts and extension packets. The encoding of context frames,
  which uses the builders, the runtime facade, and the signal generators. Callbacks that call back into the engine see it as
  progressing and are refused; they are not interleaved with its steps.
\<close>

section \<open>From the controller's command to the controller's conclusion\<close>

lemma request_timing_not_seven:
  "validate_cam e raw = Inr () \<Longrightarrow> \<not> env_ack e \<Longrightarrow> cm_timing (cam_of_raw raw) \<noteq> 7"
  by (auto simp: validate_cam_def cam_of_raw_def Let_def word_less_nat_alt split: if_split_asm)

text \<open>C3: A controller's command reaches the device, is planned and executed in any way whatever, and its
  execution acknowledgement is encoded and delivered. The controller that sent the command concludes
  that it was executed exactly when every planned field has the outcome executed and none of them
  missed its time, whenever the acknowledgement carries no field of indeterminate state.\<close>

theorem confirmation_is_exact:
  assumes request: "request_from packet profile = Inr (pl_request pl)"
    and command: "env_command (view_envelope (pv_envelope packet)) = Some command" "cam_action (cmd_cam command) = 2"
    and n: "0 < ep_count (pl_execution pl)"
    and e: "response_envelope (make_ack env now pl Ack_execution observed) k = Inr (view_envelope (pv_envelope p))"
    and p: "\<not> pv_requires_request_context p" "\<not> pv_opaque p"
    and scan: "scan_diagnostics (pv_fields p) False (bit (response_cam (make_ack env now pl Ack_execution observed)) 16)
      = Inr (False, verr)"
    and c: "co_message_id c = cmd_message_id command"
  shows "\<exists>ev. response_event c p = Inr ev \<and> ob_response_kind ev = Ob_execution
    \<and> (ob_confirms_execution ev \<longleftrightarrow> (\<forall>i < ep_count (pl_execution pl).
         fo_status (pl_outcomes pl ! i) = Field_executed \<and> timing_clean pl i))"
proof -
  let ?ack = "make_ack env now pl Ack_execution observed"
  note header = request_from_header [OF request]
  have cmd: "rq_cam (pl_request pl) = cam_of_raw (cmd_cam command)" "validate_cam (rq_envelope (pl_request pl)) (cmd_cam command) = Inr ()"
    "\<not> env_ack (rq_envelope (pl_request pl))" "\<not> env_cancel (rq_envelope (pl_request pl))"
    "env_type (rq_envelope (pl_request pl)) = Command_packet" "env_command (rq_envelope (pl_request pl)) = Some command"
    using header command by auto
  have "cm_action (rq_cam (pl_request pl)) \<noteq> 0" using command(2) by (simp add: cmd(1) cam_of_raw_def)
  note ack = make_ack_execution [OF this n, of env now observed]
  have for_cmd: "ack_for_command ?ack command"
    using cmd ack(1-4) by (simp add: ack_for_command_def cam_of_raw_def)
  have "observed_phase ?ack = Ob_execution" using ack(3,4) by (simp add: observed_phase_def)
  moreover have "wire_timing ?ack \<noteq> 7" if "\<forall>i < ep_count (pl_execution pl). timing_clean pl i"
    using that request_timing_not_seven [OF cmd(2,3)] by (simp add: wire_timing_def ack(7) cmd(1))
  ultimately show ?thesis
    using ack_reaches_controller [OF e for_cmd _ p scan c] ack(3-6) command(2) by auto
qed

text \<open>A command for one sample rate, executed.\<close>

definition sample_rate_command :: packet_view where
  "sample_rate_command = \<lparr>pv_envelope = \<lparr>view_envelope = empty_envelope\<lparr>env_type := Command_packet,
       env_command := Some \<lparr>cmd_cam = 0x01080000, cmd_message_id = 7, cmd_controllee = absent_id,
         cmd_controller = absent_id\<rparr>\<rparr>,
     view_payload = [], view_trailer = None, view_payload_offset = 0, view_wire = []\<rparr>,
   pv_fields = [\<lparr>fv_id = SampleRate_id, fv_attribute = Current, fv_kind = Body_values, fv_group = Group_none,
     fv_bytes = [0, 0, 0, 0xf4, 0x24, 0, 0, 0]\<rparr>],
   pv_body_kind = Body_values, pv_opaque = False, pv_change = False, pv_requires_request_context = False\<rparr>"

definition sample_rate_storage :: "request \<Rightarrow> planning_storage" where
  "sample_rate_storage r = fresh_storage\<lparr>pl_request := r, pl_execution := fresh_plan\<lparr>ep_count := 1,
       ep_fields := (ep_fields fresh_plan)[0 := no_planned_field\<lparr>pf_id := SampleRate_id, pf_eligible := True\<rparr>]\<rparr>,
     pl_outcomes := (replicate 5 no_outcome)[0 := no_outcome\<lparr>fo_id := SampleRate_id, fo_status := Field_executed,
       fo_value := SV_hertz (Hertz 0xf424000000), fo_validity := Known\<rparr>]\<rparr>"

lemma sample_rate_value: "field_value (hd (pv_fields sample_rate_command)) = Inr (SV_hertz (Hertz 0xf424000000))"
  by code_simp

lemma sample_rate_request: "\<exists>r. request_from sample_rate_command Generic_virtual_test = Inr r"
proof -
  define v where "v = hd (pv_fields sample_rate_command)"
  have "parse_cam (view_envelope (pv_envelope sample_rate_command)) Generic_virtual_test = Inr (cam_of_raw 0x01080000)"
    by (simp add: parse_cam_def sample_rate_command_def empty_envelope_def validate_cam_def cam_action_def cam_timing_def)
  moreover have "fv_id v = SampleRate_id" "fv_attribute v = Current" "fv_kind v = Body_values"
    "pv_fields sample_rate_command = [v]" "field_value v = Inr (SV_hertz (Hertz 0xf424000000))"
    using sample_rate_value by (simp_all add: sample_rate_command_def v_def)
  ultimately show ?thesis
    by (simp add: request_from_def add_view_def note_view_def field_ids field_index_def state_fields_def state_field_capacity_def
      no_request_def)
qed

lemma tsi_code_le: "tsi_code t \<le> 3"
  by (cases t) simp_all

lemma sample_rate_header:
  assumes "request_from sample_rate_command Generic_virtual_test = Inr r"
  shows "rq_envelope r = view_envelope (pv_envelope sample_rate_command)" "rq_cam r = cam_of_raw 0x01080000"
  using request_from_header [OF assms] by (auto simp: sample_rate_command_def)

lemma sample_rate_ack:
  fixes now observed
  assumes "request_from sample_rate_command Generic_virtual_test = Inr r"
  defines "ack \<equiv> make_ack (sample_sdr_env\<lparr>eo_profile := Generic_virtual_test\<rparr>) now (sample_rate_storage r) Ack_execution observed"
  shows "response_cam ack = 0x01080400" "response_envelope ack 0 = Inr (view_envelope (pv_envelope sample_ack))"
proof -
  note header = sample_rate_header [OF assms(1)]
  have fields: "pl_request (sample_rate_storage r) = r" "ep_count (pl_execution (sample_rate_storage r)) = 1"
    "ep_fields (pl_execution (sample_rate_storage r)) ! 0 = no_planned_field\<lparr>pf_id := SampleRate_id, pf_eligible := True\<rparr>"
    "pl_outcomes (sample_rate_storage r) ! 0 = no_outcome\<lparr>fo_id := SampleRate_id, fo_status := Field_executed,
       fo_value := SV_hertz (Hertz 0xf424000000), fo_validity := Known\<rparr>"
    by (simp_all add: sample_rate_storage_def fresh_storage_def fresh_plan_def)
  have cam: "cm_action (cam_of_raw 0x01080000) = 2" "cm_timing (cam_of_raw 0x01080000) = 0"
    by (simp_all add: cam_of_raw_def cam_action_def cam_timing_def)
  have sel: "ak_request ack = rq_envelope r" "ak_cam ack = rq_cam r" "ak_kind ack = Ack_execution" "\<not> ak_cancellation ack"
     "\<not> ak_partial ack" "ak_scheduled_or_executed ack" "ak_timing ack = 0" "\<not> ak_time_known ack"
     "ak_diagnostics ack = ak_diagnostics empty_ack"
    by (simp_all add: ack_def make_ack_def ack_field_def fields header Let_def no_outcome_def sample_sdr_env_def empty_ack_def
      cam no_diagnostics_def state_field_capacity_def eval_nat_numeral)
  show raw: "response_cam ack = 0x01080400"
    by (simp add: response_cam_def ack_summary_def ack_kind_bit_def wire_timing_def sel header empty_ack_def cam_of_raw_def
      state_field_capacity_def no_diagnostics_def eval_nat_numeral)
  show "response_envelope ack 0 = Inr (view_envelope (pv_envelope sample_ack))"
    using sel raw tsi_code_le [of "ak_epoch ack"]
    by (simp add: response_envelope_def Let_def sel header sample_rate_command_def sample_ack_def empty_ack_def empty_envelope_def)
qed

theorem confirmation_is_exact_witness:
  "\<forall>now. \<exists>r p ev. request_from sample_rate_command Generic_virtual_test = Inr r
     \<and> response_envelope (make_ack (sample_sdr_env\<lparr>eo_profile := Generic_virtual_test\<rparr>) now (sample_rate_storage r)
          Ack_execution default_snapshot) 0 = Inr (view_envelope (pv_envelope p))
     \<and> response_event (new_observer 7) p = Inr ev \<and> ob_confirms_execution ev"
proof
  fix now
  let ?env = "sample_sdr_env\<lparr>eo_profile := Generic_virtual_test\<rparr>"
  obtain r where r: "request_from sample_rate_command Generic_virtual_test = Inr r" using sample_rate_request by blast
  note ack = sample_rate_ack [OF r, of now default_snapshot]
  let ?pl = "sample_rate_storage r" and ?cmd = "\<lparr>cmd_cam = 0x01080000, cmd_message_id = 7, cmd_controllee = absent_id,
         cmd_controller = absent_id\<rparr>"
  have "pl_request ?pl = r" "ep_count (pl_execution ?pl) = 1" "fo_status (pl_outcomes ?pl ! 0) = Field_executed" "timing_clean ?pl 0"
    by (simp_all add: sample_rate_storage_def fresh_storage_def fresh_plan_def timing_clean_def no_outcome_def no_diagnostics_def)
  moreover have "env_command (view_envelope (pv_envelope sample_rate_command)) = Some ?cmd" "cam_action (cmd_cam ?cmd) = 2"
    "\<not> pv_requires_request_context sample_ack" "\<not> pv_opaque sample_ack" "pv_fields sample_ack = []"
    "co_message_id (new_observer 7) = cmd_message_id ?cmd"
    by (simp_all add: sample_rate_command_def cam_action_def sample_ack_def new_observer_def)
  moreover have "\<not> bit (0x01080400 :: u32) 16" by simp
  ultimately show "\<exists>r p ev. request_from sample_rate_command Generic_virtual_test = Inr r
     \<and> response_envelope (make_ack ?env now (sample_rate_storage r) Ack_execution default_snapshot) 0
       = Inr (view_envelope (pv_envelope p))
     \<and> response_event (new_observer 7) p = Inr ev \<and> ob_confirms_execution ev"
    using confirmation_is_exact [of sample_rate_command Generic_virtual_test ?pl ?cmd ?env now default_snapshot 0 sample_ack False "new_observer 7"]
      r ack by (intro exI [of _ r] exI [of _ sample_ack]) auto
qed

end
